(* ===== verification/Apex_Prelude.thy ===== *)
theory Apex_Prelude
  imports Main "HOL-Library.Word" "HOL-Library.Sublist" "HOL-Library.Multiset"
begin

text \<open>
  Shared vocabulary of the development: the fact collections the component proofs use,
  the loops that recur in the C code (a counted search over an array prefix, a priority
  ordered insertion, a byte copy) and the generic lemmas about them.

  \<^item> \<open>index_from\<close> is the body of every \<open>find_..._by_...\<close> routine: a \<open>for\<close> loop over an
    array that returns the first matching index or \<open>-1\<close>.
  \<^item> \<open>insert_desc\<close> is the search loop of \<open>list_insert_sorted\<close> on the sequence of values of
    a list.
  \<^item> \<open>buf_read\<close> and \<open>buf_write\<close> are \<open>memcpy\<close> from and into a kernel array of known
    length; a copy that leaves the array is \<open>None\<close>.
  \<^item> \<open>mem_read\<close> and \<open>mem_write\<close> are \<open>memcpy\<close> from and into the memory of an application.
\<close>

named_theorems apex_defs "definitions of the services, unfolded by functional proofs"
named_theorems apex_simps "facts about the operations of a component"
named_theorems wf_intros "preservation facts of the well-formedness invariants"

type_synonym byte = "8 word"
type_synonym u32 = "32 word"
type_synonym u64 = "64 word"
type_synonym addr = nat

section \<open>Searching an array prefix\<close>

fun index_from :: "int \<Rightarrow> ('a \<Rightarrow> bool) \<Rightarrow> 'a list \<Rightarrow> int" where
  "index_from i P [] = -1"
| "index_from i P (x # xs) = (if P x then i else index_from (i + 1) P xs)"

lemma index_from_cases:
  "0 \<le> i \<Longrightarrow>
   (index_from i P xs = -1 \<and> (\<forall>x \<in> set xs. \<not> P x)) \<or>
   (\<exists>k < length xs. index_from i P xs = i + int k \<and> P (xs ! k) \<and> (\<forall>j < k. \<not> P (xs ! j)))"
proof (induction i P xs rule: index_from.induct)
  case (1 i P)
  then show ?case by simp
next
  case (2 i P x xs)
  show ?case
  proof (cases "P x")
    case True
    then show ?thesis by (intro disjI2 exI [of _ 0]) auto
  next
    case False
    with "2.IH" "2.prems" consider
        (none) "index_from (i + 1) P xs = -1" "\<forall>x \<in> set xs. \<not> P x"
      | (some) k where "k < length xs" "index_from (i + 1) P xs = i + 1 + int k"
          "P (xs ! k)" "\<forall>j < k. \<not> P (xs ! j)"
      by fastforce
    then show ?thesis
    proof cases
      case none
      with False show ?thesis by simp
    next
      case some
      have "\<forall>j < Suc k. \<not> P ((x # xs) ! j)"
        using False some(4) by (auto simp: nth_Cons split: nat.splits)
      with False some show ?thesis
        by (intro disjI2 exI [of _ "Suc k"]) auto
    qed
  qed
qed

lemma index_from_notfound:
  "0 \<le> i \<Longrightarrow> index_from i P xs = -1 \<longleftrightarrow> (\<forall>x \<in> set xs. \<not> P x)"
  using index_from_cases [of i P xs] by (auto dest: nth_mem)

lemma index_from_found:
  assumes "index_from 0 P xs = r" and "r \<noteq> -1"
  shows "nat r < length xs" and "0 \<le> r" and "P (xs ! nat r)" and "\<forall>j < nat r. \<not> P (xs ! j)"
  using index_from_cases [of 0 P xs] assms by auto

lemma index_from_range: "index_from 0 P xs = -1 \<or> (0 \<le> index_from 0 P xs \<and> index_from 0 P xs < int (length xs))"
  using index_from_cases [of 0 P xs] by auto

text \<open>When the predicate holds at exactly one position the loop finds that position.\<close>

lemma index_from_unique:
  assumes "k < length xs" and "P (xs ! k)" and "\<And>j. j < length xs \<Longrightarrow> P (xs ! j) \<Longrightarrow> j = k"
  shows "index_from 0 P xs = int k"
proof -
  from assms(1,2) have "\<not> (\<forall>x \<in> set xs. \<not> P x)" by (meson nth_mem)
  with index_from_cases [of 0 P xs] obtain j where "j < length xs"
    "index_from 0 P xs = int j" "P (xs ! j)" by auto
  with assms(3) show ?thesis by blast
qed

section \<open>Priority-ordered insertion\<close>

fun insert_desc :: "('a \<Rightarrow> int) \<Rightarrow> 'a \<Rightarrow> 'a list \<Rightarrow> 'a list" where
  "insert_desc f x [] = [x]"
| "insert_desc f x (y # ys) = (if f x \<le> f y then y # insert_desc f x ys else x # y # ys)"

lemma mset_insert_desc [simp]: "mset (insert_desc f x ys) = add_mset x (mset ys)"
  by (induction ys) auto

lemma set_insert_desc [simp]: "set (insert_desc f x ys) = insert x (set ys)"
  by (induction ys) auto

lemma length_insert_desc [simp]: "length (insert_desc f x ys) = Suc (length ys)"
  by (induction ys) auto

lemma distinct_insert_desc [simp]: "distinct (insert_desc f x ys) \<longleftrightarrow> x \<notin> set ys \<and> distinct ys"
  by (induction ys) auto

lemma sorted_insert_desc:
  "sorted_wrt (\<lambda>a b. f b \<le> f a) ys \<Longrightarrow> sorted_wrt (\<lambda>a b. f b \<le> f a) (insert_desc f x ys)"
  by (induction ys) auto

text \<open>
  The insertion is stable: the new element goes behind every element of at least its
  priority and in front of every element of lower priority.
\<close>

lemma insert_desc_split:
  "sorted_wrt (\<lambda>a b. f b \<le> f a) ys \<Longrightarrow>
   insert_desc f x ys = filter (\<lambda>y. f x \<le> f y) ys @ x # filter (\<lambda>y. f y < f x) ys"
proof (induction ys)
  case Nil
  then show ?case by simp
next
  case (Cons y ys)
  show ?case
  proof (cases "f x \<le> f y")
    case True
    with Cons show ?thesis by simp
  next
    case False
    with Cons.prems have "\<forall>z \<in> set ys. f z < f x" by auto
    with False have "filter (\<lambda>y. f x \<le> f y) ys = []" and "filter (\<lambda>y. f y < f x) ys = ys"
      by (auto simp: filter_empty_conv filter_id_conv)
    with False show ?thesis by simp
  qed
qed

section \<open>Byte copies\<close>

definition buf_read :: "byte list \<Rightarrow> nat \<Rightarrow> nat \<Rightarrow> byte list option" where
  "buf_read buf off n = (if off + n \<le> length buf then Some (take n (drop off buf)) else None)"

definition buf_write :: "byte list \<Rightarrow> nat \<Rightarrow> byte list \<Rightarrow> byte list option" where
  "buf_write buf off bs =
     (if off + length bs \<le> length buf
      then Some (take off buf @ bs @ drop (off + length bs) buf) else None)"

definition mem_read :: "(addr \<Rightarrow> byte) \<Rightarrow> addr \<Rightarrow> nat \<Rightarrow> byte list" where
  "mem_read m a n = map (\<lambda>i. m (a + i)) [0..<n]"

definition mem_write :: "(addr \<Rightarrow> byte) \<Rightarrow> addr \<Rightarrow> byte list \<Rightarrow> (addr \<Rightarrow> byte)" where
  "mem_write m a bs = (\<lambda>x. if a \<le> x \<and> x < a + length bs then bs ! (x - a) else m x)"

lemma length_mem_read [simp]: "length (mem_read m a n) = n"
  by (simp add: mem_read_def)

lemma mem_read_write [simp]: "mem_read (mem_write m a bs) a (length bs) = bs"
  by (rule nth_equalityI) (auto simp: mem_read_def mem_write_def)

lemma mem_read_write_len: "n = length bs \<Longrightarrow> mem_read (mem_write m a bs) a n = bs"
  by simp

lemma buf_write_Some: "off + length bs \<le> length buf \<Longrightarrow>
    buf_write buf off bs = Some (take off buf @ bs @ drop (off + length bs) buf)"
  by (simp add: buf_write_def)

lemma buf_write_length: "buf_write buf off bs = Some buf' \<Longrightarrow> length buf' = length buf"
  by (auto simp: buf_write_def split: if_splits)

lemma buf_read_write_same:
  "buf_write buf off bs = Some buf' \<Longrightarrow> buf_read buf' off (length bs) = Some bs"
  by (auto simp: buf_write_def buf_read_def split: if_splits)

lemma buf_read_Some: "off + n \<le> length buf \<Longrightarrow> buf_read buf off n = Some (take n (drop off buf))"
  by (simp add: buf_read_def)

lemma buf_read_length: "buf_read buf off n = Some bs \<Longrightarrow> length bs = n"
  by (auto simp: buf_read_def split: if_splits)

text \<open>A copy leaves every disjoint range of the array alone.\<close>

lemma buf_read_write_disjoint:
  assumes "buf_write buf off bs = Some buf'" and "off' + n \<le> off \<or> off + length bs \<le> off'"
  shows "buf_read buf' off' n = buf_read buf off' n"
proof -
  from assms(1) have buf': "buf' = take off buf @ bs @ drop (off + length bs) buf"
    and le: "off + length bs \<le> length buf"
    by (auto simp: buf_write_def split: if_splits)
  then have len: "length buf' = length buf" by simp
  have "take n (drop off' buf') = take n (drop off' buf)" if "off' + n \<le> length buf"
  proof (rule nth_equalityI)
    show "length (take n (drop off' buf')) = length (take n (drop off' buf))"
      using len by simp
  next
    fix i assume "i < length (take n (drop off' buf'))"
    with that len have i: "i < n" by simp
    with assms(2) le that show "take n (drop off' buf') ! i = take n (drop off' buf) ! i"
      by (auto simp: buf' nth_append)
  qed
  with len show ?thesis by (simp add: buf_read_def)
qed

section \<open>Ring indices\<close>

text \<open>Indices of a bounded ring buffer: the step \<open>(i + 1) % n\<close> stays in range.\<close>

lemma ring_step_less: "0 < n \<Longrightarrow> (i + 1) mod n < (n :: nat)"
  by simp

lemma unat_ring_step:
  fixes i n :: u32
  assumes "i < n"
  shows "unat ((i + 1) mod n) = (unat i + 1) mod unat n"
proof -
  have "unat n < 2 ^ 32" using unsigned_less [of n, where ?'a = nat] by simp
  with assms have "unat (i + 1) = unat i + 1"
    by (simp add: word_less_nat_alt unat_word_ariths)
  then show ?thesis by (simp add: unat_mod)
qed

lemma distinct_remove1_hd: "distinct xs \<Longrightarrow> xs \<noteq> [] \<Longrightarrow> remove1 (hd xs) xs = tl xs"
  by (cases xs) auto

lemma set_remove1_distinct [simp]: "distinct xs \<Longrightarrow> set (remove1 x xs) = set xs - {x}"
  by (rule set_remove1_eq)

end
