(* ===== verification/Linked_List.thy ===== *)
theory Linked_List
  imports Apex_Prelude
begin

text \<open>
  The singly linked lists of \<open>lib/list.c\<close>, at the level of the nodes: a list has a head
  and a tail sentinel, and its elements are the data of the nodes between them. The heap
  maps the address of an allocated node to its fields; reading or writing an address that
  is not allocated (null, freed, never allocated) is \<open>None\<close>, and so is a loop that does not
  end. \<open>malloc\<close> belongs to \<open>lib/malloc.c\<close>: the address it returned, \<open>0\<close> when it failed,
  is a parameter of the operations that allocate, and the lemmas assume only that a
  non-null result was not allocated before.

  \<open>list_rep\<close> relates a heap and a list header to the sequence of (address, data) pairs of
  its nodes. Every operation is shown to return, without a stray access, and to act on that
  sequence as the list operations with which the other theories model waiting queues and
  process lists: \<open>@ [v]\<close>, \<open>#\<close>, \<open>tl\<close>, \<open>butlast\<close>, \<open>remove1\<close>, \<open>insert_desc\<close>, \<open>find\<close>. The locale
  \<open>node_list\<close> is that interface; it is interpreted on the operations of \<open>list.c\<close>.
\<close>

record node_s =
  node_next :: addr
  node_data :: nat

record list_s =
  list_head :: addr
  list_tail :: addr
  list_length :: int

type_synonym node_heap = "addr \<Rightarrow> node_s option"

section \<open>Operations\<close>

definition set_next :: "addr \<Rightarrow> addr \<Rightarrow> node_heap \<Rightarrow> node_heap option" where
  "set_next a n h = map_option (\<lambda>c. h(a \<mapsto> c\<lparr>node_next := n\<rparr>)) (h a)"

definition set_data :: "addr \<Rightarrow> nat \<Rightarrow> node_heap \<Rightarrow> node_heap option" where
  "set_data a v h = map_option (\<lambda>c. h(a \<mapsto> c\<lparr>node_data := v\<rparr>)) (h a)"

definition next_of :: "node_heap \<Rightarrow> addr \<Rightarrow> addr option" where
  "next_of h a = map_option node_next (h a)"

definition data_of :: "node_heap \<Rightarrow> addr \<Rightarrow> nat option" where
  "data_of h a = map_option node_data (h a)"

definition list_create :: "addr \<Rightarrow> addr \<Rightarrow> addr \<Rightarrow> node_heap \<Rightarrow> node_heap \<times> list_s option" where
  "list_create m_list m_head m_tail h =
     (if m_list = 0 then (h, None)
      else if m_head = 0 then (h, None)
      else if m_tail = 0 then (h, None)
      else (h(m_head \<mapsto> \<lparr>node_next = m_tail, node_data = 0xdead\<rparr>,
              m_tail \<mapsto> \<lparr>node_next = 0, node_data = 0\<rparr>),
            Some \<lparr>list_head = m_head, list_tail = m_tail, list_length = 0\<rparr>))"

definition list_destroy :: "list_s \<Rightarrow> node_heap \<Rightarrow> (int \<times> node_heap) option" where
  "list_destroy l h =
     Option.bind (next_of h (list_head l)) (\<lambda>n.
     if n \<noteq> list_tail l then Some (-1, h)
     else Some (0, h(list_tail l := None, list_head l := None)))"

definition list_push :: "addr \<Rightarrow> nat \<Rightarrow> list_s \<times> node_heap \<Rightarrow> (addr \<times> list_s \<times> node_heap) option" where
  "list_push m v lh = (case lh of (l, h) \<Rightarrow>
     if m = 0 then Some (0, l, h)
     else Option.bind (next_of h (list_head l)) (\<lambda>n.
          Option.bind (set_next (list_head l) m (h(m \<mapsto> \<lparr>node_next = n, node_data = v\<rparr>))) (\<lambda>h.
          Some (m, l\<lparr>list_length := list_length l + 1\<rparr>, h))))"

text \<open>\<open>list_pushback\<close> fills the old tail and makes the new node the tail.\<close>

definition list_pushback :: "addr \<Rightarrow> nat \<Rightarrow> list_s \<times> node_heap \<Rightarrow> (addr \<times> list_s \<times> node_heap) option" where
  "list_pushback m v lh = (case lh of (l, h) \<Rightarrow>
     if m = 0 then Some (0, l, h)
     else Option.bind (set_next (list_tail l) m (h(m \<mapsto> \<lparr>node_next = 0, node_data = 0\<rparr>))) (\<lambda>h.
          Option.bind (set_data (list_tail l) v h) (\<lambda>h.
          Some (list_tail l, l\<lparr>list_tail := m, list_length := list_length l + 1\<rparr>, h))))"

definition list_pop :: "list_s \<times> node_heap \<Rightarrow> (nat \<times> list_s \<times> node_heap) option" where
  "list_pop lh = (case lh of (l, h) \<Rightarrow>
     Option.bind (next_of h (list_head l)) (\<lambda>node.
     Option.bind (next_of h node) (\<lambda>n.
     if n = 0 then Some (0, l, h)
     else Option.bind (data_of h node) (\<lambda>v.
          Option.bind (set_next (list_head l) n h) (\<lambda>h.
          Some (v, l\<lparr>list_length := list_length l - 1\<rparr>, h(node := None)))))))"

text \<open>\<open>while (last->next->next->next) last = last->next;\<close>\<close>

partial_function (option) before_last :: "node_heap \<Rightarrow> addr \<Rightarrow> addr option" where
  "before_last h prev =
     Option.bind (next_of h prev) (\<lambda>a.
     Option.bind (next_of h a) (\<lambda>b.
     Option.bind (next_of h b) (\<lambda>c.
     if c = 0 then Some prev else before_last h a)))"

definition list_popback :: "list_s \<times> node_heap \<Rightarrow> (nat \<times> list_s \<times> node_heap) option" where
  "list_popback lh = (case lh of (l, h) \<Rightarrow>
     Option.bind (next_of h (list_head l)) (\<lambda>n.
     Option.bind (next_of h n) (\<lambda>nn.
     if nn = 0 then Some (0, l, h)
     else Option.bind (before_last h (list_head l)) (\<lambda>prev.
          Option.bind (next_of h prev) (\<lambda>node.
          Option.bind (data_of h node) (\<lambda>v.
          Option.bind (set_next prev (list_tail l) h) (\<lambda>h.
          Some (v, l\<lparr>list_length := list_length l - 1\<rparr>, h(node := None)))))))))"

definition list_next :: "node_heap \<Rightarrow> addr \<Rightarrow> addr option" where
  "list_next h node = next_of h node"

definition list_cnext :: "list_s \<Rightarrow> node_heap \<Rightarrow> addr \<Rightarrow> addr option" where
  "list_cnext l h node =
     Option.bind (next_of h node) (\<lambda>n.
     Option.bind (next_of h n) (\<lambda>nn.
     if nn = 0 then next_of h (list_head l) else Some n))"

text \<open>\<open>while (last->next != node) last = last->next;\<close>\<close>

partial_function (option) find_prev :: "node_heap \<Rightarrow> addr \<Rightarrow> addr \<Rightarrow> addr option" where
  "find_prev h node prev =
     Option.bind (next_of h prev) (\<lambda>n. if n = node then Some prev else find_prev h node n)"

text \<open>\<open>list_move\<close>, for two different lists.\<close>

definition list_move :: "list_s \<Rightarrow> list_s \<Rightarrow> addr \<Rightarrow> node_heap \<Rightarrow>
    (nat \<times> list_s \<times> list_s \<times> node_heap) option" where
  "list_move dst src node h =
     Option.bind (next_of h node) (\<lambda>n.
     if n = 0 \<or> node = 0 then Some (0, dst, src, h)
     else Option.bind (data_of h node) (\<lambda>v.
          Option.bind (find_prev h node (list_head src)) (\<lambda>prev.
          Option.bind (set_next prev n h) (\<lambda>h.
          Option.bind (set_next node 0 h) (\<lambda>h.
          Option.bind (set_next (list_tail dst) node h) (\<lambda>h.
          Option.bind (set_data (list_tail dst) v h) (\<lambda>h.
          Option.bind (set_data node 0 h) (\<lambda>h.
          Some (v, dst\<lparr>list_tail := node, list_length := list_length dst + 1\<rparr>,
                src\<lparr>list_length := list_length src - 1\<rparr>, h)))))))))"

definition list_rotate :: "list_s \<times> node_heap \<Rightarrow> (addr \<times> list_s \<times> node_heap) option" where
  "list_rotate lh = (case lh of (l, h) \<Rightarrow>
     Option.bind (next_of h (list_head l)) (\<lambda>node.
     Option.bind (next_of h node) (\<lambda>n.
     if n = 0 then Some (0, l, h)
     else Option.bind (set_next (list_head l) n h) (\<lambda>h.
          Option.bind (set_next (list_tail l) node h) (\<lambda>h.
          Option.bind (data_of h node) (\<lambda>v.
          Option.bind (set_data (list_tail l) v h) (\<lambda>h.
          Option.bind (set_data node 0 h) (\<lambda>h.
          Option.bind (set_next node 0 h) (\<lambda>h.
          Some (list_tail l, l\<lparr>list_tail := node\<rparr>, h))))))))))"

definition list_insert :: "addr \<Rightarrow> addr \<Rightarrow> nat \<Rightarrow> list_s \<times> node_heap \<Rightarrow> (addr \<times> list_s \<times> node_heap) option" where
  "list_insert m prevnode v lh = (case lh of (l, h) \<Rightarrow>
     if m = 0 then Some (0, l, h)
     else Option.bind (next_of h prevnode) (\<lambda>n.
          if n \<noteq> 0 then
            Option.bind (set_next prevnode m (h(m \<mapsto> \<lparr>node_next = n, node_data = v\<rparr>))) (\<lambda>h.
            Some (m, l\<lparr>list_length := list_length l + 1\<rparr>, h))
          else Some (0, l, h(m := None))))"

definition list_remove :: "addr \<Rightarrow> list_s \<times> node_heap \<Rightarrow> (nat \<times> list_s \<times> node_heap) option" where
  "list_remove node lh = (case lh of (l, h) \<Rightarrow>
     if node = list_head l \<or> node = list_tail l then Some (0, l, h)
     else Option.bind (data_of h node) (\<lambda>v.
          Option.bind (find_prev h node (list_head l)) (\<lambda>prev.
          Option.bind (next_of h node) (\<lambda>n.
          Option.bind (set_next prev n h) (\<lambda>h.
          Some (v, l\<lparr>list_length := list_length l - 1\<rparr>, h(node := None)))))))"

text \<open>The counted walk of \<open>list_index\<close>; the result \<open>0\<close> is the null pointer.\<close>

fun index_walk :: "node_heap \<Rightarrow> nat \<Rightarrow> addr \<Rightarrow> addr option" where
  "index_walk h 0 node = Some node"
| "index_walk h (Suc k) node =
     (if node = 0 then Some 0 else Option.bind (next_of h node) (index_walk h k))"

definition list_index :: "list_s \<Rightarrow> node_heap \<Rightarrow> int \<Rightarrow> addr option" where
  "list_index l h idx =
     (if 0 \<le> idx then Option.bind (next_of h (list_head l)) (index_walk h (nat idx)) else Some 0)"

text \<open>
  \<open>list_foreach\<close> with a callback that reads the data of the node: \<open>0\<close> when it rejects
  every node.
\<close>

partial_function (option) foreach_loop :: "node_heap \<Rightarrow> (addr \<Rightarrow> nat \<Rightarrow> addr) \<Rightarrow> addr \<Rightarrow> addr option" where
  "foreach_loop h iter_fn node =
     Option.bind (h node) (\<lambda>c.
     if node_next c = 0 then Some 0
     else let v = iter_fn node (node_data c) in
          if v \<noteq> 0 then Some v else foreach_loop h iter_fn (node_next c))"

definition list_foreach :: "list_s \<Rightarrow> node_heap \<Rightarrow> (addr \<Rightarrow> nat \<Rightarrow> addr) \<Rightarrow> addr option" where
  "list_foreach l h iter_fn = Option.bind (next_of h (list_head l)) (foreach_loop h iter_fn)"

text \<open>
  \<open>list_insert_sorted\<close>: \<open>prio\<close> reads the current priority of the process the data points
  to. A failed allocation is not tested, and writes through the null pointer.
\<close>

partial_function (option) sorted_pos :: "node_heap \<Rightarrow> (nat \<Rightarrow> int) \<Rightarrow> addr \<Rightarrow> int \<Rightarrow> addr \<Rightarrow> addr option" where
  "sorted_pos h prio tail p current =
     Option.bind (next_of h current) (\<lambda>n.
     if n = tail then Some current
     else Option.bind (data_of h n) (\<lambda>v.
          if prio v \<ge> p then sorted_pos h prio tail p n else Some current))"

definition list_insert_sorted :: "addr \<Rightarrow> (nat \<Rightarrow> int) \<Rightarrow> nat \<Rightarrow> list_s \<times> node_heap \<Rightarrow>
    (list_s \<times> node_heap) option" where
  "list_insert_sorted m prio v lh = (case lh of (l, h) \<Rightarrow>
     if m = 0 then None
     else let h = h(m \<mapsto> \<lparr>node_next = 0, node_data = v\<rparr>) in
          Option.bind (sorted_pos h prio (list_tail l) (prio v) (list_head l)) (\<lambda>current.
          Option.bind (next_of h current) (\<lambda>n.
          Option.bind (set_next m n h) (\<lambda>h.
          Option.bind (set_next current m h) (\<lambda>h.
          Some (l\<lparr>list_length := list_length l + 1\<rparr>, h))))))"

section \<open>Segments of linked nodes\<close>

fun seg :: "node_heap \<Rightarrow> addr \<Rightarrow> (addr \<times> nat) list \<Rightarrow> addr \<Rightarrow> bool" where
  "seg h p [] q \<longleftrightarrow> p = q"
| "seg h p ((a, v) # avs) q \<longleftrightarrow> p = a \<and>
     (case h a of None \<Rightarrow> False | Some c \<Rightarrow> node_data c = v \<and> seg h (node_next c) avs q)"

definition cells_rep :: "node_heap \<Rightarrow> list_s \<Rightarrow> (addr \<times> nat) list \<Rightarrow> bool" where
  "cells_rep h l cs \<longleftrightarrow>
     seg h (list_head l) cs (list_tail l) \<and>
     h (list_tail l) = Some \<lparr>node_next = 0, node_data = 0\<rparr> \<and>
     distinct (map fst cs @ [list_tail l]) \<and> 0 \<notin> set (map fst cs @ [list_tail l]) \<and>
     list_length l = int (length cs) - 1"

definition list_rep :: "node_heap \<Rightarrow> list_s \<Rightarrow> (addr \<times> nat) list \<Rightarrow> bool" where
  "list_rep h l avs \<longleftrightarrow> cells_rep h l ((list_head l, 0xdead) # avs)"

text \<open>The nodes of a list, sentinels included.\<close>

definition list_nodes :: "list_s \<Rightarrow> (addr \<times> nat) list \<Rightarrow> addr set" where
  "list_nodes l avs = insert (list_head l) (insert (list_tail l) (fst ` set avs))"

lemma seg_append: "seg h p (xs @ ys) q \<longleftrightarrow> (\<exists>m. seg h p xs m \<and> seg h m ys q)"
  by (induction h p xs q rule: seg.induct) (auto split: option.splits)

lemma seg_cong: "(\<And>a. a \<in> fst ` set avs \<Longrightarrow> h' a = h a) \<Longrightarrow> seg h' p avs q = seg h p avs q"
  by (induction h p avs q rule: seg.induct) (auto split: option.splits)

lemma seg_frame [simp]: "a \<notin> fst ` set avs \<Longrightarrow> seg (h(a := c)) p avs q = seg h p avs q"
  by (rule seg_cong) auto

lemma seg_alloc: "seg h p avs q \<Longrightarrow> a \<in> fst ` set avs \<Longrightarrow> h a \<noteq> None"
  by (induction h p avs q rule: seg.induct) (auto split: option.splits)

lemma seg_hd: "seg h p (av # avs) q \<Longrightarrow> p = fst av"
  by (cases av) auto

lemma seg_data: "seg h p (xs @ (a, v) # ys) q \<Longrightarrow> data_of h a = Some v"
  by (auto simp: seg_append data_of_def split: option.splits)

lemma seg_next: "seg h p (xs @ (a, v) # ys) q \<Longrightarrow> \<exists>n. next_of h a = Some n \<and> seg h n ys q"
  by (auto simp: seg_append next_of_def split: option.splits)

text \<open>Redirecting the last node of a segment.\<close>

lemma seg_relink:
  assumes "seg h p (us @ [(b, w)]) m" and "b \<notin> fst ` set us"
  shows "\<exists>h'. set_next b n h = Some h' \<and> seg h' p (us @ [(b, w)]) n \<and> (\<forall>a. a \<noteq> b \<longrightarrow> h' a = h a)"
proof -
  from assms(1) obtain c where c: "h b = Some c" "node_data c = w" "seg h p us b"
    by (auto simp: seg_append split: option.splits)
  then have "seg (h(b \<mapsto> c\<lparr>node_next := n\<rparr>)) p (us @ [(b, w)]) n"
    using assms(2) by (auto simp: seg_append)
  with c(1) show ?thesis by (auto simp: set_next_def split: if_splits)
qed

lemma cells_repD:
  assumes "cells_rep h l cs"
  shows "seg h (list_head l) cs (list_tail l)"
    and "h (list_tail l) = Some \<lparr>node_next = 0, node_data = 0\<rparr>"
    and "distinct (map fst cs)" and "list_tail l \<notin> fst ` set cs"
    and "0 \<notin> fst ` set cs" and "list_tail l \<noteq> 0" and "list_length l = int (length cs) - 1"
  using assms by (auto simp: cells_rep_def)

lemma cells_rep_alloc:
  assumes "cells_rep h l cs" and "h a = None"
  shows "a \<notin> fst ` set cs" and "a \<noteq> list_tail l"
  using seg_alloc [OF cells_repD(1) [OF assms(1)], of a] cells_repD(2) [OF assms(1)] assms(2) by auto

lemma list_rep_alloc: "list_rep h l avs \<Longrightarrow> a \<in> list_nodes l avs \<Longrightarrow> h a \<noteq> None"
  using cells_rep_alloc [of h l "(list_head l, 0xdead) # avs" a]
  by (auto simp: list_rep_def list_nodes_def)

lemma list_rep_cong:
  assumes "\<And>a. a \<in> list_nodes l avs \<Longrightarrow> h' a = h a"
  shows "list_rep h' l avs = list_rep h l avs"
proof -
  have "seg h' (list_head l) ((list_head l, 0xdead) # avs) (list_tail l) =
        seg h (list_head l) ((list_head l, 0xdead) # avs) (list_tail l)"
    by (rule seg_cong) (use assms in \<open>auto simp: list_nodes_def\<close>)
  moreover have "h' (list_tail l) = h (list_tail l)" using assms by (simp add: list_nodes_def)
  ultimately show ?thesis by (simp add: list_rep_def cells_rep_def del: seg.simps)
qed

text \<open>
  The two changes every operation makes: a fresh node behind some node \<open>b\<close> of the list,
  and the removal of the node behind some node \<open>b\<close>.
\<close>

lemma cells_rep_insert:
  assumes rep: "cells_rep h l (us @ (b, w) # ys)" and m: "h m = None" "m \<noteq> 0"
  shows "\<exists>n h'. next_of h b = Some n \<and> n \<noteq> 0 \<and>
     set_next b m (h(m \<mapsto> \<lparr>node_next = n, node_data = v\<rparr>)) = Some h' \<and>
     cells_rep h' (l\<lparr>list_length := list_length l + 1\<rparr>) (us @ (b, w) # (m, v) # ys) \<and>
     (\<forall>a. a \<noteq> m \<and> a \<noteq> b \<longrightarrow> h' a = h a)"
proof -
  note D = cells_repD [OF rep]
  note mn = cells_rep_alloc [OF rep m(1)]
  obtain n where n: "next_of h b = Some n" "seg h n ys (list_tail l)"
    using seg_next [OF D(1)] by blast
  have n0: "n \<noteq> 0" using n(2) D(5,6) by (cases ys) (auto dest: seg_hd)
  let ?h = "h(m \<mapsto> \<lparr>node_next = n, node_data = v\<rparr>)"
  have "seg h (list_head l) (us @ [(b, w)]) n"
    using D(1) n(1) by (auto simp: seg_append next_of_def split: option.splits)
  then have "seg ?h (list_head l) (us @ [(b, w)]) n" using mn by (subst seg_frame) auto
  from seg_relink [OF this, of m] obtain h' where h': "set_next b m ?h = Some h'"
    "seg h' (list_head l) (us @ [(b, w)]) m" "\<forall>a. a \<noteq> b \<longrightarrow> h' a = ?h a"
    using D(3) by auto
  have ys: "seg h' n ys (list_tail l)"
  proof (subst seg_cong [of ys h' h])
    fix x assume "x \<in> fst ` set ys"
    with mn D(3) have "x \<noteq> b" "x \<noteq> m" by auto
    with h'(3) show "h' x = h x" by simp
  qed (rule n(2))
  have hm: "h' m = Some \<lparr>node_next = n, node_data = v\<rparr>" using h'(3) mn by auto
  with ys have "seg h' m ((m, v) # ys) (list_tail l)" by simp
  with h'(2) have "seg h' (list_head l) ((us @ [(b, w)]) @ (m, v) # ys) (list_tail l)"
    by (subst seg_append) blast
  moreover have "h' (list_tail l) = h (list_tail l)" using h'(3) mn D(4) by auto
  ultimately have "cells_rep h' (l\<lparr>list_length := list_length l + 1\<rparr>) (us @ (b, w) # (m, v) # ys)"
    using D mn m(2) by (auto simp: cells_rep_def)
  with n(1) n0 h'(1,3) show ?thesis by auto
qed

lemma cells_rep_delete:
  assumes rep: "cells_rep h l (us @ (b, w) # (a, v) # ys)"
  shows "\<exists>n h'. next_of h b = Some a \<and> data_of h a = Some v \<and> next_of h a = Some n \<and> n \<noteq> 0 \<and>
     set_next b n h = Some h' \<and>
     cells_rep (h'(a := None)) (l\<lparr>list_length := list_length l - 1\<rparr>) (us @ (b, w) # ys) \<and>
     (\<forall>x. x \<noteq> a \<and> x \<noteq> b \<longrightarrow> h' x = h x)"
proof -
  note D = cells_repD [OF rep]
  have b: "next_of h b = Some a" and a: "data_of h a = Some v"
    and pre: "seg h (list_head l) (us @ [(b, w)]) a"
    using D(1) by (auto simp: seg_append next_of_def data_of_def split: option.splits)
  obtain n where n: "next_of h a = Some n" "seg h n ys (list_tail l)"
    using seg_next [of h "list_head l" "us @ [(b, w)]" a v ys "list_tail l"] D(1) by auto
  have n0: "n \<noteq> 0" using n(2) D(5,6) by (cases ys) (auto dest: seg_hd)
  from seg_relink [OF pre, of n] obtain h' where h': "set_next b n h = Some h'"
    "seg h' (list_head l) (us @ [(b, w)]) n" "\<forall>x. x \<noteq> b \<longrightarrow> h' x = h x"
    using D(3) by auto
  have "seg h' n ys (list_tail l)"
  proof (subst seg_cong [of ys h' h])
    fix x assume "x \<in> fst ` set ys"
    with D(3) have "x \<noteq> b" by auto
    with h'(3) show "h' x = h x" by simp
  qed (rule n(2))
  with h'(2) have "seg h' (list_head l) ((us @ [(b, w)]) @ ys) (list_tail l)"
    by (subst seg_append) blast
  then have "seg (h'(a := None)) (list_head l) ((us @ [(b, w)]) @ ys) (list_tail l)"
    using D(3) by (subst seg_frame) auto
  moreover have "(h'(a := None)) (list_tail l) = h (list_tail l)" using h'(3) D(4) by auto
  ultimately have "cells_rep (h'(a := None)) (l\<lparr>list_length := list_length l - 1\<rparr>) (us @ (b, w) # ys)"
    using D by (auto simp: cells_rep_def)
  with b a n(1) n0 h'(1,3) show ?thesis by auto
qed

section \<open>The operations on represented lists\<close>

text \<open>What the loops compute on a segment.\<close>

lemma find_prev_seg:
  "seg h p (us @ [(b, w)]) node \<Longrightarrow> node \<notin> fst ` set (tl (us @ [(b, w)])) \<Longrightarrow>
   find_prev h node p = Some b"
proof (induction us arbitrary: p)
  case Nil
  then show ?case by (subst find_prev.simps) (auto simp: next_of_def split: option.splits)
next
  case (Cons av us)
  obtain a v where av: "av = (a, v)" by fastforce
  with Cons.prems(1) obtain c where c: "p = a" "h a = Some c" "seg h (node_next c) (us @ [(b, w)]) node"
    by (auto split: option.splits)
  have "node_next c \<noteq> node"
    using seg_hd [of h "node_next c" "hd (us @ [(b, w)])" "tl (us @ [(b, w)])" node] c(3) Cons.prems(2)
    by (cases us) auto
  moreover have "node \<notin> fst ` set (tl (us @ [(b, w)]))"
    using Cons.prems(2) by (cases us) auto
  ultimately show ?case
    using Cons.IH [OF c(3)] c(1,2) by (subst find_prev.simps) (simp add: next_of_def)
qed

lemma before_last_seg:
  "seg h p (us @ [(b, w), (a, v)]) q \<Longrightarrow> next_of h q = Some 0 \<Longrightarrow>
   0 \<notin> fst ` set (us @ [(b, w), (a, v)]) \<Longrightarrow> q \<noteq> 0 \<Longrightarrow> before_last h p = Some b"
proof (induction us arbitrary: p)
  case Nil
  then show ?case
    by (subst before_last.simps) (auto simp: next_of_def split: option.splits)
next
  case (Cons av us)
  obtain x y where av: "av = (x, y)" by fastforce
  with Cons.prems(1) obtain c where c: "p = x" "h x = Some c"
      "seg h (node_next c) (us @ [(b, w), (a, v)]) q"
    by (auto split: option.splits)
  obtain z1 rest where z1: "us @ [(b, w), (a, v)] = z1 # rest" "rest \<noteq> []" by (cases us) auto
  then obtain c1 where c1: "h (node_next c) = Some c1" "seg h (node_next c1) rest q"
    using c(3) by (cases z1) (auto split: option.splits)
  obtain z2 rest2 where z2: "rest = z2 # rest2" using z1(2) by (cases rest) auto
  then obtain c2 where c2: "h (node_next c1) = Some c2" "seg h (node_next c2) rest2 q"
    using c1(2) by (cases z2) (auto split: option.splits)
  have "node_next c2 \<noteq> 0"
  proof (cases rest2)
    case Nil
    with c2(2) Cons.prems(4) show ?thesis by simp
  next
    case (Cons z3 r)
    then have "node_next c2 = fst z3" using c2(2) seg_hd by blast
    moreover have "z3 \<in> set (us @ [(b, w), (a, v)])" using z1(1) z2 Cons by simp
    ultimately show ?thesis using Cons.prems(3) by force
  qed
  with Cons.IH [OF c(3)] Cons.prems c c1 c2 show ?case
    by (subst before_last.simps) (auto simp: next_of_def)
qed

lemma foreach_loop_seg:
  "seg h p avs q \<Longrightarrow> h q = Some \<lparr>node_next = 0, node_data = 0\<rparr> \<Longrightarrow> 0 \<notin> fst ` set avs \<Longrightarrow> q \<noteq> 0 \<Longrightarrow>
   foreach_loop h (\<lambda>a v. if P v then a else 0) p =
     Some (case find (\<lambda>av. P (snd av)) avs of None \<Rightarrow> 0 | Some av \<Rightarrow> fst av)"
proof (induction avs arbitrary: p)
  case Nil
  then show ?case by (subst foreach_loop.simps) simp
next
  case (Cons av avs)
  obtain a v where av: "av = (a, v)" by fastforce
  with Cons.prems(1) obtain c where c: "p = a" "h a = Some c" "node_data c = v"
      "seg h (node_next c) avs q"
    by (auto split: option.splits)
  have "node_next c \<noteq> 0"
    using c(4) Cons.prems(3,4) by (cases avs) (auto dest: seg_hd)
  with Cons.IH [OF c(4)] Cons.prems c av show ?case
    by (subst foreach_loop.simps) (auto simp: Let_def)
qed

lemma index_walk_seg:
  "seg h p avs q \<Longrightarrow> k < length avs \<Longrightarrow> 0 \<notin> fst ` set avs \<Longrightarrow> index_walk h k p = Some (fst (avs ! k))"
proof (induction avs arbitrary: p k)
  case Nil
  then show ?case by simp
next
  case (Cons av avs)
  obtain a v where av: "av = (a, v)" by fastforce
  with Cons.prems(1) obtain c where c: "p = a" "h a = Some c" "seg h (node_next c) avs q"
    by (auto split: option.splits)
  show ?case
    using Cons.IH [OF c(3)] Cons.prems c av by (cases k) (auto simp: next_of_def)
qed

text \<open>The insertion point: behind the last node of at least the priority of the process.\<close>

lemma sorted_pos_seg:
  "seg h p ((b, w) # avs) q \<Longrightarrow> q \<notin> fst ` set avs \<Longrightarrow>
   \<exists>us z zs. (b, w) # avs = us @ z # zs \<and> sorted_pos h prio q (prio x) p = Some (fst z) \<and>
     tl (us @ [z]) @ (m, x) # zs = insert_desc (\<lambda>av. prio (snd av)) (m, x) avs"
proof (induction avs arbitrary: p b w)
  case Nil
  then have "sorted_pos h prio q (prio x) p = Some b"
    by (subst sorted_pos.simps) (auto simp: next_of_def split: option.splits)
  then show ?case by (intro exI [of _ "[]"] exI [of _ "(b, w)"] exI [of _ "[]"]) simp
next
  case (Cons av avs)
  obtain a v where av: "av = (a, v)" by fastforce
  with Cons.prems(1) obtain c where c: "p = b" "h b = Some c" "node_next c = a"
      "seg h a ((a, v) # avs) q"
    by (auto split: option.splits)
  then have a: "data_of h a = Some v" "a \<noteq> q"
    using seg_data [of h a "[]" a v avs q] Cons.prems(2) av by auto
  show ?case
  proof (cases "prio v \<ge> prio x")
    case True
    then have eq: "sorted_pos h prio q (prio x) p = sorted_pos h prio q (prio x) a"
      using c a by (subst sorted_pos.simps) (simp add: next_of_def)
    from Cons.IH [OF c(4)] Cons.prems(2) av obtain us z zs where
      "(a, v) # avs = us @ z # zs" "sorted_pos h prio q (prio x) a = Some (fst z)"
      "tl (us @ [z]) @ (m, x) # zs = insert_desc (\<lambda>av. prio (snd av)) (m, x) avs"
      by auto
    with True av eq show ?thesis
      by (intro exI [of _ "(b, w) # us"] exI [of _ z] exI [of _ zs]) (cases us; auto)
  next
    case False
    then have "sorted_pos h prio q (prio x) p = Some b"
      using c a by (subst sorted_pos.simps) (simp add: next_of_def)
    with False av show ?thesis
      by (intro exI [of _ "[]"] exI [of _ "(b, w)"] exI [of _ "av # avs"]) auto
  qed
qed

text \<open>
  The operations return and act on the represented sequence. A fresh address is one
  \<open>malloc\<close> may return.
\<close>

definition fresh :: "list_s \<times> node_heap \<Rightarrow> addr \<Rightarrow> bool" where
  "fresh lh m \<longleftrightarrow> m \<noteq> 0 \<and> snd lh m = None"

definition lrep :: "list_s \<times> node_heap \<Rightarrow> (addr \<times> nat) list \<Rightarrow> bool" where
  "lrep lh avs \<longleftrightarrow> list_rep (snd lh) (fst lh) avs"

lemma list_create_rep:
  assumes "m_list \<noteq> 0" "m_head \<noteq> 0" "m_tail \<noteq> 0" "m_head \<noteq> m_tail"
  shows "\<exists>h' l. list_create m_list m_head m_tail h = (h', Some l) \<and> list_rep h' l []"
  using assms by (simp add: list_create_def list_rep_def cells_rep_def)

lemma list_push_rep:
  assumes "lrep lh avs" and "fresh lh m"
  shows "\<exists>lh'. list_push m v lh = Some (m, lh') \<and> lrep lh' ((m, v) # avs)"
proof -
  obtain l h where lh: "lh = (l, h)" by fastforce
  from assms lh have "cells_rep h l ([] @ (list_head l, 0xdead) # avs)" and "h m = None" "m \<noteq> 0"
    by (auto simp: lrep_def list_rep_def fresh_def)
  from cells_rep_insert [OF this, of v] this(3) lh show ?thesis
    by (auto simp: list_push_def lrep_def list_rep_def)
qed

lemma list_insert_rep:
  assumes "lrep lh (us @ (b, w) # ys)" and "fresh lh m"
  shows "\<exists>lh'. list_insert m b v lh = Some (m, lh') \<and> lrep lh' (us @ (b, w) # (m, v) # ys)"
proof -
  obtain l h where lh: "lh = (l, h)" by fastforce
  from assms lh have "cells_rep h l (((list_head l, 0xdead) # us) @ (b, w) # ys)"
    and "h m = None" "m \<noteq> 0"
    by (auto simp: lrep_def list_rep_def fresh_def)
  from cells_rep_insert [OF this, of v] this(3) lh show ?thesis
    by (auto simp: list_insert_def lrep_def list_rep_def)
qed

lemma list_pop_rep:
  assumes "lrep lh ((a, v) # avs)"
  shows "\<exists>lh'. list_pop lh = Some (v, lh') \<and> lrep lh' avs"
proof -
  obtain l h where lh: "lh = (l, h)" by fastforce
  with assms have "cells_rep h l ([] @ (list_head l, 0xdead) # (a, v) # avs)"
    by (simp add: lrep_def list_rep_def)
  from cells_rep_delete [OF this] lh show ?thesis
    by (auto simp: list_pop_def lrep_def list_rep_def)
qed

lemma list_pop_empty: "lrep lh [] \<Longrightarrow> list_pop lh = Some (0, lh)"
  by (auto simp: lrep_def list_rep_def cells_rep_def list_pop_def next_of_def split: option.splits prod.splits)

lemma list_popback_rep:
  assumes "lrep lh (avs @ [(a, v)])"
  shows "\<exists>lh'. list_popback lh = Some (v, lh') \<and> lrep lh' avs"
proof -
  obtain l h where lh: "lh = (l, h)" by fastforce
  have "(list_head l, 0xdead) # avs \<noteq> []" by simp
  then obtain us b w where us: "(list_head l, 0xdead) # avs = us @ [(b, w)]"
    by (metis old.prod.exhaust rev_exhaust)
  then have "(list_head l, 0xdead) # avs @ [(a, v)] = us @ (b, w) # [(a, v)]" by simp
  with assms lh have c: "cells_rep h l (us @ (b, w) # [(a, v)])"
    by (simp add: lrep_def list_rep_def)
  note D = cells_repD [OF this]
  have bl: "before_last h (list_head l) = Some b"
    by (rule before_last_seg [where q = "list_tail l" and us = us and w = w and a = a and v = v])
      (use D in \<open>auto simp: next_of_def\<close>)
  obtain n nn where "next_of h (list_head l) = Some n" "next_of h n = Some nn" "nn \<noteq> 0"
  proof (cases us)
    case Nil
    with us D that show thesis
      by (auto simp: next_of_def seg_append split: option.splits)
  next
    case (Cons u us')
    then have "u = (list_head l, 0xdead)" using us by simp
    with Cons c have "cells_rep h l ([] @ u # hd (us' @ [(b, w)]) # tl (us' @ [(b, w)]) @ [(a, v)])"
      by (cases us') auto
    from cells_rep_delete [of h l "[]" "fst u" "snd u" "fst (hd (us' @ [(b, w)]))"
        "snd (hd (us' @ [(b, w)]))" "tl (us' @ [(b, w)]) @ [(a, v)]"] this that
    show thesis using \<open>u = (list_head l, 0xdead)\<close> by auto
  qed
  moreover have "next_of h a = Some (list_tail l)"
    using D(1) by (auto simp: seg_append next_of_def split: option.splits)
  ultimately show ?thesis
    using cells_rep_delete [OF c] bl lh us
    by (auto simp: list_popback_def lrep_def list_rep_def)
qed

lemma list_remove_rep:
  assumes "lrep lh (xs @ (a, v) # ys)"
  shows "\<exists>lh'. list_remove a lh = Some (v, lh') \<and> lrep lh' (xs @ ys)"
proof -
  obtain l h where lh: "lh = (l, h)" by fastforce
  have "(list_head l, 0xdead) # xs \<noteq> []" by simp
  then obtain us b w where us: "(list_head l, 0xdead) # xs = us @ [(b, w)]"
    by (metis old.prod.exhaust rev_exhaust)
  then have "(list_head l, 0xdead) # xs @ (a, v) # ys = us @ (b, w) # (a, v) # ys" by simp
  with assms lh have c: "cells_rep h l (us @ (b, w) # (a, v) # ys)"
    by (simp add: lrep_def list_rep_def)
  note D = cells_repD [OF this]
  have hd: "list_head l = fst (hd (us @ [(b, w)]))" using us by (cases us) auto
  have "a \<noteq> list_head l" and "a \<noteq> list_tail l"
    using D(3,4) hd by (cases us; auto)+
  moreover have "find_prev h a (list_head l) = Some b"
  proof (rule find_prev_seg [where us = us and w = w])
    show "seg h (list_head l) (us @ [(b, w)]) a"
      using D(1) by (auto simp: seg_append split: option.splits)
    show "a \<notin> fst ` set (tl (us @ [(b, w)]))"
      using D(3) by (cases us) auto
  qed
  moreover from cells_rep_delete [OF c] obtain n h' where
    "data_of h a = Some v" "next_of h a = Some n" "set_next b n h = Some h'"
    "cells_rep (h'(a := None)) (l\<lparr>list_length := list_length l - 1\<rparr>) (us @ (b, w) # ys)"
    by blast
  moreover have "us @ (b, w) # ys = (list_head l, 0xdead) # xs @ ys" using us by simp
  ultimately show ?thesis
    using lh by (simp add: list_remove_def lrep_def list_rep_def)
qed

text \<open>The sentinels cannot be removed.\<close>

lemma list_remove_sentinel:
  "a = list_head (fst lh) \<or> a = list_tail (fst lh) \<Longrightarrow> list_remove a lh = Some (0, lh)"
  by (cases lh) (auto simp: list_remove_def)

lemma list_pushback_rep:
  assumes "lrep lh avs" and "fresh lh m"
  shows "\<exists>lh'. list_pushback m v lh = Some (list_tail (fst lh), lh') \<and>
    lrep lh' (avs @ [(list_tail (fst lh), v)])"
proof -
  obtain l h where lh: "lh = (l, h)" by fastforce
  let ?cs = "(list_head l, 0xdead) # avs"
  from assms lh have c: "cells_rep h l ?cs" and m: "h m = None" "m \<noteq> 0"
    by (auto simp: lrep_def list_rep_def fresh_def)
  note D = cells_repD [OF c] and mn = cells_rep_alloc [OF c m(1)]
  let ?h = "h(m \<mapsto> \<lparr>node_next = 0, node_data = 0\<rparr>, list_tail l \<mapsto> \<lparr>node_next = m, node_data = v\<rparr>)"
  have "seg ?h (list_head l) ?cs (list_tail l)"
    using D(1,4) mn(1) by (simp del: seg.simps)
  then have "seg ?h (list_head l) (?cs @ [(list_tail l, v)]) m"
    by (subst seg_append, intro exI [of _ "list_tail l"]) simp
  then have "cells_rep ?h (l\<lparr>list_tail := m, list_length := list_length l + 1\<rparr>)
      (?cs @ [(list_tail l, v)])"
    using D mn m(2) by (auto simp: cells_rep_def)
  with lh D(2) m mn show ?thesis
    by (auto simp: list_pushback_def set_next_def set_data_def lrep_def list_rep_def fun_upd_twist)
qed

lemma list_insert_sorted_rep:
  assumes "lrep lh avs" and "fresh lh m"
  shows "\<exists>lh'. list_insert_sorted m prio v lh = Some lh' \<and>
    lrep lh' (insert_desc (\<lambda>av. prio (snd av)) (m, v) avs)"
proof -
  obtain l h where lh: "lh = (l, h)" by fastforce
  let ?cs = "(list_head l, 0xdead) # avs"
  from assms lh have c: "cells_rep h l ?cs" and m: "h m = None" "m \<noteq> 0"
    by (auto simp: lrep_def list_rep_def fresh_def)
  note D = cells_repD [OF c] and mn = cells_rep_alloc [OF c m(1)]
  let ?h = "h(m \<mapsto> \<lparr>node_next = 0, node_data = v\<rparr>)"
  have "seg ?h (list_head l) ?cs (list_tail l)"
    by (subst seg_frame) (use D(1) mn in auto)
  from sorted_pos_seg [OF this, of prio v m] D(4) obtain us z zs where z:
    "?cs = us @ z # zs" "sorted_pos ?h prio (list_tail l) (prio v) (list_head l) = Some (fst z)"
    "tl (us @ [z]) @ (m, v) # zs = insert_desc (\<lambda>av. prio (snd av)) (m, v) avs"
    by auto
  obtain b w where "z = (b, w)" by fastforce
  with z have p: "?cs = us @ (b, w) # zs"
    "sorted_pos ?h prio (list_tail l) (prio v) (list_head l) = Some b"
    "tl (us @ [(b, w)]) @ (m, v) # zs = insert_desc (\<lambda>av. prio (snd av)) (m, v) avs"
    by simp_all
  have "b \<noteq> m" using mn(1) p(1) by auto
  from p(3) have new: "(list_head l, 0xdead) # insert_desc (\<lambda>av. prio (snd av)) (m, v) avs =
      us @ (b, w) # (m, v) # zs"
    using p(1) by (cases us) auto
  from cells_rep_insert [OF c [unfolded p(1)] m, of v] obtain n h' where
    "next_of h b = Some n" "set_next b m (h(m \<mapsto> \<lparr>node_next = n, node_data = v\<rparr>)) = Some h'"
    "cells_rep h' (l\<lparr>list_length := list_length l + 1\<rparr>) (us @ (b, w) # (m, v) # zs)"
    by blast
  with p(2) new lh m(2) \<open>b \<noteq> m\<close> show ?thesis
    by (auto simp: list_insert_sorted_def set_next_def [of m] next_of_def lrep_def list_rep_def)
qed

lemma lrep_first:
  assumes "lrep (l, h) avs"
  shows "\<exists>n. next_of h (list_head l) = Some n \<and> seg h n avs (list_tail l)"
  using assms by (auto simp: lrep_def list_rep_def cells_rep_def next_of_def split: option.splits)

lemma list_foreach_rep:
  assumes "lrep (l, h) avs"
  shows "list_foreach l h (\<lambda>a v. if P v then a else 0) =
    Some (case find (\<lambda>av. P (snd av)) avs of None \<Rightarrow> 0 | Some av \<Rightarrow> fst av)"
proof -
  from assms have c: "cells_rep h l ((list_head l, 0xdead) # avs)" by (simp add: lrep_def list_rep_def)
  note D = cells_repD [OF this]
  from lrep_first [OF assms(1)] obtain n where
    "next_of h (list_head l) = Some n" "seg h n avs (list_tail l)" by auto
  with foreach_loop_seg [of h n avs "list_tail l" P] D show ?thesis
    by (simp add: list_foreach_def)
qed

lemma list_index_rep:
  assumes "lrep (l, h) avs" and "0 \<le> i" and "nat i < length avs"
  shows "list_index l h i = Some (fst (avs ! nat i))"
proof -
  from assms have c: "cells_rep h l ((list_head l, 0xdead) # avs)" by (simp add: lrep_def list_rep_def)
  note D = cells_repD [OF this]
  from lrep_first [OF assms(1)] obtain n where
    "next_of h (list_head l) = Some n" "seg h n avs (list_tail l)" by auto
  with index_walk_seg [of h n avs "list_tail l" "nat i"] D assms(2,3) show ?thesis
    by (simp add: list_index_def)
qed

lemma list_destroy_rep:
  assumes "lrep (l, h) avs"
  shows "list_destroy l h = Some (if avs = [] then (0, h(list_tail l := None, list_head l := None)) else (-1, h))"
proof -
  from assms have c: "cells_rep h l ((list_head l, 0xdead) # avs)" by (simp add: lrep_def list_rep_def)
  note D = cells_repD [OF this]
  from lrep_first [OF assms(1)] obtain n where
    n: "next_of h (list_head l) = Some n" "seg h n avs (list_tail l)" by auto
  with D(4) have "n = list_tail l \<longleftrightarrow> avs = []" by (cases avs) (auto dest: seg_hd)
  with n(1) show ?thesis by (auto simp: list_destroy_def)
qed

lemma list_rotate_rep:
  assumes "lrep lh ((a, v) # avs)"
  shows "\<exists>lh'. list_rotate lh = Some (list_tail (fst lh), lh') \<and>
    lrep lh' (avs @ [(list_tail (fst lh), v)])"
proof -
  obtain l h where lh: "lh = (l, h)" by fastforce
  let ?t = "list_tail l" and ?hd = "list_head l"
  from assms lh have c: "cells_rep h l ((?hd, 0xdead) # (a, v) # avs)"
    by (simp add: lrep_def list_rep_def)
  note D = cells_repD [OF c]
  from D(1) obtain n where n: "h ?hd = Some \<lparr>node_next = a, node_data = 0xdead\<rparr>"
      "h a = Some \<lparr>node_next = n, node_data = v\<rparr>" "seg h n avs ?t"
    by (auto split: option.splits) (metis node_s.surjective unit.exhaust)
  have ne: "a \<noteq> ?hd" "a \<noteq> ?t" "?hd \<noteq> ?t" "a \<notin> fst ` set avs" "?hd \<notin> fst ` set avs"
    "?t \<notin> fst ` set avs" using D(3,4) by auto
  have n0: "n \<noteq> 0" using n(3) D(5,6) by (cases avs) (auto dest: seg_hd)
  let ?h = "h(?hd \<mapsto> \<lparr>node_next = n, node_data = 0xdead\<rparr>, ?t \<mapsto> \<lparr>node_next = a, node_data = v\<rparr>,
              a \<mapsto> \<lparr>node_next = 0, node_data = 0\<rparr>)"
  have "seg ?h n avs ?t" using n(3) ne by simp
  then have "seg ?h ?hd (((?hd, 0xdead) # avs) @ [(?t, v)]) a"
    using ne by (subst seg_append, intro exI [of _ ?t]) simp
  then have "cells_rep ?h (l\<lparr>list_tail := a\<rparr>) (((?hd, 0xdead) # avs) @ [(?t, v)])"
    using D ne by (auto simp: cells_rep_def)
  moreover have "list_rotate lh = Some (?t, l\<lparr>list_tail := a\<rparr>, ?h)"
    using lh n(1,2) n0 ne D(2)
    by (simp add: list_rotate_def next_of_def set_next_def set_data_def data_of_def fun_upd_twist)
  ultimately show ?thesis using lh by (simp add: lrep_def list_rep_def)
qed

text \<open>Moving a node between two disjoint lists: it goes to the end of the destination.\<close>

lemma list_move_rep:
  assumes src: "list_rep h src (xs @ (a, v) # ys)" and dst: "list_rep h dst zs"
    and disj: "list_nodes src (xs @ (a, v) # ys) \<inter> list_nodes dst zs = {}"
  shows "\<exists>dst' src' h'. list_move dst src a h = Some (v, dst', src', h') \<and>
    list_rep h' src' (xs @ ys) \<and> list_rep h' dst' (zs @ [(list_tail dst, v)])"
proof -
  have "(list_head src, 0xdead) # xs \<noteq> []" by simp
  then obtain us b w where us: "(list_head src, 0xdead) # xs = us @ [(b, w)]"
    by (metis old.prod.exhaust rev_exhaust)
  then have split: "(list_head src, 0xdead) # xs @ (a, v) # ys = us @ (b, w) # (a, v) # ys" by simp
  with src have c: "cells_rep h src (us @ (b, w) # (a, v) # ys)" by (simp add: list_rep_def)
  note D = cells_repD [OF c]
  have E: "cells_rep h dst ((list_head dst, 0xdead) # zs)" using dst by (simp add: list_rep_def)
  note E' = cells_repD [OF E]
  have b_src: "b \<in> list_nodes src (xs @ (a, v) # ys)"
    using us by (cases us) (auto simp: list_nodes_def)
  have a_src: "a \<in> list_nodes src (xs @ (a, v) # ys)" by (simp add: list_nodes_def)
  have ne: "a \<noteq> b" "a \<notin> list_nodes dst zs" "b \<notin> list_nodes dst zs" "a \<noteq> 0"
    using disj b_src a_src D(3,5) by auto
  have fp: "find_prev h a (list_head src) = Some b"
  proof (rule find_prev_seg [where us = us and w = w])
    show "seg h (list_head src) (us @ [(b, w)]) a"
      using D(1) by (auto simp: seg_append split: option.splits)
    show "a \<notin> fst ` set (tl (us @ [(b, w)]))"
      using D(3) by (cases us) auto
  qed
  from cells_rep_delete [OF c] obtain n h1 where d:
    "data_of h a = Some v" "next_of h a = Some n" "n \<noteq> 0" "set_next b n h = Some h1"
    "cells_rep (h1(a := None)) (src\<lparr>list_length := list_length src - 1\<rparr>) (us @ (b, w) # ys)"
    "\<forall>x. x \<noteq> a \<and> x \<noteq> b \<longrightarrow> h1 x = h x"
    by blast
  have eq: "us @ (b, w) # ys = (list_head src, 0xdead) # xs @ ys" using us by simp
  have src1: "list_rep (h1(a := None)) (src\<lparr>list_length := list_length src - 1\<rparr>) (xs @ ys)"
    using d(5) [unfolded eq] by (simp add: list_rep_def)
  let ?t = "list_tail dst"
  have dst1: "lrep (dst, h1(a := None)) zs"
    unfolding lrep_def using dst ne d(6)
    by (subst list_rep_cong [where h = h and h' = "snd (dst, h1(a := None))"]) auto
  have "fresh (dst, h1(a := None)) a" using ne by (simp add: fresh_def)
  from list_pushback_rep [OF dst1 this, of v] obtain dst' h' where p:
    "list_pushback a v (dst, h1(a := None)) = Some (?t, dst', h')"
    "list_rep h' dst' (zs @ [(?t, v)])"
    by (auto simp: lrep_def)
  have t: "h1 ?t = Some \<lparr>node_next = 0, node_data = 0\<rparr>" "a \<noteq> ?t"
    using E'(2) d(6) ne by (auto simp: list_nodes_def)
  from d(1,2) d(4) ne have a1: "h1 a = Some \<lparr>node_next = n, node_data = v\<rparr>"
    by (auto simp: set_next_def data_of_def next_of_def)
  have h': "dst' = dst\<lparr>list_tail := a, list_length := list_length dst + 1\<rparr>"
    "h' = h1(a \<mapsto> \<lparr>node_next = 0, node_data = 0\<rparr>, ?t \<mapsto> \<lparr>node_next = a, node_data = v\<rparr>)"
    using p(1) ne t by (auto simp: list_pushback_def set_next_def set_data_def)
  have run: "list_move dst src a h = Some (v, dst', src\<lparr>list_length := list_length src - 1\<rparr>, h')"
    using d(1-4) fp t a1 ne h'
    by (simp add: list_move_def set_next_def [of a] set_next_def [of ?t] set_data_def fun_upd_twist)
  have "list_rep h' (src\<lparr>list_length := list_length src - 1\<rparr>) (xs @ ys)"
  proof (subst list_rep_cong [where h = "h1(a := None)"])
    fix x assume "x \<in> list_nodes (src\<lparr>list_length := list_length src - 1\<rparr>) (xs @ ys)"
    then have "x \<noteq> a" "x \<noteq> ?t"
      using disj D(3,4) split src by (auto simp: list_nodes_def list_rep_def cells_rep_def)
    with h'(2) show "h' x = (h1(a := None)) x" by simp
  qed (rule src1)
  with run p(2) show ?thesis by blast
qed

section \<open>The interface of a queue of processes\<close>

text \<open>
  What the clients of \<open>list.c\<close> rely on, on the sequence of the data of the nodes. A state
  is the list with its heap. \<open>remove_val\<close> is the pair \<open>list_foreach\<close> with
  \<open>find_waiting_process_node\<close>, \<open>list_remove\<close>.
\<close>

locale node_seq =
  fixes rep :: "'s \<Rightarrow> nat list \<Rightarrow> bool"
    and fresh_node :: "'s \<Rightarrow> addr \<Rightarrow> bool"
    and pushback :: "addr \<Rightarrow> nat \<Rightarrow> 's \<Rightarrow> 's option"
    and pop :: "'s \<Rightarrow> (nat \<times> 's) option"
  assumes pushback_ok: "rep s vs \<Longrightarrow> fresh_node s a \<Longrightarrow>
      \<exists>s'. pushback a v s = Some s' \<and> rep s' (vs @ [v]) \<and> (\<forall>b. b \<noteq> a \<longrightarrow> fresh_node s b \<longrightarrow> fresh_node s' b)"
    and pop_ok: "rep s (v # vs) \<Longrightarrow> \<exists>s'. pop s = Some (v, s') \<and> rep s' vs"

locale node_list = node_seq rep fresh_node pushback pop
  for rep :: "'s \<Rightarrow> nat list \<Rightarrow> bool"
    and fresh_node :: "'s \<Rightarrow> addr \<Rightarrow> bool"
    and pushback :: "addr \<Rightarrow> nat \<Rightarrow> 's \<Rightarrow> 's option"
    and pop :: "'s \<Rightarrow> (nat \<times> 's) option" +
  fixes insert_prio :: "addr \<Rightarrow> (nat \<Rightarrow> int) \<Rightarrow> nat \<Rightarrow> 's \<Rightarrow> 's option"
    and remove_val :: "nat \<Rightarrow> 's \<Rightarrow> 's option"
  assumes insert_ok: "rep s vs \<Longrightarrow> fresh_node s a \<Longrightarrow>
      \<exists>s'. insert_prio a prio v s = Some s' \<and> rep s' (insert_desc prio v vs) \<and>
           (\<forall>b. b \<noteq> a \<longrightarrow> fresh_node s b \<longrightarrow> fresh_node s' b)"
    and remove_ok: "rep s vs \<Longrightarrow> \<exists>s'. remove_val v s = Some s' \<and> rep s' (remove1 v vs)"

text \<open>Runs of the operations: a sequence of insertions, and a sequence of removals.\<close>

primrec push_all :: "(addr \<Rightarrow> nat \<Rightarrow> 's \<Rightarrow> 's option) \<Rightarrow> (addr \<times> nat) list \<Rightarrow> 's \<Rightarrow> 's option" where
  "push_all push [] s = Some s"
| "push_all push (av # avs) s = Option.bind (push (fst av) (snd av) s) (push_all push avs)"

primrec pop_all :: "('s \<Rightarrow> (nat \<times> 's) option) \<Rightarrow> nat \<Rightarrow> 's \<Rightarrow> (nat list \<times> 's) option" where
  "pop_all pop 0 s = Some ([], s)"
| "pop_all pop (Suc n) s = Option.bind (pop s) (\<lambda>(v, s).
     map_option (\<lambda>(vs, s). (v # vs, s)) (pop_all pop n s))"

context node_seq
begin

lemma pop_all_rep:
  "rep s (xs @ ys) \<Longrightarrow> \<exists>s'. pop_all pop (length xs) s = Some (xs, s') \<and> rep s' ys"
proof (induction xs arbitrary: s)
  case Nil
  then show ?case by simp
next
  case (Cons x xs)
  then obtain s1 where "pop s = Some (x, s1)" "rep s1 (xs @ ys)"
    using pop_ok [of s x "xs @ ys"] by auto
  with Cons.IH [of s1] show ?case by auto
qed

lemma push_all_rep:
  assumes "\<And>s vs a v. rep s vs \<Longrightarrow> fresh_node s a \<Longrightarrow> \<exists>s'. push a v s = Some s' \<and> rep s' (ins v vs) \<and>
      (\<forall>b. b \<noteq> a \<longrightarrow> fresh_node s b \<longrightarrow> fresh_node s' b)"
  shows "rep s vs \<Longrightarrow> distinct (map fst avs) \<Longrightarrow> \<forall>a \<in> fst ` set avs. fresh_node s a \<Longrightarrow>
    \<exists>s'. push_all push avs s = Some s' \<and> rep s' (fold ins (map snd avs) vs)"
proof (induction avs arbitrary: s vs)
  case Nil
  then show ?case by simp
next
  case (Cons av avs)
  obtain s1 where s1: "push (fst av) (snd av) s = Some s1" "rep s1 (ins (snd av) vs)"
      "\<forall>b. b \<noteq> fst av \<longrightarrow> fresh_node s b \<longrightarrow> fresh_node s1 b"
    using assms [of s vs "fst av" "snd av"] Cons.prems by auto
  have "\<forall>a \<in> fst ` set avs. fresh_node s1 a"
  proof
    fix a assume a: "a \<in> fst ` set avs"
    moreover have "fst av \<notin> fst ` set avs" using Cons.prems(2) by simp
    ultimately have "a \<noteq> fst av" by metis
    moreover have "fresh_node s a" using a Cons.prems(3) by auto
    ultimately show "fresh_node s1 a" using s1(3) by blast
  qed
  with Cons.IH [OF s1(2)] Cons.prems(2) s1(1) show ?case by auto
qed

text \<open>First in, first out.\<close>

lemma fifo:
  assumes "rep s []" and "distinct (map fst avs)" and "\<forall>a \<in> fst ` set avs. fresh_node s a"
  shows "\<exists>s' s''. push_all pushback avs s = Some s' \<and>
    pop_all pop (length avs) s' = Some (map snd avs, s'') \<and> rep s'' []"
proof -
  have f: "fold (\<lambda>v vs. vs @ [v]) xs ys = ys @ xs" for xs ys :: "nat list"
    by (induction xs arbitrary: ys) auto
  from push_all_rep [of pushback "\<lambda>v vs. vs @ [v]", OF pushback_ok assms]
  obtain s' where "push_all pushback avs s = Some s'" "rep s' (map snd avs @ [])"
    by (auto simp: f)
  with pop_all_rep [of s' "map snd avs" "[]"] show ?thesis by auto
qed

end

context node_list
begin

text \<open>Priority order: what comes out is the input, highest priority first.\<close>

lemma priority_order:
  assumes "rep s []" and "distinct (map fst avs)" and "\<forall>a \<in> fst ` set avs. fresh_node s a"
  shows "\<exists>s' vs s''. push_all (\<lambda>a. insert_prio a prio) avs s = Some s' \<and>
    pop_all pop (length avs) s' = Some (vs, s'') \<and> rep s'' [] \<and>
    mset vs = mset (map snd avs) \<and> sorted_wrt (\<lambda>x y. prio y \<le> prio x) vs"
proof -
  have f: "mset (fold (insert_desc prio) xs ys) = mset xs + mset ys" for xs ys :: "nat list"
    by (induction xs arbitrary: ys) auto
  have g: "sorted_wrt (\<lambda>x y. prio y \<le> prio x) ys \<Longrightarrow>
      sorted_wrt (\<lambda>x y. prio y \<le> prio x) (fold (insert_desc prio) xs ys)" for xs ys :: "nat list"
    by (induction xs arbitrary: ys) (auto simp: sorted_insert_desc)
  let ?vs = "fold (insert_desc prio) (map snd avs) []"
  from push_all_rep [of "\<lambda>a. insert_prio a prio" "insert_desc prio", OF insert_ok assms]
  obtain s' where s': "push_all (\<lambda>a. insert_prio a prio) avs s = Some s'" "rep s' (?vs @ [])"
    by auto
  have "length ?vs = length avs" using f [of "map snd avs" "[]"] by (metis add_0_right length_map mset.simps(1) size_mset)
  with pop_all_rep [OF s'(2)] obtain s'' where "pop_all pop (length avs) s' = Some (?vs, s'')" "rep s'' []"
    by auto
  with s'(1) f [of "map snd avs" "[]"] g [of "[]" "map snd avs"] show ?thesis by auto
qed

end

text \<open>The provider: the operations of \<open>list.c\<close>, with the results the clients do not use dropped.\<close>

definition vrep :: "list_s \<times> node_heap \<Rightarrow> nat list \<Rightarrow> bool" where
  "vrep lh vs \<longleftrightarrow> (\<exists>avs. lrep lh avs \<and> map snd avs = vs)"

definition q_pushback :: "addr \<Rightarrow> nat \<Rightarrow> list_s \<times> node_heap \<Rightarrow> (list_s \<times> node_heap) option" where
  "q_pushback m v lh = map_option snd (list_pushback m v lh)"

definition q_remove_val :: "nat \<Rightarrow> list_s \<times> node_heap \<Rightarrow> (list_s \<times> node_heap) option" where
  "q_remove_val v lh =
     Option.bind (list_foreach (fst lh) (snd lh) (\<lambda>a d. if d = v then a else 0)) (\<lambda>node.
     if node \<noteq> 0 then map_option snd (list_remove node lh) else Some lh)"

lemma insert_desc_map:
  "map g (insert_desc (\<lambda>x. f (g x)) x xs) = insert_desc f (g x) (map g xs)"
  by (induction xs) auto

lemma find_split:
  "find P xs = Some x \<Longrightarrow> \<exists>us ys. xs = us @ x # ys \<and> P x \<and> (\<forall>u \<in> set us. \<not> P u)"
  by (induction xs) (auto split: if_splits, metis append_Nil empty_iff empty_set, metis append_Cons set_ConsD)

lemma q_remove_val_rep:
  assumes "vrep lh vs" shows "\<exists>lh'. q_remove_val v lh = Some lh' \<and> vrep lh' (remove1 v vs)"
proof -
  from assms obtain avs where avs: "lrep lh avs" "map snd avs = vs" by (auto simp: vrep_def)
  then have lf: "list_foreach (fst lh) (snd lh) (\<lambda>a d. if d = v then a else 0) =
      Some (case find (\<lambda>av. snd av = v) avs of None \<Rightarrow> 0 | Some av \<Rightarrow> fst av)"
    by (intro list_foreach_rep) simp
  show ?thesis
  proof (cases "find (\<lambda>av. snd av = v) avs")
    case None
    then have "v \<notin> set vs" using avs(2) by (auto simp: find_None_iff)
    with None lf assms show ?thesis by (simp add: q_remove_val_def remove1_idem)
  next
    case (Some av)
    from find_split [OF this] obtain us ys where s: "avs = us @ av # ys" "snd av = v"
      "\<forall>u \<in> set us. snd u \<noteq> v" by blast
    then obtain lh' where "list_remove (fst av) lh = Some (v, lh')" "lrep lh' (us @ ys)"
      using avs(1) list_remove_rep [of lh us "fst av" "snd av" ys] by auto
    moreover have "fst av \<noteq> 0"
      using avs(1) s(1) by (auto simp: lrep_def list_rep_def cells_rep_def)
    moreover have "v \<notin> set (map snd us)" using s(3) by auto
    then have "remove1 v vs = map snd (us @ ys)"
      using s(1,2) avs(2) by (auto simp: remove1_append)
    ultimately show ?thesis using Some lf by (auto simp: q_remove_val_def vrep_def)
  qed
qed

text \<open>An allocated node stays allocated, and an allocation takes one address only.\<close>

lemma set_next_alloc: "set_next a n h = Some h' \<Longrightarrow> h' b = None \<longleftrightarrow> h b = None"
  by (auto simp: set_next_def split: if_splits)

lemma set_data_alloc: "set_data a n h = Some h' \<Longrightarrow> h' b = None \<longleftrightarrow> h b = None"
  by (auto simp: set_data_def split: if_splits)

lemma q_pushback_fresh:
  "q_pushback m v lh = Some lh' \<Longrightarrow> b \<noteq> m \<Longrightarrow> fresh lh b \<Longrightarrow> fresh lh' b"
  by (auto simp: q_pushback_def list_pushback_def fresh_def bind_eq_Some_conv
      set_next_alloc set_data_alloc split: prod.splits if_splits)

lemma list_insert_sorted_fresh:
  "list_insert_sorted m prio v lh = Some lh' \<Longrightarrow> b \<noteq> m \<Longrightarrow> fresh lh b \<Longrightarrow> fresh lh' b"
  by (auto simp: list_insert_sorted_def fresh_def Let_def bind_eq_Some_conv set_next_alloc
      split: prod.splits if_splits)

interpretation clist: node_list vrep fresh q_pushback list_pop list_insert_sorted q_remove_val
proof
  fix s vs a v
  assume rep: "vrep s vs" and fr: "fresh s a"
  then obtain avs where avs: "lrep s avs" "map snd avs = vs" by (auto simp: vrep_def)
  from list_pushback_rep [OF avs(1) fr, of v] avs(2)
  have "\<exists>s'. q_pushback a v s = Some s' \<and> vrep s' (vs @ [v])"
    by (fastforce simp: q_pushback_def vrep_def)
  then show "\<exists>s'. q_pushback a v s = Some s' \<and> vrep s' (vs @ [v]) \<and> (\<forall>b. b \<noteq> a \<longrightarrow> fresh s b \<longrightarrow> fresh s' b)"
    using q_pushback_fresh by blast
  fix prio
  from list_insert_sorted_rep [OF avs(1) fr, of prio v] avs(2)
    insert_desc_map [of snd prio "(a, v)" avs]
  have "\<exists>s'. list_insert_sorted a prio v s = Some s' \<and> vrep s' (insert_desc prio v vs)"
    by (auto simp: vrep_def)
  then show "\<exists>s'. list_insert_sorted a prio v s = Some s' \<and> vrep s' (insert_desc prio v vs) \<and>
      (\<forall>b. b \<noteq> a \<longrightarrow> fresh s b \<longrightarrow> fresh s' b)"
    using list_insert_sorted_fresh by blast
next
  fix s v vs
  assume "vrep s (v # vs)"
  then show "\<exists>s'. list_pop s = Some (v, s') \<and> vrep s' vs"
    using list_pop_rep by (fastforce simp: vrep_def)
next
  fix s vs v
  assume "vrep s vs"
  then show "\<exists>s'. q_remove_val v s = Some s' \<and> vrep s' (remove1 v vs)"
    by (rule q_remove_val_rep)
qed

section \<open>Properties\<close>

text \<open>A list that \<open>list_create\<close> has just made, in an empty heap.\<close>

definition new_list :: "list_s \<times> node_heap" where
  "new_list = (case list_create 1 2 3 Map.empty of (h, Some l) \<Rightarrow> (l, h)
     | (h, None) \<Rightarrow> (\<lparr>list_head = 0, list_tail = 0, list_length = 0\<rparr>, h))"

lemma new_list_eq: "new_list =
   (\<lparr>list_head = 2, list_tail = 3, list_length = 0\<rparr>,
    [2 \<mapsto> \<lparr>node_next = 3, node_data = 0xdead\<rparr>, 3 \<mapsto> \<lparr>node_next = 0, node_data = 0\<rparr>])"
  by (simp add: new_list_def list_create_def)

lemma new_list_rep: "vrep new_list []"
  by (auto simp: vrep_def new_list_eq lrep_def list_rep_def cells_rep_def)

text \<open>
  Removing a waiting process. On any list \<open>list_foreach\<close> with
  \<open>find_waiting_process_node\<close> followed by \<open>list_remove\<close> returns, without touching a node
  outside the list, and removes the first node that carries the process, and only it: the
  list then represents \<open>remove1\<close> of the sequence.
\<close>

theorem list_find_and_remove:
  assumes "vrep lh vs"
  shows "\<exists>lh'. q_remove_val v lh = Some lh' \<and> vrep lh' (remove1 v vs)"
  using clist.remove_ok [OF assms] .

theorem list_find_and_remove_witness:
  "\<exists>lh'. q_remove_val 7 new_list = Some lh' \<and> vrep lh' []"
  using list_find_and_remove [OF new_list_rep, of 7] by simp

lemma insert_desc_while:
  "insert_desc f x ys = takeWhile (\<lambda>y. f x \<le> f y) ys @ x # dropWhile (\<lambda>y. f x \<le> f y) ys"
  by (induction ys) auto

text \<open>
  C26. \<open>list_insert_sorted\<close> returns whenever the allocation succeeds, and puts the new process
  in front of the first process of lower priority, or at the end when there is none; the order
  of the others does not change. Hence, on a queue that is sorted by priority, it stands behind
  every process of at least its priority and in front of every process of lower priority, and
  the queue stays sorted. (\<open>SET_PRIORITY\<close> changes the priority of a waiting process without
  moving it, so a queue need not be sorted: \<open>SET_PRIORITY_leaves_queue\<close>.)
\<close>

theorem list_insert_sorted_stable:
  assumes "vrep lh vs" and "fresh lh m"
  shows "\<exists>lh' vs'. list_insert_sorted m prio v lh = Some lh' \<and> vrep lh' vs' \<and>
    vs' = takeWhile (\<lambda>y. prio v \<le> prio y) vs @ v # dropWhile (\<lambda>y. prio v \<le> prio y) vs \<and>
    (sorted_wrt (\<lambda>x y. prio y \<le> prio x) vs \<longrightarrow> sorted_wrt (\<lambda>x y. prio y \<le> prio x) vs' \<and>
       vs' = filter (\<lambda>y. prio v \<le> prio y) vs @ v # filter (\<lambda>y. prio y < prio v) vs)"
proof -
  from clist.insert_ok [OF assms, of prio v] obtain lh' where
    "list_insert_sorted m prio v lh = Some lh'" "vrep lh' (insert_desc prio v vs)" by auto
  then show ?thesis
    using insert_desc_while [of prio v vs] insert_desc_split [of prio vs v] sorted_insert_desc [of prio vs v] by auto
qed

theorem list_insert_sorted_stable_witness:
  "\<exists>lh'. list_insert_sorted 4 int 9 new_list = Some lh' \<and> vrep lh' [9]"
  using list_insert_sorted_stable [OF new_list_rep, of 4 int 9]
  by (simp add: fresh_def new_list_eq)

text \<open>
  The lists are first-in first-out: pushing values at the back of an empty list and
  popping as many returns them in order and leaves the list empty; with
  \<open>list_insert_sorted\<close> in place of \<open>list_pushback\<close> what comes out is the same multiset,
  highest priority first.
\<close>

theorem list_queue_discipline:
  assumes "vrep lh []" and "distinct (map fst avs)" and "\<forall>a \<in> fst ` set avs. fresh lh a"
  shows "(\<exists>s' s''. push_all q_pushback avs lh = Some s' \<and>
           pop_all list_pop (length avs) s' = Some (map snd avs, s'') \<and> vrep s'' []) \<and>
         (\<exists>s' vs s''. push_all (\<lambda>a. list_insert_sorted a prio) avs lh = Some s' \<and>
           pop_all list_pop (length avs) s' = Some (vs, s'') \<and> vrep s'' [] \<and>
           mset vs = mset (map snd avs) \<and> sorted_wrt (\<lambda>x y. prio y \<le> prio x) vs)"
  using clist.fifo [OF assms] clist.priority_order [OF assms] by blast

theorem list_queue_discipline_witness:
  "\<exists>s' s''. push_all q_pushback [(4, 10), (5, 11)] new_list = Some s' \<and>
     pop_all list_pop 2 s' = Some ([10, 11], s'') \<and> vrep s'' []"
  using list_queue_discipline [OF new_list_rep, of "[(4, 10), (5, 11)]" int]
  by (simp add: fresh_def new_list_eq numeral_2_eq_2)

end
