(* ===== verification/Double_List.thy ===== *)
theory Double_List
  imports Linked_List
begin

text \<open>
  The doubly linked lists of \<open>lib/list.c\<close>, on a heap of nodes as in \<open>Linked_List\<close>: an access
  to an address that is not allocated is \<open>None\<close>, and the address an allocation returned, \<open>0\<close>
  when it failed, is a parameter.

  \<open>dlist_rep\<close> relates a heap and a list to the sequence of its nodes: every node points to
  both its neighbours. Every operation is shown to keep this, and to act on the sequence as
  its singly linked counterpart does; two operations, inserting behind a node and taking a
  node out, carry the others. The lists are an instance of \<open>node_seq\<close>.
\<close>

record dnode_s =
  d_prev :: addr
  d_next :: addr
  d_data :: nat

record dlist_s =
  dl_head :: addr
  dl_tail :: addr
  dl_length :: int

type_synonym dnode_heap = "addr \<Rightarrow> dnode_s option"

section \<open>Operations of the doubly linked lists\<close>

definition set_dnext :: "addr \<Rightarrow> addr \<Rightarrow> dnode_heap \<Rightarrow> dnode_heap option" where
  "set_dnext a n h = map_option (\<lambda>c. h(a \<mapsto> c\<lparr>d_next := n\<rparr>)) (h a)"

definition set_dprev :: "addr \<Rightarrow> addr \<Rightarrow> dnode_heap \<Rightarrow> dnode_heap option" where
  "set_dprev a p h = map_option (\<lambda>c. h(a \<mapsto> c\<lparr>d_prev := p\<rparr>)) (h a)"

definition dnext_of :: "dnode_heap \<Rightarrow> addr \<Rightarrow> addr option" where
  "dnext_of h a = map_option d_next (h a)"

definition dprev_of :: "dnode_heap \<Rightarrow> addr \<Rightarrow> addr option" where
  "dprev_of h a = map_option d_prev (h a)"

definition ddata_of :: "dnode_heap \<Rightarrow> addr \<Rightarrow> nat option" where
  "ddata_of h a = map_option d_data (h a)"

definition dlist_create :: "addr \<Rightarrow> addr \<Rightarrow> addr \<Rightarrow> dnode_heap \<Rightarrow> dnode_heap \<times> dlist_s option" where
  "dlist_create m_list m_head m_tail h =
     (if m_list = 0 then (h, None)
      else if m_head = 0 then (h, None)
      else if m_tail = 0 then (h, None)
      else (h(m_head \<mapsto> \<lparr>d_prev = 0, d_next = m_tail, d_data = 0xdead\<rparr>,
              m_tail \<mapsto> \<lparr>d_prev = m_head, d_next = 0, d_data = 0\<rparr>),
            Some \<lparr>dl_head = m_head, dl_tail = m_tail, dl_length = 0\<rparr>))"

definition dlist_destroy :: "dlist_s \<Rightarrow> dnode_heap \<Rightarrow> (int \<times> dnode_heap) option" where
  "dlist_destroy l h =
     Option.bind (dnext_of h (dl_head l)) (\<lambda>n.
     if n \<noteq> dl_tail l then Some (-1, h)
     else Some (0, h(dl_tail l := None, dl_head l := None)))"

definition dlist_push :: "addr \<Rightarrow> nat \<Rightarrow> dlist_s \<times> dnode_heap \<Rightarrow> (addr \<times> dlist_s \<times> dnode_heap) option" where
  "dlist_push m v lh = (case lh of (l, h) \<Rightarrow>
     if m = 0 then Some (0, l, h)
     else Option.bind (dnext_of h (dl_head l)) (\<lambda>n.
          let h = h(m \<mapsto> \<lparr>d_prev = dl_head l, d_next = n, d_data = v\<rparr>) in
          Option.bind (set_dprev n m h) (\<lambda>h.
          Option.bind (set_dnext (dl_head l) m h) (\<lambda>h.
          Some (m, l\<lparr>dl_length := dl_length l + 1\<rparr>, h)))))"

definition dlist_pushback :: "addr \<Rightarrow> nat \<Rightarrow> dlist_s \<times> dnode_heap \<Rightarrow> (addr \<times> dlist_s \<times> dnode_heap) option" where
  "dlist_pushback m v lh = (case lh of (l, h) \<Rightarrow>
     if m = 0 then Some (0, l, h)
     else Option.bind (dprev_of h (dl_tail l)) (\<lambda>p.
          let h = h(m \<mapsto> \<lparr>d_prev = p, d_next = dl_tail l, d_data = v\<rparr>) in
          Option.bind (set_dnext p m h) (\<lambda>h.
          Option.bind (set_dprev (dl_tail l) m h) (\<lambda>h.
          Some (m, l\<lparr>dl_length := dl_length l + 1\<rparr>, h)))))"

definition dlist_pop :: "dlist_s \<times> dnode_heap \<Rightarrow> (nat \<times> dlist_s \<times> dnode_heap) option" where
  "dlist_pop lh = (case lh of (l, h) \<Rightarrow>
     Option.bind (dnext_of h (dl_head l)) (\<lambda>node.
     Option.bind (dnext_of h node) (\<lambda>n.
     if n = 0 then Some (0, l, h)
     else Option.bind (ddata_of h node) (\<lambda>v.
          Option.bind (set_dprev n (dl_head l) h) (\<lambda>h.
          Option.bind (set_dnext (dl_head l) n h) (\<lambda>h.
          Some (v, l\<lparr>dl_length := dl_length l - 1\<rparr>, h(node := None))))))))"

definition dlist_popback :: "dlist_s \<times> dnode_heap \<Rightarrow> (nat \<times> dlist_s \<times> dnode_heap) option" where
  "dlist_popback lh = (case lh of (l, h) \<Rightarrow>
     Option.bind (dnext_of h (dl_head l)) (\<lambda>n.
     Option.bind (dnext_of h n) (\<lambda>nn.
     if nn = 0 then Some (0, l, h)
     else Option.bind (dprev_of h (dl_tail l)) (\<lambda>node.
          Option.bind (ddata_of h node) (\<lambda>v.
          Option.bind (dprev_of h node) (\<lambda>p.
          Option.bind (set_dnext p (dl_tail l) h) (\<lambda>h.
          Option.bind (set_dprev (dl_tail l) p h) (\<lambda>h.
          Some (v, l\<lparr>dl_length := dl_length l - 1\<rparr>, h(node := None))))))))))"

definition dlist_next :: "dnode_heap \<Rightarrow> addr \<Rightarrow> addr option" where
  "dlist_next h node = dnext_of h node"

definition dlist_prev :: "dnode_heap \<Rightarrow> addr \<Rightarrow> addr option" where
  "dlist_prev h node = dprev_of h node"

definition dlist_cnext :: "dlist_s \<Rightarrow> dnode_heap \<Rightarrow> addr \<Rightarrow> addr option" where
  "dlist_cnext l h node =
     Option.bind (dnext_of h node) (\<lambda>n.
     Option.bind (dnext_of h n) (\<lambda>nn.
     if nn = 0 then dnext_of h (dl_head l) else Some n))"

definition dlist_cprev :: "dlist_s \<Rightarrow> dnode_heap \<Rightarrow> addr \<Rightarrow> addr option" where
  "dlist_cprev l h node =
     Option.bind (dprev_of h node) (\<lambda>p.
     Option.bind (dprev_of h p) (\<lambda>pp.
     if pp = 0 then dprev_of h (dl_tail l) else Some p))"

text \<open>\<open>while (last->next != node) last = last->next;\<close>, whose result \<open>dlist_move\<close> does not use.\<close>

partial_function (option) dfind_prev :: "dnode_heap \<Rightarrow> addr \<Rightarrow> addr \<Rightarrow> addr option" where
  "dfind_prev h node prev =
     Option.bind (dnext_of h prev) (\<lambda>n. if n = node then Some prev else dfind_prev h node n)"

definition dlist_move :: "dlist_s \<Rightarrow> dlist_s \<Rightarrow> addr \<Rightarrow> dnode_heap \<Rightarrow>
    (nat \<times> dlist_s \<times> dlist_s \<times> dnode_heap) option" where
  "dlist_move dst src node h =
     Option.bind (dprev_of h node) (\<lambda>p.
     Option.bind (dnext_of h node) (\<lambda>n.
     if p = 0 \<or> n = 0 \<or> node = 0 then Some (0, dst, src, h)
     else Option.bind (ddata_of h node) (\<lambda>v.
          Option.bind (dfind_prev h node (dl_head src)) (\<lambda>last.
          Option.bind (set_dnext p n h) (\<lambda>h.
          Option.bind (set_dprev n p h) (\<lambda>h.
          Option.bind (dprev_of h (dl_tail dst)) (\<lambda>q.
          Option.bind (set_dprev node q h) (\<lambda>h.
          Option.bind (set_dnext node (dl_tail dst) h) (\<lambda>h.
          Option.bind (set_dnext q node h) (\<lambda>h.
          Option.bind (set_dprev (dl_tail dst) node h) (\<lambda>h.
          Some (v, dst\<lparr>dl_length := dl_length dst + 1\<rparr>, src\<lparr>dl_length := dl_length src - 1\<rparr>, h))))))))))))"

definition dlist_rotate :: "dlist_s \<times> dnode_heap \<Rightarrow> (addr \<times> dlist_s \<times> dnode_heap) option" where
  "dlist_rotate lh = (case lh of (l, h) \<Rightarrow>
     Option.bind (dnext_of h (dl_head l)) (\<lambda>node.
     Option.bind (dnext_of h node) (\<lambda>n.
     if n = 0 then Some (0, l, h)
     else Option.bind (set_dprev n (dl_head l) h) (\<lambda>h.
          Option.bind (set_dnext (dl_head l) n h) (\<lambda>h.
          Option.bind (dprev_of h (dl_tail l)) (\<lambda>last.
          Option.bind (set_dprev node last h) (\<lambda>h.
          Option.bind (set_dnext node (dl_tail l) h) (\<lambda>h.
          Option.bind (set_dnext last node h) (\<lambda>h.
          Option.bind (set_dprev (dl_tail l) node h) (\<lambda>h.
          Some (last, l, h)))))))))))"

definition dlist_insert :: "addr \<Rightarrow> addr \<Rightarrow> nat \<Rightarrow> dlist_s \<times> dnode_heap \<Rightarrow> (addr \<times> dlist_s \<times> dnode_heap) option" where
  "dlist_insert m prevnode v lh = (case lh of (l, h) \<Rightarrow>
     if m = 0 then Some (0, l, h)
     else Option.bind (dnext_of h prevnode) (\<lambda>n.
          let h = h(m \<mapsto> \<lparr>d_prev = prevnode, d_next = n, d_data = v\<rparr>) in
          if n \<noteq> 0 then
            Option.bind (set_dprev n m h) (\<lambda>h.
            Option.bind (set_dnext prevnode m h) (\<lambda>h.
            Some (m, l\<lparr>dl_length := dl_length l + 1\<rparr>, h)))
          else Some (0, l, h(m := None))))"

definition dlist_remove :: "addr \<Rightarrow> dlist_s \<times> dnode_heap \<Rightarrow> (nat \<times> dlist_s \<times> dnode_heap) option" where
  "dlist_remove node lh = (case lh of (l, h) \<Rightarrow>
     if node = dl_head l \<or> node = dl_tail l then Some (0, l, h)
     else Option.bind (ddata_of h node) (\<lambda>v.
          Option.bind (dprev_of h node) (\<lambda>p.
          Option.bind (dnext_of h node) (\<lambda>n.
          Option.bind (set_dnext p n h) (\<lambda>h.
          Option.bind (set_dprev n p h) (\<lambda>h.
          Some (v, l\<lparr>dl_length := dl_length l - 1\<rparr>, h(node := None))))))))"

text \<open>The counted walks of \<open>dlist_index\<close>, forwards and backwards; \<open>0\<close> is the null pointer.\<close>

fun dwalk :: "(addr \<Rightarrow> addr option) \<Rightarrow> nat \<Rightarrow> addr \<Rightarrow> addr option" where
  "dwalk step 0 node = Some node"
| "dwalk step (Suc k) node = (if node = 0 then Some 0 else Option.bind (step node) (dwalk step k))"

definition dlist_index :: "dlist_s \<Rightarrow> dnode_heap \<Rightarrow> int \<Rightarrow> addr option" where
  "dlist_index l h idx =
     (if 0 \<le> idx then Option.bind (dnext_of h (dl_head l)) (dwalk (dnext_of h) (nat idx))
      else dwalk (dprev_of h) (nat (- idx)) (dl_tail l))"

partial_function (option) dforeach_loop :: "dnode_heap \<Rightarrow> (addr \<Rightarrow> nat \<Rightarrow> addr) \<Rightarrow> addr \<Rightarrow> addr option" where
  "dforeach_loop h iter_fn node =
     Option.bind (h node) (\<lambda>c.
     if d_next c = 0 then Some 0
     else let v = iter_fn node (d_data c) in
          if v \<noteq> 0 then Some v else dforeach_loop h iter_fn (d_next c))"

definition dlist_foreach :: "dlist_s \<Rightarrow> dnode_heap \<Rightarrow> (addr \<Rightarrow> nat \<Rightarrow> addr) \<Rightarrow> addr option" where
  "dlist_foreach l h iter_fn = Option.bind (dnext_of h (dl_head l)) (dforeach_loop h iter_fn)"

section \<open>Chains of nodes\<close>

text \<open>The address a chain starts with, and the one it ends with.\<close>

fun first_addr :: "(addr \<times> nat) list \<Rightarrow> addr \<Rightarrow> addr" where
  "first_addr [] n = n"
| "first_addr ((a, v) # avs) n = a"

definition last_addr :: "addr \<Rightarrow> (addr \<times> nat) list \<Rightarrow> addr" where
  "last_addr p avs = (if avs = [] then p else fst (last avs))"

text \<open>\<open>chain h p avs n\<close>: the nodes of \<open>avs\<close>, the first with \<open>p\<close> before it, the last with \<open>n\<close> behind it.\<close>

fun chain :: "dnode_heap \<Rightarrow> addr \<Rightarrow> (addr \<times> nat) list \<Rightarrow> addr \<Rightarrow> bool" where
  "chain h p [] n \<longleftrightarrow> True"
| "chain h p ((a, v) # avs) n \<longleftrightarrow>
     h a = Some \<lparr>d_prev = p, d_next = first_addr avs n, d_data = v\<rparr> \<and> chain h a avs n"

lemma first_addr_append: "first_addr (xs @ ys) n = first_addr xs (first_addr ys n)"
  by (cases xs) auto

lemma chain_append:
  "chain h p (xs @ ys) n \<longleftrightarrow> chain h p xs (first_addr ys n) \<and> chain h (last_addr p xs) ys n"
  by (induction h p xs n rule: chain.induct) (auto simp: last_addr_def first_addr_append)

lemma chain_cong: "(\<And>a. a \<in> fst ` set avs \<Longrightarrow> h' a = h a) \<Longrightarrow> chain h' p avs n = chain h p avs n"
  by (induction h p avs n rule: chain.induct) auto

lemma chain_frame [simp]: "a \<notin> fst ` set avs \<Longrightarrow> chain (h(a := c)) p avs n = chain h p avs n"
  by (rule chain_cong) auto

lemma chain_alloc: "chain h p avs n \<Longrightarrow> a \<in> fst ` set avs \<Longrightarrow> h a \<noteq> None"
  by (induction h p avs n rule: chain.induct) auto

definition dcells :: "dlist_s \<Rightarrow> (addr \<times> nat) list \<Rightarrow> (addr \<times> nat) list" where
  "dcells l avs = (dl_head l, 0xdead) # avs @ [(dl_tail l, 0)]"

definition dlist_rep :: "dlist_s \<times> dnode_heap \<Rightarrow> (addr \<times> nat) list \<Rightarrow> bool" where
  "dlist_rep lh avs \<longleftrightarrow> (case lh of (l, h) \<Rightarrow>
     chain h 0 (dcells l avs) 0 \<and> distinct (map fst (dcells l avs)) \<and> 0 \<notin> set (map fst (dcells l avs)) \<and>
     dl_length l = int (length avs))"

text \<open>
  The two changes every operation makes, on the cells of a list: linking a node between two
  neighbours, and taking it out again.
\<close>

definition link :: "addr \<Rightarrow> addr \<Rightarrow> addr \<Rightarrow> nat \<Rightarrow> dnode_heap \<Rightarrow> dnode_heap" where
  "link b m c v h = h(m \<mapsto> \<lparr>d_prev = b, d_next = c, d_data = v\<rparr>,
     c \<mapsto> (the (h c))\<lparr>d_prev := m\<rparr>, b \<mapsto> (the (h b))\<lparr>d_next := m\<rparr>)"

definition unlink :: "addr \<Rightarrow> addr \<Rightarrow> dnode_heap \<Rightarrow> dnode_heap" where
  "unlink b c h = h(c \<mapsto> (the (h c))\<lparr>d_prev := b\<rparr>, b \<mapsto> (the (h b))\<lparr>d_next := c\<rparr>)"

lemma chain_mid:
  "chain h p (us @ (b, w) # ys) n \<longleftrightarrow>
     chain h p us b \<and> h b = Some \<lparr>d_prev = last_addr p us, d_next = first_addr ys n, d_data = w\<rparr> \<and>
     chain h b ys n"
  by (simp add: chain_append)

lemma last_addr_Nil [simp]: "last_addr p [] = p"
  by (simp add: last_addr_def)

lemma last_addr_snoc [simp]: "last_addr p (us @ [(b, w)]) = b"
  by (simp add: last_addr_def)

lemma chain_link:
  assumes ch: "chain h p (us @ (b, w) # (c, x) # ys) n"
    and d: "distinct (map fst (us @ (b, w) # (c, x) # ys))"
    and m: "m \<notin> fst ` set (us @ (b, w) # (c, x) # ys)"
  shows "chain (link b m c v h) p (us @ (b, w) # (m, v) # (c, x) # ys) n"
proof -
  have ne: "b \<noteq> c" "m \<noteq> b" "m \<noteq> c"
    and us: "b \<notin> fst ` set us" "c \<notin> fst ` set us" "m \<notin> fst ` set us"
    and ys: "b \<notin> fst ` set ys" "c \<notin> fst ` set ys" "m \<notin> fst ` set ys"
    using d m by auto
  from ch have h: "chain h p us b" "h b = Some \<lparr>d_prev = last_addr p us, d_next = c, d_data = w\<rparr>"
    "h c = Some \<lparr>d_prev = b, d_next = first_addr ys n, d_data = x\<rparr>" "chain h c ys n"
    by (simp_all add: chain_mid)
  then show ?thesis using ne us ys by (simp add: chain_mid link_def)
qed

lemma chain_unlink:
  assumes ch: "chain h p (us @ (b, w) # (m, v) # (c, x) # ys) n"
    and d: "distinct (map fst (us @ (b, w) # (m, v) # (c, x) # ys))"
  shows "chain (unlink b c h) p (us @ (b, w) # (c, x) # ys) n"
proof -
  have ne: "b \<noteq> c" "m \<noteq> b" "m \<noteq> c"
    and us: "b \<notin> fst ` set us" "c \<notin> fst ` set us" "m \<notin> fst ` set us"
    and ys: "b \<notin> fst ` set ys" "c \<notin> fst ` set ys" "m \<notin> fst ` set ys"
    using d by auto
  from ch have h: "chain h p us b" "h b = Some \<lparr>d_prev = last_addr p us, d_next = m, d_data = w\<rparr>"
    "h c = Some \<lparr>d_prev = m, d_next = first_addr ys n, d_data = x\<rparr>" "chain h c ys n"
    by (simp_all add: chain_mid)
  then show ?thesis using ne us ys by (simp add: chain_mid unlink_def)
qed

lemma dcells_length [simp]: "dcells (l\<lparr>dl_length := n\<rparr>) avs = dcells l avs"
  by (simp add: dcells_def)

text \<open>The nodes before and behind a gap of the list.\<close>

abbreviation bef :: "dlist_s \<Rightarrow> (addr \<times> nat) list \<Rightarrow> addr" where
  "bef l xs \<equiv> last_addr (dl_head l) xs"

abbreviation aft :: "dlist_s \<Rightarrow> (addr \<times> nat) list \<Rightarrow> addr" where
  "aft l ys \<equiv> first_addr ys (dl_tail l)"

lemma dcells_gap:
  obtains us w x zs where "(dl_head l, 0xdead) # xs = us @ [(bef l xs, w)]"
    and "ys @ [(dl_tail l, 0)] = (aft l ys, x) # zs"
    and "dcells l (xs @ ys) = us @ (bef l xs, w) # (aft l ys, x) # zs"
proof -
  obtain us w where 1: "(dl_head l, 0xdead) # xs = us @ [(bef l xs, w)]"
    by (cases xs rule: rev_cases) (auto simp: last_addr_def)
  obtain x zs where 2: "ys @ [(dl_tail l, 0)] = (aft l ys, x) # zs"
    by (cases ys) auto
  have "dcells l (xs @ ys) = ((dl_head l, 0xdead) # xs) @ (ys @ [(dl_tail l, 0)])"
    by (simp add: dcells_def)
  also have "\<dots> = us @ (bef l xs, w) # (aft l ys, x) # zs"
    unfolding 1 2 by simp
  finally show thesis using 1 2 that by blast
qed

definition dlist_nodes :: "dlist_s \<Rightarrow> (addr \<times> nat) list \<Rightarrow> addr set" where
  "dlist_nodes l avs = fst ` set (dcells l avs)"

lemma dlist_nodes_length [simp]: "dlist_nodes (l\<lparr>dl_length := n\<rparr>) avs = dlist_nodes l avs"
  by (simp add: dlist_nodes_def)

lemma dlist_nodes_append:
  "dlist_nodes l (xs @ ys) = insert (dl_head l) (insert (dl_tail l) (fst ` set xs \<union> fst ` set ys))"
  by (auto simp: dlist_nodes_def dcells_def)

lemma dlist_rep_frame:
  "dlist_rep (l, h) avs \<Longrightarrow> (\<And>a. a \<in> dlist_nodes l avs \<Longrightarrow> h' a = h a) \<Longrightarrow> dlist_rep (l, h') avs"
  using chain_cong [of "dcells l avs" h' h] by (auto simp: dlist_rep_def dlist_nodes_def)

lemma dlist_rep_alloc:
  assumes "dlist_rep (l, h) avs" and "a \<in> dlist_nodes l avs" shows "h a \<noteq> None" and "a \<noteq> 0"
proof -
  show "h a \<noteq> None"
    using assms chain_alloc [of h 0 "dcells l avs" 0 a] by (simp add: dlist_rep_def dlist_nodes_def)
  show "a \<noteq> 0"
  proof
    assume "a = 0"
    then have "0 \<in> set (map fst (dcells l avs))" using assms(2) by (simp add: dlist_nodes_def)
    with assms(1) show False by (simp add: dlist_rep_def)
  qed
qed

text \<open>What the fields around a gap hold.\<close>

lemma dlist_gap:
  assumes "dlist_rep (l, h) (xs @ ys)"
  obtains nb nc where "h (bef l xs) = Some nb" "d_next nb = aft l ys" "h (aft l ys) = Some nc"
    "d_prev nc = bef l xs" "bef l xs \<noteq> aft l ys" "bef l xs \<noteq> 0" "aft l ys \<noteq> 0"
    "bef l xs \<in> dlist_nodes l (xs @ ys)" "aft l ys \<in> dlist_nodes l (xs @ ys)"
proof -
  obtain us w x zs where "(dl_head l, 0xdead) # xs = us @ [(bef l xs, w)]"
    and "ys @ [(dl_tail l, 0)] = (aft l ys, x) # zs"
    and d: "dcells l (xs @ ys) = us @ (bef l xs, w) # (aft l ys, x) # zs"
    by (rule dcells_gap [of l xs ys])
  from assms have r: "chain h 0 (dcells l (xs @ ys)) 0" "distinct (map fst (dcells l (xs @ ys)))"
    "0 \<notin> set (map fst (dcells l (xs @ ys)))" by (simp_all add: dlist_rep_def)
  from r(1) have "\<exists>nb nc. h (bef l xs) = Some nb \<and> d_next nb = aft l ys \<and> h (aft l ys) = Some nc \<and>
      d_prev nc = bef l xs"
    by (simp add: d chain_mid)
  moreover have "bef l xs \<noteq> aft l ys" "bef l xs \<noteq> 0" "aft l ys \<noteq> 0"
    "bef l xs \<in> dlist_nodes l (xs @ ys)" "aft l ys \<in> dlist_nodes l (xs @ ys)"
    using r(2,3) by (auto simp: d dlist_nodes_def)
  ultimately show thesis using that by blast
qed

lemma dlist_link:
  assumes rep: "dlist_rep (l, h) (xs @ ys)" and m: "m \<notin> dlist_nodes l (xs @ ys)" "m \<noteq> 0"
  shows "dlist_rep (l\<lparr>dl_length := dl_length l + 1\<rparr>, link (bef l xs) m (aft l ys) v h) (xs @ (m, v) # ys)"
proof -
  obtain us w x zs where u: "(dl_head l, 0xdead) # xs = us @ [(bef l xs, w)]"
    and z: "ys @ [(dl_tail l, 0)] = (aft l ys, x) # zs"
    and d: "dcells l (xs @ ys) = us @ (bef l xs, w) # (aft l ys, x) # zs"
    by (rule dcells_gap [of l xs ys])
  have "dcells l (xs @ (m, v) # ys) = ((dl_head l, 0xdead) # xs) @ (m, v) # (ys @ [(dl_tail l, 0)])"
    by (simp add: dcells_def)
  also have "\<dots> = us @ (bef l xs, w) # (m, v) # (aft l ys, x) # zs"
    unfolding u z by simp
  finally have d': "dcells l (xs @ (m, v) # ys) = us @ (bef l xs, w) # (m, v) # (aft l ys, x) # zs" .
  from rep m have "chain (link (bef l xs) m (aft l ys) v h) 0 (us @ (bef l xs, w) # (m, v) # (aft l ys, x) # zs) 0"
    by - (rule chain_link, simp_all add: dlist_rep_def dlist_nodes_def d)
  with rep m show ?thesis by (auto simp: dlist_rep_def d' dlist_nodes_def d)
qed

lemma dlist_unlink:
  assumes rep: "dlist_rep (l, h) (xs @ (m, v) # ys)"
  shows "dlist_rep (l\<lparr>dl_length := dl_length l - 1\<rparr>, unlink (bef l xs) (aft l ys) h) (xs @ ys)"
    and "m \<notin> dlist_nodes l (xs @ ys)"
proof -
  obtain us w x zs where u: "(dl_head l, 0xdead) # xs = us @ [(bef l xs, w)]"
    and z: "ys @ [(dl_tail l, 0)] = (aft l ys, x) # zs"
    and d: "dcells l (xs @ ys) = us @ (bef l xs, w) # (aft l ys, x) # zs"
    by (rule dcells_gap [of l xs ys])
  have "dcells l (xs @ (m, v) # ys) = ((dl_head l, 0xdead) # xs) @ (m, v) # (ys @ [(dl_tail l, 0)])"
    by (simp add: dcells_def)
  also have "\<dots> = us @ (bef l xs, w) # (m, v) # (aft l ys, x) # zs"
    unfolding u z by simp
  finally have d': "dcells l (xs @ (m, v) # ys) = us @ (bef l xs, w) # (m, v) # (aft l ys, x) # zs" .
  from rep have "chain (unlink (bef l xs) (aft l ys) h) 0 (us @ (bef l xs, w) # (aft l ys, x) # zs) 0"
    by - (rule chain_unlink [where m = m and v = v], simp_all add: dlist_rep_def d')
  with rep show "dlist_rep (l\<lparr>dl_length := dl_length l - 1\<rparr>, unlink (bef l xs) (aft l ys) h) (xs @ ys)"
    and "m \<notin> dlist_nodes l (xs @ ys)"
    by (auto simp: dlist_rep_def d d' dlist_nodes_def)
qed

text \<open>The accesses of the operations, at a gap or around a node.\<close>

lemma dlist_fields:
  assumes "dlist_rep (l, h) (xs @ ys)"
  shows "dnext_of h (bef l xs) = Some (aft l ys)" and "dprev_of h (aft l ys) = Some (bef l xs)"
    and "bef l xs \<noteq> 0" and "aft l ys \<noteq> 0" and "bef l xs \<noteq> aft l ys"
  using assms by (auto elim!: dlist_gap simp: dnext_of_def dprev_of_def)

lemma distinct_mid:
  "distinct (map fst (us @ (m, v) # ws)) \<Longrightarrow> b \<in> fst ` set us \<Longrightarrow> c \<in> fst ` set ws \<Longrightarrow>
     m \<noteq> b \<and> m \<noteq> c \<and> b \<noteq> c"
  by auto

lemma dlist_node:
  assumes "dlist_rep (l, h) (xs @ (m, v) # ys)"
  shows "h m = Some \<lparr>d_prev = bef l xs, d_next = aft l ys, d_data = v\<rparr>"
    and "m \<noteq> dl_head l \<and> m \<noteq> dl_tail l \<and> dl_head l \<noteq> dl_tail l"
    and "m \<noteq> bef l xs \<and> m \<noteq> aft l ys \<and> bef l xs \<noteq> aft l ys"
proof -
  have d: "dcells l (xs @ (m, v) # ys) = ((dl_head l, 0xdead) # xs) @ (m, v) # (ys @ [(dl_tail l, 0)])"
    by (simp add: dcells_def)
  have "last_addr 0 ((dl_head l, 0xdead) # xs) = bef l xs" by (auto simp: last_addr_def)
  moreover have "first_addr (ys @ [(dl_tail l, 0)]) 0 = aft l ys" by (simp add: first_addr_append)
  ultimately show "h m = Some \<lparr>d_prev = bef l xs, d_next = aft l ys, d_data = v\<rparr>"
    using assms by (simp add: dlist_rep_def d chain_mid del: append_Cons)
  from assms have dm: "distinct (map fst (((dl_head l, 0xdead) # xs) @ (m, v) # (ys @ [(dl_tail l, 0)])))"
    by (simp only: dlist_rep_def d prod.case)
  show "m \<noteq> dl_head l \<and> m \<noteq> dl_tail l \<and> dl_head l \<noteq> dl_tail l"
    by (rule distinct_mid [OF dm]) simp_all
  have "bef l xs \<in> fst ` set ((dl_head l, 0xdead) # xs)" by (simp add: last_addr_def)
  moreover have "aft l ys \<in> fst ` set (ys @ [(dl_tail l, 0)])" by (cases ys) auto
  ultimately show "m \<noteq> bef l xs \<and> m \<noteq> aft l ys \<and> bef l xs \<noteq> aft l ys"
    by (rule distinct_mid [OF dm])
qed

lemma dlist_node_fields:
  assumes "dlist_rep (l, h) (xs @ (m, v) # ys)"
  shows "dprev_of h m = Some (bef l xs)" and "dnext_of h m = Some (aft l ys)" and "ddata_of h m = Some v"
  using dlist_node(1) [OF assms] by (simp_all add: dprev_of_def dnext_of_def ddata_of_def)

lemma dlist_ends:
  assumes "dlist_rep (l, h) avs"
  shows "dprev_of h (dl_head l) = Some 0" and "dnext_of h (dl_tail l) = Some 0"
proof -
  have "dcells l avs = [] @ (dl_head l, 0xdead) # avs @ [(dl_tail l, 0)]" by (simp add: dcells_def)
  with assms show "dprev_of h (dl_head l) = Some 0"
    by (simp add: dlist_rep_def dprev_of_def last_addr_def)
  have "dcells l avs = ((dl_head l, 0xdead) # avs) @ (dl_tail l, 0) # []" by (simp add: dcells_def)
  with assms show "dnext_of h (dl_tail l) = Some 0"
    by (simp add: dlist_rep_def dnext_of_def chain_mid del: append_Cons)
qed

text \<open>The orders in which the operations write the neighbours of a node.\<close>

lemma link_writes:
  assumes rep: "dlist_rep (l, h) (xs @ ys)" and m: "m \<notin> dlist_nodes l (xs @ ys)"
  shows "Option.bind (set_dprev (aft l ys) m (h(m \<mapsto> \<lparr>d_prev = bef l xs, d_next = aft l ys, d_data = v\<rparr>)))
           (\<lambda>h. Option.bind (set_dnext (bef l xs) m h) f) = f (link (bef l xs) m (aft l ys) v h)"
    and "Option.bind (set_dnext (bef l xs) m (h(m \<mapsto> \<lparr>d_prev = bef l xs, d_next = aft l ys, d_data = v\<rparr>)))
           (\<lambda>h. Option.bind (set_dprev (aft l ys) m h) f) = f (link (bef l xs) m (aft l ys) v h)"
proof -
  from rep m obtain nb nc where n: "h (bef l xs) = Some nb" "h (aft l ys) = Some nc" "bef l xs \<noteq> aft l ys"
    "bef l xs \<noteq> m" "aft l ys \<noteq> m"
    by (auto elim!: dlist_gap)
  then show "Option.bind (set_dprev (aft l ys) m (h(m \<mapsto> \<lparr>d_prev = bef l xs, d_next = aft l ys, d_data = v\<rparr>)))
      (\<lambda>h. Option.bind (set_dnext (bef l xs) m h) f) = f (link (bef l xs) m (aft l ys) v h)"
    by (simp add: link_def set_dprev_def set_dnext_def)
  from n show "Option.bind (set_dnext (bef l xs) m (h(m \<mapsto> \<lparr>d_prev = bef l xs, d_next = aft l ys, d_data = v\<rparr>)))
      (\<lambda>h. Option.bind (set_dprev (aft l ys) m h) f) = f (link (bef l xs) m (aft l ys) v h)"
    by (simp add: link_def set_dprev_def set_dnext_def fun_upd_twist [of "bef l xs" "aft l ys"])
qed

lemma unlink_writes:
  assumes rep: "dlist_rep (l, h) (xs @ (m, v) # ys)"
  shows "Option.bind (set_dprev (aft l ys) (bef l xs) h) (\<lambda>h. Option.bind (set_dnext (bef l xs) (aft l ys) h) f) =
      f (unlink (bef l xs) (aft l ys) h)"
    and "Option.bind (set_dnext (bef l xs) (aft l ys) h) (\<lambda>h. Option.bind (set_dprev (aft l ys) (bef l xs) h) f) =
      f (unlink (bef l xs) (aft l ys) h)"
    and "unlink (bef l xs) (aft l ys) h m = h m"
proof -
  have "bef l xs \<in> dlist_nodes l (xs @ (m, v) # ys)" and "aft l ys \<in> dlist_nodes l (xs @ (m, v) # ys)"
    by (simp add: dlist_nodes_append last_addr_def) (cases ys, auto simp: dlist_nodes_append)
  then obtain nb nc where n: "h (bef l xs) = Some nb" "h (aft l ys) = Some nc"
    using dlist_rep_alloc(1) [OF rep] by blast
  note ne = dlist_node(3) [OF rep]
  show "Option.bind (set_dprev (aft l ys) (bef l xs) h) (\<lambda>h. Option.bind (set_dnext (bef l xs) (aft l ys) h) f) =
      f (unlink (bef l xs) (aft l ys) h)"
    using n ne by (simp add: unlink_def set_dprev_def set_dnext_def)
  show "Option.bind (set_dnext (bef l xs) (aft l ys) h) (\<lambda>h. Option.bind (set_dprev (aft l ys) (bef l xs) h) f) =
      f (unlink (bef l xs) (aft l ys) h)"
    using n ne by (simp add: unlink_def set_dprev_def set_dnext_def fun_upd_twist [of "bef l xs" "aft l ys"])
  show "unlink (bef l xs) (aft l ys) h m = h m"
    using ne by (simp add: unlink_def)
qed

text \<open>The operations, on the sequence of the nodes.\<close>

definition dfresh :: "dlist_s \<times> dnode_heap \<Rightarrow> addr \<Rightarrow> bool" where
  "dfresh lh m \<longleftrightarrow> m \<noteq> 0 \<and> snd lh m = None"

lemma dfresh_notin: "dlist_rep (l, h) avs \<Longrightarrow> dfresh (l, h) m \<Longrightarrow> m \<notin> dlist_nodes l avs \<and> m \<noteq> 0"
  using dlist_rep_alloc(1) by (fastforce simp: dfresh_def)

lemma dlist_push_rep:
  assumes rep: "dlist_rep (l, h) avs" and m: "dfresh (l, h) m"
  shows "\<exists>lh'. dlist_push m v (l, h) = Some (m, lh') \<and> dlist_rep lh' ((m, v) # avs)"
proof -
  from rep have r: "dlist_rep (l, h) ([] @ avs)" by simp
  show ?thesis
    using dlist_link [OF r, of m v] dfresh_notin [OF rep m] dlist_fields(1) [OF r]
    by (simp add: dlist_push_def Let_def link_writes(1) [OF r, simplified])
qed

lemma dlist_pushback_rep:
  assumes rep: "dlist_rep (l, h) avs" and m: "dfresh (l, h) m"
  shows "\<exists>lh'. dlist_pushback m v (l, h) = Some (m, lh') \<and> dlist_rep lh' (avs @ [(m, v)])"
proof -
  from rep have r: "dlist_rep (l, h) (avs @ [])" by simp
  show ?thesis
    using dlist_link [OF r, of m v] dfresh_notin [OF rep m] dlist_fields(2) [OF r]
    by (simp add: dlist_pushback_def Let_def link_writes(2) [OF r, simplified])
qed


lemma dlist_pop_rep:
  assumes rep: "dlist_rep (l, h) ((m, v) # avs)"
  shows "\<exists>lh'. dlist_pop (l, h) = Some (v, lh') \<and> dlist_rep lh' avs \<and> snd lh' m = None"
proof -
  from rep have r: "dlist_rep (l, h) ([] @ (m, v) # avs)" by simp
  have "dlist_rep (l\<lparr>dl_length := dl_length l - 1\<rparr>, (unlink (dl_head l) (aft l avs) h)(m := None)) avs"
    by (rule dlist_rep_frame [OF dlist_unlink(1) [OF r, simplified]])
      (use dlist_unlink(2) [OF r] in \<open>auto simp: dlist_nodes_def\<close>)
  moreover have "aft l avs \<noteq> 0" using dlist_fields(4) [of l h "[(m, v)]" avs] rep by simp
  ultimately show ?thesis
    using dlist_node_fields [OF r] dlist_fields(1) [OF r]
    by (simp add: dlist_pop_def unlink_writes(1) [OF r, simplified])
qed

lemma dlist_pop_empty: "dlist_rep (l, h) [] \<Longrightarrow> dlist_pop (l, h) = Some (0, l, h)"
  using dlist_fields(1) [of l h "[]" "[]"] dlist_ends(2) [of l h "[]"] by (simp add: dlist_pop_def)

text \<open>The test for an empty list, of \<open>dlist_pop\<close>, \<open>dlist_popback\<close> and \<open>dlist_rotate\<close>.\<close>

lemma dlist_test:
  assumes "dlist_rep (l, h) avs"
  obtains n where "dnext_of h (dl_head l) = Some (aft l avs)" "dnext_of h (aft l avs) = Some n"
    "n = 0 \<longleftrightarrow> avs = []"
proof (cases avs)
  case Nil
  with assms that show thesis
    using dlist_fields(1) [of l h "[]" "[]"] dlist_ends(2) [of l h "[]"] by simp
next
  case (Cons av zs)
  obtain m v where "av = (m, v)" by (cases av)
  with Cons assms have "dlist_rep (l, h) ([] @ (m, v) # zs)" and "dlist_rep (l, h) ([(m, v)] @ zs)" by simp_all
  with that Cons \<open>av = (m, v)\<close> show thesis
    using dlist_fields(1) [of l h "[]" avs] dlist_node(1) [of l h "[]" m v zs] dlist_fields(4) [of l h "[(m, v)]" zs]
    by (simp add: dnext_of_def)
qed

lemma dlist_popback_rep:
  assumes rep: "dlist_rep (l, h) (avs @ [(m, v)])"
  shows "\<exists>lh'. dlist_popback (l, h) = Some (v, lh') \<and> dlist_rep lh' avs"
proof -
  from rep have r: "dlist_rep (l, h) (avs @ (m, v) # [])" by simp
  from rep have r': "dlist_rep (l, h) ((avs @ [(m, v)]) @ [])" by simp
  obtain n where n: "dnext_of h (dl_head l) = Some (aft l (avs @ [(m, v)]))"
    "dnext_of h (aft l (avs @ [(m, v)])) = Some n" "n \<noteq> 0"
    by (rule dlist_test [OF rep]) auto
  have "dlist_rep (l\<lparr>dl_length := dl_length l - 1\<rparr>, (unlink (bef l avs) (dl_tail l) h)(m := None)) avs"
    by (rule dlist_rep_frame [OF dlist_unlink(1) [OF r, simplified]])
      (use dlist_unlink(2) [OF r] in \<open>auto simp: dlist_nodes_def\<close>)
  then show ?thesis
    using dlist_node_fields [OF r] dlist_fields(2) [OF r'] n
    by (simp add: dlist_popback_def unlink_writes(2) [OF r, simplified])
qed

lemma dlist_popback_empty: "dlist_rep (l, h) [] \<Longrightarrow> dlist_popback (l, h) = Some (0, l, h)"
  by (auto simp: dlist_popback_def elim!: dlist_test)

lemma dlist_remove_rep:
  assumes rep: "dlist_rep (l, h) (xs @ (m, v) # ys)"
  shows "\<exists>lh'. dlist_remove m (l, h) = Some (v, lh') \<and> dlist_rep lh' (xs @ ys)"
proof -
  have "dlist_rep (l\<lparr>dl_length := dl_length l - 1\<rparr>, (unlink (bef l xs) (aft l ys) h)(m := None)) (xs @ ys)"
    by (rule dlist_rep_frame [OF dlist_unlink(1) [OF rep]])
      (use dlist_unlink(2) [OF rep] in \<open>auto simp: dlist_nodes_def\<close>)
  then show ?thesis
    using dlist_node_fields [OF rep] dlist_node(2) [OF rep]
    by (simp add: dlist_remove_def unlink_writes(2) [OF rep])
qed

lemma dlist_remove_sentinel:
  "m = dl_head l \<or> m = dl_tail l \<Longrightarrow> dlist_remove m (l, h) = Some (0, l, h)"
  by (auto simp: dlist_remove_def)

text \<open>Inserting behind a node of the list or the head; behind the tail nothing is inserted.\<close>

lemma dlist_insert_rep:
  assumes rep: "dlist_rep (l, h) (xs @ ys)" and m: "dfresh (l, h) m"
  shows "\<exists>lh'. dlist_insert m (bef l xs) v (l, h) = Some (m, lh') \<and> dlist_rep lh' (xs @ (m, v) # ys)"
  using dlist_link [OF rep, of m v] dfresh_notin [OF rep m] dlist_fields(1,4) [OF rep]
  by (simp add: dlist_insert_def Let_def link_writes(1) [OF rep])

lemma dlist_insert_tail:
  assumes rep: "dlist_rep (l, h) avs" and m: "dfresh (l, h) m"
  shows "dlist_insert m (dl_tail l) v (l, h) = Some (0, l, h)"
proof -
  have "h(m := None) = h" using m by (auto simp: dfresh_def)
  then show ?thesis using m dlist_ends(2) [OF rep] by (simp add: dlist_insert_def dfresh_def Let_def)
qed


lemma dlist_rotate_rep:
  assumes rep: "dlist_rep (l, h) ((m, v) # avs)"
  shows "\<exists>lh'. dlist_rotate (l, h) = Some (bef l avs, lh') \<and> dlist_rep lh' (avs @ [(m, v)])"
proof -
  from rep have r: "dlist_rep (l, h) ([] @ (m, v) # avs)" by simp
  define l1 where "l1 = l\<lparr>dl_length := dl_length l - 1\<rparr>"
  define h1 where "h1 = unlink (dl_head l) (aft l avs) h"
  have r1: "dlist_rep (l1, h1) (avs @ [])" and m1: "m \<notin> dlist_nodes l1 (avs @ [])"
    using dlist_unlink [OF r] by (simp_all add: l1_def h1_def dlist_nodes_def)
  have m0: "m \<noteq> 0" and hm: "h1 m = h m"
    using dlist_rep_alloc(2) [OF rep, of m] unlink_writes(3) [OF r]
    by (simp_all add: h1_def dlist_nodes_def dcells_def)
  have hm': "h1 m = Some \<lparr>d_prev = dl_head l, d_next = aft l avs, d_data = v\<rparr>"
    using hm dlist_node(1) [OF r] by simp
  have l1: "dl_head l1 = dl_head l" "dl_tail l1 = dl_tail l" "l1\<lparr>dl_length := dl_length l1 + 1\<rparr> = l"
    by (simp_all add: l1_def)
  have fin: "dlist_rep (l, link (bef l avs) m (dl_tail l) v h1) (avs @ [(m, v)])"
    using dlist_link [OF r1 m1 m0, of v] by (simp add: l1)
  have q: "dprev_of h1 (dl_tail l) = Some (bef l avs)" using dlist_fields(2) [OF r1] by (simp add: l1)
  have n0: "aft l avs \<noteq> 0" using dlist_fields(4) [of l h "[(m, v)]" avs] rep by simp
  have w: "Option.bind (set_dprev m p h1) (\<lambda>h. Option.bind (set_dnext m n h) f) =
      f (h1(m \<mapsto> \<lparr>d_prev = p, d_next = n, d_data = v\<rparr>))" for p n and f :: "dnode_heap \<Rightarrow> 'x option"
    using hm' by (simp add: set_dprev_def set_dnext_def)
  show ?thesis
    using fin q n0 dlist_node_fields [OF r] dlist_fields(1) [OF r]
    by (simp add: dlist_rotate_def unlink_writes(1) [OF r, simplified] h1_def [symmetric] w
        link_writes(2) [OF r1 m1, unfolded l1, simplified])
qed

lemma dlist_rotate_empty: "dlist_rep (l, h) [] \<Longrightarrow> dlist_rotate (l, h) = Some (0, l, h)"
  by (auto simp: dlist_rotate_def elim!: dlist_test)

text \<open>The search of \<open>dlist_move\<close> ends at the node before the one it looks for.\<close>

lemma dfind_prev_chain:
  "chain h p ((b, w) # xs @ (m, v) # ys) n \<Longrightarrow> m \<notin> fst ` set xs \<Longrightarrow>
     dfind_prev h m b = Some (last_addr b xs)"
proof (induction xs arbitrary: p b w)
  case Nil
  then show ?case by (subst dfind_prev.simps) (simp add: dnext_of_def)
next
  case (Cons av xs)
  obtain c x where av: "av = (c, x)" by (cases av)
  from Cons.prems av have "chain h b ((c, x) # xs @ (m, v) # ys) n" "dnext_of h b = Some c" "c \<noteq> m"
    by (auto simp: dnext_of_def)
  with Cons.IH [of b c x] Cons.prems(2) av show ?case
    by (subst dfind_prev.simps) (simp add: last_addr_def)
qed

lemma dlist_move_rep:
  assumes src: "dlist_rep (src, h) (xs @ (m, v) # ys)" and dst: "dlist_rep (dst, h) bs"
    and dis: "dlist_nodes src (xs @ (m, v) # ys) \<inter> dlist_nodes dst bs = {}"
  shows "\<exists>dst' src' h'. dlist_move dst src m h = Some (v, dst', src', h') \<and>
    dlist_rep (dst', h') (bs @ [(m, v)]) \<and> dlist_rep (src', h') (xs @ ys)"
proof -
  define h1 where "h1 = unlink (bef src xs) (aft src ys) h"
  define h2 where "h2 = link (bef dst bs) m (dl_tail dst) v h1"
  let ?src = "src\<lparr>dl_length := dl_length src - 1\<rparr>" and ?dst = "dst\<lparr>dl_length := dl_length dst + 1\<rparr>"
  have s1: "dlist_rep (?src, h1) (xs @ ys)" and m1: "m \<notin> dlist_nodes src (xs @ ys)"
    using dlist_unlink [OF src] by (simp_all add: h1_def)
  have mem: "bef src xs \<in> dlist_nodes src (xs @ (m, v) # ys)" "aft src ys \<in> dlist_nodes src (xs @ (m, v) # ys)"
    "m \<in> dlist_nodes src (xs @ (m, v) # ys)" "dlist_nodes src (xs @ ys) \<subseteq> dlist_nodes src (xs @ (m, v) # ys)"
    by (auto simp: dlist_nodes_append last_addr_def) (cases ys, auto)
  have memd: "bef dst bs \<in> dlist_nodes dst bs" "dl_tail dst \<in> dlist_nodes dst bs"
    by (auto simp: dlist_nodes_def dcells_def last_addr_def)
  have md: "m \<notin> dlist_nodes dst bs" and m0: "m \<noteq> 0"
    using mem(3) dis dlist_rep_alloc(2) [OF src mem(3)] by auto
  have d1: "dlist_rep (dst, h1) (bs @ [])"
    by (simp, rule dlist_rep_frame [OF dst]) (use mem dis in \<open>auto simp: h1_def unlink_def\<close>)
  have d2: "dlist_rep (?dst, h2) (bs @ [(m, v)])"
    using dlist_link [OF d1 _ m0, of v] md by (simp add: h2_def)
  have s2: "dlist_rep (?src, h2) (xs @ ys)"
    by (rule dlist_rep_frame [OF s1])
      (use m1 mem(4) memd dis in \<open>auto simp: h2_def link_def\<close>)
  have hm: "h1 m = Some \<lparr>d_prev = bef src xs, d_next = aft src ys, d_data = v\<rparr>"
    using dlist_node(1) [OF src] unlink_writes(3) [OF src] by (simp add: h1_def)
  have w: "Option.bind (set_dprev m p h1) (\<lambda>h. Option.bind (set_dnext m n h) f) =
      f (h1(m \<mapsto> \<lparr>d_prev = p, d_next = n, d_data = v\<rparr>))" for p n and f :: "dnode_heap \<Rightarrow> 'x option"
    using hm by (simp add: set_dprev_def set_dnext_def)
  have q: "dprev_of h1 (dl_tail dst) = Some (bef dst bs)" using dlist_fields(2) [OF d1] by simp
  have z: "bef src xs \<noteq> 0" "aft src ys \<noteq> 0"
    using dlist_rep_alloc(2) [OF src] mem(1,2) by blast+
  have "chain h 0 ((dl_head src, 0xdead) # xs @ (m, v) # ys @ [(dl_tail src, 0)]) 0" "m \<notin> fst ` set xs"
    using src by (auto simp: dlist_rep_def dcells_def)
  then have fp: "dfind_prev h m (dl_head src) = Some (bef src xs)"
    by (rule dfind_prev_chain)
  have "dlist_move dst src m h = Some (v, ?dst, ?src, h2)"
    using md m0 z fp q dlist_node_fields [OF src]
    by (simp add: dlist_move_def unlink_writes(2) [OF src] h1_def [symmetric] w h2_def
        link_writes(2) [OF d1, simplified])
  with d2 s2 show ?thesis by blast
qed


text \<open>The circular successor and predecessor of a node.\<close>

lemma dlist_behind:
  assumes "dlist_rep (l, h) (xs @ ys)"
  obtains n where "dnext_of h (aft l ys) = Some n" "n = 0 \<longleftrightarrow> ys = []"
proof (cases ys)
  case Nil
  with assms that show thesis using dlist_ends(2) [OF assms] by simp
next
  case (Cons av zs)
  obtain m v where av: "av = (m, v)" by (cases av)
  with Cons assms have "dlist_rep (l, h) (xs @ (m, v) # zs)" and "dlist_rep (l, h) ((xs @ [(m, v)]) @ zs)"
    by simp_all
  with that [of "aft l zs"] Cons av show thesis
    using dlist_node_fields(2) [of l h xs m v zs] dlist_fields(4) [of l h "xs @ [(m, v)]" zs] by simp
qed

lemma dlist_before:
  assumes "dlist_rep (l, h) (xs @ ys)"
  obtains p where "dprev_of h (bef l xs) = Some p" "p = 0 \<longleftrightarrow> xs = []"
proof (cases xs rule: rev_cases)
  case Nil
  with assms that show thesis using dlist_ends(1) [OF assms] by simp
next
  case (snoc zs av)
  obtain m v where av: "av = (m, v)" by (cases av)
  with snoc assms have "dlist_rep (l, h) (zs @ (m, v) # ys)" by simp
  moreover from this have "dlist_rep (l, h) (zs @ ((m, v) # ys))" by simp
  ultimately show thesis
    using that [of "bef l zs"] snoc av dlist_node_fields(1) [of l h zs m v ys]
      dlist_fields(3) [of l h zs "(m, v) # ys"] by simp
qed

lemma dlist_cnext_rep:
  assumes rep: "dlist_rep (l, h) (xs @ (m, v) # ys)"
  shows "dlist_cnext l h m = Some (if ys = [] then aft l (xs @ (m, v) # ys) else aft l ys)"
proof -
  have "dlist_rep (l, h) ((xs @ [(m, v)]) @ ys)" using rep by simp
  then obtain n where "dnext_of h (aft l ys) = Some n" "n = 0 \<longleftrightarrow> ys = []" by (rule dlist_behind)
  moreover have "dnext_of h (dl_head l) = Some (aft l (xs @ (m, v) # ys))"
    using dlist_fields(1) [of l h "[]" "xs @ (m, v) # ys"] rep by simp
  ultimately show ?thesis using dlist_node_fields(2) [OF rep] by (simp add: dlist_cnext_def)
qed

lemma dlist_cprev_rep:
  assumes rep: "dlist_rep (l, h) (xs @ (m, v) # ys)"
  shows "dlist_cprev l h m = Some (if xs = [] then bef l (xs @ (m, v) # ys) else bef l xs)"
proof -
  obtain p where "dprev_of h (bef l xs) = Some p" "p = 0 \<longleftrightarrow> xs = []" using rep by (rule dlist_before)
  moreover have "dprev_of h (dl_tail l) = Some (bef l (xs @ (m, v) # ys))"
    using dlist_fields(2) [of l h "xs @ (m, v) # ys" "[]"] rep by simp
  ultimately show ?thesis using dlist_node_fields(1) [OF rep] by (simp add: dlist_cprev_def)
qed

text \<open>\<open>dlist_index\<close> counts from the first node, or backwards from the tail.\<close>

lemma dwalk_forward:
  "chain h p avs 0 \<Longrightarrow> 0 \<notin> fst ` set avs \<Longrightarrow>
     dwalk (dnext_of h) k (first_addr avs 0) = Some (if k < length avs then fst (avs ! k) else 0)"
proof (induction k arbitrary: p avs)
  case 0
  then show ?case by (cases avs) auto
next
  case (Suc k)
  then show ?case by (cases avs) (auto simp: dnext_of_def)
qed

lemma dwalk_backward:
  "chain h 0 avs n \<Longrightarrow> 0 \<notin> fst ` set avs \<Longrightarrow>
     dwalk (dprev_of h) k (last_addr 0 avs) = Some (if k < length avs then fst (rev avs ! k) else 0)"
proof (induction k arbitrary: n avs)
  case 0
  then show ?case by (cases avs rule: rev_cases) auto
next
  case (Suc k)
  show ?case
  proof (cases avs rule: rev_cases)
    case (snoc zs av)
    then show ?thesis using Suc by (cases av) (auto simp: chain_append dprev_of_def)
  qed (simp add: last_addr_def)
qed

lemma dlist_index_rep:
  assumes rep: "dlist_rep (l, h) avs"
  shows "dlist_index l h idx = Some
    (if 0 \<le> idx then (let as = map fst avs @ [dl_tail l] in if nat idx < length as then as ! nat idx else 0)
     else (let as = dl_tail l # rev (map fst avs) @ [dl_head l] in
       if nat (- idx) < length as then as ! nat (- idx) else 0))"
proof -
  from rep have c: "chain h 0 (dcells l avs) 0" and z: "0 \<notin> fst ` set (dcells l avs)"
    by (simp_all add: dlist_rep_def)
  have fw: "chain h (dl_head l) (avs @ [(dl_tail l, 0)]) 0" "0 \<notin> fst ` set (avs @ [(dl_tail l, 0)])"
    using c z by (auto simp: dcells_def)
  have f: "first_addr (avs @ [(dl_tail l, 0)]) 0 = aft l avs" by (simp add: first_addr_append)
  have b: "last_addr 0 (dcells l avs) = dl_tail l" by (simp add: dcells_def last_addr_def)
  have n: "dnext_of h (dl_head l) = Some (aft l avs)" using dlist_fields(1) [of l h "[]" avs] rep by simp
  have m: "fst (as ! k) = map fst as ! k" if "k < length as" for as :: "(addr \<times> nat) list" and k
    using that by simp
  show ?thesis
  proof (cases "0 \<le> idx")
    case True
    then show ?thesis
      using dwalk_forward [OF fw, of "nat idx"] n f
      by (auto simp: dlist_index_def Let_def m simp del: nth_map)
  next
    case False
    have "rev (map fst (dcells l avs)) = dl_tail l # rev (map fst avs) @ [dl_head l]"
      by (simp add: dcells_def)
    with False show ?thesis
      using dwalk_backward [OF c z, of "nat (- idx)"] b
      by (auto simp: dlist_index_def Let_def m rev_map [symmetric] simp del: nth_map) (auto simp: dcells_def)
  qed
qed

text \<open>\<open>dlist_foreach\<close> returns the first node its callback accepts.\<close>

lemma dforeach_loop_chain:
  "chain h p (avs @ [(t, x)]) 0 \<Longrightarrow> 0 \<notin> fst ` set avs \<Longrightarrow> t \<noteq> 0 \<Longrightarrow>
     (\<And>a v. (a, v) \<in> set avs \<Longrightarrow> iter_fn a v = (if P (a, v) then a else 0)) \<Longrightarrow>
     dforeach_loop h iter_fn (first_addr avs t) = Some (case find P avs of None \<Rightarrow> 0 | Some av \<Rightarrow> fst av)"
proof (induction avs arbitrary: p)
  case Nil
  then show ?case by (subst dforeach_loop.simps) simp
next
  case (Cons av avs)
  obtain a v where av: "av = (a, v)" by (cases av)
  have c: "h a = Some \<lparr>d_prev = p, d_next = first_addr avs t, d_data = v\<rparr>" "chain h a (avs @ [(t, x)]) 0"
    using Cons.prems(1) av by (auto simp: first_addr_append)
  have "first_addr avs t \<noteq> 0" using Cons.prems(2,3) by (cases avs) auto
  moreover have "iter_fn a v = (if P (a, v) then a else 0)" "a \<noteq> 0"
    using Cons.prems(2,4) av by auto
  moreover have "\<not> P (a, v) \<Longrightarrow> dforeach_loop h iter_fn (first_addr avs t) =
      Some (case find P avs of None \<Rightarrow> 0 | Some av \<Rightarrow> fst av)"
    using Cons.IH [OF c(2)] Cons.prems(2-4) by simp
  ultimately show ?case using c(1) av by (subst dforeach_loop.simps) (simp add: Let_def)
qed

lemma dlist_foreach_rep:
  assumes rep: "dlist_rep (l, h) avs" and "\<And>a v. iter_fn a v = (if P (a, v) then a else 0)"
  shows "dlist_foreach l h iter_fn = Some (case find P avs of None \<Rightarrow> 0 | Some av \<Rightarrow> fst av)"
proof -
  have "chain h (dl_head l) (avs @ [(dl_tail l, 0)]) 0" "0 \<notin> fst ` set avs" "dl_tail l \<noteq> 0"
    using rep by (auto simp: dlist_rep_def dcells_def)
  moreover have "dnext_of h (dl_head l) = Some (aft l avs)"
    using dlist_fields(1) [of l h "[]" avs] rep by simp
  ultimately show ?thesis
    using dforeach_loop_chain [of h "dl_head l" avs "dl_tail l" 0 iter_fn P] assms(2)
    by (simp add: dlist_foreach_def)
qed


lemma dlist_create_rep:
  assumes "dlist_create ml mh mt h = (h', Some l)" and "mh \<noteq> mt"
  shows "dlist_rep (l, h') []"
  using assms by (auto simp: dlist_create_def dlist_rep_def dcells_def split: if_splits)

lemma dlist_destroy_rep:
  assumes "dlist_rep (l, h) avs"
  shows "dlist_destroy l h =
    Some (if avs = [] then (0, h(dl_tail l := None, dl_head l := None)) else (-1, h))"
proof -
  have "dnext_of h (dl_head l) = Some (aft l avs)" using dlist_fields(1) [of l h "[]" avs] assms by simp
  moreover have "aft l avs = dl_tail l \<longleftrightarrow> avs = []"
  proof (cases avs)
    case (Cons av zs)
    with assms have "fst av \<noteq> dl_tail l" using dlist_node(2) [of l h "[]" "fst av" "snd av" zs] by simp
    with Cons show ?thesis by (cases av) simp
  qed simp
  ultimately show ?thesis by (simp add: dlist_destroy_def)
qed

section \<open>The lists as a queue\<close>

text \<open>\<open>dlist_pushback\<close> and \<open>dlist_pop\<close> keep the contract \<open>node_seq\<close> of the singly linked lists.\<close>

definition dvrep :: "dlist_s \<times> dnode_heap \<Rightarrow> nat list \<Rightarrow> bool" where
  "dvrep lh vs \<longleftrightarrow> (\<exists>avs. dlist_rep lh avs \<and> map snd avs = vs)"

definition dq_pushback :: "addr \<Rightarrow> nat \<Rightarrow> dlist_s \<times> dnode_heap \<Rightarrow> (dlist_s \<times> dnode_heap) option" where
  "dq_pushback m v lh = map_option snd (dlist_pushback m v lh)"

lemma set_dnext_alloc: "set_dnext a n h = Some h' \<Longrightarrow> h' b = None \<longleftrightarrow> h b = None"
  by (auto simp: set_dnext_def split: if_splits)

lemma set_dprev_alloc: "set_dprev a n h = Some h' \<Longrightarrow> h' b = None \<longleftrightarrow> h b = None"
  by (auto simp: set_dprev_def split: if_splits)

lemma dq_pushback_fresh:
  "dq_pushback m v lh = Some lh' \<Longrightarrow> b \<noteq> m \<Longrightarrow> dfresh lh b \<Longrightarrow> dfresh lh' b"
  by (auto simp: dq_pushback_def dlist_pushback_def dfresh_def bind_eq_Some_conv Let_def
      set_dnext_alloc set_dprev_alloc split: prod.splits if_splits)

interpretation dclist: node_seq dvrep dfresh dq_pushback dlist_pop
proof
  fix s vs a v
  assume rep: "dvrep s vs" and fr: "dfresh s a"
  then obtain avs where avs: "dlist_rep s avs" "map snd avs = vs" by (auto simp: dvrep_def)
  from dlist_pushback_rep [of "fst s" "snd s" avs a v] avs fr
  have "\<exists>s'. dq_pushback a v s = Some s' \<and> dvrep s' (vs @ [v])"
    by (fastforce simp: dq_pushback_def dvrep_def)
  then show "\<exists>s'. dq_pushback a v s = Some s' \<and> dvrep s' (vs @ [v]) \<and>
      (\<forall>b. b \<noteq> a \<longrightarrow> dfresh s b \<longrightarrow> dfresh s' b)"
    using dq_pushback_fresh by blast
next
  fix s v vs
  assume "dvrep s (v # vs)"
  then obtain m avs where "dlist_rep s ((m, v) # avs)" "map snd avs = vs"
    by (auto simp: dvrep_def Cons_eq_map_conv map_eq_Cons_conv)
  with dlist_pop_rep [of "fst s" "snd s" m v avs] show "\<exists>s'. dlist_pop s = Some (v, s') \<and> dvrep s' vs"
    by (fastforce simp: dvrep_def)
qed

section \<open>Properties\<close>

text \<open>Two lists in one heap: \<open>dlist_create\<close> twice, and a node with the value 9 in the second one.\<close>

definition two_dlists :: "dlist_s \<times> dlist_s \<times> dnode_heap" where
  "two_dlists =
     (let (h, dst) = dlist_create 1 2 3 Map.empty; (h, src) = dlist_create 4 5 6 h in
      case dlist_pushback 7 9 (the src, h) of
        Some (a, src, h) \<Rightarrow> (the dst, src, h)
      | None \<Rightarrow> (the dst, the src, h))"

lemma two_dlists_eq: "two_dlists =
   (\<lparr>dl_head = 2, dl_tail = 3, dl_length = 0\<rparr>, \<lparr>dl_head = 5, dl_tail = 6, dl_length = 1\<rparr>,
    [2 \<mapsto> \<lparr>d_prev = 0, d_next = 3, d_data = 0xdead\<rparr>, 3 \<mapsto> \<lparr>d_prev = 2, d_next = 0, d_data = 0\<rparr>,
     5 \<mapsto> \<lparr>d_prev = 0, d_next = 7, d_data = 0xdead\<rparr>, 6 \<mapsto> \<lparr>d_prev = 7, d_next = 0, d_data = 0\<rparr>,
     7 \<mapsto> \<lparr>d_prev = 5, d_next = 6, d_data = 9\<rparr>])"
  by (auto simp: two_dlists_def dlist_create_def dlist_pushback_def dprev_of_def set_dnext_def set_dprev_def
      Let_def fun_eq_iff)

text \<open>
  \<open>dlist_move\<close>, between two lists that share no node: it returns the data of the node;
  the node is the last one of the destination, the source has lost that node only, and in
  both lists every node points to both its neighbours again.
\<close>

theorem dlist_moves_node:
  assumes "dlist_rep (src, h) (xs @ (m, v) # ys)" and "dlist_rep (dst, h) bs"
    and "dlist_nodes src (xs @ (m, v) # ys) \<inter> dlist_nodes dst bs = {}"
  shows "\<exists>dst' src' h'. dlist_move dst src m h = Some (v, dst', src', h') \<and>
    dlist_rep (dst', h') (bs @ [(m, v)]) \<and> dlist_rep (src', h') (xs @ ys)"
  using dlist_move_rep [OF assms] .

theorem dlist_moves_node_witness:
  "\<exists>dst' src' h'. dlist_move (fst two_dlists) (fst (snd two_dlists)) 7 (snd (snd two_dlists)) = Some (9, dst', src', h') \<and>
    dlist_rep (dst', h') [(7, 9)] \<and> dlist_rep (src', h') []"
  using dlist_moves_node [of "fst (snd two_dlists)" "snd (snd two_dlists)" "[]" 7 9 "[]" "fst two_dlists" "[]"]
  by (simp add: two_dlists_eq dlist_rep_def dcells_def dlist_nodes_def)

text \<open>The doubly linked lists are first-in first-out too.\<close>

theorem dlist_fifo:
  assumes "dvrep lh []" and "distinct (map fst avs)" and "\<forall>a \<in> fst ` set avs. dfresh lh a"
  shows "\<exists>s' s''. push_all dq_pushback avs lh = Some s' \<and>
    pop_all dlist_pop (length avs) s' = Some (map snd avs, s'') \<and> dvrep s'' []"
  using dclist.fifo [OF assms] .

text \<open>
  Rotating a list of one node changes nothing, and returns the head sentinel, not the
  node: the value that stands for the last node is the one before the tail once the node is
  out of the list.
\<close>

theorem dlist_rotate_single:
  assumes "dlist_rep (l, h) [(m, v)]"
  shows "\<exists>lh'. dlist_rotate (l, h) = Some (dl_head l, lh') \<and> dlist_rep lh' [(m, v)]"
  using dlist_rotate_rep [OF assms] by simp

end
