(* ===== verification/Fixed_Point.thy ===== *)
theory Fixed_Point
  imports Apex_Prelude "HOL-Library.Signed_Division"
begin

text \<open>
  The fixed point numbers of \<open>lib/fixed.c\<close> and \<open>include/lib/fixed.h\<close>, in the default
  configuration: 16 bits behind the point, and products and quotients through 64 bits. A
  \<open>fixed_t\<close> is an integer; \<open>i32\<close> is the conversion to 32 bits, written where the code can
  leave them (C leaves an overflow of a signed sum undefined; the model wraps, as the
  machine does). A division by zero and a shift by 32 places or more are \<open>None\<close>. The
  characters \<open>fixtoa\<close> writes are their codes.

  The theory shows how close products, quotients and square roots are, what \<open>fixtoa\<close> prints,
  and where the approximations leave the range of the numbers.
\<close>

section \<open>Representation\<close>

definition i32 :: "int \<Rightarrow> int" where
  "i32 x = (x + 2 ^ 31) mod 2 ^ 32 - 2 ^ 31"

definition FIX_FBITS :: nat where "FIX_FBITS = 16"

definition FIX_ONE :: int where "FIX_ONE = 2 ^ FIX_FBITS"

definition FIX_HALF :: int where "FIX_HALF = FIX_ONE div 2"

definition FIX_TWO :: int where "FIX_TWO = FIX_ONE + FIX_ONE"

text \<open>\<open>fix_val\<close> of a decimal constant: \<open>n\<close> without its point, \<open>k\<close> digits behind it.\<close>

definition fix_val :: "int \<Rightarrow> nat \<Rightarrow> int" where
  "fix_val n k = (n * FIX_ONE) sdiv 10 ^ k"

definition fix_int :: "int \<Rightarrow> int" where "fix_int f = f div 2 ^ FIX_FBITS"

definition fix_frac :: "int \<Rightarrow> int" where "fix_frac a = a mod FIX_ONE"

definition fix_abs :: "int \<Rightarrow> int" where "fix_abs a = (if a < 0 then i32 (- a) else a)"

definition FIX_PI :: int where "FIX_PI = fix_val 314159265358979323846 20"
definition FIX_TWO_PI :: int where "FIX_TWO_PI = fix_val 628318530717958647692 20"
definition FIX_HALF_PI :: int where "FIX_HALF_PI = fix_val 157079632679489661923 20"
definition FIX_FOURTH_PI :: int where "FIX_FOURTH_PI = fix_val 78539816339744830961 20"
definition FIX_LN2 :: int where "FIX_LN2 = fix_val 69314718055994530942 20"
definition FIX_LN2_INV :: int where "FIX_LN2_INV = fix_val 144269504088896340736 20"

section \<open>Arithmetic\<close>

definition fix_mul :: "int \<Rightarrow> int \<Rightarrow> int" where
  "fix_mul a b = i32 ((a * b) div 2 ^ FIX_FBITS)"

definition fix_div :: "int \<Rightarrow> int \<Rightarrow> int option" where
  "fix_div a b = (if b = 0 then None else Some (i32 ((a * 2 ^ FIX_FBITS) sdiv b)))"

text \<open>\<open>do ... while (ip != 0)\<close>, the digits of the integer part from the last one.\<close>

function int_digits :: "int \<Rightarrow> int list" where
  "int_digits ip = (48 + ip mod 10) # (if 0 < ip div 10 then int_digits (ip div 10) else [])"
  by pat_completeness auto
termination by (relation "measure nat") auto

function frac_digits :: "int \<Rightarrow> int \<Rightarrow> int \<Rightarrow> int list" where
  "frac_digits fr ndec dec =
     (let fr = fr mod FIX_ONE * 10 in
      (48 + fr div 2 ^ FIX_FBITS mod 10) # (if ndec + 1 < dec then frac_digits fr (ndec + 1) dec else []))"
  by pat_completeness auto
termination by (relation "measure (\<lambda>(fr, ndec, dec). nat (dec - ndec))") auto

definition fixtoa :: "int \<Rightarrow> int \<Rightarrow> int list" where
  "fixtoa a dec =
     (let sign = (if a < 0 then [45] else []); a = (if a < 0 then i32 (- a) else a) in
      sign @ rev (int_digits (fix_int a mod 2 ^ 32)) @ [46] @ frac_digits (fix_frac a) 0 dec @ [0])"

section \<open>Square root\<close>

text \<open>\<open>while (s > 0) \{ s >>= 2; itr++; \}\<close> and the iterations of \<open>l = (l + fix_div(a, l)) >> 1\<close>.\<close>

function sqrt_itr :: "int \<Rightarrow> nat" where
  "sqrt_itr s = (if 0 < s then Suc (sqrt_itr (s div 4)) else 0)"
  by pat_completeness auto
termination by (relation "measure nat") auto

primrec newton :: "nat \<Rightarrow> int \<Rightarrow> int \<Rightarrow> int option" where
  "newton 0 a l = Some l"
| "newton (Suc i) a l = Option.bind (fix_div a l) (\<lambda>q. newton i a (i32 (l + q) div 2))"

definition fix_sqrt :: "int \<Rightarrow> int option" where
  "fix_sqrt a =
     (if a < 0 then Some (-1)
      else if a = 0 \<or> a = FIX_ONE then Some a
      else let inv = a < FIX_ONE \<and> a > 6 in
        Option.bind (if inv then fix_div FIX_ONE a else Some a) (\<lambda>a.
        let itr = (if a > FIX_ONE then sqrt_itr a else FIX_FBITS) in
        Option.bind (newton itr a (a div 2 + 1)) (\<lambda>l.
        if inv then fix_div FIX_ONE l else Some l)))"

section \<open>Exponential and logarithm\<close>

text \<open>\<open>fix_exp\<close> in its three parts: the whole part \<open>k\<close> of the binary exponent, the value
  of the reduced argument, and the shift.\<close>

definition fix_exp_k :: "int \<Rightarrow> int" where
  "fix_exp_k fp =
     (let xabs = fix_abs fp;
          k = fix_mul xabs FIX_LN2_INV;
          k = i32 (k + FIX_HALF);
          k = k - k mod FIX_ONE
      in if fp < 0 then i32 (- k) else k)"

definition fix_exp_xp :: "int \<Rightarrow> int option" where
  "fix_exp_xp fp =
     (let p0 = fix_val 166666666666666019 18; p1 = fix_val (-2777777777701559) 18;
          p2 = fix_val 66137563214379 18; p3 = fix_val (-1653390220547) 18; p4 = fix_val 41381367971 18;
          z = fix_mul fp fp;
          r = i32 (FIX_TWO + fix_mul z (i32 (p0 + fix_mul z (i32 (p1 + fix_mul z (i32 (p2 +
            fix_mul z (i32 (p3 + fix_mul z p4)))))))))
      in map_option (\<lambda>q. i32 (FIX_ONE + q)) (fix_div (fix_mul fp FIX_TWO) (i32 (r - fp))))"

definition fix_exp :: "int \<Rightarrow> int option" where
  "fix_exp fp =
     (if fp = 0 then Some FIX_ONE
      else
        let k = fix_exp_k fp; fp = i32 (fp - fix_mul k FIX_LN2) in
        Option.bind (fix_exp_xp fp) (\<lambda>xp.
        let sh = nat (\<bar>k\<bar> div 2 ^ FIX_FBITS) in
        if 32 \<le> sh then None
        else Some (fix_mul (if k < 0 then FIX_ONE div 2 ^ sh else i32 (FIX_ONE * 2 ^ sh)) xp)))"

text \<open>\<open>while (xi >= FIX_TWO)\<close> of \<open>fix_ln\<close>.\<close>

function ln_scale :: "int \<Rightarrow> int \<Rightarrow> int \<times> int" where
  "ln_scale xi log2 = (if FIX_TWO \<le> xi then ln_scale (xi div 2) (log2 + 1) else (xi, log2))"
  by pat_completeness auto
termination by (relation "measure (nat \<circ> fst)") (auto simp: FIX_TWO_def FIX_ONE_def FIX_FBITS_def)

definition fix_ln :: "int \<Rightarrow> int option" where
  "fix_ln fp =
     (let p0 = fix_val 666666666666673513 18; p1 = fix_val 399999999994094191 18;
          p2 = fix_val 285714287436623915 18; p3 = fix_val 22222198432149784 17;
          p4 = fix_val 181835721616180501 18; p5 = fix_val 153138376992093733 18;
          p6 = fix_val 147981986051165859 18 in
      if fp < 0 then Some 0
      else if fp = 0 then Some (-1)
      else
        let (xi, log2) = ln_scale fp 0; f = i32 (xi - FIX_ONE) in
        Option.bind (fix_div f (i32 (FIX_TWO + f))) (\<lambda>s.
        let z = fix_mul s s; w = fix_mul z z;
            r = i32 (fix_mul w (i32 (p1 + fix_mul w (i32 (p3 + fix_mul w p5)))) +
                     fix_mul z (i32 (p0 + fix_mul w (i32 (p2 + fix_mul w (i32 (p4 + fix_mul w p6)))))))
        in Some (i32 (i32 (fix_mul FIX_LN2 (i32 (log2 * 2 ^ FIX_FBITS)) + f) - fix_mul s (i32 (f - r))))))"

definition fix_log :: "int \<Rightarrow> int \<Rightarrow> int option" where
  "fix_log fp base = Option.bind (fix_ln fp) (\<lambda>x. Option.bind (fix_ln base) (fix_div x))"

definition fix_pow :: "int \<Rightarrow> int \<Rightarrow> int option" where
  "fix_pow fp e =
     (if e = 0 then Some FIX_ONE
      else if fp < 0 then Some 0
      else Option.bind (fix_ln fp) (\<lambda>x. fix_exp (fix_mul x e)))"

section \<open>Trigonometric functions\<close>

definition fix_rad :: "int \<Rightarrow> int option" where
  "fix_rad deg = fix_div (fix_mul deg FIX_PI) (fix_val 1800 1)"

definition fix_sin :: "int \<Rightarrow> int" where
  "fix_sin rad =
     (let c1 = fix_val 1273239544735162686 18; c2 = fix_val 405284734569351086 18;
          c3 = fix_val 225 3;
          rad = (if rad < - FIX_PI then i32 (rad + FIX_TWO_PI)
                 else if rad > FIX_PI then i32 (rad - FIX_TWO_PI) else rad);
          sine = (if rad < 0 then i32 (fix_mul c1 rad + fix_mul (fix_mul c2 rad) rad)
                  else i32 (fix_mul c1 rad - fix_mul (fix_mul c2 rad) rad))
      in if sine < 0 then i32 (fix_mul c3 (i32 (fix_mul sine (i32 (- sine)) - sine)) + sine)
         else i32 (fix_mul c3 (i32 (fix_mul sine sine - sine)) + sine))"

definition fix_cos :: "int \<Rightarrow> int" where
  "fix_cos rad = fix_sin (i32 (rad + FIX_HALF_PI))"

definition fix_tan :: "int \<Rightarrow> int option" where
  "fix_tan rad = fix_div (fix_sin rad) (fix_cos rad)"

definition xatan :: "int \<Rightarrow> int option" where
  "xatan arg =
     (let p4 = fix_val 16153641298223022826 18; p3 = fix_val 268425481955039737941 18;
          p2 = fix_val 1153029351540485011543 18; p1 = fix_val 1780406316433196971055 18;
          p0 = fix_val 896785974036638619625 18;
          q4 = fix_val 58956970508444622228 18; q3 = fix_val 536265374031215315104 18;
          q2 = fix_val 1666783814881633718452 18; q1 = fix_val 2079334974445409812873 18;
          argsq = fix_mul arg arg;
          value = i32 (fix_mul (i32 (fix_mul (i32 (fix_mul (i32 (fix_mul p4 argsq + p3)) argsq + p2)) argsq + p1)) argsq + p0)
      in Option.bind (fix_div value (i32 (fix_mul (i32 (fix_mul (i32 (fix_mul (i32 (fix_mul (i32 (argsq + q4))
           argsq + q3)) argsq + q2)) argsq + q1)) argsq + p0))) (\<lambda>value.
         Some (fix_mul value arg)))"

definition satan :: "int \<Rightarrow> int option" where
  "satan arg =
     (let sq2p1 = fix_val 2414213562373095049 18; sq2m1 = fix_val 414213562373095049 18 in
      if arg < sq2m1 then xatan arg
      else if arg > sq2p1 then
        Option.bind (fix_div (fix_val 10 1) arg) (\<lambda>q. Option.bind (xatan q) (\<lambda>x. Some (i32 (FIX_HALF_PI - x))))
      else
        Option.bind (fix_div (i32 (arg - fix_val 10 1)) (i32 (arg + fix_val 10 1))) (\<lambda>q.
        Option.bind (xatan q) (\<lambda>x. Some (i32 (FIX_FOURTH_PI + x)))))"

definition fix_atan :: "int \<Rightarrow> int option" where
  "fix_atan arg = (if arg > 0 then satan arg else map_option (\<lambda>x. i32 (- x)) (satan (i32 (- arg))))"

definition fix_atan2 :: "int \<Rightarrow> int \<Rightarrow> int option" where
  "fix_atan2 arg1 arg2 =
     (if i32 (arg1 + arg2) = arg1 then Some (if arg1 \<ge> 0 then FIX_HALF_PI else - FIX_HALF_PI)
      else if arg2 < 0 then
        (if arg1 \<ge> 0 then
           Option.bind (fix_div (i32 (- arg1)) arg2) (\<lambda>q. Option.bind (satan q) (\<lambda>x. Some (i32 (FIX_PI - x))))
         else Option.bind (fix_div arg1 arg2) (\<lambda>q. Option.bind (satan q) (\<lambda>x. Some (i32 (- FIX_PI + x)))))
      else if arg1 > 0 then Option.bind (fix_div arg1 arg2) satan
      else Option.bind (fix_div (i32 (- arg1)) arg2) (\<lambda>q. map_option (\<lambda>x. i32 (- x)) (satan q)))"

definition fix_asin :: "int \<Rightarrow> int option" where
  "fix_asin arg =
     (let sign = (if arg < 0 then fix_val (-10) 1 else fix_val 10 1);
          arg = (if arg < 0 then i32 (- arg) else arg) in
      if arg > fix_val 10 1 then Some 0
      else Option.bind (fix_sqrt (i32 (fix_val 10 1 - fix_mul arg arg))) (\<lambda>temp.
           Option.bind (if arg > fix_val 7 1
              then Option.bind (fix_div temp arg) (\<lambda>q. Option.bind (fix_atan q) (\<lambda>x. Some (i32 (FIX_HALF_PI - x))))
              else Option.bind (fix_div arg temp) fix_atan) (\<lambda>temp.
           Some (fix_mul sign temp))))"

definition fix_acos :: "int \<Rightarrow> int option" where
  "fix_acos arg =
     (if arg > fix_val 10 1 \<or> arg < fix_val (-10) 1 then Some 0
      else Option.bind (fix_asin arg) (\<lambda>x. Some (i32 (FIX_HALF_PI - x))))"

section \<open>Hyperbolic functions\<close>

definition fix_sinh :: "int \<Rightarrow> int option" where
  "fix_sinh arg =
     (let sign = (if arg < 0 then fix_val (-10) 1 else fix_val 10 1);
          arg = (if arg < 0 then i32 (- arg) else arg) in
      if arg > fix_val 210 1 then
        Option.bind (fix_exp arg) (\<lambda>x. let temp = x div 2 in Some (if sign > 0 then temp else i32 (- temp)))
      else Option.bind (fix_exp arg) (\<lambda>x. Option.bind (fix_exp (i32 (- arg))) (\<lambda>y.
        Some (fix_mul sign (i32 (x - y)) div 2))))"

definition fix_cosh :: "int \<Rightarrow> int option" where
  "fix_cosh arg =
     (let arg = (if arg < 0 then i32 (- arg) else arg) in
      if arg > fix_val 210 1 then Option.bind (fix_exp arg) (\<lambda>x. Some (x div 2))
      else Option.bind (fix_exp arg) (\<lambda>x. Option.bind (fix_exp (i32 (- arg))) (\<lambda>y.
        Some (i32 (x + y) div 2))))"

definition fix_tanh :: "int \<Rightarrow> int option" where
  "fix_tanh arg =
     (let sign = (if arg < 0 then fix_val (-10) 1 else fix_val 10 1);
          arg = (if arg < 0 then i32 (- arg) else arg) in
      if arg > fix_val 210 1 then Some sign
      else Option.bind (fix_sinh arg) (\<lambda>s. Option.bind (fix_cosh arg) (\<lambda>c. fix_div (fix_mul sign s) c)))"


declare int_digits.simps [simp del] frac_digits.simps [simp del] sqrt_itr.simps [simp del] ln_scale.simps [simp del]

section \<open>Products and quotients\<close>

lemmas fix_base = FIX_FBITS_def FIX_ONE_def FIX_HALF_def FIX_TWO_def

lemma i32_id [simp]: "- (2 ^ 31) \<le> x \<Longrightarrow> x < 2 ^ 31 \<Longrightarrow> i32 x = x"
  by (simp add: i32_def)

lemma i32_range: "- (2 ^ 31) \<le> i32 x" "i32 x < 2 ^ 31"
  by (simp_all add: i32_def)

lemma sdiv_pos: "0 \<le> a \<Longrightarrow> 0 < b \<Longrightarrow> a sdiv b = a div (b :: int)"
  by (auto simp: signed_divide_int_def sgn_if)

lemma sdiv_nonpos: "a \<le> 0 \<Longrightarrow> 0 < b \<Longrightarrow> a sdiv b \<le> (0 :: int)"
  by (cases "a = 0") (simp_all add: signed_divide_int_def sgn_if div_int_pos_iff)

lemma sdiv_bounds:
  assumes "(b :: int) \<noteq> 0" shows "\<bar>a sdiv b * b - a\<bar> < \<bar>b\<bar>"
proof -
  have "a sdiv b * b - a = - (a smod b)" using mult_sdiv_smod_eq [of b a] by (simp add: mult.commute)
  moreover have "\<bar>a smod b\<bar> < \<bar>b\<bar>"
    using smod_int_range [OF assms, of a] by auto
  ultimately show ?thesis by simp
qed

text \<open>A product that fits is the exact one, rounded down to the last place.\<close>

lemma fix_mul_bounds:
  assumes "\<bar>a * b\<bar> < 2 ^ 46"
  shows "fix_mul a b * FIX_ONE \<le> a * b" and "a * b < (fix_mul a b + 1) * FIX_ONE"
proof -
  have "- (2 ^ 31) \<le> a * b div 65536 \<and> a * b div 65536 < 2 ^ 31" using assms by auto
  then have e: "fix_mul a b = a * b div 65536" by (simp add: fix_mul_def FIX_FBITS_def)
  show "fix_mul a b * FIX_ONE \<le> a * b" "a * b < (fix_mul a b + 1) * FIX_ONE"
    unfolding e fix_base by simp_all
qed

lemma fix_div_bounds:
  assumes "fix_div a b = Some q" and "\<bar>a\<bar> * FIX_ONE < 2 ^ 30 * \<bar>b\<bar>"
  shows "\<bar>q * b - a * FIX_ONE\<bar> < \<bar>b\<bar>"
proof -
  have b: "b \<noteq> 0" and q: "q = i32 ((a * FIX_ONE) sdiv b)"
    using assms(1) by (auto simp: fix_div_def fix_base split: if_splits)
  let ?q = "(a * FIX_ONE) sdiv b"
  from sdiv_bounds [OF b, of "a * FIX_ONE"] have r: "\<bar>?q * b - a * FIX_ONE\<bar> < \<bar>b\<bar>" .
  then have "\<bar>?q * b\<bar> < \<bar>b\<bar> + \<bar>a\<bar> * FIX_ONE" by (simp add: abs_mult fix_base)
  also have "\<dots> \<le> (1 + 2 ^ 30) * \<bar>b\<bar>" using assms(2) by (simp add: algebra_simps)
  finally have "\<bar>?q\<bar> < 1 + 2 ^ 30" using b by (simp add: abs_mult mult_less_cancel_right)
  then have "i32 ?q = ?q" by (intro i32_id) auto
  with q r show ?thesis by simp
qed

section \<open>The square root\<close>

lemma sqrt_itr_bounds: "0 < s \<Longrightarrow> 4 ^ (sqrt_itr s - 1) \<le> s \<and> s < 4 ^ sqrt_itr s \<and> 0 < sqrt_itr s"
proof (induction s rule: sqrt_itr.induct)
  case (1 s)
  show ?case
  proof (cases "0 < s div 4")
    case True
    then obtain k where k: "sqrt_itr (s div 4) = Suc k" "4 ^ k \<le> s div 4" "s div 4 < 4 ^ Suc k"
      using 1 by (cases "sqrt_itr (s div 4)") auto
    have "sqrt_itr s = Suc (Suc k)" using 1(2) k(1) by (subst sqrt_itr.simps) simp
    with k show ?thesis by auto
  next
    case False
    then have "sqrt_itr (s div 4) = 0" by (subst sqrt_itr.simps) simp
    with 1(2) have "sqrt_itr s = 1" by (subst sqrt_itr.simps) simp
    with False 1(2) show ?thesis by auto
  qed
qed

lemma isqrt_ex: "0 \<le> n \<Longrightarrow> \<exists>s \<ge> 0. s\<^sup>2 \<le> n \<and> n < (s + 1)\<^sup>2" for n :: int
proof (induction n rule: int_ge_induct)
  case base
  show ?case by (rule exI [of _ 0]) simp
next
  case (step n)
  then obtain s where s: "0 \<le> s" "s\<^sup>2 \<le> n" "n < (s + 1)\<^sup>2" by blast
  show ?case
  proof (cases "n + 1 < (s + 1)\<^sup>2")
    case True with s show ?thesis by auto
  next
    case False
    with s have "n + 1 = (s + 1)\<^sup>2" by simp
    moreover have "(s + 1)\<^sup>2 < (s + 1 + 1)\<^sup>2" using s(1) by (simp add: power2_eq_square algebra_simps)
    ultimately show ?thesis using s(1) by (intro exI [of _ "s + 1"]) simp
  qed
qed

lemma div_mult_le_int: "0 < l \<Longrightarrow> n div l * l \<le> (n :: int)"
  by (simp add: minus_mod_eq_div_mult [symmetric])

lemma int_div_less: "n < m * l \<Longrightarrow> 0 < l \<Longrightarrow> n div l < (m :: int)"
  using div_mult_le_int [of l n] by (metis mult_right_mono not_less order.strict_trans1 order_less_imp_le)

text \<open>One step of the iteration: it does not fall below the root, and it comes closer.\<close>

lemma heron_ge:
  assumes "0 < l" and "s\<^sup>2 \<le> n" and "0 \<le> s" shows "s \<le> (l + n div l) div (2 :: int)"
proof -
  have "2 * s * l \<le> l\<^sup>2 + n" using assms(2) zero_le_power2 [of "l - s"] by (simp add: power2_eq_square algebra_simps)
  then have "(2 * s - l) * l \<le> n" by (simp add: power2_eq_square algebra_simps)
  then have "(2 * s - l) * l div l \<le> n div l" using assms(1) by (rule zdiv_mono1)
  then have "2 * s - l \<le> n div l" using assms(1) by simp
  then show ?thesis by simp
qed


lemma heron_half:
  assumes "0 < s" and "n < (s + 1)\<^sup>2" and "s \<le> l" and "l \<le> s + d" and "1 \<le> d"
  shows "(l + n div l) div 2 \<le> s + max 1 (d div (2 :: int))" and "n div l \<le> s + 2"
proof -
  have a: "n div l \<le> s" if "s < l"
  proof -
    have "(s + 1) * (s + 1) \<le> (s + 1) * l" using that assms(1) by (intro mult_left_mono) auto
    with assms(2) have "n < (s + 1) * l" by (simp add: power2_eq_square)
    then have "n div l < s + 1" by (rule int_div_less) (use assms(1,3) in auto)
    then show ?thesis by simp
  qed
  have b: "n div s \<le> s + 2"
  proof -
    have "n < (s + 3) * s" using assms(1,2) by (simp add: power2_eq_square algebra_simps)
    then have "n div s < s + 3" by (rule int_div_less) (use assms(1) in auto)
    then show ?thesis by simp
  qed
  show "n div l \<le> s + 2" using a b assms(3) by (cases "l = s") auto
  show "(l + n div l) div 2 \<le> s + max 1 (d div 2)"
  proof (cases "l = s")
    case True with b show ?thesis by simp
  next
    case False
    with a assms(3) have "l + n div l \<le> 2 * s + d" using assms(4) by simp
    then show ?thesis by simp
  qed
qed

lemma heron_square:
  assumes "0 < S" and "S \<le> s" and "0 \<le> n" and "n < (s + 1)\<^sup>2" and "s \<le> l" and "l \<le> s + d"
  shows "(l + n div l) div 2 \<le> s + (d * d div (2 * S) + (1 :: int))"
proof (cases "(l + n div l) div 2 \<le> s")
  case True
  moreover have "0 \<le> d * d div (2 * S)" using assms(1) by (simp add: div_int_pos_iff)
  ultimately show ?thesis by simp
next
  case False
  define e where "e = (l + n div l) div 2 - s - 1"
  have e: "0 \<le> e" using False by (simp add: e_def)
  have "2 * ((l + n div l) div 2) * l \<le> (l + n div l) * l"
    using assms(1,2,5) by (intro mult_right_mono) auto
  also have "\<dots> \<le> l * l + n"
    using assms(1,2,5) by (simp add: distrib_right div_mult_le_int)
  finally have 1: "2 * (e + s + 1) * l \<le> l * l + n" by (simp add: e_def)
  have "(l - s) * (l - s) \<le> d * d" using assms(5,6) by (intro mult_mono) auto
  with 1 assms(4,5) have "2 * l * e \<le> d * d" by (simp add: power2_eq_square algebra_simps)
  moreover have "2 * S * e \<le> 2 * l * e" using e assms(1,2,5) by (intro mult_right_mono) auto
  ultimately have "e * (2 * S) div (2 * S) \<le> d * d div (2 * S)"
    using assms(1) by (intro zdiv_mono1) (auto simp: algebra_simps)
  then have "e \<le> d * d div (2 * S)" using assms(1) by simp
  then show ?thesis by (simp add: e_def)
qed

text \<open>How far above the root \<open>i\<close> steps can end, from \<open>d\<close> above it, when the root is at least \<open>S\<close>.\<close>

primrec newton_gap :: "nat \<Rightarrow> int \<Rightarrow> int \<Rightarrow> int" where
  "newton_gap 0 S d = d"
| "newton_gap (Suc i) S d = newton_gap i S (max 1 (min (d div 2) (d * d div (2 * S) + 1)))"

lemma newton_step:
  assumes "0 \<le> a" and "0 < l" and "(a * 2 ^ 16) div l < 2 ^ 30" and "l \<le> 2 ^ 30"
  shows "newton (Suc i) a l = newton i a ((l + (a * 2 ^ 16) div l) div 2)"
proof -
  have "0 \<le> (a * 2 ^ 16) div l" using assms(1,2) by (simp add: div_int_pos_iff)
  with assms show ?thesis by (simp add: fix_div_def FIX_FBITS_def sdiv_pos)
qed

lemma newton_bound:
  assumes "0 \<le> a" and "0 < S" and "S \<le> s" and "s\<^sup>2 \<le> a * 2 ^ 16" and "a * 2 ^ 16 < (s + 1)\<^sup>2" and "s < 2 ^ 28"
  shows "s \<le> l \<Longrightarrow> l \<le> s + d \<Longrightarrow> 1 \<le> d \<Longrightarrow> d < 2 ^ 29 \<Longrightarrow>
    \<exists>r. newton i a l = Some r \<and> s \<le> r \<and> r \<le> s + newton_gap i S d"
proof (induction i arbitrary: l d)
  case 0
  then show ?case by simp
next
  case (Suc i)
  let ?n = "a * 2 ^ 16" and ?d = "max 1 (min (d div 2) (d * d div (2 * S) + 1))"
  let ?l = "(l + ?n div l) div 2"
  have s: "0 < s" using assms(2,3) by simp
  have h: "?l \<le> s + max 1 (d div 2)" "?n div l \<le> s + 2"
    using heron_half [OF s assms(5) Suc.prems(1-3)] by simp_all
  have q: "?l \<le> s + (d * d div (2 * S) + 1)"
    by (rule heron_square) (use assms Suc.prems in auto)
  have g: "s \<le> ?l" using heron_ge [of l s ?n] s Suc.prems(1) assms(4) by simp
  have "newton (Suc i) a l = newton i a ?l"
    using h(2) s Suc.prems(1,2,4) assms(1,6) by (intro newton_step) auto
  moreover have "?l \<le> s + ?d" using h(1) q by (auto simp: max_def min_def)
  moreover have "?d < 2 ^ 29" using Suc.prems(4) by auto
  ultimately show ?case using Suc.IH [OF g, of ?d] by simp
qed

lemma newton_gap_1:
  assumes "9 \<le> k" and "k \<le> 16"
  shows "newton_gap (k - 1) (2 ^ (k + 7)) ((min (2 ^ (2 * k - 1)) (2 ^ 30) + 131073) div 2 - 2 ^ (k + 7)) = 1"
proof -
  from assms have "k \<in> {9, 10, 11, 12, 13, 14, 15, 16}" by auto
  then show ?thesis by (elim insertE emptyE) (simp_all add: eval_nat_numeral)
qed


lemma newton_gap_start:
  assumes "9 \<le> k" and "k \<le> 16"
  shows "1 \<le> (min (2 ^ (2 * k - 1)) (2 ^ 30) + 131073) div 2 - (2 ^ (k + 7) :: int) \<and>
    (min (2 ^ (2 * k - 1)) (2 ^ 30) + 131073) div 2 - 2 ^ (k + 7) < (2 ^ 29 :: int)"
proof -
  from assms have "k \<in> {9, 10, 11, 12, 13, 14, 15, 16}" by auto
  then show ?thesis by (elim insertE emptyE) simp_all
qed

lemma power2_less_imp_less_int: "x\<^sup>2 < y\<^sup>2 \<Longrightarrow> 0 \<le> y \<Longrightarrow> x < (y :: int)"
  by (rule power2_less_imp_less)

lemma half_mono: "x \<le> p \<Longrightarrow> y < 131072 \<Longrightarrow> (x + 1 + y) div 2 \<le> (p + 131073) div (2 :: int)"
  by (rule zdiv_mono1) simp_all

lemma le_gap: "x \<le> e \<Longrightarrow> S \<le> s \<Longrightarrow> x \<le> s + (e - S)" for x :: int
  by simp

text \<open>The root \<open>fix_sqrt\<close> returns above 1 is the exact one in the last place, or one more.\<close>

lemma fix_sqrt_above_one:
  assumes a: "FIX_ONE < a" "a < 2 ^ 31"
    and s: "0 \<le> s" "s\<^sup>2 \<le> a * 2 ^ 16" "a * 2 ^ 16 < (s + 1)\<^sup>2"
  shows "\<exists>r. fix_sqrt a = Some r \<and> s \<le> r \<and> r \<le> s + 1"
proof -
  define k where "k = sqrt_itr a"
  have a1: "65536 < a" using a(1) by (simp add: fix_base)
  have b: "4 ^ (k - 1) \<le> a" "a < 4 ^ k" "0 < k" using sqrt_itr_bounds [of a] a1 by (simp_all add: k_def)
  have "(4 :: int) ^ 8 < 4 ^ k" using a1 b(2) by simp
  then have k9: "9 \<le> k" by (simp only: power_strict_increasing_iff)
  have "(4 :: int) ^ (k - 1) < 4 ^ 16" using b(1) a(2) by simp
  then have "k - 1 < 16" by (simp only: power_strict_increasing_iff)
  have k16: "k \<le> 16" using \<open>k - 1 < 16\<close> by simp
  let ?S = "2 ^ (k + 7) :: int"
  have p4: "(4 :: int) ^ j = 2 ^ (2 * j)" for j by (simp add: power_mult)
  have "?S\<^sup>2 = 2 ^ (2 * k + 14)" by (simp add: power_mult [symmetric] algebra_simps)
  also have "\<dots> = 4 ^ (k - 1) * 2 ^ 16"
  proof -
    have "2 * k + 14 = 2 * (k - 1) + 16" using b(3) by simp
    then show ?thesis by (simp only: p4 power_add)
  qed
  also have "\<dots> \<le> a * 2 ^ 16" using b(1) by simp
  also have "\<dots> < (s + 1)\<^sup>2" by (rule s(3))
  finally have "?S < s + 1" using s(1) by - (rule power2_less_imp_less_int, auto)
  then have S: "?S \<le> s" by simp
  have "a * 2 ^ 16 < 2 ^ 31 * 2 ^ 16" using a(2) by (rule mult_strict_right_mono) simp
  also have "\<dots> \<le> (2 ^ 28)\<^sup>2" by (simp add: power2_eq_square)
  finally have "s\<^sup>2 < (2 ^ 28)\<^sup>2" using s(2) by simp
  then have s28: "s < 2 ^ 28" by - (rule power2_less_imp_less_int, auto)
  let ?l = "(a div 2 + 1 + (a * 2 ^ 16) div (a div 2 + 1)) div 2"
  have q: "(a * 2 ^ 16) div (a div 2 + 1) < 131072" by (rule int_div_less) (use a1 in auto)
  have n: "newton k a (a div 2 + 1) = newton (k - 1) a ?l"
    using newton_step [of a "a div 2 + 1" "k - 1"] q a1 a(2) b(3) by simp
  have l: "s \<le> ?l" by (rule heron_ge) (use s a1 in auto)
  let ?d = "(min (2 ^ (2 * k - 1)) (2 ^ 30) + 131073) div 2 - ?S"
  have "a div 2 \<le> min (2 ^ (2 * k - 1)) (2 ^ 30)"
  proof -
    have "2 * k = Suc (2 * k - 1)" using b(3) by simp
    then have "(4 :: int) ^ k = 2 * 2 ^ (2 * k - 1)" by (metis p4 power_Suc)
    with b(2) have "a div 2 < 2 ^ (2 * k - 1)" by (intro int_div_less) simp_all
    moreover have "a div 2 < 2 ^ 30" by (rule int_div_less) (use a(2) in simp_all)
    ultimately show ?thesis by simp
  qed
  with q have "?l \<le> (min (2 ^ (2 * k - 1)) (2 ^ 30) + 131073) div 2"
    by (rule half_mono [rotated])
  then have ld: "?l \<le> s + ?d" by (rule le_gap [OF _ S])
  have d: "1 \<le> ?d" "?d < 2 ^ 29" using newton_gap_start [OF k9 k16] by blast+
  from newton_bound [of a ?S s ?l ?d "k - 1", OF _ _ S s(2,3) s28 l ld d] a1 newton_gap_1 [OF k9 k16]
  obtain r where "newton (k - 1) a ?l = Some r" "s \<le> r" "r \<le> s + 1" by auto
  with n a1 show ?thesis by (simp add: fix_sqrt_def k_def fix_base)
qed


section \<open>Printing\<close>

text \<open>The number a row of decimal digits stands for.\<close>

definition dec_of :: "int list \<Rightarrow> int" where
  "dec_of ds = foldl (\<lambda>v c. 10 * v + (c - 48)) 0 ds"

lemma dec_of_snoc: "dec_of (ds @ [c]) = 10 * dec_of ds + (c - 48)"
  by (simp add: dec_of_def)

lemma dec_of_Cons: "dec_of (c # ds) = (c - 48) * 10 ^ length ds + dec_of ds"
proof (induction ds rule: rev_induct)
  case Nil
  show ?case by (simp add: dec_of_def)
next
  case (snoc d ds)
  have "dec_of (c # ds @ [d]) = 10 * dec_of (c # ds) + (d - 48)" using dec_of_snoc [of "c # ds" d] by simp
  with snoc show ?case by (simp add: dec_of_snoc algebra_simps)
qed

lemma int_digits_value:
  "0 \<le> ip \<Longrightarrow> dec_of (rev (int_digits ip)) = ip \<and> (\<forall>c \<in> set (int_digits ip). 48 \<le> c \<and> c \<le> 57)"
proof (induction ip rule: int_digits.induct)
  case (1 ip)
  show ?case
  proof (cases "0 < ip div 10")
    case True
    with 1 have "dec_of (rev (int_digits (ip div 10))) = ip div 10 \<and>
        (\<forall>c \<in> set (int_digits (ip div 10)). 48 \<le> c \<and> c \<le> 57)" by simp
    with True show ?thesis by (subst (1 2) int_digits.simps) (auto simp: dec_of_snoc)
  next
    case False
    then have "ip mod 10 = ip" using 1(2) by simp
    with False 1(2) show ?thesis by (subst (1 2) int_digits.simps) (auto simp: dec_of_def)
  qed
qed

lemma frac_digits_value:
  "dec_of (frac_digits fr ndec dec) = (fr mod FIX_ONE) * 10 ^ length (frac_digits fr ndec dec) div FIX_ONE \<and>
   length (frac_digits fr ndec dec) = nat (max 1 (dec - ndec)) \<and>
   (\<forall>c \<in> set (frac_digits fr ndec dec). 48 \<le> c \<and> c \<le> 57)"
proof (induction fr ndec dec rule: frac_digits.induct)
  case (1 fr ndec dec)
  define f where "f = fr mod FIX_ONE * 10"
  have f: "0 \<le> f div 65536" "f div 65536 < 10"
    unfolding f_def fix_base by (simp_all add: div_int_pos_iff int_div_less)
  then have m: "f div 2 ^ FIX_FBITS mod 10 = f div 65536" by (simp add: fix_base)
  show ?case
  proof (cases "ndec + 1 < dec")
    case True
    let ?r = "frac_digits f (ndec + 1) dec"
    have e: "frac_digits fr ndec dec = (48 + f div 65536) # ?r"
      using True m by (subst frac_digits.simps) (simp add: Let_def f_def)
    from 1 [OF f_def True] have r: "dec_of ?r = (f mod 65536) * 10 ^ length ?r div 65536"
      "length ?r = nat (max 1 (dec - (ndec + 1)))" "\<forall>c \<in> set ?r. 48 \<le> c \<and> c \<le> 57" by (simp_all add: fix_base)
    have "f = f div 65536 * 65536 + f mod 65536" by simp
    then have "f * 10 ^ length ?r = (f div 65536 * 65536 + f mod 65536) * 10 ^ length ?r" by (rule arg_cong)
    also have "\<dots> = (f div 65536 * 10 ^ length ?r) * 65536 + (f mod 65536) * 10 ^ length ?r"
      by (simp only: distrib_left distrib_right mult_ac)
    finally have "f * 10 ^ length ?r = (f div 65536 * 10 ^ length ?r) * 65536 + (f mod 65536) * 10 ^ length ?r" .
    then have "f * 10 ^ length ?r div 65536 = f div 65536 * 10 ^ length ?r + (f mod 65536) * 10 ^ length ?r div 65536"
      by simp
    then have "dec_of (frac_digits fr ndec dec) = f * 10 ^ length ?r div 65536"
      by (simp add: e dec_of_Cons r(1))
    then have v: "dec_of (frac_digits fr ndec dec) =
        fr mod FIX_ONE * 10 ^ length (frac_digits fr ndec dec) div FIX_ONE"
      by (simp add: e f_def fix_base mult.assoc)
    have n: "length (frac_digits fr ndec dec) = nat (max 1 (dec - ndec))"
      using r(2) True by (simp add: e max_def split: if_splits)
    have "\<forall>c \<in> set (frac_digits fr ndec dec). 48 \<le> c \<and> c \<le> 57" using r(3) f by (simp add: e)
    with v n show ?thesis by blast
  next
    case False
    then have "frac_digits fr ndec dec = [48 + f div 65536]"
      using m by (subst frac_digits.simps) (simp add: Let_def f_def)
    with False f show ?thesis by (auto simp: dec_of_def f_def fix_base)
  qed
qed

section \<open>Range of the exponential\<close>

lemma mul_id: "- (2 ^ 31) \<le> a * b div 65536 \<Longrightarrow> a * b div 65536 < 2 ^ 31 \<Longrightarrow> fix_mul a b = a * b div 65536"
  by (simp add: fix_mul_def FIX_FBITS_def)

text \<open>The values of the constants.\<close>

lemma fix_exp_consts:
  "fix_val 166666666666666019 18 = 10922" "fix_val (-2777777777701559) 18 = -182"
  "fix_val 66137563214379 18 = 4" "fix_val (-1653390220547) 18 = 0" "fix_val 41381367971 18 = 0"
  "FIX_LN2 = 45426" "FIX_LN2_INV = 94548"
  by (simp_all add: fix_val_def fix_base FIX_LN2_def FIX_LN2_INV_def signed_divide_int_def)

text \<open>The rational approximation, on the reduced argument.\<close>

lemma fix_exp_xp_bounds:
  assumes "\<bar>f\<bar> \<le> 23000"
  shows "\<exists>xp. fix_exp_xp f = Some xp \<and> 37641 \<le> xp \<and> xp \<le> 93431 \<and> (f \<le> 0 \<longrightarrow> xp \<le> 65536)"
proof -
  define z where "z = fix_mul f f"
  have ff: "0 \<le> f * f" "f * f \<le> 23000 * 23000"
    using assms abs_mult_self_eq [of f] mult_mono [of "\<bar>f\<bar>" 23000 "\<bar>f\<bar>" 23000] by simp_all
  then have fd: "0 \<le> f * f div 65536" "f * f div 65536 \<le> 8072" by (auto simp: div_int_pos_iff)
  then have z: "z = f * f div 65536" unfolding z_def by (intro mul_id) auto
  then have zb: "0 \<le> z" "z \<le> 8072" using fd by simp_all
  have a: "fix_mul z 0 = 0" "fix_mul z 4 = 0" using zb by (simp_all add: fix_mul_def FIX_FBITS_def)
  define u where "u = fix_mul z (- 182)"
  have u: "u = z * (- 182) div 65536" unfolding u_def by (rule mul_id) (use zb in auto)
  then have ub: "- 23 \<le> u" "u \<le> 0" using zb by auto
  define w where "w = fix_mul z (10922 + u)"
  have zw: "0 \<le> z * (10922 + u)" "z * (10922 + u) \<le> 8072 * 10922"
    using zb ub mult_mono [of z 8072 "10922 + u" 10922] by simp_all
  then have w: "w = z * (10922 + u) div 65536" unfolding w_def by (intro mul_id) auto
  then have wb: "0 \<le> w" "w \<le> 1346" using zw by auto
  define e where "e = 131072 + w - f"
  have eb: "108072 \<le> e" "e \<le> 155418" using wb assms by (auto simp: e_def)
  have m2: "fix_mul f FIX_TWO = 2 * f"
    using assms by (simp add: fix_mul_def fix_base)
  have "fix_div (2 * f) e = Some (i32 (2 * f * 65536 sdiv e))"
    using eb by (simp add: fix_div_def fix_base)
  moreover have q: "\<bar>2 * f * 65536 sdiv e\<bar> \<le> 27895"
  proof (rule ccontr)
    assume "\<not> ?thesis"
    then have "27896 * e \<le> \<bar>2 * f * 65536 sdiv e\<bar> * e" using eb by (intro mult_right_mono) auto
    also have "\<dots> = \<bar>2 * f * 65536 sdiv e * e\<bar>" using eb by (simp add: abs_mult)
    also have "\<dots> < \<bar>2 * f * 65536\<bar> + e" using sdiv_bounds [of e "2 * f * 65536"] eb by auto
    finally show False using eb assms by (auto simp: abs_mult)
  qed
  moreover have "i32 (2 * f * 65536 sdiv e) = 2 * f * 65536 sdiv e" using q by (intro i32_id) auto
  moreover have "i32 (i32 (FIX_TWO + fix_mul z (i32 (10922 + fix_mul z (i32 (- 182 + fix_mul z (i32 (4 +
      fix_mul z (i32 (0 + fix_mul z 0))))))))) - f) = e"
    using a ub wb eb by (simp add: u_def [symmetric] w_def [symmetric] fix_base e_def)
  ultimately have d: "fix_div (fix_mul f FIX_TWO) (i32 (i32 (FIX_TWO + fix_mul z (i32 (10922 + fix_mul z
      (i32 (- 182 + fix_mul z (i32 (4 + fix_mul z (i32 (0 + fix_mul z 0))))))))) - f)) = Some (2 * f * 65536 sdiv e)"
    by (simp only: m2)
  have "i32 (FIX_ONE + 2 * f * 65536 sdiv e) = FIX_ONE + 2 * f * 65536 sdiv e"
    using q by (intro i32_id) (auto simp: fix_base)
  with d have "fix_exp_xp f = Some (FIX_ONE + 2 * f * 65536 sdiv e)"
    by (simp only: fix_exp_xp_def Let_def fix_exp_consts z_def [symmetric] option.map)
  moreover have "2 * f * 65536 sdiv e \<le> 0" if "f \<le> 0"
  proof -
    show ?thesis by (rule sdiv_nonpos) (use eb that in auto)
  qed
  ultimately show ?thesis using q by (auto simp: fix_base)
qed

text \<open>The power of two \<open>fix_exp\<close> takes out, for an argument \<open>x\<close> or \<open>- x\<close>.\<close>

definition exp_shift :: "int \<Rightarrow> int" where
  "exp_shift x = (x * 94548 div 65536 + 32768) div 65536"

lemma exp_shift_bounds:
  assumes "0 \<le> x" "x \<le> 21 * 65536"
  shows "0 \<le> exp_shift x" "exp_shift x \<le> 30" "\<bar>x - exp_shift x * 45426\<bar> \<le> 23000"
proof -
  define u where "u = x * 94548 div 65536"
  have u: "65536 * u \<le> x * 94548" "x * 94548 < 65536 * u + 65536" by (auto simp: u_def)
  define m where "m = exp_shift x"
  have m: "65536 * m \<le> u + 32768" "u + 32768 < 65536 * m + 65536"
    by (auto simp: m_def exp_shift_def u_def)
  show "0 \<le> exp_shift x" "exp_shift x \<le> 30" "\<bar>x - exp_shift x * 45426\<bar> \<le> 23000"
    unfolding m_def [symmetric] using u m assms by linarith+
qed

lemma fix_exp_reduce:
  assumes "0 < x" "x \<le> 21 * 65536"
  shows "\<exists>xp. 37641 \<le> xp \<and> xp \<le> 93431 \<and> (x \<le> exp_shift x * 45426 \<longrightarrow> xp \<le> 65536) \<and>
      fix_exp x = Some (fix_mul (i32 (65536 * 2 ^ nat (exp_shift x))) xp)"
    and "\<exists>xp. 37641 \<le> xp \<and> xp \<le> 93431 \<and> fix_exp (- x) = Some (fix_mul (65536 div 2 ^ nat (exp_shift x)) xp)"
proof -
  define m where "m = exp_shift x"
  have m: "0 \<le> m" "m \<le> 30" "\<bar>x - m * 45426\<bar> \<le> 23000"
    using exp_shift_bounds [of x] assms by (auto simp: m_def)
  have u: "0 \<le> x * 94548 div 65536" "x * 94548 div 65536 \<le> 1985508" using assms by auto
  then have k: "fix_mul x 94548 = x * 94548 div 65536" by (intro mul_id) auto
  have k': "i32 (fix_mul x 94548 + FIX_HALF) - i32 (fix_mul x 94548 + FIX_HALF) mod FIX_ONE = m * 65536"
    using u by (simp add: k fix_base m_def exp_shift_def minus_mod_eq_div_mult)
  have km: "fix_mul (m * 65536) 45426 = m * 45426" "fix_mul (- (m * 65536)) 45426 = - (m * 45426)"
  proof -
    have e: "m * 65536 * 45426 = m * 45426 * 65536" "- (m * 65536) * 45426 = - (m * 45426) * 65536" by simp_all
    show "fix_mul (m * 65536) 45426 = m * 45426" "fix_mul (- (m * 65536)) 45426 = - (m * 45426)"
      using m(1,2) unfolding fix_mul_def FIX_FBITS_def e by simp_all
  qed
  have im: "i32 (- (m * 65536)) = - (m * 65536)" using m by (intro i32_id) auto
  have ix: "i32 (x - m * 45426) = x - m * 45426" "i32 (m * 45426 - x) = m * 45426 - x" "i32 (- (- x)) = x"
    using m(3) assms by (auto intro!: i32_id)
  have sh: "nat (\<bar>m * 65536\<bar> div 65536) = nat m" and sh32: "\<not> 32 \<le> nat m" using m by simp_all
  have kp: "fix_exp_k x = m * 65536" "fix_exp_k (- x) = - (m * 65536)"
    using assms k' ix(3) im by (simp_all add: fix_exp_k_def fix_abs_def fix_exp_consts Let_def del: minus_diff_eq)
  from fix_exp_xp_bounds [OF m(3)] obtain xp where xp: "fix_exp_xp (x - m * 45426) = Some xp" "37641 \<le> xp" "xp \<le> 93431"
      "x - m * 45426 \<le> 0 \<longrightarrow> xp \<le> 65536"
    by blast
  then show "\<exists>xp. 37641 \<le> xp \<and> xp \<le> 93431 \<and> (x \<le> exp_shift x * 45426 \<longrightarrow> xp \<le> 65536) \<and>
      fix_exp x = Some (fix_mul (i32 (65536 * 2 ^ nat (exp_shift x))) xp)"
    using assms(1) m(1) sh sh32
    by (intro exI [of _ xp]) (simp add: fix_exp_def Let_def kp km ix fix_exp_consts fix_base m_def [symmetric])
  have "\<bar>- x + m * 45426\<bar> \<le> 23000" using m(3) by simp
  from fix_exp_xp_bounds [OF this] obtain xq where xq: "fix_exp_xp (- x + m * 45426) = Some xq" "37641 \<le> xq" "xq \<le> 93431"
    by blast
  show "\<exists>xp. 37641 \<le> xp \<and> xp \<le> 93431 \<and> fix_exp (- x) = Some (fix_mul (65536 div 2 ^ nat (exp_shift x)) xp)"
  proof (cases "m = 0")
    case True
    moreover have "fix_mul 0 45426 = 0" "i32 (- x) = - x"
      using assms by (auto simp: fix_mul_def intro!: i32_id)
    ultimately show ?thesis using xq assms(1)
      by (intro exI [of _ xq]) (simp add: fix_exp_def Let_def kp km ix fix_exp_consts fix_base m_def [symmetric])
  next
    case False
    then show ?thesis using xq assms(1) m(1) sh sh32
      by (intro exI [of _ xq]) (simp add: fix_exp_def Let_def kp km ix fix_exp_consts fix_base m_def [symmetric])
  qed
qed


section \<open>Properties\<close>

text \<open>
  C21. The square root. For every number above 1, \<open>fix_sqrt\<close> returns, after its fixed number
  of iterations, a value that is less than one unit in the last place away from the root.
\<close>

theorem fix_sqrt_close:
  assumes "FIX_ONE < a" and "a < 2 ^ 31"
  shows "\<exists>r. fix_sqrt a = Some r \<and> 0 < r \<and> (r - 1)\<^sup>2 \<le> a * FIX_ONE \<and> a * FIX_ONE < (r + 1)\<^sup>2"
proof -
  obtain s where s: "0 \<le> s" "s\<^sup>2 \<le> a * 2 ^ 16" "a * 2 ^ 16 < (s + 1)\<^sup>2"
    using isqrt_ex [of "a * 2 ^ 16"] assms by (auto simp: fix_base)
  from fix_sqrt_above_one [OF assms s] obtain r where r: "fix_sqrt a = Some r" "s \<le> r" "r \<le> s + 1" by blast
  have "0 < s"
  proof (rule ccontr)
    assume "\<not> 0 < s"
    with s(1) have "s = 0" by simp
    with s(3) assms(1) show False by (simp add: fix_base)
  qed
  moreover have "(r - 1)\<^sup>2 \<le> s\<^sup>2" using r(2,3) \<open>0 < s\<close> by (intro power_mono) auto
  moreover have "(s + 1)\<^sup>2 \<le> (r + 1)\<^sup>2" using r(2) s(1) by (intro power_mono) auto
  moreover have "a * FIX_ONE = a * 2 ^ 16" by (simp add: fix_base)
  ultimately have "0 < r" "(r - 1)\<^sup>2 \<le> a * FIX_ONE" "a * FIX_ONE < (r + 1)\<^sup>2"
    using r(2) s(2,3) by linarith+
  with r(1) show ?thesis by blast
qed

theorem fix_sqrt_close_witness:
  "\<exists>r. fix_sqrt (fix_val 20 1) = Some r \<and> (r - 1)\<^sup>2 \<le> 131072 * 65536 \<and> 131072 * 65536 < (r + 1)\<^sup>2"
  using fix_sqrt_close [of "fix_val 20 1"] by (auto simp: fix_val_def fix_base signed_divide_int_def)

text \<open>
  What \<open>fixtoa\<close> prints, for every number but the least one: a minus sign, the digits of
  the whole part of the absolute value, a point, and at least one and else \<open>dec\<close> digits, which
  are the fraction cut off after them.
\<close>

theorem fixtoa_digits:
  assumes "- (2 ^ 31) < a" and "a < 2 ^ 31"
  shows "\<exists>ip fr. fixtoa a dec = (if a < 0 then [45] else []) @ ip @ [46] @ fr @ [0] \<and>
    (\<forall>c \<in> set (ip @ fr). 48 \<le> c \<and> c \<le> 57) \<and> ip \<noteq> [] \<and> length fr = nat (max 1 dec) \<and>
    dec_of ip = \<bar>a\<bar> div FIX_ONE \<and> dec_of fr = (\<bar>a\<bar> mod FIX_ONE) * 10 ^ length fr div FIX_ONE"
proof -
  define x where "x = \<bar>a\<bar>"
  have x: "(if a < 0 then i32 (- a) else a) = x" "0 \<le> x" "x < 2 ^ 31" using assms by (auto simp: x_def)
  have i: "0 \<le> x div FIX_ONE" using x(2) by (simp add: fix_base div_int_pos_iff)
  have "x div FIX_ONE \<le> x" using x(2) by (simp add: fix_base)
  then have u: "fix_int x mod 2 ^ 32 = x div FIX_ONE"
    using i x(3) unfolding fix_int_def FIX_ONE_def by (intro mod_pos_pos_trivial) auto
  define ip where "ip = rev (int_digits (x div FIX_ONE))"
  define fr where "fr = frac_digits (x mod FIX_ONE) 0 dec"
  have "fixtoa a dec = (if a < 0 then [45] else []) @ ip @ [46] @ fr @ [0]"
    by (simp only: fixtoa_def Let_def x(1) u ip_def fr_def fix_frac_def)
  moreover have "ip \<noteq> []" unfolding ip_def by (subst int_digits.simps) simp
  moreover have "dec_of ip = x div FIX_ONE" "\<forall>c \<in> set ip. 48 \<le> c \<and> c \<le> 57"
    using int_digits_value [OF i] by (simp_all add: ip_def)
  moreover have "dec_of fr = (x mod FIX_ONE) * 10 ^ length fr div FIX_ONE" "length fr = nat (max 1 dec)"
    "\<forall>c \<in> set fr. 48 \<le> c \<and> c \<le> 57"
    using frac_digits_value [of "x mod FIX_ONE" 0 dec] by (simp_all add: fr_def)
  ultimately show ?thesis
    unfolding x_def [symmetric] by (intro exI [of _ ip] exI [of _ fr]) (simp add: ball_Un)
qed

theorem fixtoa_digits_witness:
  "\<exists>ip fr. fixtoa (fix_val (-25) 1) 2 = [45] @ ip @ [46] @ fr @ [0] \<and> dec_of ip = 2 \<and> dec_of fr = 50"
proof -
  have c: "fix_val (-25) 1 = - 163840" by (simp add: fix_val_def fix_base signed_divide_int_def)
  from fixtoa_digits [of "- 163840" 2] obtain ip fr where "fixtoa (- 163840) 2 = [45] @ ip @ [46] @ fr @ [0]"
    "dec_of ip = 163840 div FIX_ONE" "length fr = 2" "dec_of fr = 163840 mod FIX_ONE * 10 ^ length fr div FIX_ONE"
    by auto
  then show ?thesis unfolding c by (intro exI [of _ ip] exI [of _ fr]) (simp add: fix_base)
qed

text \<open>The least number is its own negation; its whole part is printed as an unsigned number.\<close>

theorem fixtoa_least:
  "fixtoa (- (2 ^ 31)) 1 = [45, 52, 50, 57, 52, 57, 51, 52, 53, 50, 56, 46, 48, 0]"
  by (simp add: fixtoa_def i32_def fix_int_def fix_frac_def fix_base Let_def int_digits.simps frac_digits.simps)

text \<open>
  Multiplying and dividing by the same number gives the number back, up to the places the
  product has lost.
\<close>

theorem fix_div_mul:
  assumes "b \<noteq> 0" and "\<bar>a\<bar> < 2 ^ 29" and "\<bar>a * b\<bar> < 2 ^ 46"
  shows "\<exists>q. fix_div (fix_mul a b) b = Some q \<and> \<bar>q - a\<bar> * \<bar>b\<bar> < \<bar>b\<bar> + FIX_ONE"
proof -
  let ?p = "fix_mul a b"
  have p: "?p * FIX_ONE \<le> a * b" "a * b < (?p + 1) * FIX_ONE" using fix_mul_bounds [OF assms(3)] .
  then have pb: "\<bar>?p * FIX_ONE - a * b\<bar> < FIX_ONE" by (simp add: algebra_simps)
  have "\<bar>a * b\<bar> + 2 ^ 16 < 2 ^ 30 * \<bar>b\<bar>"
  proof -
    have e: "(2 :: int) ^ 16 = 65536" "(2 :: int) ^ 30 = 1073741824" by simp_all
    have "\<bar>a\<bar> * \<bar>b\<bar> \<le> 536870912 * \<bar>b\<bar>" using assms(2) by (intro mult_right_mono) auto
    moreover have "1 \<le> \<bar>b\<bar>" using assms(1) by simp
    ultimately show ?thesis unfolding abs_mult e by linarith
  qed
  then have small: "\<bar>?p\<bar> * FIX_ONE < 2 ^ 30 * \<bar>b\<bar>"
    using pb by (auto simp: fix_base abs_mult [symmetric])
  obtain q where q: "fix_div ?p b = Some q" using assms(1) by (simp add: fix_div_def)
  have "\<bar>q * b - a * b\<bar> < \<bar>b\<bar> + FIX_ONE" using fix_div_bounds [OF q small] pb by simp
  then show ?thesis using q by (simp add: abs_mult [symmetric] left_diff_distrib)
qed

text \<open>The exponential of a positive and of a negative number.\<close>

lemma fix_exp_positive_argument:
  assumes "0 < x" and "x \<le> 21 * FIX_ONE"
  shows "\<exists>v. fix_exp x = Some v \<and> (x \<le> 658000 \<longrightarrow> 0 < v) \<and>
    (659000 \<le> x \<longrightarrow> x \<le> 681000 \<longrightarrow> v < 0) \<and> (705000 \<le> x \<longrightarrow> v = 0)"
proof -
  have x: "x \<le> 21 * 65536" using assms(2) by (simp add: fix_base)
  define m where "m = exp_shift x"
  have m: "0 \<le> m" "m \<le> 30" using exp_shift_bounds [of x] assms(1) x by (simp_all add: m_def)
  obtain xp where xp: "37641 \<le> xp" "xp \<le> 93431" "fix_exp x = Some (fix_mul (i32 (65536 * 2 ^ nat m)) xp)"
      "x \<le> m * 45426 \<longrightarrow> xp \<le> 65536"
    using fix_exp_reduce(1) [OF assms(1) x] by (auto simp: m_def)
  have a: "0 < fix_mul (i32 (65536 * 2 ^ nat m)) xp" if "x \<le> 658000"
  proof -
    have "m \<le> 14" using that by (simp add: m_def exp_shift_def)
    then have "(2 :: int) ^ nat m \<le> 2 ^ 14" by (intro power_increasing) auto
    moreover define t where "t = (2 :: int) ^ nat m"
    ultimately have p: "0 < t" "t \<le> 16384" by simp_all
    then have "i32 (65536 * t) = t * 65536" by (subst i32_id) auto
    moreover have tx: "t * xp \<le> 16384 * 93431" "0 < t * xp" using p xp mult_mono [of t 16384 xp 93431] by simp_all
    moreover have "t * 65536 * xp = t * xp * 65536" by simp
    ultimately have "fix_mul (i32 (65536 * t)) xp = t * xp"
      unfolding fix_mul_def FIX_FBITS_def by (simp only:) (subst i32_id, simp_all)
    with tx(2) show ?thesis unfolding t_def by simp
  qed
  have b: "fix_mul (i32 (65536 * 2 ^ nat m)) xp < 0" if "659000 \<le> x" "x \<le> 681000"
  proof -
    have m15: "m = 15" using that by (simp add: m_def exp_shift_def)
    then have "xp \<le> 65536" using xp(4) that by simp
    then have "i32 (- 32768 * xp) = - 32768 * xp" using xp(1) by (intro i32_id) auto
    moreover have "i32 (65536 * 2 ^ nat m) * xp = - 32768 * xp * 65536" by (simp add: m15 i32_def)
    moreover have "(- 32768 * xp) * 65536 div 2 ^ 16 = - 32768 * xp"
      using nonzero_mult_div_cancel_right [of 65536 "- 32768 * xp"] by simp
    ultimately have "fix_mul (i32 (65536 * 2 ^ nat m)) xp = - 32768 * xp"
      by (simp only: fix_mul_def FIX_FBITS_def)
    then show ?thesis using xp(1) by simp
  qed
  have "i32 (65536 * 2 ^ nat m) = 0" if "705000 \<le> x"
  proof -
    have "16 \<le> m" using that by (simp add: m_def exp_shift_def)
    then have "(2 :: int) ^ nat m = 2 ^ 16 * 2 ^ (nat m - 16)"
      by (simp only: power_add [symmetric]) (rule arg_cong [where f = "power 2"], simp)
    then show ?thesis by (simp add: i32_def)
  qed
  with a b xp(3) show ?thesis by (auto simp: fix_mul_def i32_def)
qed

lemma fix_exp_negative_argument:
  assumes "0 < x" and "x \<le> 21 * FIX_ONE"
  shows "\<exists>v. fix_exp (- x) = Some v \<and> 0 \<le> v \<and> (x \<le> 704000 \<longrightarrow> 0 < v) \<and> (750000 \<le> x \<longrightarrow> v = 0)"
proof -
  have x: "x \<le> 21 * 65536" using assms(2) by (simp add: fix_base)
  define m where "m = exp_shift x"
  have m: "0 \<le> m" "m \<le> 30" using exp_shift_bounds [of x] assms(1) x by (simp_all add: m_def)
  obtain xp where xp: "37641 \<le> xp" "xp \<le> 93431" "fix_exp (- x) = Some (fix_mul (65536 div 2 ^ nat m) xp)"
    using fix_exp_reduce(2) [OF assms(1) x] by (auto simp: m_def)
  define t where "t = (65536 :: int) div 2 ^ nat m"
  have "65536 div (2 :: int) ^ nat m \<le> 65536 div 1" by (intro zdiv_mono2) auto
  then have "t \<le> 65536" by (simp add: t_def)
  then have t: "0 \<le> t" "t \<le> 65536" by (simp_all add: t_def div_int_pos_iff)
  then have "0 \<le> t * xp" "t * xp \<le> 65536 * 93431"
    using xp(1,2) mult_mono [of t 65536 xp 93431] by simp_all
  then have "0 \<le> t * xp div 65536" "t * xp div 65536 \<le> 93431" by auto
  then have v: "fix_mul t xp = t * xp div 65536" by (intro mul_id) auto
  have "2 \<le> t" if "x \<le> 704000"
  proof -
    have "m \<le> 15" using that by (simp add: m_def exp_shift_def)
    then have "(2 :: int) ^ nat m \<le> 2 ^ 15" by (intro power_increasing) auto
    then have "65536 div 2 ^ 15 \<le> t" unfolding t_def by (intro zdiv_mono2) auto
    then show ?thesis by simp
  qed
  then have a: "0 < t * xp div 65536" if "x \<le> 704000"
    using that xp(1) mult_mono [of 2 t 37641 xp] by auto
  have b: "t = 0" if "750000 \<le> x"
  proof -
    have "17 \<le> m" using that by (simp add: m_def exp_shift_def)
    then have "(2 :: int) ^ 17 \<le> 2 ^ nat m" by (intro power_increasing) auto
    then show ?thesis by (simp add: t_def)
  qed
  have "fix_exp (- x) = Some (t * xp div 65536)" using xp(3) v by (simp add: t_def)
  then show ?thesis using a b \<open>0 \<le> t * xp div 65536\<close> by auto
qed

text \<open>
  C39. The range of the exponential, for arguments between -21 and 21. For a negative argument,
  and 0, the result is defined and not negative; down to -10.74 it is positive, and from -11.45
  on it is 0. For a positive argument it is positive up to 10.04; from 10.06 to 10.39 it is
  negative, though the exact value could be represented: the power of two \<open>FIX_ONE << 15\<close> is
  the sign bit; from 10.76 on it is 0. (Below -21.9 it is not defined:
  \<open>fix_exp_shift_undefined\<close>.)
\<close>

theorem fix_exp_range:
  assumes "\<bar>x\<bar> \<le> 21 * FIX_ONE"
  shows "\<exists>v. fix_exp x = Some v \<and> (x \<le> 0 \<longrightarrow> 0 \<le> v) \<and>
    (- 704000 \<le> x \<longrightarrow> x \<le> 658000 \<longrightarrow> 0 < v) \<and>
    (659000 \<le> x \<longrightarrow> x \<le> 681000 \<longrightarrow> v < 0) \<and>
    (705000 \<le> x \<or> x \<le> - 750000 \<longrightarrow> v = 0)"
proof (cases x "0 :: int" rule: linorder_cases)
  case less
  with assms fix_exp_negative_argument [of "- x"] show ?thesis by auto
next
  case equal
  then show ?thesis by (simp add: fix_exp_def fix_base)
next
  case greater
  with assms fix_exp_positive_argument [of x] show ?thesis by auto
qed

theorem fix_exp_range_witness:
  "(\<exists>v. fix_exp (fix_val 103 1) = Some v \<and> v < 0) \<and> (\<exists>v. fix_exp (fix_val (-103) 1) = Some v \<and> 0 < v)"
proof -
  have c: "fix_val 103 1 = 675020" "fix_val (-103) 1 = - 675020"
    by (simp_all add: fix_val_def fix_base signed_divide_int_def)
  show ?thesis using fix_exp_range [of 675020] fix_exp_range [of "- 675020"] unfolding c by (auto simp: fix_base)
qed

text \<open>
  The hyperbolic tangent, which should be nearly 1: between 10.76 and 21 the cosine has become
  0, and \<open>fix_tanh\<close> divides by it.
\<close>

theorem fix_tanh_divides_by_zero:
  assumes "705000 \<le> x" and "x \<le> 21 * FIX_ONE"
  shows "fix_cosh x = Some 0" and "fix_tanh x = None"
proof -
  have x: "0 < x" "x \<le> 21 * 65536" using assms by (simp_all add: fix_base)
  have v: "fix_exp x = Some 0"
    using fix_exp_positive_argument [of x] assms(1) x(1) assms(2) by auto
  obtain xp where xp: "37641 \<le> xp" "xp \<le> 93431"
      "fix_exp (- x) = Some (fix_mul (65536 div 2 ^ nat (exp_shift x)) xp)"
    using fix_exp_reduce(2) [OF x] by blast
  have "16 \<le> exp_shift x" using assms(1) by (simp add: exp_shift_def)
  then have "(2 :: int) ^ 16 \<le> 2 ^ nat (exp_shift x)" by (intro power_increasing) auto
  then have p: "65536 div (2 :: int) ^ nat (exp_shift x) = 0 \<or> 65536 div (2 :: int) ^ nat (exp_shift x) = 1"
    by (cases "(2 :: int) ^ nat (exp_shift x) = 65536") auto
  then have "fix_mul (65536 div 2 ^ nat (exp_shift x)) xp = 0 \<or> fix_mul (65536 div 2 ^ nat (exp_shift x)) xp = 1"
  proof
    assume "65536 div (2 :: int) ^ nat (exp_shift x) = 1"
    moreover have "xp div 65536 = 0 \<or> xp div 65536 = 1" using xp(1,2) by auto
    ultimately show ?thesis by (auto simp: fix_mul_def FIX_FBITS_def)
  qed (simp add: fix_mul_def)
  then obtain y where y: "fix_exp (- x) = Some y" "y = 0 \<or> y = 1" using xp(3) by blast
  have c: "fix_val 210 1 = 1376256" "fix_val 10 1 = 65536" by (simp_all add: fix_val_def fix_base signed_divide_int_def)
  have n: "i32 (- x) = - x" using x by (intro i32_id) auto
  show cosh: "fix_cosh x = Some 0" using v y x c n by (auto simp: fix_cosh_def Let_def)
  have "\<exists>s. fix_sinh x = Some s" using v y x c n by (simp add: fix_sinh_def Let_def)
  with cosh show "fix_tanh x = None"
    using x c by (auto simp: fix_tanh_def Let_def fix_div_def)
qed

text \<open>The tangent of \<open>- FIX_HALF_PI\<close> divides by zero as well, that of \<open>FIX_HALF_PI\<close> does not.\<close>

lemma trig_consts:
  "FIX_PI = 205887" "FIX_TWO_PI = 411774" "FIX_HALF_PI = 102943"
  "fix_val 1273239544735162686 18 = 83443" "fix_val 405284734569351086 18 = 26560" "fix_val 225 3 = 14745"
  by (simp_all add: FIX_PI_def FIX_TWO_PI_def FIX_HALF_PI_def fix_val_def fix_base signed_divide_int_def)

theorem fix_tan_poles: "fix_tan (- FIX_HALF_PI) = None" "fix_tan FIX_HALF_PI \<noteq> None"
  by (simp_all add: fix_tan_def fix_div_def fix_cos_def fix_sin_def trig_consts Let_def i32_def fix_mul_def FIX_FBITS_def)

text \<open>Below -21.9 the shift of \<open>fix_exp\<close> has 32 places or more, which C does not define.\<close>

theorem fix_exp_shift_undefined: "fix_exp (fix_val (-240) 1) = None"
proof -
  have c: "fix_val (-240) 1 = - 1572864" by (simp add: fix_val_def fix_base signed_divide_int_def)
  have k: "fix_exp_k (- 1572864) = - 2293760"
    by (simp add: fix_exp_k_def Let_def fix_exp_consts fix_abs_def fix_base fix_mul_def i32_def)
  then show ?thesis
    unfolding c by (simp add: fix_exp_def Let_def fix_base Option.bind_eq_None_conv)
qed

text \<open>With a second argument of 0 \<open>fix_atan2\<close> returns a right angle, without a division.\<close>

theorem fix_atan2_zero:
  assumes "- (2 ^ 31) \<le> y" and "y < 2 ^ 31"
  shows "fix_atan2 y 0 = Some (if 0 \<le> y then FIX_HALF_PI else - FIX_HALF_PI)"
  using assms by (simp add: fix_atan2_def)

text \<open>\<open>fix_ln\<close> scales its argument below 2 before it divides: the division is defined.\<close>

lemma ln_scale_range: "0 < xi \<Longrightarrow> 0 < fst (ln_scale xi log2) \<and> fst (ln_scale xi log2) < FIX_TWO"
proof (induction xi log2 rule: ln_scale.induct)
  case (1 xi log2)
  show ?case
  proof (cases "FIX_TWO \<le> xi")
    case True
    then have "0 < xi div 2" by (simp add: fix_base)
    moreover have "ln_scale xi log2 = ln_scale (xi div 2) (log2 + 1)"
      using True by (subst ln_scale.simps) simp
    ultimately show ?thesis using "1.IH" [OF True] by simp
  next
    case False
    then have "ln_scale xi log2 = (xi, log2)" by (subst ln_scale.simps) simp
    with False 1(2) show ?thesis by simp
  qed
qed

theorem fix_ln_defined: "fix_ln fp \<noteq> None"
proof (cases "0 < fp")
  case True
  obtain xi l where sc: "ln_scale fp 0 = (xi, l)" by (cases "ln_scale fp 0")
  with ln_scale_range [OF True, of 0] have "0 < xi" "xi < 131072" by (simp_all add: fix_base)
  then have "i32 (xi - FIX_ONE) = xi - 65536" "i32 (FIX_TWO + (xi - 65536)) \<noteq> 0" by (simp_all add: fix_base)
  with True sc show ?thesis by (simp add: fix_ln_def fix_div_def Let_def del: i32_id)
qed (simp add: fix_ln_def Let_def del: i32_id)

end
