(* ===== verification/Apex_Types.thy ===== *)
theory Apex_Types
  imports Apex_Prelude
begin

text \<open>
  The data of the APEX layer, from \<open>include/arinc/*.h\<close> and \<open>include/kernel/*.h\<close>:
  the enumerations as datatypes with the constructors of the source, the structs as
  records with the fields of the source, and the control block \<open>pcb_s\<close> of a partition.

  Representation choices.
  \<^item> \<open>APEX_INTEGER\<close> and \<open>SYSTEM_TIME_TYPE\<close> values are \<open>int\<close>; \<open>uint32_t\<close> fields that
    the code steps modulo a size or lets wrap are \<open>32 word\<close>, \<open>uint64_t\<close> times are
    \<open>64 word\<close>.
  \<^item> A pointer into one of the static arrays of a partition (a semaphore, a port, ...) is
    the index of the element; a \<open>struct process_s *\<close> is a reference into the heap
    \<open>proc_heap\<close> of the partition, which maps a freed or never allocated reference to
    \<open>None\<close>; a null pointer is \<open>None\<close>.
  \<^item> A \<open>list_s\<close> of processes is the list of the references its nodes carry, from head to
    tail (\<open>Linked_List\<close> shows that \<open>lib/list.c\<close> implements these lists). A node
    pointer such as \<open>process_current\<close> is the reference the node carries.
  \<^item> A \<open>jmp_buf\<close> is the point at which the context continues: the entry of the task after
    \<open>_context_init\<close>, or, after \<open>yield_to_partition\<close>, the point inside the service that
    called \<open>setjmp\<close> with the local variables the service still uses.
  \<^item> \<open>mem\<close> is the memory of the applications of the partition, in which message
    addresses point.
\<close>

section \<open>Enumerations and constants\<close>

datatype RETURN_CODE_TYPE =
  NO_ERROR | NO_ACTION | NOT_AVAILABLE | INVALID_PARAM | INVALID_CONFIG | INVALID_MODE | TIMED_OUT

datatype PROCESS_STATE_TYPE = DORMANT | READY | RUNNING | WAITING | FAULTED

datatype DEADLINE_TYPE = SOFT | HARD

datatype PORT_DIRECTION_TYPE = SOURCE | DESTINATION

datatype QUEUING_DISCIPLINE_TYPE = FIFO | PRIORITY

datatype OPERATING_MODE_TYPE = IDLE | COLD_START | WARM_START | NORMAL

datatype START_CONDITION_TYPE =
  NORMAL_START | PARTITION_RESTART | HM_MODULE_RESTART | HM_PARTITION_RESTART

datatype VALIDITY_TYPE = INVALID | VALID

datatype EMPTY_INDICATOR_TYPE = EMPTY | OCCUPIED

datatype EVENT_STATE_TYPE = DOWN | UP

datatype MUTEX_STATE_TYPE = AVAILABLE | OWNED

datatype ERROR_CODE_TYPE =
  DEADLINE_MISSED | APPLICATION_ERROR | NUMERIC_ERROR | ILLEGAL_REQUEST |
  STACK_OVERFLOW | MEMORY_VIOLATION | HARDWARE_FAULT | POWER_FAIL

datatype ERROR_ACTION_TYPE =
  IGNORE | PROCESS_STOP | PROCESS_RESTART | PARTITION_STOP | PROCESS_REPLENISH

text \<open>
  An argument of an enumeration type may hold any integer in C; the services that check
  their argument take the integer and decode it.
\<close>

definition decode_mode :: "int \<Rightarrow> OPERATING_MODE_TYPE option" where
  "decode_mode n = (if n = 0 then Some IDLE else if n = 1 then Some COLD_START
     else if n = 2 then Some WARM_START else if n = 3 then Some NORMAL else None)"

definition decode_discipline :: "int \<Rightarrow> QUEUING_DISCIPLINE_TYPE option" where
  "decode_discipline n = (if n = 0 then Some FIFO else if n = 1 then Some PRIORITY else None)"

definition decode_direction :: "int \<Rightarrow> PORT_DIRECTION_TYPE option" where
  "decode_direction n = (if n = 0 then Some SOURCE else if n = 1 then Some DESTINATION else None)"

text \<open>The value of an enumerator where the code uses it as a number.\<close>

definition mode_index :: "OPERATING_MODE_TYPE \<Rightarrow> nat" where
  "mode_index m = (case m of IDLE \<Rightarrow> 0 | COLD_START \<Rightarrow> 1 | WARM_START \<Rightarrow> 2 | NORMAL \<Rightarrow> 3)"

definition error_index :: "ERROR_CODE_TYPE \<Rightarrow> nat" where
  "error_index e = (case e of DEADLINE_MISSED \<Rightarrow> 0 | APPLICATION_ERROR \<Rightarrow> 1 | NUMERIC_ERROR \<Rightarrow> 2
     | ILLEGAL_REQUEST \<Rightarrow> 3 | STACK_OVERFLOW \<Rightarrow> 4 | MEMORY_VIOLATION \<Rightarrow> 5 | HARDWARE_FAULT \<Rightarrow> 6
     | POWER_FAIL \<Rightarrow> 7)"

abbreviation "INFINITE_TIME_VALUE \<equiv> (-1 :: int)"
abbreviation "MAX_NUMBER_OF_PROCESSES \<equiv> (16 :: int)"
abbreviation "MIN_PRIORITY_VALUE \<equiv> (1 :: int)"
abbreviation "MAX_PRIORITY_VALUE \<equiv> (239 :: int)"
abbreviation "MAX_LOCK_LEVEL \<equiv> (16 :: int)"
abbreviation "NULL_PROCESS_ID \<equiv> (0 :: int)"
abbreviation "NO_MUTEX_OWNED \<equiv> (-1 :: int)"
abbreviation "NULL_MUTEX_ID \<equiv> (0 :: int)"
abbreviation "PREEMPTION_LOCK_MUTEX \<equiv> (1 :: int)"
abbreviation "MAX_ERROR_MESSAGE_SIZE \<equiv> (128 :: int)"
abbreviation "DEFAULT_PROCESS_CORE_AFFINITY \<equiv> (0 :: int)"
abbreviation "IDLE_PARTITION_ID \<equiv> (0 :: int)"
abbreviation "MAX_NAME_LENGTH \<equiv> (32 :: nat)"
abbreviation "PARTIION_OS_AND_MAIN_PROCESS_STACK_SIZE \<equiv> (4096 :: nat)"

section \<open>Processes\<close>

type_synonym pref = nat

record PROCESS_ATTRIBUTE_TYPE =
  PERIOD :: int
  TIME_CAPACITY :: int
  ENTRY_POINT :: addr
  STACK_SIZE :: nat
  BASE_PRIORITY :: int
  DEADLINE :: DEADLINE_TYPE
  NAME :: string

record PROCESS_STATUS_TYPE =
  DEADLINE_TIME :: int
  CURRENT_PRIORITY :: int
  PROCESS_STATE :: PROCESS_STATE_TYPE
  ATTRIBUTES :: PROCESS_ATTRIBUTE_TYPE

record ERROR_STATUS_TYPE =
  FAILED_ADDRESS :: addr
  FAILED_PROCESS_ID :: int
  ERROR_CODE :: ERROR_CODE_TYPE
  ERR_LENGTH :: int
  MESSAGE :: "byte list"

text \<open>
  The points at which a service is suspended by \<open>yield_to_partition\<close>, one per call of it,
  with the locals the rest of the service reads. \<open>RP_LOCK_PREEMPTION\<close> and
  \<open>RP_UNLOCK_PREEMPTION\<close> are the frame of the caller above a frame of
  \<open>krnl_acquire_mutex\<close> or \<open>krnl_release_mutex\<close>.
\<close>

datatype resume_point =
    RP_SET_PRIORITY | RP_SUSPEND_SELF | RP_RESUME | RP_STOP | RP_START | RP_DELAYED_START
  | RP_TIMED_WAIT | RP_PERIODIC_WAIT
  | RP_DISPLAY_BLACKBOARD | RP_READ_BLACKBOARD_INF nat addr | RP_READ_BLACKBOARD_TMO nat addr
  | RP_SEND_BUFFER_WOKE | RP_SEND_BUFFER_INF | RP_SEND_BUFFER_TMO
  | RP_RECEIVE_BUFFER_WOKE int | RP_RECEIVE_BUFFER_INF | RP_RECEIVE_BUFFER_TMO
  | RP_WAIT_SEMAPHORE_INF | RP_WAIT_SEMAPHORE_TMO | RP_SIGNAL_SEMAPHORE
  | RP_SET_EVENT | RP_WAIT_EVENT_INF | RP_WAIT_EVENT_TMO | RP_APERIODIC_WAIT_EVENT
  | RP_ACQUIRE_MUTEX_INF | RP_ACQUIRE_MUTEX_TMO | RP_RELEASE_MUTEX | RP_RESET_MUTEX
  | RP_LOCK_PREEMPTION resume_point | RP_UNLOCK_PREEMPTION resume_point
  | RP_SEND_QUEUING nat addr int int | RP_RECEIVE_QUEUING nat addr int
  | RP_RAISE_ERROR_FULL ERROR_STATUS_TYPE | RP_RAISE_ERROR

datatype jmp_buf = Ctx_Garbage | Ctx_Entry addr addr | Ctx_Resume resume_point

record tcb_s =
  task :: addr
  tcb_ctx :: jmp_buf
  stack :: addr
  stack_sz :: nat
  rt_prio :: nat
  tcb_id :: int

record process_s =
  tcb :: tcb_s
  processus_status :: PROCESS_STATUS_TYPE
  process_id :: int
  process_index :: int
  processor_core_affinity :: int
  release_point_time :: int
  is_suspended :: bool
  time_counter :: int
  saved_init_delay :: int
  waiting_queuing_port :: "nat option"
  waiting_blackboard :: "nat option"
  waiting_buffer :: "nat option"
  waiting_message_addr :: addr
  waiting_message_size :: int
  waiting_semaphore :: "nat option"
  waiting_event :: "nat option"
  waiting_mutex :: "nat option"
  owned_mutex_id :: int
  pending_error :: ERROR_STATUS_TYPE

abbreviation pstate :: "process_s \<Rightarrow> PROCESS_STATE_TYPE" where
  "pstate p \<equiv> PROCESS_STATE (processus_status p)"
abbreviation cprio :: "process_s \<Rightarrow> int" where
  "cprio p \<equiv> CURRENT_PRIORITY (processus_status p)"
abbreviation attrs :: "process_s \<Rightarrow> PROCESS_ATTRIBUTE_TYPE" where
  "attrs p \<equiv> ATTRIBUTES (processus_status p)"

text \<open>Assignments to the fields behind \<open>process->processus_status\<close>.\<close>

abbreviation set_state :: "PROCESS_STATE_TYPE \<Rightarrow> process_s \<Rightarrow> process_s" where
  "set_state st p \<equiv> p\<lparr>processus_status := (processus_status p)\<lparr>PROCESS_STATE := st\<rparr>\<rparr>"
abbreviation set_prio :: "int \<Rightarrow> process_s \<Rightarrow> process_s" where
  "set_prio n p \<equiv> p\<lparr>processus_status := (processus_status p)\<lparr>CURRENT_PRIORITY := n\<rparr>\<rparr>"
abbreviation set_deadline :: "int \<Rightarrow> process_s \<Rightarrow> process_s" where
  "set_deadline t p \<equiv> p\<lparr>processus_status := (processus_status p)\<lparr>DEADLINE_TIME := t\<rparr>\<rparr>"
abbreviation set_context :: "jmp_buf \<Rightarrow> process_s \<Rightarrow> process_s" where
  "set_context c p \<equiv> p\<lparr>tcb := (tcb p)\<lparr>tcb_ctx := c\<rparr>\<rparr>"

section \<open>Intra-partition resources\<close>

record BUFFER_STATUS_TYPE =
  NB_MESSAGE :: int
  MAX_NB_MESSAGE :: int
  BF_MAX_MESSAGE_SIZE :: int
  BF_WAITING_PROCESSES :: int

record buffer_s =
  buffer_name :: string
  buffer_id :: int
  buffer_status :: BUFFER_STATUS_TYPE
  bf_queuing_discipline :: QUEUING_DISCIPLINE_TYPE
  bf_read_index :: u32
  bf_write_index :: u32
  waiting_readers :: "pref list"
  waiting_writers :: "pref list"

record BLACKBOARD_STATUS_TYPE =
  EMPTY_INDICATOR :: EMPTY_INDICATOR_TYPE
  BB_MAX_MESSAGE_SIZE :: int
  BB_WAITING_PROCESSES :: int

record blackboard_s =
  blackboard_name :: string
  blackboard_id :: int
  blackboard_status :: BLACKBOARD_STATUS_TYPE
  bb_waiting_processes :: "pref list"

record SEMAPHORE_STATUS_TYPE =
  CURRENT_VALUE :: int
  MAXIMUM_VALUE :: int
  SEM_WAITING_PROCESSES :: int

record semaphore_s =
  semaphore_name :: string
  semaphore_id :: int
  sem_queuing_discipline :: QUEUING_DISCIPLINE_TYPE
  semaphore_status :: SEMAPHORE_STATUS_TYPE
  sem_waiting_processes :: "pref list"

record EVENT_STATUS_TYPE =
  EVENT_STATE :: EVENT_STATE_TYPE
  EV_WAITING_PROCESSES :: int

record event_s =
  event_name :: string
  event_id :: int
  event_status :: EVENT_STATUS_TYPE
  ev_waiting_processes :: "pref list"

record MUTEX_STATUS_TYPE =
  MUTEX_OWNER :: int
  MUTEX_STATE :: MUTEX_STATE_TYPE
  MUTEX_PRIORITY :: int
  LOCK_COUNT :: int
  MX_WAITING_PROCESSES :: int

record mutex_s =
  mutex_name :: string
  mutex_id :: int
  mx_queuing_discipline :: QUEUING_DISCIPLINE_TYPE
  mutex_status :: MUTEX_STATUS_TYPE
  saved_owner_priority :: int
  mx_waiting_processes :: "pref list"

section \<open>Ports and channels\<close>

record SAMPLING_PORT_STATUS_TYPE =
  REFRESH_PERIOD :: int
  SP_MAX_MESSAGE_SIZE :: int
  SP_PORT_DIRECTION :: PORT_DIRECTION_TYPE
  LAST_MSG_VALIDITY :: VALIDITY_TYPE

record sampling_port_s =
  sampling_port_name :: string
  sampling_port_id :: int
  sp_partition_id :: int
  sampling_port_status :: SAMPLING_PORT_STATUS_TYPE
  sp_channel :: "nat option"

record QUEUING_PORT_STATUS_TYPE =
  QP_NB_MESSAGE :: int
  QP_MAX_NB_MESSAGE :: int
  QP_MAX_MESSAGE_SIZE :: int
  QP_PORT_DIRECTION :: PORT_DIRECTION_TYPE
  QP_WAITING_PROCESSES :: int

record queuing_port_s =
  queuing_port_name :: string
  queuing_port_id :: int
  qp_partition_id :: int
  queuing_port_status :: QUEUING_PORT_STATUS_TYPE
  qp_channel :: "nat option"
  QUEUING_DISCIPLINE :: QUEUING_DISCIPLINE_TYPE
  qp_waiting_processes :: "pref list"

record krnl_sampling_channel =
  sc_buffer :: "byte list"
  sc_max_message_size :: int
  sc_current_message_size :: int
  last_update_time :: int

record krnl_queuing_channel_s =
  buffer_data :: "byte list"
  buffer_sizes :: "u32 list"
  qc_max_message_size :: u32
  max_nb_messages :: u32
  current_nb_messages :: u32
  read_index :: u32
  write_index :: u32
  source_partition_id :: int
  dest_partition_id :: int

record port_mapping_s =
  pm_partition_id :: int
  port_name :: string
  port_direction :: PORT_DIRECTION_TYPE
  messageSizeBytes :: int
  max_nb_message :: int
  pm_QUEUING_DISCIPLINE :: QUEUING_DISCIPLINE_TYPE
  refreshPeriodMs :: int
  sampling_channel :: "nat option"
  queuing_channel :: "nat option"

section \<open>Health monitor and partition control block\<close>

record error_list_s =
  el_read_index :: u32
  el_write_index :: u32
  nb_errors :: int
  max_errors :: int
  process_error_list :: "ERROR_STATUS_TYPE list"
  error_processes_waiting_queue :: "pref list"

record hm_cb_s =
  log_buffer :: "byte list option"
  hm_write_index :: int
  hm_read_index :: int
  nb_log_entries :: int
  max_log_entries :: int
  max_log_entry_size :: int

record PARTITION_STATUS_TYPE =
  PS_PERIOD :: int
  DURATION :: int
  IDENTIFIER :: int
  LOCK_LEVEL :: int
  OPERATING_MODE :: OPERATING_MODE_TYPE
  START_CONDITION :: START_CONDITION_TYPE
  NUM_ASSIGNED_CORES :: int

record MEMORY_REGION_TYPE =
  region_name :: string
  mr_base :: nat
  mr_size :: nat
  mr_access :: string

text \<open>
  A partition. Of its \<open>tcb\<close> the identifier and the saved context are kept; the fields the
  native task scheduler uses are left out, and so are \<open>communication_queuing_ports\<close> and
  \<open>semaphores_counter\<close>, which are set and never read. \<open>proc_heap\<close> holds the processes
  allocated with \<open>malloc\<close>, \<open>mem\<close> the memory of the application.
\<close>

record pcb_s =
  pcb_tcb_id :: int
  pcb_context :: jmp_buf
  status :: PARTITION_STATUS_TYPE
  pcb_name :: string
  code_memory :: MEMORY_REGION_TYPE
  data_memory :: MEMORY_REGION_TYPE
  next_stack_addr :: nat
  sampling_ports :: "sampling_port_s list"
  max_sampling_ports :: int
  sampling_port_count :: int
  max_sampling_port_data_size :: int
  queuing_ports :: "queuing_port_s list"
  max_queuing_ports :: int
  queuing_port_count :: int
  max_queuing_port_data_size :: int
  blackboards :: "blackboard_s list"
  max_blackboards :: int
  blackboard_count :: int
  max_blackboard_data_size :: int
  blackboards_data :: "byte list"
  blackboards_size_data :: "u32 list"
  buffers :: "buffer_s list"
  max_buffers :: int
  buffer_count :: int
  max_buffer_data_size :: int
  buffers_data :: "byte list"
  buffers_size_data :: "u32 list"
  semaphores :: "semaphore_s list"
  max_semaphores :: int
  semaphore_count :: int
  events :: "event_s list"
  max_events :: int
  event_count :: int
  mutexes :: "mutex_s list"
  max_mutexes :: int
  mutex_count :: int
  error_handler_process :: "pref option"
  error_list_cb :: error_list_s
  partition_hm_table :: "ERROR_ACTION_TYPE list list"
  entry_point :: addr
  is_system_partition :: bool
  nbr_processes :: int
  id_next :: int
  processes :: "pref list"
  process_current :: "pref option"
  last_tick :: u32
  proc_heap :: "pref \<Rightarrow> process_s option"
  mem :: "addr \<Rightarrow> byte"

section \<open>Outcomes of a service\<close>

text \<open>
  A service returns to its caller with a return code and its other out parameters
  (\<open>Ret\<close>), is suspended with its context saved (\<open>Yield\<close>), abandons its caller with a
  \<open>longjmp\<close> to the partition scheduler (\<open>Jump\<close>), or does something C leaves undefined
  (\<open>Fault\<close>).
\<close>

datatype fault = NullDeref | UseAfterFree | OutOfBounds | DivByZero | NoReturnValue | Panic int

datatype apex_out =
    NoOut
  | OutId int
  | OutLen int
  | OutLenValidity int VALIDITY_TYPE
  | OutLockLevel int
  | OutTime int
  | OutPartitionStatus PARTITION_STATUS_TYPE
  | OutProcessStatus PROCESS_STATUS_TYPE
  | OutSamplingStatus SAMPLING_PORT_STATUS_TYPE
  | OutQueuingStatus QUEUING_PORT_STATUS_TYPE
  | OutBlackboardStatus BLACKBOARD_STATUS_TYPE
  | OutBufferStatus BUFFER_STATUS_TYPE
  | OutSemaphoreStatus SEMAPHORE_STATUS_TYPE
  | OutEventStatus EVENT_STATUS_TYPE
  | OutMutexStatus MUTEX_STATUS_TYPE
  | OutErrorStatus ERROR_STATUS_TYPE

datatype outcome = Ret RETURN_CODE_TYPE apex_out | Yield | Jump | Fault fault

type_synonym service = "pcb_s \<Rightarrow> pcb_s \<times> outcome"

abbreviation is_fault :: "outcome \<Rightarrow> bool" where
  "is_fault r \<equiv> \<exists>f. r = Fault f"

section \<open>Time\<close>

text \<open>
  \<open>ucx_uptime()\<close> is a \<open>uint64_t\<close> number of milliseconds; a service adds a delay to it
  modulo \<open>2 ^ 64\<close> and tests the result with \<open>time_overflow\<close>.
\<close>

definition MAX_SYSTEM_TIME :: u64 where
  "MAX_SYSTEM_TIME = 0x7fffffffffffffff"

definition time_overflow :: "u64 \<Rightarrow> bool" where
  "time_overflow t \<longleftrightarrow> t > MAX_SYSTEM_TIME"

definition u64_of :: "int \<Rightarrow> u64" where
  "u64_of t = word_of_int t"

definition i64_of :: "u64 \<Rightarrow> int" where
  "i64_of t = sint t"

text \<open>The test every blocking service makes on its timeout, delay or budget.\<close>

definition bad_delay :: "u64 \<Rightarrow> int \<Rightarrow> bool" where
  "bad_delay up t \<longleftrightarrow> t < INFINITE_TIME_VALUE \<or> (0 \<le> t \<and> time_overflow (up + u64_of t))"

text \<open>\<open>update_process_deadline\<close> of \<open>arinc_process.h\<close>.\<close>

definition update_process_deadline :: "int \<Rightarrow> process_s \<Rightarrow> process_s" where
  "update_process_deadline base_time p =
     (if TIME_CAPACITY (attrs p) = INFINITE_TIME_VALUE then set_deadline INFINITE_TIME_VALUE p
      else set_deadline (base_time + TIME_CAPACITY (attrs p)) p)"

text \<open>
  The guard is exact: an accepted finite delay, added to an uptime that is itself in
  range, gives the same point in time in \<open>uint64_t\<close> and in \<open>SYSTEM_TIME_TYPE\<close>
  arithmetic, and it is in range.
\<close>

lemma i64_of_nonneg: "\<not> time_overflow t \<Longrightarrow> i64_of t = uint t"
proof -
  assume "\<not> time_overflow t"
  then have "uint t < 2 ^ 63"
    by (simp add: time_overflow_def MAX_SYSTEM_TIME_def word_less_def)
  moreover have "- (2 ^ 63) \<le> uint t" by (rule order_trans [OF _ uint_ge_0]) simp
  ultimately show ?thesis
    unfolding i64_of_def by (simp add: sint_uint signed_take_bit_int_eq_self)
qed

lemma accepted_delay_in_range:
  assumes "\<not> bad_delay up t" and "0 \<le> t" and "t < 2 ^ 63" and "\<not> time_overflow up"
  shows "i64_of (up + u64_of t) = i64_of up + t" and "i64_of up + t < 2 ^ 63"
proof -
  have up: "uint up < 2 ^ 63"
    using assms(4) by (simp add: time_overflow_def MAX_SYSTEM_TIME_def word_less_def)
  have t: "uint (u64_of t) = t"
    using assms(2,3) by (simp add: u64_of_def uint_word_of_int_eq take_bit_int_eq_self)
  have ok: "\<not> time_overflow (up + u64_of t)"
    using assms(1,2) by (simp add: bad_delay_def)
  have "uint up + uint (u64_of t) < 2 ^ 64" using up t assms(3) by simp
  then have sum: "uint (up + u64_of t) = uint up + t"
    using t assms(2) by (simp add: uint_word_ariths)
  with ok assms(4) show "i64_of (up + u64_of t) = i64_of up + t"
    by (simp add: i64_of_nonneg)
  have "uint (up + u64_of t) < 2 ^ 63"
    using ok by (simp add: time_overflow_def MAX_SYSTEM_TIME_def word_less_def)
  with sum assms(4) show "i64_of up + t < 2 ^ 63" by (simp add: i64_of_nonneg)
qed

end
