(* ===== verification/Partition_Core.thy ===== *)
theory Partition_Core
  imports Apex_Types
begin

text \<open>
  The process table of a partition: lookups (\<open>find_processes_by_id\<close>,
  \<open>find_process_node_by_name\<close>), the membership tests and removal from waiting queues
  (\<open>arinc/arinc_process.c\<close>), \<open>yield_to_partition\<close> (\<open>include/kernel/process.h\<close>),
  \<open>ucx_process_spawn\<close> and the process scheduler \<open>process_schedule\<close>
  (\<open>kernel/process.c\<close>), and the invariants every service keeps:
  \<^item> \<open>wf_procs\<close>: the references in the process list, the current process and the error
    handler are live, and the list has no duplicates;
  \<^item> \<open>one_running\<close>: a process in state \<open>RUNNING\<close> is the current process.
\<close>

section \<open>Access to processes\<close>

definition upd_proc :: "pref \<Rightarrow> (process_s \<Rightarrow> process_s) \<Rightarrow> pcb_s \<Rightarrow> pcb_s" where
  "upd_proc r f s = s\<lparr>proc_heap := (proc_heap s)(r := map_option f (proc_heap s r))\<rparr>"

text \<open>Dereference of a process pointer, and of \<open>partition->process_current->data\<close>.\<close>

definition with_proc :: "pref \<Rightarrow> (process_s \<Rightarrow> pcb_s \<times> outcome) \<Rightarrow> service" where
  "with_proc r k s = (case proc_heap s r of None \<Rightarrow> (s, Fault UseAfterFree) | Some p \<Rightarrow> k p)"

definition with_current :: "(pref \<Rightarrow> process_s \<Rightarrow> pcb_s \<times> outcome) \<Rightarrow> service" where
  "with_current k s = (case process_current s of None \<Rightarrow> (s, Fault NullDeref)
     | Some r \<Rightarrow> with_proc r (k r) s)"

definition prio_of :: "pcb_s \<Rightarrow> pref \<Rightarrow> int" where
  "prio_of s r = (case proc_heap s r of None \<Rightarrow> 0 | Some p \<Rightarrow> cprio p)"

lemma proc_heap_upd_proc [simp]:
  "proc_heap (upd_proc r f s) = (proc_heap s)(r := map_option f (proc_heap s r))"
  by (simp add: upd_proc_def)

lemma upd_proc_frame [simp]:
  "processes (upd_proc r f s) = processes s" "process_current (upd_proc r f s) = process_current s"
  "error_handler_process (upd_proc r f s) = error_handler_process s" "status (upd_proc r f s) = status s"
  "semaphores (upd_proc r f s) = semaphores s" "events (upd_proc r f s) = events s"
  "mutexes (upd_proc r f s) = mutexes s" "buffers (upd_proc r f s) = buffers s"
  "blackboards (upd_proc r f s) = blackboards s" "queuing_ports (upd_proc r f s) = queuing_ports s"
  "sampling_ports (upd_proc r f s) = sampling_ports s" "mem (upd_proc r f s) = mem s"
  "semaphore_count (upd_proc r f s) = semaphore_count s" "event_count (upd_proc r f s) = event_count s"
  "mutex_count (upd_proc r f s) = mutex_count s" "buffer_count (upd_proc r f s) = buffer_count s"
  "blackboard_count (upd_proc r f s) = blackboard_count s"
  "queuing_port_count (upd_proc r f s) = queuing_port_count s"
  "sampling_port_count (upd_proc r f s) = sampling_port_count s"
  "blackboards_data (upd_proc r f s) = blackboards_data s"
  "blackboards_size_data (upd_proc r f s) = blackboards_size_data s"
  "buffers_data (upd_proc r f s) = buffers_data s" "buffers_size_data (upd_proc r f s) = buffers_size_data s"
  "max_buffer_data_size (upd_proc r f s) = max_buffer_data_size s"
  "max_blackboard_data_size (upd_proc r f s) = max_blackboard_data_size s"
  "error_list_cb (upd_proc r f s) = error_list_cb s" "last_tick (upd_proc r f s) = last_tick s"
  "nbr_processes (upd_proc r f s) = nbr_processes s" "id_next (upd_proc r f s) = id_next s"
  "next_stack_addr (upd_proc r f s) = next_stack_addr s" "data_memory (upd_proc r f s) = data_memory s"
  by (simp_all add: upd_proc_def)

lemma with_current_cases:
  obtains (null) "process_current s = None" "\<forall>k. with_current k s = (s, Fault NullDeref)"
  | (freed) r where "process_current s = Some r" "proc_heap s r = None" "\<forall>k. with_current k s = (s, Fault UseAfterFree)"
  | (ok) r p where "process_current s = Some r" "proc_heap s r = Some p" "\<forall>k. with_current k s = k r p"
  by (cases "process_current s"; cases "proc_heap s (the (process_current s))")
    (auto simp: with_current_def with_proc_def)

section \<open>Lookups\<close>

text \<open>
  \<open>list_foreach(partition->processes, find_..., arg)\<close> returns the first node whose
  process satisfies the test.
\<close>

definition list_find :: "(process_s \<Rightarrow> bool) \<Rightarrow> pcb_s \<Rightarrow> pref list \<Rightarrow> pref option" where
  "list_find P s rs = find (\<lambda>r. case proc_heap s r of None \<Rightarrow> False | Some p \<Rightarrow> P p) rs"

definition find_process_node_by_name :: "pcb_s \<Rightarrow> string \<Rightarrow> pref option" where
  "find_process_node_by_name s name = list_find (\<lambda>p. NAME (attrs p) = name) s (processes s)"

definition is_process_id_existed :: "pcb_s \<Rightarrow> int \<Rightarrow> pref option" where
  "is_process_id_existed s i = list_find (\<lambda>p. i = process_id p) s (processes s)"

lemma list_find_Some:
  "list_find P s rs = Some r \<Longrightarrow> r \<in> set rs \<and> (\<exists>p. proc_heap s r = Some p \<and> P p)"
  by (auto simp: list_find_def find_Some_iff in_set_conv_nth split: option.splits)

lemma list_find_None:
  "list_find P s rs = None \<longleftrightarrow> (\<forall>r \<in> set rs. \<forall>p. proc_heap s r = Some p \<longrightarrow> \<not> P p)"
  by (auto simp: list_find_def find_None_iff split: option.splits)

lemma is_process_id_existed_Some:
  "is_process_id_existed s i = Some r \<Longrightarrow>
   r \<in> set (processes s) \<and> (\<exists>p. proc_heap s r = Some p \<and> process_id p = i)"
  by (auto simp: is_process_id_existed_def dest!: list_find_Some)

section \<open>Waiting queues\<close>

definition is_process_waiting_in_waiting_queue :: "process_s \<Rightarrow> bool" where
  "is_process_waiting_in_waiting_queue p \<longleftrightarrow>
     waiting_queuing_port p \<noteq> None \<or> waiting_blackboard p \<noteq> None \<or> waiting_buffer p \<noteq> None \<or>
     waiting_mutex p \<noteq> None \<or> waiting_semaphore p \<noteq> None \<or> waiting_event p \<noteq> None"

definition is_process_waiting_in_mutex_queue :: "process_s \<Rightarrow> bool" where
  "is_process_waiting_in_mutex_queue p \<longleftrightarrow> waiting_mutex p \<noteq> None"

text \<open>
  Each block of \<open>remove_process_from_waiting_queue\<close>: look the process up in the queue of
  the resource it points to, remove its node and decrement the counter of the status when
  it is there, and clear the pointer. A wild pointer is \<open>None\<close>.
\<close>

definition leave_queuing_port :: "pref \<Rightarrow> nat \<Rightarrow> pcb_s \<Rightarrow> pcb_s option" where
  "leave_queuing_port r i s =
     (if i < length (queuing_ports s) then
        let q = queuing_ports s ! i in
        Some (if r \<in> set (qp_waiting_processes q) then
          s\<lparr>queuing_ports := (queuing_ports s)[i := q\<lparr>
              qp_waiting_processes := remove1 r (qp_waiting_processes q),
              queuing_port_status := (queuing_port_status q)\<lparr>
                QP_WAITING_PROCESSES := QP_WAITING_PROCESSES (queuing_port_status q) - 1\<rparr>\<rparr>]\<rparr>
        else s)
      else None)"

definition leave_blackboard :: "pref \<Rightarrow> nat \<Rightarrow> pcb_s \<Rightarrow> pcb_s option" where
  "leave_blackboard r i s =
     (if i < length (blackboards s) then
        let b = blackboards s ! i in
        Some (if r \<in> set (bb_waiting_processes b) then
          s\<lparr>blackboards := (blackboards s)[i := b\<lparr>
              bb_waiting_processes := remove1 r (bb_waiting_processes b),
              blackboard_status := (blackboard_status b)\<lparr>
                BB_WAITING_PROCESSES := BB_WAITING_PROCESSES (blackboard_status b) - 1\<rparr>\<rparr>]\<rparr>
        else s)
      else None)"

definition leave_buffer_readers :: "pref \<Rightarrow> buffer_s \<Rightarrow> buffer_s" where
  "leave_buffer_readers r b =
     (if r \<in> set (waiting_readers b) then
        b\<lparr>waiting_readers := remove1 r (waiting_readers b),
          buffer_status := (buffer_status b)\<lparr>
            BF_WAITING_PROCESSES := BF_WAITING_PROCESSES (buffer_status b) - 1\<rparr>\<rparr>
      else b)"

definition leave_buffer_writers :: "pref \<Rightarrow> buffer_s \<Rightarrow> buffer_s" where
  "leave_buffer_writers r b =
     (if r \<in> set (waiting_writers b) then
        b\<lparr>waiting_writers := remove1 r (waiting_writers b),
          buffer_status := (buffer_status b)\<lparr>
            BF_WAITING_PROCESSES := BF_WAITING_PROCESSES (buffer_status b) - 1\<rparr>\<rparr>
      else b)"

definition leave_buffer :: "pref \<Rightarrow> nat \<Rightarrow> pcb_s \<Rightarrow> pcb_s option" where
  "leave_buffer r i s =
     (if i < length (buffers s) then
        Some (s\<lparr>buffers := (buffers s)[i :=
          leave_buffer_writers r (leave_buffer_readers r (buffers s ! i))]\<rparr>)
      else None)"

definition leave_semaphore :: "pref \<Rightarrow> nat \<Rightarrow> pcb_s \<Rightarrow> pcb_s option" where
  "leave_semaphore r i s =
     (if i < length (semaphores s) then
        let q = semaphores s ! i in
        Some (if r \<in> set (sem_waiting_processes q) then
          s\<lparr>semaphores := (semaphores s)[i := q\<lparr>
              sem_waiting_processes := remove1 r (sem_waiting_processes q),
              semaphore_status := (semaphore_status q)\<lparr>
                SEM_WAITING_PROCESSES := SEM_WAITING_PROCESSES (semaphore_status q) - 1\<rparr>\<rparr>]\<rparr>
        else s)
      else None)"

definition leave_event :: "pref \<Rightarrow> nat \<Rightarrow> pcb_s \<Rightarrow> pcb_s option" where
  "leave_event r i s =
     (if i < length (events s) then
        let q = events s ! i in
        Some (if r \<in> set (ev_waiting_processes q) then
          s\<lparr>events := (events s)[i := q\<lparr>
              ev_waiting_processes := remove1 r (ev_waiting_processes q),
              event_status := (event_status q)\<lparr>
                EV_WAITING_PROCESSES := EV_WAITING_PROCESSES (event_status q) - 1\<rparr>\<rparr>]\<rparr>
        else s)
      else None)"

definition leave_mutex :: "pref \<Rightarrow> nat \<Rightarrow> pcb_s \<Rightarrow> pcb_s option" where
  "leave_mutex r i s =
     (if i < length (mutexes s) then
        let q = mutexes s ! i in
        Some (if r \<in> set (mx_waiting_processes q) then
          s\<lparr>mutexes := (mutexes s)[i := q\<lparr>
              mx_waiting_processes := remove1 r (mx_waiting_processes q),
              mutex_status := (mutex_status q)\<lparr>
                MX_WAITING_PROCESSES := MX_WAITING_PROCESSES (mutex_status q) - 1\<rparr>\<rparr>]\<rparr>
        else s)
      else None)"

text \<open>\<open>if (process->waiting_x) { ...; process->waiting_x = NULL; }\<close>\<close>

definition leave_via :: "(process_s \<Rightarrow> nat option) \<Rightarrow> (pref \<Rightarrow> nat \<Rightarrow> pcb_s \<Rightarrow> pcb_s option) \<Rightarrow>
    (process_s \<Rightarrow> process_s) \<Rightarrow> pref \<Rightarrow> pcb_s \<Rightarrow> pcb_s option" where
  "leave_via fld leave clear r s =
     (case proc_heap s r of None \<Rightarrow> None
      | Some p \<Rightarrow> (case fld p of None \<Rightarrow> Some s
                   | Some i \<Rightarrow> map_option (upd_proc r clear) (leave r i s)))"

definition remove_process_from_waiting_queue :: "pref \<Rightarrow> pcb_s \<Rightarrow> pcb_s option" where
  "remove_process_from_waiting_queue r s =
     Option.bind (leave_via waiting_queuing_port leave_queuing_port
                    (\<lambda>p. p\<lparr>waiting_queuing_port := None\<rparr>) r s) (\<lambda>s.
     Option.bind (leave_via waiting_blackboard leave_blackboard
                    (\<lambda>p. p\<lparr>waiting_blackboard := None\<rparr>) r s) (\<lambda>s.
     Option.bind (leave_via waiting_buffer leave_buffer
                    (\<lambda>p. p\<lparr>waiting_buffer := None\<rparr>) r s) (\<lambda>s.
     Option.bind (leave_via waiting_semaphore leave_semaphore
                    (\<lambda>p. p\<lparr>waiting_semaphore := None\<rparr>) r s) (\<lambda>s.
     Option.bind (leave_via waiting_event leave_event
                    (\<lambda>p. p\<lparr>waiting_event := None\<rparr>) r s) (\<lambda>s.
     leave_via waiting_mutex leave_mutex (\<lambda>p. p\<lparr>waiting_mutex := None\<rparr>) r s)))))"

text \<open>
  Entering a queue: \<open>list_insert_sorted\<close> for the discipline \<open>PRIORITY\<close>, \<open>list_pushback\<close>
  otherwise.
\<close>

definition enqueue_waiter :: "QUEUING_DISCIPLINE_TYPE \<Rightarrow> pcb_s \<Rightarrow> pref \<Rightarrow> pref list \<Rightarrow> pref list" where
  "enqueue_waiter d s r q = (if d = PRIORITY then insert_desc (prio_of s) r q else q @ [r])"

text \<open>
  \<open>list_remove\<close> followed by \<open>list_push\<close>, or by \<open>list_pushback\<close>, on the process list: the
  process goes to the head, or to the end, of the list.
\<close>

definition move_to_front :: "pref \<Rightarrow> pcb_s \<Rightarrow> pcb_s" where
  "move_to_front r s = s\<lparr>processes := r # remove1 r (processes s)\<rparr>"

definition move_to_back :: "pref \<Rightarrow> pcb_s \<Rightarrow> pcb_s" where
  "move_to_back r s = s\<lparr>processes := remove1 r (processes s) @ [r]\<rparr>"

lemma set_enqueue_waiter [simp]: "set (enqueue_waiter d s r q) = insert r (set q)"
  by (simp add: enqueue_waiter_def)

lemma length_enqueue_waiter [simp]: "length (enqueue_waiter d s r q) = Suc (length q)"
  by (simp add: enqueue_waiter_def)

lemma distinct_enqueue_waiter [simp]: "distinct (enqueue_waiter d s r q) \<longleftrightarrow> r \<notin> set q \<and> distinct q"
  by (auto simp: enqueue_waiter_def)

lemma move_frame [simp]:
  "proc_heap (move_to_front r s) = proc_heap s" "proc_heap (move_to_back r s) = proc_heap s"
  "process_current (move_to_front r s) = process_current s" "process_current (move_to_back r s) = process_current s"
  "error_handler_process (move_to_front r s) = error_handler_process s"
  "error_handler_process (move_to_back r s) = error_handler_process s"
  "mutexes (move_to_front r s) = mutexes s" "mutexes (move_to_back r s) = mutexes s"
  "mutex_count (move_to_front r s) = mutex_count s" "mutex_count (move_to_back r s) = mutex_count s"
  "status (move_to_front r s) = status s" "status (move_to_back r s) = status s"
  "processes (move_to_front r s) = r # remove1 r (processes s)"
  "processes (move_to_back r s) = remove1 r (processes s) @ [r]"
  by (simp_all add: move_to_front_def move_to_back_def)

lemma upd_proc_move: "upd_proc q f (move_to_front r s) = move_to_front r (upd_proc q f s)"
  by (simp add: upd_proc_def move_to_front_def)

text \<open>\<open>if (time_counter != 0) time_counter = INFINITE_TIME_VALUE\<close>: the timeout of a woken process is off.\<close>

definition stop_timeout :: "process_s \<Rightarrow> process_s" where
  "stop_timeout p = (if time_counter p \<noteq> 0 then p\<lparr>time_counter := INFINITE_TIME_VALUE\<rparr> else p)"

lemma stop_timeout_frame [simp]:
  "process_id (stop_timeout p) = process_id p" "processus_status (stop_timeout p) = processus_status p"
  "owned_mutex_id (stop_timeout p) = owned_mutex_id p"
  by (auto simp: stop_timeout_def)

section \<open>Context switches\<close>

text \<open>
  \<open>if (setjmp(current_process->tcb.context) == 0) longjmp(partition->partition_context, 1)\<close>:
  the context of the process records where it continues, and control goes to the
  partition scheduler.
\<close>

definition yield_to_partition :: "resume_point \<Rightarrow> pref \<Rightarrow> service" where
  "yield_to_partition k r s = (upd_proc r (set_context (Ctx_Resume k)) s, Yield)"

text \<open>\<open>_context_init(&process->tcb.context, stack, stack_sz, task)\<close>\<close>

definition context_init :: "process_s \<Rightarrow> process_s" where
  "context_init p = set_context (Ctx_Entry (stack (tcb p) + stack_sz (tcb p)) (task (tcb p))) p"

text \<open>
  \<open>ucx_process_spawn\<close>: the stack size parameter is a \<open>uint16_t\<close>; the error handler gets no
  identifier (the \<open>id\<close> of the fresh control block is what \<open>malloc\<close> left there). \<open>garbage\<close>
  is the content of the fresh block.
\<close>

definition align16 :: "nat \<Rightarrow> nat" where
  "align16 a = 16 * ((a + 15) div 16)"

definition ucx_process_spawn :: "tcb_s \<Rightarrow> addr \<Rightarrow> nat \<Rightarrow> bool \<Rightarrow> pcb_s \<Rightarrow> tcb_s \<times> pcb_s" where
  "ucx_process_spawn garbage tsk sz is_error_handler s =
     (let stack_size = sz mod 2 ^ 16;
          id' = (if is_error_handler then id_next s else id_next s + 1);
          t = garbage\<lparr>task := tsk, rt_prio := 0, stack_sz := stack_size,
                      stack := next_stack_addr s\<rparr>;
          t' = (if is_error_handler then t else t\<lparr>tcb_id := id' mod 2 ^ 16\<rparr>)
      in (t', s\<lparr>id_next := id', next_stack_addr := align16 (next_stack_addr s + stack_size)\<rparr>))"

section \<open>The process scheduler\<close>

text \<open>The selection loop of \<open>process_schedule\<close>: highest priority so far, and who has it.\<close>

fun select_loop :: "(pref \<Rightarrow> process_s option) \<Rightarrow> pref list \<Rightarrow> int \<times> pref option \<Rightarrow> int \<times> pref option" where
  "select_loop h [] acc = acc"
| "select_loop h (r # rs) (highest, sel) =
     select_loop h rs
       (case h r of
          None \<Rightarrow> (highest, sel)
        | Some p \<Rightarrow> if pstate p = READY \<and> rt_prio (tcb p) = 0 \<and> cprio p > highest
                    then (cprio p, Some r) else (highest, sel))"

definition demote_current :: "pcb_s \<Rightarrow> pcb_s" where
  "demote_current s =
     (case process_current s of None \<Rightarrow> s
      | Some r \<Rightarrow> (case proc_heap s r of None \<Rightarrow> s
                   | Some p \<Rightarrow> if pstate p = RUNNING then upd_proc r (set_state READY) s else s))"

definition error_handler_ready :: "pcb_s \<Rightarrow> pref option" where
  "error_handler_ready s =
     (case error_handler_process s of None \<Rightarrow> None
      | Some e \<Rightarrow> (case proc_heap s e of None \<Rightarrow> None
                   | Some p \<Rightarrow> if pstate p = READY then Some e else None))"

definition process_schedule :: "pcb_s \<Rightarrow> int \<times> pcb_s" where
  "process_schedule s0 =
     (let s = demote_current s0 in
      case error_handler_ready s of
        Some e \<Rightarrow>
          ((case proc_heap s e of None \<Rightarrow> 0 | Some p \<Rightarrow> tcb_id (tcb p)),
           upd_proc e (set_state RUNNING)
             (s\<lparr>process_current := (if e \<in> set (processes s) then Some e else None)\<rparr>))
      | None \<Rightarrow>
          (case snd (select_loop (proc_heap s) (processes s) (-1, None)) of
             None \<Rightarrow> (0, s\<lparr>process_current := None\<rparr>)
           | Some r \<Rightarrow>
               ((case proc_heap s r of None \<Rightarrow> 0 | Some p \<Rightarrow> tcb_id (tcb p)),
                upd_proc r (set_state RUNNING) (s\<lparr>process_current := Some r\<rparr>))))"

text \<open>A process the selection loop may pick.\<close>

definition eligible :: "pcb_s \<Rightarrow> pref \<Rightarrow> bool" where
  "eligible s r \<longleftrightarrow> r \<in> set (processes s) \<and>
     (\<exists>p. proc_heap s r = Some p \<and> pstate p = READY \<and> rt_prio (tcb p) = 0)"


section \<open>Invariants of the process table\<close>

definition wf_procs :: "pcb_s \<Rightarrow> bool" where
  "wf_procs s \<longleftrightarrow> distinct (processes s) \<and> (\<forall>r \<in> set (processes s). proc_heap s r \<noteq> None) \<and>
     (\<forall>r. process_current s = Some r \<longrightarrow> r \<in> set (processes s)) \<and>
     (\<forall>e. error_handler_process s = Some e \<longrightarrow> e \<in> set (processes s))"

definition one_running :: "pcb_s \<Rightarrow> bool" where
  "one_running s \<longleftrightarrow> (\<forall>r \<in> set (processes s). \<forall>p. proc_heap s r = Some p \<longrightarrow> pstate p = RUNNING \<longrightarrow>
     process_current s = Some r)"

lemma wf_procs_live: "wf_procs s \<Longrightarrow> r \<in> set (processes s) \<Longrightarrow> \<exists>p. proc_heap s r = Some p"
  by (auto simp: wf_procs_def)

lemma wf_procs_current: "wf_procs s \<Longrightarrow> process_current s = Some r \<Longrightarrow>
    r \<in> set (processes s) \<and> (\<exists>p. proc_heap s r = Some p)"
  by (auto simp: wf_procs_def)

lemma wf_procs_upd_proc [simp]: "wf_procs (upd_proc r f s) \<longleftrightarrow> wf_procs s"
  by (auto simp: wf_procs_def)

lemma set_processes_move:
  "wf_procs s \<Longrightarrow> r \<in> set (processes s) \<Longrightarrow> set (processes (move_to_front r s)) = set (processes s)"
  "wf_procs s \<Longrightarrow> r \<in> set (processes s) \<Longrightarrow> set (processes (move_to_back r s)) = set (processes s)"
  by (simp_all add: wf_procs_def insert_absorb)

lemma wf_procs_move:
  assumes "wf_procs s" and "r \<in> set (processes s)"
  shows "wf_procs (move_to_front r s)" and "wf_procs (move_to_back r s)"
  using assms set_processes_move [OF assms] by (simp_all add: wf_procs_def)

lemma one_running_unique:
  "one_running s \<Longrightarrow> r \<in> set (processes s) \<Longrightarrow> r' \<in> set (processes s) \<Longrightarrow>
   proc_heap s r = Some p \<Longrightarrow> proc_heap s r' = Some p' \<Longrightarrow>
   pstate p = RUNNING \<Longrightarrow> pstate p' = RUNNING \<Longrightarrow> r = r'"
  unfolding one_running_def by (metis option.inject)

lemma one_running_move:
  assumes "wf_procs s" and "r \<in> set (processes s)"
  shows "one_running (move_to_front r s) = one_running s" and "one_running (move_to_back r s) = one_running s"
  using set_processes_move [OF assms] unfolding one_running_def by (simp_all del: move_frame(13,14))

text \<open>An update that does not make a process \<open>RUNNING\<close> keeps the invariant.\<close>

lemma one_running_upd_proc:
  "one_running s \<Longrightarrow> (\<And>p. proc_heap s r = Some p \<Longrightarrow> pstate (f p) = RUNNING \<Longrightarrow> pstate p = RUNNING) \<Longrightarrow>
   one_running (upd_proc r f s)"
  by (auto simp: one_running_def)

text \<open>
  Both invariants read only four fields of the control block; two blocks that agree on
  them satisfy the same invariants.
\<close>

definition same_procs :: "pcb_s \<Rightarrow> pcb_s \<Rightarrow> bool" where
  "same_procs s t \<longleftrightarrow> processes t = processes s \<and> process_current t = process_current s \<and>
     error_handler_process t = error_handler_process s \<and> proc_heap t = proc_heap s"

lemma same_procs_wf: "same_procs s t \<Longrightarrow> wf_procs t \<longleftrightarrow> wf_procs s"
  by (auto simp: same_procs_def wf_procs_def)

lemma same_procs_running: "same_procs s t \<Longrightarrow> one_running t \<longleftrightarrow> one_running s"
  by (auto simp: same_procs_def one_running_def)

lemma find_live [simp]: "(if r \<in> set rs then Some r else None) = Some x \<longleftrightarrow> r \<in> set rs \<and> x = r"
  by auto

section \<open>Concrete states\<close>

text \<open>
  The states at which the properties are evaluated: a partition in normal mode with no
  resource, and a process with the given identifier, state and priority.
\<close>

definition sample_error :: ERROR_STATUS_TYPE where
  "sample_error = \<lparr>FAILED_ADDRESS = 0, FAILED_PROCESS_ID = 0, ERROR_CODE = APPLICATION_ERROR,
     ERR_LENGTH = 0, MESSAGE = []\<rparr>"

definition sample_process :: "int \<Rightarrow> PROCESS_STATE_TYPE \<Rightarrow> int \<Rightarrow> process_s" where
  "sample_process i st prio = \<lparr>
     tcb = \<lparr>task = 4096, tcb_ctx = Ctx_Garbage, stack = 8192, stack_sz = 1024, rt_prio = 0, tcb_id = i\<rparr>,
     processus_status = \<lparr>DEADLINE_TIME = 0, CURRENT_PRIORITY = prio, PROCESS_STATE = st,
       ATTRIBUTES = \<lparr>PERIOD = INFINITE_TIME_VALUE, TIME_CAPACITY = INFINITE_TIME_VALUE,
         ENTRY_POINT = 4096, STACK_SIZE = 1024, BASE_PRIORITY = prio, DEADLINE = SOFT, NAME = ''P''\<rparr>\<rparr>,
     process_id = i, process_index = i, processor_core_affinity = 0, release_point_time = 0,
     is_suspended = False, time_counter = 0, saved_init_delay = 0,
     waiting_queuing_port = None, waiting_blackboard = None, waiting_buffer = None,
     waiting_message_addr = 0, waiting_message_size = 0, waiting_semaphore = None,
     waiting_event = None, waiting_mutex = None, owned_mutex_id = NO_MUTEX_OWNED,
     pending_error = sample_error\<rparr>"

definition sample_region :: MEMORY_REGION_TYPE where
  "sample_region = \<lparr>region_name = ''data'', mr_base = 8192, mr_size = 65536, mr_access = ''RW''\<rparr>"

definition sample_partition :: pcb_s where
  "sample_partition = \<lparr>pcb_tcb_id = 1, pcb_context = Ctx_Garbage,
     status = \<lparr>PS_PERIOD = 100, DURATION = 50, IDENTIFIER = 1, LOCK_LEVEL = 0,
       OPERATING_MODE = NORMAL, START_CONDITION = NORMAL_START, NUM_ASSIGNED_CORES = 1\<rparr>,
     pcb_name = ''A'', code_memory = sample_region, data_memory = sample_region,
     next_stack_addr = 8192, sampling_ports = [], max_sampling_ports = 0, sampling_port_count = 0,
     max_sampling_port_data_size = 0, queuing_ports = [], max_queuing_ports = 0,
     queuing_port_count = 0, max_queuing_port_data_size = 0, blackboards = [],
     max_blackboards = 0, blackboard_count = 0, max_blackboard_data_size = 0,
     blackboards_data = [], blackboards_size_data = [], buffers = [], max_buffers = 0,
     buffer_count = 0, max_buffer_data_size = 0, buffers_data = [], buffers_size_data = [],
     semaphores = [], max_semaphores = 0, semaphore_count = 0, events = [], max_events = 0,
     event_count = 0, mutexes = [], max_mutexes = 0, mutex_count = 0,
     error_handler_process = None,
     error_list_cb = \<lparr>el_read_index = 0, el_write_index = 0, nb_errors = 0, max_errors = 2,
       process_error_list = [sample_error, sample_error], error_processes_waiting_queue = []\<rparr>,
     partition_hm_table = [], entry_point = 4096, is_system_partition = False,
     nbr_processes = 0, id_next = 0, processes = [], process_current = None, last_tick = 0,
     proc_heap = Map.empty, mem = (\<lambda>_. 0)\<rparr>"

lemma sample_partition_sel [simp]:
  "pcb_tcb_id sample_partition = 1" "pcb_context sample_partition = Ctx_Garbage"
  "status sample_partition = \<lparr>PS_PERIOD = 100, DURATION = 50, IDENTIFIER = 1, LOCK_LEVEL = 0,
     OPERATING_MODE = NORMAL, START_CONDITION = NORMAL_START, NUM_ASSIGNED_CORES = 1\<rparr>"
  "pcb_name sample_partition = ''A''" "code_memory sample_partition = sample_region"
  "data_memory sample_partition = sample_region" "next_stack_addr sample_partition = 8192"
  "sampling_ports sample_partition = []" "max_sampling_ports sample_partition = 0"
  "sampling_port_count sample_partition = 0" "max_sampling_port_data_size sample_partition = 0"
  "queuing_ports sample_partition = []" "max_queuing_ports sample_partition = 0"
  "queuing_port_count sample_partition = 0" "max_queuing_port_data_size sample_partition = 0"
  "blackboards sample_partition = []" "max_blackboards sample_partition = 0"
  "blackboard_count sample_partition = 0" "max_blackboard_data_size sample_partition = 0"
  "blackboards_data sample_partition = []" "blackboards_size_data sample_partition = []"
  "buffers sample_partition = []" "max_buffers sample_partition = 0"
  "buffer_count sample_partition = 0" "max_buffer_data_size sample_partition = 0"
  "buffers_data sample_partition = []" "buffers_size_data sample_partition = []"
  "semaphores sample_partition = []" "max_semaphores sample_partition = 0"
  "semaphore_count sample_partition = 0" "events sample_partition = []"
  "max_events sample_partition = 0" "event_count sample_partition = 0"
  "mutexes sample_partition = []" "max_mutexes sample_partition = 0"
  "mutex_count sample_partition = 0" "error_handler_process sample_partition = None"
  "error_list_cb sample_partition = \<lparr>el_read_index = 0, el_write_index = 0, nb_errors = 0, max_errors = 2,
     process_error_list = [sample_error, sample_error], error_processes_waiting_queue = []\<rparr>"
  "partition_hm_table sample_partition = []" "entry_point sample_partition = 4096"
  "is_system_partition sample_partition = False" "nbr_processes sample_partition = 0"
  "id_next sample_partition = 0" "processes sample_partition = []"
  "process_current sample_partition = None" "last_tick sample_partition = 0"
  "proc_heap sample_partition = Map.empty" "mem sample_partition = (\<lambda>_. 0)"
  by (simp_all add: sample_partition_def)

text \<open>Process 1 runs at priority 10; processes 2 and 3 are ready at priority 20.\<close>

definition sample_three :: pcb_s where
  "sample_three = sample_partition\<lparr>processes := [1, 2, 3], process_current := Some 1,
     nbr_processes := 3, id_next := 3,
     proc_heap := [1 \<mapsto> sample_process 1 RUNNING 10, 2 \<mapsto> sample_process 2 READY 20,
                   3 \<mapsto> sample_process 3 READY 20]\<rparr>"

text \<open>What evaluates a scheduler on such states.\<close>

lemmas sample_eval = sample_process_def upd_proc_def demote_current_def Let_def

section \<open>Correctness of the scheduler\<close>

abbreviation ready_in :: "(pref \<Rightarrow> process_s option) \<Rightarrow> pref \<Rightarrow> process_s \<Rightarrow> bool" where
  "ready_in h r p \<equiv> h r = Some p \<and> pstate p = READY \<and> rt_prio (tcb p) = 0"

text \<open>
  The loop returns the first process of the highest priority above the initial bound, or
  its initial value when there is none.
\<close>

lemma select_loop_spec:
  "select_loop h rs (b, sel) = (b', sel') \<Longrightarrow>
   (b' = b \<and> sel' = sel \<and> (\<forall>r \<in> set rs. \<forall>p. ready_in h r p \<longrightarrow> cprio p \<le> b)) \<or>
   (\<exists>pre r post p. rs = pre @ r # post \<and> sel' = Some r \<and> ready_in h r p \<and> cprio p = b' \<and> b < b' \<and>
      (\<forall>q \<in> set pre. \<forall>pq. ready_in h q pq \<longrightarrow> cprio pq < b') \<and>
      (\<forall>q \<in> set post. \<forall>pq. ready_in h q pq \<longrightarrow> cprio pq \<le> b'))"
proof (induction rs arbitrary: b sel)
  case Nil
  then show ?case by simp
next
  case (Cons r rs)
  show ?case
  proof (cases "\<exists>p. ready_in h r p \<and> cprio p > b")
    case False
    then have eq: "select_loop h rs (b, sel) = (b', sel')"
      using Cons.prems by (auto split: option.splits if_splits)
    from Cons.IH [OF this] show ?thesis
    proof (elim disjE exE)
      assume "b' = b \<and> sel' = sel \<and> (\<forall>r \<in> set rs. \<forall>p. ready_in h r p \<longrightarrow> cprio p \<le> b)"
      with False show ?thesis by (intro disjI1) (auto simp: not_less)
    next
      fix pre x post p
      assume *: "rs = pre @ x # post \<and> sel' = Some x \<and> ready_in h x p \<and> cprio p = b' \<and> b < b' \<and>
        (\<forall>q \<in> set pre. \<forall>pq. ready_in h q pq \<longrightarrow> cprio pq < b') \<and>
        (\<forall>q \<in> set post. \<forall>pq. ready_in h q pq \<longrightarrow> cprio pq \<le> b')"
      with False have "\<forall>pq. ready_in h r pq \<longrightarrow> cprio pq < b'" by fastforce
      with * show ?thesis
        by (intro disjI2 exI [of _ "r # pre"] exI [of _ x] exI [of _ post] exI [of _ p]) simp
    qed
  next
    case True
    then obtain p where p: "ready_in h r p" "cprio p > b" by blast
    then have eq: "select_loop h rs (cprio p, Some r) = (b', sel')"
      using Cons.prems by simp
    from Cons.IH [OF this] show ?thesis
    proof (elim disjE exE)
      assume "b' = cprio p \<and> sel' = Some r \<and> (\<forall>x \<in> set rs. \<forall>q. ready_in h x q \<longrightarrow> cprio q \<le> cprio p)"
      with p show ?thesis
        by (intro disjI2 exI [of _ "[]"] exI [of _ r] exI [of _ rs] exI [of _ p]) auto
    next
      fix pre x post q
      assume "rs = pre @ x # post \<and> sel' = Some x \<and> ready_in h x q \<and> cprio q = b' \<and> cprio p < b' \<and>
        (\<forall>q \<in> set pre. \<forall>pq. ready_in h q pq \<longrightarrow> cprio pq < b') \<and>
        (\<forall>q \<in> set post. \<forall>pq. ready_in h q pq \<longrightarrow> cprio pq \<le> b')"
      with p show ?thesis
        by (intro disjI2 exI [of _ "r # pre"] exI [of _ x] exI [of _ post] exI [of _ q]) auto
    qed
  qed
qed

lemma demote_current_frame [simp]:
  "processes (demote_current s) = processes s"
  "process_current (demote_current s) = process_current s"
  "error_handler_process (demote_current s) = error_handler_process s"
  "status (demote_current s) = status s"
  by (auto simp: demote_current_def split: option.splits)

lemma demote_current_wf [simp]: "wf_procs (demote_current s) \<longleftrightarrow> wf_procs s"
  by (auto simp: demote_current_def split: option.splits)

lemma demote_current_not_running:
  assumes "one_running s" and "r \<in> set (processes s)" and "proc_heap (demote_current s) r = Some p"
  shows "pstate p \<noteq> RUNNING"
proof (cases "process_current s = Some r")
  case True
  with assms(3) show ?thesis
    by (cases "proc_heap s r") (auto simp: demote_current_def split: if_splits)
next
  case False
  then have "proc_heap (demote_current s) r = proc_heap s r"
    by (auto simp: demote_current_def split: option.splits)
  with False assms show ?thesis by (auto simp: one_running_def)
qed

text \<open>The first process of maximal priority among the eligible ones, and nothing else.\<close>

definition first_highest :: "pcb_s \<Rightarrow> pref \<Rightarrow> bool" where
  "first_highest s r \<longleftrightarrow> eligible s r \<and> (\<forall>q. eligible s q \<longrightarrow> prio_of s q \<le> prio_of s r) \<and>
     (\<exists>pre post. processes s = pre @ r # post \<and>
        (\<forall>q \<in> set pre. eligible s q \<longrightarrow> prio_of s q < prio_of s r))"

lemma select_first_highest:
  assumes "snd (select_loop (proc_heap s) (processes s) (-1, None)) = Some r"
  shows "first_highest s r"
proof -
  obtain b where "select_loop (proc_heap s) (processes s) (-1, None) = (b, Some r)"
    using assms by (metis prod.collapse)
  from select_loop_spec [OF this] obtain pre post p where *:
    "processes s = pre @ r # post" "ready_in (proc_heap s) r p" "cprio p = b"
    "\<forall>q \<in> set pre. \<forall>pq. ready_in (proc_heap s) q pq \<longrightarrow> cprio pq < b"
    "\<forall>q \<in> set post. \<forall>pq. ready_in (proc_heap s) q pq \<longrightarrow> cprio pq \<le> b"
    by auto
  then have r: "eligible s r" "prio_of s r = b" by (auto simp: eligible_def prio_of_def)
  have pre: "\<forall>q \<in> set pre. eligible s q \<longrightarrow> prio_of s q < b"
    using *(4) by (auto simp: eligible_def prio_of_def)
  have "prio_of s q \<le> b" if q: "eligible s q" for q
  proof -
    from q *(1) consider "q \<in> set pre" | "q = r" | "q \<in> set post" by (auto simp: eligible_def)
    then show ?thesis using q r pre *(5)
      by cases (force simp: eligible_def prio_of_def)+
  qed
  with r pre *(1) show ?thesis by (auto simp: first_highest_def)
qed

lemma select_none:
  assumes "snd (select_loop (proc_heap s) (processes s) (-1, None)) = None" and "eligible s r"
  shows "prio_of s r < 0"
proof -
  obtain b where "select_loop (proc_heap s) (processes s) (-1, None) = (b, None)"
    using assms by (metis prod.collapse)
  from select_loop_spec [OF this] have
    "\<forall>r \<in> set (processes s). \<forall>p. ready_in (proc_heap s) r p \<longrightarrow> cprio p \<le> -1" by auto
  with assms(2) show ?thesis by (force simp: eligible_def prio_of_def)
qed

lemma process_schedule_frame [simp]:
  "processes (snd (process_schedule s)) = processes s"
  "error_handler_process (snd (process_schedule s)) = error_handler_process s"
  "status (snd (process_schedule s)) = status s"
  by (auto simp: process_schedule_def Let_def split: option.splits)

text \<open>What a scheduling decision changes: two process states and the current process.\<close>

lemma process_schedule_shape:
  "\<exists>c r. snd (process_schedule s) = (demote_current s)\<lparr>process_current := c\<rparr> \<or>
     snd (process_schedule s) = upd_proc r (set_state RUNNING) ((demote_current s)\<lparr>process_current := c\<rparr>)"
proof (cases "error_handler_ready (demote_current s)")
  case None
  then show ?thesis
    by (cases "snd (select_loop (proc_heap (demote_current s)) (processes (demote_current s)) (-1, None))")
      (auto simp: process_schedule_def Let_def)
next
  case (Some e)
  then have "snd (process_schedule s) = upd_proc e (set_state RUNNING)
      ((demote_current s)\<lparr>process_current := (if e \<in> set (processes s) then Some e else None)\<rparr>)"
    by (simp add: process_schedule_def Let_def)
  then show ?thesis by blast
qed

lemma error_handler_ready_Some:
  "error_handler_ready s = Some e \<Longrightarrow> error_handler_process s = Some e \<and>
     (\<exists>p. proc_heap s e = Some p \<and> pstate p = READY)"
  by (auto simp: error_handler_ready_def split: option.splits if_splits)

lemma process_schedule_wf [wf_intros]:
  assumes "wf_procs s" shows "wf_procs (snd (process_schedule s))"
proof -
  let ?d = "demote_current s"
  have d: "wf_procs ?d" using assms by simp
  show ?thesis
  proof (cases "error_handler_ready ?d")
    case (Some e)
    with d show ?thesis
      by (auto simp: process_schedule_def Let_def wf_procs_def)
  next
    case None
    note eh = this
    show ?thesis
    proof (cases "snd (select_loop (proc_heap ?d) (processes ?d) (-1, None))")
      case None
      with d eh show ?thesis by (auto simp: process_schedule_def Let_def wf_procs_def)
    next
      case (Some r)
      then have "r \<in> set (processes s)"
        using select_first_highest [of ?d r] by (simp add: first_highest_def eligible_def)
      with d eh Some show ?thesis by (auto simp: process_schedule_def Let_def wf_procs_def)
    qed
  qed
qed

lemma process_schedule_one_running:
  assumes "wf_procs s" and "one_running s" shows "one_running (snd (process_schedule s))"
proof -
  let ?d = "demote_current s"
  have nr: "pstate p \<noteq> RUNNING" if "r \<in> set (processes s)" "proc_heap ?d r = Some p" for r p
    using demote_current_not_running [OF assms(2) that] .
  show ?thesis
  proof (cases "error_handler_ready ?d")
    case (Some e)
    then have "e \<in> set (processes s)"
      using assms(1) error_handler_ready_Some [OF Some] by (auto simp: wf_procs_def)
    with Some nr show ?thesis
      by (auto simp: process_schedule_def Let_def one_running_def split: if_splits)
  next
    case None
    with nr show ?thesis
      by (auto simp: process_schedule_def Let_def one_running_def split: option.splits if_splits)
  qed
qed

text \<open>What the scheduler leaves behind, by who is chosen.\<close>

lemma process_schedule_cases:
  obtains (handler) e where "error_handler_ready (demote_current s) = Some e"
      "process_current (snd (process_schedule s)) = (if e \<in> set (processes s) then Some e else None)"
      "proc_heap (snd (process_schedule s)) e = map_option (set_state RUNNING) (proc_heap (demote_current s) e)"
  | (chosen) r where "error_handler_ready (demote_current s) = None"
      "first_highest (demote_current s) r" "process_current (snd (process_schedule s)) = Some r"
      "proc_heap (snd (process_schedule s)) r = map_option (set_state RUNNING) (proc_heap (demote_current s) r)"
  | (idle) "error_handler_ready (demote_current s) = None"
      "\<forall>r. eligible (demote_current s) r \<longrightarrow> prio_of (demote_current s) r < 0"
      "process_current (snd (process_schedule s)) = None"
      "proc_heap (snd (process_schedule s)) = proc_heap (demote_current s)"
proof (cases "error_handler_ready (demote_current s)")
  case (Some e)
  with handler show thesis by (simp add: process_schedule_def Let_def)
next
  case None
  note eh = this
  let ?d = "demote_current s"
  show thesis
  proof (cases "snd (select_loop (proc_heap ?d) (processes ?d) (-1, None))")
    case None
    with eh idle select_none [OF None] show thesis by (simp add: process_schedule_def Let_def)
  next
    case (Some r)
    with eh chosen select_first_highest [OF Some] show thesis by (simp add: process_schedule_def Let_def)
  qed
qed

text \<open>
  C5. With no ready error handler, the scheduler makes current, and marks \<open>RUNNING\<close>, the
  first process of the list among those of the highest priority that are ready (the
  demoted current process included); only when no ready process has a non-negative
  priority does the partition have no current process.
\<close>

theorem process_schedule_highest_priority:
  assumes "error_handler_ready (demote_current s) = None"
  shows "case process_current (snd (process_schedule s)) of
           Some r \<Rightarrow> first_highest (demote_current s) r \<and>
             (\<exists>p. proc_heap (snd (process_schedule s)) r = Some p \<and> pstate p = RUNNING)
         | None \<Rightarrow> \<forall>r. eligible (demote_current s) r \<longrightarrow> prio_of (demote_current s) r < 0"
proof (cases rule: process_schedule_cases [of s])
  case (chosen r)
  then obtain p where "proc_heap (demote_current s) r = Some p"
    by (auto simp: first_highest_def eligible_def)
  with chosen show ?thesis by simp
qed (use assms in simp_all)

theorem process_schedule_highest_priority_witness:
  "error_handler_ready (demote_current sample_three) = None \<and>
   process_current (snd (process_schedule sample_three)) = Some 2 \<and>
   first_highest (demote_current sample_three) 2"
proof -
  have eh: "error_handler_ready (demote_current sample_three) = None"
    and cur: "process_current (snd (process_schedule sample_three)) = Some 2"
    by (simp_all add: sample_eval sample_three_def process_schedule_def error_handler_ready_def)
  with process_schedule_highest_priority [OF eh] show ?thesis by simp
qed

text \<open>
  A ready error handler is absolute: whatever the priorities of the other processes,
  the scheduler makes it current and \<open>RUNNING\<close>.
\<close>

theorem process_schedule_error_handler:
  assumes "wf_procs s" and "error_handler_ready (demote_current s) = Some e"
  shows "process_current (snd (process_schedule s)) = Some e \<and>
    (\<exists>p. proc_heap (snd (process_schedule s)) e = Some p \<and> pstate p = RUNNING)"
proof -
  from error_handler_ready_Some [OF assms(2)] assms(1) obtain p
    where "e \<in> set (processes s)" "proc_heap (demote_current s) e = Some p"
    by (auto simp: wf_procs_def)
  with assms(2) show ?thesis by (simp add: process_schedule_def Let_def)
qed

theorem process_schedule_error_handler_witness:
  "process_current (snd (process_schedule (sample_three\<lparr>error_handler_process := Some 3\<rparr>))) = Some 3"
proof -
  have "wf_procs (sample_three\<lparr>error_handler_process := Some 3\<rparr>)"
    and "error_handler_ready (demote_current (sample_three\<lparr>error_handler_process := Some 3\<rparr>)) = Some 3"
    by (simp_all add: sample_eval wf_procs_def sample_three_def error_handler_ready_def)
  from process_schedule_error_handler [OF this] show ?thesis by simp
qed

text \<open>
  The scheduler keeps the process table well formed and leaves at most one process in
  state \<open>RUNNING\<close>: the current one.
\<close>

theorem process_schedule_keeps_invariants:
  assumes "wf_procs s" and "one_running s"
  shows "wf_procs (snd (process_schedule s)) \<and> one_running (snd (process_schedule s))"
  using process_schedule_wf [OF assms(1)] process_schedule_one_running [OF assms] by simp

theorem process_schedule_keeps_invariants_witness:
  "one_running (snd (process_schedule sample_three)) \<and> process_current (snd (process_schedule sample_three)) = Some 2"
proof -
  have "wf_procs sample_three" by (simp add: wf_procs_def sample_three_def)
  moreover have "one_running sample_three"
    by (simp add: one_running_def sample_three_def sample_process_def)
  ultimately have "one_running (snd (process_schedule sample_three))"
    using process_schedule_keeps_invariants by blast
  moreover have "process_current (snd (process_schedule sample_three)) = Some 2"
    by (simp add: sample_eval sample_three_def process_schedule_def error_handler_ready_def)
  ultimately show ?thesis by simp
qed

end
