(* ===== verification/Mutex.thy ===== *)
theory Mutex
  imports Partition_Core
begin

text \<open>
  Mutexes: \<open>kernel/mutex.c\<close> and the mutex services of
  \<open>arinc/arinc_intrapartition_communication.c\<close>. A mutex has a ceiling priority, at which
  its owner runs, a lock count for nested acquisitions, and a queue of waiting processes
  to the first of which the last release hands it over.

  A service that blocks or reschedules ends with \<open>Yield\<close>; \<open>resume_mutex\<close> is the rest of it,
  run when the process is dispatched again. The uptime is read once per activation.

  The theory shows that at most one process owns a mutex at any time (\<open>mutex_excl\<close>), that
  the lock count counts and stays within bounds, that owning raises the priority to the
  ceiling and the last release restores it, and that the queue is served in order.
\<close>

section \<open>Operations\<close>

definition find_mutex_by_name :: "pcb_s \<Rightarrow> string \<Rightarrow> int" where
  "find_mutex_by_name s name =
     index_from 0 (\<lambda>m. mutex_name m = name) (take (nat (mutex_count s)) (mutexes s))"

definition find_mutex_by_id :: "pcb_s \<Rightarrow> int \<Rightarrow> int" where
  "find_mutex_by_id s i =
     index_from 0 (\<lambda>m. mutex_id m = i) (take (nat (mutex_count s)) (mutexes s))"

definition upd_mutex :: "nat \<Rightarrow> (mutex_s \<Rightarrow> mutex_s) \<Rightarrow> pcb_s \<Rightarrow> pcb_s" where
  "upd_mutex i f s = s\<lparr>mutexes := (mutexes s)[i := f (mutexes s ! i)]\<rparr>"

definition upd_mutex_status :: "nat \<Rightarrow> (MUTEX_STATUS_TYPE \<Rightarrow> MUTEX_STATUS_TYPE) \<Rightarrow> pcb_s \<Rightarrow> pcb_s" where
  "upd_mutex_status i f = upd_mutex i (\<lambda>m. m\<lparr>mutex_status := f (mutex_status m)\<rparr>)"

text \<open>The process takes a free mutex and goes on at its ceiling priority.\<close>

definition take_mutex :: "nat \<Rightarrow> int \<Rightarrow> pref \<Rightarrow> process_s \<Rightarrow> pcb_s \<Rightarrow> pcb_s" where
  "take_mutex i mid r p s =
     move_to_front r
       (upd_proc r (\<lambda>p. set_prio (MUTEX_PRIORITY (mutex_status (mutexes s ! i))) (p\<lparr>owned_mutex_id := mid\<rparr>))
         (upd_mutex i (\<lambda>m. m\<lparr>mutex_status := (mutex_status m)\<lparr>MUTEX_STATE := OWNED,
                              MUTEX_OWNER := process_id p,
                              LOCK_COUNT := LOCK_COUNT (mutex_status m) + 1\<rparr>,
                             saved_owner_priority := cprio p\<rparr>) s))"

text \<open>The process waits for the mutex.\<close>

definition wait_mutex :: "nat \<Rightarrow> pref \<Rightarrow> pcb_s \<Rightarrow> pcb_s" where
  "wait_mutex i r s =
     (let s = upd_proc r (\<lambda>p. set_state WAITING (p\<lparr>waiting_mutex := Some i\<rparr>)) s in
      upd_mutex i (\<lambda>m. m\<lparr>mutex_status := (mutex_status m)\<lparr>
                          MX_WAITING_PROCESSES := MX_WAITING_PROCESSES (mutex_status m) + 1\<rparr>,
                         mx_waiting_processes :=
                           enqueue_waiter (mx_queuing_discipline m) s r (mx_waiting_processes m)\<rparr>) s)"

definition krnl_acquire_mutex :: "int \<Rightarrow> int \<Rightarrow> u64 \<Rightarrow> service" where
  "krnl_acquire_mutex MUTEX_ID TIME_OUT up s =
     (let index = find_mutex_by_id s MUTEX_ID; i = nat index in
      if index = -1 then (s, Ret INVALID_PARAM NoOut)
      else if bad_delay up TIME_OUT then (s, Ret INVALID_PARAM NoOut)
      else with_current (\<lambda>r p.
        if owned_mutex_id p \<noteq> NO_MUTEX_OWNED \<and> owned_mutex_id p \<noteq> MUTEX_ID then (s, Ret INVALID_MODE NoOut)
        else if error_handler_process s = Some r then (s, Ret INVALID_MODE NoOut)
        else let ms = mutex_status (mutexes s ! i) in
          if cprio p > MUTEX_PRIORITY ms then (s, Ret INVALID_MODE NoOut)
          else if MUTEX_STATE ms = AVAILABLE then (take_mutex i MUTEX_ID r p s, Ret NO_ERROR NoOut)
          else if MUTEX_OWNER ms = process_id p then
            (if LOCK_COUNT ms = MAX_LOCK_LEVEL then (s, Ret INVALID_CONFIG NoOut)
             else (upd_mutex_status i (\<lambda>ms. ms\<lparr>LOCK_COUNT := LOCK_COUNT ms + 1\<rparr>) s, Ret NO_ERROR NoOut))
          else if TIME_OUT = 0 then (s, Ret NOT_AVAILABLE NoOut)
          else if TIME_OUT = INFINITE_TIME_VALUE then
            yield_to_partition RP_ACQUIRE_MUTEX_INF r (wait_mutex i r s)
          else
            yield_to_partition RP_ACQUIRE_MUTEX_TMO r
              (upd_proc r (\<lambda>p. p\<lparr>time_counter := i64_of up + TIME_OUT\<rparr>) (wait_mutex i r s))) s)"

text \<open>
  The first waiting process becomes the owner. The process list is searched by identifier,
  and the node found is removed; with no such process the null pointer is followed.
\<close>

definition grant_mutex :: "nat \<Rightarrow> int \<Rightarrow> pref \<Rightarrow> process_s \<Rightarrow> pcb_s \<Rightarrow> pcb_s" where
  "grant_mutex i mid w pw s =
     upd_proc w (\<lambda>p. set_prio (MUTEX_PRIORITY (mutex_status (mutexes s ! i)))
                       ((stop_timeout p)\<lparr>owned_mutex_id := mid, waiting_mutex := None\<rparr>))
       (upd_mutex i (\<lambda>m. m\<lparr>mutex_status := (mutex_status m)\<lparr>
                            MX_WAITING_PROCESSES := MX_WAITING_PROCESSES (mutex_status m) - 1,
                            MUTEX_STATE := OWNED, LOCK_COUNT := LOCK_COUNT (mutex_status m) + 1,
                            MUTEX_OWNER := process_id pw\<rparr>,
                           saved_owner_priority := cprio pw,
                           mx_waiting_processes := tl (mx_waiting_processes m)\<rparr>) s)"

definition wake_mutex_waiter :: "nat \<Rightarrow> int \<Rightarrow> pcb_s \<Rightarrow> fault + pcb_s" where
  "wake_mutex_waiter i mid s =
     (case mx_waiting_processes (mutexes s ! i) of
        [] \<Rightarrow> Inr s
      | w # _ \<Rightarrow>
          (case proc_heap s w of
             None \<Rightarrow> Inl UseAfterFree
           | Some pw \<Rightarrow>
               (case is_process_id_existed s (process_id pw) of
                  None \<Rightarrow> Inl NullDeref
                | Some n \<Rightarrow>
                    let s = grant_mutex i mid w pw s in
                    Inr (upd_proc w (set_state READY)
                          (s\<lparr>processes := w # remove1 n (processes s)\<rparr>)))))"

text \<open>
  The owner gives the mutex back: the common part of \<open>krnl_release_mutex\<close>, \<open>RESET_MUTEX\<close>
  and \<open>STOP_SELF\<close>.
\<close>

definition free_mutex :: "nat \<Rightarrow> pref \<Rightarrow> pcb_s \<Rightarrow> pcb_s" where
  "free_mutex i r s =
     move_to_front r
       (upd_proc r (\<lambda>p. set_prio (saved_owner_priority (mutexes s ! i)) (p\<lparr>owned_mutex_id := NO_MUTEX_OWNED\<rparr>))
         (upd_mutex_status i (\<lambda>ms. ms\<lparr>LOCK_COUNT := 0, MUTEX_STATE := AVAILABLE, MUTEX_OWNER := NULL_PROCESS_ID\<rparr>) s))"

definition krnl_release_mutex :: "int \<Rightarrow> service" where
  "krnl_release_mutex MUTEX_ID s =
     (let index = find_mutex_by_id s MUTEX_ID; i = nat index in
      if index = -1 then (s, Ret INVALID_PARAM NoOut)
      else with_current (\<lambda>r p.
        if owned_mutex_id p \<noteq> MUTEX_ID then (s, Ret INVALID_MODE NoOut)
        else if LOCK_COUNT (mutex_status (mutexes s ! i)) - 1 = 0 then
          (case wake_mutex_waiter i MUTEX_ID (free_mutex i r s) of
             Inl f \<Rightarrow> (s, Fault f)
           | Inr s' \<Rightarrow> yield_to_partition RP_RELEASE_MUTEX r s')
        else (upd_mutex_status i (\<lambda>ms. ms\<lparr>LOCK_COUNT := LOCK_COUNT ms - 1\<rparr>) s, Ret NO_ERROR NoOut)) s)"

definition CREATE_MUTEX :: "string \<Rightarrow> int \<Rightarrow> int \<Rightarrow> service" where
  "CREATE_MUTEX MUTEX_NAME MUTEX_PRI QUEUING_DISC s =
     (if mutex_count s + 1 > max_mutexes s then (s, Ret INVALID_CONFIG NoOut)
      else if find_mutex_by_name s MUTEX_NAME \<noteq> -1 then (s, Ret NO_ACTION NoOut)
      else if MUTEX_PRI < 0 then (s, Ret INVALID_PARAM NoOut)
      else case decode_discipline QUEUING_DISC of
        None \<Rightarrow> (s, Ret INVALID_PARAM NoOut)
      | Some d \<Rightarrow>
          if OPERATING_MODE (status s) = NORMAL then (s, Ret INVALID_MODE NoOut)
          else if \<not> nat (mutex_count s) < length (mutexes s) then (s, Fault OutOfBounds)
          else let n = mutex_count s + 1 in
            ((upd_mutex (nat (mutex_count s)) (\<lambda>m. m\<lparr>mutex_name := take (MAX_NAME_LENGTH - 1) MUTEX_NAME,
                mutex_id := n, mx_waiting_processes := [],
                mutex_status := (mutex_status m)\<lparr>MUTEX_STATE := AVAILABLE, MUTEX_PRIORITY := MUTEX_PRI,
                  MX_WAITING_PROCESSES := 0, LOCK_COUNT := 0\<rparr>,
                mx_queuing_discipline := d\<rparr>) s)\<lparr>mutex_count := n\<rparr>,
             Ret NO_ERROR (OutId n)))"

definition ACQUIRE_MUTEX :: "int \<Rightarrow> int \<Rightarrow> u64 \<Rightarrow> service" where
  "ACQUIRE_MUTEX MUTEX_ID TIME_OUT up s =
     (if MUTEX_ID = PREEMPTION_LOCK_MUTEX then (s, Ret INVALID_PARAM NoOut)
      else krnl_acquire_mutex MUTEX_ID TIME_OUT up s)"

definition RELEASE_MUTEX :: "int \<Rightarrow> service" where
  "RELEASE_MUTEX MUTEX_ID s =
     (if MUTEX_ID = PREEMPTION_LOCK_MUTEX then (s, Ret INVALID_PARAM NoOut)
      else krnl_release_mutex MUTEX_ID s)"

definition reset_lock_level :: "nat \<Rightarrow> pcb_s \<Rightarrow> pcb_s" where
  "reset_lock_level i s =
     (if mutex_id (mutexes s ! i) = PREEMPTION_LOCK_MUTEX
      then s\<lparr>status := (status s)\<lparr>LOCK_LEVEL := 0\<rparr>\<rparr> else s)"

definition RESET_MUTEX :: "int \<Rightarrow> int \<Rightarrow> service" where
  "RESET_MUTEX MUTEX_ID PROCESS_ID s =
     with_current (\<lambda>c pc.
       if OPERATING_MODE (status s) \<noteq> NORMAL then (s, Ret INVALID_MODE NoOut)
       else let index = find_mutex_by_id s MUTEX_ID; i = nat index in
         if index = -1 then (s, Ret INVALID_PARAM NoOut)
         else if MUTEX_ID = PREEMPTION_LOCK_MUTEX \<and> error_handler_process s \<noteq> Some c
           then (s, Ret INVALID_PARAM NoOut)
         else case is_process_id_existed s PROCESS_ID of
           None \<Rightarrow> (s, Ret INVALID_PARAM NoOut)
         | Some r \<Rightarrow> with_proc r (\<lambda>p.
             if owned_mutex_id p \<noteq> MUTEX_ID then (s, Ret INVALID_MODE NoOut)
             else if error_handler_process s \<noteq> Some c \<and> process_id pc \<noteq> PROCESS_ID
               then (s, Ret INVALID_MODE NoOut)
             else
               let s1 = free_mutex i r (reset_lock_level i s);
                   s2 = (if pstate p = RUNNING then s1\<lparr>process_current := Some r\<rparr> else s1)
               in case wake_mutex_waiter i MUTEX_ID s2 of
                    Inl f \<Rightarrow> (s, Fault f)
                  | Inr s' \<Rightarrow> yield_to_partition RP_RESET_MUTEX c s') s) s"

definition GET_MUTEX_ID :: "string \<Rightarrow> service" where
  "GET_MUTEX_ID MUTEX_NAME s =
     (let index = find_mutex_by_name s MUTEX_NAME in
      if index = -1 then (s, Ret INVALID_CONFIG NoOut)
      else (s, Ret NO_ERROR (OutId (mutex_id (mutexes s ! nat index)))))"

definition GET_MUTEX_STATUS :: "int \<Rightarrow> service" where
  "GET_MUTEX_STATUS MUTEX_ID s =
     (let index = find_mutex_by_id s MUTEX_ID in
      if index = -1 then (s, Ret INVALID_PARAM NoOut)
      else let ms = mutex_status (mutexes s ! nat index) in
        (s, Ret NO_ERROR (OutMutexStatus (if MUTEX_STATE ms = AVAILABLE
                                          then ms\<lparr>MUTEX_OWNER := NULL_PROCESS_ID\<rparr> else ms))))"

definition GET_PROCESS_MUTEX_STATE :: "int \<Rightarrow> service" where
  "GET_PROCESS_MUTEX_STATE PROCESS_ID s =
     (case is_process_id_existed s PROCESS_ID of
        None \<Rightarrow> (s, Ret INVALID_PARAM NoOut)
      | Some r \<Rightarrow> with_proc r (\<lambda>p.
          (s, Ret NO_ERROR (OutId (if owned_mutex_id p \<ge> NULL_MUTEX_ID then owned_mutex_id p
                                   else NO_MUTEX_OWNED)))) s)"

text \<open>What the suspended services of this theory return when they continue.\<close>

definition resume_mutex :: "resume_point \<Rightarrow> process_s \<Rightarrow> RETURN_CODE_TYPE" where
  "resume_mutex k p =
     (if k = RP_ACQUIRE_MUTEX_TMO \<and> time_counter p = 0 then TIMED_OUT else NO_ERROR)"

section \<open>Invariants\<close>

abbreviation mx :: "pcb_s \<Rightarrow> nat \<Rightarrow> MUTEX_STATUS_TYPE" where
  "mx s i \<equiv> mutex_status (mutexes s ! i)"

text \<open>The created mutexes are a prefix of the array, and their identifiers are 1, 2, ...\<close>

definition mutex_ids_ok :: "pcb_s \<Rightarrow> bool" where
  "mutex_ids_ok s \<longleftrightarrow> 0 \<le> mutex_count s \<and> nat (mutex_count s) \<le> length (mutexes s) \<and>
     (\<forall>i < nat (mutex_count s). mutex_id (mutexes s ! i) = int i + 1)"

text \<open>Different processes have different identifiers.\<close>

definition proc_ids_ok :: "pcb_s \<Rightarrow> bool" where
  "proc_ids_ok s \<longleftrightarrow> (\<forall>r \<in> set (processes s). \<forall>r' \<in> set (processes s). \<forall>p p'.
     proc_heap s r = Some p \<longrightarrow> proc_heap s r' = Some p' \<longrightarrow> process_id p = process_id p' \<longrightarrow> r = r')"

text \<open>A process that owns a mutex is the one the mutex is owned by.\<close>

definition mutex_excl :: "pcb_s \<Rightarrow> bool" where
  "mutex_excl s \<longleftrightarrow> (\<forall>r \<in> set (processes s). \<forall>p. proc_heap s r = Some p \<longrightarrow>
     owned_mutex_id p \<noteq> NO_MUTEX_OWNED \<longrightarrow>
     (\<exists>i < nat (mutex_count s). mutex_id (mutexes s ! i) = owned_mutex_id p \<and>
        MUTEX_STATE (mx s i) = OWNED \<and> MUTEX_OWNER (mx s i) = process_id p))"

definition mutex_locks_ok :: "pcb_s \<Rightarrow> bool" where
  "mutex_locks_ok s \<longleftrightarrow> (\<forall>i < nat (mutex_count s).
     (MUTEX_STATE (mx s i) = AVAILABLE \<longleftrightarrow> LOCK_COUNT (mx s i) = 0) \<and>
     0 \<le> LOCK_COUNT (mx s i) \<and> LOCK_COUNT (mx s i) \<le> MAX_LOCK_LEVEL)"

definition mutex_queues_ok :: "pcb_s \<Rightarrow> bool" where
  "mutex_queues_ok s \<longleftrightarrow> (\<forall>i < nat (mutex_count s).
     MX_WAITING_PROCESSES (mx s i) = int (length (mx_waiting_processes (mutexes s ! i))) \<and>
     set (mx_waiting_processes (mutexes s ! i)) \<subseteq> set (processes s))"

definition mutex_inv :: "pcb_s \<Rightarrow> bool" where
  "mutex_inv s \<longleftrightarrow> wf_procs s \<and> proc_ids_ok s \<and> mutex_ids_ok s \<and> mutex_excl s \<and>
     mutex_locks_ok s \<and> mutex_queues_ok s"

lemma mutex_invD:
  assumes "mutex_inv s"
  shows "wf_procs s" "proc_ids_ok s" "mutex_ids_ok s" "mutex_excl s" "mutex_locks_ok s" "mutex_queues_ok s"
  using assms by (simp_all add: mutex_inv_def)

lemma upd_mutex_frame [simp]:
  "processes (upd_mutex i f s) = processes s" "process_current (upd_mutex i f s) = process_current s"
  "proc_heap (upd_mutex i f s) = proc_heap s" "status (upd_mutex i f s) = status s"
  "error_handler_process (upd_mutex i f s) = error_handler_process s"
  "mutex_count (upd_mutex i f s) = mutex_count s"
  "mutexes (upd_mutex i f s) = (mutexes s)[i := f (mutexes s ! i)]"
  by (simp_all add: upd_mutex_def)

lemma find_mutex_by_id_found:
  assumes "mutex_ids_ok s" and "find_mutex_by_id s mid = n" and "n \<noteq> -1"
  shows "nat n < nat (mutex_count s)" "nat n < length (mutexes s)" "mutex_id (mutexes s ! nat n) = mid"
  using assms index_from_found [of "\<lambda>m. mutex_id m = mid" "take (nat (mutex_count s)) (mutexes s)" n]
  by (auto simp: find_mutex_by_id_def mutex_ids_ok_def)

lemma mutex_ids_inj:
  "mutex_ids_ok s \<Longrightarrow> i < nat (mutex_count s) \<Longrightarrow> j < nat (mutex_count s) \<Longrightarrow>
   mutex_id (mutexes s ! i) = mutex_id (mutexes s ! j) \<Longrightarrow> i = j"
  by (auto simp: mutex_ids_ok_def)

text \<open>Updates of fields the invariant does not read.\<close>

lemma mutex_inv_upd_proc:
  assumes "mutex_inv s"
    and "\<And>p. proc_heap s r = Some p \<Longrightarrow> owned_mutex_id (f p) = owned_mutex_id p \<and> process_id (f p) = process_id p"
  shows "mutex_inv (upd_proc r f s)"
proof -
  have "proc_ids_ok (upd_proc r f s)"
    using assms unfolding mutex_inv_def proc_ids_ok_def by (force split: if_splits)
  moreover have "mutex_excl (upd_proc r f s)"
    using assms unfolding mutex_inv_def mutex_excl_def by (force split: if_splits)
  ultimately show ?thesis
    using assms(1) by (simp add: mutex_inv_def mutex_ids_ok_def mutex_locks_ok_def mutex_queues_ok_def)
qed

lemma mutex_inv_yield: "mutex_inv s \<Longrightarrow> mutex_inv (fst (yield_to_partition k r s))"
  by (simp add: yield_to_partition_def mutex_inv_upd_proc)

lemma mutex_inv_move:
  assumes "mutex_inv s" and "r \<in> set (processes s)"
  shows "mutex_inv (move_to_front r s)"
proof -
  have "set (processes (move_to_front r s)) = set (processes s)"
    using set_processes_move [of s r] assms by (simp add: mutex_inv_def)
  then show ?thesis
    using assms wf_procs_move [of s r]
    by (simp add: mutex_inv_def proc_ids_ok_def mutex_ids_ok_def mutex_excl_def mutex_locks_ok_def
        mutex_queues_ok_def del: move_frame(13,14))
qed

text \<open>
  The invariant is kept by a change of one mutex together with one process when the
  ownership of that mutex moves to, or away from, that process.
\<close>

lemma mutex_inv_change:
  assumes inv: "mutex_inv s" and i: "i < nat (mutex_count s)" and r: "r \<in> set (processes s)"
    and p: "proc_heap s r = Some p"
    and id: "process_id (f p) = process_id p" "mutex_id (g (mutexes s ! i)) = mutex_id (mutexes s ! i)"
    and own: "owned_mutex_id (f p) = NO_MUTEX_OWNED \<or>
      owned_mutex_id (f p) = mutex_id (mutexes s ! i) \<and>
      MUTEX_STATE (mutex_status (g (mutexes s ! i))) = OWNED \<and>
      MUTEX_OWNER (mutex_status (g (mutexes s ! i))) = process_id p"
    and other: "MUTEX_STATE (mx s i) = AVAILABLE \<or> MUTEX_OWNER (mx s i) = process_id p"
    and lock: "MUTEX_STATE (mutex_status (g (mutexes s ! i))) = AVAILABLE \<longleftrightarrow>
        LOCK_COUNT (mutex_status (g (mutexes s ! i))) = 0"
      "0 \<le> LOCK_COUNT (mutex_status (g (mutexes s ! i)))"
      "LOCK_COUNT (mutex_status (g (mutexes s ! i))) \<le> MAX_LOCK_LEVEL"
    and queue: "MX_WAITING_PROCESSES (mutex_status (g (mutexes s ! i))) =
        int (length (mx_waiting_processes (g (mutexes s ! i))))"
      "set (mx_waiting_processes (g (mutexes s ! i))) \<subseteq> set (processes s)"
  shows "mutex_inv (upd_proc r f (upd_mutex i g s))"
proof -
  let ?t = "upd_proc r f (upd_mutex i g s)"
  note D = mutex_invD [OF inv]
  have len: "i < length (mutexes s)" using i D(3) by (auto simp: mutex_ids_ok_def)
  have "mutex_ids_ok ?t" using D(3) id(2) len by (auto simp: mutex_ids_ok_def nth_list_update)
  moreover have "proc_ids_ok ?t"
    using D(2) p id(1) unfolding proc_ids_ok_def by (force split: if_splits)
  moreover have "mutex_locks_ok ?t"
    using D(5) lock len by (auto simp: mutex_locks_ok_def nth_list_update)
  moreover have "mutex_queues_ok ?t"
    using D(6) queue len by (auto simp: mutex_queues_ok_def nth_list_update)
  moreover have "mutex_excl ?t"
    unfolding mutex_excl_def
  proof (intro ballI allI impI)
    fix r' p'
    assume r': "r' \<in> set (processes ?t)" and p': "proc_heap ?t r' = Some p'"
      and o': "owned_mutex_id p' \<noteq> NO_MUTEX_OWNED"
    show "\<exists>j < nat (mutex_count ?t). mutex_id (mutexes ?t ! j) = owned_mutex_id p' \<and>
        MUTEX_STATE (mx ?t j) = OWNED \<and> MUTEX_OWNER (mx ?t j) = process_id p'"
    proof (cases "r' = r")
      case True
      with p' p o' own id i len show ?thesis by (intro exI [of _ i]) auto
    next
      case False
      with p' have h: "proc_heap s r' = Some p'" by simp
      with r' o' D(4) obtain j where j: "j < nat (mutex_count s)"
        "mutex_id (mutexes s ! j) = owned_mutex_id p'" "MUTEX_STATE (mx s j) = OWNED"
        "MUTEX_OWNER (mx s j) = process_id p'"
        by (auto simp: mutex_excl_def)
      have "process_id p' \<noteq> process_id p"
        using D(2) h p r r' False by (auto simp: proc_ids_ok_def)
      with j other have "j \<noteq> i" by auto
      with j show ?thesis by (intro exI [of _ j]) (simp add: nth_list_update)
    qed
  qed
  ultimately show ?thesis using D(1) by (simp add: mutex_inv_def wf_procs_def)
qed

lemma mutex_inv_queue:
  assumes inv: "mutex_inv s" and i: "i < nat (mutex_count s)"
    and "mutex_id (g (mutexes s ! i)) = mutex_id (mutexes s ! i)"
    and "MUTEX_STATE (mutex_status (g (mutexes s ! i))) = MUTEX_STATE (mx s i)"
    and "MUTEX_OWNER (mutex_status (g (mutexes s ! i))) = MUTEX_OWNER (mx s i)"
    and "MUTEX_STATE (mx s i) = AVAILABLE \<longleftrightarrow> LOCK_COUNT (mutex_status (g (mutexes s ! i))) = 0"
    and "0 \<le> LOCK_COUNT (mutex_status (g (mutexes s ! i)))"
    and "LOCK_COUNT (mutex_status (g (mutexes s ! i))) \<le> MAX_LOCK_LEVEL"
    and "MX_WAITING_PROCESSES (mutex_status (g (mutexes s ! i))) =
        int (length (mx_waiting_processes (g (mutexes s ! i))))"
    and "set (mx_waiting_processes (g (mutexes s ! i))) \<subseteq> set (processes s)"
  shows "mutex_inv (upd_mutex i g s)"
proof -
  note D = mutex_invD [OF inv]
  have len: "i < length (mutexes s)" using i D(3) by (auto simp: mutex_ids_ok_def)
  have "mutex_excl (upd_mutex i g s)"
    using D(4) assms(3-5) len unfolding mutex_excl_def
    by (simp add: nth_list_update) (metis (no_types, lifting))
  moreover have "mutex_ids_ok (upd_mutex i g s)" "mutex_locks_ok (upd_mutex i g s)"
    "mutex_queues_ok (upd_mutex i g s)" "proc_ids_ok (upd_mutex i g s)"
    using D assms(3-) len
    by (auto simp: mutex_ids_ok_def mutex_locks_ok_def mutex_queues_ok_def proc_ids_ok_def nth_list_update)
  ultimately show ?thesis using D(1) by (simp add: mutex_inv_def wf_procs_def)
qed

section \<open>Preservation\<close>

lemma mutex_facts:
  assumes "mutex_inv s" and "i < nat (mutex_count s)"
  shows "MX_WAITING_PROCESSES (mx s i) = int (length (mx_waiting_processes (mutexes s ! i)))"
    and "set (mx_waiting_processes (mutexes s ! i)) \<subseteq> set (processes s)"
    and "MUTEX_STATE (mx s i) = AVAILABLE \<longleftrightarrow> LOCK_COUNT (mx s i) = 0"
    and "0 \<le> LOCK_COUNT (mx s i)" and "LOCK_COUNT (mx s i) \<le> MAX_LOCK_LEVEL"
    and "i < length (mutexes s)"
  using assms by (auto simp: mutex_inv_def mutex_queues_ok_def mutex_locks_ok_def mutex_ids_ok_def)

lemma mutex_owner_of:
  assumes "mutex_inv s" and "r \<in> set (processes s)" and "proc_heap s r = Some p"
    and "owned_mutex_id p = mutex_id (mutexes s ! i)" and "i < nat (mutex_count s)"
  shows "MUTEX_STATE (mx s i) = OWNED \<and> MUTEX_OWNER (mx s i) = process_id p"
proof -
  have "owned_mutex_id p \<noteq> NO_MUTEX_OWNED"
    using assms(1,4,5) by (auto simp: mutex_inv_def mutex_ids_ok_def)
  then obtain j where "j < nat (mutex_count s)" "mutex_id (mutexes s ! j) = owned_mutex_id p"
    "MUTEX_STATE (mx s j) = OWNED" "MUTEX_OWNER (mx s j) = process_id p"
    using assms(1-3) by (auto simp: mutex_inv_def mutex_excl_def)
  moreover from this have "j = i"
    using mutex_ids_inj [of s j i] assms(1,4,5) by (auto simp: mutex_inv_def)
  ultimately show ?thesis by simp
qed

lemma take_mutex_inv:
  assumes inv: "mutex_inv s" and i: "i < nat (mutex_count s)" "mutex_id (mutexes s ! i) = mid"
    and r: "r \<in> set (processes s)" "proc_heap s r = Some p" and av: "MUTEX_STATE (mx s i) = AVAILABLE"
  shows "mutex_inv (take_mutex i mid r p s)"
proof -
  note q = mutex_facts [OF inv i(1)]
  have l: "LOCK_COUNT (mx s i) = 0" using mutex_facts(3) [OF inv i(1)] av by simp
  show ?thesis
    unfolding take_mutex_def
    by (rule mutex_inv_move, rule mutex_inv_change [OF inv i(1) r]) (use i q l av r in auto)
qed

lemma free_mutex_inv:
  assumes inv: "mutex_inv s" and i: "i < nat (mutex_count s)" "owned_mutex_id p = mutex_id (mutexes s ! i)"
    and r: "r \<in> set (processes s)" "proc_heap s r = Some p"
  shows "mutex_inv (free_mutex i r s)"
proof -
  note q = mutex_facts [OF inv i(1)]
  note own = mutex_owner_of [OF inv r i(2,1)]
  show ?thesis
    unfolding free_mutex_def upd_mutex_status_def
    by (rule mutex_inv_move, rule mutex_inv_change [OF inv i(1) r]) (use i q own r in auto)
qed

lemma free_mutex_available:
  "i < length (mutexes s) \<Longrightarrow> MUTEX_STATE (mx (free_mutex i r s) i) = AVAILABLE \<and>
     mx_waiting_processes (mutexes (free_mutex i r s) ! i) = mx_waiting_processes (mutexes s ! i) \<and>
     mutex_id (mutexes (free_mutex i r s) ! i) = mutex_id (mutexes s ! i) \<and>
     mutex_count (free_mutex i r s) = mutex_count s"
  by (simp add: free_mutex_def upd_mutex_status_def)

text \<open>Waking the first waiting process never fails, and the search by identifier finds it.\<close>

lemma is_process_id_existed_self:
  assumes "proc_ids_ok s" and "r \<in> set (processes s)" and "proc_heap s r = Some p"
  shows "is_process_id_existed s (process_id p) = Some r"
proof (cases "is_process_id_existed s (process_id p)")
  case None
  with assms(2,3) show ?thesis by (auto simp: is_process_id_existed_def list_find_None)
next
  case (Some n)
  with is_process_id_existed_Some [OF Some] assms show ?thesis by (auto simp: proc_ids_ok_def)
qed

lemma wake_mutex_waiter_ok:
  assumes inv: "mutex_inv s" and i: "i < nat (mutex_count s)" "mutex_id (mutexes s ! i) = mid"
    and av: "MUTEX_STATE (mx s i) = AVAILABLE"
  shows "case mx_waiting_processes (mutexes s ! i) of
      [] \<Rightarrow> wake_mutex_waiter i mid s = Inr s
    | w # ws \<Rightarrow> (\<exists>pw. w \<in> set (processes s) \<and> proc_heap s w = Some pw \<and>
        wake_mutex_waiter i mid s =
          Inr (upd_proc w (set_state READY) (move_to_front w (grant_mutex i mid w pw s))))"
proof (cases "mx_waiting_processes (mutexes s ! i)")
  case Nil
  then show ?thesis by (simp add: wake_mutex_waiter_def)
next
  case (Cons w ws)
  then have w: "w \<in> set (processes s)"
    using inv i(1) by (auto simp: mutex_inv_def mutex_queues_ok_def)
  then obtain pw where pw: "proc_heap s w = Some pw"
    using inv wf_procs_live by (auto simp: mutex_inv_def)
  have "is_process_id_existed s (process_id pw) = Some w"
    using is_process_id_existed_self [OF _ w pw] inv by (simp add: mutex_inv_def)
  with Cons w pw show ?thesis
    by (simp add: wake_mutex_waiter_def move_to_front_def Let_def)
qed

lemma grant_mutex_inv:
  assumes inv: "mutex_inv s" and i: "i < nat (mutex_count s)" "mutex_id (mutexes s ! i) = mid"
    and av: "MUTEX_STATE (mx s i) = AVAILABLE" and q: "mx_waiting_processes (mutexes s ! i) = w # ws"
    and w: "w \<in> set (processes s)" "proc_heap s w = Some pw"
  shows "mutex_inv (grant_mutex i mid w pw s)"
proof -
  note q' = mutex_facts [OF inv i(1)]
  have l: "LOCK_COUNT (mx s i) = 0" using mutex_facts(3) [OF inv i(1)] av by simp
  show ?thesis
    unfolding grant_mutex_def
    by (rule mutex_inv_change [OF inv i(1) w]) (use i q q' l av in auto)
qed

lemma wake_mutex_waiter_inv:
  assumes inv: "mutex_inv s" and i: "i < nat (mutex_count s)" "mutex_id (mutexes s ! i) = mid"
    and av: "MUTEX_STATE (mx s i) = AVAILABLE"
  shows "\<exists>s'. wake_mutex_waiter i mid s = Inr s' \<and> mutex_inv s'"
proof (cases "mx_waiting_processes (mutexes s ! i)")
  case Nil
  then show ?thesis using inv by (simp add: wake_mutex_waiter_def)
next
  case (Cons w ws)
  from wake_mutex_waiter_ok [OF assms] Cons obtain pw where w: "w \<in> set (processes s)" "proc_heap s w = Some pw"
    and run: "wake_mutex_waiter i mid s =
          Inr (upd_proc w (set_state READY) (move_to_front w (grant_mutex i mid w pw s)))"
    by auto
  have "mutex_inv (grant_mutex i mid w pw s)" by (rule grant_mutex_inv [OF inv i av Cons w])
  moreover have "w \<in> set (processes (grant_mutex i mid w pw s))" using w by (simp add: grant_mutex_def)
  ultimately have "mutex_inv (upd_proc w (set_state READY) (move_to_front w (grant_mutex i mid w pw s)))"
    by (intro mutex_inv_upd_proc mutex_inv_move) auto
  with run show ?thesis by simp
qed

lemma wait_mutex_inv:
  assumes inv: "mutex_inv s" and i: "i < nat (mutex_count s)" and r: "r \<in> set (processes s)"
  shows "mutex_inv (wait_mutex i r s)"
proof -
  let ?s = "upd_proc r (\<lambda>p. set_state WAITING (p\<lparr>waiting_mutex := Some i\<rparr>)) s"
  have inv': "mutex_inv ?s" by (rule mutex_inv_upd_proc [OF inv]) simp
  note q = mutex_facts [OF inv i]
  show ?thesis
    unfolding wait_mutex_def Let_def
    by (rule mutex_inv_queue [OF inv']) (use i r q in auto)
qed

lemma krnl_acquire_mutex_inv [wf_intros]:
  assumes inv: "mutex_inv s"
  shows "mutex_inv (fst (krnl_acquire_mutex mid tmo up s))"
proof (cases "find_mutex_by_id s mid = -1 \<or> bad_delay up tmo")
  case True
  then show ?thesis using inv by (auto simp: krnl_acquire_mutex_def Let_def)
next
  case False
  let ?i = "nat (find_mutex_by_id s mid)"
  have i: "?i < nat (mutex_count s)" "mutex_id (mutexes s ! ?i) = mid"
    using False find_mutex_by_id_found [OF mutex_invD(3) [OF inv] refl] by auto
  show ?thesis
  proof (cases rule: with_current_cases [of s])
    case (ok r p)
    have r: "r \<in> set (processes s)"
      using wf_procs_current [OF mutex_invD(1) [OF inv] ok(1)] by simp
    have w: "mutex_inv (wait_mutex ?i r s)" by (rule wait_mutex_inv [OF inv i(1) r])
    have t: "mutex_inv (take_mutex ?i mid r p s)" if "MUTEX_STATE (mx s ?i) = AVAILABLE"
      by (rule take_mutex_inv [OF inv i r ok(2) that])
    have l: "mutex_inv (upd_mutex_status ?i (\<lambda>ms. ms\<lparr>LOCK_COUNT := LOCK_COUNT ms + 1\<rparr>) s)"
      if "MUTEX_STATE (mx s ?i) \<noteq> AVAILABLE" "LOCK_COUNT (mx s ?i) \<noteq> MAX_LOCK_LEVEL"
      unfolding upd_mutex_status_def
      by (rule mutex_inv_queue [OF inv i(1)])
        (use mutex_facts [OF inv i(1)] that in auto)
    from False ok(1,2) inv w t l show ?thesis
      by (auto simp: krnl_acquire_mutex_def with_current_def with_proc_def Let_def
          intro!: mutex_inv_yield mutex_inv_upd_proc)
  qed (use False inv in \<open>auto simp: krnl_acquire_mutex_def with_current_def with_proc_def Let_def\<close>)
qed

text \<open>A release by the owner, in the states the invariant describes, never fails.\<close>

lemma release_ok:
  assumes inv: "mutex_inv s" and i: "i < nat (mutex_count s)" "mutex_id (mutexes s ! i) = mid"
    and r: "r \<in> set (processes s)" "proc_heap s r = Some p" "owned_mutex_id p = mid"
  shows "\<exists>s'. wake_mutex_waiter i mid (free_mutex i r s) = Inr s' \<and> mutex_inv s'"
proof -
  have len: "i < length (mutexes s)" using i(1) inv by (auto simp: mutex_inv_def mutex_ids_ok_def)
  have "mutex_inv (free_mutex i r s)" using free_mutex_inv [OF inv i(1) _ r(1,2)] i(2) r(3) by simp
  then show ?thesis
    using free_mutex_available [OF len, of r] i by (intro wake_mutex_waiter_inv) auto
qed

lemma krnl_release_mutex_inv [wf_intros]:
  assumes inv: "mutex_inv s"
  shows "mutex_inv (fst (krnl_release_mutex mid s))"
proof (cases "find_mutex_by_id s mid = -1")
  case True
  then show ?thesis using inv by (auto simp: krnl_release_mutex_def)
next
  case False
  let ?i = "nat (find_mutex_by_id s mid)"
  have i: "?i < nat (mutex_count s)" "mutex_id (mutexes s ! ?i) = mid"
    using False find_mutex_by_id_found [OF mutex_invD(3) [OF inv] refl] by auto
  show ?thesis
  proof (cases rule: with_current_cases [of s])
    case (ok r p)
    have r: "r \<in> set (processes s)"
      using wf_procs_current [OF mutex_invD(1) [OF inv] ok(1)] by simp
    have l: "mutex_inv (upd_mutex_status ?i (\<lambda>ms. ms\<lparr>LOCK_COUNT := LOCK_COUNT ms - 1\<rparr>) s)"
      if "LOCK_COUNT (mx s ?i) \<noteq> 1" "owned_mutex_id p = mid"
      unfolding upd_mutex_status_def
      by (rule mutex_inv_queue [OF inv i(1)])
        (use mutex_facts [OF inv i(1)] mutex_owner_of [OF inv r ok(2), of ?i] i that in auto)
    show ?thesis
    proof (cases "owned_mutex_id p = mid")
      case True
      from release_ok [OF inv i r ok(2) True] obtain s' where
        "wake_mutex_waiter ?i mid (free_mutex ?i r s) = Inr s'" "mutex_inv s'" by blast
      with True l False ok(1,2) inv show ?thesis
        by (auto simp: krnl_release_mutex_def with_current_def with_proc_def Let_def intro!: mutex_inv_yield)
    next
      case no: False
      with False ok(1,2) inv show ?thesis
        by (auto simp: krnl_release_mutex_def with_current_def with_proc_def Let_def)
    qed
  qed (use False inv in \<open>auto simp: krnl_release_mutex_def with_current_def with_proc_def Let_def\<close>)
qed

lemma mutex_inv_cong:
  assumes "processes t = processes s" "proc_heap t = proc_heap s" "mutexes t = mutexes s"
    "mutex_count t = mutex_count s" "error_handler_process t = error_handler_process s"
    "process_current t = process_current s \<or> (\<exists>r \<in> set (processes s). process_current t = Some r)"
    and "mutex_inv s"
  shows "mutex_inv t"
proof -
  have "wf_procs t" using assms by (auto simp: mutex_inv_def wf_procs_def)
  then show ?thesis
    using assms by (simp add: mutex_inv_def proc_ids_ok_def mutex_ids_ok_def mutex_excl_def
        mutex_locks_ok_def mutex_queues_ok_def)
qed

lemma reset_lock_level_frame [simp]:
  "mutexes (reset_lock_level i s) = mutexes s" "processes (reset_lock_level i s) = processes s"
  "proc_heap (reset_lock_level i s) = proc_heap s" "mutex_count (reset_lock_level i s) = mutex_count s"
  "process_current (reset_lock_level i s) = process_current s"
  "error_handler_process (reset_lock_level i s) = error_handler_process s"
  by (simp_all add: reset_lock_level_def)

lemma reset_lock_level_inv: "mutex_inv s \<Longrightarrow> mutex_inv (reset_lock_level i s)"
  by (rule mutex_inv_cong) auto

text \<open>The release part of \<open>RESET_MUTEX\<close> (and of \<open>STOP_SELF\<close>).\<close>

lemma forced_release_ok:
  assumes inv: "mutex_inv s" and i: "i < nat (mutex_count s)" "mutex_id (mutexes s ! i) = mid"
    and r: "r \<in> set (processes s)" "proc_heap s r = Some p" "owned_mutex_id p = mid"
  shows "\<exists>s'. wake_mutex_waiter i mid
      ((free_mutex i r (reset_lock_level i s))\<lparr>process_current := Some r\<rparr>) = Inr s' \<and> mutex_inv s'"
    and "\<exists>s'. wake_mutex_waiter i mid (free_mutex i r (reset_lock_level i s)) = Inr s' \<and> mutex_inv s'"
proof -
  let ?s = "reset_lock_level i s"
  have inv': "mutex_inv (free_mutex i r ?s)"
    using free_mutex_inv [OF reset_lock_level_inv [OF inv]] i r by simp
  note av = free_mutex_available [of i ?s r] mutex_facts(6) [OF inv i(1)]
  have "mutex_inv ((free_mutex i r ?s)\<lparr>process_current := Some r\<rparr>)"
    by (rule mutex_inv_cong [OF _ _ _ _ _ _ inv']) (auto simp: free_mutex_def)
  then show "\<exists>s'. wake_mutex_waiter i mid ((free_mutex i r ?s)\<lparr>process_current := Some r\<rparr>) = Inr s' \<and> mutex_inv s'"
    using av i by (intro wake_mutex_waiter_inv) auto
  show "\<exists>s'. wake_mutex_waiter i mid (free_mutex i r ?s) = Inr s' \<and> mutex_inv s'"
    using inv' av i by (intro wake_mutex_waiter_inv) auto
qed

lemma with_proc_found: "proc_heap s r = Some p \<Longrightarrow> with_proc r k s = k p"
  by (simp add: with_proc_def)

lemma RESET_MUTEX_inv [wf_intros]:
  assumes inv: "mutex_inv s"
  shows "mutex_inv (fst (RESET_MUTEX mid pid s))"
proof (cases rule: with_current_cases [of s])
  case (ok c pc)
  let ?i = "nat (find_mutex_by_id s mid)"
  show ?thesis
  proof (cases "find_mutex_by_id s mid = -1 \<or> is_process_id_existed s pid = None")
    case True
    then show ?thesis using inv ok(3) by (auto simp: RESET_MUTEX_def Let_def)
  next
    case False
    then obtain r where r: "is_process_id_existed s pid = Some r" by auto
    from is_process_id_existed_Some [OF this] obtain p where
      rp: "r \<in> set (processes s)" "proc_heap s r = Some p" by blast
    have i: "?i < nat (mutex_count s)" "mutex_id (mutexes s ! ?i) = mid"
      using False find_mutex_by_id_found [OF mutex_invD(3) [OF inv] refl] by auto
    show ?thesis
    proof (cases "owned_mutex_id p = mid")
      case True
      note fr = forced_release_ok [OF inv i rp True]
      show ?thesis
        using False r rp(2) True fr inv ok(3)
        by (auto simp: RESET_MUTEX_def Let_def with_proc_found intro!: mutex_inv_yield)
    next
      case no: False
      then show ?thesis using False r rp(2) inv ok(3)
        by (auto simp: RESET_MUTEX_def Let_def with_proc_found)
    qed
  qed
qed (use inv in \<open>auto simp: RESET_MUTEX_def\<close>)

lemma CREATE_MUTEX_inv [wf_intros]:
  assumes inv: "mutex_inv s"
  shows "mutex_inv (fst (CREATE_MUTEX nm pri disc s))"
proof (cases "fst (CREATE_MUTEX nm pri disc s) = s")
  case True
  then show ?thesis using inv by simp
next
  case False
  note D = mutex_invD [OF inv]
  let ?n = "nat (mutex_count s)"
  from False obtain f where f: "fst (CREATE_MUTEX nm pri disc s) = (upd_mutex ?n f s)\<lparr>mutex_count := mutex_count s + 1\<rparr>"
    and n: "?n < length (mutexes s)"
    and fm: "mutex_id (f (mutexes s ! ?n)) = mutex_count s + 1" "mx_waiting_processes (f (mutexes s ! ?n)) = []"
      "MUTEX_STATE (mutex_status (f (mutexes s ! ?n))) = AVAILABLE" "LOCK_COUNT (mutex_status (f (mutexes s ! ?n))) = 0"
      "MX_WAITING_PROCESSES (mutex_status (f (mutexes s ! ?n))) = 0"
    by (auto simp: CREATE_MUTEX_def Let_def split: if_splits option.splits)
  let ?t = "(upd_mutex ?n f s)\<lparr>mutex_count := mutex_count s + 1\<rparr>"
  have c0: "0 \<le> mutex_count s" using D(3) by (simp add: mutex_ids_ok_def)
  then have c: "nat (mutex_count ?t) = Suc ?n" by simp
  have "mutex_excl ?t"
    using D(4) n unfolding mutex_excl_def c
    by (simp add: nth_list_update) (metis less_SucI less_irrefl)
  moreover have "mutex_ids_ok ?t" "mutex_locks_ok ?t" "mutex_queues_ok ?t"
    using D(3,5,6) n fm c0 unfolding mutex_ids_ok_def mutex_locks_ok_def mutex_queues_ok_def c
    by (auto simp: nth_list_update less_Suc_eq)
  moreover have "proc_ids_ok ?t" "wf_procs ?t" using D(1,2) by (simp_all add: proc_ids_ok_def wf_procs_def)
  ultimately show ?thesis unfolding f by (simp add: mutex_inv_def)
qed

lemma process_schedule_mutex_inv [wf_intros]:
  assumes inv: "mutex_inv s" shows "mutex_inv (snd (process_schedule s))"
proof -
  have d: "mutex_inv (demote_current s)"
    using inv by (auto simp: demote_current_def intro!: mutex_inv_upd_proc split: option.splits)
  have wf: "wf_procs (snd (process_schedule s))" by (rule process_schedule_wf [OF mutex_invD(1) [OF inv]])
  from process_schedule_shape [of s] obtain c r where
    sh: "snd (process_schedule s) = (demote_current s)\<lparr>process_current := c\<rparr> \<or>
     snd (process_schedule s) = upd_proc r (set_state RUNNING) ((demote_current s)\<lparr>process_current := c\<rparr>)" by blast
  let ?d = "(demote_current s)\<lparr>process_current := c\<rparr>"
  have "wf_procs ?d" using sh wf by auto
  then have "mutex_inv ?d"
    using d by (simp add: mutex_inv_def proc_ids_ok_def mutex_ids_ok_def mutex_excl_def
        mutex_locks_ok_def mutex_queues_ok_def)
  with sh show ?thesis using mutex_inv_upd_proc [of ?d r "set_state RUNNING"] by auto
qed

section \<open>Properties\<close>

text \<open>
  Sequences of mutex services, called by whichever process is current, with scheduling
  decisions in between.
\<close>

datatype mutex_call =
    Call_acquire int int u64 | Call_release int | Call_reset int int
  | Call_create string int int | Call_schedule

fun mutex_step :: "mutex_call \<Rightarrow> pcb_s \<Rightarrow> pcb_s" where
  "mutex_step (Call_acquire mid tmo up) s = fst (krnl_acquire_mutex mid tmo up s)"
| "mutex_step (Call_release mid) s = fst (krnl_release_mutex mid s)"
| "mutex_step (Call_reset mid pid) s = fst (RESET_MUTEX mid pid s)"
| "mutex_step (Call_create nm pri d) s = fst (CREATE_MUTEX nm pri d s)"
| "mutex_step Call_schedule s = snd (process_schedule s)"

lemma mutex_run_inv: "mutex_inv s \<Longrightarrow> mutex_inv (fold mutex_step cs s)"
proof (induction cs arbitrary: s)
  case (Cons c cs)
  then have "mutex_inv (mutex_step c s)" by (cases c) (auto intro: wf_intros)
  with Cons.IH show ?case by simp
qed simp

text \<open>
  A partition with one free mutex of ceiling 30, and the same with the mutex held by
  process 1 and wanted by processes 2 and 3.
\<close>

definition sample_mutex :: mutex_s where
  "sample_mutex = \<lparr>mutex_name = ''M'', mutex_id = 1, mx_queuing_discipline = FIFO,
     mutex_status = \<lparr>MUTEX_OWNER = 0, MUTEX_STATE = AVAILABLE, MUTEX_PRIORITY = 30, LOCK_COUNT = 0,
       MX_WAITING_PROCESSES = 0\<rparr>,
     saved_owner_priority = 0, mx_waiting_processes = []\<rparr>"

definition sample_mutex_state :: pcb_s where
  "sample_mutex_state = sample_three\<lparr>mutexes := [sample_mutex], mutex_count := 1, max_mutexes := 1\<rparr>"

lemma sample_mutex_state_inv: "mutex_inv sample_mutex_state"
  by (simp add: mutex_inv_def sample_mutex_state_def sample_three_def sample_mutex_def wf_procs_def
      proc_ids_ok_def mutex_ids_ok_def mutex_excl_def mutex_locks_ok_def mutex_queues_ok_def sample_process_def)

definition sample_owned_state :: pcb_s where
  "sample_owned_state = sample_three\<lparr>mutex_count := 1, max_mutexes := 1,
     mutexes := [sample_mutex\<lparr>mutex_status := \<lparr>MUTEX_OWNER = 1, MUTEX_STATE = OWNED, MUTEX_PRIORITY = 30,
        LOCK_COUNT = 1, MX_WAITING_PROCESSES = 2\<rparr>, saved_owner_priority := 10,
        mx_waiting_processes := [2, 3]\<rparr>],
     proc_heap := [1 \<mapsto> (sample_process 1 RUNNING 30)\<lparr>owned_mutex_id := 1\<rparr>,
                   2 \<mapsto> (sample_process 2 WAITING 20)\<lparr>waiting_mutex := Some 0\<rparr>,
                   3 \<mapsto> (sample_process 3 WAITING 20)\<lparr>waiting_mutex := Some 0\<rparr>]\<rparr>"

lemma sample_owned_state_inv: "mutex_inv sample_owned_state"
  by (simp add: mutex_inv_def sample_owned_state_def sample_three_def sample_mutex_def wf_procs_def
      proc_ids_ok_def mutex_ids_ok_def mutex_excl_def mutex_locks_ok_def mutex_queues_ok_def sample_process_def)

text \<open>
  C4. Mutual exclusion. After any sequence of mutex services and scheduling decisions no
  two processes own the same mutex, and a mutex a process owns names it as its owner.
\<close>

theorem mutual_exclusion:
  assumes "mutex_inv s0" and "s = fold mutex_step cs s0"
    and "r \<in> set (processes s)" and "r' \<in> set (processes s)"
    and "proc_heap s r = Some p" and "proc_heap s r' = Some p'"
    and "owned_mutex_id p \<noteq> NO_MUTEX_OWNED" and "owned_mutex_id p' = owned_mutex_id p"
  shows "r = r' \<and> (\<exists>i < nat (mutex_count s). mutex_id (mutexes s ! i) = owned_mutex_id p \<and>
    MUTEX_STATE (mx s i) = OWNED \<and> MUTEX_OWNER (mx s i) = process_id p)"
proof -
  have inv: "mutex_inv s" using mutex_run_inv [OF assms(1)] assms(2) by simp
  note D = mutex_invD [OF this]
  obtain i where i: "i < nat (mutex_count s)" "mutex_id (mutexes s ! i) = owned_mutex_id p"
    "MUTEX_STATE (mx s i) = OWNED" "MUTEX_OWNER (mx s i) = process_id p"
    using D(4) assms(3,5,7) by (auto simp: mutex_excl_def)
  have "MUTEX_OWNER (mx s i) = process_id p'"
    using mutex_owner_of [OF inv assms(4,6), of i] i assms(8) by simp
  with i D(2) assms(3-6) show ?thesis by (auto simp: proc_ids_ok_def)
qed

theorem mutual_exclusion_witness:
  "mutex_inv sample_mutex_state \<and>
   (let s = fold mutex_step [Call_acquire 1 0 0] sample_mutex_state in
    owned_mutex_id (the (proc_heap s 1)) = 1 \<and> (\<exists>i < nat (mutex_count s). MUTEX_OWNER (mx s i) = 1))"
proof -
  let ?s = "fold mutex_step [Call_acquire 1 0 0] sample_mutex_state"
  have e: "1 \<in> set (processes ?s)" "\<exists>p. proc_heap ?s 1 = Some p \<and> owned_mutex_id p = 1 \<and> process_id p = 1"
    by (simp_all add: krnl_acquire_mutex_def find_mutex_by_id_def sample_mutex_state_def sample_three_def
        sample_mutex_def bad_delay_def time_overflow_def MAX_SYSTEM_TIME_def u64_of_def with_current_def
        with_proc_def take_mutex_def sample_process_def)
  then obtain p where p: "proc_heap ?s 1 = Some p" "owned_mutex_id p = 1" "process_id p = 1" by blast
  from mutual_exclusion [OF sample_mutex_state_inv refl e(1) e(1) p(1) p(1)] p sample_mutex_state_inv
  show ?thesis by (auto simp: Let_def)
qed

text \<open>
  Priority ceiling. A process that acquires a free mutex gets it at once: it holds
  the mutex with lock count one, runs at the ceiling priority, and the priority it had is
  saved.
\<close>

theorem acquire_free_mutex:
  assumes "mutex_inv s" and "process_current s = Some r" and "proc_heap s r = Some p"
    and "find_mutex_by_id s mid \<noteq> -1" and "\<not> bad_delay up tmo"
    and "owned_mutex_id p = NO_MUTEX_OWNED" and "error_handler_process s \<noteq> Some r"
    and "cprio p \<le> MUTEX_PRIORITY (mx s (nat (find_mutex_by_id s mid)))"
    and "MUTEX_STATE (mx s (nat (find_mutex_by_id s mid))) = AVAILABLE"
  shows "\<exists>s' p'. krnl_acquire_mutex mid tmo up s = (s', Ret NO_ERROR NoOut) \<and> proc_heap s' r = Some p' \<and>
    process_current s' = Some r \<and> owned_mutex_id p' = mid \<and> pstate p' = pstate p \<and>
    cprio p' = MUTEX_PRIORITY (mx s (nat (find_mutex_by_id s mid))) \<and>
    LOCK_COUNT (mx s' (nat (find_mutex_by_id s mid))) = 1 \<and>
    MUTEX_OWNER (mx s' (nat (find_mutex_by_id s mid))) = process_id p \<and>
    saved_owner_priority (mutexes s' ! nat (find_mutex_by_id s mid)) = cprio p"
proof -
  let ?i = "nat (find_mutex_by_id s mid)"
  have i: "?i < nat (mutex_count s)"
    using find_mutex_by_id_found [OF mutex_invD(3) [OF assms(1)] refl assms(4)] by simp
  note f = mutex_facts [OF assms(1) i]
  have "krnl_acquire_mutex mid tmo up s = (take_mutex ?i mid r p s, Ret NO_ERROR NoOut)"
    using assms by (simp add: krnl_acquire_mutex_def with_current_def with_proc_def Let_def)
  then show ?thesis using assms(2,3,9) f by (simp add: take_mutex_def)
qed

theorem acquire_free_mutex_witness:
  "\<exists>s' p'. krnl_acquire_mutex 1 0 0 sample_mutex_state = (s', Ret NO_ERROR NoOut) \<and>
     proc_heap s' 1 = Some p' \<and> cprio p' = 30 \<and> saved_owner_priority (mutexes s' ! 0) = 10"
proof -
  have f: "find_mutex_by_id sample_mutex_state 1 = 0"
    by (simp add: find_mutex_by_id_def sample_mutex_state_def sample_mutex_def)
  have m: "MUTEX_PRIORITY (mx sample_mutex_state 0) = 30" "MUTEX_STATE (mx sample_mutex_state 0) = AVAILABLE"
    by (simp_all add: sample_mutex_state_def sample_mutex_def)
  have s: "process_current sample_mutex_state = Some 1" "error_handler_process sample_mutex_state = None"
    "proc_heap sample_mutex_state 1 = Some (sample_process 1 RUNNING 10)"
    by (simp_all add: sample_mutex_state_def sample_three_def)
  have p: "owned_mutex_id (sample_process 1 RUNNING 10) = NO_MUTEX_OWNED"
    "cprio (sample_process 1 RUNNING 10) = 10" "\<not> bad_delay 0 0"
    by (simp_all add: sample_process_def bad_delay_def time_overflow_def MAX_SYSTEM_TIME_def u64_of_def)
  from acquire_free_mutex [OF sample_mutex_state_inv s(1,3), of 1 0 0] f m s p
  show ?thesis by auto
qed

text \<open>The last release of a mutex with waiting processes, step by step.\<close>

lemma krnl_release_mutex_run:
  assumes "mutex_inv s" and "process_current s = Some r" and "proc_heap s r = Some p"
    and "find_mutex_by_id s mid \<noteq> -1" and "owned_mutex_id p = mid"
    and "LOCK_COUNT (mx s (nat (find_mutex_by_id s mid))) = 1"
    and "mx_waiting_processes (mutexes s ! nat (find_mutex_by_id s mid)) = w # ws" and "w \<noteq> r"
  shows "\<exists>pw. proc_heap s w = Some pw \<and> krnl_release_mutex mid s = yield_to_partition RP_RELEASE_MUTEX r
      (upd_proc w (set_state READY) (move_to_front w (grant_mutex (nat (find_mutex_by_id s mid)) mid w pw
        (free_mutex (nat (find_mutex_by_id s mid)) r s))))"
proof -
  let ?i = "nat (find_mutex_by_id s mid)"
  have i: "?i < nat (mutex_count s)" "mutex_id (mutexes s ! ?i) = mid"
    using find_mutex_by_id_found [OF mutex_invD(3) [OF assms(1)] refl assms(4)] by auto
  note f = mutex_facts [OF assms(1) i(1)]
  have r: "r \<in> set (processes s)" using wf_procs_current [OF mutex_invD(1) [OF assms(1)] assms(2)] by simp
  let ?s = "free_mutex ?i r s"
  have inv: "mutex_inv ?s" using free_mutex_inv [OF assms(1) i(1) _ r assms(3)] i(2) assms(5) by simp
  note av = free_mutex_available [OF f(6), of r]
  from wake_mutex_waiter_ok [OF inv, of ?i mid] av i assms(7) obtain pw where
    w: "proc_heap ?s w = Some pw" "wake_mutex_waiter ?i mid ?s =
      Inr (upd_proc w (set_state READY) (move_to_front w (grant_mutex ?i mid w pw ?s)))"
    by auto
  have pw: "proc_heap s w = Some pw" using w(1) assms(8) by (simp add: free_mutex_def upd_mutex_status_def)
  have run: "krnl_release_mutex mid s = yield_to_partition RP_RELEASE_MUTEX r
      (upd_proc w (set_state READY) (move_to_front w (grant_mutex ?i mid w pw ?s)))"
    using assms w(2) by (simp add: krnl_release_mutex_def with_current_def with_proc_def Let_def)
  with pw show ?thesis by blast
qed

text \<open>
  Handover. When the owner releases a mutex it holds once and processes are waiting,
  the release reschedules without a fault, the owner gets its saved priority back, and the
  first process of the queue owns the mutex, is ready at the ceiling priority, and has left
  the queue.
\<close>

theorem release_hands_over:
  assumes "mutex_inv s" and "process_current s = Some r" and "proc_heap s r = Some p"
    and "find_mutex_by_id s mid \<noteq> -1" and "owned_mutex_id p = mid"
    and "LOCK_COUNT (mx s (nat (find_mutex_by_id s mid))) = 1"
    and "mx_waiting_processes (mutexes s ! nat (find_mutex_by_id s mid)) = w # ws" and "w \<noteq> r"
  shows "\<exists>s' p' pw pw'. krnl_release_mutex mid s = (s', Yield) \<and> proc_heap s' r = Some p' \<and>
    owned_mutex_id p' = NO_MUTEX_OWNED \<and>
    cprio p' = saved_owner_priority (mutexes s ! nat (find_mutex_by_id s mid)) \<and>
    proc_heap s w = Some pw \<and> proc_heap s' w = Some pw' \<and> owned_mutex_id pw' = mid \<and> pstate pw' = READY \<and>
    cprio pw' = MUTEX_PRIORITY (mx s (nat (find_mutex_by_id s mid))) \<and>
    MUTEX_OWNER (mx s' (nat (find_mutex_by_id s mid))) = process_id pw \<and>
    LOCK_COUNT (mx s' (nat (find_mutex_by_id s mid))) = 1 \<and>
    mx_waiting_processes (mutexes s' ! nat (find_mutex_by_id s mid)) = ws"
proof -
  let ?i = "nat (find_mutex_by_id s mid)"
  have i: "?i < nat (mutex_count s)"
    using find_mutex_by_id_found [OF mutex_invD(3) [OF assms(1)] refl assms(4)] by simp
  from krnl_release_mutex_run [OF assms] obtain pw where pw: "proc_heap s w = Some pw"
    and run: "krnl_release_mutex mid s = yield_to_partition RP_RELEASE_MUTEX r
      (upd_proc w (set_state READY) (move_to_front w (grant_mutex ?i mid w pw (free_mutex ?i r s))))"
    by blast
  show ?thesis
    unfolding run yield_to_partition_def
    using pw assms(3,7,8) mutex_facts(6) [OF assms(1) i]
    by (simp add: grant_mutex_def free_mutex_def upd_mutex_status_def)
qed

theorem release_hands_over_witness:
  "\<exists>s' pw'. krnl_release_mutex 1 sample_owned_state = (s', Yield) \<and> proc_heap s' 2 = Some pw' \<and>
     owned_mutex_id pw' = 1 \<and> cprio pw' = 30 \<and> mx_waiting_processes (mutexes s' ! 0) = [3]"
proof -
  have f: "find_mutex_by_id sample_owned_state 1 = 0"
    by (simp add: find_mutex_by_id_def sample_owned_state_def sample_mutex_def)
  have m: "MUTEX_PRIORITY (mx sample_owned_state 0) = 30" "LOCK_COUNT (mx sample_owned_state 0) = 1"
    "mx_waiting_processes (mutexes sample_owned_state ! 0) = [2, 3]"
    by (simp_all add: sample_owned_state_def sample_mutex_def)
  have s: "process_current sample_owned_state = Some 1"
    "proc_heap sample_owned_state 1 = Some ((sample_process 1 RUNNING 30)\<lparr>owned_mutex_id := 1\<rparr>)"
    by (simp_all add: sample_owned_state_def sample_three_def)
  from release_hands_over [OF sample_owned_state_inv s, of 1 2 "[3]"] f m
  show ?thesis by auto
qed

end
