(* ===== verification/Module_Scheduler.thy ===== *)
theory Module_Scheduler
  imports Partition_Core
begin

text \<open>
  The kernel control block and the module scheduler: \<open>arinc/module_scheduler.c\<close>,
  \<open>krnl_partition_switch\<close> of \<open>kernel/partition.c\<close>, the tick macros of
  \<open>include/kernel/timer.h\<close> at the timer frequency of the RISC-V target
  (\<open>arch/riscv/riscv64-qemu/arch.mak\<close>, 100 ticks a second), the body of the loop of
  \<open>main\<close>, and \<open>arinc_time_find_first_release_point\<close>, which reads the window table.

  The partitions are a list in the order of \<open>kcb->partitions\<close>; \<open>partition_current\<close> is the
  position of the current one. A panic or an access outside the window table is a
  \<open>fault\<close>.

  The theory shows temporal partitioning: for a well-formed window table, whatever the
  partitions do between two ticks, the current partition is at every tick the owner of the
  window the tick lies in, or none, and it is the owner when the window opens and the
  owner is not in mode \<open>IDLE\<close>.
\<close>

section \<open>Data\<close>

record window_partition_type =
  win_name :: string
  win_id :: int
  start_tick :: u32
  duration_tick :: u32
  is_periodic_processes_start :: bool

record mscb_s =
  ms_name :: string
  major_frame_tick :: u32
  windows_partition :: "window_partition_type list"
  nbr_windows :: u32
  windows_idx :: int
  idle_current_partition :: bool
  major_frame_count :: u32

record kcb_s =
  module_scheduler :: mscb_s
  partitions :: "pcb_s list"
  partition_current :: "nat option"
  ticks :: u32
  hm_cb :: hm_cb_s
  sampling_channels :: "krnl_sampling_channel list"
  queuing_channels :: "krnl_queuing_channel_s list"

abbreviation "ERR_FAIL \<equiv> (-1 :: int)"
abbreviation "ERR_SCHED_CONFIG \<equiv> (-16365 :: int)"

definition F_TIMER :: nat where
  "F_TIMER = 100"

definition MS_TO_TICKS :: "u32 \<Rightarrow> u32" where
  "MS_TO_TICKS ms = ucast ((ucast ms * of_nat F_TIMER :: u64) div 1000)"

definition TICKS_TO_MS :: "u32 \<Rightarrow> u32" where
  "TICKS_TO_MS t = ucast ((ucast t * 1000 :: u64) div of_nat F_TIMER)"

section \<open>Operations\<close>

definition module_scheduler_init :: "string \<Rightarrow> u32 \<Rightarrow> window_partition_type list \<Rightarrow> u32 \<Rightarrow> mscb_s" where
  "module_scheduler_init name mft windows n =
     \<lparr>ms_name = name, major_frame_tick = mft, windows_partition = windows, nbr_windows = n,
      windows_idx = 0, idle_current_partition = False, major_frame_count = 0\<rparr>"

definition find_partition :: "int \<Rightarrow> pcb_s list \<Rightarrow> int" where
  "find_partition i ps = index_from 0 (\<lambda>p. IDENTIFIER (status p) = i) ps"

definition krnl_partition_switch :: "int \<Rightarrow> kcb_s \<Rightarrow> fault + int \<times> kcb_s" where
  "krnl_partition_switch i k =
     (if i = IDLE_PARTITION_ID then Inr (IDLE_PARTITION_ID, k\<lparr>partition_current := None\<rparr>)
      else let n = find_partition i (partitions k) in
        if n = -1 then Inl (Panic ERR_FAIL)
        else if OPERATING_MODE (status (partitions k ! nat n)) = IDLE
             then Inr (IDLE_PARTITION_ID, k\<lparr>partition_current := None\<rparr>)
             else Inr (i, k\<lparr>partition_current := Some (nat n)\<rparr>))"

definition window_at :: "mscb_s \<Rightarrow> int \<Rightarrow> window_partition_type option" where
  "window_at ms i = (if 0 \<le> i \<and> nat i < length (windows_partition ms)
     then Some (windows_partition ms ! nat i) else None)"

definition with_window :: "mscb_s \<Rightarrow> int \<Rightarrow> (window_partition_type \<Rightarrow> fault + 'a) \<Rightarrow> fault + 'a" where
  "with_window ms i f = (case window_at ms i of None \<Rightarrow> Inl OutOfBounds | Some w \<Rightarrow> f w)"

definition signal_idle_current_partition :: "kcb_s \<Rightarrow> kcb_s" where
  "signal_idle_current_partition k =
     k\<lparr>module_scheduler := (module_scheduler k)\<lparr>idle_current_partition := True\<rparr>\<rparr>"

text \<open>The first test of \<open>partition_scheduler\<close>: the partition asked to be idle.\<close>

definition serve_idle_signal :: "kcb_s \<Rightarrow> kcb_s" where
  "serve_idle_signal k =
     (if idle_current_partition (module_scheduler k)
      then k\<lparr>partition_current := None,
             module_scheduler := (module_scheduler k)\<lparr>idle_current_partition := False\<rparr>\<rparr>
      else k)"

definition partition_scheduler :: "u64 \<Rightarrow> kcb_s \<Rightarrow> fault + int \<times> kcb_s" where
  "partition_scheduler up k0 =
     (let current_time = ucast up :: u32;
          current_tick = MS_TO_TICKS current_time;
          ms0 = module_scheduler k0;
          position_in_frame = current_tick - major_frame_count ms0 * major_frame_tick ms0
      in with_window ms0 (windows_idx ms0) (\<lambda>w.
        let partition_end_tick = start_tick w + duration_tick w;
            partition_id = (if idle_current_partition ms0 then IDLE_PARTITION_ID else win_id w);
            k = serve_idle_signal k0;
            ms = module_scheduler k
        in
          if position_in_frame \<ge> major_frame_tick ms then
            with_window ms 0 (\<lambda>w0.
              krnl_partition_switch (win_id w0)
                (k\<lparr>module_scheduler := ms\<lparr>windows_idx := 0,
                                          major_frame_count := major_frame_count ms + 1\<rparr>\<rparr>))
          else if position_in_frame \<ge> partition_end_tick then
            (if word_of_int (windows_idx ms) = nbr_windows ms - 1
             then krnl_partition_switch IDLE_PARTITION_ID k
             else with_window ms (windows_idx ms + 1) (\<lambda>w1.
               if position_in_frame < start_tick w1 then krnl_partition_switch IDLE_PARTITION_ID k
               else case krnl_partition_switch (win_id w1)
                       (k\<lparr>module_scheduler := ms\<lparr>windows_idx := windows_idx ms + 1\<rparr>\<rparr>) of
                   Inl f \<Rightarrow> Inl f
                 | Inr (_, k') \<Rightarrow> Inr (win_id w1, k')))
          else Inr (partition_id, k)))"

text \<open>
  \<open>arinc_start_scheduling\<close> up to \<open>_dispatch_init\<close>: \<open>None\<close> in the place of the window table
  is the null pointer.
\<close>

definition arinc_start_scheduling :: "kcb_s \<Rightarrow> fault + int \<times> kcb_s" where
  "arinc_start_scheduling k =
     (let ms = module_scheduler k in
      if windows_partition ms = [] \<or> nbr_windows ms = 0 then Inl (Panic ERR_SCHED_CONFIG)
      else with_window ms 0 (\<lambda>w.
        case krnl_partition_switch (win_id w) k of
          Inl f \<Rightarrow> Inl f
        | Inr (_, k1) \<Rightarrow>
            let k2 = k1\<lparr>module_scheduler := (module_scheduler k1)\<lparr>windows_idx := 0\<rparr>, ticks := 0\<rparr>
            in if partition_current k2 = None then Inl NullDeref
               else Inr (win_id w, k2)))"

text \<open>
  One turn of the loop of \<open>main\<close>: count the tick, run the scheduler, and either idle
  (\<open>None\<close>) or continue the chosen partition.
\<close>

definition main_loop :: "u64 \<Rightarrow> kcb_s \<Rightarrow> fault + nat option \<times> kcb_s" where
  "main_loop up k =
     (case partition_scheduler up (k\<lparr>ticks := ticks k + 1\<rparr>) of
        Inl f \<Rightarrow> Inl f
      | Inr (_, k') \<Rightarrow> Inr (partition_current k', k'))"

text \<open>
  \<open>arinc_time_find_first_release_point\<close>: the two search loops; a call for a partition with
  no window that starts its periodic processes runs off the end of the function.
\<close>

fun release_search :: "int \<Rightarrow> window_partition_type list \<Rightarrow> window_partition_type option" where
  "release_search ident [] = None"
| "release_search ident (w # ws) =
     (if ident = win_id w \<and> is_periodic_processes_start w then Some w else release_search ident ws)"

definition arinc_time_find_first_release_point :: "mscb_s \<Rightarrow> pcb_s \<Rightarrow> fault + int" where
  "arinc_time_find_first_release_point ms p =
     (let ident = IDENTIFIER (status p);
          ws = take (unat (nbr_windows ms)) (windows_partition ms);
          i = nat (windows_idx ms)
      in case release_search ident (drop i ws) of
           Some w \<Rightarrow> Inr (uint (major_frame_count ms * TICKS_TO_MS (major_frame_tick ms)
                              + TICKS_TO_MS (start_tick w)))
         | None \<Rightarrow>
             (case release_search ident (take i ws) of
                Some w \<Rightarrow> Inr (uint ((major_frame_count ms + 1) * TICKS_TO_MS (major_frame_tick ms)
                                   + TICKS_TO_MS (start_tick w)))
              | None \<Rightarrow> Inl NoReturnValue))"

section \<open>Well-formed schedules\<close>

abbreviation w_start :: "mscb_s \<Rightarrow> nat \<Rightarrow> nat" where
  "w_start ms i \<equiv> unat (start_tick (windows_partition ms ! i))"
abbreviation w_end :: "mscb_s \<Rightarrow> nat \<Rightarrow> nat" where
  "w_end ms i \<equiv> w_start ms i + unat (duration_tick (windows_partition ms ! i))"
abbreviation n_windows :: "mscb_s \<Rightarrow> nat" where
  "n_windows ms \<equiv> length (windows_partition ms)"
abbreviation mf :: "mscb_s \<Rightarrow> nat" where
  "mf ms \<equiv> unat (major_frame_tick ms)"

text \<open>
  What the static configuration must satisfy: windows of positive length, in order, apart
  from each other, inside the frame, the first at its start.
\<close>

definition wf_schedule :: "mscb_s \<Rightarrow> bool" where
  "wf_schedule ms \<longleftrightarrow> 0 < n_windows ms \<and> unat (nbr_windows ms) = n_windows ms \<and>
     w_start ms 0 = 0 \<and>
     (\<forall>i < n_windows ms. 0 < unat (duration_tick (windows_partition ms ! i)) \<and> w_end ms i \<le> mf ms) \<and>
     (\<forall>i < n_windows ms - 1. w_end ms i \<le> w_start ms (Suc i))"

text \<open>The state of the scheduler after it ran at tick \<open>n\<close>.\<close>

definition sched_at :: "nat \<Rightarrow> mscb_s \<Rightarrow> bool" where
  "sched_at n ms \<longleftrightarrow> unat (major_frame_count ms) = n div mf ms \<and>
     0 \<le> windows_idx ms \<and> nat (windows_idx ms) < n_windows ms \<and>
     w_start ms (nat (windows_idx ms)) \<le> n mod mf ms \<and>
     (Suc (nat (windows_idx ms)) < n_windows ms \<longrightarrow> n mod mf ms < w_start ms (Suc (nat (windows_idx ms))))"

definition tick_of :: "u64 \<Rightarrow> nat" where
  "tick_of up = unat (MS_TO_TICKS (ucast up))"

text \<open>Every window belongs to a partition of the module, or to none.\<close>

definition known_windows :: "kcb_s \<Rightarrow> bool" where
  "known_windows k \<longleftrightarrow> (\<forall>w \<in> set (windows_partition (module_scheduler k)).
     win_id w = IDLE_PARTITION_ID \<or> find_partition (win_id w) (partitions k) \<noteq> -1)"

definition in_window :: "mscb_s \<Rightarrow> nat \<Rightarrow> nat \<Rightarrow> bool" where
  "in_window ms n i \<longleftrightarrow> i < n_windows ms \<and> w_start ms i \<le> n mod mf ms \<and> n mod mf ms < w_end ms i"

definition owned_by_window :: "kcb_s \<Rightarrow> nat \<Rightarrow> bool" where
  "owned_by_window k n \<longleftrightarrow> (\<forall>j. partition_current k = Some j \<longrightarrow> j < length (partitions k) \<and>
     in_window (module_scheduler k) n (nat (windows_idx (module_scheduler k))) \<and>
     IDENTIFIER (status (partitions k ! j)) =
       win_id (windows_partition (module_scheduler k) ! nat (windows_idx (module_scheduler k))))"

text \<open>The partition a switch to \<open>i\<close> makes current.\<close>

definition switch_target :: "int \<Rightarrow> pcb_s list \<Rightarrow> nat option" where
  "switch_target i ps =
     (if i = IDLE_PARTITION_ID then None
      else let n = find_partition i ps in
        if n = -1 \<or> OPERATING_MODE (status (ps ! nat n)) = IDLE then None else Some (nat n))"

lemma krnl_partition_switch_known:
  assumes "i = IDLE_PARTITION_ID \<or> find_partition i (partitions k) \<noteq> -1"
  shows "\<exists>r. krnl_partition_switch i k = Inr (r, k\<lparr>partition_current := switch_target i (partitions k)\<rparr>)"
  using assms by (auto simp: krnl_partition_switch_def switch_target_def Let_def)

lemma switch_target_Some:
  assumes "switch_target i ps = Some j"
  shows "j < length ps \<and> IDENTIFIER (status (ps ! j)) = i \<and> OPERATING_MODE (status (ps ! j)) \<noteq> IDLE \<and>
    i \<noteq> IDLE_PARTITION_ID"
proof -
  have n: "find_partition i ps \<noteq> -1" "j = nat (find_partition i ps)"
    "OPERATING_MODE (status (ps ! j)) \<noteq> IDLE" "i \<noteq> IDLE_PARTITION_ID"
    using assms by (auto simp: switch_target_def Let_def split: if_splits)
  then show ?thesis
    using index_from_found [of "\<lambda>p. IDENTIFIER (status p) = i" ps "find_partition i ps"]
    by (auto simp: find_partition_def)
qed

section \<open>One call of the scheduler\<close>

lemma window_at_idle [simp]: "window_at (ms\<lparr>idle_current_partition := b\<rparr>) i = window_at ms i"
  by (simp add: window_at_def)

lemma position_in_frame:
  fixes c m f :: u32
  assumes "unat m = n div unat f" and "n \<le> unat c"
  shows "unat (c - m * f) = unat c - (n div unat f) * unat f"
proof -
  have le: "(n div unat f) * unat f \<le> n" by simp
  also have n32: "n < 2 ^ 32" using assms(2) unsigned_less [of c, where ?'a = nat] by simp
  finally have mul: "unat (m * f) = (n div unat f) * unat f"
    using assms(1) by (simp add: unat_word_ariths)
  have "m * f \<le> c" using mul order_trans [OF le assms(2)] by (simp add: word_le_nat_alt)
  then show ?thesis using mul by (simp add: unat_sub)
qed

lemma frame_step:
  fixes n f :: nat
  assumes "0 < f"
  shows "n mod f + 1 = f \<Longrightarrow> Suc n div f = n div f + 1 \<and> Suc n mod f = 0"
    and "n mod f + 1 < f \<Longrightarrow> Suc n div f = n div f \<and> Suc n mod f = n mod f + 1"
  using assms by (auto simp: div_Suc mod_Suc)

lemma scheduler_no_restart:
  fixes n f t :: nat
  assumes "0 < f" and "t = n \<or> t = Suc n" and "t - (n div f) * f < f"
  shows "t div f = n div f" "t - (n div f) * f = t mod f" "n mod f \<le> t mod f" "t mod f \<le> n mod f + 1"
proof -
  have "n mod f + 1 \<noteq> f" if "t = Suc n"
    using assms(3) that minus_div_mult_eq_mod [of n f] div_mult_mod_eq [of n f] by linarith
  moreover have "n mod f < f" using assms(1) by simp
  ultimately have "t = n \<or> t = Suc n \<and> n mod f + 1 < f" using assms(2) by linarith
  then show *: "t div f = n div f" "n mod f \<le> t mod f" "t mod f \<le> n mod f + 1"
    using frame_step(2) [OF assms(1), of n] by auto
  show "t - (n div f) * f = t mod f" using *(1) minus_div_mult_eq_mod [of t f] by simp
qed

lemma w_end_unat:
  assumes "wf_schedule ms" and "i < n_windows ms" and "w = windows_partition ms ! i"
  shows "unat (start_tick w + duration_tick w) = w_end ms i"
proof -
  have "w_end ms i \<le> mf ms" using assms(1,2) by (auto simp: wf_schedule_def)
  also have "mf ms < 2 ^ 32" using unsigned_less [of "major_frame_tick ms", where ?'a = nat] by simp
  finally show ?thesis using assms(3) by (simp add: unat_word_ariths)
qed

lemma serve_idle_signal_simps [simp]:
  "partitions (serve_idle_signal k) = partitions k"
  "module_scheduler (serve_idle_signal k) = (module_scheduler k)\<lparr>idle_current_partition := False\<rparr>"
  "partition_current (serve_idle_signal k) =
     (if idle_current_partition (module_scheduler k) then None else partition_current k)"
  by (auto simp: serve_idle_signal_def)

text \<open>
  The four things a call at tick \<open>t\<close>, in a state left by tick \<open>n\<close>, can do. \<open>idx\<close> is the window
  the scheduler was in.
\<close>

lemma partition_scheduler_cases:
  assumes wf: "wf_schedule (module_scheduler k)" and at: "sched_at n (module_scheduler k)"
    and t: "tick_of up = n \<or> tick_of up = Suc n" and known: "known_windows k"
  defines "ms \<equiv> module_scheduler k" and "idx \<equiv> nat (windows_idx (module_scheduler k))"
    and "ms1 \<equiv> (module_scheduler k)\<lparr>idle_current_partition := False\<rparr>"
  obtains
    (restart) r where "tick_of up mod mf ms = 0" "tick_of up = Suc n"
      "partition_scheduler up k = Inr (r, (serve_idle_signal k)\<lparr>
         module_scheduler := ms1\<lparr>windows_idx := 0, major_frame_count := major_frame_count ms + 1\<rparr>,
         partition_current := switch_target (win_id (windows_partition ms ! 0)) (partitions k)\<rparr>)"
      "unat (major_frame_count ms + 1) = Suc n div mf ms"
  | (advance) r where "Suc idx < n_windows ms" "tick_of up mod mf ms = w_start ms (Suc idx)"
      "tick_of up = Suc n" "tick_of up div mf ms = n div mf ms"
      "partition_scheduler up k = Inr (r, (serve_idle_signal k)\<lparr>
         module_scheduler := ms1\<lparr>windows_idx := windows_idx ms + 1\<rparr>,
         partition_current := switch_target (win_id (windows_partition ms ! Suc idx)) (partitions k)\<rparr>)"
  | (gap) r where "w_end ms idx \<le> tick_of up mod mf ms" "tick_of up div mf ms = n div mf ms"
      "Suc idx < n_windows ms \<longrightarrow> tick_of up mod mf ms < w_start ms (Suc idx)"
      "n mod mf ms \<le> tick_of up mod mf ms"
      "partition_scheduler up k = Inr (r, (serve_idle_signal k)\<lparr>partition_current := None\<rparr>)"
  | (stay) r where "tick_of up mod mf ms < w_end ms idx" "tick_of up div mf ms = n div mf ms"
      "n mod mf ms \<le> tick_of up mod mf ms"
      "partition_scheduler up k = Inr (r, serve_idle_signal k)"
proof -
  note at' = at [unfolded sched_at_def, folded ms_def, folded idx_def]
  have mf0: "0 < mf ms" using wf by (auto simp: wf_schedule_def ms_def)
  have idx: "idx < n_windows ms" and idx_int: "windows_idx ms = int idx" and idx0: "0 \<le> windows_idx ms"
    using at' by (auto simp: idx_def ms_def)
  let ?c = "MS_TO_TICKS (ucast up)"
  let ?pos = "?c - major_frame_count ms * major_frame_tick ms"
  have pos: "unat ?pos = tick_of up - (n div mf ms) * mf ms"
    using position_in_frame [of "major_frame_count ms" n "major_frame_tick ms" ?c] at' t
    by (auto simp: tick_of_def)
  have w: "window_at ms (windows_idx ms) = Some (windows_partition ms ! idx)"
    using idx idx_int by (simp add: window_at_def)
  have kw: "\<And>i. i < n_windows ms \<Longrightarrow> win_id (windows_partition ms ! i) = IDLE_PARTITION_ID \<or>
      find_partition (win_id (windows_partition ms ! i)) (partitions k) \<noteq> -1"
    using known by (auto simp: known_windows_def ms_def)
  have endw: "unat (start_tick (windows_partition ms ! idx) + duration_tick (windows_partition ms ! idx)) =
      w_end ms idx"
    using w_end_unat [OF wf _ refl, of idx] idx by (simp add: ms_def)
  have last: "(word_of_int (windows_idx ms) = nbr_windows ms - 1) \<longleftrightarrow> \<not> Suc idx < n_windows ms"
  proof -
    have nb: "unat (nbr_windows ms) = n_windows ms" "n_windows ms < 2 ^ 32"
      using wf unsigned_less [of "nbr_windows ms", where ?'a = nat] by (auto simp: wf_schedule_def ms_def)
    then have "unat (nbr_windows ms - 1) = n_windows ms - 1"
      using idx by (subst unat_sub) (auto simp: word_le_nat_alt)
    moreover have "unat (word_of_int (windows_idx ms) :: u32) = idx"
      using idx nb(2) idx_int by (simp add: unat_of_nat take_bit_nat_eq_self)
    ultimately show ?thesis using idx by (auto simp: word_unat_eq_iff)
  qed
  show thesis
  proof (cases "unat ?pos \<ge> mf ms")
    case True
    moreover have "tick_of up - (n div mf ms) * mf ms \<le> n mod mf ms + 1"
      using t minus_div_mult_eq_mod [of n "mf ms"] by linarith
    moreover have "n mod mf ms < mf ms" using mf0 by simp
    ultimately have e: "n mod mf ms + 1 = mf ms" "tick_of up = Suc n"
      using pos t minus_div_mult_eq_mod [of n "mf ms"] by linarith+
    note fs = frame_step(1) [OF mf0 e(1)]
    have cnt: "unat (major_frame_count ms + 1) = Suc n div mf ms"
    proof -
      have "Suc n div mf ms \<le> Suc n" by simp
      also have "Suc n < 2 ^ 32"
        using e(2) unsigned_less [of ?c, where ?'a = nat] by (simp add: tick_of_def)
      finally have "Suc n div mf ms < 2 ^ 32" .
      with fs at' show ?thesis by (simp add: unat_word_ariths)
    qed
    have z: "0 < n_windows ms" using idx by linarith
    have "\<exists>r. krnl_partition_switch (win_id (windows_partition ms ! 0))
        ((serve_idle_signal k)\<lparr>module_scheduler := ms1\<lparr>windows_idx := 0, major_frame_count := major_frame_count ms + 1\<rparr>\<rparr>) =
        Inr (r, (serve_idle_signal k)\<lparr>
          module_scheduler := ms1\<lparr>windows_idx := 0, major_frame_count := major_frame_count ms + 1\<rparr>,
          partition_current := switch_target (win_id (windows_partition ms ! 0)) (partitions k)\<rparr>)"
      using krnl_partition_switch_known [of "win_id (windows_partition ms ! 0)"
          "(serve_idle_signal k)\<lparr>module_scheduler := ms1\<lparr>windows_idx := 0, major_frame_count := major_frame_count ms + 1\<rparr>\<rparr>"]
        kw [OF z] by simp
    then obtain r where "krnl_partition_switch (win_id (windows_partition ms ! 0))
        ((serve_idle_signal k)\<lparr>module_scheduler := ms1\<lparr>windows_idx := 0, major_frame_count := major_frame_count ms + 1\<rparr>\<rparr>) =
        Inr (r, (serve_idle_signal k)\<lparr>
          module_scheduler := ms1\<lparr>windows_idx := 0, major_frame_count := major_frame_count ms + 1\<rparr>,
          partition_current := switch_target (win_id (windows_partition ms ! 0)) (partitions k)\<rparr>)"
      by blast
    moreover have "window_at ms 0 = Some (windows_partition ms ! 0)"
      using z by (simp add: window_at_def)
    ultimately have "partition_scheduler up k = Inr (r, (serve_idle_signal k)\<lparr>
         module_scheduler := ms1\<lparr>windows_idx := 0, major_frame_count := major_frame_count ms + 1\<rparr>,
         partition_current := switch_target (win_id (windows_partition ms ! 0)) (partitions k)\<rparr>)"
      using True w
      by (simp add: partition_scheduler_def Let_def with_window_def ms_def ms1_def word_le_nat_alt)
    with restart fs e(2) cnt show thesis by simp
  next
    case False
    then have tt: "tick_of up div mf ms = n div mf ms" "unat ?pos = tick_of up mod mf ms"
        "n mod mf ms \<le> tick_of up mod mf ms" "tick_of up mod mf ms \<le> n mod mf ms + 1"
      using scheduler_no_restart [OF mf0 t] pos by auto
    show thesis
    proof (cases "unat ?pos < w_end ms idx")
      case True
      with False w idx idx0 endw have "\<exists>r. partition_scheduler up k = Inr (r, serve_idle_signal k)"
        by (simp add: partition_scheduler_def Let_def with_window_def ms_def word_le_nat_alt)
      with stay tt True show thesis by auto
    next
      case late: False
      show thesis
      proof (cases "Suc idx < n_windows ms \<and> w_start ms (Suc idx) \<le> unat ?pos")
        case False
        have "\<exists>r. partition_scheduler up k = Inr (r, (serve_idle_signal k)\<lparr>partition_current := None\<rparr>)"
        proof (cases "Suc idx < n_windows ms")
          case True
          then have "window_at ms (windows_idx ms + 1) = Some (windows_partition ms ! Suc idx)"
            using idx_int by (simp add: window_at_def nat_add_distrib)
          with True False late \<open>\<not> mf ms \<le> unat ?pos\<close> w endw last show ?thesis
            by (simp add: partition_scheduler_def Let_def with_window_def ms_def word_le_nat_alt
                word_less_nat_alt krnl_partition_switch_def)
        next
          case False
          with late \<open>\<not> mf ms \<le> unat ?pos\<close> w endw last show ?thesis
            by (simp add: partition_scheduler_def Let_def with_window_def ms_def word_le_nat_alt
                krnl_partition_switch_def)
        qed
        with gap tt late False show thesis by auto
      next
        case True
        then have w1: "window_at ms (windows_idx ms + 1) = Some (windows_partition ms ! Suc idx)"
          using idx_int by (simp add: window_at_def nat_add_distrib)
        have "n mod mf ms < w_start ms (Suc idx)" using at' True idx_int by simp
        with tt True have st: "tick_of up mod mf ms = w_start ms (Suc idx)" and "tick_of up \<noteq> n"
          by auto
        then have "tick_of up = Suc n" using t by simp
        from krnl_partition_switch_known [of "win_id (windows_partition ms ! Suc idx)"
            "(serve_idle_signal k)\<lparr>module_scheduler := ms1\<lparr>windows_idx := windows_idx ms + 1\<rparr>\<rparr>"]
          kw [of "Suc idx"] True
        obtain r where "krnl_partition_switch (win_id (windows_partition ms ! Suc idx))
            ((serve_idle_signal k)\<lparr>module_scheduler := ms1\<lparr>windows_idx := windows_idx ms + 1\<rparr>\<rparr>) =
          Inr (r, (serve_idle_signal k)\<lparr>module_scheduler := ms1\<lparr>windows_idx := windows_idx ms + 1\<rparr>,
            partition_current := switch_target (win_id (windows_partition ms ! Suc idx)) (partitions k)\<rparr>)"
          by auto
        with True late \<open>\<not> mf ms \<le> unat ?pos\<close> w endw last w1
        have "\<exists>r. partition_scheduler up k = Inr (r, (serve_idle_signal k)\<lparr>
           module_scheduler := ms1\<lparr>windows_idx := windows_idx ms + 1\<rparr>,
           partition_current := switch_target (win_id (windows_partition ms ! Suc idx)) (partitions k)\<rparr>)"
          by (simp add: partition_scheduler_def Let_def with_window_def ms_def ms1_def word_le_nat_alt
              word_less_nat_alt)
        with advance tt True st \<open>tick_of up = Suc n\<close> show thesis by auto
      qed
    qed
  qed
qed

section \<open>Runs\<close>

text \<open>
  Between two calls of the scheduler a partition runs, or the processor idles. What that
  can change of the kernel control block, as far as the scheduler is concerned: the
  contents of the partitions but not their identifiers, the flag that asks for the rest of
  the window to be idle, and the current partition when it stops itself.
\<close>

definition partition_activity :: "kcb_s \<Rightarrow> kcb_s \<Rightarrow> bool" where
  "partition_activity k k' \<longleftrightarrow>
     map (\<lambda>p. IDENTIFIER (status p)) (partitions k') = map (\<lambda>p. IDENTIFIER (status p)) (partitions k) \<and>
     (\<exists>b. module_scheduler k' = (module_scheduler k)\<lparr>idle_current_partition := b\<rparr>) \<and>
     (partition_current k' = partition_current k \<or> partition_current k' = None)"

inductive sched_run :: "nat \<Rightarrow> kcb_s \<Rightarrow> bool" where
  start: "wf_schedule (module_scheduler k) \<Longrightarrow> known_windows k \<Longrightarrow> sched_at n (module_scheduler k) \<Longrightarrow>
     owned_by_window k n \<Longrightarrow> sched_run n k"
| tick: "sched_run n k \<Longrightarrow> tick_of up = n \<or> tick_of up = Suc n \<Longrightarrow>
     partition_scheduler up k = Inr (r, k') \<Longrightarrow> sched_run (tick_of up) k'"
| activity: "sched_run n k \<Longrightarrow> partition_activity k k' \<Longrightarrow> sched_run n k'"

lemma index_from_map: "index_from i (\<lambda>x. P (f x)) xs = index_from i P (map f xs)"
  by (induction xs arbitrary: i) auto

lemma find_partition_ids:
  "map (\<lambda>p. IDENTIFIER (status p)) ps' = map (\<lambda>p. IDENTIFIER (status p)) ps \<Longrightarrow>
   find_partition i ps' = find_partition i ps"
  unfolding find_partition_def
  using index_from_map [of 0 "\<lambda>x. x = i" "\<lambda>p. IDENTIFIER (status p)"] by metis

lemma wf_schedule_update [simp]:
  "wf_schedule (ms\<lparr>idle_current_partition := b\<rparr>) = wf_schedule ms"
  "wf_schedule (ms\<lparr>windows_idx := i\<rparr>) = wf_schedule ms"
  "wf_schedule (ms\<lparr>major_frame_count := c\<rparr>) = wf_schedule ms"
  by (simp_all add: wf_schedule_def)

lemma sched_at_idle [simp]: "sched_at n (ms\<lparr>idle_current_partition := b\<rparr>) = sched_at n ms"
  by (simp add: sched_at_def)

lemma window_room:
  assumes "wf_schedule ms" and "i < n_windows ms"
  shows "w_start ms i < w_end ms i" and "w_end ms i \<le> mf ms"
    and "Suc i < n_windows ms \<Longrightarrow> w_end ms i \<le> w_start ms (Suc i)"
  using assms by (auto simp: wf_schedule_def)

text \<open>The scheduler keeps its own state consistent with the time.\<close>

lemma partition_scheduler_inv:
  assumes wf: "wf_schedule (module_scheduler k)" and at: "sched_at n (module_scheduler k)"
    and t: "tick_of up = n \<or> tick_of up = Suc n" and known: "known_windows k"
    and own: "owned_by_window k n" and run: "partition_scheduler up k = Inr (r, k')"
  shows "wf_schedule (module_scheduler k')" "known_windows k'"
    "sched_at (tick_of up) (module_scheduler k')" "owned_by_window k' (tick_of up)"
proof -
  let ?ms = "module_scheduler k" and ?idx = "nat (windows_idx (module_scheduler k))"
  have idx: "?idx < n_windows ?ms" "0 \<le> windows_idx ?ms" "w_start ?ms ?idx \<le> n mod mf ?ms"
    and nxt: "Suc ?idx < n_windows ?ms \<Longrightarrow> n mod mf ?ms < w_start ?ms (Suc ?idx)"
    using at by (auto simp: sched_at_def)
  have mf0: "0 < mf ?ms" using window_room [OF wf idx(1)] by linarith
  note sw = switch_target_Some [of _ "partitions k"]
  have "wf_schedule (module_scheduler k') \<and> known_windows k' \<and>
    sched_at (tick_of up) (module_scheduler k') \<and> owned_by_window k' (tick_of up)"
  proof (cases rule: partition_scheduler_cases [OF wf at t known, case_names restart advance gap stay])
    case (restart r')
    have z: "0 < n_windows ?ms" using idx(1) by linarith
    have "w_start ?ms 0 = 0" using wf by (simp add: wf_schedule_def)
    moreover have "Suc 0 < n_windows ?ms \<Longrightarrow> 0 < w_start ?ms (Suc 0)"
      using window_room [OF wf z] by linarith
    ultimately show ?thesis
      using restart run wf known z window_room [OF wf z]
      by (auto simp: sched_at_def owned_by_window_def in_window_def known_windows_def dest!: sw)
  next
    case (advance r')
    have "Suc (Suc ?idx) < n_windows ?ms \<Longrightarrow> w_start ?ms (Suc ?idx) < w_start ?ms (Suc (Suc ?idx))"
      using window_room [OF wf advance(1)] by linarith
    moreover have "nat (windows_idx ?ms + 1) = Suc ?idx" using idx(2) by simp
    ultimately show ?thesis
      using advance run wf known at window_room [OF wf advance(1)] idx
      by (auto simp: sched_at_def owned_by_window_def in_window_def known_windows_def dest!: sw)
  next
    case (gap r')
    then show ?thesis
      using run wf known at idx
      by (auto simp: sched_at_def owned_by_window_def known_windows_def)
  next
    case (stay r')
    have "Suc ?idx < n_windows ?ms \<Longrightarrow> tick_of up mod mf ?ms < w_start ?ms (Suc ?idx)"
      using stay(1) window_room(3) [OF wf idx(1)] by linarith
    then show ?thesis
      using stay run wf known at idx own
      by (auto simp: sched_at_def owned_by_window_def in_window_def known_windows_def split: if_splits)
  qed
  then show "wf_schedule (module_scheduler k')" "known_windows k'"
    "sched_at (tick_of up) (module_scheduler k')" "owned_by_window k' (tick_of up)" by auto
qed

lemma partition_activity_inv:
  assumes "partition_activity k k'"
  shows "wf_schedule (module_scheduler k') = wf_schedule (module_scheduler k)"
    and "known_windows k' = known_windows k"
    and "sched_at n (module_scheduler k') = sched_at n (module_scheduler k)"
    and "owned_by_window k n \<Longrightarrow> owned_by_window k' n"
proof -
  from assms obtain b where m: "module_scheduler k' = (module_scheduler k)\<lparr>idle_current_partition := b\<rparr>"
    and ids: "map (\<lambda>p. IDENTIFIER (status p)) (partitions k') = map (\<lambda>p. IDENTIFIER (status p)) (partitions k)"
    and c: "partition_current k' = partition_current k \<or> partition_current k' = None"
    by (auto simp: partition_activity_def)
  show "wf_schedule (module_scheduler k') = wf_schedule (module_scheduler k)"
    and "sched_at n (module_scheduler k') = sched_at n (module_scheduler k)"
    using m by simp_all
  show "known_windows k' = known_windows k"
    using m find_partition_ids [OF ids] by (simp add: known_windows_def)
  have len: "length (partitions k') = length (partitions k)" using ids by (metis length_map)
  have nth: "IDENTIFIER (status (partitions k' ! j)) = IDENTIFIER (status (partitions k ! j))"
    if "j < length (partitions k)" for j
    using ids that len by (metis (mono_tags, lifting) nth_map)
  show "owned_by_window k' n" if "owned_by_window k n"
    using that c m len nth by (auto simp: owned_by_window_def in_window_def)
qed

lemma sched_run_inv:
  "sched_run n k \<Longrightarrow> wf_schedule (module_scheduler k) \<and> known_windows k \<and>
     sched_at n (module_scheduler k) \<and> owned_by_window k n"
proof (induction rule: sched_run.induct)
  case (tick n k up r k')
  then show ?case using partition_scheduler_inv [of k n up r k'] by auto
next
  case (activity n k k')
  then show ?case using partition_activity_inv [of k k'] by auto
qed auto

section \<open>Concrete schedule\<close>

text \<open>The window table of \<open>static_conf.h\<close>: two partitions, four windows, a frame of 100 ms.\<close>

definition DEFAULT_WINDOWS :: "window_partition_type list" where
  "DEFAULT_WINDOWS =
     [\<lparr>win_name = ''DefaultPartition'', win_id = 1, start_tick = MS_TO_TICKS 0,
       duration_tick = MS_TO_TICKS 40, is_periodic_processes_start = True\<rparr>,
      \<lparr>win_name = ''P2'', win_id = 2, start_tick = MS_TO_TICKS 40,
       duration_tick = MS_TO_TICKS 20, is_periodic_processes_start = True\<rparr>,
      \<lparr>win_name = ''DefaultPartition'', win_id = 1, start_tick = MS_TO_TICKS 60,
       duration_tick = MS_TO_TICKS 20, is_periodic_processes_start = False\<rparr>,
      \<lparr>win_name = ''P2'', win_id = 2, start_tick = MS_TO_TICKS 80,
       duration_tick = MS_TO_TICKS 20, is_periodic_processes_start = False\<rparr>]"

definition default_scheduler :: mscb_s where
  "default_scheduler = module_scheduler_init ''DefaultModule'' (MS_TO_TICKS 100) DEFAULT_WINDOWS 4"

definition sample_kernel :: kcb_s where
  "sample_kernel = \<lparr>module_scheduler = default_scheduler,
     partitions = [sample_partition, sample_partition\<lparr>status := (status sample_partition)\<lparr>IDENTIFIER := 2\<rparr>\<rparr>],
     partition_current = Some 0, ticks = 0,
     hm_cb = \<lparr>log_buffer = None, hm_write_index = 0, hm_read_index = 0, nb_log_entries = 0,
       max_log_entries = 16, max_log_entry_size = 256\<rparr>,
     sampling_channels = [], queuing_channels = []\<rparr>"

lemma ms_to_ticks_eval [simp]:
  "MS_TO_TICKS 0 = 0" "MS_TO_TICKS 20 = 2" "MS_TO_TICKS 40 = 4" "MS_TO_TICKS 60 = 6"
  "MS_TO_TICKS 80 = 8" "MS_TO_TICKS 100 = 10"
  by (simp_all add: MS_TO_TICKS_def F_TIMER_def)

text \<open>At uptimes the 32-bit millisecond counter can hold, a tick is ten milliseconds.\<close>

lemma unat_ucast_small: "unat w < 2 ^ LENGTH('b) \<Longrightarrow> unat (ucast w :: 'b::len word) = unat (w :: 'a::len word)"
  by (simp add: unsigned_ucast_eq take_bit_nat_eq_self)

lemma tick_of_eq:
  assumes "unat up < 2 ^ 32" shows "tick_of up = unat up div 10"
proof -
  have u: "unat (ucast up :: u32) = unat up" using assms by (subst unat_ucast_small) simp_all
  then have "unat (ucast (ucast up :: u32) :: u64) = unat up"
    using assms by (subst unat_ucast_small) simp_all
  then have "unat ((ucast (ucast up :: u32) :: u64) * of_nat F_TIMER) = unat up * 100"
    using assms by (simp add: F_TIMER_def unat_word_ariths)
  then have "unat (((ucast (ucast up :: u32) :: u64) * of_nat F_TIMER) div 1000) = unat up * 100 div 1000"
    by (simp add: unat_div)
  moreover have "unat up * 100 div 1000 = unat up div 10" by simp
  ultimately have d: "unat (((ucast (ucast up :: u32) :: u64) * of_nat F_TIMER) div 1000) = unat up div 10"
    by simp
  then show ?thesis
    using assms unfolding tick_of_def MS_TO_TICKS_def by (subst unat_ucast_small) simp_all
qed

lemma sample_kernel_run: "sched_run 3 sample_kernel"
proof (rule start)
  show "wf_schedule (module_scheduler sample_kernel)"
    by (simp add: wf_schedule_def sample_kernel_def default_scheduler_def module_scheduler_init_def
        DEFAULT_WINDOWS_def All_less_Suc)
  show "known_windows sample_kernel"
    by (simp add: known_windows_def sample_kernel_def default_scheduler_def module_scheduler_init_def
        DEFAULT_WINDOWS_def find_partition_def)
  show "sched_at 3 (module_scheduler sample_kernel)"
    by (simp add: sched_at_def sample_kernel_def default_scheduler_def module_scheduler_init_def
        DEFAULT_WINDOWS_def)
  show "owned_by_window sample_kernel 3"
    by (simp add: owned_by_window_def in_window_def sample_kernel_def default_scheduler_def
        module_scheduler_init_def DEFAULT_WINDOWS_def)
qed

section \<open>Properties\<close>

text \<open>
  Temporal partitioning. In every run of the scheduler over a well-formed window
  table, whatever the partitions do between the ticks, a partition that is current at tick
  \<open>n\<close> owns a window of the table that contains the position of \<open>n\<close> in the major frame.
\<close>

theorem temporal_partitioning:
  assumes "sched_run n k" and "partition_current k = Some j"
  shows "j < length (partitions k) \<and> (\<exists>i. in_window (module_scheduler k) n i \<and>
    IDENTIFIER (status (partitions k ! j)) = win_id (windows_partition (module_scheduler k) ! i))"
  using sched_run_inv [OF assms(1)] assms(2) by (auto simp: owned_by_window_def)

theorem temporal_partitioning_witness:
  "sched_run 3 sample_kernel \<and> partition_current sample_kernel = Some 0 \<and>
   (\<exists>i. in_window (module_scheduler sample_kernel) 3 i \<and>
      IDENTIFIER (status (partitions sample_kernel ! 0)) =
      win_id (windows_partition (module_scheduler sample_kernel) ! i))"
proof -
  have "partition_current sample_kernel = Some 0" by (simp add: sample_kernel_def)
  with temporal_partitioning [OF sample_kernel_run this] sample_kernel_run show ?thesis by blast
qed

text \<open>In a run a call for the same or the next tick returns: no panic, no access outside the table.\<close>

lemma scheduler_returns:
  assumes "sched_run n k" and "tick_of up = n \<or> tick_of up = Suc n"
  obtains r k' where "partition_scheduler up k = Inr (r, k')" and "partitions k' = partitions k"
    and "windows_partition (module_scheduler k') = windows_partition (module_scheduler k)"
    and "major_frame_tick (module_scheduler k') = major_frame_tick (module_scheduler k)"
proof -
  have inv: "wf_schedule (module_scheduler k)" "known_windows k" "sched_at n (module_scheduler k)"
    using sched_run_inv [OF assms(1)] by auto
  show thesis
    by (cases rule: partition_scheduler_cases [OF inv(1,3) assms(2) inv(2), case_names restart advance gap stay])
      (rule that, assumption, simp, simp, simp)+
qed

text \<open>
  At the tick at which a window opens, the scheduler makes the owner of the window current,
  unless the owner is in mode \<open>IDLE\<close> (then no partition is current).
\<close>

theorem window_opens:
  assumes "sched_run n k" and "tick_of up = Suc n" and "i < n_windows (module_scheduler k)"
    and "Suc n mod mf (module_scheduler k) = w_start (module_scheduler k) i"
  shows "\<exists>r k'. partition_scheduler up k = Inr (r, k') \<and> sched_run (Suc n) k' \<and>
    partition_current k' =
      switch_target (win_id (windows_partition (module_scheduler k) ! i)) (partitions k)"
proof -
  let ?ms = "module_scheduler k" and ?idx = "nat (windows_idx (module_scheduler k))"
  have inv: "wf_schedule ?ms" "known_windows k" "sched_at n ?ms" "owned_by_window k n"
    using sched_run_inv [OF assms(1)] by auto
  have t: "tick_of up = n \<or> tick_of up = Suc n" using assms(2) by simp
  have sep: "\<And>a b. a < b \<Longrightarrow> b < n_windows ?ms \<Longrightarrow> w_end ?ms a \<le> w_start ?ms b"
  proof -
    fix a b assume "a < b" "b < n_windows ?ms"
    then show "w_end ?ms a \<le> w_start ?ms b"
    proof (induction b)
      case (Suc b)
      then show ?case
        using window_room [OF inv(1), of b] window_room [OF inv(1), of a] by (cases "a = b") auto
    qed simp
  qed
  have idx: "?idx < n_windows ?ms" "w_start ?ms ?idx \<le> n mod mf ?ms"
    "Suc ?idx < n_windows ?ms \<Longrightarrow> n mod mf ?ms < w_start ?ms (Suc ?idx)"
    using inv(3) by (auto simp: sched_at_def)
  have same: "i = j" if "j < n_windows ?ms" "w_start ?ms i = w_start ?ms j" for j
    using sep [of i j] sep [of j i] window_room(1) [OF inv(1), of i] window_room(1) [OF inv(1), of j]
      that assms(3) by (metis leD le_trans less_or_eq_imp_le linorder_neqE_nat)
  have "\<exists>r k'. partition_scheduler up k = Inr (r, k') \<and>
      partition_current k' = switch_target (win_id (windows_partition ?ms ! i)) (partitions k)"
  proof (cases rule: partition_scheduler_cases [OF inv(1,3) t inv(2), case_names restart advance gap stay])
    case (restart r)
    have "0 < n_windows ?ms" "w_start ?ms 0 = 0" using inv(1) by (auto simp: wf_schedule_def)
    with restart assms(2,4) same [of 0] have "i = 0" by simp
    with restart show ?thesis by simp
  next
    case (advance r)
    with assms(2,4) same [of "Suc ?idx"] have "i = Suc ?idx" by simp
    with advance show ?thesis by simp
  next
    case (gap r)
    have "\<not> ?idx < i"
      using gap(1,3) assms(2,3,4) sep [of "Suc ?idx" i] window_room(1) [OF inv(1), of "Suc ?idx"]
      by (cases "i = Suc ?idx") auto
    moreover have "\<not> i \<le> ?idx"
      using gap(1) assms(2,3,4) sep [of i ?idx] idx(1) window_room(1) [OF inv(1), of i]
        window_room(1) [OF inv(1), of ?idx] by (cases "i = ?idx") auto
    ultimately show ?thesis by simp
  next
    case (stay r)
    have "\<not> ?idx < i" using stay(1) assms(2,3,4) sep [of ?idx i] by auto
    moreover have "\<not> i < ?idx"
      using stay(3) assms(2,3,4) idx(1,2) sep [of i ?idx] window_room(1) [OF inv(1), of i] by auto
    moreover have "i \<noteq> ?idx"
    proof
      assume "i = ?idx"
      with stay(3) assms(2,4) idx(2) have "Suc n mod mf ?ms = n mod mf ?ms" by simp
      with stay(2) assms(2) show False
        using div_mult_mod_eq [of n "mf ?ms"] div_mult_mod_eq [of "Suc n" "mf ?ms"] by simp
    qed
    ultimately show ?thesis by simp
  qed
  with tick [OF assms(1) t] assms(2) show ?thesis by metis
qed

theorem window_opens_witness:
  "\<exists>r k'. partition_scheduler 40 sample_kernel = Inr (r, k') \<and> sched_run 4 k' \<and> partition_current k' = Some 1"
proof -
  have t: "tick_of 40 = Suc 3" by (simp add: tick_of_eq)
  have "1 < n_windows (module_scheduler sample_kernel)"
    and "Suc 3 mod mf (module_scheduler sample_kernel) = w_start (module_scheduler sample_kernel) 1"
    by (simp_all add: sample_kernel_def default_scheduler_def module_scheduler_init_def DEFAULT_WINDOWS_def)
  from window_opens [OF sample_kernel_run t this] show ?thesis
    by (simp add: sample_kernel_def default_scheduler_def module_scheduler_init_def DEFAULT_WINDOWS_def
        switch_target_def find_partition_def)
qed

text \<open>
  A partition in mode \<open>IDLE\<close> is never made current, and neither is one with another
  identifier than the one asked for: whatever \<open>krnl_partition_switch\<close> makes current is the
  first partition of the list with the requested identifier, and it is not \<open>IDLE\<close>.
\<close>

theorem krnl_partition_switch_safe:
  assumes "krnl_partition_switch i k = Inr (r, k')"
  shows "case partition_current k' of
     Some j \<Rightarrow> r = i \<and> j < length (partitions k) \<and> IDENTIFIER (status (partitions k ! j)) = i \<and>
       OPERATING_MODE (status (partitions k ! j)) \<noteq> IDLE \<and>
       (\<forall>j' < j. IDENTIFIER (status (partitions k ! j')) \<noteq> i)
   | None \<Rightarrow> r = IDLE_PARTITION_ID"
  using assms index_from_found [of "\<lambda>p. IDENTIFIER (status p) = i" "partitions k" "find_partition i (partitions k)"]
  by (auto simp: krnl_partition_switch_def find_partition_def Let_def split: if_splits)

theorem krnl_partition_switch_safe_witness:
  "krnl_partition_switch 2 sample_kernel = Inr (2, sample_kernel\<lparr>partition_current := Some 1\<rparr>) \<and>
   OPERATING_MODE (status (partitions sample_kernel ! 1)) \<noteq> IDLE"
proof -
  have s: "krnl_partition_switch 2 sample_kernel = Inr (2, sample_kernel\<lparr>partition_current := Some 1\<rparr>)"
    by (simp add: krnl_partition_switch_def sample_kernel_def find_partition_def)
  from krnl_partition_switch_safe [OF s] s show ?thesis by simp
qed

text \<open>
  The 32-bit millisecond counter wraps after tick 429496729 (49.7 days). \<open>wrapped_run m k\<close>: a
  run over the table of \<open>static_conf.h\<close> has reached that tick, and since then the scheduler has
  been called \<open>m\<close> times, at most once per tick, with anything the partitions do between the calls.
\<close>

inductive wrapped_run :: "nat \<Rightarrow> kcb_s \<Rightarrow> bool" where
  start: "sched_run 429496729 k \<Longrightarrow> windows_partition (module_scheduler k) = DEFAULT_WINDOWS \<Longrightarrow>
     major_frame_tick (module_scheduler k) = MS_TO_TICKS 100 \<Longrightarrow> wrapped_run 0 k"
| call: "wrapped_run m k \<Longrightarrow> m \<le> tick_of up \<Longrightarrow> tick_of up < 429496720 \<Longrightarrow>
     partition_scheduler up k = Inr (r, k') \<Longrightarrow> wrapped_run (Suc m) k'"
| activity: "wrapped_run m k \<Longrightarrow> partition_activity k k' \<Longrightarrow> wrapped_run m k'"

text \<open>The frame counter has gone on, so that the position in the frame is far behind its end.\<close>

definition overrun :: "nat \<Rightarrow> kcb_s \<Rightarrow> bool" where
  "overrun m k \<longleftrightarrow> known_windows k \<and> windows_partition (module_scheduler k) = DEFAULT_WINDOWS \<and>
     major_frame_tick (module_scheduler k) = 10 \<and> 0 \<le> windows_idx (module_scheduler k) \<and>
     windows_idx (module_scheduler k) < 4 \<and> unat (major_frame_count (module_scheduler k)) = 42949672 + m"

lemma wrapped_position:
  fixes c n :: u32
  assumes "unat n = 42949672 + m" and "m \<le> unat c" and "unat c < 429496720"
  shows "10 \<le> unat (c - n * 10)"
proof -
  define t where "t = unat c"
  have u: "uint c = int t" "uint n = int (unat n)" unfolding t_def by (rule uint_nat)+
  have c: "c = word_of_int (int t)" unfolding u(1) [symmetric] by (rule word_of_int_uint [symmetric])
  have n: "n = word_of_int (42949672 + int m)"
    using word_of_int_uint [of n] unfolding u(2) assms(1) by simp
  have e: "c - n * 10 = word_of_int (int t - (42949672 + int m) * 10)" unfolding c n by (simp add: wi_hom_syms)
  have "(int t - (42949672 + int m) * 10) mod 2 ^ 32 = (int t - (42949672 + int m) * 10 + 2 ^ 32) mod 2 ^ 32"
    by (rule mod_add_self2 [symmetric])
  also have "\<dots> = int t - (42949672 + int m) * 10 + 2 ^ 32"
    using assms(2,3) unfolding t_def [symmetric] by (intro mod_pos_pos_trivial) auto
  finally have "uint (c - n * 10) = int t - (42949672 + int m) * 10 + 2 ^ 32"
    unfolding e uint_word_of_int by simp
  then have "10 \<le> uint (c - n * 10)" using assms(2,3) unfolding t_def [symmetric] by simp
  then show ?thesis by (metis nat_mono nat_numeral unat_eq_nat_uint)
qed

lemma overrun_call:
  assumes "overrun m k" and "m \<le> tick_of up" and "tick_of up < 429496720"
  shows "\<exists>r. partition_scheduler up k = Inr (r, (serve_idle_signal k)\<lparr>
      module_scheduler := (module_scheduler k)\<lparr>idle_current_partition := False, windows_idx := 0,
        major_frame_count := major_frame_count (module_scheduler k) + 1\<rparr>,
      partition_current := switch_target 1 (partitions k)\<rparr>)"
proof -
  let ?ms = "module_scheduler k" and ?c = "MS_TO_TICKS (ucast up) :: u32"
  have ms: "major_frame_tick ?ms = 10" "windows_partition ?ms = DEFAULT_WINDOWS"
    "unat (major_frame_count ?ms) = 42949672 + m" "nat (windows_idx ?ms) < 4" "0 \<le> windows_idx ?ms"
    using assms(1) by (auto simp: overrun_def)
  have win: "window_at ?ms (windows_idx ?ms) = Some (DEFAULT_WINDOWS ! nat (windows_idx ?ms))"
    "window_at ?ms 0 = Some (DEFAULT_WINDOWS ! 0)" "win_id (DEFAULT_WINDOWS ! 0) = 1"
    using ms by (simp_all add: window_at_def DEFAULT_WINDOWS_def)
  have c: "m \<le> unat ?c" "unat ?c < 429496720" using assms(2,3) by (simp_all add: tick_of_def)
  have "10 \<le> unat (?c - major_frame_count ?ms * 10)" using wrapped_position [OF ms(3) c] .
  then have le: "major_frame_tick ?ms \<le> ?c - major_frame_count ?ms * major_frame_tick ?ms"
    using ms(1) by (simp add: word_le_nat_alt)
  have "DEFAULT_WINDOWS ! 0 \<in> set (windows_partition ?ms)" using ms by (simp add: DEFAULT_WINDOWS_def)
  then have "win_id (DEFAULT_WINDOWS ! 0) = IDLE_PARTITION_ID \<or>
      find_partition (win_id (DEFAULT_WINDOWS ! 0)) (partitions k) \<noteq> -1"
    using assms(1) unfolding known_windows_def overrun_def by blast
  then have kn: "1 = IDLE_PARTITION_ID \<or> find_partition 1 (partitions k) \<noteq> -1" unfolding win(3) .
  let ?K = "(serve_idle_signal k)\<lparr>module_scheduler := ?ms\<lparr>idle_current_partition := False,
      windows_idx := 0, major_frame_count := major_frame_count ?ms + 1\<rparr>\<rparr>"
  obtain r where "krnl_partition_switch 1 ?K = Inr (r, ?K\<lparr>partition_current := switch_target 1 (partitions k)\<rparr>)"
    using krnl_partition_switch_known [of 1 ?K] kn by auto
  with le win show ?thesis by (simp add: partition_scheduler_def Let_def with_window_def)
qed

lemma wrapped_run_overrun: "wrapped_run m k \<Longrightarrow> overrun m k"
proof (induction rule: wrapped_run.induct)
  case (start k)
  from sched_run_inv [OF start(1)] start(2,3) show ?case by (auto simp: overrun_def sched_at_def DEFAULT_WINDOWS_def)
next
  case (call m k up r k')
  then have m: "m < 429496720" by simp
  have cnt: "unat (major_frame_count (module_scheduler k)) = 42949672 + m" using call.IH by (simp add: overrun_def)
  then have "unat (major_frame_count (module_scheduler k) + 1) = 42949672 + Suc m"
    using m by (simp add: unat_word_ariths)
  with overrun_call [OF call.IH call(2,3)] call(4) call.IH show ?case
    by (auto simp: overrun_def known_windows_def)
next
  case (activity m k k')
  then show ?case using partition_activity_inv(2) [OF activity(2)] by (auto simp: overrun_def partition_activity_def)
qed

text \<open>
  C34. The 32-bit millisecond counter. \<open>partition_scheduler\<close> truncates the uptime to 32 bits
  while \<open>major_frame_count\<close> goes on. With the table of \<open>static_conf.h\<close>, once the uptime passes
  \<open>2 ^ 32\<close> ms (49.7 days), every call restarts the frame: if the scheduler is called at most once
  per tick, then at each of its calls in the whole next turn of the counter, but the last ten
  ticks, it goes back to window 0, counts another frame and makes partition 1 current (or
  none, if partition 1 is in mode \<open>IDLE\<close>). Partition 2 does not run in those 49.7 days.
\<close>

theorem uptime_wrap_restarts_frame:
  assumes "wrapped_run m k" and "m \<le> tick_of up" and "tick_of up < 429496720"
  shows "\<exists>r k'. partition_scheduler up k = Inr (r, k') \<and> windows_idx (module_scheduler k') = 0 \<and>
    major_frame_count (module_scheduler k') = major_frame_count (module_scheduler k) + 1 \<and>
    partition_current k' = switch_target 1 (partitions k) \<and> wrapped_run (Suc m) k'"
proof -
  from overrun_call [OF wrapped_run_overrun [OF assms(1)] assms(2,3)] obtain r k' where
    "partition_scheduler up k = Inr (r, k')" "windows_idx (module_scheduler k') = 0"
    "major_frame_count (module_scheduler k') = major_frame_count (module_scheduler k) + 1"
    "partition_current k' = switch_target 1 (partitions k)" by auto
  with wrapped_run.call [OF assms] show ?thesis by blast
qed

definition sample_late :: kcb_s where
  "sample_late = sample_kernel\<lparr>module_scheduler := default_scheduler\<lparr>windows_idx := 3, major_frame_count := 42949672\<rparr>,
     partition_current := Some 1\<rparr>"

lemma sample_late_run: "wrapped_run 0 sample_late"
proof (rule wrapped_run.start)
  note defs = sample_late_def sample_kernel_def default_scheduler_def module_scheduler_init_def DEFAULT_WINDOWS_def
  show "windows_partition (module_scheduler sample_late) = DEFAULT_WINDOWS"
    "major_frame_tick (module_scheduler sample_late) = MS_TO_TICKS 100" by (simp_all add: defs)
  show "sched_run 429496729 sample_late"
  proof (rule sched_run.start)
    show "wf_schedule (module_scheduler sample_late)" by (simp add: wf_schedule_def defs All_less_Suc)
    show "known_windows sample_late" by (simp add: known_windows_def defs find_partition_def)
    show "sched_at 429496729 (module_scheduler sample_late)" by (simp add: sched_at_def defs)
    show "owned_by_window sample_late 429496729" by (simp add: owned_by_window_def in_window_def defs)
  qed
qed

theorem uptime_wrap_restarts_frame_witness:
  "tick_of 4294967296 = 0 \<and>
   (\<exists>r k'. partition_scheduler 4294967296 sample_late = Inr (r, k') \<and> windows_idx (module_scheduler k') = 0 \<and>
     partition_current k' = Some 0 \<and>
     (\<exists>r k''. partition_scheduler 4294967306 k' = Inr (r, k'') \<and> windows_idx (module_scheduler k'') = 0))"
proof -
  have t: "tick_of 4294967296 = 0" "tick_of 4294967306 = 1" by (simp_all add: tick_of_def MS_TO_TICKS_def F_TIMER_def)
  have c: "switch_target 1 (partitions sample_late) = Some 0"
    by (simp add: switch_target_def sample_late_def sample_kernel_def find_partition_def)
  from uptime_wrap_restarts_frame [OF sample_late_run, of 4294967296] t(1) c obtain r k' where
    k': "partition_scheduler 4294967296 sample_late = Inr (r, k')" "windows_idx (module_scheduler k') = 0"
    "partition_current k' = Some 0" "wrapped_run 1 k'" by auto
  from uptime_wrap_restarts_frame [OF k'(4), of 4294967306] t(2) k'(1,2,3) t(1) show ?thesis by auto
qed

text \<open>What the release search returns: the first window of the partition that starts its processes.\<close>

abbreviation releases :: "int \<Rightarrow> window_partition_type \<Rightarrow> bool" where
  "releases ident w \<equiv> ident = win_id w \<and> is_periodic_processes_start w"

lemma release_search_None: "release_search ident ws = None \<longleftrightarrow> (\<forall>w \<in> set ws. \<not> releases ident w)"
  by (induction ws) auto

lemma release_search_Some:
  "release_search ident ws = Some w \<Longrightarrow>
   \<exists>i < length ws. w = ws ! i \<and> releases ident w \<and> (\<forall>j < i. \<not> releases ident (ws ! j))"
proof (induction ws)
  case (Cons a ws)
  show ?case
  proof (cases "releases ident a")
    case True
    with Cons.prems show ?thesis by (intro exI [of _ 0]) simp
  next
    case False
    with Cons obtain i where "i < length ws" "w = ws ! i" "releases ident w"
      "\<forall>j < i. \<not> releases ident (ws ! j)" by auto
    with False show ?thesis by (intro exI [of _ "Suc i"]) (auto simp: less_Suc_eq_0_disj)
  qed
qed simp

lemma TICKS_TO_MS_eq:
  assumes "unat t * 10 < 2 ^ 32" shows "unat (TICKS_TO_MS t) = unat t * 10"
proof -
  have "unat (ucast t :: u64) = unat t"
    using assms by (subst unat_ucast_small) simp_all
  then have "unat ((ucast t :: u64) * 1000 div of_nat F_TIMER) = unat t * 10"
    using assms by (simp add: F_TIMER_def unat_word_ariths unat_div)
  with assms show ?thesis unfolding TICKS_TO_MS_def by (subst unat_ucast_small) simp_all
qed

lemma release_time:
  fixes c f st :: u32
  assumes "(unat c * unat f + unat st) * 10 < 2 ^ 32" and "unat f * 10 < 2 ^ 32"
  shows "uint (c * TICKS_TO_MS f + TICKS_TO_MS st) = int ((unat c * unat f + unat st) * 10)"
proof -
  have f: "unat (TICKS_TO_MS f) = unat f * 10" and s: "unat (TICKS_TO_MS st) = unat st * 10"
    using assms by (auto intro!: TICKS_TO_MS_eq)
  have le: "unat c * (unat f * 10) + unat st * 10 < 2 ^ 32" using assms(1) by (simp add: algebra_simps)
  then have "unat c * (unat f * 10) < 2 ^ 32" by linarith
  then have m: "unat (c * TICKS_TO_MS f) = unat c * (unat f * 10)"
    using iffD1 [OF unat_mult_lem, of c "TICKS_TO_MS f"] by (simp add: f)
  then have "unat (c * TICKS_TO_MS f + TICKS_TO_MS st) = unat c * (unat f * 10) + unat st * 10"
    using iffD1 [OF unat_add_lem, of "c * TICKS_TO_MS f" "TICKS_TO_MS st"] le by (simp add: s)
  then have "unat (c * TICKS_TO_MS f + TICKS_TO_MS st) = (unat c * unat f + unat st) * 10"
    by (simp add: algebra_simps)
  then have "int (unat (c * TICKS_TO_MS f + TICKS_TO_MS st)) = int ((unat c * unat f + unat st) * 10)"
    by (rule arg_cong)
  then show ?thesis by (simp only: of_nat_unat)
qed

text \<open>
  The first release point of a partition, computed at tick \<open>n\<close>, is the start of one of
  its windows that start periodic processes: the next such window of the current frame from
  the current window on, or, when there is none, the first of the next frame.
\<close>

theorem first_release_point_is_next_window:
  assumes "sched_run n k"
    and "(n div mf (module_scheduler k) + 2) * mf (module_scheduler k) * 10 < 2 ^ 32"
    and "arinc_time_find_first_release_point (module_scheduler k) p = Inr t"
  defines "ms \<equiv> module_scheduler k" and "rel \<equiv> releases (IDENTIFIER (status p))"
    and "idx \<equiv> nat (windows_idx (module_scheduler k))"
  shows "\<exists>i < n_windows ms. rel (windows_partition ms ! i) \<and>
     (idx \<le> i \<and> (\<forall>j. idx \<le> j \<and> j < i \<longrightarrow> \<not> rel (windows_partition ms ! j)) \<and>
        t = int ((n div mf ms * mf ms + w_start ms i) * 10) \<or>
      i < idx \<and> (\<forall>j. idx \<le> j \<and> j < n_windows ms \<or> j < i \<longrightarrow> \<not> rel (windows_partition ms ! j)) \<and>
        t = int (((n div mf ms + 1) * mf ms + w_start ms i) * 10))"
proof -
  have inv: "wf_schedule ms" "sched_at n ms" using sched_run_inv [OF assms(1)] by (auto simp: ms_def)
  then have nw: "take (unat (nbr_windows ms)) (windows_partition ms) = windows_partition ms"
    and idx: "idx < n_windows ms" and cnt: "unat (major_frame_count ms) = n div mf ms"
    by (auto simp: wf_schedule_def sched_at_def ms_def idx_def)
  have room: "w_start ms i < mf ms" if "i < n_windows ms" for i
    using window_room [OF inv(1) that] by linarith
  have "(n div mf ms + 2) * mf ms * 10 = n div mf ms * mf ms * 10 + 2 * mf ms * 10"
    by (simp add: algebra_simps)
  with assms(2) have bnd: "n div mf ms * mf ms * 10 + 2 * mf ms * 10 < 2 ^ 32" by (simp add: ms_def)
  then have mf: "mf ms * 10 < 2 ^ 32" by linarith
  have lo: "(unat (major_frame_count ms) * mf ms + w_start ms i) * 10 < 2 ^ 32" if "i < n_windows ms" for i
    using bnd room [OF that] unfolding cnt add_mult_distrib by linarith
  let ?ws = "windows_partition ms" and ?id = "IDENTIFIER (status p)"
  have idx_ms: "nat (windows_idx ms) = idx" by (simp add: ms_def idx_def)
  have res: "(case release_search ?id (drop idx ?ws) of
      Some w \<Rightarrow> Inr (uint (major_frame_count ms * TICKS_TO_MS (major_frame_tick ms) + TICKS_TO_MS (start_tick w)))
    | None \<Rightarrow> (case release_search ?id (take idx ?ws) of
        Some w \<Rightarrow> Inr (uint ((major_frame_count ms + 1) * TICKS_TO_MS (major_frame_tick ms) + TICKS_TO_MS (start_tick w)))
      | None \<Rightarrow> Inl NoReturnValue)) = Inr t"
    using assms(3) unfolding arinc_time_find_first_release_point_def Let_def
    by (simp only: ms_def [symmetric] nw idx_ms)
  show ?thesis
  proof (cases "release_search ?id (drop idx ?ws)")
    case (Some w)
    from release_search_Some [OF this] obtain d where d: "d < n_windows ms - idx" "w = ?ws ! (idx + d)"
      "rel w" "\<forall>j < d. \<not> rel (?ws ! (idx + j))" by (auto simp: rel_def)
    then have in_tab: "idx + d < n_windows ms" by linarith
    have "t = int ((n div mf ms * mf ms + w_start ms (idx + d)) * 10)"
      using res Some release_time [OF lo [OF in_tab] mf] d(2) by (simp only: cnt) simp
    moreover have "\<forall>j. idx \<le> j \<and> j < idx + d \<longrightarrow> \<not> rel (?ws ! j)"
      using d(4) by (metis add_less_cancel_left le_iff_add)
    ultimately show ?thesis using d(2,3) in_tab by (intro exI [of _ "idx + d"]) auto
  next
    case None
    then obtain w where w: "release_search ?id (take idx ?ws) = Some w"
      using res by (auto split: option.splits)
    from release_search_Some [OF this] obtain i where i: "i < idx" "w = ?ws ! i" "rel w"
      "\<forall>j < i. \<not> rel (?ws ! j)" using idx by (auto simp: rel_def)
    have "n div mf ms \<le> n div mf ms * mf ms" using room [OF idx] by simp
    with bnd room [OF idx] have "n div mf ms + 1 < 2 ^ 32" by linarith
    with cnt have c1: "unat (major_frame_count ms + 1) = n div mf ms + 1"
      by (simp add: unat_word_ariths)
    have "(unat (major_frame_count ms + 1) * mf ms + w_start ms i) * 10 < 2 ^ 32"
      using bnd room [of i] i(1) idx unfolding c1 add_mult_distrib by linarith
    from release_time [OF this mf] have "t = int (((n div mf ms + 1) * mf ms + w_start ms i) * 10)"
      using res None w i(2) by (simp only: c1) simp
    moreover have "\<not> rel (?ws ! j)" if "idx \<le> j" "j < n_windows ms" for j
    proof -
      have "drop idx ?ws ! (j - idx) \<in> set (drop idx ?ws)" using that by (intro nth_mem) simp
      with that None show ?thesis by (simp add: release_search_None rel_def)
    qed
    ultimately show ?thesis using i idx by (intro exI [of _ i]) auto
  qed
qed

theorem first_release_point_is_next_window_witness:
  "arinc_time_find_first_release_point default_scheduler sample_partition = Inr 0"
proof -
  let ?ms = "module_scheduler sample_kernel"
  have "(3 div mf ?ms + 2) * mf ?ms * 10 < 2 ^ 32"
    and r: "arinc_time_find_first_release_point ?ms sample_partition = Inr 0"
    by (simp_all add: sample_kernel_def default_scheduler_def module_scheduler_init_def DEFAULT_WINDOWS_def
        arinc_time_find_first_release_point_def TICKS_TO_MS_def)
  from first_release_point_is_next_window [OF sample_kernel_run this] r
  show ?thesis by (simp add: sample_kernel_def)
qed

end
