(* ===== verification/Process_Services.thy ===== *)
theory Process_Services
  imports Mutex Module_Scheduler
begin

text \<open>
  The process management services of \<open>arinc/arinc_process.c\<close>. Each definition is a service of
  the current partition; \<open>resume_process\<close> gives the return code of a service that was
  suspended when its process is dispatched again.

  \<open>CREATE_PROCESS\<close> receives the reference and the former content of the blocks \<open>malloc\<close>
  returned: the service leaves some fields as they were. \<open>START\<close> and \<open>DELAYED_START\<close> read the
  module scheduler for the first release point.

  The theory shows that the stacks of the processes of a partition lie in its data memory
  and are disjoint, that identifiers are unique, that every service keeps the process
  table well formed with at most one running process, which state changes of a process
  each service can cause, and that \<open>STOP_SELF\<close> gives back what the process owned.
\<close>

section \<open>Services\<close>

text \<open>The assignments to the fields of the new process, in the block that held \<open>garbage\<close>.\<close>

definition init_process :: "process_s \<Rightarrow> tcb_s \<Rightarrow> PROCESS_ATTRIBUTE_TYPE \<Rightarrow> int \<Rightarrow> process_s" where
  "init_process garbage t attr index = garbage\<lparr>
     tcb := t,
     processus_status := \<lparr>DEADLINE_TIME = TIME_CAPACITY attr, CURRENT_PRIORITY = BASE_PRIORITY attr,
       PROCESS_STATE = DORMANT, ATTRIBUTES = attr\<rparr>,
     process_id := tcb_id t, process_index := index,
     processor_core_affinity := DEFAULT_PROCESS_CORE_AFFINITY, release_point_time := 0,
     is_suspended := False, time_counter := 0, saved_init_delay := 0,
     owned_mutex_id := NO_MUTEX_OWNED\<rparr>"

definition CREATE_PROCESS :: "pref \<Rightarrow> process_s \<Rightarrow> PROCESS_ATTRIBUTE_TYPE \<Rightarrow> service" where
  "CREATE_PROCESS new garbage attr s =
     (if nbr_processes s \<ge> MAX_NUMBER_OF_PROCESSES then (s, Ret INVALID_CONFIG NoOut)
      else if next_stack_addr s + STACK_SIZE attr > mr_base (data_memory s) + mr_size (data_memory s)
        then (s, Ret INVALID_CONFIG NoOut)
      else if find_process_node_by_name s (NAME attr) \<noteq> None then (s, Ret NO_ACTION NoOut)
      else if STACK_SIZE attr > mr_size (data_memory s) then (s, Ret INVALID_PARAM NoOut)
      else if BASE_PRIORITY attr < MIN_PRIORITY_VALUE \<or> BASE_PRIORITY attr > MAX_PRIORITY_VALUE
        then (s, Ret INVALID_PARAM NoOut)
      else if PERIOD attr < -1 then (s, Ret INVALID_PARAM NoOut)
      else if PERIOD attr \<ge> 0 \<and> PS_PERIOD (status s) = 0 then (s, Fault DivByZero)
      else if PERIOD attr \<ge> 0 \<and> PERIOD attr mod PS_PERIOD (status s) \<noteq> 0 then (s, Ret INVALID_CONFIG NoOut)
      else if TIME_CAPACITY attr < -1 then (s, Ret INVALID_CONFIG NoOut)
      else if PERIOD attr \<ge> 0 \<and> TIME_CAPACITY attr \<ge> 0 \<and> TIME_CAPACITY attr > PERIOD attr
        then (s, Ret INVALID_PARAM NoOut)
      else if OPERATING_MODE (status s) = NORMAL then (s, Ret INVALID_MODE NoOut)
      else
        let s1 = s\<lparr>nbr_processes := nbr_processes s + 1\<rparr>;
            (t, s2) = ucx_process_spawn (tcb garbage) (ENTRY_POINT attr) (STACK_SIZE attr) False s1;
            p = init_process garbage t attr (nbr_processes s1)
        in (s2\<lparr>processes := processes s2 @ [new], proc_heap := (proc_heap s2)(new \<mapsto> p)\<rparr>,
            Ret NO_ERROR (OutId (process_id p))))"

text \<open>
  \<open>SET_PRIORITY\<close> of a process that owns a mutex changes the priority it gets back; an owned
  identifier that names no mutex indexes the array with \<open>-1\<close>.
\<close>

definition SET_PRIORITY :: "int \<Rightarrow> int \<Rightarrow> service" where
  "SET_PRIORITY PROCESS_ID PRIO s =
     (case is_process_id_existed s PROCESS_ID of
        None \<Rightarrow> (s, Ret INVALID_PARAM NoOut)
      | Some r \<Rightarrow>
          if PRIO < MIN_PRIORITY_VALUE \<or> PRIO > MAX_PRIORITY_VALUE then (s, Ret INVALID_PARAM NoOut)
          else with_proc r (\<lambda>p.
            if pstate p = DORMANT then (s, Ret INVALID_MODE NoOut)
            else if owned_mutex_id p \<noteq> NO_MUTEX_OWNED \<and> find_mutex_by_id s (owned_mutex_id p) = -1
              then (s, Fault OutOfBounds)
            else
              let s1 = (if owned_mutex_id p \<noteq> NO_MUTEX_OWNED
                        then upd_mutex (nat (find_mutex_by_id s (owned_mutex_id p)))
                               (\<lambda>m. m\<lparr>saved_owner_priority := PRIO\<rparr>) s
                        else upd_proc r (set_prio PRIO) s)
              in if pstate p = READY \<or> pstate p = RUNNING then
                   let s2 = move_to_back r s1;
                       s3 = (if pstate p = RUNNING then s2\<lparr>process_current := Some r\<rparr> else s2)
                   in with_current (\<lambda>c _. yield_to_partition RP_SET_PRIORITY c s3) s3
                 else (s1, Ret NO_ERROR NoOut)) s)"

definition SUSPEND_SELF :: "int \<Rightarrow> u64 \<Rightarrow> service" where
  "SUSPEND_SELF TIME_OUT up s =
     with_current (\<lambda>r p.
       if owned_mutex_id p \<noteq> NO_MUTEX_OWNED \<or> error_handler_process s = Some r then (s, Ret INVALID_MODE NoOut)
       else if bad_delay up TIME_OUT then (s, Ret INVALID_PARAM NoOut)
       else if PERIOD (attrs p) \<noteq> INFINITE_TIME_VALUE then (s, Ret INVALID_MODE NoOut)
       else if TIME_OUT = 0 then (s, Ret NO_ERROR NoOut)
       else
         let s1 = upd_proc r (\<lambda>p. set_state WAITING (p\<lparr>is_suspended := True\<rparr>)) s;
             s2 = (if TIME_OUT \<noteq> INFINITE_TIME_VALUE
                   then upd_proc r (\<lambda>p. p\<lparr>time_counter := i64_of up + TIME_OUT\<rparr>) s1 else s1)
         in yield_to_partition RP_SUSPEND_SELF r s2) s"

definition SUSPEND :: "int \<Rightarrow> service" where
  "SUSPEND PROCESS_ID s =
     with_current (\<lambda>c pc.
       case is_process_id_existed s PROCESS_ID of
         None \<Rightarrow> (s, Ret INVALID_PARAM NoOut)
       | Some r \<Rightarrow> with_proc r (\<lambda>p.
           if process_id p = process_id pc then (s, Ret INVALID_PARAM NoOut)
           else if owned_mutex_id p \<noteq> NO_MUTEX_OWNED \<or> is_process_waiting_in_mutex_queue p
             then (s, Ret INVALID_MODE NoOut)
           else if pstate p = DORMANT \<or> pstate p = FAULTED then (s, Ret INVALID_MODE NoOut)
           else if PERIOD (attrs p) \<noteq> INFINITE_TIME_VALUE then (s, Ret INVALID_MODE NoOut)
           else if is_suspended p then (s, Ret NO_ACTION NoOut)
           else (upd_proc r (\<lambda>p. set_state WAITING (p\<lparr>is_suspended := True\<rparr>)) s, Ret NO_ERROR NoOut)) s) s"

definition RESUME :: "int \<Rightarrow> service" where
  "RESUME PROCESS_ID s =
     with_current (\<lambda>c pc.
       case is_process_id_existed s PROCESS_ID of
         None \<Rightarrow> (s, Ret INVALID_PARAM NoOut)
       | Some r \<Rightarrow> with_proc r (\<lambda>p.
           if process_id p = process_id pc then (s, Ret INVALID_PARAM NoOut)
           else if pstate p = DORMANT then (s, Ret INVALID_MODE NoOut)
           else if PERIOD (attrs p) \<noteq> INFINITE_TIME_VALUE \<and> pstate p \<noteq> FAULTED then (s, Ret INVALID_MODE NoOut)
           else if \<not> is_suspended p \<and> pstate p \<noteq> FAULTED then (s, Ret NO_ACTION NoOut)
           else
             let p1 = (if is_suspended p then p\<lparr>is_suspended := False, time_counter := 0\<rparr> else p);
                 s1 = upd_proc r (\<lambda>_. p1) s
             in if time_counter p1 = 0 \<or> \<not> is_process_waiting_in_waiting_queue p1
                then yield_to_partition RP_RESUME c (upd_proc r (set_state READY) s1)
                else (s1, Ret NO_ERROR NoOut)) s) s"

text \<open>
  \<open>STOP_SELF\<close> abandons the caller: \<open>Jump\<close>. The mutex the process owns goes to the first
  waiting process.
\<close>

definition release_owned :: "pref \<Rightarrow> process_s \<Rightarrow> pcb_s \<Rightarrow> fault + pcb_s" where
  "release_owned r p s =
     (if owned_mutex_id p = NO_MUTEX_OWNED then Inr s
      else let index = find_mutex_by_id s (owned_mutex_id p); i = nat index in
        if index = -1 then Inl OutOfBounds
        else
          let s1 = free_mutex i r (reset_lock_level i s);
              s2 = (if pstate p = RUNNING then s1\<lparr>process_current := Some r\<rparr> else s1)
          in wake_mutex_waiter i (mutex_id (mutexes s ! i)) s2)"

definition STOP_SELF :: service where
  "STOP_SELF s =
     with_current (\<lambda>r p.
       case release_owned r p (upd_proc r (set_deadline INFINITE_TIME_VALUE) s) of
         Inl f \<Rightarrow> (s, Fault f)
       | Inr s' \<Rightarrow>
           (upd_proc r (\<lambda>p. set_state DORMANT (p\<lparr>time_counter := 0, is_suspended := False\<rparr>)) s', Jump)) s"

definition STOP :: "int \<Rightarrow> service" where
  "STOP PROCESS_ID s =
     with_current (\<lambda>c pc.
       case is_process_id_existed s PROCESS_ID of
         None \<Rightarrow> (s, Ret INVALID_PARAM NoOut)
       | Some r \<Rightarrow> with_proc r (\<lambda>p.
           if process_id p = process_id pc then (s, Ret INVALID_PARAM NoOut)
           else if pstate p = DORMANT then (s, Ret NO_ACTION NoOut)
           else
             case (if is_process_waiting_in_waiting_queue p then remove_process_from_waiting_queue r s
                   else Some s) of
               None \<Rightarrow> (s, Fault OutOfBounds)
             | Some s1 \<Rightarrow>
                 yield_to_partition RP_STOP c
                   (upd_proc r (\<lambda>p. set_deadline INFINITE_TIME_VALUE
                      (set_state DORMANT (p\<lparr>time_counter := 0, is_suspended := False\<rparr>))) s1)) s) s"

text \<open>The part \<open>START\<close> and \<open>DELAYED_START\<close> share: base priority and a fresh context.\<close>

definition reinit_process :: "process_s \<Rightarrow> process_s" where
  "reinit_process p = context_init (set_prio (BASE_PRIORITY (attrs p)) p)"

definition START :: "int \<Rightarrow> mscb_s \<Rightarrow> u64 \<Rightarrow> service" where
  "START PROCESS_ID ms up s =
     (case is_process_id_existed s PROCESS_ID of
        None \<Rightarrow> (s, Ret INVALID_PARAM NoOut)
      | Some r \<Rightarrow> with_proc r (\<lambda>p.
          if pstate p \<noteq> DORMANT then (s, Ret NO_ACTION NoOut)
          else if bad_delay up (TIME_CAPACITY (attrs p)) then (s, Ret INVALID_CONFIG NoOut)
          else let s1 = upd_proc r reinit_process s in
            if PERIOD (attrs p) = INFINITE_TIME_VALUE then
              (if OPERATING_MODE (status s) = NORMAL then
                 let s2 = upd_proc r (\<lambda>p. update_process_deadline (i64_of up) (set_state READY p)) s1
                 in with_current (\<lambda>c _. yield_to_partition RP_START c s2) s2
               else (upd_proc r (set_state WAITING) s1, Ret NO_ERROR NoOut))
            else
              (if OPERATING_MODE (status s) = NORMAL then
                 (case arinc_time_find_first_release_point ms s of
                    Inl f \<Rightarrow> (s, Fault f)
                  | Inr t \<Rightarrow>
                      (upd_proc r (\<lambda>p. update_process_deadline t
                         (set_state WAITING (p\<lparr>release_point_time := t\<rparr>))) s1, Ret NO_ERROR NoOut))
               else (upd_proc r (set_state WAITING) s1, Ret NO_ERROR NoOut))) s)"

definition DELAYED_START :: "int \<Rightarrow> int \<Rightarrow> mscb_s \<Rightarrow> u64 \<Rightarrow> service" where
  "DELAYED_START PROCESS_ID DELAY_TIME ms up s =
     (case is_process_id_existed s PROCESS_ID of
        None \<Rightarrow> (s, Ret INVALID_PARAM NoOut)
      | Some r \<Rightarrow> with_proc r (\<lambda>p.
          if pstate p \<noteq> DORMANT then (s, Ret NO_ACTION NoOut)
          else if bad_delay up DELAY_TIME then (s, Ret INVALID_PARAM NoOut)
          else if DELAY_TIME = INFINITE_TIME_VALUE then (s, Ret INVALID_PARAM NoOut)
          else if PERIOD (attrs p) \<noteq> INFINITE_TIME_VALUE \<and> DELAY_TIME \<ge> PERIOD (attrs p)
            then (s, Ret INVALID_PARAM NoOut)
          else if TIME_CAPACITY (attrs p) < INFINITE_TIME_VALUE \<or>
            (TIME_CAPACITY (attrs p) \<ge> 0 \<and>
             time_overflow (up + u64_of (TIME_CAPACITY (attrs p)) + u64_of DELAY_TIME))
            then (s, Ret INVALID_CONFIG NoOut)
          else let s1 = upd_proc r reinit_process s in
            if PERIOD (attrs p) = INFINITE_TIME_VALUE then
              (if OPERATING_MODE (status s) = NORMAL then
                 let s2 = (if DELAY_TIME = 0
                           then upd_proc r (\<lambda>p. update_process_deadline (i64_of up) (set_state READY p)) s1
                           else upd_proc r (\<lambda>p. (update_process_deadline (i64_of up + DELAY_TIME)
                                  (set_state WAITING p))\<lparr>time_counter := i64_of up + DELAY_TIME\<rparr>) s1)
                 in with_current (\<lambda>c _. yield_to_partition RP_DELAYED_START c s2) s2
               else (upd_proc r (\<lambda>p. set_state WAITING (p\<lparr>saved_init_delay := DELAY_TIME\<rparr>)) s1, Ret NO_ERROR NoOut))
            else
              (if OPERATING_MODE (status s) = NORMAL then
                 (case arinc_time_find_first_release_point ms s of
                    Inl f \<Rightarrow> (s, Fault f)
                  | Inr t \<Rightarrow>
                      (upd_proc r (\<lambda>p. update_process_deadline (t + DELAY_TIME)
                         (set_state WAITING (p\<lparr>release_point_time := t + DELAY_TIME\<rparr>))) s1, Ret NO_ERROR NoOut))
               else (upd_proc r (\<lambda>p. set_state WAITING (p\<lparr>saved_init_delay := DELAY_TIME\<rparr>)) s1, Ret NO_ERROR NoOut))) s)"

text \<open>
  \<open>LOCK_PREEMPTION\<close> and \<open>UNLOCK_PREEMPTION\<close> are the mutex 1. When the mutex service is
  suspended the frame of the caller stays above it; \<open>finish_lock\<close> is what it does then.
\<close>

definition wrap_frame :: "(resume_point \<Rightarrow> resume_point) \<Rightarrow> pref \<Rightarrow> pcb_s \<Rightarrow> pcb_s" where
  "wrap_frame w r s = upd_proc r (\<lambda>p. case tcb_ctx (tcb p) of
     Ctx_Resume k \<Rightarrow> set_context (Ctx_Resume (w k)) p | _ \<Rightarrow> p) s"

definition finish_lock :: "RETURN_CODE_TYPE \<Rightarrow> service" where
  "finish_lock rc s =
     (let s1 = (case GET_MUTEX_STATUS PREEMPTION_LOCK_MUTEX s of
                  (_, Ret NO_ERROR (OutMutexStatus ms)) \<Rightarrow>
                    s\<lparr>status := (status s)\<lparr>LOCK_LEVEL := LOCK_COUNT ms\<rparr>\<rparr>
                | _ \<Rightarrow> s)
      in (s1, Ret rc (OutLockLevel (LOCK_LEVEL (status s1)))))"

definition LOCK_PREEMPTION :: "u64 \<Rightarrow> service" where
  "LOCK_PREEMPTION up s =
     with_current (\<lambda>r p.
       if error_handler_process s = Some r \<or> OPERATING_MODE (status s) \<noteq> NORMAL
       then (s, Ret NO_ACTION (OutLockLevel (LOCK_LEVEL (status s))))
       else case krnl_acquire_mutex PREEMPTION_LOCK_MUTEX INFINITE_TIME_VALUE up s of
         (s', Ret rc _) \<Rightarrow> finish_lock rc s'
       | (s', Yield) \<Rightarrow> (wrap_frame RP_LOCK_PREEMPTION r s', Yield)
       | r' \<Rightarrow> r') s"

definition UNLOCK_PREEMPTION :: service where
  "UNLOCK_PREEMPTION s =
     with_current (\<lambda>r p.
       if error_handler_process s = Some r \<or> OPERATING_MODE (status s) \<noteq> NORMAL \<or> LOCK_LEVEL (status s) = 0
       then (s, Ret NO_ACTION (OutLockLevel (LOCK_LEVEL (status s))))
       else if owned_mutex_id p \<noteq> PREEMPTION_LOCK_MUTEX
       then (s, Ret INVALID_MODE (OutLockLevel (LOCK_LEVEL (status s))))
       else case krnl_release_mutex PREEMPTION_LOCK_MUTEX s of
         (s', Ret rc _) \<Rightarrow> finish_lock rc s'
       | (s', Yield) \<Rightarrow> (wrap_frame RP_UNLOCK_PREEMPTION r s', Yield)
       | r' \<Rightarrow> r') s"

definition GET_MY_ID :: service where
  "GET_MY_ID s =
     with_current (\<lambda>r p.
       if process_id p = NULL_PROCESS_ID \<or> error_handler_process s = Some r then (s, Ret INVALID_MODE NoOut)
       else (s, Ret NO_ERROR (OutId (process_id p)))) s"

definition GET_PROCESS_ID :: "string \<Rightarrow> service" where
  "GET_PROCESS_ID PROCESS_NAME s =
     (case find_process_node_by_name s PROCESS_NAME of
        None \<Rightarrow> (s, Ret INVALID_CONFIG NoOut)
      | Some r \<Rightarrow> with_proc r (\<lambda>p. (s, Ret NO_ERROR (OutId (process_id p)))) s)"

definition GET_PROCESS_STATUS :: "int \<Rightarrow> service" where
  "GET_PROCESS_STATUS PROCESS_ID s =
     (case is_process_id_existed s PROCESS_ID of
        None \<Rightarrow> (s, Ret INVALID_CONFIG NoOut)
      | Some r \<Rightarrow> with_proc r (\<lambda>p. (s, Ret NO_ERROR (OutProcessStatus (processus_status p)))) s)"

definition INITIALIZE_PROCESS_CORE_AFFINITY :: "int \<Rightarrow> int \<Rightarrow> service" where
  "INITIALIZE_PROCESS_CORE_AFFINITY PROCESS_ID PROCESSOR_CORE_ID s =
     (case is_process_id_existed s PROCESS_ID of
        None \<Rightarrow> (s, Ret INVALID_PARAM NoOut)
      | Some r \<Rightarrow>
          if PROCESSOR_CORE_ID \<noteq> DEFAULT_PROCESS_CORE_AFFINITY then (s, Ret INVALID_CONFIG NoOut)
          else if OPERATING_MODE (status s) = NORMAL then (s, Ret INVALID_MODE NoOut)
          else (upd_proc r (\<lambda>p. p\<lparr>processor_core_affinity := PROCESSOR_CORE_ID\<rparr>) s, Ret NO_ERROR NoOut))"

definition GET_MY_PROCESSOR_CORE_ID :: service where
  "GET_MY_PROCESSOR_CORE_ID s =
     with_current (\<lambda>r p. (s, Ret NO_ERROR (OutId (processor_core_affinity p)))) s"

definition GET_MY_INDEX :: service where
  "GET_MY_INDEX s =
     with_current (\<lambda>r p.
       if process_id p = NULL_PROCESS_ID \<or> error_handler_process s = Some r then (s, Ret INVALID_MODE NoOut)
       else (s, Ret NO_ERROR (OutId (process_index p)))) s"

text \<open>The return codes of the suspended services, read when their process is dispatched again.\<close>

definition resume_process :: "resume_point \<Rightarrow> process_s \<Rightarrow> RETURN_CODE_TYPE" where
  "resume_process k p =
     (case k of
        RP_SUSPEND_SELF \<Rightarrow> if time_counter p = 0 then TIMED_OUT else NO_ERROR
      | RP_STOP \<Rightarrow> if owned_mutex_id p \<noteq> NO_MUTEX_OWNED then INVALID_MODE else NO_ERROR
      | _ \<Rightarrow> NO_ERROR)"

section \<open>Invariants the process services keep\<close>

text \<open>
  What a process service may change of a process besides its context and timers: it does
  not touch its identity, its stack or the mutex it owns, and it does not make it
  \<open>RUNNING\<close>.
\<close>

definition harmless :: "process_s \<Rightarrow> process_s \<Rightarrow> bool" where
  "harmless p q \<longleftrightarrow> process_id q = process_id p \<and> owned_mutex_id q = owned_mutex_id p \<and>
     stack (tcb q) = stack (tcb p) \<and> stack_sz (tcb q) = stack_sz (tcb p) \<and>
     (pstate q = RUNNING \<longrightarrow> pstate p = RUNNING)"

lemma harmless_refl [simp]: "harmless p p"
  by (simp add: harmless_def)

text \<open>
  An invariant of a partition that survives every primitive step of a process service. The
  services are shown to keep such an invariant once; the interpretations below give the
  result for each invariant of the development.
\<close>

locale process_inv =
  fixes inv :: "pcb_s \<Rightarrow> bool"
  assumes upd: "inv s \<Longrightarrow> (\<And>p. proc_heap s r = Some p \<Longrightarrow> harmless p (f p)) \<Longrightarrow> inv (upd_proc r f s)"
    and to_back: "inv s \<Longrightarrow> r \<in> set (processes s) \<Longrightarrow> inv (move_to_back r s)"
    and running: "inv s \<Longrightarrow> r \<in> set (processes s) \<Longrightarrow> proc_heap s r = Some p \<Longrightarrow> pstate p = RUNNING \<Longrightarrow>
      inv (s\<lparr>process_current := Some r\<rparr>)"
    and saved: "inv s \<Longrightarrow> inv (upd_mutex i (\<lambda>m. m\<lparr>saved_owner_priority := n\<rparr>) s)"
    and leave: "inv s \<Longrightarrow> remove_process_from_waiting_queue r s = Some s' \<Longrightarrow> inv s'"
begin

lemma keep_current:
  "inv s \<Longrightarrow> (\<And>r p. process_current s = Some r \<Longrightarrow> proc_heap s r = Some p \<Longrightarrow> inv (fst (k r p))) \<Longrightarrow>
   inv (fst (with_current k s))"
  by (auto simp: with_current_def with_proc_def split: option.splits)

lemma keep_proc:
  "inv s \<Longrightarrow> (\<And>p. proc_heap s r = Some p \<Longrightarrow> inv (fst (k p))) \<Longrightarrow> inv (fst (with_proc r k s))"
  by (auto simp: with_proc_def split: option.splits)

lemma keep_yield: "inv s \<Longrightarrow> inv (fst (yield_to_partition k r s))"
  by (simp add: yield_to_partition_def upd harmless_def)

lemma SET_PRIORITY_inv:
  assumes "inv s" shows "inv (fst (SET_PRIORITY i n s))"
proof (cases "is_process_id_existed s i")
  case None
  then show ?thesis using assms by (simp add: SET_PRIORITY_def)
next
  case (Some r)
  from is_process_id_existed_Some [OF Some] obtain p where r: "r \<in> set (processes s)" "proc_heap s r = Some p"
    by blast
  define s1 where "s1 = (if owned_mutex_id p \<noteq> NO_MUTEX_OWNED
      then upd_mutex (nat (find_mutex_by_id s (owned_mutex_id p))) (\<lambda>m. m\<lparr>saved_owner_priority := n\<rparr>) s
      else upd_proc r (set_prio n) s)"
  have s1: "inv s1" using assms by (auto simp: s1_def harmless_def intro!: saved upd)
  have r1: "r \<in> set (processes s1)" "\<exists>q. proc_heap s1 r = Some q \<and> pstate q = pstate p"
    using r by (auto simp: s1_def)
  have s2: "inv (move_to_back r s1)" by (rule to_back [OF s1 r1(1)])
  have s3: "inv ((move_to_back r s1)\<lparr>process_current := Some r\<rparr>)" if "pstate p = RUNNING"
    using running [OF s2, of r] r1 that by auto
  have "fst (SET_PRIORITY i n s) = s \<or> fst (SET_PRIORITY i n s) = s1 \<or>
      (\<exists>s3. inv s3 \<and> fst (SET_PRIORITY i n s) = fst (with_current (\<lambda>c _. yield_to_partition RP_SET_PRIORITY c s3) s3))"
    using Some r(2) s2 s3 by (auto simp: SET_PRIORITY_def with_proc_def Let_def s1_def)
  with assms s1 show ?thesis by (auto intro!: keep_current keep_yield)
qed

lemma SUSPEND_SELF_inv: "inv s \<Longrightarrow> inv (fst (SUSPEND_SELF t up s))"
  unfolding SUSPEND_SELF_def
  by (rule keep_current) (auto simp: Let_def harmless_def intro!: keep_yield upd)

lemma SUSPEND_inv: "inv s \<Longrightarrow> inv (fst (SUSPEND i s))"
  unfolding SUSPEND_def
  by (rule keep_current) (auto simp: harmless_def intro!: keep_proc upd split: option.splits)

lemma RESUME_inv: "inv s \<Longrightarrow> inv (fst (RESUME i s))"
  unfolding RESUME_def
  by (rule keep_current) (auto simp: Let_def harmless_def intro!: keep_proc keep_yield upd split: option.splits)

lemma STOP_inv: "inv s \<Longrightarrow> inv (fst (STOP i s))"
  unfolding STOP_def
  by (rule keep_current)
    (auto simp: harmless_def intro!: keep_proc keep_yield upd intro: leave split: option.splits if_splits)

lemma reinit_harmless: "harmless p q \<Longrightarrow> harmless p (reinit_process q)"
  by (simp add: harmless_def reinit_process_def context_init_def)

lemma START_inv: "inv s \<Longrightarrow> inv (fst (START i ms up s))"
  unfolding START_def
  by (auto simp: Let_def harmless_def reinit_process_def context_init_def update_process_deadline_def
      intro!: keep_proc keep_current keep_yield upd split: option.splits sum.splits)

lemma DELAYED_START_inv: "inv s \<Longrightarrow> inv (fst (DELAYED_START i d ms up s))"
  unfolding DELAYED_START_def
  by (auto simp: Let_def harmless_def reinit_process_def context_init_def update_process_deadline_def
      intro!: keep_proc keep_current keep_yield upd split: option.splits sum.splits)

lemma INITIALIZE_PROCESS_CORE_AFFINITY_inv: "inv s \<Longrightarrow> inv (fst (INITIALIZE_PROCESS_CORE_AFFINITY i c s))"
  unfolding INITIALIZE_PROCESS_CORE_AFFINITY_def
  by (auto simp: harmless_def intro!: upd split: option.splits)

end

text \<open>The removal from the waiting queues, one step at a time.\<close>

lemma leave_via_step:
  assumes "leave_via fld leave clear r s = Some s'" and "P s"
    and "\<And>i t. leave r i s = Some t \<Longrightarrow> P t" and "\<And>t. P t \<Longrightarrow> P (upd_proc r clear t)"
  shows "P s'"
  using assms by (auto simp: leave_via_def split: option.splits)

lemma remove_from_queue_induct:
  assumes "remove_process_from_waiting_queue r s = Some s'" and "P s"
    and "\<And>s i t. P s \<Longrightarrow> leave_queuing_port r i s = Some t \<Longrightarrow> P t"
    and "\<And>s i t. P s \<Longrightarrow> leave_blackboard r i s = Some t \<Longrightarrow> P t"
    and "\<And>s i t. P s \<Longrightarrow> leave_buffer r i s = Some t \<Longrightarrow> P t"
    and "\<And>s i t. P s \<Longrightarrow> leave_semaphore r i s = Some t \<Longrightarrow> P t"
    and "\<And>s i t. P s \<Longrightarrow> leave_event r i s = Some t \<Longrightarrow> P t"
    and "\<And>s i t. P s \<Longrightarrow> leave_mutex r i s = Some t \<Longrightarrow> P t"
    and "\<And>s f. P s \<Longrightarrow> (\<And>p. harmless p (f p)) \<Longrightarrow> P (upd_proc r f s)"
  shows "P s'"
proof -
  note st = leave_via_step [where P = P]
  from assms(1) obtain s1 s2 s3 s4 s5 where
    l: "leave_via waiting_queuing_port leave_queuing_port (\<lambda>p. p\<lparr>waiting_queuing_port := None\<rparr>) r s = Some s1"
       "leave_via waiting_blackboard leave_blackboard (\<lambda>p. p\<lparr>waiting_blackboard := None\<rparr>) r s1 = Some s2"
       "leave_via waiting_buffer leave_buffer (\<lambda>p. p\<lparr>waiting_buffer := None\<rparr>) r s2 = Some s3"
       "leave_via waiting_semaphore leave_semaphore (\<lambda>p. p\<lparr>waiting_semaphore := None\<rparr>) r s3 = Some s4"
       "leave_via waiting_event leave_event (\<lambda>p. p\<lparr>waiting_event := None\<rparr>) r s4 = Some s5"
       "leave_via waiting_mutex leave_mutex (\<lambda>p. p\<lparr>waiting_mutex := None\<rparr>) r s5 = Some s'"
    by (auto simp: remove_process_from_waiting_queue_def bind_eq_Some_conv)
  have P1: "P s1" by (rule st [OF l(1) assms(2)], rule assms(3) [OF assms(2)], assumption,
        rule assms(9), assumption, simp add: harmless_def)
  have P2: "P s2" by (rule st [OF l(2) P1], rule assms(4) [OF P1], assumption,
        rule assms(9), assumption, simp add: harmless_def)
  have P3: "P s3" by (rule st [OF l(3) P2], rule assms(5) [OF P2], assumption,
        rule assms(9), assumption, simp add: harmless_def)
  have P4: "P s4" by (rule st [OF l(4) P3], rule assms(6) [OF P3], assumption,
        rule assms(9), assumption, simp add: harmless_def)
  have P5: "P s5" by (rule st [OF l(5) P4], rule assms(7) [OF P4], assumption,
        rule assms(9), assumption, simp add: harmless_def)
  show "P s'" by (rule st [OF l(6) P5], rule assms(8) [OF P5], assumption,
        rule assms(9), assumption, simp add: harmless_def)
qed

lemma leave_same_procs:
  "leave_queuing_port r i s = Some t \<Longrightarrow> same_procs s t"
  "leave_blackboard r i s = Some t \<Longrightarrow> same_procs s t"
  "leave_buffer r i s = Some t \<Longrightarrow> same_procs s t"
  "leave_semaphore r i s = Some t \<Longrightarrow> same_procs s t"
  "leave_event r i s = Some t \<Longrightarrow> same_procs s t"
  "leave_mutex r i s = Some t \<Longrightarrow> same_procs s t"
  by (auto simp: leave_queuing_port_def leave_blackboard_def leave_buffer_def leave_semaphore_def
      leave_event_def leave_mutex_def same_procs_def Let_def split: if_splits)

lemma leave_same_mutexes:
  "leave_queuing_port r i s = Some t \<Longrightarrow> mutexes t = mutexes s \<and> mutex_count t = mutex_count s"
  "leave_blackboard r i s = Some t \<Longrightarrow> mutexes t = mutexes s \<and> mutex_count t = mutex_count s"
  "leave_buffer r i s = Some t \<Longrightarrow> mutexes t = mutexes s \<and> mutex_count t = mutex_count s"
  "leave_semaphore r i s = Some t \<Longrightarrow> mutexes t = mutexes s \<and> mutex_count t = mutex_count s"
  "leave_event r i s = Some t \<Longrightarrow> mutexes t = mutexes s \<and> mutex_count t = mutex_count s"
  by (auto simp: leave_queuing_port_def leave_blackboard_def leave_buffer_def leave_semaphore_def
      leave_event_def Let_def split: if_splits)

lemma same_procs_mutex_inv:
  "same_procs s t \<Longrightarrow> mutexes t = mutexes s \<and> mutex_count t = mutex_count s \<Longrightarrow> mutex_inv s \<Longrightarrow> mutex_inv t"
  by (rule mutex_inv_cong [where s = s]) (auto simp: same_procs_def)

lemma mutex_inv_upd_beyond:
  assumes "mutex_inv s" and "\<not> i < nat (mutex_count s)"
  shows "mutex_inv (upd_mutex i g s)"
proof -
  have nth: "\<And>j. j < nat (mutex_count s) \<Longrightarrow> mutexes (upd_mutex i g s) ! j = mutexes s ! j"
    using assms(2) by (auto simp: nth_list_update_neq)
  have "mutex_excl (upd_mutex i g s)"
    using assms(1) nth unfolding mutex_inv_def mutex_excl_def by (simp del: upd_mutex_frame(7)) metis
  moreover have "mutex_ids_ok (upd_mutex i g s)"
    using assms(1) nth unfolding mutex_inv_def mutex_ids_ok_def by (simp del: upd_mutex_frame(7)) simp
  moreover have "mutex_locks_ok (upd_mutex i g s)" "mutex_queues_ok (upd_mutex i g s)"
    using assms(1) nth unfolding mutex_inv_def mutex_locks_ok_def mutex_queues_ok_def
    by (simp_all del: upd_mutex_frame(7))
  ultimately show ?thesis using assms(1) by (simp add: mutex_inv_def wf_procs_def proc_ids_ok_def)
qed

lemma leave_mutex_inv:
  assumes inv: "mutex_inv s" and "leave_mutex r i s = Some t"
  shows "mutex_inv t"
proof (cases "t = s")
  case False
  let ?g = "\<lambda>q. q\<lparr>mx_waiting_processes := remove1 r (mx_waiting_processes q),
      mutex_status := (mutex_status q)\<lparr>MX_WAITING_PROCESSES := MX_WAITING_PROCESSES (mutex_status q) - 1\<rparr>\<rparr>"
  from False assms(2) have t: "t = upd_mutex i ?g s" and i: "i < length (mutexes s)"
    and r: "r \<in> set (mx_waiting_processes (mutexes s ! i))"
    by (auto simp: leave_mutex_def upd_mutex_def Let_def split: if_splits)
  show ?thesis
  proof (cases "i < nat (mutex_count s)")
    case True
    note f = mutex_facts [OF inv True]
    from r have "length (mx_waiting_processes (mutexes s ! i)) > 0" by (cases "mx_waiting_processes (mutexes s ! i)") auto
    then have "MX_WAITING_PROCESSES (mx s i) - 1 = int (length (remove1 r (mx_waiting_processes (mutexes s ! i))))"
      using f(1) r by (simp add: length_remove1 of_nat_diff Suc_leI)
    moreover have "set (remove1 r (mx_waiting_processes (mutexes s ! i))) \<subseteq> set (processes s)"
      using f(2) set_remove1_subset by fastforce
    ultimately show ?thesis unfolding t by (intro mutex_inv_queue [OF inv True]) (use f in auto)
  next
    case False
    then show ?thesis unfolding t by (rule mutex_inv_upd_beyond [OF inv])
  qed
qed (use inv in simp)

interpretation mutex_inv: process_inv mutex_inv
proof
  fix s r f
  assume "mutex_inv s" and "\<And>p. proc_heap s r = Some p \<Longrightarrow> harmless p (f p)"
  then show "mutex_inv (upd_proc r f s)" by (intro mutex_inv_upd_proc) (auto simp: harmless_def)
next
  fix s r
  assume "mutex_inv s" and "r \<in> set (processes s)"
  then show "mutex_inv (move_to_back r s)"
    using wf_procs_move(2) [of s r] set_processes_move(2) [of s r]
    by (simp add: mutex_inv_def proc_ids_ok_def mutex_ids_ok_def mutex_excl_def mutex_locks_ok_def
        mutex_queues_ok_def del: move_frame(13,14))
next
  fix s r p
  assume "mutex_inv s" and "r \<in> set (processes s)" and "proc_heap s r = Some p" and "pstate p = RUNNING"
  then show "mutex_inv (s\<lparr>process_current := Some r\<rparr>)"
    using mutex_inv_cong [of "s\<lparr>process_current := Some r\<rparr>" s] by simp
next
  fix s i n
  assume inv: "mutex_inv s"
  show "mutex_inv (upd_mutex i (\<lambda>m. m\<lparr>saved_owner_priority := n\<rparr>) s)"
  proof (cases "i < nat (mutex_count s)")
    case True
    then show ?thesis by (intro mutex_inv_queue [OF inv True]) (use mutex_facts [OF inv True] in auto)
  next
    case False
    then show ?thesis by (rule mutex_inv_upd_beyond [OF inv])
  qed
next
  fix s r s'
  assume "mutex_inv s" and "remove_process_from_waiting_queue r s = Some s'"
  from this(2,1) show "mutex_inv s'"
  proof (rule remove_from_queue_induct)
    fix s f assume "mutex_inv s" "\<And>p. harmless p (f p)"
    then show "mutex_inv (upd_proc r f s)" by (intro mutex_inv_upd_proc) (auto simp: harmless_def)
  qed (erule (1) leave_mutex_inv same_procs_mutex_inv [OF leave_same_procs(1) leave_same_mutexes(1), rotated -1]
      same_procs_mutex_inv [OF leave_same_procs(2) leave_same_mutexes(2), rotated -1]
      same_procs_mutex_inv [OF leave_same_procs(3) leave_same_mutexes(3), rotated -1]
      same_procs_mutex_inv [OF leave_same_procs(4) leave_same_mutexes(4), rotated -1]
      same_procs_mutex_inv [OF leave_same_procs(5) leave_same_mutexes(5), rotated -1], assumption?)+
qed

section \<open>Services that use a mutex\<close>

text \<open>
  \<open>LOCK_PREEMPTION\<close>, \<open>UNLOCK_PREEMPTION\<close> and \<open>STOP_SELF\<close> also keep an invariant that the mutex
  operations keep.
\<close>

locale process_mutex_inv = process_inv +
  assumes acquire: "inv s \<Longrightarrow> inv (fst (krnl_acquire_mutex mid t up s))"
    and release: "inv s \<Longrightarrow> inv (fst (krnl_release_mutex mid s))"
    and owned: "inv s \<Longrightarrow> process_current s = Some r \<Longrightarrow> proc_heap s r = Some q \<Longrightarrow>
      owned_mutex_id q = owned_mutex_id p \<Longrightarrow> pstate q = pstate p \<Longrightarrow> release_owned r p s = Inr s' \<Longrightarrow> inv s'"
    and level: "inv s \<Longrightarrow> inv (s\<lparr>status := (status s)\<lparr>LOCK_LEVEL := l\<rparr>\<rparr>)"
begin

lemma wrap_frame_inv: "inv s \<Longrightarrow> inv (wrap_frame w r s)"
  by (auto simp: wrap_frame_def harmless_def intro!: upd split: jmp_buf.splits)

lemma finish_lock_inv: "inv s \<Longrightarrow> inv (fst (finish_lock rc s))"
  by (auto simp: finish_lock_def GET_MUTEX_STATUS_def Let_def intro: level)

lemma LOCK_PREEMPTION_inv: "inv s \<Longrightarrow> inv (fst (LOCK_PREEMPTION up s))"
proof -
  assume i: "inv s"
  obtain s' o' where a: "krnl_acquire_mutex PREEMPTION_LOCK_MUTEX INFINITE_TIME_VALUE up s = (s', o')"
    by fastforce
  have "inv s'" using acquire [OF i, of PREEMPTION_LOCK_MUTEX INFINITE_TIME_VALUE up] a by simp
  with i a show ?thesis unfolding LOCK_PREEMPTION_def
    by (intro keep_current) (auto intro: wrap_frame_inv finish_lock_inv split: outcome.splits)
qed

lemma UNLOCK_PREEMPTION_inv: "inv s \<Longrightarrow> inv (fst (UNLOCK_PREEMPTION s))"
proof -
  assume i: "inv s"
  obtain s' o' where a: "krnl_release_mutex PREEMPTION_LOCK_MUTEX s = (s', o')" by fastforce
  have "inv s'" using release [OF i, of PREEMPTION_LOCK_MUTEX] a by simp
  with i a show ?thesis unfolding UNLOCK_PREEMPTION_def
    by (intro keep_current) (auto intro: wrap_frame_inv finish_lock_inv split: outcome.splits)
qed

lemma STOP_SELF_inv:
  assumes i: "inv s" shows "inv (fst (STOP_SELF s))"
proof (cases rule: with_current_cases [of s])
  case (ok r p)
  let ?s = "upd_proc r (set_deadline INFINITE_TIME_VALUE) s"
  have i': "inv ?s" by (rule upd [OF i]) (simp add: harmless_def)
  show ?thesis
  proof (cases "release_owned r p ?s")
    case (Inl f)
    then show ?thesis using ok(3) i by (simp add: STOP_SELF_def)
  next
    case (Inr s')
    have "inv s'"
      by (rule owned [OF i' _ _ _ _ Inr, where q = "set_deadline INFINITE_TIME_VALUE p"]) (use ok in auto)
    then show ?thesis using ok(3) Inr by (auto simp: STOP_SELF_def harmless_def intro!: upd)
  qed
qed (use i in \<open>auto simp: STOP_SELF_def\<close>)

end

text \<open>The invariant of the process table and of the mutexes together.\<close>

definition part_inv :: "pcb_s \<Rightarrow> bool" where
  "part_inv s \<longleftrightarrow> mutex_inv s \<and> one_running s"

lemma one_running_cong:
  "set (processes t) = set (processes s) \<Longrightarrow> proc_heap t = proc_heap s \<Longrightarrow> process_current t = process_current s \<Longrightarrow>
   one_running t = one_running s"
  by (simp add: one_running_def)

lemma one_running_upd_mutex [simp]: "one_running (upd_mutex i g s) = one_running s"
  by (rule one_running_cong) auto

lemma one_running_take:
  assumes "wf_procs s" "one_running s" "r \<in> set (processes s)"
  shows "one_running (take_mutex i mid r p s)" "one_running (free_mutex i r s)" "one_running (wait_mutex i r s)"
proof -
  have f: "one_running (move_to_front r (upd_proc r f (upd_mutex i g s)))"
    if "\<And>p. pstate (f p) = pstate p" for f g
  proof (subst one_running_move)
    show "wf_procs (upd_proc r f (upd_mutex i g s))" using assms(1) by (simp add: wf_procs_def)
    show "one_running (upd_proc r f (upd_mutex i g s))"
      by (rule one_running_upd_proc) (use assms(2) that in auto)
  qed (use assms(3) in simp)
  show "one_running (take_mutex i mid r p s)" "one_running (free_mutex i r s)"
    unfolding take_mutex_def free_mutex_def upd_mutex_status_def by (rule f, simp)+
  show "one_running (wait_mutex i r s)"
    unfolding wait_mutex_def Let_def one_running_upd_mutex by (rule one_running_upd_proc [OF assms(2)]) simp
qed

lemma one_running_wake:
  assumes "mutex_inv s" "one_running s" and i: "i < nat (mutex_count s)" "mutex_id (mutexes s ! i) = mid"
    and av: "MUTEX_STATE (mx s i) = AVAILABLE" and w: "wake_mutex_waiter i mid s = Inr s'"
  shows "one_running s' \<and> process_current s' = process_current s"
proof (cases "mx_waiting_processes (mutexes s ! i)")
  case Nil
  then show ?thesis using w assms(2) by (simp add: wake_mutex_waiter_def)
next
  case (Cons x xs)
  from wake_mutex_waiter_ok [OF assms(1) i av] Cons w obtain px where
    x: "x \<in> set (processes s)"
    and s': "s' = upd_proc x (set_state READY) (move_to_front x (grant_mutex i mid x px s))" by auto
  have "one_running (grant_mutex i mid x px s)"
    unfolding grant_mutex_def by (rule one_running_upd_proc) (use assms(2) in auto)
  moreover have "wf_procs (grant_mutex i mid x px s)" "x \<in> set (processes (grant_mutex i mid x px s))"
    using mutex_invD(1) [OF assms(1)] x by (simp_all add: grant_mutex_def wf_procs_def)
  ultimately have "one_running (move_to_front x (grant_mutex i mid x px s))"
    using one_running_move(1) by blast
  then have "one_running s'" unfolding s' by (rule one_running_upd_proc) simp
  moreover have "process_current s' = process_current s" by (simp add: s' grant_mutex_def)
  ultimately show ?thesis by simp
qed

lemma one_running_yield: "one_running s \<Longrightarrow> one_running (fst (yield_to_partition k r s))"
  unfolding yield_to_partition_def fst_conv by (rule one_running_upd_proc) auto

lemma krnl_acquire_mutex_running:
  assumes inv: "mutex_inv s" and run: "one_running s"
  shows "one_running (fst (krnl_acquire_mutex mid t up s))"
proof (cases rule: with_current_cases [of s])
  case (ok r p)
  have r: "r \<in> set (processes s)" using wf_procs_current [OF mutex_invD(1) [OF inv] ok(1)] by simp
  note k = one_running_take [OF mutex_invD(1) [OF inv] run r]
  show ?thesis
    using ok(3) run k
    by (auto simp: krnl_acquire_mutex_def Let_def upd_mutex_status_def
        intro!: one_running_yield one_running_upd_proc)
qed (use run in \<open>auto simp: krnl_acquire_mutex_def Let_def\<close>)

lemma free_mutex_current [simp]: "process_current (free_mutex i r s) = process_current s"
  by (simp add: free_mutex_def upd_mutex_status_def)

lemma krnl_release_mutex_running:
  assumes inv: "mutex_inv s" and run: "one_running s"
  shows "one_running (fst (krnl_release_mutex mid s))"
proof (cases rule: with_current_cases [of s])
  case (ok r p)
  have r: "r \<in> set (processes s)" using wf_procs_current [OF mutex_invD(1) [OF inv] ok(1)] by simp
  let ?i = "nat (find_mutex_by_id s mid)"
  show ?thesis
  proof (cases "find_mutex_by_id s mid = -1 \<or> owned_mutex_id p \<noteq> mid")
    case True
    then show ?thesis using ok(3) run by (auto simp: krnl_release_mutex_def Let_def)
  next
    case False
    then have i: "?i < nat (mutex_count s)" "mutex_id (mutexes s ! ?i) = mid"
      using find_mutex_by_id_found [OF mutex_invD(3) [OF inv] refl] by auto
    have f: "mutex_inv (free_mutex ?i r s)"
      using free_mutex_inv [OF inv i(1) _ r ok(2)] i(2) False by simp
    note av = free_mutex_available [OF mutex_facts(6) [OF inv i(1)], of r]
    have "one_running s'" if "wake_mutex_waiter ?i mid (free_mutex ?i r s) = Inr s'" for s'
      using one_running_wake [OF f _ _ _ _ that] one_running_take(2) [OF mutex_invD(1) [OF inv] run r, of ?i] av i
      by auto
    then show ?thesis using ok(3) run False
      by (auto simp: krnl_release_mutex_def Let_def upd_mutex_status_def intro!: one_running_yield split: sum.splits)
  qed
qed (use run in \<open>auto simp: krnl_release_mutex_def Let_def\<close>)

lemma release_owned_inv:
  assumes inv: "mutex_inv s" and run: "one_running s" and c: "process_current s = Some r"
    and q: "proc_heap s r = Some q" "owned_mutex_id q = owned_mutex_id p"
    and ok: "release_owned r p s = Inr s'"
  shows "mutex_inv s' \<and> one_running s'"
proof (cases "owned_mutex_id p = NO_MUTEX_OWNED")
  case True
  then show ?thesis using ok inv run by (simp add: release_owned_def)
next
  case False
  let ?i = "nat (find_mutex_by_id s (owned_mutex_id p))"
  let ?s = "free_mutex ?i r (reset_lock_level ?i s)"
  have r: "r \<in> set (processes s)" using wf_procs_current [OF mutex_invD(1) [OF inv] c] by simp
  have found: "find_mutex_by_id s (owned_mutex_id p) \<noteq> -1"
    using ok False by (auto simp: release_owned_def Let_def)
  then have i: "?i < nat (mutex_count s)" "mutex_id (mutexes s ! ?i) = owned_mutex_id p"
    using find_mutex_by_id_found [OF mutex_invD(3) [OF inv] refl] by auto
  have "process_current ?s = Some r" using c by simp
  then have "?s\<lparr>process_current := Some r\<rparr> = ?s" by (cases ?s) simp
  then have w: "wake_mutex_waiter ?i (owned_mutex_id p) ?s = Inr s'"
    using ok False found i by (auto simp: release_owned_def Let_def split: if_splits)
  have inv': "mutex_inv (reset_lock_level ?i s)" by (rule reset_lock_level_inv [OF inv])
  have f: "mutex_inv ?s" using free_mutex_inv [OF inv'] i q r by simp
  have "one_running (reset_lock_level ?i s)" using run by (subst one_running_cong [of _ s]) auto
  then have "one_running ?s" using one_running_take(2) [OF mutex_invD(1) [OF inv']] r by simp
  moreover have "?i < length (mutexes (reset_lock_level ?i s))" using mutex_facts(6) [OF inv i(1)] by simp
  note av = free_mutex_available [OF this, of r]
  ultimately have "one_running s'" using one_running_wake [OF f _ _ _ _ w] i av by auto
  moreover have "mutex_inv s'" using wake_mutex_waiter_inv [OF f, of ?i "owned_mutex_id p"] w i av by auto
  ultimately show ?thesis by simp
qed

interpretation part_inv: process_mutex_inv part_inv
proof
  fix s r f
  assume "part_inv s" and "\<And>p. proc_heap s r = Some p \<Longrightarrow> harmless p (f p)"
  then show "part_inv (upd_proc r f s)"
    using mutex_inv.upd [of s r f] one_running_upd_proc [of s r f] by (auto simp: part_inv_def harmless_def)
next
  fix s r
  assume "part_inv s" and "r \<in> set (processes s)"
  then show "part_inv (move_to_back r s)"
    using mutex_inv.to_back [of s r] one_running_move(2) [of s r] by (auto simp: part_inv_def mutex_inv_def)
next
  fix s r p
  assume "part_inv s" "r \<in> set (processes s)" "proc_heap s r = Some p" "pstate p = RUNNING"
  then have "process_current s = Some r" by (auto simp: part_inv_def one_running_def)
  then have "s\<lparr>process_current := Some r\<rparr> = s" by (cases s) simp
  with \<open>part_inv s\<close> show "part_inv (s\<lparr>process_current := Some r\<rparr>)" by simp
next
  fix s i n
  assume "part_inv s"
  then show "part_inv (upd_mutex i (\<lambda>m. m\<lparr>saved_owner_priority := n\<rparr>) s)"
    using mutex_inv.saved [of s i n] by (simp add: part_inv_def)
next
  fix s r s'
  assume p: "part_inv s" and l: "remove_process_from_waiting_queue r s = Some s'"
  have "one_running s'"
  proof (rule remove_from_queue_induct [OF l])
    show "one_running s" using p by (simp add: part_inv_def)
    show "one_running (upd_proc r f s)" if "one_running s" "\<And>p. harmless p (f p)" for s f
      by (rule one_running_upd_proc [OF that(1)]) (use that(2) in \<open>auto simp: harmless_def\<close>)
  qed (simp_all add: same_procs_running [OF leave_same_procs(1)] same_procs_running [OF leave_same_procs(2)]
      same_procs_running [OF leave_same_procs(3)] same_procs_running [OF leave_same_procs(4)]
      same_procs_running [OF leave_same_procs(5)] same_procs_running [OF leave_same_procs(6)])
  with mutex_inv.leave [of s r s'] p l show "part_inv s'" by (simp add: part_inv_def)
next
  fix s mid t up
  assume "part_inv s"
  then show "part_inv (fst (krnl_acquire_mutex mid t up s))"
    using krnl_acquire_mutex_inv krnl_acquire_mutex_running by (simp add: part_inv_def)
next
  fix s mid
  assume "part_inv s"
  then show "part_inv (fst (krnl_release_mutex mid s))"
    using krnl_release_mutex_inv krnl_release_mutex_running by (simp add: part_inv_def)
next
  fix s r q p s'
  assume "part_inv s" "process_current s = Some r" "proc_heap s r = Some q"
    "owned_mutex_id q = owned_mutex_id p" "pstate q = pstate p" "release_owned r p s = Inr s'"
  then show "part_inv s'" using release_owned_inv [of s r q p s'] by (simp add: part_inv_def)
next
  fix s l
  assume "part_inv s"
  then show "part_inv (s\<lparr>status := (status s)\<lparr>LOCK_LEVEL := l\<rparr>\<rparr>)"
    using mutex_inv_cong [of "s\<lparr>status := (status s)\<lparr>LOCK_LEVEL := l\<rparr>\<rparr>" s]
      one_running_cong [of "s\<lparr>status := (status s)\<lparr>LOCK_LEVEL := l\<rparr>\<rparr>" s]
    by (simp add: part_inv_def)
qed

section \<open>Creation of processes\<close>

text \<open>
  The stacks: each lies in the data memory of the partition, below the next free address,
  and no two of them overlap.
\<close>

definition stack_range :: "process_s \<Rightarrow> nat set" where
  "stack_range p = {stack (tcb p) ..< stack (tcb p) + stack_sz (tcb p)}"

definition stacks_ok :: "pcb_s \<Rightarrow> bool" where
  "stacks_ok s \<longleftrightarrow> mr_base (data_memory s) \<le> next_stack_addr s \<and>
     (\<forall>r \<in> set (processes s). \<forall>p. proc_heap s r = Some p \<longrightarrow>
        stack_range p \<subseteq> {mr_base (data_memory s) ..< mr_base (data_memory s) + mr_size (data_memory s)} \<and>
        stack (tcb p) + stack_sz (tcb p) \<le> next_stack_addr s) \<and>
     (\<forall>r \<in> set (processes s). \<forall>r' \<in> set (processes s). \<forall>p p'. r \<noteq> r' \<longrightarrow>
        proc_heap s r = Some p \<longrightarrow> proc_heap s r' = Some p' \<longrightarrow> stack_range p \<inter> stack_range p' = {})"

text \<open>Identifiers are given in order and fit the 16 bits of the control block.\<close>

definition ids_given :: "pcb_s \<Rightarrow> bool" where
  "ids_given s \<longleftrightarrow> proc_ids_ok s \<and> 0 \<le> id_next s \<and> id_next s < 2 ^ 16 - 1 \<and>
     (\<forall>r \<in> set (processes s). \<forall>p. proc_heap s r = Some p \<longrightarrow> process_id p \<le> id_next s)"

lemma align16_le: "a \<le> align16 a"
  by (simp add: align16_def)

text \<open>The guards of \<open>CREATE_PROCESS\<close> that let it create the process.\<close>

definition create_allowed :: "PROCESS_ATTRIBUTE_TYPE \<Rightarrow> pcb_s \<Rightarrow> bool" where
  "create_allowed attr s \<longleftrightarrow> nbr_processes s < MAX_NUMBER_OF_PROCESSES \<and>
     next_stack_addr s + STACK_SIZE attr \<le> mr_base (data_memory s) + mr_size (data_memory s) \<and>
     find_process_node_by_name s (NAME attr) = None \<and> STACK_SIZE attr \<le> mr_size (data_memory s) \<and>
     MIN_PRIORITY_VALUE \<le> BASE_PRIORITY attr \<and> BASE_PRIORITY attr \<le> MAX_PRIORITY_VALUE \<and>
     -1 \<le> PERIOD attr \<and> (0 \<le> PERIOD attr \<longrightarrow> PS_PERIOD (status s) \<noteq> 0 \<and> PERIOD attr mod PS_PERIOD (status s) = 0) \<and>
     -1 \<le> TIME_CAPACITY attr \<and> (0 \<le> PERIOD attr \<longrightarrow> TIME_CAPACITY attr \<le> PERIOD attr) \<and>
     OPERATING_MODE (status s) \<noteq> NORMAL"

definition created :: "pref \<Rightarrow> process_s \<Rightarrow> PROCESS_ATTRIBUTE_TYPE \<Rightarrow> pcb_s \<Rightarrow> process_s" where
  "created new g attr s =
     init_process g (fst (ucx_process_spawn (tcb g) (ENTRY_POINT attr) (STACK_SIZE attr) False s)) attr
       (nbr_processes s + 1)"

lemma ucx_process_spawn_nbr:
  "ucx_process_spawn g a n b (s\<lparr>nbr_processes := m\<rparr>) =
   (fst (ucx_process_spawn g a n b s), (snd (ucx_process_spawn g a n b s))\<lparr>nbr_processes := m\<rparr>)"
  by (simp add: ucx_process_spawn_def Let_def)

lemma CREATE_PROCESS_eq:
  "create_allowed attr s \<Longrightarrow> CREATE_PROCESS new g attr s =
     ((snd (ucx_process_spawn (tcb g) (ENTRY_POINT attr) (STACK_SIZE attr) False s))\<lparr>
        nbr_processes := nbr_processes s + 1, processes := processes s @ [new],
        proc_heap := (proc_heap s)(new \<mapsto> created new g attr s)\<rparr>,
      Ret NO_ERROR (OutId (process_id (created new g attr s))))"
  "\<not> create_allowed attr s \<Longrightarrow> fst (CREATE_PROCESS new g attr s) = s \<and>
     (\<forall>out. snd (CREATE_PROCESS new g attr s) \<noteq> Ret NO_ERROR out)"
proof -
  show "CREATE_PROCESS new g attr s =
     ((snd (ucx_process_spawn (tcb g) (ENTRY_POINT attr) (STACK_SIZE attr) False s))\<lparr>
        nbr_processes := nbr_processes s + 1, processes := processes s @ [new],
        proc_heap := (proc_heap s)(new \<mapsto> created new g attr s)\<rparr>,
      Ret NO_ERROR (OutId (process_id (created new g attr s))))" if "create_allowed attr s"
    using that unfolding create_allowed_def CREATE_PROCESS_def Let_def ucx_process_spawn_nbr created_def
    by (auto simp add: ucx_process_spawn_def Let_def)
  show "fst (CREATE_PROCESS new g attr s) = s \<and> (\<forall>out. snd (CREATE_PROCESS new g attr s) \<noteq> Ret NO_ERROR out)"
    if "\<not> create_allowed attr s"
    using that unfolding create_allowed_def CREATE_PROCESS_def Let_def by (auto simp del: One_nat_def)
qed

lemma created_fields [simp]:
  "process_id (created new g attr s) = (id_next s + 1) mod 2 ^ 16"
  "pstate (created new g attr s) = DORMANT" "owned_mutex_id (created new g attr s) = NO_MUTEX_OWNED"
  "stack (tcb (created new g attr s)) = next_stack_addr s"
  "stack_sz (tcb (created new g attr s)) = STACK_SIZE attr mod 2 ^ 16"
  "attrs (created new g attr s) = attr"
  by (simp_all add: created_def init_process_def ucx_process_spawn_def Let_def)

lemma spawn_fields [simp]:
  "next_stack_addr (snd (ucx_process_spawn g a n False s)) = align16 (next_stack_addr s + n mod 2 ^ 16)"
  "id_next (snd (ucx_process_spawn g a n False s)) = id_next s + 1"
  "data_memory (snd (ucx_process_spawn g a n b s)) = data_memory s"
  "process_current (snd (ucx_process_spawn g a n b s)) = process_current s"
  "error_handler_process (snd (ucx_process_spawn g a n b s)) = error_handler_process s"
  "mutexes (snd (ucx_process_spawn g a n b s)) = mutexes s"
  "mutex_count (snd (ucx_process_spawn g a n b s)) = mutex_count s"
  by (simp_all add: ucx_process_spawn_def Let_def)

text \<open>A process whose stack starts at the next free address keeps the stacks apart.\<close>

lemma stacks_ok_append:
  assumes ok: "stacks_ok s" and fr: "new \<notin> set (processes s)"
    and p: "stack (tcb p) = next_stack_addr s" "stack_sz (tcb p) \<le> n"
      "next_stack_addr s + n \<le> mr_base (data_memory s) + mr_size (data_memory s)"
    and t: "processes t = processes s @ [new]" "proc_heap t = (proc_heap s)(new \<mapsto> p)" "data_memory t = data_memory s"
      "next_stack_addr s + stack_sz (tcb p) \<le> next_stack_addr t"
  shows "stacks_ok t"
proof -
  let ?b = "mr_base (data_memory s)"
  have old: "?b \<le> next_stack_addr s"
    "\<And>r p. r \<in> set (processes s) \<Longrightarrow> proc_heap s r = Some p \<Longrightarrow>
       stack_range p \<subseteq> {?b ..< ?b + mr_size (data_memory s)} \<and> stack (tcb p) + stack_sz (tcb p) \<le> next_stack_addr s"
    "\<And>r r' p p'. r \<in> set (processes s) \<Longrightarrow> r' \<in> set (processes s) \<Longrightarrow> r \<noteq> r' \<Longrightarrow>
       proc_heap s r = Some p \<Longrightarrow> proc_heap s r' = Some p' \<Longrightarrow> stack_range p \<inter> stack_range p' = {}"
    using ok unfolding stacks_ok_def by blast+
  have disj: "stack_range q \<inter> stack_range p = {}" if "r \<in> set (processes s)" "proc_heap s r = Some q" for r q
    using old(2) [OF that] p(1) by (auto simp: stack_range_def)
  show ?thesis
    unfolding stacks_ok_def t(1-3)
  proof (intro conjI ballI allI impI)
    show "?b \<le> next_stack_addr t" using old(1) t(4) by linarith
  next
    fix r q assume r: "r \<in> set (processes s @ [new])" and q: "((proc_heap s)(new \<mapsto> p)) r = Some q"
    show "stack_range q \<subseteq> {?b ..< ?b + mr_size (data_memory s)}"
      using r q old(1) old(2) [of r q] p by (cases "r = new") (auto simp: stack_range_def)
    show "stack (tcb q) + stack_sz (tcb q) \<le> next_stack_addr t"
      using r q old(2) [of r q] p(1) t(4) by (cases "r = new") auto
  next
    fix r r' q q'
    assume "r \<in> set (processes s @ [new])" "r' \<in> set (processes s @ [new])" "r \<noteq> r'"
      "((proc_heap s)(new \<mapsto> p)) r = Some q" "((proc_heap s)(new \<mapsto> p)) r' = Some q'"
    then show "stack_range q \<inter> stack_range q' = {}"
      using disj [of r q] disj [of r' q'] old(3) [of r r' q q'] by (cases "r = new"; cases "r' = new") auto
  qed
qed

lemma CREATE_PROCESS_stacks:
  assumes ok: "stacks_ok s" and al: "create_allowed attr s" and fr: "new \<notin> set (processes s)"
  shows "stacks_ok (fst (CREATE_PROCESS new g attr s))"
  by (rule stacks_ok_append [OF ok fr, of "created new g attr s" "STACK_SIZE attr"])
    (use CREATE_PROCESS_eq(1) [OF al, of new g] al align16_le in \<open>auto simp: create_allowed_def\<close>)

lemma CREATE_PROCESS_ids:
  assumes ok: "ids_given s" and al: "create_allowed attr s" and fr: "new \<notin> set (processes s)"
    and room: "id_next s + 1 < 2 ^ 16 - 1"
  shows "ids_given (fst (CREATE_PROCESS new g attr s))"
proof -
  let ?p = "created new g attr s" and ?s = "fst (CREATE_PROCESS new g attr s)"
  have P: "processes ?s = processes s @ [new]" "proc_heap ?s = (proc_heap s)(new \<mapsto> ?p)"
    "id_next ?s = id_next s + 1"
    using CREATE_PROCESS_eq(1) [OF al, of new g] by simp_all
  have id: "process_id ?p = id_next s + 1" using ok room by (simp add: ids_given_def)
  have old: "\<And>r p. r \<in> set (processes s) \<Longrightarrow> proc_heap s r = Some p \<Longrightarrow> process_id p \<le> id_next s"
    and inj: "\<And>r r' p p'. r \<in> set (processes s) \<Longrightarrow> r' \<in> set (processes s) \<Longrightarrow> proc_heap s r = Some p \<Longrightarrow>
      proc_heap s r' = Some p' \<Longrightarrow> process_id p = process_id p' \<Longrightarrow> r = r'"
    using ok by (auto simp: ids_given_def proc_ids_ok_def)
  have "proc_ids_ok ?s"
    unfolding proc_ids_ok_def P
  proof (intro ballI allI impI)
    fix r r' p p'
    assume "r \<in> set (processes s @ [new])" "r' \<in> set (processes s @ [new])"
      "((proc_heap s)(new \<mapsto> ?p)) r = Some p" "((proc_heap s)(new \<mapsto> ?p)) r' = Some p'" "process_id p = process_id p'"
    then show "r = r'"
      using old [of r p] old [of r' p'] inj [of r r' p p'] id by (cases "r = new"; cases "r' = new") auto
  qed
  moreover have "\<forall>r \<in> set (processes ?s). \<forall>p. proc_heap ?s r = Some p \<longrightarrow> process_id p \<le> id_next ?s"
  proof (intro ballI allI impI)
    fix r p assume "r \<in> set (processes ?s)" "proc_heap ?s r = Some p"
    then show "process_id p \<le> id_next ?s" using old [of r p] id P by (cases "r = new") auto
  qed
  ultimately show ?thesis using ok room P(3) by (simp add: ids_given_def)
qed

section \<open>Properties\<close>

text \<open>
  A sequence of \<open>CREATE_PROCESS\<close> calls, each with the reference and content of the block it
  is given; \<open>malloc\<close> never returns a block in use.
\<close>

fun create_all :: "(pref \<times> process_s \<times> PROCESS_ATTRIBUTE_TYPE) list \<Rightarrow> pcb_s \<Rightarrow> pcb_s" where
  "create_all [] s = s"
| "create_all ((new, g, attr) # cs) s = create_all cs (fst (CREATE_PROCESS new g attr s))"

lemma CREATE_PROCESS_processes:
  "set (processes (fst (CREATE_PROCESS new g attr s))) \<subseteq> insert new (set (processes s))"
  using CREATE_PROCESS_eq(1) [of attr s new g] CREATE_PROCESS_eq(2) [of attr s new g]
  by (cases "create_allowed attr s") auto

lemma create_all_stacks:
  "stacks_ok s \<Longrightarrow> distinct (map fst cs) \<Longrightarrow> \<forall>c \<in> set cs. fst c \<notin> set (processes s) \<Longrightarrow> stacks_ok (create_all cs s)"
proof (induction cs s rule: create_all.induct)
  case (2 new g attr cs s)
  let ?s = "fst (CREATE_PROCESS new g attr s)"
  have "stacks_ok ?s"
    using 2(2,4) CREATE_PROCESS_stacks [of s attr new g] CREATE_PROCESS_eq(2) [of attr s new g]
    by (cases "create_allowed attr s") auto
  moreover have "\<forall>c \<in> set cs. fst c \<notin> set (processes ?s)"
    using 2(3,4) CREATE_PROCESS_processes [of new g attr s] by force
  ultimately show ?case using 2 by simp
qed simp

text \<open>
  C27. Stacks. Whatever processes a partition creates, with whatever stack sizes, the
  stack of every process lies inside the data memory of the partition and no two stacks
  overlap.
\<close>

theorem process_stacks_separate:
  assumes "stacks_ok s" and "distinct (map fst cs)" and "\<forall>c \<in> set cs. fst c \<notin> set (processes s)"
    and "r \<in> set (processes (create_all cs s))" and "proc_heap (create_all cs s) r = Some p"
  shows "stack_range p \<subseteq> {mr_base (data_memory (create_all cs s)) ..<
           mr_base (data_memory (create_all cs s)) + mr_size (data_memory (create_all cs s))} \<and>
    (\<forall>r' \<in> set (processes (create_all cs s)) - {r}. \<forall>p'. proc_heap (create_all cs s) r' = Some p' \<longrightarrow>
       stack_range p \<inter> stack_range p' = {})"
  using create_all_stacks [OF assms(1-3)] assms(4,5) unfolding stacks_ok_def by blast

definition sample_attr :: "string \<Rightarrow> PROCESS_ATTRIBUTE_TYPE" where
  "sample_attr n = \<lparr>PERIOD = INFINITE_TIME_VALUE, TIME_CAPACITY = INFINITE_TIME_VALUE, ENTRY_POINT = 4096,
     STACK_SIZE = 1000, BASE_PRIORITY = 5, DEADLINE = SOFT, NAME = n\<rparr>"

definition sample_cold :: pcb_s where
  "sample_cold = sample_partition\<lparr>status := (status sample_partition)\<lparr>OPERATING_MODE := COLD_START\<rparr>\<rparr>"

lemma sample_create: "create_allowed (sample_attr n) sample_cold"
  by (simp add: create_allowed_def sample_cold_def sample_attr_def find_process_node_by_name_def list_find_def
      sample_region_def)

theorem process_stacks_separate_witness:
  "\<exists>p. proc_heap (create_all [(1, sample_process 0 READY 0, sample_attr ''A'')] sample_cold) 1 = Some p \<and>
     stack_range p \<subseteq> {8192 ..< 8192 + 65536}"
proof -
  let ?g = "sample_process 0 READY 0" and ?a = "sample_attr ''A''"
  have e: "create_all [(1, ?g, ?a)] sample_cold = fst (CREATE_PROCESS 1 ?g ?a sample_cold)" by simp
  have s: "stacks_ok sample_cold" by (simp add: stacks_ok_def sample_cold_def sample_region_def)
  have n: "\<forall>c \<in> set [(1, ?g, ?a)]. fst c \<notin> set (processes sample_cold)" by (simp add: sample_cold_def)
  have m: "data_memory (create_all [(1, ?g, ?a)] sample_cold) = sample_region"
    unfolding e CREATE_PROCESS_eq(1) [OF sample_create] by (simp add: sample_cold_def)
  have r: "1 \<in> set (processes (create_all [(1, ?g, ?a)] sample_cold))"
    "proc_heap (create_all [(1, ?g, ?a)] sample_cold) 1 = Some (created 1 ?g ?a sample_cold)"
    unfolding e CREATE_PROCESS_eq(1) [OF sample_create] by simp_all
  from process_stacks_separate [OF s _ n r] r(2) show ?thesis unfolding m by (simp add: sample_region_def)
qed

text \<open>
  The services of the process manager keep the process table, the mutexes and the
  states consistent (\<open>part_inv\<close>): the process list has no duplicate and only live entries,
  at most one process is \<open>RUNNING\<close> and it is the current one, and the ownership of mutexes
  is exclusive.
\<close>

theorem process_services_keep_part_inv:
  assumes "part_inv s"
  shows "part_inv (fst (SET_PRIORITY i n s)) \<and> part_inv (fst (SUSPEND_SELF t up s)) \<and>
    part_inv (fst (SUSPEND i s)) \<and> part_inv (fst (RESUME i s)) \<and> part_inv (fst (STOP i s)) \<and>
    part_inv (fst (STOP_SELF s)) \<and> part_inv (fst (START i ms up s)) \<and> part_inv (fst (DELAYED_START i t ms up s)) \<and>
    part_inv (fst (LOCK_PREEMPTION up s)) \<and> part_inv (fst (UNLOCK_PREEMPTION s))"
  by (intro conjI part_inv.SET_PRIORITY_inv part_inv.SUSPEND_SELF_inv part_inv.SUSPEND_inv part_inv.RESUME_inv
      part_inv.STOP_inv part_inv.STOP_SELF_inv part_inv.START_inv part_inv.DELAYED_START_inv
      part_inv.LOCK_PREEMPTION_inv part_inv.UNLOCK_PREEMPTION_inv assms)

theorem process_services_keep_part_inv_witness: "part_inv (fst (STOP_SELF sample_owned_state))"
proof -
  have "part_inv sample_owned_state"
    using sample_owned_state_inv
    by (simp add: part_inv_def one_running_def sample_owned_state_def sample_three_def sample_process_def)
  from process_services_keep_part_inv [OF this] show ?thesis by blast
qed

text \<open>
  \<open>SET_PRIORITY\<close> on a waiting process changes its priority and leaves it where it stands in the
  queue it waits in. The queue is then no longer in the order of the priorities: lowered below
  its successor \<open>y\<close>, the first process lets a new one in front of both, although \<open>y\<close> has a
  higher priority.
\<close>

theorem SET_PRIORITY_leaves_queue:
  assumes "is_process_id_existed s pid = Some r" and "proc_heap s r = Some p" and "pstate p = WAITING"
    and "owned_mutex_id p = NO_MUTEX_OWNED" and "MIN_PRIORITY_VALUE \<le> n" and "n \<le> MAX_PRIORITY_VALUE"
    and "v \<noteq> r" and "y \<noteq> r" and "n < prio_of s v" and "prio_of s v < prio_of s y"
  shows "\<exists>s'. SET_PRIORITY pid n s = (s', Ret NO_ERROR NoOut) \<and> mutexes s' = mutexes s \<and> semaphores s' = semaphores s \<and>
    enqueue_waiter PRIORITY s' v (r # y # q) = v # r # y # q \<and> prio_of s' v < prio_of s' y"
proof -
  let ?s = "upd_proc r (set_prio n) s"
  have "SET_PRIORITY pid n s = (?s, Ret NO_ERROR NoOut)"
    using assms by (simp add: SET_PRIORITY_def with_proc_def)
  moreover have "prio_of ?s r = n" "prio_of ?s v = prio_of s v" "prio_of ?s y = prio_of s y"
    using assms(2,7,8) by (simp_all add: prio_of_def)
  ultimately show ?thesis using assms(9,10) by (simp add: enqueue_waiter_def)
qed

theorem SET_PRIORITY_leaves_queue_witness:
  "\<exists>s'. SET_PRIORITY 2 1 (upd_proc 1 (set_prio 10) (upd_proc 2 (set_state WAITING) sample_three)) = (s', Ret NO_ERROR NoOut) \<and>
     enqueue_waiter PRIORITY s' 1 [2, 3] = [1, 2, 3] \<and> prio_of s' 1 < prio_of s' 3"
proof -
  let ?s = "upd_proc 1 (set_prio 10) (upd_proc 2 (set_state WAITING) sample_three)"
  have s: "is_process_id_existed ?s 2 = Some 2" "proc_heap ?s 2 = Some (set_state WAITING (sample_process 2 READY 20))"
    "prio_of ?s 1 = 10" "prio_of ?s 3 = 20"
    by (simp_all add: is_process_id_existed_def list_find_def sample_three_def sample_process_def prio_of_def)
  have p: "pstate (set_state WAITING (sample_process 2 READY 20)) = WAITING"
    "owned_mutex_id (set_state WAITING (sample_process 2 READY 20)) = NO_MUTEX_OWNED" by (simp_all add: sample_process_def)
  have n: "MIN_PRIORITY_VALUE \<le> (1 :: int)" "(1 :: int) \<le> MAX_PRIORITY_VALUE" by simp_all
  from SET_PRIORITY_leaves_queue [OF s(1,2) p n, of 1 3 "[]"] s(3,4) show ?thesis by auto
qed

end
