(* ===== verification/Process_Transitions.thy ===== *)
theory Process_Transitions
  imports Process_Services
begin

text \<open>
  What the process services of \<open>Process_Services\<close> do to the state of the process they name:
  which service takes a process out of \<open>DORMANT\<close>, what \<open>STOP\<close> and \<open>STOP_SELF\<close> leave behind,
  and what the caller of \<open>SUSPEND_SELF\<close> is told when another process resumes it.
\<close>

section \<open>Removal from the waiting queues\<close>

text \<open>After \<open>remove_process_from_waiting_queue\<close> no waiting pointer of the process is set.\<close>

lemma leave_via_heap:
  assumes "leave_via fld leave clear r s = Some s'" and "\<And>i t. leave r i s = Some t \<Longrightarrow> same_procs s t"
    and "proc_heap s r = Some p"
  shows "proc_heap s' r = Some (if fld p = None then p else clear p) \<and> (\<forall>q. q \<noteq> r \<longrightarrow> proc_heap s' q = proc_heap s q) \<and>
    processes s' = processes s \<and> process_current s' = process_current s"
  using assms by (auto simp: leave_via_def same_procs_def split: option.splits if_splits)

lemma clear_if_set:
  "(if waiting_queuing_port p = None then p else p\<lparr>waiting_queuing_port := None\<rparr>) = p\<lparr>waiting_queuing_port := None\<rparr>"
  "(if waiting_blackboard p = None then p else p\<lparr>waiting_blackboard := None\<rparr>) = p\<lparr>waiting_blackboard := None\<rparr>"
  "(if waiting_buffer p = None then p else p\<lparr>waiting_buffer := None\<rparr>) = p\<lparr>waiting_buffer := None\<rparr>"
  "(if waiting_semaphore p = None then p else p\<lparr>waiting_semaphore := None\<rparr>) = p\<lparr>waiting_semaphore := None\<rparr>"
  "(if waiting_event p = None then p else p\<lparr>waiting_event := None\<rparr>) = p\<lparr>waiting_event := None\<rparr>"
  "(if waiting_mutex p = None then p else p\<lparr>waiting_mutex := None\<rparr>) = p\<lparr>waiting_mutex := None\<rparr>"
  by (cases p; simp)+

definition unqueued :: "process_s \<Rightarrow> process_s" where
  "unqueued p = p\<lparr>waiting_queuing_port := None, waiting_blackboard := None, waiting_buffer := None,
     waiting_semaphore := None, waiting_event := None, waiting_mutex := None\<rparr>"

lemma remove_from_queue_heap:
  assumes "remove_process_from_waiting_queue r s = Some s'" and p: "proc_heap s r = Some p"
  shows "proc_heap s' r = Some (unqueued p) \<and> (\<forall>q. q \<noteq> r \<longrightarrow> proc_heap s' q = proc_heap s q) \<and>
    processes s' = processes s \<and> process_current s' = process_current s"
proof -
  from assms(1) obtain s1 s2 s3 s4 s5 where
    l: "leave_via waiting_queuing_port leave_queuing_port (\<lambda>p. p\<lparr>waiting_queuing_port := None\<rparr>) r s = Some s1"
       "leave_via waiting_blackboard leave_blackboard (\<lambda>p. p\<lparr>waiting_blackboard := None\<rparr>) r s1 = Some s2"
       "leave_via waiting_buffer leave_buffer (\<lambda>p. p\<lparr>waiting_buffer := None\<rparr>) r s2 = Some s3"
       "leave_via waiting_semaphore leave_semaphore (\<lambda>p. p\<lparr>waiting_semaphore := None\<rparr>) r s3 = Some s4"
       "leave_via waiting_event leave_event (\<lambda>p. p\<lparr>waiting_event := None\<rparr>) r s4 = Some s5"
       "leave_via waiting_mutex leave_mutex (\<lambda>p. p\<lparr>waiting_mutex := None\<rparr>) r s5 = Some s'"
    by (auto simp: remove_process_from_waiting_queue_def bind_eq_Some_conv)
  note h1 = leave_via_heap [OF l(1) leave_same_procs(1) p, simplified clear_if_set]
  note h2 = leave_via_heap [OF l(2) leave_same_procs(2) conjunct1 [OF h1], simplified clear_if_set]
  note h3 = leave_via_heap [OF l(3) leave_same_procs(3) conjunct1 [OF h2], simplified clear_if_set]
  note h4 = leave_via_heap [OF l(4) leave_same_procs(4) conjunct1 [OF h3], simplified clear_if_set]
  note h5 = leave_via_heap [OF l(5) leave_same_procs(5) conjunct1 [OF h4], simplified clear_if_set]
  note h6 = leave_via_heap [OF l(6) leave_same_procs(6) conjunct1 [OF h5], simplified clear_if_set]
  show ?thesis using h1 h2 h3 h4 h5 h6 by (simp add: unqueued_def)
qed

lemma unqueued_idle:
  "\<not> is_process_waiting_in_waiting_queue p \<Longrightarrow> unqueued p = p"
  by (cases p) (simp add: unqueued_def is_process_waiting_in_waiting_queue_def)

section \<open>Properties\<close>

text \<open>
  \<open>STOP\<close>. A stop that takes effect leaves the process \<open>DORMANT\<close>, with no timeout, no
  suspension, no deadline and in no waiting queue pointer; it keeps its identity and every
  other process keeps its state.
\<close>

theorem STOP_leaves_dormant:
  assumes "is_process_id_existed s i = Some r" and "STOP i s = (s', Yield)"
  shows "\<exists>p p'. proc_heap s r = Some p \<and> pstate p \<noteq> DORMANT \<and> proc_heap s' r = Some p' \<and>
    pstate p' = DORMANT \<and> process_id p' = process_id p \<and>
    time_counter p' = 0 \<and> \<not> is_suspended p' \<and> DEADLINE_TIME (processus_status p') = INFINITE_TIME_VALUE \<and>
    \<not> is_process_waiting_in_waiting_queue p' \<and>
    (\<forall>q pq. q \<noteq> r \<longrightarrow> proc_heap s q = Some pq \<longrightarrow> (\<exists>pq'. proc_heap s' q = Some pq' \<and> pstate pq' = pstate pq))"
proof (cases rule: with_current_cases [of s])
  case (ok c pc)
  from is_process_id_existed_Some [OF assms(1)] obtain p where p: "proc_heap s r = Some p" "process_id p = i" by blast
  from assms ok(3) p have run: "process_id p \<noteq> process_id pc" "pstate p \<noteq> DORMANT"
    by (auto simp: STOP_def with_proc_def split: if_splits option.splits)
  then have rc: "r \<noteq> c" using p(1) ok(2) by auto
  obtain s1 where s1: "(if is_process_waiting_in_waiting_queue p then remove_process_from_waiting_queue r s
      else Some s) = Some s1"
    using assms ok(3) p run by (auto simp: STOP_def with_proc_def split: option.splits)
  have h: "proc_heap s1 r = Some (unqueued p)" "\<And>q. q \<noteq> r \<Longrightarrow> proc_heap s1 q = proc_heap s q"
    using s1 remove_from_queue_heap [OF _ p(1), of s1] unqueued_idle [of p] p(1) by (auto split: if_splits)
  have "s' = fst (yield_to_partition RP_STOP c (upd_proc r (\<lambda>p. set_deadline INFINITE_TIME_VALUE
      (set_state DORMANT (p\<lparr>time_counter := 0, is_suspended := False\<rparr>))) s1))"
    using assms ok(3) p run s1 by (simp add: STOP_def with_proc_def)
  then show ?thesis
    using p run h rc
    by (auto simp: yield_to_partition_def unqueued_def is_process_waiting_in_waiting_queue_def)
qed (use assms in \<open>simp_all add: STOP_def\<close>)

theorem STOP_leaves_dormant_witness:
  "\<exists>p'. proc_heap (fst (STOP 2 sample_three)) 2 = Some p' \<and> pstate p' = DORMANT"
proof -
  have f: "is_process_id_existed sample_three 2 = Some 2"
    by (simp add: is_process_id_existed_def list_find_def sample_three_def sample_process_def)
  have "snd (STOP 2 sample_three) = Yield"
    using f by (simp add: STOP_def with_current_def with_proc_def yield_to_partition_def
        sample_three_def sample_process_def is_process_waiting_in_waiting_queue_def)
  then have "STOP 2 sample_three = (fst (STOP 2 sample_three), Yield)" by (metis prod.collapse)
  from STOP_leaves_dormant [OF f this] show ?thesis by blast
qed

text \<open>
  \<open>START\<close>. In normal mode, only a dormant process is started; an aperiodic one becomes
  ready, at its base priority, with the entry point of its task as context, and a deadline
  of its time capacity from now; nothing else of the process table changes but the
  context of the caller.
\<close>

theorem START_aperiodic:
  assumes "is_process_id_existed s i = Some r" and "proc_heap s r = Some p"
    and "process_current s = Some c" and "c \<noteq> r" and "proc_heap s c = Some pc"
    and "OPERATING_MODE (status s) = NORMAL" and "PERIOD (attrs p) = INFINITE_TIME_VALUE"
  shows "if pstate p \<noteq> DORMANT then START i ms up s = (s, Ret NO_ACTION NoOut)
    else if bad_delay up (TIME_CAPACITY (attrs p)) then START i ms up s = (s, Ret INVALID_CONFIG NoOut)
    else \<exists>s' p'. START i ms up s = (s', Yield) \<and> proc_heap s' r = Some p' \<and> pstate p' = READY \<and>
      cprio p' = BASE_PRIORITY (attrs p) \<and>
      tcb_ctx (tcb p') = Ctx_Entry (stack (tcb p) + stack_sz (tcb p)) (task (tcb p)) \<and>
      DEADLINE_TIME (processus_status p') =
        (if TIME_CAPACITY (attrs p) = INFINITE_TIME_VALUE then INFINITE_TIME_VALUE
         else i64_of up + TIME_CAPACITY (attrs p)) \<and>
      processes s' = processes s \<and> (\<forall>q. q \<noteq> r \<and> q \<noteq> c \<longrightarrow> proc_heap s' q = proc_heap s q)"
  using assms
  by (simp add: START_def with_proc_def with_current_def Let_def yield_to_partition_def reinit_process_def
      context_init_def update_process_deadline_def)

definition sample_stopped :: pcb_s where
  "sample_stopped = sample_three\<lparr>proc_heap := (proc_heap sample_three)(2 \<mapsto> sample_process 2 DORMANT 0)\<rparr>"

theorem START_aperiodic_witness:
  "\<exists>s' p'. START 2 default_scheduler 0 sample_stopped = (s', Yield) \<and> proc_heap s' 2 = Some p' \<and> pstate p' = READY"
proof -
  have f: "is_process_id_existed sample_stopped 2 = Some 2"
    by (simp add: is_process_id_existed_def list_find_def sample_stopped_def sample_three_def sample_process_def)
  have s: "proc_heap sample_stopped 2 = Some (sample_process 2 DORMANT 0)" "process_current sample_stopped = Some 1"
    "proc_heap sample_stopped 1 = Some (sample_process 1 RUNNING 10)"
    "OPERATING_MODE (status sample_stopped) = NORMAL"
    by (simp_all add: sample_stopped_def sample_three_def)
  have p: "PERIOD (attrs (sample_process 2 DORMANT 0)) = INFINITE_TIME_VALUE"
    "pstate (sample_process 2 DORMANT 0) = DORMANT" "\<not> bad_delay 0 (TIME_CAPACITY (attrs (sample_process 2 DORMANT 0)))"
    by (simp_all add: sample_process_def bad_delay_def)
  from START_aperiodic [OF f s(1,2) _ s(3,4) p(1), of default_scheduler 0] p show ?thesis by auto
qed

text \<open>
  Resuming a suspended process. A process that suspended itself, even without a
  timeout, and is resumed by another process gets \<open>TIMED_OUT\<close> from \<open>SUSPEND_SELF\<close>: \<open>RESUME\<close>
  clears the counter that \<open>SUSPEND_SELF\<close> takes for an expired timeout.
\<close>

theorem resumed_process_is_told_TIMED_OUT:
  assumes "process_current s = Some c" and "proc_heap s c = Some pc"
    and "is_process_id_existed s i = Some r" and "proc_heap s r = Some p" and "r \<noteq> c"
    and "process_id p \<noteq> process_id pc"
    and "is_suspended p" and "pstate p = WAITING" and "PERIOD (attrs p) = INFINITE_TIME_VALUE"
    and "tcb_ctx (tcb p) = Ctx_Resume RP_SUSPEND_SELF"
  shows "\<exists>s' p'. RESUME i s = (s', Yield) \<and> proc_heap s' r = Some p' \<and> pstate p' = READY \<and>
    tcb_ctx (tcb p') = Ctx_Resume RP_SUSPEND_SELF \<and> resume_process RP_SUSPEND_SELF p' = TIMED_OUT"
  using assms
  by (simp add: RESUME_def with_current_def with_proc_def Let_def yield_to_partition_def resume_process_def)

definition sample_suspended :: pcb_s where
  "sample_suspended = (fst (SUSPEND_SELF INFINITE_TIME_VALUE 0 sample_three))\<lparr>process_current := Some 2\<rparr>"

theorem resumed_process_is_told_TIMED_OUT_witness:
  "\<exists>s' p'. RESUME 1 sample_suspended = (s', Yield) \<and> proc_heap s' 1 = Some p' \<and>
     resume_process RP_SUSPEND_SELF p' = TIMED_OUT"
proof -
  let ?p = "set_context (Ctx_Resume RP_SUSPEND_SELF)
     (set_state WAITING ((sample_process 1 RUNNING 10)\<lparr>is_suspended := True\<rparr>))"
  have heap: "proc_heap sample_suspended 1 = Some ?p" "proc_heap sample_suspended 2 = Some (sample_process 2 READY 20)"
    "process_current sample_suspended = Some 2" "processes sample_suspended = [1, 2, 3]"
    by (simp_all add: sample_suspended_def sample_three_def SUSPEND_SELF_def with_current_def with_proc_def
        bad_delay_def Let_def yield_to_partition_def sample_process_def)
  have f: "is_process_id_existed sample_suspended 1 = Some 1"
    by (simp add: is_process_id_existed_def list_find_def heap sample_process_def del: One_nat_def)
  have p: "process_id ?p \<noteq> process_id (sample_process 2 READY 20)" "is_suspended ?p" "pstate ?p = WAITING"
    "PERIOD (attrs ?p) = INFINITE_TIME_VALUE" "tcb_ctx (tcb ?p) = Ctx_Resume RP_SUSPEND_SELF"
    by (simp_all add: sample_process_def)
  from resumed_process_is_told_TIMED_OUT [OF heap(3,2) f heap(1) _ p] show ?thesis by auto
qed

text \<open>
  \<open>STOP_SELF\<close>. A process that stops itself while it owns a mutex, with others waiting
  for it, abandons its caller dormant and without the mutex, which the first process of the
  queue then owns, ready to run.
\<close>

theorem STOP_SELF_gives_mutex_away:
  assumes "mutex_inv s" and "process_current s = Some r" and "proc_heap s r = Some p"
    and "owned_mutex_id p = mid" and "mid \<noteq> NO_MUTEX_OWNED"
    and "mx_waiting_processes (mutexes s ! nat (find_mutex_by_id s mid)) = w # ws" and "w \<noteq> r"
  shows "\<exists>s' p' pw pw'. STOP_SELF s = (s', Jump) \<and> proc_heap s' r = Some p' \<and> pstate p' = DORMANT \<and>
    owned_mutex_id p' = NO_MUTEX_OWNED \<and> proc_heap s w = Some pw \<and> proc_heap s' w = Some pw' \<and>
    pstate pw' = READY \<and> owned_mutex_id pw' = mid \<and>
    MUTEX_OWNER (mx s' (nat (find_mutex_by_id s mid))) = process_id pw"
proof -
  let ?i = "nat (find_mutex_by_id s mid)" and ?sa = "upd_proc r (set_deadline INFINITE_TIME_VALUE) s"
  have r: "r \<in> set (processes s)" using wf_procs_current [OF mutex_invD(1) [OF assms(1)] assms(2)] by simp
  from assms(1,3,4,5) r obtain j where j: "j < nat (mutex_count s)" "mutex_id (mutexes s ! j) = mid"
    unfolding mutex_inv_def mutex_excl_def by blast
  have found: "find_mutex_by_id s mid \<noteq> -1"
    using j mutex_invD(3) [OF assms(1)] index_from_notfound [of 0 "\<lambda>m. mutex_id m = mid" "take (nat (mutex_count s)) (mutexes s)"]
    by (force simp: find_mutex_by_id_def mutex_ids_ok_def in_set_conv_nth)
  have i: "?i < nat (mutex_count s)" "mutex_id (mutexes s ! ?i) = mid"
    using find_mutex_by_id_found [OF mutex_invD(3) [OF assms(1)] refl found] by auto
  have f0: "find_mutex_by_id ?sa mid = find_mutex_by_id s mid" by (simp add: find_mutex_by_id_def)
  have inv0: "mutex_inv ?sa" by (rule mutex_inv.upd [OF assms(1)]) (simp add: harmless_def)
  let ?sb = "reset_lock_level ?i ?sa" and ?q = "set_deadline INFINITE_TIME_VALUE p"
  have inv1: "mutex_inv ?sb" by (rule reset_lock_level_inv [OF inv0])
  have s1: "proc_heap ?sb r = Some ?q" "mutexes ?sb = mutexes s" "mutex_count ?sb = mutex_count s"
      "processes ?sb = processes s" "process_current ?sb = Some r" "\<And>x. x \<noteq> r \<Longrightarrow> proc_heap ?sb x = proc_heap s x"
    using assms(2,3) by (simp_all add: reset_lock_level_def)
  let ?s = "free_mutex ?i r ?sb"
  have inv: "mutex_inv ?s" using free_mutex_inv [OF inv1, of ?i ?q r] i r s1 assms(4) by simp
  have len: "?i < length (mutexes s)" by (rule mutex_facts(6) [OF assms(1) i(1)])
  note av = free_mutex_available [of ?i ?sb r, unfolded s1, OF len]
  from wake_mutex_waiter_ok [OF inv, of ?i mid] av i assms(6) obtain pw where
    w: "proc_heap ?s w = Some pw" "wake_mutex_waiter ?i mid ?s =
      Inr (upd_proc w (set_state READY) (move_to_front w (grant_mutex ?i mid w pw ?s)))"
    by auto
  have pw: "proc_heap s w = Some pw" using w(1) assms(7) s1(6) by (simp add: free_mutex_def upd_mutex_status_def)
  have "process_current ?s = Some r" using s1(5) by simp
  then have cur: "?s\<lparr>process_current := Some r\<rparr> = ?s" by (cases ?s) simp
  have "release_owned r p ?sa = Inr (upd_proc w (set_state READY) (move_to_front w (grant_mutex ?i mid w pw ?s)))"
    using assms(4,5) found f0 w(2) cur i(2) by (simp add: release_owned_def Let_def)
  then have run: "STOP_SELF s = (upd_proc r (\<lambda>p. set_state DORMANT (p\<lparr>time_counter := 0, is_suspended := False\<rparr>))
      (upd_proc w (set_state READY) (move_to_front w (grant_mutex ?i mid w pw ?s))), Jump)"
    using assms(2,3) by (simp add: STOP_SELF_def with_current_def with_proc_def)
  show ?thesis unfolding run
    using pw assms(3,7) len s1 by (simp add: grant_mutex_def free_mutex_def upd_mutex_status_def)
qed

theorem STOP_SELF_gives_mutex_away_witness:
  "\<exists>s' pw'. STOP_SELF sample_owned_state = (s', Jump) \<and> proc_heap s' 2 = Some pw' \<and> owned_mutex_id pw' = 1"
proof -
  have f: "find_mutex_by_id sample_owned_state 1 = 0"
    by (simp add: find_mutex_by_id_def sample_owned_state_def sample_mutex_def)
  have m: "mx_waiting_processes (mutexes sample_owned_state ! 0) = [2, 3]"
    by (simp add: sample_owned_state_def sample_mutex_def)
  have s: "process_current sample_owned_state = Some 1"
    "proc_heap sample_owned_state 1 = Some ((sample_process 1 RUNNING 30)\<lparr>owned_mutex_id := 1\<rparr>)"
    by (simp_all add: sample_owned_state_def sample_three_def)
  from STOP_SELF_gives_mutex_away [OF sample_owned_state_inv s, of 1 2 "[3]"] f m show ?thesis by auto
qed

end
