(* ===== verification/Time_Services.thy ===== *)
theory Time_Services
  imports Process_Services
begin

text \<open>
  Time management, \<open>arinc/arinc_time.c\<close>: the three passes over the process list that the
  partition makes at every tick (\<open>arinc_time_update_partition\<close>) and the services
  \<open>TIMED_WAIT\<close>, \<open>PERIODIC_WAIT\<close>, \<open>GET_TIME\<close> and \<open>REPLENISH\<close>. The uptime, in milliseconds, is
  an argument, read once per call. (\<open>arinc_time_find_first_release_point\<close> is in
  \<open>Module_Scheduler\<close>.)

  The theory shows at which tick a delayed process wakes, which for an aperiodic one is the
  first at or after the end of its delay, that the release points of a periodic process do
  not drift, when its periodic wait ends, that no pass makes a process \<open>RUNNING\<close>, and that a process whose timeout expires
  in a waiting queue stays in it.
\<close>

section \<open>The passes over the process list\<close>

definition release_due :: "u64 \<Rightarrow> process_s \<Rightarrow> bool" where
  "release_due up p \<longleftrightarrow> pstate p = WAITING \<and>
     (PERIOD (attrs p) \<noteq> INFINITE_TIME_VALUE \<or>
      (saved_init_delay p \<noteq> 0 \<and> PERIOD (attrs p) = INFINITE_TIME_VALUE)) \<and>
     up \<ge> u64_of (release_point_time p)"

definition check_and_release_periodic_waiting_processes :: "u64 \<Rightarrow> process_s \<Rightarrow> process_s" where
  "check_and_release_periodic_waiting_processes up p =
     (if release_due up p then
        let p1 = set_state READY p in
        if saved_init_delay p1 \<noteq> 0 \<and> PERIOD (attrs p1) = INFINITE_TIME_VALUE
        then p1\<lparr>release_point_time := 0, saved_init_delay := 0\<rparr> else p1
      else p)"

text \<open>
  The third statement of the branch of \<open>check_timeouts\<close>, \<open>void
  remove_process_from_waiting_queue(struct process_s *process);\<close>, is a declaration: the
  process is not removed from the queue it waits in.
\<close>

definition check_timeouts :: "u64 \<Rightarrow> process_s \<Rightarrow> process_s" where
  "check_timeouts up p =
     (if time_counter p \<noteq> 0 then
        (if i64_of up \<ge> time_counter p \<and> time_counter p \<noteq> INFINITE_TIME_VALUE
         then set_state READY (p\<lparr>is_suspended := False, time_counter := 0\<rparr>) else p)
      else p)"

text \<open>\<open>check_deadlines\<close> finds a missed deadline and fills a local variable with it.\<close>

definition deadline_missed :: "u64 \<Rightarrow> process_s \<Rightarrow> bool" where
  "deadline_missed up p \<longleftrightarrow> i64_of up \<ge> DEADLINE_TIME (processus_status p) \<and>
     DEADLINE_TIME (processus_status p) \<noteq> INFINITE_TIME_VALUE \<and> PERIOD (attrs p) \<noteq> INFINITE_TIME_VALUE \<and>
     pstate p \<noteq> DORMANT \<and> pstate p \<noteq> FAULTED"

definition check_deadlines :: "u64 \<Rightarrow> process_s \<Rightarrow> process_s" where
  "check_deadlines up p = (if deadline_missed up p then p else p)"

text \<open>\<open>list_foreach(partition->processes, f, 0)\<close> with a callback that always returns 0.\<close>

definition foreach_process :: "(process_s \<Rightarrow> process_s) \<Rightarrow> pcb_s \<Rightarrow> pcb_s" where
  "foreach_process f s = fold (\<lambda>r. upd_proc r f) (processes s) s"

definition arinc_time_update_partition :: "u64 \<Rightarrow> pcb_s \<Rightarrow> pcb_s" where
  "arinc_time_update_partition up s =
     foreach_process (check_deadlines up)
       (foreach_process (check_timeouts up)
         (foreach_process (check_and_release_periodic_waiting_processes up) s))"

section \<open>Services\<close>

definition TIMED_WAIT :: "int \<Rightarrow> u64 \<Rightarrow> service" where
  "TIMED_WAIT DELAY_TIME up s =
     with_current (\<lambda>r p.
       if owned_mutex_id p \<noteq> NO_MUTEX_OWNED \<or> error_handler_process s = Some r then (s, Ret INVALID_MODE NoOut)
       else if bad_delay up DELAY_TIME then (s, Ret INVALID_PARAM NoOut)
       else if DELAY_TIME = INFINITE_TIME_VALUE then (s, Ret INVALID_PARAM NoOut)
       else if DELAY_TIME = 0 then
         yield_to_partition RP_TIMED_WAIT r
           ((move_to_back r (upd_proc r (set_state READY) s))\<lparr>process_current := Some r\<rparr>)
       else
         yield_to_partition RP_TIMED_WAIT r
           (upd_proc r (\<lambda>p. (set_state WAITING p)\<lparr>time_counter := i64_of up + DELAY_TIME\<rparr>) s)) s"

definition PERIODIC_WAIT :: service where
  "PERIODIC_WAIT s =
     with_current (\<lambda>r p.
       if owned_mutex_id p \<noteq> NO_MUTEX_OWNED \<or> error_handler_process s = Some r then (s, Ret INVALID_MODE NoOut)
       else if PERIOD (attrs p) = INFINITE_TIME_VALUE then (s, Ret INVALID_MODE NoOut)
       else
         let time_capacity = (if TIME_CAPACITY (attrs p) = INFINITE_TIME_VALUE then 0
                              else u64_of (TIME_CAPACITY (attrs p)));
             futur_deadline_time = u64_of (PERIOD (attrs p)) + u64_of (release_point_time p) + time_capacity
         in if time_overflow futur_deadline_time then (s, Ret INVALID_PARAM NoOut)
            else
              yield_to_partition RP_PERIODIC_WAIT r
                (upd_proc r (\<lambda>p.
                   let p1 = (set_state WAITING p)\<lparr>release_point_time := release_point_time p + PERIOD (attrs p)\<rparr>
                   in update_process_deadline (release_point_time p1) p1) s)) s"

definition GET_TIME :: "u64 \<Rightarrow> service" where
  "GET_TIME up s = (s, Ret NO_ERROR (OutTime (i64_of (up * 1000000))))"

definition REPLENISH :: "int \<Rightarrow> u64 \<Rightarrow> service" where
  "REPLENISH BUDGET_TIME up s =
     with_current (\<lambda>r p.
       if error_handler_process s = Some r \<and> OPERATING_MODE (status s) \<noteq> NORMAL then (s, Ret NO_ACTION NoOut)
       else if bad_delay up BUDGET_TIME then (s, Ret INVALID_PARAM NoOut)
       else if PERIOD (attrs p) \<noteq> INFINITE_TIME_VALUE \<and>
         (BUDGET_TIME = INFINITE_TIME_VALUE \<or> i64_of up + BUDGET_TIME > release_point_time p)
         then (s, Ret INVALID_MODE NoOut)
       else
         (upd_proc r (set_deadline
            (if TIME_CAPACITY (attrs p) = INFINITE_TIME_VALUE then INFINITE_TIME_VALUE
             else if PERIOD (attrs p) = INFINITE_TIME_VALUE \<and> BUDGET_TIME = INFINITE_TIME_VALUE
               then INFINITE_TIME_VALUE
             else i64_of up + BUDGET_TIME)) s, Ret NO_ERROR NoOut)) s"

text \<open>Both waits return \<open>NO_ERROR\<close> when their process is dispatched again.\<close>

definition resume_time :: "resume_point \<Rightarrow> RETURN_CODE_TYPE" where
  "resume_time k = NO_ERROR"

section \<open>The passes, process by process\<close>

lemma fold_upd_frame:
  "processes (fold (\<lambda>r. upd_proc r f) rs s) = processes s \<and>
   process_current (fold (\<lambda>r. upd_proc r f) rs s) = process_current s \<and>
   error_handler_process (fold (\<lambda>r. upd_proc r f) rs s) = error_handler_process s \<and>
   mutexes (fold (\<lambda>r. upd_proc r f) rs s) = mutexes s \<and>
   semaphores (fold (\<lambda>r. upd_proc r f) rs s) = semaphores s"
  by (induction rs arbitrary: s) auto

lemma fold_upd_heap:
  "distinct rs \<Longrightarrow> proc_heap (fold (\<lambda>r. upd_proc r f) rs s) r =
     (if r \<in> set rs then map_option f (proc_heap s r) else proc_heap s r)"
  by (induction rs arbitrary: s) auto

lemma foreach_process_frame [simp]:
  "processes (foreach_process f s) = processes s" "process_current (foreach_process f s) = process_current s"
  "error_handler_process (foreach_process f s) = error_handler_process s"
  "mutexes (foreach_process f s) = mutexes s" "semaphores (foreach_process f s) = semaphores s"
  using fold_upd_frame [of f "processes s" s] by (simp_all add: foreach_process_def)

lemma foreach_process_heap:
  "distinct (processes s) \<Longrightarrow> proc_heap (foreach_process f s) r =
     (if r \<in> set (processes s) then map_option f (proc_heap s r) else proc_heap s r)"
  by (simp add: foreach_process_def fold_upd_heap)

definition tick_process :: "u64 \<Rightarrow> process_s \<Rightarrow> process_s" where
  "tick_process up p = check_timeouts up (check_and_release_periodic_waiting_processes up p)"

lemma update_partition_heap:
  "wf_procs s \<Longrightarrow> r \<in> set (processes s) \<Longrightarrow>
   proc_heap (arinc_time_update_partition up s) r = map_option (tick_process up) (proc_heap s r)"
  by (cases "proc_heap s r")
    (simp_all add: arinc_time_update_partition_def foreach_process_heap wf_procs_def tick_process_def check_deadlines_def)

lemma tick_process_harmless [simp]: "harmless p (tick_process up p)"
  by (simp add: harmless_def tick_process_def check_timeouts_def
      check_and_release_periodic_waiting_processes_def Let_def)

text \<open>An invariant of the process services is kept by the passes and by the time services.\<close>

context process_inv
begin

lemma fold_inv: "(\<And>p. harmless p (f p)) \<Longrightarrow> inv s \<Longrightarrow> inv (fold (\<lambda>r. upd_proc r f) rs s)"
  by (induction rs arbitrary: s) (auto intro: upd)

lemma update_partition_inv: "inv s \<Longrightarrow> inv (arinc_time_update_partition up s)"
  unfolding arinc_time_update_partition_def foreach_process_def
  by (intro fold_inv) (auto simp: harmless_def check_deadlines_def check_timeouts_def
      check_and_release_periodic_waiting_processes_def Let_def)

lemma TIMED_WAIT_inv:
  assumes i: "inv s" and w: "wf_procs s" shows "inv (fst (TIMED_WAIT t up s))"
  unfolding TIMED_WAIT_def
proof (rule keep_current [OF i])
  fix r p
  assume r: "process_current s = Some r" "proc_heap s r = Some p"
  have m: "inv (move_to_back r (upd_proc r (set_state READY) s))"
    by (rule to_back, rule upd [OF i]) (use wf_procs_current [OF w r(1)] in \<open>auto simp: harmless_def\<close>)
  have "process_current (move_to_back r (upd_proc r (set_state READY) s)) = Some r" using r(1) by simp
  then have "(move_to_back r (upd_proc r (set_state READY) s))\<lparr>process_current := Some r\<rparr> =
      move_to_back r (upd_proc r (set_state READY) s)" by (cases "move_to_back r (upd_proc r (set_state READY) s)") simp
  with m i show "inv (fst (if owned_mutex_id p \<noteq> NO_MUTEX_OWNED \<or> error_handler_process s = Some r then (s, Ret INVALID_MODE NoOut)
       else if bad_delay up t then (s, Ret INVALID_PARAM NoOut)
       else if t = INFINITE_TIME_VALUE then (s, Ret INVALID_PARAM NoOut)
       else if t = 0 then
         yield_to_partition RP_TIMED_WAIT r
           ((move_to_back r (upd_proc r (set_state READY) s))\<lparr>process_current := Some r\<rparr>)
       else
         yield_to_partition RP_TIMED_WAIT r
           (upd_proc r (\<lambda>p. (set_state WAITING p)\<lparr>time_counter := i64_of up + t\<rparr>) s)))"
    by (auto simp: harmless_def intro!: keep_yield upd)
qed

lemma PERIODIC_WAIT_inv: "inv s \<Longrightarrow> inv (fst (PERIODIC_WAIT s))"
  unfolding PERIODIC_WAIT_def
  by (rule keep_current) (auto simp: Let_def harmless_def update_process_deadline_def intro!: keep_yield upd)

lemma REPLENISH_inv: "inv s \<Longrightarrow> inv (fst (REPLENISH t up s))"
  unfolding REPLENISH_def by (rule keep_current) (auto simp: harmless_def intro!: upd)

end

section \<open>Ticks\<close>

text \<open>A sequence of ticks, given by their uptimes.\<close>

definition run_ticks :: "u64 list \<Rightarrow> pcb_s \<Rightarrow> pcb_s" where
  "run_ticks ts s = fold arinc_time_update_partition ts s"

lemma update_partition_frame [simp]:
  "processes (arinc_time_update_partition up s) = processes s"
  "process_current (arinc_time_update_partition up s) = process_current s"
  "mutexes (arinc_time_update_partition up s) = mutexes s"
  "semaphores (arinc_time_update_partition up s) = semaphores s"
  by (simp_all add: arinc_time_update_partition_def)

lemma update_partition_wf [simp]: "wf_procs (arinc_time_update_partition up s) \<longleftrightarrow> wf_procs s"
proof -
  have "wf_procs (foreach_process f s) \<longleftrightarrow> wf_procs s" for f s
    by (cases "distinct (processes s)") (auto simp: wf_procs_def foreach_process_heap)
  then show ?thesis by (simp add: arinc_time_update_partition_def)
qed

lemma run_ticks_idle:
  assumes "wf_procs s" and "r \<in> set (processes s)" and "proc_heap s r = Some p"
    and "\<And>t. t \<in> set ts \<Longrightarrow> tick_process t p = p"
  shows "proc_heap (run_ticks ts s) r = Some p \<and> wf_procs (run_ticks ts s) \<and> processes (run_ticks ts s) = processes s"
  using assms
proof (induction ts arbitrary: s)
  case (Cons t ts)
  have "proc_heap (arinc_time_update_partition t s) r = Some p"
    using Cons.prems by (simp add: update_partition_heap)
  with Cons.IH [of "arinc_time_update_partition t s"] Cons.prems show ?case by (simp add: run_ticks_def)
qed (simp add: run_ticks_def)

lemma u64_of_le: "\<not> time_overflow t \<Longrightarrow> 0 \<le> x \<Longrightarrow> x < 2 ^ 63 \<Longrightarrow> u64_of x \<le> t \<longleftrightarrow> x \<le> i64_of t"
  by (simp add: i64_of_nonneg word_le_def u64_of_def uint_word_of_int_eq take_bit_int_eq_self)

text \<open>
  A waiting process is made ready by \<open>check_timeouts\<close> when its \<open>time_counter\<close> is reached, and by
  \<open>check_and_release_periodic_waiting_processes\<close>, if it is periodic or has a delayed start
  pending, when its release point is reached. \<open>wake_times p\<close> are the uptimes at which one of the
  two does so.
\<close>

abbreviation has_release :: "process_s \<Rightarrow> bool" where
  "has_release p \<equiv> PERIOD (attrs p) \<noteq> INFINITE_TIME_VALUE \<or> saved_init_delay p \<noteq> 0"

abbreviation release_in_range :: "process_s \<Rightarrow> bool" where
  "release_in_range p \<equiv> has_release p \<longrightarrow> 0 \<le> release_point_time p \<and> release_point_time p < 2 ^ 63"

definition wake_times :: "process_s \<Rightarrow> int set" where
  "wake_times p =
     (if time_counter p \<noteq> 0 \<and> time_counter p \<noteq> INFINITE_TIME_VALUE then {time_counter p} else {}) \<union>
     (if has_release p then {release_point_time p} else {})"

lemma release_due_iff:
  assumes "pstate p = WAITING" and "release_in_range p" and "\<not> time_overflow t"
  shows "release_due t p \<longleftrightarrow> has_release p \<and> release_point_time p \<le> i64_of t"
  using assms by (auto simp: release_due_def u64_of_le)

lemma tick_waiting:
  assumes "pstate p = WAITING" and "release_in_range p" and "\<not> time_overflow t"
  shows "(\<forall>e \<in> wake_times p. i64_of t < e) \<Longrightarrow> tick_process t p = p"
    and "pstate (tick_process t p) = (if \<exists>e \<in> wake_times p. e \<le> i64_of t then READY else WAITING)"
  using assms(1) unfolding wake_times_def tick_process_def check_and_release_periodic_waiting_processes_def
    release_due_iff [OF assms] check_timeouts_def by (auto simp: Let_def)

text \<open>
  A waiting process over a sequence of ticks none of which reaches one of its wake times, and
  the tick after them.
\<close>

lemma run_ticks_waiting:
  assumes "wf_procs s" and "r \<in> set (processes s)" and "proc_heap s r = Some p" and "pstate p = WAITING"
    and "release_in_range p"
    and "\<forall>t' \<in> set ts. \<not> time_overflow t' \<and> (\<forall>e \<in> wake_times p. i64_of t' < e)" and "\<not> time_overflow t"
  shows "proc_heap (run_ticks (ts @ [t]) s) r = Some (tick_process t p) \<and>
    pstate (tick_process t p) = (if \<exists>e \<in> wake_times p. e \<le> i64_of t then READY else WAITING)"
proof -
  have "proc_heap (run_ticks ts s) r = Some p \<and> wf_procs (run_ticks ts s) \<and> processes (run_ticks ts s) = processes s"
    by (rule run_ticks_idle [OF assms(1-3)]) (use tick_waiting(1) [OF assms(4,5)] assms(6) in blast)
  then show ?thesis
    using assms(2) tick_waiting(2) [OF assms(4,5,7)] by (simp add: run_ticks_def update_partition_heap)
qed

lemma tick_process_frame [simp]:
  "DEADLINE_TIME (processus_status (tick_process t p)) = DEADLINE_TIME (processus_status p)"
  "attrs (tick_process t p) = attrs p"
  by (simp_all add: tick_process_def check_timeouts_def check_and_release_periodic_waiting_processes_def Let_def)

lemma tick_process_release_point:
  "PERIOD (attrs p) \<noteq> INFINITE_TIME_VALUE \<Longrightarrow> release_point_time (tick_process t p) = release_point_time p"
  by (simp add: tick_process_def check_timeouts_def check_and_release_periodic_waiting_processes_def Let_def)

lemma update_partition_mutex_inv: "mutex_inv s \<Longrightarrow> mutex_inv (arinc_time_update_partition up s)"
  by (rule mutex_inv.update_partition_inv)

section \<open>Properties\<close>

text \<open>
  C28. When a timed wait ends. \<open>TIMED_WAIT\<close> with an accepted delay suspends the caller. If the
  caller is aperiodic and has no delayed start pending, it stays \<open>WAITING\<close> through any number of
  ticks before the end of the delay, and the next tick makes it \<open>READY\<close> exactly when the delay
  is over. Otherwise the release pass applies to it as well, and it wakes at the end of the
  delay or at its release point, whichever a tick reaches first; so a periodic process whose
  release point is past is woken by the next tick, however long the delay. (Uptimes and release
  points are below 2^63 ms, the code's own test for an overflow.)
\<close>

theorem TIMED_WAIT_wakes_on_time:
  assumes "wf_procs s" and "process_current s = Some r" and "proc_heap s r = Some p"
    and "owned_mutex_id p = NO_MUTEX_OWNED" and "error_handler_process s \<noteq> Some r"
    and "release_in_range p" and "0 < d" and "\<not> bad_delay up d" and "\<not> time_overflow up"
    and "ends = i64_of up + d"
    and "wake = (if has_release p then min (release_point_time p) ends else ends)"
    and "\<forall>t' \<in> set ts. \<not> time_overflow t' \<and> i64_of t' < wake" and "\<not> time_overflow t"
  shows "snd (TIMED_WAIT d up s) = Yield \<and>
    (\<exists>p'. proc_heap (run_ticks (ts @ [t]) (fst (TIMED_WAIT d up s))) r = Some p' \<and>
       pstate p' = (if wake \<le> i64_of t then READY else WAITING))"
proof -
  let ?p = "set_context (Ctx_Resume RP_TIMED_WAIT) ((set_state WAITING p)\<lparr>time_counter := ends\<rparr>)"
  let ?s = "fst (TIMED_WAIT d up s)"
  have up: "0 \<le> i64_of up" using assms(9) by (simp add: i64_of_nonneg)
  have run: "TIMED_WAIT d up s = yield_to_partition RP_TIMED_WAIT r
      (upd_proc r (\<lambda>p. (set_state WAITING p)\<lparr>time_counter := ends\<rparr>) s)"
    using assms(1-5,7-10) by (simp add: TIMED_WAIT_def with_current_def with_proc_def)
  have s: "wf_procs ?s" "r \<in> set (processes ?s)" "proc_heap ?s r = Some ?p"
    unfolding run yield_to_partition_def using assms(1,3) wf_procs_current [OF assms(1,2)] by simp_all
  have w: "wake_times ?p = {ends} \<union> (if has_release p then {release_point_time p} else {})"
    using assms(7,10) up by (simp add: wake_times_def)
  have before: "(\<forall>e \<in> wake_times ?p. n < e) \<longleftrightarrow> n < wake" and after: "(\<exists>e \<in> wake_times ?p. e \<le> n) \<longleftrightarrow> wake \<le> n" for n
    unfolding w using assms(11) by auto
  have "proc_heap (run_ticks (ts @ [t]) ?s) r = Some (tick_process t ?p) \<and>
      pstate (tick_process t ?p) = (if \<exists>e \<in> wake_times ?p. e \<le> i64_of t then READY else WAITING)"
    by (rule run_ticks_waiting [OF s]) (use assms(6,12,13) before in simp_all)
  then show ?thesis unfolding after by (simp add: run yield_to_partition_def)
qed

definition sample_periodic :: process_s where
  "sample_periodic = (sample_process 1 RUNNING 10)\<lparr>release_point_time := 100,
     processus_status := (processus_status (sample_process 1 RUNNING 10))\<lparr>
       ATTRIBUTES := (attrs (sample_process 1 RUNNING 10))\<lparr>PERIOD := 50, TIME_CAPACITY := 20\<rparr>\<rparr>\<rparr>"

definition sample_with :: "process_s \<Rightarrow> pcb_s" where
  "sample_with p = sample_three\<lparr>proc_heap := (proc_heap sample_three)(1 \<mapsto> p)\<rparr>"

lemma sample_with_sel:
  "wf_procs (sample_with p)" "process_current (sample_with p) = Some 1" "proc_heap (sample_with p) 1 = Some p"
  "error_handler_process (sample_with p) \<noteq> Some 1" "error_handler_process (sample_with p) = None"
  by (simp_all add: wf_procs_def sample_three_def sample_with_def)

lemma small_times:
  "\<not> time_overflow 0" "\<not> time_overflow 10" "\<not> time_overflow 20" "\<not> time_overflow 30" "\<not> time_overflow 110"
  "\<not> time_overflow 120" "\<not> time_overflow 130" "\<not> time_overflow 150"
  "i64_of 0 = 0" "i64_of 10 = 10" "i64_of 20 = 20" "i64_of 30 = 30" "i64_of 110 = 110" "i64_of 120 = 120"
  "i64_of 130 = 130" "i64_of 150 = 150"
  by (simp_all add: time_overflow_def MAX_SYSTEM_TIME_def i64_of_def)

text \<open>An aperiodic process, which sleeps 25 ms, and a periodic one past its release point, which does not.\<close>

theorem TIMED_WAIT_wakes_on_time_witness:
  "(\<exists>p'. proc_heap (run_ticks [10, 20, 30] (fst (TIMED_WAIT 25 0 (sample_with (sample_process 1 RUNNING 10))))) 1 = Some p' \<and>
     pstate p' = READY) \<and>
   (\<exists>p'. proc_heap (run_ticks [120] (fst (TIMED_WAIT 1000 110 (sample_with sample_periodic)))) 1 = Some p' \<and>
     pstate p' = READY)"
proof -
  let ?p = "sample_process 1 RUNNING 10"
  have p: "owned_mutex_id ?p = NO_MUTEX_OWNED" "release_point_time ?p = 0"
    "PERIOD (attrs ?p) = INFINITE_TIME_VALUE" "saved_init_delay ?p = 0" by (simp_all add: sample_process_def)
  have q: "owned_mutex_id sample_periodic = NO_MUTEX_OWNED" "release_point_time sample_periodic = 100"
    "PERIOD (attrs sample_periodic) = 50" by (simp_all add: sample_periodic_def sample_process_def)
  have t: "\<not> bad_delay 0 25" "\<not> bad_delay 110 1000"
    by (simp_all add: bad_delay_def time_overflow_def MAX_SYSTEM_TIME_def u64_of_def)
  from TIMED_WAIT_wakes_on_time [OF sample_with_sel(1-3) p(1) sample_with_sel(4), of 25 0 25 25 "[10, 20]" 30]
  have "\<exists>p'. proc_heap (run_ticks [10, 20, 30] (fst (TIMED_WAIT 25 0 (sample_with ?p)))) 1 = Some p' \<and> pstate p' = READY"
    using p t small_times by simp
  moreover have w: "(100 :: int) = (if has_release sample_periodic then min (release_point_time sample_periodic) 1110 else 1110)" by (simp add: q)
  have e: "(1110 :: int) = i64_of 110 + 1000" by (simp add: small_times)
  have r: "release_in_range sample_periodic" by (simp add: q)
  have none: "\<forall>t' \<in> set []. \<not> time_overflow t' \<and> i64_of t' < (100 :: int)" by simp
  have "(100 :: int) \<le> i64_of 120" by (simp add: small_times)
  with TIMED_WAIT_wakes_on_time [OF sample_with_sel(1-3) q(1) sample_with_sel(4) r _ t(2) small_times(5) e w none small_times(6)]
  have "\<exists>p'. proc_heap (run_ticks [120] (fst (TIMED_WAIT 1000 110 (sample_with sample_periodic)))) 1 = Some p' \<and> pstate p' = READY"
    by simp
  ultimately show ?thesis by blast
qed

text \<open>
  C29. Periodic release without drift. A \<open>PERIODIC_WAIT\<close> that suspends its caller moves the release
  point by exactly one period, whatever the time of the call, and the deadline follows the new
  release point. If the caller has no timeout left over (\<open>time_counter\<close> is 0), it becomes \<open>READY\<close>
  at the first tick at or after the release point, not before. \<open>PERIODIC_WAIT\<close> does not reset
  \<open>time_counter\<close>: with one left over from an earlier wait, the process wakes when a tick
  reaches that time or the release point, whichever is first. (Uptimes and release points are
  below 2^63 ms.)
\<close>

theorem PERIODIC_WAIT_no_drift:
  assumes "wf_procs s" and "process_current s = Some r" and "proc_heap s r = Some p"
    and "PERIOD (attrs p) \<noteq> INFINITE_TIME_VALUE" and "snd (PERIODIC_WAIT s) = Yield"
    and "release = release_point_time p + PERIOD (attrs p)" and "0 \<le> release" and "release < 2 ^ 63"
    and "wake = (if time_counter p \<noteq> 0 \<and> time_counter p \<noteq> INFINITE_TIME_VALUE then min (time_counter p) release else release)"
    and "\<forall>t' \<in> set ts. \<not> time_overflow t' \<and> i64_of t' < wake" and "\<not> time_overflow t"
  shows "\<exists>p'. proc_heap (run_ticks (ts @ [t]) (fst (PERIODIC_WAIT s))) r = Some p' \<and> release_point_time p' = release \<and>
    DEADLINE_TIME (processus_status p') =
      (if TIME_CAPACITY (attrs p) = INFINITE_TIME_VALUE then INFINITE_TIME_VALUE else release + TIME_CAPACITY (attrs p)) \<and>
    pstate p' = (if wake \<le> i64_of t then READY else WAITING)"
proof -
  let ?q = "(set_state WAITING p)\<lparr>release_point_time := release\<rparr>"
  let ?p = "set_context (Ctx_Resume RP_PERIODIC_WAIT) (update_process_deadline release ?q)"
  let ?s = "fst (PERIODIC_WAIT s)"
  have s: "wf_procs ?s" "r \<in> set (processes ?s)" "proc_heap ?s r = Some ?p"
    using assms(1,2,3,5,6) wf_procs_current [OF assms(1,2)]
    by (auto simp: PERIODIC_WAIT_def with_current_def with_proc_def Let_def yield_to_partition_def split: if_splits)
  have q: "pstate ?p = WAITING" "time_counter ?p = time_counter p" "PERIOD (attrs ?p) \<noteq> INFINITE_TIME_VALUE"
    "release_point_time ?p = release"
    using assms(4) by (simp_all add: update_process_deadline_def)
  have w: "wake_times ?p = {release} \<union>
      (if time_counter p \<noteq> 0 \<and> time_counter p \<noteq> INFINITE_TIME_VALUE then {time_counter p} else {})"
    using q by (simp add: wake_times_def)
  have before: "(\<forall>e \<in> wake_times ?p. n < e) \<longleftrightarrow> n < wake" and after: "(\<exists>e \<in> wake_times ?p. e \<le> n) \<longleftrightarrow> wake \<le> n" for n
    unfolding w using assms(9) by auto
  have "proc_heap (run_ticks (ts @ [t]) ?s) r = Some (tick_process t ?p) \<and>
      pstate (tick_process t ?p) = (if \<exists>e \<in> wake_times ?p. e \<le> i64_of t then READY else WAITING)"
    by (rule run_ticks_waiting [OF s q(1)]) (use q(4) assms(7,8,10,11) before in simp_all)
  then show ?thesis unfolding after
    using tick_process_release_point [OF q(3), of t] q(4) by (simp add: update_process_deadline_def)
qed

text \<open>Without a timeout left over, and with one.\<close>

theorem PERIODIC_WAIT_no_drift_witness:
  "(\<exists>p'. proc_heap (run_ticks [120, 150] (fst (PERIODIC_WAIT (sample_with sample_periodic)))) 1 = Some p' \<and>
     release_point_time p' = 150 \<and> DEADLINE_TIME (processus_status p') = 170 \<and> pstate p' = READY) \<and>
   (\<exists>p'. proc_heap (run_ticks [120, 130] (fst (PERIODIC_WAIT (sample_with (sample_periodic\<lparr>time_counter := 130\<rparr>))))) 1 = Some p' \<and>
     release_point_time p' = 150 \<and> pstate p' = READY)"
proof -
  let ?q = "sample_periodic\<lparr>time_counter := 130\<rparr>"
  have p: "time_counter sample_periodic = 0" "PERIOD (attrs sample_periodic) = 50" "release_point_time sample_periodic = 100"
    "TIME_CAPACITY (attrs sample_periodic) = 20" "owned_mutex_id sample_periodic = NO_MUTEX_OWNED"
    by (simp_all add: sample_periodic_def sample_process_def)
  have y: "snd (PERIODIC_WAIT (sample_with (sample_periodic\<lparr>time_counter := c\<rparr>))) = Yield" for c
    using p sample_with_sel by (simp add: PERIODIC_WAIT_def with_current_def with_proc_def Let_def
        yield_to_partition_def time_overflow_def MAX_SYSTEM_TIME_def u64_of_def)
  have "sample_periodic\<lparr>time_counter := 0\<rparr> = sample_periodic" using p(1) by (cases sample_periodic) simp
  with y [of 0] have y0: "snd (PERIODIC_WAIT (sample_with sample_periodic)) = Yield" by simp
  from PERIODIC_WAIT_no_drift [OF sample_with_sel(1-3) _ y0, of 150 150 "[120]" 150]
  have "\<exists>p'. proc_heap (run_ticks [120, 150] (fst (PERIODIC_WAIT (sample_with sample_periodic)))) 1 = Some p' \<and>
     release_point_time p' = 150 \<and> DEADLINE_TIME (processus_status p') = 170 \<and> pstate p' = READY"
    using p small_times by simp
  moreover from PERIODIC_WAIT_no_drift [OF sample_with_sel(1-3) _ y [of 130], of 150 130 "[120]" 130]
  have "\<exists>p'. proc_heap (run_ticks [120, 130] (fst (PERIODIC_WAIT (sample_with ?q)))) 1 = Some p' \<and>
     release_point_time p' = 150 \<and> pstate p' = READY"
    using p small_times by auto
  ultimately show ?thesis by blast
qed

text \<open>
  C36. A timeout does not take the process out of the queue. When the first process waiting
  for a mutex times out, and the owner releases the mutex before it runs again, it is made
  the owner of the mutex while its \<open>ACQUIRE_MUTEX\<close> reports \<open>TIMED_OUT\<close>.
\<close>

theorem timed_out_waiter_gets_mutex:
  assumes "mutex_inv s" and "process_current s = Some r" and "proc_heap s r = Some p"
    and "find_mutex_by_id s mid \<noteq> -1" and "owned_mutex_id p = mid"
    and "LOCK_COUNT (mx s (nat (find_mutex_by_id s mid))) = 1"
    and "mx_waiting_processes (mutexes s ! nat (find_mutex_by_id s mid)) = w # ws" and "w \<noteq> r"
    and "proc_heap s w = Some pw" and "0 < time_counter pw" and "time_counter pw \<le> i64_of up"
  shows "\<exists>s' pw'. krnl_release_mutex mid (arinc_time_update_partition up s) = (s', Yield) \<and>
    proc_heap s' w = Some pw' \<and> owned_mutex_id pw' = mid \<and> resume_mutex RP_ACQUIRE_MUTEX_TMO pw' = TIMED_OUT"
proof -
  let ?s = "arinc_time_update_partition up s" and ?i = "nat (find_mutex_by_id s mid)"
  have r: "r \<in> set (processes s)" using wf_procs_current [OF mutex_invD(1) [OF assms(1)] assms(2)] by simp
  have w: "w \<in> set (processes s)"
    using mutex_facts(2) [OF assms(1) find_mutex_by_id_found(1) [OF mutex_invD(3) [OF assms(1)] refl assms(4)]] assms(7)
    by simp
  have h: "proc_heap ?s r = Some (tick_process up p)" "proc_heap ?s w = Some (tick_process up pw)"
    using assms(3,9) r w update_partition_heap [OF mutex_invD(1) [OF assms(1)]] by simp_all
  have count: "mutex_count (fold (\<lambda>r. upd_proc r f) rs s) = mutex_count s" for f rs s
    by (induction rs arbitrary: s) auto
  have find: "find_mutex_by_id ?s mid = find_mutex_by_id s mid"
    by (simp add: find_mutex_by_id_def) (simp add: arinc_time_update_partition_def foreach_process_def count)
  have own: "owned_mutex_id (tick_process up p) = mid" using tick_process_harmless [of p up] assms(5) by (simp add: harmless_def)
  have tc: "time_counter (tick_process up pw) = 0"
    using assms(10,11) by (simp add: tick_process_def check_timeouts_def check_and_release_periodic_waiting_processes_def Let_def)
  from krnl_release_mutex_run [OF update_partition_mutex_inv [OF assms(1)], of up r "tick_process up p" mid w ws]
  have run: "krnl_release_mutex mid ?s = yield_to_partition RP_RELEASE_MUTEX r
      (upd_proc w (set_state READY) (move_to_front w (grant_mutex ?i mid w (tick_process up pw) (free_mutex ?i r ?s))))"
    using assms(2,4,6,7,8) h own find by simp
  show ?thesis unfolding run yield_to_partition_def
    using h(2) assms(8) tc
    by (simp add: grant_mutex_def free_mutex_def upd_mutex_status_def resume_mutex_def stop_timeout_def)
qed

theorem timed_out_waiter_gets_mutex_witness:
  "\<exists>s' pw'. krnl_release_mutex 1 (arinc_time_update_partition 9 (upd_proc 2 (\<lambda>p. p\<lparr>time_counter := 5\<rparr>) sample_owned_state)) =
      (s', Yield) \<and> proc_heap s' 2 = Some pw' \<and> owned_mutex_id pw' = 1 \<and>
      resume_mutex RP_ACQUIRE_MUTEX_TMO pw' = TIMED_OUT"
proof -
  let ?s = "upd_proc 2 (\<lambda>p. p\<lparr>time_counter := 5\<rparr>) sample_owned_state"
  have i: "mutex_inv ?s" by (rule mutex_inv.upd [OF sample_owned_state_inv]) (simp add: harmless_def)
  have f: "find_mutex_by_id ?s 1 = 0"
    by (simp add: find_mutex_by_id_def sample_owned_state_def sample_mutex_def)
  have m: "LOCK_COUNT (mx ?s 0) = 1" "mx_waiting_processes (mutexes ?s ! 0) = [2, 3]"
    by (simp_all add: sample_owned_state_def sample_mutex_def)
  have s: "process_current ?s = Some 1" "proc_heap ?s 1 = Some ((sample_process 1 RUNNING 30)\<lparr>owned_mutex_id := 1\<rparr>)"
    by (simp_all add: sample_owned_state_def sample_three_def)
  have w: "\<exists>pw. proc_heap ?s 2 = Some pw \<and> time_counter pw = 5" by (simp add: sample_owned_state_def sample_three_def)
  then obtain pw where pw: "proc_heap ?s 2 = Some pw" "time_counter pw = 5" by blast
  have "i64_of 9 = 9" by (simp add: i64_of_def)
  with timed_out_waiter_gets_mutex [OF i s, of 1 2 "[3]" pw 9] f m pw show ?thesis by auto
qed

end
