(* ===== verification/Waiting_Queue.thy ===== *)
theory Waiting_Queue
  imports Time_Services
begin

text \<open>
  What the blocking resources of a partition share: a queue of waiting processes with a
  counter in the status the application can read, and the steps that block and wake a
  process.

  \<open>waiting_queue\<close> is the contract of such a resource; semaphores, events, blackboards,
  buffers and queuing ports are shown to satisfy it in their theories. Its lemmas give the
  order of service and the balance between counter and queue for all of them.
  \<open>resource_inv\<close> extends the contract \<open>process_inv\<close> of the invariants of a partition by the
  independence of the other resources.
\<close>

section \<open>Blocking and waking\<close>

text \<open>
  The woken process becomes ready, its pointer to the resource is cleared by \<open>clear\<close>, and an
  active timeout is turned off.
\<close>

definition wake_process :: "(process_s \<Rightarrow> process_s) \<Rightarrow> pref \<Rightarrow> pcb_s \<Rightarrow> pcb_s" where
  "wake_process clear w s = upd_proc w (\<lambda>p. clear (set_state READY (stop_timeout p))) s"

text \<open>
  The loop \<open>while (waiting_processes->length > 0)\<close> of \<open>SET_EVENT\<close> and \<open>DISPLAY_BLACKBOARD\<close>:
  each turn removes and wakes the first process. A freed process in the queue is read.
\<close>

fun wake_each :: "(process_s \<Rightarrow> process_s) \<Rightarrow> pref list \<Rightarrow> pcb_s \<Rightarrow> fault + pcb_s" where
  "wake_each clear [] s = Inr s"
| "wake_each clear (w # ws) s =
     (case proc_heap s w of None \<Rightarrow> Inl UseAfterFree
      | Some _ \<Rightarrow> wake_each clear ws (wake_process clear w s))"

text \<open>\<open>time_counter = uptime + TIME_OUT\<close> of a wait with a timeout.\<close>

definition start_timeout :: "u64 \<Rightarrow> int \<Rightarrow> pref \<Rightarrow> pcb_s \<Rightarrow> pcb_s" where
  "start_timeout up t r s = upd_proc r (\<lambda>p. p\<lparr>time_counter := i64_of up + t\<rparr>) s"

text \<open>What a wait with a timeout returns when its process runs again.\<close>

definition timeout_code :: "process_s \<Rightarrow> RETURN_CODE_TYPE" where
  "timeout_code p = (if time_counter p = 0 then TIMED_OUT else NO_ERROR)"

lemma wake_process_heap [simp]:
  "proc_heap (wake_process c w s) = (proc_heap s)(w := map_option (\<lambda>p. c (set_state READY (stop_timeout p))) (proc_heap s w))"
  by (simp add: wake_process_def)

lemma wake_process_frame [simp]:
  "processes (wake_process c w s) = processes s" "process_current (wake_process c w s) = process_current s"
  "semaphores (wake_process c w s) = semaphores s" "events (wake_process c w s) = events s"
  "blackboards (wake_process c w s) = blackboards s" "buffers (wake_process c w s) = buffers s"
  "queuing_ports (wake_process c w s) = queuing_ports s" "mem (wake_process c w s) = mem s"
  "semaphore_count (wake_process c w s) = semaphore_count s" "event_count (wake_process c w s) = event_count s"
  "blackboard_count (wake_process c w s) = blackboard_count s" "buffer_count (wake_process c w s) = buffer_count s"
  "mutexes (wake_process c w s) = mutexes s" "mutex_count (wake_process c w s) = mutex_count s"
  "error_handler_process (wake_process c w s) = error_handler_process s"
  by (simp_all add: wake_process_def)

lemma start_timeout_heap [simp]:
  "proc_heap (start_timeout up t r s) =
     (proc_heap s)(r := map_option (\<lambda>p. p\<lparr>time_counter := i64_of up + t\<rparr>) (proc_heap s r))"
  by (simp add: start_timeout_def)

lemma start_timeout_frame [simp]:
  "processes (start_timeout up t r s) = processes s" "process_current (start_timeout up t r s) = process_current s"
  "semaphores (start_timeout up t r s) = semaphores s" "events (start_timeout up t r s) = events s"
  "blackboards (start_timeout up t r s) = blackboards s" "buffers (start_timeout up t r s) = buffers s"
  "queuing_ports (start_timeout up t r s) = queuing_ports s" "mem (start_timeout up t r s) = mem s"
  "semaphore_count (start_timeout up t r s) = semaphore_count s" "event_count (start_timeout up t r s) = event_count s"
  "blackboard_count (start_timeout up t r s) = blackboard_count s" "buffer_count (start_timeout up t r s) = buffer_count s"
  by (simp_all add: start_timeout_def)

text \<open>A queue of live processes is woken without a fault, and entirely.\<close>

lemma wake_each_spec:
  assumes "\<And>w. w \<in> set ws \<Longrightarrow> proc_heap s w \<noteq> None"
    and "\<And>p. pstate (c p) = pstate p" "\<And>p. time_counter (c p) = time_counter p"
  shows "\<exists>s'. wake_each c ws s = Inr s' \<and> processes s' = processes s \<and> process_current s' = process_current s \<and>
    (\<forall>w \<in> set ws. \<exists>p'. proc_heap s' w = Some p' \<and> pstate p' = READY) \<and>
    (\<forall>w. w \<notin> set ws \<longrightarrow> proc_heap s' w = proc_heap s w) \<and>
    (\<forall>w. proc_heap s w = None \<longleftrightarrow> proc_heap s' w = None)"
  using assms
proof (induction ws arbitrary: s)
  case (Cons w ws)
  let ?s = "wake_process c w s"
  from Cons.prems obtain p where p: "proc_heap s w = Some p" by fastforce
  have "\<And>v. v \<in> set ws \<Longrightarrow> proc_heap ?s v \<noteq> None" using Cons.prems(1) by auto
  from Cons.IH [OF this Cons.prems(2,3)] obtain s' where
    s': "wake_each c ws ?s = Inr s'" "processes s' = processes s" "process_current s' = process_current s"
    "\<forall>v \<in> set ws. \<exists>p'. proc_heap s' v = Some p' \<and> pstate p' = READY"
    "\<forall>v. v \<notin> set ws \<longrightarrow> proc_heap s' v = proc_heap ?s v"
    "\<forall>v. proc_heap ?s v = None \<longleftrightarrow> proc_heap s' v = None" by auto
  have "\<exists>p'. proc_heap s' w = Some p' \<and> pstate p' = READY"
    using s'(4,5) p Cons.prems(2) by (cases "w \<in> set ws") auto
  moreover have "proc_heap s v = None \<longleftrightarrow> proc_heap s' v = None" for v
    using s'(6) [rule_format, of v] by (cases "v = w") auto
  ultimately show ?case using s' p by auto
qed simp

text \<open>Waking processes changes nothing but the processes.\<close>

lemma wake_each_shape: "wake_each c ws s = Inr t \<Longrightarrow> \<exists>h. t = s\<lparr>proc_heap := h\<rparr>"
proof (induction c ws s rule: wake_each.induct)
  case (1 c s)
  then have "t = s\<lparr>proc_heap := proc_heap s\<rparr>" by simp
  then show ?case by blast
next
  case (2 c w ws s)
  from "2.prems" obtain p where p: "proc_heap s w = Some p" "wake_each c ws (wake_process c w s) = Inr t"
    by (auto split: option.splits)
  from "2.IH" [OF p] show ?case by (auto simp: wake_process_def upd_proc_def)
qed

section \<open>The contract of a waiting queue\<close>

locale waiting_queue =
  fixes queue :: "'a \<Rightarrow> pref list" and waiting :: "'a \<Rightarrow> int"
    and enter :: "QUEUING_DISCIPLINE_TYPE \<Rightarrow> pcb_s \<Rightarrow> pref \<Rightarrow> 'a \<Rightarrow> 'a" and serve :: "'a \<Rightarrow> 'a"
  assumes enter_queue: "queue (enter d s r x) = enqueue_waiter d s r (queue x)"
    and enter_waiting: "waiting (enter d s r x) = waiting x + 1"
    and serve_queue: "queue (serve x) = tl (queue x)"
    and serve_waiting: "waiting (serve x) = waiting x - 1"
begin

text \<open>The counter moves with the length of the queue.\<close>

lemma enter_balance: "waiting (enter d s r x) - int (length (queue (enter d s r x))) = waiting x - int (length (queue x))"
  by (simp add: enter_queue enter_waiting)

lemma serve_balance: "queue x \<noteq> [] \<Longrightarrow>
    waiting (serve x) - int (length (queue (serve x))) = waiting x - int (length (queue x))"
  by (cases "queue x") (simp_all add: serve_queue serve_waiting)

text \<open>Service in order of arrival under \<open>FIFO\<close>.\<close>

lemma fifo_order: "queue (fold (enter FIFO s) rs x) = queue x @ rs"
  by (induction rs arbitrary: x) (simp_all add: enter_queue enqueue_waiter_def)

lemma serve_prefix: "queue ((serve ^^ n) x) = drop n (queue x)"
  by (induction n) (simp_all add: serve_queue drop_Suc drop_tl)

text \<open>Under \<open>PRIORITY\<close> the first process of the queue always has the highest priority.\<close>

lemma priority_sorted:
  "sorted_wrt (\<lambda>a b. prio_of s b \<le> prio_of s a) (queue x) \<Longrightarrow>
   sorted_wrt (\<lambda>a b. prio_of s b \<le> prio_of s a) (queue (fold (enter PRIORITY s) rs x))"
  by (induction rs arbitrary: x) (simp_all add: enter_queue enqueue_waiter_def sorted_insert_desc)

lemma priority_members: "mset (queue (fold (enter PRIORITY s) rs x)) = mset (queue x) + mset rs"
  by (induction rs arbitrary: x) (simp_all add: enter_queue enqueue_waiter_def)

lemma priority_first:
  assumes "queue x = []" and "r \<in> set rs"
  shows "queue (fold (enter PRIORITY s) rs x) \<noteq> [] \<and>
    prio_of s r \<le> prio_of s (hd (queue (fold (enter PRIORITY s) rs x)))"
proof -
  let ?q = "queue (fold (enter PRIORITY s) rs x)"
  have sorted: "sorted_wrt (\<lambda>a b. prio_of s b \<le> prio_of s a) ?q" using priority_sorted [of s x rs] assms(1) by simp
  have "set ?q = set rs" using priority_members [of s rs x] assms(1)
    by (metis add_0 mset.simps(1) set_mset_mset)
  then have "r \<in> set ?q" using assms(2) by simp
  with sorted show ?thesis by (cases ?q) auto
qed

end

section \<open>Invariants and the other resources\<close>

locale resource_inv = process_mutex_inv +
  assumes same: "inv s \<Longrightarrow> same_procs s t \<Longrightarrow> mutexes t = mutexes s \<Longrightarrow> mutex_count t = mutex_count s \<Longrightarrow>
    id_next t = id_next s \<Longrightarrow> nbr_processes t = nbr_processes s \<Longrightarrow> next_stack_addr t = next_stack_addr s \<Longrightarrow>
    data_memory t = data_memory s \<Longrightarrow> IDENTIFIER (status t) = IDENTIFIER (status s) \<Longrightarrow> inv t"
begin

lemma fields_inv:
  "inv s \<Longrightarrow> inv (s\<lparr>semaphores := a\<rparr>)" "inv s \<Longrightarrow> inv (s\<lparr>semaphore_count := n\<rparr>)"
  "inv s \<Longrightarrow> inv (s\<lparr>events := b\<rparr>)" "inv s \<Longrightarrow> inv (s\<lparr>event_count := n\<rparr>)"
  "inv s \<Longrightarrow> inv (s\<lparr>blackboards := d\<rparr>)" "inv s \<Longrightarrow> inv (s\<lparr>blackboard_count := n\<rparr>)"
  "inv s \<Longrightarrow> inv (s\<lparr>blackboards_data := u\<rparr>)" "inv s \<Longrightarrow> inv (s\<lparr>blackboards_size_data := v\<rparr>)"
  "inv s \<Longrightarrow> inv (s\<lparr>buffers := e\<rparr>)" "inv s \<Longrightarrow> inv (s\<lparr>buffer_count := n\<rparr>)"
  "inv s \<Longrightarrow> inv (s\<lparr>buffers_data := u\<rparr>)" "inv s \<Longrightarrow> inv (s\<lparr>buffers_size_data := v\<rparr>)"
  "inv s \<Longrightarrow> inv (s\<lparr>sampling_ports := g\<rparr>)" "inv s \<Longrightarrow> inv (s\<lparr>sampling_port_count := n\<rparr>)"
  "inv s \<Longrightarrow> inv (s\<lparr>queuing_ports := h\<rparr>)" "inv s \<Longrightarrow> inv (s\<lparr>queuing_port_count := n\<rparr>)"
  "inv s \<Longrightarrow> inv (s\<lparr>mem := m\<rparr>)" "inv s \<Longrightarrow> inv (s\<lparr>error_list_cb := el\<rparr>)"
  "inv s \<Longrightarrow> inv (s\<lparr>last_tick := lt\<rparr>)" "inv s \<Longrightarrow> inv (s\<lparr>pcb_context := cx\<rparr>)"
  by (rule same; simp add: same_procs_def)+

lemma wake_process_inv: "(\<And>p. harmless p (c p)) \<Longrightarrow> inv s \<Longrightarrow> inv (wake_process c w s)"
proof -
  assume c: "\<And>p. harmless p (c p)" and i: "inv s"
  show "inv (wake_process c w s)"
    unfolding wake_process_def
  proof (rule upd [OF i])
    fix p
    show "harmless p (c (set_state READY (stop_timeout p)))"
      using c [of "set_state READY (stop_timeout p)"] by (auto simp: harmless_def stop_timeout_def)
  qed
qed

lemma wake_each_inv: "(\<And>p. harmless p (c p)) \<Longrightarrow> inv s \<Longrightarrow> wake_each c ws s = Inr s' \<Longrightarrow> inv s'"
  by (induction c ws s rule: wake_each.induct) (auto intro: wake_process_inv split: option.splits)

lemma start_timeout_inv: "inv s \<Longrightarrow> inv (start_timeout up t r s)"
  unfolding start_timeout_def by (rule upd) (auto simp: harmless_def)

end

lemma part_inv_same:
  "part_inv s \<Longrightarrow> same_procs s t \<Longrightarrow> mutexes t = mutexes s \<Longrightarrow> mutex_count t = mutex_count s \<Longrightarrow> part_inv t"
  using same_procs_mutex_inv [of s t] same_procs_running [of s t] by (simp add: part_inv_def)

interpretation part_res: resource_inv part_inv
  by unfold_locales (rule part_inv_same)

end
