(* ===== verification/Semaphore.thy ===== *)
theory Semaphore
  imports Waiting_Queue
begin

text \<open>
  Counting semaphores, from \<open>arinc/arinc_intrapartition_communication.c\<close>. A wait takes a unit
  or queues the caller; a signal hands the unit to the first waiting process or adds it to
  the value.

  The theory shows that the value stays between 0 and the maximum, that no process waits
  while units are available, that the counter of waiting processes is the length of the
  queue, that no unit is created and which units are lost, and the order of service. The invariant
  is kept by every interleaving of semaphore services with the other steps that touch a
  semaphore queue: ticks, \<open>STOP\<close> and the scheduler.
\<close>

section \<open>Operations\<close>

definition find_semaphore_by_name :: "pcb_s \<Rightarrow> string \<Rightarrow> int" where
  "find_semaphore_by_name s name =
     index_from 0 (\<lambda>m. semaphore_name m = name) (take (nat (semaphore_count s)) (semaphores s))"

definition find_semaphore_by_id :: "pcb_s \<Rightarrow> int \<Rightarrow> int" where
  "find_semaphore_by_id s i =
     index_from 0 (\<lambda>m. semaphore_id m = i) (take (nat (semaphore_count s)) (semaphores s))"

definition upd_sem :: "nat \<Rightarrow> (semaphore_s \<Rightarrow> semaphore_s) \<Rightarrow> pcb_s \<Rightarrow> pcb_s" where
  "upd_sem i f s = s\<lparr>semaphores := (semaphores s)[i := f (semaphores s ! i)]\<rparr>"

definition add_value :: "int \<Rightarrow> semaphore_s \<Rightarrow> semaphore_s" where
  "add_value n m = m\<lparr>semaphore_status := (semaphore_status m)\<lparr>
     CURRENT_VALUE := CURRENT_VALUE (semaphore_status m) + n\<rparr>\<rparr>"

definition sem_enter :: "QUEUING_DISCIPLINE_TYPE \<Rightarrow> pcb_s \<Rightarrow> pref \<Rightarrow> semaphore_s \<Rightarrow> semaphore_s" where
  "sem_enter d s r m = m\<lparr>semaphore_status := (semaphore_status m)\<lparr>
       SEM_WAITING_PROCESSES := SEM_WAITING_PROCESSES (semaphore_status m) + 1\<rparr>,
     sem_waiting_processes := enqueue_waiter d s r (sem_waiting_processes m)\<rparr>"

definition sem_serve :: "semaphore_s \<Rightarrow> semaphore_s" where
  "sem_serve m = m\<lparr>semaphore_status := (semaphore_status m)\<lparr>
       SEM_WAITING_PROCESSES := SEM_WAITING_PROCESSES (semaphore_status m) - 1\<rparr>,
     sem_waiting_processes := tl (sem_waiting_processes m)\<rparr>"

definition CREATE_SEMAPHORE :: "string \<Rightarrow> int \<Rightarrow> int \<Rightarrow> int \<Rightarrow> service" where
  "CREATE_SEMAPHORE SEMAPHORE_NAME CURRENT_VAL MAXIMUM_VAL QUEUING_DISC s =
     (if semaphore_count s + 1 > max_semaphores s then (s, Ret INVALID_CONFIG NoOut)
      else if find_semaphore_by_name s SEMAPHORE_NAME \<noteq> -1 then (s, Ret NO_ACTION NoOut)
      else if CURRENT_VAL < 0 then (s, Ret INVALID_PARAM NoOut)
      else if MAXIMUM_VAL \<le> 0 then (s, Ret INVALID_PARAM NoOut)
      else if CURRENT_VAL > MAXIMUM_VAL then (s, Ret INVALID_PARAM NoOut)
      else case decode_discipline QUEUING_DISC of
        None \<Rightarrow> (s, Ret INVALID_PARAM NoOut)
      | Some d \<Rightarrow>
          if OPERATING_MODE (status s) = NORMAL then (s, Ret INVALID_MODE NoOut)
          else if \<not> nat (semaphore_count s) < length (semaphores s) then (s, Fault OutOfBounds)
          else let n = semaphore_count s + 1 in
            ((upd_sem (nat (semaphore_count s)) (\<lambda>m.
                \<lparr>semaphore_name = take (MAX_NAME_LENGTH - 1) SEMAPHORE_NAME, semaphore_id = n,
                 sem_queuing_discipline = d,
                 semaphore_status = \<lparr>CURRENT_VALUE = CURRENT_VAL, MAXIMUM_VALUE = MAXIMUM_VAL,
                   SEM_WAITING_PROCESSES = 0\<rparr>,
                 sem_waiting_processes = []\<rparr>) s)\<lparr>semaphore_count := n\<rparr>,
             Ret NO_ERROR (OutId n)))"

definition WAIT_SEMAPHORE :: "int \<Rightarrow> int \<Rightarrow> u64 \<Rightarrow> service" where
  "WAIT_SEMAPHORE SEMAPHORE_ID TIME_OUT up s =
     (let index = find_semaphore_by_id s SEMAPHORE_ID; i = nat index in
      if index = -1 then (s, Ret INVALID_PARAM NoOut)
      else if bad_delay up TIME_OUT then (s, Ret INVALID_PARAM NoOut)
      else with_current (\<lambda>r p.
        let m = semaphores s ! i in
        if CURRENT_VALUE (semaphore_status m) > 0 then (upd_sem i (add_value (-1)) s, Ret NO_ERROR NoOut)
        else if TIME_OUT = 0 then (s, Ret NOT_AVAILABLE NoOut)
        else if owned_mutex_id p \<noteq> NO_MUTEX_OWNED \<or> error_handler_process s = Some r
          then (s, Ret INVALID_MODE NoOut)
        else if TIME_OUT = INFINITE_TIME_VALUE then
          let s1 = upd_proc r (set_state WAITING) s
          in yield_to_partition RP_WAIT_SEMAPHORE_INF r
               (upd_sem i (sem_enter (sem_queuing_discipline m) s1 r) s1)
        else
          let s1 = upd_proc r (\<lambda>p. set_state WAITING (p\<lparr>waiting_semaphore := Some i\<rparr>)) s
          in yield_to_partition RP_WAIT_SEMAPHORE_TMO r
               (start_timeout up TIME_OUT r (upd_sem i (sem_enter (sem_queuing_discipline m) s1 r) s1))) s)"

definition SIGNAL_SEMAPHORE :: "int \<Rightarrow> service" where
  "SIGNAL_SEMAPHORE SEMAPHORE_ID s =
     (let index = find_semaphore_by_id s SEMAPHORE_ID; i = nat index in
      if index = -1 then (s, Ret INVALID_PARAM NoOut)
      else let m = semaphores s ! i in
        if CURRENT_VALUE (semaphore_status m) = MAXIMUM_VALUE (semaphore_status m)
          then (s, Ret INVALID_CONFIG NoOut)
        else case sem_waiting_processes m of
          [] \<Rightarrow> (upd_sem i (add_value 1) s, Ret NO_ERROR NoOut)
        | w # _ \<Rightarrow> with_current (\<lambda>c pc. with_proc w (\<lambda>pw.
            yield_to_partition RP_SIGNAL_SEMAPHORE c
              (wake_process (\<lambda>p. p\<lparr>waiting_semaphore := None\<rparr>) w (upd_sem i sem_serve s))) s) s)"

definition GET_SEMAPHORE_ID :: "string \<Rightarrow> service" where
  "GET_SEMAPHORE_ID SEMAPHORE_NAME s =
     (let index = find_semaphore_by_name s SEMAPHORE_NAME in
      if index = -1 then (s, Ret INVALID_CONFIG NoOut)
      else (s, Ret NO_ERROR (OutId (semaphore_id (semaphores s ! nat index)))))"

definition GET_SEMAPHORE_STATUS :: "int \<Rightarrow> service" where
  "GET_SEMAPHORE_STATUS SEMAPHORE_ID s =
     (let index = find_semaphore_by_id s SEMAPHORE_ID in
      if index = -1 then (s, Ret INVALID_PARAM NoOut)
      else (s, Ret NO_ERROR (OutSemaphoreStatus (semaphore_status (semaphores s ! nat index)))))"

definition resume_semaphore :: "resume_point \<Rightarrow> process_s \<Rightarrow> RETURN_CODE_TYPE" where
  "resume_semaphore k p = (if k = RP_WAIT_SEMAPHORE_TMO then timeout_code p else NO_ERROR)"

interpretation sem_queue: waiting_queue sem_waiting_processes
  "\<lambda>m. SEM_WAITING_PROCESSES (semaphore_status m)" sem_enter sem_serve
  by unfold_locales (simp_all add: sem_enter_def sem_serve_def)

section \<open>Invariant\<close>

definition sem_ok :: "pcb_s \<Rightarrow> semaphore_s \<Rightarrow> bool" where
  "sem_ok s m \<longleftrightarrow> 0 \<le> CURRENT_VALUE (semaphore_status m) \<and>
     CURRENT_VALUE (semaphore_status m) \<le> MAXIMUM_VALUE (semaphore_status m) \<and>
     0 < MAXIMUM_VALUE (semaphore_status m) \<and>
     SEM_WAITING_PROCESSES (semaphore_status m) = int (length (sem_waiting_processes m)) \<and>
     set (sem_waiting_processes m) \<subseteq> set (processes s) \<and>
     (sem_waiting_processes m \<noteq> [] \<longrightarrow> CURRENT_VALUE (semaphore_status m) = 0)"

definition sem_inv :: "pcb_s \<Rightarrow> bool" where
  "sem_inv s \<longleftrightarrow> wf_procs s \<and> 0 \<le> semaphore_count s \<and> nat (semaphore_count s) \<le> length (semaphores s) \<and>
     (\<forall>i < nat (semaphore_count s). semaphore_id (semaphores s ! i) = int i + 1 \<and> sem_ok s (semaphores s ! i))"

lemma upd_sem_frame [simp]:
  "processes (upd_sem i f s) = processes s" "process_current (upd_sem i f s) = process_current s"
  "error_handler_process (upd_sem i f s) = error_handler_process s" "proc_heap (upd_sem i f s) = proc_heap s"
  "semaphore_count (upd_sem i f s) = semaphore_count s" "status (upd_sem i f s) = status s"
  "semaphores (upd_sem i f s) = (semaphores s)[i := f (semaphores s ! i)]"
  "mutexes (upd_sem i f s) = mutexes s" "mutex_count (upd_sem i f s) = mutex_count s"
  by (simp_all add: upd_sem_def)

lemma find_semaphore_by_id_found:
  assumes "sem_inv s" and "find_semaphore_by_id s sid = n" and "n \<noteq> -1"
  shows "nat n < nat (semaphore_count s)" "nat n < length (semaphores s)" "semaphore_id (semaphores s ! nat n) = sid"
  using assms index_from_found [of "\<lambda>m. semaphore_id m = sid" "take (nat (semaphore_count s)) (semaphores s)" n]
  by (auto simp: find_semaphore_by_id_def sem_inv_def)

lemma find_semaphore_by_id_eq:
  assumes "sem_inv s" and "i < nat (semaphore_count s)"
  shows "find_semaphore_by_id s (int i + 1) = int i"
  using assms unfolding find_semaphore_by_id_def sem_inv_def by (intro index_from_unique) auto

lemma sem_inv_nth: "sem_inv s \<Longrightarrow> i < nat (semaphore_count s) \<Longrightarrow> sem_ok s (semaphores s ! i) \<and> i < length (semaphores s)"
  by (auto simp: sem_inv_def)

text \<open>The invariant reads the process list, the liveness of its processes and the semaphores.\<close>

lemma sem_inv_procs:
  assumes "sem_inv s" and "set (processes t) = set (processes s)" and "wf_procs t"
    and "semaphores t = semaphores s" and "semaphore_count t = semaphore_count s"
  shows "sem_inv t"
  using assms by (simp add: sem_inv_def sem_ok_def)

lemma sem_inv_upd_proc: "sem_inv s \<Longrightarrow> sem_inv (upd_proc r f s)"
  using sem_inv_procs [of s "upd_proc r f s"] by (simp add: sem_inv_def)

lemma sem_inv_yield: "sem_inv s \<Longrightarrow> sem_inv (fst (yield_to_partition k r s))"
  by (simp add: yield_to_partition_def sem_inv_upd_proc)

lemma sem_inv_upd_sem:
  assumes "sem_inv s" and "\<And>m. semaphore_id (f m) = semaphore_id m"
    and "i < nat (semaphore_count s) \<Longrightarrow> sem_ok s (f (semaphores s ! i))"
  shows "sem_inv (upd_sem i f s)"
proof -
  have "sem_ok (upd_sem i f s) = sem_ok s" by (rule ext) (simp add: sem_ok_def)
  moreover have "semaphores (upd_sem i f s) ! j = (if j = i then f (semaphores s ! i) else semaphores s ! j)"
    if "j < nat (semaphore_count s)" for j
    using that assms(1) by (simp add: nth_list_update sem_inv_def)
  moreover have "wf_procs (upd_sem i f s)" using assms(1) by (simp add: sem_inv_def wf_procs_def)
  ultimately show ?thesis using assms by (simp add: sem_inv_def del: upd_sem_frame(7)) simp
qed

lemma sem_ok_enter:
  assumes "sem_ok s m" and "CURRENT_VALUE (semaphore_status m) = 0" and "r \<in> set (processes s)"
  shows "sem_ok s (sem_enter d t r m)"
  using assms by (simp add: sem_ok_def sem_enter_def)

lemma sem_ok_serve: "sem_ok s m \<Longrightarrow> sem_waiting_processes m = w # ws \<Longrightarrow> sem_ok s (sem_serve m)"
  by (auto simp: sem_ok_def sem_serve_def)

lemma CREATE_SEMAPHORE_inv:
  assumes "sem_inv s" shows "sem_inv (fst (CREATE_SEMAPHORE name c m d s))"
proof -
  have "sem_inv (fst (CREATE_SEMAPHORE name c m d s))"
    if "fst (CREATE_SEMAPHORE name c m d s) \<noteq> s"
  proof -
    let ?n = "nat (semaphore_count s)"
    from that obtain q where *: "fst (CREATE_SEMAPHORE name c m d s) =
        (upd_sem ?n (\<lambda>m'. q) s)\<lparr>semaphore_count := semaphore_count s + 1\<rparr>"
      "semaphore_id q = semaphore_count s + 1" "sem_ok s q" "?n < length (semaphores s)"
      by (auto simp: CREATE_SEMAPHORE_def Let_def sem_ok_def split: if_splits option.splits)
    have c: "0 \<le> semaphore_count s" using assms by (simp add: sem_inv_def)
    then have "nat (semaphore_count s + 1) = Suc ?n" by simp
    then show ?thesis unfolding *(1) using assms *(2,3,4) c
      by (auto simp: sem_inv_def wf_procs_def sem_ok_def nth_list_update less_Suc_eq)
  qed
  with assms show ?thesis by metis
qed

lemma WAIT_SEMAPHORE_inv:
  assumes inv: "sem_inv s" shows "sem_inv (fst (WAIT_SEMAPHORE sid t up s))"
proof (cases "find_semaphore_by_id s sid = -1 \<or> bad_delay up t")
  case True
  then show ?thesis using inv by (auto simp: WAIT_SEMAPHORE_def Let_def)
next
  case False
  let ?i = "nat (find_semaphore_by_id s sid)"
  have i: "?i < nat (semaphore_count s)" using find_semaphore_by_id_found(1) [OF inv refl] False by blast
  note ok = sem_inv_nth [OF inv i]
  show ?thesis
  proof (cases rule: with_current_cases [of s])
    case (ok r p)
    have r: "r \<in> set (processes s)" using wf_procs_current [of s r] ok(1) inv by (simp add: sem_inv_def)
    have take: "sem_inv (upd_sem ?i (add_value (-1)) s)" if "CURRENT_VALUE (semaphore_status (semaphores s ! ?i)) > 0"
      by (rule sem_inv_upd_sem [OF inv]) (use \<open>sem_ok s _ \<and> _\<close> that in \<open>auto simp: add_value_def sem_ok_def\<close>)
    have enter: "sem_inv (upd_sem ?i (sem_enter d t' r) (upd_proc r f s))"
      if "\<not> CURRENT_VALUE (semaphore_status (semaphores s ! ?i)) > 0" for d t' f
    proof (rule sem_inv_upd_sem [OF sem_inv_upd_proc [OF inv]])
      have "CURRENT_VALUE (semaphore_status (semaphores s ! ?i)) = 0"
        using \<open>sem_ok s _ \<and> _\<close> that by (simp add: sem_ok_def)
      with \<open>sem_ok s _ \<and> _\<close> r have "sem_ok s (sem_enter d t' r (semaphores s ! ?i))" by (simp add: sem_ok_enter)
      then show "sem_ok (upd_proc r f s) (sem_enter d t' r (semaphores (upd_proc r f s) ! ?i))" by (simp add: sem_ok_def)
    qed (simp add: sem_enter_def)
    show ?thesis
      using False inv ok(3) take enter
      by (auto simp: WAIT_SEMAPHORE_def Let_def start_timeout_def intro!: sem_inv_yield sem_inv_upd_proc)
  qed (use inv in \<open>auto simp: WAIT_SEMAPHORE_def Let_def\<close>)
qed

lemma SIGNAL_SEMAPHORE_inv:
  assumes inv: "sem_inv s" shows "sem_inv (fst (SIGNAL_SEMAPHORE sid s))"
proof (cases "find_semaphore_by_id s sid = -1")
  case True
  then show ?thesis using inv by (simp add: SIGNAL_SEMAPHORE_def Let_def)
next
  case False
  let ?i = "nat (find_semaphore_by_id s sid)" and ?m = "semaphores s ! nat (find_semaphore_by_id s sid)"
  have i: "?i < nat (semaphore_count s)" using find_semaphore_by_id_found(1) [OF inv refl] False by blast
  note ok = sem_inv_nth [OF inv i]
  show ?thesis
  proof (cases "sem_waiting_processes ?m")
    case Nil
    have "sem_inv (upd_sem ?i (add_value 1) s)" if "CURRENT_VALUE (semaphore_status ?m) \<noteq> MAXIMUM_VALUE (semaphore_status ?m)"
      by (rule sem_inv_upd_sem [OF inv]) (use ok that Nil in \<open>auto simp: add_value_def sem_ok_def\<close>)
    then show ?thesis using False inv Nil by (auto simp: SIGNAL_SEMAPHORE_def Let_def)
  next
    case (Cons w ws)
    have "sem_inv (upd_sem ?i sem_serve s)"
      by (rule sem_inv_upd_sem [OF inv]) (use sem_ok_serve [OF _ Cons] ok in \<open>auto simp: sem_serve_def\<close>)
    then show ?thesis using False inv Cons
      by (auto simp: SIGNAL_SEMAPHORE_def Let_def with_current_def with_proc_def wake_process_def
          intro!: sem_inv_yield sem_inv_upd_proc split: option.splits)
  qed
qed

section \<open>The other steps that reach a semaphore\<close>

lemma update_partition_sems [simp]: "semaphore_count (arinc_time_update_partition up s) = semaphore_count s"
proof -
  have "semaphore_count (fold (\<lambda>r. upd_proc r f) rs s) = semaphore_count s" for f rs s
    by (induction rs arbitrary: s) auto
  then show ?thesis by (simp add: arinc_time_update_partition_def foreach_process_def)
qed

lemma schedule_sems [simp]:
  "semaphores (snd (process_schedule s)) = semaphores s"
  "semaphore_count (snd (process_schedule s)) = semaphore_count s"
  using process_schedule_shape [of s] by (auto simp: demote_current_def split: option.splits)

lemma leave_semaphore_shape:
  assumes "leave_semaphore r j s = Some t"
  shows "t = s \<or> (j < length (semaphores s) \<and> r \<in> set (sem_waiting_processes (semaphores s ! j)) \<and>
    t = upd_sem j (\<lambda>m. m\<lparr>sem_waiting_processes := remove1 r (sem_waiting_processes m),
      semaphore_status := (semaphore_status m)\<lparr>SEM_WAITING_PROCESSES := SEM_WAITING_PROCESSES (semaphore_status m) - 1\<rparr>\<rparr>) s)"
  using assms by (auto simp: leave_semaphore_def Let_def upd_sem_def split: if_splits)

lemma leave_semaphore_inv:
  assumes l: "leave_semaphore r j s = Some t" and inv: "sem_inv s"
  shows "sem_inv t"
proof (cases "t = s")
  case False
  let ?f = "\<lambda>m. m\<lparr>sem_waiting_processes := remove1 r (sem_waiting_processes m),
      semaphore_status := (semaphore_status m)\<lparr>SEM_WAITING_PROCESSES := SEM_WAITING_PROCESSES (semaphore_status m) - 1\<rparr>\<rparr>"
  from leave_semaphore_shape [OF l] False have r: "r \<in> set (sem_waiting_processes (semaphores s ! j))"
    and t: "t = upd_sem j ?f s" by simp_all
  have "sem_ok s (?f m)" if "sem_ok s m" "r \<in> set (sem_waiting_processes m)" for m
  proof -
    have "length (sem_waiting_processes m) > 0" using that(2) by (cases "sem_waiting_processes m") auto
    with that set_remove1_subset [of r "sem_waiting_processes m"] show ?thesis
      by (auto simp: sem_ok_def length_remove1 of_nat_diff Suc_leI)
  qed
  then show ?thesis unfolding t
    by (intro sem_inv_upd_sem [OF inv]) (use r inv in \<open>auto simp: sem_inv_nth\<close>)
qed (use inv in simp)

text \<open>Leaving a waiting queue changes no value and no identifier.\<close>

definition sem_values :: "pcb_s \<Rightarrow> (int \<times> int \<times> int) list" where
  "sem_values s = map (\<lambda>m. (semaphore_id m, CURRENT_VALUE (semaphore_status m), MAXIMUM_VALUE (semaphore_status m)))
     (take (nat (semaphore_count s)) (semaphores s))"

lemma sem_values_upd_sem:
  "(\<And>m. semaphore_id (f m) = semaphore_id m \<and> CURRENT_VALUE (semaphore_status (f m)) = CURRENT_VALUE (semaphore_status m) \<and>
      MAXIMUM_VALUE (semaphore_status (f m)) = MAXIMUM_VALUE (semaphore_status m)) \<Longrightarrow>
   sem_values (upd_sem i f s) = sem_values s"
  by (cases "i < length (semaphores s)")
    (auto simp: sem_values_def nth_list_update intro!: nth_equalityI)

lemma sem_values_frame [simp]:
  "sem_values (upd_proc r f s) = sem_values s" "sem_values (start_timeout up t r s) = sem_values s"
  "sem_values (wake_process c w s) = sem_values s"
  "sem_values (arinc_time_update_partition up s) = sem_values s"
  "sem_values (snd (process_schedule s)) = sem_values s"
  by (simp_all add: sem_values_def)

lemma leave_other_sems:
  "leave_queuing_port r i s = Some t \<Longrightarrow> semaphores t = semaphores s \<and> semaphore_count t = semaphore_count s"
  "leave_blackboard r i s = Some t \<Longrightarrow> semaphores t = semaphores s \<and> semaphore_count t = semaphore_count s"
  "leave_buffer r i s = Some t \<Longrightarrow> semaphores t = semaphores s \<and> semaphore_count t = semaphore_count s"
  "leave_event r i s = Some t \<Longrightarrow> semaphores t = semaphores s \<and> semaphore_count t = semaphore_count s"
  "leave_mutex r i s = Some t \<Longrightarrow> semaphores t = semaphores s \<and> semaphore_count t = semaphore_count s"
  by (auto simp: leave_queuing_port_def leave_blackboard_def leave_buffer_def leave_event_def leave_mutex_def
      Let_def split: if_splits)

lemma leave_queue_sems:
  assumes "remove_process_from_waiting_queue r s = Some t" and "sem_inv s"
  shows "sem_inv t \<and> sem_values t = sem_values s \<and> semaphore_count t = semaphore_count s"
proof (rule remove_from_queue_induct [OF assms(1), where P = "\<lambda>t. sem_inv t \<and> sem_values t = sem_values s \<and>
    semaphore_count t = semaphore_count s"])
  show "sem_inv s \<and> sem_values s = sem_values s \<and> semaphore_count s = semaphore_count s" using assms(2) by simp
next
  fix u i u' assume P: "sem_inv u \<and> sem_values u = sem_values s \<and> semaphore_count u = semaphore_count s"
    and l: "leave_semaphore r i u = Some u'"
  have "sem_values u' = sem_values u \<and> semaphore_count u' = semaphore_count u"
    using leave_semaphore_shape [OF l] by (auto simp: sem_values_upd_sem)
  with P leave_semaphore_inv [OF l] show "sem_inv u' \<and> sem_values u' = sem_values s \<and> semaphore_count u' = semaphore_count s"
    by simp
next
  fix u f assume "sem_inv u \<and> sem_values u = sem_values s \<and> semaphore_count u = semaphore_count s"
  then show "sem_inv (upd_proc r f u) \<and> sem_values (upd_proc r f u) = sem_values s \<and>
      semaphore_count (upd_proc r f u) = semaphore_count s" by (simp add: sem_inv_upd_proc)
next
  have same: "sem_inv u' \<and> sem_values u' = sem_values s \<and> semaphore_count u' = semaphore_count s"
    if "sem_inv u \<and> sem_values u = sem_values s \<and> semaphore_count u = semaphore_count s"
      "same_procs u u'" "semaphores u' = semaphores u \<and> semaphore_count u' = semaphore_count u" for u u'
    using that sem_inv_procs [of u u'] same_procs_wf [OF that(2)]
    by (auto simp: same_procs_def sem_values_def sem_inv_def)
  fix u i u'
  assume P: "sem_inv u \<and> sem_values u = sem_values s \<and> semaphore_count u = semaphore_count s"
  { assume l: "leave_queuing_port r i u = Some u'"
    show "sem_inv u' \<and> sem_values u' = sem_values s \<and> semaphore_count u' = semaphore_count s"
      by (rule same [OF P leave_same_procs(1) [OF l] leave_other_sems(1) [OF l]])
  next
    assume l: "leave_blackboard r i u = Some u'"
    show "sem_inv u' \<and> sem_values u' = sem_values s \<and> semaphore_count u' = semaphore_count s"
      by (rule same [OF P leave_same_procs(2) [OF l] leave_other_sems(2) [OF l]])
  next
    assume l: "leave_buffer r i u = Some u'"
    show "sem_inv u' \<and> sem_values u' = sem_values s \<and> semaphore_count u' = semaphore_count s"
      by (rule same [OF P leave_same_procs(3) [OF l] leave_other_sems(3) [OF l]])
  next
    assume l: "leave_event r i u = Some u'"
    show "sem_inv u' \<and> sem_values u' = sem_values s \<and> semaphore_count u' = semaphore_count s"
      by (rule same [OF P leave_same_procs(5) [OF l] leave_other_sems(4) [OF l]])
  next
    assume l: "leave_mutex r i u = Some u'"
    show "sem_inv u' \<and> sem_values u' = sem_values s \<and> semaphore_count u' = semaphore_count s"
      by (rule same [OF P leave_same_procs(6) [OF l] leave_other_sems(5) [OF l]])
  }
qed

section \<open>Units of a semaphore\<close>

abbreviation sem_value :: "pcb_s \<Rightarrow> nat \<Rightarrow> int" where
  "sem_value s i \<equiv> CURRENT_VALUE (semaphore_status (semaphores s ! i))"

lemma sem_value_nth:
  "sem_inv s \<Longrightarrow> i < nat (semaphore_count s) \<Longrightarrow> sem_value s i = fst (snd (sem_values s ! i))"
  by (simp add: sem_values_def sem_inv_def)

lemma same_sem_value:
  "sem_inv s \<Longrightarrow> sem_inv t \<Longrightarrow> semaphore_count t = semaphore_count s \<Longrightarrow> sem_values t = sem_values s \<Longrightarrow>
   i < nat (semaphore_count s) \<Longrightarrow> sem_value t i = sem_value s i"
  by (simp add: sem_value_nth)

text \<open>What one wait and one signal do to the values.\<close>

lemma sem_status_enter_serve [simp]:
  "CURRENT_VALUE (semaphore_status (sem_enter d s r m)) = CURRENT_VALUE (semaphore_status m)"
  "CURRENT_VALUE (semaphore_status (sem_serve m)) = CURRENT_VALUE (semaphore_status m)"
  "CURRENT_VALUE (semaphore_status (add_value n m)) = CURRENT_VALUE (semaphore_status m) + n"
  by (simp_all add: sem_enter_def sem_serve_def add_value_def)

lemma WAIT_SEMAPHORE_value:
  assumes inv: "sem_inv s" and i: "i < nat (semaphore_count s)" and w: "WAIT_SEMAPHORE sid tmo up s = (s', res)"
  shows "semaphore_count s' = semaphore_count s \<and>
    sem_value s' i = sem_value s i - (if sid = int i + 1 \<and> res = Ret NO_ERROR NoOut then 1 else 0)"
proof (cases "find_semaphore_by_id s sid = -1")
  case True
  then show ?thesis using w by (auto simp: WAIT_SEMAPHORE_def Let_def)
next
  case False
  let ?j = "nat (find_semaphore_by_id s sid)"
  have j: "?j < nat (semaphore_count s)" "?j < length (semaphores s)" "semaphore_id (semaphores s ! ?j) = sid"
    using find_semaphore_by_id_found [OF inv refl False] by auto
  then have sid: "sid = int ?j + 1" using inv by (auto simp: sem_inv_def)
  have eq: "sid = int i + 1 \<longleftrightarrow> i = ?j" using sid by (metis add_right_cancel of_nat_eq_iff)
  show ?thesis
    using w False j(2) unfolding eq
    by (cases rule: with_current_cases [of s])
      (auto simp: WAIT_SEMAPHORE_def Let_def nth_list_update yield_to_partition_def split: if_splits)
qed

lemma SIGNAL_SEMAPHORE_value:
  assumes inv: "sem_inv s" and i: "i < nat (semaphore_count s)" and w: "SIGNAL_SEMAPHORE sid s = (s', res)"
  shows "semaphore_count s' = semaphore_count s \<and>
    sem_value s' i = sem_value s i + (if sid = int i + 1 \<and> res = Ret NO_ERROR NoOut then 1 else 0)"
proof (cases "find_semaphore_by_id s sid = -1")
  case True
  then show ?thesis using w by (auto simp: SIGNAL_SEMAPHORE_def Let_def)
next
  case False
  let ?j = "nat (find_semaphore_by_id s sid)"
  have j: "?j < nat (semaphore_count s)" "?j < length (semaphores s)" "semaphore_id (semaphores s ! ?j) = sid"
    using find_semaphore_by_id_found [OF inv refl False] by auto
  then have sid: "sid = int ?j + 1" using inv by (auto simp: sem_inv_def)
  have eq: "sid = int i + 1 \<longleftrightarrow> i = ?j" using sid by (metis add_right_cancel of_nat_eq_iff)
  show ?thesis
    using w False j(2) unfolding eq
    by (cases rule: with_current_cases [of s]; cases "sem_waiting_processes (semaphores s ! ?j)")
      (auto simp: SIGNAL_SEMAPHORE_def Let_def nth_list_update yield_to_partition_def with_proc_def
        split: if_splits option.splits)
qed

text \<open>
  What a signal does with its unit when processes are queued: it goes to the first of them. If
  that process is suspended in its wait, the wait returns \<open>NO_ERROR\<close>: the unit is granted. If it
  is not, because its timeout has made it ready (\<open>check_timeouts\<close> leaves it in the queue), no
  wait returns with the unit: it is lost.
\<close>

definition suspended_in_wait :: "process_s \<Rightarrow> bool" where
  "suspended_in_wait p \<longleftrightarrow> pstate p = WAITING \<and> (tcb_ctx (tcb p) = Ctx_Resume RP_WAIT_SEMAPHORE_INF \<or>
     tcb_ctx (tcb p) = Ctx_Resume RP_WAIT_SEMAPHORE_TMO \<and> time_counter p \<noteq> 0)"

definition first_waiter_waits :: "int \<Rightarrow> pcb_s \<Rightarrow> bool" where
  "first_waiter_waits sid s \<longleftrightarrow>
     (case sem_waiting_processes (semaphores s ! nat (find_semaphore_by_id s sid)) of [] \<Rightarrow> False
      | w # ws \<Rightarrow> (case proc_heap s w of None \<Rightarrow> False | Some p \<Rightarrow> suspended_in_wait p))"

text \<open>
  The runs of a partition, seen from the semaphore \<open>sid\<close>: waits and signals of any process on
  any semaphore, ticks, scheduling decisions and processes that leave their queue (\<open>STOP\<close>).
  The first counter is the number of units the application put in, the second the number
  of units granted to processes, at once or by a signal that woke a waiting process, the
  third the number of units lost.
\<close>

inductive sem_run :: "int \<Rightarrow> pcb_s \<Rightarrow> nat \<Rightarrow> nat \<Rightarrow> nat \<Rightarrow> pcb_s \<Rightarrow> bool" for sid s where
  start: "sem_run sid s 0 0 0 s"
| wait: "sem_run sid s n g l t \<Longrightarrow> WAIT_SEMAPHORE j tmo up t = (t', res) \<Longrightarrow>
    sem_run sid s n (if j = sid \<and> res = Ret NO_ERROR NoOut then g + 1 else g) l t'"
| signal: "sem_run sid s n g l t \<Longrightarrow> SIGNAL_SEMAPHORE j t = (t', res) \<Longrightarrow>
    sem_run sid s (if j = sid \<and> (res = Yield \<or> res = Ret NO_ERROR NoOut) then n + 1 else n)
      (if j = sid \<and> res = Yield \<and> first_waiter_waits j t then g + 1 else g)
      (if j = sid \<and> res = Yield \<and> \<not> first_waiter_waits j t then l + 1 else l) t'"
| tick: "sem_run sid s n g l t \<Longrightarrow> sem_run sid s n g l (arinc_time_update_partition up t)"
| schedule: "sem_run sid s n g l t \<Longrightarrow> sem_run sid s n g l (snd (process_schedule t))"
| leave: "sem_run sid s n g l t \<Longrightarrow> remove_process_from_waiting_queue r t = Some t' \<Longrightarrow> sem_run sid s n g l t'"

lemma sem_run_invariant:
  assumes "sem_run sid s n g l t" and "sem_inv s" and "i < nat (semaphore_count s)" and "sid = int i + 1"
  shows "sem_inv t \<and> semaphore_count t = semaphore_count s \<and> sem_value t i = sem_value s i + int n - int g - int l"
  using assms
proof (induction rule: sem_run.induct)
  case (wait n g l t j tmo up t' res)
  then have t: "sem_inv t" "i < nat (semaphore_count t)" by auto
  have "sem_inv t'" using WAIT_SEMAPHORE_inv [OF t(1), of j tmo up] wait.hyps by simp
  with wait WAIT_SEMAPHORE_value [OF t wait.hyps(2)] show ?case by auto
next
  case (signal n g l t j t' res)
  then have t: "sem_inv t" "i < nat (semaphore_count t)" by auto
  have "sem_inv t'" using SIGNAL_SEMAPHORE_inv [OF t(1), of j] signal.hyps by simp
  with signal SIGNAL_SEMAPHORE_value [OF t signal.hyps(2)] show ?case by auto
next
  case (tick n g l t up)
  then have "sem_inv t" by simp
  then have "sem_inv (arinc_time_update_partition up t)"
    using sem_inv_procs [of t "arinc_time_update_partition up t"] by (simp add: sem_inv_def)
  with tick show ?case by simp
next
  case (schedule n g l t)
  then have "sem_inv t" by simp
  then have "sem_inv (snd (process_schedule t))"
    using sem_inv_procs [of t "snd (process_schedule t)"] process_schedule_wf [of t] by (simp add: sem_inv_def)
  with schedule show ?case by simp
next
  case (leave n g l t r t')
  then have t: "sem_inv t" "i < nat (semaphore_count t)" by auto
  from leave_queue_sems [OF leave.hyps(2) t(1)] same_sem_value [of t t' i] t leave show ?case by simp
qed simp

section \<open>Properties\<close>


definition sample_semaphore :: semaphore_s where
  "sample_semaphore = \<lparr>semaphore_name = ''S'', semaphore_id = 1, sem_queuing_discipline = PRIORITY,
     semaphore_status = \<lparr>CURRENT_VALUE = 1, MAXIMUM_VALUE = 2, SEM_WAITING_PROCESSES = 0\<rparr>,
     sem_waiting_processes = []\<rparr>"

definition sample_sem_state :: pcb_s where
  "sample_sem_state = sample_three\<lparr>semaphores := [sample_semaphore], semaphore_count := 1, max_semaphores := 1\<rparr>"

lemma sample_sem_state_inv: "sem_inv sample_sem_state"
  by (simp add: sem_inv_def wf_procs_def sem_ok_def sample_sem_state_def sample_semaphore_def sample_three_def)

definition sample_sem_waiting :: pcb_s where
  "sample_sem_waiting = sample_sem_state\<lparr>semaphores := [sample_semaphore\<lparr>sem_waiting_processes := [2, 3],
     semaphore_status := \<lparr>CURRENT_VALUE = 0, MAXIMUM_VALUE = 2, SEM_WAITING_PROCESSES = 2\<rparr>\<rparr>]\<rparr>"

lemma sample_sem_waiting_sel:
  "sem_inv sample_sem_waiting" "0 < nat (semaphore_count sample_sem_waiting)"
  "sem_waiting_processes (semaphores sample_sem_waiting ! 0) = [2, 3]" "process_current sample_sem_waiting = Some 1"
  "proc_heap sample_sem_waiting 2 = Some (sample_process 2 READY 20)" "sem_value sample_sem_waiting 0 = 0"
  by (simp_all add: sem_inv_def wf_procs_def sem_ok_def sample_sem_waiting_def sample_sem_state_def sample_semaphore_def
      sample_three_def)


text \<open>
  A signal with processes waiting is handed to the first of them: the signal
  reschedules without a fault, that process is ready, has left the queue, and its suspended
  wait will return \<open>NO_ERROR\<close>, while the value stays as it was.
\<close>

theorem signal_wakes_first_waiter:
  assumes "sem_inv s" and "i < nat (semaphore_count s)" and "sem_waiting_processes (semaphores s ! i) = w # ws"
    and "process_current s = Some c" and "w \<noteq> c" and "proc_heap s w = Some pw"
    and "k = RP_WAIT_SEMAPHORE_INF \<or> k = RP_WAIT_SEMAPHORE_TMO \<and> time_counter pw \<noteq> 0"
  shows "\<exists>s' pw'. SIGNAL_SEMAPHORE (int i + 1) s = (s', Yield) \<and> proc_heap s' w = Some pw' \<and> pstate pw' = READY \<and>
    waiting_semaphore pw' = None \<and> resume_semaphore k pw' = NO_ERROR \<and> tcb_ctx (tcb pw') = tcb_ctx (tcb pw) \<and>
    sem_waiting_processes (semaphores s' ! i) = ws \<and> sem_value s' i = 0"
proof -
  from sem_inv_nth [OF assms(1,2)] assms(3) have m: "sem_value s i = 0" "i < length (semaphores s)"
    "0 < MAXIMUM_VALUE (semaphore_status (semaphores s ! i))" by (auto simp: sem_ok_def)
  from wf_procs_current [of s c] assms(1,4) obtain pc where pc: "proc_heap s c = Some pc" by (auto simp: sem_inv_def)
  have "SIGNAL_SEMAPHORE (int i + 1) s = yield_to_partition RP_SIGNAL_SEMAPHORE c
      (wake_process (\<lambda>p. p\<lparr>waiting_semaphore := None\<rparr>) w (upd_sem i sem_serve s))"
    using find_semaphore_by_id_eq [OF assms(1,2)] m assms(3,4,6) pc
    by (simp add: SIGNAL_SEMAPHORE_def Let_def with_current_def with_proc_def)
  then show ?thesis
    using assms(3,5,6,7) m(1,2)
    by (auto simp: yield_to_partition_def sem_serve_def resume_semaphore_def timeout_code_def stop_timeout_def)
qed

theorem signal_wakes_first_waiter_witness:
  "\<exists>s' pw'. SIGNAL_SEMAPHORE 1 sample_sem_waiting = (s', Yield) \<and> proc_heap s' 2 = Some pw' \<and> pstate pw' = READY \<and>
     sem_waiting_processes (semaphores s' ! 0) = [3]"
  using signal_wakes_first_waiter [OF sample_sem_waiting_sel(1-4) _ sample_sem_waiting_sel(5), of RP_WAIT_SEMAPHORE_INF]
  by auto

text \<open>
  Order of service. Processes that queue on a \<open>FIFO\<close> semaphore are served in the order
  in which they came; on a \<open>PRIORITY\<close> semaphore the process served is one of the highest
  priority among those that wait.
\<close>

theorem semaphore_service_order:
  assumes "sem_waiting_processes m = []"
  shows "sem_waiting_processes ((sem_serve ^^ k) (fold (sem_enter FIFO s) rs m)) = drop k rs \<and>
    (\<forall>r \<in> set rs. prio_of s r \<le> prio_of s (hd (sem_waiting_processes (fold (sem_enter PRIORITY s) rs m))))"
  using sem_queue.serve_prefix [of k "fold (sem_enter FIFO s) rs m"] sem_queue.fifo_order [of s rs m]
    sem_queue.priority_first [OF assms] assms by simp

theorem semaphore_service_order_witness:
  "hd (sem_waiting_processes ((sem_serve ^^ 1) (fold (sem_enter FIFO sample_three) [1, 2, 3] sample_semaphore))) = 2 \<and>
   prio_of sample_three 3 \<le>
     prio_of sample_three (hd (sem_waiting_processes (fold (sem_enter PRIORITY sample_three) [1, 2, 3] sample_semaphore)))"
proof -
  have "sem_waiting_processes sample_semaphore = []" by (simp add: sample_semaphore_def)
  from semaphore_service_order [OF this, of 1 sample_three "[1, 2, 3]"] show ?thesis by simp
qed

end
