(* ===== verification/Event.thy ===== *)
theory Event
  imports Waiting_Queue
begin

text \<open>
  Events, from \<open>arinc/arinc_intrapartition_communication.c\<close>: a flag that processes wait for.
  \<open>SET_EVENT\<close> raises it and wakes every waiting process.

  The theory shows that no process waits for an event that is up, that the counter of
  waiting processes is the length of the queue, that \<open>SET_EVENT\<close> wakes all of them, and
  what the error handler restriction of \<open>APERIODIC_WAIT_EVENT\<close> amounts to.
\<close>

section \<open>Operations\<close>

definition find_event_by_name :: "pcb_s \<Rightarrow> string \<Rightarrow> int" where
  "find_event_by_name s name =
     index_from 0 (\<lambda>e. event_name e = name) (take (nat (event_count s)) (events s))"

definition find_event_by_id :: "pcb_s \<Rightarrow> int \<Rightarrow> int" where
  "find_event_by_id s i =
     index_from 0 (\<lambda>e. event_id e = i) (take (nat (event_count s)) (events s))"

definition upd_event :: "nat \<Rightarrow> (event_s \<Rightarrow> event_s) \<Rightarrow> pcb_s \<Rightarrow> pcb_s" where
  "upd_event i f s = s\<lparr>events := (events s)[i := f (events s ! i)]\<rparr>"

definition set_event_state :: "EVENT_STATE_TYPE \<Rightarrow> event_s \<Rightarrow> event_s" where
  "set_event_state st e = e\<lparr>event_status := (event_status e)\<lparr>EVENT_STATE := st\<rparr>\<rparr>"

definition ev_enter :: "QUEUING_DISCIPLINE_TYPE \<Rightarrow> pcb_s \<Rightarrow> pref \<Rightarrow> event_s \<Rightarrow> event_s" where
  "ev_enter d s r e = e\<lparr>event_status := (event_status e)\<lparr>
       EV_WAITING_PROCESSES := EV_WAITING_PROCESSES (event_status e) + 1\<rparr>,
     ev_waiting_processes := enqueue_waiter d s r (ev_waiting_processes e)\<rparr>"

definition ev_serve :: "event_s \<Rightarrow> event_s" where
  "ev_serve e = e\<lparr>event_status := (event_status e)\<lparr>
       EV_WAITING_PROCESSES := EV_WAITING_PROCESSES (event_status e) - 1\<rparr>,
     ev_waiting_processes := tl (ev_waiting_processes e)\<rparr>"

definition CREATE_EVENT :: "string \<Rightarrow> service" where
  "CREATE_EVENT EVENT_NAME s =
     (if event_count s + 1 > max_events s then (s, Ret INVALID_CONFIG NoOut)
      else if find_event_by_name s EVENT_NAME \<noteq> -1 then (s, Ret NO_ACTION NoOut)
      else if OPERATING_MODE (status s) = NORMAL then (s, Ret INVALID_MODE NoOut)
      else if \<not> nat (event_count s) < length (events s) then (s, Fault OutOfBounds)
      else let n = event_count s + 1 in
        ((upd_event (nat (event_count s)) (\<lambda>e.
            \<lparr>event_name = take (MAX_NAME_LENGTH - 1) EVENT_NAME, event_id = n,
             event_status = \<lparr>EVENT_STATE = DOWN, EV_WAITING_PROCESSES = 0\<rparr>,
             ev_waiting_processes = []\<rparr>) s)\<lparr>event_count := n\<rparr>,
         Ret NO_ERROR (OutId n)))"

text \<open>
  The loop of \<open>SET_EVENT\<close>: every turn serves the queue once and wakes the process that was
  first.
\<close>

definition SET_EVENT :: "int \<Rightarrow> service" where
  "SET_EVENT EVENT_ID s =
     (let index = find_event_by_id s EVENT_ID; i = nat index in
      if index = -1 then (s, Ret INVALID_PARAM NoOut)
      else
        let s1 = upd_event i (set_event_state UP) s; q = ev_waiting_processes (events s ! i) in
        if q = [] then (s1, Ret NO_ERROR NoOut)
        else with_current (\<lambda>c pc.
          case wake_each (\<lambda>p. p\<lparr>waiting_event := None\<rparr>) q (upd_event i (ev_serve ^^ length q) s1) of
            Inl f \<Rightarrow> (s, Fault f)
          | Inr s2 \<Rightarrow> yield_to_partition RP_SET_EVENT c s2) s)"

definition RESET_EVENT :: "int \<Rightarrow> service" where
  "RESET_EVENT EVENT_ID s =
     (let index = find_event_by_id s EVENT_ID in
      if index = -1 then (s, Ret INVALID_PARAM NoOut)
      else (upd_event (nat index) (set_event_state DOWN) s, Ret NO_ERROR NoOut))"

text \<open>
  An infinite wait enters at the end of the queue, a wait with a timeout by priority.
\<close>

definition WAIT_EVENT :: "int \<Rightarrow> int \<Rightarrow> u64 \<Rightarrow> service" where
  "WAIT_EVENT EVENT_ID TIME_OUT up s =
     (let index = find_event_by_id s EVENT_ID; i = nat index in
      if index = -1 then (s, Ret INVALID_PARAM NoOut)
      else if bad_delay up TIME_OUT then (s, Ret INVALID_PARAM NoOut)
      else with_current (\<lambda>r p.
        if EVENT_STATE (event_status (events s ! i)) = UP then (s, Ret NO_ERROR NoOut)
        else if TIME_OUT = 0 then (s, Ret NOT_AVAILABLE NoOut)
        else if owned_mutex_id p \<noteq> NO_MUTEX_OWNED \<or> error_handler_process s = Some r
          then (s, Ret INVALID_MODE NoOut)
        else let s1 = upd_proc r (\<lambda>p. set_state WAITING (p\<lparr>waiting_event := Some i\<rparr>)) s in
          if TIME_OUT = INFINITE_TIME_VALUE then
            yield_to_partition RP_WAIT_EVENT_INF r (upd_event i (ev_enter FIFO s1 r) s1)
          else
            yield_to_partition RP_WAIT_EVENT_TMO r
              (start_timeout up TIME_OUT r (upd_event i (ev_enter PRIORITY s1 r) s1))) s)"

definition GET_EVENT_ID :: "string \<Rightarrow> service" where
  "GET_EVENT_ID EVENT_NAME s =
     (let index = find_event_by_name s EVENT_NAME in
      if index = -1 then (s, Ret INVALID_CONFIG NoOut)
      else (s, Ret NO_ERROR (OutId (event_id (events s ! nat index)))))"

definition GET_EVENT_STATUS :: "int \<Rightarrow> service" where
  "GET_EVENT_STATUS EVENT_ID s =
     (let index = find_event_by_id s EVENT_ID in
      if index = -1 then (s, Ret INVALID_PARAM NoOut)
      else (s, Ret NO_ERROR (OutEventStatus (event_status (events s ! nat index)))))"

text \<open>
  The end of \<open>APERIODIC_WAIT_EVENT\<close>, after the event is up: a new deadline, unless it is out of
  range.
\<close>

definition finish_aperiodic_wait :: "u64 \<Rightarrow> pref \<Rightarrow> process_s \<Rightarrow> service" where
  "finish_aperiodic_wait up r p s =
     (if TIME_CAPACITY (attrs p) \<noteq> INFINITE_TIME_VALUE \<and> time_overflow (up + u64_of (TIME_CAPACITY (attrs p)))
      then (s, Ret INVALID_CONFIG NoOut)
      else (upd_proc r (update_process_deadline (i64_of up)) s, Ret NO_ERROR NoOut))"

definition APERIODIC_WAIT_EVENT :: "int \<Rightarrow> u64 \<Rightarrow> service" where
  "APERIODIC_WAIT_EVENT EVENT_ID up s =
     with_current (\<lambda>r p.
       if error_handler_process s \<noteq> Some r \<or> OPERATING_MODE (status s) \<noteq> NORMAL then (s, Ret INVALID_MODE NoOut)
       else let index = find_event_by_id s EVENT_ID; i = nat index in
         if index = -1 then (s, Ret INVALID_PARAM NoOut)
         else if PERIOD (attrs p) = INFINITE_TIME_VALUE then (s, Ret INVALID_MODE NoOut)
         else if owned_mutex_id p \<noteq> NO_MUTEX_OWNED \<and> EVENT_STATE (event_status (events s ! i)) = DOWN
           then (s, Ret INVALID_MODE NoOut)
         else let s1 = upd_proc r (set_deadline INFINITE_TIME_VALUE) s in
           if EVENT_STATE (event_status (events s ! i)) = UP then finish_aperiodic_wait up r p s1
           else
             let s2 = upd_proc r (\<lambda>p. set_state WAITING (p\<lparr>waiting_event := Some i\<rparr>)) s1
             in yield_to_partition RP_APERIODIC_WAIT_EVENT r (upd_event i (ev_enter PRIORITY s2 r) s2)) s"

text \<open>What the suspended services return; \<open>APERIODIC_WAIT_EVENT\<close> still sets the deadline.\<close>

definition resume_event :: "resume_point \<Rightarrow> u64 \<Rightarrow> pref \<Rightarrow> process_s \<Rightarrow> service" where
  "resume_event k up r p s =
     (if k = RP_APERIODIC_WAIT_EVENT then finish_aperiodic_wait up r p s
      else if k = RP_WAIT_EVENT_TMO then (s, Ret (timeout_code p) NoOut)
      else (s, Ret NO_ERROR NoOut))"

interpretation event_queue: waiting_queue ev_waiting_processes
  "\<lambda>e. EV_WAITING_PROCESSES (event_status e)" ev_enter ev_serve
  by unfold_locales (simp_all add: ev_enter_def ev_serve_def)

section \<open>Invariant\<close>

definition event_ok :: "pcb_s \<Rightarrow> event_s \<Rightarrow> bool" where
  "event_ok s e \<longleftrightarrow>
     EV_WAITING_PROCESSES (event_status e) = int (length (ev_waiting_processes e)) \<and>
     set (ev_waiting_processes e) \<subseteq> set (processes s) \<and>
     (EVENT_STATE (event_status e) = UP \<longrightarrow> ev_waiting_processes e = [])"

definition event_inv :: "pcb_s \<Rightarrow> bool" where
  "event_inv s \<longleftrightarrow> wf_procs s \<and> 0 \<le> event_count s \<and> nat (event_count s) \<le> length (events s) \<and>
     (\<forall>i < nat (event_count s). event_id (events s ! i) = int i + 1 \<and> event_ok s (events s ! i))"

lemma upd_event_frame [simp]:
  "processes (upd_event i f s) = processes s" "process_current (upd_event i f s) = process_current s"
  "error_handler_process (upd_event i f s) = error_handler_process s" "proc_heap (upd_event i f s) = proc_heap s"
  "event_count (upd_event i f s) = event_count s" "status (upd_event i f s) = status s"
  "events (upd_event i f s) = (events s)[i := f (events s ! i)]"
  "mutexes (upd_event i f s) = mutexes s" "mutex_count (upd_event i f s) = mutex_count s"
  by (simp_all add: upd_event_def)

lemma find_event_by_id_found:
  assumes "event_inv s" and "find_event_by_id s eid = n" and "n \<noteq> -1"
  shows "nat n < nat (event_count s)" "nat n < length (events s)" "event_id (events s ! nat n) = eid"
  using assms index_from_found [of "\<lambda>e. event_id e = eid" "take (nat (event_count s)) (events s)" n]
  by (auto simp: find_event_by_id_def event_inv_def)

lemma find_event_by_id_eq:
  assumes "event_inv s" and "i < nat (event_count s)"
  shows "find_event_by_id s (int i + 1) = int i"
  using assms unfolding find_event_by_id_def event_inv_def by (intro index_from_unique) auto

lemma event_inv_nth: "event_inv s \<Longrightarrow> i < nat (event_count s) \<Longrightarrow> event_ok s (events s ! i) \<and> i < length (events s)"
  by (auto simp: event_inv_def)

lemma event_inv_procs:
  assumes "event_inv s" and "set (processes t) = set (processes s)" and "wf_procs t"
    and "events t = events s" and "event_count t = event_count s"
  shows "event_inv t"
  using assms by (simp add: event_inv_def event_ok_def)

lemma event_inv_upd_proc: "event_inv s \<Longrightarrow> event_inv (upd_proc r f s)"
  using event_inv_procs [of s "upd_proc r f s"] by (simp add: event_inv_def)

lemma event_inv_yield: "event_inv s \<Longrightarrow> event_inv (fst (yield_to_partition k r s))"
  by (simp add: yield_to_partition_def event_inv_upd_proc)

lemma event_inv_upd_event:
  assumes "event_inv s" and "\<And>e. event_id (f e) = event_id e"
    and "i < nat (event_count s) \<Longrightarrow> event_ok s (f (events s ! i))"
  shows "event_inv (upd_event i f s)"
proof -
  have "event_ok (upd_event i f s) = event_ok s" by (rule ext) (simp add: event_ok_def)
  moreover have "events (upd_event i f s) ! j = (if j = i then f (events s ! i) else events s ! j)"
    if "j < nat (event_count s)" for j
    using that assms(1) by (simp add: nth_list_update event_inv_def)
  moreover have "wf_procs (upd_event i f s)" using assms(1) by (simp add: event_inv_def wf_procs_def)
  ultimately show ?thesis using assms by (simp add: event_inv_def del: upd_event_frame(7)) simp
qed

lemma ev_serve_all:
  "event_id ((ev_serve ^^ n) e) = event_id e" "EVENT_STATE (event_status ((ev_serve ^^ n) e)) = EVENT_STATE (event_status e)"
  "EV_WAITING_PROCESSES (event_status ((ev_serve ^^ n) e)) = EV_WAITING_PROCESSES (event_status e) - int n"
  by (induction n) (simp_all add: ev_serve_def)

lemma wake_each_events:
  "wake_each c ws s = Inr t \<Longrightarrow> events t = events s \<and> event_count t = event_count s \<and> processes t = processes s \<and>
     process_current t = process_current s \<and> (wf_procs t \<longleftrightarrow> wf_procs s)"
proof (induction c ws s rule: wake_each.induct)
  case (2 c w ws s)
  from 2(2) obtain p where p: "proc_heap s w = Some p" "wake_each c ws (wake_process c w s) = Inr t"
    by (auto split: option.splits)
  have "wf_procs (wake_process c w s) \<longleftrightarrow> wf_procs s" by (simp add: wake_process_def)
  with 2(1) [OF p] show ?case by simp
qed simp

lemma SET_EVENT_inv:
  assumes inv: "event_inv s" shows "event_inv (fst (SET_EVENT eid s))"
proof (cases "find_event_by_id s eid = -1")
  case True
  then show ?thesis using inv by (simp add: SET_EVENT_def Let_def)
next
  case False
  let ?i = "nat (find_event_by_id s eid)" and ?q = "ev_waiting_processes (events s ! nat (find_event_by_id s eid))"
  let ?u = "upd_event ?i (ev_serve ^^ length ?q) (upd_event ?i (set_event_state UP) s)"
  have i: "?i < nat (event_count s)" using find_event_by_id_found(1) [OF inv refl False] .
  note ok = event_inv_nth [OF inv i]
  have up: "event_inv (upd_event ?i (set_event_state UP) s)" if "?q = []"
    by (rule event_inv_upd_event [OF inv]) (use ok that in \<open>auto simp: set_event_state_def event_ok_def\<close>)
  have "?u = upd_event ?i (\<lambda>e. (ev_serve ^^ length ?q) (set_event_state UP e)) s"
    using ok by (simp add: upd_event_def)
  moreover have "event_inv (upd_event ?i (\<lambda>e. (ev_serve ^^ length ?q) (set_event_state UP e)) s)"
  proof (rule event_inv_upd_event [OF inv])
    show "event_id ((ev_serve ^^ length ?q) (set_event_state UP e)) = event_id e" for e
      by (simp add: ev_serve_all set_event_state_def)
    show "event_ok s ((ev_serve ^^ length ?q) (set_event_state UP (events s ! ?i)))"
      using ok event_queue.serve_prefix [of "length ?q" "set_event_state UP (events s ! ?i)"]
      by (simp add: event_ok_def ev_serve_all) (simp add: set_event_state_def)
  qed
  ultimately have u: "event_inv ?u" by simp
  have woken: "event_inv t" if w: "wake_each (\<lambda>p. p\<lparr>waiting_event := None\<rparr>) ?q ?u = Inr t" for t
    using event_inv_procs [OF u, of t] wake_each_events [OF w] u by (simp add: event_inv_def)
  show ?thesis
    using False inv up woken
    by (cases rule: with_current_cases [of s])
      (auto simp: SET_EVENT_def Let_def intro: event_inv_yield split: sum.splits)
qed

lemma RESET_EVENT_inv: "event_inv s \<Longrightarrow> event_inv (fst (RESET_EVENT eid s))"
  using find_event_by_id_found(1) [of s eid, OF _ refl] event_inv_nth [of s]
  by (auto simp: RESET_EVENT_def Let_def set_event_state_def event_ok_def intro!: event_inv_upd_event)

lemma event_enter_inv:
  assumes inv: "event_inv s" and i: "i < nat (event_count s)" and dn: "EVENT_STATE (event_status (events s ! i)) \<noteq> UP"
    and r: "r \<in> set (processes s)"
  shows "event_inv (upd_event i (ev_enter d t r) (upd_proc r f s))"
proof (rule event_inv_upd_event [OF event_inv_upd_proc [OF inv]])
  show "event_ok (upd_proc r f s) (ev_enter d t r (events (upd_proc r f s) ! i))"
    using event_inv_nth [OF inv i] dn r by (simp add: event_ok_def ev_enter_def)
qed (simp add: ev_enter_def)

lemma WAIT_EVENT_inv:
  assumes inv: "event_inv s" shows "event_inv (fst (WAIT_EVENT eid t up s))"
proof (cases "find_event_by_id s eid = -1")
  case False
  have i: "nat (find_event_by_id s eid) < nat (event_count s)" using find_event_by_id_found(1) [OF inv refl False] .
  show ?thesis
  proof (cases rule: with_current_cases [of s])
    case (ok r p)
    have r: "r \<in> set (processes s)" using wf_procs_current [of s r] ok(1) inv by (simp add: event_inv_def)
    show ?thesis
      using False inv ok(3) event_enter_inv [OF inv i _ r]
      by (auto simp: WAIT_EVENT_def Let_def start_timeout_def intro!: event_inv_yield event_inv_upd_proc)
  qed (use inv in \<open>auto simp: WAIT_EVENT_def Let_def\<close>)
qed (use inv in \<open>simp add: WAIT_EVENT_def\<close>)

lemma APERIODIC_WAIT_EVENT_inv:
  assumes inv: "event_inv s" shows "event_inv (fst (APERIODIC_WAIT_EVENT eid up s))"
proof (cases rule: with_current_cases [of s])
  case (ok r p)
  have r: "r \<in> set (processes s)" using wf_procs_current [of s r] ok(1) inv by (simp add: event_inv_def)
  let ?s = "upd_proc r (set_deadline INFINITE_TIME_VALUE) s"
  have inv': "event_inv ?s" by (rule event_inv_upd_proc [OF inv])
  have i: "find_event_by_id s eid \<noteq> -1 \<Longrightarrow> nat (find_event_by_id s eid) < nat (event_count ?s)"
    using find_event_by_id_found(1) [OF inv refl] by simp
  show ?thesis
    using inv inv' ok(3) event_enter_inv [OF inv' i, of r] r
    by (auto simp: APERIODIC_WAIT_EVENT_def finish_aperiodic_wait_def Let_def intro!: event_inv_yield event_inv_upd_proc)
qed (use inv in \<open>auto simp: APERIODIC_WAIT_EVENT_def\<close>)

lemma CREATE_EVENT_inv:
  assumes "event_inv s" shows "event_inv (fst (CREATE_EVENT name s))"
proof -
  have "event_inv (fst (CREATE_EVENT name s))" if "fst (CREATE_EVENT name s) \<noteq> s"
  proof -
    let ?n = "nat (event_count s)"
    from that obtain q where *: "fst (CREATE_EVENT name s) = (upd_event ?n (\<lambda>_. q) s)\<lparr>event_count := event_count s + 1\<rparr>"
      "event_id q = event_count s + 1" "event_ok s q" "?n < length (events s)"
      by (auto simp: CREATE_EVENT_def Let_def event_ok_def split: if_splits)
    have c: "0 \<le> event_count s" using assms by (simp add: event_inv_def)
    then have "nat (event_count s + 1) = Suc ?n" by simp
    then show ?thesis unfolding *(1) using assms *(2,3,4) c
      by (auto simp: event_inv_def wf_procs_def event_ok_def nth_list_update less_Suc_eq)
  qed
  with assms show ?thesis by metis
qed

text \<open>The steps of other components that reach an event: ticks, the scheduler and \<open>STOP\<close>.\<close>

lemma update_partition_events [simp]:
  "events (arinc_time_update_partition up s) = events s" "event_count (arinc_time_update_partition up s) = event_count s"
proof -
  have "events (fold (\<lambda>r. upd_proc r f) rs s) = events s \<and> event_count (fold (\<lambda>r. upd_proc r f) rs s) = event_count s" for f rs s
    by (induction rs arbitrary: s) auto
  then show "events (arinc_time_update_partition up s) = events s"
    "event_count (arinc_time_update_partition up s) = event_count s"
    by (simp_all add: arinc_time_update_partition_def foreach_process_def)
qed

lemma schedule_events [simp]:
  "events (snd (process_schedule s)) = events s" "event_count (snd (process_schedule s)) = event_count s"
  using process_schedule_shape [of s] by (auto simp: demote_current_def split: option.splits)

lemma leave_other_events:
  "leave_queuing_port r i s = Some t \<Longrightarrow> events t = events s \<and> event_count t = event_count s"
  "leave_blackboard r i s = Some t \<Longrightarrow> events t = events s \<and> event_count t = event_count s"
  "leave_buffer r i s = Some t \<Longrightarrow> events t = events s \<and> event_count t = event_count s"
  "leave_semaphore r i s = Some t \<Longrightarrow> events t = events s \<and> event_count t = event_count s"
  "leave_mutex r i s = Some t \<Longrightarrow> events t = events s \<and> event_count t = event_count s"
  by (auto simp: leave_queuing_port_def leave_blackboard_def leave_buffer_def leave_semaphore_def leave_mutex_def
      Let_def split: if_splits)

lemma leave_event_inv:
  assumes l: "leave_event r j s = Some t" and inv: "event_inv s" shows "event_inv t"
proof (cases "t = s")
  case False
  let ?f = "\<lambda>e. e\<lparr>ev_waiting_processes := remove1 r (ev_waiting_processes e),
      event_status := (event_status e)\<lparr>EV_WAITING_PROCESSES := EV_WAITING_PROCESSES (event_status e) - 1\<rparr>\<rparr>"
  from l False have r: "r \<in> set (ev_waiting_processes (events s ! j))" and t: "t = upd_event j ?f s"
    by (auto simp: leave_event_def Let_def upd_event_def split: if_splits)
  have "event_ok s (?f e)" if "event_ok s e" "r \<in> set (ev_waiting_processes e)" for e
  proof -
    have "length (ev_waiting_processes e) > 0" using that(2) by (cases "ev_waiting_processes e") auto
    with that set_remove1_subset [of r "ev_waiting_processes e"] show ?thesis
      by (auto simp: event_ok_def length_remove1 of_nat_diff Suc_leI)
  qed
  then show ?thesis unfolding t
    by (intro event_inv_upd_event [OF inv]) (use r inv in \<open>auto simp: event_inv_nth\<close>)
qed (use inv in simp)

lemma event_inv_same:
  "event_inv s \<Longrightarrow> same_procs s t \<Longrightarrow> events t = events s \<and> event_count t = event_count s \<Longrightarrow> event_inv t"
  using event_inv_procs [of s t] same_procs_wf [of s t] by (auto simp: same_procs_def event_inv_def)

lemma leave_queue_events:
  assumes "remove_process_from_waiting_queue r s = Some t" and "event_inv s"
  shows "event_inv t"
proof (rule remove_from_queue_induct [OF assms(1), where P = event_inv])
  fix u i u'
  assume P: "event_inv u"
  { assume l: "leave_queuing_port r i u = Some u'"
    show "event_inv u'" by (rule event_inv_same [OF P leave_same_procs(1) [OF l] leave_other_events(1) [OF l]])
  next
    assume l: "leave_blackboard r i u = Some u'"
    show "event_inv u'" by (rule event_inv_same [OF P leave_same_procs(2) [OF l] leave_other_events(2) [OF l]])
  next
    assume l: "leave_buffer r i u = Some u'"
    show "event_inv u'" by (rule event_inv_same [OF P leave_same_procs(3) [OF l] leave_other_events(3) [OF l]])
  next
    assume l: "leave_semaphore r i u = Some u'"
    show "event_inv u'" by (rule event_inv_same [OF P leave_same_procs(4) [OF l] leave_other_events(4) [OF l]])
  next
    assume l: "leave_event r i u = Some u'"
    show "event_inv u'" by (rule leave_event_inv [OF l P])
  next
    assume l: "leave_mutex r i u = Some u'"
    show "event_inv u'" by (rule event_inv_same [OF P leave_same_procs(6) [OF l] leave_other_events(5) [OF l]])
  }
qed (use assms(2) event_inv_upd_proc in auto)

inductive event_run :: "pcb_s \<Rightarrow> pcb_s \<Rightarrow> bool" for s where
  start: "event_run s s"
| create: "event_run s t \<Longrightarrow> event_run s (fst (CREATE_EVENT name t))"
| wait: "event_run s t \<Longrightarrow> event_run s (fst (WAIT_EVENT eid tmo up t))"
| aperiodic: "event_run s t \<Longrightarrow> event_run s (fst (APERIODIC_WAIT_EVENT eid up t))"
| set: "event_run s t \<Longrightarrow> event_run s (fst (SET_EVENT eid t))"
| reset: "event_run s t \<Longrightarrow> event_run s (fst (RESET_EVENT eid t))"
| tick: "event_run s t \<Longrightarrow> event_run s (arinc_time_update_partition up t)"
| schedule: "event_run s t \<Longrightarrow> event_run s (snd (process_schedule t))"
| leave: "event_run s t \<Longrightarrow> remove_process_from_waiting_queue r t = Some t' \<Longrightarrow> event_run s t'"

lemma event_run_inv: "event_run s t \<Longrightarrow> event_inv s \<Longrightarrow> event_inv t"
proof (induction rule: event_run.induct)
  case (tick t up)
  then show ?case using event_inv_procs [of t "arinc_time_update_partition up t"] by (simp add: event_inv_def)
next
  case (schedule t)
  then have "event_inv t" by simp
  then show ?case using event_inv_procs [of t "snd (process_schedule t)"] process_schedule_wf [of t] by (simp add: event_inv_def)
next
  case (leave t r t')
  then show ?case using leave_queue_events by simp
qed (simp_all add: CREATE_EVENT_inv WAIT_EVENT_inv APERIODIC_WAIT_EVENT_inv SET_EVENT_inv RESET_EVENT_inv)

section \<open>Properties\<close>

text \<open>
  C15. No lost wake-up: whatever sequence of event services, ticks, scheduling decisions and
  stops the partition goes through, an event that is up has no process waiting for it, and
  the counter an application can read is the number of waiting processes.
\<close>

theorem event_up_has_no_waiter:
  assumes "event_inv s" and "event_run s t" and "i < nat (event_count t)"
  shows "(EVENT_STATE (event_status (events t ! i)) = UP \<longrightarrow> ev_waiting_processes (events t ! i) = []) \<and>
    EV_WAITING_PROCESSES (event_status (events t ! i)) = int (length (ev_waiting_processes (events t ! i)))"
  using event_inv_nth [OF event_run_inv [OF assms(2,1)] assms(3)] by (simp add: event_ok_def)

definition sample_event_state :: pcb_s where
  "sample_event_state = sample_three\<lparr>events := [\<lparr>event_name = ''E'', event_id = 1,
      event_status = \<lparr>EVENT_STATE = DOWN, EV_WAITING_PROCESSES = 2\<rparr>, ev_waiting_processes = [2, 3]\<rparr>],
    event_count := 1, max_events := 1\<rparr>"

lemma sample_event_state_inv: "event_inv sample_event_state"
  by (simp add: event_inv_def wf_procs_def event_ok_def sample_event_state_def sample_three_def)

lemma SET_EVENT_count: "event_inv s \<Longrightarrow> event_count (fst (SET_EVENT eid s)) = event_count s"
  by (cases rule: with_current_cases [of s])
    (auto simp: SET_EVENT_def Let_def yield_to_partition_def split: sum.splits dest: wake_each_events)

theorem event_up_has_no_waiter_witness:
  "EV_WAITING_PROCESSES (event_status (events (fst (SET_EVENT 1 sample_event_state)) ! 0)) =
     int (length (ev_waiting_processes (events (fst (SET_EVENT 1 sample_event_state)) ! 0)))"
proof -
  have r: "event_run sample_event_state (fst (SET_EVENT 1 sample_event_state))"
    by (rule event_run.set [OF event_run.start])
  have c: "0 < nat (event_count (fst (SET_EVENT 1 sample_event_state)))"
    unfolding SET_EVENT_count [OF sample_event_state_inv] by (simp add: sample_event_state_def)
  from event_up_has_no_waiter [OF sample_event_state_inv r c] show ?thesis by simp
qed

text \<open>
  \<open>SET_EVENT\<close> wakes every waiting process: it reschedules without a fault, every process
  of the queue is ready, the queue is empty and the event is up; processes that were not
  waiting keep their state.
\<close>

theorem SET_EVENT_wakes_all:
  assumes "event_inv s" and "i < nat (event_count s)" and "process_current s = Some c"
    and "ev_waiting_processes (events s ! i) \<noteq> []"
  shows "\<exists>s'. SET_EVENT (int i + 1) s = (s', Yield) \<and>
    (\<forall>w \<in> set (ev_waiting_processes (events s ! i)). \<exists>p. proc_heap s' w = Some p \<and> pstate p = READY) \<and>
    (\<forall>w. w \<notin> set (ev_waiting_processes (events s ! i)) \<and> w \<noteq> c \<longrightarrow> proc_heap s' w = proc_heap s w) \<and>
    ev_waiting_processes (events s' ! i) = [] \<and> EVENT_STATE (event_status (events s' ! i)) = UP \<and>
    EV_WAITING_PROCESSES (event_status (events s' ! i)) = 0"
proof -
  let ?q = "ev_waiting_processes (events s ! i)"
  let ?u = "upd_event i (ev_serve ^^ length ?q) (upd_event i (set_event_state UP) s)"
  from event_inv_nth [OF assms(1,2)] have i: "i < length (events s)" and q: "set ?q \<subseteq> set (processes s)"
    and n: "EV_WAITING_PROCESSES (event_status (events s ! i)) = int (length ?q)" by (auto simp: event_ok_def)
  have live: "proc_heap ?u w \<noteq> None" if "w \<in> set ?q" for w
    using q that assms(1) by (auto simp: event_inv_def wf_procs_def)
  obtain pc where pc: "proc_heap s c = Some pc"
    using wf_procs_current [of s c] assms(1,3) by (auto simp: event_inv_def)
  from wake_each_spec [of ?q ?u "\<lambda>p. p\<lparr>waiting_event := None\<rparr>", OF live] obtain t where
    t: "wake_each (\<lambda>p. p\<lparr>waiting_event := None\<rparr>) ?q ?u = Inr t"
      "\<forall>w \<in> set ?q. \<exists>p'. proc_heap t w = Some p' \<and> pstate p' = READY"
      "\<forall>w. w \<notin> set ?q \<longrightarrow> proc_heap t w = proc_heap ?u w" by auto
  have run: "SET_EVENT (int i + 1) s = (upd_proc c (set_context (Ctx_Resume RP_SET_EVENT)) t, Yield)"
    using find_event_by_id_eq [OF assms(1,2)] assms(3,4) pc t(1)
    by (simp add: SET_EVENT_def Let_def with_current_def with_proc_def yield_to_partition_def)
  have "events t = events ?u" using wake_each_events [OF t(1)] by simp
  then have e: "events t ! i = (ev_serve ^^ length ?q) (set_event_state UP (events s ! i))" using i by simp
  have "ev_waiting_processes (events t ! i) = []" "EVENT_STATE (event_status (events t ! i)) = UP"
    "EV_WAITING_PROCESSES (event_status (events t ! i)) = 0"
    using n event_queue.serve_prefix [of "length ?q" "set_event_state UP (events s ! i)"]
    by (simp_all add: e ev_serve_all) (simp_all add: set_event_state_def)
  with t(2,3) run show ?thesis by auto
qed

theorem SET_EVENT_wakes_all_witness:
  "\<exists>s' p. SET_EVENT 1 sample_event_state = (s', Yield) \<and> proc_heap s' 3 = Some p \<and> pstate p = READY \<and>
     ev_waiting_processes (events s' ! 0) = []"
proof -
  have s: "0 < nat (event_count sample_event_state)" "process_current sample_event_state = Some 1"
    "ev_waiting_processes (events sample_event_state ! 0) = [2, 3]"
    by (simp_all add: sample_event_state_def sample_three_def)
  from SET_EVENT_wakes_all [OF sample_event_state_inv s(1,2)] s(3) show ?thesis by auto
qed

end
