(* ===== verification/Blackboard.thy ===== *)
theory Blackboard
  imports Waiting_Queue
begin

text \<open>
  Blackboards, from \<open>arinc/arinc_intrapartition_communication.c\<close>: a message that stays until it is
  replaced or cleared. Blackboard \<open>i\<close> of a partition has the range of \<open>max_blackboard_data_size\<close>
  bytes at \<open>i * max_blackboard_data_size\<close> of the array \<open>blackboards_data\<close>, and its length in
  \<open>blackboards_size_data[i]\<close>.

  The theory shows that the blackboards of a partition behave as a table of optional
  messages, one per blackboard: the ranges do not interfere and no copy leaves the array;
  and that displaying a message wakes every waiting reader and reaches it.
\<close>

section \<open>Operations\<close>

definition find_blackboard_by_name :: "pcb_s \<Rightarrow> string \<Rightarrow> int" where
  "find_blackboard_by_name s name =
     index_from 0 (\<lambda>b. blackboard_name b = name) (take (nat (blackboard_count s)) (blackboards s))"

definition find_blackboard_by_id :: "pcb_s \<Rightarrow> int \<Rightarrow> int" where
  "find_blackboard_by_id s i =
     index_from 0 (\<lambda>b. blackboard_id b = i) (take (nat (blackboard_count s)) (blackboards s))"

definition upd_bb :: "nat \<Rightarrow> (blackboard_s \<Rightarrow> blackboard_s) \<Rightarrow> pcb_s \<Rightarrow> pcb_s" where
  "upd_bb i f s = s\<lparr>blackboards := (blackboards s)[i := f (blackboards s ! i)]\<rparr>"

definition set_indicator :: "EMPTY_INDICATOR_TYPE \<Rightarrow> blackboard_s \<Rightarrow> blackboard_s" where
  "set_indicator e b = b\<lparr>blackboard_status := (blackboard_status b)\<lparr>EMPTY_INDICATOR := e\<rparr>\<rparr>"

definition bb_enter :: "QUEUING_DISCIPLINE_TYPE \<Rightarrow> pcb_s \<Rightarrow> pref \<Rightarrow> blackboard_s \<Rightarrow> blackboard_s" where
  "bb_enter d s r b = b\<lparr>blackboard_status := (blackboard_status b)\<lparr>
       BB_WAITING_PROCESSES := BB_WAITING_PROCESSES (blackboard_status b) + 1\<rparr>,
     bb_waiting_processes := enqueue_waiter d s r (bb_waiting_processes b)\<rparr>"

definition bb_serve :: "blackboard_s \<Rightarrow> blackboard_s" where
  "bb_serve b = b\<lparr>blackboard_status := (blackboard_status b)\<lparr>
       BB_WAITING_PROCESSES := BB_WAITING_PROCESSES (blackboard_status b) - 1\<rparr>,
     bb_waiting_processes := tl (bb_waiting_processes b)\<rparr>"

definition bb_offset :: "pcb_s \<Rightarrow> nat \<Rightarrow> nat" where
  "bb_offset s i = nat (int i * max_blackboard_data_size s)"

definition CREATE_BLACKBOARD :: "string \<Rightarrow> int \<Rightarrow> service" where
  "CREATE_BLACKBOARD BLACKBOARD_NAME MAX_MESSAGE_SZ s =
     (if blackboard_count s + 1 > max_blackboards s \<or> max_blackboard_data_size s < MAX_MESSAGE_SZ
        then (s, Ret INVALID_CONFIG NoOut)
      else if find_blackboard_by_name s BLACKBOARD_NAME \<noteq> -1 then (s, Ret NO_ACTION NoOut)
      else if MAX_MESSAGE_SZ \<le> 0 then (s, Ret INVALID_PARAM NoOut)
      else if OPERATING_MODE (status s) = NORMAL then (s, Ret INVALID_MODE NoOut)
      else if \<not> nat (blackboard_count s) < length (blackboards s) then (s, Fault OutOfBounds)
      else let n = blackboard_count s + 1 in
        ((upd_bb (nat (blackboard_count s)) (\<lambda>b.
            \<lparr>blackboard_name = take (MAX_NAME_LENGTH - 1) BLACKBOARD_NAME, blackboard_id = n,
             blackboard_status = \<lparr>EMPTY_INDICATOR = EMPTY, BB_MAX_MESSAGE_SIZE = MAX_MESSAGE_SZ,
               BB_WAITING_PROCESSES = 0\<rparr>,
             bb_waiting_processes = []\<rparr>) s)\<lparr>blackboard_count := n\<rparr>,
         Ret NO_ERROR (OutId n)))"

text \<open>The two writes of \<open>DISPLAY_BLACKBOARD\<close>: the message and its length.\<close>

definition store_message :: "nat \<Rightarrow> byte list \<Rightarrow> pcb_s \<Rightarrow> pcb_s option" where
  "store_message i msg s =
     (case buf_write (blackboards_data s) (bb_offset s i) msg of
        None \<Rightarrow> None
      | Some d \<Rightarrow> if i < length (blackboards_size_data s)
                  then Some (s\<lparr>blackboards_data := d,
                      blackboards_size_data := (blackboards_size_data s)[i := of_nat (length msg)]\<rparr>)
                  else None)"

definition DISPLAY_BLACKBOARD :: "int \<Rightarrow> addr \<Rightarrow> int \<Rightarrow> service" where
  "DISPLAY_BLACKBOARD BLACKBOARD_ID MESSAGE_ADDR LEN s =
     (let index = find_blackboard_by_id s BLACKBOARD_ID; i = nat index in
      if index = -1 then (s, Ret INVALID_CONFIG NoOut)
      else let b = blackboards s ! i in
        if LEN > BB_MAX_MESSAGE_SIZE (blackboard_status b) then (s, Ret INVALID_PARAM NoOut)
        else if LEN \<le> 0 then (s, Ret INVALID_PARAM NoOut)
        else case store_message i (mem_read (mem s) MESSAGE_ADDR (nat LEN)) (upd_bb i (set_indicator OCCUPIED) s) of
          None \<Rightarrow> (s, Fault OutOfBounds)
        | Some s1 \<Rightarrow>
            (case wake_each (\<lambda>p. p\<lparr>waiting_blackboard := None\<rparr>) (bb_waiting_processes b)
                    (upd_bb i (bb_serve ^^ length (bb_waiting_processes b)) s1) of
               Inl f \<Rightarrow> (s, Fault f)
             | Inr s2 \<Rightarrow>
                 if BB_WAITING_PROCESSES (blackboard_status b) > 0
                 then with_current (\<lambda>c pc. yield_to_partition RP_DISPLAY_BLACKBOARD c s2) s2
                 else (s2, Ret NO_ERROR NoOut)))"

text \<open>\<open>memcpy(MESSAGE_ADDR, data + index * size, size_data[index]); *LENGTH = size_data[index]\<close>\<close>

definition copy_message :: "nat \<Rightarrow> addr \<Rightarrow> service" where
  "copy_message i MESSAGE_ADDR s =
     (if i < length (blackboards_size_data s) then
        let n = unat (blackboards_size_data s ! i) in
        (case buf_read (blackboards_data s) (bb_offset s i) n of
           None \<Rightarrow> (s, Fault OutOfBounds)
         | Some msg \<Rightarrow> (s\<lparr>mem := mem_write (mem s) MESSAGE_ADDR msg\<rparr>, Ret NO_ERROR (OutLen (int n))))
      else (s, Fault OutOfBounds))"

definition READ_BLACKBOARD :: "int \<Rightarrow> int \<Rightarrow> addr \<Rightarrow> u64 \<Rightarrow> service" where
  "READ_BLACKBOARD BLACKBOARD_ID TIME_OUT MESSAGE_ADDR up s =
     (let index = find_blackboard_by_id s BLACKBOARD_ID; i = nat index in
      if index = -1 then (s, Ret INVALID_CONFIG NoOut)
      else if bad_delay up TIME_OUT then (s, Ret INVALID_PARAM NoOut)
      else with_current (\<lambda>r p.
        if EMPTY_INDICATOR (blackboard_status (blackboards s ! i)) = OCCUPIED then copy_message i MESSAGE_ADDR s
        else if TIME_OUT = 0 then (s, Ret NOT_AVAILABLE (OutLen 0))
        else if owned_mutex_id p \<noteq> NO_MUTEX_OWNED \<or> error_handler_process s = Some r
          then (s, Ret INVALID_MODE (OutLen 0))
        else if TIME_OUT = INFINITE_TIME_VALUE then
          let s1 = upd_proc r (set_state WAITING) s
          in yield_to_partition (RP_READ_BLACKBOARD_INF i MESSAGE_ADDR) r (upd_bb i (bb_enter FIFO s1 r) s1)
        else
          let s1 = upd_proc r (\<lambda>p. set_state WAITING (p\<lparr>waiting_blackboard := Some i\<rparr>)) s
          in yield_to_partition (RP_READ_BLACKBOARD_TMO i MESSAGE_ADDR) r
               (start_timeout up TIME_OUT r (upd_bb i (bb_enter FIFO s1 r) s1))) s)"

definition CLEAR_BLACKBOARD :: "int \<Rightarrow> service" where
  "CLEAR_BLACKBOARD BLACKBOARD_ID s =
     (let index = find_blackboard_by_id s BLACKBOARD_ID in
      if index = -1 then (s, Ret INVALID_CONFIG NoOut)
      else (upd_bb (nat index) (set_indicator EMPTY) s, Ret NO_ERROR NoOut))"

definition GET_BLACKBOARD_ID :: "string \<Rightarrow> service" where
  "GET_BLACKBOARD_ID BLACKBOARD_NAME s =
     (let index = find_blackboard_by_name s BLACKBOARD_NAME in
      if index = -1 then (s, Ret INVALID_CONFIG NoOut)
      else (s, Ret NO_ERROR (OutId (blackboard_id (blackboards s ! nat index)))))"

definition GET_BLACKBOARD_STATUS :: "int \<Rightarrow> service" where
  "GET_BLACKBOARD_STATUS BLACKBOARD_ID s =
     (let index = find_blackboard_by_id s BLACKBOARD_ID in
      if index = -1 then (s, Ret INVALID_CONFIG NoOut)
      else (s, Ret NO_ERROR (OutBlackboardStatus (blackboard_status (blackboards s ! nat index)))))"

text \<open>The rest of the suspended services: a woken reader copies what is displayed by then.\<close>

definition resume_blackboard :: "resume_point \<Rightarrow> process_s \<Rightarrow> service" where
  "resume_blackboard k p s =
     (case k of
        RP_READ_BLACKBOARD_INF i a \<Rightarrow> copy_message i a s
      | RP_READ_BLACKBOARD_TMO i a \<Rightarrow>
          if time_counter p = 0 then (s, Ret TIMED_OUT (OutLen 0)) else copy_message i a s
      | _ \<Rightarrow> (s, Ret NO_ERROR NoOut))"

interpretation blackboard_queue: waiting_queue bb_waiting_processes
  "\<lambda>b. BB_WAITING_PROCESSES (blackboard_status b)" bb_enter bb_serve
  by unfold_locales (simp_all add: bb_enter_def bb_serve_def)

section \<open>Abstraction and invariant\<close>

text \<open>The message a blackboard displays.\<close>

definition bb_content :: "pcb_s \<Rightarrow> nat \<Rightarrow> byte list option" where
  "bb_content s i =
     (if EMPTY_INDICATOR (blackboard_status (blackboards s ! i)) = OCCUPIED
      then buf_read (blackboards_data s) (bb_offset s i) (unat (blackboards_size_data s ! i)) else None)"

definition bb_ok :: "pcb_s \<Rightarrow> nat \<Rightarrow> bool" where
  "bb_ok s i \<longleftrightarrow> (let b = blackboards s ! i in
     blackboard_id b = int i + 1 \<and> BB_MAX_MESSAGE_SIZE (blackboard_status b) \<le> max_blackboard_data_size s \<and>
     BB_WAITING_PROCESSES (blackboard_status b) = int (length (bb_waiting_processes b)) \<and>
     set (bb_waiting_processes b) \<subseteq> set (processes s) \<and>
     (EMPTY_INDICATOR (blackboard_status b) = OCCUPIED \<longrightarrow> bb_waiting_processes b = [] \<and>
        unat (blackboards_size_data s ! i) \<le> nat (max_blackboard_data_size s)))"

text \<open>The arrays hold all blackboards, and a size is an \<open>APEX_INTEGER\<close>.\<close>

definition bb_inv :: "pcb_s \<Rightarrow> bool" where
  "bb_inv s \<longleftrightarrow> wf_procs s \<and> 0 \<le> blackboard_count s \<and> 0 \<le> max_blackboard_data_size s \<and>
     max_blackboard_data_size s < 2 ^ 31 \<and> nat (blackboard_count s) \<le> length (blackboards s) \<and>
     length (blackboards s) \<le> length (blackboards_size_data s) \<and>
     length (blackboards s) * nat (max_blackboard_data_size s) \<le> length (blackboards_data s) \<and>
     (\<forall>i < nat (blackboard_count s). bb_ok s i)"

lemma upd_bb_frame [simp]:
  "processes (upd_bb i f s) = processes s" "process_current (upd_bb i f s) = process_current s"
  "error_handler_process (upd_bb i f s) = error_handler_process s" "proc_heap (upd_bb i f s) = proc_heap s"
  "blackboard_count (upd_bb i f s) = blackboard_count s" "mem (upd_bb i f s) = mem s"
  "blackboards (upd_bb i f s) = (blackboards s)[i := f (blackboards s ! i)]"
  "blackboards_data (upd_bb i f s) = blackboards_data s"
  "blackboards_size_data (upd_bb i f s) = blackboards_size_data s"
  "max_blackboard_data_size (upd_bb i f s) = max_blackboard_data_size s"
  by (simp_all add: upd_bb_def)

lemma bb_offset_frame [simp]:
  "bb_offset (upd_bb i f s) = bb_offset s" "bb_offset (upd_proc r g s) = bb_offset s"
  "bb_offset (s\<lparr>blackboards_data := d, blackboards_size_data := z\<rparr>) = bb_offset s"
  by (rule ext, simp add: bb_offset_def)+

lemma bb_range:
  assumes "bb_inv s" and "i < nat (blackboard_count s)" and "n \<le> nat (max_blackboard_data_size s)"
  shows "bb_offset s i + n \<le> length (blackboards_data s)"
    and "j \<noteq> i \<Longrightarrow> bb_offset s j + m \<le> bb_offset s i \<or> bb_offset s i + n \<le> bb_offset s j \<or> nat (max_blackboard_data_size s) < m"
proof -
  let ?d = "nat (max_blackboard_data_size s)"
  have off: "bb_offset s k = k * ?d" for k using assms(1) by (simp add: bb_offset_def nat_mult_distrib bb_inv_def)
  have "Suc i * ?d \<le> length (blackboards s) * ?d"
    using assms(1,2) by (intro mult_le_mono1) (simp add: bb_inv_def)
  then show "bb_offset s i + n \<le> length (blackboards_data s)" using assms(1,3) off by (simp add: bb_inv_def)
  assume "j \<noteq> i"
  then consider "Suc j \<le> i" | "Suc i \<le> j" by linarith
  then show "bb_offset s j + m \<le> bb_offset s i \<or> bb_offset s i + n \<le> bb_offset s j \<or> ?d < m"
  proof cases
    case 1
    then have "Suc j * ?d \<le> i * ?d" by (rule mult_le_mono1)
    then show ?thesis by (auto simp: off)
  next
    case 2
    then have "Suc i * ?d \<le> j * ?d" by (rule mult_le_mono1)
    then show ?thesis using assms(3) by (auto simp: off)
  qed
qed

lemma find_blackboard_by_id_found:
  assumes "bb_inv s" and "find_blackboard_by_id s bid = n" and "n \<noteq> -1"
  shows "nat n < nat (blackboard_count s)" "nat n < length (blackboards s)"
  using assms index_from_found [of "\<lambda>b. blackboard_id b = bid" "take (nat (blackboard_count s)) (blackboards s)" n]
  by (auto simp: find_blackboard_by_id_def bb_inv_def)

lemma find_blackboard_by_id_eq:
  assumes "bb_inv s" and "i < nat (blackboard_count s)"
  shows "find_blackboard_by_id s (int i + 1) = int i"
  using assms unfolding find_blackboard_by_id_def bb_inv_def
  by (intro index_from_unique) (auto simp: bb_ok_def Let_def)

lemma bb_inv_nth:
  assumes "bb_inv s" and "i < nat (blackboard_count s)"
  shows "bb_ok s i" "i < length (blackboards s)" "i < length (blackboards_size_data s)"
  using assms by (auto simp: bb_inv_def)

lemma bb_inv_upd_proc: "bb_inv s \<Longrightarrow> bb_inv (upd_proc r f s)"
  by (simp add: bb_inv_def bb_ok_def)

lemma bb_inv_upd_bb:
  assumes inv: "bb_inv s" and "i < nat (blackboard_count s)"
    and "\<And>b. blackboard_id (f b) = blackboard_id b \<and> BB_MAX_MESSAGE_SIZE (blackboard_status (f b)) = BB_MAX_MESSAGE_SIZE (blackboard_status b)"
    and "BB_WAITING_PROCESSES (blackboard_status (f (blackboards s ! i))) = int (length (bb_waiting_processes (f (blackboards s ! i))))"
    and "set (bb_waiting_processes (f (blackboards s ! i))) \<subseteq> set (processes s)"
    and "EMPTY_INDICATOR (blackboard_status (f (blackboards s ! i))) = OCCUPIED \<Longrightarrow>
      bb_waiting_processes (f (blackboards s ! i)) = [] \<and> unat (blackboards_size_data s ! i) \<le> nat (max_blackboard_data_size s)"
  shows "bb_inv (upd_bb i f s)"
proof -
  have "bb_ok (upd_bb i f s) j" if j: "j < nat (blackboard_count s)" for j
  proof (cases "j = i")
    case True
    then show ?thesis using bb_inv_nth [OF inv assms(2)] assms(3-6) by (simp add: bb_ok_def Let_def)
  next
    case False
    then show ?thesis using bb_inv_nth(1) [OF inv j] by (simp add: bb_ok_def Let_def)
  qed
  moreover have "wf_procs (upd_bb i f s)" using inv by (simp add: bb_inv_def wf_procs_def)
  ultimately show ?thesis using inv by (simp add: bb_inv_def)
qed

section \<open>Displaying a message\<close>

lemma bb_inv_heap:
  assumes "bb_inv s" and "wf_procs (s\<lparr>proc_heap := h\<rparr>)" shows "bb_inv (s\<lparr>proc_heap := h\<rparr>)"
  using assms by (simp add: bb_inv_def bb_ok_def)

lemma bb_content_frame [simp]:
  "bb_content (s\<lparr>proc_heap := h\<rparr>) = bb_content s" "bb_content (upd_proc r g s) = bb_content s"
  "bb_content (s\<lparr>mem := m\<rparr>) = bb_content s"
  by (rule ext, simp add: bb_content_def bb_offset_def upd_proc_def)+

lemma bb_serve_all:
  "blackboard_id ((bb_serve ^^ n) b) = blackboard_id b"
  "EMPTY_INDICATOR (blackboard_status ((bb_serve ^^ n) b)) = EMPTY_INDICATOR (blackboard_status b)"
  "BB_MAX_MESSAGE_SIZE (blackboard_status ((bb_serve ^^ n) b)) = BB_MAX_MESSAGE_SIZE (blackboard_status b)"
  "BB_WAITING_PROCESSES (blackboard_status ((bb_serve ^^ n) b)) = BB_WAITING_PROCESSES (blackboard_status b) - int n"
  by (induction n) (simp_all add: bb_serve_def)

text \<open>The state after the message is stored and the queue is emptied.\<close>

definition displayed :: "nat \<Rightarrow> byte list \<Rightarrow> pcb_s \<Rightarrow> pcb_s" where
  "displayed i msg s = (upd_bb i (\<lambda>b. (bb_serve ^^ length (bb_waiting_processes (blackboards s ! i))) (set_indicator OCCUPIED b)) s)\<lparr>
     blackboards_data := the (buf_write (blackboards_data s) (bb_offset s i) msg),
     blackboards_size_data := (blackboards_size_data s)[i := of_nat (length msg)]\<rparr>"

lemma store_message_displayed:
  assumes inv: "bb_inv s" and i: "i < nat (blackboard_count s)" and len: "length msg \<le> nat (max_blackboard_data_size s)"
  shows "\<exists>s1. store_message i msg (upd_bb i (set_indicator OCCUPIED) s) = Some s1 \<and>
    upd_bb i (bb_serve ^^ length (bb_waiting_processes (blackboards s ! i))) s1 = displayed i msg s"
proof -
  have "\<exists>d. buf_write (blackboards_data s) (bb_offset s i) msg = Some d"
    using bb_range(1) [OF inv i len] by (simp add: buf_write_Some)
  then show ?thesis using bb_inv_nth [OF inv i]
    by (auto simp: store_message_def displayed_def upd_bb_def bb_offset_def)
qed

lemma unat_message_length: "n < 2 ^ 31 \<Longrightarrow> unat (of_nat n :: u32) = n"
  by (simp add: unat_of_nat take_bit_nat_eq_self)

lemma message_small: "bb_inv s \<Longrightarrow> n \<le> nat (max_blackboard_data_size s) \<Longrightarrow> n < 2 ^ 31"
proof -
  assume "bb_inv s" and n: "n \<le> nat (max_blackboard_data_size s)"
  then have "nat (max_blackboard_data_size s) < 2 ^ 31" by (simp add: bb_inv_def nat_less_iff)
  with n show "n < 2 ^ 31" by linarith
qed

lemma displayed_content:
  assumes inv: "bb_inv s" and i: "i < nat (blackboard_count s)" and len: "length msg \<le> nat (max_blackboard_data_size s)"
    and j: "j < nat (blackboard_count s)"
  shows "bb_content (displayed i msg s) j = (if j = i then Some msg else bb_content s j)"
proof -
  obtain d where d: "buf_write (blackboards_data s) (bb_offset s i) msg = Some d"
    using bb_range(1) [OF inv i len] by (auto simp: buf_write_def)
  have off: "bb_offset (displayed i msg s) k = bb_offset s k" for k by (simp add: displayed_def bb_offset_def)
  note nth = bb_inv_nth [OF inv i] bb_inv_nth [OF inv j]
  show ?thesis
  proof (cases "j = i")
    case True
    have "length msg < 2 ^ 31" by (rule message_small [OF inv len])
    then have "unat (blackboards_size_data (displayed i msg s) ! i) = length msg"
      using nth by (simp add: displayed_def unat_message_length)
    then show ?thesis using True nth d buf_read_write_same [OF d]
      by (simp add: bb_content_def off) (simp add: displayed_def bb_serve_all set_indicator_def)
  next
    case False
    have st: "blackboards (displayed i msg s) ! j = blackboards s ! j"
      "blackboards_size_data (displayed i msg s) ! j = blackboards_size_data s ! j"
      "blackboards_data (displayed i msg s) = d" using False d by (simp_all add: displayed_def)
    show ?thesis
    proof (cases "EMPTY_INDICATOR (blackboard_status (blackboards s ! j)) = OCCUPIED")
      case True
      then have "unat (blackboards_size_data s ! j) \<le> nat (max_blackboard_data_size s)"
        using nth(4) by (simp add: bb_ok_def Let_def)
      then have "bb_offset s j + unat (blackboards_size_data s ! j) \<le> bb_offset s i \<or> bb_offset s i + length msg \<le> bb_offset s j"
        using bb_range(2) [OF inv i len False, of "unat (blackboards_size_data s ! j)"] by auto
      then show ?thesis using False buf_read_write_disjoint [OF d] by (simp add: bb_content_def off st)
    qed (use False in \<open>simp add: bb_content_def off st\<close>)
  qed
qed

lemma displayed_inv:
  assumes inv: "bb_inv s" and i: "i < nat (blackboard_count s)" and len: "length msg \<le> nat (max_blackboard_data_size s)"
  shows "bb_inv (displayed i msg s)"
proof -
  obtain d where d: "buf_write (blackboards_data s) (bb_offset s i) msg = Some d"
    using bb_range(1) [OF inv i len] by (auto simp: buf_write_def)
  let ?s = "displayed i msg s" and ?q = "bb_waiting_processes (blackboards s ! i)"
  note nth = bb_inv_nth [OF inv i]
  have "length msg < 2 ^ 31" by (rule message_small [OF inv len])
  then have sz: "unat (of_nat (length msg) :: u32) = length msg" by (rule unat_message_length)
  have "bb_ok ?s j" if j: "j < nat (blackboard_count s)" for j
  proof (cases "j = i")
    case True
    have "blackboards ?s ! i = (bb_serve ^^ length ?q) (set_indicator OCCUPIED (blackboards s ! i))"
      "blackboards_size_data ?s ! i = of_nat (length msg)" "processes ?s = processes s"
      "max_blackboard_data_size ?s = max_blackboard_data_size s"
      using nth by (simp_all add: displayed_def)
    then show ?thesis
      using True nth(1) sz len blackboard_queue.serve_prefix [of "length ?q" "set_indicator OCCUPIED (blackboards s ! i)"]
      by (auto simp: bb_ok_def Let_def bb_serve_all set_indicator_def)
  next
    case False
    then show ?thesis using bb_inv_nth(1) [OF inv j] by (simp add: displayed_def bb_ok_def Let_def)
  qed
  moreover have "wf_procs ?s" using inv by (simp add: displayed_def bb_inv_def wf_procs_def)
  ultimately show ?thesis using inv d buf_write_length [OF d] by (simp add: bb_inv_def displayed_def)
qed

lemma DISPLAY_run:
  assumes inv: "bb_inv s" and i: "i < nat (blackboard_count s)" and c: "process_current s = Some c"
    and len: "0 < len" "len \<le> BB_MAX_MESSAGE_SIZE (blackboard_status (blackboards s ! i))"
  shows "\<exists>h. DISPLAY_BLACKBOARD (int i + 1) a len s =
      (if bb_waiting_processes (blackboards s ! i) = []
       then (displayed i (mem_read (mem s) a (nat len)) s, Ret NO_ERROR NoOut)
       else (upd_proc c (set_context (Ctx_Resume RP_DISPLAY_BLACKBOARD))
               ((displayed i (mem_read (mem s) a (nat len)) s)\<lparr>proc_heap := h\<rparr>), Yield)) \<and>
    (\<forall>w \<in> set (bb_waiting_processes (blackboards s ! i)). \<exists>p. h w = Some p \<and> pstate p = READY) \<and>
    (\<forall>w. w \<notin> set (bb_waiting_processes (blackboards s ! i)) \<longrightarrow> h w = proc_heap s w) \<and>
    (\<forall>w. proc_heap s w = None \<longleftrightarrow> h w = None)"
proof -
  let ?q = "bb_waiting_processes (blackboards s ! i)" and ?m = "mem_read (mem s) a (nat len)"
  note nth = bb_inv_nth [OF inv i]
  have lm: "length ?m \<le> nat (max_blackboard_data_size s)" using nth(1) len by (auto simp: bb_ok_def Let_def intro: nat_mono)
  from store_message_displayed [OF inv i lm] obtain s1 where
    s1: "store_message i ?m (upd_bb i (set_indicator OCCUPIED) s) = Some s1"
      "upd_bb i (bb_serve ^^ length ?q) s1 = displayed i ?m s" by blast
  have heap: "proc_heap (displayed i ?m s) = proc_heap s" "process_current (displayed i ?m s) = Some c"
    using c by (simp_all add: displayed_def)
  have live: "proc_heap (displayed i ?m s) w \<noteq> None" if "w \<in> set ?q" for w
    using nth(1) that inv by (auto simp: heap bb_ok_def Let_def bb_inv_def wf_procs_def)
  from wake_each_spec [of ?q "displayed i ?m s" "\<lambda>p. p\<lparr>waiting_blackboard := None\<rparr>", OF live] obtain t where
    t: "wake_each (\<lambda>p. p\<lparr>waiting_blackboard := None\<rparr>) ?q (displayed i ?m s) = Inr t"
      "process_current t = Some c" "\<forall>w \<in> set ?q. \<exists>p'. proc_heap t w = Some p' \<and> pstate p' = READY"
      "\<forall>w. w \<notin> set ?q \<longrightarrow> proc_heap t w = proc_heap s w" "\<forall>w. proc_heap s w = None \<longleftrightarrow> proc_heap t w = None"
    using heap by auto
  from wake_each_shape [OF t(1)] obtain h where h: "t = (displayed i ?m s)\<lparr>proc_heap := h\<rparr>" by blast
  obtain pc where "proc_heap s c = Some pc" using wf_procs_current [of s c] inv c by (auto simp: bb_inv_def)
  then obtain pc' where pc': "proc_heap t c = Some pc'" using t(5) [rule_format, of c] by (cases "proc_heap t c") auto
  have w: "BB_WAITING_PROCESSES (blackboard_status (blackboards s ! i)) > 0 \<longleftrightarrow> ?q \<noteq> []"
    using nth(1) by (simp add: bb_ok_def Let_def)
  have run: "DISPLAY_BLACKBOARD (int i + 1) a len s =
      (if ?q = [] then (t, Ret NO_ERROR NoOut)
       else (upd_proc c (set_context (Ctx_Resume RP_DISPLAY_BLACKBOARD)) t, Yield))"
    using find_blackboard_by_id_eq [OF inv i] len s1 t(1,2) pc' w
    by (simp add: DISPLAY_BLACKBOARD_def Let_def with_current_def with_proc_def yield_to_partition_def)
  show ?thesis
  proof (cases "?q = []")
    case True
    then have "t = displayed i ?m s" using t(1) by simp
    then show ?thesis using run True t(3-5) heap by auto
  next
    case False
    then show ?thesis using run t(3-5) h by auto
  qed
qed

section \<open>Properties\<close>

text \<open>The abstract table: what a reader sees of each blackboard that exists.\<close>

definition bb_table :: "pcb_s \<Rightarrow> nat \<rightharpoonup> byte list" where
  "bb_table s = (\<lambda>i. if i < nat (blackboard_count s) then bb_content s i else None)"

lemma bb_content_some:
  assumes "bb_inv s" and "i < nat (blackboard_count s)"
    and "EMPTY_INDICATOR (blackboard_status (blackboards s ! i)) = OCCUPIED"
  shows "\<exists>m. bb_content s i = Some m \<and> length m = unat (blackboards_size_data s ! i)"
proof -
  have "unat (blackboards_size_data s ! i) \<le> nat (max_blackboard_data_size s)"
    using bb_inv_nth(1) [OF assms(1,2)] assms(3) by (simp add: bb_ok_def Let_def)
  from bb_range(1) [OF assms(1,2) this] assms(3) show ?thesis by (simp add: bb_content_def buf_read_def)
qed

lemma copy_message_content:
  assumes inv: "bb_inv s" and i: "i < nat (blackboard_count s)" and m: "bb_content s i = Some msg"
  shows "copy_message i a s = (s\<lparr>mem := mem_write (mem s) a msg\<rparr>, Ret NO_ERROR (OutLen (int (length msg))))"
proof -
  from m have o1: "EMPTY_INDICATOR (blackboard_status (blackboards s ! i)) = OCCUPIED"
    by (simp add: bb_content_def split: if_splits)
  with m have "buf_read (blackboards_data s) (bb_offset s i) (unat (blackboards_size_data s ! i)) = Some msg"
    by (simp add: bb_content_def)
  with bb_inv_nth(3) [OF inv i] bb_content_some [OF inv i o1] m show ?thesis by (simp add: copy_message_def)
qed

text \<open>
  C16. The blackboards of a partition refine a table of optional messages. Displaying a
  message of an accepted length replaces the entry of that blackboard and of no other,
  whatever is waiting; clearing removes it; a reader gets the bytes of the entry and their
  number, or \<open>NOT_AVAILABLE\<close> when there is none. Nothing faults.
\<close>

theorem blackboard_refines_table:
  assumes "bb_inv s" and "i < nat (blackboard_count s)" and "process_current s = Some c"
    and "0 < len" and "len \<le> BB_MAX_MESSAGE_SIZE (blackboard_status (blackboards s ! i))"
  shows "bb_table (fst (DISPLAY_BLACKBOARD (int i + 1) a len s)) =
      (bb_table s)(i \<mapsto> mem_read (mem s) a (nat len)) \<and>
    bb_inv (fst (DISPLAY_BLACKBOARD (int i + 1) a len s)) \<and>
    bb_table (fst (CLEAR_BLACKBOARD (int i + 1) s)) = (bb_table s)(i := None) \<and>
    READ_BLACKBOARD (int i + 1) 0 dst up s =
      (if time_overflow up then (s, Ret INVALID_PARAM NoOut)
       else case bb_table s i of
         None \<Rightarrow> (s, Ret NOT_AVAILABLE (OutLen 0))
       | Some msg \<Rightarrow> (s\<lparr>mem := mem_write (mem s) dst msg\<rparr>, Ret NO_ERROR (OutLen (int (length msg)))))"
proof (intro conjI)
  let ?m = "mem_read (mem s) a (nat len)"
  note nth = bb_inv_nth [OF assms(1,2)]
  have lm: "length ?m \<le> nat (max_blackboard_data_size s)"
    using nth(1) assms(4,5) by (auto simp: bb_ok_def Let_def intro: nat_mono)
  obtain h where
    run: "DISPLAY_BLACKBOARD (int i + 1) a len s =
      (if bb_waiting_processes (blackboards s ! i) = [] then (displayed i ?m s, Ret NO_ERROR NoOut)
       else (upd_proc c (set_context (Ctx_Resume RP_DISPLAY_BLACKBOARD)) ((displayed i ?m s)\<lparr>proc_heap := h\<rparr>), Yield))"
    and live: "\<forall>w. proc_heap s w = None \<longleftrightarrow> h w = None"
    using DISPLAY_run [OF assms, of a] by (elim exE conjE) (rule that)
  have count: "blackboard_count (displayed i ?m s) = blackboard_count s" by (simp add: displayed_def)
  have "bb_table (displayed i ?m s) = (bb_table s)(i \<mapsto> ?m)"
    using displayed_content [OF assms(1,2) lm] assms(2) by (auto simp: bb_table_def count)
  moreover have "bb_table (upd_proc r f (u\<lparr>proc_heap := h\<rparr>)) = bb_table u" for r f u
    by (rule ext) (simp add: bb_table_def split: if_splits)
  ultimately show "bb_table (fst (DISPLAY_BLACKBOARD (int i + 1) a len s)) = (bb_table s)(i \<mapsto> ?m)"
    by (simp add: run)
  have "wf_procs ((displayed i ?m s)\<lparr>proc_heap := h\<rparr>)"
    using assms(1) live by (auto simp: displayed_def bb_inv_def wf_procs_def)
  then have "bb_inv ((displayed i ?m s)\<lparr>proc_heap := h\<rparr>)"
    by (rule bb_inv_heap [OF displayed_inv [OF assms(1,2) lm]])
  then show "bb_inv (fst (DISPLAY_BLACKBOARD (int i + 1) a len s))"
    using displayed_inv [OF assms(1,2) lm] bb_inv_upd_proc by (simp add: run)
  have "CLEAR_BLACKBOARD (int i + 1) s = (upd_bb i (set_indicator EMPTY) s, Ret NO_ERROR NoOut)"
    using find_blackboard_by_id_eq [OF assms(1,2)] by (simp add: CLEAR_BLACKBOARD_def)
  then show "bb_table (fst (CLEAR_BLACKBOARD (int i + 1) s)) = (bb_table s)(i := None)"
    using nth(2) by (auto simp: bb_table_def bb_content_def nth_list_update set_indicator_def)
  have bad: "bad_delay up 0 \<longleftrightarrow> time_overflow up" by (simp add: bad_delay_def u64_of_def)
  obtain pc where pc: "proc_heap s c = Some pc" using wf_procs_current [of s c] assms(1,3) by (auto simp: bb_inv_def)
  show "READ_BLACKBOARD (int i + 1) 0 dst up s =
      (if time_overflow up then (s, Ret INVALID_PARAM NoOut)
       else case bb_table s i of
         None \<Rightarrow> (s, Ret NOT_AVAILABLE (OutLen 0))
       | Some msg \<Rightarrow> (s\<lparr>mem := mem_write (mem s) dst msg\<rparr>, Ret NO_ERROR (OutLen (int (length msg)))))"
  proof (cases "EMPTY_INDICATOR (blackboard_status (blackboards s ! i)) = OCCUPIED")
    case True
    from bb_content_some [OF assms(1,2) True] obtain msg where m: "bb_content s i = Some msg" by blast
    show ?thesis
      using find_blackboard_by_id_eq [OF assms(1,2)] assms(2,3) pc bad m True copy_message_content [OF assms(1,2) m, of dst]
      by (simp add: READ_BLACKBOARD_def bb_table_def with_current_def with_proc_def)
  next
    case False
    then have "bb_content s i = None" by (simp add: bb_content_def)
    with False show ?thesis
      using find_blackboard_by_id_eq [OF assms(1,2)] assms(2,3) pc bad
      by (simp add: READ_BLACKBOARD_def bb_table_def with_current_def with_proc_def)
  qed
qed

definition sample_bb_state :: pcb_s where
  "sample_bb_state = sample_three\<lparr>blackboards := [\<lparr>blackboard_name = ''B'', blackboard_id = 1,
      blackboard_status = \<lparr>EMPTY_INDICATOR = EMPTY, BB_MAX_MESSAGE_SIZE = 4, BB_WAITING_PROCESSES = 2\<rparr>,
      bb_waiting_processes = [2, 3]\<rparr>],
    blackboard_count := 1, max_blackboards := 1, max_blackboard_data_size := 4,
    blackboards_data := [0, 0, 0, 0], blackboards_size_data := [0], mem := (\<lambda>x. of_nat x)\<rparr>"

lemma sample_bb_state_inv: "bb_inv sample_bb_state"
  by (simp add: bb_inv_def wf_procs_def bb_ok_def sample_bb_state_def sample_three_def)

lemma sample_bb_state_facts:
  "0 < nat (blackboard_count sample_bb_state)" "process_current sample_bb_state = Some 1"
  "BB_MAX_MESSAGE_SIZE (blackboard_status (blackboards sample_bb_state ! 0)) = 4"
  "bb_waiting_processes (blackboards sample_bb_state ! 0) = [2, 3]" "mem sample_bb_state = (\<lambda>x. of_nat x)"
  by (simp_all add: sample_bb_state_def sample_three_def)

theorem blackboard_refines_table_witness:
  "bb_table (fst (DISPLAY_BLACKBOARD 1 7 3 sample_bb_state)) 0 = Some [7, 8, 9]"
proof -
  have "bb_table (fst (DISPLAY_BLACKBOARD (int 0 + 1) 7 3 sample_bb_state)) =
      (bb_table sample_bb_state)(0 \<mapsto> mem_read (mem sample_bb_state) 7 (nat 3))"
    using blackboard_refines_table [OF sample_bb_state_inv sample_bb_state_facts(1,2), of 3 7] sample_bb_state_facts(3)
    by simp
  then show ?thesis by (simp add: sample_bb_state_facts mem_read_def upt_rec)
qed

text \<open>
  A displayed message reaches every waiting reader: all of them become ready, the
  queue is empty, and what a woken reader copies when it runs again is the message.
\<close>

theorem display_reaches_waiting_readers:
  assumes "bb_inv s" and "i < nat (blackboard_count s)" and "process_current s = Some c"
    and "0 < len" and "len \<le> BB_MAX_MESSAGE_SIZE (blackboard_status (blackboards s ! i))"
    and "w \<in> set (bb_waiting_processes (blackboards s ! i))" and "w \<noteq> c"
  shows "\<exists>s' p. DISPLAY_BLACKBOARD (int i + 1) a len s = (s', Yield) \<and> proc_heap s' w = Some p \<and> pstate p = READY \<and>
    bb_waiting_processes (blackboards s' ! i) = [] \<and>
    (\<exists>s''. resume_blackboard (RP_READ_BLACKBOARD_INF i dst) p s' = (s'', Ret NO_ERROR (OutLen len)) \<and>
       mem_read (mem s'') dst (nat len) = mem_read (mem s) a (nat len))"
proof -
  let ?m = "mem_read (mem s) a (nat len)" and ?q = "bb_waiting_processes (blackboards s ! i)"
  note nth = bb_inv_nth [OF assms(1,2)]
  have lm: "length ?m \<le> nat (max_blackboard_data_size s)"
    using nth(1) assms(4,5) by (auto simp: bb_ok_def Let_def intro: nat_mono)
  have ne: "?q \<noteq> []" using assms(6) by auto
  obtain h where
    run: "DISPLAY_BLACKBOARD (int i + 1) a len s =
      (upd_proc c (set_context (Ctx_Resume RP_DISPLAY_BLACKBOARD)) ((displayed i ?m s)\<lparr>proc_heap := h\<rparr>), Yield)"
    and all: "\<forall>w \<in> set ?q. \<exists>p. h w = Some p \<and> pstate p = READY"
    and live: "\<forall>w. proc_heap s w = None \<longleftrightarrow> h w = None"
    using DISPLAY_run [OF assms(1-5), of a, unfolded if_not_P [OF ne]] by (elim exE conjE) (rule that)
  have hw: "\<exists>p. h w = Some p \<and> pstate p = READY" using all assms(6) by simp
  let ?s = "upd_proc c (set_context (Ctx_Resume RP_DISPLAY_BLACKBOARD)) ((displayed i ?m s)\<lparr>proc_heap := h\<rparr>)"
  from hw obtain p where p: "h w = Some p" "pstate p = READY" by blast
  have "wf_procs ((displayed i ?m s)\<lparr>proc_heap := h\<rparr>)"
    using assms(1) live by (auto simp: displayed_def bb_inv_def wf_procs_def)
  then have inv: "bb_inv ?s" by (intro bb_inv_upd_proc bb_inv_heap [OF displayed_inv [OF assms(1,2) lm]])
  have i: "i < nat (blackboard_count ?s)" using assms(2) by (simp add: displayed_def)
  have "bb_content ?s i = Some ?m" using displayed_content [OF assms(1,2) lm assms(2)] by simp
  from copy_message_content [OF inv i this, of dst] have
    "resume_blackboard (RP_READ_BLACKBOARD_INF i dst) p ?s = (?s\<lparr>mem := mem_write (mem ?s) dst ?m\<rparr>, Ret NO_ERROR (OutLen len))"
    using assms(4) by (simp add: resume_blackboard_def)
  moreover have "mem_read (mem (?s\<lparr>mem := mem_write (mem ?s) dst ?m\<rparr>)) dst (nat len) = ?m"
    using mem_read_write_len [of "nat len" ?m] by simp
  moreover have "bb_waiting_processes (blackboards ?s ! i) = []"
    using nth(2) blackboard_queue.serve_prefix [of "length ?q" "set_indicator OCCUPIED (blackboards s ! i)"]
    by (simp add: displayed_def) (simp add: set_indicator_def)
  moreover have "proc_heap ?s w = Some p" using p assms(7) by simp
  ultimately show ?thesis using run p(2) by blast
qed

theorem display_reaches_waiting_readers_witness:
  "\<exists>s' s'' p. DISPLAY_BLACKBOARD 1 7 3 sample_bb_state = (s', Yield) \<and>
     resume_blackboard (RP_READ_BLACKBOARD_INF 0 100) p s' = (s'', Ret NO_ERROR (OutLen 3)) \<and>
     mem_read (mem s'') 100 3 = [7, 8, 9]"
proof -
  from display_reaches_waiting_readers [OF sample_bb_state_inv sample_bb_state_facts(1,2), of 3 2 7 100]
    sample_bb_state_facts(3,4,5)
  show ?thesis by (auto simp: mem_read_def upt_rec)
qed

end
