(* ===== verification/Ring_Buffer.thy ===== *)
theory Ring_Buffer
  imports Apex_Types
begin

text \<open>
  Bounded queues kept in an array with a read index, a write index and a count, as the
  code has them five times: the queuing channels between partitions, the buffers of a
  partition, the error list of the health monitor, and the queues and pipes of the native
  kernel.

  \<open>limited_ring\<close> is the contract of the two primitives of such a queue. In it, the contents are the
  messages from the read index on, a write appends, a read takes the first message, and
  every sequence of guarded writes and reads behaves like a bounded list.
\<close>

section \<open>The specification: a bounded list\<close>

datatype 'm ring_op = Put 'm | Get

text \<open>A full queue refuses a message, an empty one gives none.\<close>

fun queue_run :: "nat \<Rightarrow> 'm ring_op list \<Rightarrow> 'm list \<Rightarrow> 'm list \<times> 'm list" where
  "queue_run cap [] q = ([], q)"
| "queue_run cap (Put m # ops) q = queue_run cap ops (if length q < cap then q @ [m] else q)"
| "queue_run cap (Get # ops) [] = queue_run cap ops []"
| "queue_run cap (Get # ops) (m # q) = (let (out, q') = queue_run cap ops q in (m # out, q'))"

text \<open>The same operations on an implementation, with the guards of the callers.\<close>

fun ring_run :: "('m \<Rightarrow> 'a \<Rightarrow> fault + 'a) \<Rightarrow> ('a \<Rightarrow> fault + 'm \<times> 'a) \<Rightarrow> ('a \<Rightarrow> nat) \<Rightarrow> ('a \<Rightarrow> nat) \<Rightarrow>
    'm ring_op list \<Rightarrow> 'a \<Rightarrow> fault + 'm list \<times> 'a" where
  "ring_run put get cnt cap [] x = Inr ([], x)"
| "ring_run put get cnt cap (Put m # ops) x =
     (if cnt x < cap x then
        (case put m x of Inl f \<Rightarrow> Inl f | Inr y \<Rightarrow> ring_run put get cnt cap ops y)
      else ring_run put get cnt cap ops x)"
| "ring_run put get cnt cap (Get # ops) x =
     (if 0 < cnt x then
        (case get x of Inl f \<Rightarrow> Inl f
         | Inr (m, y) \<Rightarrow> (case ring_run put get cnt cap ops y of Inl f \<Rightarrow> Inl f | Inr (out, z) \<Rightarrow> Inr (m # out, z)))
      else ring_run put get cnt cap ops x)"

definition ring_contents :: "nat \<Rightarrow> nat \<Rightarrow> nat \<Rightarrow> (nat \<Rightarrow> 'm) \<Rightarrow> 'm list" where
  "ring_contents cap rd cnt slot = map (\<lambda>k. slot ((rd + k) mod cap)) [0..<cnt]"

definition ring_indices :: "nat \<Rightarrow> nat \<Rightarrow> nat \<Rightarrow> nat \<Rightarrow> bool" where
  "ring_indices cap rd wr cnt \<longleftrightarrow> 0 < cap \<and> rd < cap \<and> cnt \<le> cap \<and> wr = (rd + cnt) mod cap"

lemma length_ring_contents [simp]: "length (ring_contents cap rd cnt slot) = cnt"
  by (simp add: ring_contents_def)

lemma mod_offset_inj:
  assumes "(rd + j) mod cap = (rd + k) mod cap" and "j < cap" and "k < cap"
  shows "j = (k :: nat)"
proof -
  have "int cap dvd (int rd + int j) - (int rd + int k)"
    using assms(1) by (metis mod_eq_dvd_iff of_nat_add of_nat_mod)
  then have d: "int cap dvd int j - int k" by simp
  have lt: "\<bar>int j - int k\<bar> < int cap" using assms(2,3) by simp
  show ?thesis
  proof (rule ccontr)
    assume "j \<noteq> k"
    then have "int j - int k \<noteq> 0" by simp
    from dvd_imp_le_int [OF this d] lt show False by simp
  qed
qed

text \<open>Slots of equal size do not overlap.\<close>

lemma slot_range: "j < n \<Longrightarrow> k \<le> sz \<Longrightarrow> j * sz + k \<le> n * (sz :: nat)"
  using mult_le_mono1 [of "Suc j" n sz] by simp

lemma slot_disjoint: "j \<noteq> w \<Longrightarrow> k \<le> sz \<Longrightarrow> l \<le> sz \<Longrightarrow> j * sz + k \<le> w * sz \<or> w * sz + l \<le> j * (sz :: nat)"
  using slot_range [of j w k sz] slot_range [of w j l sz] by (cases "j < w") auto

section \<open>The contract\<close>

text \<open>
  \<open>limited_ring\<close>: an array of \<open>cap\<close> places that holds at most \<open>room\<close> messages. A ring that
  tells full from empty by the indices alone leaves one place free.
\<close>

locale limited_ring =
  fixes cap room rd wr cnt :: "'a \<Rightarrow> nat" and slot :: "'a \<Rightarrow> nat \<Rightarrow> 'm"
    and inv :: "'a \<Rightarrow> bool" and fits :: "'a \<Rightarrow> 'm \<Rightarrow> bool"
    and put :: "'m \<Rightarrow> 'a \<Rightarrow> fault + 'a" and get :: "'a \<Rightarrow> fault + 'm \<times> 'a"
  assumes indices: "inv x \<Longrightarrow> ring_indices (cap x) (rd x) (wr x) (cnt x)"
    and room: "inv x \<Longrightarrow> room x \<le> cap x"
    and put: "inv x \<Longrightarrow> cnt x < room x \<Longrightarrow> fits x m \<Longrightarrow>
      \<exists>y. put m x = Inr y \<and> inv y \<and> cap y = cap x \<and> rd y = rd x \<and> cnt y = cnt x + 1 \<and> fits y = fits x \<and>
        (\<forall>j < cap x. slot y j = (if j = wr x then m else slot x j)) \<and> room y = room x"
    and get: "inv x \<Longrightarrow> 0 < cnt x \<Longrightarrow>
      \<exists>y. get x = Inr (slot x (rd x), y) \<and> inv y \<and> cap y = cap x \<and> rd y = (rd x + 1) mod cap x \<and>
        cnt y = cnt x - 1 \<and> fits y = fits x \<and> (\<forall>j < cap x. slot y j = slot x j) \<and> room y = room x"
begin

abbreviation contents :: "'a \<Rightarrow> 'm list" where
  "contents x \<equiv> ring_contents (cap x) (rd x) (cnt x) (slot x)"

lemma put_appends:
  assumes "inv x" and "cnt x < room x" and "fits x m"
  shows "\<exists>y. put m x = Inr y \<and> inv y \<and> cap y = cap x \<and> fits y = fits x \<and> contents y = contents x @ [m] \<and>
    room y = room x"
proof -
  from put [OF assms] obtain y where y: "put m x = Inr y" "inv y" "cap y = cap x" "rd y = rd x" "cnt y = cnt x + 1"
    "fits y = fits x" "\<forall>j < cap x. slot y j = (if j = wr x then m else slot x j)" "room y = room x" by blast
  have w: "wr x = (rd x + cnt x) mod cap x" "0 < cap x" using indices [OF assms(1)] by (auto simp: ring_indices_def)
  have "slot y ((rd x + k) mod cap x) = slot x ((rd x + k) mod cap x)" if "k < cnt x" for k
    using y(7) mod_offset_inj [of "rd x" k "cap x" "cnt x"] that w assms(2) room [OF assms(1)] by auto
  moreover have "slot y ((rd x + cnt x) mod cap x) = m" using y(7) w by simp
  ultimately have "contents y = contents x @ [m]" using y(3-5) by (simp add: ring_contents_def)
  with y show ?thesis by blast
qed

lemma get_takes:
  assumes "inv x" and "0 < cnt x"
  shows "\<exists>y. get x = Inr (hd (contents x), y) \<and> inv y \<and> cap y = cap x \<and> fits y = fits x \<and> contents y = tl (contents x) \<and>
    room y = room x"
proof -
  from get [OF assms] obtain y where y: "get x = Inr (slot x (rd x), y)" "inv y" "cap y = cap x"
    "rd y = (rd x + 1) mod cap x" "cnt y = cnt x - 1" "fits y = fits x" "\<forall>j < cap x. slot y j = slot x j" "room y = room x" by blast
  have c: "0 < cap x" "rd x < cap x" using indices [OF assms(1)] by (auto simp: ring_indices_def)
  have st: "((rd x + 1) mod cap x + k) mod cap x = (rd x + Suc k) mod cap x" for k by (simp add: mod_simps)
  have u: "[0..<cnt x] = 0 # map Suc [0..<cnt x - 1]" using assms(2)
    by (cases "cnt x") (simp_all add: upt_conv_Cons map_Suc_upt del: upt_Suc)
  have "hd (contents x) = slot x (rd x)" unfolding ring_contents_def u using c by simp
  moreover have "contents y = tl (contents x)"
    unfolding ring_contents_def u y(3-5) st using y(7) c by simp
  ultimately show ?thesis using y by auto
qed

text \<open>Every sequence of guarded operations is one of the bounded list.\<close>

lemma ring_refines_queue:
  assumes "inv x" and "\<forall>m. Put m \<in> set ops \<longrightarrow> fits x m"
  shows "\<exists>y. ring_run put get cnt room ops x = Inr (fst (queue_run (room x) ops (contents x)), y) \<and> inv y \<and>
    cap y = cap x \<and> room y = room x \<and> contents y = snd (queue_run (room x) ops (contents x))"
  using assms
proof (induction ops arbitrary: x)
  case (Cons a ops)
  show ?case
  proof (cases a)
    case (Put m)
    show ?thesis
    proof (cases "cnt x < room x")
      case True
      have "fits x m" using Cons.prems(2) Put by simp
      from put_appends [OF Cons.prems(1) True this] obtain y where
        y: "put m x = Inr y" "inv y" "cap y = cap x" "fits y = fits x" "contents y = contents x @ [m]" "room y = room x" by blast
      have "\<forall>m. Put m \<in> set ops \<longrightarrow> fits y m" using Cons.prems(2) y(4) by simp
      from Cons.IH [OF y(2) this] show ?thesis using Put True y by simp
    next
      case False
      have "\<forall>m. Put m \<in> set ops \<longrightarrow> fits x m" using Cons.prems(2) by simp
      from Cons.IH [OF Cons.prems(1) this] show ?thesis using Put False by simp
    qed
  next
    case Get
    have f: "\<forall>m. Put m \<in> set ops \<longrightarrow> fits x m" using Cons.prems(2) by simp
    show ?thesis
    proof (cases "cnt x = 0")
      case True
      then have "contents x = []" by (simp add: ring_contents_def)
      with Cons.IH [OF Cons.prems(1) f] show ?thesis using Get True by simp
    next
      case False
      then have "0 < cnt x" by simp
      from get_takes [OF Cons.prems(1) this] obtain y where
        y: "get x = Inr (hd (contents x), y)" "inv y" "cap y = cap x" "fits y = fits x" "contents y = tl (contents x)" "room y = room x" by blast
      have "contents x \<noteq> []" using False by (metis length_0_conv length_ring_contents)
      then obtain m q where q: "contents x = m # q" by (cases "contents x") auto
      from Cons.IH [OF y(2)] f y(4) obtain z where
        "ring_run put get cnt room ops y = Inr (fst (queue_run (room y) ops (contents y)), z)" "inv z" "cap z = cap y" "room z = room y"
        "contents z = snd (queue_run (room y) ops (contents y))" by auto
      then show ?thesis using Get False y q by (simp add: case_prod_beta)
    qed
  qed
qed simp

end

text \<open>\<open>ring\<close>: a ring with a counter, which can use every place.\<close>

locale ring =
  fixes cap rd wr cnt :: "'a \<Rightarrow> nat" and slot :: "'a \<Rightarrow> nat \<Rightarrow> 'm"
    and inv :: "'a \<Rightarrow> bool" and fits :: "'a \<Rightarrow> 'm \<Rightarrow> bool"
    and put :: "'m \<Rightarrow> 'a \<Rightarrow> fault + 'a" and get :: "'a \<Rightarrow> fault + 'm \<times> 'a"
  assumes full_indices: "inv x \<Longrightarrow> ring_indices (cap x) (rd x) (wr x) (cnt x)"
    and full_put: "inv x \<Longrightarrow> cnt x < cap x \<Longrightarrow> fits x m \<Longrightarrow>
      \<exists>y. put m x = Inr y \<and> inv y \<and> cap y = cap x \<and> rd y = rd x \<and> cnt y = cnt x + 1 \<and> fits y = fits x \<and>
        (\<forall>j < cap x. slot y j = (if j = wr x then m else slot x j))"
    and full_get: "inv x \<Longrightarrow> 0 < cnt x \<Longrightarrow>
      \<exists>y. get x = Inr (slot x (rd x), y) \<and> inv y \<and> cap y = cap x \<and> rd y = (rd x + 1) mod cap x \<and>
        cnt y = cnt x - 1 \<and> fits y = fits x \<and> (\<forall>j < cap x. slot y j = slot x j)"

sublocale ring \<subseteq> limited_ring cap cap rd wr cnt slot inv fits put get
  using full_indices full_put full_get by unfold_locales (fastforce+)

end
