(* ===== verification/Buffer.thy ===== *)
theory Buffer
  imports Ring_Buffer Waiting_Queue
begin

text \<open>
  Buffers of \<open>arinc/arinc_intrapartition_communication.c\<close>: message queues inside a
  partition, with one queue of waiting readers and one of waiting writers. The messages of
  all buffers of a partition share the arrays \<open>buffers_data\<close> and \<open>buffers_size_data\<close>.

  The theory shows that each buffer is a bounded first-in first-out queue, that a message
  sent to a waiting reader is handed over in the memory of the reader, and that a blocked
  writer's message enters the queue at its end when a read makes room. It also shows when
  two buffers disturb each other through the shared array of lengths.
\<close>

section \<open>Services\<close>

definition find_buffer_by_name :: "pcb_s \<Rightarrow> string \<Rightarrow> int" where
  "find_buffer_by_name s name =
     index_from 0 (\<lambda>b. buffer_name b = name) (take (nat (buffer_count s)) (buffers s))"

definition find_buffer_by_id :: "pcb_s \<Rightarrow> int \<Rightarrow> int" where
  "find_buffer_by_id s i =
     index_from 0 (\<lambda>b. buffer_id b = i) (take (nat (buffer_count s)) (buffers s))"

definition upd_buf :: "nat \<Rightarrow> (buffer_s \<Rightarrow> buffer_s) \<Rightarrow> pcb_s \<Rightarrow> pcb_s" where
  "upd_buf i f s = s\<lparr>buffers := (buffers s)[i := f (buffers s ! i)]\<rparr>"

definition add_waiting :: "int \<Rightarrow> buffer_s \<Rightarrow> buffer_s" where
  "add_waiting n b = b\<lparr>buffer_status := (buffer_status b)\<lparr>
     BF_WAITING_PROCESSES := BF_WAITING_PROCESSES (buffer_status b) + n\<rparr>\<rparr>"

definition reader_enter :: "QUEUING_DISCIPLINE_TYPE \<Rightarrow> pcb_s \<Rightarrow> pref \<Rightarrow> buffer_s \<Rightarrow> buffer_s" where
  "reader_enter d s r b = add_waiting 1 (b\<lparr>waiting_readers := enqueue_waiter d s r (waiting_readers b)\<rparr>)"

definition reader_serve :: "buffer_s \<Rightarrow> buffer_s" where
  "reader_serve b = add_waiting (-1) (b\<lparr>waiting_readers := tl (waiting_readers b)\<rparr>)"

definition writer_enter :: "QUEUING_DISCIPLINE_TYPE \<Rightarrow> pcb_s \<Rightarrow> pref \<Rightarrow> buffer_s \<Rightarrow> buffer_s" where
  "writer_enter d s r b = add_waiting 1 (b\<lparr>waiting_writers := enqueue_waiter d s r (waiting_writers b)\<rparr>)"

definition writer_serve :: "buffer_s \<Rightarrow> buffer_s" where
  "writer_serve b = add_waiting (-1) (b\<lparr>waiting_writers := tl (waiting_writers b)\<rparr>)"

text \<open>
  \<open>MAX_MESSAGE_SIZE * MAX_NB_MESSAGE\<close> in \<open>APEX_INTEGER\<close>: the product the 32-bit multiplication
  of the target gives, where C leaves an overflow undefined.
\<close>

definition mul32 :: "int \<Rightarrow> int \<Rightarrow> int" where
  "mul32 a b = signed_take_bit 31 (a * b)"

definition CREATE_BUFFER :: "string \<Rightarrow> int \<Rightarrow> int \<Rightarrow> int \<Rightarrow> service" where
  "CREATE_BUFFER BUFFER_NAME MAX_MESSAGE_SZ MAX_NB DISCIPLINE s =
     (if buffer_count s + 1 > max_buffers s \<or> max_buffer_data_size s < mul32 MAX_MESSAGE_SZ MAX_NB
        then (s, Ret INVALID_CONFIG NoOut)
      else if find_buffer_by_name s BUFFER_NAME \<noteq> -1 then (s, Ret NO_ACTION NoOut)
      else if MAX_MESSAGE_SZ \<le> 0 then (s, Ret INVALID_PARAM NoOut)
      else if MAX_NB \<le> 0 then (s, Ret INVALID_PARAM NoOut)
      else case decode_discipline DISCIPLINE of
        None \<Rightarrow> (s, Ret INVALID_PARAM NoOut)
      | Some d \<Rightarrow>
          if OPERATING_MODE (status s) = NORMAL then (s, Ret INVALID_MODE NoOut)
          else if \<not> nat (buffer_count s) < length (buffers s) then (s, Fault OutOfBounds)
          else let n = buffer_count s + 1 in
            ((upd_buf (nat (buffer_count s)) (\<lambda>b.
                \<lparr>buffer_name = take (MAX_NAME_LENGTH - 1) BUFFER_NAME, buffer_id = n,
                 buffer_status = \<lparr>NB_MESSAGE = 0, MAX_NB_MESSAGE = MAX_NB, BF_MAX_MESSAGE_SIZE = MAX_MESSAGE_SZ,
                   BF_WAITING_PROCESSES = 0\<rparr>,
                 bf_queuing_discipline = d, bf_read_index = 0, bf_write_index = 0,
                 waiting_readers = [], waiting_writers = []\<rparr>) s)\<lparr>buffer_count := n\<rparr>,
             Ret NO_ERROR (OutId n)))"

text \<open>
  The place of message \<open>k\<close> of buffer \<open>i\<close>: \<open>data_base + k * MAX_MESSAGE_SIZE\<close> in the data and
  \<open>size_base + k\<close> in the lengths, in \<open>uint32_t\<close>.
\<close>

definition data_index :: "pcb_s \<Rightarrow> nat \<Rightarrow> u32 \<Rightarrow> nat" where
  "data_index s i k = unat (of_nat i * word_of_int (max_buffer_data_size s) +
     k * word_of_int (BF_MAX_MESSAGE_SIZE (buffer_status (buffers s ! i))) :: u32)"

definition size_index :: "pcb_s \<Rightarrow> nat \<Rightarrow> u32 \<Rightarrow> nat" where
  "size_index s i k = unat (of_nat i * word_of_int (MAX_NB_MESSAGE (buffer_status (buffers s ! i))) + k :: u32)"

definition next_index :: "pcb_s \<Rightarrow> nat \<Rightarrow> u32 \<Rightarrow> u32" where
  "next_index s i k = (k + 1) mod word_of_int (MAX_NB_MESSAGE (buffer_status (buffers s ! i)))"

definition add_messages :: "int \<Rightarrow> buffer_s \<Rightarrow> buffer_s" where
  "add_messages n b = b\<lparr>buffer_status := (buffer_status b)\<lparr>NB_MESSAGE := NB_MESSAGE (buffer_status b) + n\<rparr>\<rparr>"

definition buffer_put :: "nat \<Rightarrow> byte list \<Rightarrow> pcb_s \<Rightarrow> fault + pcb_s" where
  "buffer_put i msg s =
     (let w = bf_write_index (buffers s ! i) in
      case buf_write (buffers_data s) (data_index s i w) msg of
        None \<Rightarrow> Inl OutOfBounds
      | Some d \<Rightarrow>
          if \<not> size_index s i w < length (buffers_size_data s) then Inl OutOfBounds
          else if word_of_int (MAX_NB_MESSAGE (buffer_status (buffers s ! i))) = (0 :: u32) then Inl DivByZero
          else Inr (upd_buf i (\<lambda>b. add_messages 1 (b\<lparr>bf_write_index := next_index s i w\<rparr>))
                 (s\<lparr>buffers_data := d,
                    buffers_size_data := (buffers_size_data s)[size_index s i w := of_nat (length msg)]\<rparr>)))"

definition buffer_get :: "nat \<Rightarrow> pcb_s \<Rightarrow> fault + byte list \<times> pcb_s" where
  "buffer_get i s =
     (let k = bf_read_index (buffers s ! i) in
      if \<not> size_index s i k < length (buffers_size_data s) then Inl OutOfBounds
      else case buf_read (buffers_data s) (data_index s i k) (unat (buffers_size_data s ! size_index s i k)) of
        None \<Rightarrow> Inl OutOfBounds
      | Some msg \<Rightarrow>
          if word_of_int (MAX_NB_MESSAGE (buffer_status (buffers s ! i))) = (0 :: u32) then Inl DivByZero
          else Inr (msg, upd_buf i (\<lambda>b. add_messages (-1) (b\<lparr>bf_read_index := next_index s i k\<rparr>)) s))"

text \<open>
  A blocked process records the buffer and the address (a writer also the length) of its
  message. With a timeout the \<open>time_counter\<close> is set last.
\<close>

definition block_on_buffer :: "resume_point \<Rightarrow> resume_point \<Rightarrow> nat \<Rightarrow> int \<Rightarrow> u64 \<Rightarrow>
    (process_s \<Rightarrow> process_s) \<Rightarrow> (QUEUING_DISCIPLINE_TYPE \<Rightarrow> pcb_s \<Rightarrow> pref \<Rightarrow> buffer_s \<Rightarrow> buffer_s) \<Rightarrow>
    pref \<Rightarrow> service" where
  "block_on_buffer k_inf k_tmo i TIME_OUT up record_message enter r s =
     (let s1 = upd_proc r (\<lambda>p. record_message ((set_state WAITING p)\<lparr>waiting_buffer := Some i\<rparr>)) s;
          s2 = upd_buf i (enter (bf_queuing_discipline (buffers s ! i)) s1 r) s1
      in if TIME_OUT = INFINITE_TIME_VALUE then yield_to_partition k_inf r s2
         else yield_to_partition k_tmo r (start_timeout up TIME_OUT r s2))"

definition SEND_BUFFER :: "int \<Rightarrow> addr \<Rightarrow> int \<Rightarrow> int \<Rightarrow> u64 \<Rightarrow> service" where
  "SEND_BUFFER BUFFER_ID MESSAGE_ADDR LEN TIME_OUT up s =
     (let index = find_buffer_by_id s BUFFER_ID; i = nat index in
      if index = -1 then (s, Ret INVALID_PARAM NoOut)
      else let b = buffers s ! i in
        if LEN \<ge> BF_MAX_MESSAGE_SIZE (buffer_status b) then (s, Ret INVALID_CONFIG NoOut)
        else if LEN \<le> 0 then (s, Ret INVALID_PARAM NoOut)
        else if bad_delay up TIME_OUT then (s, Ret INVALID_PARAM NoOut)
        else with_current (\<lambda>r p.
          let msg = mem_read (mem s) MESSAGE_ADDR (nat LEN) in
          if NB_MESSAGE (buffer_status b) < MAX_NB_MESSAGE (buffer_status b) then
            (case waiting_readers b of
               [] \<Rightarrow> (case buffer_put i msg s of Inl f \<Rightarrow> (s, Fault f) | Inr s' \<Rightarrow> (s', Ret NO_ERROR NoOut))
             | w # _ \<Rightarrow> with_proc w (\<lambda>pw.
                 yield_to_partition RP_SEND_BUFFER_WOKE r
                   (wake_process (\<lambda>p. p\<lparr>waiting_message_size := LEN, waiting_buffer := None\<rparr>) w
                     (upd_buf i reader_serve (s\<lparr>mem := mem_write (mem s) (waiting_message_addr pw) msg\<rparr>)))) s)
          else if TIME_OUT = 0 then (s, Ret NOT_AVAILABLE NoOut)
          else if owned_mutex_id p \<noteq> NO_MUTEX_OWNED \<or> error_handler_process s = Some r
            then (s, Ret INVALID_MODE NoOut)
          else block_on_buffer RP_SEND_BUFFER_INF RP_SEND_BUFFER_TMO i TIME_OUT up
                 (\<lambda>p. p\<lparr>waiting_message_addr := MESSAGE_ADDR, waiting_message_size := LEN\<rparr>) writer_enter r s) s)"

text \<open>
  The message is copied out first; then the first waiting writer's message is put in the
  place made free.
\<close>

definition RECEIVE_BUFFER :: "int \<Rightarrow> int \<Rightarrow> addr \<Rightarrow> u64 \<Rightarrow> service" where
  "RECEIVE_BUFFER BUFFER_ID TIME_OUT MESSAGE_ADDR up s =
     (let index = find_buffer_by_id s BUFFER_ID; i = nat index in
      if index = -1 then (s, Ret INVALID_PARAM NoOut)
      else if bad_delay up TIME_OUT then (s, Ret INVALID_PARAM NoOut)
      else with_current (\<lambda>r p.
        let b = buffers s ! i in
        if NB_MESSAGE (buffer_status b) > 0 then
          (case buffer_get i s of
             Inl f \<Rightarrow> (s, Fault f)
           | Inr (msg, s') \<Rightarrow>
               let s1 = s'\<lparr>mem := mem_write (mem s) MESSAGE_ADDR msg\<rparr>; n = int (length msg) in
               (case waiting_writers b of
                  [] \<Rightarrow> (s1, Ret NO_ERROR (OutLen n))
                | w # _ \<Rightarrow> with_proc w (\<lambda>pw.
                    case buffer_put i (mem_read (mem s1) (waiting_message_addr pw) (nat (waiting_message_size pw)))
                           (upd_buf i writer_serve s1) of
                      Inl f \<Rightarrow> (s, Fault f)
                    | Inr s2 \<Rightarrow> yield_to_partition (RP_RECEIVE_BUFFER_WOKE n) r
                                 (wake_process (\<lambda>p. p\<lparr>waiting_buffer := None\<rparr>) w s2)) s1))
        else if TIME_OUT = 0 then (s, Ret NOT_AVAILABLE (OutLen 0))
        else if owned_mutex_id p \<noteq> NO_MUTEX_OWNED \<or> error_handler_process s = Some r
          then (s, Ret INVALID_MODE (OutLen 0))
        else block_on_buffer RP_RECEIVE_BUFFER_INF RP_RECEIVE_BUFFER_TMO i TIME_OUT up
               (\<lambda>p. p\<lparr>waiting_message_addr := MESSAGE_ADDR\<rparr>) reader_enter r s) s)"

definition GET_BUFFER_ID :: "string \<Rightarrow> service" where
  "GET_BUFFER_ID BUFFER_NAME s =
     (let index = find_buffer_by_name s BUFFER_NAME in
      if index = -1 then (s, Ret INVALID_CONFIG NoOut)
      else (s, Ret NO_ERROR (OutId (buffer_id (buffers s ! nat index)))))"

definition GET_BUFFER_STATUS :: "int \<Rightarrow> service" where
  "GET_BUFFER_STATUS BUFFER_ID s =
     (let index = find_buffer_by_id s BUFFER_ID in
      if index = -1 then (s, Ret INVALID_PARAM NoOut)
      else (s, Ret NO_ERROR (OutBufferStatus (buffer_status (buffers s ! nat index)))))"

text \<open>The rest of the suspended services, for the process as it is when it runs again.\<close>

definition resume_buffer :: "resume_point \<Rightarrow> process_s \<Rightarrow> outcome" where
  "resume_buffer k p =
     (case k of
        RP_SEND_BUFFER_TMO \<Rightarrow> Ret (timeout_code p) NoOut
      | RP_RECEIVE_BUFFER_WOKE n \<Rightarrow> Ret NO_ERROR (OutLen n)
      | RP_RECEIVE_BUFFER_INF \<Rightarrow> Ret NO_ERROR (OutLen (waiting_message_size p))
      | RP_RECEIVE_BUFFER_TMO \<Rightarrow>
          if time_counter p = 0 then Ret TIMED_OUT (OutLen 0) else Ret NO_ERROR (OutLen (waiting_message_size p))
      | _ \<Rightarrow> Ret NO_ERROR NoOut)"

interpretation reader_queue: waiting_queue waiting_readers
  "\<lambda>b. BF_WAITING_PROCESSES (buffer_status b)" reader_enter reader_serve
  by unfold_locales (simp_all add: reader_enter_def reader_serve_def add_waiting_def)

interpretation writer_queue: waiting_queue waiting_writers
  "\<lambda>b. BF_WAITING_PROCESSES (buffer_status b)" writer_enter writer_serve
  by unfold_locales (simp_all add: writer_enter_def writer_serve_def add_waiting_def)

section \<open>A buffer is a ring\<close>

definition bf_cap :: "nat \<Rightarrow> pcb_s \<Rightarrow> nat" where
  "bf_cap i s = nat (MAX_NB_MESSAGE (buffer_status (buffers s ! i)))"

definition bf_max :: "nat \<Rightarrow> pcb_s \<Rightarrow> nat" where
  "bf_max i s = nat (BF_MAX_MESSAGE_SIZE (buffer_status (buffers s ! i)))"

definition bf_slot :: "nat \<Rightarrow> pcb_s \<Rightarrow> nat \<Rightarrow> byte list" where
  "bf_slot i s j = take (unat (buffers_size_data s ! (i * bf_cap i s + j)))
     (drop (i * nat (max_buffer_data_size s) + j * bf_max i s) (buffers_data s))"

definition bf_fits :: "nat \<Rightarrow> pcb_s \<Rightarrow> byte list \<Rightarrow> bool" where
  "bf_fits i s msg \<longleftrightarrow> length msg \<le> bf_max i s"

text \<open>
  Buffer \<open>i\<close> fits its share of the data array, whose size fits \<open>uint32_t\<close>; so does its range
  of the array of lengths.
\<close>

definition bf_inv :: "nat \<Rightarrow> pcb_s \<Rightarrow> bool" where
  "bf_inv i s \<longleftrightarrow> (let b = buffers s ! i; n = bf_cap i s; sz = bf_max i s; d = nat (max_buffer_data_size s) in
     i < length (buffers s) \<and> 0 \<le> NB_MESSAGE (buffer_status b) \<and> 0 \<le> max_buffer_data_size s \<and>
     0 < MAX_NB_MESSAGE (buffer_status b) \<and> 0 < BF_MAX_MESSAGE_SIZE (buffer_status b) \<and>
     ring_indices n (unat (bf_read_index b)) (unat (bf_write_index b)) (nat (NB_MESSAGE (buffer_status b))) \<and>
     n * sz \<le> d \<and> (i + 1) * d \<le> length (buffers_data s) \<and> length (buffers_data s) < 2 ^ 32 \<and>
     i * n + n \<le> length (buffers_size_data s) \<and> length (buffers_size_data s) < 2 ^ 32 \<and>
     (\<forall>j < n. unat (buffers_size_data s ! (i * n + j)) \<le> sz))"

lemma upd_buf_frame [simp]:
  "buffers (upd_buf i f s) = (buffers s)[i := f (buffers s ! i)]" "proc_heap (upd_buf i f s) = proc_heap s"
  "processes (upd_buf i f s) = processes s" "process_current (upd_buf i f s) = process_current s"
  "buffer_count (upd_buf i f s) = buffer_count s" "max_buffer_data_size (upd_buf i f s) = max_buffer_data_size s"
  "buffers_data (upd_buf i f s) = buffers_data s" "buffers_size_data (upd_buf i f s) = buffers_size_data s"
  "mem (upd_buf i f s) = mem s" "error_handler_process (upd_buf i f s) = error_handler_process s"
  by (simp_all add: upd_buf_def)

lemma bf_inv_unfold:
  assumes "bf_inv i s"
  shows "i < length (buffers s)" "0 \<le> NB_MESSAGE (buffer_status (buffers s ! i))" "0 \<le> max_buffer_data_size s"
    "0 < MAX_NB_MESSAGE (buffer_status (buffers s ! i))" "0 < BF_MAX_MESSAGE_SIZE (buffer_status (buffers s ! i))"
    "ring_indices (bf_cap i s) (unat (bf_read_index (buffers s ! i))) (unat (bf_write_index (buffers s ! i)))
       (nat (NB_MESSAGE (buffer_status (buffers s ! i))))"
    "bf_cap i s * bf_max i s \<le> nat (max_buffer_data_size s)"
    "(i + 1) * nat (max_buffer_data_size s) \<le> length (buffers_data s)" "length (buffers_data s) < 2 ^ 32"
    "i * bf_cap i s + bf_cap i s \<le> length (buffers_size_data s)" "length (buffers_size_data s) < 2 ^ 32"
    "\<And>j. j < bf_cap i s \<Longrightarrow> unat (buffers_size_data s ! (i * bf_cap i s + j)) \<le> bf_max i s"
  using assms by (simp_all add: bf_inv_def Let_def)

lemma u32_of_int: "0 \<le> x \<Longrightarrow> nat x < 2 ^ 32 \<Longrightarrow> unat (word_of_int x :: u32) = nat x"
  by (simp add: unat_eq_nat_uint uint_word_of_int_eq take_bit_int_eq_self nat_less_iff)

lemma u32_mult: "unat a * unat b < 2 ^ 32 \<Longrightarrow> unat (a * b :: u32) = unat a * unat b"
  by (simp add: unat_word_ariths take_bit_nat_eq_self)

lemma u32_add: "unat a + unat b < 2 ^ 32 \<Longrightarrow> unat (a + b :: u32) = unat a + unat b"
  by (simp add: unat_word_ariths take_bit_nat_eq_self)

lemma u32_of_nat: "n < 2 ^ 32 \<Longrightarrow> unat (of_nat n :: u32) = n"
  by (simp add: unat_of_nat take_bit_nat_eq_self)

text \<open>The products of the code do not wrap.\<close>

lemma bf_bounds:
  assumes inv: "bf_inv i s" and k: "k < bf_cap i s" and l: "l \<le> bf_max i s"
  shows "i * nat (max_buffer_data_size s) + k * bf_max i s + l \<le> length (buffers_data s)"
    "k * bf_max i s + l \<le> nat (max_buffer_data_size s)" "i * bf_cap i s + k < length (buffers_size_data s)"
proof -
  note I = bf_inv_unfold [OF inv]
  show d: "k * bf_max i s + l \<le> nat (max_buffer_data_size s)" using slot_range [OF k l] I(7) by linarith
  have "i * nat (max_buffer_data_size s) + nat (max_buffer_data_size s) \<le> length (buffers_data s)" using I(8) by simp
  with d show "i * nat (max_buffer_data_size s) + k * bf_max i s + l \<le> length (buffers_data s)" by linarith
  show "i * bf_cap i s + k < length (buffers_size_data s)" using I(10) k by linarith
qed

lemma bf_small:
  assumes inv: "bf_inv i s"
  shows "bf_cap i s < 2 ^ 32" "i * bf_cap i s < 2 ^ 32" "bf_max i s < 2 ^ 32" "nat (max_buffer_data_size s) < 2 ^ 32" "i < 2 ^ 32"
proof -
  note I = bf_inv_unfold [OF inv]
  show n: "bf_cap i s < 2 ^ 32" and "i * bf_cap i s < 2 ^ 32" using I(10,11) by linarith+
  have n0: "0 < bf_cap i s" using I(4) by (simp add: bf_cap_def)
  have "i * 1 \<le> i * bf_cap i s" using n0 by (intro mult_le_mono2) simp
  with I(10,11) show "i < 2 ^ 32" by linarith
  show d: "nat (max_buffer_data_size s) < 2 ^ 32" using I(8,9) by simp
  have "1 * bf_max i s \<le> bf_cap i s * bf_max i s" using n0 by (intro mult_le_mono1) simp
  with I(7) d show "bf_max i s < 2 ^ 32" by linarith
qed

lemma bf_index:
  assumes inv: "bf_inv i s" and k: "unat k < bf_cap i s"
  shows "data_index s i k = i * nat (max_buffer_data_size s) + unat k * bf_max i s"
    "size_index s i k = i * bf_cap i s + unat k" "unat (next_index s i k) = (unat k + 1) mod bf_cap i s"
proof -
  note I = bf_inv_unfold [OF inv] and S = bf_small [OF inv]
  have c: "unat (word_of_int (MAX_NB_MESSAGE (buffer_status (buffers s ! i))) :: u32) = bf_cap i s"
    using u32_of_int I(4) S(1) by (simp add: bf_cap_def)
  have z: "unat (word_of_int (BF_MAX_MESSAGE_SIZE (buffer_status (buffers s ! i))) :: u32) = bf_max i s"
    using u32_of_int I(5) S(3) by (simp add: bf_max_def)
  have d: "unat (word_of_int (max_buffer_data_size s) :: u32) = nat (max_buffer_data_size s)"
    using u32_of_int I(3) S(4) by simp
  have i: "unat (of_nat i :: u32) = i" by (rule u32_of_nat [OF S(5)])
  from bf_bounds(1) [OF inv k le0] I(9)
  have dd: "i * nat (max_buffer_data_size s) + unat k * bf_max i s < 2 ^ 32" by linarith
  then show "data_index s i k = i * nat (max_buffer_data_size s) + unat k * bf_max i s"
    unfolding data_index_def by (subst u32_add; subst u32_mult)+ (simp_all add: i d z u32_mult)
  from bf_bounds(3) [OF inv k le0] I(11) have "i * bf_cap i s + unat k < 2 ^ 32" by linarith
  then show "size_index s i k = i * bf_cap i s + unat k"
    unfolding size_index_def by (simp add: u32_add u32_mult i c)
  show "unat (next_index s i k) = (unat k + 1) mod bf_cap i s"
    using unat_ring_step [of k "word_of_int (MAX_NB_MESSAGE (buffer_status (buffers s ! i)))"] c k
    by (simp add: next_index_def word_less_nat_alt)
qed

lemma word_of_cap: "bf_inv i s \<Longrightarrow> word_of_int (MAX_NB_MESSAGE (buffer_status (buffers s ! i))) \<noteq> (0 :: u32)"
proof
  assume inv: "bf_inv i s" and "word_of_int (MAX_NB_MESSAGE (buffer_status (buffers s ! i))) = (0 :: u32)"
  then have "unat (word_of_int (MAX_NB_MESSAGE (buffer_status (buffers s ! i))) :: u32) = 0" by simp
  then show False using u32_of_int [of "MAX_NB_MESSAGE (buffer_status (buffers s ! i))"] bf_inv_unfold(4) [OF inv] bf_small(1) [OF inv]
    by (simp add: bf_cap_def)
qed

lemma bf_slot_read:
  assumes inv: "bf_inv i s" and j: "j < bf_cap i s"
  shows "buf_read (buffers_data s) (i * nat (max_buffer_data_size s) + j * bf_max i s)
    (unat (buffers_size_data s ! (i * bf_cap i s + j))) = Some (bf_slot i s j)"
  using bf_bounds(1) [OF inv j bf_inv_unfold(12) [OF inv j]] by (simp add: buf_read_def bf_slot_def)

lemma buffer_put_spec:
  assumes inv: "bf_inv i s" and free: "nat (NB_MESSAGE (buffer_status (buffers s ! i))) < bf_cap i s" and fits: "bf_fits i s m"
  shows "\<exists>t. buffer_put i m s = Inr t \<and> bf_inv i t \<and> bf_cap i t = bf_cap i s \<and>
    bf_read_index (buffers t ! i) = bf_read_index (buffers s ! i) \<and>
    nat (NB_MESSAGE (buffer_status (buffers t ! i))) = nat (NB_MESSAGE (buffer_status (buffers s ! i))) + 1 \<and>
    bf_fits i t = bf_fits i s \<and>
    (\<forall>j < bf_cap i s. bf_slot i t j = (if j = unat (bf_write_index (buffers s ! i)) then m else bf_slot i s j))"
proof -
  note I = bf_inv_unfold [OF inv]
  let ?b = "buffers s ! i" and ?n = "bf_cap i s" and ?sz = "bf_max i s" and ?D = "i * nat (max_buffer_data_size s)"
  let ?w = "bf_write_index ?b"
  have w: "unat ?w < ?n" using I(6) by (auto simp: ring_indices_def)
  have len: "length m \<le> ?sz" using fits by (simp add: bf_fits_def)
  note ix = bf_index [OF inv w]
  obtain d where d: "buf_write (buffers_data s) (?D + unat ?w * ?sz) m = Some d"
    using bf_bounds(1) [OF inv w len] by (simp add: buf_write_def)
  let ?t = "upd_buf i (\<lambda>b. add_messages 1 (b\<lparr>bf_write_index := next_index s i ?w\<rparr>))
     (s\<lparr>buffers_data := d, buffers_size_data := (buffers_size_data s)[i * ?n + unat ?w := of_nat (length m)]\<rparr>)"
  have put: "buffer_put i m s = Inr ?t"
    using d bf_bounds(3) [OF inv w le0] word_of_cap [OF inv] by (simp add: buffer_put_def Let_def ix)
  have b': "buffers ?t ! i = add_messages 1 (?b\<lparr>bf_write_index := next_index s i ?w\<rparr>)" using I(1) by simp
  have c': "bf_cap i ?t = ?n" "bf_max i ?t = ?sz" using I(1) by (simp_all add: bf_cap_def bf_max_def add_messages_def)
  have lm: "unat (of_nat (length m) :: u32) = length m" using u32_of_nat len bf_small(3) [OF inv] by simp
  have sizes: "unat (buffers_size_data ?t ! (i * ?n + j)) = (if j = unat ?w then length m else unat (buffers_size_data s ! (i * ?n + j)))"
    if "j < ?n" for j using lm bf_bounds(3) [OF inv w le0] by (simp add: nth_list_update)
  have "ring_indices ?n (unat (bf_read_index ?b)) ((unat ?w + 1) mod ?n) (nat (NB_MESSAGE (buffer_status ?b)) + 1)"
    using I(6) free by (auto simp: ring_indices_def mod_simps)
  moreover have nb: "nat (NB_MESSAGE (buffer_status (buffers ?t ! i))) = nat (NB_MESSAGE (buffer_status ?b)) + 1"
    using I(2) unfolding b' by (simp add: add_messages_def)
  ultimately have ri: "ring_indices ?n (unat (bf_read_index (buffers ?t ! i))) (unat (bf_write_index (buffers ?t ! i)))
      (nat (NB_MESSAGE (buffer_status (buffers ?t ! i))))"
    unfolding nb unfolding b' by (simp add: add_messages_def ix)
  have inv': "bf_inv i ?t"
    unfolding bf_inv_def Let_def c'
    using ri sizes I(2-5,7-12) len buf_write_length [OF d] I(1) by (simp add: b' add_messages_def del: upd_buf_frame(1)) (simp)
  have slot: "bf_slot i ?t j = (if j = unat ?w then m else bf_slot i s j)" if j: "j < ?n" for j
  proof -
    have rd: "buf_read d (?D + j * ?sz) (unat (buffers_size_data ?t ! (i * ?n + j))) = Some (bf_slot i ?t j)"
      using bf_slot_read [OF inv', unfolded c', OF j] by simp
    show ?thesis
    proof (cases "j = unat ?w")
      case True
      then show ?thesis using rd sizes [OF j] buf_read_write_same [OF d] by simp
    next
      case False
      have "?D + j * ?sz + unat (buffers_size_data s ! (i * ?n + j)) \<le> ?D + unat ?w * ?sz \<or>
          ?D + unat ?w * ?sz + length m \<le> ?D + j * ?sz"
        using slot_disjoint [OF False I(12) [OF j] len] by simp
      from buf_read_write_disjoint [OF d this] show ?thesis
        using False rd sizes [OF j] bf_slot_read [OF inv j] by simp
    qed
  qed
  show ?thesis using put inv' c' nb slot b'
    by (intro exI [of _ ?t]) (auto simp: bf_fits_def fun_eq_iff add_messages_def)
qed

lemma buffer_get_spec:
  assumes inv: "bf_inv i s" and some: "0 < nat (NB_MESSAGE (buffer_status (buffers s ! i)))"
  shows "\<exists>t. buffer_get i s = Inr (bf_slot i s (unat (bf_read_index (buffers s ! i))), t) \<and> bf_inv i t \<and>
    bf_cap i t = bf_cap i s \<and> unat (bf_read_index (buffers t ! i)) = (unat (bf_read_index (buffers s ! i)) + 1) mod bf_cap i s \<and>
    nat (NB_MESSAGE (buffer_status (buffers t ! i))) = nat (NB_MESSAGE (buffer_status (buffers s ! i))) - 1 \<and>
    bf_fits i t = bf_fits i s \<and> (\<forall>j < bf_cap i s. bf_slot i t j = bf_slot i s j)"
proof -
  note I = bf_inv_unfold [OF inv]
  let ?b = "buffers s ! i" and ?n = "bf_cap i s"
  let ?r = "bf_read_index ?b" and ?k = "nat (NB_MESSAGE (buffer_status (buffers s ! i)))"
  have r: "unat ?r < ?n" using I(6) by (auto simp: ring_indices_def)
  note ix = bf_index [OF inv r]
  let ?t = "upd_buf i (\<lambda>b. add_messages (-1) (b\<lparr>bf_read_index := next_index s i ?r\<rparr>)) s"
  have get: "buffer_get i s = Inr (bf_slot i s (unat ?r), ?t)"
    using bf_slot_read [OF inv r] bf_bounds(3) [OF inv r le0] word_of_cap [OF inv] by (simp add: buffer_get_def Let_def ix)
  have b': "buffers ?t ! i = add_messages (-1) (?b\<lparr>bf_read_index := next_index s i ?r\<rparr>)" using I(1) by simp
  have c': "bf_cap i ?t = ?n" "bf_max i ?t = bf_max i s" using I(1) by (simp_all add: bf_cap_def bf_max_def add_messages_def)
  have nb: "nat (NB_MESSAGE (buffer_status (buffers ?t ! i))) = ?k - 1" "0 \<le> NB_MESSAGE (buffer_status (buffers ?t ! i))"
    using some unfolding b' by (simp_all add: add_messages_def nat_diff_distrib)
  have "unat ?r + 1 + (?k - 1) = unat ?r + ?k" using some by simp
  then have "unat (bf_write_index ?b) = ((unat ?r + 1) mod ?n + (?k - 1)) mod ?n"
    using I(6) unfolding ring_indices_def by (metis mod_add_left_eq)
  then have ri: "ring_indices ?n (unat (bf_read_index (buffers ?t ! i))) (unat (bf_write_index (buffers ?t ! i)))
      (nat (NB_MESSAGE (buffer_status (buffers ?t ! i))))"
    using I(6) unfolding nb unfolding b' by (auto simp: add_messages_def ix ring_indices_def)
  have inv': "bf_inv i ?t"
    unfolding bf_inv_def Let_def c'
    using ri nb(2) I(3-5,7-12) I(1) by (simp add: b' add_messages_def del: upd_buf_frame(1)) simp
  show ?thesis using get inv' c' nb(1) b' ix(3)
    by (intro exI [of _ ?t]) (auto simp: bf_fits_def fun_eq_iff add_messages_def bf_slot_def)
qed

interpretation buffer_ring: ring "bf_cap i" "\<lambda>s. unat (bf_read_index (buffers s ! i))"
  "\<lambda>s. unat (bf_write_index (buffers s ! i))" "\<lambda>s. nat (NB_MESSAGE (buffer_status (buffers s ! i)))"
  "bf_slot i" "bf_inv i" "bf_fits i" "buffer_put i" "buffer_get i" for i
proof unfold_locales
  show "bf_inv i s \<Longrightarrow> ring_indices (bf_cap i s) (unat (bf_read_index (buffers s ! i))) (unat (bf_write_index (buffers s ! i)))
      (nat (NB_MESSAGE (buffer_status (buffers s ! i))))" for s by (rule bf_inv_unfold(6))
qed (use buffer_put_spec in fastforce, use buffer_get_spec in fastforce)

abbreviation bf_contents :: "nat \<Rightarrow> pcb_s \<Rightarrow> byte list list" where
  "bf_contents \<equiv> buffer_ring.contents"

section \<open>Properties\<close>

text \<open>A process \<open>r\<close> of the partition runs and may use buffer \<open>i\<close>.\<close>

definition buffer_user :: "pcb_s \<Rightarrow> nat \<Rightarrow> pref \<Rightarrow> bool" where
  "buffer_user s i r \<longleftrightarrow> bf_inv i s \<and> i < nat (buffer_count s) \<and> nat (buffer_count s) \<le> length (buffers s) \<and>
     (\<forall>k < nat (buffer_count s). buffer_id (buffers s ! k) = int k + 1) \<and>
     process_current s = Some r \<and> proc_heap s r \<noteq> None"

lemma find_buffer_by_id_eq:
  assumes "buffer_user s i r" shows "find_buffer_by_id s (int i + 1) = int i"
  using assms unfolding find_buffer_by_id_def buffer_user_def by (intro index_from_unique) auto

lemma buffer_user_current:
  assumes "buffer_user s i r" shows "with_current k s = k r (the (proc_heap s r))"
  using assms by (auto simp: buffer_user_def with_current_def with_proc_def)

text \<open>What the contents of a buffer depend on.\<close>

lemma bf_frame:
  assumes "buffer_status (buffers t ! i) = buffer_status (buffers s ! i)\<lparr>BF_WAITING_PROCESSES := n\<rparr>"
    and "bf_read_index (buffers t ! i) = bf_read_index (buffers s ! i)" "bf_write_index (buffers t ! i) = bf_write_index (buffers s ! i)"
    and "buffers_data t = buffers_data s" "buffers_size_data t = buffers_size_data s"
    and "max_buffer_data_size t = max_buffer_data_size s" "length (buffers t) = length (buffers s)"
  shows "bf_inv i t = bf_inv i s" "bf_contents i t = bf_contents i s" "bf_fits i t = bf_fits i s" "bf_cap i t = bf_cap i s"
proof -
  have c: "bf_cap i t = bf_cap i s" "bf_max i t = bf_max i s" using assms(1) by (simp_all add: bf_cap_def bf_max_def)
  then show "bf_cap i t = bf_cap i s" "bf_fits i t = bf_fits i s" by (simp_all add: bf_fits_def fun_eq_iff)
  show "bf_inv i t = bf_inv i s" using assms c by (simp add: bf_inv_def Let_def)
  have "bf_slot i t = bf_slot i s" using assms c by (simp add: bf_slot_def fun_eq_iff)
  then show "bf_contents i t = bf_contents i s" using assms c by simp
qed

text \<open>
  C18. First in, first out. When no process waits at a buffer that has room, \<open>SEND_BUFFER\<close>
  appends the message to its contents; when it is not empty and no writer waits,
  \<open>RECEIVE_BUFFER\<close> copies the first message to the address of the caller, returns its length
  and removes it. Neither blocks, and neither leaves the arrays.
\<close>

theorem buffer_fifo:
  assumes u: "buffer_user s i r" and d: "\<not> bad_delay up tmo"
  shows "(0 < len \<and> len < BF_MAX_MESSAGE_SIZE (buffer_status (buffers s ! i)) \<and> length (bf_contents i s) < bf_cap i s \<and>
      waiting_readers (buffers s ! i) = [] \<longrightarrow>
      (\<exists>t. SEND_BUFFER (int i + 1) ad len tmo up s = (t, Ret NO_ERROR NoOut) \<and> bf_inv i t \<and>
         bf_contents i t = bf_contents i s @ [mem_read (mem s) ad (nat len)])) \<and>
    (bf_contents i s = msg # rest \<and> waiting_writers (buffers s ! i) = [] \<longrightarrow>
      (\<exists>t. RECEIVE_BUFFER (int i + 1) tmo ad up s = (t, Ret NO_ERROR (OutLen (int (length msg)))) \<and> bf_inv i t \<and>
         bf_contents i t = rest \<and> mem_read (mem t) ad (length msg) = msg))"
proof (intro conjI impI)
  have inv: "bf_inv i s" using u by (simp add: buffer_user_def)
  note I = bf_inv_unfold [OF inv]
  {
    assume a: "0 < len \<and> len < BF_MAX_MESSAGE_SIZE (buffer_status (buffers s ! i)) \<and> length (bf_contents i s) < bf_cap i s \<and>
      waiting_readers (buffers s ! i) = []"
    then have free: "nat (NB_MESSAGE (buffer_status (buffers s ! i))) < bf_cap i s" by simp
    then have "NB_MESSAGE (buffer_status (buffers s ! i)) < MAX_NB_MESSAGE (buffer_status (buffers s ! i))"
      using I(2,4) by (simp add: bf_cap_def)
    moreover have "bf_fits i s (mem_read (mem s) ad (nat len))" using a by (simp add: bf_fits_def bf_max_def nat_mono)
    note buffer_ring.put_appends [OF inv free this]
    ultimately show "\<exists>t. SEND_BUFFER (int i + 1) ad len tmo up s = (t, Ret NO_ERROR NoOut) \<and> bf_inv i t \<and>
         bf_contents i t = bf_contents i s @ [mem_read (mem s) ad (nat len)]"
      using a d by (auto simp: SEND_BUFFER_def find_buffer_by_id_eq [OF u] buffer_user_current [OF u] Let_def)
  next
    assume a: "bf_contents i s = msg # rest \<and> waiting_writers (buffers s ! i) = []"
    then have pos: "0 < nat (NB_MESSAGE (buffer_status (buffers s ! i)))"
      by (metis length_greater_0_conv length_ring_contents list.distinct(1))
    from buffer_ring.get_takes [OF inv pos] a obtain t where
      t: "buffer_get i s = Inr (msg, t)" "bf_inv i t" "bf_contents i t = rest" by auto
    let ?t = "t\<lparr>mem := mem_write (mem s) ad msg\<rparr>"
    have f: "bf_inv i ?t" "bf_contents i ?t = rest"
      using t(2,3) bf_frame [where t = ?t and s = t and i = i and n = "BF_WAITING_PROCESSES (buffer_status (buffers t ! i))"] by simp_all
    have "RECEIVE_BUFFER (int i + 1) tmo ad up s = (?t, Ret NO_ERROR (OutLen (int (length msg))))"
      using a d t(1) pos by (simp add: RECEIVE_BUFFER_def find_buffer_by_id_eq [OF u] buffer_user_current [OF u] Let_def)
    with f show "\<exists>t. RECEIVE_BUFFER (int i + 1) tmo ad up s = (t, Ret NO_ERROR (OutLen (int (length msg)))) \<and> bf_inv i t \<and>
         bf_contents i t = rest \<and> mem_read (mem t) ad (length msg) = msg"
      by (intro exI [of _ ?t]) simp
  }
qed

text \<open>
  A message for a waiting reader is handed over. When a process waits for a message,
  \<open>SEND_BUFFER\<close> writes the message at the address the first reader gave, makes it ready, takes
  it out of the queue and lets the partition schedule; the contents of the buffer do not
  change, and the reader returns \<open>NO_ERROR\<close> with the length of the message.
\<close>

theorem SEND_BUFFER_hands_over:
  assumes u: "buffer_user s i r" and "\<not> bad_delay up tmo"
    and "0 < len" and "len < BF_MAX_MESSAGE_SIZE (buffer_status (buffers s ! i))"
    and "length (bf_contents i s) < bf_cap i s"
    and "waiting_readers (buffers s ! i) = w # ws" and "w \<noteq> r" and "proc_heap s w = Some pw" and "time_counter pw \<noteq> 0 \<or> k = RP_RECEIVE_BUFFER_INF"
    and "k \<in> {RP_RECEIVE_BUFFER_INF, RP_RECEIVE_BUFFER_TMO}"
  shows "\<exists>t p. SEND_BUFFER (int i + 1) ad len tmo up s = (t, Yield) \<and> bf_contents i t = bf_contents i s \<and>
    waiting_readers (buffers t ! i) = ws \<and> proc_heap t w = Some p \<and> pstate p = READY \<and>
    mem_read (mem t) (waiting_message_addr pw) (nat len) = mem_read (mem s) ad (nat len) \<and>
    resume_buffer k p = Ret NO_ERROR (OutLen len)"
proof -
  have inv: "bf_inv i s" using u by (simp add: buffer_user_def)
  note I = bf_inv_unfold [OF inv]
  have "nat (NB_MESSAGE (buffer_status (buffers s ! i))) < bf_cap i s" using assms(5) by simp
  then have free: "NB_MESSAGE (buffer_status (buffers s ! i)) < MAX_NB_MESSAGE (buffer_status (buffers s ! i))"
    using I(2,4) by (simp add: bf_cap_def)
  let ?msg = "mem_read (mem s) ad (nat len)"
  let ?t = "fst (yield_to_partition RP_SEND_BUFFER_WOKE r
     (wake_process (\<lambda>p. p\<lparr>waiting_message_size := len, waiting_buffer := None\<rparr>) w
       (upd_buf i reader_serve (s\<lparr>mem := mem_write (mem s) (waiting_message_addr pw) ?msg\<rparr>))))"
  let ?p = "(set_state READY (stop_timeout pw))\<lparr>waiting_message_size := len, waiting_buffer := None\<rparr>"
  have send: "SEND_BUFFER (int i + 1) ad len tmo up s = (?t, Yield)"
    using assms(2-4,6,8) free
    by (simp add: SEND_BUFFER_def find_buffer_by_id_eq [OF u] buffer_user_current [OF u] Let_def with_proc_def yield_to_partition_def)
  have t: "buffers ?t = (buffers s)[i := reader_serve (buffers s ! i)]" "proc_heap ?t w = Some ?p"
    "mem ?t = mem_write (mem s) (waiting_message_addr pw) ?msg"
    using assms(7,8) by (simp_all add: yield_to_partition_def)
  have "bf_contents i ?t = bf_contents i s"
    by (rule bf_frame(2)) (use I(1) in \<open>simp_all add: yield_to_partition_def reader_serve_def add_waiting_def wake_process_def\<close>)
  moreover have "waiting_readers (buffers ?t ! i) = ws" using t(1) I(1) assms(6) by (simp add: reader_serve_def add_waiting_def)
  moreover have "mem_read (mem ?t) (waiting_message_addr pw) (nat len) = ?msg" unfolding t(3) by (rule mem_read_write_len) simp
  moreover have "resume_buffer k ?p = Ret NO_ERROR (OutLen len)"
    using assms(9,10) by (auto simp: resume_buffer_def stop_timeout_def)
  ultimately show ?thesis using send t(2) by (intro exI [of _ ?t] exI [of _ ?p]) simp
qed

text \<open>
  A blocked writer takes the place a read makes. \<open>RECEIVE_BUFFER\<close> on a buffer with
  blocked writers returns the first message to the caller, appends the message of the first
  writer to the rest, and makes that writer ready, so that messages leave the buffer in the
  order in which their senders were accepted or queued. The two areas of memory must not
  overlap.
\<close>

theorem RECEIVE_BUFFER_admits_writer:
  assumes u: "buffer_user s i r" and "\<not> bad_delay up tmo" and contents: "bf_contents i s = msg # rest"
    and "waiting_writers (buffers s ! i) = w # ws" and "w \<noteq> r" and pw: "proc_heap s w = Some pw"
    and size: "nat (waiting_message_size pw) \<le> bf_max i s"
    and disj: "ad + length msg \<le> waiting_message_addr pw \<or> waiting_message_addr pw + nat (waiting_message_size pw) \<le> ad"
  shows "\<exists>t p. RECEIVE_BUFFER (int i + 1) tmo ad up s = (t, Yield) \<and> bf_inv i t \<and>
    bf_contents i t = rest @ [mem_read (mem s) (waiting_message_addr pw) (nat (waiting_message_size pw))] \<and>
    mem_read (mem t) ad (length msg) = msg \<and> waiting_writers (buffers t ! i) = ws \<and>
    proc_heap t w = Some p \<and> pstate p = READY \<and> tcb_ctx (tcb (the (proc_heap t r))) = Ctx_Resume (RP_RECEIVE_BUFFER_WOKE (int (length msg)))"
proof -
  have inv: "bf_inv i s" using u by (simp add: buffer_user_def)
  let ?m = "mem_read (mem s) (waiting_message_addr pw) (nat (waiting_message_size pw))"
  have pos: "0 < nat (NB_MESSAGE (buffer_status (buffers s ! i)))"
    using contents by (metis length_greater_0_conv length_ring_contents list.distinct(1))
  from buffer_ring.get_takes [OF inv pos] contents obtain s' where
    s': "buffer_get i s = Inr (msg, s')" "bf_inv i s'" "bf_cap i s' = bf_cap i s" "bf_fits i s' = bf_fits i s" "bf_contents i s' = rest"
    by auto
  from s'(1) have shape: "s' = upd_buf i (\<lambda>b. add_messages (-1) (b\<lparr>bf_read_index := next_index s i (bf_read_index (buffers s ! i))\<rparr>)) s"
    by (auto simp: buffer_get_def Let_def split: if_splits option.splits)
  let ?s1 = "s'\<lparr>mem := mem_write (mem s) ad msg\<rparr>"
  have il: "i < length (buffers s')" by (rule bf_inv_unfold(1) [OF s'(2)])
  have other: "mem_read (mem_write (mem s) ad msg) (waiting_message_addr pw) (nat (waiting_message_size pw)) = ?m"
    using disj by (auto simp: mem_read_def mem_write_def)
  let ?s2 = "upd_buf i writer_serve ?s1"
  have f: "bf_inv i ?s2" "bf_contents i ?s2 = rest" "bf_fits i ?s2 = bf_fits i s" "bf_cap i ?s2 = bf_cap i s"
    using bf_frame [where t = ?s2 and s = s' and i = i and n = "BF_WAITING_PROCESSES (buffer_status (buffers s' ! i)) - 1"] s' il
    by (simp_all add: writer_serve_def add_waiting_def)
  have "length (bf_contents i s) \<le> bf_cap i s" using bf_inv_unfold(6) [OF inv] by (simp add: ring_indices_def)
  moreover have "nat (NB_MESSAGE (buffer_status (buffers ?s2 ! i))) = length rest" using f(2) by (metis length_ring_contents)
  ultimately have free: "nat (NB_MESSAGE (buffer_status (buffers ?s2 ! i))) < bf_cap i ?s2" using contents f(4) by simp
  have "bf_fits i ?s2 ?m" unfolding f(3) using size by (simp add: bf_fits_def)
  from buffer_ring.put_appends [OF f(1) free this] obtain s3 where
    s3: "buffer_put i ?m ?s2 = Inr s3" "bf_inv i s3" "bf_contents i s3 = rest @ [?m]" unfolding f(2) by auto
  from s3(1) have shape3: "\<exists>d z k. s3 = upd_buf i (\<lambda>b. add_messages 1 (b\<lparr>bf_write_index := k\<rparr>)) (?s2\<lparr>buffers_data := d, buffers_size_data := z\<rparr>)"
    by (auto simp: buffer_put_def Let_def split: if_splits option.splits)
  then have fr: "mem s3 = mem_write (mem s) ad msg" "proc_heap s3 = proc_heap s" "waiting_writers (buffers s3 ! i) = ws"
    using il assms(4) by (auto simp: shape writer_serve_def add_messages_def add_waiting_def)
  let ?t = "fst (yield_to_partition (RP_RECEIVE_BUFFER_WOKE (int (length msg))) r (wake_process (\<lambda>p. p\<lparr>waiting_buffer := None\<rparr>) w s3))"
  have "proc_heap ?s1 w = Some pw" by (simp add: shape pw)
  then have rcv: "RECEIVE_BUFFER (int i + 1) tmo ad up s = (?t, Yield)"
    using assms(2,4) pos s'(1) s3(1) other
    by (simp add: RECEIVE_BUFFER_def find_buffer_by_id_eq [OF u] buffer_user_current [OF u] Let_def with_proc_def yield_to_partition_def)
  have ft: "bf_inv i ?t" "bf_contents i ?t = rest @ [?m]"
    using bf_frame [where t = ?t and s = s3 and i = i and n = "BF_WAITING_PROCESSES (buffer_status (buffers s3 ! i))"] s3(2,3)
    by (simp_all add: yield_to_partition_def wake_process_def)
  have "proc_heap ?t w = Some ((set_state READY (stop_timeout pw))\<lparr>waiting_buffer := None\<rparr>)"
    "tcb_ctx (tcb (the (proc_heap ?t r))) = Ctx_Resume (RP_RECEIVE_BUFFER_WOKE (int (length msg)))"
    "mem ?t = mem_write (mem s) ad msg" "waiting_writers (buffers ?t ! i) = ws"
    using fr pw assms(5) u by (auto simp: yield_to_partition_def buffer_user_def)
  then show ?thesis using rcv ft by (intro exI [of _ ?t] exI [of _ "(set_state READY (stop_timeout pw))\<lparr>waiting_buffer := None\<rparr>"]) simp
qed

lemma buffer_put_shape:
  assumes inv: "bf_inv i s" and put: "buffer_put i m s = Inr t" and fits: "bf_fits i s m"
  obtains d where "buf_write (buffers_data s) (i * nat (max_buffer_data_size s) + unat (bf_write_index (buffers s ! i)) * bf_max i s) m = Some d"
    "unat (bf_write_index (buffers s ! i)) < bf_cap i s"
    "t = upd_buf i (\<lambda>b. add_messages 1 (b\<lparr>bf_write_index := next_index s i (bf_write_index (buffers s ! i))\<rparr>))
       (s\<lparr>buffers_data := d, buffers_size_data :=
         (buffers_size_data s)[i * bf_cap i s + unat (bf_write_index (buffers s ! i)) := of_nat (length m)]\<rparr>)"
proof -
  have w: "unat (bf_write_index (buffers s ! i)) < bf_cap i s"
    using bf_inv_unfold(6) [OF inv] by (auto simp: ring_indices_def)
  show ?thesis using put bf_index [OF inv w] that w
    by (auto simp: buffer_put_def Let_def split: if_splits option.splits)
qed

text \<open>Buffers with equally many places keep their messages apart.\<close>

lemma buffer_put_other:
  assumes inv: "bf_inv i s" "bf_inv j s" and "i \<noteq> j" and cap: "bf_cap i s = bf_cap j s"
    and fits: "bf_fits i s m" and put: "buffer_put i m s = Inr t"
  shows "bf_contents j t = bf_contents j s"
proof -
  let ?D = "nat (max_buffer_data_size s)" and ?n = "bf_cap j s" and ?w = "unat (bf_write_index (buffers s ! i))"
  obtain d where d: "buf_write (buffers_data s) (i * ?D + ?w * bf_max i s) m = Some d" and w: "?w < bf_cap i s"
    and t: "t = upd_buf i (\<lambda>b. add_messages 1 (b\<lparr>bf_write_index := next_index s i (bf_write_index (buffers s ! i))\<rparr>))
       (s\<lparr>buffers_data := d, buffers_size_data := (buffers_size_data s)[i * bf_cap i s + ?w := of_nat (length m)]\<rparr>)"
    using buffer_put_shape [OF inv(1) put fits] .
  have b: "buffers t ! j = buffers s ! j" using \<open>i \<noteq> j\<close> by (simp add: t)
  then have c: "bf_cap j t = ?n" "bf_max j t = bf_max j s" by (simp_all add: bf_cap_def bf_max_def)
  have td: "buffers_data t = d" "max_buffer_data_size t = max_buffer_data_size s" by (simp_all add: t)
  have m: "?w * bf_max i s + length m \<le> ?D" using bf_bounds(2) [OF inv(1) w] fits by (simp add: bf_fits_def)
  have "bf_slot j t k = bf_slot j s k" if k: "k < ?n" for k
  proof -
    let ?z = "unat (buffers_size_data s ! (j * ?n + k))"
    have "j * ?n + (k + 1) \<le> i * ?n \<or> i * ?n + (?w + 1) \<le> j * ?n"
      using slot_disjoint [of j i "k + 1" ?n "?w + 1"] \<open>i \<noteq> j\<close> k w cap by simp
    then have z: "buffers_size_data t ! (j * ?n + k) = buffers_size_data s ! (j * ?n + k)"
      using cap by (auto simp: t)
    have kz: "k * bf_max j s + ?z \<le> ?D" by (rule bf_bounds(2) [OF inv(2) k bf_inv_unfold(12) [OF inv(2) k]])
    from slot_disjoint [OF _ kz m, of j i] \<open>i \<noteq> j\<close>
    have "j * ?D + k * bf_max j s + ?z \<le> i * ?D + ?w * bf_max i s \<or> i * ?D + ?w * bf_max i s + length m \<le> j * ?D + k * bf_max j s"
      by linarith
    from buf_read_write_disjoint [OF d this] bf_slot_read [OF inv(2) k]
    have "buf_read d (j * ?D + k * bf_max j s) ?z = Some (bf_slot j s k)" by simp
    then show ?thesis using z by (auto simp: bf_slot_def c td buf_read_def split: if_splits)
  qed
  moreover have "0 < ?n" using bf_inv_unfold(6) [OF inv(2)] by (simp add: ring_indices_def)
  ultimately show ?thesis using b c by (simp add: ring_contents_def)
qed

text \<open>
  C25. Isolation of buffers. Between two buffers created with the same number of places,
  \<open>SEND_BUFFER\<close> on one leaves the contents of the other alone, on every path: error, direct
  hand-over, store and block.
\<close>

theorem buffer_isolation:
  assumes u: "buffer_user s i r" and inv: "bf_inv j s" and "i \<noteq> j" and cap: "bf_cap i s = bf_cap j s"
  shows "bf_contents j (fst (SEND_BUFFER (int i + 1) ad len tmo up s)) = bf_contents j s"
proof -
  have invi: "bf_inv i s" using u by (simp add: buffer_user_def)
  let ?m = "mem_read (mem s) ad (nat len)"
  have put: "bf_contents j t = bf_contents j s" if "buffer_put i ?m s = Inr t" "len < BF_MAX_MESSAGE_SIZE (buffer_status (buffers s ! i))" for t
    by (rule buffer_put_other [OF invi inv \<open>i \<noteq> j\<close> cap _ that(1)]) (use that(2) in \<open>auto simp: bf_fits_def bf_max_def intro: nat_mono\<close>)
  have frame: "bf_contents j t = bf_contents j s"
    if "buffers t ! j = buffers s ! j" "buffers_data t = buffers_data s" "buffers_size_data t = buffers_size_data s"
      "max_buffer_data_size t = max_buffer_data_size s" "length (buffers t) = length (buffers s)" for t
    by (rule bf_frame(2) [where n = "BF_WAITING_PROCESSES (buffer_status (buffers s ! j))"]) (use that in simp_all)
  have block: "bf_contents j (fst (block_on_buffer k_inf k_tmo i tmo up f e r s)) = bf_contents j s" for k_inf k_tmo f e
    by (rule frame) (use \<open>i \<noteq> j\<close> in \<open>simp_all add: block_on_buffer_def Let_def yield_to_partition_def start_timeout_def\<close>)
  have wake: "bf_contents j (fst (yield_to_partition k r (wake_process g w (upd_buf i reader_serve (s\<lparr>mem := x\<rparr>))))) = bf_contents j s" for k g w x
    by (rule frame) (use \<open>i \<noteq> j\<close> in \<open>simp_all add: yield_to_partition_def wake_process_def\<close>)
  show ?thesis
    unfolding SEND_BUFFER_def find_buffer_by_id_eq [OF u] buffer_user_current [OF u] Let_def with_proc_def
    using put block wake by (auto split: list.split option.split sum.split)
qed

text \<open>
  Buffers of different capacity are not isolated. The place of a length is computed
  from the number of places of the buffer itself, so the ranges of two buffers overlap. When
  buffer 1 has fewer places than buffer 0 and its next place falls on the place buffer 0 reads
  next, a message sent to buffer 1 makes the next \<open>RECEIVE_BUFFER\<close> on buffer 0 return the
  length of that message instead of the length of its own.
\<close>

theorem buffers_share_lengths:
  assumes u: "buffer_user s 1 r" and inv: "bf_inv 0 s" and "\<not> bad_delay up 0"
    and len: "0 < len" "len < BF_MAX_MESSAGE_SIZE (buffer_status (buffers s ! 1))" "nat len \<le> bf_max 0 s"
    and "length (bf_contents 1 s) < bf_cap 1 s" and "waiting_readers (buffers s ! 1) = []"
    and "bf_contents 0 s \<noteq> []" and "waiting_writers (buffers s ! 0) = []"
    and place: "unat (bf_read_index (buffers s ! 0)) = bf_cap 1 s + unat (bf_write_index (buffers s ! 1))"
  shows "\<exists>t u. SEND_BUFFER 2 ad len 0 up s = (t, Ret NO_ERROR NoOut) \<and>
    RECEIVE_BUFFER 1 0 dst up t = (u, Ret NO_ERROR (OutLen len))"
proof -
  have inv1: "bf_inv 1 s" using u by (simp add: buffer_user_def)
  let ?m = "mem_read (mem s) ad (nat len)" and ?k = "unat (bf_read_index (buffers s ! 0))"
  have fits: "bf_fits 1 s ?m" using len by (auto simp: bf_fits_def bf_max_def intro: nat_mono)
  have free: "nat (NB_MESSAGE (buffer_status (buffers s ! 1))) < bf_cap 1 s" using assms(7) by simp
  from buffer_ring.put_appends [OF inv1 free fits] obtain t where put: "buffer_put 1 ?m s = Inr t" by blast
  obtain d where d: "buf_write (buffers_data s) (1 * nat (max_buffer_data_size s) + unat (bf_write_index (buffers s ! 1)) * bf_max 1 s) ?m = Some d"
    and t: "t = upd_buf 1 (\<lambda>b. add_messages 1 (b\<lparr>bf_write_index := next_index s 1 (bf_write_index (buffers s ! 1))\<rparr>))
       (s\<lparr>buffers_data := d, buffers_size_data := (buffers_size_data s)[1 * bf_cap 1 s + unat (bf_write_index (buffers s ! 1)) := of_nat (length ?m)]\<rparr>)"
    using buffer_put_shape [OF inv1 put fits] by metis
  have send: "SEND_BUFFER 2 ad len 0 up s = (t, Ret NO_ERROR NoOut)"
    using len(1,2) free assms(3,8) put find_buffer_by_id_eq [OF u] bf_inv_unfold(2,4) [OF inv1]
    by (simp add: SEND_BUFFER_def buffer_user_current [OF u] Let_def bf_cap_def)
  have k: "?k < bf_cap 0 s" using bf_inv_unfold(6) [OF inv] by (simp add: ring_indices_def)
  have lm: "unat (of_nat (length ?m) :: u32) = nat len" using u32_of_nat [of "nat len"] len(3) bf_small(3) [OF inv] by simp
  have b: "buffers t ! 0 = buffers s ! 0" by (simp add: t)
  then have c: "bf_cap 0 t = bf_cap 0 s" "bf_max 0 t = bf_max 0 s" by (simp_all add: bf_cap_def bf_max_def)
  have at: "unat (buffers_size_data t ! ?k) = nat len"
    using lm place bf_bounds(3) [OF inv k le0] by (simp add: t)
  have sz: "unat (buffers_size_data t ! j) \<le> bf_max 0 s" if j: "j < bf_cap 0 s" for j
    using at len(3) bf_inv_unfold(12) [OF inv j] place by (cases "j = ?k") (simp_all add: t)
  have tl: "length (buffers_data t) = length (buffers_data s)" "length (buffers_size_data t) = length (buffers_size_data s)"
    "max_buffer_data_size t = max_buffer_data_size s" "length (buffers t) = length (buffers s)"
    using buf_write_length [OF d] by (simp_all add: t)
  have inv0: "bf_inv 0 t" using inv sz unfolding bf_inv_def Let_def b c tl by simp
  have ut: "buffer_user t 0 r"
    using u inv0 by (auto simp: buffer_user_def t nth_list_update add_messages_def)
  have pos: "0 < nat (NB_MESSAGE (buffer_status (buffers t ! 0)))"
    using assms(9) by (metis b length_greater_0_conv length_ring_contents)
  from buffer_get_spec [OF inv0 pos] obtain v where v: "buffer_get 0 t = Inr (bf_slot 0 t ?k, v)" unfolding b by blast
  have "length (bf_slot 0 t ?k) = nat len"
    using buf_read_length [OF bf_slot_read [OF inv0, of ?k]] k at by (simp add: c)
  then have "\<exists>w. RECEIVE_BUFFER 1 0 dst up t = (w, Ret NO_ERROR (OutLen len))"
    using v pos assms(3,10) len(1) find_buffer_by_id_eq [OF ut]
    by (simp add: RECEIVE_BUFFER_def buffer_user_current [OF ut] Let_def b)
  with send show ?thesis by blast
qed

section \<open>Evaluated instances\<close>

definition sample_buf :: "int \<Rightarrow> int \<Rightarrow> int \<Rightarrow> u32 \<Rightarrow> pref list \<Rightarrow> pref list \<Rightarrow> buffer_s" where
  "sample_buf i places nb rd readers writers = \<lparr>buffer_name = ''B'', buffer_id = i,
     buffer_status = \<lparr>NB_MESSAGE = nb, MAX_NB_MESSAGE = places, BF_MAX_MESSAGE_SIZE = 4,
       BF_WAITING_PROCESSES = int (length readers + length writers)\<rparr>,
     bf_queuing_discipline = FIFO, bf_read_index = rd, bf_write_index = (rd + word_of_int nb) mod word_of_int places,
     waiting_readers = readers, waiting_writers = writers\<rparr>"

text \<open>Buffer 0 has two places; the second message of its share of the data is \<open>[5, 6]\<close>.\<close>

definition sample_buffers :: "buffer_s \<Rightarrow> buffer_s \<Rightarrow> pcb_s" where
  "sample_buffers b0 b1 = sample_three\<lparr>buffers := [b0, b1], buffer_count := 2, max_buffer_data_size := 8,
     buffers_data := [3, 0, 0, 0, 5, 6, 0, 0, 0, 0, 0, 0, 0, 0, 0, 0], buffers_size_data := [1, 2, 0, 0],
     mem := (\<lambda>x. of_nat x)\<rparr>"

lemma sample_buffers_sel [simp]:
  "buffers (sample_buffers b0 b1) = [b0, b1]" "buffer_count (sample_buffers b0 b1) = 2"
  "max_buffer_data_size (sample_buffers b0 b1) = 8" "buffers_size_data (sample_buffers b0 b1) = [1, 2, 0, 0]"
  "buffers_data (sample_buffers b0 b1) = [3, 0, 0, 0, 5, 6, 0, 0, 0, 0, 0, 0, 0, 0, 0, 0]"
  "mem (sample_buffers b0 b1) = (\<lambda>x. of_nat x)" "process_current (sample_buffers b0 b1) = Some 1"
  "proc_heap (sample_buffers b0 b1) = proc_heap sample_three"
  by (simp_all add: sample_buffers_def sample_three_def)

lemmas sample_buf_eval = bf_inv_def bf_cap_def bf_max_def sample_buf_def ring_indices_def nth_Cons ring_contents_def
  bf_slot_def buffer_user_def sample_three_def

lemma sample_delay: "\<not> bad_delay 0 0"
  by (simp add: bad_delay_def time_overflow_def MAX_SYSTEM_TIME_def u64_of_def)

lemma less_two: "j < (2 :: nat) \<longleftrightarrow> j = 0 \<or> j = 1"
  by auto

theorem buffer_fifo_witness:
  "(\<exists>t. SEND_BUFFER 1 10 2 0 0 (sample_buffers (sample_buf 1 2 1 0 [] []) (sample_buf 2 2 0 0 [] [])) = (t, Ret NO_ERROR NoOut) \<and>
     bf_contents 0 t = [[3], [10, 11]]) \<and>
   (\<exists>t. RECEIVE_BUFFER 1 0 20 0 (sample_buffers (sample_buf 1 2 1 0 [] []) (sample_buf 2 2 0 0 [] [])) = (t, Ret NO_ERROR (OutLen 1)) \<and>
     bf_contents 0 t = [] \<and> mem_read (mem t) 20 1 = [3])"
proof -
  let ?s = "sample_buffers (sample_buf 1 2 1 0 [] []) (sample_buf 2 2 0 0 [] [])"
  have u: "buffer_user ?s 0 1" by (auto simp: sample_buf_eval Let_def less_two)
  have c: "bf_contents 0 ?s = [[3]]" by (simp add: sample_buf_eval)
  have l: "length (bf_contents 0 ?s) < bf_cap 0 ?s" by (simp add: sample_buf_def bf_cap_def)
  have p: "0 < (2 :: int) \<and> 2 < BF_MAX_MESSAGE_SIZE (buffer_status (buffers ?s ! 0)) \<and> length (bf_contents 0 ?s) < bf_cap 0 ?s \<and>
      waiting_readers (buffers ?s ! 0) = []" by (intro conjI l) (simp_all add: sample_buf_def)
  have q: "bf_contents 0 ?s = [3] # [] \<and> waiting_writers (buffers ?s ! 0) = []" by (intro conjI c) (simp add: sample_buf_def)
  have m: "mem_read (mem ?s) 10 (nat 2) = [10, 11]" by (simp add: mem_read_def upt_rec)
  from mp [OF conjunct1 [OF buffer_fifo [OF u sample_delay]] p, of 10] have
    "\<exists>t. SEND_BUFFER 1 10 2 0 0 ?s = (t, Ret NO_ERROR NoOut) \<and> bf_contents 0 t = [[3], [10, 11]]"
    unfolding c m by auto
  moreover from mp [OF conjunct2 [OF buffer_fifo [OF u sample_delay]] q, of 20] have
    "\<exists>t. RECEIVE_BUFFER 1 0 20 0 ?s = (t, Ret NO_ERROR (OutLen 1)) \<and> bf_contents 0 t = [] \<and> mem_read (mem t) 20 1 = [3]"
    by auto
  ultimately show ?thesis by blast
qed

theorem SEND_BUFFER_hands_over_witness:
  "\<exists>t p. SEND_BUFFER 1 10 2 0 0 (sample_buffers (sample_buf 1 2 0 0 [2] []) (sample_buf 2 2 0 0 [] [])) = (t, Yield) \<and>
     waiting_readers (buffers t ! 0) = [] \<and> proc_heap t 2 = Some p \<and> pstate p = READY \<and> mem_read (mem t) 0 2 = [10, 11] \<and>
     resume_buffer RP_RECEIVE_BUFFER_INF p = Ret NO_ERROR (OutLen 2)"
proof -
  let ?s = "sample_buffers (sample_buf 1 2 0 0 [2] []) (sample_buf 2 2 0 0 [] [])"
  have u: "buffer_user ?s 0 1" by (auto simp: sample_buf_eval Let_def less_two)
  have st: "BF_MAX_MESSAGE_SIZE (buffer_status (buffers ?s ! 0)) = 4" "length (bf_contents 0 ?s) < bf_cap 0 ?s"
    "waiting_readers (buffers ?s ! 0) = [2]" "proc_heap ?s 2 = Some (sample_process 2 READY 20)"
    by (simp_all add: sample_buf_def bf_cap_def sample_three_def)
  have m: "mem_read (mem ?s) 10 (nat 2) = [10, 11]" by (simp add: mem_read_def upt_rec)
  have a: "waiting_message_addr (sample_process 2 READY 20) = 0" by (simp add: sample_process_def)
  from SEND_BUFFER_hands_over [OF u sample_delay _ _ st(2,3) _ st(4), of 2 RP_RECEIVE_BUFFER_INF 10]
  show ?thesis unfolding m a st by (auto simp: numeral_2_eq_2)
qed

theorem RECEIVE_BUFFER_admits_writer_witness:
  "\<exists>t p. RECEIVE_BUFFER 1 0 20 0 (sample_buffers (sample_buf 1 2 2 0 [] [2]) (sample_buf 2 2 0 0 [] [])) = (t, Yield) \<and>
     bf_contents 0 t = [[5, 6], []] \<and> mem_read (mem t) 20 1 = [3] \<and> proc_heap t 2 = Some p \<and> pstate p = READY"
proof -
  let ?s = "sample_buffers (sample_buf 1 2 2 0 [] [2]) (sample_buf 2 2 0 0 [] [])"
  have u: "buffer_user ?s 0 1" by (auto simp: sample_buf_eval Let_def less_two)
  have c: "bf_contents 0 ?s = [3] # [[5, 6]]" by (simp add: sample_buf_eval upt_rec)
  have st: "waiting_writers (buffers ?s ! 0) = [2]" "proc_heap ?s 2 = Some (sample_process 2 READY 20)"
    by (simp_all add: sample_buf_def sample_three_def)
  have a: "waiting_message_addr (sample_process 2 READY 20) = 0" "waiting_message_size (sample_process 2 READY 20) = 0"
    by (simp_all add: sample_process_def)
  from RECEIVE_BUFFER_admits_writer [OF u sample_delay c st(1) _ st(2), of 20]
  show ?thesis unfolding a by (auto simp: mem_read_def)
qed

theorem buffer_isolation_witness:
  "bf_contents 0 (fst (SEND_BUFFER 2 10 2 0 0 (sample_buffers (sample_buf 1 2 2 0 [] []) (sample_buf 2 2 0 0 [] [])))) = [[3], [5, 6]]"
proof -
  let ?s = "sample_buffers (sample_buf 1 2 2 0 [] []) (sample_buf 2 2 0 0 [] [])"
  have u: "buffer_user ?s 1 1" by (auto simp: sample_buf_eval Let_def less_two)
  have inv: "bf_inv 0 ?s" by (auto simp: sample_buf_eval Let_def less_two)
  have "bf_contents 0 ?s = [[3], [5, 6]]" by (simp add: sample_buf_eval upt_rec)
  moreover have "bf_cap 1 ?s = bf_cap 0 ?s" by (simp add: bf_cap_def sample_buf_def)
  ultimately show ?thesis using buffer_isolation [OF u inv, of 10 2 0 0] by simp
qed

theorem buffers_share_lengths_witness:
  "\<exists>t u. SEND_BUFFER 2 10 3 0 0 (sample_buffers (sample_buf 1 2 1 1 [] []) (sample_buf 2 1 0 0 [] [])) = (t, Ret NO_ERROR NoOut) \<and>
     RECEIVE_BUFFER 1 0 20 0 t = (u, Ret NO_ERROR (OutLen 3)) \<and>
     bf_contents 0 (sample_buffers (sample_buf 1 2 1 1 [] []) (sample_buf 2 1 0 0 [] [])) = [[5, 6]]"
proof -
  let ?s = "sample_buffers (sample_buf 1 2 1 1 [] []) (sample_buf 2 1 0 0 [] [])"
  have u: "buffer_user ?s 1 1" by (auto simp: sample_buf_eval Let_def less_two)
  have inv: "bf_inv 0 ?s" by (auto simp: sample_buf_eval Let_def less_two)
  have c: "bf_contents 0 ?s = [[5, 6]]" "bf_contents 1 ?s = []" by (simp_all add: sample_buf_eval)
  from buffers_share_lengths [OF u inv sample_delay, of 3 10 20] c show ?thesis
    by (simp add: sample_buf_def bf_cap_def bf_max_def)
qed

end
