(* ===== verification/Sampling_Port.thy ===== *)
theory Sampling_Port
  imports Waiting_Queue
begin

text \<open>
  Sampling ports, the first half of \<open>arinc/arinc_interpartition_communication.c\<close>. The table
  \<open>system_port_table\<close> of the configuration is the argument \<open>table\<close>; it ties a port name to a
  channel. The channels are the list \<open>chs\<close>, shared by the partitions; a port holds the
  position of its channel, \<open>None\<close> for a null pointer.

  The theory shows that a message written on a source port is what the destination ports of
  the channel read, as often as they like, until the next write, and that the validity
  tells whether it is older than the refresh period of the reading port.
\<close>

section \<open>Configuration\<close>

definition check_port_in_conf_table :: "port_mapping_s list \<Rightarrow> string \<Rightarrow> int" where
  "check_port_in_conf_table table PORT_NAME = index_from 0 (\<lambda>m. PORT_NAME = port_name m) table"

definition check_max_message_size_in_conf :: "port_mapping_s list \<Rightarrow> int \<Rightarrow> int \<Rightarrow> bool" where
  "check_max_message_size_in_conf table i sz \<longleftrightarrow> sz = messageSizeBytes (table ! nat i)"

definition check_port_direction_in_conf :: "port_mapping_s list \<Rightarrow> int \<Rightarrow> PORT_DIRECTION_TYPE \<Rightarrow> bool" where
  "check_port_direction_in_conf table i dir \<longleftrightarrow> dir = port_direction (table ! nat i)"

section \<open>Services\<close>

definition find_sampling_port_by_name :: "pcb_s \<Rightarrow> string \<Rightarrow> int" where
  "find_sampling_port_by_name s name =
     index_from 0 (\<lambda>p. sampling_port_name p = name) (take (nat (sampling_port_count s)) (sampling_ports s))"

definition find_sampling_port_by_id :: "pcb_s \<Rightarrow> int \<Rightarrow> int" where
  "find_sampling_port_by_id s i =
     index_from 0 (\<lambda>p. sampling_port_id p = i) (take (nat (sampling_port_count s)) (sampling_ports s))"

definition CREATE_SAMPLING_PORT :: "port_mapping_s list \<Rightarrow> string \<Rightarrow> int \<Rightarrow> int \<Rightarrow> int \<Rightarrow> u64 \<Rightarrow> service" where
  "CREATE_SAMPLING_PORT table NM MAX_MESSAGE_SZ PORT_DIR REFRESH up s =
     (if sampling_port_count s + 1 > max_sampling_ports s \<or> max_sampling_port_data_size s < MAX_MESSAGE_SZ
        then (s, Ret INVALID_CONFIG NoOut)
      else let index_conf_table = check_port_in_conf_table table NM in
        if index_conf_table = -1 then (s, Ret INVALID_CONFIG NoOut)
        else if find_sampling_port_by_name s NM \<noteq> -1 then (s, Ret NO_ACTION NoOut)
        else if MAX_MESSAGE_SZ \<le> 0 \<or> \<not> check_max_message_size_in_conf table index_conf_table MAX_MESSAGE_SZ
          then (s, Ret INVALID_CONFIG NoOut)
        else case decode_direction PORT_DIR of
          None \<Rightarrow> (s, Ret INVALID_CONFIG NoOut)
        | Some dir \<Rightarrow>
            if \<not> check_port_direction_in_conf table index_conf_table dir then (s, Ret INVALID_CONFIG NoOut)
            else if REFRESH < 0 \<or> time_overflow (up + u64_of REFRESH) then (s, Ret INVALID_CONFIG NoOut)
            else if OPERATING_MODE (status s) = NORMAL then (s, Ret INVALID_CONFIG NoOut)
            else if \<not> nat (sampling_port_count s) < length (sampling_ports s) then (s, Fault OutOfBounds)
            else let n = sampling_port_count s + 1 in
              (s\<lparr>sampling_ports := (sampling_ports s)[nat (sampling_port_count s) :=
                   \<lparr>sampling_port_name = take (MAX_NAME_LENGTH - 1) NM, sampling_port_id = n,
                    sp_partition_id = IDENTIFIER (status s),
                    sampling_port_status = \<lparr>REFRESH_PERIOD = REFRESH, SP_MAX_MESSAGE_SIZE = MAX_MESSAGE_SZ,
                      SP_PORT_DIRECTION = dir, LAST_MSG_VALIDITY = INVALID\<rparr>,
                    sp_channel = sampling_channel (table ! nat index_conf_table)\<rparr>],
                 sampling_port_count := n\<rparr>, Ret NO_ERROR (OutId n)))"

text \<open>The channel behind a port: a null or wild pointer is a fault.\<close>

definition with_channel :: "'c list \<Rightarrow> nat option \<Rightarrow> (nat \<Rightarrow> 'c \<Rightarrow> 'c list \<times> pcb_s \<times> outcome) \<Rightarrow>
    pcb_s \<Rightarrow> 'c list \<times> pcb_s \<times> outcome" where
  "with_channel chs ref k s =
     (case ref of None \<Rightarrow> (chs, s, Fault NullDeref)
      | Some c \<Rightarrow> if c < length chs then k c (chs ! c) else (chs, s, Fault OutOfBounds))"

definition WRITE_SAMPLING_MESSAGE :: "int \<Rightarrow> addr \<Rightarrow> int \<Rightarrow> u64 \<Rightarrow> krnl_sampling_channel list \<Rightarrow> pcb_s \<Rightarrow>
    krnl_sampling_channel list \<times> pcb_s \<times> outcome" where
  "WRITE_SAMPLING_MESSAGE SAMPLING_PORT_ID MESSAGE_ADDR LEN up chs s =
     (let index = find_sampling_port_by_id s SAMPLING_PORT_ID in
      if index = -1 then (chs, s, Ret INVALID_PARAM NoOut)
      else let port = sampling_ports s ! nat index in
        if LEN > SP_MAX_MESSAGE_SIZE (sampling_port_status port) then (chs, s, Ret INVALID_CONFIG NoOut)
        else if LEN \<le> 0 then (chs, s, Ret INVALID_PARAM NoOut)
        else if SP_PORT_DIRECTION (sampling_port_status port) \<noteq> SOURCE then (chs, s, Ret INVALID_MODE NoOut)
        else with_channel chs (sp_channel port) (\<lambda>c ch.
          case buf_write (sc_buffer ch) 0 (mem_read (mem s) MESSAGE_ADDR (nat LEN)) of
            None \<Rightarrow> (chs, s, Fault OutOfBounds)
          | Some d \<Rightarrow>
              (chs[c := ch\<lparr>sc_buffer := d, sc_current_message_size := LEN, last_update_time := i64_of up\<rparr>],
               s, Ret NO_ERROR NoOut)) s)"

definition set_validity :: "nat \<Rightarrow> VALIDITY_TYPE \<Rightarrow> pcb_s \<Rightarrow> pcb_s" where
  "set_validity i v s = s\<lparr>sampling_ports := (sampling_ports s)[i := (sampling_ports s ! i)\<lparr>
     sampling_port_status := (sampling_port_status (sampling_ports s ! i))\<lparr>LAST_MSG_VALIDITY := v\<rparr>\<rparr>]\<rparr>"

definition READ_SAMPLING_MESSAGE :: "int \<Rightarrow> addr \<Rightarrow> u64 \<Rightarrow> krnl_sampling_channel list \<Rightarrow> pcb_s \<Rightarrow>
    krnl_sampling_channel list \<times> pcb_s \<times> outcome" where
  "READ_SAMPLING_MESSAGE SAMPLING_PORT_ID MESSAGE_ADDR up chs s =
     (let index = find_sampling_port_by_id s SAMPLING_PORT_ID; i = nat index in
      if index = -1 then (chs, s, Ret INVALID_PARAM NoOut)
      else let port = sampling_ports s ! i in
        if SP_PORT_DIRECTION (sampling_port_status port) \<noteq> DESTINATION then (chs, s, Ret INVALID_MODE NoOut)
        else with_channel chs (sp_channel port) (\<lambda>c ch.
          if sc_current_message_size ch = 0
          then (chs, set_validity i INVALID s, Ret NO_ACTION (OutLenValidity 0 INVALID))
          else case buf_read (sc_buffer ch) 0 (nat (sc_current_message_size ch)) of
            None \<Rightarrow> (chs, s, Fault OutOfBounds)
          | Some msg \<Rightarrow>
              let v = (if i64_of up - last_update_time ch \<le> REFRESH_PERIOD (sampling_port_status port)
                       then VALID else INVALID)
              in (chs, set_validity i v (s\<lparr>mem := mem_write (mem s) MESSAGE_ADDR msg\<rparr>),
                  Ret NO_ERROR (OutLenValidity (sc_current_message_size ch) v))) s)"

definition GET_SAMPLING_PORT_ID :: "string \<Rightarrow> service" where
  "GET_SAMPLING_PORT_ID NM s =
     (let index = find_sampling_port_by_name s NM in
      if index = -1 then (s, Ret INVALID_CONFIG NoOut)
      else (s, Ret NO_ERROR (OutId (sampling_port_id (sampling_ports s ! nat index)))))"

definition GET_SAMPLING_PORT_STATUS :: "int \<Rightarrow> service" where
  "GET_SAMPLING_PORT_STATUS SAMPLING_PORT_ID s =
     (let index = find_sampling_port_by_id s SAMPLING_PORT_ID in
      if index = -1 then (s, Ret INVALID_PARAM NoOut)
      else (s, Ret NO_ERROR (OutSamplingStatus (sampling_port_status (sampling_ports s ! nat index)))))"

section \<open>Invariant\<close>

text \<open>
  Every port of the partition has a channel whose array holds its longest message, and the
  identifiers are the positions.
\<close>

definition sampling_inv :: "krnl_sampling_channel list \<Rightarrow> pcb_s \<Rightarrow> bool" where
  "sampling_inv chs s \<longleftrightarrow> 0 \<le> sampling_port_count s \<and> nat (sampling_port_count s) \<le> length (sampling_ports s) \<and>
     (\<forall>i < nat (sampling_port_count s). let port = sampling_ports s ! i in
        sampling_port_id port = int i + 1 \<and> 0 \<le> REFRESH_PERIOD (sampling_port_status port) \<and>
        (case sp_channel port of None \<Rightarrow> False
         | Some c \<Rightarrow> c < length chs \<and>
             SP_MAX_MESSAGE_SIZE (sampling_port_status port) \<le> int (length (sc_buffer (chs ! c)))))"

definition sampling_table_ok :: "port_mapping_s list \<Rightarrow> krnl_sampling_channel list \<Rightarrow> bool" where
  "sampling_table_ok table chs \<longleftrightarrow> (\<forall>m \<in> set table. case sampling_channel m of None \<Rightarrow> False
     | Some c \<Rightarrow> c < length chs \<and> messageSizeBytes m \<le> int (length (sc_buffer (chs ! c))))"

lemma find_sampling_port_by_id_eq:
  assumes "sampling_inv chs s" and "i < nat (sampling_port_count s)"
  shows "find_sampling_port_by_id s (int i + 1) = int i"
  using assms unfolding find_sampling_port_by_id_def sampling_inv_def
  by (intro index_from_unique) (auto simp: Let_def)

lemma sampling_inv_nth:
  assumes "sampling_inv chs s" and "i < nat (sampling_port_count s)"
  shows "\<exists>c. sp_channel (sampling_ports s ! i) = Some c \<and> c < length chs \<and>
    SP_MAX_MESSAGE_SIZE (sampling_port_status (sampling_ports s ! i)) \<le> int (length (sc_buffer (chs ! c)))"
  using assms by (auto simp: sampling_inv_def Let_def split: option.splits)

lemma sampling_inv_add:
  assumes "sampling_inv chs s" and "nat (sampling_port_count s) < length (sampling_ports s)"
    and "sampling_port_id port = sampling_port_count s + 1" and "0 \<le> REFRESH_PERIOD (sampling_port_status port)"
    and "sp_channel port = Some c" and "c < length chs"
    and "SP_MAX_MESSAGE_SIZE (sampling_port_status port) \<le> int (length (sc_buffer (chs ! c)))"
  shows "sampling_inv chs (s\<lparr>sampling_ports := (sampling_ports s)[nat (sampling_port_count s) := port],
    sampling_port_count := sampling_port_count s + 1\<rparr>)"
proof -
  have "0 \<le> sampling_port_count s" using assms(1) by (simp add: sampling_inv_def)
  then have "nat (sampling_port_count s + 1) = Suc (nat (sampling_port_count s))" by simp
  then show ?thesis using assms by (auto simp: sampling_inv_def nth_list_update less_Suc_eq Let_def)
qed

lemma sampling_table_nth:
  assumes "sampling_table_ok table chs" and "check_port_in_conf_table table NM \<noteq> -1"
  shows "\<exists>c. sampling_channel (table ! nat (check_port_in_conf_table table NM)) = Some c \<and> c < length chs \<and>
    messageSizeBytes (table ! nat (check_port_in_conf_table table NM)) \<le> int (length (sc_buffer (chs ! c)))"
proof -
  have "table ! nat (check_port_in_conf_table table NM) \<in> set table"
    using assms(2) index_from_found(1) [of "\<lambda>m. NM = port_name m" table] by (simp add: check_port_in_conf_table_def)
  with assms(1) show ?thesis by (auto simp: sampling_table_ok_def split: option.splits)
qed

lemma CREATE_SAMPLING_PORT_inv:
  assumes inv: "sampling_inv chs s" and tab: "sampling_table_ok table chs"
  shows "sampling_inv chs (fst (CREATE_SAMPLING_PORT table NM sz dir refresh up s))"
proof (cases "check_port_in_conf_table table NM = -1")
  case False
  from sampling_table_nth [OF tab this] obtain c where
    c: "sampling_channel (table ! nat (check_port_in_conf_table table NM)) = Some c" "c < length chs"
    "messageSizeBytes (table ! nat (check_port_in_conf_table table NM)) \<le> int (length (sc_buffer (chs ! c)))" by blast
  show ?thesis unfolding CREATE_SAMPLING_PORT_def
    by (simp add: Let_def inv c check_max_message_size_in_conf_def sampling_inv_add [OF inv] split: option.split)
qed (simp add: CREATE_SAMPLING_PORT_def inv)

section \<open>Properties\<close>

text \<open>
  C17. Sampling semantics across partitions. After a message of an accepted length is
  written on a source port of one partition, a destination port of the same channel in any
  partition reads exactly its bytes and length, \<open>VALID\<close> if and only if the message is not
  older than the refresh period of the reading port. Reading does not consume the message.
\<close>

theorem sampling_write_read:
  assumes "sampling_inv chs a" and "i < nat (sampling_port_count a)"
    and "SP_PORT_DIRECTION (sampling_port_status (sampling_ports a ! i)) = SOURCE"
    and "sampling_inv chs b" and "j < nat (sampling_port_count b)"
    and "SP_PORT_DIRECTION (sampling_port_status (sampling_ports b ! j)) = DESTINATION"
    and "sp_channel (sampling_ports a ! i) = sp_channel (sampling_ports b ! j)"
    and "0 < len" and "len \<le> SP_MAX_MESSAGE_SIZE (sampling_port_status (sampling_ports a ! i))"
  shows "\<exists>chs' b'. WRITE_SAMPLING_MESSAGE (int i + 1) src len up1 chs a = (chs', a, Ret NO_ERROR NoOut) \<and>
    READ_SAMPLING_MESSAGE (int j + 1) dst up2 chs' b = (chs', b', Ret NO_ERROR (OutLenValidity len
      (if i64_of up2 - i64_of up1 \<le> REFRESH_PERIOD (sampling_port_status (sampling_ports b ! j)) then VALID else INVALID))) \<and>
    mem_read (mem b') dst (nat len) = mem_read (mem a) src (nat len)"
proof -
  let ?m = "mem_read (mem a) src (nat len)"
  from sampling_inv_nth [OF assms(1,2)] obtain c where
    c: "sp_channel (sampling_ports a ! i) = Some c" "c < length chs"
    and fit: "SP_MAX_MESSAGE_SIZE (sampling_port_status (sampling_ports a ! i)) \<le> int (length (sc_buffer (chs ! c)))"
    by blast
  have "nat len \<le> length (sc_buffer (chs ! c))" using fit assms(8,9) by linarith
  then obtain d where d: "buf_write (sc_buffer (chs ! c)) 0 ?m = Some d" by (simp add: buf_write_def)
  let ?ch = "(chs ! c)\<lparr>sc_buffer := d, sc_current_message_size := len, last_update_time := i64_of up1\<rparr>"
  have w: "WRITE_SAMPLING_MESSAGE (int i + 1) src len up1 chs a = (chs[c := ?ch], a, Ret NO_ERROR NoOut)"
    using find_sampling_port_by_id_eq [OF assms(1,2)] assms(3,8,9) c d
    by (simp add: WRITE_SAMPLING_MESSAGE_def with_channel_def)
  have r: "buf_read d 0 (nat len) = Some ?m" using buf_read_write_same [OF d] by simp
  have cb: "sp_channel (sampling_ports b ! j) = Some c" using assms(7) c(1) by simp
  have read: "READ_SAMPLING_MESSAGE (int j + 1) dst up2 (chs[c := ?ch]) b =
      (chs[c := ?ch], set_validity j (if i64_of up2 - i64_of up1 \<le> REFRESH_PERIOD (sampling_port_status (sampling_ports b ! j))
          then VALID else INVALID) (b\<lparr>mem := mem_write (mem b) dst ?m\<rparr>),
       Ret NO_ERROR (OutLenValidity len
        (if i64_of up2 - i64_of up1 \<le> REFRESH_PERIOD (sampling_port_status (sampling_ports b ! j)) then VALID else INVALID)))"
    using find_sampling_port_by_id_eq [OF assms(4,5)] assms(6,8) cb c(2) r
    by (simp add: READ_SAMPLING_MESSAGE_def with_channel_def Let_def)
  have "mem_read (mem (set_validity j v (b\<lparr>mem := mem_write (mem b) dst ?m\<rparr>))) dst (nat len) = ?m" for v
    using mem_read_write_len [of "nat len" ?m] by (simp add: set_validity_def)
  with w read show ?thesis by blast
qed

definition sample_sampling :: "PORT_DIRECTION_TYPE \<Rightarrow> pcb_s" where
  "sample_sampling dir = sample_three\<lparr>sampling_ports := [\<lparr>sampling_port_name = ''T'', sampling_port_id = 1,
      sp_partition_id = 1, sampling_port_status = \<lparr>REFRESH_PERIOD = 200, SP_MAX_MESSAGE_SIZE = 4,
        SP_PORT_DIRECTION = dir, LAST_MSG_VALIDITY = INVALID\<rparr>, sp_channel = Some 0\<rparr>],
    sampling_port_count := 1, mem := (\<lambda>x. of_nat x)\<rparr>"

definition sample_channel :: krnl_sampling_channel where
  "sample_channel = \<lparr>sc_buffer = [0, 0, 0, 0], sc_max_message_size = 4, sc_current_message_size = 0,
     last_update_time = 0\<rparr>"

lemma sample_sampling_inv: "sampling_inv [sample_channel] (sample_sampling dir)"
  by (simp add: sampling_inv_def sample_sampling_def sample_channel_def)

theorem sampling_write_read_witness:
  "\<exists>chs' a' b'. WRITE_SAMPLING_MESSAGE 1 7 3 0 [sample_channel] (sample_sampling SOURCE) = (chs', a', Ret NO_ERROR NoOut) \<and>
     READ_SAMPLING_MESSAGE 1 100 150 chs' (sample_sampling DESTINATION) =
       (chs', b', Ret NO_ERROR (OutLenValidity 3 VALID)) \<and> mem_read (mem b') 100 3 = [7, 8, 9]"
proof -
  have s: "0 < nat (sampling_port_count (sample_sampling dir))"
    "SP_PORT_DIRECTION (sampling_port_status (sampling_ports (sample_sampling dir) ! 0)) = dir"
    "sp_channel (sampling_ports (sample_sampling dir) ! 0) = Some 0"
    "SP_MAX_MESSAGE_SIZE (sampling_port_status (sampling_ports (sample_sampling dir) ! 0)) = 4"
    "REFRESH_PERIOD (sampling_port_status (sampling_ports (sample_sampling dir) ! 0)) = 200"
    "mem (sample_sampling dir) = (\<lambda>x. of_nat x)" for dir
    by (simp_all add: sample_sampling_def)
  have t: "i64_of 150 - i64_of 0 = 150" by (simp add: i64_of_def)
  from sampling_write_read [OF sample_sampling_inv s(1,2) sample_sampling_inv s(1,2), of 3 7 0 100 150] s t
  show ?thesis by (auto simp: mem_read_def upt_rec)
qed

text \<open>
  Ports and configuration. A sampling port is created only in an initialisation mode,
  for a name of the configuration table with the configured size and direction; the new
  port then satisfies the invariant, so no later read or write leaves the array of its
  channel.
\<close>

theorem sampling_port_creation_safe:
  assumes "sampling_inv chs s" and "sampling_table_ok table chs"
  shows "sampling_inv chs (fst (CREATE_SAMPLING_PORT table NM sz dir refresh up s)) \<and>
    (snd (CREATE_SAMPLING_PORT table NM sz dir refresh up s) = Ret NO_ERROR (OutId k) \<longrightarrow>
       OPERATING_MODE (status s) \<noteq> NORMAL \<and> k = sampling_port_count s + 1 \<and> k \<le> max_sampling_ports s \<and>
       (\<exists>m \<in> set table. port_name m = NM \<and> messageSizeBytes m = sz \<and> decode_direction dir = Some (port_direction m)))"
proof
  show "sampling_inv chs (fst (CREATE_SAMPLING_PORT table NM sz dir refresh up s))"
    by (rule CREATE_SAMPLING_PORT_inv [OF assms])
  let ?t = "check_port_in_conf_table table NM"
  show "snd (CREATE_SAMPLING_PORT table NM sz dir refresh up s) = Ret NO_ERROR (OutId k) \<longrightarrow>
       OPERATING_MODE (status s) \<noteq> NORMAL \<and> k = sampling_port_count s + 1 \<and> k \<le> max_sampling_ports s \<and>
       (\<exists>m \<in> set table. port_name m = NM \<and> messageSizeBytes m = sz \<and> decode_direction dir = Some (port_direction m))"
  proof
    assume ok: "snd (CREATE_SAMPLING_PORT table NM sz dir refresh up s) = Ret NO_ERROR (OutId k)"
    then have g: "OPERATING_MODE (status s) \<noteq> NORMAL" "k = sampling_port_count s + 1" "k \<le> max_sampling_ports s"
      "?t \<noteq> -1" "sz = messageSizeBytes (table ! nat ?t)" "decode_direction dir = Some (port_direction (table ! nat ?t))"
      by (auto simp: CREATE_SAMPLING_PORT_def Let_def check_max_message_size_in_conf_def check_port_direction_in_conf_def
          split: if_splits option.splits)
    from index_from_found [of "\<lambda>m. NM = port_name m" table ?t] g(4)
    have "table ! nat ?t \<in> set table" "port_name (table ! nat ?t) = NM"
      by (auto simp: check_port_in_conf_table_def)
    with g show "OPERATING_MODE (status s) \<noteq> NORMAL \<and> k = sampling_port_count s + 1 \<and> k \<le> max_sampling_ports s \<and>
       (\<exists>m \<in> set table. port_name m = NM \<and> messageSizeBytes m = sz \<and> decode_direction dir = Some (port_direction m))"
      by metis
  qed
qed

definition sample_port_map :: port_mapping_s where
  "sample_port_map = \<lparr>pm_partition_id = 1, port_name = ''T'', port_direction = SOURCE, messageSizeBytes = 4,
     max_nb_message = 2, pm_QUEUING_DISCIPLINE = FIFO, refreshPeriodMs = 200, sampling_channel = Some 0,
     queuing_channel = Some 0\<rparr>"

definition sample_starting :: pcb_s where
  "sample_starting = sample_three\<lparr>status := (status sample_three)\<lparr>OPERATING_MODE := COLD_START\<rparr>,
     sampling_ports := sampling_ports (sample_sampling SOURCE), sampling_port_count := 0, max_sampling_ports := 1,
     max_sampling_port_data_size := 8\<rparr>"

theorem sampling_port_creation_safe_witness:
  "sampling_inv [sample_channel] (fst (CREATE_SAMPLING_PORT [sample_port_map] ''T'' 4 0 200 0 sample_starting)) \<and>
   snd (CREATE_SAMPLING_PORT [sample_port_map] ''T'' 4 0 200 0 sample_starting) = Ret NO_ERROR (OutId 1)"
proof -
  have tab: "sampling_table_ok [sample_port_map] [sample_channel]"
    by (simp add: sampling_table_ok_def sample_channel_def sample_port_map_def)
  have inv: "sampling_inv [sample_channel] sample_starting"
    by (simp add: sampling_inv_def sample_starting_def)
  have "snd (CREATE_SAMPLING_PORT [sample_port_map] ''T'' 4 0 200 0 sample_starting) = Ret NO_ERROR (OutId 1)"
    by (simp add: CREATE_SAMPLING_PORT_def sample_starting_def sample_sampling_def check_port_in_conf_table_def
        sample_port_map_def find_sampling_port_by_name_def check_max_message_size_in_conf_def decode_direction_def
        check_port_direction_in_conf_def time_overflow_def MAX_SYSTEM_TIME_def u64_of_def)
  with sampling_port_creation_safe [OF inv tab, of "''T''" 4 0 200 0 1] show ?thesis by blast
qed

end
