(* ===== verification/Queuing_Port.thy ===== *)
theory Queuing_Port
  imports Ring_Buffer Sampling_Port
begin

text \<open>
  Queuing ports, the second half of \<open>arinc/arinc_interpartition_communication.c\<close>, and
  \<open>check_available_resources_on_partition_port\<close> of \<open>arinc/arinc_partition.c\<close>, which wakes
  the processes blocked on a port. The channels are shared by the partitions and are the
  argument \<open>chs\<close> of the services.

  The theory shows that a channel is a bounded queue: seen through the ports of two
  partitions, the messages received are the messages accepted by the channel, in order and
  byte for byte. It gives the exact effect of the wake-up loop, and from it that a receiver
  with a timeout gets its message, that a receiver without one is told \<open>TIMED_OUT\<close>, and that
  a blocked sender is never woken.
\<close>

section \<open>Channels\<close>

text \<open>
  The five statements of \<open>SEND_QUEUING_MESSAGE\<close> and \<open>RECEIVE_QUEUING_MESSAGE\<close> that write
  and read a message, before and after the wait. All counters are \<open>uint32_t\<close>.
\<close>

definition chan_put :: "byte list \<Rightarrow> krnl_queuing_channel_s \<Rightarrow> fault + krnl_queuing_channel_s" where
  "chan_put msg ch =
     (let w = write_index ch in
      case buf_write (buffer_data ch) (unat (w * qc_max_message_size ch)) msg of
        None \<Rightarrow> Inl OutOfBounds
      | Some d \<Rightarrow>
          if \<not> unat w < length (buffer_sizes ch) then Inl OutOfBounds
          else if max_nb_messages ch = 0 then Inl DivByZero
          else Inr (ch\<lparr>current_nb_messages := current_nb_messages ch + 1, buffer_data := d,
                       buffer_sizes := (buffer_sizes ch)[unat w := of_nat (length msg)],
                       write_index := (w + 1) mod max_nb_messages ch\<rparr>))"

definition chan_get :: "krnl_queuing_channel_s \<Rightarrow> fault + byte list \<times> krnl_queuing_channel_s" where
  "chan_get ch =
     (let rd = read_index ch in
      if \<not> unat rd < length (buffer_sizes ch) then Inl OutOfBounds
      else case buf_read (buffer_data ch) (unat (rd * qc_max_message_size ch)) (unat (buffer_sizes ch ! unat rd)) of
        None \<Rightarrow> Inl OutOfBounds
      | Some msg \<Rightarrow>
          if max_nb_messages ch = 0 then Inl DivByZero
          else Inr (msg, ch\<lparr>current_nb_messages := current_nb_messages ch - 1,
                            read_index := (rd + 1) mod max_nb_messages ch\<rparr>))"

section \<open>Ports\<close>

definition find_queuing_port_by_name :: "pcb_s \<Rightarrow> string \<Rightarrow> int" where
  "find_queuing_port_by_name s name =
     index_from 0 (\<lambda>p. queuing_port_name p = name) (take (nat (queuing_port_count s)) (queuing_ports s))"

definition find_queuing_port_by_id :: "pcb_s \<Rightarrow> int \<Rightarrow> int" where
  "find_queuing_port_by_id s i =
     index_from 0 (\<lambda>p. queuing_port_id p = i) (take (nat (queuing_port_count s)) (queuing_ports s))"

definition upd_qp :: "nat \<Rightarrow> (queuing_port_s \<Rightarrow> queuing_port_s) \<Rightarrow> pcb_s \<Rightarrow> pcb_s" where
  "upd_qp i f s = s\<lparr>queuing_ports := (queuing_ports s)[i := f (queuing_ports s ! i)]\<rparr>"

definition qp_enter :: "QUEUING_DISCIPLINE_TYPE \<Rightarrow> pcb_s \<Rightarrow> pref \<Rightarrow> queuing_port_s \<Rightarrow> queuing_port_s" where
  "qp_enter d s r q = q\<lparr>qp_waiting_processes := enqueue_waiter d s r (qp_waiting_processes q),
     queuing_port_status := (queuing_port_status q)\<lparr>QP_WAITING_PROCESSES := QP_WAITING_PROCESSES (queuing_port_status q) + 1\<rparr>\<rparr>"

definition qp_serve :: "queuing_port_s \<Rightarrow> queuing_port_s" where
  "qp_serve q = q\<lparr>qp_waiting_processes := tl (qp_waiting_processes q),
     queuing_port_status := (queuing_port_status q)\<lparr>QP_WAITING_PROCESSES := QP_WAITING_PROCESSES (queuing_port_status q) - 1\<rparr>\<rparr>"

text \<open>\<open>NB_MESSAGE\<close> of the status keeps what the array held.\<close>

definition CREATE_QUEUING_PORT :: "port_mapping_s list \<Rightarrow> string \<Rightarrow> int \<Rightarrow> int \<Rightarrow> int \<Rightarrow> int \<Rightarrow> service" where
  "CREATE_QUEUING_PORT table NM MAX_MESSAGE_SZ MAX_NB PORT_DIR DISCIPLINE s =
     (if queuing_port_count s + 1 > max_queuing_ports s \<or> max_queuing_port_data_size s < MAX_MESSAGE_SZ
        then (s, Ret INVALID_CONFIG NoOut)
      else let index_conf_table = check_port_in_conf_table table NM in
        if index_conf_table = -1 then (s, Ret INVALID_CONFIG NoOut)
        else if find_queuing_port_by_name s NM \<noteq> -1 then (s, Ret NO_ACTION NoOut)
        else if MAX_MESSAGE_SZ \<le> 0 \<or> \<not> check_max_message_size_in_conf table index_conf_table MAX_MESSAGE_SZ
          then (s, Ret INVALID_CONFIG NoOut)
        else if MAX_NB \<le> 0 \<or> MAX_NB > max_nb_message (table ! nat index_conf_table)
          then (s, Ret INVALID_CONFIG NoOut)
        else case (decode_direction PORT_DIR, decode_discipline DISCIPLINE) of
          (Some dir, Some d) \<Rightarrow>
            if \<not> check_port_direction_in_conf table index_conf_table dir then (s, Ret INVALID_CONFIG NoOut)
            else if OPERATING_MODE (status s) = NORMAL then (s, Ret INVALID_CONFIG NoOut)
            else if \<not> nat (queuing_port_count s) < length (queuing_ports s) then (s, Fault OutOfBounds)
            else let n = queuing_port_count s + 1 in
              ((upd_qp (nat (queuing_port_count s)) (\<lambda>q.
                  \<lparr>queuing_port_name = take (MAX_NAME_LENGTH - 1) NM, queuing_port_id = n,
                   qp_partition_id = IDENTIFIER (status s),
                   queuing_port_status = \<lparr>QP_NB_MESSAGE = QP_NB_MESSAGE (queuing_port_status q),
                     QP_MAX_NB_MESSAGE = MAX_NB, QP_MAX_MESSAGE_SIZE = MAX_MESSAGE_SZ, QP_PORT_DIRECTION = dir,
                     QP_WAITING_PROCESSES = 0\<rparr>,
                   qp_channel = queuing_channel (table ! nat index_conf_table), QUEUING_DISCIPLINE = d,
                   qp_waiting_processes = []\<rparr>) s)\<lparr>queuing_port_count := n\<rparr>,
               Ret NO_ERROR (OutId n))
        | _ \<Rightarrow> (s, Ret INVALID_CONFIG NoOut))"

text \<open>\<open>with_current\<close> for services that also hold the channels.\<close>

definition with_current_chan :: "'c list \<Rightarrow> (pref \<Rightarrow> process_s \<Rightarrow> 'c list \<times> pcb_s \<times> outcome) \<Rightarrow>
    pcb_s \<Rightarrow> 'c list \<times> pcb_s \<times> outcome" where
  "with_current_chan chs k s =
     (case process_current s of None \<Rightarrow> (chs, s, Fault NullDeref)
      | Some r \<Rightarrow> (case proc_heap s r of None \<Rightarrow> (chs, s, Fault UseAfterFree) | Some p \<Rightarrow> k r p))"

text \<open>The wait of both services: without a timeout, \<open>time_counter\<close> is left as it is.\<close>

definition qp_block :: "resume_point \<Rightarrow> nat \<Rightarrow> int \<Rightarrow> u64 \<Rightarrow> pref \<Rightarrow> service" where
  "qp_block k i TIME_OUT up r s =
     (let s0 = (if TIME_OUT \<noteq> INFINITE_TIME_VALUE then start_timeout up TIME_OUT r s else s);
          s1 = upd_proc r (set_state WAITING) s0;
          s2 = upd_qp i (qp_enter (QUEUING_DISCIPLINE (queuing_ports s ! i)) s1 r) s1
      in yield_to_partition k r (upd_proc r (\<lambda>p. p\<lparr>waiting_queuing_port := Some i\<rparr>) s2))"

definition SEND_QUEUING_MESSAGE :: "int \<Rightarrow> addr \<Rightarrow> int \<Rightarrow> int \<Rightarrow> u64 \<Rightarrow> krnl_queuing_channel_s list \<Rightarrow> pcb_s \<Rightarrow>
    krnl_queuing_channel_s list \<times> pcb_s \<times> outcome" where
  "SEND_QUEUING_MESSAGE QUEUING_PORT_ID MESSAGE_ADDR LEN TIME_OUT up chs s =
     (let index = find_queuing_port_by_id s QUEUING_PORT_ID; i = nat index in
      if index = -1 then (chs, s, Ret INVALID_PARAM NoOut)
      else let port = queuing_ports s ! i in
        if bad_delay up TIME_OUT then (chs, s, Ret INVALID_PARAM NoOut)
        else if LEN \<ge> QP_MAX_MESSAGE_SIZE (queuing_port_status port) then (chs, s, Ret INVALID_CONFIG NoOut)
        else if LEN \<le> 0 then (chs, s, Ret INVALID_PARAM NoOut)
        else if QP_PORT_DIRECTION (queuing_port_status port) \<noteq> SOURCE then (chs, s, Ret INVALID_MODE NoOut)
        else with_current_chan chs (\<lambda>r p. with_channel chs (qp_channel port) (\<lambda>c ch.
          if current_nb_messages ch < max_nb_messages ch \<and> qp_waiting_processes port = [] then
            (case chan_put (mem_read (mem s) MESSAGE_ADDR (nat LEN)) ch of
               Inl f \<Rightarrow> (chs, s, Fault f)
             | Inr ch' \<Rightarrow> (chs[c := ch'], s, Ret NO_ERROR NoOut))
          else if TIME_OUT = 0 then (chs, s, Ret NOT_AVAILABLE NoOut)
          else if owned_mutex_id p \<noteq> NO_MUTEX_OWNED \<or> error_handler_process s = Some r
            then (chs, s, Ret INVALID_MODE NoOut)
          else (chs, qp_block (RP_SEND_QUEUING i MESSAGE_ADDR LEN TIME_OUT) i TIME_OUT up r s)) s) s)"

definition RECEIVE_QUEUING_MESSAGE :: "int \<Rightarrow> int \<Rightarrow> addr \<Rightarrow> u64 \<Rightarrow> krnl_queuing_channel_s list \<Rightarrow> pcb_s \<Rightarrow>
    krnl_queuing_channel_s list \<times> pcb_s \<times> outcome" where
  "RECEIVE_QUEUING_MESSAGE QUEUING_PORT_ID TIME_OUT MESSAGE_ADDR up chs s =
     (let index = find_queuing_port_by_id s QUEUING_PORT_ID; i = nat index in
      if index = -1 then (chs, s, Ret INVALID_PARAM NoOut)
      else let port = queuing_ports s ! i in
        if bad_delay up TIME_OUT then (chs, s, Ret INVALID_PARAM NoOut)
        else if QP_PORT_DIRECTION (queuing_port_status port) \<noteq> DESTINATION then (chs, s, Ret INVALID_MODE NoOut)
        else with_current_chan chs (\<lambda>r p. with_channel chs (qp_channel port) (\<lambda>c ch.
          if current_nb_messages ch > 0 then
            (case chan_get ch of
               Inl f \<Rightarrow> (chs, s, Fault f)
             | Inr (msg, ch') \<Rightarrow> (chs[c := ch'], s\<lparr>mem := mem_write (mem s) MESSAGE_ADDR msg\<rparr>,
                                 Ret NO_ERROR (OutLen (int (length msg)))))
          else if TIME_OUT = 0 then (chs, s, Ret NOT_AVAILABLE (OutLen 0))
          else if owned_mutex_id p \<noteq> NO_MUTEX_OWNED \<or> error_handler_process s = Some r
            then (chs, s, Ret INVALID_MODE (OutLen 0))
          else (chs, qp_block (RP_RECEIVE_QUEUING i MESSAGE_ADDR TIME_OUT) i TIME_OUT up r s)) s) s)"

text \<open>
  The rest of the two services after \<open>yield_to_partition\<close>, for the process \<open>r\<close>. The
  message is written or read without looking at the channel again.
\<close>

definition resume_queuing :: "resume_point \<Rightarrow> pref \<Rightarrow> process_s \<Rightarrow> krnl_queuing_channel_s list \<Rightarrow> pcb_s \<Rightarrow>
    krnl_queuing_channel_s list \<times> pcb_s \<times> outcome" where
  "resume_queuing k r p chs s =
     (case k of
        RP_SEND_QUEUING i a len tmo \<Rightarrow>
          if time_counter p = 0 then (chs, s, Ret TIMED_OUT NoOut)
          else with_channel chs (qp_channel (queuing_ports s ! i)) (\<lambda>c ch.
            case chan_put (mem_read (mem s) a (nat len)) ch of
              Inl f \<Rightarrow> (chs, s, Fault f)
            | Inr ch' \<Rightarrow> (chs[c := ch'],
                (if tmo \<noteq> INFINITE_TIME_VALUE then upd_proc r (\<lambda>p. p\<lparr>time_counter := 0\<rparr>) s else s),
                Ret NO_ERROR NoOut)) s
      | RP_RECEIVE_QUEUING i a tmo \<Rightarrow>
          if time_counter p = 0 then (chs, s, Ret TIMED_OUT (OutLen 0))
          else with_channel chs (qp_channel (queuing_ports s ! i)) (\<lambda>c ch.
            case chan_get ch of
              Inl f \<Rightarrow> (chs, s, Fault f)
            | Inr (msg, ch') \<Rightarrow> (chs[c := ch'],
                (if tmo \<noteq> INFINITE_TIME_VALUE then upd_proc r (\<lambda>p. p\<lparr>time_counter := 0\<rparr>) s else s)\<lparr>
                  mem := mem_write (mem s) a msg\<rparr>,
                Ret NO_ERROR (OutLen (int (length msg))))) s
      | _ \<Rightarrow> (chs, s, Ret NO_ERROR NoOut))"

definition GET_QUEUING_PORT_ID :: "string \<Rightarrow> service" where
  "GET_QUEUING_PORT_ID NM s =
     (let index = find_queuing_port_by_name s NM in
      if index = -1 then (s, Ret INVALID_CONFIG NoOut)
      else (s, Ret NO_ERROR (OutId (queuing_port_id (queuing_ports s ! nat index)))))"

definition GET_QUEUING_PORT_STATUS :: "int \<Rightarrow> service" where
  "GET_QUEUING_PORT_STATUS QUEUING_PORT_ID s =
     (let index = find_queuing_port_by_id s QUEUING_PORT_ID in
      if index = -1 then (s, Ret INVALID_PARAM NoOut)
      else (s, Ret NO_ERROR (OutQueuingStatus (queuing_port_status (queuing_ports s ! nat index)))))"

definition CLEAR_QUEUING_PORT :: "int \<Rightarrow> krnl_queuing_channel_s list \<Rightarrow> pcb_s \<Rightarrow>
    krnl_queuing_channel_s list \<times> pcb_s \<times> outcome" where
  "CLEAR_QUEUING_PORT QUEUING_PORT_ID chs s =
     (let index = find_queuing_port_by_id s QUEUING_PORT_ID in
      if index = -1 then (chs, s, Ret INVALID_PARAM NoOut)
      else let port = queuing_ports s ! nat index in
        if QP_PORT_DIRECTION (queuing_port_status port) \<noteq> DESTINATION then (chs, s, Ret INVALID_MODE NoOut)
        else with_channel chs (qp_channel port) (\<lambda>c ch.
          (chs[c := ch\<lparr>current_nb_messages := 0, read_index := 0, write_index := 0\<rparr>], s, Ret NO_ERROR NoOut)) s)"

section \<open>Waking blocked processes\<close>

text \<open>
  \<open>list_pop\<close> of the waiting list; the popped process becomes ready. Its timeout keeps
  running.
\<close>

definition ready_from_port :: "process_s \<Rightarrow> process_s" where
  "ready_from_port p = (set_state READY p)\<lparr>waiting_queuing_port := None\<rparr>"

definition pop_waiter :: "nat \<Rightarrow> pcb_s \<Rightarrow> fault + pcb_s" where
  "pop_waiter i s =
     (case qp_waiting_processes (queuing_ports s ! i) of
        [] \<Rightarrow> Inr s
      | w # _ \<Rightarrow> if proc_heap s w = None then Inl UseAfterFree
                else Inr (upd_qp i qp_serve (upd_proc w ready_from_port s)))"

text \<open>
  The loop over the port array. The first test compares \<open>MAX_MESSAGE_SIZE\<close>, not the
  direction, with \<open>SOURCE\<close>, whose value is 0. An array pointer that is null is an empty array.
\<close>

fun check_ports :: "nat \<Rightarrow> nat \<Rightarrow> krnl_queuing_channel_s list \<Rightarrow> pcb_s \<Rightarrow> fault + pcb_s" where
  "check_ports 0 i chs s = Inr s"
| "check_ports (Suc n) i chs s =
     (if queuing_ports s = [] then Inr s
      else if \<not> i < length (queuing_ports s) then Inl OutOfBounds
      else case qp_channel (queuing_ports s ! i) of
        None \<Rightarrow> Inr s
      | Some c \<Rightarrow>
          if \<not> c < length chs then Inl OutOfBounds
          else let ch = chs ! c in
            case (if current_nb_messages ch < max_nb_messages ch \<and>
                     QP_MAX_MESSAGE_SIZE (queuing_port_status (queuing_ports s ! i)) = 0 \<and>
                     qp_waiting_processes (queuing_ports s ! i) \<noteq> []
                  then pop_waiter i s else Inr s) of
              Inl f \<Rightarrow> Inl f
            | Inr s1 \<Rightarrow>
                (case (if current_nb_messages ch > 0 \<and>
                          QP_PORT_DIRECTION (queuing_port_status (queuing_ports s1 ! i)) = DESTINATION \<and>
                          qp_waiting_processes (queuing_ports s1 ! i) \<noteq> []
                       then pop_waiter i s1 else Inr s1) of
                   Inl f \<Rightarrow> Inl f
                 | Inr s2 \<Rightarrow> check_ports n (i + 1) chs s2))"

definition check_available_resources_on_partition_port :: "krnl_queuing_channel_s list \<Rightarrow> pcb_s \<Rightarrow> fault + pcb_s" where
  "check_available_resources_on_partition_port chs s = check_ports (nat (max_queuing_ports s)) 0 chs s"

interpretation queuing_port_queue: waiting_queue qp_waiting_processes
  "\<lambda>q. QP_WAITING_PROCESSES (queuing_port_status q)" qp_enter qp_serve
  by unfold_locales (simp_all add: qp_enter_def qp_serve_def)

section \<open>A channel is a ring\<close>

definition chan_slot :: "krnl_queuing_channel_s \<Rightarrow> nat \<Rightarrow> byte list" where
  "chan_slot ch j = take (unat (buffer_sizes ch ! j)) (drop (j * unat (qc_max_message_size ch)) (buffer_data ch))"

definition chan_fits :: "krnl_queuing_channel_s \<Rightarrow> byte list \<Rightarrow> bool" where
  "chan_fits ch msg \<longleftrightarrow> length msg \<le> unat (qc_max_message_size ch)"

text \<open>The arrays hold all messages, and the offsets of the messages fit \<open>uint32_t\<close>.\<close>

definition chan_inv :: "krnl_queuing_channel_s \<Rightarrow> bool" where
  "chan_inv ch \<longleftrightarrow>
     ring_indices (unat (max_nb_messages ch)) (unat (read_index ch)) (unat (write_index ch)) (unat (current_nb_messages ch)) \<and>
     unat (max_nb_messages ch) * unat (qc_max_message_size ch) \<le> length (buffer_data ch) \<and>
     unat (max_nb_messages ch) * unat (qc_max_message_size ch) < 2 ^ 32 \<and>
     unat (max_nb_messages ch) \<le> length (buffer_sizes ch) \<and>
     (\<forall>j < unat (max_nb_messages ch). unat (buffer_sizes ch ! j) \<le> unat (qc_max_message_size ch))"

lemma chan_offset:
  assumes "chan_inv ch" and "unat w < unat (max_nb_messages ch)"
  shows "unat (w * qc_max_message_size ch) = unat w * unat (qc_max_message_size ch)"
proof -
  have "unat w * unat (qc_max_message_size ch) \<le> unat (max_nb_messages ch) * unat (qc_max_message_size ch)"
    using assms(2) by (intro mult_le_mono1) simp
  with assms(1) have "unat w * unat (qc_max_message_size ch) < 2 ^ 32" unfolding chan_inv_def by linarith
  then show ?thesis by (simp add: unat_word_ariths take_bit_nat_eq_self)
qed

lemma chan_slot_read:
  assumes "chan_inv ch" and "j < unat (max_nb_messages ch)"
  shows "buf_read (buffer_data ch) (j * unat (qc_max_message_size ch)) (unat (buffer_sizes ch ! j)) = Some (chan_slot ch j)"
proof -
  have "unat (buffer_sizes ch ! j) \<le> unat (qc_max_message_size ch)" using assms by (simp add: chan_inv_def)
  from slot_range [OF assms(2) this] assms(1) show ?thesis by (simp add: buf_read_def chan_slot_def chan_inv_def)
qed

lemma chan_put_spec:
  assumes inv: "chan_inv ch" and free: "unat (current_nb_messages ch) < unat (max_nb_messages ch)" and fits: "chan_fits ch m"
  shows "\<exists>ch'. chan_put m ch = Inr ch' \<and> chan_inv ch' \<and> max_nb_messages ch' = max_nb_messages ch \<and>
    read_index ch' = read_index ch \<and> unat (current_nb_messages ch') = unat (current_nb_messages ch) + 1 \<and>
    chan_fits ch' = chan_fits ch \<and>
    (\<forall>j < unat (max_nb_messages ch). chan_slot ch' j = (if j = unat (write_index ch) then m else chan_slot ch j))"
proof -
  let ?n = "unat (max_nb_messages ch)" and ?sz = "unat (qc_max_message_size ch)" and ?w = "unat (write_index ch)"
  note I = inv [unfolded chan_inv_def ring_indices_def]
  have n0: "0 < ?n" and w: "?w < ?n" using I by auto
  have len: "length m \<le> ?sz" using fits by (simp add: chan_fits_def)
  have off: "unat (write_index ch * qc_max_message_size ch) = ?w * ?sz" by (rule chan_offset [OF inv w])
  have "?w * ?sz + length m \<le> length (buffer_data ch)" using slot_range [OF w len] I by linarith
  then obtain d where d: "buf_write (buffer_data ch) (?w * ?sz) m = Some d" by (simp add: buf_write_def)
  let ?ch = "ch\<lparr>current_nb_messages := current_nb_messages ch + 1, buffer_data := d,
    buffer_sizes := (buffer_sizes ch)[?w := of_nat (length m)],
    write_index := (write_index ch + 1) mod max_nb_messages ch\<rparr>"
  have ws: "?w < length (buffer_sizes ch)" using w I by linarith
  have put: "chan_put m ch = Inr ?ch" using off d ws n0 by (auto simp: chan_put_def Let_def)
  have "unat (max_nb_messages ch) < 2 ^ 32" using unsigned_less [of "max_nb_messages ch", where ?'a = nat] by simp
  then have cnt: "unat (current_nb_messages ch + 1) = unat (current_nb_messages ch) + 1"
    using free by (simp add: unat_word_ariths)
  have wr: "unat ((write_index ch + 1) mod max_nb_messages ch) = (?w + 1) mod ?n"
    using unat_ring_step [of "write_index ch" "max_nb_messages ch"] w by (simp add: word_less_nat_alt)
  have "?sz < 2 ^ 32" using unsigned_less [of "qc_max_message_size ch", where ?'a = nat] by simp
  then have lm: "unat (of_nat (length m) :: u32) = length m"
    using len by (simp add: unat_of_nat take_bit_nat_eq_self)
  have "\<forall>j < ?n. unat (buffer_sizes ch ! j) \<le> ?sz" using I by blast
  then have sizes: "unat ((buffer_sizes ch)[?w := of_nat (length m)] ! j) \<le> ?sz" if "j < ?n" for j
    using ws lm len that by (cases "j = ?w") simp_all
  have "ring_indices ?n (unat (read_index ch)) ((?w + 1) mod ?n) (unat (current_nb_messages ch) + 1)"
    using I free by (auto simp: ring_indices_def mod_simps)
  with sizes have inv': "chan_inv ?ch" using I buf_write_length [OF d] by (simp add: chan_inv_def cnt wr)
  have slot: "chan_slot ?ch j = (if j = ?w then m else chan_slot ch j)" if j: "j < ?n" for j
  proof (cases "j = ?w")
    case True
    from buf_read_write_same [OF d] chan_slot_read [OF inv', of ?w] w I lm True show ?thesis by simp
  next
    case False
    have "unat (buffer_sizes ch ! j) \<le> ?sz" using I j by simp
    from buf_read_write_disjoint [OF d slot_disjoint [OF False this len]]
      chan_slot_read [OF inv', of j] chan_slot_read [OF inv j] j False show ?thesis by simp
  qed
  show ?thesis using put inv' cnt slot by (intro exI [of _ ?ch]) (auto simp: chan_fits_def fun_eq_iff)
qed

lemma chan_get_spec:
  assumes inv: "chan_inv ch" and some: "0 < unat (current_nb_messages ch)"
  shows "\<exists>ch'. chan_get ch = Inr (chan_slot ch (unat (read_index ch)), ch') \<and> chan_inv ch' \<and>
    max_nb_messages ch' = max_nb_messages ch \<and>
    unat (read_index ch') = (unat (read_index ch) + 1) mod unat (max_nb_messages ch) \<and>
    unat (current_nb_messages ch') = unat (current_nb_messages ch) - 1 \<and> chan_fits ch' = chan_fits ch \<and>
    (\<forall>j < unat (max_nb_messages ch). chan_slot ch' j = chan_slot ch j)"
proof -
  let ?n = "unat (max_nb_messages ch)" and ?r = "unat (read_index ch)"
  note I = inv [unfolded chan_inv_def ring_indices_def]
  have r: "?r < ?n" using I by blast
  let ?ch = "ch\<lparr>current_nb_messages := current_nb_messages ch - 1, read_index := (read_index ch + 1) mod max_nb_messages ch\<rparr>"
  have rs: "?r < length (buffer_sizes ch)" using r I by linarith
  have get: "chan_get ch = Inr (chan_slot ch ?r, ?ch)"
    using chan_offset [OF inv r] chan_slot_read [OF inv r] r rs by (auto simp: chan_get_def Let_def)
  have cnt: "unat (current_nb_messages ch - 1) = unat (current_nb_messages ch) - 1"
    using some by (simp add: unat_minus_one unat_gt_0)
  have rd: "unat ((read_index ch + 1) mod max_nb_messages ch) = (?r + 1) mod ?n"
    using unat_ring_step [of "read_index ch" "max_nb_messages ch"] r by (simp add: word_less_nat_alt)
  have "(?r + 1 + (unat (current_nb_messages ch) - 1)) = ?r + unat (current_nb_messages ch)" using some by simp
  then have "unat (write_index ch) = ((?r + 1) mod ?n + (unat (current_nb_messages ch) - 1)) mod ?n"
    using I by (metis mod_add_left_eq)
  then have "chan_inv ?ch" unfolding chan_inv_def ring_indices_def using I cnt rd by auto
  with get cnt rd show ?thesis by (intro exI [of _ ?ch]) (auto simp: chan_fits_def chan_slot_def fun_eq_iff)
qed

interpretation channel: ring
  "\<lambda>ch. unat (max_nb_messages ch)" "\<lambda>ch. unat (read_index ch)" "\<lambda>ch. unat (write_index ch)"
  "\<lambda>ch. unat (current_nb_messages ch)" chan_slot chan_inv chan_fits chan_put chan_get
proof unfold_locales
  show "chan_inv ch \<Longrightarrow> ring_indices (unat (max_nb_messages ch)) (unat (read_index ch)) (unat (write_index ch))
      (unat (current_nb_messages ch))" for ch by (simp add: chan_inv_def)
qed (use chan_put_spec in fastforce, use chan_get_spec in fastforce)

abbreviation chan_contents :: "krnl_queuing_channel_s \<Rightarrow> byte list list" where
  "chan_contents \<equiv> channel.contents"

section \<open>Ports of two partitions over one channel\<close>

text \<open>Every port has a sound channel that takes its longest message.\<close>

definition queuing_inv :: "krnl_queuing_channel_s list \<Rightarrow> pcb_s \<Rightarrow> bool" where
  "queuing_inv chs s \<longleftrightarrow> 0 \<le> queuing_port_count s \<and> nat (queuing_port_count s) \<le> length (queuing_ports s) \<and>
     (\<forall>i < nat (queuing_port_count s). let port = queuing_ports s ! i in
        queuing_port_id port = int i + 1 \<and> 0 < QP_MAX_MESSAGE_SIZE (queuing_port_status port) \<and>
        (case qp_channel port of None \<Rightarrow> False
         | Some c \<Rightarrow> c < length chs \<and> chan_inv (chs ! c) \<and>
             QP_MAX_MESSAGE_SIZE (queuing_port_status port) \<le> int (unat (qc_max_message_size (chs ! c)))))"

lemma find_queuing_port_by_id_eq:
  assumes "queuing_inv chs s" and "i < nat (queuing_port_count s)"
  shows "find_queuing_port_by_id s (int i + 1) = int i"
  using assms unfolding find_queuing_port_by_id_def queuing_inv_def
  by (intro index_from_unique) (auto simp: Let_def)

lemma queuing_inv_nth:
  assumes "queuing_inv chs s" and "i < nat (queuing_port_count s)" and "qp_channel (queuing_ports s ! i) = Some c"
  shows "c < length chs" "chan_inv (chs ! c)" "0 < QP_MAX_MESSAGE_SIZE (queuing_port_status (queuing_ports s ! i))"
    "QP_MAX_MESSAGE_SIZE (queuing_port_status (queuing_ports s ! i)) \<le> int (unat (qc_max_message_size (chs ! c)))"
    "i < length (queuing_ports s)"
  using assms by (auto simp: queuing_inv_def Let_def)

lemma queuing_inv_chan:
  assumes inv: "queuing_inv chs s" and "chan_inv ch" and "qc_max_message_size ch = qc_max_message_size (chs ! c)"
  shows "queuing_inv (chs[c := ch]) s"
proof -
  have "(case ref of None \<Rightarrow> False | Some d \<Rightarrow> d < length (chs[c := ch]) \<and> chan_inv (chs[c := ch] ! d) \<and>
      x \<le> int (unat (qc_max_message_size (chs[c := ch] ! d))))"
    if "case ref of None \<Rightarrow> False | Some d \<Rightarrow> d < length chs \<and> chan_inv (chs ! d) \<and> x \<le> int (unat (qc_max_message_size (chs ! d)))"
    for ref x using that assms(2,3) by (cases ref; cases "the ref = c") auto
  then show ?thesis using inv unfolding queuing_inv_def Let_def by blast
qed

lemma queuing_inv_mem [simp]: "queuing_inv chs (s\<lparr>mem := m\<rparr>) = queuing_inv chs s"
  by (simp add: queuing_inv_def)

lemma chan_max_unchanged:
  "chan_put m ch = Inr ch' \<Longrightarrow> qc_max_message_size ch' = qc_max_message_size ch"
  "chan_get ch = Inr (m, ch') \<Longrightarrow> qc_max_message_size ch' = qc_max_message_size ch"
  by (auto simp: chan_put_def chan_get_def Let_def split: option.splits if_splits)

text \<open>
  Port \<open>i\<close> of partition \<open>a\<close> and port \<open>j\<close> of partition \<open>b\<close> are the two ends of channel \<open>c\<close>, and
  no process waits at the source.
\<close>

definition linked :: "nat \<Rightarrow> nat \<Rightarrow> nat \<Rightarrow> krnl_queuing_channel_s list \<Rightarrow> pcb_s \<Rightarrow> pcb_s \<Rightarrow> bool" where
  "linked i j c chs a b \<longleftrightarrow> queuing_inv chs a \<and> queuing_inv chs b \<and>
     i < nat (queuing_port_count a) \<and> j < nat (queuing_port_count b) \<and>
     qp_channel (queuing_ports a ! i) = Some c \<and> qp_channel (queuing_ports b ! j) = Some c \<and>
     QP_PORT_DIRECTION (queuing_port_status (queuing_ports a ! i)) = SOURCE \<and>
     QP_PORT_DIRECTION (queuing_port_status (queuing_ports b ! j)) = DESTINATION \<and>
     qp_waiting_processes (queuing_ports a ! i) = [] \<and>
     (case process_current a of None \<Rightarrow> False | Some r \<Rightarrow> proc_heap a r \<noteq> None) \<and>
     (case process_current b of None \<Rightarrow> False | Some r \<Rightarrow> proc_heap b r \<noteq> None)"

datatype port_call = Send addr int | Receive addr

fun port_run :: "int \<Rightarrow> int \<Rightarrow> u64 \<Rightarrow> port_call list \<Rightarrow> krnl_queuing_channel_s list \<Rightarrow> pcb_s \<Rightarrow> pcb_s \<Rightarrow>
    byte list list \<times> krnl_queuing_channel_s list" where
  "port_run ida idb up [] chs a b = ([], chs)"
| "port_run ida idb up (Send ad len # calls) chs a b =
     (case SEND_QUEUING_MESSAGE ida ad len 0 up chs a of (chs', a', _) \<Rightarrow> port_run ida idb up calls chs' a' b)"
| "port_run ida idb up (Receive ad # calls) chs a b =
     (case RECEIVE_QUEUING_MESSAGE idb 0 ad up chs b of
        (chs', b', r) \<Rightarrow> let (out, chs'') = port_run ida idb up calls chs' a b' in
          case r of Ret NO_ERROR (OutLen n) \<Rightarrow> (mem_read (mem b') ad (nat n) # out, chs'') | _ \<Rightarrow> (out, chs''))"

fun abstract_call :: "pcb_s \<Rightarrow> port_call \<Rightarrow> byte list ring_op" where
  "abstract_call a (Send ad len) = Put (mem_read (mem a) ad (nat len))"
| "abstract_call a (Receive ad) = Get"

lemma no_delay: "\<not> time_overflow up \<Longrightarrow> \<not> bad_delay up 0"
  by (simp add: bad_delay_def u64_of_def)

lemma linked_current:
  assumes "linked i j c chs a b"
  shows "with_current_chan chs k a = k (the (process_current a)) (the (proc_heap a (the (process_current a))))"
    "with_current_chan chs k b = k (the (process_current b)) (the (proc_heap b (the (process_current b))))"
  using assms by (auto simp: linked_def with_current_chan_def split: option.splits)

lemma linked_channel:
  assumes "linked i j c chs a b" shows "c < length chs" "chan_inv (chs ! c)"
  using assms queuing_inv_nth [of chs a i c] by (auto simp: linked_def)

lemma linked_update:
  assumes "linked i j c chs a b" and "chan_inv ch" and "qc_max_message_size ch = qc_max_message_size (chs ! c)"
  shows "linked i j c (chs[c := ch]) a b"
  using assms queuing_inv_chan [of chs _ ch c] unfolding linked_def by blast

lemma linked_mem: "linked i j c chs a b \<Longrightarrow> linked i j c chs a (b\<lparr>mem := m\<rparr>)"
  by (auto simp: linked_def split: option.splits)

text \<open>A message that may be sent is appended, or refused by a full channel.\<close>

lemma send_appends:
  assumes l: "linked i j c chs a b" and up: "\<not> time_overflow up"
    and len: "0 < len" "len < QP_MAX_MESSAGE_SIZE (queuing_port_status (queuing_ports a ! i))"
  shows "\<exists>chs'. linked i j c chs' a b \<and> unat (max_nb_messages (chs' ! c)) = unat (max_nb_messages (chs ! c)) \<and>
    (if length (chan_contents (chs ! c)) < unat (max_nb_messages (chs ! c))
     then SEND_QUEUING_MESSAGE (int i + 1) ad len 0 up chs a = (chs', a, Ret NO_ERROR NoOut) \<and>
          chan_contents (chs' ! c) = chan_contents (chs ! c) @ [mem_read (mem a) ad (nat len)]
     else chs' = chs \<and> SEND_QUEUING_MESSAGE (int i + 1) ad len 0 up chs a = (chs, a, Ret NOT_AVAILABLE NoOut))"
proof -
  let ?ch = "chs ! c" and ?m = "mem_read (mem a) ad (nat len)"
  note c = linked_channel [OF l]
  have pa: "queuing_inv chs a" "i < nat (queuing_port_count a)" "qp_channel (queuing_ports a ! i) = Some c"
    "QP_PORT_DIRECTION (queuing_port_status (queuing_ports a ! i)) = SOURCE" "qp_waiting_processes (queuing_ports a ! i) = []"
    using l by (auto simp: linked_def)
  have send: "SEND_QUEUING_MESSAGE (int i + 1) ad len 0 up chs a =
      (if current_nb_messages ?ch < max_nb_messages ?ch
       then (case chan_put ?m ?ch of Inl f \<Rightarrow> (chs, a, Fault f) | Inr ch' \<Rightarrow> (chs[c := ch'], a, Ret NO_ERROR NoOut))
       else (chs, a, Ret NOT_AVAILABLE NoOut))"
    using find_queuing_port_by_id_eq [OF pa(1,2)] no_delay [OF up] len pa(3-5) c(1)
    by (simp add: SEND_QUEUING_MESSAGE_def linked_current [OF l] with_channel_def)
  show ?thesis
  proof (cases "current_nb_messages ?ch < max_nb_messages ?ch")
    case True
    then have free: "unat (current_nb_messages ?ch) < unat (max_nb_messages ?ch)" by (simp add: word_less_nat_alt)
    have "chan_fits ?ch ?m" using queuing_inv_nth(4) [OF pa(1-3)] len by (simp add: chan_fits_def nat_le_iff)
    from channel.put_appends [OF c(2) free this] obtain ch' where
      ch': "chan_put ?m ?ch = Inr ch'" "chan_inv ch'" "unat (max_nb_messages ch') = unat (max_nb_messages ?ch)"
      "chan_contents ch' = chan_contents ?ch @ [?m]" by auto
    show ?thesis using send True free ch' c(1) linked_update [OF l ch'(2) chan_max_unchanged(1) [OF ch'(1)]]
      by (intro exI [of _ "chs[c := ch']"]) simp
  next
    case False
    then show ?thesis using send l by (intro exI [of _ chs]) (simp add: word_less_nat_alt)
  qed
qed

text \<open>A receiver gets the first message, or nothing from an empty channel.\<close>

lemma receive_takes:
  assumes l: "linked i j c chs a b" and up: "\<not> time_overflow up"
  shows "\<exists>chs' m. linked i j c chs' a (b\<lparr>mem := m\<rparr>) \<and> unat (max_nb_messages (chs' ! c)) = unat (max_nb_messages (chs ! c)) \<and>
    (case chan_contents (chs ! c) of
       [] \<Rightarrow> chs' = chs \<and> m = mem b \<and>
         RECEIVE_QUEUING_MESSAGE (int j + 1) 0 ad up chs b = (chs, b, Ret NOT_AVAILABLE (OutLen 0))
     | msg # rest \<Rightarrow>
         RECEIVE_QUEUING_MESSAGE (int j + 1) 0 ad up chs b =
           (chs', b\<lparr>mem := m\<rparr>, Ret NO_ERROR (OutLen (int (length msg)))) \<and>
         mem_read m ad (length msg) = msg \<and> chan_contents (chs' ! c) = rest)"
proof -
  let ?ch = "chs ! c"
  note c = linked_channel [OF l]
  have pb: "queuing_inv chs b" "j < nat (queuing_port_count b)" "qp_channel (queuing_ports b ! j) = Some c"
    "QP_PORT_DIRECTION (queuing_port_status (queuing_ports b ! j)) = DESTINATION"
    using l by (auto simp: linked_def)
  have rcv: "RECEIVE_QUEUING_MESSAGE (int j + 1) 0 ad up chs b =
      (if current_nb_messages ?ch > 0
       then (case chan_get ?ch of Inl f \<Rightarrow> (chs, b, Fault f)
             | Inr (msg, ch') \<Rightarrow> (chs[c := ch'], b\<lparr>mem := mem_write (mem b) ad msg\<rparr>, Ret NO_ERROR (OutLen (int (length msg)))))
       else (chs, b, Ret NOT_AVAILABLE (OutLen 0)))"
    using find_queuing_port_by_id_eq [OF pb(1,2)] no_delay [OF up] pb(3,4) c(1)
    by (simp add: RECEIVE_QUEUING_MESSAGE_def linked_current [OF l] with_channel_def)
  show ?thesis
  proof (cases "chan_contents ?ch")
    case Nil
    then have "unat (current_nb_messages ?ch) = 0" by (metis length_ring_contents list.size(3))
    then have "\<not> current_nb_messages ?ch > 0" by (simp add: word_less_nat_alt)
    then show ?thesis using Nil rcv l by (intro exI [of _ chs] exI [of _ "mem b"]) simp
  next
    case (Cons msg rest)
    then have pos: "0 < unat (current_nb_messages ?ch)" by (metis length_ring_contents length_greater_0_conv list.distinct(1))
    from channel.get_takes [OF c(2) pos] Cons obtain ch' where
      ch': "chan_get ?ch = Inr (msg, ch')" "chan_inv ch'" "unat (max_nb_messages ch') = unat (max_nb_messages ?ch)"
      "chan_contents ch' = rest" by auto
    have "linked i j c (chs[c := ch']) a (b\<lparr>mem := mem_write (mem b) ad msg\<rparr>)"
      by (rule linked_mem [OF linked_update [OF l ch'(2) chan_max_unchanged(2) [OF ch'(1)]]])
    moreover have "current_nb_messages ?ch > 0" using pos by (simp add: word_less_nat_alt)
    ultimately show ?thesis using rcv Cons ch' c(1)
      by (intro exI [of _ "chs[c := ch']"] exI [of _ "mem_write (mem b) ad msg"]) simp
  qed
qed

text \<open>
  C6. Queuing semantics across partitions. Let partitions \<open>a\<close> and \<open>b\<close> hold the two ports of
  a channel. For every interleaving of non-blocking sends in \<open>a\<close> and receives in \<open>b\<close>, the
  messages that arrive in the memory of \<open>b\<close> are exactly those a bounded first-in first-out
  queue of the capacity of the channel would deliver for the same sequence, byte for byte,
  and the channel ends with the contents of that queue.
\<close>

theorem queuing_ports_refine_queue:
  assumes "linked i j c chs a b" and "\<not> time_overflow up"
    and "\<forall>ad len. Send ad len \<in> set calls \<longrightarrow> 0 < len \<and> len < QP_MAX_MESSAGE_SIZE (queuing_port_status (queuing_ports a ! i))"
  shows "\<exists>chs'. port_run (int i + 1) (int j + 1) up calls chs a b =
      (fst (queue_run (unat (max_nb_messages (chs ! c))) (map (abstract_call a) calls) (chan_contents (chs ! c))), chs') \<and>
    chan_contents (chs' ! c) =
      snd (queue_run (unat (max_nb_messages (chs ! c))) (map (abstract_call a) calls) (chan_contents (chs ! c)))"
  using assms
proof (induction calls arbitrary: chs b)
  case Nil
  then show ?case by simp
next
  case (Cons call calls)
  have sends: "\<forall>ad len. Send ad len \<in> set calls \<longrightarrow> 0 < len \<and> len < QP_MAX_MESSAGE_SIZE (queuing_port_status (queuing_ports a ! i))"
    using Cons.prems(3) by simp
  show ?case
  proof (cases call)
    case (Send ad len)
    with Cons.prems(3) have len: "0 < len" "len < QP_MAX_MESSAGE_SIZE (queuing_port_status (queuing_ports a ! i))" by auto
    from send_appends [OF Cons.prems(1,2) len, of ad] obtain chs' where
      s: "linked i j c chs' a b" "unat (max_nb_messages (chs' ! c)) = unat (max_nb_messages (chs ! c))"
      "if length (chan_contents (chs ! c)) < unat (max_nb_messages (chs ! c))
       then SEND_QUEUING_MESSAGE (int i + 1) ad len 0 up chs a = (chs', a, Ret NO_ERROR NoOut) \<and>
          chan_contents (chs' ! c) = chan_contents (chs ! c) @ [mem_read (mem a) ad (nat len)]
       else chs' = chs \<and> SEND_QUEUING_MESSAGE (int i + 1) ad len 0 up chs a = (chs, a, Ret NOT_AVAILABLE NoOut)"
      by blast
    from Cons.IH [OF s(1) Cons.prems(2) sends] s(2,3) Send show ?thesis
      by (cases "length (chan_contents (chs ! c)) < unat (max_nb_messages (chs ! c))") simp_all
  next
    case (Receive ad)
    from receive_takes [OF Cons.prems(1,2), of ad] obtain chs' m where
      r: "linked i j c chs' a (b\<lparr>mem := m\<rparr>)" "unat (max_nb_messages (chs' ! c)) = unat (max_nb_messages (chs ! c))"
      "case chan_contents (chs ! c) of
       [] \<Rightarrow> chs' = chs \<and> m = mem b \<and>
         RECEIVE_QUEUING_MESSAGE (int j + 1) 0 ad up chs b = (chs, b, Ret NOT_AVAILABLE (OutLen 0))
     | msg # rest \<Rightarrow>
         RECEIVE_QUEUING_MESSAGE (int j + 1) 0 ad up chs b =
           (chs', b\<lparr>mem := m\<rparr>, Ret NO_ERROR (OutLen (int (length msg)))) \<and>
         mem_read m ad (length msg) = msg \<and> chan_contents (chs' ! c) = rest" by blast
    from Cons.IH [OF r(1) Cons.prems(2) sends] r(2,3) Receive show ?thesis
      by (cases "chan_contents (chs ! c)") (auto simp: case_prod_beta)
  qed
qed

definition sample_port :: "PORT_DIRECTION_TYPE \<Rightarrow> queuing_port_s" where
  "sample_port dir = \<lparr>queuing_port_name = ''Q'', queuing_port_id = 1, qp_partition_id = 1,
     queuing_port_status = \<lparr>QP_NB_MESSAGE = 0, QP_MAX_NB_MESSAGE = 2, QP_MAX_MESSAGE_SIZE = 4, QP_PORT_DIRECTION = dir,
       QP_WAITING_PROCESSES = 0\<rparr>,
     qp_channel = Some 0, QUEUING_DISCIPLINE = FIFO, qp_waiting_processes = []\<rparr>"

definition sample_queuing :: "PORT_DIRECTION_TYPE \<Rightarrow> pcb_s" where
  "sample_queuing dir = sample_three\<lparr>queuing_ports := [sample_port dir], queuing_port_count := 1, max_queuing_ports := 1,
     process_current := Some 1, mem := (\<lambda>x. of_nat x)\<rparr>"

definition sample_qchannel :: krnl_queuing_channel_s where
  "sample_qchannel = \<lparr>buffer_data = replicate 8 0, buffer_sizes = [0, 0], qc_max_message_size = 4, max_nb_messages = 2,
     current_nb_messages = 0, read_index = 0, write_index = 0, source_partition_id = 1, dest_partition_id = 2\<rparr>"

lemma sample_queuing_sel [simp]:
  "queuing_ports (sample_queuing dir) = [sample_port dir]" "queuing_port_count (sample_queuing dir) = 1"
  "process_current (sample_queuing dir) = Some 1" "mem (sample_queuing dir) = (\<lambda>x. of_nat x)"
  "proc_heap (sample_queuing dir) = proc_heap sample_three" "max_queuing_ports (sample_queuing dir) = 1"
  "processes (sample_queuing dir) = processes sample_three"
  "error_handler_process (sample_queuing dir) = error_handler_process sample_three"
  by (simp_all add: sample_queuing_def)

lemma sample_qchannel_inv: "chan_inv sample_qchannel"
  by (simp add: chan_inv_def sample_qchannel_def ring_indices_def nth_Cons split: nat.splits)

lemma sample_queuing_inv: "queuing_inv [sample_qchannel] (sample_queuing dir)"
  using sample_qchannel_inv by (simp add: queuing_inv_def sample_port_def) (simp add: sample_qchannel_def)

theorem queuing_ports_refine_queue_witness:
  "fst (port_run 1 1 0 [Send 10 2, Send 20 3, Send 30 1, Receive 100, Receive 104, Receive 108] [sample_qchannel]
     (sample_queuing SOURCE) (sample_queuing DESTINATION)) = [[10, 11], [20, 21, 22]]"
proof -
  have l: "linked 0 0 0 [sample_qchannel] (sample_queuing SOURCE) (sample_queuing DESTINATION)"
    by (simp add: linked_def sample_queuing_inv sample_port_def sample_three_def)
  have up: "\<not> time_overflow 0" by (simp add: time_overflow_def MAX_SYSTEM_TIME_def)
  let ?calls = "[Send 10 2, Send 20 3, Send 30 1, Receive 100, Receive 104, Receive 108]"
  have q: "unat (max_nb_messages sample_qchannel) = 2"
    "\<And>n f. ring_contents n (unat (read_index sample_qchannel)) (unat (current_nb_messages sample_qchannel)) f = []"
    by (simp_all add: sample_qchannel_def ring_contents_def)
  have m: "map (abstract_call (sample_queuing SOURCE)) ?calls = [Put [10, 11], Put [20, 21, 22], Put [30], Get, Get, Get]"
    by (simp add: mem_read_def upt_rec)
  have "\<forall>ad len. Send ad len \<in> set ?calls \<longrightarrow>
      0 < len \<and> len < QP_MAX_MESSAGE_SIZE (queuing_port_status (queuing_ports (sample_queuing SOURCE) ! 0))"
    by (auto simp: sample_port_def)
  from queuing_ports_refine_queue [OF l up this, unfolded m nth_Cons_0 q of_nat_0 add_0]
  have "fst (port_run 1 1 0 ?calls [sample_qchannel] (sample_queuing SOURCE) (sample_queuing DESTINATION)) =
      fst (queue_run 2 [Put [10, 11], Put [20, 21, 22], Put [30], Get, Get, Get] [])"
    by (elim exE conjE) (simp only: fst_conv of_nat_0 int_ops(1) add_0)
  then show ?thesis by simp
qed

section \<open>The wake-up loop\<close>

text \<open>Port \<open>i\<close> serves a waiting receiver in this pass.\<close>

definition serves :: "krnl_queuing_channel_s list \<Rightarrow> pcb_s \<Rightarrow> nat \<Rightarrow> bool" where
  "serves chs s i \<longleftrightarrow> (let q = queuing_ports s ! i in
     QP_PORT_DIRECTION (queuing_port_status q) = DESTINATION \<and> qp_waiting_processes q \<noteq> [] \<and>
     0 < current_nb_messages (chs ! the (qp_channel q)))"

definition served :: "krnl_queuing_channel_s list \<Rightarrow> pcb_s \<Rightarrow> nat set \<Rightarrow> pref set" where
  "served chs s I = {hd (qp_waiting_processes (queuing_ports s ! i)) |i. i \<in> I \<and> serves chs s i}"

text \<open>The state after a pass over the ports \<open>I\<close>.\<close>

definition after_pass :: "krnl_queuing_channel_s list \<Rightarrow> nat set \<Rightarrow> pcb_s \<Rightarrow> pcb_s" where
  "after_pass chs I s = s\<lparr>
     queuing_ports := map (\<lambda>i. (if i \<in> I \<and> serves chs s i then qp_serve else id) (queuing_ports s ! i))
       [0..<length (queuing_ports s)],
     proc_heap := (\<lambda>w. if w \<in> served chs s I then map_option ready_from_port (proc_heap s w) else proc_heap s w)\<rparr>"

text \<open>The ports of the array up to \<open>n\<close> are in use, and their waiting processes are live.\<close>

definition ports_live :: "krnl_queuing_channel_s list \<Rightarrow> nat set \<Rightarrow> pcb_s \<Rightarrow> bool" where
  "ports_live chs I s \<longleftrightarrow> (\<forall>i \<in> I. let q = queuing_ports s ! i in i < length (queuing_ports s) \<and>
     (case qp_channel q of None \<Rightarrow> False | Some c \<Rightarrow> c < length chs) \<and>
     0 < QP_MAX_MESSAGE_SIZE (queuing_port_status q) \<and> (\<forall>w \<in> set (qp_waiting_processes q). proc_heap s w \<noteq> None))"

lemma ready_from_port_idem: "ready_from_port (ready_from_port p) = ready_from_port p"
  by (simp add: ready_from_port_def)

lemma qp_serve_frame [simp]:
  "qp_channel (qp_serve q) = qp_channel q" "QUEUING_DISCIPLINE (qp_serve q) = QUEUING_DISCIPLINE q"
  "QP_PORT_DIRECTION (queuing_port_status (qp_serve q)) = QP_PORT_DIRECTION (queuing_port_status q)"
  "QP_MAX_MESSAGE_SIZE (queuing_port_status (qp_serve q)) = QP_MAX_MESSAGE_SIZE (queuing_port_status q)"
  "qp_waiting_processes (qp_serve q) = tl (qp_waiting_processes q)"
  by (simp_all add: qp_serve_def)

lemma upd_qp_frame [simp]:
  "queuing_ports (upd_qp i f s) = (queuing_ports s)[i := f (queuing_ports s ! i)]" "proc_heap (upd_qp i f s) = proc_heap s"
  "processes (upd_qp i f s) = processes s" "process_current (upd_qp i f s) = process_current s"
  "queuing_port_count (upd_qp i f s) = queuing_port_count s" "max_queuing_ports (upd_qp i f s) = max_queuing_ports s"
  "mem (upd_qp i f s) = mem s" "error_handler_process (upd_qp i f s) = error_handler_process s"
  by (simp_all add: upd_qp_def)

text \<open>One turn of the loop on a port in use.\<close>

lemma check_ports_step:
  assumes "ports_live chs {i} s"
  shows "check_ports (Suc n) i chs s = check_ports n (i + 1) chs
    (if serves chs s i then upd_qp i qp_serve (upd_proc (hd (qp_waiting_processes (queuing_ports s ! i))) ready_from_port s) else s)"
proof -
  let ?q = "queuing_ports s ! i"
  from assms obtain c where c: "i < length (queuing_ports s)" "qp_channel ?q = Some c" "c < length chs"
    "0 < QP_MAX_MESSAGE_SIZE (queuing_port_status ?q)" "\<forall>w \<in> set (qp_waiting_processes ?q). proc_heap s w \<noteq> None"
    by (auto simp: ports_live_def Let_def split: option.splits)
  then have ne: "queuing_ports s \<noteq> []" by auto
  show ?thesis
  proof (cases "serves chs s i")
    case True
    then obtain w ws where w: "qp_waiting_processes ?q = w # ws" by (cases "qp_waiting_processes ?q") (auto simp: serves_def Let_def)
    with c(5) obtain p where "proc_heap s w = Some p" by auto
    with True w c ne show ?thesis by (simp add: serves_def Let_def pop_waiter_def)
  next
    case False
    with c ne show ?thesis by (auto simp: serves_def Let_def)
  qed
qed

definition serve_port :: "nat \<Rightarrow> pcb_s \<Rightarrow> pcb_s" where
  "serve_port i s = upd_qp i qp_serve (upd_proc (hd (qp_waiting_processes (queuing_ports s ! i))) ready_from_port s)"

lemma serve_port_other:
  assumes "k \<noteq> i"
  shows "queuing_ports (serve_port i s) ! k = queuing_ports s ! k" "serves chs (serve_port i s) k = serves chs s k"
  using assms by (simp_all add: serve_port_def serves_def)

lemma ports_live_serve: "ports_live chs I s \<Longrightarrow> i \<notin> I \<Longrightarrow> ports_live chs I (serve_port i s)"
  unfolding ports_live_def Let_def
proof
  fix k assume live: "\<forall>i \<in> I. i < length (queuing_ports s) \<and>
      (case qp_channel (queuing_ports s ! i) of None \<Rightarrow> False | Some c \<Rightarrow> c < length chs) \<and>
      0 < QP_MAX_MESSAGE_SIZE (queuing_port_status (queuing_ports s ! i)) \<and>
      (\<forall>w \<in> set (qp_waiting_processes (queuing_ports s ! i)). proc_heap s w \<noteq> None)"
    and "i \<notin> I" "k \<in> I"
  then have "queuing_ports (serve_port i s) ! k = queuing_ports s ! k" by (intro serve_port_other) auto
  then show "k < length (queuing_ports (serve_port i s)) \<and>
      (case qp_channel (queuing_ports (serve_port i s) ! k) of None \<Rightarrow> False | Some c \<Rightarrow> c < length chs) \<and>
      0 < QP_MAX_MESSAGE_SIZE (queuing_port_status (queuing_ports (serve_port i s) ! k)) \<and>
      (\<forall>w \<in> set (qp_waiting_processes (queuing_ports (serve_port i s) ! k)). proc_heap (serve_port i s) w \<noteq> None)"
    using live \<open>k \<in> I\<close> by (auto simp: serve_port_def)
qed

lemma served_insert:
  "served chs s (insert i I) = (if serves chs s i then insert (hd (qp_waiting_processes (queuing_ports s ! i))) (served chs s I)
     else served chs s I)"
  by (auto simp: served_def)

lemma after_pass_insert:
  assumes "i \<notin> I" and "i < length (queuing_ports s)"
  shows "after_pass chs I (if serves chs s i then serve_port i s else s) = after_pass chs (insert i I) s"
proof (cases "serves chs s i")
  case True
  let ?h = "hd (qp_waiting_processes (queuing_ports s ! i))" and ?t = "serve_port i s"
  have served: "served chs ?t I = served chs s I"
    using serve_port_other [where i = i and s = s] assms(1) unfolding served_def by metis
  have ports: "(if k \<in> I \<and> serves chs ?t k then qp_serve else id) (queuing_ports ?t ! k) =
      (if k \<in> insert i I \<and> serves chs s k then qp_serve else id) (queuing_ports s ! k)" for k
  proof (cases "k = i")
    case True
    then show ?thesis using \<open>serves chs s i\<close> assms by (simp add: serve_port_def)
  next
    case False
    then show ?thesis using serve_port_other(1) [OF False, of s] serve_port_other(2) [OF False, of chs s] by simp
  qed
  have heap: "(if w \<in> served chs s I then map_option ready_from_port (proc_heap ?t w) else proc_heap ?t w) =
      (if w \<in> insert ?h (served chs s I) then map_option ready_from_port (proc_heap s w) else proc_heap s w)" for w
    by (simp add: serve_port_def option.map_comp o_def ready_from_port_idem cong: option.map_cong)
  have len: "length (queuing_ports ?t) = length (queuing_ports s)" by (simp add: serve_port_def)
  have "after_pass chs I ?t = s\<lparr>
      queuing_ports := map (\<lambda>k. (if k \<in> insert i I \<and> serves chs s k then qp_serve else id) (queuing_ports s ! k)) [0..<length (queuing_ports s)],
      proc_heap := (\<lambda>w. if w \<in> insert ?h (served chs s I) then map_option ready_from_port (proc_heap s w) else proc_heap s w)\<rparr>"
    unfolding after_pass_def served ports heap len by (simp add: serve_port_def upd_qp_def upd_proc_def)
  then show ?thesis using True by (simp add: after_pass_def served_insert)
next
  case False
  then have "(\<lambda>k. (if k \<in> insert i I \<and> serves chs s k then qp_serve else id) (queuing_ports s ! k)) =
      (\<lambda>k. (if k \<in> I \<and> serves chs s k then qp_serve else id) (queuing_ports s ! k))" by auto
  with False show ?thesis by (simp add: after_pass_def served_insert)
qed

text \<open>The effect of the whole loop, in one equation.\<close>

lemma check_ports_pass:
  assumes "ports_live chs {i..<i + n} s"
  shows "check_ports n i chs s = Inr (after_pass chs {i..<i + n} s)"
  using assms
proof (induction n arbitrary: i s)
  case 0
  have "map (\<lambda>k. id (queuing_ports s ! k)) [0..<length (queuing_ports s)] = queuing_ports s" by (simp add: map_nth)
  then show ?case by (simp add: after_pass_def served_def)
next
  case (Suc n)
  let ?s = "if serves chs s i then serve_port i s else s"
  have I: "{i..<i + Suc n} = insert i {i + 1..<i + 1 + n}" by auto
  have "ports_live chs {i} s" and rest: "ports_live chs {i + 1..<i + 1 + n} s"
    using Suc.prems by (auto simp: ports_live_def)
  then have "check_ports (Suc n) i chs s = check_ports n (i + 1) chs ?s"
    by (simp add: check_ports_step serve_port_def del: check_ports.simps)
  also have "\<dots> = Inr (after_pass chs {i + 1..<i + 1 + n} ?s)"
    by (rule Suc.IH) (use rest ports_live_serve [OF rest, of i] in auto)
  also have "\<dots> = Inr (after_pass chs {i..<i + Suc n} s)"
    unfolding I using after_pass_insert [of i "{i + 1..<i + 1 + n}" s chs] Suc.prems by (simp add: ports_live_def Let_def)
  finally show ?case .
qed

lemma check_available_pass:
  assumes "ports_live chs {..<nat (max_queuing_ports s)} s"
  shows "check_available_resources_on_partition_port chs s = Inr (after_pass chs {..<nat (max_queuing_ports s)} s)"
  using check_ports_pass [of chs 0 "nat (max_queuing_ports s)" s] assms
  by (simp add: check_available_resources_on_partition_port_def lessThan_atLeast0)

section \<open>Blocked processes\<close>

text \<open>
  The current process \<open>r\<close> of \<open>b\<close> may block on the destination port \<open>j\<close>, whose channel \<open>c\<close> is
  empty; every port of the array is in use, and \<open>r\<close> waits nowhere.
\<close>

definition may_block :: "krnl_queuing_channel_s list \<Rightarrow> pcb_s \<Rightarrow> nat \<Rightarrow> nat \<Rightarrow> pref \<Rightarrow> process_s \<Rightarrow> bool" where
  "may_block chs b j c r p \<longleftrightarrow> queuing_inv chs b \<and> j < nat (queuing_port_count b) \<and> j < nat (max_queuing_ports b) \<and>
     ports_live chs {..<nat (max_queuing_ports b)} b \<and>
     qp_channel (queuing_ports b ! j) = Some c \<and>
     QP_PORT_DIRECTION (queuing_port_status (queuing_ports b ! j)) = DESTINATION \<and>
     qp_waiting_processes (queuing_ports b ! j) = [] \<and>
     (\<forall>k < length (queuing_ports b). r \<notin> set (qp_waiting_processes (queuing_ports b ! k))) \<and>
     process_current b = Some r \<and> proc_heap b r = Some p \<and> owned_mutex_id p = NO_MUTEX_OWNED \<and>
     error_handler_process b \<noteq> Some r \<and> current_nb_messages (chs ! c) = 0"

definition blocked_receiver :: "nat \<Rightarrow> addr \<Rightarrow> int \<Rightarrow> u64 \<Rightarrow> process_s \<Rightarrow> process_s" where
  "blocked_receiver j ad tmo up p = set_context (Ctx_Resume (RP_RECEIVE_QUEUING j ad tmo))
     ((set_state WAITING (if tmo \<noteq> INFINITE_TIME_VALUE then p\<lparr>time_counter := i64_of up + tmo\<rparr> else p))\<lparr>
       waiting_queuing_port := Some j\<rparr>)"

lemma receive_blocks:
  assumes m: "may_block chs b j c r p" and tmo: "\<not> bad_delay up tmo" "tmo \<noteq> 0"
  shows "\<exists>b'. RECEIVE_QUEUING_MESSAGE (int j + 1) tmo ad up chs b = (chs, b', Yield) \<and>
    queuing_ports b' = (queuing_ports b)[j := qp_enter (QUEUING_DISCIPLINE (queuing_ports b ! j)) b' r (queuing_ports b ! j)] \<and>
    max_queuing_ports b' = max_queuing_ports b \<and>
    proc_heap b' = (proc_heap b)(r \<mapsto> blocked_receiver j ad tmo up p) \<and> mem b' = mem b"
proof -
  note m = m [unfolded may_block_def]
  let ?b' = "fst (qp_block (RP_RECEIVE_QUEUING j ad tmo) j tmo up r b)"
  have c: "c < length chs" using m queuing_inv_nth(1) by blast
  have q: "qp_waiting_processes (queuing_ports b ! j) = []" using m by blast
  have "RECEIVE_QUEUING_MESSAGE (int j + 1) tmo ad up chs b = (chs, qp_block (RP_RECEIVE_QUEUING j ad tmo) j tmo up r b)"
    using m tmo c find_queuing_port_by_id_eq [of chs b j]
    by (simp add: RECEIVE_QUEUING_MESSAGE_def with_current_chan_def with_channel_def)
  moreover have "snd (qp_block (RP_RECEIVE_QUEUING j ad tmo) j tmo up r b) = Yield"
    by (simp add: qp_block_def Let_def yield_to_partition_def)
  moreover have "queuing_ports ?b' = (queuing_ports b)[j := qp_enter (QUEUING_DISCIPLINE (queuing_ports b ! j)) ?b' r (queuing_ports b ! j)]"
    using q by (simp add: qp_block_def Let_def yield_to_partition_def qp_enter_def enqueue_waiter_def)
  moreover have "proc_heap ?b' = (proc_heap b)(r \<mapsto> blocked_receiver j ad tmo up p)"
    using m by (auto simp: qp_block_def Let_def yield_to_partition_def blocked_receiver_def)
  moreover have "max_queuing_ports ?b' = max_queuing_ports b \<and> mem ?b' = mem b"
    by (simp add: qp_block_def Let_def yield_to_partition_def upd_proc_def start_timeout_def)
  ultimately show ?thesis by (metis prod.collapse)
qed

text \<open>Once the channel has a message, the next pass makes the receiver ready.\<close>

lemma blocked_receiver_woken:
  assumes m: "may_block chs b j c r p" and tmo: "\<not> bad_delay up tmo" "tmo \<noteq> 0"
    and len: "length chs' = length chs" and msg: "current_nb_messages (chs' ! c) > 0"
  shows "\<exists>b1 b2. RECEIVE_QUEUING_MESSAGE (int j + 1) tmo ad up chs b = (chs, b1, Yield) \<and>
    check_available_resources_on_partition_port chs' b1 = Inr b2 \<and> mem b2 = mem b \<and>
    proc_heap b2 r = Some (ready_from_port (blocked_receiver j ad tmo up p)) \<and>
    qp_channel (queuing_ports b2 ! j) = Some c"
proof -
  from receive_blocks [OF m tmo, of ad] obtain b1 where
    b1: "RECEIVE_QUEUING_MESSAGE (int j + 1) tmo ad up chs b = (chs, b1, Yield)"
    "queuing_ports b1 = (queuing_ports b)[j := qp_enter (QUEUING_DISCIPLINE (queuing_ports b ! j)) b1 r (queuing_ports b ! j)]"
    "max_queuing_ports b1 = max_queuing_ports b" "proc_heap b1 = (proc_heap b)(r \<mapsto> blocked_receiver j ad tmo up p)"
    "mem b1 = mem b" by blast
  note m = m [unfolded may_block_def]
  let ?I = "{..<nat (max_queuing_ports b)}"
  have j: "j < length (queuing_ports b)" using m queuing_inv_nth(5) by blast
  have pj: "qp_waiting_processes (queuing_ports b1 ! j) = [r]" "qp_channel (queuing_ports b1 ! j) = Some c"
    "QP_PORT_DIRECTION (queuing_port_status (queuing_ports b1 ! j)) = DESTINATION"
    "QP_MAX_MESSAGE_SIZE (queuing_port_status (queuing_ports b1 ! j)) = QP_MAX_MESSAGE_SIZE (queuing_port_status (queuing_ports b ! j))"
    using m j unfolding b1(2) by (simp_all add: qp_enter_def enqueue_waiter_def)
  have pk: "queuing_ports b1 ! k = queuing_ports b ! k" if "k \<noteq> j" for k using that unfolding b1(2) by simp
  have c: "c < length chs" using m queuing_inv_nth(1) by blast
  have lenb: "length (queuing_ports b1) = length (queuing_ports b)" by (simp add: b1(2))
  have "ports_live chs ?I b" using m by blast
  then have lk: "k < length (queuing_ports b) \<and> (case qp_channel (queuing_ports b ! k) of None \<Rightarrow> False | Some c \<Rightarrow> c < length chs) \<and>
      0 < QP_MAX_MESSAGE_SIZE (queuing_port_status (queuing_ports b ! k)) \<and>
      (\<forall>w \<in> set (qp_waiting_processes (queuing_ports b ! k)). proc_heap b w \<noteq> None)" if "k \<in> ?I" for k
    using that unfolding ports_live_def Let_def by blast
  have "ports_live chs' ?I b1"
    unfolding ports_live_def Let_def
  proof
    fix k assume k: "k \<in> ?I"
    show "k < length (queuing_ports b1) \<and> (case qp_channel (queuing_ports b1 ! k) of None \<Rightarrow> False | Some c \<Rightarrow> c < length chs') \<and>
      0 < QP_MAX_MESSAGE_SIZE (queuing_port_status (queuing_ports b1 ! k)) \<and>
      (\<forall>w \<in> set (qp_waiting_processes (queuing_ports b1 ! k)). proc_heap b1 w \<noteq> None)"
    proof (cases "k = j")
      case True
      then show ?thesis using lk [OF k] pj c len b1(4) by (simp add: lenb)
    next
      case False
      then show ?thesis using lk [OF k] pk [OF False] len b1(4) by (simp add: lenb split: option.splits)
    qed
  qed
  from check_available_pass [of chs' b1] this
  have pass: "check_available_resources_on_partition_port chs' b1 = Inr (after_pass chs' ?I b1)" by (simp add: b1(3))
  have s: "serves chs' b1 j" using pj msg by (simp add: serves_def)
  then have "r \<in> served chs' b1 ?I" using pj(1) m unfolding served_def by force
  then have "proc_heap (after_pass chs' ?I b1) r = Some (ready_from_port (blocked_receiver j ad tmo up p))"
    using b1(4) by (simp add: after_pass_def)
  moreover have "qp_channel (queuing_ports (after_pass chs' ?I b1) ! j) = Some c"
    using pj(2) j by (simp add: after_pass_def b1(2))
  moreover have "mem (after_pass chs' ?I b1) = mem b" by (simp add: after_pass_def b1(5))
  ultimately show ?thesis using b1(1) pass by blast
qed

text \<open>
  A receiver with a timeout gets its message. A process that receives from an empty
  channel with a finite timeout is blocked; when a message has arrived by the next pass of
  the partition over its ports, the process is made ready, and when it runs again before the
  timeout is over it returns \<open>NO_ERROR\<close> with the first message of the channel in its memory.
\<close>

theorem waiting_receiver_gets_message:
  assumes "may_block chs b j c r p" and "\<not> bad_delay up tmo" and "0 < tmo" and "i64_of up + tmo \<noteq> 0"
    and "length chs' = length chs" and "chan_inv (chs' ! c)" and "chan_contents (chs' ! c) = msg # rest"
  shows "\<exists>b1 b2 p2 b3 chs3. RECEIVE_QUEUING_MESSAGE (int j + 1) tmo ad up chs b = (chs, b1, Yield) \<and>
    check_available_resources_on_partition_port chs' b1 = Inr b2 \<and> proc_heap b2 r = Some p2 \<and> pstate p2 = READY \<and>
    tcb_ctx (tcb p2) = Ctx_Resume (RP_RECEIVE_QUEUING j ad tmo) \<and>
    resume_queuing (RP_RECEIVE_QUEUING j ad tmo) r p2 chs' b2 = (chs3, b3, Ret NO_ERROR (OutLen (int (length msg)))) \<and>
    mem_read (mem b3) ad (length msg) = msg \<and> chan_contents (chs3 ! c) = rest"
proof -
  have pos: "0 < unat (current_nb_messages (chs' ! c))"
    using assms(7) by (metis length_ring_contents length_greater_0_conv list.distinct(1))
  from channel.get_takes [OF assms(6) pos] assms(7) obtain ch' where
    ch': "chan_get (chs' ! c) = Inr (msg, ch')" "chan_contents ch' = rest" by auto
  have "current_nb_messages (chs' ! c) > 0" using pos by (simp add: word_less_nat_alt)
  moreover have "tmo \<noteq> 0" using assms(3) by simp
  ultimately obtain b1 b2 where
    b: "RECEIVE_QUEUING_MESSAGE (int j + 1) tmo ad up chs b = (chs, b1, Yield)"
    "check_available_resources_on_partition_port chs' b1 = Inr b2"
    "proc_heap b2 r = Some (ready_from_port (blocked_receiver j ad tmo up p))" "qp_channel (queuing_ports b2 ! j) = Some c"
    using blocked_receiver_woken [OF assms(1,2) _ assms(5)] by blast
  have c: "c < length chs'" using assms(1,5) queuing_inv_nth(1) unfolding may_block_def by metis
  let ?p = "ready_from_port (blocked_receiver j ad tmo up p)"
  have p: "pstate ?p = READY" "tcb_ctx (tcb ?p) = Ctx_Resume (RP_RECEIVE_QUEUING j ad tmo)" "time_counter ?p \<noteq> 0"
    using assms(3,4) by (simp_all add: ready_from_port_def blocked_receiver_def)
  obtain b3 where "resume_queuing (RP_RECEIVE_QUEUING j ad tmo) r ?p chs' b2 =
      (chs'[c := ch'], b3, Ret NO_ERROR (OutLen (int (length msg))))" "mem_read (mem b3) ad (length msg) = msg"
    using p(3) b(4) c ch'(1) by (simp add: resume_queuing_def with_channel_def)
  moreover have "chan_contents (chs'[c := ch'] ! c) = rest" using c ch'(2) by simp
  ultimately show ?thesis using b p(1,2) by blast
qed

text \<open>
  A receiver without a timeout never gets its message. Called with \<open>INFINITE_TIME_VALUE\<close>
  by a process whose \<open>time_counter\<close> is 0, as it is after every earlier wait, the service
  blocks, is woken by the arrival of a message, and returns \<open>TIMED_OUT\<close> with length 0,
  leaving the message in the channel.
\<close>

theorem infinite_receiver_times_out:
  assumes "may_block chs b j c r p" and "time_counter p = 0"
    and "length chs' = length chs" and "current_nb_messages (chs' ! c) > 0"
  shows "\<exists>b1 b2 p2. RECEIVE_QUEUING_MESSAGE (int j + 1) INFINITE_TIME_VALUE ad up chs b = (chs, b1, Yield) \<and>
    check_available_resources_on_partition_port chs' b1 = Inr b2 \<and> proc_heap b2 r = Some p2 \<and> pstate p2 = READY \<and>
    resume_queuing (RP_RECEIVE_QUEUING j ad INFINITE_TIME_VALUE) r p2 chs' b2 = (chs', b2, Ret TIMED_OUT (OutLen 0))"
proof -
  have "\<not> bad_delay up INFINITE_TIME_VALUE" by (simp add: bad_delay_def)
  from blocked_receiver_woken [OF assms(1) this _ assms(3,4), of ad] obtain b1 b2 where
    b: "RECEIVE_QUEUING_MESSAGE (int j + 1) INFINITE_TIME_VALUE ad up chs b = (chs, b1, Yield)"
    "check_available_resources_on_partition_port chs' b1 = Inr b2"
    "proc_heap b2 r = Some (ready_from_port (blocked_receiver j ad INFINITE_TIME_VALUE up p))" by auto
  then show ?thesis using assms(2)
    by (intro exI [of _ b1] exI [of _ b2] exI [of _ "ready_from_port (blocked_receiver j ad INFINITE_TIME_VALUE up p)"])
      (simp add: resume_queuing_def ready_from_port_def blocked_receiver_def)
qed

lemma sample_may_block: "may_block [sample_qchannel] (sample_queuing DESTINATION) 0 0 1 (sample_process 1 RUNNING 10)"
  by (simp add: may_block_def sample_queuing_inv ports_live_def sample_port_def sample_three_def)
    (simp add: sample_process_def sample_qchannel_def)

definition sample_filled :: krnl_queuing_channel_s where
  "sample_filled = sample_qchannel\<lparr>buffer_data := 7 # replicate 7 0, buffer_sizes := [1, 0], current_nb_messages := 1, write_index := 1\<rparr>"

lemma sample_filled_sel:
  "chan_inv sample_filled" "chan_contents sample_filled = [[7]]" "current_nb_messages sample_filled > 0"
  by (simp_all add: chan_inv_def sample_filled_def sample_qchannel_def ring_indices_def nth_Cons ring_contents_def chan_slot_def
      split: nat.splits)

theorem waiting_receiver_gets_message_witness:
  "\<exists>b1 b2 p2 b3 chs3. RECEIVE_QUEUING_MESSAGE 1 50 100 0 [sample_qchannel] (sample_queuing DESTINATION) = ([sample_qchannel], b1, Yield) \<and>
    check_available_resources_on_partition_port [sample_filled] b1 = Inr b2 \<and> proc_heap b2 1 = Some p2 \<and> pstate p2 = READY \<and>
    resume_queuing (RP_RECEIVE_QUEUING 0 100 50) 1 p2 [sample_filled] b2 = (chs3, b3, Ret NO_ERROR (OutLen 1)) \<and>
    mem_read (mem b3) 100 1 = [7] \<and> chan_contents (chs3 ! 0) = []"
proof -
  have "\<not> bad_delay 0 50" by (simp add: bad_delay_def time_overflow_def MAX_SYSTEM_TIME_def u64_of_def)
  then show ?thesis
    using waiting_receiver_gets_message [OF sample_may_block, of 0 50 "[sample_filled]" "[7]" "[]" 100] sample_filled_sel
    by (simp add: i64_of_def) blast
qed

theorem infinite_receiver_times_out_witness:
  "\<exists>b1 b2 p2. RECEIVE_QUEUING_MESSAGE 1 INFINITE_TIME_VALUE 100 0 [sample_qchannel] (sample_queuing DESTINATION) = ([sample_qchannel], b1, Yield) \<and>
    check_available_resources_on_partition_port [sample_filled] b1 = Inr b2 \<and> proc_heap b2 1 = Some p2 \<and> pstate p2 = READY \<and>
    resume_queuing (RP_RECEIVE_QUEUING 0 100 INFINITE_TIME_VALUE) 1 p2 [sample_filled] b2 = ([sample_filled], b2, Ret TIMED_OUT (OutLen 0))"
proof -
  have "time_counter (sample_process 1 RUNNING 10) = 0" by (simp add: sample_process_def)
  from infinite_receiver_times_out [OF sample_may_block this, of "[sample_filled]" 100 0] sample_filled_sel(3)
  show ?thesis by simp
qed

fun port_passes :: "krnl_queuing_channel_s list list \<Rightarrow> pcb_s \<Rightarrow> fault + pcb_s" where
  "port_passes [] s = Inr s"
| "port_passes (chs # css) s =
     (case check_available_resources_on_partition_port chs s of Inl f \<Rightarrow> Inl f | Inr s' \<Rightarrow> port_passes css s')"

definition waits_at_sources_only :: "pref \<Rightarrow> pcb_s \<Rightarrow> bool" where
  "waits_at_sources_only w s \<longleftrightarrow> (\<forall>q \<in> set (queuing_ports s).
     w \<in> set (qp_waiting_processes q) \<longrightarrow> QP_PORT_DIRECTION (queuing_port_status q) = SOURCE)"

lemma after_pass_port:
  assumes "k < length (queuing_ports s)"
  shows "queuing_ports (after_pass chs I s) ! k = (if k \<in> I \<and> serves chs s k then qp_serve else id) (queuing_ports s ! k)"
  using assms by (simp add: after_pass_def)

lemma after_pass_frame [simp]:
  "length (queuing_ports (after_pass chs I s)) = length (queuing_ports s)"
  "max_queuing_ports (after_pass chs I s) = max_queuing_ports s"
  "proc_heap (after_pass chs I s) w = None \<longleftrightarrow> proc_heap s w = None"
  by (auto simp: after_pass_def)

lemma ports_live_pass: "ports_live chs J s \<Longrightarrow> ports_live chs J (after_pass cs I s)"
  unfolding ports_live_def Let_def
proof
  fix k assume live: "\<forall>i \<in> J. i < length (queuing_ports s) \<and>
      (case qp_channel (queuing_ports s ! i) of None \<Rightarrow> False | Some c \<Rightarrow> c < length chs) \<and>
      0 < QP_MAX_MESSAGE_SIZE (queuing_port_status (queuing_ports s ! i)) \<and>
      (\<forall>w \<in> set (qp_waiting_processes (queuing_ports s ! i)). proc_heap s w \<noteq> None)" and k: "k \<in> J"
  then have kl: "k < length (queuing_ports s)" by blast
  have "set (qp_waiting_processes (queuing_ports (after_pass cs I s) ! k)) \<subseteq> set (qp_waiting_processes (queuing_ports s ! k))"
    using list.set_sel(2) [of "qp_waiting_processes (queuing_ports s ! k)"]
    by (cases "qp_waiting_processes (queuing_ports s ! k)") (auto simp: after_pass_port [OF kl])
  then show "k < length (queuing_ports (after_pass cs I s)) \<and>
      (case qp_channel (queuing_ports (after_pass cs I s) ! k) of None \<Rightarrow> False | Some c \<Rightarrow> c < length chs) \<and>
      0 < QP_MAX_MESSAGE_SIZE (queuing_port_status (queuing_ports (after_pass cs I s) ! k)) \<and>
      (\<forall>w \<in> set (qp_waiting_processes (queuing_ports (after_pass cs I s) ! k)). proc_heap (after_pass cs I s) w \<noteq> None)"
    using live [rule_format, OF k] by (auto simp: after_pass_port [OF kl])
qed

lemma sources_pass:
  assumes "waits_at_sources_only w s" and "\<forall>i \<in> I. i < length (queuing_ports s)"
  shows "proc_heap (after_pass chs I s) w = proc_heap s w" "waits_at_sources_only w (after_pass chs I s)"
proof -
  have "\<not> (serves chs s i \<and> w = hd (qp_waiting_processes (queuing_ports s ! i)))" if "i \<in> I" for i
    using assms(1) bspec [OF assms(2) that] nth_mem [of i "queuing_ports s"]
    by (cases "qp_waiting_processes (queuing_ports s ! i)") (auto simp: waits_at_sources_only_def serves_def Let_def)
  then have "w \<notin> served chs s I" by (auto simp: served_def)
  then show "proc_heap (after_pass chs I s) w = proc_heap s w" by (simp add: after_pass_def)
  have "w \<in> set (qp_waiting_processes (queuing_ports (after_pass chs I s) ! k)) \<longrightarrow>
      QP_PORT_DIRECTION (queuing_port_status (queuing_ports (after_pass chs I s) ! k)) = SOURCE"
    if k: "k < length (queuing_ports s)" for k
    using assms(1) nth_mem [OF k] list.set_sel(2) [of "qp_waiting_processes (queuing_ports s ! k)"]
    by (cases "qp_waiting_processes (queuing_ports s ! k)") (auto simp: after_pass_port [OF k] waits_at_sources_only_def)
  then show "waits_at_sources_only w (after_pass chs I s)"
    unfolding waits_at_sources_only_def by (metis after_pass_frame(1) in_set_conv_nth)
qed

text \<open>
  C37. A blocked sender is never woken. Whatever the channels hold on each of any number of
  passes over the ports, the queue of a source port stays as it is, and a process that waits
  at source ports only stays as it is: the test meant for source ports never holds for a port
  that \<open>CREATE_QUEUING_PORT\<close> has made.
\<close>

theorem blocked_sender_never_woken:
  assumes "\<forall>chs \<in> set css. ports_live chs {..<nat (max_queuing_ports s)} s" and "css \<noteq> []"
    and "i < nat (max_queuing_ports s)" and "QP_PORT_DIRECTION (queuing_port_status (queuing_ports s ! i)) = SOURCE"
    and "waits_at_sources_only w s"
  shows "\<exists>t. port_passes css s = Inr t \<and> queuing_ports t ! i = queuing_ports s ! i \<and> proc_heap t w = proc_heap s w"
proof -
  have "i < length (queuing_ports s)" using assms(1-3) by (cases css) (auto simp: ports_live_def Let_def)
  then show ?thesis using assms(1,3-5)
  proof (induction css arbitrary: s)
    case (Cons chs css)
    let ?I = "{..<nat (max_queuing_ports s)}" and ?t = "after_pass chs {..<nat (max_queuing_ports s)} s"
    have live: "ports_live chs ?I s" using Cons.prems(2) by simp
    then have I: "\<forall>k \<in> ?I. k < length (queuing_ports s)" by (auto simp: ports_live_def Let_def)
    have step: "check_available_resources_on_partition_port chs s = Inr ?t" by (rule check_available_pass [OF live])
    have i: "queuing_ports ?t ! i = queuing_ports s ! i"
      using Cons.prems(1,4) by (auto simp: after_pass_port serves_def Let_def)
    have "\<forall>chs \<in> set css. ports_live chs {..<nat (max_queuing_ports ?t)} ?t"
      using Cons.prems(2) ports_live_pass by simp
    with Cons.IH [of ?t] Cons.prems(1,3,4) i sources_pass [OF Cons.prems(5) I, of chs]
    have "\<exists>u. port_passes css ?t = Inr u \<and> queuing_ports u ! i = queuing_ports ?t ! i \<and> proc_heap u w = proc_heap ?t w" by simp
    then show ?case using step i sources_pass(1) [OF Cons.prems(5) I, of chs] by auto
  qed simp
qed

theorem blocked_sender_never_woken_witness:
  "\<exists>t. port_passes [[sample_filled], [sample_qchannel]]
      ((sample_queuing SOURCE)\<lparr>queuing_ports := [(sample_port SOURCE)\<lparr>qp_waiting_processes := [2]\<rparr>]\<rparr>) = Inr t \<and>
    queuing_ports t ! 0 = (sample_port SOURCE)\<lparr>qp_waiting_processes := [2]\<rparr> \<and>
    proc_heap t 2 = proc_heap sample_three 2"
proof -
  let ?s = "(sample_queuing SOURCE)\<lparr>queuing_ports := [(sample_port SOURCE)\<lparr>qp_waiting_processes := [2]\<rparr>]\<rparr>"
  have "\<forall>chs \<in> set [[sample_filled], [sample_qchannel]]. ports_live chs {..<nat (max_queuing_ports ?s)} ?s"
    by (simp add: ports_live_def sample_port_def sample_three_def)
  from blocked_sender_never_woken [OF this, of 0 2] show ?thesis
    by (simp add: waits_at_sources_only_def sample_port_def)
qed

end
