(* ===== verification/Health_Monitor.thy ===== *)
theory Health_Monitor
  imports Ring_Buffer Waiting_Queue
begin

text \<open>
  The health monitor: \<open>kernel/hm.c\<close>, the services of \<open>arinc/arinc_HM.c\<close> and the recovery
  tables of \<open>arinc/static_conf.c\<close>.

  The theory shows that an error raised by the kernel faults the process and that the error
  handler is what the partition runs next; that the error list is a first-in first-out queue
  for the handler; that a log entry holds the identifier of the partition and the message and
  disturbs no other entry; and what goes wrong when the error list is full.
\<close>

section \<open>Recovery tables\<close>

text \<open>
  The columns are \<open>DEADLINE_MISSED\<close>, \<open>APPLICATION_ERROR\<close>, \<open>NUMERIC_ERROR\<close> and a default. The
  initialisers name \<open>PARTITION_RESTART\<close>, an enumerator of \<open>START_CONDITION_TYPE\<close> with value 1,
  which is \<open>PROCESS_STOP\<close> as an action.
\<close>

definition hm_table_partition_1 :: "ERROR_ACTION_TYPE list list" where
  "hm_table_partition_1 =
     [[PROCESS_RESTART, PROCESS_STOP, PROCESS_STOP, PROCESS_STOP],
      [PROCESS_RESTART, PROCESS_STOP, PROCESS_STOP, PROCESS_STOP],
      [PROCESS_RESTART, PROCESS_STOP, PROCESS_STOP, PROCESS_STOP],
      [IGNORE, PROCESS_STOP, PROCESS_RESTART, PROCESS_STOP]]"

definition hm_table_partition_2 :: "ERROR_ACTION_TYPE list list" where
  "hm_table_partition_2 =
     [[PROCESS_RESTART, PROCESS_STOP, PROCESS_STOP, PROCESS_STOP],
      [PROCESS_RESTART, PROCESS_STOP, PROCESS_STOP, PROCESS_STOP],
      [PROCESS_RESTART, PROCESS_STOP, PROCESS_STOP, PROCESS_STOP],
      [PROCESS_REPLENISH, PROCESS_STOP, PROCESS_RESTART, PROCESS_STOP]]"

definition hm_table_module :: "ERROR_ACTION_TYPE list list" where
  "hm_table_module = [[PROCESS_REPLENISH, PROCESS_STOP, PROCESS_RESTART, PROCESS_STOP]]"

text \<open>An index outside a row of the table.\<close>

definition table_entry :: "ERROR_ACTION_TYPE list list \<Rightarrow> nat \<Rightarrow> ERROR_CODE_TYPE \<Rightarrow> ERROR_ACTION_TYPE option" where
  "table_entry table row code =
     (if row < length table \<and> error_index code < length (table ! row)
      then Some (table ! row ! error_index code) else None)"

section \<open>The log\<close>

definition hm_init :: "byte list option \<Rightarrow> int \<Rightarrow> int \<Rightarrow> hm_cb_s" where
  "hm_init buf MAX_LOG_ENTRIES MAX_LOG_ENTRY_SIZE =
     \<lparr>log_buffer = buf, hm_write_index = 0, hm_read_index = 0, nb_log_entries = 0,
      max_log_entries = MAX_LOG_ENTRIES, max_log_entry_size = MAX_LOG_ENTRY_SIZE\<rparr>"

text \<open>The bytes of a \<open>PARTITION_ID_TYPE\<close> in memory, least significant first.\<close>

definition id_bytes :: "int \<Rightarrow> byte list" where
  "id_bytes n = map (\<lambda>k. word_of_int (drop_bit (8 * k) n)) [0..<4]"

text \<open>\<open>while (i < remaining_space && msg[i] != '\0')\<close>\<close>

fun copy_string :: "nat \<Rightarrow> (addr \<Rightarrow> byte) \<Rightarrow> addr \<Rightarrow> byte list" where
  "copy_string 0 m a = []"
| "copy_string (Suc n) m a = (if m a = 0 then [] else m a # copy_string n m (a + 1))"

text \<open>The address 0 is the null pointer; a message that is null leaves an empty text.\<close>

definition hm_log_event :: "int \<Rightarrow> (addr \<Rightarrow> byte) \<Rightarrow> addr \<Rightarrow> hm_cb_s option \<Rightarrow> fault + hm_cb_s option" where
  "hm_log_event pid m msg hm =
     (case hm of None \<Rightarrow> Inr None
      | Some cb \<Rightarrow>
          (case log_buffer cb of None \<Rightarrow> Inr hm
           | Some buf \<Rightarrow>
               let remaining_space = nat (max_log_entry_size cb - 4 - 1);
                   text = (if msg = 0 then [] else copy_string remaining_space m msg);
                   entry = id_bytes pid @ text @ [0]
               in if hm_write_index cb * max_log_entry_size cb < 0 then Inl OutOfBounds
                  else case buf_write buf (nat (hm_write_index cb * max_log_entry_size cb)) entry of
                    None \<Rightarrow> Inl OutOfBounds
                  | Some buf' \<Rightarrow>
                      if max_log_entries cb = 0 then Inl DivByZero
                      else Inr (Some (cb\<lparr>log_buffer := Some buf',
                                         hm_write_index := (hm_write_index cb + 1) mod max_log_entries cb\<rparr>))))"

definition REPORT_APPLICATION_MESSAGE :: "addr \<Rightarrow> int \<Rightarrow> hm_cb_s option \<Rightarrow> pcb_s \<Rightarrow> hm_cb_s option \<times> outcome" where
  "REPORT_APPLICATION_MESSAGE MESSAGE_ADDR LEN hm s =
     (if LEN \<le> 0 then (hm, Ret INVALID_PARAM NoOut)
      else case hm_log_event (IDENTIFIER (status s)) (mem s) MESSAGE_ADDR hm of
        Inl f \<Rightarrow> (hm, Fault f)
      | Inr hm' \<Rightarrow> (hm', Ret NO_ERROR NoOut))"

section \<open>The error list\<close>

definition hm_write_error :: "ERROR_STATUS_TYPE \<Rightarrow> error_list_s \<Rightarrow> fault + error_list_s" where
  "hm_write_error e el =
     (if \<not> unat (el_write_index el) < length (process_error_list el) then Inl OutOfBounds
      else if word_of_int (max_errors el) = (0 :: u32) then Inl DivByZero
      else Inr (el\<lparr>process_error_list := (process_error_list el)[unat (el_write_index el) := e],
                   el_write_index := (el_write_index el + 1) mod word_of_int (max_errors el),
                   nb_errors := nb_errors el + 1\<rparr>))"

definition hm_read_error :: "error_list_s \<Rightarrow> fault + ERROR_STATUS_TYPE \<times> error_list_s" where
  "hm_read_error el =
     (if \<not> unat (el_read_index el) < length (process_error_list el) then Inl OutOfBounds
      else if word_of_int (max_errors el) = (0 :: u32) then Inl DivByZero
      else Inr (process_error_list el ! unat (el_read_index el),
                el\<lparr>el_read_index := (el_read_index el + 1) mod word_of_int (max_errors el),
                   nb_errors := nb_errors el - 1\<rparr>))"

section \<open>Raising errors\<close>

text \<open>
  The actions other than \<open>IGNORE\<close> only print a message; \<open>PROCESS_STOP\<close> falls in the default
  branch and goes to the module table, whose actions all only print.
\<close>

definition hm_raise_module_error :: "ERROR_STATUS_TYPE \<Rightarrow> fault + unit" where
  "hm_raise_module_error e =
     (case table_entry hm_table_module 0 (ERROR_CODE e) of None \<Rightarrow> Inl OutOfBounds | Some action \<Rightarrow> Inr ())"

definition hm_raise_partition_error :: "ERROR_STATUS_TYPE \<Rightarrow> pcb_s \<Rightarrow> fault + pcb_s" where
  "hm_raise_partition_error e s =
     (case table_entry (partition_hm_table s) (mode_index (OPERATING_MODE (status s))) (ERROR_CODE e) of
        None \<Rightarrow> Inl OutOfBounds
      | Some action \<Rightarrow>
          (case action of
             PROCESS_RESTART \<Rightarrow> Inr s
           | PROCESS_REPLENISH \<Rightarrow> Inr s
           | PARTITION_STOP \<Rightarrow> Inr s
           | IGNORE \<Rightarrow> (case is_process_id_existed s (FAILED_PROCESS_ID e) of
                         None \<Rightarrow> Inr s | Some r \<Rightarrow> Inr (upd_proc r (set_state READY) s))
           | PROCESS_STOP \<Rightarrow> (case hm_raise_module_error e of Inl f \<Rightarrow> Inl f | Inr _ \<Rightarrow> Inr s)))"

text \<open>
  \<open>ERROR_STATUS_TYPE error_status;\<close> and the assignments to it. \<open>g\<close> is what the stack held:
  \<open>FAILED_ADDRESS\<close> is never assigned, and the message is copied over the first bytes.
\<close>

definition new_error :: "ERROR_STATUS_TYPE \<Rightarrow> ERROR_CODE_TYPE \<Rightarrow> process_s \<Rightarrow> int \<Rightarrow> byte list \<Rightarrow> ERROR_STATUS_TYPE" where
  "new_error g code p len msg = g\<lparr>ERROR_CODE := code, FAILED_PROCESS_ID := process_id p, ERR_LENGTH := len,
     MESSAGE := msg @ drop (length msg) (MESSAGE g)\<rparr>"

text \<open>
  The error handler starts from its entry point when it is not already running. In
  \<open>hm_raise_error\<close> a length out of range is printed and then used: the copy leaves the array.
\<close>

definition activate_handler :: "process_s \<Rightarrow> process_s" where
  "activate_handler p = (if pstate p = DORMANT \<or> pstate p = WAITING then context_init (set_state READY p) else p)"

definition hm_raise_error :: "ERROR_STATUS_TYPE \<Rightarrow> ERROR_CODE_TYPE \<Rightarrow> addr \<Rightarrow> int \<Rightarrow> pref \<Rightarrow> service" where
  "hm_raise_error g code MESSAGE_ADDR LEN r s =
     with_proc r (\<lambda>p.
       if LEN < 0 \<or> LEN > MAX_ERROR_MESSAGE_SIZE then (s, Fault OutOfBounds)
       else
         let s1 = upd_proc r (set_state FAULTED) s;
             e = new_error g code p LEN (mem_read (mem s) MESSAGE_ADDR (nat LEN))
         in case error_handler_process s of
              None \<Rightarrow> (case hm_raise_partition_error e s1 of Inl f \<Rightarrow> (s, Fault f) | Inr s2 \<Rightarrow> (s2, Jump))
            | Some h \<Rightarrow>
                if r = h then (case hm_raise_partition_error e s1 of Inl f \<Rightarrow> (s, Fault f) | Inr s2 \<Rightarrow> (s2, Jump))
                else (case hm_write_error e (error_list_cb s1) of
                        Inl f \<Rightarrow> (s, Fault f)
                      | Inr el \<Rightarrow> with_proc h (\<lambda>ph. (upd_proc h activate_handler (s1\<lparr>error_list_cb := el\<rparr>), Jump)) s1)) s"

section \<open>Services\<close>

text \<open>
  The fresh process block holds \<open>garbage\<close>: \<open>process_id\<close>, the time capacity and the waiting
  pointers are not assigned. The deadline attribute is given \<open>-1\<close>, which is no
  \<open>DEADLINE_TYPE\<close>; nothing reads it, and the model keeps the former content.
\<close>

definition init_handler :: "process_s \<Rightarrow> tcb_s \<Rightarrow> int \<Rightarrow> process_s" where
  "init_handler garbage t n = garbage\<lparr>
     processus_status := \<lparr>DEADLINE_TIME = INFINITE_TIME_VALUE, CURRENT_PRIORITY = MAX_PRIORITY_VALUE,
       PROCESS_STATE = DORMANT,
       ATTRIBUTES = (attrs garbage)\<lparr>PERIOD := INFINITE_TIME_VALUE, BASE_PRIORITY := MAX_PRIORITY_VALUE, NAME := []\<rparr>\<rparr>,
     tcb := t, process_index := n, processor_core_affinity := DEFAULT_PROCESS_CORE_AFFINITY,
     release_point_time := 0, is_suspended := False, time_counter := 0, saved_init_delay := 0,
     owned_mutex_id := NO_MUTEX_OWNED\<rparr>"

definition CREATE_ERROR_HANDLER :: "pref \<Rightarrow> process_s \<Rightarrow> addr \<Rightarrow> nat \<Rightarrow> service" where
  "CREATE_ERROR_HANDLER new garbage ENTRY_PT STACK_SZ s =
     (if error_handler_process s \<noteq> None then (s, Ret NO_ACTION NoOut)
      else if next_stack_addr s + STACK_SZ > mr_base (data_memory s) + mr_size (data_memory s)
        then (s, Ret INVALID_CONFIG NoOut)
      else if STACK_SZ = 0 then (s, Ret INVALID_CONFIG NoOut)
      else if OPERATING_MODE (status s) = NORMAL then (s, Ret INVALID_MODE NoOut)
      else
        let s1 = s\<lparr>nbr_processes := nbr_processes s + 1\<rparr>;
            (t, s2) = ucx_process_spawn (tcb garbage) ENTRY_PT STACK_SZ True s1
        in (s2\<lparr>processes := processes s2 @ [new],
               proc_heap := (proc_heap s2)(new \<mapsto> init_handler garbage t (nbr_processes s1)),
               error_handler_process := Some new,
               error_list_cb := (error_list_cb s2)\<lparr>el_read_index := 0, el_write_index := 0, nb_errors := 0\<rparr>\<rparr>,
            Ret NO_ERROR NoOut))"

definition GET_ERROR_STATUS :: service where
  "GET_ERROR_STATUS s =
     with_current (\<lambda>r p.
       let el = error_list_cb s in
       if error_handler_process s \<noteq> Some r then (s, Ret INVALID_MODE NoOut)
       else if nb_errors el = 0 then (s, Ret NO_ACTION NoOut)
       else case hm_read_error el of
         Inl f \<Rightarrow> (s, Fault f)
       | Inr (e, el1) \<Rightarrow>
           (case error_processes_waiting_queue el1 of
              [] \<Rightarrow> (s\<lparr>error_list_cb := el1\<rparr>, Ret NO_ERROR (OutErrorStatus e))
            | w # ws \<Rightarrow> with_proc w (\<lambda>pw.
                case hm_write_error (pending_error pw) (el1\<lparr>error_processes_waiting_queue := ws\<rparr>) of
                  Inl f \<Rightarrow> (s, Fault f)
                | Inr el2 \<Rightarrow> (upd_proc w (set_state READY) (s\<lparr>error_list_cb := el2\<rparr>),
                             Ret NO_ERROR (OutErrorStatus e))) s)) s"

text \<open>
  The last part of \<open>RAISE_APPLICATION_ERROR\<close>, from \<open>hm_write_error\<close> on: the test
  \<open>a && b || c\<close> reads the state of a handler that is null.
\<close>

definition post_error :: "ERROR_STATUS_TYPE \<Rightarrow> pref \<Rightarrow> service" where
  "post_error e r s =
     (case hm_write_error e (error_list_cb s) of
        Inl f \<Rightarrow> (s, Fault f)
      | Inr el \<Rightarrow>
          let s1 = s\<lparr>error_list_cb := el\<rparr> in
          (case error_handler_process s of
             None \<Rightarrow> (s, Fault NullDeref)
           | Some h \<Rightarrow> with_proc h (\<lambda>ph.
               if pstate ph = DORMANT \<or> pstate ph = WAITING
               then yield_to_partition RP_RAISE_ERROR r (upd_proc h activate_handler s1)
               else (s1, Ret NO_ERROR NoOut)) s1))"

definition RAISE_APPLICATION_ERROR :: "ERROR_STATUS_TYPE \<Rightarrow> int \<Rightarrow> addr \<Rightarrow> int \<Rightarrow> service" where
  "RAISE_APPLICATION_ERROR g code MESSAGE_ADDR LEN s =
     with_current (\<lambda>r p.
       if LEN < 0 \<or> LEN > MAX_ERROR_MESSAGE_SIZE then (s, Ret INVALID_PARAM NoOut)
       else if code \<noteq> int (error_index APPLICATION_ERROR) then (s, Ret INVALID_PARAM NoOut)
       else
         let e = new_error g APPLICATION_ERROR p LEN (mem_read (mem s) MESSAGE_ADDR (nat LEN));
             el = error_list_cb s
         in if error_handler_process s = Some r \<or> error_handler_process s = None then
              (case hm_raise_partition_error e s of Inl f \<Rightarrow> (s, Fault f) | Inr s' \<Rightarrow> (s', Ret NO_ERROR NoOut))
            else if nb_errors el = max_errors el then
              yield_to_partition (RP_RAISE_ERROR_FULL e) r
                (upd_proc r (\<lambda>p. (set_state WAITING p)\<lparr>pending_error := e\<rparr>)
                  (s\<lparr>error_list_cb := el\<lparr>error_processes_waiting_queue := r # error_processes_waiting_queue el\<rparr>\<rparr>))
            else post_error e r s) s"

definition resume_hm :: "resume_point \<Rightarrow> pref \<Rightarrow> service" where
  "resume_hm k r s = (case k of RP_RAISE_ERROR_FULL e \<Rightarrow> post_error e r s | _ \<Rightarrow> (s, Ret NO_ERROR NoOut))"

section \<open>The error list is a ring\<close>

definition error_inv :: "error_list_s \<Rightarrow> bool" where
  "error_inv el \<longleftrightarrow> 0 \<le> nb_errors el \<and> 0 < max_errors el \<and> max_errors el < 2 ^ 31 \<and>
     ring_indices (nat (max_errors el)) (unat (el_read_index el)) (unat (el_write_index el)) (nat (nb_errors el)) \<and>
     nat (max_errors el) \<le> length (process_error_list el)"

lemma max_errors_word:
  assumes "error_inv el"
  shows "unat (word_of_int (max_errors el) :: u32) = nat (max_errors el)" "word_of_int (max_errors el) \<noteq> (0 :: u32)"
proof -
  have m: "0 < max_errors el" "max_errors el < 2 ^ 31" using assms by (auto simp: error_inv_def)
  show u: "unat (word_of_int (max_errors el) :: u32) = nat (max_errors el)"
    using m by (simp add: unat_eq_nat_uint uint_word_of_int_eq take_bit_int_eq_self)
  show "word_of_int (max_errors el) \<noteq> (0 :: u32)" using u m(1) by (metis unat_0 zero_less_nat_eq less_irrefl)
qed

lemma error_step:
  assumes "error_inv el" and "unat i < nat (max_errors el)"
  shows "unat ((i + 1) mod word_of_int (max_errors el) :: u32) = (unat i + 1) mod nat (max_errors el)"
  using unat_ring_step [of i "word_of_int (max_errors el)"] assms(2) max_errors_word(1) [OF assms(1)]
  by (simp add: word_less_nat_alt)

interpretation error_list: ring "\<lambda>el. nat (max_errors el)" "\<lambda>el. unat (el_read_index el)" "\<lambda>el. unat (el_write_index el)"
  "\<lambda>el. nat (nb_errors el)" "\<lambda>el j. process_error_list el ! j" error_inv "\<lambda>el e. True" hm_write_error hm_read_error
proof unfold_locales
  fix el e
  assume inv: "error_inv el"
  note I = inv [unfolded error_inv_def ring_indices_def]
  show "ring_indices (nat (max_errors el)) (unat (el_read_index el)) (unat (el_write_index el)) (nat (nb_errors el))"
    using inv by (simp add: error_inv_def)
  {
    assume free: "nat (nb_errors el) < nat (max_errors el)"
    have w: "unat (el_write_index el) < nat (max_errors el)" using I by auto
    let ?y = "el\<lparr>process_error_list := (process_error_list el)[unat (el_write_index el) := e],
      el_write_index := (el_write_index el + 1) mod word_of_int (max_errors el), nb_errors := nb_errors el + 1\<rparr>"
    have wl: "unat (el_write_index el) < length (process_error_list el)" using w I by linarith
    have "hm_write_error e el = Inr ?y" using wl max_errors_word(2) [OF inv] by (simp add: hm_write_error_def)
    moreover have "error_inv ?y"
      using I free by (auto simp: error_inv_def ring_indices_def error_step [OF inv w] nat_add_distrib mod_simps)
    ultimately show "\<exists>y. hm_write_error e el = Inr y \<and> error_inv y \<and> nat (max_errors y) = nat (max_errors el) \<and>
        unat (el_read_index y) = unat (el_read_index el) \<and> nat (nb_errors y) = nat (nb_errors el) + 1 \<and>
        (\<lambda>e. True) = (\<lambda>e. True) \<and>
        (\<forall>j < nat (max_errors el). process_error_list y ! j = (if j = unat (el_write_index el) then e else process_error_list el ! j))"
      using I wl by (intro exI [of _ ?y]) (auto simp: nat_add_distrib)
  next
    assume some: "0 < nat (nb_errors el)"
    have r: "unat (el_read_index el) < nat (max_errors el)" using I by auto
    let ?y = "el\<lparr>el_read_index := (el_read_index el + 1) mod word_of_int (max_errors el), nb_errors := nb_errors el - 1\<rparr>"
    have rl: "unat (el_read_index el) < length (process_error_list el)" using r I by linarith
    have get: "hm_read_error el = Inr (process_error_list el ! unat (el_read_index el), ?y)"
      using rl max_errors_word(2) [OF inv] by (simp add: hm_read_error_def)
    have nb: "nat (nb_errors el - 1) = nat (nb_errors el) - 1" by (simp add: nat_diff_distrib)
    have "unat (el_read_index el) + 1 + (nat (nb_errors el) - 1) = unat (el_read_index el) + nat (nb_errors el)" using some by simp
    then have wr: "unat (el_write_index el) = ((unat (el_read_index el) + 1) mod nat (max_errors el) + (nat (nb_errors el) - 1)) mod nat (max_errors el)"
      using I by (metis mod_add_left_eq)
    have b: "0 < nat (max_errors el)" "nat (nb_errors el) - 1 \<le> nat (max_errors el)" using I by linarith+
    have "ring_indices (nat (max_errors el)) ((unat (el_read_index el) + 1) mod nat (max_errors el)) (unat (el_write_index el)) (nat (nb_errors el) - 1)"
      unfolding ring_indices_def by (intro conjI b wr mod_less_divisor)
    then have "error_inv ?y"
      using I some by (simp add: error_inv_def error_step [OF inv r] nb)
    with get show "\<exists>y. hm_read_error el = Inr (process_error_list el ! unat (el_read_index el), y) \<and> error_inv y \<and>
        nat (max_errors y) = nat (max_errors el) \<and>
        unat (el_read_index y) = (unat (el_read_index el) + 1) mod nat (max_errors el) \<and>
        nat (nb_errors y) = nat (nb_errors el) - 1 \<and> (\<lambda>e. True) = (\<lambda>e. True) \<and>
        (\<forall>j < nat (max_errors el). process_error_list y ! j = process_error_list el ! j)"
      by (intro exI [of _ ?y]) (simp add: error_step [OF inv r] nb)
  }
qed

abbreviation pending_errors :: "error_list_s \<Rightarrow> ERROR_STATUS_TYPE list" where
  "pending_errors \<equiv> error_list.contents"

section \<open>Properties\<close>

definition log_ok :: "hm_cb_s \<Rightarrow> byte list \<Rightarrow> bool" where
  "log_ok cb buf \<longleftrightarrow> log_buffer cb = Some buf \<and> 0 \<le> hm_write_index cb \<and> hm_write_index cb < max_log_entries cb \<and>
     5 \<le> max_log_entry_size cb \<and> length buf = nat (max_log_entries cb) * nat (max_log_entry_size cb)"

lemma copy_string_le: "length (copy_string n m a) \<le> n"
  by (induction n m a rule: copy_string.induct) auto

lemma length_id_bytes [simp]: "length (id_bytes n) = 4"
  by (simp add: id_bytes_def)

text \<open>
  The health-monitor log. Logging never leaves the buffer: the entry at the write
  index receives the identifier of the partition, as much of the text as fits up to its
  terminating zero, and a zero; every other entry keeps its bytes, and the log is ready for
  the next entry, the oldest one being overwritten when the buffer is full.
\<close>

theorem hm_log_event_entry:
  assumes "log_ok cb buf" and "msg \<noteq> 0"
  shows "\<exists>cb' buf'. hm_log_event pid m msg (Some cb) = Inr (Some cb') \<and> log_ok cb' buf' \<and>
    hm_write_index cb' = (hm_write_index cb + 1) mod max_log_entries cb \<and>
    (let text = copy_string (nat (max_log_entry_size cb) - 5) m msg; off = nat (hm_write_index cb) * nat (max_log_entry_size cb) in
       buf_read buf' off (length text + 5) = Some (id_bytes pid @ text @ [0])) \<and>
    (\<forall>j. j \<noteq> nat (hm_write_index cb) \<longrightarrow>
       buf_read buf' (j * nat (max_log_entry_size cb)) (nat (max_log_entry_size cb)) =
       buf_read buf (j * nat (max_log_entry_size cb)) (nat (max_log_entry_size cb)))"
proof -
  note I = assms(1) [unfolded log_ok_def]
  let ?sz = "nat (max_log_entry_size cb)" and ?w = "nat (hm_write_index cb)"
  let ?text = "copy_string (?sz - 5) m msg"
  let ?entry = "id_bytes pid @ ?text @ [0]"
  have rem: "nat (max_log_entry_size cb - 5) = ?sz - 5" using I by simp
  have off: "nat (hm_write_index cb * max_log_entry_size cb) = ?w * ?sz" using I by (simp add: nat_mult_distrib)
  have pos: "\<not> hm_write_index cb * max_log_entry_size cb < 0" using I by (simp add: mult_less_0_iff)
  have "length ?entry = length ?text + 5" by simp
  moreover have "5 \<le> ?sz" using I by linarith
  ultimately have len: "length ?entry \<le> ?sz" using copy_string_le [of "?sz - 5" m msg] by linarith
  have w: "?w < nat (max_log_entries cb)" using I by simp
  from slot_range [OF w len] I obtain buf' where b: "buf_write buf (?w * ?sz) ?entry = Some buf'"
    by (auto simp: buf_write_def)
  let ?cb = "cb\<lparr>log_buffer := Some buf', hm_write_index := (hm_write_index cb + 1) mod max_log_entries cb\<rparr>"
  have "hm_log_event pid m msg (Some cb) = Inr (Some ?cb)"
    using I assms(2) b pos by (simp add: hm_log_event_def Let_def rem off)
  moreover have "log_ok ?cb buf'" using I buf_write_length [OF b] by (simp add: log_ok_def)
  moreover have "buf_read buf' (?w * ?sz) (length ?text + 5) = Some ?entry"
    using buf_read_write_same [OF b] by (simp add: add.commute)
  moreover have "buf_read buf' (j * ?sz) ?sz = buf_read buf (j * ?sz) ?sz" if "j \<noteq> ?w" for j
    by (rule buf_read_write_disjoint [OF b slot_disjoint [OF that order_refl len]])
  ultimately show ?thesis by (intro exI [of _ ?cb] exI [of _ buf']) (simp add: Let_def)
qed

text \<open>
  C31. Kernel errors reach the error handler. When the kernel raises an error on a process
  of a partition whose error handler is not active and whose error list has room, the
  process becomes \<open>FAULTED\<close>, the error is appended to the list, and the scheduling decision
  that follows the jump runs the error handler from its entry point, whatever else is ready.
\<close>

theorem kernel_error_runs_handler:
  assumes "wf_procs s" and "error_handler_process s = Some h" and "h \<noteq> r"
    and "proc_heap s r = Some p" and "proc_heap s h = Some ph" and "pstate ph = DORMANT \<or> pstate ph = WAITING"
    and inv: "error_inv (error_list_cb s)" and free: "nat (nb_errors (error_list_cb s)) < nat (max_errors (error_list_cb s))"
    and "0 \<le> len" and "len \<le> MAX_ERROR_MESSAGE_SIZE"
  shows "\<exists>t. hm_raise_error g code ad len r s = (t, Jump) \<and> proc_heap t r = Some (set_state FAULTED p) \<and>
    pending_errors (error_list_cb t) = pending_errors (error_list_cb s) @ [new_error g code p len (mem_read (mem s) ad (nat len))] \<and>
    process_current (snd (process_schedule t)) = Some h \<and>
    (\<exists>q. proc_heap (snd (process_schedule t)) h = Some q \<and> pstate q = RUNNING \<and>
       tcb_ctx (tcb q) = Ctx_Entry (stack (tcb ph) + stack_sz (tcb ph)) (task (tcb ph)))"
proof -
  let ?e = "new_error g code p len (mem_read (mem s) ad (nat len))"
  from error_list.put_appends [OF inv free, of ?e] obtain el where
    el: "hm_write_error ?e (error_list_cb s) = Inr el" "pending_errors el = pending_errors (error_list_cb s) @ [?e]" by auto
  let ?t = "upd_proc h activate_handler ((upd_proc r (set_state FAULTED) s)\<lparr>error_list_cb := el\<rparr>)"
  have raise: "hm_raise_error g code ad len r s = (?t, Jump)"
    using assms(2-5,9,10) el(1) by (simp add: hm_raise_error_def with_proc_def Let_def)
  have heap: "proc_heap ?t r = Some (set_state FAULTED p)" "proc_heap ?t h = Some (context_init (set_state READY ph))"
    using assms(3-6) by (auto simp: activate_handler_def)
  have eh: "error_handler_process ?t = Some h" using assms(2) by simp
  have hl: "h \<in> set (processes ?t)" using assms(1,2) by (auto simp: wf_procs_def)
  have dem: "proc_heap (demote_current ?t) h = proc_heap ?t h"
    using heap(2) by (auto simp: demote_current_def context_init_def split: option.splits)
  with heap(2) have demh: "proc_heap (demote_current ?t) h = Some (context_init (set_state READY ph))" by (simp only:)
  from dem have "error_handler_ready (demote_current ?t) = Some h"
    using eh heap(2) by (simp add: error_handler_ready_def context_init_def del: proc_heap_upd_proc)
  then have "process_current (snd (process_schedule ?t)) = Some h"
    "proc_heap (snd (process_schedule ?t)) h = Some (set_state RUNNING (context_init (set_state READY ph)))"
    using hl demh by (simp_all add: process_schedule_def Let_def)
  with raise heap(1) el(2) show ?thesis by (intro exI [of _ ?t]) (simp add: context_init_def)
qed

text \<open>The waiting queue is not part of the ring.\<close>

lemma error_list_queue [simp]:
  "error_inv (el\<lparr>error_processes_waiting_queue := q\<rparr>) = error_inv el"
  "pending_errors (el\<lparr>error_processes_waiting_queue := q\<rparr>) = pending_errors el"
  by (simp_all add: error_inv_def)

lemma error_queue_kept:
  "hm_write_error e el = Inr el' \<Longrightarrow> error_processes_waiting_queue el' = error_processes_waiting_queue el \<and> max_errors el' = max_errors el"
  "hm_read_error el = Inr (x, el') \<Longrightarrow> error_processes_waiting_queue el' = error_processes_waiting_queue el \<and> max_errors el' = max_errors el"
  by (auto simp: hm_write_error_def hm_read_error_def split: if_splits)

text \<open>
  The error list is first in, first out. An application error raised by a process of a
  partition with an error handler and room in the list is appended to the list, and the
  handler is made ready if it was not active; the handler, reading a list that is not empty
  with nobody waiting, gets the first error and removes it. A process that is not the
  handler gets \<open>INVALID_MODE\<close>.
\<close>

theorem error_list_fifo:
  assumes "process_current s = Some r" and "proc_heap s r = Some p" and "error_handler_process s = Some h"
    and "proc_heap s h = Some ph" and inv: "error_inv (error_list_cb s)"
  shows "(r \<noteq> h \<and> 0 \<le> len \<and> len \<le> MAX_ERROR_MESSAGE_SIZE \<and> nb_errors (error_list_cb s) < max_errors (error_list_cb s) \<longrightarrow>
      (\<exists>t oc. RAISE_APPLICATION_ERROR g 1 ad len s = (t, oc) \<and> \<not> is_fault oc \<and>
         pending_errors (error_list_cb t) =
           pending_errors (error_list_cb s) @ [new_error g APPLICATION_ERROR p len (mem_read (mem s) ad (nat len))] \<and>
         proc_heap t h = Some (activate_handler ph))) \<and>
    (r = h \<and> pending_errors (error_list_cb s) = e # rest \<and> error_processes_waiting_queue (error_list_cb s) = [] \<longrightarrow>
      (\<exists>t. GET_ERROR_STATUS s = (t, Ret NO_ERROR (OutErrorStatus e)) \<and> pending_errors (error_list_cb t) = rest)) \<and>
    (r \<noteq> h \<longrightarrow> GET_ERROR_STATUS s = (s, Ret INVALID_MODE NoOut))"
proof (intro conjI impI)
  let ?e = "new_error g APPLICATION_ERROR p len (mem_read (mem s) ad (nat len))"
  have cur: "with_current k s = k r p" for k using assms(1,2) by (simp add: with_current_def with_proc_def)
  {
    assume a: "r \<noteq> h \<and> 0 \<le> len \<and> len \<le> MAX_ERROR_MESSAGE_SIZE \<and> nb_errors (error_list_cb s) < max_errors (error_list_cb s)"
    then have "nat (nb_errors (error_list_cb s)) < nat (max_errors (error_list_cb s))" using inv by (simp add: error_inv_def)
    from error_list.put_appends [OF inv this, of ?e] obtain el where
      el: "hm_write_error ?e (error_list_cb s) = Inr el" "pending_errors el = pending_errors (error_list_cb s) @ [?e]" by auto
    have raise: "RAISE_APPLICATION_ERROR g 1 ad len s = post_error ?e r s"
      using a assms(3) by (simp add: RAISE_APPLICATION_ERROR_def cur error_index_def Let_def)
    show "\<exists>t oc. RAISE_APPLICATION_ERROR g 1 ad len s = (t, oc) \<and> \<not> is_fault oc \<and>
         pending_errors (error_list_cb t) = pending_errors (error_list_cb s) @ [?e] \<and> proc_heap t h = Some (activate_handler ph)"
      using raise el assms(3,4) a
      by (auto simp: post_error_def Let_def with_proc_def yield_to_partition_def activate_handler_def)
  next
    assume a: "r = h \<and> pending_errors (error_list_cb s) = e # rest \<and> error_processes_waiting_queue (error_list_cb s) = []"
    then have pos: "0 < nat (nb_errors (error_list_cb s))"
      by (metis length_greater_0_conv length_ring_contents list.distinct(1))
    from error_list.get_takes [OF inv pos] a obtain el where
      el: "hm_read_error (error_list_cb s) = Inr (e, el)" "pending_errors el = rest" by auto
    then show "\<exists>t. GET_ERROR_STATUS s = (t, Ret NO_ERROR (OutErrorStatus e)) \<and> pending_errors (error_list_cb t) = rest"
      using a assms(3) pos error_queue_kept(2) [OF el(1)] by (simp add: GET_ERROR_STATUS_def cur Let_def)
  next
    assume "r \<noteq> h"
    then show "GET_ERROR_STATUS s = (s, Ret INVALID_MODE NoOut)" using assms(3) by (simp add: GET_ERROR_STATUS_def cur Let_def)
  }
qed

text \<open>Reading one error of a full list and storing another one twice.\<close>

lemma overfull_list:
  assumes inv: "error_inv el" and full: "nb_errors el = max_errors el" and big: "1 < max_errors el"
    and contents: "pending_errors el = e0 # rest"
  shows "\<exists>el1 el2 el4 el5. hm_read_error el = Inr (e0, el1) \<and>
    hm_write_error e (el1\<lparr>error_processes_waiting_queue := q\<rparr>) = Inr el2 \<and> pending_errors el2 = rest @ [e] \<and>
    hm_write_error e el2 = Inr el4 \<and> nb_errors el4 = max_errors el4 + 1 \<and> hm_read_error el4 = Inr (e, el5)"
proof -
  have pos: "0 < nat (nb_errors el)" using full big by simp
  from error_list.get_takes [OF inv pos] contents obtain el1 where
    el1: "hm_read_error el = Inr (e0, el1)" "error_inv el1" "pending_errors el1 = rest" by auto
  have nb1: "nb_errors el1 = max_errors el1 - 1" "1 < max_errors el1"
    using el1(1) full big by (auto simp: hm_read_error_def split: if_splits)
  then have "nat (nb_errors el1) < nat (max_errors el1)" by simp
  with error_list.put_appends [of "el1\<lparr>error_processes_waiting_queue := q\<rparr>" e] el1(2,3) obtain el2 where
    el2: "hm_write_error e (el1\<lparr>error_processes_waiting_queue := q\<rparr>) = Inr el2" "error_inv el2" "pending_errors el2 = rest @ [e]"
    by auto
  have nb2: "nb_errors el2 = max_errors el2" "1 < max_errors el2"
    using el2(1) nb1 by (auto simp: hm_write_error_def split: if_splits)
  let ?w = "unat (el_write_index el2)"
  have w: "?w < length (process_error_list el2)" "?w = unat (el_read_index el2)"
    using el2(2) nb2 by (auto simp: error_inv_def ring_indices_def)
  let ?el4 = "el2\<lparr>process_error_list := (process_error_list el2)[?w := e],
    el_write_index := (el_write_index el2 + 1) mod word_of_int (max_errors el2), nb_errors := nb_errors el2 + 1\<rparr>"
  have "hm_write_error e el2 = Inr ?el4" using w(1) max_errors_word(2) [OF el2(2)] by (simp add: hm_write_error_def)
  moreover have "\<exists>el5. hm_read_error ?el4 = Inr (e, el5)"
    using w max_errors_word(2) [OF el2(2)] by (simp add: hm_read_error_def)
  moreover have "nb_errors ?el4 = max_errors ?el4 + 1" using nb2 by simp
  ultimately show ?thesis using el1(1) el2(1,3) by blast
qed

lemma read_error_queue:
  "hm_read_error el = Inr (e, el1) \<Longrightarrow> hm_read_error (el\<lparr>error_processes_waiting_queue := q\<rparr>) = Inr (e, el1\<lparr>error_processes_waiting_queue := q\<rparr>)"
  by (auto simp: hm_read_error_def split: if_splits)

text \<open>
  A full error list loses an error and records another twice. When a process raises an
  error on a full list it waits; the handler's next \<open>GET_ERROR_STATUS\<close> reads the oldest error
  and stores the waiting error in the list; when the process runs again it stores its error a
  second time. The count then exceeds the size of the list, and the place of the oldest
  unread error has been overwritten: the next error read is the new one.
\<close>

theorem full_error_list_loses_error:
  assumes "process_current s = Some r" and "proc_heap s r = Some p" and "error_handler_process s = Some h" and "r \<noteq> h"
    and "proc_heap s h = Some ph" and inv: "error_inv (error_list_cb s)"
    and full: "nb_errors (error_list_cb s) = max_errors (error_list_cb s)" and "1 < max_errors (error_list_cb s)"
    and contents: "pending_errors (error_list_cb s) = e0 # rest" and "error_processes_waiting_queue (error_list_cb s) = []"
    and "0 \<le> len" and "len \<le> MAX_ERROR_MESSAGE_SIZE" and "e = new_error g APPLICATION_ERROR p len (mem_read (mem s) ad (nat len))"
  shows "\<exists>s1 s3 s4 oc el. RAISE_APPLICATION_ERROR g 1 ad len s = (s1, Yield) \<and>
    GET_ERROR_STATUS (s1\<lparr>process_current := Some h\<rparr>) = (s3, Ret NO_ERROR (OutErrorStatus e0)) \<and>
    pending_errors (error_list_cb s3) = rest @ [e] \<and> resume_hm (RP_RAISE_ERROR_FULL e) r s3 = (s4, oc) \<and>
    nb_errors (error_list_cb s4) = max_errors (error_list_cb s4) + 1 \<and> hm_read_error (error_list_cb s4) = Inr (e, el)"
proof -
  let ?el = "error_list_cb s"
  let ?s1 = "fst (yield_to_partition (RP_RAISE_ERROR_FULL e) r
     (upd_proc r (\<lambda>p. (set_state WAITING p)\<lparr>pending_error := e\<rparr>) (s\<lparr>error_list_cb := ?el\<lparr>error_processes_waiting_queue := [r]\<rparr>\<rparr>)))"
  have raise: "RAISE_APPLICATION_ERROR g 1 ad len s = (?s1, Yield)"
    using assms by (simp add: RAISE_APPLICATION_ERROR_def with_current_def with_proc_def error_index_def Let_def yield_to_partition_def)
  from overfull_list [OF inv full assms(8) contents, of e "[]"] obtain el1 el2 el4 el5 where
    el: "hm_read_error ?el = Inr (e0, el1)" "hm_write_error e (el1\<lparr>error_processes_waiting_queue := []\<rparr>) = Inr el2"
    "pending_errors el2 = rest @ [e]" "hm_write_error e el2 = Inr el4" "nb_errors el4 = max_errors el4 + 1"
    "hm_read_error el4 = Inr (e, el5)" by (elim exE conjE) (rule that)
  let ?s3 = "upd_proc r (set_state READY) ((?s1\<lparr>process_current := Some h\<rparr>)\<lparr>error_list_cb := el2\<rparr>)"
  have pr: "proc_heap ?s1 r = Some (set_context (Ctx_Resume (RP_RAISE_ERROR_FULL e)) ((set_state WAITING p)\<lparr>pending_error := e\<rparr>))"
    "proc_heap ?s1 h = Some ph" "error_list_cb ?s1 = ?el\<lparr>error_processes_waiting_queue := [r]\<rparr>" "error_handler_process ?s1 = Some h"
    using assms(2-5) by (simp_all add: yield_to_partition_def)
  have get: "GET_ERROR_STATUS (?s1\<lparr>process_current := Some h\<rparr>) = (?s3, Ret NO_ERROR (OutErrorStatus e0))"
    using pr read_error_queue [OF el(1)] el(2) full assms(8)
    by (simp add: GET_ERROR_STATUS_def with_current_def with_proc_def Let_def del: proc_heap_upd_proc)
  have h3: "proc_heap ?s3 h = Some ph" "error_handler_process ?s3 = Some h" "error_list_cb ?s3 = el2"
    using pr(2,4) assms(4) by simp_all
  have "\<exists>s4 oc. resume_hm (RP_RAISE_ERROR_FULL e) r ?s3 = (s4, oc) \<and> error_list_cb s4 = el4"
    using h3 el(4)
    by (simp add: resume_hm_def post_error_def Let_def with_proc_def yield_to_partition_def split: if_splits del: proc_heap_upd_proc)
  then obtain s4 oc where s4: "resume_hm (RP_RAISE_ERROR_FULL e) r ?s3 = (s4, oc)" "error_list_cb s4 = el4" by blast
  show ?thesis
  proof (intro exI conjI)
    show "RAISE_APPLICATION_ERROR g 1 ad len s = (?s1, Yield)" by (rule raise)
    show "GET_ERROR_STATUS (?s1\<lparr>process_current := Some h\<rparr>) = (?s3, Ret NO_ERROR (OutErrorStatus e0))" by (rule get)
    show "resume_hm (RP_RAISE_ERROR_FULL e) r ?s3 = (s4, oc)" by (rule s4(1))
    show "pending_errors (error_list_cb ?s3) = rest @ [e]" unfolding h3(3) by (rule el(3))
    show "nb_errors (error_list_cb s4) = max_errors (error_list_cb s4) + 1" unfolding s4(2) by (rule el(5))
    show "hm_read_error (error_list_cb s4) = Inr (e, el5)" unfolding s4(2) by (rule el(6))
  qed
qed

section \<open>Evaluated instances\<close>

definition sample_handler :: "PROCESS_STATE_TYPE \<Rightarrow> pcb_s" where
  "sample_handler st = sample_three\<lparr>error_handler_process := Some 3,
     proc_heap := (proc_heap sample_three)(3 \<mapsto> sample_process 3 st MAX_PRIORITY_VALUE), mem := (\<lambda>x. of_nat x)\<rparr>"

lemma sample_handler_sel [simp]:
  "error_handler_process (sample_handler st) = Some 3" "processes (sample_handler st) = [1, 2, 3]"
  "process_current (sample_handler st) = Some 1" "proc_heap (sample_handler st) 1 = Some (sample_process 1 RUNNING 10)"
  "proc_heap (sample_handler st) 3 = Some (sample_process 3 st MAX_PRIORITY_VALUE)"
  "mem (sample_handler st) = (\<lambda>x. of_nat x)"
  "error_list_cb (sample_handler st) = \<lparr>el_read_index = 0, el_write_index = 0, nb_errors = 0, max_errors = 2,
     process_error_list = [sample_error, sample_error], error_processes_waiting_queue = []\<rparr>"
  by (simp_all add: sample_handler_def sample_three_def)

lemma sample_handler_inv: "error_inv (error_list_cb (sample_handler st))"
  by (simp add: error_inv_def ring_indices_def)

theorem hm_log_event_entry_witness:
  "\<exists>cb' buf'. hm_log_event 7 (\<lambda>x. of_nat x) 1 (Some (hm_init (Some (replicate 16 0)) 2 8)) = Inr (Some cb') \<and>
     log_buffer cb' = Some buf' \<and> buf_read buf' 0 8 = Some [7, 0, 0, 0, 1, 2, 3, 0] \<and> buf_read buf' 8 8 = Some (replicate 8 0)"
proof -
  let ?cb = "hm_init (Some (replicate 16 0)) 2 8"
  have ok: "log_ok ?cb (replicate 16 0)" by (simp add: log_ok_def hm_init_def)
  have t: "copy_string 3 (\<lambda>x. of_nat x) (Suc 0) = [1, 2, 3 :: byte]" by (simp add: numeral_3_eq_3)
  have i: "id_bytes 7 = [7, 0, 0, 0]" by (simp add: id_bytes_def upt_rec drop_bit_eq_div)
  have c: "nat (max_log_entry_size ?cb) = 8" "nat (hm_write_index ?cb) = 0" by (simp_all add: hm_init_def)
  from hm_log_event_entry [OF ok one_neq_zero, of 7 "\<lambda>x. of_nat x"] obtain cb' buf' where
    w: "hm_log_event 7 (\<lambda>x. of_nat x) 1 (Some ?cb) = Inr (Some cb')" "log_ok cb' buf'"
    "let text = copy_string (8 - 5) (\<lambda>x. of_nat x) 1; off = 0 * 8 in buf_read buf' off (length text + 5) = Some (id_bytes 7 @ text @ [0])"
    "\<forall>j. j \<noteq> 0 \<longrightarrow> buf_read buf' (j * 8) 8 = buf_read (replicate 16 0) (j * 8) 8"
    unfolding c by (elim exE conjE) (rule that)
  from w(3) have "buf_read buf' 0 8 = Some [7, 0, 0, 0, 1, 2, 3, 0]" by (simp add: t i Let_def)
  moreover have "buf_read (replicate 16 0) 8 8 = Some (replicate 8 (0 :: byte))" by (simp add: buf_read_def)
  with w(4) [rule_format, of 1] have "buf_read buf' 8 8 = Some (replicate 8 0)" by (simp only: mult_1 one_neq_zero not_False_eq_True)
  ultimately show ?thesis using w(1,2) by (auto simp: log_ok_def)
qed

theorem kernel_error_runs_handler_witness:
  "\<exists>t. hm_raise_error sample_error DEADLINE_MISSED 10 2 1 (sample_handler DORMANT) = (t, Jump) \<and>
     pending_errors (error_list_cb t) = [new_error sample_error DEADLINE_MISSED (sample_process 1 RUNNING 10) 2 [10, 11]] \<and>
     process_current (snd (process_schedule t)) = Some 3"
proof -
  have wf: "wf_procs (sample_handler DORMANT)" by (simp add: wf_procs_def) (simp add: sample_handler_def sample_three_def)
  have m: "mem_read (\<lambda>x. of_nat x) 10 (nat 2) = [10, 11 :: byte]" by (simp add: mem_read_def upt_rec)
  have c: "pending_errors (error_list_cb (sample_handler DORMANT)) = []" by (simp add: ring_contents_def)
  from kernel_error_runs_handler [OF wf sample_handler_sel(1) _ sample_handler_sel(4,5) _ sample_handler_inv, of 2 sample_error DEADLINE_MISSED 10]
  show ?thesis unfolding c sample_handler_sel(6) m by (auto simp: sample_process_def)
qed

theorem error_list_fifo_witness:
  "\<exists>t oc. RAISE_APPLICATION_ERROR sample_error 1 10 2 (sample_handler DORMANT) = (t, oc) \<and> \<not> is_fault oc \<and>
     pending_errors (error_list_cb t) = [new_error sample_error APPLICATION_ERROR (sample_process 1 RUNNING 10) 2 [10, 11]]"
proof -
  have m: "mem_read (\<lambda>x. of_nat x) 10 (nat 2) = [10, 11 :: byte]" by (simp add: mem_read_def upt_rec)
  have c: "pending_errors (error_list_cb (sample_handler DORMANT)) = []" by (simp add: ring_contents_def)
  have p: "(1 :: pref) \<noteq> 3 \<and> 0 \<le> (2 :: int) \<and> 2 \<le> MAX_ERROR_MESSAGE_SIZE \<and>
      nb_errors (error_list_cb (sample_handler DORMANT)) < max_errors (error_list_cb (sample_handler DORMANT))" by simp
  from mp [OF conjunct1 [OF error_list_fifo [OF sample_handler_sel(3,4,1,5) sample_handler_inv]] p, of sample_error 10]
  show ?thesis unfolding c sample_handler_sel(6) m by auto
qed

theorem full_error_list_loses_error_witness:
  "\<exists>s1 s3 s4 oc el. RAISE_APPLICATION_ERROR sample_error 1 10 2 ((sample_handler RUNNING)\<lparr>error_list_cb :=
       (error_list_cb (sample_handler RUNNING))\<lparr>nb_errors := 2\<rparr>\<rparr>) = (s1, Yield) \<and>
     GET_ERROR_STATUS (s1\<lparr>process_current := Some 3\<rparr>) = (s3, Ret NO_ERROR (OutErrorStatus sample_error)) \<and>
     resume_hm (RP_RAISE_ERROR_FULL (new_error sample_error APPLICATION_ERROR (sample_process 1 RUNNING 10) 2 [10, 11])) 1 s3 = (s4, oc) \<and>
     nb_errors (error_list_cb s4) = max_errors (error_list_cb s4) + 1 \<and>
     hm_read_error (error_list_cb s4) = Inr (new_error sample_error APPLICATION_ERROR (sample_process 1 RUNNING 10) 2 [10, 11], el)"
proof -
  let ?s = "(sample_handler RUNNING)\<lparr>error_list_cb := (error_list_cb (sample_handler RUNNING))\<lparr>nb_errors := 2\<rparr>\<rparr>"
  have m: "mem_read (mem ?s) 10 (nat 2) = [10, 11 :: byte]" by (simp add: mem_read_def upt_rec)
  have inv: "error_inv (error_list_cb ?s)" by (simp add: error_inv_def ring_indices_def)
  have c: "pending_errors (error_list_cb ?s) = sample_error # [sample_error]" by (simp add: ring_contents_def upt_rec)
  have p: "process_current ?s = Some 1" "proc_heap ?s 1 = Some (sample_process 1 RUNNING 10)" "error_handler_process ?s = Some 3"
    "proc_heap ?s 3 = Some (sample_process 3 RUNNING MAX_PRIORITY_VALUE)" "nb_errors (error_list_cb ?s) = max_errors (error_list_cb ?s)"
    "1 < max_errors (error_list_cb ?s)" "error_processes_waiting_queue (error_list_cb ?s) = []"
    by (simp_all add: sample_handler_def sample_three_def)
  from full_error_list_loses_error [OF p(1-3) _ p(4) inv p(5,6) c p(7) _ _ refl, of 2 sample_error 10]
  have "\<exists>s1 s3 s4 oc el. RAISE_APPLICATION_ERROR sample_error 1 10 2 ?s = (s1, Yield) \<and>
     GET_ERROR_STATUS (s1\<lparr>process_current := Some 3\<rparr>) = (s3, Ret NO_ERROR (OutErrorStatus sample_error)) \<and>
     pending_errors (error_list_cb s3) = [sample_error] @ [new_error sample_error APPLICATION_ERROR (sample_process 1 RUNNING 10) 2 [10, 11]] \<and>
     resume_hm (RP_RAISE_ERROR_FULL (new_error sample_error APPLICATION_ERROR (sample_process 1 RUNNING 10) 2 [10, 11])) 1 s3 = (s4, oc) \<and>
     nb_errors (error_list_cb s4) = max_errors (error_list_cb s4) + 1 \<and>
     hm_read_error (error_list_cb s4) = Inr (new_error sample_error APPLICATION_ERROR (sample_process 1 RUNNING 10) 2 [10, 11], el)"
    unfolding m by simp
  then show ?thesis by (elim exE conjE) (intro exI conjI)
qed

end
