(* ===== verification/Partition_Services.thy ===== *)
theory Partition_Services
  imports Semaphore Event Blackboard Buffer Queuing_Port Health_Monitor
begin

text \<open>
  The life of a partition: \<open>partition_init\<close> of \<open>kernel/partition.c\<close>, and of
  \<open>arinc/arinc_partition.c\<close> the loop \<open>partition_OS\<close> that every partition runs, the mode
  transitions and the status services.

  The theory shows that a partition starts in a state that satisfies the invariants of all
  its resources, what entering mode \<open>NORMAL\<close> does to
  each process, that a process whose delay is over and that has the highest priority is what
  the partition continues at the next tick, and that a restart leaves freed processes in the
  waiting queues.
\<close>

section \<open>Initialisation\<close>

text \<open>The arguments of \<open>partition_init\<close>, which are the fields of \<open>struct PartitionConfig\<close>.\<close>

record PartitionConfig =
  cf_period :: int
  cf_duration :: int
  cf_identifier :: int
  cf_num_assigned_cores :: int
  cf_name :: string
  cf_code :: MEMORY_REGION_TYPE
  cf_data :: MEMORY_REGION_TYPE
  cf_entry_point :: addr
  cf_is_system_partition :: bool
  cf_sampling_ports :: "sampling_port_s list"
  cf_max_sampling_ports :: int
  cf_sampling_port_count :: int
  cf_max_sampling_port_data_size :: int
  cf_queuing_ports :: "queuing_port_s list"
  cf_max_queuing_ports :: int
  cf_queuing_port_count :: int
  cf_max_queuing_port_data_size :: int
  cf_blackboards :: "blackboard_s list"
  cf_max_blackboards :: int
  cf_blackboard_count :: int
  cf_max_blackboard_data_size :: int
  cf_blackboards_data :: "byte list"
  cf_blackboards_size_data :: "u32 list"
  cf_buffers :: "buffer_s list"
  cf_max_buffers :: int
  cf_buffer_count :: int
  cf_max_buffer_data_size :: int
  cf_buffers_data :: "byte list"
  cf_buffers_size_data :: "u32 list"
  cf_semaphores :: "semaphore_s list"
  cf_max_semaphores :: int
  cf_semaphore_count :: int
  cf_events :: "event_s list"
  cf_max_events :: int
  cf_event_count :: int
  cf_mutexes :: "mutex_s list"
  cf_max_mutexes :: int
  cf_mutex_count :: int
  cf_error_list :: "ERROR_STATUS_TYPE list"
  cf_error_list_cb :: error_list_s
  cf_partition_hm_table :: "ERROR_ACTION_TYPE list list"
  cf_max_errors :: int

text \<open>
  \<open>garbage\<close> is the content of the block \<open>malloc\<close> returns: \<open>last_tick\<close> and the memory of the
  applications keep it. \<open>task\<close> is the address of \<open>partition_OS\<close>. The new partition is also
  appended to the task list of the native scheduler, which does not run here.
\<close>

definition partition_init :: "pcb_s \<Rightarrow> addr \<Rightarrow> PartitionConfig \<Rightarrow> kcb_s \<Rightarrow> int \<times> kcb_s" where
  "partition_init garbage tsk c k =
     (let new_pcb = garbage\<lparr>
        pcb_tcb_id := cf_identifier c mod 2 ^ 16,
        pcb_context := Ctx_Entry (mr_base (cf_data c) + PARTIION_OS_AND_MAIN_PROCESS_STACK_SIZE) tsk,
        status := \<lparr>PS_PERIOD = cf_period c, DURATION = cf_duration c, IDENTIFIER = cf_identifier c, LOCK_LEVEL = 0,
          OPERATING_MODE = COLD_START, START_CONDITION = NORMAL_START, NUM_ASSIGNED_CORES = cf_num_assigned_cores c\<rparr>,
        pcb_name := cf_name c, code_memory := cf_code c, data_memory := cf_data c,
        entry_point := cf_entry_point c, is_system_partition := cf_is_system_partition c,
        nbr_processes := 0, id_next := 0,
        next_stack_addr := mr_base (cf_data c) + PARTIION_OS_AND_MAIN_PROCESS_STACK_SIZE,
        processes := [], process_current := None, proc_heap := Map.empty,
        sampling_ports := cf_sampling_ports c, max_sampling_ports := cf_max_sampling_ports c,
        sampling_port_count := cf_sampling_port_count c,
        max_sampling_port_data_size := cf_max_sampling_port_data_size c,
        queuing_ports := cf_queuing_ports c, max_queuing_ports := cf_max_queuing_ports c,
        queuing_port_count := cf_queuing_port_count c,
        max_queuing_port_data_size := cf_max_queuing_port_data_size c,
        blackboards := cf_blackboards c, max_blackboards := cf_max_blackboards c,
        blackboard_count := cf_blackboard_count c, max_blackboard_data_size := cf_max_blackboard_data_size c,
        blackboards_data := cf_blackboards_data c, blackboards_size_data := cf_blackboards_size_data c,
        buffers := cf_buffers c, max_buffers := cf_max_buffers c, buffer_count := cf_buffer_count c,
        max_buffer_data_size := cf_max_buffer_data_size c, buffers_data := cf_buffers_data c,
        buffers_size_data := cf_buffers_size_data c,
        semaphores := cf_semaphores c, max_semaphores := cf_max_semaphores c,
        semaphore_count := cf_semaphore_count c,
        events := cf_events c, max_events := cf_max_events c, event_count := cf_event_count c,
        mutexes := cf_mutexes c, max_mutexes := cf_max_mutexes c, mutex_count := cf_mutex_count c,
        error_list_cb := (cf_error_list_cb c)\<lparr>max_errors := cf_max_errors c, error_processes_waiting_queue := [],
          process_error_list := cf_error_list c, el_read_index := 0, el_write_index := 0, nb_errors := 0\<rparr>,
        partition_hm_table := cf_partition_hm_table c, error_handler_process := None\<rparr>
      in (cf_identifier c, k\<lparr>partitions := partitions k @ [new_pcb]\<rparr>))"

section \<open>Mode transitions and status\<close>

definition GET_PARTITION_STATUS :: service where
  "GET_PARTITION_STATUS s = (s, Ret NO_ERROR (OutPartitionStatus (status s)))"

definition GET_MY_PARTITION_ID :: service where
  "GET_MY_PARTITION_ID s =
     (s, Ret (if IDENTIFIER (status s) \<noteq> 0 then NO_ERROR else NOT_AVAILABLE) (OutId (IDENTIFIER (status s))))"

text \<open>The callback that starts a process when the partition enters mode \<open>NORMAL\<close>.\<close>

definition start_process :: "u64 \<Rightarrow> int \<Rightarrow> process_s \<Rightarrow> process_s" where
  "start_process up first_release_point p =
     (if pstate p = WAITING \<and> PERIOD (attrs p) = INFINITE_TIME_VALUE \<and> saved_init_delay p = 0 \<and> \<not> is_suspended p
      then update_process_deadline (i64_of up) (set_state READY p)
      else
        let q = (if pstate p = WAITING then
                   (if PERIOD (attrs p) = INFINITE_TIME_VALUE then
                      (if saved_init_delay p \<noteq> 0
                       then p\<lparr>release_point_time := i64_of (up + u64_of (saved_init_delay p))\<rparr> else p)
                    else p\<lparr>release_point_time := first_release_point + saved_init_delay p\<rparr>)
                 else p)
        in if pstate q \<noteq> DORMANT then update_process_deadline (release_point_time q) q else q)"

text \<open>
  The loop \<open>while (processes->length != 0)\<close> of a restart: pop a process and free it. The
  service ends in a \<open>longjmp\<close> to the loop of the partition.
\<close>

fun free_processes :: "pref list \<Rightarrow> pcb_s \<Rightarrow> pcb_s" where
  "free_processes [] s = s\<lparr>processes := []\<rparr>"
| "free_processes (r # rs) s = free_processes rs (s\<lparr>processes := rs, proc_heap := (proc_heap s)(r := None)\<rparr>)"

definition set_mode :: "OPERATING_MODE_TYPE \<Rightarrow> pcb_s \<Rightarrow> pcb_s" where
  "set_mode m s = s\<lparr>status := (status s)\<lparr>OPERATING_MODE := m\<rparr>\<rparr>"

definition SET_PARTITION_MODE :: "int \<Rightarrow> u64 \<Rightarrow> mscb_s \<Rightarrow> pcb_s \<Rightarrow> mscb_s \<times> pcb_s \<times> outcome" where
  "SET_PARTITION_MODE MODE up ms s =
     (case decode_mode MODE of
        None \<Rightarrow> (ms, s, Ret INVALID_PARAM NoOut)
      | Some m \<Rightarrow>
          if m = NORMAL \<and> OPERATING_MODE (status s) = NORMAL then (ms, s, Ret NO_ACTION NoOut)
          else if m = WARM_START \<and> OPERATING_MODE (status s) = COLD_START then (ms, s, Ret INVALID_MODE NoOut)
          else let s1 = set_mode m s in
            (case m of
               IDLE \<Rightarrow> (ms\<lparr>idle_current_partition := True\<rparr>, s1\<lparr>process_current := None\<rparr>, Jump)
             | NORMAL \<Rightarrow>
                 (case arinc_time_find_first_release_point ms s1 of
                    Inl f \<Rightarrow> (ms, s1, Fault f)
                  | Inr first_release_point \<Rightarrow>
                      let s2 = foreach_process (start_process up first_release_point) s1;
                          s3 = s2\<lparr>status := (status s2)\<lparr>LOCK_LEVEL := 0\<rparr>\<rparr>
                      in (ms, (case error_handler_process s3 of None \<Rightarrow> s3
                               | Some h \<Rightarrow> upd_proc h context_init s3), Jump))
             | _ \<Rightarrow>
                 (ms, free_processes (processes s) (s1\<lparr>process_current := None, nbr_processes := 0, id_next := 0,
                        next_stack_addr := mr_base (data_memory s) + PARTIION_OS_AND_MAIN_PROCESS_STACK_SIZE,
                        error_handler_process := None\<rparr>), Jump)))"

section \<open>The loop of a partition\<close>

text \<open>What the loop hands the processor to.\<close>

datatype os_next = Run_Entry addr | Run_Process pref | Cpu_Idle

text \<open>Before the loop: the mutex of \<open>LOCK_PREEMPTION\<close>.\<close>

definition partition_OS_start :: "pcb_s \<Rightarrow> pcb_s" where
  "partition_OS_start s = fst (CREATE_MUTEX ''PREEMPTION_LOCK'' MAX_PRIORITY_VALUE 0 s)"

text \<open>
  One turn of the loop \<open>while (1)\<close>. In a start mode it goes back to the call of the entry
  point; otherwise it serves a new tick and dispatches.
\<close>

definition serve_tick :: "u64 \<Rightarrow> u32 \<Rightarrow> krnl_queuing_channel_s list \<Rightarrow> pcb_s \<Rightarrow> fault + pcb_s" where
  "serve_tick up current_tick chs s =
     (if current_tick \<noteq> last_tick s
      then check_available_resources_on_partition_port chs
             (arinc_time_update_partition up (s\<lparr>last_tick := current_tick\<rparr>))
      else Inr s)"

definition partition_OS :: "u64 \<Rightarrow> u32 \<Rightarrow> krnl_queuing_channel_s list \<Rightarrow> pcb_s \<Rightarrow> fault + os_next \<times> pcb_s" where
  "partition_OS up current_tick chs s =
     (if OPERATING_MODE (status s) = COLD_START \<or> OPERATING_MODE (status s) = WARM_START
      then Inr (Run_Entry (entry_point s), s)
      else case serve_tick up current_tick chs s of
        Inl f \<Rightarrow> Inl f
      | Inr s1 \<Rightarrow>
          let s2 = snd (process_schedule s1) in
          (case process_current s2 of
             Some r \<Rightarrow> if OPERATING_MODE (status s2) = NORMAL then Inr (Run_Process r, s2) else Inr (Cpu_Idle, s2)
           | None \<Rightarrow> Inr (Cpu_Idle, s2)))"

section \<open>Configurations\<close>

text \<open>What the static configuration of a partition must satisfy.\<close>

definition conf_ok :: "PartitionConfig \<Rightarrow> bool" where
  "conf_ok c \<longleftrightarrow> cf_sampling_port_count c = 0 \<and> cf_queuing_port_count c = 0 \<and> cf_blackboard_count c = 0 \<and>
     cf_buffer_count c = 0 \<and> cf_semaphore_count c = 0 \<and> cf_event_count c = 0 \<and> cf_mutex_count c = 0 \<and>
     0 \<le> cf_max_blackboard_data_size c \<and> cf_max_blackboard_data_size c < 2 ^ 31 \<and>
     length (cf_blackboards c) \<le> length (cf_blackboards_size_data c) \<and>
     length (cf_blackboards c) * nat (cf_max_blackboard_data_size c) \<le> length (cf_blackboards_data c) \<and>
     0 < cf_max_errors c \<and> cf_max_errors c < 2 ^ 31 \<and> nat (cf_max_errors c) \<le> length (cf_error_list c)"

text \<open>
  A new partition satisfies every invariant. For a configuration whose resource
  counters are 0 and whose arrays have the configured sizes, \<open>partition_init\<close> appends a
  partition, in mode \<open>COLD_START\<close>, without processes, for which the invariants of processes,
  mutexes, semaphores, events, blackboards, sampling ports, queuing ports and the error list
  hold, whatever the memory held before; the partitions there already are not touched.
\<close>

theorem partition_init_establishes_invariants:
  assumes "conf_ok c"
  shows "\<exists>s. partition_init garbage tsk c k = (cf_identifier c, k\<lparr>partitions := partitions k @ [s]\<rparr>) \<and>
    OPERATING_MODE (status s) = COLD_START \<and> processes s = [] \<and> part_inv s \<and> sem_inv s \<and> event_inv s \<and> bb_inv s \<and>
    sampling_inv sch s \<and> queuing_inv qch s \<and> error_inv (error_list_cb s) \<and> pending_errors (error_list_cb s) = []"
proof -
  obtain s where s: "partition_init garbage tsk c k = (cf_identifier c, k\<lparr>partitions := partitions k @ [s]\<rparr>)"
    and sel: "OPERATING_MODE (status s) = COLD_START" "processes s = []" "process_current s = None" "error_handler_process s = None"
    "mutex_count s = 0" "semaphore_count s = 0" "event_count s = 0" "blackboard_count s = 0" "sampling_port_count s = 0"
    "queuing_port_count s = 0" "max_blackboard_data_size s = cf_max_blackboard_data_size c" "blackboards s = cf_blackboards c"
    "blackboards_data s = cf_blackboards_data c" "blackboards_size_data s = cf_blackboards_size_data c"
    "error_list_cb s = (cf_error_list_cb c)\<lparr>max_errors := cf_max_errors c, error_processes_waiting_queue := [],
       process_error_list := cf_error_list c, el_read_index := 0, el_write_index := 0, nb_errors := 0\<rparr>"
    using assms by (simp add: partition_init_def conf_ok_def)
  have "part_inv s" by (simp add: part_inv_def mutex_inv_def wf_procs_def proc_ids_ok_def mutex_ids_ok_def mutex_excl_def
        mutex_locks_ok_def mutex_queues_ok_def one_running_def sel)
  moreover have "sem_inv s" "event_inv s" by (simp_all add: sem_inv_def event_inv_def wf_procs_def sel)
  moreover have "bb_inv s" using assms by (simp add: bb_inv_def wf_procs_def sel conf_ok_def)
  moreover have "sampling_inv sch s" "queuing_inv qch s" by (simp_all add: sampling_inv_def queuing_inv_def sel)
  moreover have "error_inv (error_list_cb s)" "pending_errors (error_list_cb s) = []"
    using assms by (simp_all add: error_inv_def ring_indices_def ring_contents_def sel conf_ok_def)
  ultimately show ?thesis using s sel(1,2) by blast
qed

section \<open>Entering normal mode\<close>

lemma foreach_process_fields [simp]:
  "status (foreach_process f s) = status s" "last_tick (foreach_process f s) = last_tick s"
  "queuing_ports (foreach_process f s) = queuing_ports s" "max_queuing_ports (foreach_process f s) = max_queuing_ports s"
proof -
  have "status (fold (\<lambda>r. upd_proc r f) rs u) = status u \<and> last_tick (fold (\<lambda>r. upd_proc r f) rs u) = last_tick u \<and>
      queuing_ports (fold (\<lambda>r. upd_proc r f) rs u) = queuing_ports u \<and>
      max_queuing_ports (fold (\<lambda>r. upd_proc r f) rs u) = max_queuing_ports u" for rs u
    by (induction rs arbitrary: u) (auto simp: upd_proc_def)
  then show "status (foreach_process f s) = status s" "last_tick (foreach_process f s) = last_tick s"
    "queuing_ports (foreach_process f s) = queuing_ports s" "max_queuing_ports (foreach_process f s) = max_queuing_ports s"
    by (simp_all add: foreach_process_def)
qed

text \<open>
  Entering mode \<open>NORMAL\<close>. Every started process of the partition gets its first release:
  an aperiodic process without delay that is not suspended is ready at once, an aperiodic
  process with a delay is released after it, and a periodic process at the first window of
  the partition that releases periodic processes, plus its delay. A dormant process stays
  dormant, and the preemption lock is off.
\<close>

theorem NORMAL_mode_starts_processes:
  assumes "wf_procs s" and "OPERATING_MODE (status s) \<noteq> NORMAL" and "arinc_time_find_first_release_point ms (set_mode NORMAL s) = Inr frp"
    and "r \<in> set (processes s)" and "proc_heap s r = Some p" and "error_handler_process s \<noteq> Some r"
  shows "\<exists>t q. SET_PARTITION_MODE 3 up ms s = (ms, t, Jump) \<and> OPERATING_MODE (status t) = NORMAL \<and> LOCK_LEVEL (status t) = 0 \<and>
    proc_heap t r = Some q \<and>
    (pstate p = DORMANT \<longrightarrow> q = p) \<and>
    (pstate p = WAITING \<and> PERIOD (attrs p) = INFINITE_TIME_VALUE \<and> saved_init_delay p = 0 \<and> \<not> is_suspended p \<longrightarrow>
       q = update_process_deadline (i64_of up) (set_state READY p)) \<and>
    (pstate p = WAITING \<and> PERIOD (attrs p) = INFINITE_TIME_VALUE \<and> saved_init_delay p \<noteq> 0 \<longrightarrow>
       pstate q = WAITING \<and> release_point_time q = i64_of (up + u64_of (saved_init_delay p))) \<and>
    (pstate p = WAITING \<and> PERIOD (attrs p) \<noteq> INFINITE_TIME_VALUE \<longrightarrow>
       pstate q = WAITING \<and> release_point_time q = frp + saved_init_delay p)"
proof -
  let ?s1 = "foreach_process (start_process up frp) (set_mode NORMAL s)"
  have d: "distinct (processes (set_mode NORMAL s))" "r \<in> set (processes (set_mode NORMAL s))"
    "proc_heap (set_mode NORMAL s) r = Some p" using assms(1,4,5) by (simp_all add: set_mode_def wf_procs_def)
  have h: "proc_heap ?s1 r = Some (start_process up frp p)" using foreach_process_heap [OF d(1)] d(2,3) by simp
  have "\<exists>t. SET_PARTITION_MODE 3 up ms s = (ms, t, Jump) \<and> OPERATING_MODE (status t) = NORMAL \<and> LOCK_LEVEL (status t) = 0 \<and>
      proc_heap t r = proc_heap ?s1 r"
    using assms(2,3,6) by (auto simp: SET_PARTITION_MODE_def decode_mode_def Let_def set_mode_def split: option.split)
  then obtain t where t: "SET_PARTITION_MODE 3 up ms s = (ms, t, Jump)" "OPERATING_MODE (status t) = NORMAL"
    "LOCK_LEVEL (status t) = 0" "proc_heap t r = Some (start_process up frp p)" using h by auto
  show ?thesis
    by (intro exI [of _ t] exI [of _ "start_process up frp p"] conjI t)
      (auto simp: start_process_def Let_def update_process_deadline_def)
qed

section \<open>A turn of the loop\<close>

lemma tick_process_prio [simp]: "cprio (tick_process up p) = cprio p" "rt_prio (tcb (tick_process up p)) = rt_prio (tcb p)"
  by (simp_all add: tick_process_def check_timeouts_def check_and_release_periodic_waiting_processes_def Let_def
      update_process_deadline_def)

lemma ready_from_port_prio [simp]: "cprio (ready_from_port p) = cprio p" "rt_prio (tcb (ready_from_port p)) = rt_prio (tcb p)"
  by (simp_all add: ready_from_port_def)

lemma prio_demote [simp]: "prio_of (demote_current s) q = prio_of s q"
  by (auto simp: prio_of_def demote_current_def split: option.splits)

lemma update_partition_fields [simp]:
  "status (arinc_time_update_partition up s) = status s" "queuing_ports (arinc_time_update_partition up s) = queuing_ports s"
  "max_queuing_ports (arinc_time_update_partition up s) = max_queuing_ports s"
  "last_tick (arinc_time_update_partition up s) = last_tick s"
  "error_handler_process (arinc_time_update_partition up s) = error_handler_process s"
  by (simp_all add: arinc_time_update_partition_def)

lemma fold_upd_live: "proc_heap (fold (\<lambda>r. upd_proc r f) rs s) w = None \<longleftrightarrow> proc_heap s w = None"
  by (induction rs arbitrary: s) auto

lemma update_partition_live: "proc_heap (arinc_time_update_partition up s) w = None \<longleftrightarrow> proc_heap s w = None"
  by (simp add: arinc_time_update_partition_def foreach_process_def fold_upd_live)

text \<open>The state in which the loop calls the scheduler after a new tick.\<close>

lemma serve_tick_spec:
  assumes wf: "wf_procs s" and live: "ports_live chs {..<nat (max_queuing_ports s)} s" and "tick \<noteq> last_tick s"
  shows "\<exists>t. serve_tick up tick chs s = Inr t \<and> processes t = processes s \<and> status t = status s \<and> last_tick t = tick \<and>
    error_handler_process t = error_handler_process s \<and>
    (\<forall>r \<in> set (processes s). \<forall>p. proc_heap s r = Some p \<longrightarrow> prio_of t r = cprio p \<and>
       (proc_heap t r = Some (tick_process up p) \<or> proc_heap t r = Some (ready_from_port (tick_process up p))))"
proof -
  let ?u = "arinc_time_update_partition up (s\<lparr>last_tick := tick\<rparr>)" and ?I = "{..<nat (max_queuing_ports s)}"
  have "ports_live chs ?I ?u" using live by (simp add: ports_live_def update_partition_live)
  then have pass: "serve_tick up tick chs s = Inr (after_pass chs ?I ?u)"
    using check_available_pass [of chs ?u] assms(3) by (simp add: serve_tick_def)
  have wfu: "wf_procs (s\<lparr>last_tick := tick\<rparr>)" using wf by (simp add: wf_procs_def)
  have heap: "proc_heap ?u r = map_option (tick_process up) (proc_heap s r)" if "r \<in> set (processes s)" for r
    using update_partition_heap [OF wfu, of r up] that by simp
  show ?thesis
    by (rule exI [of _ "after_pass chs ?I ?u"])
      (auto simp: pass after_pass_def heap prio_of_def)
qed

text \<open>
  C7. From tick to dispatch. When the loop of a partition in mode \<open>NORMAL\<close> sees a new tick,
  it first advances the timers of its processes and wakes the receivers whose channel has
  messages, and then schedules: a process that is ready after that, because its delay, its
  timeout or its release point is reached, and whose priority is above every other, is
  running and is what the loop continues.
\<close>

theorem due_process_is_dispatched:
  assumes wf: "wf_procs s" and live: "ports_live chs {..<nat (max_queuing_ports s)} s" and tick: "tick \<noteq> last_tick s"
    and mode: "OPERATING_MODE (status s) = NORMAL" and "error_handler_process s = None"
    and r: "r \<in> set (processes s)" and p: "proc_heap s r = Some p" and ready: "pstate (tick_process up p) = READY"
    and "rt_prio (tcb p) = 0" and "0 \<le> cprio p"
    and top: "\<forall>q \<in> set (processes s). q \<noteq> r \<longrightarrow> prio_of s q < cprio p"
  shows "\<exists>t q. partition_OS up tick chs s = Inr (Run_Process r, t) \<and> process_current t = Some r \<and>
    proc_heap t r = Some q \<and> pstate q = RUNNING \<and> last_tick t = tick"
proof -
  from serve_tick_spec [OF wf live tick] obtain u where
    u: "serve_tick up tick chs s = Inr u" "processes u = processes s" "status u = status s" "last_tick u = tick"
    "error_handler_process u = None"
    and h: "\<forall>r \<in> set (processes s). \<forall>p. proc_heap s r = Some p \<longrightarrow> prio_of u r = cprio p \<and>
       (proc_heap u r = Some (tick_process up p) \<or> proc_heap u r = Some (ready_from_port (tick_process up p)))"
    using assms(5) by metis
  have hr: "prio_of u r = cprio p" "\<exists>q. proc_heap u r = Some q \<and> pstate q = READY \<and> rt_prio (tcb q) = 0"
    using h [rule_format, OF r p] ready assms(9) by (auto simp: ready_from_port_def)
  then obtain q where q: "proc_heap u r = Some q" "pstate q = READY" "rt_prio (tcb q) = 0" by blast
  have dr: "proc_heap (demote_current u) r = Some q" using q by (auto simp: demote_current_def split: option.splits)
  have elig: "eligible (demote_current u) r" using r u(2) dr q(2,3) by (simp add: eligible_def)
  have others: "prio_of u v < cprio p" if v: "v \<in> set (processes s)" "v \<noteq> r" for v
  proof -
    obtain pv where "proc_heap s v = Some pv" using wf_procs_live [OF wf v(1)] by blast
    then show ?thesis using h top v by (auto simp: prio_of_def)
  qed
  have nh: "error_handler_ready (demote_current u) = None" using u(5) by (simp add: error_handler_ready_def)
  have "process_current (snd (process_schedule u)) = Some r \<and> proc_heap (snd (process_schedule u)) r = Some (set_state RUNNING q)"
  proof (cases rule: process_schedule_cases [of u])
    case (chosen v)
    have "v \<in> set (processes s)" "prio_of u r \<le> prio_of u v"
      using chosen(2) elig u(2) by (auto simp: first_highest_def eligible_def)
    then have "v = r" using others [of v] hr(1) by (cases "v = r") auto
    then show ?thesis using chosen(3,4) dr by simp
  next
    case idle
    then show ?thesis using elig hr(1) assms(10) by auto
  qed (use nh in simp)
  moreover have "last_tick (snd (process_schedule u)) = tick"
    using process_schedule_shape [of u] u(4) by (auto simp: demote_current_def upd_proc_def split: option.splits)
  ultimately show ?thesis using u(1,3) mode
    by (auto simp: partition_OS_def Let_def)
qed

text \<open>
  A restart leaves freed processes in the waiting queues. \<open>SET_PARTITION_MODE\<close> to a start
  mode frees every process and keeps the semaphores with their queues; once the partition
  runs a process again, a signal on a semaphore at which a process of the former life waited
  uses the freed memory.
\<close>

theorem restart_leaves_dangling_waiters:
  assumes "wf_procs s" and inv: "sem_inv s" and mode: "OPERATING_MODE (status s) = NORMAL"
    and i: "i < nat (semaphore_count s)" and w: "sem_waiting_processes (semaphores s ! i) = w # ws" and "r \<noteq> w"
  shows "\<exists>t. SET_PARTITION_MODE 2 up ms s = (ms, t, Jump) \<and> processes t = [] \<and> proc_heap t w = None \<and>
    (let u = t\<lparr>processes := [r], process_current := Some r, proc_heap := (proc_heap t)(r \<mapsto> p)\<rparr>
     in snd (SIGNAL_SEMAPHORE (int i + 1) u) = Fault UseAfterFree)"
proof -
  have free: "processes (free_processes rs u) = [] \<and> semaphores (free_processes rs u) = semaphores u \<and>
      semaphore_count (free_processes rs u) = semaphore_count u \<and>
      proc_heap (free_processes rs u) = (\<lambda>v. if v \<in> set rs then None else proc_heap u v)" for rs u
    by (induction rs arbitrary: u) auto
  let ?u = "(set_mode WARM_START s)\<lparr>process_current := None, nbr_processes := 0, id_next := 0,
      next_stack_addr := mr_base (data_memory s) + PARTIION_OS_AND_MAIN_PROCESS_STACK_SIZE, error_handler_process := None\<rparr>"
  let ?t = "free_processes (processes s) ?u"
  have st: "SET_PARTITION_MODE 2 up ms s = (ms, ?t, Jump)" using mode by (simp add: SET_PARTITION_MODE_def decode_mode_def Let_def)
  have ok: "sem_ok s (semaphores s ! i)" using sem_inv_nth [OF inv i] by blast
  have wp: "w \<in> set (processes s)" using ok w by (auto simp: sem_ok_def)
  then have hw: "proc_heap ?t w = None" using free [of "processes s" ?u] by simp
  let ?v = "?t\<lparr>processes := [r], process_current := Some r, proc_heap := (proc_heap ?t)(r \<mapsto> p)\<rparr>"
  have sems: "semaphores ?v = semaphores s" "semaphore_count ?v = semaphore_count s"
    using free [of "processes s" ?u] by (simp_all add: set_mode_def)
  then have find: "find_semaphore_by_id ?v (int i + 1) = int i"
    using find_semaphore_by_id_eq [OF inv i] by (simp add: find_semaphore_by_id_def)
  have "CURRENT_VALUE (semaphore_status (semaphores s ! i)) \<noteq> MAXIMUM_VALUE (semaphore_status (semaphores s ! i))"
    using ok w by (auto simp: sem_ok_def)
  then have "snd (SIGNAL_SEMAPHORE (int i + 1) ?v) = Fault UseAfterFree"
    unfolding SIGNAL_SEMAPHORE_def find Let_def nat_int sems(1)
    using w hw assms(6) by (simp add: with_current_def with_proc_def)
  then show ?thesis using st hw free [of "processes s" ?u] by (intro exI [of _ ?t]) (simp add: Let_def)
qed

section \<open>Evaluated instances\<close>

definition sample_conf :: PartitionConfig where
  "sample_conf = \<lparr>cf_period = 50, cf_duration = 20, cf_identifier = 2, cf_num_assigned_cores = 1, cf_name = ''B'',
     cf_code = sample_region, cf_data = sample_region, cf_entry_point = 4096, cf_is_system_partition = False,
     cf_sampling_ports = [], cf_max_sampling_ports = 0, cf_sampling_port_count = 0, cf_max_sampling_port_data_size = 0,
     cf_queuing_ports = [], cf_max_queuing_ports = 0, cf_queuing_port_count = 0, cf_max_queuing_port_data_size = 0,
     cf_blackboards = [], cf_max_blackboards = 0, cf_blackboard_count = 0, cf_max_blackboard_data_size = 0,
     cf_blackboards_data = [], cf_blackboards_size_data = [], cf_buffers = [], cf_max_buffers = 0, cf_buffer_count = 0,
     cf_max_buffer_data_size = 0, cf_buffers_data = [], cf_buffers_size_data = [], cf_semaphores = [],
     cf_max_semaphores = 0, cf_semaphore_count = 0, cf_events = [], cf_max_events = 0, cf_event_count = 0,
     cf_mutexes = [], cf_max_mutexes = 0, cf_mutex_count = 0, cf_error_list = [sample_error],
     cf_error_list_cb = error_list_cb sample_partition, cf_partition_hm_table = hm_table_partition_2, cf_max_errors = 1\<rparr>"

theorem partition_init_establishes_invariants_witness:
  "\<exists>s. partition_init sample_partition 64 sample_conf sample_kernel = (2, sample_kernel\<lparr>partitions := partitions sample_kernel @ [s]\<rparr>) \<and>
     OPERATING_MODE (status s) = COLD_START \<and> part_inv s \<and> sem_inv s"
proof -
  have ok: "conf_ok sample_conf" and i: "cf_identifier sample_conf = 2" by (simp_all add: conf_ok_def sample_conf_def)
  from partition_init_establishes_invariants [OF ok, of sample_partition 64 sample_kernel "[]" "[]"] show ?thesis
    unfolding i by blast
qed

definition sample_mode_state :: pcb_s where
  "sample_mode_state = (set_mode COLD_START sample_three)\<lparr>process_current := None,
     proc_heap := (proc_heap sample_three)(2 \<mapsto> sample_process 2 WAITING 20)\<rparr>"

theorem NORMAL_mode_starts_processes_witness:
  "\<exists>t q. SET_PARTITION_MODE 3 70 default_scheduler sample_mode_state = (default_scheduler, t, Jump) \<and>
     OPERATING_MODE (status t) = NORMAL \<and> proc_heap t 2 = Some q \<and> pstate q = READY"
proof -
  have wf: "wf_procs sample_mode_state" by (simp add: wf_procs_def sample_mode_state_def set_mode_def sample_three_def)
  have m: "OPERATING_MODE (status sample_mode_state) \<noteq> NORMAL" by (simp add: sample_mode_state_def set_mode_def)
  obtain frp where f: "arinc_time_find_first_release_point default_scheduler (set_mode NORMAL sample_mode_state) = Inr frp"
    by (simp add: default_scheduler_def DEFAULT_WINDOWS_def module_scheduler_init_def set_mode_def sample_mode_state_def sample_three_def
        arinc_time_find_first_release_point_def TICKS_TO_MS_def)
  have p: "2 \<in> set (processes sample_mode_state)" "proc_heap sample_mode_state 2 = Some (sample_process 2 WAITING 20)"
    "error_handler_process sample_mode_state \<noteq> Some 2" by (simp_all add: sample_mode_state_def set_mode_def sample_three_def)
  have st: "pstate (sample_process 2 WAITING 20) = WAITING" "PERIOD (attrs (sample_process 2 WAITING 20)) = INFINITE_TIME_VALUE"
    "saved_init_delay (sample_process 2 WAITING 20) = 0" "\<not> is_suspended (sample_process 2 WAITING 20)"
    "pstate (update_process_deadline (i64_of 70) (set_state READY (sample_process 2 WAITING 20))) = READY"
    by (simp_all add: sample_process_def update_process_deadline_def)
  from NORMAL_mode_starts_processes [OF wf m f p, of 70] st show ?thesis by auto
qed

theorem due_process_is_dispatched_witness:
  "\<exists>t. partition_OS 100 10 [] (sample_three\<lparr>proc_heap := (proc_heap sample_three)(3 \<mapsto> (sample_process 3 WAITING 30)\<lparr>time_counter := 90\<rparr>)\<rparr>) =
     Inr (Run_Process 3, t) \<and> process_current t = Some 3"
proof -
  let ?p = "(sample_process 3 WAITING 30)\<lparr>time_counter := 90\<rparr>"
  let ?s = "sample_three\<lparr>proc_heap := (proc_heap sample_three)(3 \<mapsto> ?p)\<rparr>"
  have wf: "wf_procs ?s" by (simp add: wf_procs_def sample_three_def)
  have live: "ports_live [] {..<nat (max_queuing_ports ?s)} ?s" by (simp add: ports_live_def sample_three_def)
  have s: "10 \<noteq> last_tick ?s" "OPERATING_MODE (status ?s) = NORMAL" "error_handler_process ?s = None" "3 \<in> set (processes ?s)"
    "proc_heap ?s 3 = Some ?p" by (simp_all add: sample_three_def)
  have r: "pstate (tick_process 100 ?p) = READY"
    by (simp add: tick_process_def check_timeouts_def check_and_release_periodic_waiting_processes_def release_due_def
        sample_process_def i64_of_def)
  have c: "rt_prio (tcb ?p) = 0" "0 \<le> cprio ?p" "\<forall>q \<in> set (processes ?s). q \<noteq> 3 \<longrightarrow> prio_of ?s q < cprio ?p"
    by (simp_all add: sample_process_def prio_of_def sample_three_def)
  from due_process_is_dispatched [OF wf live s r c] show ?thesis by blast
qed

definition sample_blocked :: pcb_s where
  "sample_blocked = sample_three\<lparr>semaphores := [\<lparr>semaphore_name = ''S'', semaphore_id = 1, sem_queuing_discipline = FIFO,
     semaphore_status = \<lparr>CURRENT_VALUE = 0, MAXIMUM_VALUE = 1, SEM_WAITING_PROCESSES = 1\<rparr>, sem_waiting_processes = [2]\<rparr>],
     semaphore_count := 1\<rparr>"

theorem restart_leaves_dangling_waiters_witness:
  "\<exists>t. SET_PARTITION_MODE 2 0 default_scheduler sample_blocked = (default_scheduler, t, Jump) \<and>
     snd (SIGNAL_SEMAPHORE 1 (t\<lparr>processes := [7], process_current := Some 7,
       proc_heap := (proc_heap t)(7 \<mapsto> sample_process 1 RUNNING 10)\<rparr>)) = Fault UseAfterFree"
proof -
  have wf: "wf_procs sample_blocked" by (simp add: wf_procs_def sample_blocked_def sample_three_def)
  have inv: "sem_inv sample_blocked" using wf
    by (simp add: sem_inv_def) (simp add: sample_blocked_def sample_three_def sem_ok_def)
  have m: "OPERATING_MODE (status sample_blocked) = NORMAL" "0 < nat (semaphore_count sample_blocked)"
    "sem_waiting_processes (semaphores sample_blocked ! 0) = 2 # []" by (simp_all add: sample_blocked_def sample_three_def)
  from restart_leaves_dangling_waiters [OF wf inv m, of 7 0 default_scheduler "sample_process 1 RUNNING 10"]
  show ?thesis by (auto simp: Let_def)
qed

end
