(* ===== verification/Service_Invariants.thy ===== *)
theory Service_Invariants
  imports Process_Transitions Partition_Services
begin

text \<open>
  Every service, every continuation of a suspended service, the tick handler, the scheduler
  and the health monitor keep an invariant of the kind of \<open>part_inv\<close>. The lemmas are proved
  once, inside \<open>resource_inv\<close>; the interpretation \<open>part_res\<close> gives them for the model.
\<close>

section \<open>Services of the resources\<close>

lemma harmless_trans: "harmless p q \<Longrightarrow> harmless q r \<Longrightarrow> harmless p r"
  by (simp add: harmless_def)

context resource_inv
begin

lemma upd_harmless: "inv s \<Longrightarrow> (\<And>p. harmless p (f p)) \<Longrightarrow> inv (upd_proc r f s)"
  by (rule upd)

lemma upd_resource_inv:
  "inv s \<Longrightarrow> inv (upd_event i f1 s)" "inv s \<Longrightarrow> inv (upd_bb i f2 s)" "inv s \<Longrightarrow> inv (upd_sem i f3 s)"
  "inv s \<Longrightarrow> inv (upd_buf i f4 s)" "inv s \<Longrightarrow> inv (upd_qp i f5 s)" "inv s \<Longrightarrow> inv (set_validity i v s)"
  unfolding upd_event_def upd_bb_def upd_sem_def upd_buf_def upd_qp_def set_validity_def by (rule fields_inv, assumption)+

lemma status_inv: "inv s \<Longrightarrow> IDENTIFIER st = IDENTIFIER (status s) \<Longrightarrow> inv (s\<lparr>status := st\<rparr>)"
  by (rule same) (simp_all add: same_procs_def)

lemmas keep = keep_current keep_proc keep_yield upd_resource_inv fields_inv start_timeout_inv upd_harmless
  wake_process_inv

lemma yieldI: "inv s \<Longrightarrow> yield_to_partition k r s = (s', o') \<Longrightarrow> inv s'"
  using keep_yield [of s k r] by simp

lemma SEM_keeps:
  "inv s \<Longrightarrow> inv (fst (CREATE_SEMAPHORE nm c m d s))"
  "inv s \<Longrightarrow> inv (fst (WAIT_SEMAPHORE sid t up s))"
  "inv s \<Longrightarrow> inv (fst (SIGNAL_SEMAPHORE sid s))"
  unfolding CREATE_SEMAPHORE_def WAIT_SEMAPHORE_def SIGNAL_SEMAPHORE_def Let_def
  by (auto simp: harmless_def intro!: keep split: option.splits list.splits)

lemma EVENT_keeps:
  "inv s \<Longrightarrow> inv (fst (CREATE_EVENT nm s))"
  "inv s \<Longrightarrow> inv (fst (RESET_EVENT e s))"
  "inv s \<Longrightarrow> inv (fst (WAIT_EVENT e t up s))"
  "inv s \<Longrightarrow> inv (fst (finish_aperiodic_wait up r p s))"
  "inv s \<Longrightarrow> inv (fst (APERIODIC_WAIT_EVENT e up s))"
  unfolding CREATE_EVENT_def RESET_EVENT_def WAIT_EVENT_def APERIODIC_WAIT_EVENT_def finish_aperiodic_wait_def Let_def
  by (auto simp: harmless_def update_process_deadline_def intro!: keep split: option.splits list.splits)

lemma SET_EVENT_keeps: "inv s \<Longrightarrow> inv (fst (SET_EVENT e s))"
  unfolding SET_EVENT_def Let_def
  by (auto simp: harmless_def intro!: keep elim!: wake_each_inv [rotated -1] split: option.splits sum.splits)

lemma store_message_keeps: "inv s \<Longrightarrow> store_message i m s = Some s' \<Longrightarrow> inv s'"
  by (auto simp: store_message_def intro!: keep split: option.splits if_splits)

lemma BLACKBOARD_keeps:
  "inv s \<Longrightarrow> inv (fst (CREATE_BLACKBOARD nm n s))"
  "inv s \<Longrightarrow> inv (fst (copy_message i a s))"
  "inv s \<Longrightarrow> inv (fst (READ_BLACKBOARD b t a up s))"
  "inv s \<Longrightarrow> inv (fst (CLEAR_BLACKBOARD b s))"
  unfolding CREATE_BLACKBOARD_def READ_BLACKBOARD_def CLEAR_BLACKBOARD_def copy_message_def Let_def
  by (auto simp: harmless_def intro!: keep split: option.splits)

lemma DISPLAY_BLACKBOARD_keeps: "inv s \<Longrightarrow> inv (fst (DISPLAY_BLACKBOARD b a n s))"
  unfolding DISPLAY_BLACKBOARD_def Let_def
  by (auto simp: harmless_def intro!: keep dest!: store_message_keeps [rotated]
      elim!: wake_each_inv [rotated -1] split: option.splits sum.splits)

lemma buffer_put_keeps: "inv s \<Longrightarrow> buffer_put i m s = Inr s' \<Longrightarrow> inv s'"
  unfolding buffer_put_def Let_def by (auto intro!: keep split: option.splits if_splits)

lemma buffer_get_keeps: "inv s \<Longrightarrow> buffer_get i s = Inr (m, s') \<Longrightarrow> inv s'"
  unfolding buffer_get_def Let_def by (auto intro!: keep split: option.splits if_splits)

lemma block_on_buffer_keeps:
  assumes "inv s" and h: "\<And>p. harmless p (rec p)"
  shows "inv (fst (block_on_buffer k k' i t up rec ent r s))"
proof -
  have "harmless p (rec ((set_state WAITING p)\<lparr>waiting_buffer := Some i\<rparr>))" for p
    by (rule harmless_trans [OF _ h]) (simp add: harmless_def)
  with assms(1) show ?thesis unfolding block_on_buffer_def Let_def by (auto intro!: keep)
qed

lemma CREATE_BUFFER_keeps: "inv s \<Longrightarrow> inv (fst (CREATE_BUFFER nm a b c s))"
  unfolding CREATE_BUFFER_def Let_def by (auto intro!: keep split: option.splits)

lemma SEND_BUFFER_keeps: "inv s \<Longrightarrow> inv (fst (SEND_BUFFER b a n t up s))"
  unfolding SEND_BUFFER_def Let_def
  by (auto simp: harmless_def intro!: keep block_on_buffer_keeps elim!: buffer_put_keeps [rotated]
      split: list.splits sum.splits)

lemma RECEIVE_BUFFER_keeps: "inv s \<Longrightarrow> inv (fst (RECEIVE_BUFFER b t a up s))"
  unfolding RECEIVE_BUFFER_def Let_def
  by (auto simp: harmless_def intro!: keep block_on_buffer_keeps elim!: buffer_put_keeps [rotated]
      dest!: buffer_get_keeps [rotated] split: list.splits sum.splits)

text \<open>Ports: the partition is the second component of the result.\<close>

lemma keep_channel:
  "inv s \<Longrightarrow> (\<And>c ch. c < length chs \<Longrightarrow> inv (fst (snd (k c ch)))) \<Longrightarrow> inv (fst (snd (with_channel chs ref k s)))"
  by (auto simp: with_channel_def split: option.splits)

lemma keep_current_chan:
  "inv s \<Longrightarrow> (\<And>r p. process_current s = Some r \<Longrightarrow> proc_heap s r = Some p \<Longrightarrow> inv (fst (snd (k r p)))) \<Longrightarrow>
   inv (fst (snd (with_current_chan chs k s)))"
  by (auto simp: with_current_chan_def split: option.splits)

lemma qp_block_keeps: "inv s \<Longrightarrow> inv (fst (qp_block k i t up r s))"
  unfolding qp_block_def Let_def by (auto simp: harmless_def intro!: keep)

lemma PORT_keeps:
  "inv s \<Longrightarrow> inv (fst (CREATE_SAMPLING_PORT tab nm x1 x2 x3 up s))"
  "inv s \<Longrightarrow> inv (fst (snd (WRITE_SAMPLING_MESSAGE pid a n up sch s)))"
  "inv s \<Longrightarrow> inv (fst (snd (READ_SAMPLING_MESSAGE pid a up sch s)))"
  "inv s \<Longrightarrow> inv (fst (CREATE_QUEUING_PORT tab nm x1 x2 x3 x4 s))"
  "inv s \<Longrightarrow> inv (fst (snd (SEND_QUEUING_MESSAGE pid a n t up chs s)))"
  "inv s \<Longrightarrow> inv (fst (snd (RECEIVE_QUEUING_MESSAGE pid t a up chs s)))"
  "inv s \<Longrightarrow> inv (fst (snd (CLEAR_QUEUING_PORT pid chs s)))"
  unfolding CREATE_SAMPLING_PORT_def WRITE_SAMPLING_MESSAGE_def READ_SAMPLING_MESSAGE_def CREATE_QUEUING_PORT_def
    SEND_QUEUING_MESSAGE_def RECEIVE_QUEUING_MESSAGE_def CLEAR_QUEUING_PORT_def Let_def
  by (auto simp: harmless_def intro!: keep keep_channel keep_current_chan qp_block_keeps
      split: option.splits sum.splits prod.splits)

lemma resume_queuing_keeps: "inv s \<Longrightarrow> inv (fst (snd (resume_queuing k r p chs s)))"
  unfolding resume_queuing_def
  by (auto simp: harmless_def intro!: keep keep_channel split: resume_point.splits sum.splits)

lemma pop_waiter_keeps: "inv s \<Longrightarrow> pop_waiter i s = Inr s' \<Longrightarrow> inv s'"
  unfolding pop_waiter_def ready_from_port_def
  by (auto simp: harmless_def intro!: keep split: list.splits if_splits)

lemma check_ports_keeps: "inv s \<Longrightarrow> check_ports n i chs s = Inr s' \<Longrightarrow> inv s'"
proof (induction n arbitrary: i s)
  case (Suc n)
  note pop = pop_waiter_keeps [of _ i]
  from Suc.prems show ?case
    by (auto simp: Let_def split: option.splits sum.splits if_splits
        intro: Suc.IH [rotated] Suc.prems(1) pop [rotated] pop [OF pop [OF Suc.prems(1)]])
qed simp

text \<open>Time.\<close>

lemma foreach_keeps: "inv s \<Longrightarrow> (\<And>p. harmless p (f p)) \<Longrightarrow> inv (foreach_process f s)"
proof -
  assume "inv s" and h: "\<And>p. harmless p (f p)"
  then have "inv (fold (\<lambda>r. upd_proc r f) rs s)" for rs
    by (induction rs arbitrary: s) (auto intro!: upd_harmless)
  then show ?thesis by (simp add: foreach_process_def)
qed

lemma tick_keeps: "inv s \<Longrightarrow> inv (arinc_time_update_partition up s)"
  unfolding arinc_time_update_partition_def
  by (intro foreach_keeps) (auto simp: check_deadlines_def check_timeouts_def
      check_and_release_periodic_waiting_processes_def harmless_def Let_def)

lemma serve_tick_keeps: "inv s \<Longrightarrow> serve_tick up t chs s = Inr s' \<Longrightarrow> inv s'"
  unfolding serve_tick_def check_available_resources_on_partition_port_def
  by (auto intro: check_ports_keeps [rotated] tick_keeps fields_inv split: if_splits)

lemma TIME_keeps:
  "inv s \<Longrightarrow> inv (fst (PERIODIC_WAIT s))"
  "inv s \<Longrightarrow> inv (fst (REPLENISH b up s))"
  unfolding PERIODIC_WAIT_def REPLENISH_def Let_def
  by (auto simp: harmless_def update_process_deadline_def intro!: keep)

text \<open>The health monitor.\<close>

lemma handler_harmless [simp]:
  "harmless p (activate_handler p)" "st \<noteq> RUNNING \<Longrightarrow> harmless p (set_state st p)"
  "harmless p ((set_state WAITING p)\<lparr>pending_error := e\<rparr>)"
  by (simp_all add: activate_handler_def harmless_def context_init_def)

lemma hm_raise_partition_error_keeps: "inv s \<Longrightarrow> hm_raise_partition_error e s = Inr s' \<Longrightarrow> inv s'"
  unfolding hm_raise_partition_error_def
  by (auto intro!: keep split: option.splits ERROR_ACTION_TYPE.splits sum.splits)

lemma hm_raise_error_keeps: "inv s \<Longrightarrow> inv (fst (hm_raise_error g c a n r s))"
  unfolding hm_raise_error_def Let_def
  by (auto intro!: keep elim!: hm_raise_partition_error_keeps [rotated] split: option.splits sum.splits)

lemma post_error_keeps: "inv s \<Longrightarrow> inv (fst (post_error e r s))"
  unfolding post_error_def Let_def by (auto intro!: keep split: option.splits sum.splits)

lemma HM_keeps:
  "inv s \<Longrightarrow> inv (fst (GET_ERROR_STATUS s))"
  "inv s \<Longrightarrow> inv (fst (RAISE_APPLICATION_ERROR g c a n s))"
  unfolding GET_ERROR_STATUS_def RAISE_APPLICATION_ERROR_def Let_def
  by (auto intro!: keep post_error_keeps elim!: hm_raise_partition_error_keeps [rotated]
      split: option.splits sum.splits list.splits)

text \<open>Continuations of suspended services.\<close>

lemma RESUME_keeps:
  "inv s \<Longrightarrow> inv (fst (resume_event k up r p s))"
  "inv s \<Longrightarrow> inv (fst (resume_blackboard k p s))"
  "inv s \<Longrightarrow> inv (fst (resume_hm k r s))"
  unfolding resume_event_def resume_blackboard_def resume_hm_def
  by (auto intro: EVENT_keeps BLACKBOARD_keeps post_error_keeps split: resume_point.splits)

end

section \<open>The invariant of a partition\<close>

text \<open>What the locale does not cover: steps that create, free or select processes.\<close>

lemma part_inv_current: "part_inv s \<Longrightarrow> process_current s = Some r \<Longrightarrow> r \<in> set (processes s)"
  by (simp add: part_inv_def mutex_inv_def wf_procs_def)

lemma TIMED_WAIT_keeps: "part_inv s \<Longrightarrow> part_inv (fst (TIMED_WAIT t up s))"
proof -
  assume i: "part_inv s"
  have "part_inv ((move_to_back r (upd_proc r (set_state READY) s))\<lparr>process_current := Some r\<rparr>)"
    if c: "process_current s = Some r" for r
  proof -
    have "part_inv (upd_proc r (set_state READY) s)"
      by (rule part_res.upd_harmless [OF i]) (simp add: harmless_def)
    then have "part_inv (move_to_back r (upd_proc r (set_state READY) s))"
      using part_inv_current [OF i c] by (intro part_inv.to_back) simp_all
    moreover have "(move_to_back r (upd_proc r (set_state READY) s))\<lparr>process_current := Some r\<rparr> =
        move_to_back r (upd_proc r (set_state READY) s)"
      using c by (simp add: upd_proc_def move_to_back_def)
    ultimately show ?thesis by simp
  qed
  with i show ?thesis unfolding TIMED_WAIT_def
    by (auto simp: harmless_def intro!: part_res.keep)
qed

lemma process_schedule_part_inv: "part_inv s \<Longrightarrow> part_inv (snd (process_schedule s))"
  using process_schedule_mutex_inv [of s] process_schedule_one_running [of s] by (simp add: part_inv_def mutex_inv_def)

end
