(* ===== verification/Partition_Invariant.thy ===== *)
theory Partition_Invariant
  imports Service_Invariants
begin

text \<open>
  The invariant of a partition in every reachable state, \<open>sys_inv\<close>: besides \<open>part_inv\<close>, the
  identifiers given so far bound those of the processes, and the stacks lie apart in the
  data memory. It is an instance of \<open>resource_inv\<close>, so every service keeps it; the steps
  that create and free processes are treated here.
\<close>

section \<open>What is allocated to a process\<close>

definition alloc_of :: "process_s \<Rightarrow> int \<times> nat \<times> nat" where
  "alloc_of p = (process_id p, stack (tcb p), stack_sz (tcb p))"

text \<open>The step from \<open>s\<close> to \<open>t\<close> allocates nothing; it may take processes off the list.\<close>

definition same_alloc :: "pcb_s \<Rightarrow> pcb_s \<Rightarrow> bool" where
  "same_alloc s t \<longleftrightarrow> set (processes t) \<subseteq> set (processes s) \<and>
     (\<forall>r. map_option alloc_of (proc_heap t r) = map_option alloc_of (proc_heap s r)) \<and>
     id_next t = id_next s \<and> nbr_processes t = nbr_processes s \<and> next_stack_addr t = next_stack_addr s \<and>
     data_memory t = data_memory s \<and> IDENTIFIER (status t) = IDENTIFIER (status s)"

definition alloc_inv :: "pcb_s \<Rightarrow> bool" where
  "alloc_inv s \<longleftrightarrow> stacks_ok s \<and> 0 \<le> id_next s \<and> id_next s \<le> nbr_processes s \<and>
     (\<forall>r \<in> set (processes s). \<forall>p. proc_heap s r = Some p \<longrightarrow> process_id p \<le> id_next s)"

lemma same_alloc_refl [simp]: "same_alloc s s"
  by (simp add: same_alloc_def)

lemma same_alloc_trans: "same_alloc s t \<Longrightarrow> same_alloc t u \<Longrightarrow> same_alloc s u"
  by (auto simp: same_alloc_def)

lemma same_alloc_some:
  "same_alloc s t \<Longrightarrow> proc_heap t r = Some q \<Longrightarrow> \<exists>p. proc_heap s r = Some p \<and> alloc_of p = alloc_of q"
  unfolding same_alloc_def by (metis map_option_eq_Some option.map(2))

lemma same_alloc_inv:
  assumes st: "same_alloc s t" and inv: "alloc_inv s"
  shows "alloc_inv t"
proof -
  have range: "stack_range q = stack_range p" "process_id q = process_id p"
    "stack (tcb q) + stack_sz (tcb q) = stack (tcb p) + stack_sz (tcb p)" if "alloc_of p = alloc_of q" for p q
    using that by (auto simp: alloc_of_def stack_range_def)
  have fields: "set (processes t) \<subseteq> set (processes s)" "id_next t = id_next s" "nbr_processes t = nbr_processes s"
    "next_stack_addr t = next_stack_addr s" "data_memory t = data_memory s"
    using st by (simp_all add: same_alloc_def)
  from inv show ?thesis
    unfolding alloc_inv_def stacks_ok_def fields(2-5)
    using fields(1) same_alloc_some [OF st] range by (smt (verit) subset_iff)
qed

lemma same_alloc_upd:
  "(\<And>p. proc_heap s r = Some p \<Longrightarrow> alloc_of (f p) = alloc_of p) \<Longrightarrow> same_alloc s (upd_proc r f s)"
  by (cases "proc_heap s r") (auto simp: same_alloc_def upd_proc_def)

lemma same_alloc_prims [intro!]:
  "same_alloc s t \<Longrightarrow> r \<in> set (processes s) \<Longrightarrow> same_alloc s (move_to_front r t)"
  "same_alloc s t \<Longrightarrow> r \<in> set (processes s) \<Longrightarrow> same_alloc s (move_to_back r t)"
  "same_alloc s t \<Longrightarrow> same_alloc s (upd_mutex i g t)"
  "same_alloc s t \<Longrightarrow> same_alloc s (upd_mutex_status i h t)"
  "same_alloc s t \<Longrightarrow> same_alloc s (t\<lparr>process_current := c\<rparr>)"
  "same_alloc s t \<Longrightarrow> IDENTIFIER st = IDENTIFIER (status t) \<Longrightarrow> same_alloc s (t\<lparr>status := st\<rparr>)"
  "same_alloc s t \<Longrightarrow> same_alloc s (reset_lock_level i t)"
  by (auto simp: same_alloc_def move_to_front_def move_to_back_def upd_mutex_def upd_mutex_status_def
      reset_lock_level_def dest: notin_set_remove1 set_remove1_subset [THEN subsetD])

lemma same_alloc_updI [intro!]:
  "same_alloc s t \<Longrightarrow> (\<And>p. alloc_of (f p) = alloc_of p) \<Longrightarrow> same_alloc s (upd_proc r f t)"
  by (rule same_alloc_trans, assumption, rule same_alloc_upd)

lemma stop_timeout_tcb [simp]: "tcb (stop_timeout p) = tcb p"
  by (simp add: stop_timeout_def)

lemma harmless_alloc: "harmless p q \<Longrightarrow> alloc_of q = alloc_of p"
  by (simp add: harmless_def alloc_of_def)

lemma same_alloc_yield: "same_alloc s t \<Longrightarrow> same_alloc s (fst (yield_to_partition k r t))"
  by (auto simp: yield_to_partition_def alloc_of_def)

lemma same_alloc_mutex_steps:
  assumes "same_alloc s t" and "r \<in> set (processes s)"
  shows "same_alloc s (take_mutex i mid r p t)" and "same_alloc s (free_mutex i r t)" and "same_alloc s (wait_mutex i r t)"
  unfolding take_mutex_def free_mutex_def wait_mutex_def Let_def using assms by (auto simp: alloc_of_def)

lemma same_alloc_wake:
  assumes "same_alloc s t" and "set (mx_waiting_processes (mutexes t ! i)) \<subseteq> set (processes s)"
    and "wake_mutex_waiter i mid t = Inr t'"
  shows "same_alloc s t'"
proof (cases "mx_waiting_processes (mutexes t ! i)")
  case (Cons w ws)
  then obtain pw n where n: "t' = upd_proc w (set_state READY)
      ((grant_mutex i mid w pw t)\<lparr>processes := w # remove1 n (processes (grant_mutex i mid w pw t))\<rparr>)"
    using assms(3) by (auto simp: wake_mutex_waiter_def Let_def split: option.splits)
  have "same_alloc s (grant_mutex i mid w pw t)"
    unfolding grant_mutex_def using assms(1) by (auto simp: alloc_of_def)
  then have "same_alloc s ((grant_mutex i mid w pw t)\<lparr>processes := w # remove1 n (processes (grant_mutex i mid w pw t))\<rparr>)"
    using assms(2) Cons by (auto simp: same_alloc_def dest: notin_set_remove1)
  then show ?thesis unfolding n by (auto simp: alloc_of_def)
qed (use assms in \<open>simp add: wake_mutex_waiter_def\<close>)

lemma same_alloc_release:
  assumes inv: "mutex_inv s" and i: "i < nat (mutex_count s)" and r: "r \<in> set (processes s)"
    and a: "same_alloc s t" "mutexes t = mutexes (free_mutex i r s)"
    and w: "wake_mutex_waiter i mid t = Inr s'"
  shows "same_alloc s s'"
  using same_alloc_wake [OF a(1) _ w] a(2) mutex_facts(2,6) [OF inv i] by (simp add: free_mutex_def upd_mutex_status_def)

lemma same_alloc_acquire:
  assumes "mutex_inv s"
  shows "same_alloc s (fst (krnl_acquire_mutex mid t up s))"
proof (cases rule: with_current_cases [of s])
  case (ok r p)
  have r: "r \<in> set (processes s)" using wf_procs_current [OF mutex_invD(1) [OF assms] ok(1)] by simp
  show ?thesis
    unfolding krnl_acquire_mutex_def Let_def using ok(3) r
    by (auto simp: alloc_of_def intro!: same_alloc_yield same_alloc_mutex_steps)
qed (auto simp: krnl_acquire_mutex_def Let_def)

lemma same_alloc_krnl_release:
  assumes inv: "mutex_inv s"
  shows "same_alloc s (fst (krnl_release_mutex mid s))"
proof (cases rule: with_current_cases [of s])
  case (ok r p)
  let ?i = "nat (find_mutex_by_id s mid)"
  have r: "r \<in> set (processes s)" using wf_procs_current [OF mutex_invD(1) [OF inv] ok(1)] by simp
  have i: "?i < nat (mutex_count s)" if "find_mutex_by_id s mid \<noteq> -1"
    using that find_mutex_by_id_found [OF mutex_invD(3) [OF inv] refl] by auto
  have "same_alloc s s'" if "find_mutex_by_id s mid \<noteq> -1" "wake_mutex_waiter ?i mid (free_mutex ?i r s) = Inr s'" for s'
    by (rule same_alloc_release [OF inv i [OF that(1)] r _ refl that(2)])
      (rule same_alloc_mutex_steps [OF same_alloc_refl r])
  then show ?thesis
    unfolding krnl_release_mutex_def Let_def using ok(3)
    by (auto intro!: same_alloc_yield split: sum.splits)
qed (auto simp: krnl_release_mutex_def Let_def)

lemma same_alloc_owned:
  assumes inv: "mutex_inv s" and c: "process_current s = Some r" and ok: "release_owned r p s = Inr s'"
  shows "same_alloc s s'"
proof (cases "owned_mutex_id p = NO_MUTEX_OWNED")
  case False
  let ?i = "nat (find_mutex_by_id s (owned_mutex_id p))"
  have r: "r \<in> set (processes s)" using wf_procs_current [OF mutex_invD(1) [OF inv] c] by simp
  have found: "find_mutex_by_id s (owned_mutex_id p) \<noteq> -1" using ok False by (auto simp: release_owned_def Let_def)
  then have i: "?i < nat (mutex_count s)" using find_mutex_by_id_found [OF mutex_invD(3) [OF inv] refl] by auto
  let ?t = "free_mutex ?i r (reset_lock_level ?i s)"
  from ok False found obtain t where t: "t = ?t \<or> t = ?t\<lparr>process_current := Some r\<rparr>"
    and w: "wake_mutex_waiter ?i (mutex_id (mutexes s ! ?i)) t = Inr s'"
    by (auto simp: release_owned_def Let_def split: if_splits)
  have "same_alloc s ?t" using r by (auto intro!: same_alloc_mutex_steps)
  then have a: "same_alloc s t" using t by auto
  have "mutexes t = mutexes (free_mutex ?i r s)" using t by (auto simp: free_mutex_def upd_mutex_status_def)
  from same_alloc_release [OF inv i r a this w] show ?thesis .
qed (use ok in \<open>simp add: release_owned_def\<close>)

lemma leave_same_alloc:
  "leave_queuing_port r i s = Some t \<Longrightarrow> same_alloc s t" "leave_blackboard r i s = Some t \<Longrightarrow> same_alloc s t"
  "leave_buffer r i s = Some t \<Longrightarrow> same_alloc s t" "leave_semaphore r i s = Some t \<Longrightarrow> same_alloc s t"
  "leave_event r i s = Some t \<Longrightarrow> same_alloc s t" "leave_mutex r i s = Some t \<Longrightarrow> same_alloc s t"
  by (auto simp: leave_queuing_port_def leave_blackboard_def leave_buffer_def leave_semaphore_def
      leave_event_def leave_mutex_def same_alloc_def Let_def split: if_splits)

lemma same_alloc_leave:
  assumes "remove_process_from_waiting_queue r s = Some s'"
  shows "same_alloc s s'"
proof (rule remove_from_queue_induct [OF assms])
  show "same_alloc s (upd_proc r f t)" if "same_alloc s t" "\<And>p. harmless p (f p)" for t f
    using that harmless_alloc by (intro same_alloc_updI) auto
qed (erule same_alloc_trans, erule leave_same_alloc | simp)+

section \<open>The invariant\<close>

definition sys_inv :: "int \<Rightarrow> pcb_s \<Rightarrow> bool" where
  "sys_inv ident s \<longleftrightarrow> part_inv s \<and> alloc_inv s \<and> IDENTIFIER (status s) = ident"

lemma same_alloc_ident: "same_alloc s t \<Longrightarrow> IDENTIFIER (status t) = IDENTIFIER (status s)"
  by (simp add: same_alloc_def)

lemma sys_invI: "sys_inv ident s \<Longrightarrow> part_inv t \<Longrightarrow> same_alloc s t \<Longrightarrow> sys_inv ident t"
  by (auto simp: sys_inv_def same_alloc_ident intro: same_alloc_inv)

lemma sys_invD: "sys_inv ident s \<Longrightarrow> part_inv s" "sys_inv ident s \<Longrightarrow> mutex_inv s" "sys_inv ident s \<Longrightarrow> alloc_inv s"
  "sys_inv ident s \<Longrightarrow> IDENTIFIER (status s) = ident"
  by (simp_all add: sys_inv_def part_inv_def)

interpretation sys: resource_inv "sys_inv ident" for ident
proof
  fix s r f
  assume s: "sys_inv ident s" and h: "\<And>p. proc_heap s r = Some p \<Longrightarrow> harmless p (f p)"
  show "sys_inv ident (upd_proc r f s)"
    by (rule sys_invI [OF s]) (use h harmless_alloc sys_invD(1) [OF s] in \<open>auto intro!: part_inv.upd same_alloc_upd\<close>)
next
  fix s r
  assume s: "sys_inv ident s" and r: "r \<in> set (processes s)"
  show "sys_inv ident (move_to_back r s)"
    by (rule sys_invI [OF s]) (use r sys_invD(1) [OF s] in \<open>auto intro!: part_inv.to_back\<close>)
next
  fix s r p
  assume s: "sys_inv ident s" and r: "r \<in> set (processes s)" "proc_heap s r = Some p" "pstate p = RUNNING"
  show "sys_inv ident (s\<lparr>process_current := Some r\<rparr>)"
    by (rule sys_invI [OF s]) (use r sys_invD(1) [OF s] in \<open>auto intro: part_inv.running\<close>)
next
  fix s i n
  assume s: "sys_inv ident s"
  show "sys_inv ident (upd_mutex i (\<lambda>m. m\<lparr>saved_owner_priority := n\<rparr>) s)"
    by (rule sys_invI [OF s]) (use sys_invD(1) [OF s] in \<open>auto intro: part_inv.saved\<close>)
next
  fix s r s'
  assume s: "sys_inv ident s" and l: "remove_process_from_waiting_queue r s = Some s'"
  show "sys_inv ident s'"
    by (rule sys_invI [OF s part_inv.leave [OF sys_invD(1) [OF s] l] same_alloc_leave [OF l]])
next
  fix s mid t up
  assume s: "sys_inv ident s"
  show "sys_inv ident (fst (krnl_acquire_mutex mid t up s))"
    by (rule sys_invI [OF s part_inv.acquire [OF sys_invD(1) [OF s]] same_alloc_acquire [OF sys_invD(2) [OF s]]])
next
  fix s mid
  assume s: "sys_inv ident s"
  show "sys_inv ident (fst (krnl_release_mutex mid s))"
    by (rule sys_invI [OF s part_inv.release [OF sys_invD(1) [OF s]] same_alloc_krnl_release [OF sys_invD(2) [OF s]]])
next
  fix s r q p s'
  assume s: "sys_inv ident s" and c: "process_current s = Some r" "proc_heap s r = Some q"
    "owned_mutex_id q = owned_mutex_id p" "pstate q = pstate p" and o: "release_owned r p s = Inr s'"
  show "sys_inv ident s'"
    by (rule sys_invI [OF s part_inv.owned [OF sys_invD(1) [OF s] c o] same_alloc_owned [OF sys_invD(2) [OF s] c(1) o]])
next
  fix s l
  assume s: "sys_inv ident s"
  show "sys_inv ident (s\<lparr>status := (status s)\<lparr>LOCK_LEVEL := l\<rparr>\<rparr>)"
    by (rule sys_invI [OF s part_inv.level [OF sys_invD(1) [OF s]]]) auto
next
  fix s t
  assume s: "sys_inv ident s" and p: "same_procs s t" and m: "mutexes t = mutexes s" "mutex_count t = mutex_count s"
    and a: "id_next t = id_next s" "nbr_processes t = nbr_processes s" "next_stack_addr t = next_stack_addr s"
    "data_memory t = data_memory s" "IDENTIFIER (status t) = IDENTIFIER (status s)"
  show "sys_inv ident t"
    by (rule sys_invI [OF s part_inv_same [OF sys_invD(1) [OF s] p m]])
      (use p a in \<open>auto simp: same_alloc_def same_procs_def\<close>)
qed

section \<open>Steps outside the locale\<close>

text \<open>A new process, dormant and without a mutex, at the end of the list.\<close>

lemma part_inv_append:
  assumes inv: "part_inv s" and fr: "new \<notin> set (processes s)"
    and p: "pstate p \<noteq> RUNNING" "owned_mutex_id p = NO_MUTEX_OWNED"
    and id: "\<And>r q. r \<in> set (processes s) \<Longrightarrow> proc_heap s r = Some q \<Longrightarrow> process_id q \<noteq> process_id p"
    and t: "processes t = processes s @ [new]" "proc_heap t = (proc_heap s)(new \<mapsto> p)" "mutexes t = mutexes s"
      "mutex_count t = mutex_count s" "process_current t = process_current s"
      "error_handler_process t = error_handler_process s \<or> error_handler_process t = Some new"
  shows "part_inv t"
proof -
  have m: "mutex_inv s" and o: "one_running s" using inv by (simp_all add: part_inv_def)
  have "wf_procs t" using mutex_invD(1) [OF m] fr t by (auto simp: wf_procs_def)
  moreover have "proc_ids_ok t"
    using mutex_invD(2) [OF m] fr id unfolding proc_ids_ok_def t by (fastforce split: if_splits)
  moreover have "mutex_ids_ok t" "mutex_locks_ok t"
    using mutex_invD(3,5) [OF m] by (simp_all add: mutex_ids_ok_def mutex_locks_ok_def t)
  moreover have "mutex_excl t" using mutex_invD(4) [OF m] p(2) fr by (auto simp: mutex_excl_def t)
  moreover have "mutex_queues_ok t" using mutex_invD(6) [OF m] by (auto simp: mutex_queues_ok_def t)
  moreover have "one_running t" using o p(1) fr by (auto simp: one_running_def t)
  ultimately show ?thesis by (simp add: part_inv_def mutex_inv_def)
qed

lemma CREATE_PROCESS_keeps:
  assumes inv: "sys_inv ident s" and fr: "new \<notin> set (processes s)"
  shows "sys_inv ident (fst (CREATE_PROCESS new g attr s))"
proof (cases "create_allowed attr s")
  case True
  let ?p = "created new g attr s"
  note eq = CREATE_PROCESS_eq(1) [OF True, of new g]
  have nbr: "nbr_processes s < MAX_NUMBER_OF_PROCESSES" using True by (simp add: create_allowed_def)
  have b: "0 \<le> id_next s" "id_next s \<le> nbr_processes s"
    "\<And>r p. r \<in> set (processes s) \<Longrightarrow> proc_heap s r = Some p \<Longrightarrow> process_id p \<le> id_next s"
    using inv by (auto simp: sys_inv_def alloc_inv_def)
  have id: "process_id ?p = id_next s + 1" using nbr b by simp
  have st: "stacks_ok (fst (CREATE_PROCESS new g attr s))"
    using CREATE_PROCESS_stacks [OF _ True fr] inv by (simp add: sys_inv_def alloc_inv_def)
  have "part_inv (fst (CREATE_PROCESS new g attr s))"
    by (rule part_inv_append [OF sys_invD(1) [OF inv] fr, of ?p]) (use eq id b(3) in \<open>fastforce+\<close>)
  moreover have "alloc_inv (fst (CREATE_PROCESS new g attr s))"
    using st b id unfolding alloc_inv_def eq by (force split: if_splits)
  moreover have "IDENTIFIER (status (fst (CREATE_PROCESS new g attr s))) = ident"
    using sys_invD(4) [OF inv] by (simp add: eq ucx_process_spawn_def Let_def)
  ultimately show ?thesis by (simp add: sys_inv_def)
qed (use inv CREATE_PROCESS_eq(2) in simp)

text \<open>
  The error handler: its \<open>process_id\<close> is what \<open>malloc\<close> left in the block. The invariant needs
  that it is not the identifier of a process.
\<close>

definition fresh_handler :: "pref \<Rightarrow> process_s \<Rightarrow> pcb_s \<Rightarrow> bool" where
  "fresh_handler new g s \<longleftrightarrow> new \<notin> set (processes s) \<and> process_id g \<le> id_next s \<and>
     (\<forall>r \<in> set (processes s). \<forall>p. proc_heap s r = Some p \<longrightarrow> process_id p \<noteq> process_id g)"

lemma CREATE_ERROR_HANDLER_keeps:
  assumes inv: "sys_inv ident s" and fr: "fresh_handler new g s"
  shows "sys_inv ident (fst (CREATE_ERROR_HANDLER new g ep sz s))"
proof (cases "fst (CREATE_ERROR_HANDLER new g ep sz s) = s")
  case False
  let ?t = "fst (CREATE_ERROR_HANDLER new g ep sz s)"
  let ?p = "init_handler g (fst (ucx_process_spawn (tcb g) ep sz True (s\<lparr>nbr_processes := nbr_processes s + 1\<rparr>)))
    (nbr_processes s + 1)"
  have guard: "error_handler_process s = None" "\<not> mr_base (data_memory s) + mr_size (data_memory s) < next_stack_addr s + sz"
    "sz \<noteq> 0" "OPERATING_MODE (status s) \<noteq> NORMAL"
    using False unfolding CREATE_ERROR_HANDLER_def by (simp_all del: not_None_eq split: if_split_asm)
  then have t: "processes ?t = processes s @ [new]" "proc_heap ?t = (proc_heap s)(new \<mapsto> ?p)" "mutexes ?t = mutexes s"
    "mutex_count ?t = mutex_count s" "process_current ?t = process_current s" "error_handler_process ?t = Some new"
    "data_memory ?t = data_memory s" "IDENTIFIER (status ?t) = IDENTIFIER (status s)" "id_next ?t = id_next s" "nbr_processes ?t = nbr_processes s + 1"
    "next_stack_addr ?t = align16 (next_stack_addr s + sz mod 2 ^ 16)"
    and lim: "next_stack_addr s + sz \<le> mr_base (data_memory s) + mr_size (data_memory s)"
    using guard by (simp_all add: CREATE_ERROR_HANDLER_def Let_def ucx_process_spawn_def)
  have p: "pstate ?p = DORMANT" "owned_mutex_id ?p = NO_MUTEX_OWNED" "process_id ?p = process_id g"
    "stack (tcb ?p) = next_stack_addr s" "stack_sz (tcb ?p) = sz mod 2 ^ 16"
    by (simp_all add: init_handler_def ucx_process_spawn_def Let_def)
  have f: "new \<notin> set (processes s)" "process_id g \<le> id_next s"
    "\<And>r q. r \<in> set (processes s) \<Longrightarrow> proc_heap s r = Some q \<Longrightarrow> process_id q \<noteq> process_id g"
    using fr by (auto simp: fresh_handler_def)
  have "part_inv ?t"
    by (rule part_inv_append [OF sys_invD(1) [OF inv] f(1), of ?p]) (use p f(3) t in auto)
  moreover have "stacks_ok ?t"
    by (rule stacks_ok_append [OF _ f(1) p(4) _ lim, of ?t])
      (use inv p(5) t align16_le [of "next_stack_addr s + sz mod 2 ^ 16"] in \<open>auto simp: sys_inv_def alloc_inv_def\<close>)
  ultimately show ?thesis
    using inv f p(3) t by (auto simp: sys_inv_def alloc_inv_def split: if_splits)
qed (use inv in simp)

lemma CREATE_MUTEX_keeps: "sys_inv ident s \<Longrightarrow> sys_inv ident (fst (CREATE_MUTEX nm pri disc s))"
proof -
  assume s: "sys_inv ident s"
  have "same_alloc s (fst (CREATE_MUTEX nm pri disc s))"
    by (auto simp: CREATE_MUTEX_def Let_def same_alloc_def upd_mutex_def split: option.splits)
  moreover have "one_running (fst (CREATE_MUTEX nm pri disc s))"
    using sys_invD(1) [OF s] unfolding part_inv_def
    by (subst one_running_cong [of _ s]) (auto simp: CREATE_MUTEX_def Let_def split: option.splits)
  ultimately show ?thesis
    using CREATE_MUTEX_inv [OF sys_invD(2) [OF s]] by (intro sys_invI [OF s]) (auto simp: part_inv_def)
qed

lemma set_current_same: "process_current s = c \<Longrightarrow> s\<lparr>process_current := c\<rparr> = s"
  by (cases s) simp

lemma if_same: "(P \<Longrightarrow> a = b) \<Longrightarrow> (if P then a else b) = b"
  by simp

lemma RESET_MUTEX_keeps:
  assumes s: "sys_inv ident s"
  shows "sys_inv ident (fst (RESET_MUTEX mid pid s))"
proof (cases rule: with_current_cases [of s])
  case (ok c pc)
  let ?i = "nat (find_mutex_by_id s mid)"
  note inv = sys_invD(2) [OF s]
  have keeps: "sys_inv ident s'" if "find_mutex_by_id s mid \<noteq> -1" "is_process_id_existed s pid = Some r"
    "proc_heap s r = Some p" "owned_mutex_id p = mid"
    and w: "wake_mutex_waiter ?i mid (if pstate p = RUNNING
        then (free_mutex ?i r (reset_lock_level ?i s))\<lparr>process_current := Some r\<rparr>
        else free_mutex ?i r (reset_lock_level ?i s)) = Inr s'" for r p s'
  proof -
    let ?f = "free_mutex ?i r (reset_lock_level ?i s)"
    from is_process_id_existed_Some [OF that(2)] that(3) have r: "r \<in> set (processes s)" by auto
    have i: "?i < nat (mutex_count s)" "mutex_id (mutexes s ! ?i) = mid"
      using that(1) find_mutex_by_id_found [OF mutex_invD(3) [OF inv] refl] by auto
    have "process_current s = Some r" if "pstate p = RUNNING"
      using s r that \<open>proc_heap s r = Some p\<close> by (auto simp: sys_inv_def part_inv_def one_running_def)
    then have "pstate p = RUNNING \<Longrightarrow> ?f\<lparr>process_current := Some r\<rparr> = ?f"
      by (intro set_current_same) simp
    then have "(if pstate p = RUNNING then ?f\<lparr>process_current := Some r\<rparr> else ?f) = ?f" by (rule if_same)
    with w have w: "wake_mutex_waiter ?i mid ?f = Inr s'" by (simp only:)
    have inv': "mutex_inv (reset_lock_level ?i s)" by (rule reset_lock_level_inv [OF inv])
    have f: "mutex_inv ?f" using free_mutex_inv [OF inv'] i that(3,4) r by simp
    have av: "MUTEX_STATE (mx ?f ?i) = AVAILABLE" "mutex_id (mutexes ?f ! ?i) = mid" "?i < nat (mutex_count ?f)"
      using free_mutex_available [of ?i "reset_lock_level ?i s" r] mutex_facts(6) [OF inv i(1)] i by auto
    have "one_running (reset_lock_level ?i s)"
      using sys_invD(1) [OF s] unfolding part_inv_def by (subst one_running_cong [of _ s]) auto
    then have "one_running ?f" using one_running_take(2) [OF mutex_invD(1) [OF inv']] r by simp
    then have "one_running s'" using one_running_wake [OF f _ av(3,2,1) w] by simp
    moreover have "mutex_inv s'" using wake_mutex_waiter_inv [OF f, of ?i mid] w av by auto
    moreover have "same_alloc s ?f" using r by (auto intro!: same_alloc_mutex_steps)
    from same_alloc_release [OF inv i(1) r this _ w] have "same_alloc s s'"
      by (auto simp: free_mutex_def upd_mutex_status_def)
    ultimately show ?thesis using sys_invI [OF s] by (simp add: part_inv_def)
  qed
  show ?thesis
    unfolding RESET_MUTEX_def Let_def with_current_def with_proc_def using ok(1,2) s
    by (auto intro!: sys.keep_yield keeps split: option.splits sum.splits if_splits)
qed (use s in \<open>auto simp: RESET_MUTEX_def\<close>)

lemma TIMED_WAIT_sys: "sys_inv ident s \<Longrightarrow> sys_inv ident (fst (TIMED_WAIT t up s))"
proof -
  assume s: "sys_inv ident s"
  have "same_alloc s (fst (TIMED_WAIT t up s))"
  proof (cases rule: with_current_cases [of s])
    case (ok r p)
    have "r \<in> set (processes s)" using part_inv_current [OF sys_invD(1) [OF s] ok(1)] .
    then show ?thesis unfolding TIMED_WAIT_def using ok(3)
      by (auto simp: alloc_of_def intro!: same_alloc_yield)
  qed (auto simp: TIMED_WAIT_def)
  with s show ?thesis by (intro sys_invI [OF s TIMED_WAIT_keeps [OF sys_invD(1) [OF s]]])
qed

lemma process_schedule_keeps:
  assumes s: "sys_inv ident s"
  shows "sys_inv ident (snd (process_schedule s))"
proof (rule sys_invI [OF s process_schedule_part_inv [OF sys_invD(1) [OF s]]])
  have "same_alloc s (demote_current s)"
    by (auto simp: demote_current_def alloc_of_def split: option.splits)
  then show "same_alloc s (snd (process_schedule s))"
    using process_schedule_shape [of s] by (auto simp: alloc_of_def)
qed

section \<open>Modes\<close>

lemma free_processes_shape:
  "free_processes rs s = s\<lparr>processes := [], proc_heap := proc_heap s |` (- set rs)\<rparr>"
proof (induction rs arbitrary: s)
  case (Cons r rs)
  show ?case
    by (simp add: Cons restrict_map_def fun_upd_def)
      (intro arg_cong [where f = "\<lambda>h. s\<lparr>processes := [], proc_heap := h\<rparr>"] ext, simp)
qed (simp add: restrict_map_def)

text \<open>No process waits for a mutex: then a restart leaves no reference to a freed process.\<close>

definition no_mutex_waiters :: "pcb_s \<Rightarrow> bool" where
  "no_mutex_waiters s \<longleftrightarrow> (\<forall>i < nat (mutex_count s). mx_waiting_processes (mutexes s ! i) = [])"

lemma restart_keeps:
  assumes s: "sys_inv ident s" and w: "no_mutex_waiters s" and st: "IDENTIFIER st = ident"
    and t: "t = free_processes (processes s) (s\<lparr>status := st, process_current := None, nbr_processes := 0, id_next := 0,
      next_stack_addr := mr_base (data_memory s) + n, error_handler_process := None\<rparr>)"
  shows "sys_inv ident t"
proof -
  have m: "mutex_inv s" using s by (rule sys_invD(2))
  have f: "processes t = []" "process_current t = None" "error_handler_process t = None" "mutexes t = mutexes s"
    "mutex_count t = mutex_count s" "id_next t = 0" "nbr_processes t = 0" "data_memory t = data_memory s"
    "next_stack_addr t = mr_base (data_memory s) + n" "IDENTIFIER (status t) = ident"
    using st by (simp_all add: t free_processes_shape)
  have "wf_procs t" "proc_ids_ok t" "mutex_excl t" "one_running t" "alloc_inv t"
    by (simp_all add: wf_procs_def proc_ids_ok_def mutex_excl_def one_running_def alloc_inv_def stacks_ok_def f)
  moreover have "mutex_ids_ok t" "mutex_locks_ok t"
    using mutex_invD(3,5) [OF m] by (simp_all add: mutex_ids_ok_def mutex_locks_ok_def f)
  moreover have "mutex_queues_ok t"
    using mutex_invD(6) [OF m] w by (simp add: mutex_queues_ok_def no_mutex_waiters_def f)
  ultimately show ?thesis by (simp add: sys_inv_def part_inv_def mutex_inv_def f)
qed

lemma start_process_harmless: "harmless p (start_process up f p)"
  by (auto simp: start_process_def harmless_def update_process_deadline_def Let_def)

text \<open>
  Mode \<open>IDLE\<close> clears \<open>process_current\<close> under a \<open>RUNNING\<close> process, so nothing is claimed of a
  partition in that mode; it is never made current again.
\<close>

lemma SET_PARTITION_MODE_keeps:
  assumes s: "sys_inv ident s"
    and w: "decode_mode mode = Some COLD_START \<or> decode_mode mode = Some WARM_START \<Longrightarrow> no_mutex_waiters s"
    and t: "t = fst (snd (SET_PARTITION_MODE mode up ms s))" and m: "OPERATING_MODE (status t) \<noteq> IDLE"
  shows "sys_inv ident t"
proof (cases "\<exists>m. decode_mode mode = Some m \<and> \<not> (m = NORMAL \<and> OPERATING_MODE (status s) = NORMAL) \<and>
    \<not> (m = WARM_START \<and> OPERATING_MODE (status s) = COLD_START)")
  case True
  then obtain m where dm: "decode_mode mode = Some m" "\<not> (m = NORMAL \<and> OPERATING_MODE (status s) = NORMAL)"
    "\<not> (m = WARM_START \<and> OPERATING_MODE (status s) = COLD_START)" by blast
  have s1: "sys_inv ident (set_mode m s)" unfolding set_mode_def by (rule sys.status_inv [OF s]) simp
  show ?thesis
  proof (cases m)
    case IDLE
    then show ?thesis using dm m by (simp add: t SET_PARTITION_MODE_def set_mode_def)
  next
    case NORMAL
    have "sys_inv ident (upd_proc h context_init u)" if "sys_inv ident u" for h u
      by (rule sys.upd_harmless [OF that]) (simp add: harmless_def context_init_def)
    moreover have "sys_inv ident ((foreach_process (start_process up f) (set_mode NORMAL s))
        \<lparr>status := (status (foreach_process (start_process up f) (set_mode NORMAL s)))\<lparr>LOCK_LEVEL := l\<rparr>\<rparr>)" for f l
      using s1 NORMAL by (intro sys.level sys.foreach_keeps start_process_harmless) simp
    ultimately show ?thesis using NORMAL dm s1
      by (auto simp: t SET_PARTITION_MODE_def Let_def split: sum.splits option.splits)
  next
    case COLD_START
    with dm w have "no_mutex_waiters s" by simp
    from restart_keeps [OF s this _ refl, of "(status s)\<lparr>OPERATING_MODE := COLD_START\<rparr>"] sys_invD(4) [OF s] COLD_START dm show ?thesis
      by (simp add: t SET_PARTITION_MODE_def set_mode_def Let_def)
  next
    case WARM_START
    with dm w have "no_mutex_waiters s" by simp
    from restart_keeps [OF s this _ refl, of "(status s)\<lparr>OPERATING_MODE := WARM_START\<rparr>"] sys_invD(4) [OF s] WARM_START dm show ?thesis
      by (simp add: t SET_PARTITION_MODE_def set_mode_def Let_def)
  qed
next
  case False
  then have "t = s" by (auto simp: t SET_PARTITION_MODE_def split: option.splits)
  with s show ?thesis by simp
qed

lemma partition_OS_keeps:
  assumes s: "sys_inv ident s" and os: "partition_OS up tick chs s = Inr (nx, s')"
  shows "sys_inv ident s'"
proof (cases "OPERATING_MODE (status s) = COLD_START \<or> OPERATING_MODE (status s) = WARM_START")
  case False
  with os obtain s1 where s1: "serve_tick up tick chs s = Inr s1" by (auto simp: partition_OS_def split: sum.splits)
  with os False have "s' = snd (process_schedule s1)"
    by (auto simp: partition_OS_def Let_def split: option.splits if_split_asm)
  with process_schedule_keeps [OF sys.serve_tick_keeps [OF s s1]] show ?thesis by simp
qed (use s os in \<open>auto simp: partition_OS_def\<close>)

lemma partition_OS_start_keeps: "sys_inv ident s \<Longrightarrow> sys_inv ident (partition_OS_start s)"
  by (simp add: partition_OS_start_def CREATE_MUTEX_keeps)

end
