(* ===== verification/Kernel.thy ===== *)
theory Kernel
  imports Partition_Invariant
begin

text \<open>
  The kernel as a whole: what the partition that is current may do to the kernel control
  block between two ticks of the module scheduler. A step of a partition is a service called
  by its application, the rest of a suspended service, a turn of the loop \<open>partition_OS\<close>, a
  write of the application to its memory, or an error the kernel raises on one of its
  processes. Every service of the APEX layer is a \<open>request\<close>; it works on
  \<open>kcb->partition_current\<close>, and on the channels where it transmits a message. Steps carry a
  label (\<open>partition_event\<close>), and a run of the kernel has a predicate that says which steps it
  admits.

  The theory shows, for runs that admit every step, that the current partition owns the window
  of the table (\<open>kernel_run_partitioned\<close>) and that the scheduler goes on and opens every window
  (\<open>kernel_run_windows\<close>); which ports a step must go through to change a channel, and how it
  can change it (\<open>channel_access\<close>); and, for runs without the two kinds of step that break it,
  that every partition satisfies its invariant (\<open>kernel_run_consistent\<close>). The services are
  shown to keep an invariant once, in the locale \<open>service_inv\<close>, which is interpreted on the
  invariant of a partition and on its identifier.

  A step is one service, up to its end or its wait. In the source a partition can be switched
  out by the timer in the middle of a service; \<open>arinc_interpartition_communication.c\<close> has no
  critical section, so the other end of a channel could then see a half-made update. That is
  not in this model.
\<close>

section \<open>Requests\<close>

text \<open>
  The services that use only the control block of their partition. The first two arguments of
  \<open>Q_CREATE_PROCESS\<close> and \<open>Q_CREATE_ERROR_HANDLER\<close> are the block \<open>malloc\<close> returned and its
  former content, the first of \<open>Q_RAISE_APPLICATION_ERROR\<close> the former content of the stack.
\<close>

datatype process_request =
    Q_CREATE_PROCESS pref process_s PROCESS_ATTRIBUTE_TYPE | Q_SET_PRIORITY int int | Q_SUSPEND_SELF int
   | Q_SUSPEND int | Q_RESUME int | Q_STOP_SELF | Q_STOP int | Q_START int | Q_DELAYED_START int int

primrec process_call :: "mscb_s \<Rightarrow> u64 \<Rightarrow> process_request \<Rightarrow> service" where
  "process_call ms up (Q_CREATE_PROCESS new g attr) = CREATE_PROCESS new g attr"
| "process_call ms up (Q_SET_PRIORITY i n) = SET_PRIORITY i n"
| "process_call ms up (Q_SUSPEND_SELF t) = SUSPEND_SELF t up"
| "process_call ms up (Q_SUSPEND i) = SUSPEND i"
| "process_call ms up (Q_RESUME i) = RESUME i"
| "process_call ms up Q_STOP_SELF = STOP_SELF"
| "process_call ms up (Q_STOP i) = STOP i"
| "process_call ms up (Q_START i) = START i ms up"
| "process_call ms up (Q_DELAYED_START i d) = DELAYED_START i d ms up"

datatype preemption_request =
    Q_LOCK_PREEMPTION | Q_UNLOCK_PREEMPTION | Q_GET_MY_ID | Q_GET_PROCESS_ID string
   | Q_GET_PROCESS_STATUS int | Q_INITIALIZE_PROCESS_CORE_AFFINITY int int | Q_GET_MY_PROCESSOR_CORE_ID
   | Q_GET_MY_INDEX

primrec preemption_call :: "u64 \<Rightarrow> preemption_request \<Rightarrow> service" where
  "preemption_call up Q_LOCK_PREEMPTION = LOCK_PREEMPTION up"
| "preemption_call up Q_UNLOCK_PREEMPTION = UNLOCK_PREEMPTION"
| "preemption_call up Q_GET_MY_ID = GET_MY_ID"
| "preemption_call up (Q_GET_PROCESS_ID nm) = GET_PROCESS_ID nm"
| "preemption_call up (Q_GET_PROCESS_STATUS i) = GET_PROCESS_STATUS i"
| "preemption_call up (Q_INITIALIZE_PROCESS_CORE_AFFINITY i c) = INITIALIZE_PROCESS_CORE_AFFINITY i c"
| "preemption_call up Q_GET_MY_PROCESSOR_CORE_ID = GET_MY_PROCESSOR_CORE_ID"
| "preemption_call up Q_GET_MY_INDEX = GET_MY_INDEX"

datatype time_request =
    Q_TIMED_WAIT int | Q_PERIODIC_WAIT | Q_GET_TIME | Q_REPLENISH int

primrec time_call :: "u64 \<Rightarrow> time_request \<Rightarrow> service" where
  "time_call up (Q_TIMED_WAIT d) = TIMED_WAIT d up"
| "time_call up Q_PERIODIC_WAIT = PERIODIC_WAIT"
| "time_call up Q_GET_TIME = GET_TIME up"
| "time_call up (Q_REPLENISH b) = REPLENISH b up"

datatype semaphore_request =
    Q_CREATE_SEMAPHORE string int int int | Q_WAIT_SEMAPHORE int int | Q_SIGNAL_SEMAPHORE int
   | Q_GET_SEMAPHORE_ID string | Q_GET_SEMAPHORE_STATUS int

primrec semaphore_call :: "u64 \<Rightarrow> semaphore_request \<Rightarrow> service" where
  "semaphore_call up (Q_CREATE_SEMAPHORE nm c m d) = CREATE_SEMAPHORE nm c m d"
| "semaphore_call up (Q_WAIT_SEMAPHORE i t) = WAIT_SEMAPHORE i t up"
| "semaphore_call up (Q_SIGNAL_SEMAPHORE i) = SIGNAL_SEMAPHORE i"
| "semaphore_call up (Q_GET_SEMAPHORE_ID nm) = GET_SEMAPHORE_ID nm"
| "semaphore_call up (Q_GET_SEMAPHORE_STATUS i) = GET_SEMAPHORE_STATUS i"

datatype event_request =
    Q_CREATE_EVENT string | Q_SET_EVENT int | Q_RESET_EVENT int | Q_WAIT_EVENT int int
   | Q_APERIODIC_WAIT_EVENT int | Q_GET_EVENT_ID string | Q_GET_EVENT_STATUS int

primrec event_call :: "u64 \<Rightarrow> event_request \<Rightarrow> service" where
  "event_call up (Q_CREATE_EVENT nm) = CREATE_EVENT nm"
| "event_call up (Q_SET_EVENT i) = SET_EVENT i"
| "event_call up (Q_RESET_EVENT i) = RESET_EVENT i"
| "event_call up (Q_WAIT_EVENT i t) = WAIT_EVENT i t up"
| "event_call up (Q_APERIODIC_WAIT_EVENT i) = APERIODIC_WAIT_EVENT i up"
| "event_call up (Q_GET_EVENT_ID nm) = GET_EVENT_ID nm"
| "event_call up (Q_GET_EVENT_STATUS i) = GET_EVENT_STATUS i"

datatype blackboard_request =
    Q_CREATE_BLACKBOARD string int | Q_DISPLAY_BLACKBOARD int addr int | Q_READ_BLACKBOARD int int addr
   | Q_CLEAR_BLACKBOARD int | Q_GET_BLACKBOARD_ID string | Q_GET_BLACKBOARD_STATUS int

primrec blackboard_call :: "u64 \<Rightarrow> blackboard_request \<Rightarrow> service" where
  "blackboard_call up (Q_CREATE_BLACKBOARD nm n) = CREATE_BLACKBOARD nm n"
| "blackboard_call up (Q_DISPLAY_BLACKBOARD i a n) = DISPLAY_BLACKBOARD i a n"
| "blackboard_call up (Q_READ_BLACKBOARD i t a) = READ_BLACKBOARD i t a up"
| "blackboard_call up (Q_CLEAR_BLACKBOARD i) = CLEAR_BLACKBOARD i"
| "blackboard_call up (Q_GET_BLACKBOARD_ID nm) = GET_BLACKBOARD_ID nm"
| "blackboard_call up (Q_GET_BLACKBOARD_STATUS i) = GET_BLACKBOARD_STATUS i"

datatype buffer_request =
    Q_CREATE_BUFFER string int int int | Q_SEND_BUFFER int addr int int | Q_RECEIVE_BUFFER int int addr
   | Q_GET_BUFFER_ID string | Q_GET_BUFFER_STATUS int

primrec buffer_call :: "u64 \<Rightarrow> buffer_request \<Rightarrow> service" where
  "buffer_call up (Q_CREATE_BUFFER nm a b c) = CREATE_BUFFER nm a b c"
| "buffer_call up (Q_SEND_BUFFER i a n t) = SEND_BUFFER i a n t up"
| "buffer_call up (Q_RECEIVE_BUFFER i t a) = RECEIVE_BUFFER i t a up"
| "buffer_call up (Q_GET_BUFFER_ID nm) = GET_BUFFER_ID nm"
| "buffer_call up (Q_GET_BUFFER_STATUS i) = GET_BUFFER_STATUS i"

datatype mutex_request =
    Q_CREATE_MUTEX string int int | Q_ACQUIRE_MUTEX int int | Q_RELEASE_MUTEX int | Q_RESET_MUTEX int int
   | Q_GET_MUTEX_ID string | Q_GET_MUTEX_STATUS int | Q_GET_PROCESS_MUTEX_STATE int

primrec mutex_call :: "u64 \<Rightarrow> mutex_request \<Rightarrow> service" where
  "mutex_call up (Q_CREATE_MUTEX nm p d) = CREATE_MUTEX nm p d"
| "mutex_call up (Q_ACQUIRE_MUTEX i t) = ACQUIRE_MUTEX i t up"
| "mutex_call up (Q_RELEASE_MUTEX i) = RELEASE_MUTEX i"
| "mutex_call up (Q_RESET_MUTEX i p) = RESET_MUTEX i p"
| "mutex_call up (Q_GET_MUTEX_ID nm) = GET_MUTEX_ID nm"
| "mutex_call up (Q_GET_MUTEX_STATUS i) = GET_MUTEX_STATUS i"
| "mutex_call up (Q_GET_PROCESS_MUTEX_STATE i) = GET_PROCESS_MUTEX_STATE i"

datatype port_request =
    Q_CREATE_SAMPLING_PORT string int int int | Q_GET_SAMPLING_PORT_ID string
   | Q_GET_SAMPLING_PORT_STATUS int | Q_CREATE_QUEUING_PORT string int int int int
   | Q_GET_QUEUING_PORT_ID string | Q_GET_QUEUING_PORT_STATUS int

primrec port_call :: "port_mapping_s list \<Rightarrow> u64 \<Rightarrow> port_request \<Rightarrow> service" where
  "port_call tab up (Q_CREATE_SAMPLING_PORT nm a b c) = CREATE_SAMPLING_PORT tab nm a b c up"
| "port_call tab up (Q_GET_SAMPLING_PORT_ID nm) = GET_SAMPLING_PORT_ID nm"
| "port_call tab up (Q_GET_SAMPLING_PORT_STATUS i) = GET_SAMPLING_PORT_STATUS i"
| "port_call tab up (Q_CREATE_QUEUING_PORT nm a b c d) = CREATE_QUEUING_PORT tab nm a b c d"
| "port_call tab up (Q_GET_QUEUING_PORT_ID nm) = GET_QUEUING_PORT_ID nm"
| "port_call tab up (Q_GET_QUEUING_PORT_STATUS i) = GET_QUEUING_PORT_STATUS i"

datatype partition_request =
    Q_CREATE_ERROR_HANDLER pref process_s addr nat | Q_GET_ERROR_STATUS
   | Q_RAISE_APPLICATION_ERROR ERROR_STATUS_TYPE int addr int | Q_GET_PARTITION_STATUS
   | Q_GET_MY_PARTITION_ID

primrec partition_call :: "u64 \<Rightarrow> partition_request \<Rightarrow> service" where
  "partition_call up (Q_CREATE_ERROR_HANDLER new g a n) = CREATE_ERROR_HANDLER new g a n"
| "partition_call up Q_GET_ERROR_STATUS = GET_ERROR_STATUS"
| "partition_call up (Q_RAISE_APPLICATION_ERROR g c a n) = RAISE_APPLICATION_ERROR g c a n"
| "partition_call up Q_GET_PARTITION_STATUS = GET_PARTITION_STATUS"
| "partition_call up Q_GET_MY_PARTITION_ID = GET_MY_PARTITION_ID"

datatype request =
    R_Process process_request | R_Preemption preemption_request | R_Time time_request | R_Semaphore semaphore_request
  | R_Event event_request | R_Blackboard blackboard_request | R_Buffer buffer_request | R_Mutex mutex_request
  | R_Port port_request | R_Partition partition_request

primrec local_call :: "port_mapping_s list \<Rightarrow> mscb_s \<Rightarrow> u64 \<Rightarrow> request \<Rightarrow> service" where
  "local_call tab ms up (R_Process q) = process_call ms up q"
| "local_call tab ms up (R_Preemption q) = preemption_call up q"
| "local_call tab ms up (R_Time q) = time_call up q"
| "local_call tab ms up (R_Semaphore q) = semaphore_call up q"
| "local_call tab ms up (R_Event q) = event_call up q"
| "local_call tab ms up (R_Blackboard q) = blackboard_call up q"
| "local_call tab ms up (R_Buffer q) = buffer_call up q"
| "local_call tab ms up (R_Mutex q) = mutex_call up q"
| "local_call tab ms up (R_Port q) = port_call tab up q"
| "local_call tab ms up (R_Partition q) = partition_call up q"

text \<open>What follows \<open>yield_to_partition\<close> in the service that called it.\<close>

definition local_resume :: "u64 \<Rightarrow> pref \<Rightarrow> process_s \<Rightarrow> resume_point \<Rightarrow> service" where
  "local_resume up r p k s =
     (case k of
        RP_LOCK_PREEMPTION k' \<Rightarrow> finish_lock (resume_mutex k' p) s
      | RP_UNLOCK_PREEMPTION k' \<Rightarrow> finish_lock (resume_mutex k' p) s
      | RP_TIMED_WAIT \<Rightarrow> (s, Ret (resume_time k) NoOut)
      | RP_PERIODIC_WAIT \<Rightarrow> (s, Ret (resume_time k) NoOut)
      | RP_DISPLAY_BLACKBOARD \<Rightarrow> resume_blackboard k p s
      | RP_READ_BLACKBOARD_INF i a \<Rightarrow> resume_blackboard k p s
      | RP_READ_BLACKBOARD_TMO i a \<Rightarrow> resume_blackboard k p s
      | RP_SEND_BUFFER_WOKE \<Rightarrow> (s, resume_buffer k p)
      | RP_SEND_BUFFER_INF \<Rightarrow> (s, resume_buffer k p)
      | RP_SEND_BUFFER_TMO \<Rightarrow> (s, resume_buffer k p)
      | RP_RECEIVE_BUFFER_WOKE n \<Rightarrow> (s, resume_buffer k p)
      | RP_RECEIVE_BUFFER_INF \<Rightarrow> (s, resume_buffer k p)
      | RP_RECEIVE_BUFFER_TMO \<Rightarrow> (s, resume_buffer k p)
      | RP_WAIT_SEMAPHORE_INF \<Rightarrow> (s, Ret (resume_semaphore k p) NoOut)
      | RP_WAIT_SEMAPHORE_TMO \<Rightarrow> (s, Ret (resume_semaphore k p) NoOut)
      | RP_SIGNAL_SEMAPHORE \<Rightarrow> (s, Ret (resume_semaphore k p) NoOut)
      | RP_SET_EVENT \<Rightarrow> resume_event k up r p s
      | RP_WAIT_EVENT_INF \<Rightarrow> resume_event k up r p s
      | RP_WAIT_EVENT_TMO \<Rightarrow> resume_event k up r p s
      | RP_APERIODIC_WAIT_EVENT \<Rightarrow> resume_event k up r p s
      | RP_ACQUIRE_MUTEX_INF \<Rightarrow> (s, Ret (resume_mutex k p) NoOut)
      | RP_ACQUIRE_MUTEX_TMO \<Rightarrow> (s, Ret (resume_mutex k p) NoOut)
      | RP_RELEASE_MUTEX \<Rightarrow> (s, Ret (resume_mutex k p) NoOut)
      | RP_RESET_MUTEX \<Rightarrow> (s, Ret (resume_mutex k p) NoOut)
      | RP_RAISE_ERROR_FULL e \<Rightarrow> resume_hm k r s
      | RP_RAISE_ERROR \<Rightarrow> resume_hm k r s
      | _ \<Rightarrow> (s, Ret (resume_process k p) NoOut))"

definition queuing_point :: "resume_point \<Rightarrow> bool" where
  "queuing_point k \<longleftrightarrow> (case k of RP_SEND_QUEUING i a l t \<Rightarrow> True | RP_RECEIVE_QUEUING i a t \<Rightarrow> True | _ \<Rightarrow> False)"

text \<open>The services that transmit messages, and the rest of a suspended one.\<close>

datatype queuing_request =
    Q_SEND_QUEUING_MESSAGE int addr int int | Q_RECEIVE_QUEUING_MESSAGE int int addr | Q_CLEAR_QUEUING_PORT int
  | Q_RESUME_QUEUING resume_point pref process_s

primrec queuing_call :: "u64 \<Rightarrow> queuing_request \<Rightarrow> krnl_queuing_channel_s list \<Rightarrow> pcb_s \<Rightarrow>
    krnl_queuing_channel_s list \<times> pcb_s \<times> outcome" where
  "queuing_call up (Q_SEND_QUEUING_MESSAGE i a n t) = SEND_QUEUING_MESSAGE i a n t up"
| "queuing_call up (Q_RECEIVE_QUEUING_MESSAGE i t a) = RECEIVE_QUEUING_MESSAGE i t a up"
| "queuing_call up (Q_CLEAR_QUEUING_PORT i) = CLEAR_QUEUING_PORT i"
| "queuing_call up (Q_RESUME_QUEUING k r p) = resume_queuing k r p"

datatype sampling_request = Q_WRITE_SAMPLING_MESSAGE int addr int | Q_READ_SAMPLING_MESSAGE int addr

primrec sampling_call :: "u64 \<Rightarrow> sampling_request \<Rightarrow> krnl_sampling_channel list \<Rightarrow> pcb_s \<Rightarrow>
    krnl_sampling_channel list \<times> pcb_s \<times> outcome" where
  "sampling_call up (Q_WRITE_SAMPLING_MESSAGE i a n) = WRITE_SAMPLING_MESSAGE i a n up"
| "sampling_call up (Q_READ_SAMPLING_MESSAGE i a) = READ_SAMPLING_MESSAGE i a up"


section \<open>Steps of a partition\<close>

definition set_partition :: "nat \<Rightarrow> pcb_s \<Rightarrow> kcb_s \<Rightarrow> kcb_s" where
  "set_partition n s k = k\<lparr>partitions := (partitions k)[n := s]\<rparr>"

abbreviation partition_mode :: "pcb_s \<Rightarrow> OPERATING_MODE_TYPE" where
  "partition_mode s \<equiv> OPERATING_MODE (status s)"

text \<open>What a step is: the service that is called, or what else the partition does.\<close>

datatype partition_event =
    E_Boot | E_Loop | E_Local request | E_Resume | E_Queuing queuing_request | E_Sampling sampling_request
  | E_Set_mode int | E_Log | E_Raise | E_Memory

text \<open>
  A step of partition \<open>n\<close>, the current one. In mode \<open>IDLE\<close> only its loop runs. A step with a
  fault has no successor.
\<close>

inductive partition_step :: "port_mapping_s list \<Rightarrow> nat \<Rightarrow> partition_event \<Rightarrow> kcb_s \<Rightarrow> kcb_s \<Rightarrow> bool" for tab n e k where
  boot: "partition_current k = Some n \<Longrightarrow> partition_mode (partitions k ! n) \<noteq> IDLE \<Longrightarrow> e = E_Boot \<Longrightarrow>
    partition_step tab n e k (set_partition n (partition_OS_start (partitions k ! n)) k)"
| loop: "partition_current k = Some n \<Longrightarrow> e = E_Loop \<Longrightarrow>
    partition_OS up (ticks k) (queuing_channels k) (partitions k ! n) = Inr (nx, s) \<Longrightarrow>
    partition_step tab n e k (set_partition n s k)"
| local: "partition_current k = Some n \<Longrightarrow> partition_mode (partitions k ! n) \<noteq> IDLE \<Longrightarrow> e = E_Local q \<Longrightarrow>
    local_call tab (module_scheduler k) up q (partitions k ! n) = (s, out) \<Longrightarrow> \<not> is_fault out \<Longrightarrow>
    partition_step tab n e k (set_partition n s k)"
| resume: "partition_current k = Some n \<Longrightarrow> partition_mode (partitions k ! n) \<noteq> IDLE \<Longrightarrow> e = E_Resume \<Longrightarrow>
    process_current (partitions k ! n) = Some r \<Longrightarrow> proc_heap (partitions k ! n) r = Some p \<Longrightarrow>
    tcb_ctx (tcb p) = Ctx_Resume rp \<Longrightarrow> \<not> queuing_point rp \<Longrightarrow>
    local_resume up r p rp (partitions k ! n) = (s, out) \<Longrightarrow> \<not> is_fault out \<Longrightarrow>
    partition_step tab n e k (set_partition n s k)"
| queuing: "partition_current k = Some n \<Longrightarrow> partition_mode (partitions k ! n) \<noteq> IDLE \<Longrightarrow> e = E_Queuing qq \<Longrightarrow>
    queuing_call up qq (queuing_channels k) (partitions k ! n) = (chs, s, out) \<Longrightarrow> \<not> is_fault out \<Longrightarrow>
    \<forall>rp r p. qq = Q_RESUME_QUEUING rp r p \<longrightarrow> process_current (partitions k ! n) = Some r \<and>
      proc_heap (partitions k ! n) r = Some p \<and> tcb_ctx (tcb p) = Ctx_Resume rp \<Longrightarrow>
    partition_step tab n e k ((set_partition n s k)\<lparr>queuing_channels := chs\<rparr>)"
| sampling: "partition_current k = Some n \<Longrightarrow> partition_mode (partitions k ! n) \<noteq> IDLE \<Longrightarrow> e = E_Sampling qs \<Longrightarrow>
    sampling_call up qs (sampling_channels k) (partitions k ! n) = (schs, s, out) \<Longrightarrow> \<not> is_fault out \<Longrightarrow>
    partition_step tab n e k ((set_partition n s k)\<lparr>sampling_channels := schs\<rparr>)"
| set_mode: "partition_current k = Some n \<Longrightarrow> partition_mode (partitions k ! n) \<noteq> IDLE \<Longrightarrow> e = E_Set_mode m \<Longrightarrow>
    SET_PARTITION_MODE m up (module_scheduler k) (partitions k ! n) = (ms, s, out) \<Longrightarrow> \<not> is_fault out \<Longrightarrow>
    partition_step tab n e k ((set_partition n s k)\<lparr>module_scheduler := ms\<rparr>)"
| log: "partition_current k = Some n \<Longrightarrow> partition_mode (partitions k ! n) \<noteq> IDLE \<Longrightarrow> e = E_Log \<Longrightarrow>
    REPORT_APPLICATION_MESSAGE a l (Some (hm_cb k)) (partitions k ! n) = (Some hm, out) \<Longrightarrow> \<not> is_fault out \<Longrightarrow>
    partition_step tab n e k (k\<lparr>hm_cb := hm\<rparr>)"
| raise: "partition_current k = Some n \<Longrightarrow> partition_mode (partitions k ! n) \<noteq> IDLE \<Longrightarrow> e = E_Raise \<Longrightarrow>
    hm_raise_error g c a l r (partitions k ! n) = (s, out) \<Longrightarrow> \<not> is_fault out \<Longrightarrow>
    partition_step tab n e k (set_partition n s k)"
| memory: "partition_current k = Some n \<Longrightarrow> partition_mode (partitions k ! n) \<noteq> IDLE \<Longrightarrow> e = E_Memory \<Longrightarrow>
    partition_step tab n e k (set_partition n ((partitions k ! n)\<lparr>mem := m\<rparr>) k)"

text \<open>
  Which steps a run admits. \<open>any_event\<close> admits every step. \<open>safe_event\<close> leaves out those that break
  the invariant of a partition: a restart while processes wait for a mutex (the queues keep the
  freed processes: \<open>restart_leaves_dangling_waiters\<close>), and the creation of an error handler in a
  block whose former content happens to hold the identifier of a process (\<open>CREATE_ERROR_HANDLER\<close>
  does not set \<open>process_id\<close>; \<open>fresh_handler\<close> excludes it). It also states what \<open>malloc\<close> promises:
  the block of a new process is not in use.
\<close>

definition any_event :: "partition_event \<Rightarrow> pcb_s \<Rightarrow> bool" where
  "any_event e s = True"

definition safe_event :: "partition_event \<Rightarrow> pcb_s \<Rightarrow> bool" where
  "safe_event e s \<longleftrightarrow> (case e of
     E_Local (R_Process (Q_CREATE_PROCESS new g attr)) \<Rightarrow> new \<notin> set (processes s)
   | E_Local (R_Partition (Q_CREATE_ERROR_HANDLER new g a n)) \<Rightarrow> fresh_handler new g s
   | E_Set_mode m \<Rightarrow> decode_mode m = Some COLD_START \<or> decode_mode m = Some WARM_START \<longrightarrow> no_mutex_waiters s
   | _ \<Rightarrow> True)"

section \<open>Every service keeps an invariant\<close>

text \<open>
  An invariant of a partition that the services and the loop keep, as long as the steps are
  admitted by \<open>ok\<close>. To the contract \<open>resource_inv\<close> it adds the operations that create, free or
  select processes.
\<close>

locale service_inv = resource_inv +
  fixes ok :: "partition_event \<Rightarrow> pcb_s \<Rightarrow> bool"
  assumes create_process: "inv s \<Longrightarrow> ok (E_Local (R_Process (Q_CREATE_PROCESS new g attr))) s \<Longrightarrow>
      inv (fst (CREATE_PROCESS new g attr s))"
    and create_handler: "inv s \<Longrightarrow> ok (E_Local (R_Partition (Q_CREATE_ERROR_HANDLER new g a n))) s \<Longrightarrow>
      inv (fst (CREATE_ERROR_HANDLER new g a n s))"
    and create_mutex: "inv s \<Longrightarrow> inv (fst (CREATE_MUTEX nm pri disc s))"
    and reset_mutex: "inv s \<Longrightarrow> inv (fst (RESET_MUTEX mid pid s))"
    and timed_wait: "inv s \<Longrightarrow> inv (fst (TIMED_WAIT t up s))"
    and schedule: "inv s \<Longrightarrow> inv (snd (process_schedule s))"
begin

lemma process_call_keeps:
  "inv s \<Longrightarrow> ok (E_Local (R_Process q)) s \<Longrightarrow> inv (fst (process_call ms up q s))"
  by (cases q) (auto intro: create_process SET_PRIORITY_inv SUSPEND_SELF_inv
      SUSPEND_inv RESUME_inv STOP_inv STOP_SELF_inv START_inv DELAYED_START_inv)

lemma preemption_call_keeps: "inv s \<Longrightarrow> inv (fst (preemption_call up q s))"
proof (cases q)
  case Q_GET_MY_INDEX
  moreover assume "inv s"
  ultimately show ?thesis by (auto simp: GET_MY_INDEX_def intro!: keep split: option.splits)
qed (auto simp: GET_MY_ID_def GET_PROCESS_ID_def GET_PROCESS_STATUS_def GET_MY_PROCESSOR_CORE_ID_def Let_def
      intro!: keep intro: LOCK_PREEMPTION_inv UNLOCK_PREEMPTION_inv INITIALIZE_PROCESS_CORE_AFFINITY_inv
      split: option.splits)

lemma time_call_keeps: "inv s \<Longrightarrow> inv (fst (time_call up q s))"
  by (cases q) (auto simp: GET_TIME_def intro: timed_wait TIME_keeps)

lemma semaphore_call_keeps: "inv s \<Longrightarrow> inv (fst (semaphore_call up q s))"
  by (cases q) (auto simp: GET_SEMAPHORE_ID_def GET_SEMAPHORE_STATUS_def Let_def intro: SEM_keeps)

lemma event_call_keeps: "inv s \<Longrightarrow> inv (fst (event_call up q s))"
  by (cases q) (auto simp: GET_EVENT_ID_def GET_EVENT_STATUS_def Let_def intro: EVENT_keeps SET_EVENT_keeps)

lemma blackboard_call_keeps: "inv s \<Longrightarrow> inv (fst (blackboard_call up q s))"
  by (cases q) (auto simp: GET_BLACKBOARD_ID_def GET_BLACKBOARD_STATUS_def Let_def
      intro: BLACKBOARD_keeps DISPLAY_BLACKBOARD_keeps)

lemma buffer_call_keeps: "inv s \<Longrightarrow> inv (fst (buffer_call up q s))"
  by (cases q) (auto simp: GET_BUFFER_ID_def GET_BUFFER_STATUS_def Let_def
      intro: CREATE_BUFFER_keeps SEND_BUFFER_keeps RECEIVE_BUFFER_keeps)

lemma mutex_call_keeps: "inv s \<Longrightarrow> inv (fst (mutex_call up q s))"
  by (cases q) (auto simp: ACQUIRE_MUTEX_def RELEASE_MUTEX_def GET_MUTEX_ID_def GET_MUTEX_STATUS_def
      GET_PROCESS_MUTEX_STATE_def Let_def intro!: keep_proc intro: create_mutex reset_mutex
      acquire release split: option.splits)

lemma port_call_keeps: "inv s \<Longrightarrow> inv (fst (port_call tab up q s))"
  by (cases q) (auto simp: GET_SAMPLING_PORT_ID_def GET_SAMPLING_PORT_STATUS_def GET_QUEUING_PORT_ID_def
      GET_QUEUING_PORT_STATUS_def Let_def intro: PORT_keeps)

lemma partition_call_keeps:
  "inv s \<Longrightarrow> ok (E_Local (R_Partition q)) s \<Longrightarrow> inv (fst (partition_call up q s))"
  by (cases q) (auto simp: GET_PARTITION_STATUS_def GET_MY_PARTITION_ID_def intro: create_handler HM_keeps)

lemma local_call_keeps:
  "inv s \<Longrightarrow> ok (E_Local q) s \<Longrightarrow> local_call tab ms up q s = (s', out) \<Longrightarrow> inv s'"
proof -
  assume s: "inv s" and q: "ok (E_Local q) s" and c: "local_call tab ms up q s = (s', out)"
  have "inv (fst (local_call tab ms up q s))"
    using s q process_call_keeps preemption_call_keeps time_call_keeps semaphore_call_keeps event_call_keeps
      blackboard_call_keeps buffer_call_keeps mutex_call_keeps port_call_keeps partition_call_keeps
    by (cases q) simp_all
  with c show ?thesis by simp
qed

lemma local_resume_keeps: "inv s \<Longrightarrow> local_resume up r p k s = (s', out) \<Longrightarrow> inv s'"
proof -
  assume s: "inv s" and c: "local_resume up r p k s = (s', out)"
  have "inv (fst (local_resume up r p k s))"
    using s RESUME_keeps finish_lock_inv by (cases k) (simp_all add: local_resume_def)
  with c show ?thesis by simp
qed

lemma queuing_call_keeps: "inv s \<Longrightarrow> inv (fst (snd (queuing_call up q chs s)))"
  by (cases q) (auto intro: PORT_keeps resume_queuing_keeps)

lemma sampling_call_keeps: "inv s \<Longrightarrow> inv (fst (snd (sampling_call up q chs s)))"
  by (cases q) (auto intro: PORT_keeps)

lemma partition_OS_start_inv: "inv s \<Longrightarrow> inv (partition_OS_start s)"
  by (simp add: partition_OS_start_def create_mutex)

lemma partition_OS_inv:
  assumes s: "inv s" and os: "partition_OS up tick chs s = Inr (nx, s')"
  shows "inv s'"
proof (cases "OPERATING_MODE (status s) = COLD_START \<or> OPERATING_MODE (status s) = WARM_START")
  case False
  with os obtain s1 where s1: "serve_tick up tick chs s = Inr s1" by (auto simp: partition_OS_def split: sum.splits)
  with os False have "s' = snd (process_schedule s1)"
    by (auto simp: partition_OS_def Let_def split: option.splits if_split_asm)
  with schedule [OF serve_tick_keeps [OF s s1]] show ?thesis by simp
qed (use s os in \<open>auto simp: partition_OS_def\<close>)

text \<open>One step of a partition that is not in mode \<open>IDLE\<close>, changes of mode left out.\<close>

lemma step_keeps:
  assumes st: "partition_step tab n e k k'" and "\<forall>m. e \<noteq> E_Set_mode m"
    and s: "inv (partitions k ! n)" and ok: "ok e (partitions k ! n)"
  shows "\<exists>s. partitions k' = (partitions k)[n := s] \<and> inv s"
  using st
proof cases
  case boot
  with partition_OS_start_inv [OF s] show ?thesis by (auto simp: set_partition_def)
next
  case (loop up nx t)
  with partition_OS_inv [OF s loop(4)] show ?thesis by (auto simp: set_partition_def)
next
  case (local q up t out)
  with local_call_keeps [OF s _ local(5)] ok show ?thesis by (auto simp: set_partition_def)
next
  case (resume r p rp up t out)
  with local_resume_keeps [OF s resume(9)] show ?thesis by (auto simp: set_partition_def)
next
  case (queuing qq up chs t out)
  with queuing_call_keeps [OF s, of up qq "queuing_channels k"] show ?thesis by (auto simp: set_partition_def)
next
  case (sampling qs up schs t out)
  with sampling_call_keeps [OF s, of up qs "sampling_channels k"] show ?thesis by (auto simp: set_partition_def)
next
  case (set_mode m up ms t out)
  with assms(2) show ?thesis by blast
next
  case (log a l hm out)
  with s show ?thesis by (intro exI [of _ "partitions k ! n"]) simp
next
  case (raise g c a l r t out)
  with hm_raise_error_keeps [OF s, of g c a l r] show ?thesis by (auto simp: set_partition_def)
next
  case (memory m)
  with fields_inv(17) [OF s] show ?thesis by (auto simp: set_partition_def)
qed

end

text \<open>The invariant of a partition, for the steps \<open>safe_event\<close> admits.\<close>

interpretation sys_services: service_inv "sys_inv ident" safe_event for ident
  by unfold_locales (auto simp: safe_event_def intro: CREATE_PROCESS_keeps CREATE_ERROR_HANDLER_keeps CREATE_MUTEX_keeps
      RESET_MUTEX_keeps TIMED_WAIT_sys process_schedule_keeps)

text \<open>The identifier of a partition, for every step.\<close>

definition has_ident :: "int \<Rightarrow> pcb_s \<Rightarrow> bool" where
  "has_ident i s \<longleftrightarrow> IDENTIFIER (status s) = i"

lemma ident_prims [simp]:
  "IDENTIFIER (status (upd_proc r f s)) = IDENTIFIER (status s)"
  "IDENTIFIER (status (move_to_back r s)) = IDENTIFIER (status s)"
  "IDENTIFIER (status (move_to_front r s)) = IDENTIFIER (status s)"
  "IDENTIFIER (status (upd_mutex i g s)) = IDENTIFIER (status s)"
  "IDENTIFIER (status (upd_mutex_status i h s)) = IDENTIFIER (status s)"
  "IDENTIFIER (status (reset_lock_level i s)) = IDENTIFIER (status s)"
  "IDENTIFIER (status (fst (yield_to_partition k r s))) = IDENTIFIER (status s)"
  by (simp_all add: upd_proc_def move_to_back_def move_to_front_def upd_mutex_def upd_mutex_status_def
      reset_lock_level_def yield_to_partition_def)

lemma ident_mutex_steps [simp]:
  "IDENTIFIER (status (take_mutex i mid r p s)) = IDENTIFIER (status s)"
  "IDENTIFIER (status (free_mutex i r s)) = IDENTIFIER (status s)"
  "IDENTIFIER (status (wait_mutex i r s)) = IDENTIFIER (status s)"
  "IDENTIFIER (status (grant_mutex i mid w pw s)) = IDENTIFIER (status s)"
  by (simp_all add: take_mutex_def free_mutex_def wait_mutex_def grant_mutex_def Let_def)

lemma ident_wake: "wake_mutex_waiter i mid s = Inr s' \<Longrightarrow> IDENTIFIER (status s') = IDENTIFIER (status s)"
  by (auto simp: wake_mutex_waiter_def Let_def split: list.splits option.splits)

lemma ident_leave: "remove_process_from_waiting_queue r s = Some s' \<Longrightarrow> has_ident i s \<Longrightarrow> has_ident i s'"
  by (erule remove_from_queue_induct)
    (auto simp: has_ident_def leave_queuing_port_def leave_blackboard_def leave_buffer_def leave_semaphore_def
      leave_event_def leave_mutex_def Let_def split: if_splits)

lemma ident_with_current:
  "(\<And>r p. process_current s = Some r \<Longrightarrow> proc_heap s r = Some p \<Longrightarrow> IDENTIFIER (status (fst (k r p))) = i) \<Longrightarrow>
   IDENTIFIER (status s) = i \<Longrightarrow> IDENTIFIER (status (fst (with_current k s))) = i"
  by (auto simp: with_current_def with_proc_def split: option.splits)

interpretation ident_services: service_inv "has_ident i" any_event for i
proof unfold_locales
  fix s mid pid
  assume i: "has_ident i s"
  then show "has_ident i (fst (RESET_MUTEX mid pid s))"
    unfolding has_ident_def RESET_MUTEX_def Let_def
    by (auto simp: with_proc_def intro!: ident_with_current dest!: ident_wake split: option.splits sum.splits)
  show "has_ident i (fst (krnl_release_mutex mid s))"
    using i unfolding has_ident_def krnl_release_mutex_def Let_def
    by (auto intro!: ident_with_current dest!: ident_wake split: option.splits sum.splits)
next
  fix s mid t up
  assume "has_ident i s"
  then show "has_ident i (fst (krnl_acquire_mutex mid t up s))"
    unfolding has_ident_def krnl_acquire_mutex_def Let_def by (auto intro!: ident_with_current)
next
  fix s r q p s'
  assume "has_ident i s" and "release_owned r p s = Inr s'"
  then show "has_ident i s'"
    by (auto simp: has_ident_def release_owned_def Let_def dest!: ident_wake split: if_splits)
next
  fix s new g attr
  assume "has_ident i s"
  then show "has_ident i (fst (CREATE_PROCESS new g attr s))"
    by (simp add: has_ident_def CREATE_PROCESS_def ucx_process_spawn_def Let_def)
next
  fix s new g a n
  assume "has_ident i s"
  then show "has_ident i (fst (CREATE_ERROR_HANDLER new g a n s))"
    by (simp add: has_ident_def CREATE_ERROR_HANDLER_def ucx_process_spawn_def Let_def)
next
  fix s nm pri disc
  assume "has_ident i s"
  then show "has_ident i (fst (CREATE_MUTEX nm pri disc s))"
    by (simp add: has_ident_def CREATE_MUTEX_def Let_def split: option.splits)
next
  fix s t up
  assume "has_ident i s"
  then show "has_ident i (fst (TIMED_WAIT t up s))"
    unfolding has_ident_def TIMED_WAIT_def by (auto intro!: ident_with_current)
next
  fix s
  assume "has_ident i s"
  then show "has_ident i (snd (process_schedule s))"
    using process_schedule_shape [of s] by (auto simp: has_ident_def demote_current_def split: option.splits)
qed (auto simp: has_ident_def ident_leave dest: ident_leave)

lemma check_ports_status: "check_ports n i chs s = Inr s' \<Longrightarrow> status s' = status s"
proof (induction n arbitrary: i s)
  case (Suc n)
  have pop: "pop_waiter i u = Inr u' \<Longrightarrow> status u' = status u" for u u'
    by (auto simp: pop_waiter_def upd_qp_def split: list.splits option.splits if_splits)
  from Suc.prems show ?case
    by (auto simp: Let_def split: option.splits sum.splits if_splits dest!: Suc.IH pop)
qed simp

lemma partition_OS_status:
  assumes "partition_OS up tick chs s = Inr (nx, s')"
  shows "status s' = status s"
proof (cases "OPERATING_MODE (status s) = COLD_START \<or> OPERATING_MODE (status s) = WARM_START")
  case False
  with assms obtain s1 where s1: "serve_tick up tick chs s = Inr s1" by (auto simp: partition_OS_def split: sum.splits)
  with assms False have "s' = snd (process_schedule s1)"
    by (auto simp: partition_OS_def Let_def split: option.splits if_split_asm)
  moreover have "status s1 = status s"
    using s1 by (auto simp: serve_tick_def check_available_resources_on_partition_port_def dest!: check_ports_status
        split: if_splits)
  ultimately show ?thesis by simp
qed (use assms in \<open>auto simp: partition_OS_def\<close>)

lemma SET_PARTITION_MODE_shape:
  assumes "SET_PARTITION_MODE m up ms s = (ms', t, out)"
  shows "IDENTIFIER (status t) = IDENTIFIER (status s)" and "\<exists>b. ms' = ms\<lparr>idle_current_partition := b\<rparr>"
proof -
  have "\<exists>b. ms = ms\<lparr>idle_current_partition := b\<rparr>" by (rule exI [of _ "idle_current_partition ms"]) simp
  moreover have "\<exists>b. ms\<lparr>idle_current_partition := True\<rparr> = ms\<lparr>idle_current_partition := b\<rparr>" by blast
  ultimately show "IDENTIFIER (status t) = IDENTIFIER (status s)" "\<exists>b. ms' = ms\<lparr>idle_current_partition := b\<rparr>"
    using assms by (auto simp: SET_PARTITION_MODE_def set_mode_def free_processes_shape Let_def
        split: option.splits OPERATING_MODE_TYPE.splits sum.splits if_splits)
qed

section \<open>One step of a partition\<close>

text \<open>What any step leaves of the kernel control block.\<close>

lemma partition_step_frame:
  assumes st: "partition_step tab n e k k'"
  shows "partition_current k = Some n" "partition_current k' = partition_current k" "ticks k' = ticks k"
    "\<exists>b. module_scheduler k' = (module_scheduler k)\<lparr>idle_current_partition := b\<rparr>"
proof -
  have "\<exists>b. module_scheduler k = (module_scheduler k)\<lparr>idle_current_partition := b\<rparr>"
    by (rule exI [of _ "idle_current_partition (module_scheduler k)"]) simp
  with st show "partition_current k = Some n" "partition_current k' = partition_current k" "ticks k' = ticks k"
    "\<exists>b. module_scheduler k' = (module_scheduler k)\<lparr>idle_current_partition := b\<rparr>"
    by (auto elim!: partition_step.cases dest!: SET_PARTITION_MODE_shape(2) simp: set_partition_def)
qed

lemma partition_step_set_mode:
  assumes "partition_step tab n (E_Set_mode m) k k'"
  obtains up ms s out where "SET_PARTITION_MODE m up (module_scheduler k) (partitions k ! n) = (ms, s, out)"
    "partitions k' = (partitions k)[n := s]" "partition_mode (partitions k ! n) \<noteq> IDLE"
  using assms by (auto elim!: partition_step.cases simp: set_partition_def)

lemma partition_step_idle:
  assumes "partition_step tab n e k k'" and "partition_mode (partitions k ! n) = IDLE"
  obtains s where "partitions k' = (partitions k)[n := s]" "status s = status (partitions k ! n)"
  using assms by (auto elim!: partition_step.cases dest!: partition_OS_status simp: set_partition_def)

lemma partition_step_ident:
  assumes st: "partition_step tab n e k k'"
  shows "\<exists>s. partitions k' = (partitions k)[n := s] \<and> IDENTIFIER (status s) = IDENTIFIER (status (partitions k ! n))"
proof (cases "\<exists>m. e = E_Set_mode m")
  case True
  with st obtain m where "partition_step tab n (E_Set_mode m) k k'" by blast
  then show ?thesis by (rule partition_step_set_mode) (use SET_PARTITION_MODE_shape(1) in blast)
next
  case False
  with ident_services.step_keeps [OF st, of "IDENTIFIER (status (partitions k ! n))"] show ?thesis
    by (simp add: has_ident_def any_event_def)
qed

text \<open>Every step is one of those the module scheduler allows for.\<close>

lemma partition_step_activity:
  assumes st: "partition_step tab n e k k'"
  shows "partition_activity k k'"
proof -
  from partition_step_ident [OF st] obtain s where p: "partitions k' = (partitions k)[n := s]"
    and i: "IDENTIFIER (status s) = IDENTIFIER (status (partitions k ! n))" by blast
  have "map (\<lambda>p. IDENTIFIER (status p)) (partitions k') = map (\<lambda>p. IDENTIFIER (status p)) (partitions k)"
    unfolding p by (cases "n < length (partitions k)") (simp_all add: map_update i list_update_beyond list_update_same_conv)
  with partition_step_frame [OF st] show ?thesis by (auto simp: partition_activity_def)
qed

text \<open>Every partition that is not in mode \<open>IDLE\<close> satisfies its invariant.\<close>

definition kernel_inv :: "kcb_s \<Rightarrow> bool" where
  "kernel_inv k \<longleftrightarrow> (\<forall>s \<in> set (partitions k). partition_mode s \<noteq> IDLE \<longrightarrow> sys_inv (IDENTIFIER (status s)) s)"

lemma kernel_inv_update:
  "kernel_inv k \<Longrightarrow> partitions k' = (partitions k)[n := s] \<Longrightarrow>
   (partition_mode s \<noteq> IDLE \<Longrightarrow> sys_inv (IDENTIFIER (status s)) s) \<Longrightarrow> kernel_inv k'"
  by (auto simp: kernel_inv_def dest!: set_update_subset_insert [THEN subsetD])

lemma partition_step_inv:
  assumes st: "partition_step tab n e k k'" and safe: "safe_event e (partitions k ! n)"
    and inv: "kernel_inv k" and n: "n < length (partitions k)"
  shows "kernel_inv k'"
proof (cases "partition_mode (partitions k ! n) = IDLE")
  case True
  with st obtain s where "partitions k' = (partitions k)[n := s]" "partition_mode s = IDLE"
    by (metis partition_step_idle)
  then show ?thesis by (auto intro: kernel_inv_update [OF inv])
next
  case False
  with inv n have s: "sys_inv (IDENTIFIER (status (partitions k ! n))) (partitions k ! n)" by (simp add: kernel_inv_def)
  show ?thesis
  proof (cases "\<exists>m. e = E_Set_mode m")
    case True
    then obtain m where e: "e = E_Set_mode m" by blast
    with st obtain up ms t out where t: "SET_PARTITION_MODE m up (module_scheduler k) (partitions k ! n) = (ms, t, out)"
      "partitions k' = (partitions k)[n := t]" by (auto elim: partition_step_set_mode)
    have "sys_inv (IDENTIFIER (status (partitions k ! n))) t" if "partition_mode t \<noteq> IDLE"
      by (rule SET_PARTITION_MODE_keeps [OF s _ _ that, where up = up and ms = "module_scheduler k" and mode = m])
        (use safe e t(1) in \<open>auto simp: safe_event_def\<close>)
    with kernel_inv_update [OF inv t(2)] SET_PARTITION_MODE_shape(1) [OF t(1)] show ?thesis by simp
  next
    case False
    with sys_services.step_keeps [OF st _ s safe] obtain t where
      "partitions k' = (partitions k)[n := t]" "sys_inv (IDENTIFIER (status (partitions k ! n))) t" by blast
    with kernel_inv_update [OF inv] sys_invD(4) show ?thesis by metis
  qed
qed

section \<open>Access to the channels\<close>

text \<open>
  The ports through which a step may send, and those through which it may receive: the created
  ones of that direction, and the one at which the current process was suspended while it sent,
  or received.
\<close>

definition suspended_at :: "pcb_s \<Rightarrow> resume_point \<Rightarrow> bool" where
  "suspended_at s k \<longleftrightarrow> (case process_current s of None \<Rightarrow> False
     | Some r \<Rightarrow> (case proc_heap s r of None \<Rightarrow> False | Some p \<Rightarrow> tcb_ctx (tcb p) = Ctx_Resume k))"

abbreviation qp_direction :: "pcb_s \<Rightarrow> nat \<Rightarrow> PORT_DIRECTION_TYPE" where
  "qp_direction s i \<equiv> QP_PORT_DIRECTION (queuing_port_status (queuing_ports s ! i))"

definition may_send :: "pcb_s \<Rightarrow> nat \<Rightarrow> bool" where
  "may_send s i \<longleftrightarrow> i < nat (queuing_port_count s) \<and> qp_direction s i = SOURCE \<or>
     (\<exists>a l t. suspended_at s (RP_SEND_QUEUING i a l t))"

definition may_receive :: "pcb_s \<Rightarrow> nat \<Rightarrow> bool" where
  "may_receive s i \<longleftrightarrow> i < nat (queuing_port_count s) \<and> qp_direction s i = DESTINATION \<or>
     (\<exists>a t. suspended_at s (RP_RECEIVE_QUEUING i a t))"

text \<open>The two changes of a queuing channel: a message put in; a message taken, or all of them.\<close>

definition sent_from :: "(addr \<Rightarrow> byte) \<Rightarrow> krnl_queuing_channel_s \<Rightarrow> krnl_queuing_channel_s \<Rightarrow> bool" where
  "sent_from m ch ch' \<longleftrightarrow> (\<exists>a n. chan_put (mem_read m a n) ch = Inr ch')"

definition received :: "krnl_queuing_channel_s \<Rightarrow> krnl_queuing_channel_s \<Rightarrow> bool" where
  "received ch ch' \<longleftrightarrow> (\<exists>msg. chan_get ch = Inr (msg, ch')) \<or>
     ch' = ch\<lparr>current_nb_messages := 0, read_index := 0, write_index := 0\<rparr>"

definition queuing_access :: "pcb_s \<Rightarrow> nat \<Rightarrow> krnl_queuing_channel_s \<Rightarrow> krnl_queuing_channel_s \<Rightarrow> bool" where
  "queuing_access s c ch ch' \<longleftrightarrow> (\<exists>i. qp_channel (queuing_ports s ! i) = Some c \<and>
     (may_send s i \<and> sent_from (mem s) ch ch' \<or> may_receive s i \<and> received ch ch'))"

text \<open>The change of a sampling channel: a message of the partition, not longer than its port allows.\<close>

definition sampling_access :: "pcb_s \<Rightarrow> nat \<Rightarrow> krnl_sampling_channel \<Rightarrow> krnl_sampling_channel \<Rightarrow> bool" where
  "sampling_access s c ch ch' \<longleftrightarrow> (\<exists>i < nat (sampling_port_count s). let port = sampling_ports s ! i in
     sp_channel port = Some c \<and> SP_PORT_DIRECTION (sampling_port_status port) = SOURCE \<and>
     0 < sc_current_message_size ch' \<and>
     sc_current_message_size ch' \<le> SP_MAX_MESSAGE_SIZE (sampling_port_status port) \<and>
     (\<exists>a. buf_write (sc_buffer ch) 0 (mem_read (mem s) a (nat (sc_current_message_size ch'))) = Some (sc_buffer ch')))"

lemmas channel_defs = with_current_chan_def with_channel_def nth_list_update Let_def

lemma found_port:
  "find_queuing_port_by_id s pid \<noteq> -1 \<Longrightarrow> nat (find_queuing_port_by_id s pid) < nat (queuing_port_count s)"
  using index_from_found(1) [of "\<lambda>p. queuing_port_id p = pid" "take (nat (queuing_port_count s)) (queuing_ports s)"]
  by (auto simp: find_queuing_port_by_id_def)

lemma queuing_call_channels:
  assumes ch: "fst (queuing_call up q chs s) ! c \<noteq> chs ! c"
    and sus: "\<And>k r p. q = Q_RESUME_QUEUING k r p \<Longrightarrow> suspended_at s k"
  shows "queuing_access s c (chs ! c) (fst (queuing_call up q chs s) ! c)"
proof (cases q)
  case q: (Q_SEND_QUEUING_MESSAGE pid a n t)
  let ?i = "find_queuing_port_by_id s pid"
  have "?i \<noteq> -1" and dir: "qp_direction s (nat ?i) = SOURCE"
    using ch by (auto simp: q SEND_QUEUING_MESSAGE_def Let_def split: if_splits)
  with found_port have i: "may_send s (nat ?i)" by (simp add: may_send_def)
  have "qp_channel (queuing_ports s ! nat ?i) = Some c \<and> sent_from (mem s) (chs ! c) (fst (queuing_call up q chs s) ! c)"
    using ch unfolding q sent_from_def
    by (auto simp: SEND_QUEUING_MESSAGE_def channel_defs split: if_splits option.splits sum.splits)
  with i show ?thesis unfolding queuing_access_def by blast
next
  case q: (Q_RECEIVE_QUEUING_MESSAGE pid t a)
  let ?i = "find_queuing_port_by_id s pid"
  have "?i \<noteq> -1" and dir: "qp_direction s (nat ?i) = DESTINATION"
    using ch by (auto simp: q RECEIVE_QUEUING_MESSAGE_def Let_def split: if_splits)
  with found_port have i: "may_receive s (nat ?i)" by (simp add: may_receive_def)
  have "qp_channel (queuing_ports s ! nat ?i) = Some c \<and> received (chs ! c) (fst (queuing_call up q chs s) ! c)"
    using ch unfolding q received_def
    by (auto simp: RECEIVE_QUEUING_MESSAGE_def channel_defs split: if_splits option.splits sum.splits)
  with i show ?thesis unfolding queuing_access_def by blast
next
  case q: (Q_CLEAR_QUEUING_PORT pid)
  let ?i = "find_queuing_port_by_id s pid"
  have "?i \<noteq> -1" and dir: "qp_direction s (nat ?i) = DESTINATION"
    using ch by (auto simp: q CLEAR_QUEUING_PORT_def Let_def split: if_splits)
  with found_port have i: "may_receive s (nat ?i)" by (simp add: may_receive_def)
  have "qp_channel (queuing_ports s ! nat ?i) = Some c \<and> received (chs ! c) (fst (queuing_call up q chs s) ! c)"
    using ch unfolding q received_def
    by (auto simp: CLEAR_QUEUING_PORT_def channel_defs split: if_splits option.splits)
  with i show ?thesis unfolding queuing_access_def by blast
next
  case q: (Q_RESUME_QUEUING k r p)
  note sus = sus [OF q]
  show ?thesis
  proof (cases k)
    case k: (RP_SEND_QUEUING i a l t)
    have "qp_channel (queuing_ports s ! i) = Some c \<and> sent_from (mem s) (chs ! c) (fst (queuing_call up q chs s) ! c)"
      using ch unfolding q k sent_from_def
      by (auto simp: resume_queuing_def channel_defs split: if_splits option.splits sum.splits)
    with sus k show ?thesis unfolding queuing_access_def may_send_def by blast
  next
    case k: (RP_RECEIVE_QUEUING i a t)
    have "qp_channel (queuing_ports s ! i) = Some c \<and> received (chs ! c) (fst (queuing_call up q chs s) ! c)"
      using ch unfolding q k received_def
      by (auto simp: resume_queuing_def channel_defs split: if_splits option.splits sum.splits)
    with sus k show ?thesis unfolding queuing_access_def may_receive_def by blast
  qed (use ch q in \<open>simp_all add: resume_queuing_def\<close>)
qed

lemma sampling_call_channels:
  assumes ch: "fst (sampling_call up q chs s) ! c \<noteq> chs ! c"
  shows "sampling_access s c (chs ! c) (fst (sampling_call up q chs s) ! c)"
proof (cases q)
  case q: (Q_WRITE_SAMPLING_MESSAGE pid a n)
  let ?i = "find_sampling_port_by_id s pid" and ?new = "fst (sampling_call up q chs s) ! c"
  let ?port = "sampling_ports s ! nat ?i"
  have "?i \<noteq> -1" using ch by (auto simp: q WRITE_SAMPLING_MESSAGE_def Let_def)
  then have i: "nat ?i < nat (sampling_port_count s)"
    using index_from_found(1) [of "\<lambda>p. sampling_port_id p = pid" "take (nat (sampling_port_count s)) (sampling_ports s)"]
    by (auto simp: find_sampling_port_by_id_def)
  have "sp_channel ?port = Some c \<and> SP_PORT_DIRECTION (sampling_port_status ?port) = SOURCE \<and>
      0 < sc_current_message_size ?new \<and> sc_current_message_size ?new \<le> SP_MAX_MESSAGE_SIZE (sampling_port_status ?port) \<and>
      buf_write (sc_buffer (chs ! c)) 0 (mem_read (mem s) a (nat (sc_current_message_size ?new))) = Some (sc_buffer ?new)"
    using ch unfolding q
    by (auto simp: WRITE_SAMPLING_MESSAGE_def channel_defs split: if_splits option.splits)
  with i show ?thesis unfolding sampling_access_def Let_def by blast
next
  case (Q_READ_SAMPLING_MESSAGE pid a)
  with ch show ?thesis
    by (auto simp: READ_SAMPLING_MESSAGE_def with_channel_def Let_def split: if_splits option.splits)
qed

section \<open>Runs of the kernel\<close>

text \<open>
  \<open>partition_init\<close> for every partition of the configuration; \<open>g\<close> is the former content of
  its block.
\<close>

definition init_partitions :: "addr \<Rightarrow> (pcb_s \<times> PartitionConfig) list \<Rightarrow> kcb_s \<Rightarrow> kcb_s" where
  "init_partitions tsk confs k = fold (\<lambda>(g, c) k. snd (partition_init g tsk c k)) confs k"

text \<open>
  \<open>kernel_run tab ok n k\<close>: the kernel is started on a configuration with a well-formed window
  table, and can be in state \<open>k\<close> when the module scheduler last ran at tick \<open>n\<close>. \<open>main_loop\<close> runs
  at every tick, from the first one after boot, or again within one; between two ticks the
  current partition makes any number of steps that \<open>ok\<close> admits.

  \<open>tick_of up\<close> is the tick of the truncated uptime, so a run ends at tick 429496729, when the
  32-bit counter of milliseconds wraps: what follows is \<open>uptime_wrap_restarts_frame\<close>.
\<close>

inductive kernel_run :: "port_mapping_s list \<Rightarrow> (partition_event \<Rightarrow> pcb_s \<Rightarrow> bool) \<Rightarrow> nat \<Rightarrow> kcb_s \<Rightarrow> bool" for tab ok where
  start: "partitions k0 = [] \<Longrightarrow> module_scheduler k0 = module_scheduler_init nm mft ws nw \<Longrightarrow>
    \<forall>(g, c) \<in> set confs. conf_ok c \<Longrightarrow> k1 = init_partitions tsk confs k0 \<Longrightarrow>
    wf_schedule (module_scheduler k1) \<Longrightarrow> known_windows k1 \<Longrightarrow>
    arinc_start_scheduling k1 = Inr (w, k) \<Longrightarrow> kernel_run tab ok 0 k"
| tick: "kernel_run tab ok n k \<Longrightarrow> tick_of up = n \<or> tick_of up = Suc n \<Longrightarrow> main_loop up k = Inr (r, k') \<Longrightarrow>
    kernel_run tab ok (tick_of up) k'"
| step: "kernel_run tab ok n k \<Longrightarrow> partition_step tab j e k k' \<Longrightarrow> ok e (partitions k ! j) \<Longrightarrow> kernel_run tab ok n k'"

lemma partition_init_sys:
  assumes "conf_ok c" and "kernel_inv k"
  shows "kernel_inv (snd (partition_init g tsk c k)) \<and>
    module_scheduler (snd (partition_init g tsk c k)) = module_scheduler k"
proof -
  obtain s where s: "partition_init g tsk c k = (cf_identifier c, k\<lparr>partitions := partitions k @ [s]\<rparr>)"
    and sel: "processes s = []" "process_current s = None" "error_handler_process s = None" "mutex_count s = 0"
    "id_next s = 0" "nbr_processes s = 0" "mr_base (data_memory s) \<le> next_stack_addr s"
    using assms(1) by (simp add: partition_init_def conf_ok_def)
  have "wf_procs s" "proc_ids_ok s" "mutex_ids_ok s" "mutex_excl s" "mutex_locks_ok s" "mutex_queues_ok s" "one_running s"
    by (simp_all add: wf_procs_def proc_ids_ok_def mutex_ids_ok_def mutex_excl_def
        mutex_locks_ok_def mutex_queues_ok_def one_running_def sel)
  moreover have "alloc_inv s" using sel(7) by (simp add: alloc_inv_def stacks_ok_def sel)
  ultimately have "sys_inv (IDENTIFIER (status s)) s" by (simp add: sys_inv_def part_inv_def mutex_inv_def)
  with s assms(2) show ?thesis by (simp add: kernel_inv_def)
qed

lemma init_partitions_sys:
  "\<forall>(g, c) \<in> set confs. conf_ok c \<Longrightarrow> kernel_inv k \<Longrightarrow> kernel_inv (init_partitions tsk confs k) \<and>
     module_scheduler (init_partitions tsk confs k) = module_scheduler k"
proof (induction confs arbitrary: k)
  case (Cons gc confs)
  obtain g c where gc: "gc = (g, c)" by (cases gc)
  from Cons.prems gc partition_init_sys [of c k g tsk]
  have "kernel_inv (snd (partition_init g tsk c k))"
    "module_scheduler (snd (partition_init g tsk c k)) = module_scheduler k" by auto
  with Cons.IH [of "snd (partition_init g tsk c k)"] Cons.prems(1) gc show ?case
    by (simp add: init_partitions_def)
qed (simp add: init_partitions_def)

lemma krnl_partition_switch_partitions:
  "krnl_partition_switch i k = Inr (r, k') \<Longrightarrow> partitions k' = partitions k \<and> module_scheduler k' = module_scheduler k"
  by (auto simp: krnl_partition_switch_def Let_def split: if_splits)

lemma partition_scheduler_partitions:
  assumes "partition_scheduler up k = Inr (r, k')"
  shows "partitions k' = partitions k"
proof -
  have s: "partitions (serve_idle_signal k) = partitions k" by (simp add: serve_idle_signal_def)
  from assms s show ?thesis
    by (auto simp: partition_scheduler_def with_window_def Let_def split: option.splits if_splits sum.splits
        dest!: krnl_partition_switch_partitions)
qed

lemma started:
  assumes "wf_schedule (module_scheduler k1)" and "known_windows k1"
    and ms: "windows_idx (module_scheduler k1) = 0" "major_frame_count (module_scheduler k1) = 0"
    and st: "arinc_start_scheduling k1 = Inr (w, k)"
  shows "wf_schedule (module_scheduler k)" "known_windows k" "sched_at 0 (module_scheduler k)" "owned_by_window k 0"
    and "partitions k = partitions k1"
proof -
  let ?ws = "windows_partition (module_scheduler k1)"
  have n: "0 < length ?ws" using assms(1) by (simp add: wf_schedule_def)
  then have w0: "window_at (module_scheduler k1) 0 = Some (?ws ! 0)" by (simp add: window_at_def)
  from st w0 obtain r k2 where sw: "krnl_partition_switch (win_id (?ws ! 0)) k1 = Inr (r, k2)"
    and k: "k = k2\<lparr>module_scheduler := (module_scheduler k2)\<lparr>windows_idx := 0\<rparr>, ticks := 0\<rparr>"
    by (auto simp: arinc_start_scheduling_def with_window_def Let_def split: if_splits sum.splits)
  have "k2 = k1\<lparr>partition_current := switch_target (win_id (?ws ! 0)) (partitions k1)\<rparr>"
    using krnl_partition_switch_known [of "win_id (?ws ! 0)" k1] assms(2) n sw by (auto simp: known_windows_def)
  then have sel: "partitions k = partitions k1" "module_scheduler k = (module_scheduler k1)\<lparr>windows_idx := 0\<rparr>"
    "partition_current k = switch_target (win_id (?ws ! 0)) (partitions k1)" by (simp_all add: k)
  then show "partitions k = partitions k1" by blast
  show wf: "wf_schedule (module_scheduler k)" "known_windows k" using assms(1,2) sel by (simp_all add: known_windows_def)
  have room: "w_start (module_scheduler k1) 0 = 0" "w_start (module_scheduler k1) 0 < w_end (module_scheduler k1) 0"
    "w_end (module_scheduler k1) 0 \<le> mf (module_scheduler k1)"
    "Suc 0 < length ?ws \<Longrightarrow> w_end (module_scheduler k1) 0 \<le> w_start (module_scheduler k1) (Suc 0)"
    using assms(1) window_room [OF assms(1) n] by (auto simp: wf_schedule_def)
  then have later: "Suc 0 < length ?ws \<Longrightarrow> 0 < w_start (module_scheduler k1) (Suc 0)" by linarith
  show "sched_at 0 (module_scheduler k)" using n room(1) later sel ms by (simp add: sched_at_def)
  show "owned_by_window k 0"
    using switch_target_Some n room(1,2) unfolding owned_by_window_def in_window_def by (auto simp: sel)
qed

lemma main_loop_scheduler:
  "main_loop up k = Inr (r, k') \<Longrightarrow> \<exists>i. partition_scheduler up (k\<lparr>ticks := ticks k + 1\<rparr>) = Inr (i, k') \<and> r = partition_current k'"
  by (auto simp: main_loop_def split: sum.splits)

lemma count_tick_activity: "partition_activity k (k\<lparr>ticks := t\<rparr>)"
  by (auto simp: partition_activity_def intro: exI [of _ "idle_current_partition (module_scheduler k)"])

text \<open>What a run starts from.\<close>

lemma kernel_start:
  assumes "partitions k0 = []" and "module_scheduler k0 = module_scheduler_init nm mft ws nw"
    and "\<forall>(g, c) \<in> set confs. conf_ok c" and "k1 = init_partitions tsk confs k0"
    and "wf_schedule (module_scheduler k1)" and "known_windows k1" and "arinc_start_scheduling k1 = Inr (w, k)"
  shows "sched_run 0 k" and "kernel_inv k"
proof -
  from init_partitions_sys [OF assms(3), of k0 tsk] assms(1,2,4)
  have k1: "kernel_inv k1" "module_scheduler k1 = module_scheduler_init nm mft ws nw" by (auto simp: kernel_inv_def)
  have ms: "windows_idx (module_scheduler k1) = 0" "major_frame_count (module_scheduler k1) = 0"
    by (simp_all add: k1 module_scheduler_init_def)
  note st = started [OF assms(5,6) ms assms(7)]
  show "sched_run 0 k" by (rule sched_run.start [OF st(1-4)])
  show "kernel_inv k" using st(5) k1(1) by (simp add: kernel_inv_def)
qed

text \<open>Every run is one of the module scheduler, whatever steps it admits.\<close>

lemma kernel_run_sched: "kernel_run tab ok n k \<Longrightarrow> sched_run n k"
proof (induction rule: kernel_run.induct)
  case (start k0 nm mft ws nw confs k1 tsk w k)
  then show ?case by (rule kernel_start(1))
next
  case (tick n k up r k')
  from main_loop_scheduler [OF tick(3)] sched_run.tick [OF sched_run.activity [OF tick.IH count_tick_activity] tick(2)]
  show ?case by blast
next
  case (step n k j e k')
  from sched_run.activity [OF step.IH partition_step_activity [OF step(2)]] show ?case .
qed

lemma kernel_run_current:
  assumes "kernel_run tab ok n k" and "partition_current k = Some j"
  shows "j < length (partitions k)"
  using sched_run_inv [OF kernel_run_sched [OF assms(1)]] assms(2) by (simp add: owned_by_window_def)

lemma kernel_run_inv: "kernel_run tab safe_event n k \<Longrightarrow> kernel_inv k"
proof (induction rule: kernel_run.induct)
  case (start k0 nm mft ws nw confs k1 tsk w k)
  then show ?case by (rule kernel_start(2))
next
  case (tick n k up r k')
  from main_loop_scheduler [OF tick(3)] have "partitions k' = partitions k"
    by (auto dest: partition_scheduler_partitions)
  with tick.IH show ?case by (simp add: kernel_inv_def)
next
  case (step n k j e k')
  from kernel_run_current [OF step(1) partition_step_frame(1) [OF step(2)]]
  show ?case by (rule partition_step_inv [OF step(2,3) step.IH])
qed

section \<open>Properties\<close>

text \<open>
  C1. Temporal partitioning of the whole kernel, from its start on a valid configuration with a
  well-formed window table. Whatever services the applications call with whatever arguments
  (restarts with processes waiting and error handlers in any block included), whatever they
  write to their memory and whatever errors are raised, the partition that is current at tick
  \<open>n\<close> owns a window that contains the position of \<open>n\<close> in the major frame. It is assumed that
  the scheduler first runs at the first tick after boot and then at every tick, and it holds
  until the 32-bit uptime wraps (tick 429496729, 49.7 days); a step with a fault ends the run.
\<close>

theorem kernel_run_partitioned:
  assumes "kernel_run tab any_event n k" and "partition_current k = Some j"
  shows "j < length (partitions k) \<and> (\<exists>i. in_window (module_scheduler k) n i \<and>
    IDENTIFIER (status (partitions k ! j)) = win_id (windows_partition (module_scheduler k) ! i))"
  using sched_run_inv [OF kernel_run_sched [OF assms(1)]] assms(2) by (auto simp: owned_by_window_def)

text \<open>
  C2. The invariant of the kernel. In every state a run of \<open>safe_event\<close> steps reaches from the
  start, every partition that is not in mode \<open>IDLE\<close> is consistent: its process list has no
  duplicate and only live entries, at most one process is \<open>RUNNING\<close> and it is the current one,
  the ownership of mutexes is exclusive and recorded on both sides (\<open>part_inv\<close>), process
  identifiers are not given twice and the stacks lie apart in its data memory
  (\<open>alloc_inv\<close>). Two kinds of step are excluded, because they do break it: a restart while
  processes wait for a mutex, and an error handler created in a block that still holds the
  identifier of a process. As in C1, the scheduler runs at every tick from the first one after
  boot, until the uptime wraps.
\<close>

theorem kernel_run_consistent:
  assumes "kernel_run tab safe_event n k" and "j < length (partitions k)" and "partition_mode (partitions k ! j) \<noteq> IDLE"
  shows "part_inv (partitions k ! j) \<and> alloc_inv (partitions k ! j)"
  using kernel_run_inv [OF assms(1)] assms(2,3) by (simp_all add: kernel_inv_def sys_inv_def)

text \<open>
  C3. Who may change a channel, and how. A step of partition \<open>n\<close> changes a queuing channel only
  through a port of the partition that is connected to it: by putting in a message from its
  memory, through a \<open>SOURCE\<close> port; or by taking the first message or clearing the channel,
  through a \<open>DESTINATION\<close> port (or by finishing a send or a receive in which its current process
  was suspended at that port). It changes a sampling channel only by writing a message of its
  memory, not longer than the port allows, through a \<open>SOURCE\<close> port connected to it. (The
  partitions have separate memories in the model; that they do not write to each other's is an
  assumption on the memory protection, not a part of this property.)
\<close>

theorem channel_access:
  assumes "partition_step tab n e k k'"
  shows "(\<forall>c. queuing_channels k' ! c \<noteq> queuing_channels k ! c \<longrightarrow>
      queuing_access (partitions k ! n) c (queuing_channels k ! c) (queuing_channels k' ! c)) \<and>
    (\<forall>c. sampling_channels k' ! c \<noteq> sampling_channels k ! c \<longrightarrow>
      sampling_access (partitions k ! n) c (sampling_channels k ! c) (sampling_channels k' ! c))"
  using assms
proof cases
  case (queuing qq up chs s out)
  have "suspended_at (partitions k ! n) rp" if "qq = Q_RESUME_QUEUING rp r p" for rp r p
    using queuing(7) that by (simp add: suspended_at_def)
  with queuing queuing_call_channels [of up qq "queuing_channels k" "partitions k ! n"] show ?thesis
    by (auto simp: set_partition_def)
next
  case (sampling qs up schs s out)
  with sampling_call_channels [of up qs "sampling_channels k" "partitions k ! n"] show ?thesis
    by (auto simp: set_partition_def)
qed (simp_all add: set_partition_def)

text \<open>
  C8. The kernel goes on and serves every window. In every state a run of the kernel reaches,
  with any steps of the partitions, the next call of \<open>main_loop\<close>, at the same or the next tick,
  returns: no panic and no access outside the window table. It leaves the partitions and the
  table as they are and its window index in the table; and at the tick at which a window opens
  it makes the owner of the window current, unless the owner is in mode \<open>IDLE\<close> (then no
  partition is current). As in C1, until the uptime wraps.
\<close>

theorem kernel_run_windows:
  assumes "kernel_run tab any_event n k" and "tick_of up = n \<or> tick_of up = Suc n"
  shows "\<exists>k'. main_loop up k = Inr (partition_current k', k') \<and> kernel_run tab any_event (tick_of up) k' \<and>
    partitions k' = partitions k \<and> windows_partition (module_scheduler k') = windows_partition (module_scheduler k) \<and>
    major_frame_tick (module_scheduler k') = major_frame_tick (module_scheduler k) \<and>
    0 \<le> windows_idx (module_scheduler k') \<and> windows_idx (module_scheduler k') < int (n_windows (module_scheduler k')) \<and>
    (\<forall>i < n_windows (module_scheduler k). tick_of up = Suc n \<longrightarrow>
      Suc n mod mf (module_scheduler k) = w_start (module_scheduler k) i \<longrightarrow>
      partition_current k' = switch_target (win_id (windows_partition (module_scheduler k) ! i)) (partitions k))"
proof -
  let ?k = "k\<lparr>ticks := ticks k + 1\<rparr>"
  have run: "sched_run n ?k" by (rule sched_run.activity [OF kernel_run_sched [OF assms(1)] count_tick_activity])
  from scheduler_returns [OF run assms(2)] obtain r k' where k': "partition_scheduler up ?k = Inr (r, k')"
    "partitions k' = partitions k" "windows_partition (module_scheduler k') = windows_partition (module_scheduler k)"
    "major_frame_tick (module_scheduler k') = major_frame_tick (module_scheduler k)" by auto
  have loop: "main_loop up k = Inr (partition_current k', k')" using k'(1) by (simp add: main_loop_def)
  have next_run: "kernel_run tab any_event (tick_of up) k'" by (rule kernel_run.tick [OF assms(1,2) loop])
  have idx: "0 \<le> windows_idx (module_scheduler k')" "windows_idx (module_scheduler k') < int (n_windows (module_scheduler k'))"
    using sched_run_inv [OF kernel_run_sched [OF next_run]] by (auto simp: sched_at_def)
  have "partition_current k' = switch_target (win_id (windows_partition (module_scheduler k) ! i)) (partitions k)"
    if "i < n_windows (module_scheduler k)" "tick_of up = Suc n" "Suc n mod mf (module_scheduler k) = w_start (module_scheduler k) i" for i
    using window_opens [OF run that(2), of i] that k'(1) by simp
  with loop next_run k'(2-4) idx show ?thesis by blast
qed

section \<open>Examples\<close>

definition sample_boot :: kcb_s where
  "sample_boot = init_partitions 64 [(sample_partition, sample_conf\<lparr>cf_identifier := 1, cf_max_mutexes := 1,
      cf_mutexes := [sample_mutex]\<rparr>), (sample_partition, sample_conf)]
    (sample_kernel\<lparr>partitions := [], partition_current := None\<rparr>)"

definition sample_started :: kcb_s where
  "sample_started = sample_boot\<lparr>partition_current := Some 0\<rparr>"

lemma sample_started_sel:
  "module_scheduler sample_started = default_scheduler" "partition_current sample_started = Some 0"
  "length (partitions sample_started) = 2" "partition_mode (partitions sample_started ! 0) = COLD_START"
  "IDENTIFIER (status (partitions sample_started ! 0)) = 1" "IDENTIFIER (status (partitions sample_started ! 1)) = 2"
  by (simp_all add: sample_started_def sample_boot_def init_partitions_def partition_init_def sample_kernel_def sample_conf_def)


text \<open>The sample module, after the start and after the first turn of the loop of its first partition.\<close>

definition sample_booted :: kcb_s where
  "sample_booted = set_partition 0 (partition_OS_start (partitions sample_started ! 0)) sample_started"

lemma sample_run: "kernel_run [] ok 0 sample_started"
proof (rule kernel_run.start)
  let ?confs = "[(sample_partition, sample_conf\<lparr>cf_identifier := 1, cf_max_mutexes := 1, cf_mutexes := [sample_mutex]\<rparr>),
    (sample_partition, sample_conf)]"
  show "partitions (sample_kernel\<lparr>partitions := [], partition_current := None\<rparr>) = []" by simp
  show "module_scheduler (sample_kernel\<lparr>partitions := [], partition_current := None\<rparr>) =
      module_scheduler_init ''DefaultModule'' (MS_TO_TICKS 100) DEFAULT_WINDOWS 4"
    by (simp add: sample_kernel_def default_scheduler_def)
  show "\<forall>(g, c) \<in> set ?confs. conf_ok c" by (simp add: conf_ok_def sample_conf_def)
  show "sample_boot = init_partitions 64 ?confs (sample_kernel\<lparr>partitions := [], partition_current := None\<rparr>)"
    by (simp add: sample_boot_def)
  have sel: "module_scheduler sample_boot = default_scheduler" "find_partition 1 (partitions sample_boot) = 0"
    "find_partition 2 (partitions sample_boot) = 1" "partition_mode (partitions sample_boot ! 0) = COLD_START"
    "ticks sample_boot = 0"
    by (simp_all add: sample_boot_def init_partitions_def partition_init_def sample_kernel_def sample_conf_def find_partition_def)
  have w: "window_at default_scheduler 0 = Some (DEFAULT_WINDOWS ! 0)" "win_id (DEFAULT_WINDOWS ! 0) = 1"
    "windows_partition default_scheduler = DEFAULT_WINDOWS" "DEFAULT_WINDOWS \<noteq> []"
    "default_scheduler\<lparr>windows_idx := 0\<rparr> = default_scheduler" "nbr_windows default_scheduler \<noteq> 0"
    by (simp_all add: window_at_def default_scheduler_def module_scheduler_init_def DEFAULT_WINDOWS_def)
  have same: "k\<lparr>partition_current := c, module_scheduler := default_scheduler, ticks := 0\<rparr> = k\<lparr>partition_current := c\<rparr>"
    if "module_scheduler k = default_scheduler" "ticks k = 0" for k :: kcb_s and c
    using that by (cases k) simp
  show "wf_schedule (module_scheduler sample_boot)" "known_windows sample_boot"
    by (simp_all add: sel wf_schedule_def known_windows_def default_scheduler_def module_scheduler_init_def
        DEFAULT_WINDOWS_def All_less_Suc)
  show "arinc_start_scheduling sample_boot = Inr (1, sample_started)"
    by (simp add: arinc_start_scheduling_def with_window_def krnl_partition_switch_def Let_def sel w same sample_started_def)
qed

lemma sample_step: "partition_step [] 0 E_Boot sample_started sample_booted"
  unfolding sample_booted_def by (rule partition_step.boot) (simp_all add: sample_started_sel)

lemma sample_booted_run: "kernel_run [] any_event 0 sample_booted" "kernel_run [] safe_event 0 sample_booted"
  by (rule kernel_run.step [OF sample_run sample_step], simp add: any_event_def safe_event_def)+

lemma sample_booted_sel:
  "partition_current sample_booted = Some 0" "length (partitions sample_booted) = 2"
  "partition_mode (partitions sample_booted ! 0) = COLD_START" "mutex_count (partitions sample_booted ! 0) = 1"
  by (simp_all add: sample_booted_def set_partition_def sample_started_def sample_boot_def init_partitions_def
      partition_init_def sample_kernel_def sample_conf_def partition_OS_start_def CREATE_MUTEX_def Let_def
      find_mutex_by_name_def decode_discipline_def upd_mutex_def)

text \<open>A step that writes a message to a sampling channel.\<close>

definition sample_writer :: kcb_s where
  "sample_writer = sample_kernel\<lparr>partitions := [sample_sampling SOURCE, sample_sampling DESTINATION],
     sampling_channels := [sample_channel]\<rparr>"

definition written_channel :: krnl_sampling_channel where
  "written_channel = sample_channel\<lparr>sc_buffer := [7, 8, 9, 0], sc_current_message_size := 3, last_update_time := 0\<rparr>"

lemma sample_write_step:
  "partition_step [] 0 (E_Sampling (Q_WRITE_SAMPLING_MESSAGE 1 7 3)) sample_writer
     ((set_partition 0 (sample_sampling SOURCE) sample_writer)\<lparr>sampling_channels := [written_channel]\<rparr>)"
proof (rule partition_step.sampling [where up = 0 and out = "Ret NO_ERROR NoOut"])
  have m: "mem_read (mem (sample_sampling SOURCE)) 7 3 = [7, 8, 9]"
    by (simp add: mem_read_def upt_rec sample_sampling_def)
  have f: "find_sampling_port_by_id (sample_sampling SOURCE) 1 = 0"
    by (simp add: find_sampling_port_by_id_def sample_sampling_def)
  have p: "sampling_ports (sample_sampling SOURCE) ! 0 = \<lparr>sampling_port_name = ''T'', sampling_port_id = 1,
      sp_partition_id = 1, sampling_port_status = \<lparr>REFRESH_PERIOD = 200, SP_MAX_MESSAGE_SIZE = 4,
        SP_PORT_DIRECTION = SOURCE, LAST_MSG_VALIDITY = INVALID\<rparr>, sp_channel = Some 0\<rparr>"
    by (simp add: sample_sampling_def)
  have "WRITE_SAMPLING_MESSAGE 1 7 3 0 [sample_channel] (sample_sampling SOURCE) =
      ([written_channel], sample_sampling SOURCE, Ret NO_ERROR NoOut)"
    using m by (simp add: WRITE_SAMPLING_MESSAGE_def f p with_channel_def buf_write_def sample_channel_def
        written_channel_def i64_of_def Let_def)
  then show "sampling_call 0 (Q_WRITE_SAMPLING_MESSAGE 1 7 3) (sampling_channels sample_writer) (partitions sample_writer ! 0) =
      ([written_channel], sample_sampling SOURCE, Ret NO_ERROR NoOut)" by (simp add: sample_writer_def)
qed (simp_all add: sample_writer_def sample_kernel_def sample_sampling_def sample_three_def)

theorem channel_access_witness:
  "written_channel \<noteq> sample_channel \<and> sampling_access (sample_sampling SOURCE) 0 sample_channel written_channel"
proof -
  have d: "written_channel \<noteq> sample_channel" by (simp add: written_channel_def sample_channel_def)
  with channel_access [OF sample_write_step] show ?thesis
    by (auto simp: set_partition_def sample_writer_def dest: spec [of _ 0])
qed

theorem kernel_run_partitioned_witness:
  "partition_current sample_booted = Some 0 \<and> (\<exists>i. in_window (module_scheduler sample_booted) 0 i \<and>
    IDENTIFIER (status (partitions sample_booted ! 0)) = win_id (windows_partition (module_scheduler sample_booted) ! i))"
  using kernel_run_partitioned [OF sample_booted_run(1) sample_booted_sel(1)] sample_booted_sel(1) by blast

theorem kernel_run_consistent_witness:
  "mutex_count (partitions sample_booted ! 0) = 1 \<and> part_inv (partitions sample_booted ! 0) \<and>
   alloc_inv (partitions sample_booted ! 0)"
  using kernel_run_consistent [OF sample_booted_run(2), of 0] by (simp add: sample_booted_sel)

text \<open>The sample module at tick 4, when the window of the second partition opens.\<close>

lemma sample_windows:
  "windows_partition (module_scheduler sample_booted) = DEFAULT_WINDOWS" "major_frame_tick (module_scheduler sample_booted) = 10"
  "switch_target 2 (partitions sample_booted) = Some 1"
proof -
  show "windows_partition (module_scheduler sample_booted) = DEFAULT_WINDOWS" "major_frame_tick (module_scheduler sample_booted) = 10"
    by (simp_all add: sample_booted_def set_partition_def sample_started_sel default_scheduler_def module_scheduler_init_def)
  have "find_partition 2 (partitions sample_booted) = 1" "partition_mode (partitions sample_booted ! 1) = COLD_START"
    by (simp_all add: sample_booted_def set_partition_def sample_started_def sample_boot_def init_partitions_def
        partition_init_def sample_kernel_def sample_conf_def partition_OS_start_def CREATE_MUTEX_def Let_def
        find_mutex_by_name_def decode_discipline_def upd_mutex_def find_partition_def)
  then show "switch_target 2 (partitions sample_booted) = Some 1" by (simp add: switch_target_def)
qed

theorem kernel_run_windows_witness:
  "\<exists>k1 k2 k3 k4. main_loop 10 sample_booted = Inr (partition_current k1, k1) \<and> main_loop 20 k1 = Inr (partition_current k2, k2) \<and>
     main_loop 30 k2 = Inr (partition_current k3, k3) \<and> main_loop 40 k3 = Inr (Some 1, k4)"
proof -
  have t: "tick_of 10 = 1" "tick_of 20 = 2" "tick_of 30 = 3" "tick_of 40 = 4" by (simp_all add: tick_of_eq)
  from kernel_run_windows [OF sample_booted_run(1), of 10] t(1) obtain k1 where
    k1: "main_loop 10 sample_booted = Inr (partition_current k1, k1)" "kernel_run [] any_event 1 k1"
    "partitions k1 = partitions sample_booted" "windows_partition (module_scheduler k1) = DEFAULT_WINDOWS"
    "major_frame_tick (module_scheduler k1) = 10" by (auto simp: sample_windows)
  from kernel_run_windows [OF k1(2), of 20] t(2) k1(3-5) obtain k2 where
    k2: "main_loop 20 k1 = Inr (partition_current k2, k2)" "kernel_run [] any_event 2 k2"
    "partitions k2 = partitions sample_booted" "windows_partition (module_scheduler k2) = DEFAULT_WINDOWS"
    "major_frame_tick (module_scheduler k2) = 10" by auto
  from kernel_run_windows [OF k2(2), of 30] t(3) k2(3-5) obtain k3 where
    k3: "main_loop 30 k2 = Inr (partition_current k3, k3)" "kernel_run [] any_event 3 k3"
    "partitions k3 = partitions sample_booted" "windows_partition (module_scheduler k3) = DEFAULT_WINDOWS"
    "major_frame_tick (module_scheduler k3) = 10" by auto
  have w: "1 < n_windows (module_scheduler k3)" "Suc 3 mod mf (module_scheduler k3) = w_start (module_scheduler k3) 1"
    "win_id (windows_partition (module_scheduler k3) ! 1) = 2" using k3(4,5) by (simp_all add: DEFAULT_WINDOWS_def)
  have t4: "tick_of 40 = 3 \<or> tick_of 40 = Suc 3" "tick_of 40 = Suc 3" by (simp_all add: t)
  from kernel_run_windows [OF k3(2) t4(1)] w t4(2) obtain k4 where
    "main_loop 40 k3 = Inr (partition_current k4, k4)" "partition_current k4 = switch_target 2 (partitions k3)" by metis
  with k1(1) k2(1) k3(1,3) sample_windows(3) show ?thesis by auto
qed

end
