(* ===== verification/Native_Queue.thy ===== *)
theory Native_Queue
  imports Ring_Buffer
begin

unbundle bit_operations_syntax

text \<open>
  The pointer queues of the native kernel, \<open>lib/queue.c\<close>, and the message queues over them,
  \<open>kernel/message.c\<close>: an array whose size is a power of two, stepped with a mask, that tells
  full from empty by its two indices.

  The theory shows that the size is the least power of two that is at least the one asked
  for, and that a queue is a bounded first-in first-out queue with one place less than its
  size. A void pointer is its address; 0 is the null pointer. The indices are \<open>u32\<close>; they
  are never negative in the code.
\<close>

section \<open>Powers of two\<close>

definition ispowerof2 :: "u32 \<Rightarrow> bool" where
  "ispowerof2 x \<longleftrightarrow> x \<noteq> 0 \<and> x AND (x - 1) = 0"

definition nextpowerof2 :: "u32 \<Rightarrow> u32" where
  "nextpowerof2 x0 =
     (let x = x0 - 1;
          x = x OR drop_bit 1 x;
          x = x OR drop_bit 2 x;
          x = x OR drop_bit 4 x;
          x = x OR drop_bit 8 x;
          x = x OR drop_bit 16 x
      in x + 1)"

text \<open>The highest bit of a number.\<close>

lemma highest_bit:
  assumes "(n :: nat) \<noteq> 0"
  obtains h where "2 ^ h \<le> n" "n < 2 ^ Suc h"
proof -
  define h where "h = (LEAST k. n < 2 ^ k)"
  have "n < 2 ^ n" by simp
  then have h: "n < 2 ^ h" unfolding h_def by (rule LeastI)
  have pos: "h \<noteq> 0" using h assms by (cases h) auto
  then obtain g where g: "h = Suc g" by (cases h) auto
  have "\<not> n < 2 ^ g" using not_less_Least [of g "\<lambda>k. n < 2 ^ k"] g by (simp add: h_def)
  with h g show ?thesis by (intro that [of g]) simp_all
qed

lemma unat_pow2:
  assumes "k < 32" shows "unat (2 ^ k :: u32) = 2 ^ k"
proof -
  have "(2 :: nat) ^ k < 2 ^ 32" using assms by (intro power_strict_increasing) simp_all
  then have "unat (of_nat (2 ^ k) :: u32) = 2 ^ k" 
    by (simp only: unsigned_of_nat take_bit_nat_eq_self) (use assms in simp)
  then show ?thesis by simp
qed

lemma bit_highest: "2 ^ h \<le> n \<Longrightarrow> n < 2 ^ Suc h \<Longrightarrow> bit (n :: nat) h"
proof -
  assume "2 ^ h \<le> n" "n < 2 ^ Suc h"
  then have "n div 2 ^ h = 1" by (intro div_nat_eqI) simp_all
  then show ?thesis by (simp add: bit_iff_odd)
qed

lemma bit_above: "n < 2 ^ h \<Longrightarrow> h \<le> k \<Longrightarrow> \<not> bit (n :: nat) k"
proof -
  assume n: "n < 2 ^ h" and k: "h \<le> k"
  have "(2 :: nat) ^ h \<le> 2 ^ k" using k by (rule power_increasing) simp
  with n have "n < 2 ^ k" by linarith
  then have "n div 2 ^ k = 0" by simp
  then show ?thesis by (simp add: bit_iff_odd)
qed

lemma bit_word_nat: "bit (x :: u32) n \<longleftrightarrow> bit (unat x) n"
  by (simp add: bit_unsigned_iff possible_bit_word)

lemma ispowerof2_iff: "ispowerof2 x \<longleftrightarrow> (\<exists>k < 32. unat x = 2 ^ k)"
proof (cases "x = 0")
  case False
  then have "unat x \<noteq> 0" by (simp add: unat_eq_zero)
  then obtain h where h: "2 ^ h \<le> unat x" "unat x < 2 ^ Suc h" by (rule highest_bit)
  have h32: "h < 32"
  proof (rule ccontr)
    assume "\<not> h < 32"
    then have "(2 :: nat) ^ 32 \<le> 2 ^ h" by (intro power_increasing) simp_all
    with h(1) unsigned_less [of x, where ?'a = nat] show False by simp
  qed
  have m1: "unat (x - 1) = unat x - 1" using False by (simp add: unat_minus_one)
  show ?thesis
  proof (cases "unat x = 2 ^ h")
    case True
    have "x AND (x - 1) = 0"
    proof (rule bit_eqI)
      fix n
      have "\<not> (bit (unat x) n \<and> bit (unat x - 1) n)"
        using bit_above [of "2 ^ h - 1" h n] unfolding True by (auto simp: bit_exp_iff)
      then have "\<not> (bit x n \<and> bit (x - 1) n)" by (simp add: bit_word_nat m1)
      then show "bit (x AND (x - 1)) n = bit 0 n" unfolding bit_and_iff by simp
    qed
    then show ?thesis using False True h32 by (auto simp: ispowerof2_def)
  next
    case other: False
    have "bit x h" "bit (x - 1) h"
      using bit_highest [OF h] bit_highest [of h "unat x - 1"] other h by (auto simp: bit_word_nat m1)
    then have "x AND (x - 1) \<noteq> 0" by (metis bit_0_eq bit_and_iff bot_apply bot_bool_def)
    moreover have "unat x \<noteq> 2 ^ k" for k
    proof
      assume k: "unat x = 2 ^ k"
      then have "h \<le> k" "k < Suc h" using h power_increasing_iff [of "2 :: nat" h k]
          power_strict_increasing_iff [of "2 :: nat" k "Suc h"] by simp_all
      with k other show False by (metis le_less_Suc_eq)
    qed
    ultimately show ?thesis by (auto simp: ispowerof2_def)
  qed
qed (simp add: ispowerof2_def)

text \<open>Each step doubles the distance over which the bits are spread.\<close>

lemma spread_step:
  assumes "\<And>n. bit x n \<longleftrightarrow> (\<exists>m < j. bit y (n + m))"
  shows "bit (x OR drop_bit j x) n \<longleftrightarrow> (\<exists>m < 2 * j. bit (y :: u32) (n + m))"
proof -
  have "(\<exists>m < 2 * j. bit y (n + m)) \<longleftrightarrow> (\<exists>m < j. bit y (n + m)) \<or> (\<exists>m < j. bit y (n + j + m))"
  proof
    assume "\<exists>m < 2 * j. bit y (n + m)"
    then obtain m where m: "m < 2 * j" "bit y (n + m)" by blast
    show "(\<exists>m < j. bit y (n + m)) \<or> (\<exists>m < j. bit y (n + j + m))"
    proof (cases "m < j")
      case False
      then have "m - j < j" "n + j + (m - j) = n + m" using m(1) by simp_all
      with m(2) show ?thesis by metis
    qed (use m in blast)
  next
    assume "(\<exists>m < j. bit y (n + m)) \<or> (\<exists>m < j. bit y (n + j + m))"
    then show "\<exists>m < 2 * j. bit y (n + m)"
    proof
      assume "\<exists>m < j. bit y (n + j + m)"
      then obtain m where "m < j" "bit y (n + (j + m))" by (auto simp: add.assoc)
      then show ?thesis by (intro exI [of _ "j + m"]) simp
    next
      assume "\<exists>m < j. bit y (n + m)"
      then obtain m where "m < j" "bit y (n + m)" by blast
      then show ?thesis by (intro exI [of _ m]) simp
    qed
  qed
  with assms show ?thesis by (simp add: bit_or_iff bit_drop_bit_eq add.commute)
qed

lemma nextpowerof2_spread:
  "\<exists>z. nextpowerof2 x = z + 1 \<and> (\<forall>n. bit z n \<longleftrightarrow> (\<exists>m < 32. bit (x - 1) (n + m)))"
proof -
  let ?y = "x - 1"
  define x1 where "x1 = ?y OR drop_bit 1 ?y"
  define x2 where "x2 = x1 OR drop_bit 2 x1"
  define x3 where "x3 = x2 OR drop_bit 4 x2"
  define x4 where "x4 = x3 OR drop_bit 8 x3"
  define x5 where "x5 = x4 OR drop_bit 16 x4"
  have "\<And>n. bit x1 n \<longleftrightarrow> (\<exists>m < 2. bit ?y (n + m))"
    unfolding x1_def using spread_step [of ?y 1 ?y] by simp
  from spread_step [OF this] have "\<And>n. bit x2 n \<longleftrightarrow> (\<exists>m < 4. bit ?y (n + m))" by (simp add: x2_def)
  from spread_step [OF this] have "\<And>n. bit x3 n \<longleftrightarrow> (\<exists>m < 8. bit ?y (n + m))" by (simp add: x3_def)
  from spread_step [OF this] have "\<And>n. bit x4 n \<longleftrightarrow> (\<exists>m < 16. bit ?y (n + m))" by (simp add: x4_def)
  from spread_step [OF this] have "\<And>n. bit x5 n \<longleftrightarrow> (\<exists>m < 32. bit ?y (n + m))" by (simp add: x5_def)
  moreover have "nextpowerof2 x = x5 + 1"
    by (simp add: nextpowerof2_def Let_def x1_def x2_def x3_def x4_def x5_def)
  ultimately show ?thesis by blast
qed

lemma nextpowerof2_pow:
  assumes "x \<noteq> 0" and "2 ^ h < unat x" and "unat x \<le> 2 ^ Suc h" and "Suc h < 32"
  shows "nextpowerof2 x = 2 ^ Suc h"
proof -
  have y: "unat (x - 1) = unat x - 1" using assms(1) by (simp add: unat_minus_one)
  then have h: "2 ^ h \<le> unat (x - 1)" "unat (x - 1) < 2 ^ Suc h" using assms(2,3) by auto
  from nextpowerof2_spread [of x] obtain z where
    z: "nextpowerof2 x = z + 1" "\<forall>n. bit z n \<longleftrightarrow> (\<exists>m < 32. bit (x - 1) (n + m))" by blast
  have "z = (mask (Suc h) :: u32)"
  proof (rule bit_eqI)
    fix n
    show "bit z n = bit (mask (Suc h) :: u32) n"
    proof (cases "n \<le> h")
      case True
      have "bit (x - 1) (n + (h - n))" using bit_highest [OF h] True by (simp add: bit_word_nat)
      moreover have "h - n < 32" using assms(4) by simp
      ultimately have "bit z n" using z(2) by blast
      then show ?thesis using True assms(4) by (simp add: bit_mask_iff possible_bit_word)
    next
      case False
      then have "\<not> bit (x - 1) (n + m)" for m using bit_above [OF h(2), of "n + m"] by (simp add: bit_word_nat)
      then show ?thesis using False z(2) by (simp add: bit_mask_iff)
    qed
  qed
  then show ?thesis using z(1) by (simp add: mask_eq_exp_minus_1)
qed


text \<open>The least power of two that is at least \<open>n\<close>.\<close>

definition least_pow2 :: "nat \<Rightarrow> nat" where
  "least_pow2 n = 2 ^ (LEAST k. n \<le> 2 ^ k)"

lemma least_pow2_eq: "2 ^ h < n \<Longrightarrow> n \<le> 2 ^ Suc h \<Longrightarrow> least_pow2 n = 2 ^ Suc h"
proof -
  assume n: "2 ^ h < n" "n \<le> 2 ^ Suc h"
  have "(LEAST k. n \<le> 2 ^ k) = Suc h"
  proof (rule Least_equality)
    fix k
    assume k: "n \<le> 2 ^ k"
    with n(1) have "(2 :: nat) ^ h < 2 ^ k" by linarith
    then show "Suc h \<le> k" by simp
  qed (rule n(2))
  then show ?thesis by (simp add: least_pow2_def)
qed

lemma least_pow2_one: "n \<le> 1 \<Longrightarrow> least_pow2 n = 1"
proof -
  assume "n \<le> 1"
  then have "(LEAST k. n \<le> 2 ^ k) = 0" by (intro Least_equality) simp_all
  then show ?thesis by (simp add: least_pow2_def)
qed

lemma nextpowerof2_value:
  assumes "x \<noteq> 0" and "unat x \<le> 2 ^ 31"
  shows "unat (nextpowerof2 x) = least_pow2 (unat x)"
proof (cases "unat x = 1")
  case True
  then have "x = 1" by (simp add: word_unat_eq_iff)
  then show ?thesis by (simp add: nextpowerof2_def least_pow2_one)
next
  case False
  have "unat x \<noteq> 0" using assms(1) by (simp add: unat_eq_zero)
  with False have "unat x - 1 \<noteq> 0" by simp
  then obtain h where h: "2 ^ h \<le> unat x - 1" "unat x - 1 < 2 ^ Suc h" by (rule highest_bit)
  then have b: "2 ^ h < unat x" "unat x \<le> 2 ^ Suc h" using \<open>unat x \<noteq> 0\<close> by linarith+
  have "(2 :: nat) ^ h < 2 ^ 31" using b(1) assms(2) by linarith
  from power_less_imp_less_exp [OF _ this] have "Suc h < 32" by simp
  with nextpowerof2_pow [OF assms(1) b this] least_pow2_eq [OF b] show ?thesis by (simp only: unat_pow2)
qed

section \<open>Queues\<close>

record queue_s =
  pdata :: "addr list"
  q_size :: int
  q_mask :: u32
  q_head :: u32
  q_tail :: u32
  q_elem :: int

text \<open>
  \<open>ok\<close> tells whether the first \<open>malloc\<close> succeeds; \<open>alloc n\<close> is the array the second one
  returns for \<open>n\<close> pointers. The size is an \<open>int32_t\<close>, so the result of \<open>nextpowerof2\<close> may
  become negative.
\<close>

definition queue_create :: "bool \<Rightarrow> (int \<Rightarrow> addr list option) \<Rightarrow> int \<Rightarrow> queue_s option" where
  "queue_create ok alloc n =
     (let size = (if n < 2 then 2 else n);
          size = (if ispowerof2 (word_of_int size) then size else sint (nextpowerof2 (word_of_int size)))
      in if \<not> ok then None
         else case alloc size of
           None \<Rightarrow> None
         | Some a \<Rightarrow> Some \<lparr>pdata = a, q_size = size, q_mask = word_of_int (size - 1),
                           q_head = 0, q_tail = 0, q_elem = 0\<rparr>)"

text \<open>The return value; on 0 the queue is freed.\<close>

definition queue_destroy :: "queue_s \<Rightarrow> int" where
  "queue_destroy q = (if q_head q = q_tail q \<and> q_elem q = 0 then 0 else -1)"

definition queue_count :: "queue_s \<Rightarrow> int" where
  "queue_count q = q_elem q"

definition queue_enqueue :: "addr \<Rightarrow> queue_s \<Rightarrow> fault + int \<times> queue_s" where
  "queue_enqueue d q =
     (let t = (q_tail q + 1) AND q_mask q in
      if t = q_head q then Inr (-1, q)
      else if \<not> unat (q_tail q) < length (pdata q) then Inl OutOfBounds
      else Inr (0, q\<lparr>pdata := (pdata q)[unat (q_tail q) := d], q_tail := t, q_elem := q_elem q + 1\<rparr>))"

definition queue_dequeue :: "queue_s \<Rightarrow> fault + addr \<times> queue_s" where
  "queue_dequeue q =
     (if q_head q = q_tail q then Inr (0, q)
      else if \<not> unat (q_head q) < length (pdata q) then Inl OutOfBounds
      else Inr (pdata q ! unat (q_head q),
                q\<lparr>q_head := (q_head q + 1) AND q_mask q, q_elem := q_elem q - 1\<rparr>))"

definition queue_peek :: "queue_s \<Rightarrow> fault + addr" where
  "queue_peek q =
     (if q_head q = q_tail q then Inr 0
      else if \<not> unat (q_head q) < length (pdata q) then Inl OutOfBounds
      else Inr (pdata q ! unat (q_head q)))"

section \<open>Message queues\<close>

abbreviation "ERR_MQ_NOTEMPTY \<equiv> (-16366 :: int)"

definition ucx_mq_create :: "bool \<Rightarrow> bool \<Rightarrow> (int \<Rightarrow> addr list option) \<Rightarrow> nat \<Rightarrow> queue_s option" where
  "ucx_mq_create ok ok' alloc n = (if \<not> ok then None else queue_create ok' alloc (int (n mod 2 ^ 16)))"

definition ucx_mq_destroy :: "queue_s \<Rightarrow> int" where
  "ucx_mq_destroy q = (if queue_count q \<noteq> 0 then ERR_MQ_NOTEMPTY else 0)"

definition ucx_mq_enqueue :: "queue_s \<Rightarrow> addr \<Rightarrow> fault + int \<times> queue_s" where
  "ucx_mq_enqueue q m = queue_enqueue m q"

definition ucx_mq_dequeue :: "queue_s \<Rightarrow> fault + addr \<times> queue_s" where
  "ucx_mq_dequeue q = queue_dequeue q"

definition ucx_mq_peek :: "queue_s \<Rightarrow> fault + addr" where
  "ucx_mq_peek q = queue_peek q"

definition ucx_mq_items :: "queue_s \<Rightarrow> int" where
  "ucx_mq_items q = queue_count q"

section \<open>Indices stepped with a mask\<close>

lemma masked_step:
  assumes "m = mask k" and "k < 32" and "unat t \<le> unat m"
  shows "unat ((t + 1) AND (m :: u32)) = (unat t + 1) mod (unat m + 1)" and "unat m + 1 = 2 ^ k"
proof -
  have nz: "(2 ^ k :: u32) \<noteq> 0" using unat_pow2 [OF assms(2)] by (metis unat_0 power_not_zero zero_neq_numeral)
  then have m: "unat m = 2 ^ k - 1"
    unfolding assms(1) mask_eq_exp_minus_1 by (simp only: unat_minus_one [OF nz] unat_pow2 [OF assms(2)])
  then show p: "unat m + 1 = 2 ^ k" by simp
  have "(2 :: nat) ^ k < 2 ^ 32" using assms(2) by (intro power_strict_increasing) simp_all
  with assms(3) p have "unat t + 1 < 2 ^ 32" by linarith
  then have "unat (t + 1) = unat t + 1" by (simp add: unat_word_ariths)
  moreover have "unat ((t + 1) AND m) = unat (t + 1) mod 2 ^ k"
    unfolding assms(1) take_bit_eq_mask [symmetric] unsigned_take_bit_eq by (rule take_bit_eq_mod)
  ultimately show "unat ((t + 1) AND m) = (unat t + 1) mod (unat m + 1)" by (simp only: p)
qed

text \<open>
  The state of the two indices and the count: \<open>h\<close> and \<open>t\<close> lie in the array, and the count is
  their distance, which is at most the mask.
\<close>

definition masked_ring :: "u32 \<Rightarrow> u32 \<Rightarrow> u32 \<Rightarrow> int \<Rightarrow> nat \<Rightarrow> bool" where
  "masked_ring m h t n len \<longleftrightarrow> (\<exists>k < 32. m = mask k) \<and> 0 < unat m \<and> len = unat m + 1 \<and> 0 \<le> n \<and> nat n \<le> unat m \<and>
     unat h \<le> unat m \<and> unat t = (unat h + nat n) mod (unat m + 1)"

lemma masked_ring_facts:
  assumes "masked_ring m h t n len"
  shows "unat h < len" "unat t < len" "unat t = (unat h + nat n) mod len" "len = unat m + 1" "nat n < len"
    and "unat ((h + 1) AND m) = (unat h + 1) mod len" "unat ((t + 1) AND m) = (unat t + 1) mod len"
    and "(t + 1) AND m = h \<longleftrightarrow> nat n = unat m" and "h = t \<longleftrightarrow> n = 0" and "0 \<le> n"
proof -
  from assms obtain k where k: "k < 32" "m = mask k" by (auto simp: masked_ring_def)
  have f: "0 < unat m" "len = unat m + 1" "0 \<le> n" "nat n \<le> unat m" "unat h \<le> unat m" "unat t = (unat h + nat n) mod len"
    using assms by (auto simp: masked_ring_def)
  then show "unat h < len" "unat t = (unat h + nat n) mod len" "len = unat m + 1" "nat n < len" "0 \<le> n" by simp_all
  show t: "unat t < len" using f(2,6) by simp
  show "unat ((h + 1) AND m) = (unat h + 1) mod len" "unat ((t + 1) AND m) = (unat t + 1) mod len"
    using masked_step(1) [OF k(2,1), of h] masked_step(1) [OF k(2,1), of t] f t by simp_all
  then have "(t + 1) AND m = h \<longleftrightarrow> (unat h + (nat n + 1)) mod len = (unat h + 0) mod len"
    using f by (simp add: word_unat_eq_iff mod_simps)
  also have "\<dots> \<longleftrightarrow> nat n = unat m"
  proof
    assume eq: "(unat h + (nat n + 1)) mod len = (unat h + 0) mod len"
    show "nat n = unat m"
    proof (rule ccontr)
      assume "nat n \<noteq> unat m"
      then have "nat n + 1 < len" using f by simp
      from mod_offset_inj [OF eq this] f show False by simp
    qed
  next
    assume "nat n = unat m"
    then have "nat n + 1 = len" using f(2) by simp
    then show "(unat h + (nat n + 1)) mod len = (unat h + 0) mod len" by simp
  qed
  finally show "(t + 1) AND m = h \<longleftrightarrow> nat n = unat m" .
  have "h = t \<longleftrightarrow> unat t = unat h" by (auto simp: word_unat_eq_iff)
  also have "\<dots> \<longleftrightarrow> (unat h + nat n) mod len = (unat h + 0) mod len" using f by simp
  also have "\<dots> \<longleftrightarrow> nat n = 0"
  proof
    assume "(unat h + nat n) mod len = (unat h + 0) mod len"
    moreover have "nat n < len" "0 < len" using f(2,4) by simp_all
    ultimately show "nat n = 0" by (rule mod_offset_inj)
  qed simp
  finally show "h = t \<longleftrightarrow> n = 0" using f(3) by simp
qed

lemma masked_ring_put:
  assumes "masked_ring m h t n len" and "nat n < unat m"
  shows "masked_ring m h ((t + 1) AND m) (n + 1) len"
  using assms masked_ring_facts [OF assms(1)] by (auto simp: masked_ring_def nat_add_distrib mod_simps)

lemma masked_ring_get:
  assumes "masked_ring m h t n len" and "0 < n"
  shows "masked_ring m ((h + 1) AND m) t (n - 1) len"
proof -
  note f = masked_ring_facts [OF assms(1)]
  have "((unat h + 1) mod len + nat (n - 1)) mod len = (unat h + 1 + nat (n - 1)) mod len" by (simp add: mod_simps)
  also have "unat h + 1 + nat (n - 1) = unat h + nat n" using assms(2) by simp
  finally have "unat t = (unat ((h + 1) AND m) + nat (n - 1)) mod len" using f by simp
  moreover have "unat ((h + 1) AND m) \<le> unat m" using f(4,6) by simp
  ultimately show ?thesis using assms f by (auto simp: masked_ring_def)
qed

section \<open>Queues are bounded lists\<close>

definition queue_inv :: "queue_s \<Rightarrow> bool" where
  "queue_inv q \<longleftrightarrow> masked_ring (q_mask q) (q_head q) (q_tail q) (q_elem q) (length (pdata q)) \<and>
     q_size q = int (length (pdata q))"

text \<open>\<open>queue_enqueue\<close> as a primitive of a ring.\<close>

definition queue_put :: "addr \<Rightarrow> queue_s \<Rightarrow> fault + queue_s" where
  "queue_put d q = (case queue_enqueue d q of Inl f \<Rightarrow> Inl f | Inr (_, q') \<Rightarrow> Inr q')"

interpretation queue_ring: limited_ring "\<lambda>q. length (pdata q)" "\<lambda>q. unat (q_mask q)" "\<lambda>q. unat (q_head q)"
  "\<lambda>q. unat (q_tail q)" "\<lambda>q. nat (q_elem q)" "\<lambda>q j. pdata q ! j" queue_inv "\<lambda>q d. True" queue_put queue_dequeue
proof unfold_locales
  fix q d
  assume inv: "queue_inv q"
  then have m: "masked_ring (q_mask q) (q_head q) (q_tail q) (q_elem q) (length (pdata q))" by (simp add: queue_inv_def)
  note f = masked_ring_facts [OF m]
  show "ring_indices (length (pdata q)) (unat (q_head q)) (unat (q_tail q)) (nat (q_elem q))"
    using f by (simp add: ring_indices_def)
  show "unat (q_mask q) \<le> length (pdata q)" using f by simp
  show "\<exists>y. queue_put d q = Inr y \<and> queue_inv y \<and> length (pdata y) = length (pdata q) \<and> unat (q_head y) = unat (q_head q) \<and>
      nat (q_elem y) = nat (q_elem q) + 1 \<and> (\<lambda>d. True) = (\<lambda>d. True) \<and>
      (\<forall>j < length (pdata q). pdata y ! j = (if j = unat (q_tail q) then d else pdata q ! j)) \<and>
      unat (q_mask y) = unat (q_mask q)" if "nat (q_elem q) < unat (q_mask q)"
    using that f masked_ring_put [OF m that] inv
    by (auto simp: queue_put_def queue_enqueue_def Let_def queue_inv_def nat_add_distrib)
  show "\<exists>y. queue_dequeue q = Inr (pdata q ! unat (q_head q), y) \<and> queue_inv y \<and> length (pdata y) = length (pdata q) \<and>
      unat (q_head y) = (unat (q_head q) + 1) mod length (pdata q) \<and> nat (q_elem y) = nat (q_elem q) - 1 \<and>
      (\<lambda>d. True) = (\<lambda>d. True) \<and> (\<forall>j < length (pdata q). pdata y ! j = pdata q ! j) \<and> unat (q_mask y) = unat (q_mask q)"
    if "0 < nat (q_elem q)"
    using that f masked_ring_get [OF m] inv by (auto simp: queue_dequeue_def queue_inv_def nat_diff_distrib)
qed

abbreviation queue_contents :: "queue_s \<Rightarrow> addr list" where
  "queue_contents \<equiv> queue_ring.contents"

lemma queue_length: "queue_inv q \<Longrightarrow> q_elem q = int (length (queue_contents q)) \<and> nat (q_size q) = unat (q_mask q) + 1"
proof -
  assume "queue_inv q"
  then have m: "masked_ring (q_mask q) (q_head q) (q_tail q) (q_elem q) (length (pdata q))" and "nat (q_size q) = length (pdata q)"
    by (simp_all add: queue_inv_def)
  with masked_ring_facts(4,10) [OF m] show ?thesis by simp
qed

lemma queue_enqueue_cases:
  assumes "queue_inv q"
  shows "length (queue_contents q) < unat (q_mask q) \<Longrightarrow> \<exists>q'. queue_enqueue d q = Inr (0, q') \<and> queue_inv q' \<and>
      queue_contents q' = queue_contents q @ [d] \<and> q_mask q' = q_mask q"
    and "\<not> length (queue_contents q) < unat (q_mask q) \<Longrightarrow> queue_enqueue d q = Inr (-1, q)"
proof -
  have m: "masked_ring (q_mask q) (q_head q) (q_tail q) (q_elem q) (length (pdata q))"
    using assms by (simp add: queue_inv_def)
  note f = masked_ring_facts [OF m]
  show "queue_enqueue d q = Inr (-1, q)" if "\<not> length (queue_contents q) < unat (q_mask q)"
    using that f(4,5,8) by (simp add: queue_enqueue_def Let_def)
  assume room: "length (queue_contents q) < unat (q_mask q)"
  then obtain q' where q': "queue_put d q = Inr q'" "queue_inv q'" "queue_contents q' = queue_contents q @ [d]"
    "unat (q_mask q') = unat (q_mask q)"
    using queue_ring.put_appends [OF assms, of d] by auto
  moreover have "queue_enqueue d q = Inr (0, q')"
    using q'(1) room f(2,8) by (auto simp: queue_put_def queue_enqueue_def Let_def)
  ultimately show "\<exists>q'. queue_enqueue d q = Inr (0, q') \<and> queue_inv q' \<and>
      queue_contents q' = queue_contents q @ [d] \<and> q_mask q' = q_mask q" by (auto simp: word_unat_eq_iff)
qed

lemma queue_dequeue_cases:
  assumes "queue_inv q"
  shows "queue_contents q = [] \<Longrightarrow> queue_dequeue q = Inr (0, q) \<and> queue_peek q = Inr 0"
    and "queue_contents q = x # xs \<Longrightarrow> \<exists>q'. queue_dequeue q = Inr (x, q') \<and> queue_inv q' \<and> queue_contents q' = xs \<and>
      q_mask q' = q_mask q \<and> queue_peek q = Inr x"
proof -
  have m: "masked_ring (q_mask q) (q_head q) (q_tail q) (q_elem q) (length (pdata q))"
    using assms by (simp add: queue_inv_def)
  note f = masked_ring_facts [OF m]
  show "queue_dequeue q = Inr (0, q) \<and> queue_peek q = Inr 0" if "queue_contents q = []"
    using that f(9) queue_length [OF assms] by (simp add: queue_dequeue_def queue_peek_def)
  assume c: "queue_contents q = x # xs"
  then have pos: "0 < nat (q_elem q)" using queue_length [OF assms] by simp
  from queue_ring.get_takes [OF assms pos] c obtain q' where q': "queue_dequeue q = Inr (x, q')" "queue_inv q'"
    "queue_contents q' = xs" "unat (q_mask q') = unat (q_mask q)" by auto
  moreover have "queue_peek q = Inr x"
    using q'(1) pos f(9) by (auto simp: queue_dequeue_def queue_peek_def split: if_splits)
  ultimately show "\<exists>q'. queue_dequeue q = Inr (x, q') \<and> queue_inv q' \<and> queue_contents q' = xs \<and>
      q_mask q' = q_mask q \<and> queue_peek q = Inr x" by (auto simp: word_unat_eq_iff)
qed

text \<open>What a client of a queue sees: the return values of a sequence of calls.\<close>

fun queue_session :: "addr ring_op list \<Rightarrow> queue_s \<Rightarrow> fault + int list \<times> queue_s" where
  "queue_session [] q = Inr ([], q)"
| "queue_session (Put d # ops) q =
     (case queue_enqueue d q of Inl f \<Rightarrow> Inl f
      | Inr (r, q1) \<Rightarrow> (case queue_session ops q1 of Inl f \<Rightarrow> Inl f | Inr (out, q2) \<Rightarrow> Inr (r # out, q2)))"
| "queue_session (Get # ops) q =
     (case queue_dequeue q of Inl f \<Rightarrow> Inl f
      | Inr (d, q1) \<Rightarrow> (case queue_session ops q1 of Inl f \<Rightarrow> Inl f | Inr (out, q2) \<Rightarrow> Inr (int d # out, q2)))"

fun fifo_session :: "nat \<Rightarrow> addr ring_op list \<Rightarrow> addr list \<Rightarrow> int list \<times> addr list" where
  "fifo_session room [] xs = ([], xs)"
| "fifo_session room (Put d # ops) xs =
     (if length xs < room then (let (out, ys) = fifo_session room ops (xs @ [d]) in (0 # out, ys))
      else (let (out, ys) = fifo_session room ops xs in (-1 # out, ys)))"
| "fifo_session room (Get # ops) [] = (let (out, ys) = fifo_session room ops [] in (0 # out, ys))"
| "fifo_session room (Get # ops) (x # xs) = (let (out, ys) = fifo_session room ops xs in (int x # out, ys))"

lemma queue_session_refines:
  "queue_inv q \<Longrightarrow> \<exists>q'. queue_session ops q = Inr (fst (fifo_session (unat (q_mask q)) ops (queue_contents q)), q') \<and>
     queue_inv q' \<and> queue_contents q' = snd (fifo_session (unat (q_mask q)) ops (queue_contents q))"
proof (induction ops arbitrary: q)
  case (Cons a ops)
  show ?case
  proof (cases a)
    case (Put d)
    show ?thesis
    proof (cases "length (queue_contents q) < unat (q_mask q)")
      case True
      from queue_enqueue_cases(1) [OF Cons.prems True, of d] obtain q1 where q1: "queue_enqueue d q = Inr (0, q1)"
        "queue_inv q1" "queue_contents q1 = queue_contents q @ [d]" "q_mask q1 = q_mask q" by blast
      from Cons.IH [OF q1(2)] Put True q1 show ?thesis by (auto simp: case_prod_beta)
    next
      case False
      from Cons.IH [OF Cons.prems] Put False queue_enqueue_cases(2) [OF Cons.prems False, of d] show ?thesis
        by (auto simp: case_prod_beta)
    qed
  next
    case Get
    show ?thesis
    proof (cases "queue_contents q")
      case Nil
      from Cons.IH [OF Cons.prems] Get Nil queue_dequeue_cases(1) [OF Cons.prems Nil] show ?thesis
        by (auto simp: case_prod_beta)
    next
      case (Cons x xs)
      from queue_dequeue_cases(2) [OF Cons.prems Cons] obtain q1 where q1: "queue_dequeue q = Inr (x, q1)"
        "queue_inv q1" "queue_contents q1 = xs" "q_mask q1 = q_mask q" by blast
      from Cons.IH [OF q1(2)] Get Cons q1 show ?thesis by (auto simp: case_prod_beta)
    qed
  qed
qed simp

lemma least_pow2_bounds: "n \<le> least_pow2 n" "n \<le> 2 ^ k \<Longrightarrow> least_pow2 n \<le> 2 ^ k"
proof -
  have "\<exists>k. n \<le> 2 ^ k" by (rule exI [of _ n]) (simp add: less_imp_le)
  then show "n \<le> least_pow2 n" unfolding least_pow2_def by (rule LeastI_ex)
  assume "n \<le> 2 ^ k"
  then have "(LEAST k. n \<le> 2 ^ k) \<le> k" by (rule Least_le)
  then show "least_pow2 n \<le> 2 ^ k" unfolding least_pow2_def by (intro power_increasing) simp_all
qed

lemma least_pow2_self: "least_pow2 (2 ^ k) = 2 ^ k"
  using least_pow2_bounds [of "2 ^ k"] by (simp add: antisym)

text \<open>The size \<open>queue_create\<close> computes; a result of 2 ^ 31 is a negative \<open>int32_t\<close>.\<close>

lemma rounded_size:
  assumes "2 \<le> n" and "n < 2 ^ 31"
  shows "(if ispowerof2 (word_of_int n) then n else sint (nextpowerof2 (word_of_int n))) =
    (if n \<le> 2 ^ 30 then int (least_pow2 (nat n)) else - (2 ^ 31))"
proof -
  have u: "unat (word_of_int n :: u32) = nat n"
    using assms by (simp add: unat_eq_nat_uint uint_word_of_int_eq take_bit_int_eq_self)
  show ?thesis
  proof (cases "ispowerof2 (word_of_int n)")
    case True
    then obtain k where k: "nat n = 2 ^ k" unfolding ispowerof2_iff u by blast
    then have n: "n = 2 ^ k" using assms(1) by (metis int_nat_eq int_ops(7) nat_le_0 nat_numeral not_le of_nat_numeral
          of_nat_power power_not_zero zero_neq_numeral)
    have "(2 :: int) ^ k < 2 ^ 31" using assms(2) unfolding n by simp
    from power_less_imp_less_exp [OF _ this] have "k < 31" by simp
    then have "n \<le> 2 ^ 30" unfolding n by (intro power_increasing) simp_all
    with True n least_pow2_self [of k] show ?thesis by (simp add: nat_power_eq)
  next
    case False
    have nz: "(word_of_int n :: u32) \<noteq> 0" using u assms(1) by (auto simp: unat_eq_zero [symmetric])
    have "unat (word_of_int n :: u32) \<le> 2 ^ 31" using u assms(2) by simp
    note v = nextpowerof2_value [OF nz this, unfolded u]
    show ?thesis
    proof (cases "n \<le> 2 ^ 30")
      case True
      then have "least_pow2 (nat n) \<le> 2 ^ 30" by (intro least_pow2_bounds) simp
      then have "unat (nextpowerof2 (word_of_int n)) < 2 ^ 31" using v by simp
      then have "int (unat (nextpowerof2 (word_of_int n))) < 2 ^ 31" by (simp only: of_nat_less_numeral_power_cancel_iff)
      then have "uint (nextpowerof2 (word_of_int n)) < 2 ^ 31" by simp
      then have "sint (nextpowerof2 (word_of_int n)) = int (unat (nextpowerof2 (word_of_int n)))"
        using order_trans [of "- (2 ^ 31)" 0 "uint (nextpowerof2 (word_of_int n))"]
        by (simp add: sint_uint signed_take_bit_int_eq_self)
      with False True v show ?thesis by simp
    next
      case big: False
      have "least_pow2 (nat n) = 2 ^ Suc 30" by (rule least_pow2_eq) (use big assms(2) in simp_all)
      with v have "nextpowerof2 (word_of_int n) = (2 ^ 31 :: u32)" by (simp add: word_unat_eq_iff)
      with False big show ?thesis by simp
    qed
  qed
qed

text \<open>
  The size of a queue. With enough memory \<open>queue_create\<close> makes an empty queue of the least
  power of two that is at least the size asked for and 2; a size above 2 ^ 30 is refused,
  whatever the memory, because it rounds to a negative number.
\<close>

theorem queue_create_size:
  assumes alloc: "\<And>m a. alloc m = Some a \<Longrightarrow> int (length a) = m" and n: "n < 2 ^ 31"
  shows "case queue_create ok alloc n of
      None \<Rightarrow> ok \<longrightarrow> n > 2 ^ 30 \<or> alloc (int (least_pow2 (nat (max 2 n)))) = None
    | Some q \<Rightarrow> n \<le> 2 ^ 30 \<and> q_size q = int (least_pow2 (nat (max 2 n))) \<and> queue_inv q \<and> queue_contents q = []"
proof -
  define m where "m = max 2 n"
  have m: "2 \<le> m" "m < 2 ^ 31" "(if n < 2 then 2 else n) = m" "m \<le> 2 ^ 30 \<longleftrightarrow> n \<le> 2 ^ 30" using n by (auto simp: m_def)
  note size = rounded_size [OF m(1,2)]
  have neg: "alloc (- (2 ^ 31)) = None" using alloc [of "- (2 ^ 31)"] by (cases "alloc (- (2 ^ 31))") auto
  show ?thesis
  proof (cases "ok \<and> n \<le> 2 ^ 30")
    case True
    let ?p = "least_pow2 (nat m)"
    obtain k where k: "?p = 2 ^ k" by (simp add: least_pow2_def)
    have le: "?p \<le> 2 ^ 30" using True m(4) by (intro least_pow2_bounds) simp
    have "nat m \<le> ?p" by (rule least_pow2_bounds)
    with m(1) have ge: "2 \<le> ?p" by linarith
    have eq: "queue_create ok alloc n = (case alloc (int ?p) of None \<Rightarrow> None
        | Some a \<Rightarrow> Some \<lparr>pdata = a, q_size = int ?p, q_mask = word_of_int (int ?p - 1), q_head = 0, q_tail = 0, q_elem = 0\<rparr>)"
      unfolding queue_create_def Let_def m(3) size using True m(4) by simp
    have "(2 :: nat) ^ k \<le> 2 ^ 30" using le k by simp
    then have k31: "k < 31" using power_le_imp_le_exp [of "2 :: nat" k 30] by simp
    have mask: "(word_of_int (int ?p - 1) :: u32) = mask k" by (simp add: k mask_eq_exp_minus_1)
    have um: "unat (mask k :: u32) = ?p - 1" using masked_step(2) [OF refl, of k "0 :: u32"] k31 k by simp
    have "queue_inv \<lparr>pdata = a, q_size = int ?p, q_mask = mask k, q_head = 0, q_tail = 0, q_elem = 0\<rparr>"
      if "length a = ?p" for a :: "addr list"
      using that ge k31 unfolding queue_inv_def masked_ring_def by (auto simp: um intro: exI [of _ k])
    then show ?thesis
      unfolding eq mask using True alloc [of "int ?p"]
      by (auto simp: m_def [symmetric] ring_contents_def split: option.splits)
  next
    case False
    then have "queue_create ok alloc n = None"
      unfolding queue_create_def Let_def m(3) size using m(4) neg by auto
    with False show ?thesis by auto
  qed
qed

text \<open>
  C20. Pointer queues refine bounded lists: a queue of \<open>size\<close> places is a first-in first-out queue
  that takes \<open>size - 1\<close> elements. The return values of every sequence of calls are those of
  the list, no call leaves the array, and \<open>queue_count\<close> is the number of elements.
\<close>

theorem queue_refines_list:
  assumes "queue_inv q"
  shows "\<exists>q'. queue_session ops q = Inr (fst (fifo_session (nat (q_size q) - 1) ops (queue_contents q)), q') \<and>
    queue_contents q' = snd (fifo_session (nat (q_size q) - 1) ops (queue_contents q)) \<and>
    queue_count q' = int (length (queue_contents q'))"
proof -
  have m: "nat (q_size q) - 1 = unat (q_mask q)" using queue_length [OF assms] by simp
  obtain q' where q': "queue_session ops q = Inr (fst (fifo_session (unat (q_mask q)) ops (queue_contents q)), q')"
    "queue_inv q'" "queue_contents q' = snd (fifo_session (unat (q_mask q)) ops (queue_contents q))"
    using queue_session_refines [OF assms, of ops] by blast
  moreover have "queue_count q' = int (length (queue_contents q'))"
    using queue_length [OF q'(2)] unfolding queue_count_def by blast
  ultimately show ?thesis unfolding m by blast
qed

section \<open>Examples\<close>

definition sample_alloc :: "int \<Rightarrow> addr list option" where
  "sample_alloc n = (if 0 \<le> n \<and> n \<le> 1024 then Some (replicate (nat n) 0) else None)"

lemma sample_alloc_length: "sample_alloc m = Some a \<Longrightarrow> int (length a) = m"
  by (auto simp: sample_alloc_def split: if_splits)

definition sample_queue :: queue_s where
  "sample_queue = \<lparr>pdata = [0, 0, 0, 0], q_size = 4, q_mask = 3, q_head = 3, q_tail = 3, q_elem = 0\<rparr>"

lemma sample_queue_inv: "queue_inv sample_queue"
proof -
  have "(3 :: u32) = mask 2" by (simp add: mask_eq_exp_minus_1)
  then show ?thesis by (auto simp: queue_inv_def masked_ring_def sample_queue_def intro: exI [of _ 2])
qed

theorem queue_create_size_witness:
  "\<exists>q. queue_create True sample_alloc 5 = Some q \<and> q_size q = 8 \<and> queue_inv q \<and> queue_contents q = []"
proof -
  have p: "least_pow2 (nat (max 2 5)) = 8" using least_pow2_eq [of 2 5] by simp
  have "sample_alloc 8 \<noteq> None" by (simp add: sample_alloc_def)
  with queue_create_size [where alloc = sample_alloc and ok = True and n = 5, OF sample_alloc_length] show ?thesis
    unfolding p by (auto split: option.splits)
qed

theorem queue_refines_list_witness:
  "\<exists>q'. queue_session [Put 10, Put 20, Put 30, Put 40, Get, Get, Get, Get] sample_queue =
    Inr ([0, 0, 0, -1, 10, 20, 30, 0], q') \<and> queue_count q' = 0"
proof -
  have s: "nat (q_size sample_queue) - 1 = 3" "queue_contents sample_queue = []"
    by (simp_all add: sample_queue_def ring_contents_def)
  let ?ops = "[Put 10, Put 20, Put 30, Put 40, Get, Get, Get, Get]"
  have f: "fifo_session 3 ?ops [] = ([0, 0, 0, -1, 10, 20, 30, 0], [])" by simp
  from queue_refines_list [OF sample_queue_inv, of ?ops] show ?thesis
    unfolding s f fst_conv snd_conv by (elim exE conjE, intro exI conjI) (assumption, simp only: list.size of_nat_0)
qed

end
