(* ===== verification/Native_Tasks.thy ===== *)
theory Native_Tasks
  imports Apex_Types
begin

unbundle bit_operations_syntax

text \<open>
  The native kernel, \<open>kernel/ucx.c\<close>: the tasks of a system without partitions, the priority
  driven round robin scheduler \<open>krnl_schedule\<close> (the variant that is compiled without
  \<open>CONFIG_SCHED_SIMPLE\<close>), \<open>dispatch\<close> and \<open>yield\<close>, and the task services.

  The task list is the list of the control blocks its nodes carry, as \<open>Linked_List\<close>
  justifies; \<open>task_heap\<close> holds the control blocks, and a reference without an entry is freed
  memory. \<open>dispatch\<close> and \<open>yield\<close> return the kernel in which the context of the new current
  task is restored; \<open>setjmp\<close> and \<open>longjmp\<close> themselves are not modelled. The allocations of
  \<open>ucx_task_spawn\<close> are arguments.

  The theory shows that the scheduler picks a ready task of the least remaining priority,
  that no ready task starves, and two errors: the scheduler halts the system although tasks
  are ready when the first task of the list is blocked with a smaller remainder than theirs,
  and \<open>ucx_task_spawn\<close> writes the upper guard of a stack far behind the stack.
\<close>

section \<open>Data\<close>

datatype task_state = TASK_STOPPED | TASK_READY | TASK_RUNNING | TASK_BLOCKED | TASK_SUSPENDED

type_synonym u16 = "16 word"

text \<open>The native control block: the fields the processes of a partition use, and three more.\<close>

record task_s = tcb_s +
  delay :: u16
  priority :: u16
  task_state :: task_state

record nk_s =
  tasks :: "pref list"
  task_current :: "pref option"
  task_heap :: "pref \<Rightarrow> task_s option"
  nk_id_next :: int
  preemptive :: bool
  nk_ticks :: u32
  nk_mem :: "addr \<Rightarrow> byte"

abbreviation "ERR_OK \<equiv> (0 :: int)"
abbreviation "ERR_NO_TASKS \<equiv> (-16383 :: int)"
abbreviation "ERR_TCB_ALLOC \<equiv> (-16381 :: int)"
abbreviation "ERR_STACK_ALLOC \<equiv> (-16378 :: int)"
abbreviation "ERR_TASK_CANT_REMOVE \<equiv> (-16377 :: int)"
abbreviation "ERR_TASK_NOT_FOUND \<equiv> (-16376 :: int)"
abbreviation "ERR_TASK_CANT_SUSPEND \<equiv> (-16375 :: int)"
abbreviation "ERR_TASK_CANT_RESUME \<equiv> (-16374 :: int)"
abbreviation "ERR_TASK_INVALID_PRIO \<equiv> (-16373 :: int)"
abbreviation "ERR_STACK_CHECK \<equiv> (-16372 :: int)"

text \<open>The priorities of \<open>enum task_priorities\<close>, from critical to idle.\<close>

definition task_priorities :: "u16 list" where
  "task_priorities = [0x0101, 0x0303, 0x0707, 0x0f0f, 0x1f1f, 0x3f3f, 0x7f7f, 0xffff]"

abbreviation "TASK_NORMAL_PRIO \<equiv> (0x1f1f :: u16)"

section \<open>The scheduler\<close>

definition upd_task :: "pref \<Rightarrow> (task_s \<Rightarrow> task_s) \<Rightarrow> nk_s \<Rightarrow> nk_s" where
  "upd_task r f k = k\<lparr>task_heap := (task_heap k)(r := map_option f (task_heap k r))\<rparr>"

definition ready :: "task_s \<Rightarrow> bool" where
  "ready t \<longleftrightarrow> task_state t = TASK_READY \<and> rt_prio t = 0"

definition low_byte :: "task_s \<Rightarrow> u16" where
  "low_byte t = priority t AND 0xff"

text \<open>The first loop: \<open>sel\<close> is the node selected so far.\<close>

fun sched_select :: "(pref \<Rightarrow> task_s option) \<Rightarrow> pref list \<Rightarrow> pref \<times> task_s \<Rightarrow> fault + pref \<times> task_s" where
  "sched_select h [] sel = Inr sel"
| "sched_select h (r # rs) (s, ts) =
     (case h r of None \<Rightarrow> Inl UseAfterFree
      | Some t \<Rightarrow> sched_select h rs (if low_byte t \<le> low_byte ts \<and> ready t then (r, t) else (s, ts)))"

text \<open>The second loop, for one task.\<close>

definition age :: "u16 \<Rightarrow> task_s \<Rightarrow> task_s" where
  "age p t = (if ready t then t\<lparr>priority := priority t - (p AND 0xff)\<rparr> else t)"

text \<open>The selected task gets its full priority back and runs.\<close>

definition start_running :: "task_s \<Rightarrow> task_s" where
  "start_running t = t\<lparr>priority := priority t OR (drop_bit 8 (priority t) AND 0xff), task_state := TASK_RUNNING\<rparr>"

definition demote_task :: "task_s \<Rightarrow> task_s" where
  "demote_task t = (if task_state t = TASK_RUNNING then t\<lparr>task_state := TASK_READY\<rparr> else t)"

text \<open>
  On an empty list \<open>head->next\<close> is the sentinel, whose data is null. The loops walk live
  nodes only.
\<close>

definition krnl_schedule :: "nk_s \<Rightarrow> fault + int \<times> nk_s" where
  "krnl_schedule k0 =
     (case task_current k0 of None \<Rightarrow> Inl NullDeref
      | Some c \<Rightarrow>
        if task_heap k0 c = None then Inl UseAfterFree
        else let k = upd_task c demote_task k0 in
          (case tasks k of [] \<Rightarrow> Inl NullDeref
           | r # rs \<Rightarrow>
             (case task_heap k r of None \<Rightarrow> Inl UseAfterFree
              | Some t \<Rightarrow>
                (case sched_select (task_heap k) (r # rs) (r, t) of
                   Inl f \<Rightarrow> Inl f
                 | Inr (s, ts) \<Rightarrow>
                     if \<not> ready ts then Inl (Panic ERR_NO_TASKS)
                     else let k1 = fold (\<lambda>r. upd_task r (age (priority ts))) (tasks k) k
                       in Inr (tcb_id ts, upd_task s start_running (k1\<lparr>task_current := Some s\<rparr>))))))"

definition krnl_noop_rtsched :: "nk_s \<Rightarrow> int \<times> nk_s" where
  "krnl_noop_rtsched k = (-1, k)"

text \<open>The callback of \<open>list_foreach\<close> that advances the delays.\<close>

definition delay_tick :: "task_s \<Rightarrow> task_s" where
  "delay_tick t =
     (if task_state t = TASK_BLOCKED \<and> delay t > 0 then
        let t1 = t\<lparr>delay := delay t - 1\<rparr>
        in if delay t1 = 0 then t1\<lparr>task_state := TASK_READY\<rparr> else t1
      else t)"

definition update_delays :: "nk_s \<Rightarrow> nk_s" where
  "update_delays k = fold (\<lambda>r. upd_task r delay_tick) (tasks k) k"

definition stack_check :: "nk_s \<Rightarrow> fault + unit" where
  "stack_check k =
     (case task_current k of None \<Rightarrow> Inl NullDeref
      | Some c \<Rightarrow> (case task_heap k c of None \<Rightarrow> Inl UseAfterFree
        | Some t \<Rightarrow> if mem_read (nk_mem k) (stack t) 4 \<noteq> replicate 4 0x33 then Inl (Panic ERR_STACK_CHECK) else Inr ()))"

text \<open>\<open>rt\<close> is the function \<open>kcb->rt_sched\<close> points to.\<close>

definition dispatch :: "(nk_s \<Rightarrow> int \<times> nk_s) \<Rightarrow> nk_s \<Rightarrow> fault + nk_s" where
  "dispatch rt k =
     (if tasks k = [] then Inl (Panic ERR_NO_TASKS)
      else case stack_check k of
        Inl f \<Rightarrow> Inl f
      | Inr _ \<Rightarrow>
          (case rt (update_delays k) of (n, k1) \<Rightarrow>
             if n < 0 then (case krnl_schedule k1 of Inl f \<Rightarrow> Inl f | Inr (_, k2) \<Rightarrow> Inr k2) else Inr k1))"

definition krnl_dispatcher :: "(nk_s \<Rightarrow> int \<times> nk_s) \<Rightarrow> nk_s \<Rightarrow> fault + nk_s" where
  "krnl_dispatcher rt k = dispatch rt (k\<lparr>nk_ticks := nk_ticks k + 1\<rparr>)"

text \<open>
  With preemption the caller waits for the next tick, at which \<open>krnl_dispatcher\<close> runs;
  without, the tasks are switched at once.
\<close>

definition yield_task :: "nk_s \<Rightarrow> fault + nk_s" where
  "yield_task k =
     (if preemptive k then Inr k
      else if tasks k = [] then Inl (Panic ERR_NO_TASKS)
      else case stack_check k of
        Inl f \<Rightarrow> Inl f
      | Inr _ \<Rightarrow> (case krnl_schedule (update_delays k) of Inl f \<Rightarrow> Inl f | Inr (_, k2) \<Rightarrow> Inr k2))"

section \<open>Task services\<close>

text \<open>
  \<open>new\<close>, \<open>node\<close> and \<open>st\<close> are the results of the three allocations, \<open>garbage\<close> the content of
  the control block, \<open>word_size\<close> is \<open>sizeof(size_t)\<close>: the stack is a \<open>size_t *\<close>, so the
  upper guard is written at \<open>stack_size - 4\<close> words from its base.
\<close>

definition ucx_task_spawn :: "nat \<Rightarrow> pref option \<Rightarrow> bool \<Rightarrow> addr option \<Rightarrow> task_s \<Rightarrow> addr \<Rightarrow> nat \<Rightarrow> nk_s \<Rightarrow>
    fault + int \<times> nk_s" where
  "ucx_task_spawn word_size new node st garbage tsk sz k =
     (case new of None \<Rightarrow> Inl (Panic ERR_TCB_ALLOC)
      | Some r \<Rightarrow>
        if \<not> node then Inl (Panic ERR_TCB_ALLOC)
        else case st of None \<Rightarrow> Inl (Panic ERR_STACK_ALLOC)
        | Some a \<Rightarrow>
            let stack_size = sz mod 2 ^ 16;
                t = garbage\<lparr>task := tsk, rt_prio := 0, delay := 0, stack_sz := stack_size, tcb_id := nk_id_next k,
                  priority := TASK_NORMAL_PRIO, stack := a, tcb_ctx := Ctx_Entry (a + stack_size) tsk,
                  task_state := TASK_READY\<rparr>;
                m = mem_write (nk_mem k) a (replicate stack_size 0x69);
                m = mem_write m a (replicate 4 0x33);
                m = mem_write m (nat (int a + int word_size * (int stack_size - 4))) (replicate 4 0x33)
            in Inr (nk_id_next k, k\<lparr>tasks := tasks k @ [r], task_heap := (task_heap k)(r \<mapsto> t),
                     nk_id_next := (nk_id_next k + 1) mod 2 ^ 16, nk_mem := m\<rparr>))"

text \<open>\<open>list_foreach\<close> with \<open>idcmp\<close> or \<open>refcmp\<close>: the first task that matches.\<close>

fun find_task :: "(task_s \<Rightarrow> bool) \<Rightarrow> (pref \<Rightarrow> task_s option) \<Rightarrow> pref list \<Rightarrow> fault + (pref \<times> task_s) option" where
  "find_task P h [] = Inr None"
| "find_task P h (r # rs) =
     (case h r of None \<Rightarrow> Inl UseAfterFree | Some t \<Rightarrow> if P t then Inr (Some (r, t)) else find_task P h rs)"

definition with_task :: "int \<Rightarrow> (pref \<Rightarrow> task_s \<Rightarrow> fault + int \<times> nk_s) \<Rightarrow> nk_s \<Rightarrow> fault + int \<times> nk_s" where
  "with_task i f k =
     (case find_task (\<lambda>t. tcb_id t = i) (task_heap k) (tasks k) of
        Inl e \<Rightarrow> Inl e
      | Inr None \<Rightarrow> Inr (ERR_TASK_NOT_FOUND, k)
      | Inr (Some (r, t)) \<Rightarrow> f r t)"

definition with_current_task :: "(pref \<Rightarrow> task_s \<Rightarrow> fault + 'a) \<Rightarrow> nk_s \<Rightarrow> fault + 'a" where
  "with_current_task f k =
     (case task_current k of None \<Rightarrow> Inl NullDeref
      | Some c \<Rightarrow> (case task_heap k c of None \<Rightarrow> Inl UseAfterFree | Some t \<Rightarrow> f c t))"

definition ucx_task_id :: "nk_s \<Rightarrow> fault + int" where
  "ucx_task_id k = with_current_task (\<lambda>r t. Inr (tcb_id t)) k"

definition ucx_task_cancel :: "int \<Rightarrow> nk_s \<Rightarrow> fault + int \<times> nk_s" where
  "ucx_task_cancel i k =
     with_current_task (\<lambda>c tc.
       if i = tcb_id tc then Inr (ERR_TASK_CANT_REMOVE, k)
       else with_task i (\<lambda>r t. Inr (ERR_OK, k\<lparr>task_heap := (task_heap k)(r := None), tasks := remove1 r (tasks k)\<rparr>)) k) k"

definition ucx_task_delay :: "u16 \<Rightarrow> nk_s \<Rightarrow> fault + nk_s" where
  "ucx_task_delay n k =
     with_current_task (\<lambda>c t. yield_task (upd_task c (\<lambda>t. t\<lparr>delay := n, task_state := TASK_BLOCKED\<rparr>) k)) k"

definition ucx_task_suspend :: "int \<Rightarrow> nk_s \<Rightarrow> fault + int \<times> nk_s" where
  "ucx_task_suspend i k =
     with_task i (\<lambda>r t.
       if task_state t = TASK_READY \<or> task_state t = TASK_RUNNING then
         let k1 = upd_task r (\<lambda>t. t\<lparr>task_state := TASK_SUSPENDED\<rparr>) k in
         if task_current k = Some r
         then (case yield_task k1 of Inl f \<Rightarrow> Inl f | Inr k2 \<Rightarrow> Inr (ERR_OK, k2))
         else Inr (ERR_OK, k1)
       else Inr (ERR_TASK_CANT_SUSPEND, k)) k"

definition ucx_task_resume :: "int \<Rightarrow> nk_s \<Rightarrow> fault + int \<times> nk_s" where
  "ucx_task_resume i k =
     with_task i (\<lambda>r t.
       if task_state t = TASK_SUSPENDED then Inr (ERR_OK, upd_task r (\<lambda>t. t\<lparr>task_state := TASK_READY\<rparr>) k)
       else Inr (ERR_TASK_CANT_RESUME, k)) k"

definition ucx_task_priority :: "int \<Rightarrow> u16 \<Rightarrow> nk_s \<Rightarrow> fault + int \<times> nk_s" where
  "ucx_task_priority i p k =
     (if p \<notin> set task_priorities then Inr (ERR_TASK_INVALID_PRIO, k)
      else with_task i (\<lambda>r t. Inr (ERR_OK, upd_task r (\<lambda>t. t\<lparr>priority := p\<rparr>) k)) k)"

definition ucx_task_rt_priority :: "int \<Rightarrow> nat \<Rightarrow> nk_s \<Rightarrow> fault + int \<times> nk_s" where
  "ucx_task_rt_priority i p k =
     (if p = 0 then Inr (ERR_TASK_INVALID_PRIO, k)
      else with_task i (\<lambda>r t. Inr (ERR_OK, upd_task r (\<lambda>t. t\<lparr>rt_prio := p\<rparr>) k)) k)"

definition ucx_task_idref :: "addr \<Rightarrow> nk_s \<Rightarrow> fault + int" where
  "ucx_task_idref a k =
     (case find_task (\<lambda>t. task t = a) (task_heap k) (tasks k) of
        Inl e \<Rightarrow> Inl e | Inr None \<Rightarrow> Inr ERR_TASK_NOT_FOUND | Inr (Some (r, t)) \<Rightarrow> Inr (tcb_id t))"

definition ucx_task_count :: "nk_s \<Rightarrow> nat" where
  "ucx_task_count k = length (tasks k) mod 2 ^ 16"

definition ucx_ticks :: "nk_s \<Rightarrow> u32" where
  "ucx_ticks k = nk_ticks k"

definition ucx_uptime :: "u64 \<Rightarrow> u64" where
  "ucx_uptime us = us div 1000"

section \<open>Priorities as two bytes\<close>

abbreviation high_byte :: "task_s \<Rightarrow> u16" where
  "high_byte t \<equiv> drop_bit 8 (priority t)"

lemma low_byte_unat: "unat ((w :: u16) AND 0xff) = unat w mod 256"
proof -
  have "w AND 0xff = take_bit 8 w" by (simp add: take_bit_eq_mask mask_eq_exp_minus_1)
  moreover have "unat (take_bit 8 w) = take_bit 8 (unat w)" by (rule unsigned_take_bit_eq)
  ultimately show ?thesis by (simp add: take_bit_eq_mod)
qed

lemma high_byte_unat: "unat (drop_bit 8 (w :: u16)) = unat w div 256"
  by (simp add: drop_bit_eq_div unat_div)

lemma subtract_low:
  assumes "p \<le> (w :: u16) AND 0xff"
  shows "unat ((w - p) AND 0xff) = unat (w AND 0xff) - unat p" and "drop_bit 8 (w - p) = drop_bit 8 w"
proof -
  have p: "unat p \<le> unat w mod 256" using assms by (simp add: word_le_nat_alt low_byte_unat)
  then have "unat p \<le> unat w" by (rule order_trans) simp
  then have u: "unat (w - p) = unat w - unat p" by (simp add: unat_sub word_le_nat_alt)
  have d: "unat w - unat p = 256 * (unat w div 256) + (unat w mod 256 - unat p)"
    using p mult_div_mod_eq [of 256 "unat w"] by linarith
  have lt: "unat w mod 256 - unat p < 256" using mod_less_divisor [of 256 "unat w"] by linarith
  have "unat (w - p) mod 256 = unat w mod 256 - unat p" "unat (w - p) div 256 = unat w div 256"
    unfolding u d using lt by simp_all
  then show "unat ((w - p) AND 0xff) = unat (w AND 0xff) - unat p" "drop_bit 8 (w - p) = drop_bit 8 w"
    by (simp_all add: low_byte_unat word_unat_eq_iff high_byte_unat)
qed

lemma refill_low:
  assumes "(w :: u16) AND 0xff = 0"
  shows "(w OR (drop_bit 8 w AND 0xff)) AND 0xff = drop_bit 8 w"
    and "drop_bit 8 (w OR (drop_bit 8 w AND 0xff)) = drop_bit 8 w"
proof -
  have h: "drop_bit 8 w AND 0xff = drop_bit 8 w"
    using unsigned_less [of w, where ?'a = nat] by (simp add: word_unat_eq_iff low_byte_unat high_byte_unat)
  have "(w OR drop_bit 8 w) AND 0xff = (w AND 0xff) OR (drop_bit 8 w AND 0xff)" by (rule bit.conj_disj_distrib2)
  then show "(w OR (drop_bit 8 w AND 0xff)) AND 0xff = drop_bit 8 w" using assms h by simp
  have "drop_bit 8 (drop_bit 8 w) = 0"
    using unsigned_less [of w, where ?'a = nat] by (simp add: word_unat_eq_iff high_byte_unat del: drop_bit_drop_bit)
  then show "drop_bit 8 (w OR (drop_bit 8 w AND 0xff)) = drop_bit 8 w" unfolding h drop_bit_or by simp
qed

section \<open>What the scheduler selects\<close>

definition wf_tasks :: "nk_s \<Rightarrow> bool" where
  "wf_tasks k \<longleftrightarrow> distinct (tasks k) \<and> (\<forall>r \<in> set (tasks k). task_heap k r \<noteq> None) \<and>
     (\<exists>c \<in> set (tasks k). task_current k = Some c)"

lemma sched_select_spec:
  assumes "\<forall>r \<in> set rs. h r \<noteq> None"
  shows "\<exists>s' ts'. sched_select h rs (s, ts) = Inr (s', ts') \<and>
    (s' = s \<and> ts' = ts \<and> (\<forall>r \<in> set rs. \<forall>t. h r = Some t \<longrightarrow> ready t \<longrightarrow> low_byte ts < low_byte t) \<or>
     s' \<in> set rs \<and> h s' = Some ts' \<and> ready ts' \<and> low_byte ts' \<le> low_byte ts \<and>
       (\<forall>r \<in> set rs. \<forall>t. h r = Some t \<longrightarrow> ready t \<longrightarrow> low_byte ts' \<le> low_byte t))"
  using assms
proof (induction rs arbitrary: s ts)
  case (Cons r rs)
  then obtain t where t: "h r = Some t" by auto
  have live: "\<forall>r \<in> set rs. h r \<noteq> None" using Cons.prems by simp
  show ?case
  proof (cases "low_byte t \<le> low_byte ts \<and> ready t")
    case True
    obtain s' ts' where sel: "sched_select h rs (r, t) = Inr (s', ts')"
      and c: "s' = r \<and> ts' = t \<and> (\<forall>r \<in> set rs. \<forall>u. h r = Some u \<longrightarrow> ready u \<longrightarrow> low_byte t < low_byte u) \<or>
        s' \<in> set rs \<and> h s' = Some ts' \<and> ready ts' \<and> low_byte ts' \<le> low_byte t \<and>
        (\<forall>r \<in> set rs. \<forall>u. h r = Some u \<longrightarrow> ready u \<longrightarrow> low_byte ts' \<le> low_byte u)"
      using Cons.IH [OF live, of r t] by blast
    from c have "s' \<in> set (r # rs)" "h s' = Some ts'" "ready ts'" "low_byte ts' \<le> low_byte t"
      using t True by auto
    moreover have "\<forall>r \<in> set rs. \<forall>u. h r = Some u \<longrightarrow> ready u \<longrightarrow> low_byte ts' \<le> low_byte u"
      using c order_less_imp_le by blast
    ultimately show ?thesis using sel t True by auto
  next
    case False
    from Cons.IH [OF live, of s ts] False t show ?thesis by (auto simp: not_le intro: order_less_imp_le order_trans)
  qed
qed simp

lemma upd_task_frame [simp]:
  "tasks (upd_task r f k) = tasks k" "task_current (upd_task r f k) = task_current k"
  "task_heap (upd_task r f k) = (task_heap k)(r := map_option f (task_heap k r))"
  by (simp_all add: upd_task_def)

lemma fold_upd_task:
  "tasks (fold (\<lambda>r. upd_task r f) rs k) = tasks k" "task_current (fold (\<lambda>r. upd_task r f) rs k) = task_current k"
  "distinct rs \<Longrightarrow> task_heap (fold (\<lambda>r. upd_task r f) rs k) r =
     (if r \<in> set rs then map_option f (task_heap k r) else task_heap k r)"
proof -
  show "tasks (fold (\<lambda>r. upd_task r f) rs k) = tasks k" by (induction rs arbitrary: k) auto
  show "task_current (fold (\<lambda>r. upd_task r f) rs k) = task_current k" by (induction rs arbitrary: k) auto
  show "distinct rs \<Longrightarrow> task_heap (fold (\<lambda>r. upd_task r f) rs k) r =
      (if r \<in> set rs then map_option f (task_heap k r) else task_heap k r)"
    by (induction rs arbitrary: k) auto
qed

text \<open>The task table after the running task has become ready.\<close>

definition demoted :: "nk_s \<Rightarrow> pref \<Rightarrow> task_s option" where
  "demoted k = (case task_current k of None \<Rightarrow> task_heap k | Some c \<Rightarrow> task_heap (upd_task c demote_task k))"

definition selectable :: "nk_s \<Rightarrow> bool" where
  "selectable k \<longleftrightarrow> (\<exists>t. demoted k (hd (tasks k)) = Some t \<and>
     (\<exists>r \<in> set (tasks k). \<exists>u. demoted k r = Some u \<and> ready u \<and> low_byte u \<le> low_byte t))"

lemma krnl_schedule_spec:
  assumes "wf_tasks k"
  shows "\<not> selectable k \<Longrightarrow> krnl_schedule k = Inl (Panic ERR_NO_TASKS)"
    and "selectable k \<Longrightarrow> \<exists>s ts k'. krnl_schedule k = Inr (tcb_id ts, k') \<and> s \<in> set (tasks k) \<and> demoted k s = Some ts \<and>
      ready ts \<and> (\<forall>r \<in> set (tasks k). \<forall>t. demoted k r = Some t \<longrightarrow> ready t \<longrightarrow> low_byte ts \<le> low_byte t) \<and>
      tasks k' = tasks k \<and> task_current k' = Some s \<and>
      (\<forall>r. task_heap k' r = (if r = s then Some (start_running (age (priority ts) ts))
         else if r \<in> set (tasks k) then map_option (age (priority ts)) (demoted k r) else demoted k r))"
proof -
  obtain c where c: "c \<in> set (tasks k)" "task_current k = Some c" "task_heap k c \<noteq> None" and d: "distinct (tasks k)"
    using assms by (auto simp: wf_tasks_def)
  then obtain r rs where rs: "tasks k = r # rs" by (cases "tasks k") auto
  let ?k = "upd_task c demote_task k"
  have h: "task_heap ?k = demoted k" by (simp add: demoted_def c(2))
  have live: "\<forall>r \<in> set (tasks k). demoted k r \<noteq> None" using assms by (auto simp: wf_tasks_def demoted_def c(2))
  then obtain t where t: "demoted k r = Some t" using rs by auto
  obtain s ts where sel: "sched_select (demoted k) (tasks k) (r, t) = Inr (s, ts)"
    and cases: "s = r \<and> ts = t \<and> (\<forall>r \<in> set (tasks k). \<forall>u. demoted k r = Some u \<longrightarrow> ready u \<longrightarrow> low_byte t < low_byte u) \<or>
      s \<in> set (tasks k) \<and> demoted k s = Some ts \<and> ready ts \<and> low_byte ts \<le> low_byte t \<and>
       (\<forall>r \<in> set (tasks k). \<forall>u. demoted k r = Some u \<longrightarrow> ready u \<longrightarrow> low_byte ts \<le> low_byte u)"
    using sched_select_spec [OF live, of r t] by blast
  have eq: "krnl_schedule k = (if \<not> ready ts then Inl (Panic ERR_NO_TASKS)
      else let k1 = fold (\<lambda>r. upd_task r (age (priority ts))) (tasks k) ?k
        in Inr (tcb_id ts, upd_task s start_running (k1\<lparr>task_current := Some s\<rparr>)))"
    using c sel rs t unfolding krnl_schedule_def by (simp add: h Let_def del: upd_task_frame(3) sched_select.simps)
  have not_ready: "\<not> ready t" if "\<forall>r \<in> set (tasks k). \<forall>u. demoted k r = Some u \<longrightarrow> ready u \<longrightarrow> low_byte t < low_byte u"
    using that t rs by (metis list.set_intros(1) order_less_irrefl)
  show "krnl_schedule k = Inl (Panic ERR_NO_TASKS)" if "\<not> selectable k"
  proof -
    have "\<not> ready ts" using cases not_ready that t by (auto simp: selectable_def rs)
    then show ?thesis by (simp add: eq)
  qed
  assume "selectable k"
  then obtain r' u where "r' \<in> set (tasks k)" "demoted k r' = Some u" "ready u" "low_byte u \<le> low_byte t"
    using t rs by (auto simp: selectable_def)
  then have s: "s \<in> set (tasks k)" "demoted k s = Some ts" "ready ts"
    "\<forall>r \<in> set (tasks k). \<forall>u. demoted k r = Some u \<longrightarrow> ready u \<longrightarrow> low_byte ts \<le> low_byte u"
    using cases by (auto simp: not_less [symmetric])
  let ?k1 = "fold (\<lambda>r. upd_task r (age (priority ts))) (tasks k) ?k"
  let ?k' = "upd_task s start_running (?k1\<lparr>task_current := Some s\<rparr>)"
  have "tasks ?k' = tasks k" "task_current ?k' = Some s" using fold_upd_task(1) by simp_all
  moreover have "task_heap ?k' r = (if r = s then Some (start_running (age (priority ts) ts))
      else if r \<in> set (tasks k) then map_option (age (priority ts)) (demoted k r) else demoted k r)" for r
    using fold_upd_task(3) [OF d, of "age (priority ts)" ?k] s(1,2) h by auto
  ultimately show "\<exists>s ts k'. krnl_schedule k = Inr (tcb_id ts, k') \<and> s \<in> set (tasks k) \<and> demoted k s = Some ts \<and>
      ready ts \<and> (\<forall>r \<in> set (tasks k). \<forall>t. demoted k r = Some t \<longrightarrow> ready t \<longrightarrow> low_byte ts \<le> low_byte t) \<and>
      tasks k' = tasks k \<and> task_current k' = Some s \<and>
      (\<forall>r. task_heap k' r = (if r = s then Some (start_running (age (priority ts) ts))
         else if r \<in> set (tasks k) then map_option (age (priority ts)) (demoted k r) else demoted k r))"
    using s eq by (intro exI [of _ s] exI [of _ ts] exI [of _ ?k']) (simp add: Let_def)
qed

text \<open>
  When the scheduler halts. It panics with \<open>ERR_NO_TASKS\<close> exactly when every ready task has
  more of its priority left than the first task of the list; that is so when no task is
  ready, but also when the first task is blocked and ready tasks wait behind it.
\<close>

theorem krnl_schedule_halts_iff:
  assumes "wf_tasks k" and "demoted k (hd (tasks k)) = Some t"
  shows "krnl_schedule k = Inl (Panic ERR_NO_TASKS) \<longleftrightarrow>
    (\<forall>r \<in> set (tasks k). \<forall>u. demoted k r = Some u \<longrightarrow> ready u \<longrightarrow> low_byte t < low_byte u)"
proof -
  have "\<not> selectable k \<longleftrightarrow> (\<forall>r \<in> set (tasks k). \<forall>u. demoted k r = Some u \<longrightarrow> ready u \<longrightarrow> low_byte t < low_byte u)"
    using assms(2) by (auto simp: selectable_def not_le)
  moreover have "krnl_schedule k \<noteq> Inl (Panic ERR_NO_TASKS)" if "selectable k"
    using krnl_schedule_spec(2) [OF assms(1) that] by auto
  ultimately show ?thesis using krnl_schedule_spec(1) [OF assms(1)] by blast
qed

section \<open>No starvation\<close>

text \<open>
  Every task wants to run, none is a real-time task, and the priorities are such as
  \<open>ucx_task_priority\<close> and the scheduler leave them: the upper byte is the priority, at least
  1, and the lower byte what is left of it.
\<close>

definition runnable :: "task_s \<Rightarrow> bool" where
  "runnable t \<longleftrightarrow> (task_state t = TASK_READY \<or> task_state t = TASK_RUNNING) \<and> rt_prio t = 0 \<and> high_byte t \<noteq> 0"

definition all_runnable :: "nk_s \<Rightarrow> bool" where
  "all_runnable k \<longleftrightarrow> wf_tasks k \<and> (\<forall>r \<in> set (tasks k). \<forall>t. task_heap k r = Some t \<longrightarrow> runnable t) \<and>
     (\<forall>r t. task_heap k r = Some t \<longrightarrow> r \<in> set (tasks k) \<longrightarrow> task_state t = TASK_RUNNING \<longrightarrow> task_current k = Some r)"

text \<open>Any number of calls of the scheduler.\<close>

fun schedule_n :: "nat \<Rightarrow> nk_s \<Rightarrow> fault + nk_s" where
  "schedule_n 0 k = Inr k"
| "schedule_n (Suc n) k = (case krnl_schedule k of Inl f \<Rightarrow> Inl f | Inr (_, k') \<Rightarrow> schedule_n n k')"

text \<open>What is left of the priority of task \<open>r\<close>, and how many tasks have nothing left.\<close>

definition left_of :: "nk_s \<Rightarrow> pref \<Rightarrow> nat" where
  "left_of k r = (case task_heap k r of None \<Rightarrow> 0 | Some t \<Rightarrow> unat (low_byte t))"

definition exhausted :: "nk_s \<Rightarrow> nat" where
  "exhausted k = length (filter (\<lambda>r. left_of k r = 0) (tasks k))"

lemma demoted_runnable:
  assumes "all_runnable k" and "r \<in> set (tasks k)"
  obtains t where "demoted k r = Some t" "ready t" "high_byte t \<noteq> 0" "unat (low_byte t) = left_of k r"
proof -
  obtain t where t: "task_heap k r = Some t" using assms by (auto simp: all_runnable_def wf_tasks_def)
  then have rn: "runnable t" "task_state t = TASK_RUNNING \<Longrightarrow> task_current k = Some r"
    using assms by (auto simp: all_runnable_def)
  then have "demoted k r = Some (demote_task t)"
    using t by (auto simp: demoted_def runnable_def demote_task_def split: option.splits)
  with rn t show ?thesis
    by (intro that [of "demote_task t"]) (auto simp: runnable_def ready_def demote_task_def left_of_def low_byte_def)
qed

lemma all_runnable_selectable:
  assumes "all_runnable k" shows "selectable k"
proof -
  have "tasks k \<noteq> []" using assms by (auto simp: all_runnable_def wf_tasks_def)
  then have hd: "hd (tasks k) \<in> set (tasks k)" by simp
  obtain t where "demoted k (hd (tasks k)) = Some t" "ready t" using demoted_runnable [OF assms hd] by blast
  with hd show ?thesis by (auto simp: selectable_def)
qed

lemma age_left:
  assumes "ready t" and "low_byte u \<le> low_byte t"
  shows "unat (low_byte (age (priority u) t)) = unat (low_byte t) - unat (low_byte u)"
    and "high_byte (age (priority u) t) = high_byte t"
  using subtract_low [of "low_byte u" "priority t"] assms by (simp_all add: age_def low_byte_def)

lemma start_running_left:
  assumes "ready t"
  shows "low_byte (start_running (age (priority t) t)) = high_byte t"
    and "high_byte (start_running (age (priority t) t)) = high_byte t"
proof -
  let ?t = "age (priority t) t"
  have "unat (low_byte ?t) = 0" "high_byte ?t = high_byte t" using age_left [of t t] assms by simp_all
  then have z: "priority ?t AND 0xff = 0" "high_byte ?t = high_byte t" by (simp_all add: low_byte_def unat_eq_zero)
  then show "low_byte (start_running ?t) = high_byte t" "high_byte (start_running ?t) = high_byte t"
    using refill_low [OF z(1)] by (simp_all add: low_byte_def start_running_def)
qed

lemma schedule_step:
  assumes "all_runnable k"
  shows "\<exists>s i k'. krnl_schedule k = Inr (i, k') \<and> all_runnable k' \<and> tasks k' = tasks k \<and> task_current k' = Some s \<and>
    s \<in> set (tasks k) \<and> (\<forall>r \<in> set (tasks k). left_of k s \<le> left_of k r) \<and> 0 < left_of k' s \<and>
    (\<forall>r \<in> set (tasks k). r \<noteq> s \<longrightarrow> left_of k' r = left_of k r - left_of k s)"
proof -
  have wf: "wf_tasks k" using assms by (simp add: all_runnable_def)
  obtain s ts k' where sch: "krnl_schedule k = Inr (tcb_id ts, k')" "s \<in> set (tasks k)" "demoted k s = Some ts" "ready ts"
    and min: "\<forall>r \<in> set (tasks k). \<forall>t. demoted k r = Some t \<longrightarrow> ready t \<longrightarrow> low_byte ts \<le> low_byte t"
    and fr: "tasks k' = tasks k" "task_current k' = Some s"
    and heap: "\<And>r. task_heap k' r = (if r = s then Some (start_running (age (priority ts) ts))
         else if r \<in> set (tasks k) then map_option (age (priority ts)) (demoted k r) else demoted k r)"
    using krnl_schedule_spec(2) [OF wf all_runnable_selectable [OF assms]] by blast
  have s: "high_byte ts \<noteq> 0" "unat (low_byte ts) = left_of k s"
    using demoted_runnable [OF assms sch(2)] sch(3) by auto
  note run = start_running_left [OF sch(4)]
  have other: "\<exists>t. task_heap k' r = Some t \<and> ready t \<and> high_byte t \<noteq> 0 \<and>
      unat (low_byte t) = left_of k r - left_of k s \<and> left_of k s \<le> left_of k r" if r: "r \<in> set (tasks k)" "r \<noteq> s" for r
  proof -
    obtain t where t: "demoted k r = Some t" "ready t" "high_byte t \<noteq> 0" "unat (low_byte t) = left_of k r"
      using demoted_runnable [OF assms r(1)] .
    have le: "low_byte ts \<le> low_byte t" using min r(1) t by blast
    have "ready (age (priority ts) t)" using t(2) by (simp add: age_def ready_def)
    moreover have "left_of k s \<le> left_of k r" using le s(2) t(4) by (simp add: word_le_nat_alt)
    ultimately show ?thesis using heap [of r] r t age_left [OF t(2) le] s(2) by simp
  qed
  have "left_of k' s \<noteq> 0" using heap [of s] run s(1) by (simp add: left_of_def unat_eq_zero)
  moreover have "left_of k' r = left_of k r - left_of k s" if "r \<in> set (tasks k)" "r \<noteq> s" for r
    using other [OF that] by (auto simp: left_of_def)
  moreover have "left_of k s \<le> left_of k r" if "r \<in> set (tasks k)" for r using other [OF that] by (cases "r = s") auto
  moreover have "all_runnable k'"
  proof -
    have "task_heap k' r \<noteq> None" if "r \<in> set (tasks k)" for r
    proof (cases "r = s")
      case False
      from other [OF that False] show ?thesis by auto
    qed (simp add: heap)
    then have "wf_tasks k'" using wf sch(2) fr by (auto simp: wf_tasks_def)
    moreover have "runnable t \<and> (task_state t = TASK_RUNNING \<longrightarrow> r = s)" if "r \<in> set (tasks k)" "task_heap k' r = Some t" for r t
    proof (cases "r = s")
      case True
      with that heap [of s] have "t = start_running (age (priority ts) ts)" by simp
      with run sch(4) s(1) True show ?thesis by (auto simp: runnable_def start_running_def age_def ready_def)
    next
      case False
      with other [OF that(1)] that(2) show ?thesis by (auto simp: runnable_def ready_def)
    qed
    ultimately show ?thesis using fr by (auto simp: all_runnable_def)
  qed
  ultimately show ?thesis using sch fr by blast
qed

text \<open>
  Unless task \<open>j\<close> is selected, either what is left of its priority decreases, or it stays and
  one task less has nothing left.
\<close>

lemma schedule_measure:
  assumes "\<forall>r \<in> set rs. r \<noteq> s \<longrightarrow> left_of k' r = left_of k r" and "s \<in> set rs" and "distinct rs"
    and "left_of k s = 0" and "0 < left_of k' s"
  shows "Suc (length (filter (\<lambda>r. left_of k' r = 0) rs)) = length (filter (\<lambda>r. left_of k r = 0) rs)"
proof -
  from assms(2) obtain xs ys where rs: "rs = xs @ s # ys" by (meson split_list)
  then have "s \<notin> set xs" "s \<notin> set ys" using assms(3) by auto
  then have "filter (\<lambda>r. left_of k' r = 0) xs = filter (\<lambda>r. left_of k r = 0) xs"
    "filter (\<lambda>r. left_of k' r = 0) ys = filter (\<lambda>r. left_of k r = 0) ys"
    using assms(1) rs by (auto intro!: filter_cong)
  then show ?thesis using assms(4,5) rs by simp
qed

lemma eventually_selected:
  assumes "all_runnable k" and "j \<in> set (tasks k)" and "left_of k j * Suc (length (tasks k)) + exhausted k \<le> n"
  shows "\<exists>m k'. m \<le> n \<and> schedule_n (Suc m) k = Inr k' \<and> task_current k' = Some j"
  using assms
proof (induction n arbitrary: k)
  case (0 k)
  then have z: "left_of k j = 0" "exhausted k = 0" by simp_all
  then have "j \<in> set (filter (\<lambda>r. left_of k r = 0) (tasks k))" using 0(2) by simp
  then show ?case using z(2) by (auto simp: exhausted_def filter_empty_conv)
next
  case (Suc n)
  obtain s i k' where st: "krnl_schedule k = Inr (i, k')" "all_runnable k'" "tasks k' = tasks k" "task_current k' = Some s"
    "s \<in> set (tasks k)" "\<forall>r \<in> set (tasks k). left_of k s \<le> left_of k r" "0 < left_of k' s"
    "\<forall>r \<in> set (tasks k). r \<noteq> s \<longrightarrow> left_of k' r = left_of k r - left_of k s"
    using schedule_step [OF Suc.prems(1)] by blast
  let ?N = "length (tasks k)"
  show ?case
  proof (cases "s = j")
    case True
    with st(1,4) show ?thesis by (intro exI [of _ 0]) auto
  next
    case False
    have lj: "left_of k' j = left_of k j - left_of k s" "left_of k s \<le> left_of k j" using st(6,8) Suc.prems(2) False by auto
    have ex: "exhausted k' \<le> ?N" "exhausted k' = length (filter (\<lambda>r. left_of k' r = 0) (tasks k))"
      by (simp_all add: exhausted_def st(3))
    have "left_of k' j * Suc ?N + exhausted k' < left_of k j * Suc ?N + exhausted k"
    proof (cases "left_of k s = 0")
      case True
      have "Suc (exhausted k') = exhausted k"
        unfolding exhausted_def st(3)
        by (rule schedule_measure [where s = s]) (use st(5,7,8) True Suc.prems(1) in \<open>auto simp: all_runnable_def wf_tasks_def\<close>)
      then show ?thesis using lj True by simp
    next
      case False
      then have "Suc (left_of k' j) \<le> left_of k j" using lj by simp
      from mult_le_mono1 [OF this, of "Suc ?N"] ex(1) show ?thesis by simp
    qed
    then have "left_of k' j * Suc (length (tasks k')) + exhausted k' \<le> n" using Suc.prems(3) st(3) by simp
    from Suc.IH [OF st(2) _ this] Suc.prems(2) st(3) obtain m k'' where
      "m \<le> n" "schedule_n (Suc m) k' = Inr k''" "task_current k'' = Some j" by auto
    with st(1) show ?thesis by (intro exI [of _ "Suc m"]) auto
  qed
qed

text \<open>
  C19. No starvation: while all tasks want to run, every task, whatever its priority, is selected
  within 256 rounds, a round being one call of the scheduler more than there are tasks; no
  call halts the system.
\<close>

theorem krnl_schedule_no_starvation:
  assumes "all_runnable k" and "j \<in> set (tasks k)"
  shows "\<exists>n k'. 0 < n \<and> n \<le> 256 * (length (tasks k) + 1) \<and> schedule_n n k = Inr k' \<and> task_current k' = Some j"
proof -
  have "left_of k j \<le> 255"
  proof (cases "task_heap k j")
    case (Some t)
    have "unat (priority t) mod 256 < 256" by simp
    then show ?thesis using Some by (simp add: left_of_def low_byte_def low_byte_unat)
  qed (simp add: left_of_def)
  from mult_le_mono1 [OF this, of "Suc (length (tasks k))"]
  have "left_of k j * Suc (length (tasks k)) + exhausted k \<le> 255 * Suc (length (tasks k)) + length (tasks k)"
    by (rule add_mono) (simp add: exhausted_def)
  from eventually_selected [OF assms this] obtain m k' where
    m: "m \<le> 255 * Suc (length (tasks k)) + length (tasks k)" "schedule_n (Suc m) k = Inr k'" "task_current k' = Some j" by blast
  have "Suc m \<le> 256 * (length (tasks k) + 1)" using m(1) by simp
  with m(2,3) show ?thesis by (intro exI [of _ "Suc m"]) auto
qed

section \<open>Delays and guards\<close>

text \<open>A blocked task without a delay is left alone by the ticks.\<close>

definition stuck :: "pref \<Rightarrow> nk_s \<Rightarrow> bool" where
  "stuck r k \<longleftrightarrow> (\<exists>t. task_heap k r = Some t \<and> task_state t = TASK_BLOCKED \<and> delay t = 0)"

lemma stuck_upd: "stuck r k \<Longrightarrow> (\<And>t. task_state t = TASK_BLOCKED \<Longrightarrow> delay t = 0 \<Longrightarrow>
    task_state (f t) = TASK_BLOCKED \<and> delay (f t) = 0) \<Longrightarrow> stuck r (upd_task q f k)"
  by (cases "q = r") (auto simp: stuck_def)

lemma stuck_fold: "stuck r k \<Longrightarrow> (\<And>t. task_state t = TASK_BLOCKED \<Longrightarrow> delay t = 0 \<Longrightarrow>
    task_state (f t) = TASK_BLOCKED \<and> delay (f t) = 0) \<Longrightarrow> stuck r (fold (\<lambda>q. upd_task q f) qs k)"
  by (induction qs arbitrary: k) (auto intro: stuck_upd)

lemma sched_select_ready:
  "sched_select h rs (s, ts) = Inr (s', ts') \<Longrightarrow> h s = Some ts \<Longrightarrow> h s' = Some ts'"
  by (induction rs arbitrary: s ts) (auto split: option.splits if_splits)

lemma krnl_schedule_stuck:
  assumes s: "stuck r k" and sch: "krnl_schedule k = Inr (i, k')"
  shows "stuck r k' \<and> task_current k' \<noteq> Some r"
proof -
  obtain c q qs t s1 ts where c: "task_current k = Some c" and q: "tasks k = q # qs"
    and t: "task_heap (upd_task c demote_task k) q = Some t"
    and sel: "sched_select (task_heap (upd_task c demote_task k)) (q # qs) (q, t) = Inr (s1, ts)" and ready: "ready ts"
    and k': "k' = upd_task s1 start_running ((fold (\<lambda>r. upd_task r (age (priority ts))) (q # qs) (upd_task c demote_task k))
      \<lparr>task_current := Some s1\<rparr>)"
    using sch unfolding krnl_schedule_def
    by (auto simp: Let_def simp del: upd_task_frame(3) sched_select.simps fold.simps
        split: option.splits list.splits sum.splits if_splits)
  have s0: "stuck r (upd_task c demote_task k)" by (rule stuck_upd [OF s]) (simp add: demote_task_def)
  have "task_heap (upd_task c demote_task k) s1 = Some ts" by (rule sched_select_ready [OF sel t])
  with s0 ready have ne: "s1 \<noteq> r" by (auto simp: stuck_def ready_def)
  have "stuck r (fold (\<lambda>r. upd_task r (age (priority ts))) (q # qs) (upd_task c demote_task k))"
    by (rule stuck_fold [OF s0]) (simp add: age_def ready_def)
  then show ?thesis using ne unfolding k' stuck_def by simp
qed

text \<open>
  What may happen in a system while a task sleeps: ticks, switches, and the services other
  tasks call on any task but \<open>ucx_task_cancel\<close>.
\<close>

inductive nk_step :: "nk_s \<Rightarrow> nk_s \<Rightarrow> bool" where
  tick: "krnl_dispatcher krnl_noop_rtsched k = Inr k' \<Longrightarrow> nk_step k k'"
| switch: "yield_task k = Inr k' \<Longrightarrow> nk_step k k'"
| sleep: "ucx_task_delay n k = Inr k' \<Longrightarrow> nk_step k k'"
| suspend: "ucx_task_suspend i k = Inr (e, k') \<Longrightarrow> nk_step k k'"
| wake: "ucx_task_resume i k = Inr (e, k') \<Longrightarrow> nk_step k k'"
| prio: "ucx_task_priority i p k = Inr (e, k') \<Longrightarrow> nk_step k k'"
| rt: "ucx_task_rt_priority i q k = Inr (e, k') \<Longrightarrow> nk_step k k'"

inductive nk_run :: "nk_s \<Rightarrow> nk_s \<Rightarrow> bool" where
  here: "nk_run k k"
| next_step: "nk_run k k' \<Longrightarrow> nk_step k' k'' \<Longrightarrow> nk_run k k''"

lemma update_delays_stuck: "stuck r k \<Longrightarrow> stuck r (update_delays k)"
  unfolding update_delays_def by (rule stuck_fold) (simp_all add: delay_tick_def)

lemma update_delays_current [simp]: "task_current (update_delays k) = task_current k"
  by (simp add: update_delays_def fold_upd_task(2))

definition asleep :: "pref \<Rightarrow> nk_s \<Rightarrow> bool" where
  "asleep r k \<longleftrightarrow> stuck r k \<and> task_current k \<noteq> Some r"

lemma yield_asleep:
  assumes "stuck r k" and "task_current k \<noteq> Some r \<or> \<not> preemptive k" and "yield_task k = Inr k'"
  shows "asleep r k'"
  using assms krnl_schedule_stuck [OF update_delays_stuck [OF assms(1)]]
  by (auto simp: yield_task_def asleep_def split: if_splits sum.splits)

lemma asleep_upd: "asleep r k \<Longrightarrow> (\<And>t. task_state t = TASK_BLOCKED \<Longrightarrow> delay t = 0 \<Longrightarrow>
    task_state (f t) = TASK_BLOCKED \<and> delay (f t) = 0) \<Longrightarrow> asleep r (upd_task q f k)"
  using stuck_upd [of r k f q] by (auto simp: asleep_def)

lemma asleep_upd_other: "asleep r k \<Longrightarrow> q \<noteq> r \<Longrightarrow> asleep r (upd_task q f k)"
  by (auto simp: asleep_def stuck_def)

lemma find_task_heap: "find_task P h rs = Inr (Some (r, t)) \<Longrightarrow> h r = Some t"
  by (induction rs) (auto split: option.splits if_splits)

lemma with_task_cases:
  assumes "with_task i f k = Inr (e, k')"
  obtains "k' = k" | r t where "task_heap k r = Some t" "f r t = Inr (e, k')"
  using assms by (auto simp: with_task_def split: sum.splits option.splits dest: find_task_heap)

lemma nk_step_asleep:
  assumes st: "nk_step k k'" and s: "asleep r k"
  shows "asleep r k'"
  using st
proof cases
  case tick
  have "stuck r (update_delays (k\<lparr>nk_ticks := nk_ticks k + 1\<rparr>))" using s by (intro update_delays_stuck) (simp add: asleep_def stuck_def)
  with krnl_schedule_stuck [OF this] tick show ?thesis
    by (auto simp: krnl_dispatcher_def dispatch_def krnl_noop_rtsched_def asleep_def split: if_splits sum.splits)
next
  case switch
  with yield_asleep s show ?thesis by (auto simp: asleep_def)
next
  case (sleep n)
  then obtain c where "task_current k = Some c"
    and y: "yield_task (upd_task c (\<lambda>t. t\<lparr>delay := n, task_state := TASK_BLOCKED\<rparr>) k) = Inr k'"
    by (auto simp: ucx_task_delay_def with_current_task_def split: option.splits)
  with s have "asleep r (upd_task c (\<lambda>t. t\<lparr>delay := n, task_state := TASK_BLOCKED\<rparr>) k)"
    by (intro asleep_upd_other) (auto simp: asleep_def)
  with yield_asleep [OF _ _ y] show ?thesis by (auto simp: asleep_def)
next
  case (suspend i e)
  from suspend [unfolded ucx_task_suspend_def] show ?thesis
  proof (cases rule: with_task_cases)
    case (2 q t)
    show ?thesis
    proof (cases "q = r")
      case True
      with 2 s show ?thesis by (auto simp: asleep_def stuck_def)
    next
      case False
      have a: "asleep r (upd_task q (\<lambda>t. t\<lparr>task_state := TASK_SUSPENDED\<rparr>) k)" by (rule asleep_upd_other [OF s False])
      with 2(2) s yield_asleep [of r "upd_task q (\<lambda>t. t\<lparr>task_state := TASK_SUSPENDED\<rparr>) k"] show ?thesis
        by (auto simp: asleep_def Let_def split: if_splits sum.splits)
    qed
  qed (use s in simp)
next
  case (wake i e)
  from wake [unfolded ucx_task_resume_def] show ?thesis
  proof (cases rule: with_task_cases)
    case (2 q t)
    with s show ?thesis by (cases "q = r") (auto simp: asleep_def stuck_def split: if_splits)
  qed (use s in simp)
next
  case (prio i p e)
  show ?thesis
  proof (cases "p \<in> set task_priorities")
    case True
    with prio have "with_task i (\<lambda>r t. Inr (ERR_OK, upd_task r (\<lambda>t. t\<lparr>priority := p\<rparr>) k)) k = Inr (e, k')"
      by (simp add: ucx_task_priority_def)
    then show ?thesis by (cases rule: with_task_cases) (use s in \<open>auto intro!: asleep_upd\<close>)
  qed (use prio s in \<open>simp add: ucx_task_priority_def\<close>)
next
  case (rt i q e)
  show ?thesis
  proof (cases "q = 0")
    case False
    with rt have "with_task i (\<lambda>r t. Inr (ERR_OK, upd_task r (\<lambda>t. t\<lparr>rt_prio := q\<rparr>) k)) k = Inr (e, k')"
      by (simp add: ucx_task_rt_priority_def)
    then show ?thesis by (cases rule: with_task_cases) (use s in \<open>auto intro!: asleep_upd\<close>)
  qed (use rt s in \<open>simp add: ucx_task_rt_priority_def\<close>)
qed

text \<open>
  A delay of 0 never ends. \<open>ucx_task_delay(0)\<close> blocks its caller with no tick to wait for;
  \<open>delay_update\<close> wakes only tasks whose delay is positive, and \<open>ucx_task_resume\<close> refuses a
  blocked task, so whatever the other tasks do the caller never runs again.
\<close>

theorem zero_delay_never_ends:
  assumes "task_current k = Some r" and "\<not> preemptive k" and "ucx_task_delay 0 k = Inr k1" and "nk_run k1 k'"
  shows "\<exists>t. task_heap k' r = Some t \<and> task_state t = TASK_BLOCKED \<and> task_current k' \<noteq> Some r"
proof -
  have stk: "stuck r (upd_task r (\<lambda>t. t\<lparr>delay := 0, task_state := TASK_BLOCKED\<rparr>) k)"
    and y: "yield_task (upd_task r (\<lambda>t. t\<lparr>delay := 0, task_state := TASK_BLOCKED\<rparr>) k) = Inr k1"
    using assms(1,3) by (auto simp: ucx_task_delay_def with_current_task_def stuck_def split: option.splits)
  have "asleep r k1" by (rule yield_asleep [OF stk _ y]) (simp add: upd_task_def assms(2))
  with assms(4) have "asleep r k'" by (induction rule: nk_run.induct) (auto intro: nk_step_asleep)
  then show ?thesis by (auto simp: asleep_def stuck_def)
qed

text \<open>
  The guards of a stack. \<open>ucx_task_spawn\<close> writes the lower guard at the base of the stack, but
  the upper one \<open>stack_size - 4\<close> words from the base, because the address is that of a
  \<open>size_t\<close>: for a stack of more than 5 bytes the four bytes lie behind the stack, in memory
  that belongs to another block.
\<close>

theorem spawn_writes_behind_stack:
  assumes "4 \<le> word_size" and "6 \<le> sz" and "sz < 2 ^ 16"
    and "ucx_task_spawn word_size (Some r) True (Some a) garbage tsk sz k = Inr (i, k')"
  shows "\<exists>t g. task_heap k' r = Some t \<and> stack t = a \<and> stack_sz t = sz \<and> g = a + word_size * (sz - 4) \<and>
    a + sz \<le> g \<and> mem_read (nk_mem k') g 4 = replicate 4 0x33"
proof -
  let ?g = "a + word_size * (sz - 4)"
  have g: "nat (int a + int word_size * (int sz - 4)) = ?g"
    using assms(2) by (simp add: nat_add_distrib nat_mult_distrib nat_diff_distrib)
  have "4 * (sz - 4) \<le> word_size * (sz - 4)" using assms(1) by (rule mult_le_mono1)
  then have le: "a + sz \<le> ?g" using assms(2) by linarith
  have m: "mem_read (mem_write m ?g (replicate 4 0x33)) ?g 4 = replicate 4 0x33" for m
    by (rule nth_equalityI) (auto simp: mem_read_def mem_write_def)
  have sz: "sz mod 65536 = sz" using assms(3) by simp
  from assms(4) show ?thesis using le g m by (auto simp: ucx_task_spawn_def Let_def sz)
qed

section \<open>Examples\<close>

definition sample_task :: "int \<Rightarrow> task_state \<Rightarrow> u16 \<Rightarrow> task_s" where
  "sample_task i st p = \<lparr>task = 4096, tcb_ctx = Ctx_Garbage, stack = 1024 * nat i, stack_sz = 512, rt_prio = 0, tcb_id = i,
     delay = 0, priority = p, task_state = st\<rparr>"

text \<open>Three tasks; the first, of high priority, runs.\<close>

definition sample_nk :: nk_s where
  "sample_nk = \<lparr>tasks = [1, 2, 3], task_current = Some 1,
     task_heap = [1 \<mapsto> sample_task 1 TASK_RUNNING 0x0707, 2 \<mapsto> sample_task 2 TASK_READY 0x1f1f, 3 \<mapsto> sample_task 3 TASK_READY 0x1f18],
     nk_id_next = 4, preemptive = False, nk_ticks = 0, nk_mem = (\<lambda>_. 0x33)\<rparr>"

text \<open>The same kernel after the first task has gone to sleep.\<close>

definition sample_blocked_nk :: nk_s where
  "sample_blocked_nk = upd_task 1 (\<lambda>t. t\<lparr>delay := 5, task_state := TASK_BLOCKED\<rparr>) sample_nk"

theorem krnl_schedule_halts_iff_witness:
  "task_heap sample_blocked_nk 2 = Some (sample_task 2 TASK_READY 0x1f1f) \<and>
   krnl_schedule sample_blocked_nk = Inl (Panic ERR_NO_TASKS)"
proof -
  let ?t = "(sample_task 1 TASK_RUNNING 0x0707)\<lparr>delay := 5, task_state := TASK_BLOCKED\<rparr>"
  have wf: "wf_tasks sample_blocked_nk" by (simp add: wf_tasks_def sample_blocked_nk_def upd_task_def sample_nk_def)
  have h: "demoted sample_blocked_nk (hd (tasks sample_blocked_nk)) = Some ?t"
    "demoted sample_blocked_nk 2 = Some (sample_task 2 TASK_READY 0x1f1f)"
    "demoted sample_blocked_nk 3 = Some (sample_task 3 TASK_READY 0x1f18)" "demoted sample_blocked_nk 1 = Some ?t"
    "tasks sample_blocked_nk = [1, 2, 3]"
    by (simp_all add: demoted_def sample_blocked_nk_def upd_task_def sample_nk_def demote_task_def)
  have "krnl_schedule sample_blocked_nk = Inl (Panic ERR_NO_TASKS)"
    unfolding krnl_schedule_halts_iff [OF wf h(1)] using h
    by (simp add: ready_def low_byte_def sample_task_def)
  then show ?thesis by (simp add: sample_blocked_nk_def upd_task_def sample_nk_def)
qed

theorem krnl_schedule_no_starvation_witness:
  "\<exists>n k'. n \<le> 1024 \<and> schedule_n n sample_nk = Inr k' \<and> task_current k' = Some 3"
proof -
  have "all_runnable sample_nk"
    by (auto simp: all_runnable_def wf_tasks_def runnable_def sample_nk_def sample_task_def)
  moreover have "3 \<in> set (tasks sample_nk)" "length (tasks sample_nk) = 3" by (simp_all add: sample_nk_def)
  ultimately show ?thesis using krnl_schedule_no_starvation [of sample_nk 3] by auto
qed

text \<open>The third task goes to sleep with a delay of 0.\<close>

definition sample_sleeper :: nk_s where
  "sample_sleeper = sample_nk\<lparr>task_current := Some 3, task_heap := (task_heap sample_nk)(1 \<mapsto> sample_task 1 TASK_READY 0x0707,
     3 \<mapsto> sample_task 3 TASK_RUNNING 0x1f1f)\<rparr>"

theorem zero_delay_never_ends_witness:
  "\<exists>k1. ucx_task_delay 0 sample_sleeper = Inr k1 \<and>
    (\<forall>k'. nk_run k1 k' \<longrightarrow> (\<exists>t. task_heap k' 3 = Some t \<and> task_state t = TASK_BLOCKED \<and> task_current k' \<noteq> Some 3))"
proof -
  have c: "task_current sample_sleeper = Some 3" "\<not> preemptive sample_sleeper" by (simp_all add: sample_sleeper_def sample_nk_def)
  let ?K = "upd_task 3 (\<lambda>t. t\<lparr>delay := 0, task_state := TASK_BLOCKED\<rparr>) sample_sleeper"
  have fr: "tasks (update_delays ?K) = [1, 2, 3]" "task_current (update_delays ?K) = Some 3"
    by (simp_all add: update_delays_def fold_upd_task(1,2) sample_sleeper_def sample_nk_def)
  have "task_heap (update_delays ?K) r = (if r \<in> {1, 2, 3} then map_option delay_tick (task_heap ?K r) else task_heap ?K r)" for r
    unfolding update_delays_def by (subst fold_upd_task(3)) (simp_all add: sample_sleeper_def sample_nk_def)
  then have h: "task_heap (update_delays ?K) 1 = Some (sample_task 1 TASK_READY 0x0707)"
    "task_heap (update_delays ?K) 2 = Some (sample_task 2 TASK_READY 0x1f1f)" "task_heap (update_delays ?K) 3 \<noteq> None"
    by (simp_all add: delay_tick_def sample_sleeper_def sample_nk_def sample_task_def)
  have wf: "wf_tasks (update_delays ?K)" using h by (simp add: wf_tasks_def fr c(1))
  have "selectable (update_delays ?K)"
    using h by (auto simp: selectable_def demoted_def fr c(1) ready_def sample_task_def intro!: exI [of _ 1])
  from krnl_schedule_spec(2) [OF wf this] obtain i k' where "krnl_schedule (update_delays ?K) = Inr (i, k')" by blast
  moreover have "stack_check ?K = Inr ()"
    by (simp add: stack_check_def sample_sleeper_def sample_nk_def sample_task_def upd_task_def mem_read_def
        map_replicate_const)
  moreover have "tasks ?K \<noteq> []" "\<not> preemptive ?K" using c by (simp_all add: upd_task_def sample_sleeper_def sample_nk_def)
  ultimately have "yield_task ?K = Inr k'" by (simp add: yield_task_def)
  then have "\<exists>k1. ucx_task_delay 0 sample_sleeper = Inr k1"
    using c(1) by (simp add: ucx_task_delay_def with_current_task_def) (simp add: sample_sleeper_def)
  then obtain k1 where k1: "ucx_task_delay 0 sample_sleeper = Inr k1" by blast
  with zero_delay_never_ends [OF c k1] show ?thesis by blast
qed

theorem spawn_writes_behind_stack_witness:
  "\<exists>k' t. ucx_task_spawn 8 (Some 9) True (Some 65536) (sample_task 0 TASK_STOPPED 0) 4096 1024 sample_nk = Inr (4, k') \<and>
    task_heap k' 9 = Some t \<and> stack t + stack_sz t = 66560 \<and> mem_read (nk_mem k') 73696 4 = replicate 4 0x33"
proof -
  obtain k' where k': "ucx_task_spawn 8 (Some 9) True (Some 65536) (sample_task 0 TASK_STOPPED 0) 4096 1024 sample_nk = Inr (4, k')"
    by (simp add: ucx_task_spawn_def Let_def sample_nk_def)
  from spawn_writes_behind_stack [OF _ _ _ k'] k' show ?thesis by auto
qed

end
