(* ===== verification/Native_Semaphore.thy ===== *)
theory Native_Semaphore
  imports Native_Queue Native_Tasks
begin

text \<open>
  The counting semaphores of the native kernel, \<open>kernel/semaphore.c\<close>, over the pointer queue
  of the waiting tasks. A task is the address of its control block.

  The theory shows that units are conserved and waiting tasks sleep until they are woken, in
  the order in which they came, and that a semaphore for a power of two of tasks halts the
  system when as many tasks wait, because its queue has one place less.
\<close>

declare length_ring_contents [simp del]

section \<open>Operations\<close>

record sem_s =
  sem_queue :: queue_s
  sem_count :: int

abbreviation "ERR_SEM_OPERATION \<equiv> (-16367 :: int)"

definition ucx_sem_create :: "bool \<Rightarrow> bool \<Rightarrow> (int \<Rightarrow> addr list option) \<Rightarrow> nat \<Rightarrow> int \<Rightarrow> sem_s option" where
  "ucx_sem_create ok ok' alloc max_tasks v =
     (if v < 0 then None
      else if \<not> ok then None
      else case queue_create ok' alloc (int (max_tasks mod 2 ^ 16)) of
        None \<Rightarrow> None | Some q \<Rightarrow> Some \<lparr>sem_queue = q, sem_count = v\<rparr>)"

definition ucx_sem_destroy :: "sem_s \<Rightarrow> int" where
  "ucx_sem_destroy s = (if queue_destroy (sem_queue s) \<noteq> 0 then -1 else 0)"

definition ucx_sem_wait :: "sem_s \<Rightarrow> nk_s \<Rightarrow> fault + sem_s \<times> nk_s" where
  "ucx_sem_wait s k =
     (let s1 = s\<lparr>sem_count := sem_count s - 1\<rparr> in
      if sem_count s1 < 0 then
        with_current_task (\<lambda>c t.
          case queue_enqueue c (sem_queue s1) of
            Inl f \<Rightarrow> Inl f
          | Inr (qs, q) \<Rightarrow>
              if qs \<noteq> 0 then Inl (Panic ERR_SEM_OPERATION)
              else (case yield_task (upd_task c (\<lambda>t. t\<lparr>task_state := TASK_BLOCKED\<rparr>) k) of
                      Inl f \<Rightarrow> Inl f | Inr k' \<Rightarrow> Inr (s1\<lparr>sem_queue := q\<rparr>, k'))) k
      else Inr (s1, k))"

definition ucx_sem_trywait :: "sem_s \<Rightarrow> int \<times> sem_s" where
  "ucx_sem_trywait s = (if sem_count s \<le> 0 then (-1, s) else (0, s\<lparr>sem_count := sem_count s - 1\<rparr>))"

definition ucx_sem_signal :: "sem_s \<Rightarrow> nk_s \<Rightarrow> fault + sem_s \<times> nk_s" where
  "ucx_sem_signal s k =
     (let s1 = s\<lparr>sem_count := sem_count s + 1\<rparr> in
      if sem_count s1 \<le> 0 then
        (case queue_dequeue (sem_queue s1) of
           Inl f \<Rightarrow> Inl f
         | Inr (t, q) \<Rightarrow>
             if t = 0 then Inl (Panic ERR_SEM_OPERATION)
             else if task_heap k t = None then Inl UseAfterFree
             else Inr (s1\<lparr>sem_queue := q\<rparr>, upd_task t (\<lambda>t. t\<lparr>task_state := TASK_READY\<rparr>) k))
      else Inr (s1, k))"

section \<open>Invariant\<close>

abbreviation waiting :: "sem_s \<Rightarrow> addr list" where
  "waiting s \<equiv> queue_contents (sem_queue s)"

text \<open>
  A negative count is the number of waiting tasks, and these sleep: they are blocked without
  a delay, and none of them is the current task.
\<close>

definition native_sem_inv :: "sem_s \<Rightarrow> nk_s \<Rightarrow> bool" where
  "native_sem_inv s k \<longleftrightarrow> queue_inv (sem_queue s) \<and> int (length (waiting s)) = max 0 (- sem_count s) \<and>
     distinct (waiting s) \<and> (\<forall>r \<in> set (waiting s). r \<noteq> 0 \<and> asleep r k)"

lemma native_sem_inv_step: "nk_step k k' \<Longrightarrow> native_sem_inv s k \<Longrightarrow> native_sem_inv s k'"
  using nk_step_asleep by (auto simp: native_sem_inv_def)

lemma sem_signal_cases:
  assumes inv: "native_sem_inv s k"
  shows "waiting s = [] \<Longrightarrow> ucx_sem_signal s k = Inr (s\<lparr>sem_count := sem_count s + 1\<rparr>, k)"
    and "waiting s = r # rs \<Longrightarrow> \<exists>q. ucx_sem_signal s k =
      Inr (s\<lparr>sem_count := sem_count s + 1, sem_queue := q\<rparr>, upd_task r (\<lambda>t. t\<lparr>task_state := TASK_READY\<rparr>) k) \<and>
      queue_inv q \<and> queue_contents q = rs \<and> q_mask q = q_mask (sem_queue s)"
proof -
  have q: "queue_inv (sem_queue s)" and len: "int (length (waiting s)) = max 0 (- sem_count s)"
    using inv unfolding native_sem_inv_def by blast+
  show "ucx_sem_signal s k = Inr (s\<lparr>sem_count := sem_count s + 1\<rparr>, k)" if "waiting s = []"
    using len unfolding that by (simp add: ucx_sem_signal_def max_def split: if_splits)
  assume w: "waiting s = r # rs"
  then have neg: "sem_count s + 1 \<le> 0" using len unfolding w by simp
  have r: "r \<noteq> 0" "task_heap k r \<noteq> None"
    using inv unfolding native_sem_inv_def w by (auto simp: asleep_def stuck_def)
  from queue_dequeue_cases(2) [OF q w] obtain q' where "queue_dequeue (sem_queue s) = Inr (r, q')" "queue_inv q'"
    "queue_contents q' = rs" "q_mask q' = q_mask (sem_queue s)" by blast
  with neg r show "\<exists>q. ucx_sem_signal s k =
      Inr (s\<lparr>sem_count := sem_count s + 1, sem_queue := q\<rparr>, upd_task r (\<lambda>t. t\<lparr>task_state := TASK_READY\<rparr>) k) \<and>
      queue_inv q \<and> queue_contents q = rs \<and> q_mask q = q_mask (sem_queue s)"
    by (auto simp: ucx_sem_signal_def)
qed

lemma sem_signal_inv:
  assumes inv: "native_sem_inv s k" and sig: "ucx_sem_signal s k = Inr (s', k')"
  shows "native_sem_inv s' k' \<and> sem_count s' = sem_count s + 1"
proof (cases "waiting s")
  case Nil
  with sem_signal_cases(1) [OF inv Nil] sig inv have "s' = s\<lparr>sem_count := sem_count s + 1\<rparr>" "k' = k" by auto
  moreover have "0 \<le> sem_count s" using inv unfolding native_sem_inv_def Nil by (simp add: max_def split: if_splits)
  ultimately show ?thesis using inv Nil unfolding native_sem_inv_def by simp
next
  case (Cons r rs)
  from sem_signal_cases(2) [OF inv Cons] sig obtain q where s': "s' = s\<lparr>sem_count := sem_count s + 1, sem_queue := q\<rparr>"
    and k': "k' = upd_task r (\<lambda>t. t\<lparr>task_state := TASK_READY\<rparr>) k" and q: "queue_inv q" "queue_contents q = rs" by auto
  have I: "int (length (r # rs)) = max 0 (- sem_count s)" "distinct (r # rs)" "\<forall>x \<in> set (r # rs). x \<noteq> 0 \<and> asleep x k"
    using inv unfolding native_sem_inv_def Cons by blast+
  have "asleep x k'" if "x \<in> set rs" for x
    unfolding k' by (rule asleep_upd_other) (use I that in auto)
  with I q show ?thesis unfolding native_sem_inv_def s' by auto
qed

lemma sem_wait_cases:
  assumes inv: "native_sem_inv s k" and w: "ucx_sem_wait s k = Inr (s', k')" and np: "\<not> preemptive k"
    and c: "task_current k = Some c" "c \<noteq> 0" "\<forall>t. task_heap k c = Some t \<longrightarrow> delay t = 0"
  shows "native_sem_inv s' k' \<and> sem_count s' = sem_count s - 1 \<and>
    (if 0 < sem_count s then waiting s' = waiting s \<and> k' = k else waiting s' = waiting s @ [c])"
proof (cases "0 < sem_count s")
  case True
  with w have "s' = s\<lparr>sem_count := sem_count s - 1\<rparr>" "k' = k" by (auto simp: ucx_sem_wait_def)
  with True inv show ?thesis by (auto simp: native_sem_inv_def)
next
  case False
  let ?k = "upd_task c (\<lambda>t. t\<lparr>task_state := TASK_BLOCKED\<rparr>) k"
  have q: "queue_inv (sem_queue s)" and len: "int (length (waiting s)) = max 0 (- sem_count s)"
    and dist: "distinct (waiting s)" and sl: "\<forall>r \<in> set (waiting s). r \<noteq> 0 \<and> asleep r k"
    using inv unfolding native_sem_inv_def by blast+
  from w False c(1) obtain t q' where t: "task_heap k c = Some t" and enq: "queue_enqueue c (sem_queue s) = Inr (0, q')"
    and y: "yield_task ?k = Inr k'" and s': "s' = s\<lparr>sem_count := sem_count s - 1, sem_queue := q'\<rparr>"
    by (auto simp: ucx_sem_wait_def with_current_task_def Let_def split: option.splits sum.splits if_splits)
  have q': "queue_inv q'" "queue_contents q' = waiting s @ [c]"
    using queue_enqueue_cases [OF q, of c] enq by (cases "length (waiting s) < unat (q_mask (sem_queue s))"; force)+
  have new: "c \<notin> set (waiting s)" using sl c(1) by (auto simp: asleep_def)
  have "stuck c ?k" using t c(3) by (simp add: stuck_def)
  then have "asleep c k'" by (rule yield_asleep [OF _ _ y]) (simp add: upd_task_def np)
  moreover have "asleep r k'" if "r \<in> set (waiting s)" for r
  proof -
    have "asleep r ?k" using asleep_upd_other [of r k c] sl that new by auto
    then show ?thesis using yield_asleep [OF _ _ y] by (auto simp: asleep_def)
  qed
  ultimately have "\<forall>r \<in> set (queue_contents q'). r \<noteq> 0 \<and> asleep r k'" using sl c(2) unfolding q'(2) by auto
  moreover have "int (length (queue_contents q')) = max 0 (- (sem_count s - 1))" using len False unfolding q'(2) by simp
  moreover have "distinct (queue_contents q')" using dist new unfolding q'(2) by simp
  ultimately show ?thesis using False q' unfolding native_sem_inv_def s' by simp
qed

section \<open>Units\<close>

text \<open>
  \<open>sem_system v s k granted signalled\<close>: a semaphore of initial value \<open>v\<close> in a system without
  preemption. Any task may wait, try or signal, and the kernel steps in between.
  \<open>granted\<close> counts the waits that succeeded at once or after a wake-up, \<open>signalled\<close> the
  signals. A running task has no delay left; its control block is not at address 0.
\<close>

inductive sem_system :: "int \<Rightarrow> sem_s \<Rightarrow> nk_s \<Rightarrow> int \<Rightarrow> int \<Rightarrow> bool" for v where
  created: "queue_inv (sem_queue s) \<Longrightarrow> waiting s = [] \<Longrightarrow> sem_count s = v \<Longrightarrow> 0 \<le> v \<Longrightarrow> sem_system v s k 0 0"
| wait: "sem_system v s k g n \<Longrightarrow> \<not> preemptive k \<Longrightarrow> task_current k = Some c \<Longrightarrow> c \<noteq> 0 \<Longrightarrow>
    \<forall>t. task_heap k c = Some t \<longrightarrow> delay t = 0 \<Longrightarrow> ucx_sem_wait s k = Inr (s', k') \<Longrightarrow>
    sem_system v s' k' (if 0 < sem_count s then g + 1 else g) n"
| trywait: "sem_system v s k g n \<Longrightarrow> ucx_sem_trywait s = (r, s') \<Longrightarrow>
    sem_system v s' k (if r = 0 then g + 1 else g) n"
| signal: "sem_system v s k g n \<Longrightarrow> ucx_sem_signal s k = Inr (s', k') \<Longrightarrow>
    sem_system v s' k' (if waiting s \<noteq> [] then g + 1 else g) (n + 1)"
| kernel: "sem_system v s k g n \<Longrightarrow> nk_step k k' \<Longrightarrow> sem_system v s k' g n"

lemma sem_system_inv:
  "sem_system v s k g n \<Longrightarrow> native_sem_inv s k \<and> sem_count s = v + n - g - int (length (waiting s))"
proof (induction rule: sem_system.induct)
  case (created s k)
  then show ?case unfolding native_sem_inv_def by (simp only: list.size list.set) auto
next
  case (wait s k g n c s' k')
  then have inv: "native_sem_inv s k" and cnt: "sem_count s = v + n - g - int (length (waiting s))" by blast+
  have len: "int (length (waiting s)) = max 0 (- sem_count s)" using inv unfolding native_sem_inv_def by blast
  note w = sem_wait_cases [OF inv wait(6,2,3,4,5)]
  show ?case
  proof (cases "0 < sem_count s")
    case True
    with w have "waiting s' = waiting s" "sem_count s' = sem_count s - 1" "native_sem_inv s' k'" by auto
    with True cnt show ?thesis by simp
  next
    case False
    with w have "waiting s' = waiting s @ [c]" "sem_count s' = sem_count s - 1" "native_sem_inv s' k'" by auto
    with False cnt show ?thesis by simp
  qed
next
  case (trywait s k g n r s')
  then have inv: "native_sem_inv s k" and cnt: "sem_count s = v + n - g - int (length (waiting s))" by blast+
  from trywait(2) consider "s' = s" "r = -1" | "0 < sem_count s" "s' = s\<lparr>sem_count := sem_count s - 1\<rparr>" "r = 0"
    by (auto simp: ucx_sem_trywait_def split: if_splits)
  then show ?case
  proof cases
    case 2
    then have "native_sem_inv s' k" using inv by (auto simp: native_sem_inv_def)
    with 2 cnt show ?thesis by simp
  qed (use inv cnt in simp)
next
  case (signal s k g n s' k')
  then have inv: "native_sem_inv s k" and cnt: "sem_count s = v + n - g - int (length (waiting s))" by blast+
  note sg = sem_signal_inv [OF inv signal(2)]
  show ?case
  proof (cases "waiting s")
    case Nil
    with sem_signal_cases(1) [OF inv Nil] signal(2) have "waiting s' = waiting s" by auto
    with Nil sg cnt show ?thesis by simp
  next
    case (Cons r rs)
    with sem_signal_cases(2) [OF inv Cons] signal(2) have w: "waiting s' = rs" by auto
    from cnt have "sem_count s = v + n - g - int (length (r # rs))" unfolding Cons .
    with Cons sg show ?thesis unfolding w by simp
  qed
next
  case (kernel s k g n k')
  then show ?case using native_sem_inv_step by blast
qed

text \<open>
  Units are conserved, in any system without preemption that does not cancel tasks. The waits
  that succeeded are the initial value and the signals, less what the semaphore holds; no unit
  is held while a task waits; and a waiting task stays blocked, without being scheduled, until
  a signal wakes it.
\<close>

theorem native_semaphore_units:
  assumes "sem_system v s k granted signalled"
  shows "granted + max 0 (sem_count s) = v + signalled \<and> (waiting s \<noteq> [] \<longrightarrow> sem_count s < 0) \<and>
    (\<forall>r \<in> set (waiting s). task_current k \<noteq> Some r \<and>
      (\<exists>t. task_heap k r = Some t \<and> task_state t = TASK_BLOCKED))"
proof -
  have inv: "native_sem_inv s k" and cnt: "sem_count s = v + signalled - granted - int (length (waiting s))"
    using sem_system_inv [OF assms] by blast+
  have len: "int (length (waiting s)) = max 0 (- sem_count s)" and sl: "\<forall>r \<in> set (waiting s). asleep r k"
    using inv unfolding native_sem_inv_def by blast+
  have "granted + max 0 (sem_count s) = v + signalled" using cnt unfolding len by linarith
  moreover have "waiting s \<noteq> [] \<longrightarrow> sem_count s < 0"
  proof
    assume "waiting s \<noteq> []"
    then obtain r rs where w: "waiting s = r # rs" by (cases "waiting s") auto
    show "sem_count s < 0" using len unfolding w by (simp add: max_def split: if_splits)
  qed
  ultimately show ?thesis using sl unfolding asleep_def stuck_def by blast
qed

text \<open>
  A semaphore for \<open>2 ^ j\<close> tasks takes one waiting task less. When \<open>2 ^ j - 1\<close> tasks wait, the
  wait of one more task halts the system.
\<close>

theorem native_semaphore_halts_early:
  assumes create: "ucx_sem_create ok ok' alloc (2 ^ j) v = Some s0" and j: "1 \<le> j" "j < 16"
    and alloc: "\<And>m a. alloc m = Some a \<Longrightarrow> int (length a) = m"
    and inv: "native_sem_inv s k" and same: "q_mask (sem_queue s) = q_mask (sem_queue s0)"
    and full: "length (waiting s) = 2 ^ j - 1" and c: "task_current k = Some c" "task_heap k c \<noteq> None"
  shows "ucx_sem_wait s k = Inl (Panic ERR_SEM_OPERATION)"
proof -
  have sz: "int (2 ^ j mod 2 ^ 16) = 2 ^ j"
  proof -
    have "(2 :: nat) ^ j < 2 ^ 16" using j(2) by (intro power_strict_increasing) simp_all
    then show ?thesis by simp
  qed
  have q0: "q_mask (sem_queue s0) = word_of_int (2 ^ j - 1)"
  proof -
    have p2: "(2 :: int) \<le> 2 ^ j" using j(1) power_increasing [of 1 j "2 :: int"] by simp
    have lt: "(2 :: int) ^ j < 2 ^ 31" using j(2) by (intro power_strict_increasing) simp_all
    have "(2 :: int) ^ j \<le> 2 ^ 30" using j(2) by (intro power_increasing) simp_all
    then have r: "(if ispowerof2 (word_of_int (2 ^ j)) then 2 ^ j else sint (nextpowerof2 (word_of_int (2 ^ j)))) = (2 :: int) ^ j"
      using rounded_size [OF p2 lt] least_pow2_self [of j] by (simp add: nat_power_eq)
    have n2: "(if (2 :: int) ^ j < 2 then 2 else 2 ^ j) = 2 ^ j" using p2 by simp
    have "queue_create ok' alloc (2 ^ j) = (if \<not> ok' then None else case alloc (2 ^ j) of None \<Rightarrow> None
        | Some a \<Rightarrow> Some \<lparr>pdata = a, q_size = 2 ^ j, q_mask = word_of_int (2 ^ j - 1), q_head = 0, q_tail = 0, q_elem = 0\<rparr>)"
      by (simp only: queue_create_def Let_def n2 r)
    with create show ?thesis unfolding ucx_sem_create_def sz by (auto split: if_splits option.splits)
  qed
  have q: "queue_inv (sem_queue s)" and len: "int (length (waiting s)) = max 0 (- sem_count s)"
    using inv unfolding native_sem_inv_def by blast+
  have "unat (word_of_int (2 ^ j - 1) :: u32) = 2 ^ j - 1"
    using masked_step(2) [of "mask j :: u32" j 0] j(2) by (simp add: mask_eq_exp_minus_1)
  then have "\<not> length (waiting s) < unat (q_mask (sem_queue s))" unfolding full same q0 by simp
  from queue_enqueue_cases(2) [OF q this] have enq: "queue_enqueue c (sem_queue s) = Inr (-1, sem_queue s)" .
  have "(2 :: int) \<le> 2 ^ j" using j(1) power_increasing [of 1 j "2 :: int"] by simp
  moreover have "2 ^ j - 1 = max 0 (- sem_count s)" using len unfolding full by simp
  ultimately have "sem_count s < 0" by linarith
  with enq c show ?thesis by (auto simp: ucx_sem_wait_def with_current_task_def)
qed

section \<open>Examples\<close>

definition sample_sem :: sem_s where
  "sample_sem = \<lparr>sem_queue = \<lparr>pdata = [0, 0], q_size = 2, q_mask = 1, q_head = 0, q_tail = 0, q_elem = 0\<rparr>, sem_count = 1\<rparr>"

lemma sample_sem_facts: "queue_inv (sem_queue sample_sem)" "waiting sample_sem = []" "sem_count sample_sem = 1"
proof -
  have "(1 :: u32) = mask 1" by simp
  then show "queue_inv (sem_queue sample_sem)"
    by (auto simp: queue_inv_def masked_ring_def sample_sem_def intro: exI [of _ 1])
  show "waiting sample_sem = []" "sem_count sample_sem = 1" by (simp_all add: sample_sem_def ring_contents_def)
qed

text \<open>One unit is taken, two signals come: the semaphore holds two.\<close>

theorem native_semaphore_units_witness:
  "\<exists>s k. sem_system 1 s k 1 2 \<and> 1 + max 0 (sem_count s) = 1 + 2 \<and> sem_count s = 2"
proof -
  let ?s1 = "sample_sem\<lparr>sem_count := 0\<rparr>" and ?s2 = "sample_sem\<lparr>sem_count := 1\<rparr>" and ?s3 = "sample_sem\<lparr>sem_count := 2\<rparr>"
  have s0: "sem_system 1 sample_sem sample_nk 0 0" using sample_sem_facts by (intro sem_system.created) simp_all
  have s1: "sem_system 1 ?s1 sample_nk 1 0"
    using sem_system.trywait [OF s0, of 0 ?s1] sample_sem_facts by (simp add: ucx_sem_trywait_def)
  have w: "waiting ?s1 = []" "waiting ?s2 = []" using sample_sem_facts by simp_all
  have s2: "sem_system 1 ?s2 sample_nk 1 1"
    using sem_system.signal [OF s1, of ?s2 sample_nk] w by (simp add: ucx_sem_signal_def)
  have s3: "sem_system 1 ?s3 sample_nk 1 2"
    using sem_system.signal [OF s2, of ?s3 sample_nk] w by (simp add: ucx_sem_signal_def)
  with native_semaphore_units [OF s3] show ?thesis by (intro exI [of _ ?s3] exI [of _ sample_nk]) simp
qed

text \<open>One of two tasks waits, and the second one comes.\<close>

definition sample_full_sem :: sem_s where
  "sample_full_sem = \<lparr>sem_queue = \<lparr>pdata = [3, 0], q_size = 2, q_mask = 1, q_head = 0, q_tail = 1, q_elem = 1\<rparr>, sem_count = -1\<rparr>"

definition sample_waiting_nk :: nk_s where
  "sample_waiting_nk = upd_task 3 (\<lambda>t. t\<lparr>task_state := TASK_BLOCKED\<rparr>) sample_nk"

theorem native_semaphore_halts_early_witness:
  "ucx_sem_create True True sample_alloc 2 0 \<noteq> None \<and>
   ucx_sem_wait sample_full_sem sample_waiting_nk = Inl (Panic ERR_SEM_OPERATION)"
proof -
  have p: "ispowerof2 2" and rep: "replicate 2 (0 :: addr) = [0, 0]" by (simp_all add: ispowerof2_def numeral_2_eq_2)
  have create: "ucx_sem_create True True sample_alloc (2 ^ 1) 0 = Some (sample_sem\<lparr>sem_count := 0\<rparr>)"
    by (simp add: ucx_sem_create_def queue_create_def p sample_alloc_def sample_sem_def rep Let_def)
  have one: "(1 :: u32) = mask 1" by simp
  have q: "queue_inv (sem_queue sample_full_sem)"
    using one by (auto simp: queue_inv_def masked_ring_def sample_full_sem_def intro: exI [of _ 1])
  have w: "waiting sample_full_sem = [3]" by (simp add: sample_full_sem_def ring_contents_def)
  have "asleep 3 sample_waiting_nk"
    by (simp add: asleep_def stuck_def sample_waiting_nk_def upd_task_def sample_nk_def sample_task_def)
  with q have inv: "native_sem_inv sample_full_sem sample_waiting_nk"
    unfolding native_sem_inv_def w by (simp add: sample_full_sem_def)
  have "ucx_sem_wait sample_full_sem sample_waiting_nk = Inl (Panic ERR_SEM_OPERATION)"
    by (rule native_semaphore_halts_early [OF create _ _ sample_alloc_length inv, of 1])
      (simp_all add: w, simp_all add: sample_full_sem_def sample_sem_def sample_waiting_nk_def upd_task_def sample_nk_def)
  with create show ?thesis by simp
qed

end
