(* ===== verification/C_Library.thy ===== *)
theory C_Library
  imports Apex_Prelude
begin

unbundle bit_operations_syntax

text \<open>
  The C library of \<open>lib/libc.c\<close>: the memory routines, on a memory of bytes with 32-bit
  addresses that wrap, as the pointers of the 32-bit targets do. A routine that returns its
  first argument returns the memory here. Where \<open>char\<close> is compared or converted, the flag
  \<open>sch\<close> tells whether it is signed.

  The theory shows that \<open>memmove\<close> copies whatever the overlap, when \<open>memcpy\<close> does, and that
  \<open>memcmp\<close> is 0 exactly on equal areas.
\<close>

type_synonym memory = "u32 \<Rightarrow> byte"

section \<open>Memory\<close>

primrec copy_up :: "nat \<Rightarrow> u32 \<Rightarrow> u32 \<Rightarrow> memory \<Rightarrow> memory" where
  "copy_up 0 d s m = m"
| "copy_up (Suc n) d s m = copy_up n (d + 1) (s + 1) (m(d := m s))"

primrec copy_down :: "nat \<Rightarrow> u32 \<Rightarrow> u32 \<Rightarrow> memory \<Rightarrow> memory" where
  "copy_down 0 d s m = m"
| "copy_down (Suc n) d s m = copy_down n (d - 1) (s - 1) (m(d - 1 := m (s - 1)))"

definition ucx_memcpy :: "u32 \<Rightarrow> u32 \<Rightarrow> u32 \<Rightarrow> memory \<Rightarrow> memory" where
  "ucx_memcpy d s n m = copy_up (unat n) d s m"

definition ucx_memmove :: "u32 \<Rightarrow> u32 \<Rightarrow> u32 \<Rightarrow> memory \<Rightarrow> memory" where
  "ucx_memmove d s n m = (if s \<ge> d then copy_up (unat n) d s m else copy_down (unat n) (d + n) (s + n) m)"

text \<open>The value of a \<open>char\<close> as an \<open>int\<close>.\<close>

definition char_val :: "bool \<Rightarrow> byte \<Rightarrow> int" where
  "char_val sch b = (if sch then sint b else uint b)"

primrec memcmp_loop :: "bool \<Rightarrow> nat \<Rightarrow> u32 \<Rightarrow> u32 \<Rightarrow> memory \<Rightarrow> int" where
  "memcmp_loop sch 0 a b m = 0"
| "memcmp_loop sch (Suc n) a b m =
     (if m a = m b then memcmp_loop sch n (a + 1) (b + 1) m
      else if char_val sch (m a) < char_val sch (m b) then -1 else 1)"

definition ucx_memcmp :: "bool \<Rightarrow> u32 \<Rightarrow> u32 \<Rightarrow> u32 \<Rightarrow> memory \<Rightarrow> int" where
  "ucx_memcmp sch a b n m = memcmp_loop sch (unat n) a b m"

primrec fill_up :: "nat \<Rightarrow> u32 \<Rightarrow> byte \<Rightarrow> memory \<Rightarrow> memory" where
  "fill_up 0 a c m = m"
| "fill_up (Suc n) a c m = fill_up n (a + 1) c (m(a := c))"

definition ucx_memset :: "u32 \<Rightarrow> int \<Rightarrow> u32 \<Rightarrow> memory \<Rightarrow> memory" where
  "ucx_memset a c n m = fill_up (unat n) a (word_of_int c) m"

section \<open>What the memory routines do\<close>

text \<open>The place of an address in the area of \<open>n\<close> bytes at \<open>a\<close>.\<close>

abbreviation offset :: "u32 \<Rightarrow> u32 \<Rightarrow> nat" where
  "offset a x \<equiv> unat (x - a)"

lemma unat_pred: "(y :: u32) \<noteq> 0 \<Longrightarrow> unat y = Suc (unat (y - 1))"
  by (simp add: unat_minus_one unat_gt_0)

lemma unat_max: "unat (-1 :: u32) = 2 ^ 32 - 1"
  by (simp add: unsigned_minus_1_eq_mask mask_eq_exp_minus_1)

lemma offset_Suc: "x \<noteq> a \<Longrightarrow> offset a x = Suc (offset (a + 1) x)"
proof -
  assume "x \<noteq> a"
  then have "unat (x - a) = Suc (unat (x - a - 1))" by (intro unat_pred) simp
  moreover have "x - a - 1 = x - (a + 1)" by simp
  ultimately show ?thesis by (simp only:)
qed

lemma offset_last: "offset (a + 1) a = 2 ^ 32 - 1"
  using unat_max by simp

lemma offset_less_Suc: "n < 2 ^ 32 \<Longrightarrow> offset a x < Suc n \<longleftrightarrow> x = a \<or> offset (a + 1) x < n"
  using offset_Suc [of x a] offset_last [of a] by (cases "x = a") auto

lemma fill_up_spec: "n \<le> 2 ^ 32 \<Longrightarrow> fill_up n a c m x = (if offset a x < n then c else m x)"
  proof (induction n arbitrary: a m)
  case (Suc n)
  define m' where "m' = m(a := c)"
  have "fill_up n (a + 1) c m' x = (if offset (a + 1) x < n then c else m' x)" using Suc by simp
  moreover have "m' x = (if x = a then c else m x)" by (simp add: m'_def)
  ultimately show ?case
    using Suc.prems offset_less_Suc [of n x a] unfolding fill_up.simps m'_def [symmetric] by auto
qed simp

lemma copy_up_spec:
  assumes "n < 2 ^ 32" and "s = d \<or> n \<le> offset s d"
  shows "copy_up n d s m x = (if offset d x < n then m (s + (x - d)) else m x)"
  using assms
proof (induction n arbitrary: d s m)
  case (Suc n)
  define m' where "m' = m(d := m s)"
  have ne: "s + (x - d) \<noteq> d" if "offset (d + 1) x < n" "x \<noteq> d"
  proof
    assume "s + (x - d) = d"
    then have eq: "x - d = d - s" by (simp add: algebra_simps)
    have "offset d x < Suc n" using that offset_less_Suc Suc.prems(1) by simp
    then have "offset s d < Suc n" unfolding eq .
    with Suc.prems(2) eq that(2) show False by auto
  qed
  have eq: "s + 1 + (x - (d + 1)) = s + (x - d)" by simp
  have "copy_up n (d + 1) (s + 1) m' x = (if offset (d + 1) x < n then m' (s + (x - d)) else m' x)"
    using Suc.IH [of "s + 1" "d + 1" m'] Suc.prems unfolding eq by auto
  moreover have "m' y = (if y = d then m s else m y)" for y by (simp add: m'_def)
  moreover have "\<not> offset (d + 1) d < n" using offset_last [of d] Suc.prems(1) by linarith
  ultimately show ?case
    using ne offset_less_Suc [of n x d] Suc.prems(1) unfolding copy_up.simps m'_def [symmetric] by (cases "x = d") auto
qed simp

lemma copy_down_spec:
  assumes "n < 2 ^ 32" and "s = d \<or> n \<le> offset d s"
  shows "copy_down n d s m x = (if 0 < offset x d \<and> offset x d \<le> n then m (s - (d - x)) else m x)"
  using assms
proof (induction n arbitrary: d s m)
  case (Suc n)
  define m' where "m' = m(d - 1 := m (s - 1))"
  have o: "offset x d = Suc (offset x (d - 1))" if "x \<noteq> d"
  proof -
    have "d - 1 - x = d - x - 1" by simp
    then show ?thesis using unat_pred [of "d - x"] that by (metis right_minus_eq)
  qed
  have ne: "s - (d - x) \<noteq> d - 1" if "0 < offset x (d - 1)" "offset x (d - 1) \<le> n" "x \<noteq> d"
  proof
    assume "s - (d - x) = d - 1"
    then have eq: "s - d = d - 1 - x" by (simp add: algebra_simps)
    then have "offset d s \<le> n" "s \<noteq> d" using that(1,2) unfolding eq [symmetric] by auto
    with Suc.prems(2) show False by simp
  qed
  have eq: "s - 1 - (d - 1 - x) = s - (d - x)" by simp
  have z: "offset x (d - 1) = 0 \<longleftrightarrow> x = d - 1" by (auto simp: unat_eq_zero)
  have l: "offset d (d - 1) = 2 ^ 32 - 1" using unat_max by simp
  have "copy_down n (d - 1) (s - 1) m' x =
      (if 0 < offset x (d - 1) \<and> offset x (d - 1) \<le> n then m' (s - (d - x)) else m' x)"
    using Suc.IH [of "s - 1" "d - 1" m'] Suc.prems unfolding eq by auto
  with Suc.prems(1) o ne z l show ?case
    unfolding copy_down.simps m'_def [symmetric] by (cases "x = d") (auto simp: m'_def)
qed auto


lemma unat_diff: "unat (a - b :: u32) = (if b \<le> a then unat a - unat b else 2 ^ 32 - (unat b - unat a))"
proof (cases "b \<le> a")
  case False
  then have "unat a < unat b" "unat b < 2 ^ 32" using unsigned_less [of b, where ?'a = nat] by (simp_all add: word_le_nat_alt)
  with False show ?thesis by (simp add: unat_sub_if_size word_size word_le_nat_alt)
qed (simp add: unat_sub_if_size word_size word_le_nat_alt)

lemma below_end: "0 < unat (n - y :: u32) \<and> unat (n - y) \<le> unat n \<longleftrightarrow> unat y < unat n"
  using unsigned_less [of y, where ?'a = nat] unsigned_less [of n, where ?'a = nat] unat_diff [of n y]
  by (auto simp: word_le_nat_alt split: if_splits)

text \<open>
  \<open>ucx_memmove\<close> copies an area onto another, however they overlap: afterwards each byte of the
  destination is what its counterpart in the source was before, and every other byte is as
  it was. The areas may not wrap around the end of the memory.
\<close>

theorem memmove_copies:
  assumes "unat d + unat n \<le> 2 ^ 32" and "unat s + unat n \<le> 2 ^ 32"
  shows "ucx_memmove d s n m x = (if offset d x < unat n then m (s + (x - d)) else m x)"
proof -
  have n: "unat n < 2 ^ 32" using unsigned_less [of n, where ?'a = nat] by simp
  show ?thesis
  proof (cases "s \<ge> d")
    case True
    then have "s = d \<or> unat n \<le> offset s d" using assms(2) by (auto simp: unat_diff word_le_nat_alt word_unat_eq_iff)
    with True n show ?thesis by (simp add: ucx_memmove_def copy_up_spec)
  next
    case False
    have eq: "s + n - (d + n) = s - d" "s + n - (d + n - x) = s + (x - d)" by simp_all
    have "unat n \<le> offset (d + n) (s + n)" using False assms(1) unfolding eq by (auto simp: unat_diff word_le_nat_alt)
    with n have c: "copy_down (unat n) (d + n) (s + n) m x =
        (if 0 < offset x (d + n) \<and> offset x (d + n) \<le> unat n then m (s + (x - d)) else m x)"
      using copy_down_spec [of "unat n" "s + n" "d + n" m x] unfolding eq by simp
    have r: "d + n - x = n - (x - d)" by simp
    have "0 < unat (n - (x - d)) \<and> unat (n - (x - d)) \<le> unat n \<longleftrightarrow> unat (x - d) < unat n"
      by (rule below_end)
    with False c show ?thesis unfolding r by (simp add: ucx_memmove_def)
  qed
qed


text \<open>
  \<open>ucx_memcpy\<close> does the same where the source does not start below the destination and reach
  into it.
\<close>

lemma memcpy_copies:
  assumes "s = d \<or> unat n \<le> offset s d"
  shows "ucx_memcpy d s n m x = (if offset d x < unat n then m (s + (x - d)) else m x)"
  using assms copy_up_spec [of "unat n" s d m x] unsigned_less [of n, where ?'a = nat] by (simp add: ucx_memcpy_def)

lemma memset_fills: "ucx_memset a c n m x = (if offset a x < unat n then word_of_int c else m x)"
  using fill_up_spec [of "unat n" a "word_of_int c" m x] unsigned_less [of n, where ?'a = nat]
  by (simp add: ucx_memset_def less_imp_le)

text \<open>
  \<open>ucx_memcmp\<close> is 0 exactly when the areas are equal; otherwise it is the order, as \<open>char\<close>, of
  the first bytes that differ.
\<close>

theorem memcmp_compares:
  "(ucx_memcmp sch a b n m = 0 \<longleftrightarrow> (\<forall>i < unat n. m (a + of_nat i) = m (b + of_nat i))) \<and>
   (\<forall>i < unat n. (\<forall>j < i. m (a + of_nat j) = m (b + of_nat j)) \<and> m (a + of_nat i) \<noteq> m (b + of_nat i) \<longrightarrow>
      ucx_memcmp sch a b n m =
        (if char_val sch (m (a + of_nat i)) < char_val sch (m (b + of_nat i)) then -1 else 1))"
proof -
  have "(memcmp_loop sch k a b m = 0 \<longleftrightarrow> (\<forall>i < k. m (a + of_nat i) = m (b + of_nat i))) \<and>
    (\<forall>i < k. (\<forall>j < i. m (a + of_nat j) = m (b + of_nat j)) \<and> m (a + of_nat i) \<noteq> m (b + of_nat i) \<longrightarrow>
      memcmp_loop sch k a b m =
        (if char_val sch (m (a + of_nat i)) < char_val sch (m (b + of_nat i)) then -1 else 1))" for k
  proof (induction k arbitrary: a b)
    case (Suc k)
    from Suc [of "a + 1" "b + 1"] show ?case
      by (auto simp: All_less_Suc2 add.assoc algebra_simps split: if_splits)
  qed simp
  then show ?thesis by (simp add: ucx_memcmp_def)
qed


section \<open>Examples\<close>

definition sample_bytes :: memory where
  "sample_bytes a = ucast a"

theorem memmove_copies_witness: "ucx_memmove 20 16 8 sample_bytes 27 = 23 \<and> ucx_memmove 20 16 8 sample_bytes 28 = 28"
  using memmove_copies [of 20 8 16 sample_bytes 27] memmove_copies [of 20 8 16 sample_bytes 28]
  by (simp add: sample_bytes_def)

theorem memcmp_compares_witness:
  "ucx_memcmp True 100 101 4 sample_bytes = -1 \<and> ucx_memcmp True 100 356 2 sample_bytes = 0"
proof -
  have "sample_bytes (100 + of_nat i) = sample_bytes (356 + of_nat i)" if "i < 2" for i
    using that by (auto simp: less_2_cases_iff sample_bytes_def)
  then have "\<forall>i < unat (2 :: u32). sample_bytes (100 + of_nat i) = sample_bytes (356 + of_nat i)" by simp
  moreover have "sample_bytes (100 + of_nat 0) \<noteq> sample_bytes (101 + of_nat 0)"
    "char_val True (sample_bytes (100 + of_nat 0)) < char_val True (sample_bytes (101 + of_nat 0))"
    by (simp_all add: sample_bytes_def char_val_def)
  ultimately show ?thesis
    using memcmp_compares [where sch = True and a = 100 and b = 356 and n = 2 and m = sample_bytes, THEN conjunct1]
      memcmp_compares [where sch = True and a = 100 and b = 101 and n = 4 and m = sample_bytes, THEN conjunct2,
        rule_format, of 0]
    by simp
qed

end
