(* ===== verification/Native_Pipe.thy ===== *)
theory Native_Pipe
  imports Native_Queue C_Library
begin

text \<open>
  The byte pipes of the native kernel, \<open>kernel/pipe.c\<close>. The ring is that of \<open>Native_Queue\<close>.
  Whether \<open>char\<close> is signed depends on the target: it is on AVR, MIPS and x86, it is not on
  ARM and RISC-V; the flag \<open>sch\<close> says so. A critical section is one step. In the blocking
  routines \<open>ucx_task_yield\<close> lets other tasks use the pipe: what they make of it is an
  argument, one function per yield.

  The theory shows that a pipe is a bounded first-in first-out queue of bytes where \<open>char\<close>
  is unsigned, that a signed \<open>char\<close> loses the byte 0xff, and that a pipe of more than 32768
  bytes has no place.
\<close>

section \<open>Operations\<close>

record pipe_s =
  p_data :: "byte list"
  p_mask :: u32
  p_head :: u32
  p_tail :: u32
  p_size :: int

text \<open>
  The size is a \<open>uint16_t\<close>, so the result of \<open>nextpowerof2\<close> is truncated; \<open>alloc n\<close> is the block
  \<open>malloc\<close> returns for \<open>n\<close> bytes. The mask is computed as an \<open>int\<close>.
\<close>

definition ucx_pipe_create :: "bool \<Rightarrow> (nat \<Rightarrow> byte list option) \<Rightarrow> nat \<Rightarrow> pipe_s option" where
  "ucx_pipe_create ok alloc n =
     (let size = n mod 2 ^ 16;
          size = (if size < 2 then 2 else size);
          size = (if ispowerof2 (of_nat size) then size else unat (nextpowerof2 (of_nat size)) mod 2 ^ 16)
      in if \<not> ok then None
         else case alloc size of
           None \<Rightarrow> None
         | Some d \<Rightarrow> Some \<lparr>p_data = d, p_mask = word_of_int (int size - 1), p_head = 0, p_tail = 0, p_size = 0\<rparr>)"

text \<open>\<open>None\<close> is a pipe whose data is null.\<close>

definition ucx_pipe_destroy :: "pipe_s option \<Rightarrow> int" where
  "ucx_pipe_destroy p = (if p = None then -1 else 0)"

definition ucx_pipe_flush :: "pipe_s \<Rightarrow> pipe_s" where
  "ucx_pipe_flush p = p\<lparr>p_head := 0, p_tail := 0, p_size := 0\<rparr>"

definition ucx_pipe_size :: "pipe_s \<Rightarrow> int" where
  "ucx_pipe_size p = p_size p"

text \<open>The statements of \<open>ucx_pipe_get\<close> after the test for an empty pipe.\<close>

definition pipe_take :: "pipe_s \<Rightarrow> fault + byte \<times> pipe_s" where
  "pipe_take p =
     (if \<not> unat (p_head p) < length (p_data p) then Inl OutOfBounds
      else Inr (p_data p ! unat (p_head p), p\<lparr>p_head := (p_head p + 1) AND p_mask p, p_size := p_size p - 1\<rparr>))"

definition ucx_pipe_get :: "bool \<Rightarrow> pipe_s \<Rightarrow> fault + int \<times> pipe_s" where
  "ucx_pipe_get sch p =
     (if p_head p = p_tail p then Inr (-1, p)
      else case pipe_take p of Inl f \<Rightarrow> Inl f | Inr (b, p') \<Rightarrow> Inr (char_val sch b, p'))"

definition ucx_pipe_put :: "byte \<Rightarrow> pipe_s \<Rightarrow> fault + int \<times> pipe_s" where
  "ucx_pipe_put b p =
     (let t = (p_tail p + 1) AND p_mask p in
      if t = p_head p then Inr (-1, p)
      else if \<not> unat (p_tail p) < length (p_data p) then Inl OutOfBounds
      else Inr (0, p\<lparr>p_data := (p_data p)[unat (p_tail p) := b], p_tail := t, p_size := p_size p + 1\<rparr>))"

text \<open>
  The loops: the bytes stored in the buffer of the caller, whose number is the return value,
  and the pipe.
\<close>

fun ucx_pipe_nbread :: "bool \<Rightarrow> nat \<Rightarrow> pipe_s \<Rightarrow> fault + byte list \<times> pipe_s" where
  "ucx_pipe_nbread sch 0 p = Inr ([], p)"
| "ucx_pipe_nbread sch (Suc n) p =
     (case ucx_pipe_get sch p of Inl f \<Rightarrow> Inl f
      | Inr (v, p1) \<Rightarrow>
          if v = -1 then Inr ([], p1)
          else (case ucx_pipe_nbread sch n p1 of Inl f \<Rightarrow> Inl f
                | Inr (out, p2) \<Rightarrow> Inr (word_of_int v # out, p2)))"

fun ucx_pipe_nbwrite :: "byte list \<Rightarrow> pipe_s \<Rightarrow> fault + nat \<times> pipe_s" where
  "ucx_pipe_nbwrite [] p = Inr (0, p)"
| "ucx_pipe_nbwrite (b # bs) p =
     (case ucx_pipe_put b p of Inl f \<Rightarrow> Inl f
      | Inr (r, p1) \<Rightarrow>
          if r = -1 then Inr (0, p1)
          else (case ucx_pipe_nbwrite bs p1 of Inl f \<Rightarrow> Inl f | Inr (n, p2) \<Rightarrow> Inr (n + 1, p2)))"

text \<open>
  The blocking routines; \<open>None\<close> says that the caller is still waiting after the yields of
  the list.
\<close>

function ucx_pipe_read :: "bool \<Rightarrow> (pipe_s \<Rightarrow> pipe_s) list \<Rightarrow> nat \<Rightarrow> pipe_s \<Rightarrow> fault + (byte list \<times> pipe_s) option" where
  "ucx_pipe_read sch ys 0 p = Inr (Some ([], p))"
| "ucx_pipe_read sch ys (Suc n) p =
     (case ucx_pipe_get sch p of Inl f \<Rightarrow> Inl f
      | Inr (v, p1) \<Rightarrow>
          if v = -1 then (case ys of [] \<Rightarrow> Inr None | y # ys' \<Rightarrow> ucx_pipe_read sch ys' (Suc n) (y p1))
          else (case ucx_pipe_read sch ys n p1 of Inl f \<Rightarrow> Inl f | Inr None \<Rightarrow> Inr None
                | Inr (Some (out, p2)) \<Rightarrow> Inr (Some (word_of_int v # out, p2))))"
  by pat_completeness auto
termination by (relation "measure (\<lambda>(sch, ys, n, p). length ys + n)") auto

function ucx_pipe_write :: "(pipe_s \<Rightarrow> pipe_s) list \<Rightarrow> byte list \<Rightarrow> pipe_s \<Rightarrow> fault + (nat \<times> pipe_s) option" where
  "ucx_pipe_write ys [] p = Inr (Some (0, p))"
| "ucx_pipe_write ys (b # bs) p =
     (case ucx_pipe_put b p of Inl f \<Rightarrow> Inl f
      | Inr (r, p1) \<Rightarrow>
          if r = -1 then (case ys of [] \<Rightarrow> Inr None | y # ys' \<Rightarrow> ucx_pipe_write ys' (b # bs) (y p1))
          else (case ucx_pipe_write ys bs p1 of Inl f \<Rightarrow> Inl f | Inr None \<Rightarrow> Inr None
                | Inr (Some (n, p2)) \<Rightarrow> Inr (Some (n + 1, p2))))"
  by pat_completeness auto
termination by (relation "measure (\<lambda>(ys, bs, p). length ys + length bs)") auto

section \<open>Pipes are bounded byte queues\<close>

definition pipe_inv :: "pipe_s \<Rightarrow> bool" where
  "pipe_inv p \<longleftrightarrow> masked_ring (p_mask p) (p_head p) (p_tail p) (p_size p) (length (p_data p))"

definition pipe_add :: "byte \<Rightarrow> pipe_s \<Rightarrow> fault + pipe_s" where
  "pipe_add b p = (case ucx_pipe_put b p of Inl f \<Rightarrow> Inl f | Inr (_, p') \<Rightarrow> Inr p')"

interpretation pipe_ring: limited_ring "\<lambda>p. length (p_data p)" "\<lambda>p. unat (p_mask p)" "\<lambda>p. unat (p_head p)"
  "\<lambda>p. unat (p_tail p)" "\<lambda>p. nat (p_size p)" "\<lambda>p j. p_data p ! j" pipe_inv "\<lambda>p b. True" pipe_add pipe_take
proof unfold_locales
  fix p b
  assume inv: "pipe_inv p"
  then have m: "masked_ring (p_mask p) (p_head p) (p_tail p) (p_size p) (length (p_data p))" by (simp add: pipe_inv_def)
  note f = masked_ring_facts [OF m]
  show "ring_indices (length (p_data p)) (unat (p_head p)) (unat (p_tail p)) (nat (p_size p))"
    using f by (simp add: ring_indices_def)
  show "unat (p_mask p) \<le> length (p_data p)" using f by simp
  show "\<exists>y. pipe_add b p = Inr y \<and> pipe_inv y \<and> length (p_data y) = length (p_data p) \<and> unat (p_head y) = unat (p_head p) \<and>
      nat (p_size y) = nat (p_size p) + 1 \<and> (\<lambda>b. True) = (\<lambda>b. True) \<and>
      (\<forall>j < length (p_data p). p_data y ! j = (if j = unat (p_tail p) then b else p_data p ! j)) \<and>
      unat (p_mask y) = unat (p_mask p)" if "nat (p_size p) < unat (p_mask p)"
    using that f masked_ring_put [OF m that] inv
    by (auto simp: pipe_add_def ucx_pipe_put_def Let_def pipe_inv_def nat_add_distrib)
  show "\<exists>y. pipe_take p = Inr (p_data p ! unat (p_head p), y) \<and> pipe_inv y \<and> length (p_data y) = length (p_data p) \<and>
      unat (p_head y) = (unat (p_head p) + 1) mod length (p_data p) \<and> nat (p_size y) = nat (p_size p) - 1 \<and>
      (\<lambda>b. True) = (\<lambda>b. True) \<and> (\<forall>j < length (p_data p). p_data y ! j = p_data p ! j) \<and> unat (p_mask y) = unat (p_mask p)"
    if "0 < nat (p_size p)"
    using that f masked_ring_get [OF m] inv by (auto simp: pipe_take_def pipe_inv_def nat_diff_distrib)
qed

abbreviation pipe_contents :: "pipe_s \<Rightarrow> byte list" where
  "pipe_contents \<equiv> pipe_ring.contents"

lemma pipe_put_cases:
  assumes "pipe_inv p"
  shows "length (pipe_contents p) < unat (p_mask p) \<Longrightarrow> \<exists>p'. ucx_pipe_put b p = Inr (0, p') \<and> pipe_inv p' \<and>
      pipe_contents p' = pipe_contents p @ [b] \<and> p_mask p' = p_mask p"
    and "\<not> length (pipe_contents p) < unat (p_mask p) \<Longrightarrow> ucx_pipe_put b p = Inr (-1, p)"
proof -
  have m: "masked_ring (p_mask p) (p_head p) (p_tail p) (p_size p) (length (p_data p))"
    using assms by (simp add: pipe_inv_def)
  note f = masked_ring_facts [OF m]
  show "ucx_pipe_put b p = Inr (-1, p)" if "\<not> length (pipe_contents p) < unat (p_mask p)"
    using that f(4,5,8) by (simp add: ucx_pipe_put_def Let_def)
  assume room: "length (pipe_contents p) < unat (p_mask p)"
  then obtain p' where p': "pipe_add b p = Inr p'" "pipe_inv p'" "pipe_contents p' = pipe_contents p @ [b]"
    "unat (p_mask p') = unat (p_mask p)"
    using pipe_ring.put_appends [OF assms, of b] by auto
  moreover have "ucx_pipe_put b p = Inr (0, p')"
    using p'(1) room f(2,8) by (auto simp: pipe_add_def ucx_pipe_put_def Let_def)
  ultimately show "\<exists>p'. ucx_pipe_put b p = Inr (0, p') \<and> pipe_inv p' \<and>
      pipe_contents p' = pipe_contents p @ [b] \<and> p_mask p' = p_mask p" by (auto simp: word_unat_eq_iff)
qed

lemma pipe_get_cases:
  assumes "pipe_inv p"
  shows "pipe_contents p = [] \<Longrightarrow> ucx_pipe_get sch p = Inr (-1, p)"
    and "pipe_contents p = x # xs \<Longrightarrow> \<exists>p'. ucx_pipe_get sch p = Inr (char_val sch x, p') \<and> pipe_inv p' \<and>
      pipe_contents p' = xs \<and> p_mask p' = p_mask p"
proof -
  have m: "masked_ring (p_mask p) (p_head p) (p_tail p) (p_size p) (length (p_data p))"
    using assms by (simp add: pipe_inv_def)
  note f = masked_ring_facts [OF m]
  have len: "length (pipe_contents p) = nat (p_size p)" by simp
  show "ucx_pipe_get sch p = Inr (-1, p)" if "pipe_contents p = []"
  proof -
    have "nat (p_size p) = 0" using len unfolding that by simp
    then show ?thesis using f(9,10) by (simp add: ucx_pipe_get_def)
  qed
  assume c: "pipe_contents p = x # xs"
  have pos: "0 < nat (p_size p)" using len unfolding c by simp
  from pipe_ring.get_takes [OF assms pos] c obtain p' where p': "pipe_take p = Inr (x, p')" "pipe_inv p'"
    "pipe_contents p' = xs" "unat (p_mask p') = unat (p_mask p)" by auto
  moreover have "ucx_pipe_get sch p = Inr (char_val sch x, p')" using p'(1) pos f(9) by (simp add: ucx_pipe_get_def)
  ultimately show "\<exists>p'. ucx_pipe_get sch p = Inr (char_val sch x, p') \<and> pipe_inv p' \<and> pipe_contents p' = xs \<and>
      p_mask p' = p_mask p" by (auto simp: word_unat_eq_iff)
qed


text \<open>The value of a character gives the byte back, and is -1 for a signed 0xff only.\<close>

lemma word_of_char_val [simp]: "word_of_int (char_val sch x) = x"
  by (simp add: char_val_def)

lemma char_val_minus_one: "char_val sch x = -1 \<longleftrightarrow> sch \<and> x = 255"
proof -
  have "(255 :: byte) = -1" by simp
  then have "sint x = -1 \<longleftrightarrow> x = 255" using signed_word_eqI [of x "-1"] by (metis sint_n1)
  moreover have "uint x \<noteq> -1" using uint_ge_0 [of x] by linarith
  ultimately show ?thesis by (simp add: char_val_def)
qed

section \<open>Whole transfers\<close>

lemma nbwrite_appends:
  assumes "pipe_inv p"
  shows "\<exists>p'. ucx_pipe_nbwrite bs p = Inr (min (length bs) (unat (p_mask p) - length (pipe_contents p)), p') \<and>
    pipe_inv p' \<and> pipe_contents p' = pipe_contents p @ take (unat (p_mask p) - length (pipe_contents p)) bs \<and>
    p_mask p' = p_mask p"
  using assms
proof (induction bs arbitrary: p)
  case (Cons b bs)
  note inv = Cons.prems
  show ?case
  proof (cases "length (pipe_contents p) < unat (p_mask p)")
    case True
    from pipe_put_cases(1) [OF inv True] obtain p1 where p1: "ucx_pipe_put b p = Inr (0, p1)" "pipe_inv p1"
      "pipe_contents p1 = pipe_contents p @ [b]" "p_mask p1 = p_mask p" by blast
    obtain r where r: "unat (p_mask p) - length (pipe_contents p) = Suc r"
      "unat (p_mask p1) - length (pipe_contents p1) = r"
      using True p1(3,4) by (cases "unat (p_mask p) - length (pipe_contents p)") (auto simp del: length_ring_contents)
    from Cons.IH [OF p1(2)] p1 show ?thesis unfolding r by auto
  next
    case False
    then have "unat (p_mask p) - length (pipe_contents p) = 0" by simp
    with pipe_put_cases(2) [OF inv False] inv show ?thesis by auto
  qed
qed simp

lemma nbread_takes:
  assumes "pipe_inv p"
  shows "\<exists>p'. ucx_pipe_nbread False n p = Inr (take n (pipe_contents p), p') \<and> pipe_inv p' \<and>
    pipe_contents p' = drop n (pipe_contents p) \<and> p_mask p' = p_mask p"
  using assms
proof (induction n arbitrary: p)
  case (Suc n)
  show ?case
  proof (cases "pipe_contents p")
    case Nil
    with pipe_get_cases(1) [OF Suc.prems] Suc.prems show ?thesis by auto
  next
    case (Cons x xs)
    from pipe_get_cases(2) [OF Suc.prems Cons, of False] obtain p1 where p1: "ucx_pipe_get False p = Inr (uint x, p1)"
      "pipe_inv p1" "pipe_contents p1 = xs" "p_mask p1 = p_mask p" by (auto simp: char_val_def)
    have "uint x \<noteq> -1" using uint_ge_0 [of x] by linarith
    with Suc.IH [OF p1(2)] p1 Cons show ?thesis by auto
  qed
qed simp

lemma pipe_size_length: "pipe_inv p \<Longrightarrow> p_size p = int (length (pipe_contents p))"
  by (simp add: pipe_inv_def masked_ring_def)

text \<open>A yield in which another task writes the bytes \<open>bs\<close> to the pipe.\<close>

definition pipe_writer :: "byte list \<Rightarrow> pipe_s \<Rightarrow> pipe_s" where
  "pipe_writer bs p = (case ucx_pipe_nbwrite bs p of Inl _ \<Rightarrow> p | Inr (_, p') \<Rightarrow> p')"

lemma pipe_writer_appends:
  assumes "pipe_inv p"
  shows "pipe_inv (pipe_writer bs p)" "p_mask (pipe_writer bs p) = p_mask p"
    "pipe_contents (pipe_writer bs p) = pipe_contents p @ take (unat (p_mask p) - length (pipe_contents p)) bs"
  using nbwrite_appends [OF assms, of bs] by (auto simp: pipe_writer_def simp del: length_ring_contents)


text \<open>
  Byte pipes are bounded first-in first-out queues where \<open>char\<close> is unsigned. A non-blocking
  write appends as many bytes as there is room for and returns their number, a non-blocking
  read takes the oldest bytes in order, as many as there are; so what is read after a write
  is what was in the pipe followed by what was written. No access leaves the buffer, and
  \<open>ucx_pipe_size\<close> is the number of bytes.
\<close>

theorem pipe_roundtrip:
  assumes "pipe_inv p"
  shows "\<exists>p1 p2. let room = unat (p_mask p) - length (pipe_contents p) in
    ucx_pipe_nbwrite bs p = Inr (min (length bs) room, p1) \<and>
    ucx_pipe_nbread False n p1 = Inr (take n (pipe_contents p @ take room bs), p2) \<and>
    pipe_contents p2 = drop n (pipe_contents p @ take room bs) \<and> pipe_inv p2 \<and>
    ucx_pipe_size p1 = ucx_pipe_size p + int (min (length bs) room)"
proof -
  let ?room = "unat (p_mask p) - length (pipe_contents p)"
  obtain p1 where p1: "ucx_pipe_nbwrite bs p = Inr (min (length bs) ?room, p1)" "pipe_inv p1"
    "pipe_contents p1 = pipe_contents p @ take ?room bs" using nbwrite_appends [OF assms, of bs] by blast
  obtain p2 where p2: "ucx_pipe_nbread False n p1 = Inr (take n (pipe_contents p1), p2)" "pipe_inv p2"
    "pipe_contents p2 = drop n (pipe_contents p1)" using nbread_takes [OF p1(2), of n] by blast
  have "p_size p1 = p_size p + int (min (length bs) ?room)"
    using arg_cong [OF p1(3), of length] pipe_size_length [OF p1(2)] pipe_size_length [OF assms]
    by (simp del: length_ring_contents)
  with p1 p2 show ?thesis by (auto simp: Let_def ucx_pipe_size_def)
qed

text \<open>
  C32. A blocking read returns exactly the stream, when \<open>char\<close> is unsigned or the stream has no
  byte 0xff (what a signed \<open>char\<close> does with that byte is \<open>signed_pipe_loses_0xff\<close>). The tasks
  that run in its yields write the blocks \<open>bss\<close>; the pipe is empty then, so it takes the
  first \<open>mask\<close> bytes of each. When the bytes in the pipe and those that arrive are enough, the
  read returns the first \<open>n\<close> of them in order; when they are not, it is still waiting.
\<close>

theorem blocking_read_gets_stream:
  assumes "pipe_inv p"
    and "sch \<longrightarrow> 255 \<notin> set (pipe_contents p @ concat (map (take (unat (p_mask p))) bss))"
  shows "let stream = pipe_contents p @ concat (map (take (unat (p_mask p))) bss) in
    if n \<le> length stream
    then \<exists>p'. ucx_pipe_read sch (map pipe_writer bss) n p = Inr (Some (take n stream, p')) \<and> pipe_inv p'
    else ucx_pipe_read sch (map pipe_writer bss) n p = Inr None"
  using assms
proof (induction "length bss + n" arbitrary: bss n p)
  case (Suc k)
  note inv = Suc.prems(1) and chars = Suc.prems(2)
  show ?case
  proof (cases n)
    case 0
    with inv show ?thesis by auto
  next
    case n: (Suc m)
    show ?thesis
    proof (cases "pipe_contents p")
      case (Cons x xs)
      from pipe_get_cases(2) [OF inv Cons, of sch] obtain p1 where p1: "ucx_pipe_get sch p = Inr (char_val sch x, p1)"
        "pipe_inv p1" "pipe_contents p1 = xs" "p_mask p1 = p_mask p" by auto
      have "char_val sch x \<noteq> -1" using chars Cons by (auto simp: char_val_minus_one)
      moreover have "k = length bss + m" using Suc.hyps(2) n by simp
      moreover have "sch \<longrightarrow> 255 \<notin> set (pipe_contents p1 @ concat (map (take (unat (p_mask p1))) bss))"
        using chars Cons p1(3,4) by simp
      ultimately show ?thesis
        using Suc.hyps(1) [OF _ p1(2), of bss m] p1(1,3,4) Cons n by (auto simp: Let_def split: if_splits)
    next
      case Nil
      note get = pipe_get_cases(1) [OF inv Nil, of sch]
      show ?thesis
      proof (cases bss)
        case (Cons b bs)
        note w = pipe_writer_appends [OF inv, of b]
        have "k = length bs + n" using Suc.hyps(2) Cons by simp
        moreover have "sch \<longrightarrow> 255 \<notin> set (pipe_contents (pipe_writer b p) @
            concat (map (take (unat (p_mask (pipe_writer b p)))) bs))"
          using chars Cons Nil w(2,3) by simp
        ultimately show ?thesis
          using Suc.hyps(1) [OF _ w(1), of bs n] w(2,3) get Nil Cons unfolding n by (auto simp: Let_def split: if_splits)
      qed (use get Nil n in simp)
    qed
  qed
qed simp


text \<open>
  A signed \<open>char\<close> loses the byte 0xff. Its value is the one that says that the pipe is empty:
  a non-blocking read takes it off the pipe, stores nothing and returns 0 although bytes are
  left.
\<close>

theorem signed_pipe_loses_0xff:
  assumes "pipe_inv p" and "pipe_contents p = 255 # xs"
  shows "\<exists>p'. ucx_pipe_nbread True (Suc n) p = Inr ([], p') \<and> pipe_contents p' = xs \<and>
    ucx_pipe_size p' = ucx_pipe_size p - 1"
proof -
  from pipe_get_cases(2) [OF assms, of True] obtain p' where p': "ucx_pipe_get True p = Inr (-1, p')"
    "pipe_inv p'" "pipe_contents p' = xs" by (auto simp: char_val_def)
  moreover have "p_size p' = p_size p - 1"
    using p'(3) assms(2) pipe_size_length [OF p'(2)] pipe_size_length [OF assms(1)] by (simp del: length_ring_contents)
  ultimately show ?thesis by (simp add: ucx_pipe_size_def)
qed

section \<open>Sizes\<close>

lemma pipe_rounded_size:
  assumes "2 \<le> n" and "n < 2 ^ 16"
  shows "(if ispowerof2 (of_nat n) then n else unat (nextpowerof2 (of_nat n)) mod 2 ^ 16) =
    (if n \<le> 2 ^ 15 then least_pow2 n else 0)"
proof -
  have r: "(if ispowerof2 (of_nat n) then int n else sint (nextpowerof2 (of_nat n))) = int (least_pow2 n)"
    using rounded_size [of "int n"] assms by (auto split: if_splits)
  have u: "unat (of_nat n :: u32) = n" using assms(2) by (simp add: unat_of_nat take_bit_eq_mod)
  have nz: "(of_nat n :: u32) \<noteq> 0" using u assms(1) by (auto simp: unat_eq_zero [symmetric])
  note v = nextpowerof2_value [OF nz, unfolded u]
  show ?thesis
  proof (cases "n \<le> 2 ^ 15")
    case True
    then have "least_pow2 n \<le> 2 ^ 15" by (rule least_pow2_bounds)
    with True r v assms(2) show ?thesis by (auto split: if_splits)
  next
    case False
    then have big: "least_pow2 n = 2 ^ Suc 15" using assms(2) by (intro least_pow2_eq) simp_all
    with r assms(2) v False show ?thesis by (auto split: if_splits)
  qed
qed

lemma masked_ring_empty:
  assumes "k < 32" and "0 < k"
  shows "masked_ring (mask k) 0 0 0 (2 ^ k)"
  using assms masked_step(2) [OF refl, of k "0 :: u32"] one_less_power [of "2 :: nat" k]
  by (auto simp: masked_ring_def intro: exI [of _ k])

text \<open>
  The size of a pipe. Up to 32768 bytes \<open>ucx_pipe_create\<close> makes an empty pipe whose buffer is
  the least power of two that is at least the size asked for and 2. Above, the 16-bit size
  wraps to 0: the pipe is made, without a place, and the first byte that is put in it is
  written outside the buffer.
\<close>

theorem pipe_create_size:
  assumes alloc: "\<And>m d. alloc m = Some d \<Longrightarrow> length d = m" and n: "n < 2 ^ 16"
    and "ucx_pipe_create ok alloc n = Some p"
  shows "if n \<le> 2 ^ 15
    then length (p_data p) = least_pow2 (max 2 n) \<and> pipe_inv p \<and> pipe_contents p = []
    else p_data p = [] \<and> ucx_pipe_put b p = Inl OutOfBounds"
proof -
  define m where "m = max 2 n"
  have m: "2 \<le> m" "m < 2 ^ 16" "(if n < 2 then 2 else n) = m" "m \<le> 2 ^ 15 \<longleftrightarrow> n \<le> 2 ^ 15" using n by (auto simp: m_def)
  let ?s = "if n \<le> 2 ^ 15 then least_pow2 m else 0"
  have nm: "n mod 2 ^ 16 = n" using n by simp
  have "ucx_pipe_create ok alloc n = (if \<not> ok then None else case alloc ?s of None \<Rightarrow> None
      | Some d \<Rightarrow> Some \<lparr>p_data = d, p_mask = word_of_int (int ?s - 1), p_head = 0, p_tail = 0, p_size = 0\<rparr>)"
    unfolding ucx_pipe_create_def Let_def nm m(3) pipe_rounded_size [OF m(1,2)] m(4) by (rule refl)
  with assms(3) obtain d where d: "alloc ?s = Some d"
    "p = \<lparr>p_data = d, p_mask = word_of_int (int ?s - 1), p_head = 0, p_tail = 0, p_size = 0\<rparr>"
    by (cases "alloc ?s"; cases ok) (simp_all only: option.case if_True if_False simp_thms option.inject option.distinct)
  show ?thesis
  proof (cases "n \<le> 2 ^ 15")
    case True
    obtain k where k: "least_pow2 m = 2 ^ k" by (simp add: least_pow2_def)
    have "m \<le> least_pow2 m" "least_pow2 m \<le> 2 ^ 15" using True m(4) least_pow2_bounds(1) [of m] least_pow2_bounds(2) [of m 15] by blast+
    with m(1) k have "2 \<le> (2 :: nat) ^ k" "(2 :: nat) ^ k \<le> 2 ^ 15" by simp_all
    then have k: "0 < k" "k < 32" "least_pow2 m = 2 ^ k"
      using k power_le_imp_le_exp [of "2 :: nat" k 15] by (auto intro: gr0I)
    have "(word_of_int (int (2 ^ k) - 1) :: u32) = mask k" by (simp add: mask_eq_exp_minus_1)
    with True d alloc [OF d(1)] k masked_ring_empty [OF k(2,1)] show ?thesis
      by (simp add: pipe_inv_def m_def [symmetric] ring_contents_def)
  next
    case False
    with d alloc [OF d(1)] show ?thesis by (simp add: ucx_pipe_put_def Let_def)
  qed
qed


section \<open>Examples\<close>

definition sample_pipe :: pipe_s where
  "sample_pipe = \<lparr>p_data = [255, 7, 0, 0], p_mask = 3, p_head = 0, p_tail = 2, p_size = 2\<rparr>"

lemma sample_pipe_inv: "pipe_inv sample_pipe" "pipe_contents sample_pipe = [255, 7]"
proof -
  have "(3 :: u32) = mask 2" by (simp add: mask_eq_exp_minus_1)
  then show "pipe_inv sample_pipe"
    by (auto simp: pipe_inv_def masked_ring_def sample_pipe_def intro: exI [of _ 2])
  show "pipe_contents sample_pipe = [255, 7]"
    by (simp add: sample_pipe_def ring_contents_def upt_rec numeral_2_eq_2)
qed

theorem pipe_roundtrip_witness:
  "\<exists>p1 p2. ucx_pipe_nbwrite [1, 2] sample_pipe = Inr (1, p1) \<and> ucx_pipe_nbread False 2 p1 = Inr ([255, 7], p2) \<and>
    pipe_contents p2 = [1]"
  using pipe_roundtrip [OF sample_pipe_inv(1), of "[1, 2]" 2] unfolding sample_pipe_inv(2)
  by (auto simp: sample_pipe_def)

theorem blocking_read_gets_stream_witness:
  "\<exists>p'. ucx_pipe_read False (map pipe_writer [[5, 6, 7, 8]]) 4 sample_pipe = Inr (Some ([255, 7, 5, 6], p'))"
  using blocking_read_gets_stream [OF sample_pipe_inv(1), where sch = False and n = 4 and bss = "[[5, 6, 7, 8]]"]
  unfolding sample_pipe_inv(2)
  by (auto simp: sample_pipe_def Let_def)

theorem signed_pipe_loses_0xff_witness:
  "\<exists>p'. ucx_pipe_nbread True 2 sample_pipe = Inr ([], p') \<and> pipe_contents p' = [7] \<and> ucx_pipe_size p' = 1"
  using signed_pipe_loses_0xff [OF sample_pipe_inv, of 1]
  by (auto simp: ucx_pipe_size_def sample_pipe_def numeral_2_eq_2)

theorem pipe_create_size_witness:
  "(\<exists>p. ucx_pipe_create True (\<lambda>m. Some (replicate m 0)) 40000 = Some p \<and> p_data p = [] \<and>
    ucx_pipe_put 1 p = Inl OutOfBounds)"
proof -
  obtain p where p: "ucx_pipe_create True (\<lambda>m. Some (replicate m 0)) 40000 = Some p"
    by (simp add: ucx_pipe_create_def Let_def)
  have "length d = m" if "Some (replicate m (0 :: byte)) = Some d" for m d using that by auto
  from pipe_create_size [OF this _ p, of 1] p show ?thesis by auto
qed

end
