(* ===== verification/Native_Timer.thy ===== *)
theory Native_Timer
  imports Native_Tasks
begin

text \<open>
  The software timers of \<open>kernel/timer.c\<close> and the coroutine groups of \<open>kernel/coroutine.c\<close>, on one
  core. Lists are the lists of the blocks their nodes carry, as \<open>Linked_List\<close> justifies; what
  the allocations of a routine return is an argument. The yield that ends a handler is the
  one of \<open>Native_Tasks\<close> and is left to the caller.

  The code the timers call back is an argument, \<open>cb\<close>: what a call makes of the timers. It may
  start and cancel timers, and neither creates nor destroys any: the handler is walking
  along their list.

  The theory shows when a timer fires: a one-shot timer once, at the first pass after its
  time, an automatic one at its period; and three errors: where \<open>size_t\<close> has 32 bits no timer
  that is due after 2 ^ 32 ms ever fires, a one-shot timer cannot be restarted by its own
  callback, and \<open>ucx_cr_cancel\<close> never finds the coroutine it is given.
\<close>

section \<open>Timers\<close>

type_synonym u8 = "8 word"

abbreviation "TIMER_DISABLED \<equiv> (0 :: u8)"
abbreviation "TIMER_ONESHOT \<equiv> (1 :: u8)"
abbreviation "TIMER_AUTORELOAD \<equiv> (2 :: u8)"

record timer_s =
  timer_id :: u16
  timer_cb :: addr
  t_time :: u32
  countdown :: u32
  timecmp :: u64
  mode :: u8

record timers =
  timer_lst :: "timer_s list option"
  next_timer_id :: u16
  last_tick :: u32

type_synonym timer_cbs = "addr \<Rightarrow> u64 \<Rightarrow> timer_s list \<Rightarrow> timer_s list"

text \<open>What a visit of a timer makes of it after its callback has returned.\<close>

definition rearm :: "(timer_s \<Rightarrow> timer_s) \<Rightarrow> timer_s \<Rightarrow> timer_s" where
  "rearm f t = (if mode t = TIMER_AUTORELOAD then f t else t\<lparr>mode := TIMER_DISABLED\<rparr>)"

text \<open>
  The two functions \<open>list_foreach\<close> calls on the timer \<open>i\<close>; they return the timers that fired,
  by identifier, and the list.
\<close>

definition timer_update :: "timer_cbs \<Rightarrow> u64 \<Rightarrow> nat \<Rightarrow> timer_s list \<Rightarrow> u16 list \<times> timer_s list" where
  "timer_update cb arg i ts =
     (let t = ts ! i in
      if mode t = TIMER_DISABLED then ([], ts)
      else if arg > timecmp t then
        let ts1 = cb (timer_cb t) arg ts
        in ([timer_id t], ts1[i := rearm (\<lambda>t. t\<lparr>timecmp := timecmp t + ucast (t_time t)\<rparr>) (ts1 ! i)])
      else ([], ts))"

function count_down :: "u32 \<Rightarrow> u32 \<Rightarrow> u32" where
  "count_down c d = (if c \<noteq> 0 \<and> d \<noteq> 0 then count_down (c - 1) (d - 1) else c)"
  by pat_completeness auto
termination by (relation "measure (\<lambda>(c, d). unat c)") (simp_all add: unat_minus_one unat_gt_0)

declare count_down.simps [simp del]

definition timer_update_systick :: "timer_cbs \<Rightarrow> u64 \<Rightarrow> nat \<Rightarrow> timer_s list \<Rightarrow> u16 list \<times> timer_s list" where
  "timer_update_systick cb arg i ts =
     (let t = ts ! i in
      if mode t = TIMER_DISABLED then ([], ts)
      else
        let t1 = t\<lparr>countdown := count_down (countdown t) (ucast arg)\<rparr>; ts1 = ts[i := t1] in
        if countdown t1 = 0 then
          let ts2 = cb (timer_cb t) arg ts1
          in ([timer_id t], ts2[i := rearm (\<lambda>t. t\<lparr>countdown := t_time t\<rparr>) (ts2 ! i)])
        else ([], ts1))"

primrec timers_foreach :: "(nat \<Rightarrow> timer_s list \<Rightarrow> u16 list \<times> timer_s list) \<Rightarrow> nat list \<Rightarrow> timer_s list \<Rightarrow>
    u16 list \<times> timer_s list" where
  "timers_foreach f [] ts = ([], ts)"
| "timers_foreach f (i # is) ts =
     (let (c, ts1) = f i ts; (cs, ts2) = timers_foreach f is ts1 in (c @ cs, ts2))"

text \<open>
  The handlers. The time is passed as a pointer, so it is truncated to the \<open>w\<close> bits of a
  \<open>size_t\<close>; a null list of timers is followed all the same.
\<close>

definition timer_handler :: "nat \<Rightarrow> timer_cbs \<Rightarrow> u64 \<Rightarrow> timers \<Rightarrow> fault + u16 list \<times> timers" where
  "timer_handler w cb us k =
     (case timer_lst k of None \<Rightarrow> Inl NullDeref
      | Some ts \<Rightarrow>
          let (c, ts') = timers_foreach (timer_update cb (take_bit w (ucx_uptime us))) [0..<length ts] ts
          in Inr (c, k\<lparr>timer_lst := Some ts'\<rparr>))"

definition timer_handler_systick :: "nat \<Rightarrow> timer_cbs \<Rightarrow> u32 \<Rightarrow> timers \<Rightarrow> fault + u16 list \<times> timers" where
  "timer_handler_systick w cb ticks k =
     (if last_tick k = 0 then Inr ([], k\<lparr>last_tick := ticks\<rparr>)
      else if ticks \<noteq> last_tick k then
        let diff = ticks - last_tick k; k1 = k\<lparr>last_tick := ticks\<rparr>
        in case timer_lst k1 of None \<Rightarrow> Inl NullDeref
           | Some ts \<Rightarrow>
               let (c, ts') = timers_foreach (timer_update_systick cb (take_bit w (ucast diff))) [0..<length ts] ts
               in Inr (c, k1\<lparr>timer_lst := Some ts'\<rparr>)
      else Inr ([], k))"

text \<open>\<open>l\<close>, \<open>a\<close> and \<open>n\<close> tell whether the list, the timer and its node are allocated.\<close>

definition ucx_timer_create :: "bool \<Rightarrow> bool \<Rightarrow> bool \<Rightarrow> addr \<Rightarrow> u32 \<Rightarrow> timers \<Rightarrow> int \<times> timers" where
  "ucx_timer_create l a n cb time k =
     (let k = (if timer_lst k = None \<and> l then k\<lparr>timer_lst := Some []\<rparr> else k) in
      case timer_lst k of None \<Rightarrow> (-1, k)
      | Some ts \<Rightarrow>
          if \<not> a \<or> \<not> n then (-1, k)
          else (uint (next_timer_id k),
            k\<lparr>timer_lst := Some (ts @ [\<lparr>timer_id = next_timer_id k, timer_cb = cb, t_time = time, countdown = time,
                timecmp = 0, mode = TIMER_DISABLED\<rparr>]),
              next_timer_id := next_timer_id k + 1\<rparr>))"

text \<open>\<open>list_foreach\<close> with \<open>timer_id_cmp\<close>: the place of the first timer of that identifier.\<close>

fun find_timer :: "u16 \<Rightarrow> timer_s list \<Rightarrow> nat option" where
  "find_timer d [] = None"
| "find_timer d (t # ts) = (if timer_id t = d then Some 0 else map_option Suc (find_timer d ts))"

definition with_timer :: "u16 \<Rightarrow> (nat \<Rightarrow> timer_s list \<Rightarrow> timer_s list) \<Rightarrow> timers \<Rightarrow> int \<times> timers" where
  "with_timer d f k =
     (case timer_lst k of None \<Rightarrow> (-1, k)
      | Some ts \<Rightarrow>
          (case find_timer d ts of None \<Rightarrow> (-1, k) | Some i \<Rightarrow> (0, k\<lparr>timer_lst := Some (f i ts)\<rparr>)))"

definition ucx_timer_destroy :: "u16 \<Rightarrow> timers \<Rightarrow> int \<times> timers" where
  "ucx_timer_destroy d = with_timer d (\<lambda>i ts. take i ts @ drop (Suc i) ts)"

definition start_timer :: "u64 \<Rightarrow> u8 \<Rightarrow> timer_s \<Rightarrow> timer_s" where
  "start_timer us m t = t\<lparr>countdown := t_time t, timecmp := ucx_uptime us + ucast (t_time t), mode := m\<rparr>"

definition ucx_timer_start :: "u64 \<Rightarrow> u16 \<Rightarrow> u8 \<Rightarrow> timers \<Rightarrow> int \<times> timers" where
  "ucx_timer_start us d m = with_timer d (\<lambda>i ts. ts[i := start_timer us m (ts ! i)])"

definition ucx_timer_cancel :: "u16 \<Rightarrow> timers \<Rightarrow> int \<times> timers" where
  "ucx_timer_cancel d = with_timer d (\<lambda>i ts. ts[i := (ts ! i)\<lparr>mode := TIMER_DISABLED\<rparr>])"

section \<open>Coroutines\<close>

record ccb_s =
  corotine :: addr
  c_priority :: u8
  pcounter :: u8

record cgroup_s =
  crlist :: "ccb_s list"
  fibers :: u16

text \<open>The memory \<open>malloc\<close> returns is not cleared, and \<open>fibers\<close> keeps what is in it, \<open>junk\<close>.\<close>

definition ucx_cr_ginit :: "bool \<Rightarrow> bool \<Rightarrow> u16 \<Rightarrow> cgroup_s option" where
  "ucx_cr_ginit a l junk = (if \<not> a \<or> \<not> l then None else Some \<lparr>crlist = [], fibers = junk\<rparr>)"

definition ucx_cr_gdestroy :: "cgroup_s \<Rightarrow> int" where
  "ucx_cr_gdestroy g = (if fibers g > 0 then -1 else 0)"

definition ucx_cr_add :: "bool \<Rightarrow> bool \<Rightarrow> addr \<Rightarrow> u8 \<Rightarrow> cgroup_s \<Rightarrow> int \<times> cgroup_s" where
  "ucx_cr_add a n c prio g =
     (if \<not> a \<or> \<not> n then (-1, g)
      else (0, \<lparr>crlist = crlist g @ [\<lparr>corotine = c, c_priority = prio, pcounter = prio\<rparr>], fibers = fibers g + 1\<rparr>))"

text \<open>
  \<open>cr_trycancel\<close> takes the coroutine it is given for a control block and compares with what
  is stored in its code; \<open>code\<close> is the word at an address. When a block matches, the block is
  returned as if it were the node, and what is freed is the word after its first one, made
  of the priority and the counter.
\<close>

definition ucx_cr_cancel :: "(addr \<Rightarrow> addr) \<Rightarrow> addr \<Rightarrow> cgroup_s \<Rightarrow> fault + int" where
  "ucx_cr_cancel code c g =
     (case find (\<lambda>cr. corotine cr = code c) (crlist g) of None \<Rightarrow> Inr 0 | Some _ \<Rightarrow> Inl OutOfBounds)"

text \<open>\<open>list_foreach\<close> with \<open>cr_trysched\<close>: the coroutine that is called, and the list when it is.\<close>

fun cr_sched :: "ccb_s list \<Rightarrow> addr option \<times> ccb_s list" where
  "cr_sched [] = (None, [])"
| "cr_sched (c # cs) =
     (let n = pcounter c - 1 in
      if n = 0 then (Some (corotine c), c\<lparr>pcounter := c_priority c\<rparr> # cs)
      else let (r, cs') = cr_sched cs in (r, c\<lparr>pcounter := n\<rparr> # cs'))"

definition ucx_cr_schedule :: "cgroup_s \<Rightarrow> int \<times> addr option \<times> cgroup_s" where
  "ucx_cr_schedule g = (let (r, cs) = cr_sched (crlist g) in (if r = None then 0 else 1, r, g\<lparr>crlist := cs\<rparr>))"


section \<open>When timers fire\<close>

lemma foreach_pointwise:
  assumes "\<And>i ts. i < length ts \<Longrightarrow> f i ts = (out (ts ! i), ts[i := upd (ts ! i)])"
  shows "timers_foreach f [0..<length ts] ts = (concat (map out ts), map upd ts)"
proof -
  have "timers_foreach f [length xs..<length (xs @ ys)] (xs @ ys) = (concat (map out ys), xs @ map upd ys)" for xs ys
  proof (induction ys arbitrary: xs)
    case (Cons y ys)
    have r: "[length xs..<length (xs @ y # ys)] = length xs # [length (xs @ [upd y])..<length ((xs @ [upd y]) @ ys)]"
      by (subst upt_conv_Cons) simp_all
    have "f (length xs) (xs @ y # ys) = (out y, xs @ upd y # ys)" using assms [of "length xs" "xs @ y # ys"] by simp
    with Cons.IH [of "xs @ [upd y]"] show ?case unfolding r by simp
  qed simp
  from this [of "[]" ts] show ?thesis by simp
qed

lemma concat_map_if: "concat (map (\<lambda>x. if P x then [g x] else []) xs) = map g (filter P xs)"
  by (induction xs) auto

text \<open>Callbacks that leave the timers alone.\<close>

abbreviation no_timers :: timer_cbs where
  "no_timers \<equiv> \<lambda>_ _ ts. ts"

definition due :: "u64 \<Rightarrow> timer_s \<Rightarrow> bool" where
  "due u t \<longleftrightarrow> mode t \<noteq> TIMER_DISABLED \<and> timecmp t < u"

definition fired :: "timer_s \<Rightarrow> timer_s" where
  "fired = rearm (\<lambda>t. t\<lparr>timecmp := timecmp t + ucast (t_time t)\<rparr>)"

definition pass :: "u64 \<Rightarrow> timer_s \<Rightarrow> timer_s" where
  "pass u t = (if due u t then fired t else t)"

lemma handler_pass:
  assumes "timer_lst k = Some ts"
  shows "timer_handler w no_timers us k =
    Inr (map timer_id (filter (due (take_bit w (us div 1000))) ts),
      k\<lparr>timer_lst := Some (map (pass (take_bit w (us div 1000))) ts)\<rparr>)"
proof -
  let ?u = "take_bit w (ucx_uptime us)"
  have "timer_update no_timers ?u i xs = (if due ?u (xs ! i) then [timer_id (xs ! i)] else [], xs[i := pass ?u (xs ! i)])"
    if "i < length xs" for i xs
    by (simp add: timer_update_def due_def pass_def fired_def Let_def)
  from foreach_pointwise [OF this, of ts]
  have "timers_foreach (timer_update no_timers ?u) [0..<length ts] ts =
      (map timer_id (filter (due ?u) ts), map (pass ?u) ts)" by (simp add: concat_map_if)
  with assms show ?thesis by (simp add: timer_handler_def ucx_uptime_def)
qed

text \<open>
  One pass of the handler. The timers that are due fire, each once and in the order of the
  list; an automatic timer is due again one period later, every other is disabled; the
  timers that are not due stay as they are.
\<close>

theorem timer_handler_fires:
  assumes "timer_lst k = Some ts"
  shows "timer_handler w no_timers us k =
    Inr (map timer_id (filter (due (take_bit w (us div 1000))) ts),
      k\<lparr>timer_lst := Some (map (pass (take_bit w (us div 1000))) ts)\<rparr>)"
  using assms by (rule handler_pass)

text \<open>Several passes, with the time of each; the timers that fired, in order.\<close>

primrec handler_passes :: "nat \<Rightarrow> u64 list \<Rightarrow> timers \<Rightarrow> fault + u16 list \<times> timers" where
  "handler_passes w [] k = Inr ([], k)"
| "handler_passes w (us # uss) k =
     (case timer_handler w no_timers us k of Inl f \<Rightarrow> Inl f
      | Inr (c, k1) \<Rightarrow> (case handler_passes w uss k1 of Inl f \<Rightarrow> Inl f | Inr (cs, k2) \<Rightarrow> Inr (c @ cs, k2)))"

text \<open>The passes as one timer sees them: how often it fires, and what becomes of it.\<close>

primrec firings :: "u64 list \<Rightarrow> timer_s \<Rightarrow> nat" where
  "firings [] t = 0"
| "firings (u # us) t = of_bool (due u t) + firings us (pass u t)"

lemma pass_id [simp]: "timer_id (pass u t) = timer_id t"
  by (simp add: pass_def fired_def rearm_def)

lemma count_due:
  assumes "distinct (map timer_id ts)" and "t \<in> set ts"
  shows "count_list (map timer_id (filter P ts)) (timer_id t) = of_bool (P t)"
proof -
  have "count_list (map timer_id (filter P xs)) d = 0" if "d \<notin> timer_id ` set xs" for d xs
    using that by (induction xs) auto
  with assms show ?thesis by (induction ts) auto
qed

lemma handler_passes_firings:
  assumes "timer_lst k = Some ts" and "distinct (map timer_id ts)" and "t \<in> set ts"
  shows "\<exists>cs k'. handler_passes w uss k = Inr (cs, k') \<and>
    count_list cs (timer_id t) = firings (map (\<lambda>us. take_bit w (us div 1000)) uss) t"
  using assms
proof (induction uss arbitrary: k ts t)
  case (Cons us uss)
  let ?u = "take_bit w (us div 1000)"
  let ?k = "k\<lparr>timer_lst := Some (map (pass ?u) ts)\<rparr>"
  have "timer_lst ?k = Some (map (pass ?u) ts)" "distinct (map timer_id (map (pass ?u) ts))"
    "pass ?u t \<in> set (map (pass ?u) ts)" using Cons.prems by (simp_all add: comp_def)
  from Cons.IH [OF this] obtain cs k' where "handler_passes w uss ?k = Inr (cs, k')"
    "count_list cs (timer_id t) = firings (map (\<lambda>us. take_bit w (us div 1000)) uss) (pass ?u t)" by auto
  with handler_pass [OF Cons.prems(1), of w us] count_due [OF Cons.prems(2,3)] show ?case by simp
qed simp

lemma firings_one_shot:
  assumes "mode t = m" and "m \<noteq> TIMER_AUTORELOAD"
  shows "firings us t = of_bool (m \<noteq> TIMER_DISABLED \<and> (\<exists>u \<in> set us. timecmp t < u))"
  using assms
proof (induction us arbitrary: t m)
  case (Cons u us)
  have "pass u t = (if due u t then t\<lparr>mode := TIMER_DISABLED\<rparr> else t)"
    using Cons.prems by (simp add: pass_def fired_def rearm_def)
  with Cons.IH [of "t\<lparr>mode := TIMER_DISABLED\<rparr>" TIMER_DISABLED] Cons.IH [OF Cons.prems] show ?case
    by (auto simp: due_def Cons.prems(1))
qed simp

lemma start_found:
  assumes "timer_lst k = Some ts" and "distinct (map timer_id ts)" and "t \<in> set ts"
  obtains ts' k' where "ucx_timer_start us (timer_id t) m k = (0, k')" "timer_lst k' = Some ts'"
    "distinct (map timer_id ts')" "start_timer us m t \<in> set ts'"
proof -
  have "\<exists>i < length ts. find_timer (timer_id t) ts = Some i \<and> ts ! i = t"
    using assms(2,3) by (induction ts) force+
  then obtain i where i: "i < length ts" "find_timer (timer_id t) ts = Some i" "ts ! i = t" by blast
  moreover have "map timer_id (ts[i := start_timer us m t]) = map timer_id ts"
    using i by (simp add: map_update start_timer_def list_update_same_conv)
  ultimately show ?thesis
    using assms(1,2) that [of "k\<lparr>timer_lst := Some (ts[i := start_timer us m t])\<rparr>" "ts[i := start_timer us m t]"]
    by (auto simp: ucx_timer_start_def with_timer_def set_update_memI)
qed


lemma deadline_unat: "unat (us div 1000 + ucast (x :: u32) :: u64) = unat us div 1000 + unat x"
proof -
  have "unat us < 2 ^ 64" "unat x < 2 ^ 32" using unsigned_less [of us] unsigned_less [of x] by simp_all
  moreover have "unat (us div 1000) = unat us div 1000" by (simp add: unat_div)
  moreover have "unat (ucast x :: u64) = unat x"
    using calculation(2) by (simp add: unsigned_ucast_eq take_bit_nat_eq_self)
  ultimately show ?thesis by (subst unat_add_lem [THEN iffD1]) auto
qed

text \<open>
  A one-shot timer fires once. It is started at the time \<open>us0\<close>, and the handler runs at the
  times \<open>uss\<close>, in milliseconds as a \<open>size_t\<close> of \<open>w\<close> bits holds them. The timer fires exactly
  once when one of these times is after its deadline and never otherwise, whatever the other
  timers do.
\<close>

theorem one_shot_fires_once:
  assumes "timer_lst k = Some ts" and "distinct (map timer_id ts)" and "t \<in> set ts"
  shows "\<exists>k1 cs k2. ucx_timer_start us0 (timer_id t) TIMER_ONESHOT k = (0, k1) \<and>
    handler_passes w uss k1 = Inr (cs, k2) \<and>
    count_list cs (timer_id t) =
      (if \<exists>us \<in> set uss. unat us0 div 1000 + unat (t_time t) < unat (take_bit w (us div 1000)) then 1 else 0)"
proof -
  obtain ts1 k1 where k1: "ucx_timer_start us0 (timer_id t) TIMER_ONESHOT k = (0, k1)" "timer_lst k1 = Some ts1"
    "distinct (map timer_id ts1)" "start_timer us0 TIMER_ONESHOT t \<in> set ts1"
    using start_found [OF assms] by blast
  moreover have "timer_id (start_timer us0 TIMER_ONESHOT t) = timer_id t"
    "timecmp (start_timer us0 TIMER_ONESHOT t) = us0 div 1000 + ucast (t_time t)"
    "mode (start_timer us0 TIMER_ONESHOT t) = TIMER_ONESHOT" by (simp_all add: start_timer_def ucx_uptime_def)
  ultimately show ?thesis
    using handler_passes_firings [OF k1(2-4), of w uss]
      firings_one_shot [of "start_timer us0 TIMER_ONESHOT t" TIMER_ONESHOT "map (\<lambda>us. take_bit w (us div 1000)) uss"]
    by (auto simp: word_less_nat_alt deadline_unat)
qed

lemma unat_take_bit_less: "unat (take_bit w (x :: u64)) < 2 ^ w"
proof -
  have "unat (take_bit w x) = take_bit w (unat x)" by (rule unsigned_take_bit_eq)
  then show ?thesis by (simp add: take_bit_eq_mod)
qed

lemma firings_never:
  assumes "\<forall>u \<in> set us. \<not> timecmp t < u"
  shows "firings us t = 0"
  using assms by (induction us) (auto simp: due_def pass_def)

text \<open>
  C35. Where a \<open>size_t\<close> has \<open>w\<close> bits, 32 on most of the targets, no timer fires that is due when the
  uptime no longer fits: a timer of any mode that is started so that its deadline is at
  least 2 ^ \<open>w\<close> ms, on 32 bits one that ends after 49.7 days, is never called back, however
  long the handler goes on.
\<close>

theorem late_timers_never_fire:
  assumes "timer_lst k = Some ts" and "distinct (map timer_id ts)" and "t \<in> set ts"
    and late: "2 ^ w \<le> unat us0 div 1000 + unat (t_time t)"
  shows "\<exists>k1 cs k2. ucx_timer_start us0 (timer_id t) m k = (0, k1) \<and>
    handler_passes w uss k1 = Inr (cs, k2) \<and> timer_id t \<notin> set cs"
proof -
  obtain ts1 k1 where k1: "ucx_timer_start us0 (timer_id t) m k = (0, k1)" "timer_lst k1 = Some ts1"
    "distinct (map timer_id ts1)" "start_timer us0 m t \<in> set ts1" using start_found [OF assms(1-3)] by blast
  have "unat (timecmp (start_timer us0 m t)) = unat us0 div 1000 + unat (t_time t)"
    by (simp add: start_timer_def ucx_uptime_def deadline_unat)
  then have "\<not> timecmp (start_timer us0 m t) < take_bit w x" for x
    using late unat_take_bit_less [of w x] by (simp add: word_less_nat_alt)
  then have "firings (map (\<lambda>us. take_bit w (us div 1000)) uss) (start_timer us0 m t) = 0"
    by (intro firings_never) auto
  with k1(1) handler_passes_firings [OF k1(2-4), of w uss] show ?thesis
    by (auto simp: start_timer_def count_list_0_iff)
qed


lemma firings_append: "firings (us @ vs) t = firings us t + firings vs (fold pass us t)"
  by (induction us arbitrary: t) auto

lemma due_step:
  assumes "0 < (n :: nat)"
  shows "n * Suc ((k - 1) div n) < k + 1 \<longleftrightarrow> k div n = Suc ((k - 1) div n)"
    and "\<not> n * Suc ((k - 1) div n) < k + 1 \<Longrightarrow> k div n = (k - 1) div n"
proof -
  have le: "k div n \<le> Suc ((k - 1) div n)"
  proof (cases k)
    case (Suc j)
    have "(j + 1) div n \<le> (j + n) div n" using assms by (intro div_le_mono) simp
    moreover have "(j + n) div n = Suc (j div n)" using assms div_add_self2 [of n j] by simp
    ultimately show ?thesis using Suc by simp
  qed simp
  have ge: "(k - 1) div n \<le> k div n" by (rule div_le_mono) simp
  have iff: "n * Suc ((k - 1) div n) < k + 1 \<longleftrightarrow> Suc ((k - 1) div n) \<le> k div n"
    using assms by (simp add: less_eq_div_iff_mult_less_eq mult.commute less_Suc_eq_le)
  show "n * Suc ((k - 1) div n) < k + 1 \<longleftrightarrow> k div n = Suc ((k - 1) div n)" using iff le by linarith
  show "k div n = (k - 1) div n" if "\<not> n * Suc ((k - 1) div n) < k + 1" using that iff ge by linarith
qed

text \<open>An automatic timer at passes one unit of time apart.\<close>

lemma firings_automatic:
  assumes "mode t = TIMER_AUTORELOAD" and "unat (timecmp t) = u + unat (t_time t)" and "0 < t_time t"
    and "u + k + unat (t_time t) < 2 ^ 64"
  shows "firings (map (\<lambda>i. of_nat (u + i)) [1..<Suc k]) t = (k - 1) div unat (t_time t) \<and>
    (let t' = fold pass (map (\<lambda>i. of_nat (u + i)) [1..<Suc k]) t in
      mode t' = TIMER_AUTORELOAD \<and> t_time t' = t_time t \<and>
      unat (timecmp t') = u + unat (t_time t) * Suc ((k - 1) div unat (t_time t)))"
  using assms(4)
proof (induction k)
  case 0
  with assms show ?case by simp
next
  case (Suc k)
  let ?n = "unat (t_time t)"
  define vs where "vs = map (\<lambda>i. of_nat (u + i) :: u64) [1..<Suc k]"
  define now where "now = (of_nat (u + Suc k) :: u64)"
  define t1 where "t1 = fold pass vs t"
  have us: "map (\<lambda>i. of_nat (u + i) :: u64) [1..<Suc (Suc k)] = vs @ [now]" by (simp add: vs_def now_def)
  have IH: "firings vs t = (k - 1) div ?n" "mode t1 = TIMER_AUTORELOAD" "t_time t1 = t_time t"
    "unat (timecmp t1) = u + ?n * Suc ((k - 1) div ?n)" using Suc unfolding vs_def t1_def by (auto simp: Let_def)
  have n: "0 < ?n" using assms(3) by (simp add: unat_gt_0)
  have now: "unat now = u + Suc k" using Suc.prems unfolding now_def by (simp add: unat_of_nat take_bit_nat_eq_self del: of_nat_add of_nat_Suc)
  have due: "due now t1 \<longleftrightarrow> ?n * Suc ((k - 1) div ?n) < k + 1"
    using IH(2) unfolding due_def word_less_nat_alt now IH(4) by simp
  have next_pass: "firings (vs @ [now]) t = firings vs t + of_bool (due now t1)" "fold pass (vs @ [now]) t = pass now t1"
    by (simp_all add: firings_append t1_def)
  show ?case
  proof (cases "due now t1")
    case True
    then have d: "k div ?n = Suc ((k - 1) div ?n)" using due due_step(1) [OF n] by blast
    have c: "unat (ucast (t_time t) :: u64) = ?n"
      using unsigned_less [of "t_time t", where ?'a = nat] by (simp add: unsigned_ucast_eq take_bit_nat_eq_self)
    have "u + ?n * Suc ((k - 1) div ?n) + ?n < 2 ^ 64" using True due Suc.prems by linarith
    then have "unat (timecmp t1 + ucast (t_time t)) = u + ?n * Suc ((k - 1) div ?n) + ?n"
      using IH(4) c by (subst unat_add_lem [THEN iffD1]) simp_all
    then have "unat (timecmp t1 + ucast (t_time t)) = u + ?n * Suc (k div ?n)" using d by simp
    with True IH d show ?thesis
      unfolding us next_pass by (simp add: pass_def fired_def rearm_def Let_def)
  next
    case False
    then have "k div ?n = (k - 1) div ?n" using due due_step(2) [OF n] by blast
    with False IH show ?thesis unfolding us next_pass by (simp add: pass_def Let_def)
  qed
qed


text \<open>
  An automatic timer keeps its period: when the handler runs once in each of the \<open>n\<close>
  milliseconds after the start, a timer of a period of \<open>p\<close> ms fires \<open>(n - 1) div p\<close> times,
  without drift.
\<close>

theorem automatic_timer_keeps_period:
  assumes "timer_lst k = Some ts" and "distinct (map timer_id ts)" and "t \<in> set ts"
    and "0 < t_time t" and "unat us0 div 1000 + n + unat (t_time t) < 2 ^ 64"
    and "map (\<lambda>us. us div 1000) uss = map (\<lambda>i. of_nat (unat us0 div 1000 + i)) [1..<Suc n]"
  shows "\<exists>k1 cs k2. ucx_timer_start us0 (timer_id t) TIMER_AUTORELOAD k = (0, k1) \<and>
    handler_passes 64 uss k1 = Inr (cs, k2) \<and> count_list cs (timer_id t) = (n - 1) div unat (t_time t)"
proof -
  obtain ts1 k1 where k1: "ucx_timer_start us0 (timer_id t) TIMER_AUTORELOAD k = (0, k1)" "timer_lst k1 = Some ts1"
    "distinct (map timer_id ts1)" "start_timer us0 TIMER_AUTORELOAD t \<in> set ts1" using start_found [OF assms(1-3)] by blast
  let ?t = "start_timer us0 TIMER_AUTORELOAD t"
  have "map (\<lambda>us. take_bit 64 (us div 1000)) uss = map (\<lambda>us. us div 1000) uss"
    using take_bit_length_eq [where ?'a = 64] by simp
  then have eq: "map (\<lambda>us. take_bit 64 (us div 1000)) uss = map (\<lambda>i. of_nat (unat us0 div 1000 + i)) [1..<Suc n]"
    using assms(6) by simp
  have "mode ?t = TIMER_AUTORELOAD" "unat (timecmp ?t) = unat us0 div 1000 + unat (t_time ?t)" "t_time ?t = t_time t"
    "timer_id ?t = timer_id t" by (simp_all add: start_timer_def ucx_uptime_def deadline_unat)
  with firings_automatic [of ?t "unat us0 div 1000" n] assms(4,5)
  have "firings (map (\<lambda>us. take_bit 64 (us div 1000)) uss) ?t = (n - 1) div unat (t_time t)"
    unfolding eq by simp
  with k1(1) handler_passes_firings [OF k1(2-4), of 64 uss] \<open>timer_id ?t = timer_id t\<close> show ?thesis by auto
qed

text \<open>
  A one-shot timer cannot be restarted by its own callback: whatever the callback does,
  unless it makes the timer automatic, the timer is disabled when the handler goes on.
\<close>

lemma restart_in_callback_is_lost:
  assumes "i < length ts" and "due u (ts ! i)" and "length (cb (timer_cb (ts ! i)) u ts) = length ts"
    and "mode (cb (timer_cb (ts ! i)) u ts ! i) \<noteq> TIMER_AUTORELOAD"
  shows "mode (snd (timer_update cb u i ts) ! i) = TIMER_DISABLED"
  using assms by (simp add: timer_update_def due_def rearm_def Let_def)

text \<open>The loop of the tick variant subtracts, down to 0.\<close>

lemma count_down_diff: "unat (count_down c d) = unat c - unat d"
proof (induction c d rule: count_down.induct)
  case (1 c d)
  show ?case
  proof (cases "c \<noteq> 0 \<and> d \<noteq> 0")
    case True
    then have "unat (c - 1) = unat c - 1" "unat (d - 1) = unat d - 1" "0 < unat c" "0 < unat d"
      by (simp_all add: unat_minus_one unat_gt_0)
    with True 1 show ?thesis by (subst count_down.simps) simp
  next
    case False
    then show ?thesis by (subst count_down.simps) auto
  qed
qed

section \<open>Coroutines share the calls of their group\<close>

text \<open>\<open>n\<close> calls of \<open>ucx_cr_schedule\<close>: the coroutines that run.\<close>

primrec cr_calls :: "nat \<Rightarrow> cgroup_s \<Rightarrow> addr list" where
  "cr_calls 0 g = []"
| "cr_calls (Suc n) g = (case ucx_cr_schedule g of (_, r, g') \<Rightarrow> (case r of None \<Rightarrow> [] | Some c \<Rightarrow> [c]) @ cr_calls n g')"

definition period :: "ccb_s \<Rightarrow> nat" where
  "period c = (if c_priority c = 0 then 256 else unat (c_priority c))"

text \<open>The list after \<open>n\<close> calls, and the coroutine that the next one runs.\<close>

fun advance :: "nat \<Rightarrow> ccb_s list \<Rightarrow> ccb_s list" where
  "advance n [] = []"
| "advance n (c # cs) = c\<lparr>pcounter := of_nat (period c - n mod period c)\<rparr> # advance (n - n div period c) cs"

fun runs :: "nat \<Rightarrow> ccb_s list \<Rightarrow> addr option" where
  "runs n [] = None"
| "runs n (c # cs) = (if Suc n mod period c = 0 then Some (corotine c) else runs (n - n div period c) cs)"

lemma period_pos: "0 < period c" "period c \<le> 256" "of_nat (period c) = c_priority c"
  using unsigned_less [of "c_priority c", where ?'a = nat] by (auto simp: period_def unat_gt_0)

lemma u8_zero: "x < 256 \<Longrightarrow> (of_nat x :: u8) = 0 \<longleftrightarrow> x = 0"
  by (auto simp: word_of_nat_eq_0_iff dest: dvd_imp_le)

lemma cr_sched_advance: "cr_sched (advance n cs) = (runs n cs, advance (Suc n) cs)"
proof (induction cs arbitrary: n)
  case (Cons c cs)
  let ?p = "period c"
  have lt: "n mod ?p < ?p" by (rule mod_less_divisor) (rule period_pos)
  have w: "of_nat (?p - n mod ?p) - 1 = (of_nat (?p - n mod ?p - 1) :: u8)" using lt by simp
  have z: "(of_nat (?p - n mod ?p - 1) :: u8) = 0 \<longleftrightarrow> ?p - n mod ?p = 1"
    using lt u8_zero [of "?p - n mod ?p - 1"] period_pos(2) [of c] by linarith
  show ?case
  proof (cases "Suc n mod ?p = 0")
    case True
    then have "Suc (n mod ?p) = ?p" by (auto simp: mod_Suc split: if_splits)
    then have "?p - n mod ?p = 1" by linarith
    moreover have "Suc n div ?p = Suc (n div ?p)" using True by (simp add: div_Suc)
    ultimately show ?thesis using True w z period_pos(3) [of c] by simp
  next
    case False
    then have m: "Suc n mod ?p = Suc (n mod ?p)" by (simp add: mod_Suc split: if_splits)
    moreover have "Suc n mod ?p < ?p" by (rule mod_less_divisor) (rule period_pos)
    ultimately have "?p - n mod ?p \<noteq> 1" "?p - n mod ?p - 1 = ?p - Suc n mod ?p" by linarith+
    moreover have "Suc n div ?p = n div ?p" using False by (simp add: div_Suc)
    moreover have "Suc (n - n div ?p) = Suc n - n div ?p" by (simp add: Suc_diff_le)
    ultimately show ?thesis using False w z Cons.IH [of "n - n div ?p"] by (simp add: Let_def)
  qed
qed simp


definition ran :: "nat \<Rightarrow> ccb_s list \<Rightarrow> addr list" where
  "ran n cs = concat (map (\<lambda>j. case runs j cs of None \<Rightarrow> [] | Some c \<Rightarrow> [c]) [0..<n])"

lemma ran_Suc: "ran (Suc n) cs = ran n cs @ (case runs n cs of None \<Rightarrow> [] | Some c \<Rightarrow> [c])"
  by (simp add: ran_def)

lemma cr_calls_ran:
  assumes "crlist g = advance m cs"
  shows "ran m cs @ cr_calls n g = ran (m + n) cs"
  using assms
proof (induction n arbitrary: m g)
  case (Suc n)
  from Suc.IH [of "g\<lparr>crlist := advance (Suc m) cs\<rparr>" "Suc m"] show ?case
    using Suc.prems cr_sched_advance [of m cs] by (simp add: ucx_cr_schedule_def ran_Suc)
qed simp

lemma advance_fresh: "\<forall>c \<in> set cs. pcounter c = c_priority c \<Longrightarrow> advance 0 cs = cs"
  by (induction cs) (auto simp: period_pos)

lemma runs_member: "runs n cs = Some d \<Longrightarrow> d \<in> corotine ` set cs"
  by (induction n cs rule: runs.induct) (auto split: if_splits)

lemma ran_member: "d \<in> set (ran n cs) \<Longrightarrow> d \<in> corotine ` set cs"
  by (auto simp: ran_def dest: runs_member [OF sym] split: option.splits)

lemma ran_Cons:
  "count_list (ran n (c # cs)) d =
    (if d = corotine c then n div period c else 0) + count_list (ran (n - n div period c) cs) d"
proof (induction n)
  case (Suc n)
  show ?case
  proof (cases "Suc n mod period c = 0")
    case True
    then have "Suc n div period c = Suc (n div period c)" by (simp add: div_Suc)
    with True Suc show ?thesis by (simp add: ran_Suc)
  next
    case False
    then have "Suc n div period c = n div period c" by (simp add: div_Suc)
    with False Suc show ?thesis by (auto simp: ran_Suc Suc_diff_le split: option.splits)
  qed
qed (simp add: ran_def)

text \<open>The share of each coroutine of \<open>n\<close> calls.\<close>

fun shares :: "nat \<Rightarrow> ccb_s list \<Rightarrow> nat list" where
  "shares n [] = []"
| "shares n (c # cs) = n div period c # shares (n - n div period c) cs"

lemma ran_shares:
  assumes "distinct (map corotine cs)" and "i < length cs"
  shows "count_list (ran n cs) (corotine (cs ! i)) = shares n cs ! i"
  using assms
proof (induction cs arbitrary: i n)
  case (Cons c cs)
  show ?case
  proof (cases i)
    case 0
    have "corotine c \<notin> set (ran m cs)" for m using Cons.prems(1) ran_member by fastforce
    then have "count_list (ran m cs) (corotine c) = 0" for m by (simp add: count_list_0_iff)
    with 0 show ?thesis by (simp add: ran_Cons)
  next
    case (Suc j)
    with Cons.prems have "corotine (cs ! j) \<in> corotine ` set cs" by simp
    with Cons.prems(1) have "corotine (cs ! j) \<noteq> corotine c" by auto
    with Suc Cons show ?thesis by (simp add: ran_Cons)
  qed
qed simp

text \<open>
  The coroutines of a group share the calls of \<open>ucx_cr_schedule\<close> by their priorities. Of \<open>n\<close>
  calls the first coroutine gets every \<open>p\<close>-th, \<open>p\<close> its priority, 256 when that is 0, and each
  coroutine gets the same share of the calls that those before it left. So a coroutine of
  priority 1 starves all that were added after it.
\<close>

theorem coroutine_shares:
  assumes "\<forall>c \<in> set (crlist g). pcounter c = c_priority c" and "distinct (map corotine (crlist g))"
    and "i < length (crlist g)"
  shows "count_list (cr_calls n g) (corotine (crlist g ! i)) = shares n (crlist g) ! i"
proof -
  have "cr_calls n g = ran n (crlist g)"
    using cr_calls_ran [of g 0 "crlist g" n] advance_fresh [OF assms(1)] by (simp add: ran_def)
  with ran_shares [OF assms(2,3)] show ?thesis by simp
qed

section \<open>Examples\<close>

definition sample_timer :: timer_s where
  "sample_timer = \<lparr>timer_id = 0x6000, timer_cb = 64, t_time = 3, countdown = 3, timecmp = 0, mode = TIMER_DISABLED\<rparr>"

definition sample_timers :: timers where
  "sample_timers = \<lparr>timer_lst = Some [sample_timer], next_timer_id = 0x6001, last_tick = 0\<rparr>"

theorem timer_handler_fires_witness:
  "timer_handler 32 no_timers 9000 (snd (ucx_timer_start 5000 0x6000 TIMER_ONESHOT sample_timers)) =
    Inr ([0x6000], sample_timers\<lparr>timer_lst := Some [sample_timer\<lparr>timecmp := 8\<rparr>]\<rparr>)"
proof -
  let ?ts = "[sample_timer\<lparr>timecmp := 8, mode := TIMER_ONESHOT\<rparr>]"
  have start: "snd (ucx_timer_start 5000 0x6000 TIMER_ONESHOT sample_timers) = sample_timers\<lparr>timer_lst := Some ?ts\<rparr>"
    by (simp add: ucx_timer_start_def with_timer_def start_timer_def ucx_uptime_def sample_timers_def sample_timer_def)
  have "take_bit 32 (9 :: u64) = 9" by (simp add: take_bit_eq_mod)
  then show ?thesis
    using timer_handler_fires [of "sample_timers\<lparr>timer_lst := Some ?ts\<rparr>" ?ts 32 9000] unfolding start
    by (simp add: due_def pass_def fired_def rearm_def sample_timer_def)
qed

theorem one_shot_fires_once_witness:
  "\<exists>k1 cs k2. ucx_timer_start 5000 0x6000 TIMER_ONESHOT sample_timers = (0, k1) \<and>
    handler_passes 32 [6000, 9000, 20000] k1 = Inr (cs, k2) \<and> count_list cs 0x6000 = 1"
proof -
  have "unat (take_bit 32 (9 :: u64)) = 9" by (simp add: take_bit_eq_mod)
  then show ?thesis
    using one_shot_fires_once [of sample_timers "[sample_timer]" sample_timer 5000 32 "[6000, 9000, 20000]"]
    by (auto simp: sample_timers_def sample_timer_def)
qed

theorem late_timers_never_fire_witness:
  "\<exists>k1 cs k2. ucx_timer_start 4294967295000 0x6000 TIMER_AUTORELOAD sample_timers = (0, k1) \<and>
    handler_passes 32 [4294968000000, 4295000000000] k1 = Inr (cs, k2) \<and> 0x6000 \<notin> set cs"
  using late_timers_never_fire [of sample_timers "[sample_timer]" sample_timer 32 4294967295000 TIMER_AUTORELOAD
      "[4294968000000, 4295000000000]"]
  by (auto simp: sample_timers_def sample_timer_def)

theorem automatic_timer_keeps_period_witness:
  "\<exists>k1 cs k2. ucx_timer_start 5000 0x6000 TIMER_AUTORELOAD sample_timers = (0, k1) \<and>
    handler_passes 64 [6000, 7000, 8000, 9000, 10000, 11000, 12000] k1 = Inr (cs, k2) \<and> count_list cs 0x6000 = 2"
  using automatic_timer_keeps_period [of sample_timers "[sample_timer]" sample_timer 5000 7
      "[6000, 7000, 8000, 9000, 10000, 11000, 12000]"]
  by (auto simp: sample_timers_def sample_timer_def upt_rec)

definition sample_group :: cgroup_s where
  "sample_group = \<lparr>crlist = [\<lparr>corotine = 8, c_priority = 3, pcounter = 3\<rparr>, \<lparr>corotine = 16, c_priority = 2, pcounter = 2\<rparr>],
    fibers = 2\<rparr>"

theorem coroutine_shares_witness:
  "count_list (cr_calls 10 sample_group) 8 = 3 \<and> count_list (cr_calls 10 sample_group) 16 = 3"
  using coroutine_shares [of sample_group 0 10] coroutine_shares [of sample_group 1 10]
  by (auto simp: sample_group_def period_def)

end
