(* ===== verification/Native_Heap.thy ===== *)
theory Native_Heap
  imports C_Library
begin

unbundle bit_operations_syntax

text \<open>
  The heap of \<open>lib/malloc.c\<close>, the variant that is compiled without \<open>CONFIG_ALT_ALLOCATOR\<close> and
  \<open>CONFIG_POWER_ALLOC\<close>, on a target whose pointers and \<open>size_t\<close> have 32 bits: first fit on a list
  of blocks, each behind a header of 8 bytes, with coalescing on demand. \<open>blk\<close> is the header
  at an address, \<open>bytes\<close> the memory behind the headers. The loops are partial functions:
  \<open>None\<close> is a loop that does not end. A critical section is one step.

  The theory shows that \<open>malloc\<close> returns on a well-formed heap, that it keeps the heap
  well-formed and the blocks in use as they are, that the block it adds is as large as asked
  and lies apart from the others, and when it fails.
\<close>

section \<open>Operations\<close>

record mem_block_s =
  b_next :: u32
  b_size :: u32

type_synonym blocks = "u32 \<Rightarrow> mem_block_s"

record heap_s =
  blk :: blocks
  first_free :: u32
  last_free :: u32
  bytes :: memory

definition align4 :: "u32 \<Rightarrow> u32" where
  "align4 x = push_bit 2 (drop_bit 2 (x + 3))"

definition in_use :: "blocks \<Rightarrow> u32 \<Rightarrow> bool" where
  "in_use h p \<longleftrightarrow> b_size (h p) AND 1 \<noteq> 0"

definition ucx_heap_init :: "u32 \<Rightarrow> u32 \<Rightarrow> heap_s \<Rightarrow> heap_s" where
  "ucx_heap_init zone len k =
     (let q = zone + len - 8; len = align4 len
      in k\<lparr>blk := (blk k)(zone := \<lparr>b_next = q, b_size = len - 8 - 8\<rparr>, q := \<lparr>b_next = 0, b_size = 0\<rparr>),
           first_free := zone, last_free := zone\<rparr>)"

definition ucx_free :: "u32 \<Rightarrow> heap_s \<Rightarrow> heap_s" where
  "ucx_free ptr k =
     (let p = ptr - 8
      in k\<lparr>blk := (blk k)(p := (blk k p)\<lparr>b_size := b_size (blk k p) AND NOT 1\<rparr>), last_free := first_free k\<rparr>)"

text \<open>The two inner loops of \<open>ucx_malloc\<close>, and the outer one.\<close>

partial_function (option) skip_used :: "blocks \<Rightarrow> u32 \<Rightarrow> u32 \<Rightarrow> (u32 \<times> u32) option" where
  "skip_used h p q = (if in_use h p then skip_used h (b_next (h p)) (b_next (h p)) else Some (p, q))"

partial_function (option) skip_free :: "blocks \<Rightarrow> u32 \<Rightarrow> u32 option" where
  "skip_free h p = (if \<not> in_use h p \<and> b_next (h p) \<noteq> 0 then skip_free h (b_next (h p)) else Some p)"

partial_function (option) malloc_scan :: "u32 \<Rightarrow> blocks \<Rightarrow> u32 \<Rightarrow> u32 \<Rightarrow> (blocks \<times> u32) option" where
  "malloc_scan n h p q =
     (if b_next (h p) = 0 then Some (h, p)
      else case skip_used h p q of None \<Rightarrow> None
        | Some (p1, q1) \<Rightarrow>
            (case skip_free h p1 of None \<Rightarrow> None
             | Some p2 \<Rightarrow>
                 let h1 = (if p2 \<noteq> 0 then h(q1 := \<lparr>b_next = p2, b_size = p2 - q1 - 8\<rparr>) else h)
                 in if b_size (h1 q1) \<ge> n + 8 then Some (h1, q1) else malloc_scan n h1 p2 q1))"

definition ucx_malloc :: "u32 \<Rightarrow> heap_s \<Rightarrow> (u32 \<times> heap_s) option" where
  "ucx_malloc sz k =
     (let n = align4 sz in
      case malloc_scan n (blk k) (last_free k) (last_free k) of None \<Rightarrow> None
      | Some (h, p) \<Rightarrow>
          let r = b_next (h p) in
          if r = 0 then Some (0, k\<lparr>blk := h\<rparr>)
          else
            let f = p + n + 8;
                h1 = h(p := \<lparr>b_next = f, b_size = n OR 1\<rparr>);
                h2 = h1(f := \<lparr>b_next = r, b_size = (b_size (h1 p) AND NOT 1) - n - 8\<rparr>)
            in Some (p + 8, k\<lparr>blk := h2, last_free := p\<rparr>))"

definition ucx_calloc :: "u32 \<Rightarrow> u32 \<Rightarrow> heap_s \<Rightarrow> (u32 \<times> heap_s) option" where
  "ucx_calloc sz type_size k =
     (case ucx_malloc (sz * type_size) k of None \<Rightarrow> None
      | Some (buf, k1) \<Rightarrow>
          Some (buf, if buf \<noteq> 0 then k1\<lparr>bytes := ucx_memset buf 0 (sz * type_size) (bytes k1)\<rparr> else k1))"

definition ucx_realloc :: "u32 \<Rightarrow> u32 \<Rightarrow> heap_s \<Rightarrow> (u32 \<times> heap_s) option" where
  "ucx_realloc ptr sz k =
     (if sint sz < 0 then Some (0, k)
      else if ptr = 0 then ucx_malloc sz k
      else case ucx_malloc sz k of None \<Rightarrow> None
        | Some (buf, k1) \<Rightarrow>
            Some (buf, if buf \<noteq> 0 then ucx_free ptr (k1\<lparr>bytes := ucx_memcpy buf ptr sz (bytes k1)\<rparr>) else k1))"


section \<open>Well-formed heaps\<close>

definition block_ok :: "blocks \<Rightarrow> u32 \<Rightarrow> bool \<Rightarrow> bool" where
  "block_ok h a u \<longleftrightarrow> 4 dvd unat a \<and> unat a + 8 \<le> unat (b_next (h a)) \<and> in_use h a = u \<and>
     (u \<longrightarrow> b_size (h a) = (b_next (h a) - a - 8) OR 1)"

text \<open>The blocks from \<open>p\<close> up to \<open>e\<close>: their addresses, and whether they are in use.\<close>

fun heap_seg :: "blocks \<Rightarrow> u32 \<Rightarrow> (u32 \<times> bool) list \<Rightarrow> u32 \<Rightarrow> bool" where
  "heap_seg h p [] e \<longleftrightarrow> p = e"
| "heap_seg h p ((a, u) # bs) e \<longleftrightarrow> p = a \<and> block_ok h a u \<and> heap_seg h (b_next (h a)) bs e"

definition sentinel :: "blocks \<Rightarrow> u32 \<Rightarrow> bool" where
  "sentinel h e \<longleftrightarrow> b_next (h e) = 0 \<and> \<not> in_use h e \<and> 4 dvd unat e \<and> unat e + 8 \<le> 2 ^ 32"

text \<open>The last block before the sentinel is always free, so the scan never falls off the list.\<close>

definition heap_inv :: "heap_s \<Rightarrow> (u32 \<times> bool) list \<Rightarrow> u32 \<Rightarrow> bool" where
  "heap_inv k bs e \<longleftrightarrow> heap_seg (blk k) (first_free k) bs e \<and> sentinel (blk k) e \<and> bs \<noteq> [] \<and> \<not> snd (last bs) \<and>
     (last_free k = first_free k \<or> (last_free k, True) \<in> set bs)"

abbreviation start :: "(u32 \<times> bool) list \<Rightarrow> u32 \<Rightarrow> u32" where
  "start bs e \<equiv> (case bs of [] \<Rightarrow> e | b # _ \<Rightarrow> fst b)"

lemma heap_seg_start: "heap_seg h p bs e \<Longrightarrow> p = start bs e"
  by (cases bs) auto

lemma heap_seg_append: "heap_seg h p (xs @ ys) e \<longleftrightarrow> (\<exists>m. heap_seg h p xs m \<and> heap_seg h m ys e)"
  by (induction xs arbitrary: p) auto

lemma heap_seg_cong: "(\<And>a. a \<in> fst ` set bs \<Longrightarrow> h' a = h a) \<Longrightarrow> heap_seg h' p bs e = heap_seg h p bs e"
  by (induction bs arbitrary: p) (auto simp: block_ok_def in_use_def)

lemma heap_seg_bounds:
  assumes "heap_seg h p bs e"
  shows "unat p \<le> unat e" "b \<in> set bs \<Longrightarrow> unat p \<le> unat (fst b) \<and> unat (fst b) + 8 \<le> unat e"
proof -
  have "unat p \<le> unat e \<and> (\<forall>b \<in> set bs. unat p \<le> unat (fst b) \<and> unat (fst b) + 8 \<le> unat e)"
    using assms by (induction bs arbitrary: p) (force simp: block_ok_def)+
  then show "unat p \<le> unat e" "b \<in> set bs \<Longrightarrow> unat p \<le> unat (fst b) \<and> unat (fst b) + 8 \<le> unat e" by auto
qed

lemma heap_seg_after: "heap_seg h p (b # bs) e \<Longrightarrow> c \<in> set bs \<Longrightarrow> unat p + 8 \<le> unat (fst c)"
  using heap_seg_bounds(2) [of h "b_next (h (fst b))" bs e c] by (cases b) (auto simp: block_ok_def)

lemma heap_seg_distinct: "heap_seg h p bs e \<Longrightarrow> distinct (map fst bs)"
proof (induction bs arbitrary: p)
  case (Cons b bs)
  then show ?case using heap_seg_after [OF Cons.prems] by (cases b) fastforce
qed simp

lemma aligned_diff: "4 dvd unat (a :: u32) \<Longrightarrow> 4 dvd unat b \<Longrightarrow> unat a + 8 \<le> unat b \<Longrightarrow>
  unat (b - a - 8) = unat b - unat a - 8 \<and> 4 dvd unat (b - a - 8)"
proof -
  assume a: "4 dvd unat (a :: u32)" "4 dvd unat b" "unat a + 8 \<le> unat b"
  then have d: "unat (b - a) = unat b - unat a" by (simp add: unat_diff word_le_nat_alt)
  then have "unat (b - a - 8) = unat b - unat a - 8" using a by (simp add: unat_diff word_le_nat_alt)
  moreover have "4 dvd unat b - unat a - 8" using a by (intro dvd_diff_nat) auto
  ultimately show ?thesis by simp
qed

lemma and_one: "(x :: u32) AND 1 \<noteq> 0 \<longleftrightarrow> odd (unat x)"
  by (simp add: and_one_eq odd_iff_mod_2_eq_one unat_eq_zero [symmetric] unat_mod del: unat_eq_zero)

lemma or_one_in_use: "((x :: u32) OR 1) AND 1 \<noteq> 0"
proof -
  have "(x OR 1) AND 1 = 1" by (rule bit_word_eqI) (auto simp: bit_simps)
  then show ?thesis by simp
qed


section \<open>The scan\<close>

lemma skip_used_seg:
  assumes "heap_seg h p bs e" and "\<not> in_use h e"
  shows "skip_used h p q = Some (start (dropWhile snd bs) e, if takeWhile snd bs = [] then q else start (dropWhile snd bs) e)"
  using assms
proof (induction bs arbitrary: p q)
  case (Cons b bs)
  have "dropWhile snd bs = bs" if "takeWhile snd bs = []" using that by (cases bs) auto
  with Cons show ?case by (cases b; subst skip_used.simps) (auto simp: block_ok_def dest: heap_seg_start)
qed (simp add: skip_used.simps)

abbreviation is_free :: "u32 \<times> bool \<Rightarrow> bool" where
  "is_free b \<equiv> \<not> snd b"

lemma skip_free_seg:
  assumes "heap_seg h p bs e" and "b_next (h e) = 0"
  shows "skip_free h p = Some (start (dropWhile is_free bs) e)"
  using assms
proof (induction bs arbitrary: p)
  case (Cons b bs)
  then show ?case by (cases b; subst skip_free.simps) (auto simp: block_ok_def)
qed (simp add: skip_free.simps)

text \<open>What a scan for \<open>n\<close> bytes makes of the blocks \<open>bs\<close>: it joins free blocks.\<close>

definition fits :: "u32 \<Rightarrow> u32 \<Rightarrow> u32 \<Rightarrow> bool" where
  "fits n a b \<longleftrightarrow> n + 8 \<le> b - a - 8"

text \<open>The longest runs of free blocks: where they start and where they end.\<close>

function free_runs :: "(u32 \<times> bool) list \<Rightarrow> u32 \<Rightarrow> (u32 \<times> u32) list" where
  "free_runs [] e = []"
| "free_runs ((a, True) # bs) e = free_runs bs e"
| "free_runs ((a, False) # bs) e = (a, start (dropWhile is_free bs) e) # free_runs (dropWhile is_free bs) e"
  by pat_completeness auto
termination by (relation "measure (\<lambda>(bs, e). length bs)") (auto simp: le_imp_less_Suc length_dropWhile_le)

definition scanned :: "u32 \<Rightarrow> blocks \<Rightarrow> u32 \<Rightarrow> (u32 \<times> bool) list \<Rightarrow> u32 \<Rightarrow> blocks \<Rightarrow> (u32 \<times> bool) list \<Rightarrow> u32 \<Rightarrow> bool" where
  "scanned n h p bs e h' bs' r \<longleftrightarrow> heap_seg h' p bs' e \<and> filter snd bs' = filter snd bs \<and>
     (\<forall>a. (a, False) \<notin> set bs \<longrightarrow> h' a = h a) \<and> (bs' = [] \<longleftrightarrow> bs = []) \<and> (bs \<noteq> [] \<longrightarrow> is_free (last bs')) \<and>
     (r = e \<and> (\<forall>(a, b) \<in> set (free_runs bs e). \<not> fits n a b) \<or>
      (\<exists>(a, b) \<in> set (free_runs bs e). fits n a b) \<and>
      (r, False) \<in> set bs' \<and> b_size (h' r) = b_next (h' r) - r - 8 \<and> fits n r (b_next (h' r)))"

lemma join_run:
  assumes "heap_seg h p ((a, False) # fs @ ys) e" and "\<forall>f \<in> set fs. is_free f" and "4 dvd unat e"
  shows "heap_seg (h(a := \<lparr>b_next = start ys e, b_size = start ys e - a - 8\<rparr>)) a ((a, False) # ys) e"
proof -
  let ?h = "h(a := \<lparr>b_next = start ys e, b_size = start ys e - a - 8\<rparr>)"
  from assms(1) obtain m where m: "heap_seg h (b_next (h a)) fs m" "heap_seg h m ys e" "block_ok h a False"
    by (auto simp: heap_seg_append)
  then have e: "m = start ys e" using heap_seg_start by blast
  have le: "unat a + 8 \<le> unat m" using m(3) heap_seg_bounds(1) [OF m(1)] by (simp add: block_ok_def)
  have "4 dvd unat m" using m(2) assms(3) by (cases ys) (auto simp: block_ok_def)
  with aligned_diff [of a m] m(3) le have "4 dvd unat (m - a - 8)" by (auto simp: block_ok_def)
  then have "\<not> in_use ?h a" by (auto simp: in_use_def and_one e)
  moreover have "heap_seg ?h m ys e = heap_seg h m ys e"
  proof (rule heap_seg_cong)
    fix b
    assume "b \<in> fst ` set ys"
    then have "b \<noteq> a" using heap_seg_bounds(2) [OF m(2)] le by force
    then show "?h b = h b" by simp
  qed
  ultimately show ?thesis using m(2,3) le e by (simp add: block_ok_def)
qed


lemma free_runs_used: "\<forall>b \<in> set us. snd b \<Longrightarrow> free_runs (us @ bs) e = free_runs bs e"
  by (induction us) auto

lemma first_run:
  assumes "bs \<noteq> []" and "is_free (last bs)"
  obtains us a fs ys where "bs = us @ (a, False) # fs @ ys" and "\<forall>b \<in> set us. snd b" and "\<forall>b \<in> set fs. is_free b"
    and "ys \<noteq> [] \<Longrightarrow> snd (hd ys)" and "dropWhile is_free (fs @ ys) = ys"
    and "takeWhile snd bs = us" and "dropWhile snd bs = (a, False) # fs @ ys"
proof -
  have ne: "dropWhile snd bs \<noteq> []"
    using assms last_in_set [of bs] by (auto simp: dropWhile_eq_Nil_conv)
  then obtain a rs where rs: "dropWhile snd bs = (a, False) # rs"
    using hd_dropWhile [OF ne] by (cases "dropWhile snd bs") auto
  have "dropWhile is_free rs \<noteq> [] \<Longrightarrow> snd (hd (dropWhile is_free rs))" using hd_dropWhile [of is_free rs] by auto
  then show ?thesis
    using that [of "takeWhile snd bs" a "takeWhile is_free rs" "dropWhile is_free rs"] takeWhile_dropWhile_id [of snd bs] rs
    by (auto dest: set_takeWhileD)
qed

lemma scan_terminates:
  assumes "heap_seg h p bs e" and "sentinel h e" and "bs \<noteq> [] \<Longrightarrow> is_free (last bs)"
    and "bs \<noteq> [] \<Longrightarrow> is_free (hd bs) \<Longrightarrow> q = p"
  shows "\<exists>h' bs' r. malloc_scan n h p q = Some (h', r) \<and> scanned n h p bs e h' bs' r"
  using assms
proof (induction "length bs" arbitrary: h p bs q rule: less_induct)
  case less
  note sent = less.prems(2)
  show ?case
  proof (cases "bs = []")
    case True
    then have "p = e" using less.prems(1) by simp
    then have "malloc_scan n h p q = Some (h, e)" using sent by (subst malloc_scan.simps) (simp add: sentinel_def)
    moreover have "scanned n h p bs e h [] e" using True less.prems(1) by (simp add: scanned_def)
    ultimately show ?thesis by blast
  next
    case False
    obtain us a fs ys where bs: "bs = us @ (a, False) # fs @ ys" and us: "\<forall>b \<in> set us. snd b"
      and fs: "\<forall>b \<in> set fs. is_free b" and ys: "ys \<noteq> [] \<Longrightarrow> snd (hd ys)" and dw: "dropWhile is_free (fs @ ys) = ys"
      and split: "takeWhile snd bs = us" "dropWhile snd bs = (a, False) # fs @ ys"
      using first_run [OF False less.prems(3) [OF False]] by blast
    have seg: "heap_seg h p us a" "heap_seg h a ((a, False) # fs @ ys) e"
      using less.prems(1) unfolding bs by (auto simp: heap_seg_append)
    let ?p2 = "start ys e"
    have "b_next (h p) \<noteq> 0" using less.prems(1) False by (cases bs) (auto simp: block_ok_def)
    have "us = [] \<Longrightarrow> q = a" using less.prems(4) heap_seg_start [OF less.prems(1)] bs by auto
    then have su: "skip_used h p q = Some (a, a)"
      using skip_used_seg [OF less.prems(1)] sent split by (auto simp: sentinel_def)
    have sf: "skip_free h a = Some ?p2" using skip_free_seg [OF seg(2)] sent dw by (simp add: sentinel_def)
    define h1 where "h1 = h(a := \<lparr>b_next = ?p2, b_size = ?p2 - a - 8\<rparr>)"
    have joined: "heap_seg h1 a ((a, False) # ys) e"
      using join_run [OF seg(2) fs] sent unfolding h1_def by (simp add: sentinel_def)
    have dist: "distinct (map fst (us @ (a, False) # ys))"
      using heap_seg_distinct [OF less.prems(1)] unfolding bs by auto
    then have "h1 x = h x" if "x \<in> fst ` set us" for x using that by (auto simp: h1_def)
    from heap_seg_cong [OF this] have "heap_seg h1 p us a" using seg(1) by simp
    with joined have seg1: "heap_seg h1 p (us @ (a, False) # ys) e" by (auto simp: heap_seg_append)
    have "unat a + 8 \<le> unat ?p2" using joined by (simp add: block_ok_def h1_def)
    then have p2: "?p2 \<noteq> 0" by (auto simp: unat_eq_zero)
    have used: "filter snd bs = us @ filter snd ys"
      using us fs unfolding bs by (auto simp: filter_id_conv filter_empty_conv)
    have runs: "free_runs bs e = (a, ?p2) # free_runs ys e"
      using free_runs_used [OF us] dw unfolding bs by simp
    have last1: "ys \<noteq> [] \<Longrightarrow> is_free (last ys)" using less.prems(3) [OF False] unfolding bs by auto
    have scan: "malloc_scan n h p q = (if fits n a ?p2 then Some (h1, a) else malloc_scan n h1 ?p2 a)"
      using \<open>b_next (h p) \<noteq> 0\<close> su sf p2 by (subst malloc_scan.simps) (simp add: h1_def Let_def fits_def)
    show ?thesis
    proof (cases "fits n a ?p2")
      case True
      have "scanned n h p bs e h1 (us @ (a, False) # ys) a"
        unfolding scanned_def runs used using seg1 True last1 us by (auto simp: h1_def bs filter_id_conv)
      with True scan show ?thesis by auto
    next
      case nofit: False
      have "a \<noteq> e" using heap_seg_bounds(2) [OF less.prems(1), of "(a, False)"] by (auto simp: bs)
      then have sent1: "sentinel h1 e" using sent by (simp add: sentinel_def h1_def in_use_def)
      have "heap_seg h1 ?p2 ys e" using joined by (simp add: h1_def)
      moreover have "length ys < length bs" by (simp add: bs)
      ultimately obtain h' bs' r where IH: "malloc_scan n h1 ?p2 a = Some (h', r)" "scanned n h1 ?p2 ys e h' bs' r"
        using less.hyps [of ys h1 ?p2 a] sent1 last1 ys by blast
      have frame: "h' x = h1 x" if "x \<in> fst ` set (us @ [(a, False)])" for x
      proof -
        have "x \<notin> fst ` set ys" using that dist by auto
        then have "(x, False) \<notin> set ys" by force
        then show ?thesis using IH(2) unfolding scanned_def by blast
      qed
      have "scanned n h p bs e h' (us @ (a, False) # bs') r"
      proof -
        have us': "heap_seg h' p us a" using heap_seg_cong [of us h' h1 p a] frame \<open>heap_seg h1 p us a\<close> by auto
        have "h' a = h1 a" by (rule frame) simp
        then have "heap_seg h' a ((a, False) # bs') e"
          using IH(2) joined by (simp add: scanned_def block_ok_def in_use_def h1_def)
        with us' have "heap_seg h' p (us @ (a, False) # bs') e" by (auto simp: heap_seg_append)
        moreover have "filter snd (us @ (a, False) # bs') = filter snd bs"
          using IH(2) us used by (simp add: scanned_def filter_id_conv)
        moreover have "h' x = h x" if "(x, False) \<notin> set bs" for x
          using IH(2) that by (auto simp: scanned_def bs h1_def)
        moreover have "is_free (last (us @ (a, False) # bs'))" using IH(2) by (auto simp: scanned_def)
        ultimately show ?thesis using IH(2) nofit False unfolding scanned_def runs by auto
      qed
      with nofit scan IH(1) show ?thesis by auto
    qed
  qed
qed


section \<open>Blocks in use\<close>

text \<open>The areas that are handed out: from behind the header to the next block.\<close>

definition allocated :: "blocks \<Rightarrow> (u32 \<times> bool) list \<Rightarrow> (nat \<times> nat) set" where
  "allocated h bs = (\<lambda>(a, _). (unat a + 8, unat (b_next (h a)))) ` set (filter snd bs)"

lemma heap_seg_next: "heap_seg h p (xs @ (a, u) # ys) e \<Longrightarrow> b_next (h a) = start ys e"
  by (auto simp: heap_seg_append dest: heap_seg_start)

lemma heap_seg_block: "heap_seg h p bs e \<Longrightarrow> (a, u) \<in> set bs \<Longrightarrow> block_ok h a u \<and> unat (b_next (h a)) \<le> unat e"
proof -
  assume seg: "heap_seg h p bs e" and "(a, u) \<in> set bs"
  then obtain xs ys where bs: "bs = xs @ (a, u) # ys" by (auto simp: in_set_conv_decomp)
  then show ?thesis using seg heap_seg_bounds(1) [of h "b_next (h a)" ys e] by (auto simp: heap_seg_append)
qed

text \<open>Two blocks of a heap do not overlap.\<close>

lemma heap_seg_disjoint:
  assumes "heap_seg h p bs e" and "(a, u) \<in> set bs" and "(b, v) \<in> set bs" and "a \<noteq> b"
  shows "unat (b_next (h a)) \<le> unat b \<or> unat (b_next (h b)) \<le> unat a"
  using assms
proof (induction bs arbitrary: p)
  case (Cons c bs)
  have below: "unat (b_next (h (fst c))) \<le> unat d" if "(d, w) \<in> set bs" for d w
    using Cons.prems(1) heap_seg_bounds(2) [of h "b_next (h (fst c))" bs e "(d, w)"] that by (cases c) auto
  from Cons show ?case using below by (cases c) auto
qed simp

lemma used_before: "filter snd bs' = filter snd bs \<Longrightarrow> (a, True) \<in> set bs' \<longleftrightarrow> (a, True) \<in> set bs"
proof -
  have "(a, True) \<in> set xs \<longleftrightarrow> (a, True) \<in> set (filter snd xs)" for xs by simp
  then show "filter snd bs' = filter snd bs \<Longrightarrow> ?thesis" by metis
qed

lemma scanned_allocated:
  assumes "scanned n h p bs e h' bs' r" and "heap_seg h p bs e"
  shows "allocated h' bs' = allocated h bs"
proof -
  have "h' a = h a" if "(a, True) \<in> set bs" for a
  proof -
    have "(a, False) \<notin> set bs" using that eq_key_imp_eq_value [OF heap_seg_distinct [OF assms(2)]] by blast
    with assms(1) show ?thesis by (simp add: scanned_def)
  qed
  moreover have "filter snd bs' = filter snd bs" using assms(1) by (simp add: scanned_def)
  ultimately show ?thesis unfolding allocated_def by (intro image_cong) auto
qed

lemma allocated_append: "allocated h (xs @ ys) = allocated h xs \<union> allocated h ys"
  by (simp add: allocated_def image_Un)

lemma allocated_cong: "(\<And>a. a \<in> fst ` set bs \<Longrightarrow> h' a = h a) \<Longrightarrow> allocated h' bs = allocated h bs"
  unfolding allocated_def by (rule image_cong) force+

lemma mult4_bit0: "4 dvd unat (n :: u32) \<Longrightarrow> \<not> bit n 0"
proof -
  assume "4 dvd unat n"
  then have "even (unat n)" by (rule dvd_trans [rotated]) simp
  with and_one [of n] show ?thesis by (simp add: and_one_eq bit_0 odd_iff_mod_2_eq_one)
qed

lemma untag: "4 dvd unat (n :: u32) \<Longrightarrow> (n OR 1) AND NOT 1 = n"
  using mult4_bit0 [of n] by (intro bit_word_eqI) (auto simp: bit_simps intro: gr0I)

text \<open>Cutting a block of \<open>n\<close> bytes off the free block \<open>r\<close>.\<close>

lemma carve_block:
  assumes seg: "heap_seg h p (xs @ (r, False) # ys) e" and e: "4 dvd unat e"
    and n: "4 dvd unat n" "unat n + 8 < 2 ^ 32" and fit: "fits n r (b_next (h r))"
  defines "f \<equiv> r + n + 8"
  defines "h2 \<equiv> h(r := \<lparr>b_next = f, b_size = n OR 1\<rparr>, f := \<lparr>b_next = b_next (h r), b_size = ((n OR 1) AND NOT 1) - n - 8\<rparr>)"
  shows "heap_seg h2 p (xs @ (r, True) # (f, False) # ys) e" "unat f = unat r + 8 + unat n"
    "unat f + 8 \<le> unat (b_next (h r))" "\<And>a. a \<in> fst ` set (xs @ ys) \<Longrightarrow> h2 a = h a"
proof -
  let ?m = "b_next (h r)"
  have parts: "heap_seg h p xs r" "block_ok h r False" "heap_seg h ?m ys e" using seg by (auto simp: heap_seg_append)
  have m: "4 dvd unat ?m" using parts(3) e by (cases ys) (auto simp: block_ok_def)
  have r: "4 dvd unat r" "unat r + 8 \<le> unat ?m" using parts(2) by (auto simp: block_ok_def)
  have "unat (n + 8) = unat n + 8" using n(2) unat_add_lem [of n 8] by simp
  with fit aligned_diff [OF r(1) m r(2)] have le: "unat r + 8 + unat n + 8 \<le> unat ?m"
    by (simp add: fits_def word_le_nat_alt)
  have "unat ?m < 2 ^ 32" using unsigned_less [of ?m, where ?'a = nat] by simp
  with le have "unat (r + n) = unat r + unat n" by (subst unat_add_lem [THEN iffD1]) auto
  then show f: "unat f = unat r + 8 + unat n"
    using le \<open>unat ?m < 2 ^ 32\<close> unfolding f_def by (subst unat_add_lem [THEN iffD1]) auto
  with le show fm: "unat f + 8 \<le> unat ?m" by simp
  have rf: "r \<noteq> f" using f by auto
  show fr: "h2 a = h a" if "a \<in> fst ` set (xs @ ys)" for a
  proof -
    have "a \<noteq> r" using that heap_seg_distinct [OF seg] by force
    moreover have "a \<noteq> f"
      using that heap_seg_bounds(2) [OF parts(1)] heap_seg_bounds(2) [OF parts(3)] f fm by force
    ultimately show ?thesis by (simp add: h2_def)
  qed
  have "f - r - 8 = n" by (simp add: f_def)
  then have "block_ok h2 r True" using r(1) f rf or_one_in_use [of n] by (simp add: block_ok_def h2_def in_use_def)
  moreover have "\<not> in_use h2 f" using untag [OF n(1)] by (simp add: in_use_def h2_def)
  then have "block_ok h2 f False" using fm f r(1) n(1) by (simp add: block_ok_def h2_def)
  moreover have "heap_seg h2 p xs r" "heap_seg h2 ?m ys e"
    using parts(1,3) fr by (auto intro: heap_seg_cong [THEN iffD2])
  ultimately show "heap_seg h2 p (xs @ (r, True) # (f, False) # ys) e"
    using rf by (auto simp: heap_seg_append h2_def)
qed


section \<open>Allocation\<close>

lemma align4_value:
  assumes "unat x \<le> 2 ^ 32 - 4"
  shows "4 dvd unat (align4 x)" "unat x \<le> unat (align4 x)" "unat (align4 x) < unat x + 4"
proof -
  have "unat (x + 3) = unat x + 3" using assms unat_add_lem [of x 3] by simp
  moreover have "unat (align4 x) = unat (x + 3) div 4 * 4"
  proof -
    have "align4 x = x + 3 - take_bit 2 (x + 3)"
      unfolding align4_def by (metis add_diff_cancel_right' bits_ident)
    moreover have "take_bit 2 (x + 3) = (x + 3) mod 4" by (simp add: take_bit_eq_mod)
    ultimately have "align4 x = (x + 3) div 4 * 4" by (simp add: minus_mod_eq_div_mult)
    moreover have "unat ((x + 3) div 4 * 4) = unat (x + 3) div 4 * 4"
      using unsigned_less [of "x + 3", where ?'a = nat] by (simp add: unat_word_ariths unat_div)
    ultimately show ?thesis by simp
  qed
  ultimately have v: "unat (align4 x) = (unat x + 3) div 4 * 4" by simp
  show "4 dvd unat (align4 x)" "unat x \<le> unat (align4 x)" "unat (align4 x) < unat x + 4" unfolding v by presburger+
qed

lemma heap_inv_split:
  assumes "heap_inv k bs e"
  obtains pre sub where "bs = pre @ sub" "heap_seg (blk k) (first_free k) pre (last_free k)"
    "heap_seg (blk k) (last_free k) sub e" "sub \<noteq> []" "pre = [] \<and> last_free k = first_free k \<or> (last_free k, True) \<in> set sub"
proof (cases "(last_free k, True) \<in> set bs")
  case True
  then obtain pre sub where "bs = pre @ (last_free k, True) # sub" by (auto simp: in_set_conv_decomp)
  with assms that [of pre "(last_free k, True) # sub"] show ?thesis
    by (auto simp: heap_inv_def heap_seg_append)
next
  case False
  with assms that [of "[]" bs] show ?thesis by (auto simp: heap_inv_def)
qed

text \<open>The blocks a call of \<open>malloc\<close> looks at: those from \<open>last_free\<close> on.\<close>

definition searched :: "heap_s \<Rightarrow> (u32 \<times> bool) list \<Rightarrow> (u32 \<times> bool) list" where
  "searched k bs = dropWhile (\<lambda>b. fst b \<noteq> last_free k) bs"

text \<open>The heap after the scan of a well-formed heap.\<close>

lemma scan_heap:
  assumes "heap_inv k bs e"
  obtains h bs' r where "malloc_scan n (blk k) (last_free k) (last_free k) = Some (h, r)"
    "heap_inv (k\<lparr>blk := h\<rparr>) bs' e" "filter snd bs' = filter snd bs" "allocated h bs' = allocated (blk k) bs"
    "r = e \<or> (r, False) \<in> set bs' \<and> b_size (h r) = b_next (h r) - r - 8 \<and> fits n r (b_next (h r))"
    "r = e \<longleftrightarrow> (\<forall>(a, b) \<in> set (free_runs (searched k bs) e). \<not> fits n a b)"
proof -
  obtain pre sub where bs: "bs = pre @ sub" and pre: "heap_seg (blk k) (first_free k) pre (last_free k)"
    and sub: "heap_seg (blk k) (last_free k) sub e" "sub \<noteq> []"
    and lf: "pre = [] \<and> last_free k = first_free k \<or> (last_free k, True) \<in> set sub"
    using heap_inv_split [OF assms] by blast
  have inv: "sentinel (blk k) e" "is_free (last sub)" "heap_seg (blk k) (first_free k) bs e"
    using assms sub(2) by (auto simp: heap_inv_def bs)
  obtain h sub' r where scan: "malloc_scan n (blk k) (last_free k) (last_free k) = Some (h, r)"
    and scanned: "scanned n (blk k) (last_free k) sub e h sub' r"
    using scan_terminates [OF sub(1) inv(1), of "last_free k" n] inv(2) by blast
  have dist: "distinct (map fst bs)" by (rule heap_seg_distinct [OF inv(3)])
  have frame: "h x = blk k x" if "(x, False) \<notin> set sub" for x using scanned that by (simp add: scanned_def)
  have "h x = blk k x" if "x \<in> fst ` set pre" for x
  proof (rule frame)
    show "(x, False) \<notin> set sub" using that dist by (force simp: bs)
  qed
  then have pre': "heap_seg h (first_free k) pre (last_free k)" "allocated h pre = allocated (blk k) pre"
    using pre heap_seg_cong [of pre h "blk k"] allocated_cong [of pre h "blk k"] by simp_all
  have "(e, False) \<notin> set sub" using heap_seg_bounds(2) [OF sub(1), of "(e, False)"] by auto
  then have "sentinel h e" using inv(1) frame [of e] by (simp add: sentinel_def in_use_def)
  moreover have sub': "heap_seg h (last_free k) sub' e" "filter snd sub' = filter snd sub" "sub' \<noteq> []" "is_free (last sub')"
    using scanned sub(2) by (auto simp: scanned_def)
  moreover have "last_free k = first_free k \<or> (last_free k, True) \<in> set sub'"
    using lf used_before [OF sub'(2)] by blast
  ultimately have inv': "heap_inv (k\<lparr>blk := h\<rparr>) (pre @ sub') e" using pre'(1) by (auto simp: heap_inv_def heap_seg_append)
  have used': "filter snd (pre @ sub') = filter snd bs" using sub'(2) by (simp add: bs)
  have alloc': "allocated h (pre @ sub') = allocated (blk k) bs"
    using pre'(2) scanned_allocated [OF scanned sub(1)] by (simp add: bs allocated_append)
  have hit: "r = e \<and> (\<forall>(a, b) \<in> set (free_runs sub e). \<not> fits n a b) \<or> (\<exists>(a, b) \<in> set (free_runs sub e). fits n a b) \<and>
      (r, False) \<in> set sub' \<and> b_size (h r) = b_next (h r) - r - 8 \<and> fits n r (b_next (h r))"
    using scanned unfolding scanned_def by blast
  then have hit': "r = e \<or> (r, False) \<in> set (pre @ sub') \<and> b_size (h r) = b_next (h r) - r - 8 \<and> fits n r (b_next (h r))"
    by auto
  have "r = e \<longleftrightarrow> (\<forall>(a, b) \<in> set (free_runs (searched k bs) e). \<not> fits n a b)"
  proof -
    have "fst (hd sub) = last_free k" using heap_seg_start [OF sub(1)] sub(2) by (cases sub) auto
    then have "\<forall>b \<in> set pre. fst b \<noteq> last_free k" using dist sub(2) by (cases sub) (force simp: bs)+
    then have "searched k bs = sub"
      using \<open>fst (hd sub) = last_free k\<close> sub(2) by (cases sub) (auto simp: searched_def bs dropWhile_append2)
    moreover have "(e, False) \<notin> set sub'" using heap_seg_bounds(2) [OF sub'(1), of "(e, False)"] by auto
    ultimately show ?thesis using hit by auto
  qed
  then show ?thesis by (rule that [OF scan inv' used' alloc' hit'])
qed


lemma malloc_result:
  assumes inv: "heap_inv k bs e" and small: "unat sz \<le> 2 ^ 32 - 12"
  obtains ptr k' bs' where "ucx_malloc sz k = Some (ptr, k')" "heap_inv k' bs' e" "first_free k' = first_free k"
    "ptr = 0 \<Longrightarrow> allocated (blk k') bs' = allocated (blk k) bs"
    "ptr \<noteq> 0 \<Longrightarrow> allocated (blk k') bs' = insert (unat ptr, unat ptr + unat (align4 sz)) (allocated (blk k) bs) \<and>
      4 dvd unat ptr \<and> (ptr - 8, True) \<in> set bs' \<and> (ptr - 8, True) \<notin> set bs \<and> unat (ptr - 8) + 8 = unat ptr"
    "ptr = 0 \<longleftrightarrow> (\<forall>(a, b) \<in> set (free_runs (searched k bs) e). \<not> fits (align4 sz) a b)"
proof -
  let ?n = "align4 sz"
  have n: "4 dvd unat ?n" "unat ?n + 8 < 2 ^ 32" using align4_value [of sz] small by auto
  obtain h bs' r where scan: "malloc_scan ?n (blk k) (last_free k) (last_free k) = Some (h, r)"
    and inv': "heap_inv (k\<lparr>blk := h\<rparr>) bs' e" and used: "filter snd bs' = filter snd bs"
    and alloc: "allocated h bs' = allocated (blk k) bs"
    and hit: "r = e \<or> (r, False) \<in> set bs' \<and> b_size (h r) = b_next (h r) - r - 8 \<and> fits ?n r (b_next (h r))"
    and iff: "r = e \<longleftrightarrow> (\<forall>(a, b) \<in> set (free_runs (searched k bs) e). \<not> fits ?n a b)"
    using scan_heap [OF inv, of ?n] by metis
  show ?thesis
  proof (cases "r = e")
    case True
    then have "b_next (h r) = 0" using inv' by (simp add: heap_inv_def sentinel_def)
    then have "ucx_malloc sz k = Some (0, k\<lparr>blk := h\<rparr>)" using scan by (simp add: ucx_malloc_def)
    then show ?thesis by (rule that) (use inv' alloc iff True in auto)
  next
    case False
    with hit have r: "(r, False) \<in> set bs'" "fits ?n r (b_next (h r))" by auto
    then obtain xs ys where bs': "bs' = xs @ (r, False) # ys" by (auto simp: in_set_conv_decomp)
    have seg: "heap_seg h (first_free k) (xs @ (r, False) # ys) e" and sent: "sentinel h e"
      using inv' by (simp_all add: heap_inv_def bs')
    define f where "f = r + ?n + 8"
    define h2 where "h2 = h(r := \<lparr>b_next = f, b_size = ?n OR 1\<rparr>,
      f := \<lparr>b_next = b_next (h r), b_size = ((?n OR 1) AND NOT 1) - ?n - 8\<rparr>)"
    have "4 dvd unat e" using sent by (simp add: sentinel_def)
    note carve = carve_block [OF seg this n r(2), folded f_def, folded h2_def]
    have block: "block_ok h r False" "unat (b_next (h r)) \<le> unat e" using heap_seg_block [OF seg, of r False] by auto
    then have next0: "b_next (h r) \<noteq> 0" by (auto simp: block_ok_def unat_eq_zero)
    have r8: "unat (r + 8) = unat r + 8"
      using block unsigned_less [of e, where ?'a = nat] by (subst unat_add_lem [THEN iffD1]) (auto simp: block_ok_def)
    have "e \<noteq> r" "e \<noteq> f" using False block carve(3) by auto
    then have "sentinel h2 e" using sent by (simp add: sentinel_def h2_def in_use_def)
    moreover have "is_free (last (xs @ (r, True) # (f, False) # ys))" using inv' by (auto simp: heap_inv_def bs' split: if_splits)
    ultimately have "heap_inv (k\<lparr>blk := h2, last_free := r\<rparr>) (xs @ (r, True) # (f, False) # ys) e"
      using carve(1) by (simp add: heap_inv_def)
    moreover have "ucx_malloc sz k = Some (r + 8, k\<lparr>blk := h2, last_free := r\<rparr>)"
      using scan next0 by (simp add: ucx_malloc_def Let_def h2_def f_def)
    moreover have "allocated h2 (xs @ (r, True) # (f, False) # ys) =
        insert (unat (r + 8), unat (r + 8) + unat ?n) (allocated (blk k) bs)"
    proof -
      have "r \<noteq> f" using carve(2) by auto
      then have "b_next (h2 r) = f" by (simp add: h2_def)
      moreover have "allocated h2 (xs @ ys) = allocated h (xs @ ys)" by (rule allocated_cong) (rule carve(4))
      moreover have "allocated h (xs @ ys) = allocated (blk k) bs"
        unfolding alloc [symmetric] bs' by (simp add: allocated_def)
      ultimately show ?thesis using r8 carve(2) by (simp add: allocated_def insert_commute)
    qed
    moreover have "(r, True) \<notin> set bs"
      using used_before [OF used] eq_key_imp_eq_value [OF heap_seg_distinct [OF seg]] r(1) unfolding bs' by blast
    moreover have "4 dvd unat (r + 8)" using block r8 by (simp add: block_ok_def)
    moreover have "r + 8 \<noteq> 0" using r8 by auto
    ultimately show ?thesis
      using that [of "r + 8" "k\<lparr>blk := h2, last_free := r\<rparr>" "xs @ (r, True) # (f, False) # ys"] iff False r8 by auto
  qed
qed


lemma free_block:
  assumes inv: "heap_inv k bs e" and used: "(ptr - 8, True) \<in> set bs" and ptr: "unat (ptr - 8) + 8 = unat ptr"
  obtains bs' where "heap_inv (ucx_free ptr k) bs' e" "allocated (blk (ucx_free ptr k)) bs' = {(a, b) \<in> allocated (blk k) bs. a \<noteq> unat ptr}"
proof -
  let ?p = "ptr - 8" and ?k = "ucx_free ptr k"
  obtain xs ys where bs: "bs = xs @ (?p, True) # ys" using used by (auto simp: in_set_conv_decomp)
  have seg: "heap_seg (blk k) (first_free k) (xs @ (?p, True) # ys) e" and sent: "sentinel (blk k) e"
    and lst: "is_free (last bs)" using inv by (simp_all add: heap_inv_def bs)
  have dist: "distinct (map fst (xs @ (?p, True) # ys))" by (rule heap_seg_distinct [OF seg])
  have blk: "blk ?k = (blk k)(?p := (blk k ?p)\<lparr>b_size := b_size (blk k ?p) AND NOT 1\<rparr>)" by (simp add: ucx_free_def Let_def)
  have fr: "blk ?k a = blk k a" if "a \<in> fst ` set (xs @ ys)" for a
  proof -
    have "a \<noteq> ?p" using that dist by force
    then show ?thesis by (simp add: blk)
  qed
  have "(b_size (blk k ?p) AND NOT 1) AND 1 = 0" by (rule bit_word_eqI) (auto simp: bit_simps)
  then have "block_ok (blk ?k) ?p False" using seg by (auto simp: heap_seg_append block_ok_def in_use_def blk)
  moreover have "heap_seg (blk ?k) (first_free k) xs ?p" "heap_seg (blk ?k) (b_next (blk k ?p)) ys e"
    using seg fr by (auto simp: heap_seg_append intro: heap_seg_cong [THEN iffD2])
  ultimately have "heap_seg (blk ?k) (first_free k) (xs @ (?p, False) # ys) e" by (auto simp: heap_seg_append blk)
  moreover have "e \<noteq> ?p" using heap_seg_block [OF seg, of ?p True] by (auto simp: block_ok_def)
  then have "sentinel (blk ?k) e" using sent by (simp add: sentinel_def in_use_def blk)
  moreover have "is_free (last (xs @ (?p, False) # ys))" using lst by (auto simp: bs)
  ultimately have "heap_inv ?k (xs @ (?p, False) # ys) e" by (simp add: heap_inv_def ucx_free_def Let_def)
  moreover have "allocated (blk ?k) (xs @ (?p, False) # ys) = {(a, b) \<in> allocated (blk k) bs. a \<noteq> unat ptr}"
  proof -
    have "allocated (blk ?k) (xs @ (?p, False) # ys) = allocated (blk ?k) (xs @ ys)" by (simp add: allocated_def)
    also have "\<dots> = allocated (blk k) (xs @ ys)" by (rule allocated_cong) (rule fr)
    also have "\<dots> = {(a, b) \<in> allocated (blk k) bs. a \<noteq> unat ptr}"
    proof -
      have "unat a + 8 \<noteq> unat ptr" if "(a, u) \<in> set (xs @ ys)" for a u
      proof -
        have "a \<noteq> ?p" using that dist by force
        then have "unat a \<noteq> unat ?p" by (simp add: word_unat_eq_iff)
        then show ?thesis using ptr by linarith
      qed
      then show ?thesis using ptr by (auto simp: allocated_def bs)
    qed
    finally show ?thesis .
  qed
  ultimately show ?thesis by (rule that)
qed

lemma allocated_areas:
  assumes "heap_inv k bs e" and "(a, b) \<in> allocated (blk k) bs"
  shows "unat (first_free k) + 8 \<le> a" "a \<le> b" "b \<le> unat e"
    and "(c, d) \<in> allocated (blk k) bs \<Longrightarrow> b + 8 \<le> c \<or> d + 8 \<le> a \<or> (c, d) = (a, b)"
proof -
  have seg: "heap_seg (blk k) (first_free k) bs e" using assms(1) by (simp add: heap_inv_def)
  obtain x where x: "(x, True) \<in> set bs" "a = unat x + 8" "b = unat (b_next (blk k x))"
    using assms(2) by (auto simp: allocated_def)
  show "unat (first_free k) + 8 \<le> a" using heap_seg_bounds(2) [OF seg x(1)] x(2) by simp
  show "a \<le> b" "b \<le> unat e" using heap_seg_block [OF seg x(1)] x by (simp_all add: block_ok_def)
  assume "(c, d) \<in> allocated (blk k) bs"
  then obtain y where y: "(y, True) \<in> set bs" "c = unat y + 8" "d = unat (b_next (blk k y))"
    by (auto simp: allocated_def)
  with heap_seg_disjoint [OF seg x(1) y(1)] x show "b + 8 \<le> c \<or> d + 8 \<le> a \<or> (c, d) = (a, b)" by auto
qed

lemma heap_init_inv:
  assumes "4 dvd unat zone" and "4 dvd unat len" and "16 \<le> unat len" and "unat zone + unat len \<le> 2 ^ 32"
  shows "heap_inv (ucx_heap_init zone len k) [(zone, False)] (zone + len - 8)" "unat (zone + len - 8) + 8 = unat zone + unat len"
proof -
  let ?e = "zone + len - 8"
  have l8: "unat (len - 8) = unat len - 8" using assms(3) by (simp add: unat_diff word_le_nat_alt)
  have eq: "?e = zone + (len - 8)" by simp
  show e: "unat ?e + 8 = unat zone + unat len"
    unfolding eq using l8 assms(3,4) by (subst unat_add_lem [THEN iffD1]) auto
  have "unat len < 4294967296" using unsigned_less [of len, where ?'a = nat] by simp
  with assms(2) have "unat len \<le> 4294967292" by presburger
  then have le: "unat len \<le> 2 ^ 32 - 4" by simp
  then have "align4 len = len" using align4_value [OF le] assms(2) by (simp add: word_unat_eq_iff) presburger
  moreover have "zone \<noteq> ?e" using e assms(3) by (auto simp: word_unat_eq_iff)
  moreover have "4 dvd unat (len - 8 - 8)"
  proof -
    have "unat (len - 8 - 8) = unat len - 16" using l8 assms(3) by (simp add: unat_diff word_le_nat_alt)
    then show ?thesis using assms(2) by (simp add: dvd_diff_nat)
  qed
  then have "(len - 8 - 8) AND 1 = 0" using mult4_bit0 and_one [of "len - 8 - 8"] by (auto dest: dvd_trans [of 2 4, rotated])
  moreover have "4 dvd unat ?e" "unat ?e + 8 \<le> 2 ^ 32" using e assms by presburger+
  ultimately show "heap_inv (ucx_heap_init zone len k) [(zone, False)] ?e"
    using assms(1,3) e
    by (simp add: heap_inv_def ucx_heap_init_def Let_def block_ok_def sentinel_def in_use_def)
qed


section \<open>Runs of the allocator\<close>

text \<open>
  The states of a heap of \<open>len\<close> bytes at \<open>zone\<close> that calls of \<open>malloc\<close> and \<open>free\<close> reach, with
  the blocks that are handed out, as pointer and size asked for.
\<close>

inductive heap_run :: "u32 \<Rightarrow> u32 \<Rightarrow> heap_s \<Rightarrow> (u32 \<times> u32) set \<Rightarrow> bool" for zone len :: u32 where
  heap_init: "heap_run zone len (ucx_heap_init zone len k) {}"
| heap_malloc: "heap_run zone len k L \<Longrightarrow> unat sz \<le> 2 ^ 32 - 12 \<Longrightarrow> ucx_malloc sz k = Some (p, k') \<Longrightarrow>
    heap_run zone len k' (if p = 0 then L else insert (p, sz) L)"
| heap_free: "heap_run zone len k L \<Longrightarrow> (p, sz) \<in> L \<Longrightarrow> heap_run zone len (ucx_free p k) (L - {(p, sz)})"

definition live_in :: "heap_s \<Rightarrow> (u32 \<times> bool) list \<Rightarrow> u32 \<times> u32 \<Rightarrow> bool" where
  "live_in k bs l \<longleftrightarrow> (case l of (p, sz) \<Rightarrow> \<exists>b. (unat p, b) \<in> allocated (blk k) bs \<and> unat p + unat sz \<le> b)"

lemma allocated_used:
  assumes "(unat p, b) \<in> allocated h bs"
  shows "(p - 8, True) \<in> set bs \<and> unat (p - 8) + 8 = unat p"
proof -
  obtain x where x: "(x, True) \<in> set bs" "unat p = unat x + 8" using assms by (auto simp: allocated_def)
  then have u: "unat (p - 8) = unat x" by (simp add: unat_diff word_le_nat_alt)
  then have "p - 8 = x" by (simp add: word_unat_eq_iff)
  with x u show ?thesis by simp
qed

lemma heap_run_inv:
  assumes "heap_run zone len k L" and "4 dvd unat zone" "4 dvd unat len" "16 \<le> unat len" "unat zone + unat len \<le> 2 ^ 32"
  shows "\<exists>bs. heap_inv k bs (zone + len - 8) \<and> first_free k = zone \<and> (\<forall>l \<in> L. live_in k bs l) \<and>
    (\<forall>p s t. (p, s) \<in> L \<and> (p, t) \<in> L \<longrightarrow> s = t)"
  using assms(1)
proof induction
  case (heap_init k)
  show ?case using heap_init_inv(1) [OF assms(2-5), of k] by (auto simp: ucx_heap_init_def Let_def)
next
  case (heap_malloc k L sz p k')
  then obtain bs where bs: "heap_inv k bs (zone + len - 8)" "first_free k = zone" "\<forall>l \<in> L. live_in k bs l"
    "\<forall>p s t. (p, s) \<in> L \<and> (p, t) \<in> L \<longrightarrow> s = t" by blast
  obtain bs' where bs': "heap_inv k' bs' (zone + len - 8)" "first_free k' = first_free k"
    "p = 0 \<Longrightarrow> allocated (blk k') bs' = allocated (blk k) bs"
    "p \<noteq> 0 \<Longrightarrow> allocated (blk k') bs' = insert (unat p, unat p + unat (align4 sz)) (allocated (blk k) bs) \<and>
      (p - 8, True) \<notin> set bs"
    using malloc_result [OF bs(1) heap_malloc.hyps(2)] heap_malloc.hyps(3) by (metis option.inject prod.inject)
  show ?case
  proof (cases "p = 0")
    case True
    with bs bs' show ?thesis by (intro exI [of _ bs']) (auto simp: live_in_def)
  next
    case False
    note bs'(4) [OF False]
    moreover have "unat sz \<le> unat (align4 sz)" using heap_malloc.hyps(2) by (intro align4_value) simp
    moreover have "(p, t) \<notin> L" for t
    proof
      assume "(p, t) \<in> L"
      with bs(3) obtain b where "(unat p, b) \<in> allocated (blk k) bs" by (auto simp: live_in_def)
      with allocated_used [OF this] bs'(4) [OF False] show False by simp
    qed
    ultimately show ?thesis using bs bs'(1,2) False
      by (intro exI [of _ bs']) (auto simp: live_in_def)
  qed
next
  case (heap_free k L p sz)
  then obtain bs where bs: "heap_inv k bs (zone + len - 8)" "first_free k = zone" "\<forall>l \<in> L. live_in k bs l"
    "\<forall>p s t. (p, s) \<in> L \<and> (p, t) \<in> L \<longrightarrow> s = t" by blast
  with heap_free.hyps(2) obtain b where "(unat p, b) \<in> allocated (blk k) bs" by (fastforce simp: live_in_def)
  note used = allocated_used [OF this]
  obtain bs' where bs': "heap_inv (ucx_free p k) bs' (zone + len - 8)"
    "allocated (blk (ucx_free p k)) bs' = {(a, b) \<in> allocated (blk k) bs. a \<noteq> unat p}"
    using free_block [OF bs(1) used [THEN conjunct1] used [THEN conjunct2]] by blast
  have "live_in (ucx_free p k) bs' l" if l: "l \<in> L - {(p, sz)}" for l
  proof -
    obtain q t where qt: "l = (q, t)" by (cases l)
    with l bs(3) obtain c where c: "(unat q, c) \<in> allocated (blk k) bs" "unat q + unat t \<le> c"
      by (auto simp: live_in_def)
    have "q \<noteq> p" using l bs(4) heap_free.hyps(2) qt by blast
    then have "unat q \<noteq> unat p" by (simp add: word_unat_eq_iff)
    with c have "(unat q, c) \<in> allocated (blk (ucx_free p k)) bs'" unfolding bs'(2) by simp
    with c(2) qt show ?thesis unfolding live_in_def by auto
  qed
  with bs bs' show ?case by (intro exI [of _ bs']) (auto simp: ucx_free_def Let_def)
qed


text \<open>
  C12. The blocks that are handed out never overlap. Whatever calls of \<open>malloc\<close> and \<open>free\<close> a heap
  has seen, each block that is not freed yet lies inside the heap, as large as it was asked
  for, and the header of the next one is behind it.
\<close>

theorem live_blocks_disjoint:
  assumes "heap_run zone len k L" and "4 dvd unat zone" "4 dvd unat len" "16 \<le> unat len" "unat zone + unat len \<le> 2 ^ 32"
    and "(p, s) \<in> L" and "(q, t) \<in> L"
  shows "unat zone + 8 \<le> unat p \<and> unat p + unat s + 8 \<le> unat zone + unat len \<and>
    (p = q \<and> s = t \<or> unat p + unat s + 8 \<le> unat q \<or> unat q + unat t + 8 \<le> unat p)"
proof -
  obtain bs where bs: "heap_inv k bs (zone + len - 8)" "first_free k = zone" "\<forall>l \<in> L. live_in k bs l"
    "\<forall>p s t. (p, s) \<in> L \<and> (p, t) \<in> L \<longrightarrow> s = t" using heap_run_inv [OF assms(1-5)] by blast
  from bs(3) assms(6) obtain b where b: "(unat p, b) \<in> allocated (blk k) bs" "unat p + unat s \<le> b"
    by (auto simp: live_in_def)
  from bs(3) assms(7) obtain d where d: "(unat q, d) \<in> allocated (blk k) bs" "unat q + unat t \<le> d"
    by (auto simp: live_in_def)
  have "p = q \<Longrightarrow> s = t" using bs(4) assms(6,7) by blast
  then show ?thesis
    using allocated_areas(1,3) [OF bs(1) b(1)] allocated_areas(4) [OF bs(1) b(1) d(1)] heap_init_inv(2) [OF assms(2-5)] b d bs(2)
    by (auto simp: word_unat_eq_iff)
qed

text \<open>
  C13. \<open>malloc\<close> always returns, and it is first fit from the block it handed out last. On every
  heap that \<open>malloc\<close> and \<open>free\<close> reach, a request of up to 2 ^ 32 - 12 bytes returns; it fails
  exactly when no run of adjacent free blocks from \<open>last_free\<close> on is large enough for the
  request and one more header. Free blocks before \<open>last_free\<close> are passed over until the next
  \<open>free\<close> sets it back to the first block.
\<close>

theorem malloc_terminates:
  assumes "heap_run zone len k L" and "4 dvd unat zone" "4 dvd unat len" "16 \<le> unat len" "unat zone + unat len \<le> 2 ^ 32"
    and "unat sz \<le> 2 ^ 32 - 12"
  shows "\<exists>bs p k'. heap_inv k bs (zone + len - 8) \<and> ucx_malloc sz k = Some (p, k') \<and>
    (p = 0 \<longleftrightarrow> (\<forall>(a, b) \<in> set (free_runs (searched k bs) (zone + len - 8)). \<not> fits (align4 sz) a b))"
proof -
  obtain bs where bs: "heap_inv k bs (zone + len - 8)" using heap_run_inv [OF assms(1-5)] by blast
  from malloc_result [OF bs assms(6)] obtain p k' where "ucx_malloc sz k = Some (p, k')"
    "p = 0 \<longleftrightarrow> (\<forall>(a, b) \<in> set (free_runs (searched k bs) (zone + len - 8)). \<not> fits (align4 sz) a b)" by metis
  with bs show ?thesis by blast
qed

text \<open>
  The largest requests are granted: the size is rounded up without a test, so a request of
  more than 2 ^ 32 - 4 bytes is one of 0 bytes, and the product of \<open>calloc\<close> wraps.
\<close>

theorem huge_requests_wrap:
  assumes "2 ^ 32 - 3 \<le> unat sz"
  shows "ucx_malloc sz k = ucx_malloc 0 k \<and>
    (2 ^ 32 dvd unat n * unat m \<longrightarrow> ucx_calloc n m k = ucx_calloc 0 0 k)"
proof -
  have "unat sz < 4294967296" using unsigned_less [of sz, where ?'a = nat] by simp
  moreover from this have "(unat sz + 3) mod 4294967296 = unat sz + 3 - 4294967296"
    using assms by (subst le_mod_geq) simp_all
  ultimately have "unat (sz + 3) = unat sz + 3 - 4294967296" by (simp add: unat_word_ariths)
  then have "unat (sz + 3) div 4 = 0" using \<open>unat sz < 4294967296\<close> by simp
  then have "(sz + 3) div 4 = 0" by (simp add: word_unat_eq_iff unat_div)
  then have "align4 sz = 0" by (simp add: align4_def drop_bit_eq_div)
  moreover have "align4 0 = 0" by (simp add: align4_def drop_bit_eq_div)
  ultimately have "ucx_malloc sz k = ucx_malloc 0 k" by (simp add: ucx_malloc_def)
  moreover have "ucx_calloc n m k = ucx_calloc 0 0 k" if "2 ^ 32 dvd unat n * unat m"
  proof -
    have "n * m = 0" using that by (simp add: word_unat_eq_iff unat_word_ariths mod_eq_0_iff_dvd)
    then show ?thesis by (simp only: ucx_calloc_def mult_zero_left)
  qed
  ultimately show ?thesis by blast
qed

text \<open>\<open>calloc\<close> clears the block, and nothing else.\<close>

lemma calloc_clears:
  assumes "ucx_calloc n m k = Some (buf, k')" and "buf \<noteq> 0" and "ucx_malloc (n * m) k = Some (buf, k1)"
  shows "bytes k' x = (if offset buf x < unat (n * m) then 0 else bytes k1 x)"
  using assms by (auto simp: ucx_calloc_def memset_fills)

section \<open>Examples\<close>

text \<open>A heap of 1024 bytes at 0x1000, and two blocks of it.\<close>

definition sample_free_heap :: heap_s where
  "sample_free_heap = \<lparr>blk = (\<lambda>_. \<lparr>b_next = 0, b_size = 0\<rparr>), first_free = 0, last_free = 0, bytes = (\<lambda>_. 0)\<rparr>"

definition sample_heap :: heap_s where
  "sample_heap = ucx_heap_init 0x1000 1024 sample_free_heap"

definition sample_heap1 :: heap_s where
  "sample_heap1 = sample_heap\<lparr>blk := (blk sample_heap)(0x1000 := \<lparr>b_next = 0x1018, b_size = 17\<rparr>,
    0x1018 := \<lparr>b_next = 0x13f8, b_size = -8\<rparr>), last_free := 0x1000\<rparr>"

lemma align4_small: "align4 16 = 16" "align4 1024 = 1024" "align4 5 = 8"
  by (simp_all add: align4_def drop_bit_eq_div push_bit_eq_mult)

lemma sample_malloc: "ucx_malloc 16 sample_heap = Some (0x1008, sample_heap1)"
proof -
  have "malloc_scan 16 (blk sample_heap) 0x1000 0x1000 = Some (blk sample_heap, 0x1000)"
    by (subst malloc_scan.simps, subst skip_used.simps, subst skip_free.simps, subst skip_free.simps)
      (simp add: sample_heap_def ucx_heap_init_def Let_def in_use_def align4_small fun_upd_twist)
  then show ?thesis
    by (simp add: sample_heap1_def ucx_malloc_def Let_def align4_small)
      (simp add: sample_heap_def ucx_heap_init_def Let_def)
qed


lemma sample_malloc1: "\<exists>k. ucx_malloc 5 sample_heap1 = Some (0x1020, k)"
proof -
  have "malloc_scan 8 (blk sample_heap1) 0x1000 0x1000 =
      Some ((blk sample_heap1)(0x1018 := \<lparr>b_next = 0x13f8, b_size = 984\<rparr>), 0x1018)"
    by (subst malloc_scan.simps, subst skip_used.simps, subst skip_used.simps, subst skip_free.simps, subst skip_free.simps)
      (simp add: sample_heap1_def sample_heap_def ucx_heap_init_def Let_def in_use_def align4_small)
  then show ?thesis
    by (simp add: ucx_malloc_def Let_def align4_small) (simp add: sample_heap1_def)
qed

lemma sample_heap_run: "heap_run 0x1000 1024 sample_heap1 {(0x1008, 16)}"
  using heap_run.heap_malloc [OF heap_run.heap_init [of "0x1000" 1024 sample_free_heap, folded sample_heap_def] _ sample_malloc] by simp

theorem live_blocks_disjoint_witness:
  "\<exists>k. heap_run 0x1000 1024 k {(0x1020, 5), (0x1008, 16)} \<and> unat (0x1008 :: u32) + unat (16 :: u32) + 8 \<le> unat (0x1020 :: u32)"
proof -
  obtain k where "ucx_malloc 5 sample_heap1 = Some (0x1020, k)" using sample_malloc1 by blast
  from heap_run.heap_malloc [OF sample_heap_run _ this] have run: "heap_run 0x1000 1024 k {(0x1020, 5), (0x1008, 16)}" by simp
  from live_blocks_disjoint [OF run, where p = "0x1008" and s = 16 and q = "0x1020" and t = 5] run show ?thesis by auto
qed

theorem malloc_terminates_witness: "\<exists>p k. ucx_malloc 5000 sample_heap1 = Some (p, k)"
  using malloc_terminates [OF sample_heap_run, where sz = 5000] by auto

theorem huge_requests_wrap_witness:
  "ucx_malloc 0xffffffff sample_heap = ucx_malloc 0 sample_heap \<and> ucx_calloc 0x10000 0x10000 sample_heap = ucx_calloc 0 0 sample_heap"
  using huge_requests_wrap [of "0xffffffff" sample_heap "0x10000" "0x10000"] by simp

end
