(* ===== verification/Native_Spinlock.thy ===== *)
theory Native_Spinlock
  imports Apex_Prelude
begin

text \<open>
  The spinlocks of \<open>kernel/spinlock.c\<close>, shared by the cores of a multicore target. A core runs
  its calls one memory access at a time, and the accesses of the cores interleave in any
  order; the barriers of the code keep them in the order of the program. A core is known by
  the number \<open>_cpu_id()\<close> returns, which is not the \<open>-1\<close> that marks a lock without holder.

  The theory shows mutual exclusion for cores that do not nest their sections, that a
  waiting core gets a free lock, and that a lock taken twice by its holder is given up by
  the first release.
\<close>

section \<open>The lock and the cores\<close>

type_synonym cpu_id = "16 word"

record spinlock_s =
  locked :: byte
  cpu :: cpu_id

definition ucx_lock_init :: "spinlock_s \<Rightarrow> spinlock_s" where
  "ucx_lock_init lk = lk\<lparr>locked := 0, cpu := -1\<rparr>"

text \<open>
  Where a core is: outside the functions of the lock (\<open>Running\<close>), or about to make the access
  named. \<open>holding\<close> reads \<open>locked\<close>, and \<open>cpu\<close> only when that is set.
\<close>

datatype spin_pc =
    Running
  | Acq_holding_locked | Acq_holding_cpu | Acq_test_and_set | Acq_set_cpu
  | Rel_holding_locked | Rel_holding_cpu | Rel_clear_cpu | Rel_unlock

text \<open>
  \<open>nest\<close> counts the sections a core is in: the acquires that have returned less the releases
  that have been called.
\<close>

record spin_state =
  lock :: spinlock_s
  pcs :: "cpu_id \<Rightarrow> spin_pc"
  nest :: "cpu_id \<Rightarrow> nat"

definition goto :: "cpu_id \<Rightarrow> spin_pc \<Rightarrow> spin_state \<Rightarrow> spin_state" where
  "goto c p s = s\<lparr>pcs := (pcs s)(c := p)\<rparr>"

definition acquire_returns :: "cpu_id \<Rightarrow> spin_state \<Rightarrow> spin_state" where
  "acquire_returns c s = (goto c Running s)\<lparr>nest := (nest s)(c := Suc (nest s c))\<rparr>"

definition ucx_lock_acquire_step :: "cpu_id \<Rightarrow> spin_state \<Rightarrow> spin_state" where
  "ucx_lock_acquire_step c s = (case pcs s c of
     Acq_holding_locked \<Rightarrow>
       goto c (if locked (lock s) \<noteq> 0 then Acq_holding_cpu else Acq_test_and_set) s
   | Acq_holding_cpu \<Rightarrow>
       if cpu (lock s) = c then acquire_returns c s else goto c Acq_test_and_set s
   | Acq_test_and_set \<Rightarrow>
       (let was = locked (lock s); s = s\<lparr>lock := (lock s)\<lparr>locked := 1\<rparr>\<rparr>
        in if was \<noteq> 0 then s else goto c Acq_set_cpu s)
   | Acq_set_cpu \<Rightarrow> acquire_returns c (s\<lparr>lock := (lock s)\<lparr>cpu := c\<rparr>\<rparr>)
   | _ \<Rightarrow> s)"

definition ucx_lock_release_step :: "cpu_id \<Rightarrow> spin_state \<Rightarrow> spin_state" where
  "ucx_lock_release_step c s = (case pcs s c of
     Rel_holding_locked \<Rightarrow> goto c (if locked (lock s) \<noteq> 0 then Rel_holding_cpu else Running) s
   | Rel_holding_cpu \<Rightarrow> goto c (if cpu (lock s) = c then Rel_clear_cpu else Running) s
   | Rel_clear_cpu \<Rightarrow> goto c Rel_unlock (s\<lparr>lock := (lock s)\<lparr>cpu := -1\<rparr>\<rparr>)
   | Rel_unlock \<Rightarrow> goto c Running (s\<lparr>lock := (lock s)\<lparr>locked := 0\<rparr>\<rparr>)
   | _ \<Rightarrow> s)"

text \<open>One access of a core inside a function of the lock.\<close>

definition spin_advance :: "cpu_id \<Rightarrow> spin_state \<Rightarrow> spin_state" where
  "spin_advance c s = ucx_lock_release_step c (ucx_lock_acquire_step c s)"

definition call_acquire :: "cpu_id \<Rightarrow> spin_state \<Rightarrow> spin_state" where
  "call_acquire c s = goto c Acq_holding_locked s"

definition call_release :: "cpu_id \<Rightarrow> spin_state \<Rightarrow> spin_state" where
  "call_release c s = (goto c Rel_holding_locked s)\<lparr>nest := (nest s)(c := nest s c - 1)\<rparr>"

definition spin_start :: "spinlock_s \<Rightarrow> spin_state" where
  "spin_start lk = \<lparr>lock = ucx_lock_init lk, pcs = (\<lambda>_. Running), nest = (\<lambda>_. 0)\<rparr>"

text \<open>
  The steps of the cores; \<open>n\<close> bounds the sections a core nests, 1 for a core that never
  acquires a lock it holds.
\<close>

inductive spin_step :: "nat \<Rightarrow> spin_state \<Rightarrow> spin_state \<Rightarrow> bool" for n where
  acquire: "c \<noteq> -1 \<Longrightarrow> pcs s c = Running \<Longrightarrow> nest s c < n \<Longrightarrow> spin_step n s (call_acquire c s)"
| release: "c \<noteq> -1 \<Longrightarrow> pcs s c = Running \<Longrightarrow> spin_step n s (call_release c s)"
| access: "c \<noteq> -1 \<Longrightarrow> pcs s c \<noteq> Running \<Longrightarrow> spin_step n s (spin_advance c s)"

inductive spin_reach :: "nat \<Rightarrow> spinlock_s \<Rightarrow> spin_state \<Rightarrow> bool" for n lk where
  start: "spin_reach n lk (spin_start lk)"
| step: "spin_reach n lk s \<Longrightarrow> spin_step n s s' \<Longrightarrow> spin_reach n lk s'"

lemmas spin_defs = goto_def acquire_returns_def ucx_lock_acquire_step_def
  ucx_lock_release_step_def spin_advance_def call_acquire_def call_release_def Let_def

section \<open>The owner of a lock\<close>

text \<open>
  A core owns a lock from its successful test to the end of its release; \<open>cpu\<close> names it in
  between. Only the owner is at an access that changes the lock.
\<close>

definition owner_pc :: "spin_pc \<Rightarrow> bool" where
  "owner_pc p \<longleftrightarrow> p = Acq_set_cpu \<or> p = Rel_clear_cpu \<or> p = Rel_unlock"

definition free_lock :: "spin_state \<Rightarrow> bool" where
  "free_lock s \<longleftrightarrow> locked (lock s) = 0 \<and> cpu (lock s) = -1 \<and> (\<forall>d. \<not> owner_pc (pcs s d))"

definition owned_by :: "spin_state \<Rightarrow> cpu_id \<Rightarrow> bool" where
  "owned_by s c \<longleftrightarrow> locked (lock s) \<noteq> 0 \<and> c \<noteq> -1 \<and> (\<forall>d. d \<noteq> c \<longrightarrow> \<not> owner_pc (pcs s d)) \<and>
     (if pcs s c = Acq_set_cpu \<or> pcs s c = Rel_unlock then cpu (lock s) = -1
      else cpu (lock s) = c \<and> pcs s c \<noteq> Acq_test_and_set)"

definition spin_inv :: "spin_state \<Rightarrow> bool" where
  "spin_inv s \<longleftrightarrow> pcs s (-1) = Running \<and> nest s (-1) = 0 \<and> (free_lock s \<or> (\<exists>c. owned_by s c))"

lemmas access_simps = goto_def acquire_returns_def ucx_lock_acquire_step_def
  ucx_lock_release_step_def spin_advance_def Let_def

lemma access_of_others [simp]:
  "d \<noteq> c \<Longrightarrow> pcs (spin_advance c s) d = pcs s d" "d \<noteq> c \<Longrightarrow> nest (spin_advance c s) d = nest s d"
  by (cases "pcs s c"; simp add: access_simps)+

lemma free_access:
  "free_lock s \<Longrightarrow> c \<noteq> -1 \<Longrightarrow>
   free_lock (spin_advance c s) \<or> (pcs s c = Acq_test_and_set \<and> owned_by (spin_advance c s) c)"
  by (cases "pcs s c") (auto simp: free_lock_def owned_by_def owner_pc_def access_simps)

lemma owned_access_owner:
  "owned_by s c \<Longrightarrow>
   owned_by (spin_advance c s) c \<or> (pcs s c = Rel_unlock \<and> free_lock (spin_advance c s))"
  by (cases "pcs s c") (auto simp: free_lock_def owned_by_def owner_pc_def access_simps)

lemma access_not_owner:
  assumes "\<not> owner_pc (pcs s d)" and "locked (lock s) \<noteq> 0" and "cpu (lock s) \<noteq> d"
  shows "locked (lock (spin_advance d s)) \<noteq> 0" and "cpu (lock (spin_advance d s)) = cpu (lock s)"
    and "\<not> owner_pc (pcs (spin_advance d s) d)"
  using assms by (cases "pcs s d"; simp add: owner_pc_def access_simps)+

lemma owned_access_other:
  assumes "owned_by s c" and "d \<noteq> c" and "d \<noteq> -1"
  shows "owned_by (spin_advance d s) c"
proof -
  have d: "\<not> owner_pc (pcs s d)" "locked (lock s) \<noteq> 0" "cpu (lock s) \<noteq> d"
    using assms by (auto simp: owned_by_def split: if_splits)
  note a = access_not_owner [OF this]
  have "\<not> owner_pc (pcs (spin_advance d s) e)" if "e \<noteq> c" for e
    using a(3) assms(1) that by (cases "e = d") (simp_all add: owned_by_def)
  with a(1,2) assms show ?thesis by (simp add: owned_by_def)
qed

lemma spin_inv_start: "spin_inv (spin_start lk)"
  by (simp add: spin_inv_def free_lock_def spin_start_def ucx_lock_init_def owner_pc_def)

lemma calls_keep_owner:
  "pcs s c = Running \<Longrightarrow> free_lock s \<Longrightarrow> free_lock (call_acquire c s)"
  "pcs s c = Running \<Longrightarrow> free_lock s \<Longrightarrow> free_lock (call_release c s)"
  "pcs s c = Running \<Longrightarrow> owned_by s d \<Longrightarrow> owned_by (call_acquire c s) d"
  "pcs s c = Running \<Longrightarrow> owned_by s d \<Longrightarrow> owned_by (call_release c s) d"
  by (auto simp: free_lock_def owned_by_def owner_pc_def call_acquire_def call_release_def goto_def)

lemma spin_inv_step: "spin_step n s s' \<Longrightarrow> spin_inv s \<Longrightarrow> spin_inv s'"
proof (induction rule: spin_step.induct)
  case (acquire c s)
  then show ?case using calls_keep_owner(1,3) [of s c] by (auto simp: spin_inv_def call_acquire_def goto_def)
next
  case (release c s)
  then show ?case using calls_keep_owner(2,4) [of s c] by (auto simp: spin_inv_def call_release_def goto_def)
next
  case (access c s)
  then consider "free_lock s" | d where "owned_by s d" by (auto simp: spin_inv_def)
  then have "free_lock (spin_advance c s) \<or> (\<exists>d. owned_by (spin_advance c s) d)"
  proof cases
    case 1
    with free_access [of s c] access(1) show ?thesis by blast
  next
    case (2 d)
    with owned_access_owner [of s c] owned_access_other [of s d c] access(1) show ?thesis by (cases "c = d") auto
  qed
  moreover have "-1 \<noteq> c" using access(1) by blast
  ultimately show ?case using access by (simp add: spin_inv_def)
qed

lemma spin_reach_inv: "spin_reach n lk s \<Longrightarrow> spin_inv s"
  by (induction rule: spin_reach.induct) (auto intro: spin_inv_start spin_inv_step)

lemma cpu_names_owner:
  assumes "spin_inv s" and "cpu (lock s) = c" and "c \<noteq> -1"
  shows "owned_by s c"
  using assms by (auto simp: spin_inv_def free_lock_def owned_by_def split: if_splits)

section \<open>Mutual exclusion\<close>

text \<open>With sections that are not nested, a core in its section is the one \<open>cpu\<close> names.\<close>

definition section_inv :: "spin_state \<Rightarrow> bool" where
  "section_inv s \<longleftrightarrow>
     (\<forall>c. nest s c \<le> 1 \<and> (nest s c = 1 \<longrightarrow> pcs s c = Running \<and> cpu (lock s) = c))"

lemma section_access:
  assumes "spin_inv s" and "section_inv s" and "c \<noteq> -1" and "pcs s c \<noteq> Running"
  shows "section_inv (spin_advance c s)"
proof -
  have n: "nest s c = 0" using assms(2,4) unfolding section_inv_def by (metis le_neq_implies_less less_one)
  have k: "cpu (lock (spin_advance c s)) = d" if "d \<noteq> c" "nest s d = 1" for d
  proof -
    have d: "cpu (lock s) = d" "pcs s d = Running" "d \<noteq> -1"
      using assms(1,2) that by (auto simp: section_inv_def spin_inv_def)
    then have "owned_by s d" using cpu_names_owner assms(1) by blast
    then have "owned_by (spin_advance c s) d" using owned_access_other [of s d c] that(1) assms(3) by blast
    with d that(1) show ?thesis by (simp add: owned_by_def)
  qed
  have l: "nest (spin_advance c s) c = 1 \<longrightarrow>
      pcs (spin_advance c s) c = Running \<and> cpu (lock (spin_advance c s)) = c"
    and m: "nest (spin_advance c s) c \<le> 1"
    using assms(4) n by (cases "pcs s c"; simp add: access_simps)+
  show ?thesis unfolding section_inv_def
  proof (intro allI)
    fix d
    show "nest (spin_advance c s) d \<le> 1 \<and> (nest (spin_advance c s) d = 1 \<longrightarrow>
        pcs (spin_advance c s) d = Running \<and> cpu (lock (spin_advance c s)) = d)"
      using k [of d] l m assms(2) by (cases "d = c") (auto simp: section_inv_def)
  qed
qed

lemma section_inv_step: "spin_step 1 s s' \<Longrightarrow> spin_inv s \<Longrightarrow> section_inv s \<Longrightarrow> section_inv s'"
proof (induction rule: spin_step.induct)
  case (acquire c s)
  then show ?case by (auto simp: section_inv_def call_acquire_def goto_def)
next
  case (release c s)
  then show ?case by (auto simp: section_inv_def call_release_def goto_def)
next
  case (access c s)
  then show ?case by (intro section_access)
qed

lemma section_reach_inv: "spin_reach 1 lk s \<Longrightarrow> section_inv s"
proof (induction rule: spin_reach.induct)
  case start
  then show ?case by (simp add: section_inv_def spin_start_def)
next
  case (step s s')
  then show ?case using section_inv_step spin_reach_inv by blast
qed

text \<open>
  C10. Mutual exclusion: however the accesses of the cores interleave, no two cores that take a
  lock once at a time are between the return of their acquire and the call of their release.
\<close>

theorem spin_mutual_exclusion:
  assumes "spin_reach 1 lk s" and "0 < nest s c" and "0 < nest s d"
  shows "c = d"
proof -
  have "nest s c = 1" "nest s d = 1"
    using section_reach_inv [OF assms(1)] assms(2,3) by (simp_all add: section_inv_def le_antisym Suc_leI)
  with section_reach_inv [OF assms(1)] show ?thesis by (metis section_inv_def)
qed

section \<open>Progress\<close>

text \<open>The steps the owner of a lock needs to give it up.\<close>

fun steps_left :: "spin_pc \<Rightarrow> nat" where
  "steps_left Rel_unlock = 1"
| "steps_left Rel_clear_cpu = 2"
| "steps_left Rel_holding_cpu = 3"
| "steps_left Rel_holding_locked = 4"
| "steps_left Running = 5"
| "steps_left Acq_holding_cpu = 6"
| "steps_left Acq_holding_locked = 7"
| "steps_left _ = 6"

lemma owner_moves:
  assumes "owned_by s d" and "pcs s d \<noteq> Running" and "pcs s d \<noteq> Rel_unlock"
  shows "owned_by (spin_advance d s) d \<and> steps_left (pcs (spin_advance d s) d) < steps_left (pcs s d)"
proof -
  have "owned_by (spin_advance d s) d" using owned_access_owner [OF assms(1)] assms(3) by blast
  moreover have "steps_left (pcs (spin_advance d s) d) < steps_left (pcs s d)"
    using assms by (cases "pcs s d") (auto simp: access_simps owned_by_def)
  ultimately show ?thesis by blast
qed

lemma owner_frees:
  "owned_by s d \<Longrightarrow> \<exists>s'. (spin_step n)\<^sup>*\<^sup>* s s' \<and> free_lock s' \<and> (\<forall>c. c \<noteq> d \<longrightarrow> pcs s' c = pcs s c \<and> nest s' c = nest s c)"
proof (induction "steps_left (pcs s d)" arbitrary: s rule: less_induct)
  case less
  note d = less.prems
  then have ne: "d \<noteq> -1" by (simp add: owned_by_def)
  consider "pcs s d = Running" | "pcs s d = Rel_unlock" | "pcs s d \<noteq> Running" "pcs s d \<noteq> Rel_unlock" by blast
  then show ?case
  proof cases
    case 1
    have st: "spin_step n s (call_release d s)" using 1 ne by (rule spin_step.release [rotated])
    have "owned_by (call_release d s) d" using calls_keep_owner(4) [OF 1 d] .
    moreover have "pcs (call_release d s) d = Rel_holding_locked"
      "\<forall>c. c \<noteq> d \<longrightarrow> pcs (call_release d s) c = pcs s c \<and> nest (call_release d s) c = nest s c"
      by (simp_all add: call_release_def goto_def)
    ultimately obtain s' where "(spin_step n)\<^sup>*\<^sup>* (call_release d s) s'" "free_lock s'"
      "\<forall>c. c \<noteq> d \<longrightarrow> pcs s' c = pcs s c \<and> nest s' c = nest s c"
      using less.hyps [of "call_release d s"] 1 by auto
    with st show ?thesis by (metis converse_rtranclp_into_rtranclp)
  next
    case 2
    then have st: "spin_step n s (spin_advance d s)" using ne by (auto intro: spin_step.access)
    have "free_lock (spin_advance d s)"
      using 2 d by (auto simp: free_lock_def owned_by_def owner_pc_def access_simps)
    with st show ?thesis by (intro exI [of _ "spin_advance d s"]) auto
  next
    case 3
    then have st: "spin_step n s (spin_advance d s)" using ne by (auto intro: spin_step.access)
    from owner_moves [OF d 3] less.hyps [of "spin_advance d s"] obtain s' where
      "(spin_step n)\<^sup>*\<^sup>* (spin_advance d s) s'" "free_lock s'"
      "\<forall>c. c \<noteq> d \<longrightarrow> pcs s' c = pcs s c \<and> nest s' c = nest s c"
      by auto
    with st show ?thesis by (metis converse_rtranclp_into_rtranclp)
  qed
qed

text \<open>A core that spins on a free lock takes it with its next two accesses.\<close>

lemma free_lock_taken:
  assumes "free_lock s" and "pcs s c = Acq_test_and_set" and "c \<noteq> -1"
  shows "(spin_step n)\<^sup>*\<^sup>* s (spin_advance c (spin_advance c s))"
    and "nest (spin_advance c (spin_advance c s)) c = Suc (nest s c)"
proof -
  have p: "pcs (spin_advance c s) c = Acq_set_cpu"
    using assms(1,2) by (simp add: free_lock_def access_simps)
  have "spin_step n s (spin_advance c s)" "spin_step n (spin_advance c s) (spin_advance c (spin_advance c s))"
    using assms(2,3) p by (auto intro: spin_step.access)
  then show "(spin_step n)\<^sup>*\<^sup>* s (spin_advance c (spin_advance c s))" by simp
  show "nest (spin_advance c (spin_advance c s)) c = Suc (nest s c)"
    using assms(1,2) by (simp add: free_lock_def access_simps)
qed

text \<open>
  No deadlock: from every state the cores can reach, a core that spins can still enter its
  section, by steps of the owner of the lock and its own.
\<close>

theorem spinning_core_can_enter:
  assumes "spin_reach n lk s" and "pcs s c = Acq_test_and_set"
  shows "\<exists>s'. (spin_step n)\<^sup>*\<^sup>* s s' \<and> nest s' c = Suc (nest s c)"
proof -
  have inv: "spin_inv s" by (rule spin_reach_inv [OF assms(1)])
  then have ne: "c \<noteq> -1" using assms(2) by (auto simp: spin_inv_def)
  have "\<exists>s1. (spin_step n)\<^sup>*\<^sup>* s s1 \<and> free_lock s1 \<and> pcs s1 c = pcs s c \<and> nest s1 c = nest s c"
  proof (cases "free_lock s")
    case False
    with inv obtain d where d: "owned_by s d" by (auto simp: spin_inv_def)
    then have "d \<noteq> c" using assms(2) by (auto simp: owned_by_def)
    with owner_frees [OF d, of n] show ?thesis by metis
  qed auto
  then obtain s1 where "(spin_step n)\<^sup>*\<^sup>* s s1" "free_lock s1" "pcs s1 c = Acq_test_and_set" "nest s1 c = nest s c"
    using assms(2) by auto
  with free_lock_taken(1) [of s1 c n] free_lock_taken(2) [of s1 c] ne show ?thesis by (metis rtranclp_trans)
qed

section \<open>Schedules\<close>

text \<open>A schedule says which core moves and what it calls; a move that is not possible is \<open>None\<close>.\<close>

datatype spin_act = Acquire cpu_id | Release cpu_id | Access cpu_id

fun spin_do :: "nat \<Rightarrow> spin_act \<Rightarrow> spin_state \<Rightarrow> spin_state option" where
  "spin_do n (Acquire c) s =
     (if c \<noteq> -1 \<and> pcs s c = Running \<and> nest s c < n then Some (call_acquire c s) else None)"
| "spin_do n (Release c) s = (if c \<noteq> -1 \<and> pcs s c = Running then Some (call_release c s) else None)"
| "spin_do n (Access c) s = (if c \<noteq> -1 \<and> pcs s c \<noteq> Running then Some (spin_advance c s) else None)"

primrec spin_run :: "nat \<Rightarrow> spin_act list \<Rightarrow> spin_state \<Rightarrow> spin_state option" where
  "spin_run n [] s = Some s"
| "spin_run n (a # as) s = Option.bind (spin_do n a s) (spin_run n as)"

lemma spin_do_step: "spin_do n a s = Some s' \<Longrightarrow> spin_step n s s'"
  by (cases a) (auto intro: spin_step.intros split: if_splits)

lemma spin_run_reach: "spin_run n as s = Some s' \<Longrightarrow> spin_reach n lk s \<Longrightarrow> spin_reach n lk s'"
  by (induction as arbitrary: s) (auto simp: bind_eq_Some_conv intro: spin_reach.step dest: spin_do_step)

definition take_lock :: "cpu_id \<Rightarrow> spin_act list" where
  "take_lock c = [Acquire c, Access c, Access c, Access c]"

definition drop_lock :: "cpu_id \<Rightarrow> spin_act list" where
  "drop_lock c = [Release c, Access c, Access c, Access c, Access c]"

lemmas run_simps = take_lock_def drop_lock_def access_simps call_acquire_def call_release_def
  spin_start_def ucx_lock_init_def

text \<open>
  A core that takes a lock it holds is let through, and its first release gives the lock up:
  then another core enters its section while the first is still in its own.
\<close>

theorem nested_release_unlocks:
  "\<exists>s. spin_reach 2 lk s \<and> nest s 0 = 1 \<and> nest s 1 = 1 \<and> cpu (lock s) = 1"
proof -
  define as where "as = take_lock 0 @ [Acquire 0, Access 0, Access 0] @ drop_lock 0 @ take_lock 1"
  obtain s where s: "spin_run 2 as (spin_start lk) = Some s" "nest s 0 = 1" "nest s 1 = 1" "cpu (lock s) = 1"
    unfolding as_def by (simp add: run_simps)
  from spin_run_reach [OF s(1) spin_reach.start] s(2-) show ?thesis by blast
qed

text \<open>
  The lock is not fair: a core can take it and give it up for ever while another, which tests
  it once in every round, never gets it.
\<close>

theorem spinning_core_can_starve:
  "\<exists>s as. spin_reach 1 lk s \<and> pcs s 1 = Acq_test_and_set \<and> Access 1 \<in> set as \<and> spin_run 1 as s = Some s"
proof -
  define s where "s = \<lparr>lock = lk\<lparr>locked := 1, cpu := 0\<rparr>,
    pcs = (\<lambda>_. Running)(1 := Acq_test_and_set), nest = (\<lambda>_. 0)(0 := Suc 0)\<rparr>"
  have "spin_run 1 (Acquire 1 # Access 1 # take_lock 0) (spin_start lk) = Some s"
    by (simp add: run_simps s_def fun_eq_iff)
  then have "spin_reach 1 lk s" by (rule spin_run_reach [OF _ spin_reach.start])
  moreover have "spin_run 1 (Access 1 # drop_lock 0 @ take_lock 0) s = Some s"
    by (simp add: run_simps s_def fun_eq_iff)
  moreover have "pcs s 1 = Acq_test_and_set" by (simp add: s_def)
  ultimately show ?thesis by (meson list.set_intros(1))
qed

theorem spin_mutual_exclusion_witness:
  "\<exists>s. spin_reach 1 \<lparr>locked = 0, cpu = 0\<rparr> s \<and> nest s 3 = 1 \<and> (\<forall>d. 0 < nest s d \<longrightarrow> d = 3)"
proof -
  define lk :: spinlock_s where "lk = \<lparr>locked = 0, cpu = 0\<rparr>"
  obtain s where s: "spin_run 1 (take_lock 3) (spin_start lk) = Some s" "nest s 3 = 1"
    by (simp add: run_simps)
  have r: "spin_reach 1 lk s" by (rule spin_run_reach [OF s(1) spin_reach.start])
  show ?thesis using r s(2) spin_mutual_exclusion [OF r, of _ 3] unfolding lk_def by auto
qed

end
