(* ===== verification/C_Strings.thy ===== *)
theory C_Strings
  imports C_Library "HOL-Library.Signed_Division" "HOL-Library.Sublist"
begin

text \<open>
  The strings of \<open>lib/libc.c\<close> and its conversions of numbers. The string routines work on the
  memory of \<open>C_Library\<close>; a loop that finds no null byte is \<open>None\<close>, and so is a conversion that
  does not end. The conversions read and write byte lists: the characters before the null
  byte; reading past them gives the null byte. Signed overflow wraps.

  \<open>str_at\<close> says what string is at an address. The theory shows what \<open>strlen\<close>, \<open>strcpy\<close>,
  \<open>strcmp\<close> and \<open>strstr\<close> do on strings, that \<open>atoi\<close> reads back what \<open>itoa\<close> writes, and that
  \<open>strtol\<close> stops after nine digits.
\<close>

section \<open>Strings in memory\<close>

partial_function (option) strlen_loop :: "memory \<Rightarrow> u32 \<Rightarrow> u32 \<Rightarrow> u32 option" where
  "strlen_loop m s n = (if m s \<noteq> 0 then strlen_loop m (s + 1) (n + 1) else Some n)"

definition ucx_strlen :: "memory \<Rightarrow> u32 \<Rightarrow> int option" where
  "ucx_strlen m s = map_option sint (strlen_loop m s 0)"

partial_function (option) strcpy_loop :: "u32 \<Rightarrow> u32 \<Rightarrow> memory \<Rightarrow> memory option" where
  "strcpy_loop d s m = (let c = m s; m1 = m(d := c) in if c \<noteq> 0 then strcpy_loop (d + 1) (s + 1) m1 else Some m1)"

definition ucx_strcpy :: "u32 \<Rightarrow> u32 \<Rightarrow> memory \<Rightarrow> memory option" where
  "ucx_strcpy d s m = strcpy_loop d s m"

text \<open>\<open>n\<close> is the number of bytes left; after the null byte the rest is filled with null bytes.\<close>

fun strncpy_loop :: "nat \<Rightarrow> u32 \<Rightarrow> u32 \<Rightarrow> memory \<Rightarrow> memory" where
  "strncpy_loop 0 d s m = m"
| "strncpy_loop (Suc n) d s m =
     (let c = m s; m1 = m(d := c) in if c = 0 then fill_up n (d + 1) 0 m1 else strncpy_loop n (d + 1) (s + 1) m1)"

definition ucx_strncpy :: "u32 \<Rightarrow> u32 \<Rightarrow> int \<Rightarrow> memory \<Rightarrow> memory" where
  "ucx_strncpy d s n m = strncpy_loop (nat n) d s m"

partial_function (option) str_end :: "memory \<Rightarrow> u32 \<Rightarrow> u32 option" where
  "str_end m s = (if m s \<noteq> 0 then str_end m (s + 1) else Some s)"

definition ucx_strcat :: "u32 \<Rightarrow> u32 \<Rightarrow> memory \<Rightarrow> memory option" where
  "ucx_strcat d s m = (case str_end m d of None \<Rightarrow> None | Some e \<Rightarrow> strcpy_loop e s m)"

partial_function (option) strncat_loop :: "int \<Rightarrow> u32 \<Rightarrow> u32 \<Rightarrow> memory \<Rightarrow> memory option" where
  "strncat_loop n d s m =
     (let c = m s; m1 = m(d := c) in
      if c \<noteq> 0 then if n - 1 < 0 then Some (m1(d := 0)) else strncat_loop (n - 1) (d + 1) (s + 1) m1
      else Some m1)"

definition ucx_strncat :: "u32 \<Rightarrow> u32 \<Rightarrow> int \<Rightarrow> memory \<Rightarrow> memory option" where
  "ucx_strncat d s n m = (case str_end m d of None \<Rightarrow> None | Some e \<Rightarrow> strncat_loop n e s m)"

partial_function (option) ucx_strcmp :: "bool \<Rightarrow> memory \<Rightarrow> u32 \<Rightarrow> u32 \<Rightarrow> int option" where
  "ucx_strcmp sch m a b =
     (if m a = m b then if m a = 0 then Some 0 else ucx_strcmp sch m (a + 1) (b + 1)
      else Some (char_val sch (m a) - char_val sch (m b)))"

fun strncmp_loop :: "bool \<Rightarrow> nat \<Rightarrow> memory \<Rightarrow> u32 \<Rightarrow> u32 \<Rightarrow> int" where
  "strncmp_loop sch 0 m a b = 0"
| "strncmp_loop sch (Suc n) m a b =
     (if m a = m b then if m a = 0 then 0 else strncmp_loop sch n m (a + 1) (b + 1)
      else char_val sch (m a) - char_val sch (m b))"

definition ucx_strncmp :: "bool \<Rightarrow> memory \<Rightarrow> u32 \<Rightarrow> u32 \<Rightarrow> int \<Rightarrow> int" where
  "ucx_strncmp sch m a b n = strncmp_loop sch (nat n) m a b"

text \<open>The inner loop of \<open>ucx_strstr\<close>: whether the string at \<open>b\<close> starts at \<open>a\<close>.\<close>

partial_function (option) starts_at :: "memory \<Rightarrow> u32 \<Rightarrow> u32 \<Rightarrow> bool option" where
  "starts_at m a b = (if m a = m b \<and> m b \<noteq> 0 then starts_at m (a + 1) (b + 1) else Some (m b = 0))"

partial_function (option) ucx_strstr :: "memory \<Rightarrow> u32 \<Rightarrow> u32 \<Rightarrow> u32 option" where
  "ucx_strstr m a b =
     (case starts_at m a b of None \<Rightarrow> None
      | Some found \<Rightarrow> if found then Some a else if m a = 0 then Some 0 else ucx_strstr m (a + 1) b)"

partial_function (option) ucx_strchr :: "memory \<Rightarrow> u32 \<Rightarrow> int \<Rightarrow> u32 option" where
  "ucx_strchr m s c =
     (if m s \<noteq> word_of_int c then if m s = 0 then Some 0 else ucx_strchr m (s + 1) c else Some s)"

partial_function (option) has_char :: "memory \<Rightarrow> u32 \<Rightarrow> byte \<Rightarrow> bool option" where
  "has_char m p c = (if m p \<noteq> 0 then if c = m p then Some True else has_char m (p + 1) c else Some False)"

partial_function (option) ucx_strpbrk :: "memory \<Rightarrow> u32 \<Rightarrow> u32 \<Rightarrow> u32 option" where
  "ucx_strpbrk m s1 s2 =
     (if m s1 \<noteq> 0 then
        case has_char m s2 (m s1) of None \<Rightarrow> None
        | Some found \<Rightarrow> if found then Some s1 else ucx_strpbrk m (s1 + 1) s2
      else Some 0)"

text \<open>The token, the pointer for the next call, and the memory.\<close>

definition ucx_strsep :: "u32 \<Rightarrow> u32 \<Rightarrow> memory \<Rightarrow> (u32 \<times> u32 \<times> memory) option" where
  "ucx_strsep p delim m =
     (if p = 0 then Some (0, p, m)
      else case ucx_strpbrk m p delim of None \<Rightarrow> None
        | Some q \<Rightarrow> if q \<noteq> 0 then Some (p, q + 1, m(q := 0)) else Some (p, 0, m))"

partial_function (option) strtok_loop :: "u32 \<Rightarrow> u32 \<Rightarrow> memory \<Rightarrow> (u32 \<times> u32 \<times> memory) option" where
  "strtok_loop holder delim m =
     (case ucx_strsep holder delim m of None \<Rightarrow> None
      | Some (s, h, m1) \<Rightarrow> if s \<noteq> 0 \<and> m1 s = 0 then strtok_loop h delim m1 else Some (s, h, m1))"

definition ucx_strtok_r :: "u32 \<Rightarrow> u32 \<Rightarrow> u32 \<Rightarrow> memory \<Rightarrow> (u32 \<times> u32 \<times> memory) option" where
  "ucx_strtok_r s delim holder m = strtok_loop (if s \<noteq> 0 then s else holder) delim m"

section \<open>Numbers\<close>

fun atoi_start :: "byte list \<Rightarrow> byte list \<times> bool" where
  "atoi_start [] = ([], False)"
| "atoi_start (c # cs) =
     (if c = 32 \<or> c = 9 then atoi_start cs else if c = 45 then (cs, True) else if c = 43 then (cs, False) else (c # cs, False))"

definition is_digit :: "byte \<Rightarrow> bool" where
  "is_digit c \<longleftrightarrow> 48 \<le> c \<and> c \<le> 57"

fun atoi_digits :: "u32 \<Rightarrow> byte list \<Rightarrow> u32" where
  "atoi_digits n [] = n"
| "atoi_digits n (c # cs) = (if is_digit c then atoi_digits (n * 10 + ucast c - 48) cs else n)"

definition ucx_atoi :: "byte list \<Rightarrow> int" where
  "ucx_atoi cs = (let (ds, f) = atoi_start cs; n = atoi_digits 0 ds in sint (if f then - n else n))"

text \<open>The digits, least significant first; \<open>sg\<close> is -1 for a negative number.\<close>

partial_function (option) itoa_digits :: "int \<Rightarrow> int \<Rightarrow> int \<Rightarrow> byte list option" where
  "itoa_digits sg i b =
     (let c = word_of_int (48 + sg * (i smod b)); i1 = i sdiv b in
      if i1 \<noteq> 0 then Option.bind (itoa_digits sg i1 b) (\<lambda>cs. Some (c # cs)) else Some [c])"

text \<open>The loop that turns the digits round, from the places \<open>p\<close> and \<open>q\<close>.\<close>

function swap_ends :: "(byte \<Rightarrow> byte) \<Rightarrow> nat \<Rightarrow> nat \<Rightarrow> byte list \<Rightarrow> byte list" where
  "swap_ends f p q buf =
     (if p < q then swap_ends f (p + 1) (q - 1) (buf[p := f (buf ! (q - 1)), q - 1 := f (buf ! p)]) else buf)"
  by pat_completeness auto
termination by (relation "measure (\<lambda>(f, p, q, buf). q - p)") auto

declare swap_ends.simps [simp del]

definition hex_char :: "byte \<Rightarrow> byte" where
  "hex_char c = (if c > 57 then c + 39 else c)"

definition ucx_itoa :: "int \<Rightarrow> int \<Rightarrow> byte list option" where
  "ucx_itoa i b =
     (if b = 16 then
        case itoa_digits 1 (uint (word_of_int i :: u32)) b of None \<Rightarrow> None
        | Some cs \<Rightarrow>
            let buf = (if i \<ge> 0 \<and> i < 16 then cs @ [48] else cs)
            in Some (swap_ends hex_char 0 (length buf) buf)
      else if b = 0 then None
      else if i \<ge> 0 then
        case itoa_digits 1 i b of None \<Rightarrow> None | Some cs \<Rightarrow> Some (swap_ends id 0 (length cs) cs)
      else
        case itoa_digits (-1) i b of None \<Rightarrow> None
        | Some cs \<Rightarrow> Some (swap_ends id 1 (length (45 # cs)) (45 # cs)))"

text \<open>\<open>strtol\<close>: the value, and the place of the end pointer.\<close>

definition digit_val :: "byte \<Rightarrow> u32 option" where
  "digit_val c =
     (if 48 \<le> c \<and> c \<le> 57 then Some (ucast c - 48)
      else if 65 \<le> c \<and> c \<le> 90 then Some (ucast c - 65 + 10)
      else if 97 \<le> c \<and> c \<le> 122 then Some (ucast c - 97 + 10) else None)"

text \<open>The characters read so far are counted in \<open>k\<close>; \<open>fuel\<close> is what is left of the nine rounds.\<close>

fun strtol_loop :: "nat \<Rightarrow> nat \<Rightarrow> u32 \<Rightarrow> u32 \<Rightarrow> byte list \<Rightarrow> u32 \<times> nat" where
  "strtol_loop 0 k b v cs = (v, k)"
| "strtol_loop (Suc fuel) k b v [] = (v, k + 1)"
| "strtol_loop (Suc fuel) k b v (c # cs) =
     (case digit_val c of None \<Rightarrow> (v, k + 1) | Some d \<Rightarrow> strtol_loop fuel (k + 1) b (v * b + d) cs)"

definition ucx_strtol :: "byte list \<Rightarrow> int \<Rightarrow> int \<times> nat" where
  "ucx_strtol cs base =
     (let (neg, k, cs) = (case cs of c # r \<Rightarrow> if c = 45 then (True, 1, r) else (False, 0, cs) | [] \<Rightarrow> (False, 0, cs));
          (b, k, cs) = (case cs of c # d # r \<Rightarrow> if c = 48 \<and> d = 120 then (16, k + 2, r) else (word_of_int base, k, cs)
                        | _ \<Rightarrow> (word_of_int base, k, cs));
          (v, k) = strtol_loop 9 k b 0 cs
      in (sint (if neg then - v else v), k - 1))"

section \<open>Pseudo random numbers\<close>

definition ucx_random :: "u32 \<Rightarrow> int \<times> u32" where
  "ucx_random rand1 = (let r = rand1 * 1103515245 + 12345 in (uint (drop_bit 16 r AND 32767), r))"

definition ucx_abs :: "int \<Rightarrow> int" where
  "ucx_abs n = (if n \<ge> 0 then n else sint (word_of_int (- n) :: u32))"


section \<open>What the string routines do\<close>

fun str_at :: "memory \<Rightarrow> u32 \<Rightarrow> byte list \<Rightarrow> bool" where
  "str_at m a [] \<longleftrightarrow> m a = 0"
| "str_at m a (c # cs) \<longleftrightarrow> m a = c \<and> c \<noteq> 0 \<and> str_at m (a + 1) cs"

lemma str_at_nonzero: "str_at m a s \<Longrightarrow> 0 \<notin> set s"
  by (induction s arbitrary: a) auto

lemma strlen_loop_at: "str_at m a s \<Longrightarrow> strlen_loop m a n = Some (n + of_nat (length s))"
proof (induction s arbitrary: a n)
  case (Cons c s)
  then show ?case by (subst strlen_loop.simps) (simp add: add.assoc)
qed (simp add: strlen_loop.simps)

lemma str_at_byte: "str_at m a s \<Longrightarrow> i \<le> length s \<Longrightarrow> m (a + of_nat i) = (if i < length s then s ! i else 0)"
proof (induction s arbitrary: a i)
  case (Cons c s)
  then show ?case using Cons.IH [of "a + 1" "i - 1"] by (cases i) (auto simp: add.assoc)
qed simp

lemma str_at_iff: "str_at m a s \<longleftrightarrow> 0 \<notin> set s \<and> (\<forall>i < length s. m (a + of_nat i) = s ! i) \<and> m (a + of_nat (length s)) = 0"
proof (induction s arbitrary: a)
  case (Cons c s)
  show ?case using Cons.IH [of "a + 1"] by (auto simp: All_less_Suc2 add.assoc)
qed simp

lemma strcpy_loop_copies:
  "str_at m s bs \<Longrightarrow> s = d \<or> length bs < offset s d \<Longrightarrow> Suc (length bs) < 2 ^ 32 \<Longrightarrow>
    strcpy_loop d s m = Some (copy_up (Suc (length bs)) d s m)"
proof (induction bs arbitrary: m d s)
  case (Cons c bs)
  have at: "str_at (m(d := m s)) (s + 1) bs"
  proof (cases "s = d")
    case False
    then have far: "Suc (length bs) < offset s d" using Cons.prems(2) by simp
    have "s + 1 + of_nat i \<noteq> d" if "i \<le> length bs" for i
    proof
      assume "s + 1 + of_nat i = d"
      then have "d - s = of_nat (Suc i)" by (simp add: algebra_simps)
      then have "offset s d \<le> Suc i" using unat_of_nat [of "Suc i", where ?'a = 32] by simp
      with far that show False by simp
    qed
    with Cons.prems(1) show ?thesis by (auto simp: str_at_iff add.assoc less_imp_le)
  qed (use Cons.prems(1) in auto)
  have far: "s + 1 = d + 1 \<or> length bs < offset (s + 1) (d + 1)" using Cons.prems(2) by auto
  have "Suc (length bs) < 2 ^ 32" using Cons.prems(3) by simp
  note rest = Cons.IH [OF at far this]
  have "strcpy_loop d s m = strcpy_loop (d + 1) (s + 1) (m(d := m s))"
    using Cons.prems(1) by (subst strcpy_loop.simps) (simp add: Let_def)
  with rest show ?case by (simp only: length_Cons copy_up.simps(2))
qed (simp add: strcpy_loop.simps Let_def)

text \<open>
  \<open>ucx_strlen\<close> and \<open>ucx_strcpy\<close>. The length of a string is the number of bytes before its null
  byte; a copy to a place that the string does not reach into puts the same string there and
  changes nothing else.
\<close>

theorem string_copied:
  assumes "str_at m s bs" and "length bs < 2 ^ 31" and "s = d \<or> length bs < offset s d"
  shows "ucx_strlen m s = Some (int (length bs)) \<and>
    (\<exists>m'. ucx_strcpy d s m = Some m' \<and> str_at m' d bs \<and> (\<forall>x. length bs < offset d x \<longrightarrow> m' x = m x))"
proof -
  let ?m = "copy_up (Suc (length bs)) d s m"
  have copy: "?m x = (if offset d x < Suc (length bs) then m (s + (x - d)) else m x)" for x
    using assms(2,3) by (intro copy_up_spec) auto
  have "?m (d + of_nat i) = m (s + of_nat i)" if "i \<le> length bs" for i
  proof -
    have "unat (of_nat i :: u32) = i" using that assms(2) by (simp add: unat_of_nat)
    then show ?thesis using that unfolding copy by simp
  qed
  then have "str_at ?m d bs" using assms(1) by (auto simp: str_at_iff less_imp_le)
  moreover have "ucx_strcpy d s m = Some ?m"
    using strcpy_loop_copies [OF assms(1,3)] assms(2) by (simp add: ucx_strcpy_def)
  moreover have "sint (of_nat (length bs) :: u32) = int (length bs)"
    using assms(2) signed_take_bit_int_eq_self [of 31 "int (length bs)"] by (simp add: signed_of_nat)
  ultimately show ?thesis using assms(1) unfolding ucx_strlen_def strlen_loop_at [OF assms(1)] by (auto simp: copy simp del: copy_up.simps)
qed


lemma char_val_inj: "char_val sch a = char_val sch b \<longleftrightarrow> a = b"
  using word_eq_iff_signed [of a b] word_uint_eq_iff [of a b] by (auto simp: char_val_def)

lemma char_val_order: "char_val False a < char_val False b \<longleftrightarrow> a < b"
  by (simp add: char_val_def word_less_def)

text \<open>
  \<open>ucx_strcmp\<close> is 0 exactly on equal strings, whatever \<open>char\<close> is; where \<open>char\<close> is unsigned, its
  sign is the lexicographic order.
\<close>

theorem strcmp_orders:
  assumes "str_at m a s" and "str_at m b t"
  shows "\<exists>r. ucx_strcmp sch m a b = Some r \<and> (r = 0 \<longleftrightarrow> s = t) \<and>
    (\<not> sch \<longrightarrow> (r < 0 \<longleftrightarrow> (s, t) \<in> lexord {(x, y). x < y}))"
  using assms
proof (induction s arbitrary: a b t)
  case Nil
  show ?case
  proof (cases t)
    case (Cons d t')
    with Nil have "m a \<noteq> m b" "m a = 0" by auto
    with Cons char_val_inj [of sch "m a" "m b"] char_val_order [of "m a" "m b"] word_gt_0 [of "m b"] show ?thesis
      by (subst ucx_strcmp.simps) auto
  qed (use Nil in \<open>subst ucx_strcmp.simps, simp\<close>)
next
  case (Cons c s)
  show ?case
  proof (cases t)
    case Nil
    with Cons.prems char_val_inj [of sch "m a" "m b"] char_val_order [of "m a" "m b"] show ?thesis
      by (subst ucx_strcmp.simps) auto
  next
    case t: (Cons d t')
    show ?thesis
    proof (cases "c = d")
      case True
      from Cons.IH [of "a + 1" "b + 1" t'] Cons.prems t True show ?thesis by (subst ucx_strcmp.simps) auto
    next
      case False
      with Cons.prems t show ?thesis
        by (subst ucx_strcmp.simps) (auto simp: char_val_inj char_val_order)
    qed
  qed
qed

lemma starts_at_prefix: "str_at m a s \<Longrightarrow> str_at m b t \<Longrightarrow> starts_at m a b = Some (prefix t s)"
proof (induction t arbitrary: a b s)
  case (Cons d t)
  show ?case
  proof (cases s)
    case Nil
    with Cons.prems show ?thesis by (subst starts_at.simps) simp
  next
    case s: (Cons c s')
    with Cons show ?thesis by (subst starts_at.simps) auto
  qed
qed (simp add: starts_at.simps)

text \<open>
  \<open>ucx_strstr\<close> finds the first occurrence: its result is the address of the first place where
  the second string starts in the first, and null when there is none.
\<close>

theorem strstr_first:
  assumes "str_at m a s" and "str_at m b t"
  shows "\<exists>r. ucx_strstr m a b = Some r \<and>
    (if sublist t s then \<exists>i. r = a + of_nat i \<and> prefix t (drop i s) \<and> (\<forall>j < i. \<not> prefix t (drop j s)) \<and> i \<le> length s
     else r = 0)"
  using assms(1)
proof (induction s arbitrary: a)
  case Nil
  note st = starts_at_prefix [OF Nil assms(2)]
  show ?case using Nil st by (subst ucx_strstr.simps) auto
next
  case (Cons c s)
  note st = starts_at_prefix [OF Cons.prems assms(2)]
  show ?case
  proof (cases "prefix t (c # s)")
    case True
    then have "ucx_strstr m a b = Some a" using st by (subst ucx_strstr.simps) simp
    moreover have "sublist t (c # s)" using True by (simp add: sublist_Cons_right)
    ultimately show ?thesis using True by (intro exI [of _ a]) (auto intro: exI [of _ 0])
  next
    case False
    have step: "ucx_strstr m a b = ucx_strstr m (a + 1) b" using st False Cons.prems by (subst ucx_strstr.simps) auto
    have sub: "sublist t (c # s) \<longleftrightarrow> sublist t s" using False by (simp add: sublist_Cons_right)
    from Cons.IH [of "a + 1"] Cons.prems obtain r where r: "ucx_strstr m (a + 1) b = Some r"
      "if sublist t s then \<exists>i. r = a + 1 + of_nat i \<and> prefix t (drop i s) \<and> (\<forall>j < i. \<not> prefix t (drop j s)) \<and> i \<le> length s
       else r = 0" by auto
    show ?thesis
    proof (cases "sublist t s")
      case True
      with r(2) obtain i where i: "r = a + 1 + of_nat i" "prefix t (drop i s)" "\<forall>j < i. \<not> prefix t (drop j s)" "i \<le> length s"
        by auto
      then have "r = a + of_nat (Suc i) \<and> prefix t (drop (Suc i) (c # s)) \<and> (\<forall>j < Suc i. \<not> prefix t (drop j (c # s))) \<and>
          Suc i \<le> length (c # s)" using False by (auto simp: All_less_Suc2 add.assoc)
      then show ?thesis using True sub step r(1) by (auto intro!: exI [of _ "Suc i"])
    next
      case False
      with sub step r show ?thesis by simp
    qed
  qed
qed


section \<open>Conversions\<close>

text \<open>The loop that turns the digits round is \<open>rev\<close>.\<close>

lemma swap_ends_rev: "swap_ends f (length xs) (length xs + length ys) (xs @ ys @ zs) = xs @ rev (map f ys) @ zs"
proof (induction "length ys" arbitrary: xs ys zs rule: less_induct)
  case less
  show ?case
  proof (cases ys)
    case Nil
    then show ?thesis by (subst swap_ends.simps) simp
  next
    case (Cons y ys')
    show ?thesis
    proof (cases ys' rule: rev_cases)
      case Nil
      with Cons show ?thesis by (subst swap_ends.simps, subst swap_ends.simps) (simp add: nth_append)
    next
      case (snoc ms z)
      have len: "length xs + length ys - 1 = length (xs @ y # ms)" by (simp add: Cons snoc)
      have "(xs @ ys @ zs)[length xs := f z, length (xs @ y # ms) := f y] = (xs @ [f z]) @ ms @ (f y # zs)"
        by (simp add: Cons snoc list_update_append)
      moreover have "(xs @ ys @ zs) ! length xs = y" "(xs @ ys @ zs) ! length (xs @ y # ms) = z"
        by (simp_all add: Cons snoc nth_append)
      ultimately have "swap_ends f (length xs) (length xs + length ys) (xs @ ys @ zs) =
          swap_ends f (length (xs @ [f z])) (length (xs @ [f z]) + length ms) ((xs @ [f z]) @ ms @ (f y # zs))"
        using len by (subst swap_ends.simps) (simp add: Cons snoc)
      also have "\<dots> = (xs @ [f z]) @ rev (map f ms) @ (f y # zs)" by (rule less.hyps) (simp add: Cons snoc)
      finally show ?thesis by (simp add: Cons snoc)
    qed
  qed
qed

text \<open>The decimal digits of a number, least significant first.\<close>

fun dec :: "nat \<Rightarrow> byte list" where
  "dec n = (if n < 10 then [of_nat (48 + n)] else of_nat (48 + n mod 10) # dec (n div 10))"

declare dec.simps [simp del]

lemma itoa_digits_dec: "itoa_digits 1 (int n) 10 = Some (dec n)" "itoa_digits (-1) (- int n) 10 = Some (dec n)"
proof -
  have q: "int n sdiv 10 = int (n div 10)" "int n smod 10 = int (n mod 10)"
    "(- int n) sdiv 10 = - int (n div 10)" "(- int n) smod 10 = - int (n mod 10)" for n
    by (simp_all add: signed_divide_int_def signed_modulo_int_def zdiv_int zmod_int sgn_if)
  have "itoa_digits 1 (int n) 10 = Some (dec n) \<and> itoa_digits (-1) (- int n) 10 = Some (dec n)"
  proof (induction n rule: less_induct)
    case (less n)
    show ?case
    proof (cases "n < 10")
      case True
      then show ?thesis
        by (intro conjI; subst itoa_digits.simps, subst dec.simps) (simp_all add: q Let_def)
    next
      case False
      then have "n div 10 \<noteq> 0" "n div 10 < n" by auto
      with False less show ?thesis
        by (intro conjI; subst itoa_digits.simps, subst dec.simps) (simp_all add: q Let_def)
    qed
  qed
  then show "itoa_digits 1 (int n) 10 = Some (dec n)" "itoa_digits (-1) (- int n) 10 = Some (dec n)" by auto
qed

lemma dec_digits: "\<forall>c \<in> set (dec n). is_digit c" "dec n \<noteq> []"
proof -
  have d: "is_digit (of_nat (48 + k))" if "k < 10" for k
  proof -
    have "unat (of_nat (48 + k) :: byte) = 48 + k" using that by (simp add: unat_of_nat del: of_nat_add)
    then show ?thesis using that by (simp add: is_digit_def word_le_nat_alt)
  qed
  show "\<forall>c \<in> set (dec n). is_digit c"
    by (induction n rule: dec.induct) (subst dec.simps, auto intro: d simp del: of_nat_add)
  show "dec n \<noteq> []" by (subst dec.simps) auto
qed

lemma itoa_dec:
  "ucx_itoa (int n) 10 = Some (rev (dec n))" "0 < n \<Longrightarrow> ucx_itoa (- int n) 10 = Some (45 # rev (dec n))"
  using swap_ends_rev [of id "[]" "dec n" "[]"] swap_ends_rev [of id "[45]" "dec n" "[]"]
  by (simp_all add: ucx_itoa_def itoa_digits_dec)

lemma atoi_digits_snoc: "\<forall>d \<in> set cs. is_digit d \<Longrightarrow> is_digit c \<Longrightarrow> atoi_digits n (cs @ [c]) = atoi_digits n cs * 10 + ucast c - 48"
  by (induction cs arbitrary: n) auto

lemma atoi_digits_dec: "atoi_digits 0 (rev (dec n)) = of_nat n"
proof (induction n rule: less_induct)
  case (less n)
  have u: "ucast (of_nat (48 + k) :: byte) = (of_nat (48 + k) :: u32)" if "k < 10" for k
    using that by (simp add: unsigned_of_nat take_bit_nat_eq_self del: of_nat_add)
  have d: "is_digit (of_nat (48 + n mod 10))" using dec_digits(1) [of n] by (subst (asm) dec.simps) (auto split: if_splits)
  show ?case
  proof (cases "n < 10")
    case True
    with u [of n] d show ?thesis by (subst dec.simps) simp
  next
    case False
    have "atoi_digits 0 (rev (dec n)) = atoi_digits 0 (rev (dec (n div 10)) @ [of_nat (48 + n mod 10)])"
      using False by (subst dec.simps) (simp del: of_nat_add)
    also have "\<dots> = of_nat (n div 10) * 10 + of_nat (48 + n mod 10) - 48"
      using atoi_digits_snoc [of "rev (dec (n div 10))" "of_nat (48 + n mod 10)" 0] dec_digits(1) d False u [of "n mod 10"]
        less [of "n div 10"] by (simp del: of_nat_add)
    also have "\<dots> = of_nat (n div 10 * 10 + n mod 10)" by (simp only: of_nat_add of_nat_mult of_nat_numeral) simp
    finally show ?thesis by simp
  qed
qed

lemma atoi_start_digits: "is_digit c \<Longrightarrow> atoi_start (c # cs) = (c # cs, False)"
  by (auto simp: is_digit_def)

text \<open>
  C33. \<open>ucx_atoi\<close> reads back what \<open>ucx_itoa\<close> writes, for every 32-bit number; the overflow at the
  smallest one wraps to it.
\<close>

theorem atoi_itoa_roundtrip:
  assumes "- (2 ^ 31) \<le> i" and "i < 2 ^ 31"
  shows "\<exists>cs. ucx_itoa i 10 = Some cs \<and> ucx_atoi cs = i"
proof -
  have ii: "sint (word_of_int i :: u32) = i" using assms by (simp add: signed_of_int signed_take_bit_int_eq_self)
  show ?thesis
  proof (cases "0 \<le> i")
    case True
    then obtain n where n: "i = int n" by (metis nonneg_int_cases)
    obtain c cs where c: "rev (dec n) = c # cs" using dec_digits(2) [of n] by (cases "rev (dec n)") auto
    then have "is_digit c" using dec_digits(1) [of n] by (metis list.set_intros(1) set_rev)
    then have "ucx_atoi (rev (dec n)) = sint (of_nat n :: u32)"
      using atoi_digits_dec [of n] unfolding ucx_atoi_def c atoi_start_digits [OF \<open>is_digit c\<close>] by simp
    with ii itoa_dec(1) [of n] show ?thesis by (simp add: n)
  next
    case False
    then obtain n where n: "i = - int n" "0 < n" by (metis int_cases not_le of_nat_0_less_iff neg_0_less_iff_less minus_minus zero_less_imp_eq_int)
    have "ucx_atoi (45 # rev (dec n)) = sint (- of_nat n :: u32)" using atoi_digits_dec [of n] by (simp add: ucx_atoi_def)
    with ii itoa_dec(2) [OF n(2)] show ?thesis by (simp add: n(1))
  qed
qed


lemma digit_val_digit: "is_digit c \<Longrightarrow> digit_val c = Some (ucast c - 48)"
  by (simp add: digit_val_def is_digit_def)

lemma strtol_loop_digits:
  assumes "\<forall>c \<in> set ds. is_digit c"
  shows "strtol_loop (length ds + f) k 10 v (ds @ rest) = strtol_loop f (k + length ds) 10 (atoi_digits v ds) rest"
  using assms by (induction ds arbitrary: k v) (auto simp: digit_val_digit add_diff_eq)

lemma dec_length: "n < 10 ^ Suc k \<longleftrightarrow> length (dec n) \<le> Suc k"
proof (induction k arbitrary: n)
  case 0
  have "0 < length (dec (n div 10))" using dec_digits(2) by simp
  then show ?case by (subst dec.simps) auto
next
  case (Suc k)
  show ?case
  proof (cases "n < 10")
    case True
    have "(10 :: nat) \<le> 10 ^ Suc (Suc k)" by simp
    with True have "n < 10 ^ Suc (Suc k)" by (rule less_le_trans)
    with True show ?thesis by (subst dec.simps) simp
  next
    case False
    have "n < 10 ^ Suc (Suc k) \<longleftrightarrow> n div 10 < 10 ^ Suc k" by (simp add: div_less_iff_less_mult mult.commute)
    with False Suc [of "n div 10"] show ?thesis by (subst dec.simps) simp
  qed
qed

text \<open>
  \<open>ucx_strtol\<close> stops after nine characters. A number of up to nine digits is read back; of
  every larger one the last digit is dropped without notice. From nine digits on, the end
  pointer is left at the ninth digit although that has been used.
\<close>

theorem strtol_drops_last_digit:
  assumes "n < 2 ^ 31"
  shows "\<exists>cs. ucx_itoa (int n) 10 = Some cs \<and>
    ucx_strtol cs 10 = (int (if n < 10 ^ 9 then n else n div 10), min (length cs) 8)"
proof -
  let ?cs = "rev (dec n)"
  have dig: "\<forall>c \<in> set ?cs. is_digit c" using dec_digits(1) by simp
  have start: "ucx_strtol ?cs 10 = (let (v, k) = strtol_loop 9 0 10 0 ?cs in (sint v, k - 1))"
    using dig by (auto simp: ucx_strtol_def Let_def is_digit_def split: list.splits)
  have sint_of: "sint (of_nat m :: u32) = int m" if "m < 2 ^ 31" for m
    using that signed_take_bit_int_eq_self [of 31 "int m"] by (simp add: signed_of_nat)
  show ?thesis
  proof (cases "n < 10 ^ 9")
    case True
    then have len: "length ?cs \<le> 9" using dec_length [of n 8] by simp
    then obtain f where f: "9 = length ?cs + f" using le_Suc_ex by blast
    have "strtol_loop 9 0 10 0 ?cs = strtol_loop f (length ?cs) 10 (of_nat n) []"
      using strtol_loop_digits [OF dig, of f 0 0 "[]"] atoi_digits_dec [of n] unfolding f by simp
    moreover have "strtol_loop f (length ?cs) 10 (of_nat n) [] = (of_nat n, min (length ?cs) 8 + 1)"
      using f by (cases f) auto
    ultimately show ?thesis using True itoa_dec(1) [of n] sint_of [OF assms] by (auto simp: start)
  next
    case False
    let ?hi = "rev (dec (n div 10))"
    have hi: "\<forall>c \<in> set ?hi. is_digit c" using dec_digits(1) by simp
    have cs: "?cs = ?hi @ [of_nat (48 + n mod 10)]" using False by (subst dec.simps) (simp del: of_nat_add)
    have "\<not> n div 10 < 10 ^ 8" "n div 10 < 10 ^ 9" using False assms by simp_all
    then have len: "length ?hi = 9" using dec_length [of "n div 10" 7] dec_length [of "n div 10" 8] by simp
    have loop: "strtol_loop 9 0 10 0 ?cs = (of_nat (n div 10), 9)"
      using strtol_loop_digits [OF hi, of 0 0 0 "[of_nat (48 + n mod 10)]"] atoi_digits_dec [of "n div 10"]
      unfolding len cs by simp
    have "n div 10 < 2 ^ 31" using assms by simp
    then have "ucx_strtol ?cs 10 = (int (n div 10), 8)" unfolding start loop by (simp add: sint_of)
    moreover have "length ?cs = 10" using arg_cong [OF cs, of length] len by simp
    ultimately show ?thesis using False itoa_dec(1) [of n] by simp
  qed
qed

text \<open>\<open>ucx_random\<close> returns a number of 15 bits.\<close>

lemma random_range: "0 \<le> fst (ucx_random r) \<and> fst (ucx_random r) < 2 ^ 15"
proof -
  have "x AND 32767 = take_bit 15 x" for x :: u32 by (simp add: take_bit_eq_mask mask_eq_exp_minus_1)
  then have "uint (x AND 32767 :: u32) = take_bit 15 (uint x)" for x by (simp add: unsigned_take_bit_eq)
  then show ?thesis
    using take_bit_int_less_exp [of 15 "uint (drop_bit 16 (r * 1103515245 + 12345))"] by (simp add: ucx_random_def Let_def)
qed

section \<open>Examples\<close>

text \<open>The strings ''abcab'' at 16 and ''ab'' at 32.\<close>

definition sample_memory :: memory where
  "sample_memory = (\<lambda>_. 0)(16 := 97, 17 := 98, 18 := 99, 19 := 97, 20 := 98, 32 := 97, 33 := 98)"

lemma sample_strings: "str_at sample_memory 16 [97, 98, 99, 97, 98]" "str_at sample_memory 32 [97, 98]"
  "str_at sample_memory 18 [99, 97, 98]"
  by (simp_all add: sample_memory_def)

theorem string_copied_witness:
  "ucx_strlen sample_memory 16 = Some 5 \<and>
    (\<exists>m'. ucx_strcpy 64 16 sample_memory = Some m' \<and> str_at m' 64 [97, 98, 99, 97, 98] \<and> m' 32 = 97)"
  using string_copied [OF sample_strings(1), of 64] by (auto simp: sample_memory_def)

theorem strcmp_orders_witness: "\<exists>r. ucx_strcmp False sample_memory 16 32 = Some r \<and> r \<noteq> 0 \<and> \<not> r < 0"
  using strcmp_orders [OF sample_strings(1,2), of False] by auto

theorem strstr_first_witness: "\<exists>r. ucx_strstr sample_memory 18 32 = Some r \<and> r \<noteq> 0"
proof -
  have "sublist [97, 98] [99, 97, 98 :: byte]" by (simp add: sublist_Cons_right)
  with strstr_first [OF sample_strings(3,2)] obtain i where i: "ucx_strstr sample_memory 18 32 = Some (18 + of_nat i)"
    "i \<le> 3" by auto
  have "(18 + of_nat i :: u32) \<noteq> 0" 
  proof -
    have "i = 0 \<or> i = 1 \<or> i = 2 \<or> i = 3" using i(2) by linarith
    then show ?thesis by (elim disjE) simp_all
  qed
  with i(1) show ?thesis by blast
qed

theorem atoi_itoa_roundtrip_witness: "\<exists>cs. ucx_itoa (-2147483648) 10 = Some cs \<and> ucx_atoi cs = -2147483648"
  using atoi_itoa_roundtrip [of "-2147483648"] by simp

theorem strtol_drops_last_digit_witness:
  "\<exists>cs. ucx_itoa 1234567890 10 = Some cs \<and> fst (ucx_strtol cs 10) = 123456789"
  using strtol_drops_last_digit [of 1234567890] by auto

end
