(* ===== verification/C_Tokens.thy ===== *)
theory C_Tokens
  imports C_Strings
begin

text \<open>
  \<open>strtok\<close> of \<open>lib/libc.c\<close>, which keeps the place to go on at in a static variable, and the
  function of \<open>net/inet/utils.c\<close> that uses it, \<open>ip_config\<close>.

  \<open>tokens\<close> is the reference: the maximal runs of characters that are not delimiters. The theory
  shows that the calls of \<open>strtok\<close> yield exactly these, and that \<open>ip_config\<close> reads the address
  of a dotted number.
\<close>

section \<open>Operations\<close>

text \<open>The loop over the delimiters that ends a token compares the null byte too, \<open>has_char\<close> does not.\<close>

partial_function (option) span0 :: "memory \<Rightarrow> u32 \<Rightarrow> byte \<Rightarrow> bool option" where
  "span0 m p c = (if m p = c then Some True else if m p = 0 then Some False else span0 m (p + 1) c)"

partial_function (option) skip_delims :: "memory \<Rightarrow> u32 \<Rightarrow> u32 \<Rightarrow> u32 option" where
  "skip_delims m delim s = Option.bind (has_char m delim (m s)) (\<lambda>b. if b then skip_delims m delim (s + 1) else Some s)"

partial_function (option) token_end :: "memory \<Rightarrow> u32 \<Rightarrow> u32 \<Rightarrow> u32 option" where
  "token_end m delim s = Option.bind (span0 m delim (m s)) (\<lambda>b. if b then Some s else token_end m delim (s + 1))"

text \<open>The token, the static pointer, and the memory.\<close>

definition ucx_strtok :: "u32 \<Rightarrow> u32 \<Rightarrow> u32 \<times> memory \<Rightarrow> (u32 \<times> u32 \<times> memory) option" where
  "ucx_strtok s delim st = (case st of (lst, m) \<Rightarrow>
     let s = (if s = 0 then lst else s) in
     if s = 0 then Some (0, lst, m)
     else Option.bind (skip_delims m delim s) (\<lambda>s.
          if m s = 0 then Some (0, 0, m)
          else Option.bind (token_end m delim (s + 1)) (\<lambda>e.
               if m e = 0 then Some (s, 0, m) else Some (s, e + 1, m(e := 0)))))"

text \<open>The string at an address.\<close>

partial_function (option) read_str :: "memory \<Rightarrow> u32 \<Rightarrow> byte list option" where
  "read_str m a = (if m a = 0 then Some [] else Option.bind (read_str m (a + 1)) (\<lambda>cs. Some (m a # cs)))"

text \<open>
  The loop of \<open>ip_config\<close>: \<open>p\<close> is the current token, \<open>i\<close> the number of bytes stored. The buffer and
  the delimiters are local variables, whose addresses are parameters; so is the former
  content of the static pointer.
\<close>

primrec config_loop :: "nat \<Rightarrow> nat \<Rightarrow> u32 \<Rightarrow> u32 \<Rightarrow> byte list \<Rightarrow> u32 \<times> memory \<Rightarrow> (nat \<times> byte list \<times> u32 \<times> memory) option" where
  "config_loop 0 i p delim addr st = Some (i, addr, st)"
| "config_loop (Suc n) i p delim addr st =
     (if p = 0 then Some (i, addr, st)
      else Option.bind (read_str (snd st) p) (\<lambda>cs.
           Option.bind (ucx_strtok 0 delim st) (\<lambda>(q, st).
           config_loop n (i + 1) q delim (addr[i := word_of_int (ucx_atoi cs)]) st)))"

definition ip_config :: "u32 \<Rightarrow> u32 \<Rightarrow> byte list \<Rightarrow> u32 \<Rightarrow> u32 \<times> memory \<Rightarrow> (int \<times> byte list \<times> u32 \<times> memory) option" where
  "ip_config buf delim addr str st =
     (let m = ucx_strncpy buf str 127 (snd st) in
      let m = m(delim := 46, delim + 1 := 0) in
      Option.bind (ucx_strtok buf delim (fst st, m)) (\<lambda>(p, st).
      Option.bind (config_loop 4 0 p delim addr st) (\<lambda>(i, addr, st).
      Some (if i < 4 then -1 else 0, addr, st))))"

section \<open>Tokens\<close>

function tokens :: "byte list \<Rightarrow> byte list \<Rightarrow> byte list list" where
  "tokens ds cs =
     (let rest = dropWhile (\<lambda>c. c \<in> set ds) cs in
      if rest = [] then []
      else takeWhile (\<lambda>c. c \<notin> set ds) rest # tokens ds (drop 1 (dropWhile (\<lambda>c. c \<notin> set ds) rest)))"
  by pat_completeness auto
termination
proof (relation "measure (\<lambda>(ds, cs). length cs)", goal_cases)
  case (2 ds cs rest)
  have "length (dropWhile (\<lambda>c. c \<notin> set ds) rest) \<le> length rest" by (rule length_dropWhile_le)
  moreover have "length rest \<le> length cs" unfolding 2(1) by (rule length_dropWhile_le)
  moreover have "0 < length rest" using 2(2) by simp
  moreover have "length (drop 1 (dropWhile (\<lambda>c. c \<notin> set ds) rest)) = length (dropWhile (\<lambda>c. c \<notin> set ds) rest) - 1"
    by simp
  ultimately have "length (drop 1 (dropWhile (\<lambda>c. c \<notin> set ds) rest)) < length cs" by linarith
  then show ?case by simp
qed simp

declare tokens.simps [simp del]

lemma has_char_at: "str_at m d ds \<Longrightarrow> has_char m d c = Some (c \<in> set ds)"
  by (induction m d ds rule: str_at.induct) (subst has_char.simps, auto)+

lemma span0_at: "str_at m d ds \<Longrightarrow> span0 m d c = Some (c = 0 \<or> c \<in> set ds)"
  by (induction m d ds rule: str_at.induct) (subst span0.simps, auto)+

lemma skip_delims_at:
  assumes d: "str_at m d ds"
  shows "str_at m s cs \<Longrightarrow> skip_delims m d s = Some (s + of_nat (length (takeWhile (\<lambda>c. c \<in> set ds) cs)))"
proof (induction cs arbitrary: s)
  case Nil
  then show ?case using str_at_nonzero [OF d] by (subst skip_delims.simps) (simp add: has_char_at [OF d])
next
  case (Cons c cs)
  then show ?case by (subst skip_delims.simps) (simp add: has_char_at [OF d] add.assoc)
qed

lemma token_end_at:
  assumes d: "str_at m d ds"
  shows "str_at m s cs \<Longrightarrow> token_end m d s = Some (s + of_nat (length (takeWhile (\<lambda>c. c \<notin> set ds) cs)))"
proof (induction cs arbitrary: s)
  case Nil
  then show ?case by (subst token_end.simps) (simp add: span0_at [OF d])
next
  case (Cons c cs)
  then show ?case by (subst token_end.simps) (auto simp: span0_at [OF d] add.assoc)
qed

lemma str_at_drop: "str_at m a (xs @ ys) \<Longrightarrow> str_at m (a + of_nat (length xs)) ys"
proof (induction xs arbitrary: a)
  case (Cons x xs)
  then have "str_at m (a + 1 + of_nat (length xs)) ys" by simp
  then show ?case by (simp add: add.assoc)
qed simp

text \<open>A string that lies at non-null addresses without wrapping round.\<close>

definition linear :: "u32 \<Rightarrow> byte list \<Rightarrow> bool" where
  "linear a cs \<longleftrightarrow> 0 < unat a \<and> unat a + length cs < 2 ^ 32"

lemma linear_unat: "linear a cs \<Longrightarrow> i \<le> length cs \<Longrightarrow> unat (a + of_nat i) = unat a + i"
  by (simp add: linear_def unat_word_ariths unat_of_nat)

lemma linear_nonzero: "linear a cs \<Longrightarrow> i \<le> length cs \<Longrightarrow> a + of_nat i \<noteq> 0"
  using linear_unat [of a cs i] by (metis linear_def add_gr_0 unat_0 less_irrefl)

lemma linear_drop: "linear a (xs @ ys) \<Longrightarrow> linear (a + of_nat (length xs)) ys"
  using linear_unat [of a "xs @ ys" "length xs"] by (simp add: linear_def)

text \<open>Writing a null byte behind a prefix of a string cuts the string there.\<close>

lemma str_at_cut:
  assumes "str_at m a (xs @ c # ys)" and "linear a (xs @ c # ys)"
  shows "str_at (m(a + of_nat (length xs) := 0)) a xs"
    and "str_at (m(a + of_nat (length xs) := 0)) (a + of_nat (length xs) + 1) ys"
proof -
  let ?e = "a + of_nat (length xs)"
  have ne: "a + of_nat i \<noteq> ?e" if "i \<le> length (xs @ c # ys)" "i \<noteq> length xs" for i
    using linear_unat [OF assms(2), of i] linear_unat [OF assms(2), of "length xs"] that by auto
  have xs: "\<forall>i < length xs. m (a + of_nat i) = xs ! i" "0 \<notin> set xs"
    using assms(1) by (auto simp: str_at_iff nth_append)
  show "str_at (m(?e := 0)) a xs"
    using xs ne by (auto simp: str_at_iff)
  have y: "str_at m (a + of_nat (length (xs @ [c]))) ys" using str_at_drop [of m a "xs @ [c]" ys] assms(1) by simp
  have "?e + 1 + of_nat j \<noteq> ?e" if "j \<le> length ys" for j
    using ne [of "length xs + 1 + j"] that by (simp add: add.assoc)
  with y show "str_at (m(?e := 0)) (?e + 1) ys"
    by (auto simp: str_at_iff add.assoc add.commute add.left_commute)
qed

text \<open>No byte of one area is a byte of the other.\<close>

definition apart :: "u32 \<Rightarrow> byte list \<Rightarrow> u32 \<Rightarrow> byte list \<Rightarrow> bool" where
  "apart a xs b ys \<longleftrightarrow> (\<forall>i \<le> length xs. \<forall>j \<le> length ys. a + of_nat i \<noteq> b + of_nat j)"

lemma str_at_apart:
  assumes "str_at m b ys" and "apart a xs b ys" and "i \<le> length xs"
  shows "str_at (m(a + of_nat i := v)) b ys"
proof -
  have "b + of_nat j \<noteq> a + of_nat i" if "j \<le> length ys" for j
    using assms(2,3) that by (metis apart_def)
  with assms(1) show ?thesis by (simp add: str_at_iff)
qed

lemma apart_sub:
  assumes "apart a (us @ xs @ vs) b ys" shows "apart (a + of_nat (length us)) xs b ys"
  unfolding apart_def
proof (intro allI impI)
  fix i j assume "i \<le> length xs" "j \<le> length ys"
  with assms have "a + of_nat (length us + i) \<noteq> b + of_nat j" by (auto simp: apart_def simp del: of_nat_add)
  then show "a + of_nat (length us) + of_nat i \<noteq> b + of_nat j" by (simp add: add.assoc)
qed

section \<open>What a call of \<open>strtok\<close> does\<close>

text \<open>With only delimiters left, the static pointer and the result are null.\<close>

lemma strtok_none:
  assumes "str_at m d ds" and "str_at m s cs" and "linear s cs" and "set cs \<subseteq> set ds"
  shows "ucx_strtok s d (lst, m) = Some (0, 0, m)" "ucx_strtok 0 d (s, m) = Some (0, 0, m)"
proof -
  have "s \<noteq> 0" using linear_nonzero [OF assms(3), of 0] by simp
  moreover have "takeWhile (\<lambda>c. c \<in> set ds) cs = cs" using assms(4) by (auto simp: takeWhile_eq_all_conv)
  moreover have "m (s + of_nat (length cs)) = 0" using str_at_byte [OF assms(2), of "length cs"] by simp
  moreover from calculation have "skip_delims m d s = Some (s + of_nat (length cs))"
    using skip_delims_at [OF assms(1,2)] by (simp only:)
  ultimately show "ucx_strtok s d (lst, m) = Some (0, 0, m)" "ucx_strtok 0 d (s, m) = Some (0, 0, m)"
    by (simp_all add: ucx_strtok_def Let_def)
qed

text \<open>
  Otherwise the string is delimiters \<open>xs\<close>, a token \<open>t\<close>, and a rest that begins with a
  delimiter: the token is returned and cut off, and the static pointer is behind it.
\<close>

lemma strtok_token:
  assumes d: "str_at m d ds" and s: "str_at m s (xs @ t @ ys)" and l: "linear s (xs @ t @ ys)"
    and xs: "set xs \<subseteq> set ds" and t: "t \<noteq> []" "set t \<inter> set ds = {}" and ys: "ys \<noteq> [] \<longrightarrow> hd ys \<in> set ds"
    and call: "a = s \<or> a = 0 \<and> lst = s"
  defines "p \<equiv> s + of_nat (length xs)"
  shows "ucx_strtok a d (lst, m) =
    Some (p, if ys = [] then 0 else p + of_nat (length t) + 1, if ys = [] then m else m(p + of_nat (length t) := 0))"
proof -
  have sn: "s \<noteq> 0" using linear_nonzero [OF l, of 0] by simp
  obtain c u where cu: "t = c # u" using t(1) by (cases t) auto
  have tw: "takeWhile (\<lambda>c. c \<in> set ds) (xs @ t @ ys) = xs"
    using xs t(2) cu by (auto simp: takeWhile_append takeWhile_eq_all_conv)
  have sk: "skip_delims m d s = Some p" using skip_delims_at [OF d s] tw by (simp add: p_def)
  have p: "str_at m p (t @ ys)" unfolding p_def using str_at_drop [OF s] .
  then have c: "m p \<noteq> 0" "str_at m (p + 1) (u @ ys)" by (simp_all add: cu)
  have tw2: "takeWhile (\<lambda>c. c \<notin> set ds) (u @ ys) = u"
    using t(2) ys cu by (cases ys) (auto simp: takeWhile_append takeWhile_eq_all_conv)
  have e: "token_end m d (p + 1) = Some (p + of_nat (length t))"
    using token_end_at [OF d c(2)] tw2 by (simp add: cu add.assoc)
  have "m (p + of_nat (length t)) = (if ys = [] then 0 else hd ys)"
    using str_at_byte [OF p, of "length t"] by (cases ys) (auto simp: nth_append)
  moreover have "ys \<noteq> [] \<longrightarrow> hd ys \<noteq> 0" using str_at_nonzero [OF p] by (cases ys) auto
  ultimately have z: "m (p + of_nat (length t)) = 0 \<longleftrightarrow> ys = []" by auto
  from call sn have "(if a = 0 then lst else a) = s" by auto
  then show ?thesis using sn sk c(1) e z by (simp add: ucx_strtok_def Let_def)
qed


section \<open>The calls together\<close>

primrec strtok_calls :: "nat \<Rightarrow> u32 \<Rightarrow> u32 \<Rightarrow> u32 \<times> memory \<Rightarrow> (u32 list \<times> u32 \<times> memory) option" where
  "strtok_calls 0 s delim st = Some ([], st)"
| "strtok_calls (Suc n) s delim st =
     Option.bind (ucx_strtok s delim st) (\<lambda>(p, st).
     map_option (\<lambda>(ps, st). (p # ps, st)) (strtok_calls n 0 delim st))"

lemma tokens_split:
  assumes "set xs \<subseteq> set ds" "t \<noteq> []" "set t \<inter> set ds = {}" "ys \<noteq> [] \<longrightarrow> hd ys \<in> set ds"
  shows "tokens ds (xs @ t @ ys) = t # tokens ds (drop 1 ys)"
proof -
  have "dropWhile (\<lambda>c. c \<in> set ds) (xs @ t @ ys) = t @ ys"
    using assms(1-3) by (cases t) (auto simp: dropWhile_append dropWhile_eq_Nil_conv)
  moreover have "takeWhile (\<lambda>c. c \<notin> set ds) (t @ ys) = t" "dropWhile (\<lambda>c. c \<notin> set ds) (t @ ys) = ys"
    using assms(3,4) by (cases ys; auto simp: takeWhile_append dropWhile_append takeWhile_eq_all_conv dropWhile_eq_Nil_conv)+
  ultimately show ?thesis using assms(2) by (subst tokens.simps) (simp add: Let_def)
qed

lemma tokens_delims: "set cs \<subseteq> set ds \<Longrightarrow> tokens ds cs = []"
  by (subst tokens.simps) (auto simp: Let_def dropWhile_eq_Nil_conv)

text \<open>Every string is either delimiters only, or begins with a token behind delimiters.\<close>

lemma token_cases:
  obtains "set cs \<subseteq> set ds"
  | xs t ys where "cs = xs @ t @ ys" "set xs \<subseteq> set ds" "t \<noteq> []" "set t \<inter> set ds = {}" "ys \<noteq> [] \<longrightarrow> hd ys \<in> set ds"
proof (cases "set cs \<subseteq> set ds")
  case False
  let ?r = "dropWhile (\<lambda>c. c \<in> set ds) cs"
  have r: "?r \<noteq> []" using False by (auto simp: dropWhile_eq_Nil_conv)
  have "cs = takeWhile (\<lambda>c. c \<in> set ds) cs @ takeWhile (\<lambda>c. c \<notin> set ds) ?r @ dropWhile (\<lambda>c. c \<notin> set ds) ?r" by simp
  moreover have "takeWhile (\<lambda>c. c \<notin> set ds) ?r \<noteq> []"
    using hd_dropWhile [of "\<lambda>c. c \<in> set ds" cs] r by (cases ?r) auto
  ultimately show thesis
    using that(2) [of "takeWhile (\<lambda>c. c \<in> set ds) cs" "takeWhile (\<lambda>c. c \<notin> set ds) ?r" "dropWhile (\<lambda>c. c \<notin> set ds) ?r"]
      hd_dropWhile [of "\<lambda>c. c \<notin> set ds" ?r]
    by (auto dest: set_takeWhileD)
qed (rule that(1))

lemma str_at_frame:
  "str_at m a cs \<Longrightarrow> (\<And>i. i \<le> length cs \<Longrightarrow> m' (a + of_nat i) = m (a + of_nat i)) \<Longrightarrow> str_at m' a cs"
  by (simp add: str_at_iff)

lemma strtok_calls_tokens:
  assumes "str_at m d ds" and "str_at m s cs" and "linear s cs" and "apart s cs d ds" and "a = s \<or> a = 0 \<and> lst = s"
  shows "\<exists>ps m'. strtok_calls (Suc (length (tokens ds cs))) a d (lst, m) = Some (ps @ [0], 0, m') \<and>
    list_all2 (str_at m') ps (tokens ds cs) \<and> (\<forall>x. (\<forall>i \<le> length cs. x \<noteq> s + of_nat i) \<longrightarrow> m' x = m x)"
  using assms
proof (induction cs arbitrary: s a lst m rule: length_induct)
  case (1 cs)
  note prems = 1(2-6)
  show ?case
  proof (rule token_cases [of cs ds])
    assume "set cs \<subseteq> set ds"
    with strtok_none [OF prems(1-3) this] prems(5) show ?thesis
      by (auto simp: tokens_delims intro!: exI [of _ "[]"])
  next
    fix xs t ys
    assume cs: "cs = xs @ t @ ys" and xs: "set xs \<subseteq> set ds" and t: "t \<noteq> []" "set t \<inter> set ds = {}"
      and ys: "ys \<noteq> [] \<longrightarrow> hd ys \<in> set ds"
    let ?p = "s + of_nat (length xs)"
    let ?e = "?p + of_nat (length t)"
    note call = strtok_token [OF prems(1) prems(2) [unfolded cs] prems(3) [unfolded cs] xs t ys prems(5)]
    note tok = tokens_split [OF xs t ys]
    have pt: "str_at m ?p (t @ ys)" "linear ?p (t @ ys)"
      using str_at_drop [of m s xs "t @ ys"] linear_drop [of s xs "t @ ys"] prems(2,3) by (simp_all add: cs)
    show ?thesis
    proof (cases ys)
      case Nil
      have "strtok_calls (Suc (length (tokens ds cs))) a d (lst, m) = Some ([?p] @ [0], 0, m)"
        using call tok Nil by (simp add: cs tokens_delims ucx_strtok_def)
      moreover have "str_at m ?p t" using pt(1) Nil by simp
      ultimately show ?thesis using tok Nil by (intro exI [of _ "[?p]"] exI [of _ m]) (simp add: cs tokens_delims)
    next
      case (Cons c us)
      let ?m = "m(?e := 0)"
      have cut: "str_at ?m ?p t" "str_at ?m (?e + 1) us"
        using str_at_cut [of m ?p t c us] pt Cons by simp_all
      have sub: "?e + 1 = s + of_nat (length (xs @ t @ [c]))" by (simp add: add.assoc)
      have lu: "linear (?e + 1) us"
        using linear_drop [of s "xs @ t @ [c]" us] prems(3) unfolding sub by (simp add: cs Cons)
      have au: "apart (?e + 1) us d ds"
        using apart_sub [of s "xs @ t @ [c]" us "[]" d ds] prems(4) unfolding sub by (simp add: cs Cons)
      have "str_at (m(s + of_nat (length (xs @ t)) := 0)) d ds"
        by (rule str_at_apart [OF prems(1,4)]) (simp add: cs)
      then have dd: "str_at ?m d ds" by (simp add: add.assoc)
      have len: "length us < length cs" by (simp add: cs Cons)
      from 1(1) [rule_format, where ys = us and x = "?e + 1" and xa = 0 and xb = "?e + 1" and xc = ?m, OF len dd cut(2) lu au]
      obtain ps m' where
        ih: "strtok_calls (Suc (length (tokens ds us))) 0 d (?e + 1, ?m) = Some (ps @ [0], 0, m')"
          "list_all2 (str_at m') ps (tokens ds us)" "\<forall>x. (\<forall>i \<le> length us. x \<noteq> ?e + 1 + of_nat i) \<longrightarrow> m' x = ?m x"
        by auto
      have tk: "tokens ds cs = t # tokens ds us" using tok by (simp add: cs Cons)
      have "strtok_calls (Suc (length (tokens ds cs))) a d (lst, m) = Some ((?p # ps) @ [0], 0, m')"
        using call ih(1) by (simp add: tk Cons del: strtok_calls.simps(2)) (subst strtok_calls.simps(2), simp add: Cons)
      moreover have "str_at m' ?p t"
      proof (rule str_at_frame [OF cut(1)])
        fix i assume "i \<le> length t"
        have "?p + of_nat i \<noteq> ?e + 1 + of_nat j" if "j \<le> length us" for j
        proof -
          have e: "?e + 1 + of_nat j = ?p + of_nat (length t + 1 + j)" by (simp add: add.assoc)
          have u: "unat (?p + of_nat i) = unat ?p + i" "unat (?p + of_nat (length t + 1 + j)) = unat ?p + (length t + 1 + j)"
            by (rule linear_unat [OF pt(2)], use \<open>i \<le> length t\<close> that in \<open>simp add: Cons\<close>)+
          show ?thesis
          proof
            assume "?p + of_nat i = ?e + 1 + of_nat j"
            then have "unat ?p + i = unat ?p + (length t + 1 + j)" unfolding e by (simp only: u [symmetric])
            with \<open>i \<le> length t\<close> show False by simp
          qed
        qed
        with ih(3) show "m' (?p + of_nat i) = ?m (?p + of_nat i)" by blast
      qed
      moreover have "m' x = m x" if "\<forall>i \<le> length cs. x \<noteq> s + of_nat i" for x
      proof -
        have "length (xs @ t) \<le> length cs" by (simp add: cs)
        with that have "x \<noteq> s + of_nat (length (xs @ t))" by blast
        then have "x \<noteq> ?e" by (simp add: add.assoc)
        moreover have "x \<noteq> ?e + 1 + of_nat i" if "i \<le> length us" for i
        proof -
          have e: "?e + 1 + of_nat i = s + of_nat (length xs + length t + 1 + i)" by (simp add: add.assoc)
          have "length xs + length t + 1 + i \<le> length cs" using that by (simp add: cs Cons)
          with \<open>\<forall>i \<le> length cs. x \<noteq> s + of_nat i\<close> show ?thesis unfolding e by blast
        qed
        ultimately show ?thesis using ih(3) by simp
      qed
      ultimately show ?thesis using ih(2) tk by (intro exI [of _ "?p # ps"] exI [of _ m']) simp
    qed
  qed
qed


section \<open>Reading an address\<close>

text \<open>The state between two calls: what is left at the static pointer has the tokens \<open>ts\<close>.\<close>

definition rest_at :: "memory \<Rightarrow> u32 \<Rightarrow> byte list \<Rightarrow> u32 \<Rightarrow> byte list list \<Rightarrow> bool" where
  "rest_at m d ds lst ts \<longleftrightarrow> str_at m d ds \<and>
     (lst = 0 \<and> ts = [] \<or> (\<exists>us. str_at m lst us \<and> linear lst us \<and> apart lst us d ds \<and> tokens ds us = ts))"

lemma strtok_step:
  assumes "str_at m d ds" "str_at m s us" "linear s us" "apart s us d ds" "a = s \<or> a = 0 \<and> lst = s"
  shows "\<exists>p lst' m'. ucx_strtok a d (lst, m) = Some (p, lst', m') \<and>
    (case tokens ds us of [] \<Rightarrow> p = 0 | t # ts \<Rightarrow> p \<noteq> 0 \<and> str_at m' p t \<and> rest_at m' d ds lst' ts)"
proof (rule token_cases [of us ds])
  assume "set us \<subseteq> set ds"
  with strtok_none [OF assms(1-3) this] assms(5) show ?thesis by (auto simp: tokens_delims)
next
  fix xs t ys
  assume us: "us = xs @ t @ ys" and xs: "set xs \<subseteq> set ds" and t: "t \<noteq> []" "set t \<inter> set ds = {}"
    and ys: "ys \<noteq> [] \<longrightarrow> hd ys \<in> set ds"
  let ?p = "s + of_nat (length xs)"
  let ?e = "?p + of_nat (length t)"
  note call = strtok_token [OF assms(1) assms(2) [unfolded us] assms(3) [unfolded us] xs t ys assms(5)]
  note tok = tokens_split [OF xs t ys]
  have pt: "str_at m ?p (t @ ys)" "linear ?p (t @ ys)"
    using str_at_drop [of m s xs "t @ ys"] linear_drop [of s xs "t @ ys"] assms(2,3) by (simp_all add: us)
  have p0: "?p \<noteq> 0" using linear_nonzero [OF pt(2), of 0] by simp
  show ?thesis
  proof (cases ys)
    case Nil
    then show ?thesis using call tok pt(1) p0 assms(1) by (simp add: us tokens_delims rest_at_def)
  next
    case (Cons c vs)
    let ?m = "m(?e := 0)"
    have cut: "str_at ?m ?p t" "str_at ?m (?e + 1) vs" using str_at_cut [of m ?p t c vs] pt Cons by simp_all
    have sub: "?e + 1 = s + of_nat (length (xs @ t @ [c]))" by (simp add: add.assoc)
    have lu: "linear (?e + 1) vs"
      using linear_drop [of s "xs @ t @ [c]" vs] assms(3) unfolding sub by (simp add: us Cons)
    have au: "apart (?e + 1) vs d ds"
      using apart_sub [of s "xs @ t @ [c]" vs "[]" d ds] assms(4) unfolding sub by (simp add: us Cons)
    have "str_at (m(s + of_nat (length (xs @ t)) := 0)) d ds"
      by (rule str_at_apart [OF assms(1,4)]) (simp add: us)
    then have dd: "str_at ?m d ds" by (simp add: add.assoc)
    show ?thesis using call tok p0 cut lu au dd by (auto simp: us Cons rest_at_def)
  qed
qed

lemma read_str_at: "str_at m a cs \<Longrightarrow> read_str m a = Some cs"
  by (induction cs arbitrary: a) (subst read_str.simps, simp)+

definition octet :: "byte list \<Rightarrow> byte" where
  "octet t = word_of_int (ucx_atoi t)"

lemma config_loop_tokens:
  assumes "case ts of [] \<Rightarrow> p = 0 | t # us \<Rightarrow> p \<noteq> 0 \<and> str_at m p t \<and> rest_at m d ds lst us"
    and "i + n \<le> length addr"
  shows "\<exists>st'. config_loop n i p d addr (lst, m) =
    Some (i + min n (length ts), take i addr @ map octet (take n ts) @ drop (i + min n (length ts)) addr, st')"
  using assms
proof (induction n arbitrary: i p addr lst m ts)
  case 0
  then show ?case by simp
next
  case (Suc n)
  show ?case
  proof (cases ts)
    case Nil
    with Suc.prems(1) show ?thesis by simp
  next
    case (Cons t us)
    with Suc.prems(1) have p: "p \<noteq> 0" "str_at m p t" "rest_at m d ds lst us" by simp_all
    obtain q lst' m' where q: "ucx_strtok 0 d (lst, m) = Some (q, lst', m')"
      "case us of [] \<Rightarrow> q = 0 | u # vs \<Rightarrow> q \<noteq> 0 \<and> str_at m' q u \<and> rest_at m' d ds lst' vs"
    proof (cases "lst = 0 \<and> us = []")
      case True
      then show thesis using that [of 0 0 m] by (simp add: ucx_strtok_def)
    next
      case False
      with p(3) obtain ws where ws: "str_at m d ds" "str_at m lst ws" "linear lst ws" "apart lst ws d ds" "tokens ds ws = us"
        by (auto simp: rest_at_def)
      from strtok_step [OF ws(1-4), of 0 lst] ws(5) that show thesis by auto
    qed
    have "Suc i + n \<le> length (addr[i := octet t])" using Suc.prems(2) by simp
    from Suc.IH [OF q(2) this] obtain st' where
      ih: "config_loop n (Suc i) q d (addr[i := octet t]) (lst', m') = Some (Suc i + min n (length us),
        take (Suc i) (addr[i := octet t]) @ map octet (take n us) @ drop (Suc i + min n (length us)) (addr[i := octet t]), st')"
      by blast
    have "take (Suc i) (addr[i := octet t]) = take i addr @ [octet t]"
      using Suc.prems(2) by (simp add: take_Suc_conv_app_nth)
    with ih show ?thesis
      using p(1) q(1) read_str_at [OF p(2)] by (simp add: Cons octet_def)
  qed
qed

text \<open>\<open>strncpy\<close> of a string shorter than the count.\<close>

lemma strncpy_loop_at:
  assumes "str_at m s cs" and "length cs < n" and "n < 2 ^ 32" and "\<forall>i \<le> length cs. \<not> offset d (s + of_nat i) < n"
  shows "str_at (strncpy_loop n d s m) d cs \<and> (\<forall>x. \<not> offset d x < n \<longrightarrow> strncpy_loop n d s m x = m x)"
  using assms
proof (induction cs arbitrary: n d s m)
  case Nil
  then obtain k where n: "n = Suc k" by (cases n) auto
  have "strncpy_loop n d s m = fill_up k (d + 1) 0 (m(d := 0))" using Nil(1) by (simp add: n Let_def)
  moreover have "offset d x < n \<longleftrightarrow> x = d \<or> offset (d + 1) x < k" for x
    using offset_less_Suc [of k x d] Nil(3) by (simp add: n)
  ultimately show ?case using Nil(3) by (simp add: n fill_up_spec)
next
  case (Cons c cs)
  then obtain k where n: "n = Suc k" by (cases n) auto
  have o: "offset d x < n \<longleftrightarrow> x = d \<or> offset (d + 1) x < k" for x
    using offset_less_Suc [of k x d] Cons.prems(3) by (simp add: n)
  define m1 where "m1 = m(d := c)"
  have sep: "\<not> offset d (s + 1 + of_nat i) < n" if "i \<le> length cs" for i
  proof -
    have "s + 1 + of_nat i = s + of_nat (Suc i)" by (simp add: add.assoc)
    with Cons.prems(4) that show ?thesis by (metis Suc_le_mono length_Cons)
  qed
  have "str_at m1 (s + 1) cs"
  proof (rule str_at_frame)
    show "str_at m (s + 1) cs" using Cons.prems(1) by simp
    fix i assume "i \<le> length cs"
    then show "m1 (s + 1 + of_nat i) = m (s + 1 + of_nat i)" using sep [of i] o [of "s + 1 + of_nat i"] by (auto simp: m1_def)
  qed
  moreover have "\<forall>i \<le> length cs. \<not> offset (d + 1) (s + 1 + of_nat i) < k" using sep o by blast
  ultimately have ih: "str_at (strncpy_loop k (d + 1) (s + 1) m1) (d + 1) cs \<and>
      (\<forall>x. \<not> offset (d + 1) x < k \<longrightarrow> strncpy_loop k (d + 1) (s + 1) m1 x = m1 x)"
    using Cons.prems(2,3) by (intro Cons.IH) (simp_all add: n)
  have e: "strncpy_loop n d s m = strncpy_loop k (d + 1) (s + 1) m1" using Cons.prems(1) by (simp add: n Let_def m1_def)
  have "\<not> offset (d + 1) d < k" using offset_last [of d] Cons.prems(3) by (simp add: n)
  then have "strncpy_loop k (d + 1) (s + 1) m1 d = c" using ih by (simp add: m1_def)
  with ih e o Cons.prems(1) show ?case by (auto simp: m1_def)
qed

section \<open>Properties\<close>

text \<open>
  C30. The calls of \<open>strtok\<close>, the first with a string and the others with null, return pointers to
  the tokens of the string, in order, and then null. All of them still hold when the calls are
  over, and no byte outside the string has changed.
\<close>

theorem strtok_yields_tokens:
  assumes "str_at m d ds" and "str_at m s cs" and "linear s cs" and "apart s cs d ds"
  shows "\<exists>ps m'. strtok_calls (Suc (length (tokens ds cs))) s d (lst, m) = Some (ps @ [0], 0, m') \<and>
    list_all2 (str_at m') ps (tokens ds cs) \<and> (\<forall>x. (\<forall>i \<le> length cs. x \<noteq> s + of_nat i) \<longrightarrow> m' x = m x)"
  using strtok_calls_tokens [OF assms] by simp

text \<open>
  \<open>ip_config\<close> on any string that fits its buffer: it stores the numbers of the first four
  parts between dots, each in the width of a byte, and fails when there are fewer. Further
  parts are ignored.
\<close>

theorem ip_config_parts:
  assumes str: "str_at m str cs" "length cs < 127" "\<forall>i \<le> length cs. \<not> offset buf (str + of_nat i) < 127"
    and buf: "0 < unat buf" "unat buf + 127 < 2 ^ 32"
    and delim: "\<not> offset buf delim < 127" "\<not> offset buf (delim + 1) < 127" and addr: "length addr = 4"
  shows "\<exists>st'. ip_config buf delim addr str (lst, m) =
    (let ts = tokens [46] cs in
     Some (if length ts < 4 then -1 else 0, map octet (take 4 ts) @ drop (length ts) addr, st'))"
proof -
  define m1 where "m1 = ucx_strncpy buf str 127 m"
  define m2 where "m2 = m1(delim := 46, delim + 1 := 0)"
  have c: "str_at m1 buf cs" using strncpy_loop_at [OF str(1,2) _ str(3)] by (simp add: m1_def ucx_strncpy_def)
  have l: "linear buf cs" using buf str(2) by (simp add: linear_def)
  have o: "offset buf (buf + of_nat i) < 127" if "i \<le> length cs" for i
  proof -
    have "unat (of_nat i :: u32) = i" using that str(2) by (simp add: unat_of_nat)
    then show ?thesis using that str(2) by simp
  qed
  have sep: "buf + of_nat i \<noteq> delim \<and> buf + of_nat i \<noteq> delim + 1" if "i \<le> length cs" for i
    using o [OF that] delim by metis
  have s: "str_at m2 buf cs" by (rule str_at_frame [OF c]) (use sep in \<open>auto simp: m2_def\<close>)
  have d: "str_at m2 delim [46]" by (simp add: m2_def)
  have ap: "apart buf cs delim [46]"
    unfolding apart_def
  proof (intro allI impI)
    fix i j assume "i \<le> length cs" "j \<le> length [46 :: byte]"
    then show "buf + of_nat i \<noteq> delim + of_nat j" using sep [of i] by (cases j) auto
  qed
  from strtok_step [OF d s l ap, of buf lst] obtain p lst' m' where
    p: "ucx_strtok buf delim (lst, m2) = Some (p, lst', m')"
      "case tokens [46] cs of [] \<Rightarrow> p = 0 | t # ts \<Rightarrow> p \<noteq> 0 \<and> str_at m' p t \<and> rest_at m' delim [46] lst' ts"
    by auto
  from config_loop_tokens [OF p(2), of 0 4 addr] addr obtain st' where
    "config_loop 4 0 p delim addr (lst', m') = Some (min 4 (length (tokens [46] cs)),
      map octet (take 4 (tokens [46] cs)) @ drop (min 4 (length (tokens [46] cs))) addr, st')"
    by auto
  then show ?thesis
    using p(1) addr by (cases "length (tokens [46] cs) < 4") (auto simp: ip_config_def Let_def m1_def [symmetric] m2_def [symmetric])
qed


text \<open>The dotted form of an address, and a memory with one.\<close>

definition decs :: "byte \<Rightarrow> byte list" where
  "decs b = rev (dec (unat b))"

fun dotted :: "byte list \<Rightarrow> byte list" where
  "dotted [] = []"
| "dotted [b] = decs b"
| "dotted (b # bs) = decs b @ 46 # dotted bs"

lemma octet_decs: "octet (decs b) = b"
proof -
  obtain c cs where c: "rev (dec (unat b)) = c # cs" using dec_digits(2) [of "unat b"] by (cases "rev (dec (unat b))") auto
  then have "is_digit c" using dec_digits(1) [of "unat b"] by (metis list.set_intros(1) set_rev)
  then have "ucx_atoi (decs b) = sint (of_nat (unat b) :: u32)"
    using atoi_digits_dec [of "unat b"] unfolding decs_def ucx_atoi_def c atoi_start_digits [OF \<open>is_digit c\<close>] by simp
  also have "\<dots> = int (unat b)"
  proof -
    have g: "sint (of_nat n :: u32) = int n" if "int n < 2 ^ 31" for n
      using that signed_take_bit_int_eq_self [of 31 "int n"] by (simp add: signed_of_nat)
    show ?thesis by (rule g) (use unsigned_less [of b, where ?'a = int] in simp)
  qed
  finally show ?thesis by (simp add: octet_def)
qed

lemma decs_token: "decs b \<noteq> []" "set (decs b) \<inter> set [46] = {}"
  using dec_digits [of "unat b"] by (auto simp: decs_def is_digit_def)

lemma tokens_dotted: "tokens [46] (dotted bs) = map decs bs"
proof (induction bs rule: dotted.induct)
  case 1
  then show ?case by (simp add: tokens_delims)
next
  case (2 b)
  then show ?case using tokens_split [of "[]" "[46]" "decs b" "[]"] decs_token [of b] by (simp add: tokens_delims)
next
  case (3 b c bs)
  then show ?case using tokens_split [of "[]" "[46]" "decs b" "46 # dotted (c # bs)"] decs_token [of b] by simp
qed

text \<open>An address printed in the dotted form is read back.\<close>

theorem ip_config_dotted:
  assumes "length ip = 4" and "str_at m str (dotted ip)" and "length (dotted ip) < 127"
    and "\<forall>i \<le> length (dotted ip). \<not> offset buf (str + of_nat i) < 127"
    and "0 < unat buf" "unat buf + 127 < 2 ^ 32" and "\<not> offset buf delim < 127" "\<not> offset buf (delim + 1) < 127"
    and "length addr = 4"
  shows "\<exists>st'. ip_config buf delim addr str (lst, m) = Some (0, ip, st')"
  using ip_config_parts [OF assms(2-)] assms(1,9)
  by (simp add: tokens_dotted Let_def map_idI octet_decs comp_def)

text \<open>
  What \<open>ip_config\<close> does not refuse: a part above 255 is stored in the width of a byte, and a
  fifth part is ignored.
\<close>

definition odd_address :: memory where
  "odd_address = (\<lambda>x. let s = [51, 48, 48, 46, 49, 46, 50, 46, 51, 46, 57] in
     if offset 300 x < length s then s ! offset 300 x else 0)"

lemma odd_address_at: "str_at odd_address 300 [51, 48, 48, 46, 49, 46, 50, 46, 51, 46, 57]"
  by (simp add: odd_address_def Let_def)

lemma odd_address_tokens: "tokens [46] [51, 48, 48, 46, 49, 46, 50, 46, 51, 46, 57] = [[51, 48, 48], [49], [50], [51], [57]]"
  by (simp add: tokens.simps Let_def)

theorem ip_config_accepts_300: "\<exists>st'. ip_config 100 400 [0, 0, 0, 0] 300 (0, odd_address) = Some (0, [44, 1, 2, 3], st')"
proof -
  have o: "(300 :: byte) = 44" by simp
  have "\<not> offset 100 (300 + of_nat i) < 127" if "i \<le> 11" for i
  proof -
    have "300 + of_nat i - 100 = (of_nat (200 + i) :: u32)" by simp
    moreover have "unat (of_nat (200 + i) :: u32) = 200 + i" using that by (simp only: unat_of_nat) simp
    ultimately show ?thesis by simp
  qed
  then have sep: "\<forall>i \<le> length [51, 48, 48, 46, 49, 46, 50, 46, 51, 46, 57 :: byte]. \<not> offset 100 (300 + of_nat i) < 127"
    by simp
  from ip_config_parts [OF odd_address_at _ sep, of 400 "[0, 0, 0, 0]" 0] show ?thesis
    unfolding o [symmetric] by (simp add: odd_address_tokens Let_def octet_def ucx_atoi_def is_digit_def)
qed

text \<open>The five parts of that string.\<close>

theorem strtok_yields_tokens_witness:
  "\<exists>ps m'. strtok_calls 6 300 400 (0, odd_address(400 := 46)) = Some (ps @ [0], 0, m') \<and>
    list_all2 (str_at m') ps [[51, 48, 48], [49], [50], [51], [57]]"
proof -
  let ?cs = "[51, 48, 48, 46, 49, 46, 50, 46, 51, 46, 57] :: byte list"
  let ?m = "odd_address(400 := 46)"
  have small: "unat (of_nat n :: u32) = n" if "n < 1000" for n :: nat
    using that by (simp add: unat_of_nat)
  have far: "300 + of_nat i \<noteq> (400 :: u32) \<and> 300 + of_nat i \<noteq> (401 :: u32)" if "i \<le> 11" for i
  proof -
    have e: "300 + of_nat i = (of_nat (300 + i) :: u32)" by simp
    have "unat (300 + of_nat i :: u32) = 300 + i" unfolding e by (rule small) (use that in simp)
    then show ?thesis using that by auto
  qed
  have d: "str_at ?m 400 [46]" by (simp add: odd_address_def Let_def)
  have s: "str_at ?m 300 ?cs" by (rule str_at_frame [OF odd_address_at]) (use far in simp)
  have l: "linear 300 ?cs" by (simp add: linear_def)
  have a: "apart 300 ?cs 400 [46]"
    unfolding apart_def
  proof (intro allI impI)
    fix i j assume "i \<le> length ?cs" "j \<le> length [46 :: byte]"
    then show "(300 :: u32) + of_nat i \<noteq> 400 + of_nat j" using far [of i] by (cases j) auto
  qed
  have six: "Suc (length [[51, 48, 48], [49], [50], [51], [57 :: byte]]) = 6" by simp
  from strtok_yields_tokens [OF d s l a, of 0] show ?thesis unfolding odd_address_tokens six by blast
qed

end
