(* ===== verification/Net_Utils.thy ===== *)
theory Net_Utils
  imports C_Library
begin

text \<open>
  The fields of the packets of \<open>net/inet\<close>, and \<open>net/inet/utils.c\<close>: the checksum and the
  addresses. A packet lies in the memory of \<open>C_Library\<close>, and the packed structs of
  \<open>net/include/inet.h\<close> are the offsets of their fields; \<open>be\<close> tells whether the target is big
  endian. Arrays of 4 or 6 bytes that hold an address are lists. A loop that does not end is
  \<open>None\<close>.

  The theory shows that the checksum is that of RFC 1071, for every length but 0, where the
  loop never ends.
\<close>

type_synonym u16 = "16 word"

section \<open>Fields\<close>

fun store_bytes :: "u32 \<Rightarrow> byte list \<Rightarrow> memory \<Rightarrow> memory" where
  "store_bytes a [] m = m"
| "store_bytes a (b # bs) m = store_bytes (a + 1) bs (m(a := b))"

definition load_bytes :: "nat \<Rightarrow> u32 \<Rightarrow> memory \<Rightarrow> byte list" where
  "load_bytes n a m = map (\<lambda>i. m (a + of_nat i)) [0..<n]"

definition load16 :: "bool \<Rightarrow> u32 \<Rightarrow> memory \<Rightarrow> u16" where
  "load16 be a m = (if be then word_cat (m a) (m (a + 1)) else word_cat (m (a + 1)) (m a))"

definition store16 :: "bool \<Rightarrow> u32 \<Rightarrow> u16 \<Rightarrow> memory \<Rightarrow> memory" where
  "store16 be a v m =
     (let hi = ucast (drop_bit 8 v); lo = ucast v
      in if be then m(a := hi, a + 1 := lo) else m(a := lo, a + 1 := hi))"

definition htons :: "bool \<Rightarrow> u16 \<Rightarrow> u16" where
  "htons be n = (if be then n else push_bit 8 (n AND 0xFF) OR drop_bit 8 (n AND 0xFF00))"

abbreviation ntohs :: "bool \<Rightarrow> u16 \<Rightarrow> u16" where
  "ntohs \<equiv> htons"

text \<open>The two together read and write a field in network order, whatever the target.\<close>

definition net16 :: "u32 \<Rightarrow> memory \<Rightarrow> u16" where
  "net16 a m = word_cat (m a) (m (a + 1))"

lemma masks16: "(0xFF :: u16) = mask 8" "(0xFF00 :: u16) = push_bit 8 (mask 8)"
  by (simp_all add: mask_eq_exp_minus_1 push_bit_eq_mult)

lemma ntohs_load16 [simp]: "ntohs be (load16 be a m) = net16 a m"
proof (cases be)
  case False
  have "push_bit 8 (word_cat y x AND 0xFF) OR drop_bit 8 (word_cat y x AND 0xFF00) = (word_cat x y :: u16)"
    for x y :: byte
    unfolding masks16 by (rule bit_word_eqI) (auto simp: bit_simps bit_word_cat_iff)
  with False show ?thesis by (simp add: htons_def load16_def net16_def)
qed (simp add: htons_def load16_def net16_def)

lemma store16_htons [simp]:
  "store16 be a (htons be v) m = m(a := ucast (drop_bit 8 v), a + 1 := ucast v)"
proof (cases be)
  case False
  have "ucast (push_bit 8 (v AND 0xFF) OR drop_bit 8 (v AND 0xFF00)) = (ucast (drop_bit 8 v) :: byte)"
    "ucast (drop_bit 8 (push_bit 8 (v AND 0xFF) OR drop_bit 8 (v AND 0xFF00))) = (ucast v :: byte)"
    unfolding masks16 by (rule bit_word_eqI; auto simp: bit_simps)+
  with False show ?thesis by (simp add: htons_def store16_def)
qed (simp add: htons_def store16_def Let_def)

lemma net16_stored [simp]:
  "net16 a (m(a := ucast (drop_bit 8 v), a + 1 := ucast v)) = v"
proof -
  have "word_cat (ucast (drop_bit 8 v) :: byte) (ucast v :: byte) = v"
    by (rule bit_word_eqI) (auto simp: bit_simps bit_word_cat_iff)
  then show ?thesis by (simp add: net16_def)
qed

lemma net16_restored: "net16 a m = v \<Longrightarrow> m(a := ucast (drop_bit 8 v), a + 1 := ucast v) = m"
proof -
  assume v: "net16 a m = v"
  have "ucast (drop_bit 8 v) = m a" "ucast v = m (a + 1)" unfolding v [symmetric] net16_def
    by (rule bit_word_eqI; auto simp: bit_simps bit_word_cat_iff dest: bit_imp_le_length)+
  then show ?thesis by auto
qed

lemma store_bytes_other:
  "length bs \<le> unat (x - a) \<Longrightarrow> store_bytes a bs m x = m x"
proof (induction bs arbitrary: a m)
  case (Cons b bs)
  then have "x \<noteq> a" by auto
  then have "offset a x = Suc (offset (a + 1) x)" by (rule offset_Suc)
  with Cons show ?case by auto
qed simp

lemma load_bytes_4 [simp]: "load_bytes 4 a m = [m a, m (a + 1), m (a + 2), m (a + 3)]"
  by (simp add: load_bytes_def upt_rec)

lemma load_bytes_6 [simp]: "load_bytes 6 a m = [m a, m (a + 1), m (a + 2), m (a + 3), m (a + 4), m (a + 5)]"
  by (simp add: load_bytes_def upt_rec)

section \<open>The checksum\<close>

text \<open>
  The loops of \<open>checksum\<close> and \<open>udpchksum\<close>, which differ in the width of their index: while the
  index is below \<open>bound\<close> they add a word and move on by two.
\<close>

partial_function (option) sum_words ::
  "bool \<Rightarrow> memory \<Rightarrow> int \<Rightarrow> 'a::len word \<Rightarrow> u32 \<Rightarrow> u32 \<Rightarrow> (u32 \<times> u32) option" where
  "sum_words be m bound i ptr s =
     (if uint i < bound
      then sum_words be m bound (i + 2) (ptr + 2) (s + ucast (ntohs be (load16 be ptr m)))
      else Some (ptr, s))"

definition fold_sum :: "u32 \<Rightarrow> u16" where
  "fold_sum s = (let s = drop_bit 16 s + (s AND 0xFFFF); s = s + drop_bit 16 s in NOT (ucast s))"

definition add_odd_byte :: "bool \<Rightarrow> memory \<Rightarrow> bool \<Rightarrow> u32 \<times> u32 \<Rightarrow> u32" where
  "add_odd_byte be m is_odd = (\<lambda>(ptr, s).
     if is_odd then s + (ucast (ntohs be (load16 be ptr m)) AND 0xFF00) else s)"

definition checksum :: "bool \<Rightarrow> memory \<Rightarrow> u32 \<Rightarrow> int \<Rightarrow> u16 option" where
  "checksum be m buf len =
     map_option (\<lambda>r. fold_sum (add_odd_byte be m (odd len) r))
       (sum_words be m (uint (word_of_int (len - 1) :: u32)) (0 :: u32) buf 0)"

section \<open>Addresses\<close>

text \<open>The addresses at the head of the frame \<open>f\<close> are compared with constants and with \<open>mymac\<close>.\<close>

definition is_broadcast_mac :: "memory \<Rightarrow> u32 \<Rightarrow> bool" where
  "is_broadcast_mac m f \<longleftrightarrow> load_bytes 6 f m = [0xFF, 0xFF, 0xFF, 0xFF, 0xFF, 0xFF]"

definition is_any_mac :: "memory \<Rightarrow> u32 \<Rightarrow> bool" where
  "is_any_mac m f \<longleftrightarrow> load_bytes 6 f m = [0, 0, 0, 0, 0, 0]"

definition is_local_mac :: "byte list \<Rightarrow> memory \<Rightarrow> u32 \<Rightarrow> bool" where
  "is_local_mac mymac m f \<longleftrightarrow> load_bytes 6 f m = mymac"

definition ip_addr_maskcmp :: "byte list \<Rightarrow> byte list \<Rightarrow> byte list \<Rightarrow> bool" where
  "ip_addr_maskcmp addr1 addr2 msk \<longleftrightarrow> map2 (AND) addr1 msk = map2 (AND) addr2 msk"

definition ip_addr_cmp :: "byte list \<Rightarrow> byte list \<Rightarrow> bool" where
  "ip_addr_cmp addr1 addr2 \<longleftrightarrow> addr1 = addr2"

definition ip_addr_isany :: "byte list \<Rightarrow> bool" where
  "ip_addr_isany addr \<longleftrightarrow> addr = [0, 0, 0, 0]"

definition ip_addr_isbroadcast :: "byte list \<Rightarrow> byte list \<Rightarrow> bool" where
  "ip_addr_isbroadcast addr netmask \<longleftrightarrow>
     (let ad = map2 (\<lambda>a k. a AND NOT k) addr netmask; msk = map (\<lambda>k. NOT k AND 0xFF) netmask
      in ad = msk \<or> ad = [0, 0, 0, 0] \<or> ad = [0xFF, 0xFF, 0xFF, 0xFF])"

definition ip_addr_ismulticast :: "byte list \<Rightarrow> bool" where
  "ip_addr_ismulticast addr \<longleftrightarrow> map2 (AND) addr [0xF0, 0, 0, 0] = [0xE0, 0, 0, 0]"

section \<open>What the loops add\<close>

text \<open>The words of an area, as numbers.\<close>

definition word_at :: "memory \<Rightarrow> u32 \<Rightarrow> nat \<Rightarrow> nat" where
  "word_at m a k = unat (net16 (a + of_nat (2 * k)) m)"

definition words_sum :: "memory \<Rightarrow> u32 \<Rightarrow> nat \<Rightarrow> nat" where
  "words_sum m a n = (\<Sum>k<n. word_at m a k)"

lemma words_sum_Suc: "words_sum m a (Suc n) = unat (net16 a m) + words_sum m (a + 2) n"
proof -
  have "word_at m (a + 2) k = word_at m a (Suc k)" for k by (simp add: word_at_def algebra_simps)
  then have "words_sum m (a + 2) n = (\<Sum>k<n. word_at m a (Suc k))" by (simp add: words_sum_def)
  moreover have "unat (net16 a m) = word_at m a 0" by (simp add: word_at_def)
  ultimately show ?thesis unfolding words_sum_def by (simp add: sum.lessThan_Suc_shift del: sum.lessThan_Suc)
qed

lemma words_sum_le: "words_sum m a n \<le> n * 65535"
proof -
  have "word_at m a k \<le> 65535" for k
    using unsigned_less [of "net16 (a + of_nat (2 * k)) m", where ?'a = nat] by (simp add: word_at_def)
  then have "words_sum m a n \<le> (\<Sum>k<n. 65535)" unfolding words_sum_def by (intro sum_mono) blast
  then show ?thesis by simp
qed

lemma uint_add_word_2: "uint (i + 2 :: 'a::len word) = (uint i + 2) mod 2 ^ LENGTH('a)"
proof -
  have "i + 2 = word_of_int (uint i + 2)" by simp
  then show ?thesis by (simp only: uint_word_of_int take_bit_eq_mod)
qed

lemma sum_words_adds:
  fixes i :: "'a::len word"
  assumes "bound \<le> uint i + 2 * int n" and "uint i + 2 * int n < 2 ^ LENGTH('a)"
    and "n = 0 \<or> uint i + 2 * int n - 2 < bound"
  shows "sum_words be m bound i ptr s = Some (ptr + of_nat (2 * n), s + of_nat (words_sum m ptr n))"
  using assms
proof (induction n arbitrary: i ptr s)
  case 0
  then show ?case by (subst sum_words.simps) (simp add: words_sum_def)
next
  case (Suc n)
  have two: "uint (i + 2) = uint i + 2"
    using Suc.prems(2) by (simp add: uint_add_word_2)
  have "sum_words be m bound (i + 2) (ptr + 2) (s + ucast (net16 ptr m)) =
      Some (ptr + 2 + of_nat (2 * n), s + ucast (net16 ptr m) + of_nat (words_sum m (ptr + 2) n))"
    using Suc.prems by (intro Suc.IH) (auto simp: two)
  moreover have "uint i < bound" using Suc.prems(3) by auto
  moreover have "of_nat (unat (net16 ptr m)) = (ucast (net16 ptr m) :: u32)" by simp
  ultimately show ?case
    by (subst sum_words.simps) (simp add: words_sum_Suc algebra_simps)
qed


text \<open>An index that wraps below the bound makes the loop run for ever.\<close>

lemma sum_words_diverges:
  fixes i :: "'a::len word"
  assumes "2 ^ LENGTH('a) \<le> bound + 1" and "even (uint i)" and "even (2 ^ LENGTH('a) :: int)"
  shows "sum_words be m bound i ptr s = None"
proof (rule ccontr)
  assume "sum_words be m bound i ptr s \<noteq> None"
  then obtain r where r: "sum_words be m bound i ptr s = Some r" by blast
  have "\<not> (even (uint i) \<and> 2 ^ LENGTH('a) \<le> bound + 1)"
  proof (rule sum_words.raw_induct [OF _ r,
      where P = "\<lambda>be m bound (i :: 'a word) ptr s r. \<not> (even (uint i) \<and> 2 ^ LENGTH('a) \<le> bound + 1)"])
    fix f :: "bool \<Rightarrow> memory \<Rightarrow> int \<Rightarrow> 'a word \<Rightarrow> u32 \<Rightarrow> u32 \<Rightarrow> (u32 \<times> u32) option"
    fix be m bound ptr s r and i :: "'a word"
    assume IH: "\<And>be m bound i ptr s r. f be m bound i ptr s = Some r \<Longrightarrow>
        \<not> (even (uint i) \<and> 2 ^ LENGTH('a) \<le> bound + 1)"
      and f: "(if uint i < bound then f be m bound (i + 2) (ptr + 2) (s + ucast (ntohs be (load16 be ptr m)))
               else Some (ptr, s)) = Some r"
    show "\<not> (even (uint i) \<and> 2 ^ LENGTH('a) \<le> bound + 1)"
    proof
      assume p: "even (uint i) \<and> 2 ^ LENGTH('a) \<le> bound + 1"
      have "uint (i + 2) = (uint i + 2) mod 2 ^ LENGTH('a)" by (metis uint_add_word_2)
      then have "even (uint (i + 2))" using p assms(3) by (simp add: dvd_mod_iff)
      moreover have "uint i < bound"
      proof -
        define N :: int where "N = 2 ^ LENGTH('a)"
        have "uint i < N" "even N" using assms(3) by (simp_all add: N_def)
        with p show ?thesis unfolding N_def [symmetric] by presburger
      qed
      ultimately have "f be m bound (i + 2) (ptr + 2) (s + ucast (ntohs be (load16 be ptr m))) = Some r"
        using f by (simp only: if_True)
      from IH [OF this] p \<open>even (uint (i + 2))\<close> show False by blast
    qed
  qed
  with assms show False by blast
qed

section \<open>The sum in ones' complement\<close>

text \<open>The addition of RFC 1071: a carry out of the 16 bits is added at the low end.\<close>

definition oc_add :: "nat \<Rightarrow> nat \<Rightarrow> nat" where
  "oc_add a b = (if a + b < 65536 then a + b else a + b - 65535)"

definition oc_norm :: "nat \<Rightarrow> nat" where
  "oc_norm n = (if n = 0 then 0 else (n - 1) mod 65535 + 1)"

lemma oc_norm_le: "oc_norm n \<le> 65535"
proof -
  have "(n - 1) mod 65535 < 65535" by simp
  then have "(n - 1) mod 65535 + 1 \<le> 65535" by linarith
  then show ?thesis by (simp add: oc_norm_def)
qed

lemma oc_norm_small: "n \<le> 65535 \<Longrightarrow> oc_norm n = n"
  by (simp add: oc_norm_def)

lemma oc_norm_big: "65535 < n \<Longrightarrow> oc_norm n = oc_norm (n - 65535)"
proof -
  assume "65535 < n"
  then obtain k where "n = k + 65535" "0 < k" by (metis add.commute less_imp_add_positive)
  then show ?thesis by (cases k) (simp_all add: oc_norm_def)
qed

lemma oc_norm_mult: "0 < n \<Longrightarrow> oc_norm (65535 * k + n) = oc_norm n"
proof (induction k)
  case (Suc k)
  have "oc_norm (65535 * Suc k + n) = oc_norm (65535 * k + n)"
    using Suc.prems oc_norm_big [of "65535 * Suc k + n"] by simp
  with Suc show ?case by simp
qed simp

lemma oc_add_norm: "w \<le> 65535 \<Longrightarrow> oc_add (oc_norm n) w = oc_norm (n + w)"
proof (induction n rule: less_induct)
  case (less n)
  show ?case
  proof (cases "n \<le> 65535")
    case True
    with less.prems show ?thesis
      using oc_norm_big [of "n + w"] by (auto simp: oc_add_def oc_norm_small)
  next
    case False
    then have "oc_add (oc_norm n) w = oc_norm (n - 65535 + w)"
      using less by (simp add: oc_norm_big)
    also have "\<dots> = oc_norm (n + w)" using False oc_norm_big [of "n + w"] by (simp add: algebra_simps)
    finally show ?thesis .
  qed
qed

lemma foldl_oc_add: "\<forall>w \<in> set ws. w \<le> 65535 \<Longrightarrow> foldl oc_add (oc_norm n) ws = oc_norm (n + sum_list ws)"
  by (induction ws arbitrary: n) (simp_all add: oc_add_norm add.assoc)

lemma unat_NOT16: "unat (NOT (x :: u16)) = 65535 - unat x"
proof -
  have "NOT x = - 1 - x" by (simp add: not_eq_complement)
  moreover have "x \<le> - 1" by simp
  ultimately show ?thesis using unat_sub [of x "-1"] by (simp add: unsigned_minus_1_eq_mask mask_eq_exp_minus_1)
qed

lemma unat_fold_sum: "unat (fold_sum s) = 65535 - oc_norm (unat s)"
proof -
  define n where "n = unat s"
  have n: "n < 2 ^ 32" using unsigned_less [of s, where ?'a = nat] by (simp add: n_def)
  have and16: "x AND 0xFFFF = take_bit 16 x" for x :: u32
    by (simp add: take_bit_eq_mask mask_eq_exp_minus_1)
  define t where "t = drop_bit 16 s + (s AND 0xFFFF)"
  have t: "unat t = n div 65536 + n mod 65536"
    using n by (simp add: t_def and16 unat_word_ariths unat_drop_bit_eq unsigned_take_bit_eq n_def drop_bit_eq_div take_bit_eq_mod)
  have u: "unat (t + drop_bit 16 t) = unat t + unat t div 65536"
    using n t by (simp add: unat_word_ariths unat_drop_bit_eq drop_bit_eq_div)
  have "unat (ucast (t + drop_bit 16 t) :: u16) = (unat t + unat t div 65536) mod 65536"
    unfolding u [symmetric] by (simp add: unsigned_ucast_eq take_bit_eq_mod)
  also have "\<dots> = oc_norm (unat t)"
  proof (cases "unat t < 65536")
    case False
    then obtain d where d: "unat t = 65536 + d" using le_Suc_ex not_less by blast
    have "n div 65536 < 65536" "n mod 65536 < 65536" using n by auto
    with d t have "d < 65535" by linarith
    have "(65536 + d) div 65536 = 1" using \<open>d < 65535\<close> by (intro div_nat_eqI) simp_all
    then have "(65536 + d + (65536 + d) div 65536) mod 65536 = (d + 1 + 65536) mod 65536" by (simp add: algebra_simps)
    also have "\<dots> = d + 1" unfolding mod_add_self2 using \<open>d < 65535\<close> by (intro mod_less) simp
    finally have "(65536 + d + (65536 + d) div 65536) mod 65536 = d + 1" .
    with d \<open>d < 65535\<close> show ?thesis by (simp add: oc_norm_big oc_norm_small)
  qed (simp add: oc_norm_small)
  also have "\<dots> = oc_norm n"
  proof (cases "n = 0")
    case False
    have n': "n = 65535 * (n div 65536) + unat t" using t div_mult_mod_eq [of n 65536] by simp
    have "0 < unat t" using False n' by linarith
    then show ?thesis using oc_norm_mult [of "unat t" "n div 65536"] n' by simp
  qed (simp add: t)
  finally show ?thesis by (simp add: fold_sum_def Let_def t_def [symmetric] unat_NOT16 n_def)
qed

section \<open>The checksum is that of RFC 1071\<close>

text \<open>The words of an area of \<open>n\<close> bytes; an odd byte is the high byte of a last word.\<close>

definition packet_words :: "memory \<Rightarrow> u32 \<Rightarrow> nat \<Rightarrow> nat list" where
  "packet_words m a n =
     map (word_at m a) [0..<n div 2] @ (if odd n then [256 * unat (m (a + of_nat (n - 1)))] else [])"

lemma sum_list_map_upt: "sum_list (map f [0..<n]) = (\<Sum>k<n. f k)"
  by (simp add: interv_sum_list_conv_sum_set_nat atLeast0LessThan)

lemma word_at_le: "word_at m a k \<le> 65535"
  using unsigned_less [of "net16 (a + of_nat (2 * k)) m", where ?'a = nat] by (simp add: word_at_def)

lemma packet_words_le: "\<forall>w \<in> set (packet_words m a n). w \<le> 65535"
proof -
  have "256 * unat b \<le> 65535" for b :: byte using unsigned_less [of b, where ?'a = nat] by simp
  then show ?thesis using word_at_le by (auto simp: packet_words_def)
qed

lemma sum_packet_words:
  "sum_list (packet_words m a n) =
     words_sum m a (n div 2) + (if odd n then 256 * unat (m (a + of_nat (n - 1))) else 0)"
  by (simp add: packet_words_def words_sum_def sum_list_map_upt)

lemma net16_high: "unat (ucast (net16 a m) AND (0xFF00 :: u32)) = 256 * unat (m a)"
proof -
  have h: "(0xFF00 :: u32) = push_bit 8 (mask 8)" by (simp add: mask_eq_exp_minus_1 push_bit_eq_mult)
  have "ucast (net16 a m) AND (0xFF00 :: u32) = push_bit 8 (ucast (m a))"
    unfolding h net16_def
    by (rule bit_word_eqI) (auto simp: bit_simps bit_word_cat_iff dest: bit_imp_le_length)
  moreover have "unat (push_bit 8 (ucast (m a)) :: u32) = 256 * unat (m a)"
  proof -
    have "unat (m a) < 256" using unsigned_less [of "m a", where ?'a = nat] by simp
    then show ?thesis by (simp add: push_bit_eq_mult unat_word_ariths unsigned_ucast_eq take_bit_nat_eq_self)
  qed
  ultimately show ?thesis by simp
qed

lemma sum_packet_words_le: "sum_list (packet_words m a n) \<le> n * 32768 + 65535"
proof -
  have "words_sum m a (n div 2) \<le> n div 2 * 65535" by (rule words_sum_le)
  moreover have "256 * unat (m (a + of_nat (n - 1))) \<le> 65535"
    using unsigned_less [of "m (a + of_nat (n - 1))", where ?'a = nat] by simp
  ultimately show ?thesis unfolding sum_packet_words by (auto split: if_splits)
qed

lemma fold_sum_of_nat: "s < 2 ^ 32 \<Longrightarrow> fold_sum (of_nat s) = of_nat (65535 - oc_norm s)"
proof -
  assume "s < 2 ^ 32"
  then have "unat (fold_sum (of_nat s)) = 65535 - oc_norm s" by (simp add: unat_fold_sum unat_of_nat)
  then have "of_nat (unat (fold_sum (of_nat s))) = (of_nat (65535 - oc_norm s) :: u16)" by (simp only:)
  then show ?thesis by simp
qed

text \<open>The sum both checksums form of an area of \<open>n\<close> bytes, with the words from \<open>s\<close> on.\<close>

lemma sum_area:
  fixes i0 :: "'a::len word"
  assumes "i0 = 0" and "bound = int n - 1" and "0 < n" and "n < 2 ^ LENGTH('a)" and "n \<le> 65550" and "s < 2 ^ 17"
  shows "map_option (add_odd_byte be m (odd n)) (sum_words be m bound i0 a (of_nat s)) =
     Some (of_nat (s + sum_list (packet_words m a n)))"
proof -
  define k where "k = n div 2"
  have "int n < 2 ^ LENGTH('a)" using assms(4) by (metis of_nat_less_iff of_nat_numeral of_nat_power)
  moreover have "2 * int k \<le> int n" by (simp add: k_def)
  ultimately have "2 * int k < 2 ^ LENGTH('a)" by linarith
  then have "bound \<le> uint i0 + 2 * int k" "uint i0 + 2 * int k < 2 ^ LENGTH('a)"
    "k = 0 \<or> uint i0 + 2 * int k - 2 < bound"
    using assms(1-3) by (auto simp: k_def)
  from sum_words_adds [OF this, of be m a "of_nat s"]
  have "sum_words be m bound i0 a (of_nat s) = Some (a + of_nat (2 * k), of_nat s + of_nat (words_sum m a k))" .
  moreover have "of_nat (256 * unat (m (a + of_nat (2 * k)))) = ucast (net16 (a + of_nat (2 * k)) m) AND (0xFF00 :: u32)"
    unfolding net16_high [of "a + of_nat (2 * k)" m, symmetric] by simp
  moreover have "n - 1 = 2 * k" if "odd n" using that by (auto simp: k_def elim: oddE)
  ultimately show ?thesis unfolding sum_packet_words k_def [symmetric] add_odd_byte_def
    by (simp del: of_nat_mult add: add.assoc)
qed

lemma checksum_sum:
  assumes n: "0 < n \<and> n \<le> 65550"
  shows "checksum be m a (int n) = Some (of_nat (65535 - oc_norm (sum_list (packet_words m a n))))"
proof -
  define bound where "bound = uint (word_of_int (int n - 1) :: u32)"
  have "bound = int n - 1" unfolding bound_def uint_word_of_int
    using n by (intro mod_pos_pos_trivial) simp_all
  with n have "map_option (add_odd_byte be m (odd n)) (sum_words be m bound (0 :: u32) a (of_nat 0)) =
      Some (of_nat (0 + sum_list (packet_words m a n)))"
    by (intro sum_area) simp_all
  then have "checksum be m a (int n) = Some (fold_sum (of_nat (sum_list (packet_words m a n))))"
    by (auto simp: checksum_def bound_def)
  moreover have "sum_list (packet_words m a n) < 2 ^ 32"
    using n by (intro le_less_trans [OF sum_packet_words_le]) simp
  ultimately show ?thesis by (simp add: fold_sum_of_nat)
qed

text \<open>
  C22. \<open>checksum\<close> is the checksum of RFC 1071: the complement of the sum of the 16-bit words in
  ones' complement, an odd last byte counting as the high byte of a word. For a length of 0
  the loop, whose index is compared with \<open>len - 1\<close> without sign, does not end.
\<close>

theorem checksum_rfc1071:
  "(0 < n \<and> n \<le> 65550 \<longrightarrow>
     checksum be m a (int n) = Some (of_nat (65535 - foldl oc_add 0 (packet_words m a n)))) \<and>
   checksum be m a 0 = None"
proof (intro conjI impI)
  assume "0 < n \<and> n \<le> 65550"
  moreover have "foldl oc_add 0 (packet_words m a n) = oc_norm (sum_list (packet_words m a n))"
    using foldl_oc_add [of "packet_words m a n" 0] packet_words_le by (simp add: oc_norm_def)
  ultimately show "checksum be m a (int n) = Some (of_nat (65535 - foldl oc_add 0 (packet_words m a n)))"
    by (simp only: checksum_sum)
next
  have "uint (word_of_int (0 - 1) :: u32) = 2 ^ 32 - 1"
    by (simp add: unsigned_minus_1_eq_mask mask_eq_exp_minus_1)
  then show "checksum be m a 0 = None"
    unfolding checksum_def by (subst sum_words_diverges) simp_all
qed

theorem checksum_rfc1071_witness:
  "checksum False sample_bytes 16 5 = Some (of_nat (65535 - (0x1011 + 0x1213 + 0x1400)))"
proof -
  have "packet_words sample_bytes 16 5 = [0x1011, 0x1213, 0x1400]"
    by (simp add: packet_words_def word_at_def net16_def sample_bytes_def upt_rec word_cat_eq)
  then show ?thesis using checksum_rfc1071 [of 5 False sample_bytes 16] by (simp add: oc_add_def)
qed

end
