(* ===== verification/Net_Packet.thy ===== *)
theory Net_Packet
  imports Net_Utils
begin

text \<open>
  The protocols of \<open>net/inet/ip.c\<close>, \<open>net/inet/icmp.c\<close> and \<open>net/inet/udp.c\<close>. The packet lies at an
  address of the memory. What \<open>net_send\<close> of the interface does is an argument, and so are
  the callbacks of the application; the state of the link, of type \<open>'w\<close>, is theirs. A function
  that does not return is \<open>None\<close>.

  The theory shows that \<open>ip_in\<close> accepts what \<open>ip_out\<close> sends and rejects a header with a changed
  byte, that the reply to an echo has a right checksum; and that \<open>udp_in\<close> trusts the length
  in the packet: the echo service sends memory behind the packet, and lengths above 65527
  keep the checksum in its loop for ever.
\<close>

section \<open>Interfaces and state\<close>

record netif_config_s =
  framelen :: u16
  if_mac :: "byte list"
  if_ip :: "byte list"
  if_netmask :: "byte list"
  if_gateway :: "byte list"

record 'w net_state =
  mem :: memory
  link :: 'w

type_synonym 'w net_result = "(int \<times> 'w net_state) option"
type_synonym 'w net_send = "netif_config_s \<Rightarrow> u32 \<Rightarrow> u16 \<Rightarrow> 'w net_state \<Rightarrow> 'w net_result"
type_synonym 'w net_callback = "netif_config_s \<Rightarrow> u32 \<Rightarrow> 'w net_state \<Rightarrow> 'w net_result"

definition set_mem :: "(memory \<Rightarrow> memory) \<Rightarrow> 'w net_state \<Rightarrow> 'w net_state" where
  "set_mem f st = st\<lparr>mem := f (mem st)\<rparr>"

text \<open>The offsets of the fields of \<open>ip_s\<close>, \<open>icmp_s\<close> and \<open>udp_s\<close> in a packet.\<close>

abbreviation "IP_VER \<equiv> (0 :: u32)"
abbreviation "IP_TOS \<equiv> (1 :: u32)"
abbreviation "IP_LEN \<equiv> (2 :: u32)"
abbreviation "IP_ID \<equiv> (4 :: u32)"
abbreviation "IP_FLAGS_OFF \<equiv> (6 :: u32)"
abbreviation "IP_TTL \<equiv> (8 :: u32)"
abbreviation "IP_PROTO \<equiv> (9 :: u32)"
abbreviation "IP_CHKSUM \<equiv> (10 :: u32)"
abbreviation "IP_SRC_ADDR \<equiv> (12 :: u32)"
abbreviation "IP_DST_ADDR \<equiv> (16 :: u32)"
abbreviation "ICMP_TYPE \<equiv> (20 :: u32)"
abbreviation "ICMP_CODE \<equiv> (21 :: u32)"
abbreviation "ICMP_CHKSUM \<equiv> (22 :: u32)"
abbreviation "ICMP_ID \<equiv> (24 :: u32)"
abbreviation "ICMP_SEQNO \<equiv> (26 :: u32)"
abbreviation "UDP_SRC_PORT \<equiv> (20 :: u32)"
abbreviation "UDP_DST_PORT \<equiv> (22 :: u32)"
abbreviation "UDP_LEN \<equiv> (24 :: u32)"
abbreviation "UDP_CHKSUM \<equiv> (26 :: u32)"

abbreviation "IP_PROTO_ICMP \<equiv> (1 :: byte)"
abbreviation "IP_PROTO_UDP \<equiv> (17 :: byte)"

section \<open>IP: sending\<close>

definition ip_header :: "bool \<Rightarrow> netif_config_s \<Rightarrow> byte list \<Rightarrow> int \<Rightarrow> u32 \<Rightarrow> u16 \<Rightarrow> memory \<Rightarrow> memory" where
  "ip_header be netif dst_addr proto packet len m =
     (let m = m(packet + IP_VER := 0x45);
          m = m(packet + IP_TOS := 0);
          m = store16 be (packet + IP_LEN) (htons be len) m;
          m = store16 be (packet + IP_ID) (htons be 0) m;
          m = store16 be (packet + IP_FLAGS_OFF) (htons be 0) m;
          m = m(packet + IP_TTL := 64);
          m = (if proto > -1 then m(packet + IP_PROTO := word_of_int proto AND 0xFF) else m);
          m = store_bytes (packet + IP_SRC_ADDR) (if_ip netif) m
      in store_bytes (packet + IP_DST_ADDR) dst_addr m)"

definition ip_out :: "bool \<Rightarrow> 'w net_send \<Rightarrow> netif_config_s \<Rightarrow> byte list \<Rightarrow> int \<Rightarrow> u32 \<Rightarrow> u16 \<Rightarrow>
    'w net_state \<Rightarrow> 'w net_result" where
  "ip_out be net_send netif dst_addr proto packet len st =
     (let st = set_mem (ip_header be netif dst_addr proto packet len) st;
          st = set_mem (store16 be (packet + IP_CHKSUM) (htons be 0)) st
      in Option.bind (checksum be (mem st) packet 20) (\<lambda>sum.
           net_send netif packet len (set_mem (store16 be (packet + IP_CHKSUM) (htons be sum)) st)))"

section \<open>ICMP\<close>

definition icmp_echo_reply :: "bool \<Rightarrow> 'w net_send \<Rightarrow> netif_config_s \<Rightarrow> u32 \<Rightarrow> u16 \<Rightarrow>
    'w net_state \<Rightarrow> 'w net_result" where
  "icmp_echo_reply be net_send netif packet len st =
     (if mem st (packet + ICMP_TYPE) = 8 then
        let st = set_mem (\<lambda>m. m(packet + ICMP_TYPE := 0)) st;
            chksum = ntohs be (load16 be (packet + ICMP_CHKSUM) (mem st));
            chksum = (if chksum > 0xFFFF - 0x800 then chksum + 0x801 else chksum + 0x800);
            st = set_mem (store16 be (packet + ICMP_CHKSUM) (htons be chksum)) st;
            dst_addr = load_bytes 4 (packet + IP_SRC_ADDR) (mem st)
        in map_option (\<lambda>(val, st). (uint (word_of_int val :: u16), st))
             (ip_out be net_send netif dst_addr (-1) packet len st)
      else if mem st (packet + ICMP_TYPE) = 0 then Some (0, st)
      else Some (-1, st))"

text \<open>
  The pointer \<open>icmp + sizeof(struct ip_icmp_s)\<close> steps over 28 structs of 28 bytes, not over 28
  bytes.
\<close>

definition icmp_echo_request :: "bool \<Rightarrow> 'w net_send \<Rightarrow> netif_config_s \<Rightarrow> byte list \<Rightarrow> u32 \<Rightarrow>
    'w net_state \<Rightarrow> 'w net_result" where
  "icmp_echo_request be net_send netif dst_addr packet st =
     (let st = set_mem (\<lambda>m.
        let m = m(packet + ICMP_TYPE := 8);
            m = m(packet + ICMP_CODE := 0);
            m = store16 be (packet + ICMP_CHKSUM) (htons be 0) m;
            m = store16 be (packet + ICMP_ID) (htons be 0x9669) m;
            m = store16 be (packet + ICMP_SEQNO) (htons be 1) m
        in ucx_memset (packet + 28 * 28) 0x55 16 m) st
      in Option.bind (checksum be (mem st) (packet + ICMP_TYPE) (8 + 16)) (\<lambda>chksum.
           map_option (\<lambda>(val, st). (uint (word_of_int val :: u16), st))
             (ip_out be net_send netif dst_addr 1 packet (28 + 16)
               (set_mem (store16 be (packet + ICMP_CHKSUM) (htons be chksum)) st))))"

section \<open>UDP\<close>

definition udpchksum :: "bool \<Rightarrow> memory \<Rightarrow> u32 \<Rightarrow> u16 \<Rightarrow> u16 option" where
  "udpchksum be m packet len =
     map_option (\<lambda>r. fold_sum (add_odd_byte be m (odd (uint len)) r))
       (sum_words be m (uint len + 8 - 1) (0 :: u16) (packet + 20 - 8) (17 + ucast len))"

definition udp_out :: "bool \<Rightarrow> 'w net_send \<Rightarrow> netif_config_s \<Rightarrow> byte list \<Rightarrow> u16 \<Rightarrow> u16 \<Rightarrow> u32 \<Rightarrow> u16 \<Rightarrow>
    'w net_state \<Rightarrow> 'w net_result" where
  "udp_out be net_send netif dst_addr src_port dst_port packet len st =
     (let st = set_mem (\<lambda>m.
        let m = store16 be (packet + UDP_SRC_PORT) (htons be src_port) m;
            m = store16 be (packet + UDP_DST_PORT) (htons be dst_port) m;
            m = store16 be (packet + UDP_LEN) (htons be len) m;
            m = store16 be (packet + UDP_CHKSUM) (htons be 0) m;
            m = store_bytes (packet + IP_SRC_ADDR) (if_ip netif) m
        in store_bytes (packet + IP_DST_ADDR) dst_addr m) st
      in Option.bind (udpchksum be (mem st) packet len) (\<lambda>chksum.
           ip_out be net_send netif dst_addr 17 packet (len + 20)
             (set_mem (store16 be (packet + UDP_CHKSUM) (htons be chksum)) st)))"

text \<open>What \<open>udp_in\<close> does with a packet whose checksum is right or absent.\<close>

definition udp_deliver :: "bool \<Rightarrow> 'w net_send \<Rightarrow> 'w net_callback option \<Rightarrow> netif_config_s \<Rightarrow> u32 \<Rightarrow>
    u16 \<Rightarrow> 'w net_state \<Rightarrow> 'w net_result" where
  "udp_deliver be net_send udp_callback netif packet datalen st =
     (let src_port = ntohs be (load16 be (packet + UDP_SRC_PORT) (mem st));
          dst_port = ntohs be (load16 be (packet + UDP_DST_PORT) (mem st))
      in if dst_port = 7 then
           let dst_addr = load_bytes 4 (packet + IP_SRC_ADDR) (mem st)
           in map_option (\<lambda>(_, st). (uint datalen, st))
                (udp_out be net_send netif dst_addr dst_port src_port packet datalen st)
         else if dst_port = 9 then Some (uint datalen, st)
         else case udp_callback of Some f \<Rightarrow> f netif packet st | None \<Rightarrow> Some (-1, st))"

definition udp_in :: "bool \<Rightarrow> 'w net_send \<Rightarrow> 'w net_callback option \<Rightarrow> netif_config_s \<Rightarrow> u32 \<Rightarrow>
    'w net_state \<Rightarrow> 'w net_result" where
  "udp_in be net_send udp_callback netif packet st =
     (let chksum = ntohs be (load16 be (packet + UDP_CHKSUM) (mem st));
          datalen = ntohs be (load16 be (packet + UDP_LEN) (mem st))
      in if chksum \<noteq> 0 then
           let st = set_mem (store16 be (packet + UDP_CHKSUM) (htons be 0)) st
           in Option.bind (udpchksum be (mem st) packet datalen) (\<lambda>c.
                if chksum \<noteq> c then Some (-1, st)
                else udp_deliver be net_send udp_callback netif packet datalen st)
         else udp_deliver be net_send udp_callback netif packet datalen st)"

section \<open>IP: receiving\<close>

definition ip_deliver :: "bool \<Rightarrow> 'w net_send \<Rightarrow> 'w net_callback option \<Rightarrow> 'w net_callback option \<Rightarrow>
    netif_config_s \<Rightarrow> u32 \<Rightarrow> u16 \<Rightarrow> 'w net_state \<Rightarrow> 'w net_result" where
  "ip_deliver be net_send ip_callback udp_callback netif packet len st =
     (let proto = mem st (packet + IP_PROTO)
      in if proto = IP_PROTO_ICMP then icmp_echo_reply be net_send netif packet len st
         else if proto = IP_PROTO_UDP then udp_in be net_send udp_callback netif packet st
         else case ip_callback of Some f \<Rightarrow> f netif packet st | None \<Rightarrow> Some (-1, st))"

definition ip_in :: "bool \<Rightarrow> 'w net_send \<Rightarrow> 'w net_callback option \<Rightarrow> 'w net_callback option \<Rightarrow>
    netif_config_s \<Rightarrow> byte list \<Rightarrow> u32 \<Rightarrow> u16 \<Rightarrow> 'w net_state \<Rightarrow> 'w net_result" where
  "ip_in be net_send ip_callback udp_callback netif dst_addr packet len st =
     (let dst = load_bytes 4 (packet + IP_DST_ADDR) (mem st);
          chksum = ntohs be (load16 be (packet + IP_CHKSUM) (mem st))
      in if mem st (packet + IP_VER) \<noteq> 0x45 then Some (-1, st)
         else if ntohs be (load16 be (packet + IP_FLAGS_OFF) (mem st)) AND (0x2000 OR 0x1FFF) \<noteq> 0
         then Some (-1, st)
         else if mem st (packet + IP_TTL) = 0 then Some (-1, st)
         else if \<not> ip_addr_cmp dst dst_addr \<and> \<not> ip_addr_isbroadcast dst (if_netmask netif) \<and>
              \<not> ip_addr_ismulticast dst
         then Some (-1, st)
         else
           let st = set_mem (store16 be (packet + IP_CHKSUM) (htons be 0)) st
           in Option.bind (checksum be (mem st) packet 20) (\<lambda>c.
                if chksum \<noteq> c then Some (-1, st)
                else ip_deliver be net_send ip_callback udp_callback netif packet len
                       (set_mem (store16 be (packet + IP_CHKSUM) (htons be chksum)) st)))"

lemmas packet_defs = ip_header_def set_mem_def Let_def

section \<open>The header checksum\<close>

text \<open>The ten words of a header, the field of the checksum taken as 0.\<close>

definition header_sum :: "memory \<Rightarrow> u32 \<Rightarrow> nat" where
  "header_sum m p = unat (net16 p m) + unat (net16 (p + 2) m) + unat (net16 (p + 4) m) +
     unat (net16 (p + 6) m) + unat (net16 (p + 8) m) + unat (net16 (p + 12) m) +
     unat (net16 (p + 14) m) + unat (net16 (p + 16) m) + unat (net16 (p + 18) m)"

definition header_checksum :: "memory \<Rightarrow> u32 \<Rightarrow> u16" where
  "header_checksum m p = of_nat (65535 - oc_norm (header_sum m p))"

lemma checksum_header:
  assumes "net16 (p + 10) m = 0"
  shows "checksum be m p 20 = Some (header_checksum m p)"
proof -
  have "[0..<10] = [0, 1, 2, 3, 4, 5, 6, 7, 8, 9 :: nat]" by (simp add: upt_rec eval_nat_numeral)
  then have "packet_words m p 20 = map (word_at m p) [0, 1, 2, 3, 4, 5, 6, 7, 8, 9]"
    by (simp add: packet_words_def)
  then have "sum_list (packet_words m p 20) = header_sum m p"
    using assms by (simp add: word_at_def header_sum_def)
  then show ?thesis using checksum_sum [of 20 be m p] by (simp add: header_checksum_def)
qed

section \<open>Headers that are sent and received\<close>

lemma length_4E:
  assumes "length xs = 4"
  obtains a b c d where "xs = [a, b, c, d]"
  using assms by (auto simp: length_Suc_conv eval_nat_numeral)

definition ip_sent :: "netif_config_s \<Rightarrow> byte list \<Rightarrow> int \<Rightarrow> u32 \<Rightarrow> u16 \<Rightarrow> memory \<Rightarrow> memory" where
  "ip_sent netif dst_addr proto packet len m =
     (let m = (ip_header False netif dst_addr proto packet len m)(packet + 10 := 0, packet + 11 := 0);
          c = header_checksum m packet
      in m(packet + 10 := ucast (drop_bit 8 c), packet + 11 := ucast c))"

lemma ip_header_endian: "ip_header be netif dst_addr proto packet len m = ip_header False netif dst_addr proto packet len m"
  by (simp add: ip_header_def)

lemma ip_out_sends:
  "ip_out be net_send netif dst_addr proto packet len st =
   net_send netif packet len (set_mem (ip_sent netif dst_addr proto packet len) st)"
proof -
  define h where "h = (ip_header False netif dst_addr proto packet len (mem st))(packet + 10 := 0, packet + 11 := 0)"
  have a: "packet + 10 + 1 = packet + 11" by (simp add: add.assoc)
  have "net16 (packet + 10) h = 0" unfolding h_def net16_def a by (simp add: word_cat_eq)
  then have "checksum be h packet 20 = Some (header_checksum h packet)" by (rule checksum_header)
  then show ?thesis
    by (simp add: ip_out_def set_mem_def Let_def ip_header_endian [of be] a h_def [symmetric] ip_sent_def)
      (simp add: h_def)
qed

definition header_ok :: "memory \<Rightarrow> u32 \<Rightarrow> byte list \<Rightarrow> bool" where
  "header_ok m p dst_addr \<longleftrightarrow> m p = 0x45 \<and> net16 (p + 6) m AND 0x3FFF = 0 \<and> m (p + 8) \<noteq> 0 \<and>
     load_bytes 4 (p + 16) m = dst_addr \<and> net16 (p + 10) m = header_checksum m p"

lemma header_sum_chksum: "header_sum (m(p + 10 := x, p + 11 := y)) p = header_sum m p"
  by (simp add: header_sum_def net16_def add.assoc)

lemma ip_in_accepts:
  assumes "header_ok (mem st) p dst_addr"
  shows "ip_in be net_send icb ucb netif dst_addr p len st = ip_deliver be net_send icb ucb netif p len st"
proof -
  define m where "m = mem st"
  note ok = assms [folded m_def, unfolded header_ok_def]
  have a: "p + 10 + 1 = p + 11" by (simp add: add.assoc)
  define z where "z = m(p + 10 := 0, p + 11 := 0)"
  have "net16 (p + 10) z = 0" unfolding z_def net16_def a by (simp add: word_cat_eq)
  then have "checksum be z p 20 = Some (header_checksum z p)" by (rule checksum_header)
  moreover have "header_checksum z p = header_checksum m p"
    by (simp add: header_checksum_def z_def header_sum_chksum)
  moreover have "z(p + 10 := ucast (drop_bit 8 (header_checksum m p)), p + 11 := ucast (header_checksum m p)) = m"
    using net16_restored [of "p + 10" m "header_checksum m p"] ok unfolding a z_def by (simp add: fun_upd_twist)
  ultimately show ?thesis
    using ok by (simp add: ip_in_def set_mem_def Let_def a m_def z_def ip_addr_cmp_def)
qed

lemma ip_sent_ok:
  assumes "length (if_ip netif) = 4" and "length dst_addr = 4"
  shows "header_ok (ip_sent netif dst_addr proto p len m) p dst_addr"
proof -
  from assms obtain a b c d a' b' c' d' where l: "if_ip netif = [a, b, c, d]" "dst_addr = [a', b', c', d']"
    by (metis length_4E)
  define h where "h = (ip_header False netif dst_addr proto p len m)(p + 10 := 0, p + 11 := 0)"
  define v where "v = header_checksum h p"
  have s: "ip_sent netif dst_addr proto p len m = h(p + 10 := ucast (drop_bit 8 v), p + 11 := ucast v)"
    by (simp add: ip_sent_def h_def v_def Let_def)
  have a: "p + 10 + 1 = p + 11" by (simp add: add.assoc)
  have "h p = 0x45" "net16 (p + 6) h = 0" "h (p + 8) = 64" "load_bytes 4 (p + 16) h = dst_addr"
    by (simp_all add: h_def ip_header_def Let_def l add.assoc net16_def word_cat_eq)
  moreover have "net16 (p + 10) (h(p + 10 := ucast (drop_bit 8 v), p + 11 := ucast v)) = v"
    using net16_stored [of "p + 10" h v] unfolding a .
  moreover have "header_checksum (h(p + 10 := ucast (drop_bit 8 v), p + 11 := ucast v)) p = v"
    by (simp add: header_checksum_def header_sum_chksum v_def)
  ultimately show ?thesis unfolding s header_ok_def by (simp add: net16_def add.assoc)
qed

text \<open>
  What \<open>ip_out\<close> sends, \<open>ip_in\<close> of the receiver accepts: when the packet arrives unchanged at
  the interface with its destination address, its header passes every check and is handed
  to the protocol as it was sent.
\<close>

theorem ip_out_ip_in:
  assumes "length (if_ip netif) = 4" and "length dst_addr = 4"
  shows "\<exists>m. ip_out be net_send netif dst_addr proto p len st = net_send netif p len (st\<lparr>mem := m\<rparr>) \<and>
     (\<forall>be' net_send' icb ucb netif' len' w. ip_in be' net_send' icb ucb netif' dst_addr p len' \<lparr>mem = m, link = w\<rparr> =
        ip_deliver be' net_send' icb ucb netif' p len' \<lparr>mem = m, link = w\<rparr>)"
proof (intro exI conjI allI)
  let ?m = "ip_sent netif dst_addr proto p len (mem st)"
  show "ip_out be net_send netif dst_addr proto p len st = net_send netif p len (st\<lparr>mem := ?m\<rparr>)"
    by (simp add: ip_out_sends set_mem_def)
  show "ip_in be' net_send' icb ucb netif' dst_addr p len' \<lparr>mem = ?m, link = w\<rparr> =
      ip_deliver be' net_send' icb ucb netif' p len' \<lparr>mem = ?m, link = w\<rparr>" for be' net_send' icb ucb netif' len' w
    by (rule ip_in_accepts) (simp add: ip_sent_ok assms)
qed

text \<open>
  A change of one byte changes the sum of the words by at most 65280, which the sum in ones'
  complement tells from 0.
\<close>

lemma oc_norm_neq:
  assumes "oc_norm x = oc_norm y" and "0 < x" and "x \<le> y" and "y - x \<le> 65280"
  shows "x = y"
proof -
  have "(x - 1) mod 65535 = (y - 1) mod 65535"
    using assms(1-3) by (simp add: oc_norm_def split: if_splits)
  then have "65535 dvd (y - 1) - (x - 1)" using mod_eq_dvd_iff_nat [of "x - 1" "y - 1" 65535] assms(3) by simp
  moreover have "(y - 1) - (x - 1) = y - x" using assms(2,3) by simp
  ultimately show ?thesis using assms(3,4) by (auto dest: dvd_imp_le)
qed

lemma header_checksum_neq:
  assumes "header_checksum m p = header_checksum m' p" and "m p = 0x45" and "m' p = 0x45"
    and "header_sum m p \<le> header_sum m' p" and "header_sum m' p - header_sum m p \<le> 65280"
  shows "header_sum m p = header_sum m' p"
proof -
  have pos: "0 < header_sum m p"
  proof -
    have "net16 p m \<noteq> 0"
    proof
      assume z: "net16 p m = 0"
      have "m p = ucast (drop_bit 8 (net16 p m))" unfolding net16_def
        by (rule bit_word_eqI) (auto simp: bit_simps bit_word_cat_iff dest: bit_imp_le_length)
      then show False using z assms(2) by simp
    qed
    then show ?thesis by (simp add: header_sum_def unat_gt_0)
  qed
  have "65535 - oc_norm (header_sum m p) = 65535 - oc_norm (header_sum m' p)"
    using arg_cong [where f = unat, OF assms(1)] unfolding header_checksum_def
    by (simp add: unat_of_nat)
  then have "oc_norm (header_sum m p) = oc_norm (header_sum m' p)"
    using oc_norm_le [of "header_sum m p"] oc_norm_le [of "header_sum m' p"] by simp
  with pos assms(4,5) oc_norm_neq show ?thesis by blast
qed

lemma unat_net16: "unat (net16 a m) = 256 * unat (m a) + unat (m (a + 1))"
proof -
  have "unat x < 256" for x :: byte using unsigned_less [of x, where ?'a = nat] by simp
  note lt = this [of "m a"] this [of "m (a + 1)"]
  show ?thesis using lt unfolding net16_def word_cat_eq
    by (simp add: push_bit_eq_mult unat_word_ariths unsigned_ucast_eq take_bit_nat_eq_self)
qed

lemma less_20_cases: "k < 20 \<Longrightarrow> k = 0 \<or> k = 1 \<or> k = 2 \<or> k = 3 \<or> k = 4 \<or> k = 5 \<or> k = 6 \<or> k = 7 \<or> k = 8 \<or>
    k = 9 \<or> k = 10 \<or> k = 11 \<or> k = 12 \<or> k = 13 \<or> k = 14 \<or> k = 15 \<or> k = 16 \<or> k = 17 \<or> k = 18 \<or> k = (19 :: nat)"
  by arith

text \<open>How the sum changes with a byte, and that the checksum then differs.\<close>

lemma header_sum_byte:
  assumes "k < 20" and "k \<noteq> 10" and "k \<noteq> 11"
  shows "header_sum (m(p + of_nat k := b)) p + (if even k then 256 else 1) * unat (m (p + of_nat k)) =
     header_sum m p + (if even k then 256 else 1) * unat b"
  using less_20_cases [OF assms(1)] assms(2,3)
  by (elim disjE; simp add: header_sum_def unat_net16 add.assoc)

lemma changed_byte_changes_checksum:
  assumes k: "k < 20" "k \<noteq> 10" "k \<noteq> 11" and b: "b \<noteq> m (p + of_nat k)"
    and v: "m p = 0x45" "(m(p + of_nat k := b)) p = 0x45"
  shows "header_checksum (m(p + of_nat k := b)) p \<noteq> header_checksum m p"
proof
  assume eq: "header_checksum (m(p + of_nat k := b)) p = header_checksum m p"
  define m' where "m' = m(p + of_nat k := b)"
  define c :: nat where "c = (if even k then 256 else 1)"
  have s: "header_sum m' p + c * unat (m (p + of_nat k)) = header_sum m p + c * unat b"
    unfolding m'_def c_def by (rule header_sum_byte [OF k])
  have "c * unat x \<le> 65280" for x :: byte
    using unsigned_less [of x, where ?'a = nat] by (auto simp: c_def)
  note le = this [of b] this [of "m (p + of_nat k)"]
  have "header_sum m' p = header_sum m p"
  proof (cases "header_sum m' p \<le> header_sum m p")
    case True
    with le s show ?thesis using header_checksum_neq [of m' p m] eq v unfolding m'_def [symmetric] by linarith
  next
    case False
    with le s show ?thesis using header_checksum_neq [of m p m'] eq [symmetric] v unfolding m'_def [symmetric] by linarith
  qed
  with s have "c * unat (m (p + of_nat k)) = c * unat b" by simp
  then have "unat (m (p + of_nat k)) = unat b" by (simp add: c_def split: if_splits)
  with b show False by (metis word_unat_eq_iff)
qed

text \<open>A header whose checksum field is not what the rest of it gives is dropped.\<close>

lemma ip_in_drops:
  assumes "mem st p = 0x45 \<Longrightarrow> net16 (p + 10) (mem st) \<noteq> header_checksum (mem st) p"
  shows "\<exists>st'. ip_in be net_send icb ucb netif dst_addr p len st = Some (-1, st')"
proof (cases "mem st p = 0x45")
  case True
  define z where "z = (mem st)(p + 10 := 0, p + 11 := 0)"
  have a: "p + 10 + 1 = p + 11" by (simp add: add.assoc)
  have "net16 (p + 10) z = 0" unfolding z_def net16_def a by (simp add: word_cat_eq)
  then have "checksum be z p 20 = Some (header_checksum z p)" by (rule checksum_header)
  moreover have "header_checksum z p = header_checksum (mem st) p"
    by (simp add: header_checksum_def z_def header_sum_chksum)
  ultimately show ?thesis
    using assms [OF True] True by (simp add: ip_in_def set_mem_def Let_def a z_def)
qed (simp add: ip_in_def)

text \<open>
  C11. A header in which one byte was changed on the way, whichever it is, is dropped:
  \<open>ip_in\<close> returns -1 and no protocol sees the packet.
\<close>

theorem ip_in_rejects_changed_byte:
  assumes "header_ok m p dst_addr" and "k < 20" and "b \<noteq> m (p + of_nat k)"
  shows "\<exists>st'. ip_in be net_send icb ucb netif addr p len \<lparr>mem = m(p + of_nat k := b), link = w\<rparr> = Some (-1, st')"
proof (rule ip_in_drops)
  define m' where "m' = m(p + of_nat k := b)"
  assume "mem \<lparr>mem = m(p + of_nat k := b), link = w\<rparr> p = 0x45"
  then have v: "m' p = 0x45" by (simp add: m'_def)
  have ok: "m p = 0x45" "net16 (p + 10) m = header_checksum m p" using assms(1) by (simp_all add: header_ok_def)
  have "net16 (p + 10) m' \<noteq> header_checksum m' p"
  proof (cases "k = 10 \<or> k = 11")
    case True
    then have "header_sum m' p = header_sum m p"
      unfolding m'_def by (elim disjE; simp add: header_sum_def net16_def add.assoc)
    then have "header_checksum m' p = header_checksum m p" by (simp add: header_checksum_def)
    moreover have "unat b \<noteq> unat (m (p + of_nat k))" using assms(3) by (simp add: word_unat_eq_iff)
    with True have "unat (net16 (p + 10) m') \<noteq> unat (net16 (p + 10) m)"
      unfolding m'_def by (elim disjE; simp add: unat_net16 add.assoc)
    ultimately show ?thesis using ok by metis
  next
    case False
    have "header_checksum m' p \<noteq> header_checksum m p" unfolding m'_def
      by (rule changed_byte_changes_checksum) (use False assms ok v m'_def in auto)
    moreover have "net16 (p + 10) m' = net16 (p + 10) m"
      using less_20_cases [OF assms(2)] False unfolding m'_def by (elim disjE; simp add: net16_def add.assoc)
    ultimately show ?thesis using ok by simp
  qed
  then show "net16 (p + 10) (mem \<lparr>mem = m(p + of_nat k := b), link = w\<rparr>) \<noteq>
      header_checksum (mem \<lparr>mem = m(p + of_nat k := b), link = w\<rparr>) p"
    by (simp add: m'_def)
qed

section \<open>The echo reply\<close>

text \<open>
  An ICMP message of \<open>n\<close> bytes is valid when the sum of its words, the checksum among them,
  is the ones' complement 0 that is not 0: then \<open>checksum\<close> of the message is 0.
\<close>

lemma checksum_zero:
  assumes "0 < n" and "n \<le> 65550"
  shows "checksum be m a (int n) = Some 0 \<longleftrightarrow>
     0 < sum_list (packet_words m a n) \<and> 65535 dvd sum_list (packet_words m a n)"
proof -
  define s where "s = sum_list (packet_words m a n)"
  have "checksum be m a (int n) = Some 0 \<longleftrightarrow> (of_nat (65535 - oc_norm s) :: u16) = 0"
    using checksum_sum [of n be m a] assms by (simp add: s_def)
  also have "\<dots> \<longleftrightarrow> oc_norm s = 65535"
    using oc_norm_le [of s] by (auto simp: word_of_nat_eq_0_iff simp del: of_nat_diff dest: dvd_imp_le)
  also have "\<dots> \<longleftrightarrow> 0 < s \<and> (s - 1) mod 65535 = 65534" by (auto simp: oc_norm_def)
  also have "\<dots> \<longleftrightarrow> 0 < s \<and> 65535 dvd s"
  proof (cases s)
    case (Suc k)
    have "k mod 65535 = 65534 \<longleftrightarrow> Suc k mod 65535 = 0" by (simp add: mod_Suc)
    with Suc show ?thesis by (simp add: dvd_eq_mod_eq_0)
  qed simp
  finally show ?thesis by (simp add: s_def)
qed

text \<open>The sum of a message of at least 8 bytes: type and code, checksum, and the rest.\<close>

lemma message_sum:
  assumes "4 \<le> n"
  shows "sum_list (packet_words m a n) =
     unat (net16 a m) + unat (net16 (a + 2) m) + sum_list (packet_words m (a + 4) (n - 4))"
proof -
  obtain k where k: "n = k + 4" using assms by (metis le_add_diff_inverse2)
  have "words_sum m a (Suc (Suc (k div 2))) = unat (net16 a m) + (unat (net16 (a + 2) m) + words_sum m (a + 4) (k div 2))"
    by (simp only: words_sum_Suc) (simp add: add.assoc)
  moreover have "(k + 4) div 2 = Suc (Suc (k div 2))" by simp
  moreover have "m (a + of_nat (k + 4 - 1)) = m (a + 4 + of_nat (k + 4 - 4 - 1))" if "odd k"
    using that by (cases k) (simp_all add: algebra_simps)
  ultimately show ?thesis unfolding sum_packet_words k by (simp del: of_nat_add of_nat_diff add_diff_cancel_right')
qed

text \<open>Bytes behind the header are not touched.\<close>

lemma ip_sent_other:
  assumes "length (if_ip netif) = 4" and "length dst_addr = 4" and "20 \<le> unat (x - p)"
  shows "ip_sent netif dst_addr proto p len m x = m x"
proof -
  from assms obtain a b c d a' b' c' d' where l: "if_ip netif = [a, b, c, d]" "dst_addr = [a', b', c', d']"
    by (metis length_4E)
  have "x \<noteq> p + j" if "unat j < 20" for j using assms(3) that by (metis add_diff_cancel_left' not_le)
  note ne = this [of 1] this [of 2] this [of 3] this [of 4] this [of 5] this [of 6] this [of 7] this [of 8]
    this [of 9] this [of 10] this [of 11] this [of 12] this [of 13] this [of 14] this [of 15] this [of 16]
    this [of 17] this [of 18] this [of 19]
  have "x \<noteq> p" using assms(3) by auto
  with ne show ?thesis by (simp add: ip_sent_def ip_header_def Let_def l add.assoc)
qed

lemma packet_words_cong:
  assumes "\<And>i. i < n \<Longrightarrow> m (a + of_nat i) = m' (a' + of_nat i)"
  shows "packet_words m a n = packet_words m' a' n"
proof -
  have "word_at m a k = word_at m' a' k" if "k < n div 2" for k
  proof -
    have "m (a + of_nat (2 * k)) = m' (a' + of_nat (2 * k))" "m (a + of_nat (2 * k + 1)) = m' (a' + of_nat (2 * k + 1))"
      using that by (intro assms; linarith)+
    then show ?thesis by (simp add: word_at_def net16_def add.assoc add.commute [of 1])
  qed
  moreover have "m (a + of_nat (n - 1)) = m' (a' + of_nat (n - 1))" if "odd n"
    using that by (intro assms) (cases n; simp)
  ultimately show ?thesis by (auto simp: packet_words_def)
qed

text \<open>What the reply makes of the first two words keeps the sum, up to 65535.\<close>

lemma reply_chksum:
  fixes c :: u16
  defines "c' \<equiv> if c > 0xFFFF - 0x800 then c + 0x801 else c + 0x800"
  shows "unat c' + (if c > 0xFFFF - 0x800 then 65535 else 0) = unat c + 0x800"
proof -
  have l: "unat c < 65536" using unsigned_less [of c, where ?'a = nat] by simp
  have k: "c > 0xFFFF - 0x800 \<longleftrightarrow> unat c > 63487" by (simp add: word_less_nat_alt)
  show ?thesis
  proof (cases "unat c > 63487")
    case True
    then have "(unat c + 2049) mod 65536 = unat c + 2049 - 65536" using l by (simp add: mod_if)
    with True show ?thesis unfolding c'_def k by (simp add: unat_word_ariths)
  next
    case False
    with l show ?thesis unfolding c'_def k by (simp add: unat_word_ariths)
  qed
qed

lemma reply_sum:
  assumes "m a = 8" and "4 \<le> n" and "n < 2 ^ 32"
    and valid: "0 < sum_list (packet_words m a n)" "65535 dvd sum_list (packet_words m a n)"
  defines "c' \<equiv> (let c = net16 (a + 2) m in if c > 0xFFFF - 0x800 then c + 0x801 else c + 0x800)"
  defines "m' \<equiv> m(a := 0, a + 2 := ucast (drop_bit 8 c'), a + 3 := ucast c')"
  shows "0 < sum_list (packet_words m' a n) \<and> 65535 dvd sum_list (packet_words m' a n)"
proof -
  define c where "c = net16 (a + 2) m"
  define r where "r = sum_list (packet_words m (a + 4) (n - 4))"
  have "packet_words m' (a + 4) (n - 4) = packet_words m (a + 4) (n - 4)"
  proof (rule packet_words_cong)
    fix i assume i: "i < n - 4"
    have "unat (a + 4 + of_nat i - a) = 4 + i"
    proof -
      have "a + 4 + of_nat i - a = of_nat (4 + i)" by simp
      then show ?thesis using i assms(3) by (simp only: unat_of_nat) simp
    qed
    then have ne: "a + 4 + of_nat i \<noteq> a + j" if "unat j < 4" for j
      using that by (metis add_diff_cancel_left' not_add_less1)
    show "m' (a + 4 + of_nat i) = m (a + 4 + of_nat i)"
      using ne [of 0] ne [of 2] ne [of 3] by (simp add: m'_def)
  qed
  then have s': "sum_list (packet_words m' a n) = unat (net16 a m') + unat (net16 (a + 2) m') + r"
    using message_sum [OF assms(2), of m' a] by (simp add: r_def)
  have s: "sum_list (packet_words m a n) = unat (net16 a m) + unat c + r"
    using message_sum [OF assms(2), of m a] by (simp add: r_def c_def)
  have "unat (net16 (a + 2) m') = unat c'"
    using net16_stored [of "a + 2" "m(a := 0)" c'] by (simp add: m'_def add.assoc)
  moreover have "unat (net16 a m) = 0x800 + unat (net16 a m')"
    using assms(1) by (simp add: unat_net16 m'_def)
  ultimately have eq: "sum_list (packet_words m a n) =
      sum_list (packet_words m' a n) + (if c > 0xFFFF - 0x800 then 65535 else 0)"
    using reply_chksum [of c] s s' unfolding c'_def c_def Let_def by linarith
  have "0 < sum_list (packet_words m' a n)"
  proof (cases "c > 0xFFFF - 0x800")
    case True
    then have "unat c > 63487" by (simp add: word_less_nat_alt)
    then have "65535 < sum_list (packet_words m a n)" using s \<open>unat (net16 a m) = _\<close> by linarith
    with eq True show ?thesis by simp
  next
    case False
    with eq valid(1) show ?thesis by simp
  qed
  moreover have "65535 dvd sum_list (packet_words m' a n)"
    using valid(2) unfolding eq by (auto split: if_splits simp: dvd_add_left_iff)
  ultimately show ?thesis by blast
qed

text \<open>
  C23. The reply to an echo is a valid message for the sender: \<open>icmp_echo_reply\<close> corrects the
  checksum for the changed type without forming the sum anew, and when the request was
  valid the reply is, whatever its payload; it goes to the source address of the request, in
  a header the receiver accepts.
\<close>

theorem echo_reply_valid:
  assumes "mem st (p + 20) = 8" and "4 \<le> n" and "n \<le> 65515" and "length (if_ip netif) = 4"
    and valid: "checksum be (mem st) (p + 20) (int n) = Some 0"
  shows "\<exists>m. icmp_echo_reply be net_send netif p len st =
       map_option (\<lambda>(val, st). (uint (word_of_int val :: u16), st)) (net_send netif p len (st\<lparr>mem := m\<rparr>)) \<and>
     m (p + 20) = 0 \<and> checksum be m (p + 20) (int n) = Some 0 \<and>
     header_ok m p (load_bytes 4 (p + 12) (mem st)) \<and>
     (\<forall>i \<ge> 24. i < n + 20 \<longrightarrow> m (p + of_nat i) = mem st (p + of_nat i))"
proof -
  define c' where "c' = (let c = net16 (p + 20 + 2) (mem st) in if c > 0xFFFF - 0x800 then c + 0x801 else c + 0x800)"
  define m1 where "m1 = (mem st)(p + 20 := 0, p + 20 + 2 := ucast (drop_bit 8 c'), p + 20 + 3 := ucast c')"
  define d where "d = load_bytes 4 (p + 12) (mem st)"
  define m where "m = ip_sent netif d (-1) p len m1"
  have ld: "length d = 4" by (simp add: d_def)
  have far: "20 \<le> unat (p + of_nat i - p)" if "20 \<le> i" "i < n + 20" for i
  proof -
    have "p + of_nat i - p = of_nat i" by simp
    then show ?thesis using that assms(3) by (simp only: unat_of_nat) simp
  qed
  have same: "m (p + of_nat i) = m1 (p + of_nat i)" if "20 \<le> i" "i < n + 20" for i
    unfolding m_def by (rule ip_sent_other) (use assms(4) ld far that in auto)
  have eq: "p + 22 = p + 20 + 2" "p + 22 + 1 = p + 20 + 3" "p + 20 + 2 + 1 = p + 20 + 3" by (simp_all add: add.assoc)
  have n16: "net16 (p + 20 + 2) ((mem st)(p + 20 := 0)) = net16 (p + 20 + 2) (mem st)"
    by (simp add: net16_def add.assoc)
  have ld1: "load_bytes 4 (p + 12) m1 = d" by (simp add: m1_def d_def add.assoc)
  have "icmp_echo_reply be net_send netif p len st =
      map_option (\<lambda>(val, st). (uint (word_of_int val :: u16), st)) (ip_out be net_send netif d (-1) p len (st\<lparr>mem := m1\<rparr>))"
    using assms(1) n16 ld1 unfolding icmp_echo_reply_def set_mem_def Let_def ntohs_load16 store16_htons eq
    by (simp add: m1_def c'_def Let_def cong: if_cong)
  then have r: "icmp_echo_reply be net_send netif p len st =
      map_option (\<lambda>(val, st). (uint (word_of_int val :: u16), st)) (net_send netif p len (st\<lparr>mem := m\<rparr>))"
    by (simp add: ip_out_sends set_mem_def m_def)
  have "0 < sum_list (packet_words m1 (p + 20) n) \<and> 65535 dvd sum_list (packet_words m1 (p + 20) n)"
    unfolding m1_def c'_def by (rule reply_sum) (use assms checksum_zero [of n be "mem st" "p + 20"] in auto)
  moreover have "packet_words m (p + 20) n = packet_words m1 (p + 20) n"
  proof (rule packet_words_cong)
    fix i assume "i < n"
    with same [of "i + 20"] show "m (p + 20 + of_nat i) = m1 (p + 20 + of_nat i)" by (simp add: algebra_simps)
  qed
  ultimately have ck: "checksum be m (p + 20) (int n) = Some 0"
    using checksum_zero [of n be m "p + 20"] assms(2,3) by simp
  have h: "header_ok m p d" unfolding m_def by (rule ip_sent_ok) (use assms(4) ld in auto)
  have z: "m (p + 20) = 0" using same [of 20] assms(2) by (simp add: m1_def)
  have "m (p + of_nat i) = mem st (p + of_nat i)" if i: "24 \<le> i" "i < n + 20" for i
  proof -
    have u: "unat (of_nat i :: u32) = i" using i assms(3) by (simp add: unat_of_nat)
    then have "(of_nat i :: u32) \<noteq> j" if "unat j < 24" for j using that i by auto
    from this [of 20] this [of 22] this [of 23] have "m1 (p + of_nat i) = mem st (p + of_nat i)"
      by (simp add: m1_def add.assoc)
    with same [of i] i show ?thesis by simp
  qed
  with r z ck h show ?thesis unfolding d_def by blast
qed

section \<open>UDP trusts the length in the packet\<close>

lemma udpchksum_value:
  assumes "unat len \<le> 65527"
  shows "udpchksum be m p len = Some (fold_sum (of_nat (17 + unat len +
     sum_list (packet_words m (p + 12) (unat len + 8)))))"
proof -
  have u: "uint len = int (unat len)" by (simp only: uint_nat)
  have bound: "uint len + 8 - 1 = int (unat len + 8) - 1" by (simp only: u of_nat_add)
  have start: "17 + ucast len = (of_nat (17 + unat len) :: u32)" by simp
  have o: "odd (uint len) \<longleftrightarrow> odd (unat len + 8)" unfolding u even_of_nat by simp
  have a: "p + 20 - 8 = p + 12" by simp
  have "map_option (add_odd_byte be m (odd (unat len + 8)))
      (sum_words be m (int (unat len + 8) - 1) (0 :: u16) (p + 12) (of_nat (17 + unat len))) =
     Some (of_nat (17 + unat len + sum_list (packet_words m (p + 12) (unat len + 8))))"
    by (rule sum_area) (use assms in \<open>simp_all\<close>)
  then have "map_option fold_sum (map_option (add_odd_byte be m (odd (unat len + 8)))
      (sum_words be m (int (unat len + 8) - 1) (0 :: u16) (p + 12) (of_nat (17 + unat len)))) =
     Some (fold_sum (of_nat (17 + unat len + sum_list (packet_words m (p + 12) (unat len + 8)))))"
    by (simp only: option.map)
  then show ?thesis unfolding udpchksum_def o bound start a option.map_comp o_def .
qed

lemma udpchksum_diverges: "65527 < unat len \<Longrightarrow> udpchksum be m p len = None"
proof -
  assume "65527 < unat len"
  moreover have "uint len = int (unat len)" by (simp only: uint_nat)
  ultimately have "65528 \<le> uint len" by linarith
  then have "2 ^ 16 \<le> uint len + 8 - 1 + 1" by simp
  then have "sum_words be m (uint len + 8 - 1) (0 :: u16) (p + 20 - 8) (17 + ucast len) = None"
    by (intro sum_words_diverges) simp_all
  then show ?thesis by (simp add: udpchksum_def)
qed

text \<open>
  C38. One packet stops the network: when the length field of a UDP packet with a checksum is
  above 65527, \<open>ip_in\<close> never returns, for the index of the checksum loop wraps below its bound.
  The 28 bytes of the two headers are all such a packet needs.
\<close>

theorem long_udp_length_hangs_ip_in:
  assumes "header_ok (mem st) p dst_addr" and "mem st (p + 9) = IP_PROTO_UDP"
    and "net16 (p + 26) (mem st) \<noteq> 0" and "65527 < unat (net16 (p + 24) (mem st))"
  shows "ip_in be net_send icb ucb netif dst_addr p len st = None"
  unfolding ip_in_accepts [OF assms(1)] using assms(2-4)
  by (simp add: ip_deliver_def udp_in_def Let_def udpchksum_diverges)

text \<open>What \<open>udp_out\<close> leaves in the memory before it forms the checksum.\<close>

definition udp_filled :: "netif_config_s \<Rightarrow> byte list \<Rightarrow> u16 \<Rightarrow> u16 \<Rightarrow> u32 \<Rightarrow> u16 \<Rightarrow> memory \<Rightarrow> memory" where
  "udp_filled netif dst_addr src_port dst_port packet len m =
     (let m = store16 False (packet + UDP_SRC_PORT) (htons False src_port) m;
          m = store16 False (packet + UDP_DST_PORT) (htons False dst_port) m;
          m = store16 False (packet + UDP_LEN) (htons False len) m;
          m = store16 False (packet + UDP_CHKSUM) (htons False 0) m;
          m = store_bytes (packet + IP_SRC_ADDR) (if_ip netif) m
      in store_bytes (packet + IP_DST_ADDR) dst_addr m)"

definition udp_sent :: "netif_config_s \<Rightarrow> byte list \<Rightarrow> u16 \<Rightarrow> u16 \<Rightarrow> u32 \<Rightarrow> u16 \<Rightarrow> memory \<Rightarrow> memory" where
  "udp_sent netif dst_addr src_port dst_port packet len m =
     (let m = udp_filled netif dst_addr src_port dst_port packet len m;
          c = the (udpchksum False m packet len)
      in ip_sent netif dst_addr 17 packet (len + 20)
           (m(packet + UDP_CHKSUM := ucast (drop_bit 8 c), packet + UDP_CHKSUM + 1 := ucast c)))"

lemma udp_out_sends:
  "udp_out be net_send netif dst_addr src_port dst_port packet len st =
   (if unat len \<le> 65527
    then net_send netif packet (len + 20) (set_mem (udp_sent netif dst_addr src_port dst_port packet len) st)
    else None)"
proof (cases "unat len \<le> 65527")
  case True
  then obtain c where c: "\<And>be. udpchksum be (udp_filled netif dst_addr src_port dst_port packet len (mem st)) packet len = Some c"
    using udpchksum_value by blast
  then show ?thesis using True
    unfolding udp_out_def set_mem_def Let_def udp_filled_def udp_sent_def ip_out_sends store16_htons by simp
next
  case False
  then show ?thesis by (simp add: udp_out_def Let_def udpchksum_diverges)
qed

lemma not_below: "unat j < k \<Longrightarrow> k \<le> unat (x - p) \<Longrightarrow> x \<noteq> p + (j :: u32)"
  by (metis add_diff_cancel_left' not_le)

lemma udp_filled_other:
  assumes "length (if_ip netif) = 4" and "length dst_addr = 4" and "28 \<le> unat (x - p)"
  shows "udp_filled netif dst_addr src_port dst_port p len m x = m x"
proof -
  from assms obtain a b c d a' b' c' d' where l: "if_ip netif = [a, b, c, d]" "dst_addr = [a', b', c', d']"
    by (metis length_4E)
  note ne = not_below [OF _ assms(3), of 12] not_below [OF _ assms(3), of 13] not_below [OF _ assms(3), of 14]
    not_below [OF _ assms(3), of 15] not_below [OF _ assms(3), of 16] not_below [OF _ assms(3), of 17]
    not_below [OF _ assms(3), of 18] not_below [OF _ assms(3), of 19] not_below [OF _ assms(3), of 20]
    not_below [OF _ assms(3), of 21] not_below [OF _ assms(3), of 22] not_below [OF _ assms(3), of 23]
    not_below [OF _ assms(3), of 24] not_below [OF _ assms(3), of 25] not_below [OF _ assms(3), of 26]
    not_below [OF _ assms(3), of 27]
  then show ?thesis by (simp add: udp_filled_def Let_def l add.assoc)
qed

lemma udp_sent_other:
  assumes "length (if_ip netif) = 4" and "length dst_addr = 4" and "28 \<le> unat (x - p)"
  shows "udp_sent netif dst_addr src_port dst_port p len m x = m x"
proof -
  have "20 \<le> unat (x - p)" using assms(3) by simp
  moreover have "x \<noteq> p + 26" "x \<noteq> p + 27" using not_below [OF _ assms(3)] by simp_all
  ultimately show ?thesis
    using assms by (simp add: udp_sent_def Let_def ip_sent_other udp_filled_other add.assoc)
qed

text \<open>
  C40. The echo service sends what lies behind the packet: for a packet without checksum to
  port 7, \<open>udp_in\<close> hands the link a packet as long as the length field says, up to 65527 bytes
  of UDP, whatever arrived; everything behind the two headers is the memory as it is.
\<close>

theorem udp_echo_sends_memory:
  assumes "net16 (p + 26) (mem st) = 0" and "net16 (p + 22) (mem st) = 7"
    and "unat (net16 (p + 24) (mem st)) \<le> 65527" and "length (if_ip netif) = 4"
  shows "\<exists>m. udp_in be net_send ucb netif p st =
       map_option (\<lambda>(_, st'). (uint (net16 (p + 24) (mem st)), st'))
         (net_send netif p (net16 (p + 24) (mem st) + 20) (st\<lparr>mem := m\<rparr>)) \<and>
     (\<forall>x. 28 \<le> unat (x - p) \<longrightarrow> m x = mem st x)"
proof -
  let ?m = "udp_sent netif (load_bytes 4 (p + 12) (mem st)) 7 (net16 (p + 20) (mem st)) p (net16 (p + 24) (mem st)) (mem st)"
  have "udp_in be net_send ucb netif p st =
      map_option (\<lambda>(_, st'). (uint (net16 (p + 24) (mem st)), st'))
        (net_send netif p (net16 (p + 24) (mem st) + 20) (st\<lparr>mem := ?m\<rparr>))"
    using assms by (simp add: udp_in_def udp_deliver_def Let_def udp_out_sends set_mem_def)
  moreover have "\<forall>x. 28 \<le> unat (x - p) \<longrightarrow> ?m x = mem st x"
    using assms(4) by (intro allI impI udp_sent_other) (simp_all add: load_bytes_def)
  ultimately show ?thesis by blast
qed

section \<open>From one end to the other\<close>

lemma udp_filled_fields:
  assumes "length (if_ip netif) = 4" and "length dst_addr = 4"
    and f_def: "f = udp_filled netif dst_addr src_port dst_port p len m"
  shows "net16 (p + 20) f = src_port" and "net16 (p + 22) f = dst_port" and "net16 (p + 24) f = len"
    and "f (p + 26) = 0" and "f (p + 27) = 0"
    and "load_bytes 4 (p + 12) f = if_ip netif" and "load_bytes 4 (p + 16) f = dst_addr"
proof -
  from assms obtain a b c d a' b' c' d' where l: "if_ip netif = [a, b, c, d]" "dst_addr = [a', b', c', d']"
    by (metis length_4E)
  have w: "word_cat (ucast (drop_bit 8 v) :: byte) (ucast v :: byte) = (v :: u16)" for v
    using net16_stored [of 0 m v] by (simp add: net16_def)
  show "net16 (p + 20) f = src_port" and "net16 (p + 22) f = dst_port" and "net16 (p + 24) f = len"
    and "f (p + 26) = 0" and "f (p + 27) = 0"
    and "load_bytes 4 (p + 12) f = if_ip netif" and "load_bytes 4 (p + 16) f = dst_addr"
    by (simp_all add: f_def udp_filled_def Let_def l add.assoc net16_def w)
qed

lemma ip_sent_fields:
  assumes "length (if_ip netif) = 4" and "length dst_addr = 4"
  shows "load_bytes 4 (p + 12) (ip_sent netif dst_addr proto p len m) = if_ip netif"
    and "0 \<le> proto \<Longrightarrow> ip_sent netif dst_addr proto p len m (p + 9) = word_of_int proto AND 0xFF"
    and "net16 (p + 2) (ip_sent netif dst_addr proto p len m) = len"
proof -
  from assms obtain a b c d a' b' c' d' where l: "if_ip netif = [a, b, c, d]" "dst_addr = [a', b', c', d']"
    by (metis length_4E)
  have w: "word_cat (ucast (drop_bit 8 len) :: byte) (ucast len :: byte) = len"
    using net16_stored [of 0 m len] by (simp add: net16_def)
  show "net16 (p + 2) (ip_sent netif dst_addr proto p len m) = len"
    by (simp add: ip_sent_def ip_header_def Let_def l add.assoc net16_def w)
  show "load_bytes 4 (p + 12) (ip_sent netif dst_addr proto p len m) = if_ip netif"
    "0 \<le> proto \<Longrightarrow> ip_sent netif dst_addr proto p len m (p + 9) = word_of_int proto AND 0xFF"
    by (simp_all add: ip_sent_def ip_header_def Let_def l add.assoc)
qed

text \<open>A memory that has the addresses already is changed by \<open>ip_out\<close> only before them.\<close>

lemma ip_sent_keeps_addresses:
  assumes l: "length (if_ip netif) = 4" "length dst_addr = 4" and "12 \<le> unat (x - p)"
    and g: "load_bytes 4 (p + 12) g = if_ip netif" "load_bytes 4 (p + 16) g = dst_addr"
  shows "ip_sent netif dst_addr proto p len g x = g x"
proof (cases "20 \<le> unat (x - p)")
  case True
  then show ?thesis by (rule ip_sent_other [OF l])
next
  case False
  define s where "s = ip_sent netif dst_addr proto p len g"
  have s: "load_bytes 4 (p + 12) s = load_bytes 4 (p + 12) g" "load_bytes 4 (p + 16) s = load_bytes 4 (p + 16) g"
    using ip_sent_fields(1) [OF l] ip_sent_ok [OF l] g by (simp_all only: s_def header_ok_def)
  define j where "j = unat (x - p)"
  have "x = p + of_nat j" by (simp add: j_def)
  moreover have "j = 12 \<or> j = 13 \<or> j = 14 \<or> j = 15 \<or> j = 16 \<or> j = 17 \<or> j = 18 \<or> j = 19"
    using assms(3) False unfolding j_def [symmetric] by arith
  ultimately show ?thesis using s unfolding s_def [symmetric] by (elim disjE; simp add: add.assoc)
qed

text \<open>
  A UDP packet as a receiver wants it: the header right, the length in its range, and the
  checksum that of the packet with the field taken as 0.
\<close>

definition udp_ok :: "memory \<Rightarrow> u32 \<Rightarrow> byte list \<Rightarrow> u16 \<Rightarrow> bool" where
  "udp_ok m p dst_addr len \<longleftrightarrow> header_ok m p dst_addr \<and> m (p + 9) = IP_PROTO_UDP \<and>
     net16 (p + 24) m = len \<and> unat len \<le> 65527 \<and>
     udpchksum False (m(p + 26 := 0, p + 27 := 0)) p len = Some (net16 (p + 26) m)"

lemma ip_in_udp_ok:
  assumes ok: "udp_ok (mem st) p dst_addr len"
  shows "ip_in be net_send icb ucb netif dst_addr p n st =
     udp_deliver be net_send ucb netif p len (st\<lparr>mem := (mem st)(p + 26 := 0, p + 27 := 0)\<rparr>)"
proof -
  define c where "c = net16 (p + 26) (mem st)"
  have a: "p + 26 + 1 = p + 27" by (simp add: add.assoc)
  have l: "unat len \<le> 65527" using ok by (simp add: udp_ok_def)
  have ck: "udpchksum be ((mem st)(p + 26 := 0, p + 27 := 0)) p len = Some c"
    using ok udpchksum_value [OF l] by (simp add: udp_ok_def c_def)
  have z: "st\<lparr>mem := (mem st)(p + 26 := 0, p + 27 := 0)\<rparr> = st" if "c = 0"
    using net16_restored [of "p + 26" "mem st" 0] that unfolding a c_def by simp
  have "ip_in be net_send icb ucb netif dst_addr p n st = udp_in be net_send ucb netif p st"
    using ok ip_in_accepts [of st p dst_addr] by (simp add: udp_ok_def ip_deliver_def Let_def)
  also have "\<dots> = udp_deliver be net_send ucb netif p len (st\<lparr>mem := (mem st)(p + 26 := 0, p + 27 := 0)\<rparr>)"
    using ok ck z by (auto simp: udp_ok_def udp_in_def Let_def set_mem_def a c_def [symmetric])
  finally show ?thesis .
qed

lemma udp_sent_ok:
  assumes l: "length (if_ip netif) = 4" "length dst_addr = 4" and len: "unat len \<le> 65527"
    and m_def: "m = udp_sent netif dst_addr src_port dst_port p len m0"
  shows "udp_ok m p dst_addr len" and "net16 (p + 20) m = src_port" and "net16 (p + 22) m = dst_port"
    and "load_bytes 4 (p + 12) m = if_ip netif" and "net16 (p + 2) m = len + 20"
proof -
  define f where "f = udp_filled netif dst_addr src_port dst_port p len m0"
  note ff = udp_filled_fields [OF l f_def]
  define c where "c = fold_sum (of_nat (17 + unat len + sum_list (packet_words f (p + 12) (unat len + 8))))"
  define g where "g = f(p + 26 := ucast (drop_bit 8 c), p + 27 := ucast c)"
  have a: "p + 26 + 1 = p + 27" by (simp add: add.assoc)
  have m: "m = ip_sent netif dst_addr 17 p (len + 20) g"
    using udpchksum_value [OF len, of False f p] by (simp add: m_def udp_sent_def Let_def f_def [symmetric] g_def c_def a)
  have keep: "m x = g x" if "12 \<le> unat (x - p)" for x
    unfolding m by (rule ip_sent_keeps_addresses [OF l that]) (use ff in \<open>simp_all add: g_def add.assoc\<close>)
  have at: "m (p + j) = g (p + j)" if "12 \<le> unat j" for j by (rule keep) (use that in simp)
  have n16: "net16 (p + j) m = net16 (p + j) g" if "12 \<le> unat j" "12 \<le> unat (j + 1)" for j
    using at [OF that(1)] at [OF that(2)] by (simp add: net16_def add.assoc)
  have ck: "net16 (p + 26) m = c"
    using n16 [of 26] net16_stored [of "p + 26" f c] unfolding a g_def by simp
  show ports: "net16 (p + 20) m = src_port" "net16 (p + 22) m = dst_port"
    using n16 [of 20] n16 [of 22] ff by (simp_all add: g_def net16_def add.assoc)
  have lf: "net16 (p + 24) m = len" using n16 [of 24] ff by (simp add: g_def net16_def add.assoc)
  define z where "z = m(p + 26 := 0, p + 27 := 0)"
  have zf: "z x = f x" if "12 \<le> unat (x - p)" for x
    using keep [OF that] ff(4,5) by (auto simp: z_def g_def)
  have "packet_words z (p + 12) (unat len + 8) = packet_words f (p + 12) (unat len + 8)"
  proof (rule packet_words_cong, rule zf)
    fix i assume i: "i < unat len + 8"
    have "p + 12 + of_nat i - p = of_nat (12 + i)" by simp
    then show "12 \<le> unat (p + 12 + of_nat i - p)" using i len by (simp only: unat_of_nat) simp
  qed
  then have zc: "udpchksum False z p len = Some c" using udpchksum_value [OF len, of False z p] by (simp add: c_def)
  have "header_ok m p dst_addr" unfolding m by (rule ip_sent_ok [OF l])
  moreover have "m (p + 9) = 17" using ip_sent_fields(2) [OF l, of 17] by (simp add: m)
  ultimately show "udp_ok m p dst_addr len" using len zc ck lf by (simp add: udp_ok_def z_def)
  show "load_bytes 4 (p + 12) m = if_ip netif" unfolding m by (rule ip_sent_fields(1) [OF l])
  show "net16 (p + 2) m = len + 20" unfolding m by (rule ip_sent_fields(3) [OF l])
qed

text \<open>
  What \<open>udp_out\<close> sends reaches the port it names: when the packet arrives unchanged at the
  interface with its destination address, the checks of \<open>ip_in\<close> and the checksum of \<open>udp_in\<close>
  pass, and the packet is delivered with the ports, the length and the data of the sender;
  the receiver sees the checksum field as 0.
\<close>

theorem udp_out_arrives:
  assumes l: "length (if_ip netif) = 4" "length dst_addr = 4" and len: "unat len \<le> 65527"
  shows "\<exists>m. udp_out be net_send netif dst_addr src_port dst_port p len st = net_send netif p (len + 20) (st\<lparr>mem := m\<rparr>) \<and>
     (\<forall>be' net_send' icb ucb netif' n w. ip_in be' net_send' icb ucb netif' dst_addr p n \<lparr>mem = m, link = w\<rparr> =
        udp_deliver be' net_send' ucb netif' p len \<lparr>mem = m(p + 26 := 0, p + 27 := 0), link = w\<rparr>) \<and>
     net16 (p + 20) m = src_port \<and> net16 (p + 22) m = dst_port \<and> load_bytes 4 (p + 12) m = if_ip netif \<and>
     (\<forall>x. 28 \<le> unat (x - p) \<longrightarrow> m x = mem st x)"
proof -
  define m where "m = udp_sent netif dst_addr src_port dst_port p len (mem st)"
  note ok = udp_sent_ok [OF l len m_def]
  show ?thesis
  proof (intro exI [of _ m] conjI allI impI)
    fix be' net_send' icb ucb netif' n w
    show "ip_in be' net_send' icb ucb netif' dst_addr p n \<lparr>mem = m, link = w\<rparr> =
        udp_deliver be' net_send' ucb netif' p len \<lparr>mem = m(p + 26 := 0, p + 27 := 0), link = w\<rparr>"
      using ip_in_udp_ok [of "\<lparr>mem = m, link = w\<rparr>"] ok(1) by simp
  next
    show "udp_out be net_send netif dst_addr src_port dst_port p len st = net_send netif p (len + 20) (st\<lparr>mem := m\<rparr>)"
      using len by (simp add: udp_out_sends set_mem_def m_def)
    show "m x = mem st x" if "28 \<le> unat (x - p)" for x
      unfolding m_def by (rule udp_sent_other [OF l that])
  qed (fact ok(2-4))+
qed

text \<open>A packet that is copied elsewhere keeps its meaning.\<close>

lemma udp_ok_moved:
  assumes ok: "udp_ok m p dst_addr len" and len: "8 \<le> unat len"
    and same: "\<And>i. i < unat len + 20 \<Longrightarrow> m' (q + of_nat i) = m (p + of_nat i)"
  shows "udp_ok m' q dst_addr len"
proof -
  have l: "unat len \<le> 65527" using ok by (simp add: udp_ok_def)
  note b = same [of 0] same [of 1] same [of 2] same [of 3] same [of 4] same [of 5] same [of 6] same [of 7]
    same [of 8] same [of 9] same [of 10] same [of 11] same [of 12] same [of 13] same [of 14] same [of 15]
    same [of 16] same [of 17] same [of 18] same [of 19] same [of 20] same [of 21] same [of 22] same [of 23]
    same [of 24] same [of 25] same [of 26] same [of 27]
  have "header_sum m' q = header_sum m p" using b len by (simp add: header_sum_def net16_def add.assoc)
  then have h: "header_ok m' q dst_addr" using ok b len
    by (simp add: udp_ok_def header_ok_def header_checksum_def net16_def add.assoc)
  have n: "m' (q + 9) = IP_PROTO_UDP" "net16 (q + 24) m' = len" "net16 (q + 26) m' = net16 (p + 26) m"
    using ok b len by (simp_all add: udp_ok_def net16_def add.assoc)
  define z where "z = m(p + 26 := 0, p + 27 := 0)"
  define z' where "z' = m'(q + 26 := 0, q + 27 := 0)"
  have "packet_words z' (q + 12) (unat len + 8) = packet_words z (p + 12) (unat len + 8)"
  proof (rule packet_words_cong)
    fix i assume i: "i < unat len + 8"
    have e: "q + 12 + of_nat i = q + of_nat (12 + i)" "p + 12 + of_nat i = p + of_nat (12 + i)" by simp_all
    show "z' (q + 12 + of_nat i) = z (p + 12 + of_nat i)"
      using same [of "12 + i"] i unfolding e by (simp add: z_def z'_def del: of_nat_add)
  qed
  then have "udpchksum False z' q len = udpchksum False z p len" by (simp add: udpchksum_value [OF l])
  with h n ok show ?thesis by (simp add: udp_ok_def z_def z'_def)
qed

text \<open>
  The echo request: the pattern of 16 bytes goes 784 bytes behind the packet, outside every
  packet; the 16 bytes that are sent behind the header are what was there before.
\<close>

theorem echo_request_writes_behind:
  assumes "length (if_ip netif) = 4" and "length dst_addr = 4"
  shows "\<exists>m. icmp_echo_request be net_send netif dst_addr p st =
       map_option (\<lambda>(val, st). (uint (word_of_int val :: u16), st)) (net_send netif p 44 (st\<lparr>mem := m\<rparr>)) \<and>
     (\<forall>i < 16. m (p + 784 + of_nat i) = 0x55 \<and> m (p + 28 + of_nat i) = mem st (p + 28 + of_nat i))"
proof -
  define m0 where "m0 = (let m = mem st;
      m = m(p + 20 := 8); m = m(p + 21 := 0); m = store16 be (p + 22) (htons be 0) m;
      m = store16 be (p + 24) (htons be 0x9669) m; m = store16 be (p + 26) (htons be 1) m in m)"
  define m1 where "m1 = ucx_memset (p + 28 * 28) 0x55 16 m0"
  obtain c where c: "checksum be m1 (p + 20) 24 = Some c" using checksum_sum [of 24 be m1 "p + 20"] by auto
  define m2 where "m2 = m1(p + 22 := ucast (drop_bit 8 c), p + 22 + 1 := ucast c)"
  define m where "m = ip_sent netif dst_addr 1 p 44 m2"
  have "icmp_echo_request be net_send netif dst_addr p st =
      map_option (\<lambda>(val, st). (uint (word_of_int val :: u16), st)) (net_send netif p 44 (st\<lparr>mem := m\<rparr>))"
    using c unfolding icmp_echo_request_def set_mem_def Let_def m1_def m0_def m2_def m_def
    by (simp add: ip_out_sends set_mem_def)
  moreover have "m (p + 784 + of_nat i) = 0x55 \<and> m (p + 28 + of_nat i) = mem st (p + 28 + of_nat i)" if i: "i < 16" for i
  proof -
    have u: "unat (of_nat k :: u32) = k" if "k < 2 ^ 32" for k using that by (simp add: unat_of_nat)
    have far: "m (p + of_nat k) = m1 (p + of_nat k)" if "24 \<le> k" "k < 2 ^ 32" for k
    proof -
      have "20 \<le> unat (p + of_nat k - p)" using u [of k] that by simp
      then have "m (p + of_nat k) = m2 (p + of_nat k)" unfolding m_def by (rule ip_sent_other [OF assms])
      moreover have "p + of_nat k \<noteq> p + j" if "unat j < 24" for j using u [of k] that \<open>24 \<le> k\<close> \<open>k < 2 ^ 32\<close> by auto
      from this [of 22] this [of 23] have "m2 (p + of_nat k) = m1 (p + of_nat k)" by (simp add: m2_def add.assoc)
      ultimately show ?thesis by simp
    qed
    have e: "p + 784 + of_nat i = p + of_nat (784 + i)" "p + 28 + of_nat i = p + of_nat (28 + i)" by simp_all
    have "m1 (p + of_nat (784 + i)) = 0x55"
    proof -
      have "p + of_nat (784 + i) - (p + 28 * 28) = of_nat i" by simp
      then show ?thesis using i u [of i] by (simp only: m1_def memset_fills) simp
    qed
    moreover have "m1 (p + of_nat (28 + i)) = mem st (p + of_nat (28 + i))"
    proof -
      have "p + of_nat (28 + i) - (p + 28 * 28) = of_nat (28 + i) - 784" by simp
      moreover have "unat (of_nat (28 + i) - 784 :: u32) = 2 ^ 32 - (784 - (28 + i))"
        using i u [of "28 + i"] unat_diff [of "of_nat (28 + i)" 784] by (simp del: of_nat_add add: word_le_nat_alt)
      ultimately have "m1 (p + of_nat (28 + i)) = m0 (p + of_nat (28 + i))"
        using i by (simp only: m1_def memset_fills) simp
      moreover have "p + of_nat (28 + i) \<noteq> p + j" if "unat j < 28" for j using u [of "28 + i"] that i by auto
      from this [of 20] this [of 21] this [of 22] this [of 23] this [of 24] this [of 25] this [of 26] this [of 27]
      have "m0 (p + of_nat (28 + i)) = mem st (p + of_nat (28 + i))"
        by (simp add: m0_def Let_def add.assoc del: of_nat_add)
      ultimately show ?thesis by simp
    qed
    ultimately show ?thesis using far [of "784 + i"] far [of "28 + i"] i unfolding e by simp
  qed
  ultimately show ?thesis by blast
qed

section \<open>Examples\<close>

definition sample_if :: netif_config_s where
  "sample_if = \<lparr>framelen = 594, if_mac = [0x00, 0x11, 0x22, 0x33, 0x44, 0x55], if_ip = [10, 0, 0, 1],
     if_netmask = [255, 255, 255, 0], if_gateway = [10, 0, 0, 254]\<rparr>"

text \<open>A link that keeps the packets it was given.\<close>

definition sample_send :: "byte list list net_send" where
  "sample_send netif p len st = Some (int (unat len), st\<lparr>link := link st @ [load_bytes (unat len) p (mem st)]\<rparr>)"

definition sample_packet :: memory where
  "sample_packet = ip_sent sample_if [10, 0, 0, 2] 17 100 28 (\<lambda>_. 0xFF)"

lemma sample_ip [simp]: "if_ip sample_if = [10, 0, 0, 1]"
  by (simp add: sample_if_def)

lemma sample_header_ok: "header_ok sample_packet 100 [10, 0, 0, 2]"
  unfolding sample_packet_def by (rule ip_sent_ok) simp_all

lemma sample_fields: "sample_packet 109 = 17" "sample_packet 124 = 0xFF" "sample_packet 125 = 0xFF"
    "sample_packet 126 = 0xFF" "sample_packet 127 = 0xFF"
proof -
  have "sample_packet (100 + 9) = word_of_int 17 AND 0xFF"
    unfolding sample_packet_def by (rule ip_sent_fields(2)) simp_all
  then show "sample_packet 109 = 17" by simp
  have "sample_packet x = 0xFF" if "20 \<le> unat (x - 100)" for x
    unfolding sample_packet_def by (rule ip_sent_other) (use that in simp_all)
  from this [of 124] this [of 125] this [of 126] this [of 127]
  show "sample_packet 124 = 0xFF" "sample_packet 125 = 0xFF" "sample_packet 126 = 0xFF" "sample_packet 127 = 0xFF"
    by simp_all
qed

theorem ip_in_rejects_changed_byte_witness:
  "\<exists>st. ip_in False sample_send None None sample_if [10, 0, 0, 2] 100 28
     \<lparr>mem = sample_packet(112 := sample_packet 112 + 1), link = []\<rparr> = Some (-1, st)"
  using ip_in_rejects_changed_byte [OF sample_header_ok, of 12 "sample_packet 112 + 1" False sample_send None None
      sample_if "[10, 0, 0, 2]" 28 "[]"] by simp

theorem long_udp_length_hangs_ip_in_witness:
  "ip_in False sample_send None None sample_if [10, 0, 0, 2] 100 28 \<lparr>mem = sample_packet, link = []\<rparr> = None"
proof (rule long_udp_length_hangs_ip_in)
  show "header_ok (mem \<lparr>mem = sample_packet, link = []\<rparr>) 100 [10, 0, 0, 2]" using sample_header_ok by simp
qed (simp_all add: sample_fields net16_def word_cat_eq)

theorem echo_reply_valid_witness:
  "\<exists>st. icmp_echo_reply False sample_send sample_if 100 24
      \<lparr>mem = (\<lambda>_. 0)(120 := 8, 122 := 0xF7, 123 := 0xFF), link = []\<rparr> = Some (24, st) \<and>
     mem st 120 = 0 \<and> checksum True (mem st) 120 4 = Some 0"
proof -
  define m :: memory where "m = (\<lambda>_. 0)(120 := 8, 122 := 0xF7, 123 := 0xFF)"
  have "sum_list (packet_words m 120 4) = 65535"
    by (simp add: packet_words_def upt_rec word_at_def unat_net16 m_def)
  then have v: "checksum False m (100 + 20) (int 4) = Some 0" "checksum True m (100 + 20) (int 4) = Some 0"
    using checksum_zero [of 4 _ m 120] by simp_all
  obtain m' where "icmp_echo_reply True sample_send sample_if 100 24 \<lparr>mem = m, link = []\<rparr> =
       map_option (\<lambda>(val, st). (uint (word_of_int val :: u16), st)) (sample_send sample_if 100 24 \<lparr>mem = m', link = []\<rparr>)"
    "m' (100 + 20) = 0" "checksum True m' (100 + 20) (int 4) = Some 0"
    using echo_reply_valid [where st = "\<lparr>mem = m, link = []\<rparr>" and p = 100 and n = 4 and be = True
        and netif = sample_if and net_send = sample_send and len = 24] v by (auto simp: m_def)
  moreover have "icmp_echo_reply False sample_send sample_if 100 24 \<lparr>mem = m, link = []\<rparr> =
      icmp_echo_reply True sample_send sample_if 100 24 \<lparr>mem = m, link = []\<rparr>"
    unfolding icmp_echo_reply_def Let_def ntohs_load16 store16_htons ip_out_sends ..
  ultimately show ?thesis by (simp add: sample_send_def m_def [symmetric])
qed

definition echo_memory :: memory where
  "echo_memory = (\<lambda>_. 0x2A)(122 := 0, 123 := 7, 124 := 3, 125 := 0xE8, 126 := 0, 127 := 0)"

theorem udp_echo_sends_memory_witness:
  "\<exists>st. udp_in False sample_send None sample_if 100 \<lparr>mem = echo_memory, link = []\<rparr> = Some (1000, st) \<and>
     length (link st ! 0) = 1020 \<and> link st ! 0 ! 1019 = 0x2A"
proof -
  have f: "net16 (100 + 26) echo_memory = 0" "net16 (100 + 22) echo_memory = 7" "net16 (100 + 24) echo_memory = 1000"
    by (simp_all add: echo_memory_def net16_def word_cat_eq)
  obtain m where m: "udp_in False sample_send None sample_if 100 \<lparr>mem = echo_memory, link = []\<rparr> =
       map_option (\<lambda>(_, st'). (1000, st')) (sample_send sample_if 100 1020 \<lparr>mem = m, link = []\<rparr>)"
    "\<forall>x. 28 \<le> unat (x - 100) \<longrightarrow> m x = echo_memory x"
    using udp_echo_sends_memory [where st = "\<lparr>mem = echo_memory, link = []\<rparr>" and p = 100 and be = False
        and netif = sample_if and net_send = sample_send and ucb = None] f by auto
  have "m 1119 = 0x2A" using m(2) [rule_format, of 1119] by (simp add: echo_memory_def)
  with m(1) show ?thesis by (simp add: sample_send_def load_bytes_def)
qed

end
