(* ===== verification/Net_Link.thy ===== *)
theory Net_Link
  imports Net_Packet C_Strings
begin

text \<open>
  The link layer of \<open>net/inet\<close>: the address cache and the frames of \<open>arp.c\<close>, the Ethernet
  interface of \<open>eth_netif.c\<close>, the serial line of \<open>ser_netif.c\<close>, and \<open>bootp.c\<close>. The packet lies 14
  bytes behind the start of its frame. The driver of a network device is a pair of
  arguments, \<open>dev_write\<close> and \<open>dev_read\<close>, on its state \<open>'d\<close>; a serial line is the characters that
  can be read and those that were written, and a read that has to wait for a character is
  \<open>None\<close>. Local arrays keep the content of the stack until they are written: \<open>garbage\<close>.

  The theory shows that the cache answers with the address it was told last, that a frame
  crosses the serial line unchanged, up to a UDP packet that crosses the whole stack, and
  that a frame of 594 bytes makes the receiver lose every frame behind it.
\<close>

section \<open>The address cache\<close>

record arp_entry_s =
  arp_ip :: "byte list"
  arp_mac :: "byte list"

record 'd link_state =
  arp_cache :: "arp_entry_s list"
  arp_index :: nat
  dev :: 'd

abbreviation "ARP_CACHE_SIZE \<equiv> (16 :: nat)"

definition arp_start :: "'d \<Rightarrow> 'd link_state" where
  "arp_start d = \<lparr>arp_cache = replicate ARP_CACHE_SIZE \<lparr>arp_ip = replicate 4 0, arp_mac = replicate 6 0\<rparr>,
     arp_index = 0, dev = d\<rparr>"

definition arp_find :: "byte list \<Rightarrow> 'd link_state \<Rightarrow> int" where
  "arp_find ip l = index_from 0 (\<lambda>e. arp_ip e = ip) (arp_cache l)"

definition arp_update :: "byte list \<Rightarrow> byte list \<Rightarrow> 'd link_state \<Rightarrow> int \<times> 'd link_state" where
  "arp_update ip mac l =
     (let i = arp_find ip l
      in if i \<noteq> -1 then (1, l\<lparr>arp_cache := (arp_cache l)[nat i := (arp_cache l ! nat i)\<lparr>arp_mac := mac\<rparr>]\<rparr>)
         else (0, l\<lparr>arp_cache := (arp_cache l)[arp_index l := \<lparr>arp_ip = ip, arp_mac = mac\<rparr>],
                    arp_index := (arp_index l + 1) mod ARP_CACHE_SIZE\<rparr>))"

definition arp_check :: "byte list \<Rightarrow> 'd link_state \<Rightarrow> byte list option" where
  "arp_check ip l =
     (let i = arp_find ip l in if i \<noteq> -1 then Some (arp_mac (arp_cache l ! nat i)) else None)"

section \<open>Frames of the address resolution\<close>

text \<open>The offsets of \<open>eth_s\<close>, and of \<open>arp_s\<close> and \<open>ip_s\<close> behind it.\<close>

abbreviation "FRAME_ARP \<equiv> (0x0806 :: u16)"
abbreviation "FRAME_IP \<equiv> (0x0800 :: u16)"

definition arp_reply :: "bool \<Rightarrow> netif_config_s \<Rightarrow> u32 \<Rightarrow> memory \<Rightarrow> memory" where
  "arp_reply be netif f m =
     (let mac = load_bytes 6 (f + 6) m;
          m = store_bytes (f + 6) (if_mac netif) m;
          m = store_bytes f mac m;
          m = store16 be (f + 12) (htons be FRAME_ARP) m;
          m = store16 be (f + 14) (htons be 1) m;
          m = store16 be (f + 16) (htons be FRAME_IP) m;
          m = store16 be (f + 18) (htons be 0x0604) m;
          m = store16 be (f + 20) (htons be 2) m;
          ip = load_bytes 4 (f + 28) m;
          m = store_bytes (f + 22) (if_mac netif) m;
          m = store_bytes (f + 28) (if_ip netif) m;
          m = store_bytes (f + 32) mac m
      in store_bytes (f + 38) ip m)"

definition arp_request :: "bool \<Rightarrow> netif_config_s \<Rightarrow> byte list \<Rightarrow> u32 \<Rightarrow> memory \<Rightarrow> memory" where
  "arp_request be netif ip f m =
     (let m = store_bytes (f + 6) (if_mac netif) m;
          m = store_bytes f (replicate 6 0xFF) m;
          m = store16 be (f + 12) (htons be FRAME_ARP) m;
          m = store16 be (f + 14) (htons be 1) m;
          m = store16 be (f + 16) (htons be FRAME_IP) m;
          m = store16 be (f + 18) (htons be 0x0604) m;
          m = store16 be (f + 20) (htons be 1) m;
          m = store_bytes (f + 22) (if_mac netif) m;
          m = store_bytes (f + 28) (if_ip netif) m;
          m = store_bytes (f + 32) (replicate 6 0) m
      in store_bytes (f + 38) ip m)"

section \<open>Sending\<close>

type_synonym 'd frame_writer = "u32 \<Rightarrow> nat \<Rightarrow> 'd link_state net_state \<Rightarrow> 'd link_state net_state"

text \<open>
  The hardware address of a destination; \<open>None\<close> asks for it. An interface without an address
  sends to the address the stack happens to hold.
\<close>

definition dest_mac :: "byte list \<Rightarrow> netif_config_s \<Rightarrow> byte list \<Rightarrow> 'd link_state \<Rightarrow> byte list option" where
  "dest_mac garbage netif ip l =
     (if ip_addr_isany ip \<or> ip_addr_isbroadcast ip (if_netmask netif) then Some (replicate 6 0xFF)
      else if ip_addr_ismulticast ip then Some [0x01, 0x00, 0x5E, ip ! 1 AND 0x7F, ip ! 2, ip ! 3]
      else if if_ip netif = [0, 0, 0, 0] then Some garbage
      else arp_check ip l)"

text \<open>The body both interfaces share, with the routine that writes the frame.\<close>

definition frame_send :: "bool \<Rightarrow> byte list \<Rightarrow> 'd frame_writer \<Rightarrow> 'd link_state net_send" where
  "frame_send be garbage write netif packet len st =
     (let f = packet - 14; ip = load_bytes 4 (f + 30) (mem st)
      in case dest_mac garbage netif ip (link st) of
           Some mac \<Rightarrow>
             let st = set_mem (store_bytes (f + 6) (if_mac netif)) st;
                 st = set_mem (store_bytes f mac) st;
                 st = set_mem (store16 be (f + 12) (htons be FRAME_IP)) st
             in Some (int (unat len) + 14, write f (unat len + 14) st)
         | None \<Rightarrow> Some (0, write f (42 + 14) (set_mem (arp_request be netif ip f) st)))"

definition eth_send :: "(byte list \<Rightarrow> 'd \<Rightarrow> 'd) \<Rightarrow> bool \<Rightarrow> byte list \<Rightarrow> 'd link_state net_send" where
  "eth_send dev_write be garbage =
     frame_send be garbage (\<lambda>f len st. st\<lparr>link := (link st)\<lparr>dev := dev_write (load_bytes len f (mem st)) (dev (link st))\<rparr>\<rparr>)"

section \<open>Receiving\<close>

text \<open>The network mask of the class of an address.\<close>

definition class_mask :: "byte \<Rightarrow> byte list" where
  "class_mask b = (if 1 \<le> b \<and> b \<le> 127 then [255, 0, 0, 0]
     else if 128 \<le> b \<and> b \<le> 191 then [255, 255, 0, 0]
     else if 192 \<le> b \<and> b \<le> 223 then [255, 255, 255, 0] else [0, 0, 0, 0])"

text \<open>What both interfaces do with a frame of \<open>ll_len\<close> bytes, and the length they return.\<close>

definition frame_recv :: "bool \<Rightarrow> 'd frame_writer \<Rightarrow> netif_config_s \<Rightarrow> u32 \<Rightarrow> int \<Rightarrow> 'd link_state net_state \<Rightarrow>
    int \<times> netif_config_s \<times> 'd link_state net_state" where
  "frame_recv be write netif packet ll_len st =
     (let f = packet - 14; m = mem st; n16 = (\<lambda>a. ntohs be (load16 be a m))
      in if \<not> (ll_len > 0 \<and> (is_local_mac (if_mac netif) m f \<or> is_broadcast_mac m f \<or> is_any_mac m f))
         then (0, netif, st)
         else if n16 (f + 12) = FRAME_ARP then
           if n16 (f + 14) = 1 \<and> n16 (f + 16) = FRAME_IP \<and> n16 (f + 18) = 0x0604 then
             if n16 (f + 20) = 1 \<and> load_bytes 4 (f + 38) m = if_ip netif
             then (0, netif, write f 42 (set_mem (arp_reply be netif f) st))
             else if n16 (f + 20) = 2
             then (0, netif, st\<lparr>link := snd (arp_update (load_bytes 4 (f + 28) m) (load_bytes 6 (f + 22) m) (link st))\<rparr>)
             else (0, netif, st)
           else (0, netif, st)
         else if n16 (f + 12) = FRAME_IP then
           let len = uint (n16 (f + 16))
           in if ip_addr_isany (if_ip netif) then
                if m (f + 23) = IP_PROTO_ICMP \<and> len = 113 + 28
                then let ip = load_bytes 4 (f + 30) m
                     in (0, netif\<lparr>if_ip := ip, if_gateway := load_bytes 4 (f + 26) m, if_netmask := class_mask (ip ! 0)\<rparr>, st)
                else (0, netif, st)
              else (len, netif, st)
         else (0, netif, st))"

definition eth_recv :: "(byte list \<Rightarrow> 'd \<Rightarrow> 'd) \<Rightarrow> (u16 \<Rightarrow> 'd \<Rightarrow> int \<times> byte list \<times> 'd) \<Rightarrow> bool \<Rightarrow>
    netif_config_s \<Rightarrow> u32 \<Rightarrow> 'd link_state net_state \<Rightarrow> int \<times> netif_config_s \<times> 'd link_state net_state" where
  "eth_recv dev_write dev_read be netif packet st =
     (let (ll_len, bs, d) = dev_read (framelen netif) (dev (link st));
          st = set_mem (store_bytes (packet - 14) bs) st;
          st = st\<lparr>link := (link st)\<lparr>dev := d\<rparr>\<rparr>
      in frame_recv be (\<lambda>f len st. st\<lparr>link := (link st)\<lparr>dev := dev_write (load_bytes len f (mem st)) (dev (link st))\<rparr>\<rparr>)
           netif packet ll_len st)"

section \<open>The serial line\<close>

record tty =
  tty_in :: "byte list"
  tty_out :: "byte list"

abbreviation "MIN_FRAMELEN \<equiv> (594 :: nat)"

fun stuff :: "byte list \<Rightarrow> byte list" where
  "stuff [] = []"
| "stuff (b # bs) = (if b = 0x7E \<or> b = 0x7D then 0x7D # (b XOR 0x20) # stuff bs else b # stuff bs)"

definition tty_write :: "memory \<Rightarrow> u32 \<Rightarrow> u16 \<Rightarrow> byte list" where
  "tty_write m f len = 0x7E # stuff (load_bytes (min (unat len) MIN_FRAMELEN) f m) @ [0x7E]"

fun skip_to_flag :: "byte \<Rightarrow> byte list \<Rightarrow> byte list" where
  "skip_to_flag data [] = []"
| "skip_to_flag data (x # xs) = (if data \<noteq> 0x7E then skip_to_flag x xs else x # xs)"

text \<open>The loop of \<open>tty_read\<close>; \<open>n\<close> is the number of bytes the frame can still take.\<close>

fun read_frame :: "nat \<Rightarrow> u32 \<Rightarrow> memory \<Rightarrow> byte list \<Rightarrow> (nat \<times> memory \<times> byte list) option" where
  "read_frame 0 a m xs = Some (0, m, xs)"
| "read_frame (Suc n) a m [] = None"
| "read_frame (Suc n) a m (x # xs) =
     (if x = 0x7E then Some (0, m, xs)
      else if x = 0x7D then
        (case xs of [] \<Rightarrow> None
         | y # ys \<Rightarrow> map_option (\<lambda>(k, r). (Suc k, r)) (read_frame n (a + 1) (m(a := y XOR 0x20)) ys))
      else map_option (\<lambda>(k, r). (Suc k, r)) (read_frame n (a + 1) (m(a := x)) xs))"

definition tty_read :: "u32 \<Rightarrow> memory \<Rightarrow> byte list \<Rightarrow> (nat \<times> memory \<times> byte list) option" where
  "tty_read f m xs =
     (case xs of [] \<Rightarrow> Some (0, m, xs) | x # xs \<Rightarrow> read_frame MIN_FRAMELEN f m (skip_to_flag x xs))"

definition tty_frame_writer :: "tty frame_writer" where
  "tty_frame_writer f len st =
     st\<lparr>link := (link st)\<lparr>dev := (dev (link st))\<lparr>tty_out := tty_out (dev (link st)) @ tty_write (mem st) f (of_nat len)\<rparr>\<rparr>\<rparr>"

definition ser_send :: "bool \<Rightarrow> byte list \<Rightarrow> tty link_state net_send" where
  "ser_send be garbage = frame_send be garbage tty_frame_writer"

definition ser_recv :: "bool \<Rightarrow> netif_config_s \<Rightarrow> u32 \<Rightarrow> tty link_state net_state \<Rightarrow>
    (int \<times> netif_config_s \<times> tty link_state net_state) option" where
  "ser_recv be netif packet st =
     map_option (\<lambda>(ll_len, m, xs).
       frame_recv be tty_frame_writer netif packet (int ll_len)
         (st\<lparr>mem := m, link := (link st)\<lparr>dev := (dev (link st))\<lparr>tty_in := xs\<rparr>\<rparr>\<rparr>))
       (tty_read (packet - 14) (mem st) (tty_in (dev (link st))))"

section \<open>BOOTP\<close>

text \<open>Four calls of \<open>random\<close>, the low byte of each; the second component is the generator.\<close>

primrec random_bytes :: "nat \<Rightarrow> u32 \<Rightarrow> byte list \<times> u32" where
  "random_bytes 0 r = ([], r)"
| "random_bytes (Suc n) r =
     (let (v, r) = ucx_random r; (bs, r) = random_bytes n r in ((word_of_int v AND 0xFF) # bs, r))"

definition bootp_make_request :: "bool \<Rightarrow> netif_config_s \<Rightarrow> u32 \<Rightarrow> byte list \<Rightarrow> memory \<Rightarrow> memory" where
  "bootp_make_request be netif f xid m =
     (let m = ucx_memset (f + 14) 0 20 m;
          m = ucx_memset (f + 42) 0 300 m;
          m = m(f + 42 := 1);
          m = m(f + 43 := 1);
          m = m(f + 44 := 6);
          m = store_bytes (f + 46) xid m;
          m = store16 be (f + 52) (load16 be (f + 52) m OR htons be 0x8000) m;
          m = store_bytes (f + 70) (if_mac netif) m
      in store_bytes (f + 278) [99, 130, 83, 99, 255] m)"

text \<open>The loop over the options, each a tag, the length of its value and the value.\<close>

partial_function (option) read_options :: "memory \<Rightarrow> u32 \<Rightarrow> netif_config_s \<Rightarrow> netif_config_s option" where
  "read_options m ptr netif =
     (if m ptr = 255 then Some netif
      else read_options m (ptr + ucast (m (ptr + 1)) + 2)
        (if m ptr = 1 then netif\<lparr>if_netmask := load_bytes 4 (ptr + 2) m\<rparr>
         else if m ptr = 3 then netif\<lparr>if_gateway := load_bytes 4 (ptr + 2) m\<rparr>
         else netif))"

definition bootp_handle_reply :: "netif_config_s \<Rightarrow> u32 \<Rightarrow> byte list \<Rightarrow> memory \<Rightarrow> (nat \<times> netif_config_s) option" where
  "bootp_handle_reply netif f xid m =
     (if m (f + 42) \<noteq> 2 then Some (0, netif)
      else if m (f + 43) \<noteq> 1 then Some (0, netif)
      else if load_bytes 4 (f + 46) m \<noteq> xid \<or> load_bytes 4 (f + 278) m \<noteq> [0x63, 0x82, 0x53, 0x63] then Some (0, netif)
      else map_option (Pair 1) (read_options m (f + 282) (netif\<lparr>if_ip := load_bytes 4 (f + 58) m\<rparr>)))"

text \<open>
  The tries that are left; a try sends a request and looks once, a second later, for a reply.
  \<open>net_send\<close> is that of the interface, and the interface of the result has the addresses.
\<close>

primrec bootp_tries :: "nat \<Rightarrow> 'd link_state net_send \<Rightarrow> (u16 \<Rightarrow> 'd \<Rightarrow> int \<times> byte list \<times> 'd) \<Rightarrow> bool \<Rightarrow> u32 \<Rightarrow>
    u32 \<Rightarrow> netif_config_s \<Rightarrow> 'd link_state net_state \<Rightarrow> (int \<times> netif_config_s \<times> 'd link_state net_state) option" where
  "bootp_tries 0 net_send dev_read be r packet netif st = Some (0, netif, st)"
| "bootp_tries (Suc k) net_send dev_read be r packet netif st =
     (let f = packet - 14; (xid, r) = random_bytes 4 r
      in Option.bind (udp_out be net_send netif [255, 255, 255, 255] 68 67 packet (8 + 300)
           (set_mem (bootp_make_request be netif f xid) st)) (\<lambda>(_, st).
         let (ll_len, bs, d) = dev_read (framelen netif) (dev (link st));
             st = set_mem (store_bytes f bs) st;
             st = st\<lparr>link := (link st)\<lparr>dev := d\<rparr>\<rparr>;
             m = mem st
         in if ll_len > 0 \<and> (is_broadcast_mac m f \<or> is_any_mac m f) \<and>
               ntohs be (load16 be (f + 12) m) = FRAME_IP \<and> m (f + 23) = IP_PROTO_UDP \<and>
               ntohs be (load16 be (f + 36) m) = 68
            then Option.bind (bootp_handle_reply netif f xid m) (\<lambda>(ok, netif).
                   if ok \<noteq> 0 then Some (1, netif, st) else bootp_tries k net_send dev_read be r packet netif st)
            else bootp_tries k net_send dev_read be r packet netif st))"

definition bootp_boot :: "'d link_state net_send \<Rightarrow> (u16 \<Rightarrow> 'd \<Rightarrow> int \<times> byte list \<times> 'd) \<Rightarrow> bool \<Rightarrow> u32 \<Rightarrow>
    u32 \<Rightarrow> netif_config_s \<Rightarrow> 'd link_state net_state \<Rightarrow> (int \<times> netif_config_s \<times> 'd link_state net_state) option" where
  "bootp_boot = bootp_tries 3"

section \<open>The cache answers with the latest address\<close>

definition arp_inv :: "'d link_state \<Rightarrow> bool" where
  "arp_inv l \<longleftrightarrow> length (arp_cache l) = ARP_CACHE_SIZE \<and> arp_index l < ARP_CACHE_SIZE"

lemma arp_start_inv: "arp_inv (arp_start d)"
  by (simp add: arp_inv_def arp_start_def)

lemma arp_check_Some:
  "arp_check ip l = Some mac \<longleftrightarrow>
   (\<exists>i < length (arp_cache l). arp_cache l ! i = \<lparr>arp_ip = ip, arp_mac = mac\<rparr> \<and> (\<forall>j < i. arp_ip (arp_cache l ! j) \<noteq> ip))"
proof -
  define P :: "arp_entry_s \<Rightarrow> bool" where "P = (\<lambda>e. arp_ip e = ip)"
  have e: "e = \<lparr>arp_ip = ip, arp_mac = mac\<rparr> \<longleftrightarrow> arp_ip e = ip \<and> arp_mac e = mac" for e :: arp_entry_s
    by (cases e) auto
  consider (none) "index_from 0 P (arp_cache l) = -1" "\<forall>x \<in> set (arp_cache l). \<not> P x"
    | (some) k where "k < length (arp_cache l)" "index_from 0 P (arp_cache l) = int k" "P (arp_cache l ! k)"
        "\<forall>j < k. \<not> P (arp_cache l ! j)"
    using index_from_cases [of 0 P "arp_cache l"] by auto
  then show ?thesis
  proof cases
    case none
    then show ?thesis by (auto simp: arp_check_def arp_find_def P_def e)
  next
    case some
    then show ?thesis unfolding arp_check_def arp_find_def P_def e
      by (auto simp: Let_def) (metis linorder_neqE_nat)
  qed
qed

lemma index_from_upd:
  "k < length xs \<Longrightarrow> \<not> P (xs ! k) \<Longrightarrow> \<not> P y \<Longrightarrow> index_from i P (xs[k := y]) = index_from i P xs"
proof (induction i P xs arbitrary: k rule: index_from.induct)
  case (2 i P x xs)
  then show ?case by (cases k) auto
qed simp

lemma arp_check_upd:
  assumes "k < length (arp_cache l)" and "arp_ip (arp_cache l ! k) \<noteq> ip'" and "arp_ip e \<noteq> ip'"
    and l': "arp_cache l' = (arp_cache l)[k := e]"
  shows "arp_check ip' l' = arp_check ip' l"
proof -
  have f: "arp_find ip' l' = arp_find ip' l"
    unfolding arp_find_def l' by (rule index_from_upd) (use assms in auto)
  have "nat (arp_find ip' l) \<noteq> k" if "arp_find ip' l \<noteq> -1"
    using index_from_found(3) [of "\<lambda>e. arp_ip e = ip'" "arp_cache l"] that assms(2) by (auto simp: arp_find_def)
  then show ?thesis using f by (cases "arp_find ip' l = -1") (simp_all add: arp_check_def l' Let_def)
qed

text \<open>
  C24. The cache answers with the hardware address it was told last: after an update for an
  address, a check of it finds the new hardware address; every other address keeps its
  answer, but for the one whose entry a new address takes. The cache stays in its bounds.
\<close>

theorem arp_update_check:
  assumes "arp_inv l" and upd: "arp_update ip mac l = (r, l')"
  shows "arp_inv l' \<and> arp_check ip l' = Some mac \<and>
    (\<forall>ip'. ip' \<noteq> ip \<and> (r = 1 \<or> arp_ip (arp_cache l ! arp_index l) \<noteq> ip') \<longrightarrow> arp_check ip' l' = arp_check ip' l)"
proof (cases "arp_find ip l = -1")
  case False
  define i where "i = nat (arp_find ip l)"
  define e where "e = (arp_cache l ! i)\<lparr>arp_mac := mac\<rparr>"
  have i: "i < length (arp_cache l)" "arp_ip (arp_cache l ! i) = ip" "\<forall>j < i. arp_ip (arp_cache l ! j) \<noteq> ip"
    using index_from_found [of "\<lambda>e. arp_ip e = ip" "arp_cache l" "arp_find ip l"] False
    by (simp_all add: arp_find_def i_def)
  have l': "r = 1" "arp_cache l' = (arp_cache l)[i := e]" "arp_index l' = arp_index l"
    using upd False by (auto simp: arp_update_def i_def e_def Let_def)
  have "arp_check ip l' = Some mac" unfolding arp_check_Some
    by (rule exI [of _ i]) (use i l' in \<open>auto simp: e_def\<close>)
  moreover have "arp_check ip' l' = arp_check ip' l" if "ip' \<noteq> ip" for ip'
    by (rule arp_check_upd [OF i(1) _ _ l'(2)]) (use i that in \<open>simp_all add: e_def\<close>)
  ultimately show ?thesis using assms(1) l' by (simp add: arp_inv_def)
next
  case True
  then have no: "\<forall>x \<in> set (arp_cache l). arp_ip x \<noteq> ip"
    using index_from_notfound [of 0 "\<lambda>e. arp_ip e = ip" "arp_cache l"] by (simp add: arp_find_def)
  define k where "k = arp_index l"
  have k: "k < length (arp_cache l)" using assms(1) by (simp add: arp_inv_def k_def)
  have l': "r = 0" "arp_cache l' = (arp_cache l)[k := \<lparr>arp_ip = ip, arp_mac = mac\<rparr>]"
    "arp_index l' = (k + 1) mod ARP_CACHE_SIZE"
    using upd True by (auto simp: arp_update_def k_def Let_def)
  have "arp_check ip l' = Some mac" unfolding arp_check_Some
    by (rule exI [of _ k]) (use k l' no in auto)
  moreover have "arp_check ip' l' = arp_check ip' l"
    if "ip' \<noteq> ip" "arp_ip (arp_cache l ! k) \<noteq> ip'" for ip'
    by (rule arp_check_upd [OF k _ _ l'(2)]) (use that in simp_all)
  ultimately show ?thesis using assms(1) l' by (simp add: arp_inv_def k_def)
qed

section \<open>Frames on the serial line\<close>

lemma stuff_no_flag: "0x7E \<notin> set (stuff bs)"
proof (induction bs)
  case (Cons b bs)
  have "b XOR 0x20 \<noteq> 0x7E" if "b = 0x7E \<or> b = 0x7D" using that by auto
  with Cons show ?case by auto
qed simp

lemma xor_twice: "(b XOR 0x20) XOR 0x20 = (b :: byte)"
  by (simp add: xor.assoc)

text \<open>A frame that fits with room for one more byte is read to its flag; one that fills the room is not.\<close>

lemma read_frame_stuff:
  "length bs < n \<Longrightarrow> read_frame n a m (stuff bs @ 0x7E # rest) = Some (length bs, store_bytes a bs m, rest)"
proof (induction bs arbitrary: n a m)
  case Nil
  then show ?case by (cases n) auto
next
  case (Cons b bs)
  then obtain k where k: "n = Suc k" "length bs < k" by (cases n) auto
  define mb where "mb = m(a := b)"
  have "store_bytes a (b # bs) m = store_bytes (a + 1) bs mb" by (simp add: mb_def)
  moreover note Cons.IH [of k "a + 1" mb] k
  ultimately show ?case by (auto simp: xor_twice mb_def [symmetric] simp del: store_bytes.simps)
qed

lemma read_frame_full:
  "length bs = n \<Longrightarrow> read_frame n a m (stuff bs @ rest) = Some (n, store_bytes a bs m, rest)"
proof (induction bs arbitrary: n a m)
  case (Cons b bs)
  then obtain k where k: "n = Suc k" "length bs = k" by (cases n) auto
  define mb where "mb = m(a := b)"
  have "store_bytes a (b # bs) m = store_bytes (a + 1) bs mb" by (simp add: mb_def)
  moreover note Cons.IH [of k "a + 1" mb] k
  ultimately show ?case by (auto simp: xor_twice mb_def [symmetric] simp del: store_bytes.simps)
qed simp

lemma skip_to_flag_at: "skip_to_flag 0x7E xs = xs"
  by (cases xs) simp_all

text \<open>
  A frame of less than 594 bytes crosses the serial line: what \<open>tty_write\<close> sends, \<open>tty_read\<close>
  returns, byte by byte, flags and escapes among them, and takes nothing of what follows.
\<close>

theorem serial_frame_roundtrip:
  assumes "unat len < MIN_FRAMELEN"
  shows "tty_read f' m' (tty_write m f len @ rest) =
     Some (unat len, store_bytes f' (load_bytes (unat len) f m) m', rest)"
proof -
  have "length (load_bytes (unat len) f m) = unat len" by (simp add: load_bytes_def)
  with read_frame_stuff [of "load_bytes (unat len) f m" MIN_FRAMELEN f' m' rest] assms show ?thesis
    by (simp add: tty_read_def tty_write_def min_def skip_to_flag_at)
qed

text \<open>
  The frames the reads return, while there are any; the frame buffer is read into again and
  again.
\<close>

primrec tty_reads :: "nat \<Rightarrow> u32 \<Rightarrow> memory \<Rightarrow> byte list \<Rightarrow> nat list option" where
  "tty_reads 0 f m xs = Some []"
| "tty_reads (Suc k) f m xs =
     Option.bind (tty_read f m xs) (\<lambda>(n, m, xs). map_option (Cons n) (tty_reads k f m xs))"

lemma skip_to_flag_stuff:
  "d \<noteq> 0x7E \<Longrightarrow> 0x7E \<notin> set bs \<Longrightarrow> skip_to_flag d (bs @ 0x7E # x # xs) = x # xs"
proof (induction bs arbitrary: d)
  case Nil
  then show ?case by simp
next
  case (Cons b bs)
  then show ?case by (cases bs) auto
qed

lemma read_frame_flag: "0 < n \<Longrightarrow> read_frame n a m (0x7E # xs) = Some (0, m, xs)"
  by (cases n) simp_all

lemma tty_read_off_by_one:
  "tty_read f m (stuff bs @ 0x7E # 0x7E # xs) = Some (0, m, xs)"
proof (cases "stuff bs")
  case Nil
  then show ?thesis by (simp add: tty_read_def read_frame_flag)
next
  case (Cons d ds)
  then have "d \<noteq> 0x7E" "0x7E \<notin> set ds" using stuff_no_flag [of bs] by auto
  then show ?thesis using Cons skip_to_flag_stuff [of d ds "0x7E" xs] by (simp add: tty_read_def read_frame_flag)
qed

lemma tty_reads_off_by_one:
  "tty_reads (length fs) f m (stuff bs @ 0x7E # concat (map (\<lambda>g. 0x7E # stuff g @ [0x7E]) fs)) =
   Some (replicate (length fs) 0)"
proof (induction fs arbitrary: bs)
  case (Cons g fs)
  have "stuff bs @ 0x7E # concat (map (\<lambda>g. 0x7E # stuff g @ [0x7E]) (g # fs)) =
      stuff bs @ 0x7E # 0x7E # (stuff g @ 0x7E # concat (map (\<lambda>g. 0x7E # stuff g @ [0x7E]) fs))"
    by simp
  with Cons [of g] show ?case by (simp add: tty_read_off_by_one)
qed simp

text \<open>
  A frame of 594 bytes or more ends the communication: the loop of \<open>tty_read\<close> stops at its
  bound and leaves the closing flag, which the next read takes for an opening one; from then
  on every read returns an empty frame, however many frames follow.
\<close>

theorem full_frame_loses_all_frames:
  assumes "MIN_FRAMELEN \<le> unat len"
  shows "tty_reads (Suc (length gs)) f m (tty_write m' f' len @ concat (map (\<lambda>g. 0x7E # stuff g @ [0x7E]) gs)) =
     Some (MIN_FRAMELEN # replicate (length gs) 0)"
proof -
  define bs where "bs = load_bytes MIN_FRAMELEN f' m'"
  define fs where "fs = concat (map (\<lambda>g. 0x7E # stuff g @ [0x7E]) gs)"
  have l: "length bs = MIN_FRAMELEN" by (simp add: bs_def load_bytes_def)
  have "tty_write m' f' len @ fs = 0x7E # stuff bs @ 0x7E # fs"
    using assms by (simp add: tty_write_def bs_def min_def)
  moreover have "tty_read f m (0x7E # stuff bs @ 0x7E # fs) = Some (MIN_FRAMELEN, store_bytes f bs m, 0x7E # fs)"
    using read_frame_full [OF l, of f m "0x7E # fs"] by (simp add: tty_read_def skip_to_flag_at)
  moreover have "tty_reads (length gs) f (store_bytes f bs m) (0x7E # fs) = Some (replicate (length gs) 0)"
    using tty_reads_off_by_one [of gs f "store_bytes f bs m" "[]"] by (simp add: fs_def)
  ultimately show ?thesis by (simp add: fs_def)
qed

section \<open>A packet across the serial line\<close>

lemma store_bytes_at:
  "i < length bs \<Longrightarrow> length bs \<le> 2 ^ 32 \<Longrightarrow> store_bytes a bs m (a + of_nat i) = bs ! i"
proof (induction bs arbitrary: a m i)
  case (Cons b bs)
  show ?case
  proof (cases i)
    case 0
    have "offset (a + 1) a = 2 ^ 32 - 1" by (rule offset_last)
    then have "store_bytes (a + 1) bs (m(a := b)) a = b"
      using store_bytes_other [of bs a "a + 1" "m(a := b)"] Cons.prems(2) by simp
    with 0 show ?thesis by simp
  next
    case (Suc j)
    define mb where "mb = m(a := b)"
    have "a + of_nat i = a + 1 + of_nat j" using Suc by simp
    moreover have "store_bytes (a + 1) bs mb (a + 1 + of_nat j) = bs ! j" using Suc Cons by simp
    ultimately show ?thesis using Suc by (simp only: store_bytes.simps mb_def [symmetric] nth_Cons_Suc)
  qed
qed simp

text \<open>The frame that goes out for a packet whose destination is in the cache.\<close>

definition eth_framed :: "netif_config_s \<Rightarrow> byte list \<Rightarrow> u32 \<Rightarrow> memory \<Rightarrow> memory" where
  "eth_framed netif mac f m =
     (store_bytes f mac (store_bytes (f + 6) (if_mac netif) m))(f + 12 := 0x08, f + 13 := 0x00)"

lemma length_6E:
  assumes "length xs = 6"
  obtains a b c d e g where "xs = [a, b, c, d, e, g]"
  using assms by (auto simp: length_Suc_conv eval_nat_numeral)

lemma eth_framed_fields:
  assumes "length (if_mac netif) = 6" and "length mac = 6"
  shows "load_bytes 6 f (eth_framed netif mac f m) = mac" and "net16 (f + 12) (eth_framed netif mac f m) = FRAME_IP"
    and "14 \<le> unat (x - f) \<Longrightarrow> eth_framed netif mac f m x = m x"
proof -
  from assms obtain a b c d e g a' b' c' d' e' g' where l: "if_mac netif = [a, b, c, d, e, g]" "mac = [a', b', c', d', e', g']"
    by (metis length_6E)
  show "load_bytes 6 f (eth_framed netif mac f m) = mac" "net16 (f + 12) (eth_framed netif mac f m) = FRAME_IP"
    by (simp_all add: eth_framed_def l net16_def add.assoc word_cat_eq)
  show "eth_framed netif mac f m x = m x" if far: "14 \<le> unat (x - f)"
    using not_below [OF _ far, of 0] not_below [OF _ far, of 1] not_below [OF _ far, of 2] not_below [OF _ far, of 3]
      not_below [OF _ far, of 4] not_below [OF _ far, of 5] not_below [OF _ far, of 6] not_below [OF _ far, of 7]
      not_below [OF _ far, of 8] not_below [OF _ far, of 9] not_below [OF _ far, of 10] not_below [OF _ far, of 11]
      not_below [OF _ far, of 12] not_below [OF _ far, of 13]
    by (simp add: eth_framed_def l add.assoc)
qed

lemma frame_send_known:
  assumes "dest_mac garbage netif (load_bytes 4 (p + 16) (mem st)) (link st) = Some mac"
  shows "frame_send be garbage write netif p len st =
     Some (int (unat len) + 14, write (p - 14) (unat len + 14) (set_mem (eth_framed netif mac (p - 14)) st))"
proof -
  have e: "p - 14 + 30 = p + 16" by simp
  have t: "p - 14 + 12 + 1 = p - 14 + 13" by (simp add: add.assoc)
  have lo: "(2048 :: byte) = 0" by simp
  show ?thesis using assms
    unfolding frame_send_def Let_def e by (simp add: set_mem_def eth_framed_def t lo)
qed

text \<open>
  What the receiver finds for a frame that fits the line: the bytes of the frame, and of the
  input only what follows.
\<close>

lemma ser_recv_frame:
  assumes "unat len < MIN_FRAMELEN" and "tty_in (dev (link st)) = tty_write m f len @ rest"
  shows "ser_recv be netif q st = Some (frame_recv be tty_frame_writer netif q (int (unat len))
     (st\<lparr>mem := store_bytes (q - 14) (load_bytes (unat len) f m) (mem st),
         link := (link st)\<lparr>dev := (dev (link st))\<lparr>tty_in := rest\<rparr>\<rparr>\<rparr>))"
  using serial_frame_roundtrip [OF assms(1)] assms(2) by (simp add: ser_recv_def)

lemma frame_recv_ip:
  assumes "0 < ll_len" and "load_bytes 6 (q - 14) (mem st) = if_mac netif"
    and "net16 (q - 14 + 12) (mem st) = FRAME_IP" and "if_ip netif \<noteq> [0, 0, 0, 0]"
  shows "frame_recv be write netif q ll_len st = (uint (net16 (q + 2) (mem st)), netif, st)"
proof -
  have e: "q - 14 + 16 = q + 2" by simp
  show ?thesis using assms unfolding frame_recv_def Let_def ntohs_load16 e
    by (simp add: is_local_mac_def ip_addr_isany_def)
qed

text \<open>
  C9. A UDP packet crosses the serial line: an application that sends at most 551 bytes to a
  host whose hardware address it has in its cache makes the line carry a frame that the
  receiver takes whole; \<open>ser_recv\<close> returns the length of the packet, and \<open>ip_in\<close> delivers it,
  with the ports, the length and every byte of the data of the sender.
\<close>

theorem udp_crosses_serial_line:
  assumes if_a: "length (if_ip a) = 4" "length (if_mac a) = 6" and "length dst_addr = 4" "length mac_b = 6"
    and known: "dest_mac garbage a dst_addr (link st) = Some mac_b"
    and if_b: "if_mac b = mac_b" "if_ip b = dst_addr" "dst_addr \<noteq> [0, 0, 0, 0]"
    and len: "8 \<le> unat len" "unat len \<le> 559"
  shows "\<exists>frame st'.
     udp_out be (ser_send be garbage) a dst_addr src_port dst_port p len st = Some (int (unat len) + 34, st') \<and>
     tty_out (dev (link st')) = tty_out (dev (link st)) @ frame \<and>
     (\<forall>be' st_b rest. tty_in (dev (link st_b)) = frame @ rest \<longrightarrow>
        (\<exists>st_b'. ser_recv be' b q st_b = Some (int (unat len) + 20, b, st_b') \<and>
           tty_in (dev (link st_b')) = rest \<and>
           (\<forall>net_send icb ucb n. ip_in be' net_send icb ucb b dst_addr q n st_b' =
              udp_deliver be' net_send ucb b q len (st_b'\<lparr>mem := (mem st_b')(q + 26 := 0, q + 27 := 0)\<rparr>)) \<and>
           net16 (q + 20) (mem st_b') = src_port \<and> net16 (q + 22) (mem st_b') = dst_port \<and>
           (\<forall>i. 28 \<le> i \<and> i < unat len + 20 \<longrightarrow> mem st_b' (q + of_nat i) = mem st (p + of_nat i))))"
proof -
  define m where "m = udp_sent a dst_addr src_port dst_port p len (mem st)"
  have len': "unat len \<le> 65527" using len by simp
  note ok = udp_sent_ok [OF if_a(1) assms(3) len' m_def]
  define f where "f = p - 14"
  define M where "M = eth_framed a mac_b f m"
  note framed = eth_framed_fields [OF if_a(2) assms(4), where f = f and m = m, folded M_def]
  define N where "N = len + 20 + 14"
  have l20: "unat (len + 20) = unat len + 20" using len by (simp add: unat_word_ariths)
  have N: "unat N = unat len + 34" using len by (simp add: N_def unat_word_ariths)
  define frame where "frame = tty_write M f N"
  have dst: "load_bytes 4 (p + 16) m = dst_addr" using ok(1) by (simp only: udp_ok_def header_ok_def)
  define st1 where "st1 = set_mem (eth_framed a mac_b f) (st\<lparr>mem := m\<rparr>)"
  have "udp_out be (ser_send be garbage) a dst_addr src_port dst_port p len st =
      ser_send be garbage a p (len + 20) (st\<lparr>mem := m\<rparr>)"
    using len' by (simp add: udp_out_sends set_mem_def m_def)
  also have "\<dots> = Some (int (unat (len + 20)) + 14, tty_frame_writer f (unat (len + 20) + 14) st1)"
    unfolding ser_send_def st1_def f_def by (rule frame_send_known) (use known dst in simp)
  finally have out: "udp_out be (ser_send be garbage) a dst_addr src_port dst_port p len st =
      Some (int (unat len) + 34, tty_frame_writer f (unat N) st1)"
    by (simp add: l20 N add.commute)
  have wr: "tty_out (dev (link (tty_frame_writer f (unat N) st1))) = tty_out (dev (link st)) @ frame"
    by (simp add: tty_frame_writer_def st1_def set_mem_def frame_def M_def)
  have in_frame: "M (p + of_nat i) = m (p + of_nat i)" if "i < unat len + 20" for i
  proof (rule framed(3))
    have "p + of_nat i - f = of_nat (14 + i)" by (simp add: f_def)
    then show "14 \<le> unat (p + of_nat i - f)" using that len by (simp only: unat_of_nat) simp
  qed
  have recv: "\<exists>st_b'. ser_recv be' b q st_b = Some (int (unat len) + 20, b, st_b') \<and>
      tty_in (dev (link st_b')) = rest \<and>
      (\<forall>net_send icb ucb n. ip_in be' net_send icb ucb b dst_addr q n st_b' =
         udp_deliver be' net_send ucb b q len (st_b'\<lparr>mem := (mem st_b')(q + 26 := 0, q + 27 := 0)\<rparr>)) \<and>
      net16 (q + 20) (mem st_b') = src_port \<and> net16 (q + 22) (mem st_b') = dst_port \<and>
      (\<forall>i. 28 \<le> i \<and> i < unat len + 20 \<longrightarrow> mem st_b' (q + of_nat i) = mem st (p + of_nat i))"
    if inp: "tty_in (dev (link st_b)) = frame @ rest" for be' st_b rest
  proof -
    define g where "g = q - 14"
    define bs where "bs = load_bytes (unat N) f M"
    define m2 where "m2 = store_bytes g bs (mem st_b)"
    define st_b' where "st_b' = st_b\<lparr>mem := m2, link := (link st_b)\<lparr>dev := (dev (link st_b))\<lparr>tty_in := rest\<rparr>\<rparr>\<rparr>"
    have at: "m2 (g + of_nat i) = M (f + of_nat i)" if "i < unat len + 34" for i
      unfolding m2_def bs_def using that len by (subst store_bytes_at) (simp_all add: load_bytes_def N)
    have pk: "m2 (q + of_nat i) = m (p + of_nat i)" if "i < unat len + 20" for i
    proof -
      have e: "q + of_nat i = g + of_nat (14 + i)" "p + of_nat i = f + of_nat (14 + i)" by (simp_all add: g_def f_def)
      show ?thesis using at [of "14 + i"] in_frame [OF that] that unfolding e by (simp del: of_nat_add)
    qed
    have head: "load_bytes 6 g m2 = mac_b" "net16 (g + 12) m2 = FRAME_IP"
      using at [of 0] at [of 1] at [of 2] at [of 3] at [of 4] at [of 5] at [of 12] at [of 13] framed(1,2)
      by (simp_all add: net16_def add.assoc)
    have ok2: "udp_ok m2 q dst_addr len" using udp_ok_moved [OF ok(1) len(1) pk] .
    have r: "ser_recv be' b q st_b = Some (frame_recv be' tty_frame_writer b q (int (unat N)) st_b')"
      using ser_recv_frame [of N st_b M f rest be' b q] inp N len
      by (simp add: frame_def st_b'_def m2_def g_def bs_def)
    have plen: "net16 (q + 2) m2 = len + 20"
      using ok(5) pk [of 2] pk [of 3] by (simp add: net16_def add.assoc)
    have "frame_recv be' tty_frame_writer b q (int (unat N)) st_b' = (uint (net16 (q + 2) (mem st_b')), b, st_b')"
    proof (rule frame_recv_ip)
      show "0 < int (unat N)" using N by linarith
    qed (use head if_b in \<open>simp_all add: st_b'_def g_def\<close>)
    then have "ser_recv be' b q st_b = Some (int (unat len) + 20, b, st_b')"
      using r plen l20 by (simp add: st_b'_def) (metis l20 of_nat_add of_nat_numeral uint_nat)
    moreover have "net16 (q + 20) m2 = src_port" "net16 (q + 22) m2 = dst_port"
      using len(1) ok(2,3) pk [of 20] pk [of 21] pk [of 22] pk [of 23] by (simp_all add: net16_def add.assoc)
    moreover have "m2 (q + of_nat i) = mem st (p + of_nat i)" if "28 \<le> i" "i < unat len + 20" for i
    proof -
      have "p + of_nat i - p = of_nat i" by simp
      then have "28 \<le> unat (p + of_nat i - p)" using that len by (simp only: unat_of_nat) simp
      then have "m (p + of_nat i) = mem st (p + of_nat i)" unfolding m_def by (rule udp_sent_other [OF if_a(1) assms(3)])
      with pk that show ?thesis by simp
    qed
    moreover have "ip_in be' net_send icb ucb b dst_addr q n st_b' =
         udp_deliver be' net_send ucb b q len (st_b'\<lparr>mem := (mem st_b')(q + 26 := 0, q + 27 := 0)\<rparr>)" for net_send icb ucb n
      by (rule ip_in_udp_ok) (use ok2 in \<open>simp add: st_b'_def\<close>)
    ultimately show ?thesis by (intro exI [of _ st_b']) (simp add: st_b'_def)
  qed
  show ?thesis using out wr recv by blast
qed

section \<open>Options of a BOOTP reply\<close>

text \<open>Options as a server writes them: a tag, the length, the value; 255 ends them.\<close>

fun encode_options :: "(byte \<times> byte list) list \<Rightarrow> byte list" where
  "encode_options [] = [255]"
| "encode_options ((t, v) # os) = t # of_nat (length v) # v @ encode_options os"

text \<open>What the options that are known make of the interface.\<close>

fun apply_option :: "byte \<times> byte list \<Rightarrow> netif_config_s \<Rightarrow> netif_config_s" where
  "apply_option (t, v) netif = (if t = 1 then netif\<lparr>if_netmask := v\<rparr>
     else if t = 3 then netif\<lparr>if_gateway := v\<rparr> else netif)"

definition well_formed_option :: "byte \<times> byte list \<Rightarrow> bool" where
  "well_formed_option = (\<lambda>(t, v). t \<noteq> 255 \<and> length v < 256 \<and> (t = 1 \<or> t = 3 \<longrightarrow> length v = 4))"

lemma load_bytes_append:
  "load_bytes (k + n) a m = load_bytes k a m @ load_bytes n (a + of_nat k) m"
  by (rule nth_equalityI) (auto simp: load_bytes_def nth_append algebra_simps of_nat_diff)

text \<open>
  The loop over the options of a BOOTP reply returns on options that are well formed, and
  sets the network mask and the gateway to the last values the reply has for them.
\<close>

theorem read_options_encoded:
  assumes "\<forall>ov \<in> set os. well_formed_option ov"
    and "load_bytes (length (encode_options os)) ptr m = encode_options os"
  shows "read_options m ptr netif = Some (fold apply_option os netif)"
  using assms
proof (induction os arbitrary: ptr netif)
  case Nil
  then have "m ptr = 255" by (simp add: load_bytes_def)
  then show ?case by (subst read_options.simps) simp
next
  case (Cons ov os)
  obtain t v where ov: "ov = (t, v)" by force
  define n where "n = length v"
  have wf: "t \<noteq> 255" "n < 256" "t = 1 \<or> t = 3 \<Longrightarrow> n = 4" using Cons.prems(1) by (auto simp: ov well_formed_option_def n_def)
  have "load_bytes (1 + (1 + (n + length (encode_options os)))) ptr m = t # of_nat n # v @ encode_options os"
    using Cons.prems(2) by (simp add: ov n_def)
  then have eq: "load_bytes 1 ptr m @ load_bytes 1 (ptr + 1) m @ load_bytes n (ptr + 2) m @
      load_bytes (length (encode_options os)) (ptr + 2 + of_nat n) m = [t] @ [of_nat n] @ v @ encode_options os"
    unfolding load_bytes_append by (simp add: add.assoc)
  then have b: "m ptr = t" "m (ptr + 1) = of_nat n" "load_bytes n (ptr + 2) m = v"
    "load_bytes (length (encode_options os)) (ptr + 2 + of_nat n) m = encode_options os"
    by (simp_all add: load_bytes_def n_def)
  have len: "ucast (m (ptr + 1)) = (of_nat n :: u32)"
  proof -
    have "unat (of_nat n :: byte) = n" using wf(2) by (simp add: unat_of_nat)
    moreover have "ucast (of_nat n :: byte) = (of_nat (unat (of_nat n :: byte)) :: u32)" by simp
    ultimately show ?thesis unfolding b(2) by simp
  qed
  have "read_options m (ptr + 2 + of_nat n) (apply_option ov netif) = Some (fold apply_option os (apply_option ov netif))"
    using Cons.IH [OF _ b(4)] Cons.prems(1) by simp
  moreover have "ptr + ucast (m (ptr + 1)) + 2 = ptr + 2 + of_nat n" unfolding len by (simp add: algebra_simps)
  moreover have "read_options m ptr netif = read_options m (ptr + ucast (m (ptr + 1)) + 2) (apply_option ov netif)"
    using wf b(1,3) by (subst read_options.simps) (auto simp: ov)
  ultimately show ?case by (simp only: fold_simps)
qed

section \<open>Sample runs\<close>

definition sample_link :: "tty link_state" where
  "sample_link = \<lparr>arp_cache = \<lparr>arp_ip = [10, 0, 0, 2], arp_mac = [2, 2, 2, 2, 2, 2]\<rparr> #
     replicate 15 \<lparr>arp_ip = replicate 4 0, arp_mac = replicate 6 0\<rparr>, arp_index = 1, dev = \<lparr>tty_in = [], tty_out = []\<rparr>\<rparr>"

definition sample_peer :: netif_config_s where
  "sample_peer = sample_if\<lparr>if_mac := [2, 2, 2, 2, 2, 2], if_ip := [10, 0, 0, 2]\<rparr>"

lemma sample_known: "dest_mac garbage sample_if [10, 0, 0, 2] sample_link = Some [2, 2, 2, 2, 2, 2]"
  by (simp add: dest_mac_def ip_addr_isany_def ip_addr_isbroadcast_def ip_addr_ismulticast_def Let_def sample_if_def
      arp_check_def arp_find_def sample_link_def)

theorem arp_update_check_witness:
  "arp_check [10, 0, 0, 3] (snd (arp_update [10, 0, 0, 3] [3, 3, 3, 3, 3, 3] sample_link)) = Some [3, 3, 3, 3, 3, 3]"
proof -
  have "arp_inv sample_link" by (simp add: arp_inv_def sample_link_def)
  from arp_update_check [OF this surjective_pairing, of "[10, 0, 0, 3]" "[3, 3, 3, 3, 3, 3]"] show ?thesis by blast
qed

theorem serial_frame_roundtrip_witness:
  "tty_read 200 (\<lambda>_. 0) (tty_write (\<lambda>_. 0x7E) 100 3 @ [1]) = Some (3, store_bytes 200 [0x7E, 0x7E, 0x7E] (\<lambda>_. 0), [1])"
  using serial_frame_roundtrip [of 3 200 "\<lambda>_. 0" "\<lambda>_. 0x7E" 100 "[1]"] by (simp add: load_bytes_def upt_rec)

theorem full_frame_loses_all_frames_witness:
  "tty_reads (Suc (length [[1], [2 :: byte]])) 100 (\<lambda>_. 0)
     (tty_write (\<lambda>_. 0) 100 594 @ concat (map (\<lambda>g. 0x7E # stuff g @ [0x7E]) [[1], [2]])) =
   Some (MIN_FRAMELEN # replicate (length [[1], [2 :: byte]]) 0)"
  by (rule full_frame_loses_all_frames) simp

text \<open>Ten bytes of UDP go from one host to the other, and the callback of the receiver sees the port.\<close>

theorem udp_crosses_serial_line_witness:
  "\<exists>st st_b st_b'. udp_out False (ser_send False []) sample_if [10, 0, 0, 2] 5000 4000 100 10
       \<lparr>mem = (\<lambda>_. 0x7E), link = sample_link\<rparr> = Some (44, st) \<and>
     tty_in (dev (link st_b)) = tty_out (dev (link st)) \<and>
     ser_recv True sample_peer 300 st_b = Some (30, sample_peer, st_b') \<and>
     net16 322 (mem st_b') = 4000 \<and> mem st_b' 329 = 0x7E"
proof -
  define st0 :: "tty link_state net_state" where "st0 = \<lparr>mem = (\<lambda>_. 0x7E), link = sample_link\<rparr>"
  have pre: "length (if_ip sample_if) = 4" "length (if_mac sample_if) = 6" "length [10, 0, 0, 2 :: byte] = 4"
    "length [2, 2, 2, 2, 2, 2 :: byte] = 6" "dest_mac [] sample_if [10, 0, 0, 2] (link st0) = Some [2, 2, 2, 2, 2, 2]"
    "if_mac sample_peer = [2, 2, 2, 2, 2, 2]" "if_ip sample_peer = [10, 0, 0, 2]" "[10, 0, 0, 2 :: byte] \<noteq> [0, 0, 0, 0]"
    "8 \<le> unat (10 :: u16)" "unat (10 :: u16) \<le> 559"
    using sample_known by (simp_all add: sample_if_def sample_peer_def st0_def)
  obtain frame st where f:
    "udp_out False (ser_send False []) sample_if [10, 0, 0, 2] 5000 4000 100 10 st0 = Some (int (unat (10 :: u16)) + 34, st)"
    "tty_out (dev (link st)) = tty_out (dev (link st0)) @ frame"
    "\<And>be' st_b rest. tty_in (dev (link st_b)) = frame @ rest \<Longrightarrow>
        \<exists>st_b'. ser_recv be' sample_peer 300 st_b = Some (int (unat (10 :: u16)) + 20, sample_peer, st_b') \<and>
           net16 (300 + 22) (mem st_b') = 4000 \<and>
           (\<forall>i. 28 \<le> i \<and> i < unat (10 :: u16) + 20 \<longrightarrow> mem st_b' (300 + of_nat i) = mem st0 (100 + of_nat i))"
    using udp_crosses_serial_line [OF pre, of False 5000 4000 100 300] 
    apply (elim exE conjE)
    apply (rule that)
    apply assumption+
    apply (drule spec, drule spec, drule spec, drule mp, assumption)
    apply (elim exE conjE)
    apply (intro exI conjI)
    apply assumption+
    done
  define st_b where "st_b = st0\<lparr>link := sample_link\<lparr>dev := \<lparr>tty_in = frame, tty_out = []\<rparr>\<rparr>\<rparr>"
  have "tty_in (dev (link st_b)) = frame @ []" by (simp add: st_b_def)
  from f(3) [OF this, of True] obtain st_b' where b:
      "ser_recv True sample_peer 300 st_b = Some (int (unat (10 :: u16)) + 20, sample_peer, st_b')"
      "net16 (300 + 22) (mem st_b') = 4000"
    and data: "\<forall>i. 28 \<le> i \<and> i < unat (10 :: u16) + 20 \<longrightarrow> mem st_b' (300 + of_nat i) = mem st0 (100 + of_nat i)"
    by blast
  have "mem st_b' 329 = 0x7E" using data [rule_format, of 29] by (simp add: st0_def)
  moreover have "tty_out (dev (link st)) = tty_in (dev (link st_b))" using f(2) by (simp add: st_b_def st0_def sample_link_def)
  ultimately show ?thesis using f(1) b unfolding st0_def [symmetric] by auto
qed

end
